(* ===== verification/Prelude.thy ===== *)
theory Prelude
  imports Main "HOL-Library.Word" "HOL-Library.Sublist"
begin

unbundle bit_operations_syntax

section \<open>Shared types, constants and automation\<close>

text \<open>
  Bytes are \<open>8 word\<close>: the code reads every \<^verbatim>\<open>char\<close> through an
  \<^verbatim>\<open>unsigned char\<close> cast or compares it with ASCII constants, where the sign of
  \<^verbatim>\<open>char\<close> does not matter. A C string or buffer is a list of bytes; a cursor
  \<open>p .. end\<close> into a buffer is the list of the bytes that remain.
\<close>

type_synonym u8 = "8 word"
type_synonym u16 = "16 word"
type_synonym u32 = "32 word"
type_synonym u64 = "64 word"
type_synonym bytes = "u8 list"

text \<open>ASCII text as bytes, for the string literals of the code.\<close>

definition ascii :: "string \<Rightarrow> bytes" where
  "ascii = map (\<lambda>c. of_char c)"

text \<open>
  The collections the component theories fill: \<open>byte_class\<close> holds the definitions of
  the character classes, \<open>consume\<close> the facts that a reader leaves less input than it
  was given.
\<close>

named_theorems byte_class
named_theorems consume

definition is_digit :: "u8 \<Rightarrow> bool" where
  [byte_class]: "is_digit c \<longleftrightarrow> 0x30 \<le> c \<and> c \<le> 0x39"

lemma length_ascii [simp]: "length (ascii s) = length s"
  by (simp add: ascii_def)

lemma ascii_Nil [simp]: "ascii [] = []"
  by (simp add: ascii_def)

lemma ascii_Cons: "ascii (c # s) = of_char c # ascii s"
  by (simp add: ascii_def)

text \<open>Masking the high bits of a byte, in terms of its value.\<close>

lemma u8_less: "unat (c :: u8) < 256"
  using unsigned_less [of c] by simp

lemma and_high_bits: "(c :: 'a::len word) AND NOT (mask k) = push_bit k (drop_bit k c)"
  by (rule bit_eqI) (auto simp: bit_simps)

lemma unat_and_high: "unat ((c :: u8) AND NOT (mask k)) = unat c div 2 ^ k * 2 ^ k"
proof -
  have "unat c div 2 ^ k * 2 ^ k \<le> unat c" by simp
  also have "\<dots> < 256" by (rule u8_less)
  finally have block: "take_bit 8 (unat c div 2 ^ k * 2 ^ k) = unat c div 2 ^ k * 2 ^ k"
    by (simp add: take_bit_nat_eq_self)
  have "take_bit 8 (unat c) = unat c"
    using u8_less [of c] by (simp add: take_bit_nat_eq_self)
  then have "unat (push_bit k (drop_bit k c)) = take_bit 8 (push_bit k (drop_bit k (unat c)))"
    by (simp only: unsigned_push_bit_eq unsigned_drop_bit_eq) simp
  with block show ?thesis by (simp add: and_high_bits push_bit_eq_mult drop_bit_eq_div)
qed

lemma div_block:
  assumes m: "0 < m"
  shows "n div m * m = a * m \<longleftrightarrow> a * m \<le> n \<and> n < Suc a * (m::nat)"
proof -
  have "n div m = a \<longleftrightarrow> a * m \<le> n \<and> n < Suc a * m"
    using m by (metis div_nat_eqI dividend_less_times_div mult.commute mult_Suc
        times_div_less_eq_dividend)
  with m show ?thesis by simp
qed

lemma and_mask_range:
  assumes "m = NOT (mask k)" and "unat d = a * 2 ^ k"
  shows "((c :: u8) AND m) = d \<longleftrightarrow> a * 2 ^ k \<le> unat c \<and> unat c < Suc a * 2 ^ k"
proof -
  have "c AND m = d \<longleftrightarrow> unat c div 2 ^ k * 2 ^ k = unat d"
    unfolding assms(1) by (simp only: word_unat_eq_iff unat_and_high)
  then show ?thesis using div_block [of "2 ^ k" "unat c" a] assms(2) by simp
qed

lemma bit_nat_less: "bit (x::nat) n \<Longrightarrow> x < 2 ^ k \<Longrightarrow> n < k"
  by (metis bit_take_bit_iff take_bit_nat_eq_self)

lemma push_bit_or_low: "x < 2 ^ k \<Longrightarrow> push_bit k a OR x = push_bit k a + (x::nat)"
  by (subst disjunctive_add) (auto simp: bit_push_bit_iff dest: bit_nat_less)

lemma length_dropWhile_le_trans:
  "length xs \<le> n \<Longrightarrow> length (dropWhile P xs) \<le> n"
  using length_dropWhile_le [of P xs] by linarith

lemma list_all_take: "list_all P xs \<Longrightarrow> list_all P (take n xs)"
  by (auto simp: list_all_iff dest: in_set_takeD)

lemma list_all_drop: "list_all P xs \<Longrightarrow> list_all P (drop n xs)"
  by (auto simp: list_all_iff dest: in_set_dropD)

text \<open>Comparisons of words as comparisons of numbers, and numbers that fit in a \<^verbatim>\<open>size_t\<close>.\<close>

lemmas u8_nat = word_le_nat_alt word_less_nat_alt word_unat_eq_iff

lemma unat_of_nat64: "n < 2 ^ 64 \<Longrightarrow> unat (of_nat n :: u64) = n"
  by (simp add: unsigned_of_nat take_bit_nat_eq_self)

text \<open>Decimal digits, as \<^verbatim>\<open>printf\<close> writes an unsigned number.\<close>

function dec_nat :: "nat \<Rightarrow> bytes" where
  "dec_nat n = (if n < 10 then [of_nat (0x30 + n)] else dec_nat (n div 10) @ [of_nat (0x30 + n mod 10)])"
  by pat_completeness auto
termination by (relation "measure id") auto

declare dec_nat.simps [simp del]

text \<open>\<^verbatim>\<open>%lld\<close>.\<close>

definition dec_int :: "int \<Rightarrow> bytes" where
  "dec_int i = (if i < 0 then 0x2D # dec_nat (nat (- i)) else dec_nat (nat i))"

lemma dec_nat_length: "n < 10 ^ Suc k \<Longrightarrow> length (dec_nat n) \<le> Suc k"
proof (induction k arbitrary: n)
  case 0
  then show ?case by (simp add: dec_nat.simps)
next
  case (Suc k)
  have "n div 10 < 10 ^ Suc k" using Suc.prems by (simp add: div_less_iff_less_mult)
  from Suc.IH [OF this] show ?case by (subst dec_nat.simps) auto
qed

text \<open>The value of a run of digits, and that reading what was written gives the number back.\<close>

definition dec_val :: "nat \<Rightarrow> bytes \<Rightarrow> nat" where
  "dec_val n ds = fold (\<lambda>c n. n * 10 + (unat c - 0x30)) ds n"

lemma dec_val_simps [simp]: "dec_val n [] = n" "dec_val n (c # ds) = dec_val (n * 10 + (unat c - 0x30)) ds"
  by (simp_all add: dec_val_def)

lemma dec_val_mono: "n \<le> dec_val n ds"
proof (induction ds arbitrary: n)
  case (Cons c ds)
  from Cons [of "n * 10 + (unat c - 0x30)"] show ?case by simp
qed simp

lemma digit_value: "is_digit c \<Longrightarrow> unat c - 0x30 < 10 \<and> unat (c - 0x30) = unat c - 0x30"
  by (auto simp: is_digit_def word_le_nat_alt unat_sub)

lemma digit_byte: "k < 10 \<Longrightarrow> unat (of_nat (0x30 + k) :: u8) = 0x30 + k"
  by (subst unsigned_of_nat) (simp add: take_bit_nat_eq_self del: of_nat_add)

lemma dec_nat_digits: "list_all is_digit (dec_nat n)"
proof (induction n rule: dec_nat.induct)
  case (1 n)
  have d: "is_digit (of_nat (0x30 + k))" if "k < 10" for k :: nat
    unfolding is_digit_def word_le_nat_alt digit_byte [OF that] using that by simp
  show ?case
  proof (cases "n < 10")
    case True
    then show ?thesis using d [of n] by (subst dec_nat.simps) simp
  next
    case False
    then show ?thesis using 1 d [of "n mod 10"] by (subst dec_nat.simps) simp
  qed
qed

lemma dec_nat_ne [simp]: "dec_nat n \<noteq> []"
  by (subst dec_nat.simps) simp

lemma dec_val_append: "dec_val n (xs @ ys) = dec_val (dec_val n xs) ys"
  by (simp add: dec_val_def)

lemma dec_val_dec_nat [simp]: "dec_val 0 (dec_nat n) = n"
proof (induction n rule: dec_nat.induct)
  case (1 n)
  have d: "unat (of_nat (0x30 + k) :: u8) - 0x30 = k" if "k < 10" for k :: nat
    unfolding digit_byte [OF that] by simp
  show ?case
  proof (cases "n < 10")
    case True
    then show ?thesis using d [of n] by (subst dec_nat.simps) simp
  next
    case False
    then show ?thesis using 1 d [of "n mod 10"] by (subst dec_nat.simps) (simp add: dec_val_append)
  qed
qed

end
