(* ===== verification/Json_Text.thy ===== *)
theory Json_Text
  imports Prelude
begin

unbundle bit_operations_syntax

section \<open>Bytes, UTF-8 and string escapes (src/src/json.c)\<close>

text \<open>
  The character-level helpers of the JSON parser: hexadecimal digits, the encoder
  \<open>u8_emit\<close> of a code point, the recogniser \<open>utf8_seq\<close> of a well-formed UTF-8
  sequence, the string reader \<open>parse_string\<close> and the incremental escape decoder
  \<open>json_unescape\<close>. The lemmas show that \<open>utf8_seq\<close> accepts exactly the encodings that
  \<open>u8_emit\<close> gives the Unicode scalar values.
\<close>

subsection \<open>Encoding a code point\<close>

text \<open>
  \<open>cp\<close> is an \<^verbatim>\<open>unsigned\<close>; the casts to \<^verbatim>\<open>char\<close> keep the low eight
  bits (\<open>of_nat\<close> into \<open>u8\<close>).
\<close>

definition u8_emit :: "nat \<Rightarrow> bytes" where
  "u8_emit cp =
    (if cp < 0x80 then [of_nat cp]
     else if cp < 0x800 then
       [of_nat (0xC0 OR drop_bit 6 cp),
        of_nat (0x80 OR (cp AND 0x3F))]
     else if cp < 0x10000 then
       [of_nat (0xE0 OR drop_bit 12 cp),
        of_nat (0x80 OR (drop_bit 6 cp AND 0x3F)),
        of_nat (0x80 OR (cp AND 0x3F))]
     else
       [of_nat (0xF0 OR drop_bit 18 cp),
        of_nat (0x80 OR (drop_bit 12 cp AND 0x3F)),
        of_nat (0x80 OR (drop_bit 6 cp AND 0x3F)),
        of_nat (0x80 OR (cp AND 0x3F))])"

subsection \<open>Hexadecimal digits\<close>

definition hexval :: "u8 \<Rightarrow> nat option" where
  "hexval c =
    (if 0x30 \<le> c \<and> c \<le> 0x39 then Some (unat c - 0x30)
     else if 0x61 \<le> c \<and> c \<le> 0x66 then Some (unat c - 0x61 + 10)
     else if 0x41 \<le> c \<and> c \<le> 0x46 then Some (unat c - 0x41 + 10)
     else None)"

text \<open>
  \<open>hex4\<close> reads four digits; \<open>None\<close> is the code's -1. Every caller has checked that four
  bytes are readable.
\<close>

fun hex_loop :: "nat \<Rightarrow> nat \<Rightarrow> bytes \<Rightarrow> nat option" where
  "hex_loop 0 v p = Some v"
| "hex_loop (Suc i) v (c # p) =
     (case hexval c of None \<Rightarrow> None | Some d \<Rightarrow> hex_loop i (push_bit 4 v OR d) p)"
| "hex_loop (Suc i) v [] = None"

definition hex4 :: "bytes \<Rightarrow> nat option" where
  "hex4 p = hex_loop 4 0 p"

subsection \<open>Recognising a UTF-8 sequence\<close>

text \<open>
  \<open>utf8_seq s\<close> is the length of the well-formed sequence at the head of \<open>s\<close> (the bytes
  from \<^verbatim>\<open>s[i]\<close> up to \<^verbatim>\<open>n\<close>), 0 when there is none.
\<close>

definition utf8_lead :: "u8 \<Rightarrow> nat" where
  "utf8_lead c =
    (if c < 0x80 then 1 else if c AND 0xE0 = 0xC0 then 2
     else if c AND 0xF0 = 0xE0 then 3 else if c AND 0xF8 = 0xF0 then 4 else 0)"

definition utf8_seq :: "bytes \<Rightarrow> nat" where
  "utf8_seq s =
    (case s of [] \<Rightarrow> 0 | c # _ \<Rightarrow>
     let len = utf8_lead c;
         c1 = (if len > 1 then s ! 1 else 0)
     in if len = 0 \<or> len > length s then 0
        else if list_ex (\<lambda>k. s ! k AND 0xC0 \<noteq> 0x80) [1..<len] then 0
        else if len = 2 \<and> c < 0xC2 then 0
        else if len = 3 \<and> c = 0xE0 \<and> c1 < 0xA0 then 0
        else if len = 3 \<and> c = 0xED \<and> c1 \<ge> 0xA0 then 0
        else if len = 4 \<and> c = 0xF0 \<and> c1 < 0x90 then 0
        else if len = 4 \<and> (c > 0xF4 \<or> c = 0xF4 \<and> c1 \<ge> 0x90) then 0
        else len)"

text \<open>The specification: the table of well-formed sequences of the Unicode standard.\<close>

definition cont_byte :: "u8 \<Rightarrow> bool" where
  [byte_class]: "cont_byte c \<longleftrightarrow> 0x80 \<le> c \<and> c \<le> 0xBF"

fun utf8_char :: "bytes \<Rightarrow> bool" where
  "utf8_char [a] = (a < 0x80)"
| "utf8_char [a, b] = (0xC2 \<le> a \<and> a \<le> 0xDF \<and> cont_byte b)"
| "utf8_char [a, b, c] =
     ((if a = 0xE0 then 0xA0 \<le> b \<and> b \<le> 0xBF
       else if a = 0xED then 0x80 \<le> b \<and> b \<le> 0x9F
       else 0xE1 \<le> a \<and> a \<le> 0xEF \<and> cont_byte b) \<and> cont_byte c)"
| "utf8_char [a, b, c, d] =
     ((if a = 0xF0 then 0x90 \<le> b \<and> b \<le> 0xBF
       else if a = 0xF4 then 0x80 \<le> b \<and> b \<le> 0x8F
       else 0xF1 \<le> a \<and> a \<le> 0xF3 \<and> cont_byte b) \<and> cont_byte c \<and> cont_byte d)"
| "utf8_char _ = False"

lemma and_E0: "((c::u8) AND 0xE0) = 0xC0 \<longleftrightarrow> 0xC0 \<le> c \<and> c \<le> 0xDF"
  by (subst and_mask_range [where k = 5 and a = 6])
     (auto simp: mask_eq_exp_minus_1 word_le_nat_alt)

lemma and_F0: "((c::u8) AND 0xF0) = 0xE0 \<longleftrightarrow> 0xE0 \<le> c \<and> c \<le> 0xEF"
  by (subst and_mask_range [where k = 4 and a = 14])
     (auto simp: mask_eq_exp_minus_1 word_le_nat_alt)

lemma and_F8: "((c::u8) AND 0xF8) = 0xF0 \<longleftrightarrow> 0xF0 \<le> c \<and> c \<le> 0xF7"
  by (subst and_mask_range [where k = 3 and a = 30])
     (auto simp: mask_eq_exp_minus_1 word_le_nat_alt)

lemma and_C0: "((c::u8) AND 0xC0) = 0x80 \<longleftrightarrow> cont_byte c"
  by (subst and_mask_range [where k = 6 and a = 2])
     (auto simp: mask_eq_exp_minus_1 word_le_nat_alt cont_byte_def)


text \<open>Evaluating the continuation-byte loop for the three multi-byte lengths.\<close>

lemma upt_1_numerals: "[Suc 0..<2] = [1::nat]" "[Suc 0..<3] = [1::nat, 2]"
  "[Suc 0..<4] = [1::nat, 2, 3]"
  by (simp_all add: upt_rec)

lemma utf8_lead_eq:
  "utf8_lead c =
    (if c < 0x80 then 1 else if c < 0xC0 then 0 else if c < 0xE0 then 2
     else if c < 0xF0 then 3 else if c < 0xF8 then 4 else 0)"
  unfolding utf8_lead_def and_E0 and_F0 and_F8 by (simp add: word_le_nat_alt word_less_nat_alt)

lemma utf8_seq_1: "utf8_lead a = 1 \<Longrightarrow> utf8_seq (a # s) = 1"
  by (simp add: utf8_seq_def)

lemma utf8_seq_0: "utf8_lead a = 0 \<Longrightarrow> utf8_seq (a # s) = 0"
  by (simp add: utf8_seq_def)

lemma utf8_seq_2:
  "utf8_lead a = 2 \<Longrightarrow> utf8_seq (a # s) =
     (if s \<noteq> [] \<and> cont_byte (hd s) \<and> 0xC2 \<le> a then 2 else 0)"
  by (cases s) (auto simp: utf8_seq_def and_C0 upt_1_numerals)

lemma utf8_seq_3:
  "utf8_lead a = 3 \<Longrightarrow> utf8_seq (a # s) =
     (case s of b # c # _ \<Rightarrow>
        if cont_byte b \<and> cont_byte c \<and> \<not> (a = 0xE0 \<and> b < 0xA0) \<and> \<not> (a = 0xED \<and> 0xA0 \<le> b)
        then 3 else 0 | _ \<Rightarrow> 0)"
  by (simp add: utf8_seq_def and_C0 upt_1_numerals split: list.splits) auto

lemma utf8_seq_4:
  "utf8_lead a = 4 \<Longrightarrow> utf8_seq (a # s) =
     (case s of b # c # d # _ \<Rightarrow>
        if cont_byte b \<and> cont_byte c \<and> cont_byte d \<and> \<not> (a = 0xF0 \<and> b < 0x90)
           \<and> \<not> (a > 0xF4 \<or> a = 0xF4 \<and> 0x90 \<le> b)
        then 4 else 0 | _ \<Rightarrow> 0)"
  by (simp add: utf8_seq_def and_C0 upt_1_numerals split: list.splits) auto


fun_cases utf8_charE: "utf8_char w"

text \<open>Comparing bytes as numbers.\<close>

lemma utf8_char_lead: "utf8_char (a # w) \<Longrightarrow> utf8_lead a = Suc (length w)"
  by (elim utf8_charE) (auto simp: utf8_lead_eq u8_nat split: if_splits)

lemma utf8_seq_append:
  assumes w: "utf8_char w"
  shows "utf8_seq (w @ s) = length w"
  using w
proof (cases w rule: utf8_char.cases)
  case (1 a)
  with w show ?thesis using utf8_char_lead [of a "[]"] by (simp add: utf8_seq_1)
next
  case (2 a b)
  with w have "utf8_lead a = 2" using utf8_char_lead [of a "[b]"] by simp
  with 2 w show ?thesis by (simp add: utf8_seq_2)
next
  case (3 a b c)
  with w have "utf8_lead a = 3" using utf8_char_lead [of a "[b, c]"] by simp
  with 3 w show ?thesis by (auto simp: utf8_seq_3 cont_byte_def u8_nat split: if_splits)
next
  case (4 a b c d)
  with w have "utf8_lead a = 4" using utf8_char_lead [of a "[b, c, d]"] by simp
  with 4 w show ?thesis by (auto simp: utf8_seq_4 cont_byte_def u8_nat split: if_splits)
qed simp_all

lemma utf8_seq_sound:
  assumes "0 < utf8_seq s"
  shows "utf8_seq s \<le> length s \<and> utf8_char (take (utf8_seq s) s)"
proof (cases s)
  case Nil
  with assms show ?thesis by (simp add: utf8_seq_def)
next
  case (Cons a t)
  consider (0) "utf8_lead a = 0" | (1) "utf8_lead a = 1" | (2) "utf8_lead a = 2"
    | (3) "utf8_lead a = 3" | (4) "utf8_lead a = 4"
  proof -
    have "utf8_lead a \<in> {0, 1, 2, 3, 4}" by (simp add: utf8_lead_def)
    then show ?thesis using that by auto
  qed
  then show ?thesis
  proof cases
    case 0
    with assms Cons show ?thesis by (simp add: utf8_seq_0)
  next
    case 1
    with Cons show ?thesis by (auto simp: utf8_seq_1 utf8_lead_eq split: if_splits)
  next
    case 2
    with assms Cons show ?thesis
      by (cases t) (auto simp: utf8_seq_2 utf8_lead_eq u8_nat split: if_splits)
  next
    case 3
    with assms Cons show ?thesis
      by (auto simp: utf8_seq_3 utf8_lead_eq cont_byte_def u8_nat split: if_splits list.splits)
  next
    case 4
    with assms Cons show ?thesis
      by (auto simp: utf8_seq_4 utf8_lead_eq cont_byte_def u8_nat split: if_splits list.splits)
  qed
qed
lemma unat_of_nat_u8: "n < 256 \<Longrightarrow> unat (of_nat n :: u8) = n"
  by (simp add: unat_of_nat)
lemma or_numerals:
  "x < 64 \<Longrightarrow> 0x80 OR x = 0x80 + (x::nat)"
  "x < 32 \<Longrightarrow> 0xC0 OR x = 0xC0 + (x::nat)"
  "x < 16 \<Longrightarrow> 0xE0 OR x = 0xE0 + (x::nat)"
  "x < 8 \<Longrightarrow> 0xF0 OR x = 0xF0 + (x::nat)"
  using push_bit_or_low [of x 6 2] push_bit_or_low [of x 5 6] 
    push_bit_or_low [of x 4 14] push_bit_or_low [of x 3 30]
  by (simp_all add: push_bit_eq_mult)
lemma and_3F: "(x::nat) AND 0x3F = x mod 64"
proof -
  have "(0x3F::nat) = mask 6" by (simp add: mask_eq_exp_minus_1)
  then show ?thesis by (simp only: take_bit_eq_mask [symmetric] take_bit_eq_mod) simp
qed

definition is_scalar :: "nat \<Rightarrow> bool" where
  "is_scalar cp \<longleftrightarrow> cp < 0x110000 \<and> \<not> (0xD800 \<le> cp \<and> cp \<le> 0xDFFF)"

lemma u8_emit_arith:
  "cp < 0x110000 \<Longrightarrow> u8_emit cp =
    (if cp < 0x80 then [of_nat cp]
     else if cp < 0x800 then [of_nat (0xC0 + cp div 64), of_nat (0x80 + cp mod 64)]
     else if cp < 0x10000 then
       [of_nat (0xE0 + cp div 4096), of_nat (0x80 + cp div 64 mod 64), of_nat (0x80 + cp mod 64)]
     else [of_nat (0xF0 + cp div 262144), of_nat (0x80 + cp div 4096 mod 64),
           of_nat (0x80 + cp div 64 mod 64), of_nat (0x80 + cp mod 64)])"
  unfolding u8_emit_def and_3F
  by (simp add: or_numerals drop_bit_eq_div less_mult_imp_div_less)

lemma unat_small: "x < 64 \<Longrightarrow> unat (of_nat (0x80 + x) :: u8) = 0x80 + x"
  by (rule unat_of_nat_u8) simp

lemma utf8_char_u8_emit: "is_scalar cp \<Longrightarrow> utf8_char (u8_emit cp)"
proof -
  assume sc: "is_scalar cp"
  consider (1) "cp < 0x80" | (2) "0x80 \<le> cp" "cp < 0x800" | (3) "0x800 \<le> cp" "cp < 0x10000"
    | (4) "0x10000 \<le> cp" "cp < 0x110000"
    using sc unfolding is_scalar_def by (meson not_le)
  then show ?thesis
  proof cases
    case 1 then show ?thesis by (simp add: u8_emit_arith u8_nat unat_of_nat_u8)
  next
    case 2
    then have "cp div 64 < 32" "2 \<le> cp div 64" by auto
    with 2 show ?thesis 
      by (simp add: u8_emit_arith cont_byte_def u8_nat unat_of_nat_u8 unat_small del: of_nat_add)
  next
    case 3
    have q: "cp div 64 = 64 * (cp div 4096) + cp div 64 mod 64"
      by (simp add: div_mult2_eq [of cp 64 64, simplified])
    have "cp div 4096 < 16" and "32 \<le> cp div 64"
      using 3 by (simp_all add: less_mult_imp_div_less) 
    moreover have "cp div 64 < 864 \<or> 896 \<le> cp div 64"
      using 3 sc by (simp add: is_scalar_def less_mult_imp_div_less) linarith
    ultimately have "cp div 4096 < 16" "cp div 4096 = 0 \<Longrightarrow> 32 \<le> cp div 64 mod 64"
      "cp div 4096 = 13 \<Longrightarrow> cp div 64 mod 64 < 32"
      using q by linarith+
    with 3 show ?thesis 
      by (auto simp add: u8_emit_arith cont_byte_def u8_nat unat_of_nat_u8 unat_small simp del: of_nat_add)
  next
    case 4
    have q: "cp div 4096 = 64 * (cp div 262144) + cp div 4096 mod 64"
      by (simp add: div_mult2_eq [of cp 4096 64, simplified])
    have "cp div 4096 < 272" and "16 \<le> cp div 4096"
      using 4 by (simp_all add: less_mult_imp_div_less)
    with q have "cp div 262144 < 5" "cp div 262144 = 0 \<Longrightarrow> 16 \<le> cp div 4096 mod 64"
      "cp div 262144 = 4 \<Longrightarrow> cp div 4096 mod 64 < 16"
      by linarith+
    with 4 show ?thesis 
      by (auto simp add: u8_emit_arith cont_byte_def u8_nat unat_of_nat_u8 unat_small simp del: of_nat_add)
  qed
qed

text \<open>Every well-formed sequence encodes a scalar value.\<close>

fun utf8_value :: "bytes \<Rightarrow> nat" where
  "utf8_value [a] = unat a"
| "utf8_value [a, b] = (unat a - 0xC0) * 64 + (unat b - 0x80)"
| "utf8_value [a, b, c] =
     (unat a - 0xE0) * 4096 + (unat b - 0x80) * 64 + (unat c - 0x80)"
| "utf8_value [a, b, c, d] =
     (unat a - 0xF0) * 262144 + (unat b - 0x80) * 4096 + (unat c - 0x80) * 64 + (unat d - 0x80)"
| "utf8_value _ = 0"

lemma cont_value:
  assumes "cont_byte b"
  obtains y where "unat b = 128 + y" "y < 64" "b = of_nat (0x80 + y)"
proof
  show "unat b = 128 + (unat b - 128)" "unat b - 128 < 64"
    using assms by (auto simp: cont_byte_def u8_nat)
  then show "b = of_nat (0x80 + (unat b - 128))" by simp
qed

lemma digit64: "z < 64 \<Longrightarrow> (q * 64 + z) div 64 = q \<and> (q * 64 + z) mod 64 = (z::nat)"
  by simp

lemma utf8_value_emit:
  assumes "utf8_char w"
  shows "is_scalar (utf8_value w) \<and> u8_emit (utf8_value w) = w"
  using assms
proof (cases w rule: utf8_char.cases)
  case (1 a)
  with assms show ?thesis
    by (simp add: u8_emit_arith is_scalar_def u8_nat)
next
  case (2 a b)
  with assms obtain y where y: "y < 64" "unat b = 128 + y" "b = of_nat (128 + y)"
    by (auto elim: cont_value)
  define x where "x = unat a - 0xC0"
  have x: "2 \<le> x" "x < 32" "a = of_nat (0xC0 + x)"
    using 2 assms by (auto simp: u8_nat x_def)
  have v: "utf8_value w = x * 64 + y" using 2 y by (simp add: x_def)
  show ?thesis unfolding v using 2 x y
    by (simp add: u8_emit_arith is_scalar_def del: of_nat_add)
next
  case (3 a b c)
  with assms have "cont_byte b" by (auto simp: cont_byte_def u8_nat split: if_splits)
  then obtain y where y: "y < 64" "unat b = 128 + y" "b = of_nat (128 + y)"
    by (auto elim: cont_value)
  obtain z where z: "z < 64" "unat c = 128 + z" "c = of_nat (128 + z)"
    using 3 assms by (auto elim: cont_value)
  define x where "x = unat a - 0xE0"
  have x: "x < 16" "a = of_nat (0xE0 + x)" "x = 0 \<Longrightarrow> 32 \<le> y" "x = 13 \<Longrightarrow> y < 32"
    using 3 assms y by (auto simp: u8_nat x_def split: if_splits)
  define v where "v = (x * 64 + y) * 64 + z"
  have v: "utf8_value w = v" using 3 y z by (simp add: x_def v_def algebra_simps)
  have "v = (x * 64 + y) * 64 + z" by (simp add: v_def)
  then have d: "v mod 64 = z" "v div 64 mod 64 = y" "v div 4096 = x"
    using digit64 [of z "x * 64 + y"] digit64 [of y x] y z
    by (simp_all only: div_mult2_eq [of _ 64 64, simplified])
  have "2048 \<le> v" using x y z by (cases "x = 0") (auto simp: v_def)
  moreover have "v < 65536" using x(1) y(1) z(1) by (simp add: v_def algebra_simps)
  moreover have "v < 55296 \<or> 57343 < v" using x y z by (cases "x = 13") (auto simp: v_def)
  ultimately show ?thesis unfolding v using 3 x y z d
    by (auto simp: u8_emit_arith is_scalar_def simp del: of_nat_add)
next
  case (4 a b c d)
  with assms have "cont_byte b" by (auto simp: cont_byte_def u8_nat split: if_splits)
  then obtain y where y: "y < 64" "unat b = 128 + y" "b = of_nat (128 + y)"
    by (auto elim: cont_value)
  obtain z where z: "z < 64" "unat c = 128 + z" "c = of_nat (128 + z)"
    using 4 assms by (auto elim: cont_value)
  obtain u where u: "u < 64" "unat d = 128 + u" "d = of_nat (128 + u)"
    using 4 assms by (auto elim: cont_value)
  define x where "x = unat a - 0xF0"
  have x: "x < 5" "a = of_nat (0xF0 + x)" "x = 0 \<Longrightarrow> 16 \<le> y" "x = 4 \<Longrightarrow> y < 16"
    using 4 assms y by (auto simp: u8_nat x_def split: if_splits)
  define v where "v = ((x * 64 + y) * 64 + z) * 64 + u"
  have v: "utf8_value w = v" using 4 y z u by (simp add: x_def v_def algebra_simps)
  have "v = ((x * 64 + y) * 64 + z) * 64 + u" by (simp add: v_def)
  then have d: "v mod 64 = u" "v div 64 mod 64 = z" "v div 4096 mod 64 = y" "v div 262144 = x"
    using digit64 [of u "(x * 64 + y) * 64 + z"] digit64 [of z "x * 64 + y"] digit64 [of y x] y z u
    by (simp_all only: div_mult2_eq [of _ 64 64, simplified] div_mult2_eq [of _ 64 4096, simplified])
  have "65536 \<le> v" using x y z u by (cases "x = 0") (auto simp: v_def)
  moreover have "v < 0x110000" using x y z u by (cases "x = 4") (auto simp: v_def)
  ultimately show ?thesis unfolding v using 4 x y z u d
    by (auto simp: u8_emit_arith is_scalar_def simp del: of_nat_add)
qed simp_all

lemma u8_emit_ne [simp]: "u8_emit cp \<noteq> []"
  by (simp add: u8_emit_def)

lemma utf8_seq_u8_emit: "is_scalar cp \<Longrightarrow> utf8_seq (u8_emit cp @ r) = length (u8_emit cp)"
  by (simp add: utf8_seq_append utf8_char_u8_emit)

text \<open>
  Property C33. \<open>utf8_seq\<close> accepts exactly the UTF-8 encodings of Unicode scalar values: it returns
  n > 0 on a text iff the text starts with the n bytes \<open>u8_emit\<close> writes for a code point up to
  U+10FFFF that is no surrogate. So overlong forms, surrogates, stray and missing
  continuation bytes are all refused.
\<close>

theorem utf8_seq_iff_scalar:
  "(\<exists>cp r. is_scalar cp \<and> s = u8_emit cp @ r \<and> n = length (u8_emit cp))
   \<longleftrightarrow> 0 < n \<and> utf8_seq s = n"
proof
  assume "\<exists>cp r. is_scalar cp \<and> s = u8_emit cp @ r \<and> n = length (u8_emit cp)"
  then show "0 < n \<and> utf8_seq s = n"
    by (auto simp: utf8_seq_u8_emit)
next
  assume n: "0 < n \<and> utf8_seq s = n"
  then have "utf8_char (take n s)" and "n \<le> length s" using utf8_seq_sound [of s] by auto
  then show "\<exists>cp r. is_scalar cp \<and> s = u8_emit cp @ r \<and> n = length (u8_emit cp)"
    using utf8_value_emit [of "take n s"] by (metis append_take_drop_id length_take min.absorb2)
qed

end
