(* ===== verification/Json_String.thy ===== *)
theory Json_String
  imports Json_Text
begin
unbundle bit_operations_syntax

section \<open>Reading JSON strings (src/src/json.c)\<close>

text \<open>
  The string reader \<open>parse_string\<close> of the parser and the incremental decoder
  \<open>json_unescape\<close> for callers that see a string arrive in pieces; the lemmas at the end
  show that the two decode the same escapes to the same bytes.
\<close>

subsection \<open>Reading a string literal\<close>

text \<open>
  The byte a one-character escape stands for (the \<^verbatim>\<open>switch\<close> of
  \<open>parse_string\<close>, and of \<open>json_unescape\<close>); \<open>None\<close> is its default case.
\<close>

definition simple_escape :: "u8 \<Rightarrow> u8 option" where
  "simple_escape e =
    (if e = 0x22 then Some 0x22
     else if e = 0x5C then Some 0x5C
     else if e = 0x2F then Some 0x2F
     else if e = 0x62 then Some 0x08
     else if e = 0x66 then Some 0x0C
     else if e = 0x6E then Some 0x0A
     else if e = 0x72 then Some 0x0D
     else if e = 0x74 then Some 0x09
     else None)"

text \<open>The two halves of a surrogate pair, and the code point of a pair.\<close>

definition hi_surrogate :: "nat \<Rightarrow> bool" where
  "hi_surrogate cp \<longleftrightarrow> 0xD800 \<le> cp \<and> cp \<le> 0xDBFF"

definition lo_surrogate :: "nat \<Rightarrow> bool" where
  "lo_surrogate cp \<longleftrightarrow> 0xDC00 \<le> cp \<and> cp \<le> 0xDFFF"

definition pair_cp :: "nat \<Rightarrow> nat \<Rightarrow> nat" where
  "pair_cp hi lo = 0x10000 + push_bit 10 (hi - 0xD800) + (lo - 0xDC00)"

text \<open>The case \<^verbatim>\<open>'u'\<close> of \<open>parse_string\<close>: \<open>s\<close> starts after the \<^verbatim>\<open>u\<close>.\<close>

definition parse_u_escape :: "bytes \<Rightarrow> (bytes \<times> bytes) option" where
  "parse_u_escape s =
    (if length s < 4 then None
     else case hex4 s of None \<Rightarrow> None
     | Some cp \<Rightarrow>
       if cp = 0 then None
       else let s1 = drop 4 s in
         if hi_surrogate cp then
           if length s1 < 6 \<or> s1 ! 0 \<noteq> 0x5C \<or> s1 ! 1 \<noteq> 0x75 then None
           else case hex4 (drop 2 s1) of None \<Rightarrow> None
           | Some lo \<Rightarrow>
             if \<not> lo_surrogate lo then None
             else Some (u8_emit (pair_cp cp lo), drop 6 s1)
         else if lo_surrogate cp then None
         else Some (u8_emit cp, s1))"

text \<open>An escape, from the byte after the backslash: the bytes it stands for and the rest.\<close>

definition parse_escape :: "bytes \<Rightarrow> (bytes \<times> bytes) option" where
  "parse_escape s =
    (case s of [] \<Rightarrow> None
     | e # s1 \<Rightarrow>
       (case simple_escape e of Some b \<Rightarrow> Some ([b], s1)
        | None \<Rightarrow> if e = 0x75 then parse_u_escape s1 else None))"

lemma parse_u_escape_consumes [consume]:
  "parse_u_escape s = Some (out, s') \<Longrightarrow> length s' < length s"
  by (auto simp: parse_u_escape_def Let_def split: if_splits option.splits)

lemma parse_escape_consumes [consume]:
  "parse_escape s = Some (out, s') \<Longrightarrow> length s' < length s"
  by (auto simp: parse_escape_def split: if_splits option.splits list.splits dest: parse_u_escape_consumes)

text \<open>
  One turn of the loop of \<open>parse_string\<close> on a byte that is not the closing quote: what is
  appended to the output and the rest of the input.
\<close>

definition str_item :: "u8 \<Rightarrow> bytes \<Rightarrow> (bytes \<times> bytes) option" where
  "str_item ch s =
    (if ch = 0x5C then parse_escape s
     else if ch < 0x20 then None
     else if ch < 0x80 then Some ([ch], s)
     else let len = utf8_seq (ch # s) in
       if len = 0 then None else Some (take len (ch # s), drop len (ch # s)))"

lemma str_item_consumes [consume]:
  "str_item ch s = Some (b, s') \<Longrightarrow> length s' \<le> length s"
  by (auto simp: str_item_def Let_def split: if_splits dest: parse_escape_consumes)

text \<open>
  The loop; \<open>out\<close> is what has been decoded. The loop's exit at the end of the input falls
  through to \<^verbatim>\<open>fail\<close>.
\<close>

function (sequential) str_loop :: "bytes \<Rightarrow> bytes \<Rightarrow> (bytes \<times> bytes) option" where
  "str_loop out [] = None"
| "str_loop out (ch # s) =
    (if ch = 0x22 then Some (out, s)
     else case str_item ch s of None \<Rightarrow> None | Some (b, s1) \<Rightarrow> str_loop (out @ b) s1)"
  by pat_completeness auto
termination
  by (relation "measure (length \<circ> snd)") (auto dest: str_item_consumes)

definition parse_string :: "bytes \<Rightarrow> (bytes \<times> bytes) option" where
  "parse_string s =
    (case s of [] \<Rightarrow> None | c # s1 \<Rightarrow> if c \<noteq> 0x22 then None else str_loop [] s1)"

lemma str_loop_consumes: "str_loop out s = Some (r, s') \<Longrightarrow> length s' < length s"
  by (induction out s rule: str_loop.induct)
     (fastforce split: if_splits option.splits dest: str_item_consumes)+

lemma parse_string_consumes [consume]:
  "parse_string s = Some (r, s') \<Longrightarrow> length s' < length s"
  by (auto simp: parse_string_def split: list.splits if_splits dest: str_loop_consumes)

text \<open>The accumulator only collects: the decoded text does not depend on what precedes it.\<close>

lemma str_loop_acc:
  "str_loop out s = map_option (\<lambda>(r, s'). (out @ r, s')) (str_loop [] s)"
proof (induction "length s" arbitrary: out s rule: less_induct)
  case less
  show ?case
  proof (cases s)
    case (Cons ch t)
    show ?thesis
    proof (cases "ch = 0x22 \<or> str_item ch t = None")
      case False
      then obtain b t' where it: "str_item ch t = Some (b, t')" "ch \<noteq> 0x22" by auto
      then have "length t' < length s" using Cons str_item_consumes by fastforce
      with less [of t' "out @ b"] less [of t' b] it Cons show ?thesis
        by (cases "str_loop [] t'") auto
    qed (use Cons in auto)
  qed simp
qed

subsection \<open>Decoding an escape as it arrives\<close>

datatype unescape = Invalid | Incomplete | Decoded nat bytes

text \<open>
  \<open>json_unescape s n out outn\<close>: the return values -1, 0 and the number of bytes used.
  \<open>unescape_pair\<close> is its branch for a high surrogate \<open>cp\<close>, \<open>unescape_u\<close> the code after
  the one-character escapes.
\<close>

definition unescape_pair :: "nat \<Rightarrow> bytes \<Rightarrow> unescape" where
  "unescape_pair cp s =
    (if length s < 7 then Incomplete
     else if s ! 6 \<noteq> 0x5C then Invalid
     else if length s < 8 then Incomplete
     else if s ! 7 \<noteq> 0x75 then Invalid
     else if length s < 12 then Incomplete
     else case hex4 (drop 8 s) of None \<Rightarrow> Invalid
       | Some lo \<Rightarrow>
         if \<not> lo_surrogate lo then Invalid
         else Decoded 12 (u8_emit (pair_cp cp lo)))"

definition unescape_u :: "bytes \<Rightarrow> unescape" where
  "unescape_u s =
    (if length s < 6 then Incomplete
     else case hex4 (drop 2 s) of None \<Rightarrow> Invalid
       | Some cp \<Rightarrow>
         if cp = 0 then Invalid
         else if hi_surrogate cp then unescape_pair cp s
         else if lo_surrogate cp then Invalid
         else Decoded 6 (u8_emit cp))"

definition json_unescape :: "bytes \<Rightarrow> unescape" where
  "json_unescape s =
    (if length s < 1 \<or> s ! 0 \<noteq> 0x5C then Invalid
     else if length s < 2 then Incomplete
     else case simple_escape (s ! 1) of Some b \<Rightarrow> Decoded 2 [b]
     | None \<Rightarrow> if s ! 1 \<noteq> 0x75 then Invalid else unescape_u s)"

lemma simple_escape_u [simp]: "simple_escape 0x75 = None"
  by (simp add: simple_escape_def)

lemma hex_loop_append: "n \<le> length p \<Longrightarrow> hex_loop n v (p @ q) = hex_loop n v p"
  by (induction n v p rule: hex_loop.induct) (auto split: option.splits)

lemma hex4_append: "4 \<le> length p \<Longrightarrow> hex4 (p @ q) = hex4 p"
  by (simp add: hex4_def hex_loop_append)

text \<open>
  On the bytes after the backslash the two decoders agree: \<open>json_unescape\<close> decodes exactly
  the escapes the parser reads, to the same bytes, and uses the same input.
\<close>

lemma unescape_u_spec:
  "case parse_u_escape s of
     Some (b, r) \<Rightarrow> unescape_u (0x5C # 0x75 # s) = Decoded (2 + (length s - length r)) b
   | None \<Rightarrow> unescape_u (0x5C # 0x75 # s) \<in> {Invalid, Incomplete}"
proof (cases "length s < 4 \<or> hex4 s = None \<or> hex4 s = Some 0")
  case True
  then show ?thesis by (auto simp: unescape_u_def parse_u_escape_def)
next
  case False
  then obtain cp where cp: "hex4 s = Some cp" "\<not> length s < 4" "cp \<noteq> 0" by auto
  show ?thesis
  proof (cases "hi_surrogate cp")
    case hi: True
    show ?thesis
    proof (cases "length s < 10 \<or> s ! 4 \<noteq> 0x5C \<or> s ! 5 \<noteq> 0x75")
      case True
      then have "parse_u_escape s = None" using cp hi by (auto simp: parse_u_escape_def Let_def)
      with True cp hi show ?thesis by (auto simp: unescape_u_def unescape_pair_def)
    next
      case False
      then have "\<not> length s - 4 < 6" by linarith
      with False cp hi show ?thesis
        by (simp add: unescape_u_def unescape_pair_def parse_u_escape_def Let_def split: option.split)
    qed
  next
    case False
    with cp show ?thesis by (simp add: unescape_u_def parse_u_escape_def Let_def)
  qed
qed

lemma unescape_u_some:
  "parse_u_escape s = Some (b, r) \<Longrightarrow>
   unescape_u (0x5C # 0x75 # s) = Decoded (2 + (length s - length r)) b"
  using unescape_u_spec [of s] by simp

lemma unescape_u_none:
  "parse_u_escape s = None \<Longrightarrow> unescape_u (0x5C # 0x75 # s) \<in> {Invalid, Incomplete}"
  using unescape_u_spec [of s] by simp

lemma json_unescape_some:
  "parse_escape t = Some (b, r) \<Longrightarrow>
   json_unescape (0x5C # t) = Decoded (Suc (length t - length r)) b"
  by (cases t) (auto simp: json_unescape_def parse_escape_def unescape_u_some
      split: option.splits if_splits dest: parse_u_escape_consumes)

lemma json_unescape_none:
  "parse_escape t = None \<Longrightarrow> json_unescape (0x5C # t) \<in> {Invalid, Incomplete}"
  using unescape_u_none
  by (cases t) (auto simp: json_unescape_def parse_escape_def split: option.splits if_splits)

lemma json_unescape_decoded:
  "json_unescape (0x5C # t) = Decoded n b \<longleftrightarrow>
   (\<exists>r. parse_escape t = Some (b, r) \<and> n = Suc (length t - length r))"
  using json_unescape_some [of t] json_unescape_none [of t]
  by (cases "parse_escape t") auto

lemma unescape_pair_stable:
  "unescape_pair cp p \<noteq> Incomplete \<Longrightarrow> unescape_pair cp (p @ u) = unescape_pair cp p"
  using hex4_append [of "drop 8 p" "drop (8 - length p) u"]
  by (simp add: unescape_pair_def nth_append split: if_splits)

lemma unescape_u_stable:
  assumes "unescape_u p \<noteq> Incomplete"
  shows "unescape_u (p @ u) = unescape_u p"
proof -
  have "6 \<le> length p" using assms by (auto simp: unescape_u_def split: if_splits)
  then have "hex4 (drop 2 (p @ u)) = hex4 (drop 2 p)"
    using hex4_append [of "drop 2 p" u] by simp
  with assms show ?thesis
    by (auto simp: unescape_u_def unescape_pair_stable split: option.splits if_splits)
qed

lemma json_unescape_stable:
  assumes "json_unescape p \<noteq> Incomplete" and "p \<noteq> []"
  shows "json_unescape (p @ u) = json_unescape p"
  using assms unescape_u_stable [of p u]
  by (auto simp: json_unescape_def nth_append split: option.splits if_splits)

lemma json_unescape_invalid:
  assumes "json_unescape (0x5C # t) = Invalid"
  shows "parse_escape (t @ u) = None"
  using json_unescape_stable [of "0x5C # t" u] json_unescape_some [of "t @ u"] assms
  by (cases "parse_escape (t @ u)") auto

lemma json_unescape_settles: "12 \<le> length s \<Longrightarrow> json_unescape s \<noteq> Incomplete"
  by (auto simp: json_unescape_def unescape_u_def unescape_pair_def split: option.splits)

text \<open>
  Property C34. \<open>json_unescape\<close>, which sees an escape as it streams in, agrees with the parser: it
  decodes exactly the escapes \<open>parse_string\<close> reads, to the same bytes, using the same input; when it
  refuses, no continuation makes the parser accept; and twelve bytes always settle the escape.
\<close>

theorem json_unescape_agrees:
  "(json_unescape (0x5C # t) = Decoded n b
      \<longleftrightarrow> (\<exists>r. parse_escape t = Some (b, r) \<and> n = Suc (length t - length r)))
    \<and> (json_unescape (0x5C # t) = Invalid \<longrightarrow> parse_escape (t @ u) = None)
    \<and> (12 \<le> Suc (length t) \<longrightarrow> json_unescape (0x5C # t) \<noteq> Incomplete)"
  using json_unescape_decoded [of t n b] json_unescape_invalid [of t u] json_unescape_settles [of "0x5C # t"]
  by simp

text \<open>An unknown escape is refused whatever follows.\<close>

lemma unknown_escape: "json_unescape (0x5C # [0x71]) = Invalid"
  by (simp add: json_unescape_def simple_escape_def)

theorem json_unescape_agrees_witness:
  "parse_escape ([0x71] @ [0x22]) = None"
  using json_unescape_agrees [of "[0x71]" 0 "[]" "[0x22]"] unknown_escape by simp

end
