(* ===== verification/Probe.thy ===== *)
theory Probe
  imports Prelude
begin

unbundle bit_operations_syntax

section \<open>Linear probing tables\<close>

text \<open>
  Two components keep a hash table by linear probing over a power-of-two array: the set of
  member names of an object being parsed (\<^verbatim>\<open>keyset\<close> in src/src/json.c) and the
  tokenizer's string table (\<^verbatim>\<open>hmap\<close> in src/src/tokenizer.c). Both loops have the
  same shape,
  \<^verbatim>\<open>while (slots[at] && !match) at = (at + 1) & (cap - 1)\<close>,
  which is \<open>probe\<close>. The fuel bounds the number of slots looked at; \<open>None\<close> stands for the
  loop that never ends, which the lemmas exclude whenever one slot is empty.
\<close>

definition home :: "u64 \<Rightarrow> nat \<Rightarrow> nat" where
  "home h cap = unat (h AND of_nat (cap - 1))"

fun probe :: "nat \<Rightarrow> ('e \<Rightarrow> bool) \<Rightarrow> 'e option list \<Rightarrow> nat \<Rightarrow> nat option" where
  "probe 0 match sl at = None"
| "probe (Suc fuel) match sl at =
     (case sl ! at of None \<Rightarrow> Some at
      | Some e \<Rightarrow> if match e then Some at
                  else probe fuel match sl ((at + 1) AND (length sl - 1)))"

lemma home_less: "0 < cap \<Longrightarrow> home h cap < cap"
proof -
  assume "0 < cap"
  have "unat (h AND of_nat (cap - 1)) \<le> unat (of_nat (cap - 1) :: u64)"
    by (rule word_and_le1 [THEN word_le_nat_alt [THEN iffD1]])
  also have "\<dots> \<le> cap - 1" by (simp add: unat_of_nat)
  finally show ?thesis using \<open>0 < cap\<close> by (simp add: home_def)
qed

lemma and_pow2_mod: "(n::nat) AND (2 ^ k - Suc 0) = n mod 2 ^ k"
  using take_bit_eq_mask [of k n] take_bit_eq_mod [of k n] by (simp add: mask_eq_exp_minus_1)

text \<open>The slot at distance \<open>d\<close> from \<open>h\<close>, around the end of the array.\<close>

abbreviation around :: "'e option list \<Rightarrow> nat \<Rightarrow> nat \<Rightarrow> nat" where
  "around sl h d \<equiv> (h + d) mod length sl"

lemma around_less: "p < length sl \<Longrightarrow> around sl h d < length sl"
  by (rule mod_less_divisor) (cases sl; simp)

definition stops :: "('e \<Rightarrow> bool) \<Rightarrow> 'e option \<Rightarrow> bool" where
  "stops match x \<longleftrightarrow> (case x of None \<Rightarrow> True | Some e \<Rightarrow> match e)"

lemma stops_simps [simp]: "stops m None" "stops m (Some e) = m e"
  by (simp_all add: stops_def)

lemma probe_first:
  assumes cap: "length sl = 2 ^ k" and at: "at < length sl"
    and d: "d < fuel" and hit: "stops match (sl ! around sl at d)"
  shows "\<exists>d0 \<le> d. probe fuel match sl at = Some (around sl at d0)
     \<and> stops match (sl ! around sl at d0) \<and> (\<forall>j < d0. \<not> stops match (sl ! around sl at j))"
  using at d hit
proof (induction fuel arbitrary: at d)
  case 0
  then show ?case by simp
next
  case (Suc fuel)
  show ?case
  proof (cases "stops match (sl ! at)")
    case True
    with Suc.prems have "probe (Suc fuel) match sl at = Some (around sl at 0)"
      by (auto simp: stops_def split: option.splits)
    with True Suc.prems show ?thesis by (intro exI [of _ 0]) auto
  next
    case False
    let ?at = "(at + 1) mod length sl"
    have "d \<noteq> 0"
    proof
      assume "d = 0"
      with False Suc.prems show False by simp
    qed
    then obtain d' where d': "d = Suc d'" by (cases d) auto
    have step: "probe (Suc fuel) match sl at = probe fuel match sl ?at"
      using False cap by (auto simp: stops_def and_pow2_mod split: option.splits)
    have shift: "around sl ?at j = around sl at (Suc j)" for j
      by (simp add: mod_add_left_eq)
    have "length sl > 0" using Suc.prems by auto
    then have "?at < length sl" by simp
    from Suc.IH [OF this, of d'] Suc.prems d' obtain d0 where d0: "d0 \<le> d'"
      "probe fuel match sl ?at = Some (around sl at (Suc d0))"
      "stops match (sl ! around sl at (Suc d0))"
      "\<forall>j < d0. \<not> stops match (sl ! around sl at (Suc j))"
      unfolding shift by auto
    show ?thesis
    proof (intro exI [of _ "Suc d0"] conjI allI impI)
      fix j assume "j < Suc d0"
      with False Suc.prems d0(4) show "\<not> stops match (sl ! around sl at j)"
        by (cases j) auto
    qed (use d0 d' step in auto)
  qed
qed

text \<open>One empty slot is enough for the loop to end.\<close>

lemma around_onto:
  assumes "p < length sl" and "h < length sl"
  obtains d where "d < length sl" and "around sl h d = p"
proof (cases "h \<le> p")
  case True
  with assms show ?thesis by (intro that [of "p - h"]) auto
next
  case False
  with assms show ?thesis by (intro that [of "p + length sl - h"]) auto
qed

lemma probe_ends:
  assumes cap: "length sl = 2 ^ k" and at: "at < length sl"
    and p: "p < length sl" "sl ! p = None"
  shows "\<exists>d0 < length sl. probe (length sl) match sl at = Some (around sl at d0)
     \<and> stops match (sl ! around sl at d0) \<and> (\<forall>j < d0. \<not> stops match (sl ! around sl at j))"
proof -
  obtain d where "d < length sl" "around sl at d = p" using around_onto [OF p(1) at] .
  with probe_first [OF cap at, of d "length sl" match] p(2) show ?thesis
    using le_less_trans by (metis stops_simps(1))
qed

subsection \<open>The table invariant\<close>

text \<open>
  Every entry sits where probing for its key stops: the slots from its home to it are
  occupied by entries with other keys.
\<close>

definition placed :: "('e \<Rightarrow> 'k) \<Rightarrow> ('k \<Rightarrow> nat) \<Rightarrow> 'e option list \<Rightarrow> bool" where
  "placed key hm sl \<longleftrightarrow>
    (\<forall>p < length sl. \<forall>e. sl ! p = Some e \<longrightarrow>
      (\<exists>d < length sl. p = around sl (hm (key e)) d \<and>
        (\<forall>j < d. \<exists>x. sl ! around sl (hm (key e)) j = Some x \<and> key x \<noteq> key e)))"

definition entries :: "'e option list \<Rightarrow> 'e set" where
  "entries sl = {e. Some e \<in> set sl}"

lemma placed_empty: "placed key hm (replicate n None)"
  by (simp add: placed_def)

lemma entries_empty [simp]: "entries (replicate n None) = {}"
  by (auto simp: entries_def)

lemma entries_update: "p < length sl \<Longrightarrow> sl ! p = None \<Longrightarrow> entries (sl[p := Some e]) = insert e (entries sl)"
proof -
  assume p: "p < length sl" "sl ! p = None"
  have "Some x \<in> set (sl[p := Some e]) \<longleftrightarrow> x = e \<or> Some x \<in> set sl" for x
  proof
    assume "Some x \<in> set (sl[p := Some e])"
    then show "x = e \<or> Some x \<in> set sl"
      using set_update_subset_insert [of sl p "Some e"] by auto
  next
    assume "x = e \<or> Some x \<in> set sl"
    then show "Some x \<in> set (sl[p := Some e])"
    proof
      assume "x = e"
      with p show ?thesis by (auto intro: set_update_memI)
    next
      assume "Some x \<in> set sl"
      then obtain q where "q < length sl" "sl ! q = Some x" by (auto simp: in_set_conv_nth)
      with p show ?thesis by (auto simp: in_set_conv_nth nth_list_update intro!: exI [of _ q])
    qed
  qed
  then show ?thesis by (auto simp: entries_def)
qed

text \<open>What the loop finds, for a table with its entries in place and an empty slot.\<close>

lemma probe_finds:
  assumes cap: "length sl = 2 ^ k" and hm: "hm x < length sl"
    and pl: "placed key hm sl" and p: "p < length sl" "sl ! p = None"
  obtains q d where "probe (length sl) (\<lambda>e. key e = x) sl (hm x) = Some q" "q < length sl"
    "d < length sl" "q = around sl (hm x) d"
    "\<forall>j < d. \<exists>y. sl ! around sl (hm x) j = Some y \<and> key y \<noteq> x"
    "case sl ! q of None \<Rightarrow> x \<notin> key ` entries sl | Some e \<Rightarrow> key e = x \<and> e \<in> entries sl"
proof -
  from probe_ends [OF cap hm p, of "\<lambda>e. key e = x"] obtain d where d: "d < length sl"
    "probe (length sl) (\<lambda>e. key e = x) sl (hm x) = Some (around sl (hm x) d)"
    "stops (\<lambda>e. key e = x) (sl ! around sl (hm x) d)"
    "\<forall>j < d. \<not> stops (\<lambda>e. key e = x) (sl ! around sl (hm x) j)" by blast
  let ?q = "around sl (hm x) d"
  have q: "?q < length sl" using hm by (auto intro: mod_less_divisor)
  have before: "\<forall>j < d. \<exists>y. sl ! around sl (hm x) j = Some y \<and> key y \<noteq> x"
  proof (intro allI impI)
    fix j assume "j < d"
    with d(4) have "\<not> stops (\<lambda>e. key e = x) (sl ! around sl (hm x) j)" by blast
    then show "\<exists>y. sl ! around sl (hm x) j = Some y \<and> key y \<noteq> x"
      by (auto simp: stops_def split: option.splits)
  qed
  have "case sl ! ?q of None \<Rightarrow> x \<notin> key ` entries sl | Some e \<Rightarrow> key e = x \<and> e \<in> entries sl"
  proof (cases "sl ! ?q")
    case (Some e)
    with d(3) q show ?thesis by (auto simp: entries_def) (metis nth_mem)
  next
    case None
    have "x \<notin> key ` entries sl"
    proof
      assume "x \<in> key ` entries sl"
      then obtain e where e: "Some e \<in> set sl" "key e = x" by (auto simp: entries_def)
      then obtain r where r: "r < length sl" "sl ! r = Some e" by (auto simp: in_set_conv_nth)
      with pl e obtain d' where d': "d' < length sl" "r = around sl (hm x) d'"
        "\<forall>j < d'. \<exists>y. sl ! around sl (hm x) j = Some y \<and> key y \<noteq> x"
        unfolding placed_def by blast
      show False
      proof (cases d d' rule: linorder_cases)
        case less
        with d'(3) None show False by auto
      next
        case equal
        with d'(2) r None show False by simp
      next
        case greater
        with before d'(2) r e show False by auto
      qed
    qed
    with None show ?thesis by simp
  qed
  with that d(1,2) q before show thesis by blast
qed

text \<open>Storing at the empty slot where probing stopped keeps every entry in place.\<close>

lemma placed_store:
  assumes pl: "placed key hm sl" and q: "q < length sl" "sl ! q = None"
    and d: "d < length sl" "q = around sl (hm (key e)) d"
    and before: "\<forall>j < d. \<exists>y. sl ! around sl (hm (key e)) j = Some y \<and> key y \<noteq> key e"
  shows "placed key hm (sl[q := Some e])"
  unfolding placed_def
proof (intro allI impI)
  fix p e' assume p: "p < length (sl[q := Some e])" and e': "sl[q := Some e] ! p = Some e'"
  have keep: "\<exists>x. sl[q := Some e] ! r = Some x \<and> key x \<noteq> y" 
    if "\<exists>x. sl ! r = Some x \<and> key x \<noteq> y" for r y
    using that q by (cases "r = q") auto
  show "\<exists>d < length (sl[q := Some e]). p = around (sl[q := Some e]) (hm (key e')) d \<and>
    (\<forall>j < d. \<exists>x. sl[q := Some e] ! around (sl[q := Some e]) (hm (key e')) j = Some x \<and> key x \<noteq> key e')"
  proof (cases "p = q")
    case True
    with e' q have "e' = e" by simp
    with d before True keep show ?thesis by (intro exI [of _ d]) auto
  next
    case False
    with p e' pl obtain d' where "d' < length sl" "p = around sl (hm (key e')) d'"
      "\<forall>j < d'. \<exists>x. sl ! around sl (hm (key e')) j = Some x \<and> key x \<noteq> key e'"
      unfolding placed_def by (metis length_list_update nth_list_update_neq)
    with keep show ?thesis by (intro exI [of _ d']) auto
  qed
qed

subsection \<open>How full a table is\<close>

definition occupied :: "'a option list \<Rightarrow> nat" where
  "occupied sl = length (filter (\<lambda>x. x \<noteq> None) sl)"

lemma occupied_update:
  "p < length sl \<Longrightarrow> sl ! p = None \<Longrightarrow> occupied (sl[p := Some e]) = occupied sl + 1"
proof -
  assume p: "p < length sl" "sl ! p = None"
  then obtain xs ys where "sl = xs @ None # ys" "length xs = p" by (metis id_take_nth_drop length_take min.absorb4)
  then show ?thesis by (auto simp: occupied_def)
qed

lemma empty_slot: "occupied sl < length sl \<Longrightarrow> \<exists>p < length sl. sl ! p = None"
proof (rule ccontr)
  assume less: "occupied sl < length sl" and "\<not> (\<exists>p < length sl. sl ! p = None)"
  then have "filter (\<lambda>x. x \<noteq> None) sl = sl" by (auto simp: filter_id_conv in_set_conv_nth)
  with less show False by (simp add: occupied_def)
qed

lemma occupied_replicate [simp]: "occupied (replicate n None) = 0"
  by (simp add: occupied_def)

end
