(* ===== verification/Json_Keyset.thy ===== *)
theory Json_Keyset
  imports Prelude Probe
begin

unbundle bit_operations_syntax

section \<open>The set of member names of an object (src/src/json.c)\<close>

text \<open>
  While an object is parsed its member names are kept in a hash set so that a duplicate is
  found in expected constant time. The set is a linear-probing table that doubles when it
  would become more than half full.

  Modelled: \<open>key_hash\<close> (FNV-1a, 64 bit) and \<open>keyset_insert\<close> with its three return values: 1
  inserted, 0 duplicate, -1 no table to grow into, which is a size the code refuses or an
  allocation that fails. Which allocations succeed is the parameter \<open>calloc\<close>, by the number of
  slots. The result \<open>None\<close> would be a probing loop that does not end, which the theorem below
  excludes.
\<close>

definition fnv64_basis :: u64 where
  "fnv64_basis = 1469598103934665603"

definition fnv64_prime :: u64 where
  "fnv64_prime = 1099511628211"

definition key_hash :: "bytes \<Rightarrow> u64" where
  "key_hash s = fold (\<lambda>c h. (h XOR ucast c) * fnv64_prime) s fnv64_basis"

record keyset =
  slots :: "bytes option list"
  used :: nat

definition keyset_empty :: keyset where
  "keyset_empty = \<lparr>slots = [], used = 0\<rparr>"

text \<open>One old entry moves to the first empty slot of the grown table.\<close>

definition rehash_into :: "bytes option list \<Rightarrow> bytes option \<Rightarrow> bytes option list option" where
  "rehash_into sl old =
    (case old of None \<Rightarrow> Some sl
     | Some k \<Rightarrow>
       (case probe (length sl) (\<lambda>_. False) sl (home (key_hash k) (length sl)) of
          None \<Rightarrow> None
        | Some at \<Rightarrow> Some (sl[at := Some k])))"

fun rehash_all :: "bytes option list \<Rightarrow> bytes option list \<Rightarrow> bytes option list option" where
  "rehash_all sl [] = Some sl"
| "rehash_all sl (old # olds) =
     (case rehash_into sl old of None \<Rightarrow> None | Some sl' \<Rightarrow> rehash_all sl' olds)"

definition keyset_full :: "keyset \<Rightarrow> bool" where
  "keyset_full s \<longleftrightarrow> used s + 1 > length (slots s) div 2"

text \<open>The doubled capacity, in \<^verbatim>\<open>size_t\<close>, and the test that refuses it.\<close>

definition keyset_cap :: "keyset \<Rightarrow> nat" where
  "keyset_cap s = (let cap = length (slots s) in if cap \<noteq> 0 then cap * 2 mod 2 ^ 64 else 16)"

definition keyset_no_table :: "(nat \<Rightarrow> bool) \<Rightarrow> keyset \<Rightarrow> bool" where
  "keyset_no_table calloc s \<longleftrightarrow>
     keyset_cap s < length (slots s) \<or> keyset_cap s > (2 ^ 64 - 1) div 8 \<or> \<not> calloc (keyset_cap s)"

definition keyset_grow :: "keyset \<Rightarrow> keyset option" where
  "keyset_grow s =
    map_option (\<lambda>sl. s\<lparr>slots := sl\<rparr>) (rehash_all (replicate (keyset_cap s) None) (slots s))"

definition keyset_insert :: "(nat \<Rightarrow> bool) \<Rightarrow> keyset \<Rightarrow> bytes \<Rightarrow> (int \<times> keyset) option" where
  "keyset_insert calloc s key =
    (if keyset_full s \<and> keyset_no_table calloc s then Some (-1, s)
     else case (if keyset_full s then keyset_grow s else Some s) of None \<Rightarrow> None
     | Some s1 \<Rightarrow>
       (let sl = slots s1 in
        case probe (length sl) (\<lambda>k. k = key) sl (home (key_hash key) (length sl)) of
          None \<Rightarrow> None
        | Some at \<Rightarrow>
          (case sl ! at of
             Some _ \<Rightarrow> Some (0, s1)
           | None \<Rightarrow> Some (1, s1\<lparr>slots := sl[at := Some key], used := used s1 + 1\<rparr>))))"

subsection \<open>The contract the parser relies on\<close>

text \<open>
  A set that answers 1 exactly for a new element, as long as it holds fewer than \<open>limit\<close>; any
  other answer makes the parser refuse the document.
\<close>

locale fresh_set =
  fixes empty :: 's
    and insert :: "'s \<Rightarrow> 'k \<Rightarrow> (int \<times> 's) option"
    and elems :: "'s \<Rightarrow> 'k set"
    and ok :: "'s \<Rightarrow> bool"
    and held :: "'s \<Rightarrow> nat"
    and limit :: nat
  assumes ok_empty: "ok empty"
    and elems_empty: "elems empty = {}"
    and held_empty: "held empty = 0"
    and insert_fresh: "ok s \<Longrightarrow> k \<notin> elems s \<Longrightarrow> held s < limit \<Longrightarrow>
      \<exists>s'. insert s k = Some (1, s') \<and> ok s' \<and> elems s' = Set.insert k (elems s) \<and> held s' = held s + 1"
    and insert_dup: "ok s \<Longrightarrow> k \<in> elems s \<Longrightarrow> \<exists>r s'. insert s k = Some (r, s') \<and> r \<noteq> 1"
begin

lemma insert_one:
  assumes "ok s" and "held s < limit" and "insert s k = Some (1, s')"
  shows "k \<notin> elems s \<and> ok s' \<and> elems s' = Set.insert k (elems s) \<and> held s' = held s + 1"
proof (cases "k \<in> elems s")
  case True
  with assms insert_dup [of s k] show ?thesis by auto
next
  case False
  with assms insert_fresh [of s k] show ?thesis by auto
qed

lemma insert_total: "ok s \<Longrightarrow> held s < limit \<Longrightarrow> insert s k \<noteq> None"
  using insert_fresh [of s k] insert_dup [of s k] by (cases "k \<in> elems s") auto

end

subsection \<open>The hash set keeps the contract\<close>

text \<open>
  Invariant: the capacity is 0 or a power of two from 2 to 2^60, \<open>used\<close> counts the entries, at
  most half of the slots are in use, and every entry is where probing finds it.
\<close>

definition table_ok :: "bytes option list \<Rightarrow> bool" where
  "table_ok sl \<longleftrightarrow> (\<exists>k > 0. length sl = 2 ^ k)
     \<and> placed id (\<lambda>k. home (key_hash k) (length sl)) sl"

definition keyset_ok :: "keyset \<Rightarrow> bool" where
  "keyset_ok s \<longleftrightarrow> used s = occupied (slots s)
     \<and> (slots s = [] \<or> table_ok (slots s) \<and> used s \<le> length (slots s) div 2 \<and> length (slots s) \<le> 2 ^ 60)"

definition keyset_elems :: "keyset \<Rightarrow> bytes set" where
  "keyset_elems s = entries (slots s)"

lemma rehash_into_ok:
  assumes sl: "table_ok sl" "occupied sl < length sl" and new: "k \<notin> entries sl"
  shows "\<exists>sl'. rehash_into sl (Some k) = Some sl' \<and> table_ok sl' \<and> length sl' = length sl
    \<and> occupied sl' = occupied sl + 1 \<and> entries sl' = insert k (entries sl)"
proof -
  let ?hm = "\<lambda>k. home (key_hash k) (length sl)"
  from sl obtain n where n: "length sl = 2 ^ n" "placed id ?hm sl" by (auto simp: table_ok_def)
  have hm: "?hm k < length sl" using n by (simp add: home_less)
  from empty_slot [OF sl(2)] obtain p where p: "p < length sl" "sl ! p = None" by blast
  from probe_ends [OF n(1) hm p, of "\<lambda>_. False"] obtain d where d: "d < length sl"
    "probe (length sl) (\<lambda>_. False) sl (?hm k) = Some (around sl (?hm k) d)"
    "stops (\<lambda>_. False) (sl ! around sl (?hm k) d)"
    "\<forall>j < d. \<not> stops (\<lambda>_. False) (sl ! around sl (?hm k) j)" by blast
  let ?q = "around sl (?hm k) d"
  have q: "?q < length sl" "sl ! ?q = None"
    using around_less [OF p(1)] d(3) by (auto simp: stops_def split: option.splits)
  have "\<forall>j < d. \<exists>y. sl ! around sl (?hm k) j = Some y \<and> id y \<noteq> id k"
  proof (intro allI impI)
    fix j assume "j < d"
    then obtain y where y: "sl ! around sl (?hm k) j = Some y"
      using d(4) by (auto simp: stops_def split: option.splits)
    moreover have "around sl (?hm k) j < length sl" using n by simp
    ultimately have "y \<in> entries sl" by (auto simp: entries_def) (metis nth_mem)
    with y new show "\<exists>y. sl ! around sl (?hm k) j = Some y \<and> id y \<noteq> id k" by auto
  qed
  with placed_store [of id ?hm sl ?q d k] n q d have "placed id ?hm (sl[?q := Some k])" by simp
  then have "table_ok (sl[?q := Some k])" using sl by (auto simp: table_ok_def)
  then show ?thesis using d(2) q
    by (auto simp: rehash_into_def occupied_update entries_update)
qed


lemma rehash_all_ok:
  assumes "table_ok sl" and "occupied sl + occupied olds < length sl"
    and "distinct (filter (\<lambda>x. x \<noteq> None) olds)" and "entries sl \<inter> entries olds = {}"
  shows "\<exists>sl'. rehash_all sl olds = Some sl' \<and> table_ok sl' \<and> length sl' = length sl
    \<and> occupied sl' = occupied sl + occupied olds \<and> entries sl' = entries sl \<union> entries olds"
  using assms
proof (induction olds arbitrary: sl)
  case Nil
  then show ?case by (simp add: occupied_def entries_def)
next
  case (Cons old olds)
  show ?case
  proof (cases old)
    case None
    with Cons.prems Cons.IH [of sl] show ?thesis
      by (auto simp: rehash_into_def occupied_def entries_def)
  next
    case (Some k)
    have k: "k \<notin> entries sl" "k \<notin> entries olds"
      using Cons.prems Some by (auto simp: entries_def)
    from Cons.prems Some have "occupied sl < length sl" by (simp add: occupied_def)
    from rehash_into_ok [OF Cons.prems(1) this k(1)] obtain sl1 where sl1:
      "rehash_into sl (Some k) = Some sl1" "table_ok sl1" "length sl1 = length sl"
      "occupied sl1 = occupied sl + 1" "entries sl1 = insert k (entries sl)" by blast
    have "occupied sl1 + occupied olds < length sl1"
      using Cons.prems Some sl1 by (simp add: occupied_def)
    moreover have "distinct (filter (\<lambda>x. x \<noteq> None) olds)"
      using Cons.prems by (auto split: if_splits)
    moreover have "entries sl1 \<inter> entries olds = {}"
      using Cons.prems Some sl1 k by (auto simp: entries_def)
    ultimately obtain sl' where "rehash_all sl1 olds = Some sl'" "table_ok sl'"
      "length sl' = length sl1" "occupied sl' = occupied sl1 + occupied olds"
      "entries sl' = entries sl1 \<union> entries olds" using Cons.IH [OF sl1(2)] by blast
    with Some sl1 show ?thesis by (auto simp: occupied_def entries_def)
  qed
qed

text \<open>A table never holds a name twice.\<close>

lemma placed_distinct:
  assumes "placed id hm sl"
  shows "distinct (filter (\<lambda>x. x \<noteq> None) sl)"
proof -
  have eq: "p = q" if pq: "p < length sl" "q < length sl" "sl ! p = Some e" "sl ! q = Some e" for p q e
  proof -
    have at: "\<exists>d. r = around sl (hm e) d \<and> (\<forall>j < d. \<exists>x. sl ! around sl (hm e) j = Some x \<and> x \<noteq> e)"
      if "r < length sl" "sl ! r = Some e" for r
      using assms that unfolding placed_def by fastforce
    from at [OF pq(1,3)] obtain d where d: "p = around sl (hm e) d"
      "\<forall>j < d. \<exists>x. sl ! around sl (hm e) j = Some x \<and> x \<noteq> e" by blast
    from at [OF pq(2,4)] obtain d' where d': "q = around sl (hm e) d'"
      "\<forall>j < d'. \<exists>x. sl ! around sl (hm e) j = Some x \<and> x \<noteq> e" by blast
    with pq d show "p = q" by (cases d d' rule: linorder_cases) auto
  qed
  have "distinct (filter (\<lambda>x. x \<noteq> None) xs)"
    if "\<And>p q e. p < length xs \<Longrightarrow> q < length xs \<Longrightarrow> xs ! p = Some e \<Longrightarrow> xs ! q = Some e \<Longrightarrow> p = q"
    for xs :: "'a option list"
    using that
  proof (induction xs)
    case (Cons x xs)
    have "distinct (filter (\<lambda>x. x \<noteq> None) xs)"
    proof (rule Cons.IH)
      fix p q e assume "p < length xs" "q < length xs" "xs ! p = Some e" "xs ! q = Some e"
      with Cons.prems [of "Suc p" "Suc q" e] show "p = q" by simp
    qed
    moreover have "x \<notin> set xs" if "x \<noteq> None"
    proof
      assume "x \<in> set xs"
      then obtain p where "p < length xs" "xs ! p = x" by (auto simp: in_set_conv_nth)
      with Cons.prems [of 0 "Suc p"] that show False by auto
    qed
    ultimately show ?case by auto
  qed simp
  with eq show ?thesis by blast
qed

lemma keyset_cap_pow:
  assumes "keyset_ok s"
  shows "keyset_cap s = (if slots s = [] then 16 else 2 * length (slots s)) \<and> (\<exists>k > 0. keyset_cap s = 2 ^ k)"
proof (cases "slots s = []")
  case True
  then show ?thesis by (auto simp: keyset_cap_def intro!: exI [of _ 4])
next
  case False
  with assms obtain k where k: "length (slots s) = 2 ^ k" "length (slots s) \<le> 2 ^ 60"
    by (auto simp: keyset_ok_def table_ok_def)
  then have "length (slots s) * 2 < 2 ^ 64" by simp
  then have c: "keyset_cap s = 2 * length (slots s)" using False by (simp add: keyset_cap_def)
  then have "keyset_cap s = 2 ^ Suc k" using k(1) by simp
  then show ?thesis using False c by auto
qed

lemma pow2_below:
  assumes "(n::nat) = 2 ^ k" "n < 2 ^ Suc m"
  shows "n \<le> 2 ^ m"
proof -
  have "k < Suc m" using assms by (simp only: power_strict_increasing_iff one_less_numeral_iff semiring_norm)
  then show ?thesis using assms(1) by simp
qed

lemma keyset_grow_ok:
  assumes "keyset_ok s" "keyset_full s" "\<not> keyset_no_table calloc s"
  shows "\<exists>s'. keyset_grow s = Some s' \<and> keyset_ok s' \<and> keyset_elems s' = keyset_elems s
    \<and> table_ok (slots s') \<and> used s' + 1 \<le> length (slots s') div 2 \<and> used s' = used s
    \<and> length (slots s') \<le> 2 ^ 60"
proof -
  note cap = keyset_cap_pow [OF assms(1)]
  let ?cap = "keyset_cap s"
  from cap obtain k where k: "k > 0" "?cap = 2 ^ k" by blast
  then have t: "table_ok (replicate ?cap None)"
    by (auto simp: table_ok_def placed_empty)
  have "?cap < 2 ^ Suc 60" using assms(3) by (simp add: keyset_no_table_def)
  with k(2) have small: "?cap \<le> 2 ^ 60" by (rule pow2_below)
  have room: "used s + 1 \<le> ?cap div 2"
  proof (cases "slots s = []")
    case True
    with assms(1) cap show ?thesis by (simp add: keyset_ok_def occupied_def)
  next
    case False
    with assms(1) obtain k where k: "length (slots s) = 2 ^ k" "k > 0" "used s \<le> length (slots s) div 2"
      by (auto simp: keyset_ok_def table_ok_def)
    then obtain j where j: "length (slots s) = 2 * 2 ^ j" by (cases k) auto
    then have "used s \<le> 2 ^ j" using k(3) by simp
    moreover have "1 \<le> (2::nat) ^ j" by simp
    ultimately have "used s + 1 \<le> length (slots s)" using j by linarith
    with False cap show ?thesis by simp
  qed
  have u: "used s = occupied (slots s)" using assms by (simp add: keyset_ok_def)
  have "distinct (filter (\<lambda>x. x \<noteq> None) (slots s))"
    using assms placed_distinct by (auto simp: keyset_ok_def table_ok_def)
  moreover have "occupied (replicate ?cap None) + occupied (slots s) < length (replicate ?cap None)"
    using room u by (simp add: occupied_def)
  ultimately obtain sl where sl: "rehash_all (replicate ?cap None) (slots s) = Some sl"
    "table_ok sl" "length sl = ?cap" "occupied sl = occupied (slots s)" "entries sl = entries (slots s)"
    using rehash_all_ok [OF t, of "slots s"] by auto
  then have "keyset_grow s = Some (s\<lparr>slots := sl\<rparr>)" by (simp add: keyset_grow_def)
  with sl room u small show ?thesis by (auto simp: keyset_ok_def keyset_elems_def)
qed

text \<open>The table the name is looked up in, grown or not.\<close>

lemma keyset_table:
  assumes "keyset_ok s" "\<not> (keyset_full s \<and> keyset_no_table calloc s)"
  shows "\<exists>s'. (if keyset_full s then keyset_grow s else Some s) = Some s' \<and> keyset_ok s'
    \<and> keyset_elems s' = keyset_elems s \<and> table_ok (slots s') \<and> used s' + 1 \<le> length (slots s') div 2
    \<and> used s' = used s \<and> length (slots s') \<le> 2 ^ 60"
proof (cases "keyset_full s")
  case True
  with assms keyset_grow_ok [OF assms(1) True, of calloc] show ?thesis by auto
next
  case False
  then have "slots s \<noteq> []" by (auto simp: keyset_full_def)
  with assms(1) False show ?thesis by (auto simp: keyset_full_def keyset_ok_def)
qed

lemma keyset_inserts:
  assumes "keyset_ok s" "\<not> (keyset_full s \<and> keyset_no_table calloc s)"
  shows "\<exists>s'. keyset_insert calloc s k = Some (if k \<in> keyset_elems s then 0 else 1, s')
    \<and> keyset_ok s' \<and> keyset_elems s' = insert k (keyset_elems s)
    \<and> used s' = used s + (if k \<in> keyset_elems s then 0 else 1)"
proof -
  from keyset_table [OF assms] obtain s1 where s1: "(if keyset_full s then keyset_grow s else Some s) = Some s1"
    "keyset_ok s1" "keyset_elems s1 = keyset_elems s" "table_ok (slots s1)"
    "used s1 + 1 \<le> length (slots s1) div 2" "used s1 = used s" "length (slots s1) \<le> 2 ^ 60" by blast
  let ?sl = "slots s1"
  let ?hm = "\<lambda>k. home (key_hash k) (length ?sl)"
  from s1 obtain n where n: "length ?sl = 2 ^ n" "placed id ?hm ?sl" by (auto simp: table_ok_def)
  have "occupied ?sl < length ?sl" using s1 by (auto simp: keyset_ok_def)
  from empty_slot [OF this] obtain p where p: "p < length ?sl" "?sl ! p = None" by blast
  have hm: "?hm k < length ?sl" using n by (simp add: home_less)
  obtain q d where q:
    "probe (length ?sl) (\<lambda>e. e = k) ?sl (?hm k) = Some q" "q < length ?sl" "d < length ?sl"
    "q = around ?sl (?hm k) d" "\<forall>j < d. \<exists>y. ?sl ! around ?sl (?hm k) j = Some y \<and> y \<noteq> k"
    "case ?sl ! q of None \<Rightarrow> k \<notin> entries ?sl | Some e \<Rightarrow> e = k \<and> e \<in> entries ?sl"
    by (rule probe_finds [OF n(1) hm n(2) p]) (rule that, simp_all only: id_apply image_id)
  note ins = keyset_insert_def [of calloc s k, unfolded if_not_P [OF assms(2)] s1(1) option.case Let_def q(1)]
  show ?thesis
  proof (cases "k \<in> keyset_elems s")
    case False
    with s1 q(6) have free: "?sl ! q = None" by (auto simp: keyset_elems_def split: option.splits)
    let ?s' = "s1\<lparr>slots := ?sl[q := Some k], used := used s1 + 1\<rparr>"
    have "placed id ?hm (?sl[q := Some k])"
      using placed_store [of id ?hm ?sl q d k] n q free by simp
    then have "keyset_ok ?s'"
      using s1 q free by (auto simp: keyset_ok_def table_ok_def occupied_update)
    moreover have "keyset_elems ?s' = insert k (keyset_elems s)"
      using s1 q free by (simp add: keyset_elems_def entries_update)
    ultimately show ?thesis using False free s1(6) by (simp add: ins)
  next
    case True
    with s1 q(6) obtain e where "?sl ! q = Some e" by (auto simp: keyset_elems_def split: option.splits)
    with True s1 show ?thesis by (auto simp: ins)
  qed
qed

text \<open>Fewer than 2^59 names: the capacity stays one the code accepts.\<close>

lemma keyset_room:
  assumes "keyset_ok s" "used s < 2 ^ 59"
  shows "\<not> (keyset_full s \<and> keyset_no_table (\<lambda>_. True) s)"
proof
  assume a: "keyset_full s \<and> keyset_no_table (\<lambda>_. True) s"
  note cap = keyset_cap_pow [OF assms(1)]
  have "slots s \<noteq> []" using a cap by (auto simp: keyset_no_table_def)
  with assms(1) obtain k where k: "length (slots s) = 2 ^ k" by (auto simp: keyset_ok_def table_ok_def)
  have "length (slots s) div 2 < used s + 1" using a by (simp add: keyset_full_def)
  then have "length (slots s) < 2 ^ Suc 59" using assms(2) by simp
  then have "length (slots s) \<le> 2 ^ 59" using k pow2_below by blast
  with cap a show False by (auto simp: keyset_no_table_def split: if_splits)
qed

text \<open>The parser's own set: it allocates as it needs.\<close>

interpretation ks: fresh_set keyset_empty "keyset_insert (\<lambda>_. True)" keyset_elems keyset_ok used "2 ^ 59"
proof
  show "keyset_ok keyset_empty" by (simp add: keyset_ok_def keyset_empty_def occupied_def)
  show "keyset_elems keyset_empty = {}" by (simp add: keyset_elems_def keyset_empty_def entries_def)
  show "used keyset_empty = 0" by (simp add: keyset_empty_def)
next
  fix s k assume ok: "keyset_ok s" and k: "k \<notin> keyset_elems s" and u: "used s < 2 ^ 59"
  from keyset_inserts [OF ok keyset_room [OF ok u], of k] k
  show "\<exists>s'. keyset_insert (\<lambda>_. True) s k = Some (1, s') \<and> keyset_ok s'
      \<and> keyset_elems s' = insert k (keyset_elems s) \<and> used s' = used s + 1" by simp
next
  fix s k assume ok: "keyset_ok s" and k: "k \<in> keyset_elems s"
  show "\<exists>r s'. keyset_insert (\<lambda>_. True) s k = Some (r, s') \<and> r \<noteq> 1"
  proof (cases "keyset_full s \<and> keyset_no_table (\<lambda>_. True) s")
    case True
    then show ?thesis by (simp add: keyset_insert_def)
  next
    case False
    from keyset_inserts [OF ok this, of k] k show ?thesis by auto
  qed
qed

text \<open>
  Property C8. Whatever allocations succeed, and however names collide: \<open>keyset_insert\<close> answers
  -1 and leaves the set alone exactly when the table is half full and its double is a size the code
  refuses or cannot allocate; otherwise it answers 0 for a name already inserted and 1 for a new
  one, which it adds, and the names and the invariant are kept when the table grows. The probing
  loops end.
\<close>

theorem keyset_insert_correct:
  assumes "keyset_ok s"
  shows "if used s + 1 > length (slots s) div 2
      \<and> (keyset_cap s > (2 ^ 64 - 1) div 8 \<or> \<not> calloc (keyset_cap s))
    then keyset_insert calloc s k = Some (-1, s)
    else \<exists>s'. keyset_insert calloc s k = Some (if k \<in> keyset_elems s then 0 else 1, s')
      \<and> keyset_ok s' \<and> keyset_elems s' = insert k (keyset_elems s)
      \<and> used s' = used s + (if k \<in> keyset_elems s then 0 else 1)"
proof -
  have "keyset_full s \<and> keyset_no_table calloc s \<longleftrightarrow> used s + 1 > length (slots s) div 2
      \<and> (keyset_cap s > (2 ^ 64 - 1) div 8 \<or> \<not> calloc (keyset_cap s))"
    using keyset_cap_pow [OF assms] by (auto simp: keyset_full_def keyset_no_table_def)
  moreover have "keyset_insert calloc s k = Some (-1, s)" if "keyset_full s \<and> keyset_no_table calloc s"
    using that by (simp add: keyset_insert_def)
  ultimately show ?thesis using keyset_inserts [OF assms, of calloc k] by presburger
qed

text \<open>The empty set: one new name, and the refusal when no table can be had.\<close>

theorem keyset_insert_correct_witness:
  "(\<exists>s'. keyset_insert (\<lambda>n. n \<le> 16) keyset_empty [0x61] = Some (1, s') \<and> keyset_elems s' = {[0x61]})
   \<and> keyset_insert (\<lambda>n. n < 16) keyset_empty [0x61] = Some (-1, keyset_empty)"
proof -
  have e: "keyset_cap keyset_empty = 16" "used keyset_empty = 0" "slots keyset_empty = []"
    by (simp_all add: keyset_empty_def keyset_cap_def)
  from keyset_insert_correct [OF ks.ok_empty, of "\<lambda>n. n \<le> 16" "[0x61]"]
    keyset_insert_correct [OF ks.ok_empty, of "\<lambda>n. n < 16" "[0x61]"]
  show ?thesis by (auto simp: e ks.elems_empty)
qed

end
