(* ===== verification/Json_Parse.thy ===== *)
theory Json_Parse
  imports Complex_Main Json_String Json_Keyset
begin

section \<open>The JSON parser (src/src/json.c)\<close>

text \<open>
  The tree \<^verbatim>\<open>jv\<close> and \<open>json_parse\<close>: a recursive-descent parser with a depth
  bound, exact number syntax, duplicate-key refusal and UTF-8 checking. The cursor
  \<^verbatim>\<open>jcur\<close> is the list of the bytes that remain; its \<^verbatim>\<open>depth\<close> is an
  argument. \<open>None\<close> is the code's NULL. Allocation always succeeds in the model.

  A finite double is the rational number it stands for. \<open>strtod\<close> is a parameter, giving
  for a text the value, the number of bytes it used and whether it set ERANGE.

  Lemmas: what each reader leaves of its input, and that the fuel given by \<open>json_parse\<close> is
  always enough, so fuel never decides a result.
\<close>

type_synonym strtod = "bytes \<Rightarrow> rat \<times> nat \<times> bool"

text \<open>
  The tagged union: the number carries whether the literal was an integer and, for a long
  integer, its own digits (\<^verbatim>\<open>num\<close>, \<^verbatim>\<open>num_int\<close>, \<^verbatim>\<open>num_text\<close>).
\<close>

datatype jv =
    J_NULL
  | J_BOOL bool
  | J_NUM rat bool "bytes option"
  | J_STR bytes
  | J_ARR "jv list"
  | J_OBJ "(bytes \<times> jv) list"

definition json_max_depth :: nat where
  "json_max_depth = 128"

definition json_is_ws :: "u8 \<Rightarrow> bool" where
  [byte_class]: "json_is_ws c \<longleftrightarrow> c = 0x20 \<or> c = 0x09 \<or> c = 0x0A \<or> c = 0x0D"

definition skip_ws :: "bytes \<Rightarrow> bytes" where
  "skip_ws s = dropWhile json_is_ws s"

subsection \<open>Numbers\<close>

text \<open>The double nearest to 1.7e308, which the source compares with.\<close>

definition json_number_max :: rat where
  "json_number_max = 4258857765019067 * 2 ^ 972"

definition json_number_text_ok :: "strtod \<Rightarrow> bytes \<Rightarrow> rat option" where
  "json_number_text_ok strtod s =
    (let (d, endp, erange) = strtod s in
     if endp = 0 \<or> endp < length s \<or> erange
        \<or> \<not> (- json_number_max < d \<and> d < json_number_max) then None
     else Some d)"

text \<open>
  The three parts of a number literal; each gives the input after the part, \<open>None\<close> where
  the code returns NULL. \<open>digits1\<close> is the \<^verbatim>\<open>do { p++ } while\<close> over one or more
  digits.
\<close>

definition digits1 :: "bytes \<Rightarrow> bytes option" where
  "digits1 p = (case p of [] \<Rightarrow> None | c # t \<Rightarrow> if is_digit c then Some (dropWhile is_digit t) else None)"

definition num_int_part :: "bytes \<Rightarrow> bytes option" where
  "num_int_part p =
    (case p of [] \<Rightarrow> None
     | c # t \<Rightarrow>
       if c = 0x30 then (if t \<noteq> [] \<and> is_digit (hd t) then None else Some t)
       else if 0x31 \<le> c \<and> c \<le> 0x39 then Some (dropWhile is_digit t)
       else None)"

definition num_frac_part :: "bytes \<Rightarrow> (bytes \<times> bool) option" where
  "num_frac_part p =
    (if p \<noteq> [] \<and> hd p = 0x2E then map_option (\<lambda>q. (q, True)) (digits1 (tl p))
     else Some (p, False))"

definition num_exp_part :: "bytes \<Rightarrow> (bytes \<times> bool) option" where
  "num_exp_part p =
    (if p \<noteq> [] \<and> (hd p = 0x65 \<or> hd p = 0x45) then
       (let q = tl p;
            q1 = (if q \<noteq> [] \<and> (hd q = 0x2B \<or> hd q = 0x2D) then tl q else q)
        in map_option (\<lambda>r. (r, True)) (digits1 q1))
     else Some (p, False))"

text \<open>The whole literal: the input after it, whether it is an integer, how many digits.\<close>

definition scan_number :: "bytes \<Rightarrow> (bytes \<times> bool \<times> nat) option" where
  "scan_number s =
    (let digits = (if s \<noteq> [] \<and> hd s = 0x2D then tl s else s) in
     case num_int_part digits of None \<Rightarrow> None
     | Some p \<Rightarrow>
       (case num_frac_part p of None \<Rightarrow> None
        | Some (p1, fr) \<Rightarrow>
          (case num_exp_part p1 of None \<Rightarrow> None
           | Some (p2, ex) \<Rightarrow> Some (p2, \<not> fr \<and> \<not> ex, length digits - length p))))"

definition parse_number :: "strtod \<Rightarrow> bytes \<Rightarrow> (jv \<times> bytes) option" where
  "parse_number strtod s =
    (case scan_number s of None \<Rightarrow> None
     | Some (p, is_int, n_int_digits) \<Rightarrow>
       (let tmp = take (length s - length p) s in
        case json_number_text_ok strtod tmp of None \<Rightarrow> None
        | Some d \<Rightarrow>
          Some (J_NUM d is_int (if is_int \<and> n_int_digits > 15 then Some tmp else None), p)))"

subsection \<open>Values and containers\<close>

text \<open>
  \<open>parse_value\<close> is called at \<open>depth\<close>; \<open>parse_container\<close> runs with the incremented depth,
  its loop \<^verbatim>\<open>for (;;)\<close> is \<open>parse_members\<close>. Array items are kept with an empty key.
\<close>

definition container :: "bool \<Rightarrow> (bytes \<times> jv) list \<Rightarrow> jv" where
  "container obj ms = (if obj then J_OBJ ms else J_ARR (map snd ms))"

definition close_of :: "bool \<Rightarrow> u8" where
  "close_of obj = (if obj then 0x7D else 0x5D)"

text \<open>The head of a member: its key (none in an array), checked for freshness, and the colon.\<close>

definition parse_key :: "bool \<Rightarrow> keyset \<Rightarrow> bytes \<Rightarrow> (bytes \<times> keyset \<times> bytes) option" where
  "parse_key obj ks s =
    (if \<not> obj then Some ([], ks, s)
     else case parse_string (skip_ws s) of None \<Rightarrow> None
     | Some (key, s1) \<Rightarrow>
       (case keyset_insert (\<lambda>_. True) ks key of None \<Rightarrow> None
        | Some (r, ks') \<Rightarrow>
          if r \<noteq> 1 then None
          else (case skip_ws s1 of c # s2 \<Rightarrow> if c = 0x3A then Some (key, ks', s2) else None
                | [] \<Rightarrow> None)))"

text \<open>The branches of \<open>parse_value\<close> for a value that is not a container.\<close>

definition parse_scalar :: "strtod \<Rightarrow> u8 \<Rightarrow> bytes \<Rightarrow> (jv \<times> bytes) option" where
  "parse_scalar strtod ch t =
    (if ch = 0x22 then map_option (\<lambda>(r, s'). (J_STR r, s')) (parse_string (ch # t))
     else if ch = 0x74 \<and> take 4 (ch # t) = ascii ''true'' then Some (J_BOOL True, drop 4 (ch # t))
     else if ch = 0x66 \<and> take 5 (ch # t) = ascii ''false'' then Some (J_BOOL False, drop 5 (ch # t))
     else if ch = 0x6E \<and> take 4 (ch # t) = ascii ''null'' then Some (J_NULL, drop 4 (ch # t))
     else if ch = 0x2D \<or> is_digit ch then parse_number strtod (ch # t)
     else None)"

fun parse_value :: "strtod \<Rightarrow> nat \<Rightarrow> nat \<Rightarrow> bytes \<Rightarrow> (jv \<times> bytes) option"
and parse_members ::
  "strtod \<Rightarrow> nat \<Rightarrow> nat \<Rightarrow> bool \<Rightarrow> keyset \<Rightarrow> (bytes \<times> jv) list \<Rightarrow> bytes \<Rightarrow> (jv \<times> bytes) option"
where
  "parse_value strtod 0 depth s = None"
| "parse_value strtod (Suc n) depth s =
    (if depth + 1 > json_max_depth then None
     else case skip_ws s of [] \<Rightarrow> None
     | ch # t \<Rightarrow>
       if ch = 0x7B \<or> ch = 0x5B then
         (let obj = (ch = 0x7B); u = skip_ws t in
          if u \<noteq> [] \<and> hd u = close_of obj then Some (container obj [], tl u)
          else parse_members strtod n (depth + 1) obj keyset_empty [] u)
       else parse_scalar strtod ch t)"
| "parse_members strtod 0 depth obj ks ms s = None"
| "parse_members strtod (Suc n) depth obj ks ms s =
    (case parse_key obj ks s of None \<Rightarrow> None
     | Some (key, ks', s1) \<Rightarrow>
       (case parse_value strtod n depth s1 of None \<Rightarrow> None
        | Some (item, s2) \<Rightarrow>
          (case skip_ws s2 of [] \<Rightarrow> None
           | c # s3 \<Rightarrow>
             if c = 0x2C then parse_members strtod n depth obj ks' (ms @ [(key, item)]) s3
             else if c = close_of obj then Some (container obj (ms @ [(key, item)]), s3)
             else None)))"

definition value_fuel :: "bytes \<Rightarrow> nat" where
  "value_fuel s = 2 * length s + 1"

definition json_parse :: "strtod \<Rightarrow> bytes \<Rightarrow> jv option" where
  "json_parse strtod s =
    (case parse_value strtod (value_fuel s) 0 s of None \<Rightarrow> None
     | Some (v, rest) \<Rightarrow> if skip_ws rest = [] then Some v else None)"


subsection \<open>What the readers consume\<close>

lemma skip_ws_le: "length (skip_ws s) \<le> length s"
  by (simp add: skip_ws_def length_dropWhile_le)

lemma skip_ws_Cons: "skip_ws s = c # t \<Longrightarrow> length t < length s"
  using skip_ws_le [of s] by simp

lemma digits1_consumes: "digits1 p = Some q \<Longrightarrow> length q < length p"
  by (auto simp: digits1_def less_Suc_eq_le length_dropWhile_le split: list.splits if_splits)

lemma num_int_part_consumes: "num_int_part p = Some q \<Longrightarrow> length q < length p"
  by (auto simp: num_int_part_def less_Suc_eq_le length_dropWhile_le split: list.splits if_splits)

lemma num_frac_part_le: "num_frac_part p = Some (q, b) \<Longrightarrow> length q \<le> length p"
  by (cases p) (auto simp: num_frac_part_def split: if_splits dest!: digits1_consumes)

lemma num_exp_part_le: "num_exp_part p = Some (q, b) \<Longrightarrow> length q \<le> length p"
  by (cases p) (auto simp: num_exp_part_def Let_def split: if_splits dest!: digits1_consumes)

lemma scan_number_consumes: "scan_number s = Some (q, b, k) \<Longrightarrow> length q < length s"
  by (cases s) (fastforce simp: scan_number_def Let_def split: option.splits if_splits
      dest: num_int_part_consumes num_frac_part_le num_exp_part_le)+

lemma parse_number_consumes [consume]:
  "parse_number strtod s = Some (v, s') \<Longrightarrow> length s' < length s"
  by (auto simp: parse_number_def Let_def split: option.splits dest: scan_number_consumes)

lemma parse_scalar_consumes [consume]:
  "parse_scalar strtod ch t = Some (v, s') \<Longrightarrow> length s' \<le> length t"
  by (auto simp: parse_scalar_def split: if_splits
      dest!: parse_string_consumes parse_number_consumes)

lemma parse_key_consumes:
  "parse_key obj ks s = Some (key, ks', s') \<Longrightarrow> length s' \<le> length s"
  by (auto simp: parse_key_def split: if_splits option.splits prod.splits bool.splits list.splits
      dest!: parse_string_consumes skip_ws_Cons) (use skip_ws_le [of s] in linarith)

lemma parse_consumes:
  "parse_value strtod n depth s = Some (v, s') \<Longrightarrow> length s' < length s"
  "parse_members strtod n depth obj ks ms s = Some (v, s') \<Longrightarrow> length s' < length s"
proof (induction strtod n depth s and strtod n depth obj ks ms s arbitrary: v s' and v s'
    rule: parse_value_parse_members.induct)
  case (2 strtod n depth s)
  then obtain ch t where st: "skip_ws s = ch # t" and d: "\<not> json_max_depth < depth + 1"
    by (auto split: if_splits list.splits)
  then have len: "length t < length s" by (simp add: skip_ws_Cons)
  show ?case
  proof (cases "ch = 0x7B \<or> ch = 0x5B")
    case True
    let ?u = "skip_ws t"
    have u: "length ?u < length s" using skip_ws_le [of t] len by linarith
    show ?thesis
    proof (cases "?u \<noteq> [] \<and> hd ?u = close_of (ch = 0x7B)")
      case closed: True
      with "2.prems" True st d u show ?thesis by (auto simp: Let_def)
    next
      case False
      with "2.prems" True st d
      have "parse_members strtod n (depth + 1) (ch = 0x7B) keyset_empty [] ?u = Some (v, s')"
        by (simp add: Let_def split: if_splits)
      from "2.IH" [OF d st True refl refl False this] u show ?thesis by simp
    qed
  next
    case False
    with "2.prems" st d have "parse_scalar strtod ch t = Some (v, s')" by (simp split: if_splits)
    with len show ?thesis by (auto dest: parse_scalar_consumes)
  qed
next
  case (4 strtod n depth obj ks ms s)
  then obtain key ks' s1 item s2 c s3 where key: "parse_key obj ks s = Some (key, ks', s1)"
    and item: "parse_value strtod n depth s1 = Some (item, s2)" and c: "skip_ws s2 = c # s3"
    by (auto split: option.splits list.splits)
  have l1: "length s1 \<le> length s" using key by (rule parse_key_consumes)
  have l2: "length s2 < length s1" by (rule "4.IH"(1) [OF key refl refl item])
  have l3: "length s3 < length s2" using c by (rule skip_ws_Cons)
  show ?case
  proof (cases "c = 0x2C")
    case True
    with "4.prems" key item c
    have "parse_members strtod n depth obj ks' (ms @ [(key, item)]) s3 = Some (v, s')" by simp
    from "4.IH"(2) [OF key refl refl item refl c True this] l1 l2 l3 show ?thesis by linarith
  next
    case False
    with "4.prems" key item c l1 l2 l3 show ?thesis by (auto split: if_splits)
  qed
qed simp_all

text \<open>The equation of \<open>parse_value\<close>, one case at a time.\<close>

lemma parse_value_container:
  assumes "skip_ws s = ch # t" and "ch = 0x7B \<or> ch = 0x5B" and "\<not> json_max_depth < depth + 1"
  shows "parse_value strtod (Suc n) depth s =
    (if skip_ws t \<noteq> [] \<and> hd (skip_ws t) = close_of (ch = 0x7B)
     then Some (container (ch = 0x7B) [], tl (skip_ws t))
     else parse_members strtod n (depth + 1) (ch = 0x7B) keyset_empty [] (skip_ws t))"
  by (subst parse_value.simps) (simp only: assms list.case if_False if_True Let_def)

lemma parse_value_scalar:
  assumes "skip_ws s = ch # t" and "\<not> (ch = 0x7B \<or> ch = 0x5B)" and "\<not> json_max_depth < depth + 1"
  shows "parse_value strtod (Suc n) depth s = parse_scalar strtod ch t"
  by (subst parse_value.simps) (simp only: assms list.case if_False)

lemma parse_value_fails:
  "skip_ws s = [] \<or> json_max_depth < depth + 1 \<Longrightarrow> parse_value strtod (Suc n) depth s = None"
  by auto

declare parse_value.simps [simp del] parse_members.simps [simp del]

subsection \<open>Fuel is never what stops the parser\<close>

lemma parse_fuel:
  "2 * length s + 1 \<le> n \<Longrightarrow> 2 * length s + 1 \<le> m \<Longrightarrow>
    parse_value strtod n depth s = parse_value strtod m depth s"
  "2 * length s + 2 \<le> n \<Longrightarrow> 2 * length s + 2 \<le> m \<Longrightarrow>
    parse_members strtod n depth obj ks ms s = parse_members strtod m depth obj ks ms s"
proof (induction strtod n depth s and strtod n depth obj ks ms s arbitrary: m and m
    rule: parse_value_parse_members.induct)
  case (2 strtod n depth s)
  obtain m' where m': "m = Suc m'" using "2.prems" by (cases m) auto
  show ?case
  proof (cases "skip_ws s = [] \<or> json_max_depth < depth + 1")
    case True
    then show ?thesis unfolding m' by (simp only: parse_value_fails)
  next
    case False
    then obtain ch t where st: "skip_ws s = ch # t" and d: "\<not> json_max_depth < depth + 1"
      by (cases "skip_ws s") auto
    then have len: "length t < length s" by (simp add: skip_ws_Cons)
    have u: "length (skip_ws t) \<le> length t" by (rule skip_ws_le)
    show ?thesis
    proof (cases "ch = 0x7B \<or> ch = 0x5B")
      case True
      have "parse_members strtod n (depth + 1) (ch = 0x7B) keyset_empty [] (skip_ws t)
          = parse_members strtod m' (depth + 1) (ch = 0x7B) keyset_empty [] (skip_ws t)"
        if "\<not> (skip_ws t \<noteq> [] \<and> hd (skip_ws t) = close_of (ch = 0x7B))"
        by (rule "2.IH" [OF d st True refl refl that]) (use "2.prems" m' len u in linarith)+
      then show ?thesis unfolding m' parse_value_container [OF st True d] by (intro if_cong refl)
    next
      case False
      from parse_value_scalar [OF st this d] show ?thesis unfolding m' by simp
    qed
  qed
next
  case (4 strtod n depth obj ks ms s)
  obtain m' where m': "m = Suc m'" using "4.prems" by (cases m) auto
  show ?case
  proof (cases "parse_key obj ks s")
    case None
    then show ?thesis unfolding m' by (simp add: parse_members.simps)
  next
    case (Some x)
    then obtain key ks' s1 where key: "parse_key obj ks s = Some (key, ks', s1)" by (cases x) auto
    have l1: "length s1 \<le> length s" using key by (rule parse_key_consumes)
    have val: "parse_value strtod n depth s1 = parse_value strtod m' depth s1"
      by (rule "4.IH"(1) [OF key refl refl]) (use "4.prems" m' l1 in linarith)+
    show ?thesis
    proof (cases "parse_value strtod n depth s1")
      case None
      with key val show ?thesis unfolding m' by (simp add: parse_members.simps)
    next
      case (Some y)
      then obtain item s2 where item: "parse_value strtod n depth s1 = Some (item, s2)" by (cases y) auto
      with val have item': "parse_value strtod m' depth s1 = Some (item, s2)" by simp
      have l2: "length s2 < length s1" using item by (rule parse_consumes)
      show ?thesis
      proof (cases "skip_ws s2")
        case Nil
        with key item item' show ?thesis unfolding m' by (simp add: parse_members.simps)
      next
        case (Cons c s3)
        then have l3: "length s3 < length s2" by (rule skip_ws_Cons)
        have "parse_members strtod n depth obj ks' (ms @ [(key, item)]) s3
            = parse_members strtod m' depth obj ks' (ms @ [(key, item)]) s3" if "c = 0x2C"
          by (rule "4.IH"(2) [OF key refl refl item refl Cons that]) (use "4.prems" m' l1 l2 l3 in linarith)+
        with key item item' Cons show ?thesis unfolding m' by (auto simp: parse_members.simps)
      qed
    qed
  qed
qed (simp_all add: parse_value.simps parse_members.simps)

text \<open>The parser without fuel, and the equations of the source's two functions for it.\<close>

definition pv :: "strtod \<Rightarrow> nat \<Rightarrow> bytes \<Rightarrow> (jv \<times> bytes) option" where
  "pv strtod d s = parse_value strtod (value_fuel s) d s"

definition pm :: "strtod \<Rightarrow> nat \<Rightarrow> bool \<Rightarrow> keyset \<Rightarrow> (bytes \<times> jv) list \<Rightarrow> bytes \<Rightarrow> (jv \<times> bytes) option" where
  "pm strtod d obj ks ms s = parse_members strtod (2 * length s + 2) d obj ks ms s"

lemma json_parse_pv:
  "json_parse strtod s =
    (case pv strtod 0 s of None \<Rightarrow> None | Some (v, rest) \<Rightarrow> if skip_ws rest = [] then Some v else None)"
  by (simp add: json_parse_def pv_def)

lemma pv_container:
  assumes "skip_ws s = ch # t" and "ch = 0x7B \<or> ch = 0x5B" and "\<not> json_max_depth < d + 1"
  shows "pv strtod d s =
    (if skip_ws t \<noteq> [] \<and> hd (skip_ws t) = close_of (ch = 0x7B)
     then Some (container (ch = 0x7B) [], tl (skip_ws t))
     else pm strtod (d + 1) (ch = 0x7B) keyset_empty [] (skip_ws t))"
proof -
  have l: "length t < length s" using assms(1) by (rule skip_ws_Cons)
  have m: "parse_members strtod (2 * length s) (d + 1) (ch = 0x7B) keyset_empty [] (skip_ws t)
      = pm strtod (d + 1) (ch = 0x7B) keyset_empty [] (skip_ws t)"
    unfolding pm_def by (rule parse_fuel(2)) (use l skip_ws_le [of t] in linarith)+
  have "pv strtod d s = parse_value strtod (Suc (2 * length s)) d s" by (simp add: pv_def value_fuel_def)
  then show ?thesis unfolding parse_value_container [OF assms] m .
qed

lemma pv_scalar:
  assumes "skip_ws s = ch # t" and "\<not> (ch = 0x7B \<or> ch = 0x5B)" and "\<not> json_max_depth < d + 1"
  shows "pv strtod d s = parse_scalar strtod ch t"
  using parse_value_scalar [OF assms, of strtod "2 * length s"] by (simp add: pv_def value_fuel_def)

lemma pm_eq:
  "pm strtod d obj ks ms s =
    (case parse_key obj ks s of None \<Rightarrow> None
     | Some (key, ks', s1) \<Rightarrow>
       (case pv strtod d s1 of None \<Rightarrow> None
        | Some (item, s2) \<Rightarrow>
          (case skip_ws s2 of [] \<Rightarrow> None
           | c # s3 \<Rightarrow>
             if c = 0x2C then pm strtod d obj ks' (ms @ [(key, item)]) s3
             else if c = close_of obj then Some (container obj (ms @ [(key, item)]), s3)
             else None)))"
proof (cases "parse_key obj ks s")
  case None
  then show ?thesis by (simp add: pm_def parse_members.simps)
next
  case (Some x)
  then obtain key ks' s1 where key: "parse_key obj ks s = Some (key, ks', s1)" by (cases x) auto
  have l1: "length s1 \<le> length s" using key by (rule parse_key_consumes)
  have val: "parse_value strtod (Suc (2 * length s)) d s1 = pv strtod d s1"
    unfolding pv_def value_fuel_def by (rule parse_fuel(1)) (use l1 in linarith)+
  show ?thesis
  proof (cases "pv strtod d s1")
    case None
    with key val show ?thesis by (simp add: pm_def parse_members.simps)
  next
    case (Some y)
    then obtain item s2 where item: "pv strtod d s1 = Some (item, s2)" by (cases y) auto
    then have l2: "length s2 < length s1" unfolding pv_def by (rule parse_consumes)
    show ?thesis
    proof (cases "skip_ws s2")
      case Nil
      with key item val show ?thesis by (simp add: pm_def parse_members.simps)
    next
      case (Cons c s3)
      then have l3: "length s3 < length s2" by (rule skip_ws_Cons)
      have "parse_members strtod (Suc (2 * length s)) d obj ks' (ms @ [(key, item)]) s3
          = pm strtod d obj ks' (ms @ [(key, item)]) s3"
        unfolding pm_def by (rule parse_fuel(2)) (use l1 l2 l3 in linarith)+
      with key item val Cons show ?thesis
        by (simp add: pm_def [of strtod d obj ks ms s] parse_members.simps)
    qed
  qed
qed

subsection \<open>The runs of the recursive descent\<close>

text \<open>
  The parser without fuel, as a relation between the arguments of a call and what it returns: one
  rule per way through the source, the refusals included. A call that did not return would be
  related to nothing, so here a refusal (\<open>None\<close>) and a call that never ends are different things.
\<close>

inductive value_runs :: "strtod \<Rightarrow> nat \<Rightarrow> bytes \<Rightarrow> (jv \<times> bytes) option \<Rightarrow> bool"
  and members_runs ::
    "strtod \<Rightarrow> nat \<Rightarrow> bool \<Rightarrow> keyset \<Rightarrow> (bytes \<times> jv) list \<Rightarrow> bytes \<Rightarrow> (jv \<times> bytes) option \<Rightarrow> bool"
  for strtod
where
  run_deep: "json_max_depth < d + 1 \<Longrightarrow> value_runs strtod d s None"
| run_end: "\<not> json_max_depth < d + 1 \<Longrightarrow> skip_ws s = [] \<Longrightarrow> value_runs strtod d s None"
| run_scalar: "\<not> json_max_depth < d + 1 \<Longrightarrow> skip_ws s = ch # t \<Longrightarrow> \<not> (ch = 0x7B \<or> ch = 0x5B)
    \<Longrightarrow> value_runs strtod d s (parse_scalar strtod ch t)"
| run_empty: "\<not> json_max_depth < d + 1 \<Longrightarrow> skip_ws s = ch # t \<Longrightarrow> ch = 0x7B \<or> ch = 0x5B
    \<Longrightarrow> skip_ws t = c # u \<Longrightarrow> c = close_of (ch = 0x7B)
    \<Longrightarrow> value_runs strtod d s (Some (container (ch = 0x7B) [], u))"
| run_container: "\<not> json_max_depth < d + 1 \<Longrightarrow> skip_ws s = ch # t \<Longrightarrow> ch = 0x7B \<or> ch = 0x5B
    \<Longrightarrow> \<not> (skip_ws t \<noteq> [] \<and> hd (skip_ws t) = close_of (ch = 0x7B))
    \<Longrightarrow> members_runs strtod (d + 1) (ch = 0x7B) keyset_empty [] (skip_ws t) r
    \<Longrightarrow> value_runs strtod d s r"
| run_no_key: "parse_key obj ks s = None \<Longrightarrow> members_runs strtod d obj ks ms s None"
| run_no_value: "parse_key obj ks s = Some (key, ks', s1) \<Longrightarrow> value_runs strtod d s1 None
    \<Longrightarrow> members_runs strtod d obj ks ms s None"
| run_cut: "parse_key obj ks s = Some (key, ks', s1) \<Longrightarrow> value_runs strtod d s1 (Some (item, s2))
    \<Longrightarrow> skip_ws s2 = [] \<Longrightarrow> members_runs strtod d obj ks ms s None"
| run_comma: "parse_key obj ks s = Some (key, ks', s1) \<Longrightarrow> value_runs strtod d s1 (Some (item, s2))
    \<Longrightarrow> skip_ws s2 = c # s3 \<Longrightarrow> c = 0x2C \<Longrightarrow> members_runs strtod d obj ks' (ms @ [(key, item)]) s3 r
    \<Longrightarrow> members_runs strtod d obj ks ms s r"
| run_close: "parse_key obj ks s = Some (key, ks', s1) \<Longrightarrow> value_runs strtod d s1 (Some (item, s2))
    \<Longrightarrow> skip_ws s2 = c # s3 \<Longrightarrow> c \<noteq> 0x2C \<Longrightarrow> c = close_of obj
    \<Longrightarrow> members_runs strtod d obj ks ms s (Some (container obj (ms @ [(key, item)]), s3))"
| run_stray: "parse_key obj ks s = Some (key, ks', s1) \<Longrightarrow> value_runs strtod d s1 (Some (item, s2))
    \<Longrightarrow> skip_ws s2 = c # s3 \<Longrightarrow> c \<noteq> 0x2C \<Longrightarrow> c \<noteq> close_of obj
    \<Longrightarrow> members_runs strtod d obj ks ms s None"

lemma pv_refuses:
  "json_max_depth < d + 1 \<Longrightarrow> pv strtod d s = None"
  "skip_ws s = [] \<Longrightarrow> pv strtod d s = None"
  using parse_value_fails [of s d strtod "2 * length s"] by (simp_all add: pv_def value_fuel_def)

lemma runs_unique:
  "value_runs strtod d s r \<Longrightarrow> pv strtod d s = r"
  "members_runs strtod d obj ks ms s r \<Longrightarrow> pm strtod d obj ks ms s = r"
proof (induction rule: value_runs_members_runs.inducts)
  case (run_scalar d s ch t)
  from pv_scalar [OF run_scalar(2,3,1)] show ?case by simp
next
  case (run_empty d s ch t c u)
  from pv_container [OF run_empty(2,3,1), of strtod] run_empty show ?case by simp
next
  case (run_container d s ch t r)
  from pv_container [OF run_container(2,3,1), of strtod] run_container show ?case by (simp only: if_False)
next
  case (run_no_key obj ks s d ms)
  then show ?case by (simp add: pm_eq [of strtod d obj ks ms s])
next
  case (run_no_value obj ks s key ks' s1 d ms)
  then show ?case by (simp add: pm_eq [of strtod d obj ks ms s])
next
  case (run_cut obj ks s key ks' s1 d item s2 ms)
  then show ?case by (simp add: pm_eq [of strtod d obj ks ms s])
next
  case (run_comma obj ks s key ks' s1 d item s2 c s3 ms r)
  then show ?case by (simp add: pm_eq [of strtod d obj ks ms s])
next
  case (run_close obj ks s key ks' s1 d item s2 c s3 ms)
  then show ?case by (simp add: pm_eq [of strtod d obj ks ms s])
next
  case (run_stray obj ks s key ks' s1 d item s2 c s3 ms)
  then show ?case by (simp add: pm_eq [of strtod d obj ks ms s])
qed (simp_all add: pv_refuses)

lemma runs_exist:
  "value_runs strtod d s (pv strtod d s) \<and> members_runs strtod d obj ks ms s (pm strtod d obj ks ms s)"
proof (induction "length s" arbitrary: s d obj ks ms rule: less_induct)
  case less
  have v: "value_runs strtod d' u (pv strtod d' u)" if u: "length u \<le> length s" for d' u
  proof (cases "json_max_depth < d' + 1 \<or> skip_ws u = []")
    case True
    then show ?thesis
      using run_deep [of d' strtod u] run_end [of d' u strtod]
      by (cases "json_max_depth < d' + 1") (simp_all only: pv_refuses simp_thms)
  next
    case False
    then obtain ch t where st: "skip_ws u = ch # t" and d: "\<not> json_max_depth < d' + 1"
      by (cases "skip_ws u") auto
    show ?thesis
    proof (cases "ch = 0x7B \<or> ch = 0x5B")
      case False
      from run_scalar [OF d st this] show ?thesis by (simp only: pv_scalar [OF st False d])
    next
      case True
      note eq = pv_container [OF st True d, of strtod]
      show ?thesis
      proof (cases "skip_ws t \<noteq> [] \<and> hd (skip_ws t) = close_of (ch = 0x7B)")
        case closed: True
        then obtain c w where "skip_ws t = c # w" "c = close_of (ch = 0x7B)" by (cases "skip_ws t") auto
        from run_empty [OF d st True this] this show ?thesis by (simp add: eq)
      next
        case False
        have "length (skip_ws t) < length s" using skip_ws_Cons [OF st] skip_ws_le [of t] u by linarith
        from less [OF this] run_container [OF d st True False] show ?thesis by (simp only: eq False if_False)
      qed
    qed
  qed
  have "members_runs strtod d obj ks ms s (pm strtod d obj ks ms s)"
  proof (cases "parse_key obj ks s")
    case None
    then show ?thesis by (subst pm_eq) (simp add: run_no_key)
  next
    case (Some x)
    then obtain key ks' s1 where key: "parse_key obj ks s = Some (key, ks', s1)" by (cases x) auto
    have l1: "length s1 \<le> length s" using key by (rule parse_key_consumes)
    show ?thesis
    proof (cases "pv strtod d s1")
      case None
      with v [OF l1, of d] run_no_value [OF key] have "members_runs strtod d obj ks ms s None" by simp
      then show ?thesis by (subst pm_eq) (simp add: key None)
    next
      case (Some y)
      then obtain item s2 where item: "pv strtod d s1 = Some (item, s2)" by (cases y) auto
      then have l2: "length s2 < length s1" unfolding pv_def by (rule parse_consumes)
      from v [OF l1, of d] item have r: "value_runs strtod d s1 (Some (item, s2))" by simp
      show ?thesis
      proof (cases "skip_ws s2")
        case Nil
        from run_cut [OF key r this] show ?thesis by (subst pm_eq) (simp add: key item Nil)
      next
        case (Cons c s3)
        then have "length s3 < length s" using skip_ws_Cons l1 l2 by fastforce
        from less [OF this] have m: "members_runs strtod d obj ks' (ms @ [(key, item)]) s3
            (pm strtod d obj ks' (ms @ [(key, item)]) s3)" by blast
        from run_comma [OF key r Cons _ m] run_close [OF key r Cons] run_stray [OF key r Cons]
        show ?thesis by (subst pm_eq) (simp add: key item Cons)
      qed
    qed
  qed
  with v show ?case by blast
qed

text \<open>
  Property C35. The recursive descent always returns, and what the fuel-driven \<open>parse_value\<close> gives
  is what it returns. Every text has exactly one run of the parser without fuel, ending in a value or
  in one of the refusals of the source; with any fuel of at least \<open>2 * length s + 1\<close>, the amount
  \<open>json_parse\<close> takes, the model returns the result of that run. So \<open>None\<close> is always a refusal and
  never the end of the fuel.
\<close>

theorem parser_terminates:
  assumes "value_fuel s \<le> n"
  shows "(\<exists>!r. value_runs strtod 0 s r) \<and> value_runs strtod 0 s (parse_value strtod n 0 s)
    \<and> (json_parse strtod s = None \<longleftrightarrow> value_runs strtod 0 s None
         \<or> (\<exists>x rest. value_runs strtod 0 s (Some (x, rest)) \<and> skip_ws rest \<noteq> []))
    \<and> (\<forall>x. json_parse strtod s = Some x \<longleftrightarrow> (\<exists>rest. value_runs strtod 0 s (Some (x, rest)) \<and> skip_ws rest = []))"
proof -
  have n: "parse_value strtod n 0 s = pv strtod 0 s"
    unfolding pv_def by (rule parse_fuel(1)) (use assms in \<open>simp_all add: value_fuel_def\<close>)
  have iff: "value_runs strtod 0 s r \<longleftrightarrow> r = pv strtod 0 s" for r
    using runs_unique(1) runs_exist by blast
  show ?thesis
    by (auto simp: iff n json_parse_pv split: option.splits)
qed

lemma array_texts:
  "pv strtod 0 [0x5B, 0x5D] = Some (J_ARR [], [])" "pv strtod 0 [0x5B] = None"
proof -
  have s: "skip_ws [0x5B, 0x5D] = 0x5B # [0x5D]" "skip_ws [0x5D] = [0x5D]" "skip_ws [0x5B] = 0x5B # []"
    "skip_ws [] = []"
    by (simp_all add: skip_ws_def json_is_ws_def)
  show "pv strtod 0 [0x5B, 0x5D] = Some (J_ARR [], [])"
    using pv_container [OF s(1), of 0] by (simp add: json_max_depth_def s close_of_def container_def)
  have "pm strtod 1 False keyset_empty [] [] = None"
    by (subst pm_eq) (simp add: parse_key_def pv_refuses(2) s)
  then show "pv strtod 0 [0x5B] = None"
    using pv_container [OF s(3), of 0] by (simp add: json_max_depth_def s)
qed

text \<open>The text \<^verbatim>\<open>[]\<close> runs to a value, and the cut \<^verbatim>\<open>[\<close> to a refusal.\<close>

theorem parser_terminates_witness:
  "value_runs (\<lambda>_. (0, 0, False)) 0 [0x5B, 0x5D] (Some (J_ARR [], []))
   \<and> value_runs (\<lambda>_. (0, 0, False)) 0 [0x5B] None \<and> json_parse (\<lambda>_. (0, 0, False)) [0x5B] = None"
  using parser_terminates [of "[0x5B, 0x5D]" "value_fuel [0x5B, 0x5D]" "\<lambda>_. (0, 0, False)"]
    parser_terminates [of "[0x5B]" "value_fuel [0x5B]" "\<lambda>_. (0, 0, False)"]
  by (simp add: array_texts pv_def [symmetric])

end
