(* ===== verification/Json_Stream.thy ===== *)
theory Json_Stream
  imports Json_Parse
begin

unbundle bit_operations_syntax

section \<open>The incremental JSON validator (src/src/jsonmode.c)\<close>

text \<open>
  \<^verbatim>\<open>jsonv\<close> accepts bytes only while they are a valid prefix of one JSON object. It
  is what constrains a model's output token by token. The state is the C struct: the arrays
  keep their full length and only the first \<open>v_depth\<close> (\<open>v_kseen_n\<close>) entries are live. Small
  counters (\<^verbatim>\<open>sub\<close>, \<^verbatim>\<open>lit\<close>, \<^verbatim>\<open>utf8\<close>, depths, the 16-bit
  escape values) are natural numbers with the wrap-around written out where the C type could
  wrap; the FNV-1a hash of a key is a 32-bit word.

  \<open>feed_byte\<close> is split along its \<^verbatim>\<open>switch\<close>, one definition per group of states.
\<close>

subsection \<open>State\<close>

datatype jst =
    S_START | S_VALUE | S_KEY_OR_END | S_KEY_EXPECT | S_KEY | S_COLON | S_STRING | S_AFTER
  | S_ARR_FIRST | S_NUM_MINUS | S_NUM_ZERO | S_NUM_INT | S_NUM_FRAC0 | S_NUM_FRAC
  | S_NUM_EXP0 | S_NUM_EXP1 | S_NUM_EXP | S_LIT | S_DONE

record jsonv =
  v_stack :: "u8 list"
  v_depth :: nat
  v_floor :: nat
  v_st :: jst
  v_sub :: nat
  v_lit :: nat
  v_utf8 :: nat
  v_done :: bool
  v_esc :: nat
  v_esc_hi :: nat
  v_khash :: u32
  v_kseen_n :: nat
  v_kseen_hash :: "u32 list"
  v_kseen_depth :: "nat list"

definition json_max_container_depth :: nat where
  "json_max_container_depth = json_max_depth - 1"

definition json_key_seen_max :: nat where
  "json_key_seen_max = 24"

definition LITS :: "bytes list" where
  "LITS = [ascii ''true'', ascii ''false'', ascii ''null'']"

abbreviation obj_tag :: u8 where "obj_tag \<equiv> 0x4F"
abbreviation arr_tag :: u8 where "arr_tag \<equiv> 0x41"

subsection \<open>Escapes, UTF-8 and the key hash\<close>

text \<open>
  One hexadecimal digit of an escape: whether it is accepted, and the new \<^verbatim>\<open>*sub\<close>
  and \<^verbatim>\<open>*esc\<close>.
\<close>

definition json_escape_hex :: "nat \<Rightarrow> nat \<Rightarrow> u8 \<Rightarrow> bool \<times> nat \<times> nat" where
  "json_escape_hex sub esc c =
    (case hexval c of None \<Rightarrow> (False, sub, esc)
     | Some d \<Rightarrow>
       (let low = (sub \<ge> 8);
            nth = sub - (if low then 8 else 2);
            val = ((if nth \<noteq> 0 then esc else 0) * 16 + d) mod 2 ^ 16
        in if low \<and> nth = 0 \<and> d \<noteq> 0xD then (False, sub, esc)
           else if low \<and> nth = 1 \<and> (val < 0xDC \<or> val > 0xDF) then (False, sub, esc)
           else if \<not> low \<and> nth = 1 \<and> val \<ge> 0xDC \<and> val \<le> 0xDF then (False, sub, esc)
           else if nth < 3 then (True, sub + 1, val)
           else if \<not> low \<and> val = 0 then (False, sub, val)
           else (True, if \<not> low \<and> hi_surrogate val then 6 else 0, val)))"

definition jsonv_in_u_escape :: "jsonv \<Rightarrow> bool" where
  "jsonv_in_u_escape v \<longleftrightarrow> \<not> v_done v \<and> (v_st v = S_KEY \<or> v_st v = S_STRING)
     \<and> (v_sub v \<ge> 2 \<and> v_sub v \<le> 5 \<or> v_sub v \<ge> 8)"

definition json_key_hash_init :: u32 where
  "json_key_hash_init = 2166136261"

definition json_key_hash_byte :: "u32 \<Rightarrow> u8 \<Rightarrow> u32" where
  "json_key_hash_byte h c = (h XOR ucast c) * 16777619"

definition json_key_hash_scalar :: "u32 \<Rightarrow> nat \<Rightarrow> u32" where
  "json_key_hash_scalar h cp =
    (if cp < 0x80 then json_key_hash_byte h (of_nat cp)
     else if cp < 0x800 then
       (let h = json_key_hash_byte h (of_nat (0xC0 OR drop_bit 6 cp))
        in json_key_hash_byte h (of_nat (0x80 OR (cp AND 0x3F))))
     else if cp < 0x10000 then
       (let h = json_key_hash_byte h (of_nat (0xE0 OR drop_bit 12 cp));
            h = json_key_hash_byte h (of_nat (0x80 OR (drop_bit 6 cp AND 0x3F)))
        in json_key_hash_byte h (of_nat (0x80 OR (cp AND 0x3F))))
     else
       (let h = json_key_hash_byte h (of_nat (0xF0 OR drop_bit 18 cp));
            h = json_key_hash_byte h (of_nat (0x80 OR (drop_bit 12 cp AND 0x3F)));
            h = json_key_hash_byte h (of_nat (0x80 OR (drop_bit 6 cp AND 0x3F)))
        in json_key_hash_byte h (of_nat (0x80 OR (cp AND 0x3F)))))"

text \<open>The byte a one-character escape decodes to, 0 if the character is not one.\<close>

definition json_escape_decode_simple :: "u8 \<Rightarrow> u8" where
  "json_escape_decode_simple c =
    (if c = 0x22 then 0x22
     else if c = 0x5C then 0x5C
     else if c = 0x2F then 0x2F
     else if c = 0x62 then 0x08
     else if c = 0x66 then 0x0C
     else if c = 0x6E then 0x0A
     else if c = 0x72 then 0x0D
     else if c = 0x74 then 0x09
     else 0)"

definition utf8_LO :: "u8 list" where
  "utf8_LO = [0, 0x80, 0x80, 0x80, 0xA0, 0x80, 0x90, 0x80]"

definition utf8_HI :: "u8 list" where
  "utf8_HI = [0, 0xBF, 0xBF, 0xBF, 0xBF, 0x9F, 0xBF, 0x8F]"

definition utf8_NEXT :: "nat list" where
  "utf8_NEXT = [0, 0, 1, 2, 1, 1, 2, 2]"

definition json_utf8_byte :: "nat \<Rightarrow> u8 \<Rightarrow> bool \<times> nat" where
  "json_utf8_byte state c =
    (if state \<noteq> 0 then
       (if c < utf8_LO ! state \<or> c > utf8_HI ! state then (False, state)
        else (True, utf8_NEXT ! state))
     else if c < 0x80 then (True, 0)
     else if c \<ge> 0xC2 \<and> c \<le> 0xDF then (True, 1)
     else if c \<ge> 0xE0 \<and> c \<le> 0xEF then
       (True, if c = 0xE0 then 4 else if c = 0xED then 5 else 2)
     else if c \<ge> 0xF0 \<and> c \<le> 0xF4 then
       (True, if c = 0xF0 then 6 else if c = 0xF4 then 7 else 3)
     else (False, 0))"

subsection \<open>Initialisation, the container stack and the duplicate-key guard\<close>

text \<open>
  \<open>jsonv_init\<close> leaves the arrays and the hash table entries as they were; the argument is
  the memory it initialises.
\<close>

definition jsonv_init :: "jsonv \<Rightarrow> jsonv" where
  "jsonv_init v = v\<lparr>v_depth := 0, v_floor := 0, v_st := S_START, v_sub := 0, v_lit := 0,
     v_utf8 := 0, v_esc := 0, v_esc_hi := 0, v_khash := 0, v_kseen_n := 0, v_done := False\<rparr>"

definition jsonv_init_any :: "jsonv \<Rightarrow> jsonv" where
  "jsonv_init_any v = (jsonv_init v)\<lparr>v_st := S_VALUE\<rparr>"

definition jsonv_init_nested :: "jsonv \<Rightarrow> bool \<Rightarrow> int \<Rightarrow> jsonv" where
  "jsonv_init_nested v object_rooted outer_containers =
    (let v' = (if object_rooted then jsonv_init v else jsonv_init_any v);
         oc = (if outer_containers < 0 then 0 else outer_containers);
         oc = (if oc > int json_max_container_depth then int json_max_container_depth else oc)
     in v'\<lparr>v_floor := nat oc\<rparr>)"

definition jsonv_value_end :: "jsonv \<Rightarrow> bool" where
  "jsonv_value_end v \<longleftrightarrow> v_done v \<or>
     v_depth v = 0 \<and> (v_st v = S_NUM_ZERO \<or> v_st v = S_NUM_INT \<or> v_st v = S_NUM_FRAC \<or> v_st v = S_NUM_EXP)"

definition push :: "jsonv \<Rightarrow> u8 \<Rightarrow> bool \<times> jsonv" where
  "push v c =
    (if v_depth v + v_floor v \<ge> json_max_container_depth then (False, v)
     else (True, v\<lparr>v_stack := (v_stack v)[v_depth v := c], v_depth := v_depth v + 1\<rparr>))"

text \<open>
  The compaction loop of \<open>drop_keys\<close>, with its read index \<open>i\<close> and write index \<open>w\<close> over the
  two arrays.
\<close>

function drop_loop :: "nat \<Rightarrow> nat \<Rightarrow> nat \<Rightarrow> nat \<Rightarrow> u32 list \<Rightarrow> nat list \<Rightarrow> nat \<times> u32 list \<times> nat list" where
  "drop_loop n dep i w hs ds =
    (if i < n then
       (if ds ! i \<noteq> dep then drop_loop n dep (i + 1) (w + 1) (hs[w := hs ! i]) (ds[w := ds ! i])
        else drop_loop n dep (i + 1) w hs ds)
     else (w, hs, ds))"
  by pat_completeness auto
termination
  by (relation "measure (\<lambda>(n, dep, i, w, hs, ds). n - i)") auto

declare drop_loop.simps [simp del]

definition drop_keys :: "jsonv \<Rightarrow> nat \<Rightarrow> jsonv" where
  "drop_keys v dep =
    (if v_kseen_n v = 0 then v
     else case drop_loop (v_kseen_n v) (dep mod 256) 0 0 (v_kseen_hash v) (v_kseen_depth v) of
       (w, hs, ds) \<Rightarrow> v\<lparr>v_kseen_hash := hs, v_kseen_depth := ds, v_kseen_n := w mod 256\<rparr>)"

definition value_done :: "jsonv \<Rightarrow> jsonv" where
  "value_done v =
    (if v_depth v = 0 then v\<lparr>v_st := S_DONE, v_done := True\<rparr> else v\<lparr>v_st := S_AFTER\<rparr>)"

text \<open>Is the open key's hash among the keys already closed in this object?\<close>

definition key_seen :: "jsonv \<Rightarrow> u32 \<Rightarrow> bool" where
  "key_seen v h \<longleftrightarrow>
    list_ex (\<lambda>i. v_kseen_depth v ! i = v_depth v mod 256 \<and> v_kseen_hash v ! i = h) [0..<v_kseen_n v]"

definition key_record :: "jsonv \<Rightarrow> jsonv" where
  "key_record v =
    (if v_kseen_n v < json_key_seen_max \<and> v_depth v \<le> 255 then
       v\<lparr>v_kseen_hash := (v_kseen_hash v)[v_kseen_n v := v_khash v],
         v_kseen_depth := (v_kseen_depth v)[v_kseen_n v := v_depth v mod 256],
         v_kseen_n := v_kseen_n v + 1\<rparr>
     else v)"

subsection \<open>One byte\<close>

text \<open>
  The result of \<open>feed_byte\<close>: refused (\<^verbatim>\<open>false\<close>), accepted, or accepted with
  \<^verbatim>\<open>*reconsume\<close> set, with the state it leaves.
\<close>

datatype fres = Refuse | Accept | Reconsume

definition accept_if :: "bool \<times> jsonv \<Rightarrow> fres \<times> jsonv" where
  "accept_if r = (if fst r then Accept else Refuse, snd r)"

definition feed_start :: "jsonv \<Rightarrow> u8 \<Rightarrow> fres \<times> jsonv" where
  "feed_start v c =
    (if c = 0x7B then accept_if (push (v\<lparr>v_st := S_KEY_OR_END\<rparr>) obj_tag) else (Refuse, v))"

definition feed_value :: "jsonv \<Rightarrow> u8 \<Rightarrow> fres \<times> jsonv" where
  "feed_value v c =
    (if v_st v = S_ARR_FIRST \<and> c = 0x5D \<and> \<not> json_is_ws c then
       (Accept, value_done (v\<lparr>v_depth := v_depth v - 1\<rparr>))
     else if json_is_ws c then (Accept, v)
     else if c = 0x7B then accept_if (push (v\<lparr>v_st := S_KEY_OR_END\<rparr>) obj_tag)
     else if c = 0x5B then accept_if (push (v\<lparr>v_st := S_ARR_FIRST\<rparr>) arr_tag)
     else if c = 0x22 then (Accept, v\<lparr>v_st := S_STRING, v_sub := 0\<rparr>)
     else if c = 0x2D then (Accept, v\<lparr>v_st := S_NUM_MINUS\<rparr>)
     else if c = 0x30 then (Accept, v\<lparr>v_st := S_NUM_ZERO\<rparr>)
     else if 0x31 \<le> c \<and> c \<le> 0x39 then (Accept, v\<lparr>v_st := S_NUM_INT\<rparr>)
     else if c = 0x74 then (Accept, v\<lparr>v_st := S_LIT, v_lit := 0, v_sub := 1\<rparr>)
     else if c = 0x66 then (Accept, v\<lparr>v_st := S_LIT, v_lit := 1, v_sub := 1\<rparr>)
     else if c = 0x6E then (Accept, v\<lparr>v_st := S_LIT, v_lit := 2, v_sub := 1\<rparr>)
     else (Refuse, v))"

definition feed_key_or_end :: "jsonv \<Rightarrow> u8 \<Rightarrow> fres \<times> jsonv" where
  "feed_key_or_end v c =
    (if json_is_ws c then (Accept, v)
     else if c = 0x22 then
       (if v_kseen_n v \<ge> json_key_seen_max then (Refuse, v)
        else (Accept, v\<lparr>v_st := S_KEY, v_sub := 0, v_khash := json_key_hash_init\<rparr>))
     else if c = 0x7D then
       (let v1 = drop_keys v (v_depth v)
        in (Accept, value_done (v1\<lparr>v_depth := v_depth v1 - 1\<rparr>)))
     else (Refuse, v))"

definition feed_key_expect :: "jsonv \<Rightarrow> u8 \<Rightarrow> fres \<times> jsonv" where
  "feed_key_expect v c =
    (if json_is_ws c then (Accept, v)
     else if c = 0x22 then
       (Accept, v\<lparr>v_st := S_KEY, v_sub := 0, v_khash := json_key_hash_init\<rparr>)
     else (Refuse, v))"

text \<open>Inside a string: after the backslash, and a hexadecimal digit of an escape.\<close>

definition feed_backslash :: "jsonv \<Rightarrow> bool \<Rightarrow> u8 \<Rightarrow> fres \<times> jsonv" where
  "feed_backslash v key c =
    (let dec = json_escape_decode_simple c in
     if dec \<noteq> 0 then
       (let v1 = v\<lparr>v_sub := 0\<rparr>
        in (Accept, if key then v1\<lparr>v_khash := json_key_hash_byte (v_khash v1) dec\<rparr> else v1))
     else if c = 0x75 then (Accept, v\<lparr>v_sub := 2\<rparr>)
     else (Refuse, v))"

definition feed_hex :: "jsonv \<Rightarrow> bool \<Rightarrow> u8 \<Rightarrow> fres \<times> jsonv" where
  "feed_hex v key c =
    (let pre = v_sub v in
     case json_escape_hex pre (v_esc v) c of (ok, sub, esc) \<Rightarrow>
       (let v1 = v\<lparr>v_sub := sub, v_esc := esc\<rparr> in
        if \<not> ok then (Refuse, v1)
        else if key then
          (Accept,
           if pre \<le> 5 \<and> sub = 6 then v1\<lparr>v_esc_hi := esc\<rparr>
           else if pre \<le> 5 \<and> sub = 0 then v1\<lparr>v_khash := json_key_hash_scalar (v_khash v1) esc\<rparr>
           else if pre \<ge> 8 \<and> sub = 0 then
             v1\<lparr>v_khash := json_key_hash_scalar (v_khash v1) (pair_cp (v_esc_hi v1) esc)\<rparr>
           else v1)
        else (Accept, v1)))"

definition feed_string :: "jsonv \<Rightarrow> u8 \<Rightarrow> fres \<times> jsonv" where
  "feed_string v c =
    (let key = (v_st v = S_KEY) in
     if v_sub v = 1 then feed_backslash v key c
     else if v_sub v = 6 then (if c \<noteq> 0x5C then (Refuse, v) else (Accept, v\<lparr>v_sub := 7\<rparr>))
     else if v_sub v = 7 then (if c \<noteq> 0x75 then (Refuse, v) else (Accept, v\<lparr>v_sub := 8\<rparr>))
     else if v_sub v \<ge> 2 then feed_hex v key c
     else if v_utf8 v = 0 \<and> c = 0x22 then
       (if key then
          (if key_seen v (v_khash v) then (Refuse, v)
           else (Accept, (key_record v)\<lparr>v_st := S_COLON\<rparr>))
        else (Accept, value_done v))
     else if v_utf8 v = 0 \<and> c = 0x5C then (Accept, v\<lparr>v_sub := 1\<rparr>)
     else if v_utf8 v = 0 \<and> c < 0x20 then (Refuse, v)
     else (case json_utf8_byte (v_utf8 v) c of (ok, u) \<Rightarrow>
       (let v1 = v\<lparr>v_utf8 := u\<rparr> in
        if \<not> ok then (Refuse, v1)
        else (Accept, if key then v1\<lparr>v_khash := json_key_hash_byte (v_khash v1) c\<rparr> else v1))))"

definition feed_colon :: "jsonv \<Rightarrow> u8 \<Rightarrow> fres \<times> jsonv" where
  "feed_colon v c =
    (if json_is_ws c then (Accept, v)
     else if c = 0x3A then (Accept, v\<lparr>v_st := S_VALUE\<rparr>)
     else (Refuse, v))"

definition feed_after :: "jsonv \<Rightarrow> u8 \<Rightarrow> fres \<times> jsonv" where
  "feed_after v c =
    (if json_is_ws c then (Accept, v)
     else
       (let top = (if v_depth v > 0 then v_stack v ! (v_depth v - 1) else 0) in
        if c = 0x2C \<and> top = obj_tag then
          (if v_kseen_n v \<ge> json_key_seen_max then (Refuse, v) else (Accept, v\<lparr>v_st := S_KEY_EXPECT\<rparr>))
        else if c = 0x2C \<and> top = arr_tag then (Accept, v\<lparr>v_st := S_VALUE\<rparr>)
        else if c = 0x7D \<and> top = obj_tag then
          (let v1 = drop_keys v (v_depth v)
           in (Accept, value_done (v1\<lparr>v_depth := v_depth v1 - 1\<rparr>)))
        else if c = 0x5D \<and> top = arr_tag then
          (Accept, value_done (v\<lparr>v_depth := v_depth v - 1\<rparr>))
        else (Refuse, v)))"

definition feed_number :: "jsonv \<Rightarrow> u8 \<Rightarrow> fres \<times> jsonv" where
  "feed_number v c =
    (case v_st v of
       S_NUM_MINUS \<Rightarrow>
         (if c = 0x30 then (Accept, v\<lparr>v_st := S_NUM_ZERO\<rparr>)
          else if 0x31 \<le> c \<and> c \<le> 0x39 then (Accept, v\<lparr>v_st := S_NUM_INT\<rparr>)
          else (Refuse, v))
     | S_NUM_FRAC0 \<Rightarrow> (if is_digit c then (Accept, v\<lparr>v_st := S_NUM_FRAC\<rparr>) else (Refuse, v))
     | S_NUM_FRAC \<Rightarrow>
         (if is_digit c then (Accept, v)
          else if c = 0x65 \<or> c = 0x45 then (Accept, v\<lparr>v_st := S_NUM_EXP0\<rparr>)
          else (Reconsume, value_done v))
     | S_NUM_EXP0 \<Rightarrow>
         (if c = 0x2B \<or> c = 0x2D then (Accept, v\<lparr>v_st := S_NUM_EXP1\<rparr>)
          else if is_digit c then (Accept, v\<lparr>v_st := S_NUM_EXP\<rparr>)
          else (Refuse, v))
     | S_NUM_EXP1 \<Rightarrow> (if is_digit c then (Accept, v\<lparr>v_st := S_NUM_EXP\<rparr>) else (Refuse, v))
     | S_NUM_EXP \<Rightarrow> (if is_digit c then (Accept, v) else (Reconsume, value_done v))
     | _ \<Rightarrow>
         (if v_st v = S_NUM_INT \<and> is_digit c then (Accept, v)
          else if c = 0x2E then (Accept, v\<lparr>v_st := S_NUM_FRAC0\<rparr>)
          else if c = 0x65 \<or> c = 0x45 then (Accept, v\<lparr>v_st := S_NUM_EXP0\<rparr>)
          else (Reconsume, value_done v)))"

definition feed_lit :: "jsonv \<Rightarrow> u8 \<Rightarrow> fres \<times> jsonv" where
  "feed_lit v c =
    (let lit = LITS ! v_lit v in
     if v_sub v < length lit \<and> c = lit ! v_sub v then
       (let v1 = v\<lparr>v_sub := v_sub v + 1\<rparr>
        in (Accept, if v_sub v1 = length lit then value_done v1 else v1))
     else (Refuse, v))"

definition feed_byte :: "jsonv \<Rightarrow> u8 \<Rightarrow> fres \<times> jsonv" where
  "feed_byte v c =
    (case v_st v of
       S_START \<Rightarrow> feed_start v c
     | S_ARR_FIRST \<Rightarrow> feed_value v c
     | S_VALUE \<Rightarrow> feed_value v c
     | S_KEY_OR_END \<Rightarrow> feed_key_or_end v c
     | S_KEY_EXPECT \<Rightarrow> feed_key_expect v c
     | S_KEY \<Rightarrow> feed_string v c
     | S_STRING \<Rightarrow> feed_string v c
     | S_COLON \<Rightarrow> feed_colon v c
     | S_AFTER \<Rightarrow> feed_after v c
     | S_LIT \<Rightarrow> feed_lit v c
     | S_DONE \<Rightarrow> (Refuse, v)
     | _ \<Rightarrow> feed_number v c)"

fun jsonv_feed :: "jsonv \<Rightarrow> bytes \<Rightarrow> bool \<times> jsonv" where
  "jsonv_feed v [] = (True, v)"
| "jsonv_feed v (c # s) =
    (case feed_byte v c of
       (Refuse, v1) \<Rightarrow> (False, v1)
     | (Accept, v1) \<Rightarrow> jsonv_feed v1 s
     | (Reconsume, v1) \<Rightarrow>
         (case feed_byte v1 c of (Refuse, v2) \<Rightarrow> (False, v2) | (_, v2) \<Rightarrow> jsonv_feed v2 s))"

definition jsonv_number_state :: "jsonv \<Rightarrow> nat" where
  "jsonv_number_state v =
    (case v_st v of
       S_NUM_MINUS \<Rightarrow> 1 | S_NUM_ZERO \<Rightarrow> 1 | S_NUM_INT \<Rightarrow> 1 | S_NUM_FRAC0 \<Rightarrow> 1 | S_NUM_FRAC \<Rightarrow> 1
     | S_NUM_EXP0 \<Rightarrow> 2 | S_NUM_EXP1 \<Rightarrow> 2 | S_NUM_EXP \<Rightarrow> 2
     | _ \<Rightarrow> 0)"

subsection \<open>Trials on a copy\<close>

text \<open>Only the live part of the arrays is copied; the rest of \<open>dst\<close> stays.\<close>

definition jsonv_snapshot :: "jsonv \<Rightarrow> jsonv \<Rightarrow> jsonv" where
  "jsonv_snapshot dst src =
    (let d = min (v_depth src) json_max_container_depth;
         ks = min (v_kseen_n src) json_key_seen_max
     in src\<lparr>v_stack := take d (v_stack src) @ drop d (v_stack dst),
            v_kseen_hash := take ks (v_kseen_hash src) @ drop ks (v_kseen_hash dst),
            v_kseen_depth := take ks (v_kseen_depth src) @ drop ks (v_kseen_depth dst)\<rparr>)"

definition jsonv_trial :: "jsonv \<Rightarrow> jsonv \<Rightarrow> bytes \<Rightarrow> bool" where
  "jsonv_trial v scratch s = fst (jsonv_feed (jsonv_snapshot scratch v) s)"

end
