(* ===== verification/Json_Stream_String.thy ===== *)
theory Json_Stream_String
  imports Json_Stream
begin

section \<open>The validator inside a string\<close>

text \<open>
  What the validator accepts between the quotes of a string is what the parser's string
  reader decodes: \<open>run_string\<close> follows the machine through a string body and gives the
  parser's result for it, together with the hash of the decoded bytes that the machine keeps
  for a key.
\<close>

text \<open>A complete accepted document: every byte is taken and the machine ends \<^verbatim>\<open>done\<close>.\<close>

definition run :: "jsonv \<Rightarrow> bytes \<Rightarrow> jsonv \<Rightarrow> bool" where
  "run v s vf \<longleftrightarrow> jsonv_feed v s = (True, vf) \<and> v_done vf"

lemma run_Nil: "run v [] vf \<longleftrightarrow> vf = v \<and> v_done v"
  by (auto simp: run_def)

lemma run_accept: "feed_byte v c = (Accept, v1) \<Longrightarrow> run v (c # t) vf \<longleftrightarrow> run v1 t vf"
  by (simp add: run_def)

lemma run_refuse: "feed_byte v c = (Refuse, v1) \<Longrightarrow> \<not> run v (c # t) vf"
  by (simp add: run_def)

lemma run_not_done: "run v s vf \<Longrightarrow> \<not> v_done v \<Longrightarrow> \<exists>c t. s = c # t"
  by (cases s) (auto simp: run_Nil)

definition in_string :: "jsonv \<Rightarrow> bool" where
  "in_string v \<longleftrightarrow> (v_st v = S_KEY \<or> v_st v = S_STRING) \<and> \<not> v_done v"

lemma feed_in_string: "in_string v \<Longrightarrow> feed_byte v c = feed_string v c"
  by (auto simp: in_string_def feed_byte_def)

text \<open>The part of the state a string changes.\<close>

definition str_state :: "jsonv \<Rightarrow> nat \<Rightarrow> nat \<Rightarrow> nat \<Rightarrow> nat \<Rightarrow> u32 \<Rightarrow> jsonv" where
  "str_state v sub esc hi u h =
    v\<lparr>v_sub := sub, v_esc := esc, v_esc_hi := hi, v_utf8 := u, v_khash := h\<rparr>"

lemma str_state_sel [simp]:
  "v_sub (str_state v sub esc hi u h) = sub" "v_esc (str_state v sub esc hi u h) = esc"
  "v_esc_hi (str_state v sub esc hi u h) = hi" "v_utf8 (str_state v sub esc hi u h) = u"
  "v_khash (str_state v sub esc hi u h) = h" "v_st (str_state v sub esc hi u h) = v_st v"
  "v_done (str_state v sub esc hi u h) = v_done v" "v_depth (str_state v sub esc hi u h) = v_depth v"
  "v_stack (str_state v sub esc hi u h) = v_stack v" "v_floor (str_state v sub esc hi u h) = v_floor v"
  "v_lit (str_state v sub esc hi u h) = v_lit v"
  "v_kseen_n (str_state v sub esc hi u h) = v_kseen_n v"
  "v_kseen_hash (str_state v sub esc hi u h) = v_kseen_hash v"
  "v_kseen_depth (str_state v sub esc hi u h) = v_kseen_depth v"
  "in_string (str_state v sub esc hi u h) = in_string v"
  "str_state (str_state v sub esc hi u h) sub' esc' hi' u' h' = str_state v sub' esc' hi' u' h'"
  by (simp_all add: str_state_def in_string_def)

lemma str_state_self: "str_state v (v_sub v) (v_esc v) (v_esc_hi v) (v_utf8 v) (v_khash v) = v"
  by (simp add: str_state_def)

lemma str_state_updates:
  "v\<lparr>v_sub := x\<rparr> = str_state v x (v_esc v) (v_esc_hi v) (v_utf8 v) (v_khash v)"
  "v\<lparr>v_esc := x\<rparr> = str_state v (v_sub v) x (v_esc_hi v) (v_utf8 v) (v_khash v)"
  "v\<lparr>v_esc_hi := x\<rparr> = str_state v (v_sub v) (v_esc v) x (v_utf8 v) (v_khash v)"
  "v\<lparr>v_utf8 := x\<rparr> = str_state v (v_sub v) (v_esc v) (v_esc_hi v) x (v_khash v)"
  "v\<lparr>v_khash := h\<rparr> = str_state v (v_sub v) (v_esc v) (v_esc_hi v) (v_utf8 v) h"
  by (simp_all add: str_state_def)

text \<open>The hash after decoded bytes: it moves only while the string is a key.\<close>

definition hash_bytes :: "u32 \<Rightarrow> bytes \<Rightarrow> u32" where
  "hash_bytes h b = fold (\<lambda>c h. json_key_hash_byte h c) b h"

lemma hash_bytes_simps [simp]:
  "hash_bytes h [] = h" "hash_bytes h (c # b) = hash_bytes (json_key_hash_byte h c) b"
  "hash_bytes h (b @ b') = hash_bytes (hash_bytes h b) b'"
  by (simp_all add: hash_bytes_def)

lemma hash_scalar: "json_key_hash_scalar h cp = hash_bytes h (u8_emit cp)"
  by (simp add: json_key_hash_scalar_def u8_emit_def Let_def)

definition key_hash_after :: "jsonv \<Rightarrow> bytes \<Rightarrow> u32" where
  "key_hash_after v b = (if v_st v = S_KEY then hash_bytes (v_khash v) b else v_khash v)"

subsection \<open>Hexadecimal digits\<close>

lemma hexval_bound: "hexval c = Some d \<Longrightarrow> d < 16"
  by (auto simp: hexval_def u8_nat split: if_splits)

lemma hex_acc: "d < 16 \<Longrightarrow> push_bit 4 v OR d = 16 * v + (d::nat)"
  using push_bit_or_low [of d 4 v] by (simp add: push_bit_eq_mult)

lemma hex4_digits:
  assumes "hexval a = Some w" "hexval b = Some x" "hexval c = Some y" "hexval d = Some z"
  shows "hex4 (a # b # c # d # t) = Some (4096 * w + 256 * x + 16 * y + z)"
proof -
  have "hex4 p = hex_loop (Suc (Suc (Suc (Suc 0)))) 0 p" for p
    by (simp add: hex4_def numeral_eq_Suc)
  with assms assms [THEN hexval_bound] show ?thesis by (simp add: hex_acc)
qed

text \<open>A step of the machine inside the digits.\<close>

definition hex_hi :: "jsonv \<Rightarrow> nat \<Rightarrow> nat \<Rightarrow> nat" where
  "hex_hi v sub esc = (if v_st v = S_KEY \<and> v_sub v \<le> 5 \<and> sub = 6 then esc else v_esc_hi v)"

definition hex_hash :: "jsonv \<Rightarrow> nat \<Rightarrow> nat \<Rightarrow> u32" where
  "hex_hash v sub esc =
    (if v_st v \<noteq> S_KEY then v_khash v
     else if v_sub v \<le> 5 \<and> sub = 0 then hash_bytes (v_khash v) (u8_emit esc)
     else if 8 \<le> v_sub v \<and> sub = 0 then hash_bytes (v_khash v) (u8_emit (pair_cp (v_esc_hi v) esc))
     else v_khash v)"

lemma feed_hex_accept:
  "json_escape_hex (v_sub v) (v_esc v) c = (True, sub, esc) \<Longrightarrow>
   feed_hex v (v_st v = S_KEY) c =
     (Accept, str_state v sub esc (hex_hi v sub esc) (v_utf8 v) (hex_hash v sub esc))"
  by (simp add: feed_hex_def Let_def hex_hi_def hex_hash_def hash_scalar str_state_updates)

lemma feed_hex_refuse:
  "json_escape_hex (v_sub v) (v_esc v) c = (False, sub, esc) \<Longrightarrow>
   \<exists>w. feed_hex v (v_st v = S_KEY) c = (Refuse, w)"
  by (simp add: feed_hex_def Let_def)

lemma run_hex_digit:
  assumes "run v s vf" "in_string v" "2 \<le> v_sub v \<and> v_sub v \<le> 5 \<or> 8 \<le> v_sub v"
  shows "\<exists>c t sub esc. s = c # t \<and> json_escape_hex (v_sub v) (v_esc v) c = (True, sub, esc)
    \<and> run (str_state v sub esc (hex_hi v sub esc) (v_utf8 v) (hex_hash v sub esc)) t vf"
proof -
  from assms obtain c t where s: "s = c # t"
    using run_not_done [OF assms(1)] by (auto simp: in_string_def)
  obtain ok sub esc where e: "json_escape_hex (v_sub v) (v_esc v) c = (ok, sub, esc)"
    by (cases "json_escape_hex (v_sub v) (v_esc v) c") auto
  have f: "feed_byte v c = feed_hex v (v_st v = S_KEY) c"
  proof -
    have "v_sub v \<noteq> 1" "v_sub v \<noteq> 6" "v_sub v \<noteq> 7" "2 \<le> v_sub v" using assms(3) by linarith+
    then show ?thesis by (simp add: feed_in_string [OF assms(2)] feed_string_def Let_def)
  qed
  have ok: "ok"
  proof (rule ccontr)
    assume "\<not> ok"
    with e f obtain w where "feed_byte v c = (Refuse, w)" using feed_hex_refuse by fastforce
    with assms(1) s run_refuse show False by blast
  qed
  with e f have "feed_byte v c =
      (Accept, str_state v sub esc (hex_hi v sub esc) (v_utf8 v) (hex_hash v sub esc))"
    by (simp add: feed_hex_accept)
  then have "run (str_state v sub esc (hex_hi v sub esc) (v_utf8 v) (hex_hash v sub esc)) t vf"
    using assms(1) s by (simp add: run_accept)
  moreover have "json_escape_hex (v_sub v) (v_esc v) c = (True, sub, esc)" using e ok by simp
  ultimately show ?thesis using s by blast
qed

text \<open>The digit rules, one position at a time.\<close>

lemma escape_hex_0:
  "json_escape_hex 2 e c = (True, sub, esc) \<longleftrightarrow> (\<exists>d. hexval c = Some d \<and> sub = 3 \<and> esc = d)"
  by (auto simp: json_escape_hex_def Let_def dest: hexval_bound split: option.splits if_splits)

lemma escape_hex_1:
  "e < 16 \<Longrightarrow> json_escape_hex 3 e c = (True, sub, esc) \<longleftrightarrow>
    (\<exists>d. hexval c = Some d \<and> sub = 4 \<and> esc = 16 * e + d \<and> \<not> (0xDC \<le> esc \<and> esc \<le> 0xDF))"
  by (auto simp: json_escape_hex_def Let_def mult.commute dest: hexval_bound split: option.splits if_splits)

lemma escape_hex_2:
  "e < 256 \<Longrightarrow> json_escape_hex 4 e c = (True, sub, esc) \<longleftrightarrow>
    (\<exists>d. hexval c = Some d \<and> sub = 5 \<and> esc = 16 * e + d)"
  by (auto simp: json_escape_hex_def Let_def mult.commute dest: hexval_bound split: option.splits if_splits)

lemma escape_hex_3:
  assumes "e < 4096"
  shows "json_escape_hex 5 e c = (True, sub, esc) \<longleftrightarrow>
    (\<exists>d. hexval c = Some d \<and> esc = 16 * e + d \<and> esc \<noteq> 0 \<and> sub = (if hi_surrogate esc then 6 else 0))"
proof (cases "hexval c")
  case None
  then show ?thesis by (simp add: json_escape_hex_def)
next
  case (Some d)
  with assms have "(e * 16 + d) mod 65536 = 16 * e + d" using hexval_bound [OF Some] by simp
  with Some show ?thesis by (auto simp: json_escape_hex_def Let_def)
qed

lemma escape_hex_low_0:
  "json_escape_hex 8 e c = (True, sub, esc) \<longleftrightarrow> (hexval c = Some 13 \<and> sub = 9 \<and> esc = 13)"
  by (auto simp: json_escape_hex_def Let_def dest: hexval_bound split: option.splits if_splits)

lemma escape_hex_low_1:
  "e < 16 \<Longrightarrow> json_escape_hex 9 e c = (True, sub, esc) \<longleftrightarrow>
    (\<exists>d. hexval c = Some d \<and> sub = 10 \<and> esc = 16 * e + d \<and> 0xDC \<le> esc \<and> esc \<le> 0xDF)"
  by (auto simp: json_escape_hex_def Let_def mult.commute dest: hexval_bound split: option.splits if_splits)

lemma escape_hex_low_2:
  "e < 256 \<Longrightarrow> json_escape_hex 10 e c = (True, sub, esc) \<longleftrightarrow>
    (\<exists>d. hexval c = Some d \<and> sub = 11 \<and> esc = 16 * e + d)"
  by (auto simp: json_escape_hex_def Let_def mult.commute dest: hexval_bound split: option.splits if_splits)

lemma escape_hex_low_3:
  "e < 4096 \<Longrightarrow> json_escape_hex 11 e c = (True, sub, esc) \<longleftrightarrow>
    (\<exists>d. hexval c = Some d \<and> esc = 16 * e + d \<and> sub = 0)"
  by (auto simp: json_escape_hex_def Let_def mult.commute dest: hexval_bound split: option.splits if_splits)


lemma digit_bound: "e < n \<Longrightarrow> d < 16 \<Longrightarrow> 16 * e + d < 16 * (n::nat)"
  by linarith

text \<open>A digit that is not the last of its escape, and the last ones.\<close>

lemma escape_hex_sub:
  "json_escape_hex sub e c = (True, sub', e') \<Longrightarrow> sub \<in> {2, 3, 4, 8, 9, 10} \<Longrightarrow> sub' = sub + 1"
  by (auto simp: json_escape_hex_def Let_def split: option.splits if_splits)

lemma run_digit_mid:
  assumes "run (str_state v sub e hi u h) s vf" "in_string v" "sub \<in> {2, 3, 4, 8, 9, 10}"
  shows "\<exists>c t e'. s = c # t \<and> json_escape_hex sub e c = (True, sub + 1, e')
    \<and> run (str_state v (sub + 1) e' hi u h) t vf"
proof -
  let ?v = "str_state v sub e hi u h"
  have "in_string ?v" "2 \<le> v_sub ?v \<and> v_sub ?v \<le> 5 \<or> 8 \<le> v_sub ?v" using assms by auto
  from run_hex_digit [OF assms(1) this] obtain c t sub' e' where c: "s = c # t"
    "json_escape_hex (v_sub ?v) (v_esc ?v) c = (True, sub', e')"
    "run (str_state ?v sub' e' (hex_hi ?v sub' e') (v_utf8 ?v) (hex_hash ?v sub' e')) t vf" by blast
  then have s': "sub' = sub + 1" using escape_hex_sub assms(3) by simp
  then have "hex_hi ?v sub' e' = hi" "hex_hash ?v sub' e' = h"
    using assms(3) by (auto simp: hex_hi_def hex_hash_def)
  with c s' show ?thesis by simp
qed

lemma run_digit_5:
  assumes "run (str_state v 5 e hi u h) s vf" "in_string v" "e < 4096"
  shows "\<exists>c t d e'. s = c # t \<and> hexval c = Some d \<and> e' = 16 * e + d \<and> e' \<noteq> 0
    \<and> run (str_state v (if hi_surrogate e' then 6 else 0) e'
         (if v_st v = S_KEY \<and> hi_surrogate e' then e' else hi) u
         (if v_st v = S_KEY \<and> \<not> hi_surrogate e' then hash_bytes h (u8_emit e') else h)) t vf"
proof -
  let ?v = "str_state v 5 e hi u h"
  have "in_string ?v" "2 \<le> v_sub ?v \<and> v_sub ?v \<le> 5 \<or> 8 \<le> v_sub ?v" using assms by auto
  from run_hex_digit [OF assms(1) this] obtain c t sub' e' where c: "s = c # t"
    "json_escape_hex 5 e c = (True, sub', e')"
    "run (str_state v sub' e' (hex_hi ?v sub' e') u (hex_hash ?v sub' e')) t vf" by auto
  with escape_hex_3 [OF assms(3)] obtain d where d: "hexval c = Some d" "e' = 16 * e + d" "e' \<noteq> 0"
    "sub' = (if hi_surrogate e' then 6 else 0)" by auto
  have "hex_hi ?v sub' e' = (if v_st v = S_KEY \<and> hi_surrogate e' then e' else hi)"
    "hex_hash ?v sub' e' = (if v_st v = S_KEY \<and> \<not> hi_surrogate e' then hash_bytes h (u8_emit e') else h)"
    using d by (auto simp: hex_hi_def hex_hash_def)
  with c d show ?thesis by auto
qed

lemma run_digit_11:
  assumes "run (str_state v 11 e hi u h) s vf" "in_string v" "e < 4096"
  shows "\<exists>c t d e'. s = c # t \<and> hexval c = Some d \<and> e' = 16 * e + d
    \<and> run (str_state v 0 e' hi u (if v_st v = S_KEY then hash_bytes h (u8_emit (pair_cp hi e')) else h)) t vf"
proof -
  let ?v = "str_state v 11 e hi u h"
  have "in_string ?v" "2 \<le> v_sub ?v \<and> v_sub ?v \<le> 5 \<or> 8 \<le> v_sub ?v" using assms by auto
  from run_hex_digit [OF assms(1) this] obtain c t sub' e' where c: "s = c # t"
    "json_escape_hex 11 e c = (True, sub', e')"
    "run (str_state v sub' e' (hex_hi ?v sub' e') u (hex_hash ?v sub' e')) t vf" by auto
  with escape_hex_low_3 [OF assms(3)] obtain d where "hexval c = Some d" "e' = 16 * e + d" "sub' = 0"
    by auto
  with c show ?thesis by (auto simp: hex_hi_def hex_hash_def)
qed

text \<open>All four digits after \<^verbatim>\<open>\u\<close>, and the low half of a pair.\<close>

lemma run_hex_high:
  assumes "run (str_state v 2 e0 hi u h) s vf" "in_string v"
  shows "\<exists>t cp. length s = length t + 4 \<and> t = drop 4 s \<and> hex4 s = Some cp \<and> cp \<noteq> 0 \<and> \<not> lo_surrogate cp
    \<and> run (str_state v (if hi_surrogate cp then 6 else 0) cp
       (if v_st v = S_KEY \<and> hi_surrogate cp then cp else hi) u
       (if v_st v = S_KEY \<and> \<not> hi_surrogate cp then hash_bytes h (u8_emit cp) else h)) t vf"
proof -
  from run_digit_mid [OF assms] obtain a s1 w where 1: "s = a # s1" "hexval a = Some w"
    "run (str_state v 3 w hi u h) s1 vf" by (auto simp: escape_hex_0)
  have w: "w < 16" using 1 by (simp add: hexval_bound)
  from run_digit_mid [OF 1(3) assms(2)] obtain b s2 x where 2: "s1 = b # s2" "hexval b = Some x"
    "\<not> (0xDC \<le> 16 * w + x \<and> 16 * w + x \<le> 0xDF)" "run (str_state v 4 (16 * w + x) hi u h) s2 vf"
    by (auto simp: escape_hex_1 [OF w])
  have x: "x < 16" using 2 by (simp add: hexval_bound)
  then have wx: "16 * w + x < 256" using digit_bound [OF w, of x] by simp
  from run_digit_mid [OF 2(4) assms(2)] obtain c s3 y where 3: "s2 = c # s3" "hexval c = Some y"
    "run (str_state v 5 (16 * (16 * w + x) + y) hi u h) s3 vf" by (auto simp: escape_hex_2 [OF wx])
  have y: "y < 16" using 3 by (simp add: hexval_bound)
  then have wxy: "16 * (16 * w + x) + y < 4096" using digit_bound [OF wx, of y] by simp
  from run_digit_5 [OF 3(3) assms(2) wxy] obtain d t z cp where 4: "s3 = d # t" "hexval d = Some z"
    "cp = 16 * (16 * (16 * w + x) + y) + z" "cp \<noteq> 0"
    "run (str_state v (if hi_surrogate cp then 6 else 0) cp
       (if v_st v = S_KEY \<and> hi_surrogate cp then cp else hi) u
       (if v_st v = S_KEY \<and> \<not> hi_surrogate cp then hash_bytes h (u8_emit cp) else h)) t vf" by blast
  have z: "z < 16" using 4 by (simp add: hexval_bound)
  have "hex4 s = Some cp" using hex4_digits [of a w b x c y d z t] 1 2 3 4 by simp
  moreover have "\<not> lo_surrogate cp" using 2(3) 4(3) y z by (auto simp: lo_surrogate_def)
  ultimately show ?thesis using 1 2 3 4 by (intro exI [of _ t] exI [of _ cp]) simp
qed

lemma run_hex_low:
  assumes "run (str_state v 8 e0 hi u h) s vf" "in_string v"
  shows "\<exists>t lo. length s = length t + 4 \<and> t = drop 4 s \<and> hex4 s = Some lo \<and> lo_surrogate lo
    \<and> run (str_state v 0 lo hi u (if v_st v = S_KEY then hash_bytes h (u8_emit (pair_cp hi lo)) else h)) t vf"
proof -
  from run_digit_mid [OF assms] obtain a s1 where 1: "s = a # s1" "hexval a = Some 13"
    "run (str_state v 9 13 hi u h) s1 vf" by (auto simp: escape_hex_low_0)
  from run_digit_mid [OF 1(3) assms(2)] obtain b s2 x where 2: "s1 = b # s2" "hexval b = Some x"
    "0xDC \<le> 208 + x \<and> 208 + x \<le> 0xDF" "run (str_state v 10 (208 + x) hi u h) s2 vf"
    by (auto simp: escape_hex_low_1)
  have x: "x < 16" using 2 by (simp add: hexval_bound)
  then have wx: "208 + x < 256" by simp
  from run_digit_mid [OF 2(4) assms(2)] obtain c s3 y where 3: "s2 = c # s3" "hexval c = Some y"
    "run (str_state v 11 (16 * (208 + x) + y) hi u h) s3 vf" by (auto simp: escape_hex_low_2 [OF wx])
  have y: "y < 16" using 3 by (simp add: hexval_bound)
  then have wxy: "16 * (208 + x) + y < 4096" using digit_bound [OF wx, of y] by simp
  from run_digit_11 [OF 3(3) assms(2) wxy] obtain d t z lo where 4: "s3 = d # t" "hexval d = Some z"
    "lo = 16 * (16 * (208 + x) + y) + z"
    "run (str_state v 0 lo hi u (if v_st v = S_KEY then hash_bytes h (u8_emit (pair_cp hi lo)) else h)) t vf"
    by blast
  have z: "z < 16" using 4 by (simp add: hexval_bound)
  have "hex4 s = Some lo" using hex4_digits [of a 13 b x c y d z t] 1 2 3 4 by simp
  moreover have "lo_surrogate lo" using 2(3) 4(3) y z by (auto simp: lo_surrogate_def)
  ultimately show ?thesis using 1 2 3 4 by (intro exI [of _ t] exI [of _ lo]) simp
qed


subsection \<open>An escape\<close>

lemma decode_simple: "json_escape_decode_simple c = (case simple_escape c of Some b \<Rightarrow> b | None \<Rightarrow> 0)"
  by (simp add: json_escape_decode_simple_def simple_escape_def)

lemma simple_escape_nonzero: "simple_escape c = Some b \<Longrightarrow> b \<noteq> 0"
  by (auto simp: simple_escape_def split: if_splits)

lemma feed_backslash_fst: "fst (feed_backslash v key c) \<noteq> Reconsume"
  by (simp add: feed_backslash_def Let_def)

lemma feed_hex_fst: "fst (feed_hex v key c) \<noteq> Reconsume"
  by (cases "json_escape_hex (v_sub v) (v_esc v) c") (simp add: feed_hex_def Let_def)

lemma feed_string_fst: "fst (feed_string v c) \<noteq> Reconsume"
proof -
  have u: "fst (case json_utf8_byte x c of (ok, u) \<Rightarrow> (let v1 = f u in if \<not> ok then (Refuse, v1) else (Accept, g v1)))
      \<noteq> Reconsume" for x f g
    by (simp add: Let_def split: prod.split)
  show ?thesis
    unfolding feed_string_def Let_def [of "v_st v = S_KEY"]
    by (simp only: if_distrib [of fst] fst_conv feed_backslash_fst feed_hex_fst u fres.distinct if_P if_not_P
        not_False_eq_True refl split: if_split) simp
qed

lemma run_string_byte:
  assumes "run v s vf" "in_string v"
  shows "\<exists>c t w. s = c # t \<and> feed_string v c = (Accept, w) \<and> run w t vf"
proof -
  from assms obtain c t where s: "s = c # t"
    using run_not_done [OF assms(1)] by (auto simp: in_string_def)
  have f: "feed_byte v c = feed_string v c" using assms by (simp add: feed_in_string)
  have "fst (feed_string v c) \<noteq> Reconsume" by (rule feed_string_fst)
  then obtain r w where r: "feed_string v c = (r, w)" "r = Accept \<or> r = Refuse"
    by (cases "feed_string v c") (metis fres.exhaust fst_conv)
  with assms(1) s f have "r = Accept" using run_refuse by metis
  with assms(1) s f r show ?thesis by (simp add: run_accept)
qed

lemma feed_string_1: "v_sub v = 1 \<Longrightarrow> feed_string v c = feed_backslash v (v_st v = S_KEY) c"
  by (simp add: feed_string_def)

lemma feed_string_6:
  "v_sub v = 6 \<Longrightarrow> feed_string v c = (if c \<noteq> 0x5C then (Refuse, v) else (Accept, v\<lparr>v_sub := 7\<rparr>))"
  by (simp add: feed_string_def)

lemma feed_string_7:
  "v_sub v = 7 \<Longrightarrow> feed_string v c = (if c \<noteq> 0x75 then (Refuse, v) else (Accept, v\<lparr>v_sub := 8\<rparr>))"
  by (simp add: feed_string_def)

lemma run_6:
  assumes "run (str_state v 6 e hi u h) s vf" "in_string v"
  shows "\<exists>t. s = 0x5C # t \<and> run (str_state v 7 e hi u h) t vf"
proof -
  have "in_string (str_state v 6 e hi u h)" using assms by simp
  from run_string_byte [OF assms(1) this] show ?thesis
    by (auto simp: feed_string_6 str_state_updates split: if_splits)
qed

lemma run_7:
  assumes "run (str_state v 7 e hi u h) s vf" "in_string v"
  shows "\<exists>t. s = 0x75 # t \<and> run (str_state v 8 e hi u h) t vf"
proof -
  have "in_string (str_state v 7 e hi u h)" using assms by simp
  from run_string_byte [OF assms(1) this] show ?thesis
    by (auto simp: feed_string_7 str_state_updates split: if_splits)
qed

lemma feed_backslash_simple:
  assumes "feed_backslash (str_state v 1 e hi u h) (v_st v = S_KEY) c = (Accept, w)" "simple_escape c = Some b"
  shows "w = str_state v 0 e hi u (if v_st v = S_KEY then hash_bytes h [b] else h)"
  using assms simple_escape_nonzero [OF assms(2)]
  by (simp add: feed_backslash_def decode_simple Let_def str_state_updates split: if_splits)

lemma feed_backslash_u:
  assumes "feed_backslash (str_state v 1 e hi u h) (v_st v = S_KEY) c = (Accept, w)" "simple_escape c = None"
  shows "c = 0x75 \<and> w = str_state v 2 e hi u h"
  using assms by (simp add: feed_backslash_def decode_simple Let_def str_state_updates split: if_splits)

lemma run_escape:
  assumes "run (str_state v 1 e hi 0 h) s vf" "in_string v"
  shows "\<exists>b t e' hi'. parse_escape s = Some (b, t)
    \<and> run (str_state v 0 e' hi' 0 (if v_st v = S_KEY then hash_bytes h b else h)) t vf"
proof -
  let ?v = "str_state v 1 e hi 0 h"
  have "in_string ?v" using assms by simp
  from run_string_byte [OF assms(1) this] obtain c t w where c: "s = c # t"
    "feed_backslash ?v (v_st v = S_KEY) c = (Accept, w)" "run w t vf"
    by (auto simp: feed_string_1)
  show ?thesis
  proof (cases "simple_escape c")
    case (Some b)
    then have "parse_escape s = Some ([b], t)" using c(1) by (simp add: parse_escape_def)
    moreover have "run (str_state v 0 e hi 0 (if v_st v = S_KEY then hash_bytes h [b] else h)) t vf"
      using feed_backslash_simple [OF c(2) Some] c(3) by simp
    ultimately show ?thesis by blast
  next
    case None
    with feed_backslash_u [OF c(2)] have u: "c = 0x75" and w: "w = str_state v 2 e hi 0 h" by auto
    from run_hex_high [OF c(3) [unfolded w] assms(2)] obtain t1 cp where cp:
      "length t = length t1 + 4" "t1 = drop 4 t" "hex4 t = Some cp" "cp \<noteq> 0" "\<not> lo_surrogate cp"
      "run (str_state v (if hi_surrogate cp then 6 else 0) cp
         (if v_st v = S_KEY \<and> hi_surrogate cp then cp else hi) 0
         (if v_st v = S_KEY \<and> \<not> hi_surrogate cp then hash_bytes h (u8_emit cp) else h)) t1 vf" by blast
    show ?thesis
    proof (cases "hi_surrogate cp")
      case False
      with cp have "parse_u_escape t = Some (u8_emit cp, t1)" by (simp add: parse_u_escape_def)
      then have "parse_escape s = Some (u8_emit cp, t1)" using c u by (simp add: parse_escape_def)
      moreover have "run (str_state v 0 cp hi 0 (if v_st v = S_KEY then hash_bytes h (u8_emit cp) else h)) t1 vf"
        using cp(6) False by simp
      ultimately show ?thesis by blast
    next
      case True
      let ?hi = "if v_st v = S_KEY then cp else hi"
      from cp(6) True have r6: "run (str_state v 6 cp ?hi 0 h) t1 vf" by (simp split: if_splits)
      from run_6 [OF r6 assms(2)] obtain t2 where t2: "t1 = 0x5C # t2"
        "run (str_state v 7 cp ?hi 0 h) t2 vf" by blast
      from run_7 [OF t2(2) assms(2)] obtain t3 where t3: "t2 = 0x75 # t3"
        "run (str_state v 8 cp ?hi 0 h) t3 vf" by blast
      from run_hex_low [OF t3(2) assms(2)] obtain t4 lo where lo: "length t3 = length t4 + 4"
        "t4 = drop 4 t3" "hex4 t3 = Some lo" "lo_surrogate lo"
        "run (str_state v 0 lo ?hi 0 (if v_st v = S_KEY then hash_bytes h (u8_emit (pair_cp ?hi lo)) else h)) t4 vf"
        by blast
      have "parse_u_escape t = Some (u8_emit (pair_cp cp lo), t4)"
      proof -
        have "drop 4 t = 0x5C # 0x75 # t3" using cp(2) t2 t3 by simp
        moreover have "4 \<le> length t" using cp(1) by simp
        ultimately show ?thesis
          unfolding parse_u_escape_def using cp(3,4) True lo by (simp add: Let_def)
      qed
      then have "parse_escape s = Some (u8_emit (pair_cp cp lo), t4)" using c u by (simp add: parse_escape_def)
      moreover have "run (str_state v 0 lo ?hi 0
          (if v_st v = S_KEY then hash_bytes h (u8_emit (pair_cp cp lo)) else h)) t4 vf"
        using lo(5) by (simp split: if_splits)
      ultimately show ?thesis by blast
    qed
  qed
qed

subsection \<open>UTF-8 inside a string\<close>

text \<open>What the machine still accepts of a multi-byte character in UTF-8 state \<open>u\<close>.\<close>

fun utf8_tail :: "nat \<Rightarrow> bytes \<Rightarrow> bool" where
  "utf8_tail u [] \<longleftrightarrow> u = 0"
| "utf8_tail u (c # w) \<longleftrightarrow>
     u \<noteq> 0 \<and> utf8_LO ! u \<le> c \<and> c \<le> utf8_HI ! u \<and> utf8_tail (utf8_NEXT ! u) w"

lemma utf8_tail_0: "utf8_tail 0 w \<longleftrightarrow> w = []"
  by (cases w) auto

lemma utf8_tail_1: "utf8_tail (Suc 0) w \<longleftrightarrow> (\<exists>b. w = [b] \<and> cont_byte b)"
  by (cases w) (auto simp: utf8_tail_0 utf8_LO_def utf8_HI_def utf8_NEXT_def cont_byte_def)

lemma utf8_tail_2: "utf8_tail 2 w \<longleftrightarrow> (\<exists>b c. w = [b, c] \<and> cont_byte b \<and> cont_byte c)"
  by (cases w) (auto simp: utf8_tail_1 utf8_LO_def utf8_HI_def utf8_NEXT_def cont_byte_def)

lemma utf8_tail_3:
  "utf8_tail 3 w \<longleftrightarrow> (\<exists>b c d. w = [b, c, d] \<and> cont_byte b \<and> cont_byte c \<and> cont_byte d)"
  by (cases w) (auto simp: utf8_tail_2 utf8_LO_def utf8_HI_def utf8_NEXT_def cont_byte_def)

lemma utf8_tail_4: "utf8_tail 4 w \<longleftrightarrow> (\<exists>b c. w = [b, c] \<and> 0xA0 \<le> b \<and> b \<le> 0xBF \<and> cont_byte c)"
  by (cases w) (auto simp: utf8_tail_1 utf8_LO_def utf8_HI_def utf8_NEXT_def)

lemma utf8_tail_5: "utf8_tail 5 w \<longleftrightarrow> (\<exists>b c. w = [b, c] \<and> 0x80 \<le> b \<and> b \<le> 0x9F \<and> cont_byte c)"
  by (cases w) (auto simp: utf8_tail_1 utf8_LO_def utf8_HI_def utf8_NEXT_def)

lemma utf8_tail_6:
  "utf8_tail 6 w \<longleftrightarrow> (\<exists>b c d. w = [b, c, d] \<and> 0x90 \<le> b \<and> b \<le> 0xBF \<and> cont_byte c \<and> cont_byte d)"
  by (cases w) (auto simp: utf8_tail_2 utf8_LO_def utf8_HI_def utf8_NEXT_def)

lemma utf8_tail_7:
  "utf8_tail 7 w \<longleftrightarrow> (\<exists>b c d. w = [b, c, d] \<and> 0x80 \<le> b \<and> b \<le> 0x8F \<and> cont_byte c \<and> cont_byte d)"
  by (cases w) (auto simp: utf8_tail_2 utf8_LO_def utf8_HI_def utf8_NEXT_def)

lemmas utf8_tails = utf8_tail_0 utf8_tail_1 utf8_tail_2 utf8_tail_3 utf8_tail_4 utf8_tail_5 utf8_tail_6 utf8_tail_7

lemma utf8_lead_tail:
  assumes "json_utf8_byte 0 a = (True, u)" "utf8_tail u w"
  shows "utf8_char (a # w)"
proof -
  consider "a < 0x80" "u = 0" | "0xC2 \<le> a" "a \<le> 0xDF" "u = 1" | "a = 0xE0" "u = 4" | "a = 0xED" "u = 5"
    | "0xE1 \<le> a" "a \<le> 0xEF" "a \<noteq> 0xED" "u = 2" | "a = 0xF0" "u = 6" | "a = 0xF4" "u = 7"
    | "0xF1 \<le> a" "a \<le> 0xF3" "u = 3"
    using assms(1) by (auto simp: json_utf8_byte_def u8_nat split: if_splits)
  then show ?thesis using assms(2)
    by cases (auto simp: utf8_tails u8_nat)
qed

lemma utf8_byte_cont:
  "u \<noteq> 0 \<Longrightarrow> json_utf8_byte u c = (ok, u') \<Longrightarrow>
   (ok \<longleftrightarrow> utf8_LO ! u \<le> c \<and> c \<le> utf8_HI ! u) \<and> (ok \<longrightarrow> u' = utf8_NEXT ! u)"
  by (auto simp: json_utf8_byte_def split: if_splits)

lemma utf8_NEXT_small: "u < 8 \<Longrightarrow> utf8_NEXT ! u < 8"
  by (auto simp: utf8_NEXT_def less_Suc_eq numeral_eq_Suc)

lemma utf8_byte_lead_small: "json_utf8_byte 0 c = (ok, u) \<Longrightarrow> u < 8"
  by (auto simp: json_utf8_byte_def split: if_splits)

text \<open>A byte that is neither a quote, a backslash nor part of an escape.\<close>

lemma feed_string_plain:
  assumes "v_sub v = 0" "v_utf8 v \<noteq> 0 \<or> c \<noteq> 0x22 \<and> c \<noteq> 0x5C \<and> \<not> c < 0x20"
    "json_utf8_byte (v_utf8 v) c = (ok, u)"
  shows "feed_string v c = (if ok then (Accept,
      str_state v 0 (v_esc v) (v_esc_hi v) u (key_hash_after v [c])) else (Refuse, v\<lparr>v_utf8 := u\<rparr>))"
proof -
  have n: "\<not> (v_utf8 v = 0 \<and> c = 0x22)" "\<not> (v_utf8 v = 0 \<and> c = 0x5C)" "\<not> (v_utf8 v = 0 \<and> c < 0x20)"
    using assms(2) by blast+
  have "feed_string v c = (case json_utf8_byte (v_utf8 v) c of (ok, u) \<Rightarrow>
       (let v1 = v\<lparr>v_utf8 := u\<rparr> in
        if \<not> ok then (Refuse, v1)
        else (Accept, if v_st v = S_KEY then v1\<lparr>v_khash := json_key_hash_byte (v_khash v1) c\<rparr> else v1)))"
    using assms(1) by (simp only: feed_string_def Let_def [of "v_st v = S_KEY"] if_not_P [OF n(1)]
        if_not_P [OF n(2)] if_not_P [OF n(3)]) simp
  with assms show ?thesis by (simp add: key_hash_after_def str_state_def)
qed

lemma run_plain:
  assumes "run (str_state v 0 e hi u h) (c # t) vf" "in_string v"
    "u \<noteq> 0 \<or> c \<noteq> 0x22 \<and> c \<noteq> 0x5C \<and> \<not> c < 0x20" "json_utf8_byte u c = (ok, u')"
  shows "ok \<and> run (str_state v 0 e hi u' (if v_st v = S_KEY then json_key_hash_byte h c else h)) t vf"
proof -
  let ?v = "str_state v 0 e hi u h"
  have f: "feed_byte ?v c = (if ok then (Accept,
      str_state ?v 0 (v_esc ?v) (v_esc_hi ?v) u' (key_hash_after ?v [c])) else (Refuse, ?v\<lparr>v_utf8 := u'\<rparr>))"
    using assms(2-) by (simp add: feed_in_string feed_string_plain)
  show ?thesis
  proof (cases ok)
    case True
    with f assms(1) show ?thesis by (simp add: run_accept key_hash_after_def cong: if_cong)
  next
    case False
    with f have "feed_byte ?v c = (Refuse, ?v\<lparr>v_utf8 := u'\<rparr>)" by simp
    with assms(1) run_refuse show ?thesis by blast
  qed
qed

lemma run_tail:
  assumes "run (str_state v 0 e hi u h) s vf" "in_string v" "u < 8"
  shows "\<exists>w t. s = w @ t \<and> utf8_tail u w
    \<and> run (str_state v 0 e hi 0 (if v_st v = S_KEY then hash_bytes h w else h)) t vf"
  using assms
proof (induction s arbitrary: u h)
  case Nil
  then show ?case by (simp add: run_Nil in_string_def)
next
  case (Cons c s)
  show ?case
  proof (cases "u = 0")
    case True
    with Cons.prems show ?thesis by (intro exI [of _ "[]"] exI [of _ "c # s"]) (simp cong: if_cong)
  next
    case False
    obtain ok u' where u': "json_utf8_byte u c = (ok, u')" by (cases "json_utf8_byte u c") auto
    let ?h = "if v_st v = S_KEY then json_key_hash_byte h c else h"
    from run_plain [OF Cons.prems(1,2) _ u'] False have ok: "ok" "run (str_state v 0 e hi u' ?h) s vf" by auto
    with utf8_byte_cont [OF False u'] have nx: "utf8_LO ! u \<le> c" "c \<le> utf8_HI ! u" "u' = utf8_NEXT ! u" by auto
    then have "u' < 8" using Cons.prems(3) by (simp add: utf8_NEXT_small)
    with Cons.IH [OF ok(2) Cons.prems(2)] obtain w t where w: "s = w @ t" "utf8_tail u' w"
      "run (str_state v 0 e hi 0 (if v_st v = S_KEY then hash_bytes ?h w else ?h)) t vf" by blast
    then have "run (str_state v 0 e hi 0 (if v_st v = S_KEY then hash_bytes h (c # w) else h)) t vf"
      by (simp split: if_splits)
    with w nx False show ?thesis by (intro exI [of _ "c # w"] exI [of _ t]) simp
  qed
qed

subsection \<open>A whole string\<close>

lemma run_item:
  assumes "run (str_state v 0 e hi 0 h) (c # s) vf" "in_string v" "c \<noteq> 0x22"
  shows "\<exists>b t e' hi'. str_item c s = Some (b, t)
    \<and> run (str_state v 0 e' hi' 0 (if v_st v = S_KEY then hash_bytes h b else h)) t vf"
proof (cases "c = 0x5C")
  case True
  then have "feed_byte (str_state v 0 e hi 0 h) c = (Accept, str_state v 1 e hi 0 h)"
    using assms(2) by (simp add: feed_in_string feed_string_def Let_def str_state_updates)
  with assms have "run (str_state v 1 e hi 0 h) s vf" by (simp add: run_accept)
  from run_escape [OF this assms(2)] True show ?thesis by (simp add: str_item_def)
next
  case False
  have ge: "\<not> c < 0x20"
  proof
    assume "c < 0x20"
    with assms(2,3) False have "feed_byte (str_state v 0 e hi 0 h) c = (Refuse, str_state v 0 e hi 0 h)"
      by (simp add: feed_in_string feed_string_def Let_def)
    with assms(1) run_refuse show False by blast
  qed
  obtain ok u where u: "json_utf8_byte 0 c = (ok, u)" by (cases "json_utf8_byte 0 c") auto
  let ?h = "if v_st v = S_KEY then json_key_hash_byte h c else h"
  from run_plain [OF assms(1,2) _ u] assms(3) False ge
  have ok: ok "run (str_state v 0 e hi u ?h) s vf" by auto
  from run_tail [OF ok(2) assms(2) utf8_byte_lead_small [OF u]] obtain w t where w: "s = w @ t" "utf8_tail u w"
    "run (str_state v 0 e hi 0 (if v_st v = S_KEY then hash_bytes ?h w else ?h)) t vf" by blast
  then have r: "run (str_state v 0 e hi 0 (if v_st v = S_KEY then hash_bytes h (c # w) else h)) t vf"
    by (simp split: if_splits)
  have ch: "utf8_char (c # w)" using utf8_lead_tail [of c u w] w(2) u ok(1) by simp
  have "str_item c s = Some (c # w, t)"
  proof (cases "c < 0x80")
    case True
    then have "u = 0" using u by (simp add: json_utf8_byte_def)
    with w have "w = []" by (simp add: utf8_tail_0)
    with w True False ge show ?thesis by (simp add: str_item_def)
  next
    case c80: False
    have "utf8_seq (c # s) = Suc (length w)" using utf8_seq_append [OF ch, of t] w by simp
    with c80 False ge w show ?thesis by (simp add: str_item_def Let_def)
  qed
  with r show ?thesis by blast
qed

lemma run_string:
  assumes "run (str_state v 0 e hi 0 h) s vf" "in_string v"
  shows "\<exists>r t e' hi'. str_loop [] s = Some (r, t)
    \<and> run (str_state v 0 e' hi' 0 (if v_st v = S_KEY then hash_bytes h r else h)) (0x22 # t) vf"
  using assms
proof (induction "length s" arbitrary: s e hi h rule: less_induct)
  case less
  from run_not_done [OF less.prems(1)] less.prems(2) obtain c s1 where s: "s = c # s1"
    by (auto simp: in_string_def)
  show ?case
  proof (cases "c = 0x22")
    case True
    with s less.prems show ?thesis
      by (intro exI [of _ "[]"] exI [of _ s1] exI [of _ e] exI [of _ hi]) (simp cong: if_cong)
  next
    case False
    from run_item [OF less.prems(1) [unfolded s] less.prems(2) False] obtain b t e' hi' where
      b: "str_item c s1 = Some (b, t)"
      "run (str_state v 0 e' hi' 0 (if v_st v = S_KEY then hash_bytes h b else h)) t vf" by blast
    have "length t < length s" using str_item_consumes [OF b(1)] s by simp
    from less.hyps [OF this b(2) less.prems(2)] obtain r t' e2 hi2 where r: "str_loop [] t = Some (r, t')"
      "run (str_state v 0 e2 hi2 0 (if v_st v = S_KEY then hash_bytes (if v_st v = S_KEY then hash_bytes h b else h) r
         else (if v_st v = S_KEY then hash_bytes h b else h))) (0x22 # t') vf" by blast
    have "str_loop [] s = Some (b @ r, t')" using s False b r str_loop_acc [of b t] by simp
    moreover have "run (str_state v 0 e2 hi2 0 (if v_st v = S_KEY then hash_bytes h (b @ r) else h)) (0x22 # t') vf"
      using r(2) by (simp split: if_splits)
    ultimately show ?thesis by blast
  qed
qed

end
