(* ===== verification/Json_View.thy ===== *)
theory Json_View
  imports Json_Stream_String
begin

section \<open>The live part of the validator's state\<close>

text \<open>
  The validator's state seen through the live part of its arrays, the invariant it keeps
  between tokens, and the effect of each operation on that view: opening and closing a
  container, and the duplicate-key guard.
\<close>

subsection \<open>The live part of the state\<close>

definition ctrs :: "jsonv \<Rightarrow> u8 list" where
  "ctrs v = take (v_depth v) (v_stack v)"

definition seen :: "jsonv \<Rightarrow> (nat \<times> u32) list" where
  "seen v = take (v_kseen_n v) (zip (v_kseen_depth v) (v_kseen_hash v))"

text \<open>The invariant outside strings.\<close>

definition jsonv_wf :: "jsonv \<Rightarrow> bool" where
  "jsonv_wf v \<longleftrightarrow> length (v_stack v) = json_max_container_depth
     \<and> length (v_kseen_hash v) = json_key_seen_max \<and> length (v_kseen_depth v) = json_key_seen_max
     \<and> v_depth v \<le> json_max_container_depth \<and> v_kseen_n v \<le> json_key_seen_max
     \<and> v_utf8 v = 0 \<and> (v_done v \<longleftrightarrow> v_st v = S_DONE)
     \<and> (\<forall>p \<in> set (seen v). fst p \<le> v_depth v)"

text \<open>Two states that agree on everything that outlives a value.\<close>

definition same_ctx :: "jsonv \<Rightarrow> jsonv \<Rightarrow> bool" where
  "same_ctx v w \<longleftrightarrow> ctrs w = ctrs v \<and> seen w = seen v \<and> v_depth w = v_depth v"

definition settled :: "jsonv \<Rightarrow> bool" where
  "settled w \<longleftrightarrow> jsonv_wf w \<and> v_st w = (if v_depth w = 0 then S_DONE else S_AFTER)"

text \<open>The state after the innermost container closes.\<close>

definition closed :: "jsonv \<Rightarrow> jsonv \<Rightarrow> bool" where
  "closed v w \<longleftrightarrow> settled w \<and> ctrs w = butlast (ctrs v) \<and> v_depth w = v_depth v - 1
     \<and> seen w = filter (\<lambda>p. fst p \<noteq> v_depth v) (seen v)"

lemma wf_bounds:
  "jsonv_wf v \<Longrightarrow> v_depth v \<le> 127" "jsonv_wf v \<Longrightarrow> length (v_stack v) = 127"
  "jsonv_wf v \<Longrightarrow> v_kseen_n v \<le> 24" "jsonv_wf v \<Longrightarrow> v_utf8 v = 0"
  "jsonv_wf v \<Longrightarrow> v_done v = (v_st v = S_DONE)"
  "jsonv_wf v \<Longrightarrow> length (v_kseen_hash v) = 24" "jsonv_wf v \<Longrightarrow> length (v_kseen_depth v) = 24"
  by (simp_all add: jsonv_wf_def json_max_container_depth_def json_max_depth_def json_key_seen_max_def)

lemma length_ctrs: "jsonv_wf v \<Longrightarrow> length (ctrs v) = v_depth v"
  by (simp add: ctrs_def jsonv_wf_def)

lemma length_seen: "jsonv_wf v \<Longrightarrow> length (seen v) = v_kseen_n v"
  by (simp add: seen_def jsonv_wf_def)

text \<open>Changes to the scalar fields.\<close>

lemma view_updates [simp]:
  "ctrs (v\<lparr>v_st := x\<rparr>) = ctrs v" "seen (v\<lparr>v_st := x\<rparr>) = seen v"
  "ctrs (v\<lparr>v_sub := n\<rparr>) = ctrs v" "seen (v\<lparr>v_sub := n\<rparr>) = seen v"
  "ctrs (v\<lparr>v_lit := n\<rparr>) = ctrs v" "seen (v\<lparr>v_lit := n\<rparr>) = seen v"
  "ctrs (v\<lparr>v_khash := h\<rparr>) = ctrs v" "seen (v\<lparr>v_khash := h\<rparr>) = seen v"
  "ctrs (v\<lparr>v_done := b\<rparr>) = ctrs v" "seen (v\<lparr>v_done := b\<rparr>) = seen v"
  "ctrs (str_state v sub esc hi u h) = ctrs v" "seen (str_state v sub esc hi u h) = seen v"
  by (simp_all add: ctrs_def seen_def)

lemma wf_updates [simp]:
  "jsonv_wf v \<Longrightarrow> \<not> v_done v \<Longrightarrow> x \<noteq> S_DONE \<Longrightarrow> jsonv_wf (v\<lparr>v_st := x\<rparr>)"
  "jsonv_wf (v\<lparr>v_sub := n\<rparr>) = jsonv_wf v" "jsonv_wf (v\<lparr>v_lit := n\<rparr>) = jsonv_wf v"
  "jsonv_wf (v\<lparr>v_khash := h\<rparr>) = jsonv_wf v"
  "jsonv_wf v \<Longrightarrow> jsonv_wf (str_state v sub esc hi 0 h)"
  by (auto simp: jsonv_wf_def)

lemma value_done_settled:
  assumes "jsonv_wf v" "\<not> v_done v"
  shows "settled (value_done v) \<and> same_ctx v (value_done v)"
  using assms by (auto simp: settled_def same_ctx_def value_done_def jsonv_wf_def)

lemma value_done_st [simp]:
  "value_done (v\<lparr>v_st := x\<rparr>) = value_done v"
  by (simp add: value_done_def)

text \<open>Opening a container.\<close>

lemma push_view:
  assumes "push v c = (True, w)" "jsonv_wf v" "\<not> v_done v"
  shows "ctrs w = ctrs v @ [c] \<and> seen w = seen v \<and> v_depth w = v_depth v + 1 \<and> v_st w = v_st v
    \<and> jsonv_wf w \<and> \<not> v_done w \<and> (\<forall>p \<in> set (seen w). fst p < v_depth w)"
proof -
  have d: "v_depth v < json_max_container_depth" and w: "w = v\<lparr>v_stack := (v_stack v)[v_depth v := c],
      v_depth := v_depth v + 1\<rparr>"
    using assms(1) by (auto simp: push_def split: if_splits)
  have s: "seen w = seen v" by (simp add: w seen_def)
  have "\<forall>p \<in> set (seen w). fst p < v_depth w" using assms(2) unfolding s by (auto simp: w jsonv_wf_def)
  moreover have "ctrs w = ctrs v @ [c]" using assms(2) d
    by (simp add: w ctrs_def jsonv_wf_def take_Suc_conv_app_nth)
  moreover have "jsonv_wf w" using assms(2) d calculation(1) unfolding jsonv_wf_def s
    by (simp add: w less_imp_le)
  ultimately show ?thesis using assms(3) s by (simp add: w)
qed

text \<open>Closing one: the compaction keeps exactly the entries of the other depths.\<close>

lemma drop_loop_spec:
  assumes "drop_loop n dep i w hs ds = (w', hs', ds')" "w \<le> i" "i \<le> n" "n \<le> length hs" "length ds = length hs"
  shows "take w' (zip ds' hs') = take w (zip ds hs) @ filter (\<lambda>p. fst p \<noteq> dep) (drop i (take n (zip ds hs)))
    \<and> length hs' = length hs \<and> length ds' = length hs \<and> w' \<le> n"
  using assms
proof (induction n dep i w hs ds rule: drop_loop.induct)
  case (1 n dep i w hs ds)
  show ?case
  proof (cases "i < n")
    case False
    with "1.prems" show ?thesis by (auto simp: drop_loop.simps [of n])
  next
    case True
    let ?z = "zip ds hs"
    have hd: "drop i (take n ?z) = ?z ! i # drop (Suc i) (take n ?z)"
      using "1.prems" True by (subst Cons_nth_drop_Suc [symmetric]) simp_all
    show ?thesis
    proof (cases "ds ! i = dep")
      case eq: True
      with "1.prems" True have "drop_loop n dep (i + 1) w hs ds = (w', hs', ds')"
        by (simp add: drop_loop.simps [of n dep i])
      from "1.IH"(2) [OF True _ this] "1.prems" True eq hd show ?thesis by simp
    next
      case False
      let ?z' = "zip (ds[w := ds ! i]) (hs[w := hs ! i])"
      have z': "?z' = ?z[w := ?z ! i]" using "1.prems" True by (simp add: update_zip)
      have "drop_loop n dep (i + 1) (w + 1) (hs[w := hs ! i]) (ds[w := ds ! i]) = (w', hs', ds')"
        using "1.prems" True False by (simp add: drop_loop.simps [of n dep i])
      from "1.IH"(1) [OF True False this] "1.prems" True
      have r: "take w' (zip ds' hs') = take (w + 1) ?z' @ filter (\<lambda>p. fst p \<noteq> dep) (drop (i + 1) (take n ?z'))"
        "length hs' = length hs" "length ds' = length hs" "w' \<le> n" by auto
      have "take (w + 1) ?z' = take w ?z @ [?z ! i]"
        using "1.prems" True by (simp add: z' take_Suc_conv_app_nth)
      moreover have "drop (i + 1) (take n ?z') = drop (i + 1) (take n ?z)"
        using "1.prems" True by (simp add: z' take_update_swap drop_update_cancel)
      moreover have "fst (?z ! i) \<noteq> dep" using False "1.prems" True by simp
      ultimately have "take w' (zip ds' hs') = take w ?z @ filter (\<lambda>p. fst p \<noteq> dep) (drop i (take n ?z))"
        unfolding r(1) hd by simp
      with r(2-4) show ?thesis by blast
    qed
  qed
qed

lemma drop_keys_view:
  assumes "jsonv_wf v"
  shows "seen (drop_keys v (v_depth v)) = filter (\<lambda>p. fst p \<noteq> v_depth v) (seen v)"
    and "ctrs (drop_keys v (v_depth v)) = ctrs v"
    and "v_depth (drop_keys v dd) = v_depth v" "v_done (drop_keys v dd) = v_done v"
    and "v_utf8 (drop_keys v dd) = v_utf8 v" "length (v_stack (drop_keys v dd)) = length (v_stack v)"
    and "length (v_kseen_hash (drop_keys v (v_depth v))) = json_key_seen_max"
    and "length (v_kseen_depth (drop_keys v (v_depth v))) = json_key_seen_max"
    and "v_kseen_n (drop_keys v (v_depth v)) \<le> json_key_seen_max"
proof -
  obtain w hs ds where d: "drop_loop (v_kseen_n v) (v_depth v mod 256) 0 0 (v_kseen_hash v) (v_kseen_depth v)
      = (w, hs, ds)" by (metis prod_cases3)
  have b: "v_depth v \<le> 127" "v_kseen_n v \<le> 24" "length (v_kseen_hash v) = 24" "length (v_kseen_depth v) = 24"
    by (rule wf_bounds [OF assms])+
  have r: "take w (zip ds hs) = filter (\<lambda>p. fst p \<noteq> v_depth v) (seen v)" "length hs = 24" "length ds = 24" "w \<le> 24"
  proof -
    have "v_depth v mod 256 = v_depth v" using b by simp
    with drop_loop_spec [OF d] b show "take w (zip ds hs) = filter (\<lambda>p. fst p \<noteq> v_depth v) (seen v)"
      "length hs = 24" "length ds = 24" "w \<le> 24" by (simp_all add: seen_def)
  qed
  show "seen (drop_keys v (v_depth v)) = filter (\<lambda>p. fst p \<noteq> v_depth v) (seen v)"
    using d r by (simp add: drop_keys_def seen_def)
  show "ctrs (drop_keys v (v_depth v)) = ctrs v"
    using d by (simp add: drop_keys_def ctrs_def)
  show "v_depth (drop_keys v dd) = v_depth v" "v_done (drop_keys v dd) = v_done v"
    "v_utf8 (drop_keys v dd) = v_utf8 v" "length (v_stack (drop_keys v dd)) = length (v_stack v)"
    by (simp_all add: drop_keys_def split: prod.split)
  show "length (v_kseen_hash (drop_keys v (v_depth v))) = json_key_seen_max"
    "length (v_kseen_depth (drop_keys v (v_depth v))) = json_key_seen_max"
    "v_kseen_n (drop_keys v (v_depth v)) \<le> json_key_seen_max"
    using d r b by (simp_all add: drop_keys_def json_key_seen_max_def)
qed

lemma close_view:
  assumes "jsonv_wf v" "\<not> v_done v" "0 < v_depth v"
    "seen w = filter (\<lambda>p. fst p \<noteq> v_depth v) (seen v)" "ctrs w = ctrs v" "v_depth w = v_depth v"
    "v_utf8 w = 0" "\<not> v_done w" "length (v_stack w) = length (v_stack v)"
    "length (v_kseen_hash w) = json_key_seen_max" "length (v_kseen_depth w) = json_key_seen_max"
    "v_kseen_n w \<le> json_key_seen_max"
  shows "closed v (value_done (w\<lparr>v_depth := v_depth w - 1\<rparr>))"
proof -
  let ?w = "w\<lparr>v_depth := v_depth w - 1\<rparr>"
  let ?x = "value_done ?w"
  have sn: "seen ?x = seen w" by (simp add: seen_def value_done_def)
  have vd: "v_depth ?x = v_depth v - 1" using assms(6) by (simp add: value_done_def)
  have "\<forall>p \<in> set (seen ?x). fst p \<le> v_depth ?x"
    using assms(1,3) unfolding sn assms(4) vd by (fastforce simp: jsonv_wf_def)
  then have "settled ?x" using assms unfolding settled_def jsonv_wf_def by (auto simp: value_done_def)
  moreover have "ctrs ?x = butlast (ctrs v)"
  proof -
    have "ctrs ?x = take (v_depth v - 1) (v_stack w)" using assms(6) by (simp add: ctrs_def value_done_def)
    also have "\<dots> = take (v_depth v - 1) (ctrs w)" using assms(6) by (simp add: ctrs_def)
    finally show ?thesis using assms(5) length_ctrs [OF assms(1)] by (simp add: butlast_conv_take)
  qed
  ultimately show ?thesis using sn vd assms(4) by (simp add: closed_def)
qed

lemma close_object:
  assumes "jsonv_wf v" "\<not> v_done v" "0 < v_depth v"
  shows "closed v (value_done ((drop_keys v (v_depth v))\<lparr>v_depth := v_depth v - 1\<rparr>))"
  using close_view [OF assms, of "drop_keys v (v_depth v)"] drop_keys_view [OF assms(1)] assms
  by (simp add: jsonv_wf_def)

lemma close_array:
  assumes "jsonv_wf v" "\<not> v_done v" "0 < v_depth v" "\<forall>p \<in> set (seen v). fst p < v_depth v"
  shows "closed v (value_done (v\<lparr>v_depth := v_depth v - 1\<rparr>))"
proof -
  have "filter (\<lambda>p. fst p \<noteq> v_depth v) (seen v) = seen v" using assms(4) by (fastforce intro: filter_True)
  with close_view [OF assms(1-3), of v] assms show ?thesis by (simp add: jsonv_wf_def)
qed

subsection \<open>The duplicate-key guard\<close>

lemma key_seen_view:
  assumes "jsonv_wf v"
  shows "key_seen v h \<longleftrightarrow> (v_depth v, h) \<in> set (seen v)"
proof -
  note b = wf_bounds [OF assms]
  have "v_depth v mod 256 = v_depth v" using b(1) by simp
  then have "key_seen v h \<longleftrightarrow> (\<exists>i < v_kseen_n v. zip (v_kseen_depth v) (v_kseen_hash v) ! i = (v_depth v, h))"
    using b by (auto simp: key_seen_def list_ex_iff)
  also have "\<dots> \<longleftrightarrow> (v_depth v, h) \<in> set (seen v)"
    using b by (auto simp: seen_def in_set_conv_nth)
  finally show ?thesis .
qed

lemma key_record_view:
  assumes "jsonv_wf v" "\<not> v_done v" "v_kseen_n v < json_key_seen_max"
  shows "seen (key_record v) = seen v @ [(v_depth v, v_khash v)] \<and> ctrs (key_record v) = ctrs v
    \<and> v_depth (key_record v) = v_depth v \<and> \<not> v_done (key_record v) \<and> jsonv_wf (key_record v)"
proof -
  note b = wf_bounds [OF assms(1)]
  have n: "v_kseen_n v < 24" using assms(3) by (simp add: json_key_seen_max_def)
  let ?w = "v\<lparr>v_kseen_hash := (v_kseen_hash v)[v_kseen_n v := v_khash v],
         v_kseen_depth := (v_kseen_depth v)[v_kseen_n v := v_depth v],
         v_kseen_n := v_kseen_n v + 1\<rparr>"
  have w: "key_record v = ?w" using b(1) n by (simp add: key_record_def json_key_seen_max_def)
  have "seen ?w = take (v_kseen_n v + 1) ((zip (v_kseen_depth v) (v_kseen_hash v))[v_kseen_n v := (v_depth v, v_khash v)])"
    by (simp add: seen_def update_zip)
  also have "\<dots> = seen v @ [(v_depth v, v_khash v)]"
    using n b by (simp add: seen_def take_Suc_conv_app_nth)
  finally have s: "seen ?w = seen v @ [(v_depth v, v_khash v)]" .
  have "jsonv_wf ?w" using assms(1) n unfolding jsonv_wf_def s by (simp add: json_key_seen_max_def)
  with s assms(2) show ?thesis unfolding w by (simp add: ctrs_def)
qed

end
