(* ===== verification/Json_Numbers.thy ===== *)
theory Json_Numbers
  imports Json_Parse "HOL-Library.Sublist"
begin

section \<open>Where the numbers of a document are\<close>

text \<open>
  What the readers of the parser leave of their input, and which bytes of a document are number
  literals: the runs of number characters outside strings. A number in a string, as in
  \<^verbatim>\<open>{"a":"1e999"}\<close>, is not one of them.

  Lemmas: each reader leaves a suffix, a number literal stays one when the input ends right after
  it, and the literals of what a reader leaves are literals of what it was given.
\<close>

subsection \<open>Readers leave a suffix\<close>

lemma skip_ws_suffix: "suffix (skip_ws s) s"
  by (simp add: skip_ws_def suffix_dropWhile)

lemma skip_ws_suffix_Cons: "skip_ws s = c # t \<Longrightarrow> suffix t s"
  using skip_ws_suffix [of s] by (auto dest: suffix_ConsD)

lemma parse_escape_suffix: "parse_escape s = Some (b, t) \<Longrightarrow> suffix t s"
  by (auto simp: parse_escape_def parse_u_escape_def Let_def suffix_ConsI suffix_drop
      intro: suffix_order.trans split: list.splits option.splits if_splits)

lemma str_loop_suffix: "str_loop out s = Some (r, t) \<Longrightarrow> suffix t s"
proof (induction out s rule: str_loop.induct)
  case (2 out ch s)
  show ?case
  proof (cases "ch = 0x22")
    case True
    with "2.prems" show ?thesis by (simp add: suffix_ConsI)
  next
    case False
    with "2.prems" obtain b s1 where i: "str_item ch s = Some (b, s1)" "str_loop (out @ b) s1 = Some (r, t)"
      by (auto split: option.splits)
    have "suffix t s1" by (rule "2.IH" [OF False i(1) refl i(2)])
    moreover have "suffix s1 (ch # s)" using i(1)
      by (auto simp: str_item_def Let_def suffix_ConsI suffix_drop dest: parse_escape_suffix split: if_splits)
    ultimately show ?thesis by (rule suffix_order.trans)
  qed
qed simp

lemma parse_string_suffix: "parse_string s = Some (r, t) \<Longrightarrow> suffix t s"
  by (auto simp: parse_string_def suffix_ConsI dest!: str_loop_suffix split: list.splits if_splits)

text \<open>
  What a number literal uses is itself a number literal. Each part of the grammar reads the
  same when the input ends, or goes on with something else, right after the part.
\<close>

text \<open>What may follow a number.\<close>

definition number_end :: "bytes \<Rightarrow> bool" where
  "number_end r \<longleftrightarrow> r = [] \<or> \<not> is_digit (hd r) \<and> hd r \<noteq> 0x2E \<and> hd r \<noteq> 0x65 \<and> hd r \<noteq> 0x45"

lemma dropWhile_take_digits:
  assumes "r = [] \<or> \<not> is_digit (hd r)"
  shows "dropWhile is_digit (takeWhile is_digit t @ r) = r"
proof -
  have "\<forall>x \<in> set (takeWhile is_digit t). is_digit x" by (meson set_takeWhileD)
  with assms show ?thesis by (cases r) (simp_all add: dropWhile_append2)
qed

lemma digits1_prefix:
  assumes "digits1 s = Some p"
  shows "\<exists>q. s = q @ p \<and> q \<noteq> [] \<and> is_digit (hd q)
    \<and> (\<forall>r. r = [] \<or> \<not> is_digit (hd r) \<longrightarrow> digits1 (q @ r) = Some r)"
proof -
  from assms obtain c t where c: "s = c # t" "is_digit c" "p = dropWhile is_digit t"
    by (auto simp: digits1_def split: list.splits if_splits)
  have "digits1 ((c # takeWhile is_digit t) @ r) = Some r" if "r = [] \<or> \<not> is_digit (hd r)" for r
    using c dropWhile_take_digits [OF that] by (simp add: digits1_def)
  with c show ?thesis by (intro exI [of _ "c # takeWhile is_digit t"]) simp
qed

lemma num_exp_prefix:
  assumes "num_exp_part s = Some (p, ex)"
  shows "\<exists>q. s = q @ p \<and> (q = [] \<or> hd q = 0x65 \<or> hd q = 0x45)
    \<and> (\<forall>r. number_end r \<longrightarrow> num_exp_part (q @ r) = Some (r, ex))"
proof (cases "s \<noteq> [] \<and> (hd s = 0x65 \<or> hd s = 0x45)")
  case False
  with assms show ?thesis by (intro exI [of _ "[]"]) (auto simp: num_exp_part_def number_end_def)
next
  case True
  then obtain e t where s: "s = e # t" "e = 0x65 \<or> e = 0x45" by (cases s) auto
  let ?u = "if t \<noteq> [] \<and> (hd t = 0x2B \<or> hd t = 0x2D) then tl t else t"
  from assms s have d: "digits1 ?u = Some p" "ex" by (auto simp: num_exp_part_def Let_def)
  from digits1_prefix [OF d(1)] obtain q where q: "?u = q @ p" "q \<noteq> []" "is_digit (hd q)"
    "\<And>r. r = [] \<or> \<not> is_digit (hd r) \<Longrightarrow> digits1 (q @ r) = Some r" by blast
  have nd: "hd q \<noteq> 0x2B" "hd q \<noteq> 0x2D" using q(3) by (auto simp: is_digit_def u8_nat)
  have qr: "digits1 (q @ r) = Some r" if "number_end r" for r
    by (rule q(4)) (use that in \<open>auto simp: number_end_def\<close>)
  show ?thesis
  proof (cases "t \<noteq> [] \<and> (hd t = 0x2B \<or> hd t = 0x2D)")
    case True
    with s q(1) qr d show ?thesis
      by (intro exI [of _ "e # hd t # q"]) (auto simp: num_exp_part_def Let_def neq_Nil_conv)
  next
    case False
    with s q(1,2) qr d nd show ?thesis
      by (intro exI [of _ "e # q"]) (auto simp: num_exp_part_def Let_def)
  qed
qed

lemma num_frac_prefix:
  assumes "num_frac_part s = Some (p, fr)"
  shows "\<exists>q. s = q @ p \<and> (q = [] \<or> hd q = 0x2E)
    \<and> (\<forall>r. r = [] \<or> \<not> is_digit (hd r) \<and> hd r \<noteq> 0x2E \<longrightarrow> num_frac_part (q @ r) = Some (r, fr))"
proof (cases "s \<noteq> [] \<and> hd s = 0x2E")
  case False
  with assms show ?thesis by (intro exI [of _ "[]"]) (auto simp: num_frac_part_def)
next
  case True
  then obtain t where s: "s = 0x2E # t" by (cases s) auto
  with assms have d: "digits1 t = Some p" "fr" by (auto simp: num_frac_part_def)
  from digits1_prefix [OF d(1)] obtain q where q: "t = q @ p"
    "\<forall>r. r = [] \<or> \<not> is_digit (hd r) \<longrightarrow> digits1 (q @ r) = Some r" by blast
  have "num_frac_part ((0x2E # q) @ r) = Some (r, fr)" if "r = [] \<or> \<not> is_digit (hd r) \<and> hd r \<noteq> 0x2E" for r
    using q(2) [rule_format, of r] that d(2) by (auto simp: num_frac_part_def)
  with s q(1) show ?thesis by (intro exI [of _ "0x2E # q"]) simp
qed

lemma num_int_prefix:
  assumes "num_int_part s = Some p"
  shows "\<exists>q. s = q @ p \<and> q \<noteq> [] \<and> hd q \<noteq> 0x2D
    \<and> (\<forall>r. r = [] \<or> \<not> is_digit (hd r) \<longrightarrow> num_int_part (q @ r) = Some r)"
proof -
  from assms obtain c t where s: "s = c # t" by (cases s) (auto simp: num_int_part_def)
  show ?thesis
  proof (cases "c = 0x30")
    case True
    with s assms show ?thesis
      by (intro exI [of _ "[c]"]) (auto simp: num_int_part_def split: if_splits)
  next
    case False
    with s assms have c: "0x31 \<le> c" "c \<le> 0x39" "p = dropWhile is_digit t"
      by (auto simp: num_int_part_def split: if_splits)
    have "dropWhile is_digit (takeWhile is_digit t @ r) = r" if "r = [] \<or> \<not> is_digit (hd r)" for r
      using dropWhile_take_digits that by blast
    moreover have "c \<noteq> 0x2D" using c by (auto simp: u8_nat)
    ultimately show ?thesis using s c False
      by (intro exI [of _ "c # takeWhile is_digit t"]) (simp add: num_int_part_def)
  qed
qed

lemma number_parts:
  assumes "(case num_int_part d of None \<Rightarrow> None
     | Some p \<Rightarrow>
       (case num_frac_part p of None \<Rightarrow> None
        | Some (p1, fr) \<Rightarrow>
          (case num_exp_part p1 of None \<Rightarrow> None
           | Some (p2, ex) \<Rightarrow> Some (p2, \<not> fr \<and> \<not> ex, length d - length p)))) = Some (p, i, k)"
  shows "\<exists>p0 p1 fr ex. num_int_part d = Some p0 \<and> num_frac_part p0 = Some (p1, fr)
    \<and> num_exp_part p1 = Some (p, ex) \<and> i = (\<not> fr \<and> \<not> ex) \<and> k = length d - length p0"
  using assms by (simp split: option.splits prod.splits)

lemma scan_number_prefix:
  assumes "scan_number s = Some (p, i, k)"
  shows "\<exists>q. s = q @ p \<and> (\<forall>r. number_end r \<longrightarrow> scan_number (q @ r) = Some (r, i, k))"
proof -
  let ?neg = "s \<noteq> [] \<and> hd s = 0x2D"
  let ?d = "if ?neg then tl s else s"
  let ?sg = "if ?neg then [0x2D] else ([] :: bytes)"
  have sd: "s = ?sg @ ?d" by (cases s) auto
  from assms obtain p0 p1 fr ex where 1: "num_int_part ?d = Some p0" "num_frac_part p0 = Some (p1, fr)"
    "num_exp_part p1 = Some (p, ex)" "i = (\<not> fr \<and> \<not> ex)" "k = length ?d - length p0"
    using number_parts [of ?d p i k] unfolding scan_number_def Let_def by blast
  from num_int_prefix [OF 1(1)] obtain q0 where q0: "?d = q0 @ p0" "q0 \<noteq> []" "hd q0 \<noteq> 0x2D"
    "\<And>r. r = [] \<or> \<not> is_digit (hd r) \<Longrightarrow> num_int_part (q0 @ r) = Some r" by blast
  from num_frac_prefix [OF 1(2)] obtain q1 where q1: "p0 = q1 @ p1" "q1 = [] \<or> hd q1 = 0x2E"
    "\<And>r. r = [] \<or> \<not> is_digit (hd r) \<and> hd r \<noteq> 0x2E \<Longrightarrow> num_frac_part (q1 @ r) = Some (r, fr)" by blast
  from num_exp_prefix [OF 1(3)] obtain q2 where q2: "p1 = q2 @ p"
    "q2 = [] \<or> hd q2 = 0x65 \<or> hd q2 = 0x45"
    "\<And>r. number_end r \<Longrightarrow> num_exp_part (q2 @ r) = Some (r, ex)" by blast
  let ?q = "?sg @ q0 @ q1 @ q2"
  have "scan_number (?q @ r) = Some (r, i, k)" if r: "number_end r" for r
  proof -
    have "q1 @ q2 @ r = [] \<or> \<not> is_digit (hd (q1 @ q2 @ r))"
      using q1(2) q2(2) r by (cases q1; cases q2) (auto simp: is_digit_def number_end_def)
    from q0(4) [OF this] have a: "num_int_part (q0 @ q1 @ q2 @ r) = Some (q1 @ q2 @ r)" .
    have "q2 @ r = [] \<or> \<not> is_digit (hd (q2 @ r)) \<and> hd (q2 @ r) \<noteq> 0x2E"
      using q2(2) r by (cases q2) (auto simp: is_digit_def number_end_def)
    from q1(3) [OF this] have b: "num_frac_part (q1 @ q2 @ r) = Some (q2 @ r, fr)" .
    have n: "(if ?q @ r \<noteq> [] \<and> hd (?q @ r) = 0x2D then tl (?q @ r) else ?q @ r) = q0 @ q1 @ q2 @ r"
      using q0(2,3) by (cases q0) auto
    have "k = length q0" using 1(5) q0(1) by simp
    then show ?thesis
      unfolding scan_number_def Let_def n using a b q2(3) [OF r] 1(4) by simp
  qed
  moreover have "s = ?q @ p" using sd q0(1) q1(1) q2(1) by simp
  ultimately show ?thesis by blast
qed

lemma scan_number_self:
  "scan_number s = Some (p, i, k) \<Longrightarrow> \<exists>q. s = q @ p \<and> scan_number q = Some ([], i, k)"
  using scan_number_prefix [of s p i k] by (fastforce simp: number_end_def)

lemma scan_number_append:
  "scan_number q = Some ([], i, k) \<Longrightarrow> number_end r \<Longrightarrow> scan_number (q @ r) = Some (r, i, k)"
  using scan_number_prefix [of q "[]" i k] by auto

subsection \<open>The number literals of a document\<close>

definition num_char :: "u8 \<Rightarrow> bool" where
  "num_char c \<longleftrightarrow> is_digit c \<or> c \<in> {0x2B, 0x2D, 0x2E, 0x45, 0x65}"

text \<open>What follows the closing quote of a string.\<close>

fun after_string :: "bytes \<Rightarrow> bytes" where
  "after_string [] = []"
| "after_string [c] = []"
| "after_string (c # d # s) =
    (if c = 0x22 then d # s else if c = 0x5C then after_string s else after_string (d # s))"

lemma after_string_Cons [simp]:
  "after_string (0x22 # s) = s" "c \<noteq> 0x22 \<Longrightarrow> c \<noteq> 0x5C \<Longrightarrow> after_string (c # s) = after_string s"
  by (cases s; simp)+

lemma after_string_le: "length (after_string s) \<le> length s"
  by (induction s rule: after_string.induct) auto

function number_literals :: "bytes \<Rightarrow> bytes list" where
  "number_literals [] = []"
| "number_literals (c # s) =
    (if c = 0x22 then number_literals (after_string s)
     else if c = 0x2D \<or> is_digit c then
       takeWhile num_char (c # s) # number_literals (dropWhile num_char s)
     else number_literals s)"
  by pat_completeness auto
termination
proof (relation "measure length")
  fix c :: u8 and s
  show "(after_string s, c # s) \<in> measure length" using after_string_le [of s] by simp
  show "(dropWhile num_char s, c # s) \<in> measure length" by (simp add: less_Suc_eq_le length_dropWhile_le)
qed simp_all

declare number_literals.simps(2) [simp del]

text \<open>Every number literal of the document is in the range the parser reads.\<close>

definition numbers_ok :: "strtod \<Rightarrow> bytes \<Rightarrow> bool" where
  "numbers_ok strtod s \<longleftrightarrow> (\<forall>x \<in> set (number_literals s).
     \<forall>i k. scan_number x = Some ([], i, k) \<longrightarrow> json_number_text_ok strtod x \<noteq> None)"

text \<open>The rest \<open>t\<close> of an input \<open>s\<close> at a place outside strings.\<close>

definition reads :: "bytes \<Rightarrow> bytes \<Rightarrow> bool" where
  "reads t s \<longleftrightarrow> suffix t s \<and> set (number_literals t) \<subseteq> set (number_literals s)"

lemma reads_trans: "reads t u \<Longrightarrow> reads u s \<Longrightarrow> reads t s"
  unfolding reads_def using suffix_order.trans by blast

lemma reads_refl: "reads s s"
  by (simp add: reads_def)

lemma reads_suffix: "reads t s \<Longrightarrow> suffix t s"
  by (simp add: reads_def)

lemma reads_length: "reads t s \<Longrightarrow> length t \<le> length s"
  by (simp add: reads_def suffix_length_le)

lemma numbers_ok_reads: "numbers_ok strtod s \<Longrightarrow> reads t s \<Longrightarrow> numbers_ok strtod t"
  by (auto simp: numbers_ok_def reads_def)

lemma reads_Cons:
  assumes "reads (c # t) s" "c \<noteq> 0x22" "c \<noteq> 0x2D" "\<not> is_digit c"
  shows "reads t s"
proof -
  have "reads t (c # t)" using assms(2-4) by (simp add: reads_def suffix_ConsI number_literals.simps(2))
  then show ?thesis using assms(1) by (rule reads_trans)
qed

lemma reads_skip_ws: "reads (skip_ws s) s"
proof (induction s)
  case Nil
  then show ?case by (simp add: skip_ws_def reads_def)
next
  case (Cons c s)
  show ?case
  proof (cases "json_is_ws c")
    case True
    then have "c \<noteq> 0x22" "c \<noteq> 0x2D" "\<not> is_digit c" by (auto simp: json_is_ws_def is_digit_def)
    from reads_Cons [OF reads_refl this] have "reads s (c # s)" .
    with Cons True show ?thesis by (auto simp: skip_ws_def intro: reads_trans)
  next
    case False
    then show ?thesis by (simp add: skip_ws_def reads_refl)
  qed
qed

text \<open>A token of the source that is no string and no number.\<close>

lemma reads_token:
  assumes "skip_ws s = c # t" "c \<noteq> 0x22" "c \<noteq> 0x2D" "\<not> is_digit c"
  shows "reads t s"
  using reads_skip_ws [of s] assms reads_Cons by simp

lemma reads_word:
  assumes "list_all (\<lambda>c. c \<noteq> 0x22 \<and> c \<noteq> 0x2D \<and> \<not> is_digit c) w"
  shows "reads t (w @ t)"
  using assms
proof (induction w)
  case (Cons c w)
  then show ?case using reads_Cons [OF reads_refl, of c "w @ t"] by (auto intro: reads_trans)
qed (simp add: reads_refl)

text \<open>A number: everything the grammar takes is a number character.\<close>

lemma digits1_chars: "digits1 s = Some p \<Longrightarrow> \<exists>q. s = q @ p \<and> list_all num_char q"
proof -
  assume "digits1 s = Some p"
  then obtain c t where c: "s = c # t" "is_digit c" "p = dropWhile is_digit t"
    by (auto simp: digits1_def split: list.splits if_splits)
  let ?q = "takeWhile is_digit t"
  have "s = (c # ?q) @ p" using c by simp
  moreover have "list_all num_char (c # ?q)"
    using c(2) by (auto simp: num_char_def list_all_iff dest: set_takeWhileD)
  ultimately show ?thesis by blast
qed

lemma num_int_chars: "num_int_part s = Some p \<Longrightarrow> \<exists>q. s = q @ p \<and> list_all num_char q"
proof -
  assume a: "num_int_part s = Some p"
  then obtain c t where s: "s = c # t" by (cases s) (auto simp: num_int_part_def)
  with a have c: "is_digit c" "p = t \<or> p = dropWhile is_digit t"
    by (auto simp: num_int_part_def is_digit_def u8_nat split: if_splits)
  let ?q = "if p = t then [] else takeWhile is_digit t"
  have "s = (c # ?q) @ p" using c(2) s by auto
  moreover have "list_all num_char (c # ?q)"
    using c(1) by (auto simp: num_char_def list_all_iff dest: set_takeWhileD)
  ultimately show ?thesis by blast
qed

lemma num_frac_chars: "num_frac_part s = Some (p, b) \<Longrightarrow> \<exists>q. s = q @ p \<and> list_all num_char q"
proof (cases "s \<noteq> [] \<and> hd s = 0x2E")
  case True
  then obtain t where s: "s = 0x2E # t" by (cases s) auto
  assume "num_frac_part s = Some (p, b)"
  with s have "digits1 t = Some p" by (auto simp: num_frac_part_def)
  from digits1_chars [OF this] obtain q where "t = q @ p" "list_all num_char q" by blast
  with s show ?thesis by (intro exI [of _ "0x2E # q"]) (simp add: num_char_def)
qed (auto simp: num_frac_part_def)

lemma num_exp_chars: "num_exp_part s = Some (p, b) \<Longrightarrow> \<exists>q. s = q @ p \<and> list_all num_char q"
proof (cases "s \<noteq> [] \<and> (hd s = 0x65 \<or> hd s = 0x45)")
  case True
  then obtain c t where s: "s = c # t" "c = 0x65 \<or> c = 0x45" by (cases s) auto
  let ?u = "if t \<noteq> [] \<and> (hd t = 0x2B \<or> hd t = 0x2D) then tl t else t"
  assume "num_exp_part s = Some (p, b)"
  with s have "digits1 ?u = Some p" by (auto simp: num_exp_part_def Let_def)
  from digits1_chars [OF this] obtain q where q: "?u = q @ p" "list_all num_char q" by blast
  have "\<exists>q'. t = q' @ ?u \<and> list_all num_char q'"
    by (intro exI [of _ "if t \<noteq> [] \<and> (hd t = 0x2B \<or> hd t = 0x2D) then [hd t] else []"])
       (auto simp: num_char_def neq_Nil_conv)
  then obtain q' where "t = q' @ q @ p" "list_all num_char q'" using q(1) by auto
  with s q(2) show ?thesis by (intro exI [of _ "c # q' @ q"]) (auto simp: num_char_def)
qed (auto simp: num_exp_part_def)

lemma scan_number_chars:
  assumes "scan_number s = Some (p, i, k)"
  shows "\<exists>q. s = q @ p \<and> list_all num_char q"
proof -
  let ?neg = "s \<noteq> [] \<and> hd s = 0x2D"
  let ?d = "if ?neg then tl s else s"
  from assms obtain p0 p1 fr ex where 1: "num_int_part ?d = Some p0" "num_frac_part p0 = Some (p1, fr)"
    "num_exp_part p1 = Some (p, ex)"
    using number_parts [of ?d p i k] unfolding scan_number_def Let_def by blast
  obtain q0 q1 q2 where "?d = q0 @ p0" "p0 = q1 @ p1" "p1 = q2 @ p"
    "list_all num_char q0" "list_all num_char q1" "list_all num_char q2"
    using num_int_chars [OF 1(1)] num_frac_chars [OF 1(2)] num_exp_chars [OF 1(3)] by blast
  moreover define g where "g = (if ?neg then [0x2D] else ([] :: bytes))"
  moreover have "s = g @ ?d" unfolding g_def by (cases s) auto
  moreover have "list_all num_char g" by (simp add: g_def num_char_def)
  ultimately have "s = (g @ q0 @ q1 @ q2) @ p" "list_all num_char (g @ q0 @ q1 @ q2)" by simp_all
  then show ?thesis by blast
qed

text \<open>A number that ends before something else is one of the literals.\<close>

lemma while_split:
  "list_all P q \<Longrightarrow> p = [] \<or> \<not> P (hd p) \<Longrightarrow> takeWhile P (q @ p) = q \<and> dropWhile P (q @ p) = p"
  by (induction q) (cases p; auto)+

lemma reads_number:
  assumes "scan_number s = Some (p, i, k)" "s = q @ p" "p = [] \<or> \<not> num_char (hd p)" "reads s u"
    "s = c # t" "c = 0x2D \<or> is_digit c"
  shows "reads p u" "q \<in> set (number_literals u)"
proof -
  have q: "list_all num_char q" using scan_number_chars [OF assms(1)] assms(2) by auto
  have ne: "q \<noteq> []" using scan_number_consumes [OF assms(1)] assms(2) by auto
  note tw = while_split [OF q assms(3)]
  have "c \<noteq> 0x22" using assms(6) by (auto simp: is_digit_def)
  moreover have "num_char c" using assms(6) by (auto simp: num_char_def)
  ultimately have "number_literals (c # t) = takeWhile num_char (c # t) # number_literals (dropWhile num_char (c # t))"
    using assms(6) by (simp add: number_literals.simps(2))
  then have e: "number_literals s = q # number_literals p"
    unfolding assms(5) [symmetric] assms(2) using tw by (simp only:)
  then show "q \<in> set (number_literals u)" using assms(4) by (auto simp: reads_def)
  have "reads p s" using e assms(2) by (auto simp: reads_def suffix_def)
  then show "reads p u" using assms(4) by (rule reads_trans)
qed

text \<open>A string: the parser and \<open>after_string\<close> stop at the same quote.\<close>

lemma after_string_plain:
  assumes "list_all (\<lambda>c. c \<noteq> 0x22 \<and> c \<noteq> 0x5C) w"
  shows "after_string (w @ s) = after_string s"
  using assms by (induction w) auto

lemma hexval_plain: "hexval c = Some n \<Longrightarrow> c \<noteq> 0x22 \<and> c \<noteq> 0x5C"
  by (auto simp: hexval_def split: if_splits)

lemma hex_loop_plain:
  "hex_loop n v p = Some x \<Longrightarrow> list_all (\<lambda>c. c \<noteq> 0x22 \<and> c \<noteq> 0x5C) (take n p) \<and> n \<le> length p"
  by (induction n v p rule: hex_loop.induct) (auto split: option.splits dest: hexval_plain)

lemma hex4_after: "hex4 p = Some x \<Longrightarrow> after_string p = after_string (drop 4 p)"
  using hex_loop_plain [of 4 0 p x] after_string_plain [of "take 4 p" "drop 4 p"] by (simp add: hex4_def)

lemma u_escape_after:
  assumes "parse_u_escape s = Some (b, t)"
  shows "after_string s = after_string t"
proof -
  from assms obtain cp where cp: "hex4 s = Some cp" by (auto simp: parse_u_escape_def split: option.splits if_splits)
  note a = hex4_after [OF cp]
  let ?s = "drop 4 s"
  show ?thesis
  proof (cases "hi_surrogate cp")
    case False
    with assms cp a show ?thesis by (auto simp: parse_u_escape_def Let_def split: if_splits)
  next
    case True
    with assms cp obtain lo where lo: "\<not> length ?s < 6" "?s ! 0 = 0x5C" "?s ! 1 = 0x75" "hex4 (drop 2 ?s) = Some lo"
      "t = drop 6 ?s" by (auto simp: parse_u_escape_def Let_def split: if_splits option.splits)
    then obtain u where u: "?s = 0x5C # 0x75 # u" by (cases ?s; cases "tl ?s") auto
    have "after_string ?s = after_string u" by (simp add: u)
    also have "\<dots> = after_string (drop 4 u)" using lo(4) u hex4_after by simp
    finally show ?thesis using a lo(5) u by simp
  qed
qed

lemma str_item_after:
  assumes "str_item ch s = Some (b, t)" "ch \<noteq> 0x22"
  shows "after_string (ch # s) = after_string t"
proof (cases "ch = 0x5C")
  case True
  with assms(1) have "parse_escape s = Some (b, t)" by (simp add: str_item_def)
  then obtain e u where "s = e # u" "u = t \<or> parse_u_escape u = Some (b, t)"
    by (auto simp: parse_escape_def split: list.splits option.splits if_splits)
  with True show ?thesis by (auto dest: u_escape_after)
next
  case False
  show ?thesis
  proof (cases "ch < 0x80")
    case True
    with assms False show ?thesis by (auto simp: str_item_def split: if_splits)
  next
    case high: False
    let ?n = "utf8_seq (ch # s)"
    have n: "0 < ?n" "t = drop ?n (ch # s)"
      using assms False high by (auto simp: str_item_def Let_def split: if_splits)
    obtain v where v: "take ?n (ch # s) = ch # v" using n(1) by (cases ?n) auto
    have "utf8_char (take ?n (ch # s))" using utf8_seq_sound [OF n(1)] by simp
    then have "utf8_char (ch # v)" by (simp only: v)
    then have "list_all (\<lambda>c. c \<noteq> 0x22 \<and> c \<noteq> 0x5C) (ch # v)"
      using high by (elim utf8_charE) (auto simp: cont_byte_def u8_nat split: if_splits)
    then have "list_all (\<lambda>c. c \<noteq> 0x22 \<and> c \<noteq> 0x5C) (take ?n (ch # s))" by (simp only: v)
    from after_string_plain [OF this, of t] show ?thesis unfolding n(2) append_take_drop_id .
  qed
qed

lemma str_loop_after: "str_loop out s = Some (r, t) \<Longrightarrow> after_string s = t"
proof (induction out s rule: str_loop.induct)
  case (2 out ch s)
  show ?case
  proof (cases "ch = 0x22")
    case True
    with "2.prems" show ?thesis by simp
  next
    case False
    with "2.prems" obtain b s1 where i: "str_item ch s = Some (b, s1)" "str_loop (out @ b) s1 = Some (r, t)"
      by (auto split: option.splits)
    from "2.IH" [OF False i(1) refl i(2)] str_item_after [OF i(1) False] show ?thesis by simp
  qed
qed simp

lemma reads_string:
  assumes "parse_string s = Some (r, t)"
  shows "reads t s"
proof -
  from assms obtain s1 where s: "s = 0x22 # s1" "str_loop [] s1 = Some (r, t)"
    by (auto simp: parse_string_def split: list.splits if_splits)
  have "number_literals s = number_literals t"
    using str_loop_after [OF s(2)] by (simp add: s(1) number_literals.simps(2))
  then show ?thesis using parse_string_suffix [OF assms] by (simp add: reads_def)
qed

end
