(* ===== verification/Json_Agree.thy ===== *)
theory Json_Agree
  imports Json_View Json_Numbers
begin

section \<open>What the validator accepts, the parser reads\<close>

text \<open>
  A simultaneous induction follows the machine and the recursive-descent parser over the same
  bytes: whenever the machine accepts a document to its end, the parser succeeds on it,
  provided every number literal of the document is in the range the parser reads. The literals
  are those of \<open>Json_Numbers\<close>; a rest of the input met on the way is one that \<open>reads\<close> relates
  to the whole, so its literals are literals of the document.
\<close>

subsection \<open>Steps shared by several states\<close>

lemma run_reconsume:
  assumes "feed_byte v c = (Reconsume, v1)" "fst (feed_byte v1 c) \<noteq> Reconsume"
  shows "run v (c # t) vf \<longleftrightarrow> run v1 (c # t) vf"
proof (cases "feed_byte v1 c")
  case (Pair r w)
  with assms show ?thesis by (cases r) (auto simp: run_def)
qed

lemma feed_after_fst: "fst (feed_after v c) \<noteq> Reconsume"
  by (simp add: feed_after_def Let_def)

lemma feed_settled_fst: "fst (feed_byte (value_done v) c) \<noteq> Reconsume"
  using feed_after_fst [of "v\<lparr>v_st := S_AFTER\<rparr>" c] by (simp add: value_done_def feed_byte_def)

lemma run_number_ends:
  assumes "feed_byte v c = (Reconsume, value_done v)" "run v (c # t) vf"
  shows "run (value_done v) (c # t) vf"
  using run_reconsume [OF assms(1) feed_settled_fst] assms(2) by simp

lemma run_step:
  assumes "run v s vf" "\<not> v_done v"
  obtains c t where "s = c # t" "run v (c # t) vf"
  using run_not_done [OF assms] assms(1) by blast

text \<open>White space between tokens.\<close>

definition ws_state :: "jst \<Rightarrow> bool" where
  "ws_state x \<longleftrightarrow> x \<in> {S_VALUE, S_ARR_FIRST, S_KEY_OR_END, S_KEY_EXPECT, S_COLON, S_AFTER}"

lemma feed_ws: "ws_state (v_st v) \<Longrightarrow> json_is_ws c \<Longrightarrow> feed_byte v c = (Accept, v)"
  by (auto simp: ws_state_def feed_byte_def feed_value_def feed_key_or_end_def feed_key_expect_def
      feed_colon_def feed_after_def)

lemma run_skip_ws: "ws_state (v_st v) \<Longrightarrow> run v s vf \<longleftrightarrow> run v (skip_ws s) vf"
  by (induction s) (auto simp: skip_ws_def feed_ws run_accept)

lemma skip_ws_hd: "skip_ws s = c # t \<Longrightarrow> \<not> json_is_ws c"
  by (induction s) (auto simp: skip_ws_def split: if_splits)

lemma skip_ws_idem [simp]: "skip_ws (skip_ws s) = skip_ws s"
  by (induction s) (auto simp: skip_ws_def)

lemma run_token:
  assumes "run v s vf" "ws_state (v_st v)" "\<not> v_done v"
  shows "\<exists>c t. skip_ws s = c # t \<and> \<not> json_is_ws c \<and> run v (c # t) vf"
proof -
  have "run v (skip_ws s) vf" using assms run_skip_ws by blast
  with run_not_done [OF this assms(3)] skip_ws_hd show ?thesis by metis
qed

subsection \<open>Numbers\<close>

text \<open>A digit cannot follow a complete number.\<close>

lemma digit_not_after: "is_digit c \<Longrightarrow> \<not> run (value_done v) (c # t) vf"
proof
  assume c: "is_digit c" and r: "run (value_done v) (c # t) vf"
  have "c \<noteq> 0x2C" "c \<noteq> 0x7D" "c \<noteq> 0x5D" "\<not> json_is_ws c"
    using c by (auto simp: is_digit_def json_is_ws_def u8_nat)
  then have "\<exists>w. feed_byte (value_done v) c = (Refuse, w)"
    by (simp add: value_done_def feed_byte_def feed_after_def)
  with r run_refuse show False by blast
qed

text \<open>No number character can follow a value.\<close>

lemma num_char_not_after:
  assumes "run (value_done v) p vf"
  shows "p = [] \<or> \<not> num_char (hd p)"
proof (cases p)
  case (Cons c t)
  have "\<not> num_char c"
  proof
    assume "num_char c"
    then have "c \<noteq> 0x2C" "c \<noteq> 0x7D" "c \<noteq> 0x5D" "\<not> json_is_ws c"
      by (auto simp: num_char_def is_digit_def json_is_ws_def u8_nat)
    then have "\<exists>w. feed_byte (value_done v) c = (Refuse, w)"
      by (simp add: value_done_def feed_byte_def feed_after_def)
    with assms Cons run_refuse show False by blast
  qed
  with Cons show ?thesis by simp
qed simp

lemma run_digits:
  assumes "\<And>c t. is_digit c \<Longrightarrow> run v (c # t) vf \<Longrightarrow> run v t vf"
  shows "run v s vf \<Longrightarrow> run v (dropWhile is_digit s) vf"
  by (induction s) (use assms in auto)

lemma dropWhile_digit_hd: "dropWhile is_digit s = c # t \<Longrightarrow> \<not> is_digit c"
  by (induction s) (auto split: if_splits)

lemma dropWhile_digit_ok: "dropWhile is_digit s = [] \<or> \<not> is_digit (hd (dropWhile is_digit s))"
  by (induction s) auto

lemma some_bool: "\<exists>b::bool. b" "\<exists>b::bool. \<not> b"
  by blast+

lemma run_exp:
  assumes "run v s vf" "v_st v = S_NUM_EXP" "\<not> v_done v"
  shows "run (value_done v) (dropWhile is_digit s) vf"
proof -
  have f: "feed_byte v c = (if is_digit c then (Accept, v) else (Reconsume, value_done v))" for c
    using assms(2) by (simp add: feed_byte_def feed_number_def)
  have "run v (dropWhile is_digit s) vf"
    by (rule run_digits) (use f assms(1) in \<open>auto simp: run_accept\<close>)
  then obtain c t where c: "dropWhile is_digit s = c # t" "run v (c # t) vf"
    using run_not_done assms(3) by metis
  with f [of c] dropWhile_digit_hd [OF c(1)] show ?thesis
    using run_number_ends [of v c t vf] by simp
qed

lemma run_exp_digits:
  assumes "run v s vf" "v_st v = S_NUM_EXP1" "\<not> v_done v"
  shows "\<exists>p. digits1 s = Some p \<and> run (value_done v) p vf"
proof -
  obtain c t where s: "s = c # t" using run_not_done assms by metis
  have f: "feed_byte v c = (if is_digit c then (Accept, v\<lparr>v_st := S_NUM_EXP\<rparr>) else (Refuse, v))"
    using assms(2) by (simp add: feed_byte_def feed_number_def)
  have d: "is_digit c" using f assms(1) s run_refuse by (metis)
  with f assms(1) s have "run (v\<lparr>v_st := S_NUM_EXP\<rparr>) t vf" by (simp add: run_accept)
  from run_exp [OF this] assms(3) have "run (value_done v) (dropWhile is_digit t) vf" by simp
  with d s show ?thesis by (simp add: digits1_def)
qed

lemma run_exp_sign:
  assumes "run v s vf" "v_st v = S_NUM_EXP0" "\<not> v_done v"
  shows "\<exists>p. digits1 (if s \<noteq> [] \<and> (hd s = 0x2B \<or> hd s = 0x2D) then tl s else s) = Some p
    \<and> run (value_done v) p vf"
proof -
  obtain c t where s: "s = c # t" using run_not_done assms by metis
  have f: "feed_byte v c = (if c = 0x2B \<or> c = 0x2D then (Accept, v\<lparr>v_st := S_NUM_EXP1\<rparr>)
      else if is_digit c then (Accept, v\<lparr>v_st := S_NUM_EXP\<rparr>) else (Refuse, v))"
    using assms(2) by (simp add: feed_byte_def feed_number_def)
  show ?thesis
  proof (cases "c = 0x2B \<or> c = 0x2D")
    case True
    with f assms(1) s have "run (v\<lparr>v_st := S_NUM_EXP1\<rparr>) t vf" by (simp add: run_accept)
    from run_exp_digits [OF this] assms(3) True s show ?thesis by simp
  next
    case False
    with f assms(1) s run_refuse have d: "is_digit c" by metis
    with False f assms(1) s have "run (v\<lparr>v_st := S_NUM_EXP\<rparr>) t vf" by (simp add: run_accept)
    from run_exp [OF this] assms(3) d False s show ?thesis by (simp add: digits1_def)
  qed
qed

text \<open>After the integer part or the fraction: the exponent, or the end of the number.\<close>

definition num_tail_state :: "jsonv \<Rightarrow> bytes \<Rightarrow> bool" where
  "num_tail_state v s \<longleftrightarrow> v_st v = S_NUM_ZERO
     \<or> (v_st v = S_NUM_INT \<or> v_st v = S_NUM_FRAC) \<and> (s = [] \<or> \<not> is_digit (hd s))"

lemma run_num_exp_part:
  assumes "run v s vf" "num_tail_state v s" "v_st v = S_NUM_FRAC \<or> (s = [] \<or> hd s \<noteq> 0x2E)" "\<not> v_done v"
  shows "\<exists>p ex. num_exp_part s = Some (p, ex) \<and> run (value_done v) p vf"
proof -
  obtain c t where s: "s = c # t" using run_not_done assms by metis
  have f: "feed_byte v c = (if c = 0x65 \<or> c = 0x45 then (Accept, v\<lparr>v_st := S_NUM_EXP0\<rparr>)
      else (Reconsume, value_done v))"
    using assms(2,3) s by (auto simp: num_tail_state_def feed_byte_def feed_number_def)
  show ?thesis
  proof (cases "c = 0x65 \<or> c = 0x45")
    case True
    with f assms(1) s have "run (v\<lparr>v_st := S_NUM_EXP0\<rparr>) t vf" by (simp add: run_accept)
    from run_exp_sign [OF this] assms(4) True s show ?thesis by (auto simp: num_exp_part_def Let_def)
  next
    case False
    with f have "feed_byte v c = (Reconsume, value_done v)" by simp
    from run_number_ends [OF this] assms(1) s False show ?thesis by (simp add: num_exp_part_def some_bool)
  qed
qed

lemma run_frac:
  assumes "run v s vf" "v_st v = S_NUM_FRAC" "\<not> v_done v"
  shows "\<exists>p ex. num_exp_part (dropWhile is_digit s) = Some (p, ex) \<and> run (value_done v) p vf"
proof -
  have "run v (dropWhile is_digit s) vf"
  proof (rule run_digits [OF _ assms(1)])
    fix c t assume "is_digit c" "run v (c # t) vf"
    moreover from this have "feed_byte v c = (Accept, v)"
      using assms(2) by (simp add: feed_byte_def feed_number_def)
    ultimately show "run v t vf" by (simp add: run_accept)
  qed
  from run_num_exp_part [OF this] show ?thesis
    using assms(2,3) dropWhile_digit_ok [of s] by (simp add: num_tail_state_def)
qed

lemma run_num_frac_part:
  assumes "run v s vf" "num_tail_state v s" "v_st v \<noteq> S_NUM_FRAC" "\<not> v_done v"
  shows "\<exists>p1 fr p ex. num_frac_part s = Some (p1, fr) \<and> num_exp_part p1 = Some (p, ex)
    \<and> run (value_done v) p vf"
proof (cases "s \<noteq> [] \<and> hd s = 0x2E")
  case False
  with run_num_exp_part [OF assms(1,2) _ assms(4)] show ?thesis by (auto simp: num_frac_part_def)
next
  case True
  then obtain t where s: "s = 0x2E # t" by (cases s) auto
  have "feed_byte v 0x2E = (Accept, v\<lparr>v_st := S_NUM_FRAC0\<rparr>)"
    using assms(2,3) by (auto simp: num_tail_state_def feed_byte_def feed_number_def is_digit_def)
  with assms(1) s have r: "run (v\<lparr>v_st := S_NUM_FRAC0\<rparr>) t vf" by (simp add: run_accept)
  obtain c u where t: "t = c # u" using run_not_done [OF r] assms(4) by auto
  have f: "feed_byte (v\<lparr>v_st := S_NUM_FRAC0\<rparr>) c = (if is_digit c then (Accept, v\<lparr>v_st := S_NUM_FRAC\<rparr>)
      else (Refuse, v\<lparr>v_st := S_NUM_FRAC0\<rparr>))"
    by (simp add: feed_byte_def feed_number_def)
  with r t run_refuse have d: "is_digit c" by metis
  with f r t have "run (v\<lparr>v_st := S_NUM_FRAC\<rparr>) u vf" by (simp add: run_accept)
  from run_frac [OF this] assms(4) d t s show ?thesis by (simp add: num_frac_part_def digits1_def some_bool)
qed

text \<open>From the first byte of the integer part.\<close>

lemma run_num_int:
  assumes "run (v\<lparr>v_st := S_NUM_INT\<rparr>) t vf" "\<not> v_done v"
  shows "\<exists>p1 fr p ex. num_frac_part (dropWhile is_digit t) = Some (p1, fr) \<and> num_exp_part p1 = Some (p, ex)
    \<and> run (value_done v) p vf"
proof -
  let ?v = "v\<lparr>v_st := S_NUM_INT\<rparr>"
  have "run ?v (dropWhile is_digit t) vf"
  proof (rule run_digits [OF _ assms(1)])
    fix c t assume "is_digit c" "run ?v (c # t) vf"
    moreover from this have "feed_byte ?v c = (Accept, ?v)" by (simp add: feed_byte_def feed_number_def)
    ultimately show "run ?v t vf" by (simp add: run_accept)
  qed
  from run_num_frac_part [OF this] show ?thesis
    using assms(2) dropWhile_digit_ok [of t] by (simp add: num_tail_state_def)
qed

lemma run_num_zero:
  assumes "run (v\<lparr>v_st := S_NUM_ZERO\<rparr>) t vf" "\<not> v_done v"
  shows "(t = [] \<or> \<not> is_digit (hd t)) \<and> (\<exists>p1 fr p ex. num_frac_part t = Some (p1, fr)
    \<and> num_exp_part p1 = Some (p, ex) \<and> run (value_done v) p vf)"
proof -
  have "num_tail_state (v\<lparr>v_st := S_NUM_ZERO\<rparr>) t" by (simp add: num_tail_state_def)
  from run_num_frac_part [OF assms(1) this] assms(2) obtain p1 fr p ex where
    p: "num_frac_part t = Some (p1, fr)" "num_exp_part p1 = Some (p, ex)" "run (value_done v) p vf" by auto
  have "\<not> is_digit (hd t)" if "t \<noteq> []"
  proof
    assume d: "is_digit (hd t)"
    with that have "hd t \<noteq> 0x2E" "hd t \<noteq> 0x65" "hd t \<noteq> 0x45" by (auto simp: is_digit_def u8_nat)
    with p have "p = t" by (auto simp: num_frac_part_def num_exp_part_def split: if_splits)
    with p(3) d that digit_not_after [of "hd t" v "tl t" vf] show False by simp
  qed
  with p show ?thesis by blast
qed

lemma run_digit_start:
  assumes "run v (c # t) vf" "\<not> v_done v"
    "c = 0x30 \<longrightarrow> feed_byte v c = (Accept, v\<lparr>v_st := S_NUM_ZERO\<rparr>)"
    "0x31 \<le> c \<and> c \<le> 0x39 \<longrightarrow> feed_byte v c = (Accept, v\<lparr>v_st := S_NUM_INT\<rparr>)" "is_digit c"
  shows "\<exists>q p1 fr p ex. num_int_part (c # t) = Some q \<and> num_frac_part q = Some (p1, fr)
    \<and> num_exp_part p1 = Some (p, ex) \<and> run (value_done v) p vf"
proof (cases "c = 0x30")
  case True
  with assms have "run (v\<lparr>v_st := S_NUM_ZERO\<rparr>) t vf" by (simp add: run_accept)
  from run_num_zero [OF this assms(2)] True show ?thesis by (auto simp: num_int_part_def)
next
  case False
  with assms(5) have c: "0x31 \<le> c \<and> c \<le> 0x39" by (auto simp: is_digit_def u8_nat)
  with assms have "run (v\<lparr>v_st := S_NUM_INT\<rparr>) t vf" by (simp add: run_accept)
  from run_num_int [OF this assms(2)] False c show ?thesis by (auto simp: num_int_part_def)
qed

lemma run_number:
  assumes "run v (c # t) vf" "v_st v = S_VALUE \<or> v_st v = S_ARR_FIRST" "\<not> v_done v" "c = 0x2D \<or> is_digit c"
  shows "\<exists>p i k. scan_number (c # t) = Some (p, i, k) \<and> run (value_done v) p vf"
proof -
  have nws: "\<not> json_is_ws c" "c \<noteq> 0x5D" "c \<noteq> 0x7B" "c \<noteq> 0x5B" "c \<noteq> 0x22"
    using assms(4) by (auto simp: json_is_ws_def is_digit_def u8_nat)
  have f: "feed_byte v c = feed_value v c" using assms(2) by (auto simp: feed_byte_def)
  show ?thesis
  proof (cases "c = 0x2D")
    case True
    then have fm: "feed_byte v c = (Accept, v\<lparr>v_st := S_NUM_MINUS\<rparr>)" using f nws by (simp add: feed_value_def)
    let ?v = "v\<lparr>v_st := S_NUM_MINUS\<rparr>"
    have r: "run ?v t vf" using assms(1) fm by (simp add: run_accept)
    then obtain d u where t: "t = d # u" using run_not_done [OF r] assms(3) by auto
    have fd: "feed_byte ?v d = (if d = 0x30 then (Accept, v\<lparr>v_st := S_NUM_ZERO\<rparr>)
        else if 0x31 \<le> d \<and> d \<le> 0x39 then (Accept, v\<lparr>v_st := S_NUM_INT\<rparr>) else (Refuse, ?v))"
      by (simp add: feed_byte_def feed_number_def)
    have "d = 0x30 \<or> 0x31 \<le> d \<and> d \<le> 0x39" using fd r t run_refuse by metis
    then have dd: "is_digit d" by (auto simp: is_digit_def u8_nat)
    have "\<exists>q p1 fr p ex. num_int_part (d # u) = Some q \<and> num_frac_part q = Some (p1, fr)
        \<and> num_exp_part p1 = Some (p, ex) \<and> run (value_done ?v) p vf"
      by (rule run_digit_start [OF r [unfolded t] _ _ _ dd]) (use fd assms(3) in auto)
    with True t show ?thesis by (auto simp: scan_number_def Let_def)
  next
    case False
    with assms(4) have d: "is_digit c" by simp
    have "\<exists>q p1 fr p ex. num_int_part (c # t) = Some q \<and> num_frac_part q = Some (p1, fr)
        \<and> num_exp_part p1 = Some (p, ex) \<and> run (value_done v) p vf"
      by (rule run_digit_start [OF assms(1,3) _ _ d])
         (use f nws False in \<open>auto simp: feed_value_def\<close>)
    with False show ?thesis by (auto simp: scan_number_def Let_def)
  qed
qed

subsection \<open>Literals, strings and keys\<close>

lemma run_lit:
  assumes "run (v\<lparr>v_st := S_LIT, v_lit := k, v_sub := n\<rparr>) s vf" "n < length (LITS ! k)" "\<not> v_done v"
  shows "\<exists>t. s = drop n (LITS ! k) @ t
    \<and> run (value_done (v\<lparr>v_lit := k, v_sub := length (LITS ! k)\<rparr>)) t vf"
  using assms
proof (induction s arbitrary: n)
  case Nil
  then show ?case by (simp add: run_Nil)
next
  case (Cons c s)
  let ?v = "v\<lparr>v_st := S_LIT, v_lit := k, v_sub := n\<rparr>"
  let ?w = "v\<lparr>v_st := S_LIT, v_lit := k, v_sub := Suc n\<rparr>"
  have f: "feed_byte ?v c = (if c = LITS ! k ! n
      then (Accept, if Suc n = length (LITS ! k) then value_done ?w else ?w) else (Refuse, ?v))"
    using Cons.prems(2) by (simp add: feed_byte_def feed_lit_def Let_def)
  have c: "c = LITS ! k ! n" using f Cons.prems(1) run_refuse by metis
  have r: "run (if Suc n = length (LITS ! k) then value_done ?w else ?w) s vf"
    using f c Cons.prems(1) by (simp add: run_accept)
  have dr: "drop n (LITS ! k) = c # drop (Suc n) (LITS ! k)"
    using Cons.prems(2) c by (simp add: Cons_nth_drop_Suc)
  show ?case
  proof (cases "Suc n = length (LITS ! k)")
    case True
    have "value_done ?w = value_done (v\<lparr>v_lit := k, v_sub := Suc n\<rparr>)" by (simp add: value_done_def)
    with True r dr show ?thesis by simp
  next
    case False
    with r have "run ?w s vf" by simp
    from Cons.IH [OF this] False Cons.prems(2,3) dr show ?thesis by auto
  qed
qed

text \<open>A string value, from its opening quote to the state after its closing one.\<close>

lemma run_string_value:
  assumes "run v (0x22 # t) vf" "v_st v = S_VALUE \<or> v_st v = S_ARR_FIRST" "jsonv_wf v"
  shows "\<exists>r t' w. parse_string (0x22 # t) = Some (r, t') \<and> settled w \<and> same_ctx v w \<and> run w t' vf"
proof -
  have nd: "\<not> v_done v" and u: "v_utf8 v = 0" using assms(2,3) wf_bounds [OF assms(3)] by auto
  let ?v = "v\<lparr>v_st := S_STRING\<rparr>"
  have "feed_byte v 0x22 = (Accept, v\<lparr>v_st := S_STRING, v_sub := 0\<rparr>)"
    using assms(2) by (auto simp: feed_byte_def feed_value_def json_is_ws_def)
  moreover have "v\<lparr>v_st := S_STRING, v_sub := 0\<rparr> = str_state ?v 0 (v_esc v) (v_esc_hi v) 0 (v_khash v)"
    using u by (simp add: str_state_def)
  ultimately have r: "run (str_state ?v 0 (v_esc v) (v_esc_hi v) 0 (v_khash v)) t vf"
    using assms(1) by (simp add: run_accept)
  have ins: "in_string ?v" using nd by (simp add: in_string_def)
  from run_string [OF r ins] obtain b t' e hi where
    p: "str_loop [] t = Some (b, t')" "run (str_state ?v 0 e hi 0 (v_khash v)) (0x22 # t') vf" by auto
  let ?w = "str_state ?v 0 e hi 0 (v_khash v)"
  have "feed_byte ?w 0x22 = (Accept, value_done ?w)"
    using ins by (simp add: feed_in_string feed_string_def Let_def)
  with p(2) have "run (value_done ?w) t' vf" by (simp add: run_accept)
  moreover have "jsonv_wf ?w" using assms(3) nd by simp
  with nd value_done_settled [of ?w] have "settled (value_done ?w)" "same_ctx ?w (value_done ?w)" by auto
  moreover have "same_ctx v ?w" by (simp add: same_ctx_def)
  ultimately show ?thesis using p(1) by (fastforce simp: parse_string_def same_ctx_def)
qed

text \<open>
  A key: the machine has compared its hash with those of the keys before it, so the parser's
  set cannot hold it; and the colon follows.
\<close>

definition keys_seen :: "keyset \<Rightarrow> jsonv \<Rightarrow> bool" where
  "keys_seen ks v \<longleftrightarrow> keyset_ok ks \<and> used ks \<le> length (seen v)
     \<and> (\<forall>k \<in> keyset_elems ks. (v_depth v, hash_bytes json_key_hash_init k) \<in> set (seen v))"

text \<open>The machine records at most 24 keys, so the parser's set is never near its limit.\<close>

lemma keys_seen_room:
  assumes "keys_seen ks v" "jsonv_wf v"
  shows "used ks < 2 ^ 59"
proof -
  have "length (seen v) \<le> 24" using wf_bounds(3,6,7) [OF assms(2)] by (simp add: seen_def)
  then show ?thesis using assms(1) by (simp add: keys_seen_def)
qed

lemma run_key:
  assumes "run v s vf" "v_st v = S_KEY_OR_END \<or> v_st v = S_KEY_EXPECT" "jsonv_wf v"
    "v_st v = S_KEY_EXPECT \<longrightarrow> v_kseen_n v < json_key_seen_max" "keys_seen ks v"
    "s = 0x22 # t"
  shows "\<exists>key ks' t' w h. parse_key True ks s = Some (key, ks', t') \<and> reads t' s \<and> v_st w = S_VALUE \<and> jsonv_wf w
    \<and> ctrs w = ctrs v \<and> v_depth w = v_depth v \<and> seen w = seen v @ [(v_depth v, h)] \<and> keys_seen ks' w
    \<and> run w t' vf"
proof -
  have nd: "\<not> v_done v" and u: "v_utf8 v = 0" using assms(2,3) wf_bounds [OF assms(3)] by auto
  let ?v = "v\<lparr>v_st := S_KEY\<rparr>"
  let ?k = "v\<lparr>v_st := S_KEY, v_sub := 0, v_khash := json_key_hash_init\<rparr>"
  have f: "feed_byte v 0x22 = (Accept, ?k) \<and> v_kseen_n v < json_key_seen_max"
  proof (cases "v_st v = S_KEY_EXPECT")
    case True
    with assms(4) show ?thesis by (simp add: feed_byte_def feed_key_expect_def json_is_ws_def)
  next
    case False
    with assms(2) have st: "v_st v = S_KEY_OR_END" by simp
    then have "feed_byte v 0x22 = (if v_kseen_n v \<ge> json_key_seen_max then (Refuse, v) else (Accept, ?k))"
      by (simp add: feed_byte_def feed_key_or_end_def json_is_ws_def)
    with assms(1,6) run_refuse show ?thesis by (metis not_less)
  qed
  have "?k = str_state ?v 0 (v_esc v) (v_esc_hi v) 0 json_key_hash_init"
    using u by (simp add: str_state_def)
  with f assms(1,6) have r: "run (str_state ?v 0 (v_esc v) (v_esc_hi v) 0 json_key_hash_init) t vf"
    by (simp add: run_accept)
  have ins: "in_string ?v" using nd by (simp add: in_string_def)
  from run_string [OF r ins] obtain b t' e hi where
    p: "str_loop [] t = Some (b, t')"
       "run (str_state ?v 0 e hi 0 (hash_bytes json_key_hash_init b)) (0x22 # t') vf" by auto
  define h where "h = hash_bytes json_key_hash_init b"
  let ?w = "str_state ?v 0 e hi 0 h"
  have wfw: "jsonv_wf ?w" using assms(3) nd by simp
  have fw: "feed_byte ?w 0x22 = (if key_seen ?w h then (Refuse, ?w)
      else (Accept, (key_record ?w)\<lparr>v_st := S_COLON\<rparr>))"
    using ins by (simp add: feed_in_string feed_string_def Let_def)
  have ns: "\<not> key_seen ?w h"
    using fw p(2) run_refuse unfolding h_def [symmetric] by metis
  with fw p(2) have r2: "run ((key_record ?w)\<lparr>v_st := S_COLON\<rparr>) t' vf"
    unfolding h_def [symmetric] by (simp add: run_accept)
  have fresh: "(v_depth v, h) \<notin> set (seen v)" using ns key_seen_view [OF wfw] by simp
  have kr: "seen (key_record ?w) = seen v @ [(v_depth v, h)]" "ctrs (key_record ?w) = ctrs v"
    "v_depth (key_record ?w) = v_depth v" "\<not> v_done (key_record ?w)" "jsonv_wf (key_record ?w)"
    using key_record_view [OF wfw] nd f by simp_all
  let ?c = "(key_record ?w)\<lparr>v_st := S_COLON\<rparr>"
  have "b \<notin> keyset_elems ks" using fresh assms(5) by (auto simp: keys_seen_def h_def)
  with assms(5) obtain ks' where ks': "keyset_insert (\<lambda>_. True) ks b = Some (1, ks')" "keyset_ok ks'"
    "keyset_elems ks' = insert b (keyset_elems ks)" "used ks' = used ks + 1"
    using ks.insert_fresh [OF _ _ keys_seen_room [OF assms(5,3)]] unfolding keys_seen_def by blast
  have "ws_state (v_st ?c)" by (simp add: ws_state_def)
  from run_token [OF r2 this] kr(4) obtain c u where c: "skip_ws t' = c # u" "\<not> json_is_ws c" "run ?c (c # u) vf"
    by auto
  have fc: "feed_byte ?c c = (if c = 0x3A then (Accept, (key_record ?w)\<lparr>v_st := S_VALUE\<rparr>) else (Refuse, ?c))"
    using c(2) by (simp add: feed_byte_def feed_colon_def)
  have c3: "c = 0x3A" using fc c(3) run_refuse by metis
  let ?x = "(key_record ?w)\<lparr>v_st := S_VALUE\<rparr>"
  have rx: "run ?x u vf" using fc c c3 by (simp add: run_accept)
  have ps: "parse_string (skip_ws s) = Some (b, t')"
    using p(1) assms(6) by (simp add: parse_string_def skip_ws_def json_is_ws_def)
  have "parse_key True ks s = Some (b, ks', u)" using ps ks'(1) c c3 by (simp add: parse_key_def)
  moreover have "reads u s"
    using reads_string [OF ps] reads_token [OF c(1)] reads_skip_ws [of s] c3
    by (auto simp: is_digit_def intro: reads_trans)
  moreover have "keys_seen ks' ?x" using ks' assms(5) kr by (auto simp: keys_seen_def h_def)
  moreover have "jsonv_wf ?x" using kr by simp
  ultimately show ?thesis using kr rx by (intro exI [of _ b] exI [of _ ks'] exI [of _ u] exI [of _ ?x] exI [of _ h]) simp
qed

subsection \<open>Values and containers\<close>

definition value_start :: "jsonv \<Rightarrow> bytes \<Rightarrow> bool" where
  "value_start v s \<longleftrightarrow> jsonv_wf v \<and> (v_st v = S_VALUE \<or> v_st v = S_ARR_FIRST \<and> hd (skip_ws s) \<noteq> 0x5D)"

definition tag_of :: "bool \<Rightarrow> u8" where
  "tag_of obj = (if obj then obj_tag else arr_tag)"

definition inside :: "jsonv \<Rightarrow> bool \<Rightarrow> bool" where
  "inside v obj \<longleftrightarrow> jsonv_wf v \<and> 0 < v_depth v \<and> last (ctrs v) = tag_of obj
     \<and> (\<not> obj \<longrightarrow> (\<forall>p \<in> set (seen v). fst p < v_depth v))"

definition members_start :: "jsonv \<Rightarrow> bool \<Rightarrow> keyset \<Rightarrow> bytes \<Rightarrow> bool" where
  "members_start v obj ks s \<longleftrightarrow> inside v obj \<and>
     (if obj then (v_st v = S_KEY_EXPECT \<and> v_kseen_n v < json_key_seen_max
        \<or> v_st v = S_KEY_OR_END \<and> hd (skip_ws s) \<noteq> 0x7D) \<and> keys_seen ks v
      else value_start v s)"

definition value_read :: "strtod \<Rightarrow> jsonv \<Rightarrow> jsonv \<Rightarrow> bytes \<Rightarrow> bool" where
  "value_read strtod v vf s \<longleftrightarrow> (\<exists>x t w. pv strtod (v_depth v) s = Some (x, t) \<and> reads t s
     \<and> settled w \<and> same_ctx v w \<and> run w t vf)"

definition members_read :: "strtod \<Rightarrow> jsonv \<Rightarrow> jsonv \<Rightarrow> bool \<Rightarrow> keyset \<Rightarrow> (bytes \<times> jv) list \<Rightarrow> bytes \<Rightarrow> bool" where
  "members_read strtod v vf obj ks ms s \<longleftrightarrow> (\<exists>x t w. pm strtod (v_depth v) obj ks ms s = Some (x, t)
     \<and> reads t s \<and> closed v w \<and> run w t vf)"

lemma settled_not_done: "settled w \<Longrightarrow> 0 < v_depth w \<Longrightarrow> v_st w = S_AFTER \<and> \<not> v_done w"
  by (auto simp: settled_def jsonv_wf_def)

text \<open>A value that is not a container.\<close>

lemma read_scalar:
  assumes "run v (c # t) vf" "value_start v s" "skip_ws s = c # t" "c \<noteq> 0x7B" "c \<noteq> 0x5B"
    "numbers_ok strtod s"
  shows "value_read strtod v vf s"
proof -
  have wf: "jsonv_wf v" and st: "v_st v = S_VALUE \<or> v_st v = S_ARR_FIRST \<and> c \<noteq> 0x5D"
    using assms(2,3) by (auto simp: value_start_def)
  then have nd: "\<not> v_done v" using wf_bounds [OF wf] by auto
  have nws: "\<not> json_is_ws c" using skip_ws_hd [OF assms(3)] .
  have dep: "\<not> json_max_depth < v_depth v + 1"
    using wf_bounds(1) [OF wf] by (simp add: json_max_depth_def)
  have sf: "reads (c # t) s" using reads_skip_ws [of s] assms(3) by simp
  have pvs: "pv strtod (v_depth v) s = parse_scalar strtod c t"
    using pv_scalar [OF assms(3) _ dep] assms(4,5) by simp
  have fin: "value_read strtod v vf s" if "parse_scalar strtod c t = Some (x, u)" "reads u (c # t)" "settled w"
    "same_ctx v w" "run w u vf" for x u w
    using that pvs sf unfolding value_read_def by (metis reads_trans)
  have lit: ?thesis
    if "feed_byte v c = (Accept, v\<lparr>v_st := S_LIT, v_lit := k, v_sub := 1\<rparr>)" "k < 3" "c # drop 1 (LITS ! k) = LITS ! k"
      "\<And>u. parse_scalar strtod c (drop 1 (LITS ! k) @ u) = Some (x, u)" for k x
  proof -
    have "run (v\<lparr>v_st := S_LIT, v_lit := k, v_sub := 1\<rparr>) t vf" using assms(1) that(1) by (simp add: run_accept)
    moreover have "1 < length (LITS ! k)" using that(2) by (auto simp: LITS_def less_Suc_eq numeral_eq_Suc ascii_def)
    ultimately obtain u where u: "t = drop 1 (LITS ! k) @ u"
      "run (value_done (v\<lparr>v_lit := k, v_sub := length (LITS ! k)\<rparr>)) u vf" using run_lit nd by blast
    let ?w = "v\<lparr>v_lit := k, v_sub := length (LITS ! k)\<rparr>"
    have "settled (value_done ?w) \<and> same_ctx ?w (value_done ?w)" using value_done_settled [of ?w] wf nd by simp
    moreover have "reads u (c # t)"
    proof -
      have "list_all (\<lambda>c. c \<noteq> 0x22 \<and> c \<noteq> 0x2D \<and> \<not> is_digit c) (LITS ! k)"
      proof -
        from that(2) have "k = 0 \<or> k = 1 \<or> k = 2" by arith
        then show ?thesis by (elim disjE) (simp_all add: LITS_def ascii_def is_digit_def)
      qed
      from reads_word [OF this, of u] show ?thesis unfolding u(1) using that(3) by (metis append_Cons)
    qed
    ultimately show ?thesis using fin [of x u "value_done ?w"] that(4) u by (simp add: same_ctx_def)
  qed
  have f: "feed_byte v c = feed_value v c" using st by (auto simp: feed_byte_def)
  consider (str) "c = 0x22" | (num) "c = 0x2D \<or> is_digit c" | (t) "c = 0x74" | (f) "c = 0x66" | (n) "c = 0x6E"
    | (none) "c \<noteq> 0x22" "c \<noteq> 0x2D" "\<not> is_digit c" "c \<noteq> 0x74" "c \<noteq> 0x66" "c \<noteq> 0x6E" by blast
  then show ?thesis
  proof cases
    case str
    from run_string_value [OF _ _ wf] assms(1) st str obtain r t' w where
      r: "parse_string (0x22 # t) = Some (r, t')" "settled w" "same_ctx v w" "run w t' vf" by blast
    then show ?thesis
      using fin [of "J_STR r" t' w] str reads_string [OF r(1)] by (simp add: parse_scalar_def)
  next
    case num
    from run_number [OF assms(1) _ nd num] st obtain p i k where
      p: "scan_number (c # t) = Some (p, i, k)" "run (value_done v) p vf" by blast
    from scan_number_self [OF p(1)] obtain q where q: "c # t = q @ p" "scan_number q = Some ([], i, k)" by blast
    note lit = reads_number [OF p(1) q(1) num_char_not_after [OF p(2)] sf refl num]
    with assms(6) q(2) obtain d where d: "json_number_text_ok strtod q = Some d"
      unfolding numbers_ok_def by blast
    have tk: "take (length (c # t) - length p) (c # t) = q" using q(1) by simp
    have "\<exists>x. parse_number strtod (c # t) = Some (x, p)"
      unfolding parse_number_def p(1) option.case prod.case tk Let_def d by blast
    then obtain x where "parse_number strtod (c # t) = Some (x, p)" by blast
    moreover have "c \<noteq> 0x22" "c \<noteq> 0x74" "c \<noteq> 0x66" "c \<noteq> 0x6E" using num by (auto simp: is_digit_def u8_nat)
    ultimately have "parse_scalar strtod c t = Some (x, p)" using num by (simp add: parse_scalar_def)
    moreover have "reads p (c # t)"
      by (rule reads_number(1) [OF p(1) q(1) num_char_not_after [OF p(2)] reads_refl refl num])
    ultimately show ?thesis using fin [of x p "value_done v"] value_done_settled [OF wf nd] p(2) by blast
  next
    case t
    then show ?thesis using lit [of 0 "J_BOOL True"] f
      by (simp add: feed_value_def json_is_ws_def LITS_def ascii_def parse_scalar_def)
  next
    case f
    then show ?thesis using lit [of 1 "J_BOOL False"] \<open>feed_byte v c = feed_value v c\<close>
      by (simp add: feed_value_def json_is_ws_def LITS_def ascii_def parse_scalar_def)
  next
    case n
    then show ?thesis using lit [of 2 J_NULL] f
      by (simp add: feed_value_def json_is_ws_def LITS_def ascii_def parse_scalar_def)
  next
    case none
    then have "c \<noteq> 0x30" "\<not> (0x31 \<le> c \<and> c \<le> 0x39)" by (auto simp: is_digit_def u8_nat)
    with none st nws assms(4,5) have "feed_value v c = (Refuse, v)" by (auto simp: feed_value_def)
    with f assms(1) run_refuse show ?thesis by metis
  qed
qed

text \<open>The head of a member.\<close>

lemma parse_key_skip: "parse_key True ks (skip_ws s) = parse_key True ks s"
  by (simp add: parse_key_def)

lemma read_key:
  assumes "run v s vf" "members_start v obj ks s"
  shows "\<exists>key ks' s1 w. parse_key obj ks s = Some (key, ks', s1) \<and> reads s1 s \<and> value_start w s1
    \<and> run w s1 vf \<and> inside w obj \<and> ctrs w = ctrs v \<and> v_depth w = v_depth v \<and> (obj \<longrightarrow> keys_seen ks' w)
    \<and> filter (\<lambda>p. fst p \<noteq> v_depth v) (seen w) = filter (\<lambda>p. fst p \<noteq> v_depth v) (seen v)"
proof (cases obj)
  case False
  with assms show ?thesis
    by (intro exI [of _ "[]"] exI [of _ ks] exI [of _ s] exI [of _ v]) (simp add: parse_key_def members_start_def reads_refl)
next
  case True
  then have i: "inside v True" "keys_seen ks v" "v_st v = S_KEY_EXPECT \<and> v_kseen_n v < json_key_seen_max
      \<or> v_st v = S_KEY_OR_END \<and> hd (skip_ws s) \<noteq> 0x7D" using assms(2) by (auto simp: members_start_def)
  then have wf: "jsonv_wf v" and nd: "\<not> v_done v" using wf_bounds [of v] by (auto simp: inside_def)
  have "ws_state (v_st v)" using i(3) by (auto simp: ws_state_def)
  from run_token [OF assms(1) this nd] obtain c t where c: "skip_ws s = c # t" "\<not> json_is_ws c" "run v (c # t) vf"
    by blast
  have q: "c = 0x22"
  proof (rule ccontr)
    assume "c \<noteq> 0x22"
    with i(3) c have "feed_byte v c = (Refuse, v)"
      by (auto simp: feed_byte_def feed_key_or_end_def feed_key_expect_def)
    with c(3) run_refuse show False by blast
  qed
  from run_key [OF c(3) _ wf _ i(2), of t] i(3) q obtain key ks' s1 w h where k:
    "parse_key True ks (c # t) = Some (key, ks', s1)" "reads s1 (c # t)" "v_st w = S_VALUE" "jsonv_wf w"
    "ctrs w = ctrs v" "v_depth w = v_depth v" "seen w = seen v @ [(v_depth v, h)]" "keys_seen ks' w" "run w s1 vf"
    by auto
  have "parse_key True ks s = Some (key, ks', s1)" using k(1) c(1) parse_key_skip by metis
  moreover have "reads s1 s" using k(2) c(1) reads_skip_ws [of s] by (metis reads_trans)
  moreover have "value_start w s1" using k(3,4) by (simp add: value_start_def)
  moreover have "inside w True" using i(1) k(4,5,6) by (simp add: inside_def)
  ultimately show ?thesis using True k(5-9)
    by (intro exI [of _ key] exI [of _ ks'] exI [of _ s1] exI [of _ w]) simp
qed

text \<open>The byte after a member.\<close>

lemma top_last: "jsonv_wf v \<Longrightarrow> 0 < v_depth v \<Longrightarrow> v_stack v ! (v_depth v - 1) = last (ctrs v)"
proof -
  assume a: "jsonv_wf v" "0 < v_depth v"
  have l: "length (ctrs v) = v_depth v" using length_ctrs [OF a(1)] .
  with a(2) have "ctrs v \<noteq> []" by auto
  then show "v_stack v ! (v_depth v - 1) = last (ctrs v)"
    using l a(2) by (simp add: last_conv_nth) (simp add: ctrs_def)
qed

lemma feed_after_member:
  assumes "inside w obj" "settled w" "\<not> json_is_ws c"
  shows "feed_byte w c =
    (if c = 0x2C then
       (if obj then (if v_kseen_n w \<ge> json_key_seen_max then (Refuse, w) else (Accept, w\<lparr>v_st := S_KEY_EXPECT\<rparr>))
        else (Accept, w\<lparr>v_st := S_VALUE\<rparr>))
     else if c = close_of obj then
       (Accept, value_done ((if obj then drop_keys w (v_depth w) else w)\<lparr>v_depth := v_depth w - 1\<rparr>))
     else (Refuse, w))"
proof -
  have d: "0 < v_depth w" and t: "v_stack w ! (v_depth w - 1) = tag_of obj" and st: "v_st w = S_AFTER"
    using assms top_last [of w] settled_not_done [of w] by (auto simp: inside_def)
  have dk: "v_depth (drop_keys w (v_depth w)) = v_depth w" using assms(1) drop_keys_view(3) by (simp add: inside_def)
  show ?thesis
  proof (cases obj)
    case True
    with d t assms(3) dk show ?thesis
      by (simp add: feed_byte_def st feed_after_def tag_of_def close_of_def Let_def)
  next
    case False
    with d t assms(3) show ?thesis
      by (simp add: feed_byte_def st feed_after_def tag_of_def close_of_def Let_def)
  qed
qed

lemma close_member:
  assumes "inside w obj" "settled w"
  shows "closed w (value_done ((if obj then drop_keys w (v_depth w) else w)\<lparr>v_depth := v_depth w - 1\<rparr>))"
  using assms close_object [of w] close_array [of w] settled_not_done [of w] by (auto simp: inside_def)

definition value_claim :: "strtod \<Rightarrow> bytes \<Rightarrow> bool" where
  "value_claim strtod s \<longleftrightarrow>
     (numbers_ok strtod s \<longrightarrow> (\<forall>v vf. run v s vf \<longrightarrow> value_start v s \<longrightarrow> value_read strtod v vf s))"

definition members_claim :: "strtod \<Rightarrow> bytes \<Rightarrow> bool" where
  "members_claim strtod s \<longleftrightarrow>
     (numbers_ok strtod s \<longrightarrow> (\<forall>v vf obj ks ms. run v s vf \<longrightarrow> members_start v obj ks s
        \<longrightarrow> members_read strtod v vf obj ks ms s))"

lemma read_members:
  assumes V: "\<And>u. reads u s \<Longrightarrow> value_claim strtod u"
    and M: "\<And>u. reads u s \<Longrightarrow> length u < length s \<Longrightarrow> members_claim strtod u"
  shows "members_claim strtod s"
  unfolding members_claim_def
proof (intro impI allI)
  fix v vf obj ks ms
  assume num: "numbers_ok strtod s" and r: "run v s vf" and st: "members_start v obj ks s"
  from read_key [OF r st] obtain key ks' s1 w where k:
    "parse_key obj ks s = Some (key, ks', s1)" "reads s1 s" "value_start w s1"
    "run w s1 vf" "inside w obj" "ctrs w = ctrs v" "v_depth w = v_depth v" "obj \<longrightarrow> keys_seen ks' w"
    "filter (\<lambda>p. fst p \<noteq> v_depth v) (seen w) = filter (\<lambda>p. fst p \<noteq> v_depth v) (seen v)" by blast
  have "numbers_ok strtod s1" using numbers_ok_reads [OF num k(2)] .
  with V [OF k(2)] k(3,4) obtain x s2 w1 where x: "pv strtod (v_depth w) s1 = Some (x, s2)" "reads s2 s1"
    "settled w1" "same_ctx w w1" "run w1 s2 vf" unfolding value_claim_def value_read_def by blast
  have sx: "ctrs w1 = ctrs v" "seen w1 = seen w" "v_depth w1 = v_depth v"
    using x(4) k(6,7) by (simp_all add: same_ctx_def)
  have i1: "inside w1 obj" using k(5,6,7) x(3) sx by (auto simp: inside_def settled_def)
  then have d1: "0 < v_depth w1" "v_st w1 = S_AFTER" "\<not> v_done w1" "jsonv_wf w1"
    using settled_not_done [OF x(3)] by (auto simp: inside_def)
  then have "ws_state (v_st w1)" by (simp add: ws_state_def)
  from run_token [OF x(5) this d1(3)] obtain c s3 where c: "skip_ws s2 = c # s3" "\<not> json_is_ws c"
    "run w1 (c # s3) vf" by blast
  note f = feed_after_member [OF i1 x(3) c(2)]
  have l: "length s3 < length s" using k(2) x(2) skip_ws_Cons [OF c(1)]
    reads_length [OF k(2)] reads_length [OF x(2)] by linarith
  have sf: "reads s3 s" if "c = 0x2C \<or> c = close_of obj"
  proof -
    have "reads s3 s2" by (rule reads_token [OF c(1)]) (use that in \<open>auto simp: close_of_def is_digit_def split: if_splits\<close>)
    then show ?thesis using k(2) x(2) by (blast intro: reads_trans)
  qed
  note eq = pm_eq [of strtod "v_depth v" obj ks ms s]
  show "members_read strtod v vf obj ks ms s"
  proof (cases "c = 0x2C")
    case True
    let ?w = "w1\<lparr>v_st := (if obj then S_KEY_EXPECT else S_VALUE)\<rparr>"
    have a: "feed_byte w1 c = (Accept, ?w) \<and> (obj \<longrightarrow> v_kseen_n w1 < json_key_seen_max)"
      using f True c(3) run_refuse by (metis not_less)
    then have r2: "run ?w s3 vf" using c(3) by (simp add: run_accept)
    have "inside ?w obj" using i1 d1(3) by (simp add: inside_def)
    then have "members_start ?w obj ks' s3"
    proof (cases obj)
      case True
      with a k(7,8) sx have "keys_seen ks' ?w" by (simp add: keys_seen_def)
      with \<open>inside ?w obj\<close> True a show ?thesis by (simp add: members_start_def)
    next
      case False
      with \<open>inside ?w obj\<close> show ?thesis by (simp add: members_start_def value_start_def inside_def)
    qed
    with M [OF sf l] r2 numbers_ok_reads [OF num sf] True obtain y t w2 where
      y: "pm strtod (v_depth ?w) obj ks' (ms @ [(key, x)]) s3 = Some (y, t)" "reads t s3" "closed ?w w2" "run w2 t vf"
      unfolding members_claim_def members_read_def by blast
    have "pm strtod (v_depth v) obj ks ms s = Some (y, t)"
      unfolding eq using k(1,7) x(1) c(1) True y(1) sx by simp
    moreover have "closed v w2" using y(3) sx k(9) by (simp add: closed_def)
    moreover have "reads t s" using y(2) sf True by (blast intro: reads_trans)
    ultimately show ?thesis using y(4) unfolding members_read_def by blast
  next
    case False
    let ?w = "value_done ((if obj then drop_keys w1 (v_depth w1) else w1)\<lparr>v_depth := v_depth w1 - 1\<rparr>)"
    have cc: "c = close_of obj" using f False c(3) run_refuse by metis
    with f False have "feed_byte w1 c = (Accept, ?w)" by (simp cong: if_cong)
    with c(3) have r2: "run ?w s3 vf" by (simp add: run_accept)
    have "pm strtod (v_depth v) obj ks ms s = Some (container obj (ms @ [(key, x)]), s3)"
      unfolding eq using k(1,7) x(1) c(1) False cc by simp
    moreover have "closed v ?w"
      using close_member [OF i1 x(3)] sx k(9) by (simp add: closed_def)
    ultimately show ?thesis using sf cc r2 unfolding members_read_def by blast
  qed
qed

text \<open>An open container, up to its end.\<close>

lemma read_open:
  assumes r: "run v t vf" and i: "inside v obj" and st: "v_st v = (if obj then S_KEY_OR_END else S_ARR_FIRST)"
    and below: "\<forall>p \<in> set (seen v). fst p < v_depth v" and num: "numbers_ok strtod t"
    and M: "members_claim strtod (skip_ws t)"
  shows "\<exists>x u w. (if skip_ws t \<noteq> [] \<and> hd (skip_ws t) = close_of obj then Some (container obj [], tl (skip_ws t))
      else pm strtod (v_depth v) obj keyset_empty [] (skip_ws t)) = Some (x, u)
    \<and> reads u t \<and> closed v w \<and> run w u vf"
proof -
  have wf: "jsonv_wf v" and dp: "0 < v_depth v" using i by (auto simp: inside_def)
  have nd: "\<not> v_done v" using st wf_bounds(5) [OF wf] by (simp split: if_splits)
  have "ws_state (v_st v)" using st by (simp add: ws_state_def)
  from run_token [OF r this nd] obtain c s where c: "skip_ws t = c # s" "\<not> json_is_ws c" "run v (c # s) vf" by blast
  have sf: "reads (c # s) t" using reads_skip_ws [of t] c(1) by simp
  show ?thesis
  proof (cases "c = close_of obj")
    case True
    let ?w = "value_done ((if obj then drop_keys v (v_depth v) else v)\<lparr>v_depth := v_depth v - 1\<rparr>)"
    have dk: "v_depth (drop_keys v (v_depth v)) = v_depth v" using drop_keys_view(3) [OF wf] .
    have "feed_byte v c = (Accept, ?w)"
      using True st dk by (simp add: feed_byte_def feed_key_or_end_def feed_value_def close_of_def Let_def
          json_is_ws_def split: if_splits)
    with c(3) have r2: "run ?w s vf" by (simp add: run_accept)
    moreover have "closed v ?w"
      using close_object [OF wf nd dp] close_array [OF wf nd dp below] by simp
    moreover have "reads s t"
      by (rule reads_Cons [OF sf]) (use True in \<open>auto simp: close_of_def is_digit_def split: if_splits\<close>)
    ultimately show ?thesis using c(1) True by (intro exI [of _ "container obj []"] exI [of _ s] exI [of _ ?w]) simp
  next
    case False
    have "keys_seen keyset_empty v" by (simp add: keys_seen_def ks.ok_empty ks.elems_empty ks.held_empty)
    moreover have "skip_ws (c # s) = c # s" using c(1) skip_ws_idem [of t] by simp
    ultimately have "members_start v obj keyset_empty (c # s)"
      using i st False wf by (auto simp: members_start_def value_start_def close_of_def)
    with M c(1,3) numbers_ok_reads [OF num sf] have "members_read strtod v vf obj keyset_empty [] (c # s)"
      unfolding members_claim_def by simp
    then obtain x u w where x: "pm strtod (v_depth v) obj keyset_empty [] (c # s) = Some (x, u)" "reads u (c # s)"
      "closed v w" "run w u vf" unfolding members_read_def by blast
    have "reads u t" using x(2) sf by (rule reads_trans)
    with c(1) False x show ?thesis by (intro exI [of _ x] exI [of _ u] exI [of _ w]) simp
  qed
qed

lemma read_value:
  assumes M: "\<And>u. reads u s \<Longrightarrow> length u < length s \<Longrightarrow> members_claim strtod u"
  shows "value_claim strtod s"
  unfolding value_claim_def
proof (intro impI allI)
  fix v vf
  assume num: "numbers_ok strtod s" and r: "run v s vf" and st: "value_start v s"
  have wf: "jsonv_wf v" and sv: "v_st v = S_VALUE \<or> v_st v = S_ARR_FIRST" using st by (auto simp: value_start_def)
  then have nd: "\<not> v_done v" and ws: "ws_state (v_st v)" using wf_bounds [OF wf] by (auto simp: ws_state_def)
  from run_token [OF r ws nd] obtain c t where c: "skip_ws s = c # t" "\<not> json_is_ws c" "run v (c # t) vf" by blast
  show "value_read strtod v vf s"
  proof (cases "c = 0x7B \<or> c = 0x5B")
    case False
    with read_scalar [OF c(3) st c(1)] num show ?thesis by blast
  next
    case True
    define obj where "obj = (c = 0x7B)"
    let ?v = "v\<lparr>v_st := (if obj then S_KEY_OR_END else S_ARR_FIRST)\<rparr>"
    have f: "feed_byte v c = accept_if (push ?v (tag_of obj))"
      using sv True c(2) by (auto simp: feed_byte_def feed_value_def obj_def tag_of_def)
    obtain ok w where p: "push ?v (tag_of obj) = (ok, w)" by (cases "push ?v (tag_of obj)") auto
    have ok using f p c(3) run_refuse by (cases ok) (auto simp: accept_if_def)
    with f p c(3) have r2: "run w t vf" by (simp add: accept_if_def run_accept)
    have wfv: "jsonv_wf ?v" "\<not> v_done ?v" using wf nd by simp_all
    from p \<open>ok\<close> have "push ?v (tag_of obj) = (True, w)" by simp
    note pw0 = push_view [OF this wfv]
    then have "ctrs w = ctrs ?v @ [tag_of obj]" "seen w = seen ?v" "v_depth w = v_depth ?v + 1" "v_st w = v_st ?v" by blast+
    moreover have "jsonv_wf w" "\<forall>p \<in> set (seen w). fst p < v_depth w" using pw0 by blast+
    ultimately have pw: "ctrs w = ctrs v @ [tag_of obj]" "seen w = seen v"
      "v_depth w = v_depth v + 1" "v_st w = (if obj then S_KEY_OR_END else S_ARR_FIRST)" "jsonv_wf w"
      "\<forall>p \<in> set (seen w). fst p < v_depth w" by simp_all
    have i: "inside w obj" using pw by (simp add: inside_def)
    have sf: "reads t s" by (rule reads_token [OF c(1)]) (use True in \<open>auto simp: is_digit_def\<close>)
    have sk: "reads (skip_ws t) s" using reads_skip_ws sf by (rule reads_trans)
    have lt: "length (skip_ws t) < length s" using skip_ws_le [of t] skip_ws_Cons [OF c(1)] by linarith
    from read_open [OF r2 i pw(4,6) numbers_ok_reads [OF num sf] M [OF sk lt]] obtain x u w' where x:
      "(if skip_ws t \<noteq> [] \<and> hd (skip_ws t) = close_of obj then Some (container obj [], tl (skip_ws t))
        else pm strtod (v_depth w) obj keyset_empty [] (skip_ws t)) = Some (x, u)"
      "reads u t" "closed w w'" "run w' u vf" by blast
    have dep: "\<not> json_max_depth < v_depth v + 1"
      using wf_bounds(1) [OF wf] by (simp add: json_max_depth_def)
    have "pv strtod (v_depth v) s = Some (x, u)"
      unfolding pv_container [OF c(1) True dep] using x(1) unfolding obj_def pw(3) .
    moreover have "reads u s" using x(2) sf by (rule reads_trans)
    moreover have "filter (\<lambda>p. fst p \<noteq> v_depth w) (seen w) = seen w" using pw(6) by (fastforce intro: filter_True)
    then have "settled w'" "same_ctx v w'" using x(3) pw by (simp_all add: closed_def same_ctx_def)
    ultimately show ?thesis using x(4) unfolding value_read_def by blast
  qed
qed

lemma read_claims: "value_claim strtod s \<and> members_claim strtod s"
proof (induction "length s" arbitrary: s rule: less_induct)
  case less
  have v: "value_claim strtod u" if "reads u s" for u
  proof (rule read_value)
    fix u' assume "reads u' u" "length u' < length u"
    moreover have "length u \<le> length s" using that by (rule reads_length)
    ultimately show "members_claim strtod u'" using less by simp
  qed
  then have "members_claim strtod s" by (rule read_members) (use less in simp_all)
  with v reads_refl show ?case by blast
qed

lemma members_object:
  "parse_members strtod n d True ks ms s = Some (x, u) \<Longrightarrow> \<exists>l. x = J_OBJ l"
proof (induction n arbitrary: ks ms s)
  case (Suc n)
  then obtain key ks' s1 item s2 c s3 where
    "parse_key True ks s = Some (key, ks', s1)" "parse_value strtod n d s1 = Some (item, s2)" "skip_ws s2 = c # s3"
    by (auto simp: parse_members.simps split: option.splits list.splits)
  with Suc show ?case by (auto simp: parse_members.simps container_def split: if_splits)
qed (simp add: parse_members.simps)

lemma pm_object: "pm strtod d True ks ms s = Some (x, u) \<Longrightarrow> \<exists>l. x = J_OBJ l"
  unfolding pm_def by (rule members_object)

text \<open>
  The document as the machine is started on it: \<open>jsonv_init\<close> on any memory.
\<close>

definition jsonv_memory :: "jsonv \<Rightarrow> bool" where
  "jsonv_memory v \<longleftrightarrow> length (v_stack v) = json_max_container_depth
     \<and> length (v_kseen_hash v) = json_key_seen_max \<and> length (v_kseen_depth v) = json_key_seen_max"

lemma accepted_reads:
  assumes "jsonv_memory m" "jsonv_feed (jsonv_init m) s = (True, vf)" "v_done vf" "numbers_ok strtod s"
  shows "\<exists>ms. json_parse strtod s = Some (J_OBJ ms)"
proof -
  let ?v = "jsonv_init m"
  have r: "run ?v s vf" using assms(2,3) by (simp add: run_def)
  have nd: "\<not> v_done ?v" by (simp add: jsonv_init_def)
  from run_not_done [OF r nd] obtain c t where s: "s = c # t" by blast
  let ?w = "?v\<lparr>v_st := S_KEY_OR_END\<rparr>"
  have f: "feed_byte ?v c = (if c = 0x7B then accept_if (push ?w obj_tag) else (Refuse, ?v))"
    by (simp add: jsonv_init_def feed_byte_def feed_start_def)
  have c: "c = 0x7B" using f r s run_refuse by metis
  have wf: "jsonv_wf ?w" "\<not> v_done ?w"
    using assms(1) by (simp_all add: jsonv_memory_def jsonv_wf_def jsonv_init_def seen_def)
  obtain ok w where p: "push ?w obj_tag = (ok, w)" by (cases "push ?w obj_tag") auto
  have ok using f p c s r run_refuse by (cases ok) (auto simp: accept_if_def)
  with f p c s r have r2: "run w t vf" by (simp add: accept_if_def run_accept)
  from p \<open>ok\<close> have "push ?w obj_tag = (True, w)" by simp
  note pw = push_view [OF this wf]
  have d0: "v_depth ?w = 0" "v_st ?w = S_KEY_OR_END" "ctrs ?w = []"
    by (simp_all add: jsonv_init_def ctrs_def)
  have i: "inside w True" using pw by (simp add: inside_def tag_of_def)
  have sf: "reads t s" unfolding s c by (rule reads_Cons [OF reads_refl]) (simp_all add: is_digit_def)
  have st: "v_st w = (if True then S_KEY_OR_END else S_ARR_FIRST)" using pw d0 by simp
  have below: "\<forall>p \<in> set (seen w). fst p < v_depth w" using pw by blast
  from read_open [OF r2 i st below numbers_ok_reads [OF assms(4) sf]] read_claims obtain x u w' where x:
    "(if skip_ws t \<noteq> [] \<and> hd (skip_ws t) = close_of True then Some (container True [], tl (skip_ws t))
      else pm strtod (v_depth w) True keyset_empty [] (skip_ws t)) = Some (x, u)"
    "closed w w'" "run w' u vf" by blast
  have "settled w'" "v_depth w' = 0" using x(2) pw d0 by (simp_all add: closed_def)
  then have dn: "v_st w' = S_DONE" by (simp add: settled_def)
  have u: "u = []"
  proof (cases u)
    case (Cons c' u')
    have "feed_byte w' c' = (Refuse, w')" using dn by (simp add: feed_byte_def)
    with x(3) Cons run_refuse show ?thesis by metis
  qed
  have sk: "skip_ws s = 0x7B # t" using s c by (simp add: skip_ws_def json_is_ws_def)
  have dep: "\<not> json_max_depth < 0 + 1" by (simp add: json_max_depth_def)
  have "v_depth w = 0 + 1" using pw d0 by simp
  then have pv: "pv strtod 0 s = Some (x, u)"
  proof -
    have "(0x7B :: u8) = 0x7B \<longleftrightarrow> True" by simp
    then show ?thesis using x(1) \<open>v_depth w = 0 + 1\<close>
      unfolding pv_container [OF sk disjI1 [OF refl] dep] by (simp only:)
  qed
  then have "json_parse strtod s = Some x" using u by (simp add: json_parse_pv skip_ws_def)
  moreover have "\<exists>ms. x = J_OBJ ms"
    using x(1) pm_object [of strtod "v_depth w" keyset_empty "[]" "skip_ws t" x u] by (auto simp: container_def split: if_splits)
  ultimately show ?thesis by blast
qed

text \<open>
  Property C1. A document that the validator accepts from \<open>jsonv_init\<close> to its end is read by
  \<open>json_parse\<close>, and as an object, when each of its number literals (those outside strings) is in
  the range \<open>json_parse\<close> reads: same grammar, same depth bound, same string rules, no
  duplicate key that the parser would refuse.
\<close>

theorem accepted_parses:
  assumes "jsonv_memory m" "jsonv_feed (jsonv_init m) s = (True, vf)" "v_done vf" "numbers_ok strtod s"
  shows "\<exists>ms. json_parse strtod s = Some (J_OBJ ms)"
  using accepted_reads [OF assms] .

lemma scan_number_nonempty: "scan_number q = Some (p, i, k) \<Longrightarrow> q \<noteq> []"
  using scan_number_consumes [of q p i k] by auto

lemma numbers_ok_any: "numbers_ok (\<lambda>s. (0, length s, False)) s"
  by (auto simp: numbers_ok_def json_number_text_ok_def json_number_max_def dest: scan_number_nonempty)

definition memory0 :: jsonv where
  "memory0 = \<lparr>v_stack = replicate 127 0, v_depth = 0, v_floor = 0, v_st = S_START, v_sub = 0, v_lit = 0,
     v_utf8 = 0, v_done = False, v_esc = 0, v_esc_hi = 0, v_khash = 0, v_kseen_n = 0,
     v_kseen_hash = replicate 24 0, v_kseen_depth = replicate 24 0\<rparr>"

lemma memory0_ok: "jsonv_memory memory0"
  by (simp add: jsonv_memory_def memory0_def json_max_container_depth_def json_max_depth_def json_key_seen_max_def)

text \<open>
  The document {"a":[1],"b":"1e999"}, read by a \<^verbatim>\<open>strtod\<close> for which the text in the
  string would be out of range.
\<close>

definition doc0 :: bytes where
  "doc0 = [0x7B, 0x22, 0x61, 0x22, 0x3A, 0x5B, 0x31, 0x5D, 0x2C, 0x22, 0x62, 0x22, 0x3A,
     0x22, 0x31, 0x65, 0x39, 0x39, 0x39, 0x22, 0x7D]"

definition strtod1 :: strtod where
  "strtod1 s = (1, length s, s \<noteq> [0x31])"

lemma doc0_accepted:
  "fst (jsonv_feed (jsonv_init memory0) doc0) \<and> v_done (snd (jsonv_feed (jsonv_init memory0) doc0))"
  by code_simp

lemma doc0_numbers: "numbers_ok strtod1 doc0"
proof -
  have "number_literals doc0 = [[0x31]]"
    by (simp add: doc0_def number_literals.simps(2) is_digit_def num_char_def)
  then show ?thesis
    by (simp add: numbers_ok_def json_number_text_ok_def strtod1_def json_number_max_def)
qed

theorem accepted_parses_witness:
  "(\<exists>ms. json_parse strtod1 doc0 = Some (J_OBJ ms)) \<and> snd (snd (strtod1 [0x31, 0x65, 0x39, 0x39, 0x39]))"
  using accepted_parses [OF memory0_ok _ _ doc0_numbers] doc0_accepted
  by (cases "jsonv_feed (jsonv_init memory0) doc0") (auto simp: strtod1_def)

end
