(* ===== verification/Json_Live.thy ===== *)
theory Json_Live
  imports Json_Agree
begin

section \<open>The states the validator reaches\<close>

text \<open>
  \<open>live_from\<close> is the invariant of the validator: what each state means for the container stack,
  for the escape in progress and for the room in the duplicate-key guard. Every accepted byte keeps
  it, whichever of \<open>jsonv_init\<close>, \<open>jsonv_init_any\<close> and \<open>jsonv_init_nested\<close> started the machine;
  \<open>live\<close> is the case of a document, an object at the root. The floor a nested machine is started
  with is never changed, and the containers of both documents together stay within the parser's
  bound.
\<close>

text \<open>The digits an escape has accumulated, by position.\<close>

definition esc_ok :: "nat \<Rightarrow> nat \<Rightarrow> bool" where
  "esc_ok sub esc \<longleftrightarrow> sub \<le> 11 \<and> (sub = 3 \<longrightarrow> esc < 16)
     \<and> (sub = 4 \<longrightarrow> esc < 256 \<and> \<not> (0xDC \<le> esc \<and> esc \<le> 0xDF))
     \<and> (sub = 5 \<longrightarrow> esc < 4096 \<and> \<not> (0xDC0 \<le> esc \<and> esc \<le> 0xDFF))
     \<and> (sub = 9 \<longrightarrow> esc = 13) \<and> (sub = 10 \<longrightarrow> 0xDC \<le> esc \<and> esc \<le> 0xDF)
     \<and> (sub = 11 \<longrightarrow> 0xDC0 \<le> esc \<and> esc \<le> 0xDFF)"

definition str_ok :: "jsonv \<Rightarrow> bool" where
  "str_ok v \<longleftrightarrow> v_utf8 v < 8 \<and> (v_utf8 v \<noteq> 0 \<longrightarrow> v_sub v = 0) \<and> esc_ok (v_sub v) (v_esc v)
     \<and> (v_st v = S_KEY \<and> 6 \<le> v_sub v \<longrightarrow> hi_surrogate (v_esc_hi v))"

definition under :: "jsonv \<Rightarrow> bool \<Rightarrow> bool" where
  "under v obj \<longleftrightarrow> 0 < v_depth v \<and> last (ctrs v) = tag_of obj"

text \<open>
  \<open>a\<close>: the machine was started on a value of any kind (\<open>jsonv_init_any\<close>), so a value may stand
  outside every container.
\<close>

definition rooted :: "bool \<Rightarrow> jsonv \<Rightarrow> bool" where
  "rooted a v \<longleftrightarrow> a \<or> 0 < v_depth v"

definition state_from :: "bool \<Rightarrow> jsonv \<Rightarrow> bool" where
  "state_from a v \<longleftrightarrow>
    (case v_st v of
       S_START \<Rightarrow> v_depth v = 0
     | S_DONE \<Rightarrow> v_depth v = 0
     | S_KEY \<Rightarrow> under v True \<and> v_kseen_n v < json_key_seen_max \<and> str_ok v
     | S_STRING \<Rightarrow> rooted a v \<and> str_ok v
     | S_KEY_EXPECT \<Rightarrow> under v True \<and> v_kseen_n v < json_key_seen_max
     | S_KEY_OR_END \<Rightarrow> under v True
     | S_COLON \<Rightarrow> under v True
     | S_ARR_FIRST \<Rightarrow> under v False
     | S_AFTER \<Rightarrow> 0 < v_depth v
     | S_LIT \<Rightarrow> rooted a v \<and> v_lit v < 3 \<and> 0 < v_sub v \<and> v_sub v < length (LITS ! v_lit v)
     | _ \<Rightarrow> rooted a v)"

text \<open>The clauses of \<open>jsonv_wf\<close> that hold inside strings too, and what the stack and the guard hold.\<close>

definition tags_ok :: "jsonv \<Rightarrow> bool" where
  "tags_ok v \<longleftrightarrow> set (ctrs v) \<subseteq> {obj_tag, arr_tag}
     \<and> (\<forall>p \<in> set (seen v). 0 < fst p \<and> fst p \<le> v_depth v \<and> ctrs v ! (fst p - 1) = obj_tag)"

definition base_ok :: "jsonv \<Rightarrow> bool" where
  "base_ok v \<longleftrightarrow> length (v_stack v) = json_max_container_depth
     \<and> length (v_kseen_hash v) = json_key_seen_max \<and> length (v_kseen_depth v) = json_key_seen_max
     \<and> v_depth v \<le> json_max_container_depth \<and> v_kseen_n v \<le> json_key_seen_max
     \<and> (v_done v \<longleftrightarrow> v_st v = S_DONE) \<and> tags_ok v"

definition live_from :: "bool \<Rightarrow> jsonv \<Rightarrow> bool" where
  "live_from a v \<longleftrightarrow> base_ok v \<and> state_from a v \<and> (v_st v \<noteq> S_KEY \<and> v_st v \<noteq> S_STRING \<longrightarrow> v_utf8 v = 0)"

abbreviation state_ok :: "jsonv \<Rightarrow> bool" where
  "state_ok \<equiv> state_from False"

abbreviation live :: "jsonv \<Rightarrow> bool" where
  "live \<equiv> live_from False"

text \<open>\<open>plain\<close> is what a handler outside strings may assume.\<close>

definition plain :: "jsonv \<Rightarrow> bool" where
  "plain v \<longleftrightarrow> jsonv_wf v \<and> \<not> v_done v \<and> tags_ok v"

lemma base_wf: "base_ok v \<Longrightarrow> v_utf8 v = 0 \<Longrightarrow> jsonv_wf v"
  by (auto simp: base_ok_def jsonv_wf_def tags_ok_def)

lemma wf_base: "jsonv_wf v \<Longrightarrow> tags_ok v \<Longrightarrow> base_ok v \<and> v_utf8 v = 0"
  by (simp add: base_ok_def jsonv_wf_def)

lemma live_done: "live_from a v \<Longrightarrow> v_done v \<longleftrightarrow> v_st v = S_DONE"
  by (simp add: live_from_def base_ok_def)

lemma live_plain: "live_from a v \<Longrightarrow> v_st v \<notin> {S_KEY, S_STRING, S_DONE} \<Longrightarrow> plain v"
  using base_wf [of v] live_done [of a v] by (simp add: plain_def live_from_def) (simp add: base_ok_def)

lemma plain_base: "plain v \<Longrightarrow> base_ok v \<and> v_utf8 v = 0 \<and> \<not> v_done v"
  using wf_base by (simp add: plain_def)

lemma under_update [simp]:
  "under (v\<lparr>v_st := x\<rparr>) obj = under v obj" "under (v\<lparr>v_sub := n\<rparr>) obj = under v obj"
  "under (v\<lparr>v_lit := n\<rparr>) obj = under v obj" "under (v\<lparr>v_khash := h\<rparr>) obj = under v obj"
  "under (str_state v sub esc hi u h) obj = under v obj"
  by (simp_all add: under_def)

lemma tags_update [simp]:
  "tags_ok (v\<lparr>v_st := x\<rparr>) = tags_ok v" "tags_ok (v\<lparr>v_sub := n\<rparr>) = tags_ok v"
  "tags_ok (v\<lparr>v_lit := n\<rparr>) = tags_ok v" "tags_ok (v\<lparr>v_khash := h\<rparr>) = tags_ok v"
  "tags_ok (str_state v sub esc hi u h) = tags_ok v"
  by (simp_all add: tags_ok_def)

lemma base_update [simp]:
  "base_ok (v\<lparr>v_sub := n\<rparr>) = base_ok v" "base_ok (v\<lparr>v_lit := n\<rparr>) = base_ok v"
  "base_ok (v\<lparr>v_khash := h\<rparr>) = base_ok v" "base_ok (str_state v sub esc hi u h) = base_ok v"
  by (simp_all add: base_ok_def)

lemma base_st: "base_ok v \<Longrightarrow> \<not> v_done v \<Longrightarrow> x \<noteq> S_DONE \<Longrightarrow> base_ok (v\<lparr>v_st := x\<rparr>)"
  by (simp add: base_ok_def)

lemma rooted_update [simp]:
  "rooted a (v\<lparr>v_st := x\<rparr>) = rooted a v" "rooted a (v\<lparr>v_sub := n\<rparr>) = rooted a v"
  "rooted a (v\<lparr>v_lit := n\<rparr>) = rooted a v" "rooted a (v\<lparr>v_khash := h\<rparr>) = rooted a v"
  "rooted a (str_state v sub esc hi u h) = rooted a v"
  by (simp_all add: rooted_def)

lemma deep_rooted: "0 < v_depth v \<Longrightarrow> rooted a v"
  by (simp add: rooted_def)

text \<open>Entering a state, a value's end, a container's beginning and end.\<close>

lemma plain_live_st:
  "plain v \<Longrightarrow> x \<noteq> S_DONE \<Longrightarrow> state_from a (v\<lparr>v_st := x\<rparr>) \<Longrightarrow> live_from a (v\<lparr>v_st := x\<rparr>)"
  using plain_base [of v] base_st [of v x] by (simp add: live_from_def)

lemma settled_live:
  assumes "settled w" "tags_ok w"
  shows "live_from a w"
  using assms wf_base [of w] by (simp add: settled_def live_from_def state_from_def)

lemma value_done_live:
  assumes "plain v"
  shows "live_from a (value_done v)"
proof -
  have "settled (value_done v)" "same_ctx v (value_done v)"
    using value_done_settled [of v] assms by (simp_all add: plain_def)
  moreover have "tags_ok (value_done v)"
    using calculation(2) assms by (simp add: tags_ok_def same_ctx_def plain_def)
  ultimately show ?thesis using settled_live by blast
qed

lemma closed_live:
  assumes "closed v w" "plain v"
  shows "live_from a w"
proof -
  have wf: "jsonv_wf v" using assms(2) by (simp add: plain_def)
  have d: "v_depth w = v_depth v - 1" "ctrs w = butlast (ctrs v)"
    "seen w = filter (\<lambda>p. fst p \<noteq> v_depth v) (seen v)" "settled w" using assms(1) by (simp_all add: closed_def)
  have t: "tags_ok v" using assms(2) by (simp add: plain_def)
  have "0 < fst p \<and> fst p \<le> v_depth w \<and> ctrs w ! (fst p - 1) = obj_tag" if "p \<in> set (seen w)" for p
  proof -
    have p: "0 < fst p" "fst p \<le> v_depth v" "fst p \<noteq> v_depth v" "ctrs v ! (fst p - 1) = obj_tag"
      using that d(3) t by (auto simp: tags_ok_def)
    then have "fst p - 1 < length (butlast (ctrs v))" using length_ctrs [OF wf] by simp
    with p d show ?thesis by (simp add: nth_butlast)
  qed
  moreover have "set (ctrs w) \<subseteq> {obj_tag, arr_tag}" using t d(2) by (auto simp: tags_ok_def dest: in_set_butlastD)
  ultimately show ?thesis using d(4) by (intro settled_live) (simp_all add: tags_ok_def)
qed

lemma array_seen:
  assumes "plain v" "under v False"
  shows "\<forall>p \<in> set (seen v). fst p < v_depth v"
proof
  fix p assume "p \<in> set (seen v)"
  then have p: "0 < fst p" "fst p \<le> v_depth v" "ctrs v ! (fst p - 1) = obj_tag"
    using assms(1) by (auto simp: plain_def tags_ok_def)
  have l: "length (ctrs v) = v_depth v" using assms(1) length_ctrs by (simp add: plain_def)
  have "fst p \<noteq> v_depth v"
  proof
    assume e: "fst p = v_depth v"
    have "ctrs v \<noteq> []" using l assms(2) by (auto simp: under_def)
    then have "last (ctrs v) = obj_tag" using p(3) e l by (simp add: last_conv_nth)
    with assms(2) show False by (simp add: under_def tag_of_def)
  qed
  with p(2) show "fst p < v_depth v" by simp
qed

lemma close_object_live:
  assumes "plain v" "under v True"
  shows "live_from a (value_done ((drop_keys v (v_depth v))\<lparr>v_depth := v_depth (drop_keys v (v_depth v)) - 1\<rparr>))"
  using close_object [of v] closed_live [of v] assms drop_keys_view(3) [of v] by (simp add: plain_def under_def)

lemma close_array_live:
  assumes "plain v" "under v False"
  shows "live_from a (value_done (v\<lparr>v_depth := v_depth v - 1\<rparr>))"
  using close_array [of v] closed_live [of v] array_seen [OF assms] assms by (simp add: plain_def under_def)

lemma push_live:
  assumes "plain v" "push (v\<lparr>v_st := (if obj then S_KEY_OR_END else S_ARR_FIRST)\<rparr>) (tag_of obj) = (True, w)"
  shows "live_from a w"
proof -
  let ?v = "v\<lparr>v_st := (if obj then S_KEY_OR_END else S_ARR_FIRST)\<rparr>"
  have "jsonv_wf ?v" "\<not> v_done ?v" using assms(1) by (simp_all add: plain_def)
  note p = push_view [OF assms(2) this]
  then have c: "ctrs w = ctrs v @ [tag_of obj]" "seen w = seen v" "v_depth w = Suc (v_depth v)" "jsonv_wf w"
    "v_st w = (if obj then S_KEY_OR_END else S_ARR_FIRST)" by simp_all
  have l: "length (ctrs v) = v_depth v" using assms(1) length_ctrs by (simp add: plain_def)
  have t: "tags_ok v" using assms(1) by (simp add: plain_def)
  have "tags_ok w" using t l unfolding tags_ok_def c by (auto simp: tag_of_def nth_append)
  then have b: "base_ok w" "v_utf8 w = 0" using wf_base c(4) by auto
  have "under w obj" using c by (simp add: under_def)
  with c have "state_from a w" by (cases obj) (simp_all add: state_from_def)
  with b show ?thesis by (simp add: live_from_def)
qed

lemma accept_if_push:
  "accept_if (push v c) = (r, w) \<Longrightarrow> r \<noteq> Refuse \<Longrightarrow> push v c = (True, w) \<and> r = Accept"
  by (cases "push v c") (auto simp: accept_if_def split: if_splits)

lemma open_live:
  assumes "plain v" "(r, w) = accept_if (push (v\<lparr>v_st := S_KEY_OR_END\<rparr>) obj_tag)
      \<or> (r, w) = accept_if (push (v\<lparr>v_st := S_ARR_FIRST\<rparr>) arr_tag)" "r \<noteq> Refuse"
  shows "live_from a w"
  using assms(2)
proof
  assume "(r, w) = accept_if (push (v\<lparr>v_st := S_KEY_OR_END\<rparr>) obj_tag)"
  from accept_if_push [OF this [symmetric] assms(3)] push_live [OF assms(1), of True w]
  show ?thesis by (simp add: tag_of_def)
next
  assume "(r, w) = accept_if (push (v\<lparr>v_st := S_ARR_FIRST\<rparr>) arr_tag)"
  from accept_if_push [OF this [symmetric] assms(3)] push_live [OF assms(1), of False w]
  show ?thesis by (simp add: tag_of_def)
qed

subsection \<open>Every accepted byte keeps the invariant\<close>

text \<open>Outside strings, handler by handler.\<close>

lemma LITS_length: "k < 3 \<Longrightarrow> 1 < length (LITS ! k)"
  by (auto simp: LITS_def less_Suc_eq numeral_eq_Suc ascii_def)

lemma enter_string:
  assumes "plain v" "rooted a v"
  shows "live_from a (v\<lparr>v_st := S_STRING, v_sub := 0\<rparr>)"
  using plain_base [OF assms(1)] assms(2) base_st [of v S_STRING]
  by (simp add: live_from_def state_from_def str_ok_def esc_ok_def)

lemma enter_key:
  assumes "plain v" "under v True" "v_kseen_n v < json_key_seen_max"
  shows "live_from a (v\<lparr>v_st := S_KEY, v_sub := 0, v_khash := h\<rparr>)"
  using plain_base [OF assms(1)] assms(2,3) base_st [of v S_KEY]
  by (simp add: live_from_def state_from_def str_ok_def esc_ok_def)

lemma enter_lit:
  assumes "plain v" "rooted a v" "k < 3"
  shows "live_from a (v\<lparr>v_st := S_LIT, v_lit := k, v_sub := 1\<rparr>)"
  using plain_base [OF assms(1)] assms(2,3) base_st [of v S_LIT] LITS_length [OF assms(3)]
  by (simp add: live_from_def state_from_def)

lemma enter_simple:
  assumes "plain v" "rooted a v"
    "x \<in> {S_VALUE, S_NUM_MINUS, S_NUM_ZERO, S_NUM_INT, S_NUM_FRAC0, S_NUM_FRAC, S_NUM_EXP0, S_NUM_EXP1, S_NUM_EXP}"
  shows "live_from a (v\<lparr>v_st := x\<rparr>)"
  using plain_live_st [OF assms(1), of x] assms(2,3) by (auto simp: state_from_def)

lemma feed_start_live: "plain v \<Longrightarrow> feed_start v c = (r, w) \<Longrightarrow> r \<noteq> Refuse \<Longrightarrow> live_from a w"
  using open_live [of v r w] by (auto simp: feed_start_def split: if_splits)

lemma feed_value_live:
  assumes "plain v" "live_from a v" "rooted a v" "v_st v = S_ARR_FIRST \<Longrightarrow> under v False"
    "feed_value v c = (r, w)" "r \<noteq> Refuse"
  shows "live_from a w"
proof -
  note e = assms(5)
  show ?thesis
  proof (cases "v_st v = S_ARR_FIRST \<and> c = 0x5D \<and> \<not> json_is_ws c")
    case True
    have "w = value_done (v\<lparr>v_depth := v_depth v - 1\<rparr>)" using e unfolding feed_value_def if_P [OF True] by simp
    with close_array_live assms(1,4) True show ?thesis by simp
  next
    case nc: False
    show ?thesis
    proof (cases "json_is_ws c")
      case True
      with e nc assms(2) show ?thesis by (auto simp: feed_value_def)
    next
      case False
      note e' = e [unfolded feed_value_def if_not_P [OF nc] if_not_P [OF False]]
      consider "c = 0x7B \<or> c = 0x5B" | "c = 0x22" | "c = 0x74 \<or> c = 0x66 \<or> c = 0x6E"
        | "c \<noteq> 0x7B" "c \<noteq> 0x5B" "c \<noteq> 0x22" "c \<noteq> 0x74" "c \<noteq> 0x66" "c \<noteq> 0x6E" by blast
      then show ?thesis
      proof cases
        case 1
        with e' open_live [OF assms(1) _ assms(6)] show ?thesis by auto
      next
        case 2
        with e' enter_string [OF assms(1,3)] show ?thesis by simp
      next
        case 3
        with e' enter_lit [OF assms(1,3), of 0] enter_lit [OF assms(1,3), of 1] enter_lit [OF assms(1,3), of 2]
        show ?thesis by auto
      next
        case 4
        with e' assms(6) enter_simple [OF assms(1,3)] show ?thesis by (auto split: if_splits)
      qed
    qed
  qed
qed

lemma feed_key_or_end_live:
  assumes "plain v" "live_from a v" "under v True" "feed_key_or_end v c = (r, w)" "r \<noteq> Refuse"
  shows "live_from a w"
  using assms enter_key [OF assms(1,3)] close_object_live [OF assms(1,3)]
  by (auto simp: feed_key_or_end_def Let_def split: if_splits)

lemma feed_key_expect_live:
  assumes "plain v" "live_from a v" "under v True" "v_kseen_n v < json_key_seen_max" "feed_key_expect v c = (r, w)" "r \<noteq> Refuse"
  shows "live_from a w"
  using assms enter_key [OF assms(1,3,4)] by (auto simp: feed_key_expect_def split: if_splits)

lemma feed_colon_live:
  assumes "plain v" "live_from a v" "under v True" "feed_colon v c = (r, w)" "r \<noteq> Refuse"
  shows "live_from a w"
  using assms enter_simple [OF assms(1) deep_rooted, of S_VALUE a] by (auto simp: feed_colon_def under_def split: if_splits)

lemma under_top: "plain v \<Longrightarrow> 0 < v_depth v \<Longrightarrow> v_stack v ! (v_depth v - 1) = tag_of obj \<Longrightarrow> under v obj"
  using top_last [of v] by (simp add: under_def plain_def)

lemma feed_after_live:
  assumes "plain v" "live_from a v" "0 < v_depth v" "feed_after v c = (r, w)" "r \<noteq> Refuse"
  shows "live_from a w"
proof -
  let ?top = "v_stack v ! (v_depth v - 1)"
  have u: "?top = obj_tag \<Longrightarrow> under v True" "?top = arr_tag \<Longrightarrow> under v False"
    using under_top [OF assms(1,3)] by (simp_all add: tag_of_def)
  have ke: "live_from a (v\<lparr>v_st := S_KEY_EXPECT\<rparr>)" if "under v True" "\<not> json_key_seen_max \<le> v_kseen_n v"
    using plain_live_st [OF assms(1), of S_KEY_EXPECT] that by (simp add: state_from_def)
  consider "json_is_ws c" | "\<not> json_is_ws c" "?top = obj_tag" | "\<not> json_is_ws c" "?top = arr_tag"
    | "\<not> json_is_ws c" "?top \<noteq> obj_tag" "?top \<noteq> arr_tag" by blast
  then show ?thesis
  proof cases
    case 1
    with assms show ?thesis by (simp add: feed_after_def)
  next
    case 2
    with assms(3-5) u(1) ke close_object_live [OF assms(1)] show ?thesis
      by (auto simp: feed_after_def Let_def split: if_splits)
  next
    case 3
    with assms(3-5) u(2) enter_simple [OF assms(1) deep_rooted [OF assms(3)], of S_VALUE a] close_array_live [OF assms(1)] show ?thesis
      by (auto simp: feed_after_def Let_def split: if_splits)
  next
    case 4
    with assms(3-5) show ?thesis by (auto simp: feed_after_def Let_def split: if_splits)
  qed
qed

definition num_states :: "jst set" where
  "num_states = {S_NUM_MINUS, S_NUM_ZERO, S_NUM_INT, S_NUM_FRAC0, S_NUM_FRAC, S_NUM_EXP0, S_NUM_EXP1, S_NUM_EXP}"

lemma feed_number_results:
  "feed_number v c = (Refuse, v) \<or> feed_number v c = (Accept, v) \<or> feed_number v c = (Reconsume, value_done v)
    \<or> (\<exists>x \<in> num_states. feed_number v c = (Accept, v\<lparr>v_st := x\<rparr>))"
  by (cases "v_st v") (simp_all add: feed_number_def num_states_def)

lemma feed_number_live:
  assumes "plain v" "live_from a v" "rooted a v" "feed_number v c = (r, w)" "r \<noteq> Refuse"
  shows "live_from a w"
proof -
  have "live_from a (v\<lparr>v_st := x\<rparr>)" if "x \<in> num_states" for x
    using enter_simple [OF assms(1,3), of x] that by (auto simp: num_states_def)
  with feed_number_results [of v c] value_done_live [OF assms(1)] assms(2,4,5) show ?thesis by auto
qed

lemma feed_lit_live:
  assumes "plain v" "live_from a v" "v_st v = S_LIT" "feed_lit v c = (r, w)" "r \<noteq> Refuse"
  shows "live_from a w"
proof -
  let ?v = "v\<lparr>v_sub := v_sub v + 1\<rparr>"
  let ?n = "length (LITS ! v_lit v)"
  have w: "w = (if v_sub v + 1 = ?n then value_done ?v else ?v)" "v_sub v < ?n"
    using assms(4,5) by (auto simp: feed_lit_def Let_def split: if_splits)
  have "plain ?v" using assms(1) by (simp add: plain_def)
  moreover have "live_from a ?v" if "v_sub v + 1 \<noteq> ?n"
    using assms(2,3) w(2) that by (simp add: live_from_def state_from_def)
  ultimately show ?thesis using w(1) value_done_live [of ?v] by (cases "v_sub v + 1 = ?n") simp_all
qed

text \<open>Inside strings: the escape digits, the UTF-8 state and the closing quote.\<close>

definition in_str_from :: "bool \<Rightarrow> jsonv \<Rightarrow> bool" where
  "in_str_from a v \<longleftrightarrow> (v_st v = S_KEY \<or> v_st v = S_STRING) \<and> live_from a v"

abbreviation in_str :: "jsonv \<Rightarrow> bool" where
  "in_str \<equiv> in_str_from False"

lemma in_str_state:
  "in_str_from a v \<Longrightarrow> str_ok (str_state v sub esc hi u h) \<Longrightarrow> in_str_from a (str_state v sub esc hi u h)"
  by (auto simp: in_str_from_def live_from_def state_from_def)

lemma in_str_ok: "in_str_from a v \<Longrightarrow> str_ok v"
  by (auto simp: in_str_from_def live_from_def state_from_def)

lemma escape_hex_ok:
  assumes "esc_ok sub e" "2 \<le> sub" "sub \<noteq> 6" "sub \<noteq> 7" "json_escape_hex sub e c = (True, sub', e')"
  shows "esc_ok sub' e' \<and> (sub \<le> 5 \<and> 6 \<le> sub' \<longrightarrow> hi_surrogate e') \<and> (sub \<le> 5 \<longrightarrow> sub' \<le> 6)"
proof -
  have "sub \<le> 11" using assms(1) by (simp add: esc_ok_def)
  with assms(2-4) have "sub = 2 \<or> sub = 3 \<or> sub = 4 \<or> sub = 5 \<or> sub = 8 \<or> sub = 9 \<or> sub = 10 \<or> sub = 11"
    by presburger
  then consider "sub = 2" | "sub = 3" | "sub = 4" | "sub = 5" | "sub = 8" | "sub = 9" | "sub = 10" | "sub = 11"
    by blast
  then show ?thesis
  proof cases
    case 1
    with assms(5) show ?thesis by (auto simp: escape_hex_0 esc_ok_def dest: hexval_bound)
  next
    case 2
    with assms(1) have "e < 16" by (simp add: esc_ok_def)
    with 2 assms(5) show ?thesis by (auto simp: escape_hex_1 esc_ok_def dest: hexval_bound)
  next
    case 3
    with assms(1) have "e < 256" "\<not> (0xDC \<le> e \<and> e \<le> 0xDF)" by (simp_all add: esc_ok_def)
    with 3 assms(5) show ?thesis by (auto simp: escape_hex_2 esc_ok_def dest: hexval_bound)
  next
    case 4
    with assms(1) have "e < 4096" by (simp add: esc_ok_def)
    with 4 assms(5) have "sub' = (if hi_surrogate e' then 6 else 0)" by (auto simp: escape_hex_3)
    then show ?thesis using 4 by (cases "hi_surrogate e'") (simp_all add: esc_ok_def)
  next
    case 5
    with assms(5) show ?thesis by (auto simp: escape_hex_low_0 esc_ok_def)
  next
    case 6
    with assms(1) have "e = 13" by (simp add: esc_ok_def)
    with 6 assms(5) show ?thesis by (auto simp: escape_hex_low_1 esc_ok_def)
  next
    case 7
    with assms(1) have "0xDC \<le> e" "e \<le> 0xDF" by (simp_all add: esc_ok_def)
    with 7 assms(5) show ?thesis by (auto simp: escape_hex_low_2 esc_ok_def dest: hexval_bound)
  next
    case 8
    with assms(1) have "e < 4096" by (simp add: esc_ok_def)
    with 8 assms(5) show ?thesis by (auto simp: escape_hex_low_3 esc_ok_def)
  qed
qed

lemma feed_hex_live:
  assumes "in_str_from a v" "2 \<le> v_sub v" "v_sub v \<noteq> 6" "v_sub v \<noteq> 7" "feed_hex v (v_st v = S_KEY) c = (r, w)" "r \<noteq> Refuse"
  shows "live_from a w"
proof -
  obtain ok sub esc where e: "json_escape_hex (v_sub v) (v_esc v) c = (ok, sub, esc)"
    by (cases "json_escape_hex (v_sub v) (v_esc v) c") auto
  have ok: ok using feed_hex_refuse [of v c sub esc] e assms(5,6) by (cases ok) auto
  with e have e': "json_escape_hex (v_sub v) (v_esc v) c = (True, sub, esc)" by simp
  have w: "w = str_state v sub esc (hex_hi v sub esc) (v_utf8 v) (hex_hash v sub esc)"
    using feed_hex_accept [OF e'] assms(5) by simp
  have so: "str_ok v" using in_str_ok assms(1) .
  then have "esc_ok (v_sub v) (v_esc v)" by (simp add: str_ok_def)
  note eo = escape_hex_ok [OF this assms(2-4) e']
  have "str_ok w" using so eo assms(2) unfolding w by (auto simp: str_ok_def hex_hi_def)
  then show ?thesis using in_str_state assms(1) unfolding w in_str_from_def by blast
qed

lemma utf8_byte_small: "u < 8 \<Longrightarrow> json_utf8_byte u c = (True, u') \<Longrightarrow> u' < 8"
  using utf8_byte_lead_small [of c True u'] utf8_byte_cont [of u c True u'] utf8_NEXT_small [of u]
  by (cases "u = 0") auto

lemma close_key_live:
  assumes "in_str_from a v" "v_st v = S_KEY" "v_utf8 v = 0"
  shows "live_from a ((key_record v)\<lparr>v_st := S_COLON\<rparr>)"
proof -
  have l: "live_from a v" "under v True" "v_kseen_n v < json_key_seen_max" "\<not> v_done v"
    using assms live_done [of a v] by (auto simp: in_str_from_def live_from_def state_from_def)
  have b: "base_ok v" using l(1) by (simp add: live_from_def)
  then have wf: "jsonv_wf v" using base_wf assms(3) by blast
  have k: "seen (key_record v) = seen v @ [(v_depth v, v_khash v)]" "ctrs (key_record v) = ctrs v"
    "v_depth (key_record v) = v_depth v" "\<not> v_done (key_record v)" "jsonv_wf (key_record v)"
    using key_record_view [OF wf l(4,3)] by simp_all
  have len: "length (ctrs v) = v_depth v" using length_ctrs [OF wf] .
  have top: "ctrs v ! (v_depth v - 1) = obj_tag" "0 < v_depth v"

  proof -
    show "0 < v_depth v" using l(2) by (simp add: under_def)
    then have "ctrs v \<noteq> []" using len by auto
    with l(2) len show "ctrs v ! (v_depth v - 1) = obj_tag" by (simp add: under_def tag_of_def last_conv_nth)
  qed
  have "tags_ok v" using b by (simp add: base_ok_def)
  then have "tags_ok (key_record v)" using top unfolding tags_ok_def k by auto
  then have p: "plain (key_record v)" using k by (simp add: plain_def)
  have "under (key_record v) True" using l(2) k by (simp add: under_def)
  then show ?thesis using plain_live_st [OF p, of S_COLON] by (simp add: state_from_def)
qed

lemma close_string_live:
  assumes "in_str_from a v" "v_st v = S_STRING" "v_utf8 v = 0"
  shows "live_from a (value_done v)"
proof -
  have "base_ok v" "\<not> v_done v" using assms live_done [of a v] by (auto simp: in_str_from_def live_from_def)
  then have "plain v" using base_wf [of v] assms(3) by (simp add: plain_def) (simp add: base_ok_def)
  then show ?thesis by (rule value_done_live)
qed

lemma feed_string_live:
  assumes "in_str_from a v" "feed_string v c = (r, w)" "r \<noteq> Refuse"
  shows "live_from a w"
proof -
  have so: "str_ok v" using in_str_ok assms(1) .
  have upd: "live_from a (str_state v sub esc hi u h)" if "str_ok (str_state v sub esc hi u h)" for sub esc hi u h
    using in_str_state [OF assms(1) that] by (simp add: in_str_from_def)
  consider (bs) "v_sub v = 1" | (six) "v_sub v = 6" | (seven) "v_sub v = 7"
    | (hex) "2 \<le> v_sub v" "v_sub v \<noteq> 6" "v_sub v \<noteq> 7"
    | (quote) "v_sub v = 0" "v_utf8 v = 0" "c = 0x22" | (slash) "v_sub v = 0" "v_utf8 v = 0" "c = 0x5C"
    | (ctl) "v_sub v = 0" "v_utf8 v = 0" "c \<noteq> 0x22" "c \<noteq> 0x5C" "c < 0x20"
    | (raw) "v_sub v = 0" "v_utf8 v \<noteq> 0 \<or> c \<noteq> 0x22 \<and> c \<noteq> 0x5C \<and> \<not> c < 0x20" by linarith
  then show ?thesis
  proof cases
    case bs
    then have u: "v_utf8 v = 0" using so by (auto simp: str_ok_def)
    have "feed_backslash v (v_st v = S_KEY) c = (r, w)" using assms(2) feed_string_1 [OF bs] by simp
    then have "\<exists>s h. w = str_state v s (v_esc v) (v_esc_hi v) (v_utf8 v) h \<and> (s = 0 \<or> s = 2)"
      using assms(3) by (auto simp: feed_backslash_def Let_def str_state_updates split: if_splits)
    then show ?thesis using u upd by (auto simp: str_ok_def esc_ok_def)
  next
    case six
    then have u: "v_utf8 v = 0" using so by (auto simp: str_ok_def)
    from assms(2,3) six have "w = str_state v 7 (v_esc v) (v_esc_hi v) (v_utf8 v) (v_khash v)"
      by (auto simp: feed_string_6 str_state_updates split: if_splits)
    then show ?thesis using u six so upd [of 7] by (simp add: str_ok_def esc_ok_def)
  next
    case seven
    then have u: "v_utf8 v = 0" using so by (auto simp: str_ok_def)
    from assms(2,3) seven have "w = str_state v 8 (v_esc v) (v_esc_hi v) (v_utf8 v) (v_khash v)"
      by (auto simp: feed_string_7 str_state_updates split: if_splits)
    then show ?thesis using u seven so upd [of 8] by (simp add: str_ok_def esc_ok_def)
  next
    case hex
    then have "feed_string v c = feed_hex v (v_st v = S_KEY) c" by (simp add: feed_string_def)
    with feed_hex_live [OF assms(1) hex] assms(2,3) show ?thesis by simp
  next
    case quote
    show ?thesis
    proof (cases "v_st v = S_KEY")
      case True
      with quote assms(2,3) have "w = (key_record v)\<lparr>v_st := S_COLON\<rparr>"
        by (auto simp: feed_string_def split: if_splits)
      with close_key_live [OF assms(1) True quote(2)] show ?thesis by simp
    next
      case False
      then have "v_st v = S_STRING" using assms(1) by (auto simp: in_str_from_def)
      moreover have "w = value_done v" using False quote assms(2) by (simp add: feed_string_def)
      ultimately show ?thesis using close_string_live [OF assms(1) _ quote(2)] by simp
    qed
  next
    case slash
    with assms(2) have "w = str_state v 1 (v_esc v) (v_esc_hi v) (v_utf8 v) (v_khash v)"
      by (auto simp: feed_string_def str_state_updates)
    then show ?thesis using slash upd by (simp add: str_ok_def esc_ok_def)
  next
    case ctl
    with assms(2,3) show ?thesis by (auto simp: feed_string_def)
  next
    case raw
    obtain ok u where u: "json_utf8_byte (v_utf8 v) c = (ok, u)" by (cases "json_utf8_byte (v_utf8 v) c") auto
    from feed_string_plain [OF raw u] assms(2,3) have ok: ok
      and w: "w = str_state v 0 (v_esc v) (v_esc_hi v) u (key_hash_after v [c])" by (auto split: if_splits)
    have "u < 8" using utf8_byte_small [of "v_utf8 v" c u] u ok so by (simp add: str_ok_def)
    then show ?thesis unfolding w by (intro upd) (simp add: str_ok_def esc_ok_def)
  qed
qed

lemma live_rooted: "live_from a v \<Longrightarrow> v_st v \<noteq> S_START \<Longrightarrow> v_st v \<noteq> S_DONE \<Longrightarrow> rooted a v"
  by (cases "v_st v") (auto simp: live_from_def state_from_def under_def rooted_def)

lemma live_depth: "live v \<Longrightarrow> v_st v \<noteq> S_START \<Longrightarrow> v_st v \<noteq> S_DONE \<Longrightarrow> 0 < v_depth v"
  using live_rooted [of False v] by (simp add: rooted_def)

lemma feed_byte_live:
  assumes "live_from a v" "feed_byte v c = (r, w)" "r \<noteq> Refuse"
  shows "live_from a w"
proof (cases "v_st v = S_KEY \<or> v_st v = S_STRING")
  case True
  then have "in_str_from a v" "feed_byte v c = feed_string v c" using assms(1) by (auto simp: in_str_from_def feed_byte_def)
  with feed_string_live assms show ?thesis by metis
next
  case ns: False
  show ?thesis
  proof (cases "v_st v = S_DONE")
    case True
    with assms(2,3) show ?thesis by (simp add: feed_byte_def)
  next
    case False
    with ns live_plain assms(1) have p: "plain v" by simp
    have st: "state_from a v" using assms(1) by (simp add: live_from_def)
    note d = live_rooted [OF assms(1) _ False]
    show ?thesis
    proof (cases "v_st v \<in> num_states")
      case True
      then have "feed_byte v c = feed_number v c" "v_st v \<noteq> S_START" by (auto simp: feed_byte_def num_states_def)
      with feed_number_live [OF p assms(1) d] assms(2,3) show ?thesis by simp
    next
      case nn: False
      note nn' = nn [unfolded num_states_def]
      show ?thesis
      proof (cases "v_st v")
        case S_START
        with feed_start_live [OF p _ assms(3)] assms(2) show ?thesis by (simp add: feed_byte_def)
      next
        case S_VALUE
        with feed_value_live [OF p assms(1) d _ _ assms(3)] assms(2) show ?thesis by (simp add: feed_byte_def)
      next
        case S_ARR_FIRST
        then have "under v False" using st by (simp add: state_from_def)
        with S_ARR_FIRST feed_value_live [OF p assms(1) d _ _ assms(3)] assms(2) show ?thesis by (simp add: feed_byte_def)
      next
        case S_KEY_OR_END
        then have "under v True" using st by (simp add: state_from_def)
        with S_KEY_OR_END feed_key_or_end_live [OF p assms(1) _ _ assms(3)] assms(2) show ?thesis
          by (simp add: feed_byte_def)
      next
        case S_KEY_EXPECT
        then have "under v True" "v_kseen_n v < json_key_seen_max" using st by (simp_all add: state_from_def)
        with S_KEY_EXPECT feed_key_expect_live [OF p assms(1) _ _ _ assms(3)] assms(2) show ?thesis
          by (simp add: feed_byte_def)
      next
        case S_COLON
        then have "under v True" using st by (simp add: state_from_def)
        with S_COLON feed_colon_live [OF p assms(1) _ _ assms(3)] assms(2) show ?thesis by (simp add: feed_byte_def)
      next
        case S_AFTER
        then have "0 < v_depth v" using st by (simp add: state_from_def)
        with S_AFTER feed_after_live [OF p assms(1) _ _ assms(3)] assms(2) show ?thesis by (simp add: feed_byte_def)
      next
        case S_LIT
        with feed_lit_live [OF p assms(1) S_LIT _ assms(3)] assms(2) show ?thesis by (simp add: feed_byte_def)
      qed (use ns False nn' in simp_all)
    qed
  qed
qed

lemma feed_live:
  "jsonv_feed v s = (True, w) \<Longrightarrow> live_from a v \<Longrightarrow> live_from a w"
proof (induction v s rule: jsonv_feed.induct)
  case (2 v c s)
  obtain r v1 where f: "feed_byte v c = (r, v1)" by (cases "feed_byte v c")
  show ?case
  proof (cases r)
    case Refuse
    with f "2.prems" show ?thesis by simp
  next
    case Accept
    with f "2.prems" feed_byte_live [OF _ f] "2.IH"(1) [OF f [symmetric]] show ?thesis by simp
  next
    case Reconsume
    then have l1: "live_from a v1" using feed_byte_live [OF "2.prems"(2) f] by simp
    obtain r2 v2 where f2: "feed_byte v1 c = (r2, v2)" by (cases "feed_byte v1 c")
    with f Reconsume "2.prems" have r2: "r2 \<noteq> Refuse" by (cases r2) auto
    have l2: "live_from a v2" using feed_byte_live [OF l1 f2 r2] .
    have "jsonv_feed v2 s = (True, w)" using "2.prems"(1) f f2 Reconsume r2 by (cases r2) auto
    with f f2 Reconsume r2 l2 "2.IH" show ?thesis by (cases r2) auto
  qed
qed simp

lemma init_live: "jsonv_memory m \<Longrightarrow> live (jsonv_init m)"
  by (simp add: jsonv_memory_def jsonv_init_def live_from_def base_ok_def tags_ok_def state_from_def ctrs_def seen_def)

lemma nested_live:
  assumes "jsonv_memory m"
  shows "live_from (\<not> obj) (jsonv_init_nested m obj outer)"
  using assms
  by (cases obj) (simp_all add: jsonv_init_nested_def jsonv_init_any_def Let_def jsonv_memory_def jsonv_init_def
      live_from_def base_ok_def tags_ok_def state_from_def rooted_def ctrs_def seen_def)

subsection \<open>The floor of a nested machine\<close>

text \<open>
  What a step may do to the count of open containers: the floor stays, and the sum stays within the
  bound, because only \<open>push\<close> opens a container and it counts the floor.
\<close>

definition floored :: "jsonv \<Rightarrow> jsonv \<Rightarrow> bool" where
  "floored v w \<longleftrightarrow> v_floor w = v_floor v
     \<and> (v_depth v + v_floor v \<le> json_max_container_depth \<longrightarrow> v_depth w + v_floor w \<le> json_max_container_depth)"

lemma floored_same: "v_floor w = v_floor v \<Longrightarrow> v_depth w \<le> v_depth v \<Longrightarrow> floored v w"
  by (simp add: floored_def)

lemma floored_trans: "floored u v \<Longrightarrow> floored v w \<Longrightarrow> floored u w"
  unfolding floored_def by metis

lemma push_floored:
  assumes "v_floor v1 = v_floor v" "v_depth v1 = v_depth v"
  shows "floored v (snd (accept_if (push v1 c)))"
  using assms by (auto simp: accept_if_def push_def floored_def)

lemma value_done_fields [simp]: "v_floor (value_done v) = v_floor v" "v_depth (value_done v) = v_depth v"
  by (simp_all add: value_done_def)

lemma drop_keys_fields: "v_floor (drop_keys v d) = v_floor v" "v_depth (drop_keys v d) = v_depth v"
  by (simp_all add: drop_keys_def split: prod.split)

lemma key_record_fields: "v_floor (key_record v) = v_floor v" "v_depth (key_record v) = v_depth v"
  by (simp_all add: key_record_def)

lemma both_branches: "P x \<Longrightarrow> P y \<Longrightarrow> P (if b then x else y)"
  by simp

lemma feed_string_fields:
  "v_floor (snd (feed_string v c)) = v_floor v \<and> v_depth (snd (feed_string v c)) = v_depth v"
proof -
  have b: "v_floor (snd (feed_backslash v k c)) = v_floor v \<and> v_depth (snd (feed_backslash v k c)) = v_depth v" for k c
    by (simp add: feed_backslash_def Let_def)
  have h: "v_floor (snd (feed_hex v k c)) = v_floor v \<and> v_depth (snd (feed_hex v k c)) = v_depth v" for k c
  proof (cases "json_escape_hex (v_sub v) (v_esc v) c")
    case (fields ok sub esc)
    then show ?thesis by (simp add: feed_hex_def Let_def)
  qed
  obtain ok u where u: "json_utf8_byte (v_utf8 v) c = (ok, u)" by (cases "json_utf8_byte (v_utf8 v) c")
  show ?thesis
    unfolding feed_string_def Let_def u prod.case
    by (rule both_branches [where P = "\<lambda>r. v_floor (snd r) = v_floor v \<and> v_depth (snd r) = v_depth v"])+
       (simp_all add: b h key_record_fields)
qed

lemma feed_byte_floored: "floored v (snd (feed_byte v c))"
proof -
  have st: "floored v (snd (feed_start v c))"
    using push_floored [of "v\<lparr>v_st := S_KEY_OR_END\<rparr>" v obj_tag] by (simp add: feed_start_def floored_same)
  have va: "floored v (snd (feed_value v c))"
    using push_floored [of "v\<lparr>v_st := S_KEY_OR_END\<rparr>" v obj_tag] push_floored [of "v\<lparr>v_st := S_ARR_FIRST\<rparr>" v arr_tag]
    by (simp add: feed_value_def floored_same)
  have ke: "floored v (snd (feed_key_or_end v c))" "floored v (snd (feed_key_expect v c))"
    "floored v (snd (feed_colon v c))" "floored v (snd (feed_lit v c))" "floored v (snd (feed_after v c))"
    by (simp_all add: feed_key_or_end_def feed_key_expect_def feed_colon_def feed_lit_def feed_after_def Let_def
        drop_keys_fields floored_same)
  have nu: "floored v (snd (feed_number v c))"
    using feed_number_results [of v c] by (auto intro: floored_same)
  have "floored v (snd (feed_string v c))"
    using feed_string_fields [of v c] by (simp add: floored_same)
  with st va ke nu show ?thesis by (cases "v_st v") (simp_all add: feed_byte_def floored_same)
qed

lemma feed_floored: "floored v (snd (jsonv_feed v s))"
proof (induction v s rule: jsonv_feed.induct)
  case (1 v)
  then show ?case by (simp add: floored_same)
next
  case (2 v c s)
  obtain r v1 where f: "feed_byte v c = (r, v1)" by (cases "feed_byte v c")
  have f1: "floored v v1" using feed_byte_floored [of v c] f by simp
  show ?case
  proof (cases r)
    case Refuse
    with f f1 show ?thesis by simp
  next
    case Accept
    with f f1 "2.IH"(1) [OF f [symmetric]] show ?thesis by (auto intro: floored_trans)
  next
    case Reconsume
    obtain r2 v2 where f2: "feed_byte v1 c = (r2, v2)" by (cases "feed_byte v1 c")
    have "floored v v2" using feed_byte_floored [of v1 c] f1 f2 by (auto intro: floored_trans)
    with f f2 Reconsume "2.IH" show ?thesis by (cases r2) (auto intro: floored_trans)
  qed
qed

lemma starts_nested:
  "jsonv_init m = jsonv_init_nested m True 0" "jsonv_init_any m = jsonv_init_nested m False 0"
  by (simp_all add: jsonv_init_nested_def jsonv_init_any_def jsonv_init_def Let_def)

lemma nested_floor:
  "v_floor (jsonv_init_nested m obj outer) = nat (min (max outer 0) 127)"
  "v_depth (jsonv_init_nested m obj outer) = 0"
  by (auto simp: jsonv_init_nested_def jsonv_init_any_def jsonv_init_def Let_def
      json_max_container_depth_def json_max_depth_def min_def max_def)

text \<open>
  Property C25. Every state the validator reaches by accepted bytes, from any of its starts,
  satisfies the invariant of that start: the guard holds at most 24 keys, each entry belongs to an
  open object, the digits of an escape in progress and the pending surrogate are in range, a key is
  open only while the guard has room for it, and a value stands outside every container only in a
  machine started on a value. The floor stays what the start made of \<open>outer_containers\<close>, clamped to
  0..127, and the containers open in both documents together are at most 127. \<open>jsonv_init\<close> and
  \<open>jsonv_init_any\<close> are the two nested starts with no outer container.
\<close>

theorem reachable_live:
  assumes "jsonv_memory m" "jsonv_feed (jsonv_init_nested m object_rooted outer) s = (True, v)"
  shows "live_from (\<not> object_rooted) v
    \<and> v_floor v = nat (min (max outer 0) 127) \<and> v_depth v + v_floor v \<le> 127
    \<and> jsonv_init m = jsonv_init_nested m True 0 \<and> jsonv_init_any m = jsonv_init_nested m False 0"
proof -
  have "live_from (\<not> object_rooted) v" using feed_live [OF assms(2) nested_live [OF assms(1)]] .
  moreover have "floored (jsonv_init_nested m object_rooted outer) v"
    using feed_floored [of "jsonv_init_nested m object_rooted outer" s] assms(2) by simp
  moreover have "nat (min (max outer 0) 127) \<le> 127" by simp
  ultimately show ?thesis using nested_floor [of m object_rooted outer]
    by (simp add: floored_def starts_nested json_max_container_depth_def json_max_depth_def)
qed

text \<open>
  The document {"a":[1],..} from \<open>jsonv_init\<close>, and the value [1 inside 126 outer containers, one
  below the bound; a further container would be refused.
\<close>

lemma value0_accepted:
  "fst (jsonv_feed (jsonv_init_nested memory0 False 126) [0x5B, 0x31])
   \<and> \<not> fst (jsonv_feed (jsonv_init_nested memory0 False 126) [0x5B, 0x5B])"
  by code_simp

theorem reachable_live_witness:
  "live (snd (jsonv_feed (jsonv_init memory0) doc0))
   \<and> v_floor (snd (jsonv_feed (jsonv_init_nested memory0 False 126) [0x5B, 0x31])) = 126
   \<and> live_from True (snd (jsonv_feed (jsonv_init_nested memory0 False 126) [0x5B, 0x31]))"
proof -
  have "live (snd (jsonv_feed (jsonv_init memory0) doc0))"
    using reachable_live [OF memory0_ok, of True 0 doc0] doc0_accepted
    by (cases "jsonv_feed (jsonv_init memory0) doc0") (auto simp: starts_nested)
  then show ?thesis
    using reachable_live [OF memory0_ok, of False 126 "[0x5B, 0x31]"] value0_accepted
    by (cases "jsonv_feed (jsonv_init_nested memory0 False 126) [0x5B, 0x31]") auto
qed

end
