(* ===== verification/Json_Trial.thy ===== *)
theory Json_Trial
  imports Json_Live
begin

section \<open>Trials do not depend on the scratch state\<close>

text \<open>
  \<open>jsonv_snapshot\<close> copies only the live prefix of the validator's arrays, so a trial runs on
  a state whose dead slots hold whatever the scratch held before. \<open>twin\<close> relates two states
  that differ in dead slots only; every step of the validator takes twins to twins with the
  same answer.
\<close>

definition agree :: "nat \<Rightarrow> 'a list \<Rightarrow> 'a list \<Rightarrow> bool" where
  "agree n xs ys \<longleftrightarrow> length ys = length xs \<and> n \<le> length xs \<and> (\<forall>i < n. ys ! i = xs ! i)"

lemma agree_nth: "agree n xs ys \<Longrightarrow> i < n \<Longrightarrow> ys ! i = xs ! i"
  by (simp add: agree_def)

lemma agree_less: "agree n xs ys \<Longrightarrow> m \<le> n \<Longrightarrow> agree m xs ys"
  by (auto simp: agree_def)

lemma agree_push: "agree n xs ys \<Longrightarrow> n < length xs \<Longrightarrow> agree (Suc n) (xs[n := x]) (ys[n := x])"
  by (auto simp: agree_def nth_list_update less_Suc_eq)

lemma agree_update: "agree n xs ys \<Longrightarrow> agree n (xs[k := x]) (ys[k := x])"
  by (cases "k < length xs") (auto simp: agree_def nth_list_update)

definition twin :: "jsonv \<Rightarrow> jsonv \<Rightarrow> bool" where
  "twin v w \<longleftrightarrow> v_depth w = v_depth v \<and> v_floor w = v_floor v \<and> v_st w = v_st v \<and> v_sub w = v_sub v
     \<and> v_lit w = v_lit v \<and> v_utf8 w = v_utf8 v \<and> v_done w = v_done v \<and> v_esc w = v_esc v
     \<and> v_esc_hi w = v_esc_hi v \<and> v_khash w = v_khash v \<and> v_kseen_n w = v_kseen_n v
     \<and> length (v_stack v) = json_max_container_depth
     \<and> length (v_kseen_hash v) = json_key_seen_max \<and> length (v_kseen_depth v) = json_key_seen_max
     \<and> agree (v_depth v) (v_stack v) (v_stack w)
     \<and> agree (v_kseen_n v) (v_kseen_hash v) (v_kseen_hash w)
     \<and> agree (v_kseen_n v) (v_kseen_depth v) (v_kseen_depth w)"

lemma twin_fields:
  assumes "twin v w"
  shows "v_depth w = v_depth v" "v_floor w = v_floor v" "v_st w = v_st v" "v_sub w = v_sub v" "v_lit w = v_lit v"
    "v_utf8 w = v_utf8 v" "v_done w = v_done v" "v_esc w = v_esc v" "v_esc_hi w = v_esc_hi v"
    "v_khash w = v_khash v" "v_kseen_n w = v_kseen_n v"
  using assms by (simp_all add: twin_def)

lemma twin_updates:
  assumes "twin v w"
  shows "twin (v\<lparr>v_st := a\<rparr>) (w\<lparr>v_st := a\<rparr>)" "twin (v\<lparr>v_sub := b\<rparr>) (w\<lparr>v_sub := b\<rparr>)"
    "twin (v\<lparr>v_lit := b\<rparr>) (w\<lparr>v_lit := b\<rparr>)" "twin (v\<lparr>v_utf8 := b\<rparr>) (w\<lparr>v_utf8 := b\<rparr>)"
    "twin (v\<lparr>v_done := c\<rparr>) (w\<lparr>v_done := c\<rparr>)" "twin (v\<lparr>v_esc := b\<rparr>) (w\<lparr>v_esc := b\<rparr>)"
    "twin (v\<lparr>v_esc_hi := b\<rparr>) (w\<lparr>v_esc_hi := b\<rparr>)" "twin (v\<lparr>v_khash := h\<rparr>) (w\<lparr>v_khash := h\<rparr>)"
    "twin (v\<lparr>v_depth := v_depth v - Suc 0\<rparr>) (w\<lparr>v_depth := v_depth v - Suc 0\<rparr>)"
  using assms agree_less [of "v_depth v" "v_stack v" "v_stack w" "v_depth v - 1"] by (simp_all add: twin_def)

lemma twin_value_done: "twin v w \<Longrightarrow> twin (value_done v) (value_done w)"
  by (simp add: value_done_def twin_fields twin_updates)

lemma twin_push:
  assumes "twin v w"
  shows "fst (push w c) = fst (push v c) \<and> twin (snd (push v c)) (snd (push w c))"
  using assms agree_push [of "v_depth v" "v_stack v" "v_stack w" c]
  by (simp add: push_def twin_def)

lemma drop_loop_agree:
  "agree n hs hs' \<Longrightarrow> agree n ds ds' \<Longrightarrow> w \<le> i \<Longrightarrow> i \<le> n \<Longrightarrow>
   drop_loop n dep i w hs ds = (m, a, b) \<Longrightarrow>
   \<exists>a' b'. drop_loop n dep i w hs' ds' = (m, a', b') \<and> agree n a a' \<and> agree n b b' \<and> m \<le> n
     \<and> length a = length hs \<and> length b = length ds"
proof (induction n dep i w hs ds arbitrary: hs' ds' m a b rule: drop_loop.induct)
  case (1 n dep i w hs ds)
  show ?case
  proof (cases "i < n")
    case False
    have "drop_loop n dep i w xs ys = (w, xs, ys)" for xs ys
      using False by (simp add: drop_loop.simps [of n dep i])
    with 1 False show ?thesis by auto
  next
    case True
    with 1(3,4) have e: "hs' ! i = hs ! i" "ds' ! i = ds ! i" by (simp_all add: agree_nth)
    show ?thesis
    proof (cases "ds ! i = dep")
      case eq: True
      have "drop_loop n dep (i + 1) w hs ds = (m, a, b)"
        using 1(7) True eq by (simp add: drop_loop.simps [of n dep i])
      from "1.IH"(2) [OF True _ 1(3,4) _ _ this] 1(5) True eq e show ?thesis
        by (simp add: drop_loop.simps [of n dep i w hs'])
    next
      case ne: False
      have "drop_loop n dep (i + 1) (w + 1) (hs[w := hs ! i]) (ds[w := ds ! i]) = (m, a, b)"
        using 1(7) True ne by (simp add: drop_loop.simps [of n dep i])
      from "1.IH"(1) [OF True ne agree_update [OF 1(3)] agree_update [OF 1(4)] _ _ this] 1(5) True ne e
      show ?thesis by (simp add: drop_loop.simps [of n dep i w hs'])
    qed
  qed
qed

lemma twin_drop_keys:
  assumes "twin v w"
  shows "twin (drop_keys v d) (drop_keys w d)"
proof (cases "v_kseen_n v = 0")
  case True
  with assms show ?thesis by (simp add: drop_keys_def twin_fields)
next
  case False
  obtain m a b where l: "drop_loop (v_kseen_n v) (d mod 256) 0 0 (v_kseen_hash v) (v_kseen_depth v) = (m, a, b)"
    using prod_cases3 by blast
  have n: "v_kseen_n v \<le> json_key_seen_max" using assms by (auto simp: twin_def agree_def)
  from drop_loop_agree [OF _ _ _ _ l, of "v_kseen_hash w" "v_kseen_depth w"] assms
  obtain a' b' where l': "drop_loop (v_kseen_n v) (d mod 256) 0 0 (v_kseen_hash w) (v_kseen_depth w) = (m, a', b')"
    "agree (v_kseen_n v) a a'" "agree (v_kseen_n v) b b'" "m \<le> v_kseen_n v"
    "length a = json_key_seen_max" "length b = json_key_seen_max" by (auto simp: twin_def)
  from n l'(4) have "m mod 256 = m" by (simp add: json_key_seen_max_def)
  with False l l' assms agree_less [OF l'(2) l'(4)] agree_less [OF l'(3) l'(4)] show ?thesis
    by (simp add: drop_keys_def twin_def)
qed

lemma twin_key_seen:
  assumes "twin v w"
  shows "key_seen w h = key_seen v h"
proof -
  have "v_kseen_depth w ! i = v_kseen_depth v ! i \<and> v_kseen_hash w ! i = v_kseen_hash v ! i"
    if "i < v_kseen_n v" for i
    using assms that by (auto simp: twin_def agree_def)
  then show ?thesis using twin_fields [OF assms] by (auto simp: key_seen_def list_ex_iff)
qed

lemma twin_key_record:
  assumes "twin v w"
  shows "twin (key_record v) (key_record w)"
  using assms agree_push [of "v_kseen_n v" "v_kseen_hash v" "v_kseen_hash w" "v_khash v"]
    agree_push [of "v_kseen_n v" "v_kseen_depth v" "v_kseen_depth w" "v_depth v mod 256"]
  by (auto simp: key_record_def twin_def)

lemma twin_top: "twin v w \<Longrightarrow> v_depth v > 0 \<Longrightarrow> v_stack w ! (v_depth v - 1) = v_stack v ! (v_depth v - 1)"
  by (auto simp: twin_def intro: agree_nth)

subsection \<open>One byte\<close>

definition same_step :: "fres \<times> jsonv \<Rightarrow> fres \<times> jsonv \<Rightarrow> bool" where
  "same_step r r' \<longleftrightarrow> fst r' = fst r \<and> twin (snd r) (snd r')"

lemma same_step_pair [simp]: "same_step (r, v) (r', w) \<longleftrightarrow> r' = r \<and> twin v w"
  by (simp add: same_step_def)

lemma same_push: "twin v w \<Longrightarrow> same_step (accept_if (push v c)) (accept_if (push w c))"
  using twin_push [of v w c] by (simp add: accept_if_def)

lemmas twins = twin_fields twin_updates twin_value_done twin_drop_keys twin_key_record twin_key_seen same_push

lemma twin_drop_close:
  "twin v w \<Longrightarrow> twin (value_done ((drop_keys v d)\<lparr>v_depth := v_depth (drop_keys v d) - Suc 0\<rparr>))
     (value_done ((drop_keys w d)\<lparr>v_depth := v_depth (drop_keys w d) - Suc 0\<rparr>))"
  using twin_updates(9) [OF twin_drop_keys, of v w d] twin_fields(1) [OF twin_drop_keys, of v w d]
  by (simp add: twin_value_done)

lemma twin_close:
  "twin v w \<Longrightarrow> twin (value_done (v\<lparr>v_depth := v_depth v - Suc 0\<rparr>)) (value_done (w\<lparr>v_depth := v_depth v - Suc 0\<rparr>))"
  using twin_updates(9) [of v w] by (simp add: twin_value_done)

lemma same_start: "twin v w \<Longrightarrow> same_step (feed_start v c) (feed_start w c)"
  by (simp add: feed_start_def twins)

lemma same_value:
  assumes "twin v w"
  shows "same_step (feed_value v c) (feed_value w c)"
proof (cases "v_st v = S_ARR_FIRST \<and> c = 0x5D \<and> \<not> json_is_ws c")
  case True
  with assms show ?thesis by (simp add: feed_value_def twins twin_close)
next
  case False
  with assms show ?thesis unfolding feed_value_def twin_fields [OF assms] if_not_P [OF False]
    by (simp add: twins)
qed

lemma same_key_or_end: "twin v w \<Longrightarrow> same_step (feed_key_or_end v c) (feed_key_or_end w c)"
  by (simp add: feed_key_or_end_def twins twin_drop_close Let_def)

lemma same_key_expect: "twin v w \<Longrightarrow> same_step (feed_key_expect v c) (feed_key_expect w c)"
  by (simp add: feed_key_expect_def twins)

lemma same_colon: "twin v w \<Longrightarrow> same_step (feed_colon v c) (feed_colon w c)"
  by (simp add: feed_colon_def twins)

lemma same_backslash: "twin v w \<Longrightarrow> same_step (feed_backslash v key c) (feed_backslash w key c)"
  by (simp add: feed_backslash_def twins Let_def)

lemma same_hex: "twin v w \<Longrightarrow> same_step (feed_hex v key c) (feed_hex w key c)"
  by (auto simp: feed_hex_def twins Let_def split: prod.split)

lemma same_string: "twin v w \<Longrightarrow> same_step (feed_string v c) (feed_string w c)"
  by (auto simp: feed_string_def twins Let_def same_backslash same_hex split: prod.split)

lemma same_after:
  assumes "twin v w"
  shows "same_step (feed_after v c) (feed_after w c)"
proof -
  have "(if v_depth w > 0 then v_stack w ! (v_depth w - 1) else 0) = (if v_depth v > 0 then v_stack v ! (v_depth v - 1) else 0)"
    using assms twin_top by (simp add: twin_fields)
  then show ?thesis using assms twin_close [OF assms] twin_drop_close [OF assms, of "v_depth v"]
    by (simp add: feed_after_def twins Let_def cong: if_cong)
qed

lemma same_number: "twin v w \<Longrightarrow> same_step (feed_number v c) (feed_number w c)"
  by (cases "v_st v") (simp_all add: feed_number_def twins)

lemma same_lit: "twin v w \<Longrightarrow> same_step (feed_lit v c) (feed_lit w c)"
  by (simp add: feed_lit_def twins Let_def)

lemma same_feed_byte:
  assumes "twin v w"
  shows "same_step (feed_byte v c) (feed_byte w c)"
  using assms by (cases "v_st v") (simp_all add: feed_byte_def twins same_start same_value same_key_or_end
      same_key_expect same_string same_colon same_after same_number same_lit)

lemma same_feed: "twin v w \<Longrightarrow> fst (jsonv_feed w s) = fst (jsonv_feed v s)"
proof (induction s arbitrary: v w)
  case (Cons c s)
  obtain r v1 where f: "feed_byte v c = (r, v1)" by (cases "feed_byte v c")
  with same_feed_byte [OF Cons.prems, of c] obtain w1 where g: "feed_byte w c = (r, w1)" "twin v1 w1"
    by (cases "feed_byte w c") auto
  show ?case
  proof (cases r)
    case Reconsume
    obtain r2 v2 where f2: "feed_byte v1 c = (r2, v2)" by (cases "feed_byte v1 c")
    with same_feed_byte [OF g(2), of c] obtain w2 where "feed_byte w1 c = (r2, w2)" "twin v2 w2"
      by (cases "feed_byte w1 c") auto
    with f f2 g Reconsume Cons.IH show ?thesis by (cases r2) auto
  qed (use f g Cons.IH in auto)
qed simp

lemma snapshot_twin:
  assumes "live v" "jsonv_memory scratch"
  shows "twin v (jsonv_snapshot scratch v)"
  using assms
  by (auto simp: twin_def jsonv_snapshot_def jsonv_memory_def live_from_def base_ok_def Let_def agree_def nth_append)

text \<open>
  Property C29. A trial of some bytes on a snapshot answers what feeding the validator itself would
  answer, in every state the validator reaches and whatever the scratch state held before: the
  bounded copy of \<open>jsonv_snapshot\<close> carries everything the machine reads.
\<close>

theorem trial_is_feed:
  assumes "live v" "jsonv_memory scratch"
  shows "jsonv_trial v scratch s = fst (jsonv_feed v s)"
  using same_feed [OF snapshot_twin [OF assms], of s] by (simp add: jsonv_trial_def)

text \<open>A scratch state full of junk.\<close>

definition junk :: jsonv where
  "junk = memory0\<lparr>v_stack := replicate 127 0x5A, v_depth := 90, v_st := S_LIT, v_kseen_n := 24,
     v_kseen_hash := replicate 24 1\<rparr>"

theorem trial_is_feed_witness: "jsonv_trial (jsonv_init memory0) junk doc0"
proof -
  have "jsonv_memory junk" using memory0_ok by (simp add: junk_def jsonv_memory_def json_max_container_depth_def
      json_max_depth_def json_key_seen_max_def)
  from trial_is_feed [OF init_live [OF memory0_ok] this, of doc0] doc0_accepted show ?thesis by simp
qed

end
