(* ===== verification/Json_Close.thy ===== *)
theory Json_Close
  imports Json_Live
begin

section \<open>Closing a document that was cut off (src/src/jsonmode.c)\<close>

text \<open>
  When the token budget runs out, \<open>jsonv_close\<close> writes what is missing: the rest of an escape,
  of a UTF-8 character, of a literal or number, a value, and the open containers. The lemmas show
  that the machine itself accepts what is written and ends done, so that the completed document is
  one the parser reads. The loop that extends a duplicate key always finds a fresh hash.

  \<open>EMIT\<close> drops what does not fit: the text is built whole and cut to \<open>cap - 1\<close> bytes.
\<close>

subsection \<open>The closers of an escape and of a UTF-8 character\<close>

fun utf8_close_loop :: "nat \<Rightarrow> nat \<Rightarrow> bytes \<times> nat" where
  "utf8_close_loop 0 state = ([], state)"
| "utf8_close_loop (Suc n) state =
    (if state = 0 then ([], 0)
     else case utf8_close_loop n (utf8_NEXT ! state) of (t, s) \<Rightarrow> (utf8_LO ! state # t, s))"

definition json_utf8_close :: "nat \<Rightarrow> bytes \<times> nat" where
  "json_utf8_close state = utf8_close_loop 3 state"

text \<open>The digits that complete the first half, and the code unit they make.\<close>

definition close_digits :: "nat \<Rightarrow> nat \<Rightarrow> bytes \<times> nat" where
  "close_digits sub esc =
    (let nth = sub - 2;
         cp = push_bit (4 * (4 - nth)) (if nth \<noteq> 0 then esc else 0) mod 2 ^ 16
     in if cp = 0 then (replicate (3 - nth) 0x30 @ [0x31], 1)
        else (replicate (4 - nth) 0x30, cp))"

text \<open>The low half: the digits \<^verbatim>\<open>LOW\<close> from the next one on, and its value.\<close>

definition LOW :: bytes where
  "LOW = [0x44, 0x43, 0x30, 0x30]"

definition close_low :: "nat \<Rightarrow> nat \<Rightarrow> bytes \<times> nat" where
  "close_low sub esc =
    (let nth = sub - 8
     in (drop nth LOW,
         fold (\<lambda>c lo. (lo * 16 + (if c \<le> 0x39 then unat c - 0x30 else unat c - 0x41 + 10)) mod 2 ^ 32)
           (drop nth LOW) (if nth \<noteq> 0 then esc else 0)))"

definition json_escape_close :: "nat \<Rightarrow> nat \<Rightarrow> nat \<Rightarrow> nat \<Rightarrow> nat \<times> bytes \<times> nat" where
  "json_escape_close sub esc hi cap =
    (if sub = 1 then (0, take cap [0x6E], 0x0A)
     else
       (let (sub1, hi1, o1, completed) =
              (if 2 \<le> sub \<and> sub \<le> 5 then
                 (case close_digits sub esc of (t, cp) \<Rightarrow>
                    if 0xD800 \<le> cp \<and> cp \<le> 0xDBFF then (6, cp, t, 0) else (0, hi, t, cp))
               else (sub, hi, [], 0));
            (sub2, o2) = (if sub1 = 6 then (7, o1 @ [0x5C]) else (sub1, o1));
            (sub3, o3) = (if sub2 = 7 then (8, o2 @ [0x75]) else (sub2, o2))
        in if 8 \<le> sub3 \<and> sub3 \<le> 11 then
             (case close_low sub3 esc of (t, lo) \<Rightarrow>
                (0, take cap (o3 @ t),
                 if hi1 \<ge> 0xD800
                 then (0x10000 + push_bit 10 (hi1 - 0xD800) + (lo + 2 ^ 32 - 0xDC00)) mod 2 ^ 32
                 else lo))
           else (sub3, take cap o3, completed)))"

subsection \<open>The closer\<close>

text \<open>The \<^verbatim>\<open>guard\<close> loops: underscores until the hash is not among the object's keys.\<close>

fun dodge :: "nat \<Rightarrow> jsonv \<Rightarrow> u32 \<Rightarrow> bytes \<times> u32" where
  "dodge 0 v h = ([], h)"
| "dodge (Suc n) v h =
    (if \<not> key_seen v h then ([], h)
     else case dodge n v (json_key_hash_byte h 0x5F) of (t, h') \<Rightarrow> (0x5F # t, h'))"

definition close_string :: "jsonv \<Rightarrow> bytes \<times> jsonv" where
  "close_string v =
    (if v_st v = S_KEY \<or> v_st v = S_STRING then
       (let key = (v_st v = S_KEY);
            (u8, u) = json_utf8_close (v_utf8 v);
            kh = (if key then fold (\<lambda>c h. json_key_hash_byte h c) u8 (v_khash v) else v_khash v);
            (sub, esc, scalar) = json_escape_close (v_sub v) (v_esc v) (v_esc_hi v) 12;
            kh1 = (if key \<and> scalar \<noteq> 0 then json_key_hash_scalar kh scalar else kh);
            (us, kh2) = (if key then dodge 64 v kh1 else ([], kh1));
            v1 = v\<lparr>v_utf8 := u, v_sub := sub, v_khash := kh2\<rparr>
        in (u8 @ esc @ us @ [0x22], if key then v1\<lparr>v_st := S_COLON\<rparr> else value_done v1))
     else ([], v))"

definition close_colon :: "jsonv \<Rightarrow> bytes \<times> jsonv" where
  "close_colon v = (if v_st v = S_COLON then ([0x3A], v\<lparr>v_st := S_VALUE\<rparr>) else ([], v))"

definition close_key_expect :: "jsonv \<Rightarrow> bytes \<times> jsonv" where
  "close_key_expect v =
    (if v_st v = S_KEY_EXPECT then
       (let kh = json_key_hash_byte json_key_hash_init 0x5F;
            us = fst (dodge 64 v kh)
        in ([0x22, 0x5F] @ us @ [0x22, 0x3A], v\<lparr>v_st := S_VALUE\<rparr>))
     else ([], v))"

definition close_lit :: "jsonv \<Rightarrow> bytes \<times> jsonv" where
  "close_lit v =
    (if v_st v = S_LIT then
       (let lit = LITS ! v_lit v
        in (drop (v_sub v) lit, value_done (v\<lparr>v_sub := max (v_sub v) (length lit)\<rparr>)))
     else ([], v))"

definition close_number :: "jsonv \<Rightarrow> bytes \<times> jsonv" where
  "close_number v =
    (if v_st v \<in> {S_NUM_MINUS, S_NUM_FRAC0, S_NUM_EXP0, S_NUM_EXP1} then ([0x30], value_done v)
     else if v_st v \<in> {S_NUM_ZERO, S_NUM_INT, S_NUM_FRAC, S_NUM_EXP} then ([], value_done v)
     else ([], v))"

definition close_value :: "jsonv \<Rightarrow> bytes \<times> jsonv" where
  "close_value v =
    (if v_st v = S_VALUE \<or> v_st v = S_ARR_FIRST then (ascii ''null'', value_done v) else ([], v))"

function close_ctrs :: "jsonv \<Rightarrow> bytes \<times> jsonv" where
  "close_ctrs v =
    (if \<not> v_done v \<and> v_depth v > 0 \<and> (v_st v = S_AFTER \<or> v_st v = S_KEY_OR_END) then
       (let top = v_stack v ! (v_depth v - 1);
            (t, v') = close_ctrs (value_done (v\<lparr>v_depth := v_depth v - 1\<rparr>))
        in ((if top = obj_tag then 0x7D else 0x5D) # t, v'))
     else ([], v))"
  by pat_completeness auto
termination
  by (relation "measure v_depth") (auto simp: value_done_def)

declare close_ctrs.simps [simp del]

text \<open>One stage after the other; each returns its text and the state.\<close>

definition then_close :: "bytes \<times> jsonv \<Rightarrow> (jsonv \<Rightarrow> bytes \<times> jsonv) \<Rightarrow> bytes \<times> jsonv" where
  "then_close r f = (case r of (t, v) \<Rightarrow> (case f v of (t', v') \<Rightarrow> (t @ t', v')))"

definition close_all :: "jsonv \<Rightarrow> bytes \<times> jsonv" where
  "close_all v =
    then_close (then_close (then_close (then_close (then_close (then_close (close_string v)
      close_colon) close_key_expect) close_lit) close_number) close_value) close_ctrs"

definition jsonv_close :: "jsonv \<Rightarrow> nat \<Rightarrow> bytes \<times> jsonv" where
  "jsonv_close v cap =
    (if v_st v = S_START \<or> v_done v then ([], v)
     else case close_all v of (t, v') \<Rightarrow> (take (cap - 1) t, v'))"

subsection \<open>Feeding a text\<close>

lemma feed_append:
  "jsonv_feed v s = (True, w) \<Longrightarrow> jsonv_feed v (s @ t) = jsonv_feed w t"
proof (induction v s rule: jsonv_feed.induct)
  case (2 v c s)
  obtain r v1 where f: "feed_byte v c = (r, v1)" by (cases "feed_byte v c")
  show ?case
  proof (cases r)
    case Reconsume
    obtain r2 v2 where f2: "feed_byte v1 c = (r2, v2)" by (cases "feed_byte v1 c")
    show ?thesis using "2.prems" "2.IH" f f2 Reconsume by (cases r2) auto
  qed (use "2.prems" "2.IH" f in auto)
qed simp

lemma feed_accept: "feed_byte v c = (Accept, w) \<Longrightarrow> jsonv_feed v (c # s) = jsonv_feed w s"
  by simp

lemma feed_prefix_run: "jsonv_feed v s = (True, w) \<Longrightarrow> run v (s @ t) vf \<longleftrightarrow> run w t vf"
  by (simp add: run_def feed_append)

subsection \<open>Escaping the duplicate\<close>

text \<open>
  One underscore takes the hash, modulo 32, from r to 13 r + 13: a permutation of one cycle. So the
  first 32 hashes are distinct, and the guard holds at most 24.
\<close>

definition dodge_step :: "nat \<Rightarrow> nat" where
  "dodge_step r = (13 * r + 13) mod 32"

lemma xor_31: "x < 32 \<Longrightarrow> x XOR 31 = 31 - (x::nat)"
proof -
  assume "x < 32"
  moreover have "list_all (\<lambda>x. x XOR 31 = 31 - (x::nat)) [0..<32]" by code_simp
  ultimately show ?thesis by (simp add: list_all_iff)
qed

lemma dodge_hash: "unat (json_key_hash_byte h 0x5F) mod 32 = dodge_step (unat h mod 32)"
proof -
  let ?x = "h XOR (0x5F :: u32)"
  have "unat ?x mod 32 = take_bit 5 (unat h XOR 0x5F)"
    by (simp add: unsigned_xor_eq take_bit_eq_mod)
  also have "\<dots> = (unat h mod 32) XOR 31"
    by (simp add: take_bit_xor) (simp add: take_bit_eq_mod)
  also have "\<dots> = 31 - unat h mod 32" by (simp add: xor_31)
  finally have x: "unat ?x mod 32 = 31 - unat h mod 32" .
  have "unat (?x * 16777619) mod 32 = ((unat ?x * 16777619) mod 2 ^ 32) mod 32"
    by (simp add: unat_word_ariths)
  also have "\<dots> = (unat ?x mod 32 * 19) mod 32"
  proof -
    have "((y * 16777619) mod 2 ^ 32) mod 32 = ((y mod 32) * (16777619 mod 32)) mod (32 :: nat)" for y
      unfolding mod_mult_eq by (rule mod_mod_cancel) simp
    then show ?thesis by simp
  qed
  also have "\<dots> = ((31 - unat h mod 32) * 19) mod 32" by (simp add: x)
  also have "\<dots> = dodge_step (unat h mod 32)"
  proof -
    have "list_all (\<lambda>r. ((31 - r) * 19) mod 32 = dodge_step r) [0..<32]" by code_simp
    then show ?thesis by (simp add: list_all_iff)
  qed
  finally show ?thesis by (simp add: json_key_hash_byte_def)
qed

text \<open>The place of each residue in the cycle that starts at 0.\<close>

definition dodge_place :: "nat list" where
  "dodge_place = [0, 29, 22, 11, 28, 9, 18, 23, 24, 21, 14, 3, 20, 1, 10, 15, 16, 13, 6, 27, 12, 25, 2, 7, 8, 5, 30, 19, 4, 17, 26, 31]"

lemma dodge_place_step: "r < 32 \<Longrightarrow> dodge_place ! dodge_step r = (dodge_place ! r + 1) mod 32"
proof -
  assume "r < 32"
  then have "r \<in> set [0..<32]" by simp
  moreover have "list_all (\<lambda>r. dodge_place ! dodge_step r = (dodge_place ! r + 1) mod 32) [0..<32]" by code_simp
  ultimately show ?thesis unfolding list_all_iff by blast
qed

lemma dodge_place_iter:
  "r < 32 \<Longrightarrow> (dodge_step ^^ i) r < 32 \<and> dodge_place ! ((dodge_step ^^ i) r) mod 32 = (dodge_place ! r + i) mod 32"
proof (induction i)
  case (Suc i)
  then have "dodge_place ! dodge_step ((dodge_step ^^ i) r) = (dodge_place ! ((dodge_step ^^ i) r) + 1) mod 32"
    using dodge_place_step by blast
  moreover have "Suc (dodge_place ! ((dodge_step ^^ i) r)) mod 32 = Suc (dodge_place ! r + i) mod 32"
    using Suc by (metis mod_Suc_eq)
  moreover have "dodge_step y < 32" for y by (simp add: dodge_step_def)
  ultimately show ?case by simp
qed simp

lemma add_mod_cancel: "(a + i) mod 32 = (a + j) mod 32 \<Longrightarrow> i < 32 \<Longrightarrow> j < 32 \<Longrightarrow> i = (j::nat)"
proof -
  assume a: "(a + i) mod 32 = (a + j) mod 32" "i < 32" "j < 32"
  have e: "(a + k) mod 32 = (if a mod 32 + k < 32 then a mod 32 + k else a mod 32 + k - 32)" if "k < 32" for k
  proof -
    have "a mod 32 < 32" by simp
    then have "(a mod 32 + k) mod 32 = (if a mod 32 + k < 32 then a mod 32 + k else a mod 32 + k - 32)"
      using that by (cases "a mod 32 + k < 32") (simp_all add: le_mod_geq)
    then show ?thesis by (simp only: mod_add_left_eq)
  qed
  have "(if a mod 32 + i < 32 then a mod 32 + i else a mod 32 + i - 32)
      = (if a mod 32 + j < 32 then a mod 32 + j else a mod 32 + j - 32)"
    using a(1) unfolding e [OF a(2)] e [OF a(3)] .
  with a(2,3) show ?thesis by (simp split: if_splits)
qed

lemma dodge_inj:
  assumes "r < 32" "i < 32" "j < 32" "(dodge_step ^^ i) r = (dodge_step ^^ j) r"
  shows "i = j"
proof -
  have "(dodge_place ! r + i) mod 32 = (dodge_place ! r + j) mod 32"
    using dodge_place_iter [OF assms(1), of i] dodge_place_iter [OF assms(1), of j] assms(4) by simp
  with add_mod_cancel assms(2,3) show ?thesis by blast
qed

definition hash_after :: "nat \<Rightarrow> u32 \<Rightarrow> u32" where
  "hash_after k h = hash_bytes h (replicate k 0x5F)"

lemma hash_after_Suc: "hash_after (Suc k) h = json_key_hash_byte (hash_after k h) 0x5F"
proof -
  have "replicate (Suc k) (0x5F :: u8) = replicate k 0x5F @ [0x5F]" by (simp add: replicate_append_same)
  then show ?thesis unfolding hash_after_def by (simp del: replicate_Suc)
qed

lemma hash_after_mod: "unat (hash_after k h) mod 32 = (dodge_step ^^ k) (unat h mod 32)"
proof (induction k)
  case 0
  then show ?case by (simp add: hash_after_def)
next
  case (Suc k)
  then show ?case by (simp add: hash_after_Suc dodge_hash)
qed

lemma fresh_hash:
  assumes "jsonv_wf v"
  shows "\<exists>k < 25. \<not> key_seen v (hash_after k h)"
proof (rule ccontr)
  assume "\<not> ?thesis"
  then have all: "\<forall>k < 25. (v_depth v, hash_after k h) \<in> set (seen v)" using key_seen_view [OF assms] by blast
  let ?f = "\<lambda>k. (v_depth v, hash_after k h)"
  have "inj_on ?f {0..<25}"
  proof (rule inj_onI)
    fix i j assume ij: "i \<in> {0..<25}" "j \<in> {0..<25}" "?f i = ?f j"
    then have "(dodge_step ^^ i) (unat h mod 32) = (dodge_step ^^ j) (unat h mod 32)"
      using hash_after_mod [of i h] hash_after_mod [of j h] by simp
    then show "i = j" using dodge_inj [of "unat h mod 32" i j] ij by simp
  qed
  then have "card (?f ` {0..<25}) = 25" by (simp add: card_image)
  moreover have "?f ` {0..<25} \<subseteq> set (seen v)" using all by auto
  ultimately have "25 \<le> card (set (seen v))" by (metis card_mono finite_set)
  also have "\<dots> \<le> length (seen v)" by (rule card_length)
  also have "\<dots> \<le> 24" using length_seen [OF assms] wf_bounds(3) [OF assms] by simp
  finally show False by simp
qed

lemma dodge_finds:
  "\<exists>k \<le> m. \<not> key_seen v (hash_after k h) \<Longrightarrow> m < n \<Longrightarrow>
   \<exists>k. dodge n v h = (replicate k 0x5F, hash_after k h) \<and> \<not> key_seen v (hash_after k h)"
proof (induction m arbitrary: n h)
  case 0
  then obtain n' where "n = Suc n'" by (cases n) auto
  with 0 show ?case by (intro exI [of _ 0]) (simp add: hash_after_def)
next
  case (Suc m)
  obtain n' where n: "n = Suc n'" using Suc.prems(2) by (cases n) auto
  show ?case
  proof (cases "key_seen v h")
    case False
    with n show ?thesis by (intro exI [of _ 0]) (simp add: hash_after_def)
  next
    case True
    let ?h = "json_key_hash_byte h 0x5F"
    have sh: "hash_after (Suc k) h = hash_after k ?h" for k by (simp add: hash_after_def)
    obtain k where k: "k \<le> Suc m" "\<not> key_seen v (hash_after k h)" using Suc.prems(1) by blast
    with True obtain k' where "k = Suc k'" by (cases k) (auto simp: hash_after_def)
    with k sh have "\<exists>k \<le> m. \<not> key_seen v (hash_after k ?h)" by auto
    from Suc.IH [OF this, of n'] Suc.prems(2) n obtain k2 where
      "dodge n' v ?h = (replicate k2 0x5F, hash_after k2 ?h)" "\<not> key_seen v (hash_after k2 ?h)" by auto
    with n True sh show ?thesis by (intro exI [of _ "Suc k2"]) simp
  qed
qed

lemma dodge_fresh:
  assumes "jsonv_wf v"
  shows "\<exists>k. dodge 64 v h = (replicate k 0x5F, hash_after k h) \<and> \<not> key_seen v (hash_after k h)"
proof -
  obtain k where "k < 25" "\<not> key_seen v (hash_after k h)" using fresh_hash [OF assms] by blast
  then have "\<exists>k \<le> 24. \<not> key_seen v (hash_after k h)" by (intro exI [of _ k]) simp
  from dodge_finds [OF this] show ?thesis by simp
qed

subsection \<open>The end of a UTF-8 character and of an escape\<close>

lemma in_string_of: "in_str v \<Longrightarrow> in_string v"
  using live_done [of False v] by (auto simp: in_str_from_def in_string_def)

definition utf8_steps :: "nat list" where
  "utf8_steps = [0, 1, 2, 3, 2, 2, 3, 3]"

lemma less_8: "u < 8 \<Longrightarrow> u \<in> {0, 1, 2, 3, 4, 5, 6, 7 :: nat}"
  by (simp add: less_Suc_eq numeral_eq_Suc)

lemma utf8_close_step:
  assumes "u < 8" "u \<noteq> 0"
  shows "json_utf8_byte u (utf8_LO ! u) = (True, utf8_NEXT ! u) \<and> utf8_steps ! u = Suc (utf8_steps ! (utf8_NEXT ! u))"
  using less_8 [OF assms(1)] assms(2)
  by (auto simp: json_utf8_byte_def utf8_LO_def utf8_HI_def utf8_NEXT_def utf8_steps_def u8_nat)

lemma feed_plain:
  assumes "in_string v" "u \<noteq> 0" "json_utf8_byte u c = (True, u')"
  shows "feed_byte (str_state v 0 e hi u h) c
    = (Accept, str_state v 0 e hi u' (if v_st v = S_KEY then json_key_hash_byte h c else h))"
  using assms feed_string_plain [of "str_state v 0 e hi u h" c True u']
  by (simp add: feed_in_string key_hash_after_def cong: if_cong)

lemma feed_utf8_close:
  assumes "in_string v"
  shows "u < 8 \<Longrightarrow> utf8_steps ! u \<le> n \<Longrightarrow> \<exists>t. utf8_close_loop n u = (t, 0)
    \<and> jsonv_feed (str_state v 0 e hi u h) t = (True, str_state v 0 e hi 0 (if v_st v = S_KEY then hash_bytes h t else h))"
proof (induction n arbitrary: u h)
  case 0
  then have "u = 0" using less_8 [of u] by (auto simp: utf8_steps_def)
  then show ?case by (simp cong: if_cong)
next
  case (Suc n)
  show ?case
  proof (cases "u = 0")
    case True
    then show ?thesis by (simp cong: if_cong)
  next
    case False
    let ?c = "utf8_LO ! u" and ?u = "utf8_NEXT ! u"
    let ?h = "if v_st v = S_KEY then json_key_hash_byte h ?c else h"
    note st = utf8_close_step [OF Suc.prems(1) False]
    have "?u < 8" "utf8_steps ! ?u \<le> n" using utf8_NEXT_small [OF Suc.prems(1)] st Suc.prems(2) by auto
    from Suc.IH [OF this, of ?h] obtain t where t: "utf8_close_loop n ?u = (t, 0)"
      "jsonv_feed (str_state v 0 e hi ?u ?h) t
        = (True, str_state v 0 e hi 0 (if v_st v = S_KEY then hash_bytes ?h t else ?h))" by blast
    have "jsonv_feed (str_state v 0 e hi u h) (?c # t) = jsonv_feed (str_state v 0 e hi ?u ?h) t"
      using feed_plain [OF assms False, of ?c ?u] st by (intro feed_accept) blast
    with t False show ?thesis by (intro exI [of _ "?c # t"]) (simp split: if_splits)
  qed
qed

text \<open>Feeding digits.\<close>

lemma feed_digit:
  assumes "in_string v" "2 \<le> sub \<and> sub \<le> 5 \<or> 8 \<le> sub" "json_escape_hex sub e c = (True, sub', e')"
  shows "feed_byte (str_state v sub e hi u h) c =
    (Accept, str_state v sub' e' (if v_st v = S_KEY \<and> sub \<le> 5 \<and> sub' = 6 then e' else hi) u
      (if v_st v \<noteq> S_KEY then h
       else if sub \<le> 5 \<and> sub' = 0 then hash_bytes h (u8_emit e')
       else if 8 \<le> sub \<and> sub' = 0 then hash_bytes h (u8_emit (pair_cp hi e'))
       else h))"
proof -
  let ?v = "str_state v sub e hi u h"
  have "sub \<noteq> 1" "sub \<noteq> 6" "sub \<noteq> 7" "2 \<le> sub" using assms(2) by linarith+
  then have "feed_byte ?v c = feed_hex ?v (v_st v = S_KEY) c"
    using assms(1) by (simp add: feed_in_string feed_string_def)
  also have "\<dots> = (Accept, str_state ?v sub' e' (hex_hi ?v sub' e') u (hex_hash ?v sub' e'))"
    using feed_hex_accept [of ?v c sub' e'] assms(3) by simp
  finally show ?thesis by (simp add: hex_hi_def hex_hash_def cong: if_cong)
qed

lemma feed_mid:
  assumes "in_string v" "sub \<in> {2, 3, 4, 8, 9, 10}" "json_escape_hex sub e c = (True, Suc sub, e')"
  shows "jsonv_feed (str_state v sub e hi u h) (c # t) = jsonv_feed (str_state v (Suc sub) e' hi u h) t"
proof (rule feed_accept)
  have "2 \<le> sub \<and> sub \<le> 5 \<or> 8 \<le> sub" "Suc sub \<noteq> 6" using assms(2) by auto
  then show "feed_byte (str_state v sub e hi u h) c = (Accept, str_state v (Suc sub) e' hi u h)"
    using feed_digit [OF assms(1) _ assms(3), of hi u h] by (simp cong: if_cong)
qed

lemma feed_last:
  assumes "in_string v" "e < 4096" "hexval c = Some d" "e' = 16 * e + d" "e' \<noteq> 0"
  shows "jsonv_feed (str_state v 5 e hi u h) (c # t) =
    jsonv_feed (str_state v (if hi_surrogate e' then 6 else 0) e'
      (if v_st v = S_KEY \<and> hi_surrogate e' then e' else hi) u
      (if v_st v = S_KEY \<and> \<not> hi_surrogate e' then hash_bytes h (u8_emit e') else h)) t"
proof (rule feed_accept)
  have "json_escape_hex 5 e c = (True, if hi_surrogate e' then 6 else 0, e')"
    using assms(3-5) by (simp add: escape_hex_3 [OF assms(2)])
  from feed_digit [OF assms(1) _ this, of hi u h]
  show "feed_byte (str_state v 5 e hi u h) c = (Accept, str_state v (if hi_surrogate e' then 6 else 0) e'
      (if v_st v = S_KEY \<and> hi_surrogate e' then e' else hi) u
      (if v_st v = S_KEY \<and> \<not> hi_surrogate e' then hash_bytes h (u8_emit e') else h))"
    by (cases "hi_surrogate e'"; cases "v_st v = S_KEY") simp_all
qed

lemma feed_low_last:
  assumes "in_string v" "e < 4096" "hexval c = Some d" "e' = 16 * e + d"
  shows "jsonv_feed (str_state v 11 e hi u h) (c # t) =
    jsonv_feed (str_state v 0 e' hi u (if v_st v = S_KEY then hash_bytes h (u8_emit (pair_cp hi e')) else h)) t"
proof (rule feed_accept)
  have "json_escape_hex 11 e c = (True, 0, e')" using assms(3,4) by (simp add: escape_hex_low_3 [OF assms(2)])
  from feed_digit [OF assms(1) _ this, of hi u h]
  show "feed_byte (str_state v 11 e hi u h) c =
      (Accept, str_state v 0 e' hi u (if v_st v = S_KEY then hash_bytes h (u8_emit (pair_cp hi e')) else h))"
    by (cases "v_st v = S_KEY") simp_all
qed

lemma hexval_ascii: "hexval 0x30 = Some 0" "hexval 0x31 = Some 1" "hexval 0x43 = Some 12" "hexval 0x44 = Some 13"
  by (simp_all add: hexval_def)

text \<open>The first half: what \<open>close_digits\<close> writes from each position.\<close>

definition after_high :: "jsonv \<Rightarrow> nat \<Rightarrow> nat \<Rightarrow> nat \<Rightarrow> u32 \<Rightarrow> jsonv" where
  "after_high v cp hi u h = str_state v (if hi_surrogate cp then 6 else 0) cp
     (if v_st v = S_KEY \<and> hi_surrogate cp then cp else hi) u
     (if v_st v = S_KEY \<and> \<not> hi_surrogate cp then hash_bytes h (u8_emit cp) else h)"

lemma replicate_small: "replicate 2 x = [x, x]" "replicate 3 x = [x, x, x]" "replicate (Suc 0) x = [x]"
  by (simp_all add: numeral_eq_Suc)

lemma close_digits_at:
  "close_digits 2 e = ([0x30, 0x30, 0x30, 0x31], 1)"
  "e < 16 \<Longrightarrow> close_digits 3 e = (if e = 0 then ([0x30, 0x30, 0x31], 1) else ([0x30, 0x30, 0x30], 4096 * e))"
  "e < 256 \<Longrightarrow> close_digits 4 e = (if e = 0 then ([0x30, 0x31], 1) else ([0x30, 0x30], 256 * e))"
  "e < 4096 \<Longrightarrow> close_digits 5 e = (if e = 0 then ([0x31], 1) else ([0x30], 16 * e))"
proof -
  have m: "x < 65536 \<Longrightarrow> x mod 65536 = (x :: nat)" for x by simp
  show "close_digits 2 e = ([0x30, 0x30, 0x30, 0x31], 1)"
    by (simp add: close_digits_def Let_def replicate_small)
  show "close_digits 3 e = (if e = 0 then ([0x30, 0x30, 0x31], 1) else ([0x30, 0x30, 0x30], 4096 * e))" if "e < 16"
    using that m [of "e * 4096"] by (simp add: close_digits_def Let_def replicate_small push_bit_eq_mult)
  show "close_digits 4 e = (if e = 0 then ([0x30, 0x31], 1) else ([0x30, 0x30], 256 * e))" if "e < 256"
    using that m [of "e * 256"] by (simp add: close_digits_def Let_def replicate_small push_bit_eq_mult)
  show "close_digits 5 e = (if e = 0 then ([0x31], 1) else ([0x30], 16 * e))" if "e < 4096"
    using that m [of "e * 16"] by (simp add: close_digits_def Let_def replicate_small push_bit_eq_mult)
qed

lemma feed_close_5:
  assumes "in_string v" "e < 4096"
  shows "jsonv_feed (str_state v 5 e hi u h) (if e = 0 then [0x31] else [0x30])
    = (True, after_high v (if e = 0 then 1 else 16 * e) hi u h)"
  using feed_last [OF assms hexval_ascii(2), of 1 hi u h "[]"] feed_last [OF assms hexval_ascii(1), of "16 * e" hi u h "[]"]
  by (cases "e = 0") (simp_all add: after_high_def hi_surrogate_def)

lemma feed_close_4:
  assumes "in_string v" "e < 256"
  shows "jsonv_feed (str_state v 4 e hi u h) (if e = 0 then [0x30, 0x31] else [0x30, 0x30])
    = (True, after_high v (if e = 0 then 1 else 256 * e) hi u h)"
proof -
  have "json_escape_hex 4 e 0x30 = (True, Suc 4, 16 * e)"
    using escape_hex_2 [OF assms(2), of "0x30" 5 "16 * e"] by (simp add: hexval_ascii)
  from feed_mid [OF assms(1) _ this] feed_close_5 [OF assms(1), of "16 * e" hi u h] assms(2)
  show ?thesis by (cases "e = 0") simp_all
qed

lemma feed_close_3:
  assumes "in_string v" "e < 16"
  shows "jsonv_feed (str_state v 3 e hi u h) (if e = 0 then [0x30, 0x30, 0x31] else [0x30, 0x30, 0x30])
    = (True, after_high v (if e = 0 then 1 else 4096 * e) hi u h)"
proof -
  have "\<not> (0xDC \<le> 16 * e \<and> 16 * e \<le> 0xDF)" by presburger
  then have "json_escape_hex 3 e 0x30 = (True, Suc 3, 16 * e)"
    using escape_hex_1 [OF assms(2), of "0x30" 4 "16 * e"] by (simp add: hexval_ascii)
  from feed_mid [OF assms(1) _ this] feed_close_4 [OF assms(1), of "16 * e" hi u h] assms(2)
  show ?thesis by (cases "e = 0") simp_all
qed

lemma feed_close_2:
  assumes "in_string v"
  shows "jsonv_feed (str_state v 2 e hi u h) [0x30, 0x30, 0x30, 0x31] = (True, after_high v 1 hi u h)"
proof -
  have "json_escape_hex 2 e 0x30 = (True, Suc 2, 0)"
    using escape_hex_0 [of e "0x30" 3 0] by (simp add: hexval_ascii)
  from feed_mid [OF assms _ this] feed_close_3 [OF assms, of 0 hi u h] show ?thesis by simp
qed

lemma feed_close_high:
  assumes "in_string v" "2 \<le> sub" "sub \<le> 5" "esc_ok sub e" "close_digits sub e = (t, cp)"
  shows "jsonv_feed (str_state v sub e hi u h) t = (True, after_high v cp hi u h)
    \<and> length t \<le> 4 \<and> cp \<noteq> 0 \<and> cp < 65536"
proof -
  from assms(2,3) have "sub = 2 \<or> sub = 3 \<or> sub = 4 \<or> sub = 5" by presburger
  then consider "sub = 2" | "sub = 3" | "sub = 4" | "sub = 5" by blast
  then show ?thesis
  proof cases
    case 1
    with assms(5) feed_close_2 [OF assms(1), of e hi u h] show ?thesis by (auto simp: close_digits_at)
  next
    case 2
    with assms(4) have "e < 16" by (simp add: esc_ok_def)
    with 2 assms(5) feed_close_3 [OF assms(1) this, of hi u h] show ?thesis
      by (cases "e = 0") (auto simp: close_digits_at)
  next
    case 3
    with assms(4) have "e < 256" by (simp add: esc_ok_def)
    with 3 assms(5) feed_close_4 [OF assms(1) this, of hi u h] show ?thesis
      by (cases "e = 0") (auto simp: close_digits_at)
  next
    case 4
    with assms(4) have "e < 4096" by (simp add: esc_ok_def)
    with 4 assms(5) feed_close_5 [OF assms(1) this, of hi u h] show ?thesis
      by (cases "e = 0") (auto simp: close_digits_at)
  qed
qed

text \<open>The low half.\<close>

lemma LOW_drop: "drop 0 LOW = [0x44, 0x43, 0x30, 0x30]" "drop 1 LOW = [0x43, 0x30, 0x30]"
  "drop 2 LOW = [0x30, 0x30]" "drop 3 LOW = [0x30]"
  by (simp_all add: LOW_def)

definition after_low :: "jsonv \<Rightarrow> nat \<Rightarrow> nat \<Rightarrow> nat \<Rightarrow> u32 \<Rightarrow> jsonv" where
  "after_low v lo hi u h =
    str_state v 0 lo hi u (if v_st v = S_KEY then hash_bytes h (u8_emit (pair_cp hi lo)) else h)"

lemma feed_close_11:
  assumes "in_string v" "e < 4096"
  shows "jsonv_feed (str_state v 11 e hi u h) [0x30] = (True, after_low v (16 * e) hi u h)"
  using feed_low_last [OF assms hexval_ascii(1), of "16 * e" hi u h "[]"] by (simp add: after_low_def)

lemma feed_close_10:
  assumes "in_string v" "e < 256"
  shows "jsonv_feed (str_state v 10 e hi u h) [0x30, 0x30] = (True, after_low v (256 * e) hi u h)"
proof -
  have "json_escape_hex 10 e 0x30 = (True, Suc 10, 16 * e)"
    using escape_hex_low_2 [OF assms(2), of "0x30" 11 "16 * e"] by (simp add: hexval_ascii)
  from feed_mid [OF assms(1) _ this] feed_close_11 [OF assms(1), of "16 * e" hi u h] assms(2) show ?thesis by simp
qed

lemma feed_close_9:
  assumes "in_string v"
  shows "jsonv_feed (str_state v 9 13 hi u h) [0x43, 0x30, 0x30] = (True, after_low v 0xDC00 hi u h)"
proof -
  have "json_escape_hex 9 13 0x43 = (True, Suc 9, 220)"
    using escape_hex_low_1 [of 13 "0x43" 10 220] by (simp add: hexval_ascii)
  from feed_mid [OF assms _ this] feed_close_10 [OF assms, of 220 hi u h] show ?thesis by simp
qed

lemma feed_close_8:
  assumes "in_string v"
  shows "jsonv_feed (str_state v 8 e hi u h) [0x44, 0x43, 0x30, 0x30] = (True, after_low v 0xDC00 hi u h)"
proof -
  have "json_escape_hex 8 e 0x44 = (True, Suc 8, 13)"
    using escape_hex_low_0 [of e "0x44" 9 13] by (simp add: hexval_ascii)
  from feed_mid [OF assms _ this] feed_close_9 [OF assms, of hi u h] show ?thesis by simp
qed

lemma close_low_at:
  "close_low 8 e = ([0x44, 0x43, 0x30, 0x30], 0xDC00)"
  "close_low 9 13 = ([0x43, 0x30, 0x30], 0xDC00)"
  "e < 256 \<Longrightarrow> close_low 10 e = ([0x30, 0x30], 256 * e)"
  "e < 4096 \<Longrightarrow> close_low 11 e = ([0x30], 16 * e)"
  by (simp_all add: close_low_def LOW_drop [simplified] Let_def)

lemma feed_close_low:
  assumes "in_string v" "8 \<le> sub" "sub \<le> 11" "esc_ok sub e" "close_low sub e = (t, lo)"
  shows "jsonv_feed (str_state v sub e hi u h) t = (True, after_low v lo hi u h)
    \<and> length t \<le> 4 \<and> 0xDC00 \<le> lo \<and> lo \<le> 0xDFFF"
proof -
  from assms(2,3) have "sub = 8 \<or> sub = 9 \<or> sub = 10 \<or> sub = 11" by presburger
  then consider "sub = 8" | "sub = 9" | "sub = 10" | "sub = 11" by blast
  then show ?thesis
  proof cases
    case 1
    with assms(5) feed_close_8 [OF assms(1), of e hi u h] show ?thesis by (auto simp: close_low_at)
  next
    case 2
    with assms(4) have "e = 13" by (simp add: esc_ok_def)
    with 2 assms(5) feed_close_9 [OF assms(1), of hi u h] show ?thesis by (auto simp: close_low_at)
  next
    case 3
    with assms(4) have "0xDC \<le> e" "e \<le> 0xDF" by (simp_all add: esc_ok_def)
    with 3 assms(5) feed_close_10 [OF assms(1), of e hi u h] show ?thesis by (auto simp: close_low_at)
  next
    case 4
    with assms(4) have "0xDC0 \<le> e" "e \<le> 0xDFF" by (simp_all add: esc_ok_def)
    with 4 assms(5) feed_close_11 [OF assms(1), of e hi u h] show ?thesis by (auto simp: close_low_at)
  qed
qed

lemma feed_bs_u:
  assumes "in_string v"
  shows "jsonv_feed (str_state v 6 e hi u h) [0x5C, 0x75] = (True, str_state v 8 e hi u h)"
    "jsonv_feed (str_state v 7 e hi u h) [0x75] = (True, str_state v 8 e hi u h)"
  using assms by (simp_all add: feed_in_string feed_string_6 feed_string_7 str_state_updates)

lemma pair_wrap:
  assumes "hi_surrogate hi" "0xDC00 \<le> lo" "lo \<le> 0xDFFF"
  shows "(0x10000 + push_bit 10 (hi - 0xD800) + (lo + 2 ^ 32 - 0xDC00)) mod 2 ^ 32 = pair_cp hi lo \<and> pair_cp hi lo \<noteq> 0"
proof -
  have h: "0xD800 \<le> hi" "hi \<le> 0xDBFF" using assms(1) by (simp_all add: hi_surrogate_def)
  have e: "0x10000 + push_bit 10 (hi - 0xD800) + (lo + 2 ^ 32 - 0xDC00) = pair_cp hi lo + 2 ^ 32"
    using assms(2) by (simp add: pair_cp_def)
  have "push_bit 10 (hi - 0xD800) \<le> 1023 * 1024" using h by (simp add: push_bit_eq_mult)
  then have "pair_cp hi lo < 2 ^ 32" using assms(3) by (simp add: pair_cp_def)
  then show ?thesis unfolding e mod_add_self2 by (simp add: pair_cp_def)
qed

definition scalar_hash :: "jsonv \<Rightarrow> u32 \<Rightarrow> nat \<Rightarrow> u32" where
  "scalar_hash v h scalar = (if v_st v = S_KEY \<and> scalar \<noteq> 0 then json_key_hash_scalar h scalar else h)"

text \<open>From the backslash of the low half on.\<close>

lemma close_from_8:
  assumes "in_string v" "8 \<le> sub" "sub \<le> 11" "esc_ok sub e" "v_st v = S_KEY \<Longrightarrow> hi_surrogate hi"
    "close_low sub e = (t, lo)"
  shows "\<exists>e'. jsonv_feed (str_state v sub e hi 0 h) t = (True, str_state v 0 e' hi 0 (scalar_hash v h
      (if hi \<ge> 0xD800 then (0x10000 + push_bit 10 (hi - 0xD800) + (lo + 2 ^ 32 - 0xDC00)) mod 2 ^ 32 else lo)))"
proof -
  note f = feed_close_low [OF assms(1-4,6), of hi 0 h]
  show ?thesis
  proof (cases "v_st v = S_KEY")
    case True
    then have hs: "hi_surrogate hi" by (rule assms(5))
    then have "0xD800 \<le> hi" by (simp add: hi_surrogate_def)
    with True f pair_wrap [OF hs, of lo] show ?thesis
      by (auto simp: after_low_def scalar_hash_def hash_scalar)
  next
    case False
    with f show ?thesis by (auto simp: after_low_def scalar_hash_def)
  qed
qed

lemma feed_then: "jsonv_feed v s = (True, w) \<Longrightarrow> jsonv_feed w t = r \<Longrightarrow> jsonv_feed v (s @ t) = r"
  by (simp add: feed_append)

lemma feed_close_escape:
  assumes "in_string v" "esc_ok sub e" "v_st v = S_KEY \<and> 6 \<le> sub \<Longrightarrow> hi_surrogate hi"
    "json_escape_close sub e hi 12 = (s', t, scalar)"
  shows "s' = 0 \<and> (\<exists>e' hi'. jsonv_feed (str_state v sub e hi 0 h) t
      = (True, str_state v 0 e' hi' 0 (scalar_hash v h scalar)))"
proof -
  have le: "sub \<le> 11" using assms(2) by (simp add: esc_ok_def)
  then consider "sub = 0" | "sub = 1" | "2 \<le> sub" "sub \<le> 5" | "sub = 6" | "sub = 7" | "8 \<le> sub" by linarith
  then show ?thesis
  proof cases
    case 1
    with assms(4) show ?thesis by (auto simp: json_escape_close_def Let_def scalar_hash_def)
  next
    case 2
    have "jsonv_feed (str_state v 1 e hi 0 h) [0x6E] = (True, str_state v 0 e hi 0 (scalar_hash v h 0x0A))"
      using assms(1) by (simp add: feed_in_string feed_string_1 feed_backslash_def json_escape_decode_simple_def Let_def
          str_state_updates scalar_hash_def json_key_hash_scalar_def)
    with 2 assms(4) show ?thesis by (auto simp: json_escape_close_def)
  next
    case 3
    obtain td cp where cd: "close_digits sub e = (td, cp)" by (cases "close_digits sub e")
    note f = feed_close_high [OF assms(1) 3 assms(2) cd, of hi 0 h]
    have n1: "sub \<noteq> 1" "\<not> sub \<le> 1" using 3 by auto
    show ?thesis
    proof (cases "hi_surrogate cp")
      case False
      then have "\<not> (0xD800 \<le> cp \<and> cp \<le> 0xDBFF)" by (simp add: hi_surrogate_def)
      with 3 n1 cd assms(4) f have "s' = 0" "t = td" "scalar = cp"
        by (auto simp: json_escape_close_def Let_def)
      with f False show ?thesis by (auto simp: after_high_def scalar_hash_def hash_scalar)
    next
      case True
      then have hc: "0xD800 \<le> cp \<and> cp \<le> 0xDBFF" by (simp add: hi_surrogate_def)
      obtain tl lo where cl: "close_low 8 e = (tl, lo)" by (cases "close_low 8 e")
      let ?hi = "if v_st v = S_KEY then cp else hi"
      have ltl: "tl = [0x44, 0x43, 0x30, 0x30]" "lo = 0xDC00" using cl by (simp_all add: close_low_at)
      have t: "s' = 0" "t = td @ [0x5C, 0x75] @ tl"
        "scalar = (0x10000 + push_bit 10 (cp - 0xD800) + (lo + 2 ^ 32 - 0xDC00)) mod 2 ^ 32"
        using 3 n1 cd hc cl assms(4) f ltl by (auto simp: json_escape_close_def Let_def)
      have "jsonv_feed (str_state v sub e hi 0 h) td = (True, str_state v 6 cp ?hi 0 h)"
        using f True by (simp add: after_high_def cong: if_cong)
      from feed_then [OF feed_then [OF this feed_bs_u(1) [OF assms(1)]] refl]
      have g: "jsonv_feed (str_state v sub e hi 0 h) ((td @ [0x5C, 0x75]) @ tl) = jsonv_feed (str_state v 8 cp ?hi 0 h) tl" .
      have "esc_ok 8 cp" by (simp add: esc_ok_def)
      from close_from_8 [OF assms(1) _ _ this, of ?hi tl lo h] True ltl obtain e' where
        "jsonv_feed (str_state v 8 cp ?hi 0 h) tl = (True, str_state v 0 e' ?hi 0 (scalar_hash v h
          (if ?hi \<ge> 0xD800 then (0x10000 + push_bit 10 (?hi - 0xD800) + (lo + 2 ^ 32 - 0xDC00)) mod 2 ^ 32 else lo)))"
        by (auto simp: close_low_at)
      moreover have "scalar_hash v h (if ?hi \<ge> 0xD800 then (0x10000 + push_bit 10 (?hi - 0xD800) + (lo + 2 ^ 32 - 0xDC00)) mod 2 ^ 32 else lo)
          = scalar_hash v h scalar"
        using hc t(3) by (auto simp: scalar_hash_def)
      ultimately show ?thesis using t(1,2) g by auto
    qed
  next
    case 4
    obtain tl lo where cl: "close_low 8 e = (tl, lo)" by (cases "close_low 8 e")
    have t: "s' = 0" "t = [0x5C, 0x75] @ tl"
      "scalar = (if hi \<ge> 0xD800 then (0x10000 + push_bit 10 (hi - 0xD800) + (lo + 2 ^ 32 - 0xDC00)) mod 2 ^ 32 else lo)"
      using 4 cl assms(4) by (auto simp: json_escape_close_def Let_def close_low_at)
    have "esc_ok 8 e" by (simp add: esc_ok_def)
    from close_from_8 [OF assms(1) _ _ this _ cl, of hi h] assms(3) 4 obtain e' where
      "jsonv_feed (str_state v 8 e hi 0 h) tl = (True, str_state v 0 e' hi 0 (scalar_hash v h scalar))"
      unfolding t(3) by auto
    with 4 t(1) feed_then [OF feed_bs_u(1) [OF assms(1)], of e hi 0 h tl] show ?thesis unfolding t(2) by blast
  next
    case 5
    obtain tl lo where cl: "close_low 8 e = (tl, lo)" by (cases "close_low 8 e")
    have t: "s' = 0" "t = [0x75] @ tl"
      "scalar = (if hi \<ge> 0xD800 then (0x10000 + push_bit 10 (hi - 0xD800) + (lo + 2 ^ 32 - 0xDC00)) mod 2 ^ 32 else lo)"
      using 5 cl assms(4) by (auto simp: json_escape_close_def Let_def close_low_at)
    have "esc_ok 8 e" by (simp add: esc_ok_def)
    from close_from_8 [OF assms(1) _ _ this _ cl, of hi h] assms(3) 5 obtain e' where
      "jsonv_feed (str_state v 8 e hi 0 h) tl = (True, str_state v 0 e' hi 0 (scalar_hash v h scalar))"
      unfolding t(3) by auto
    with 5 t(1) feed_then [OF feed_bs_u(2) [OF assms(1)], of e hi 0 h tl] show ?thesis unfolding t(2) by blast
  next
    case 6
    obtain tl lo where cl: "close_low sub e = (tl, lo)" by (cases "close_low sub e")
    have lt: "length tl \<le> 4" using feed_close_low [OF assms(1) 6 le assms(2) cl, of hi 0 h] by simp
    have t: "s' = 0" "t = take 12 tl"
      "scalar = (if hi \<ge> 0xD800 then (0x10000 + push_bit 10 (hi - 0xD800) + (lo + 2 ^ 32 - 0xDC00)) mod 2 ^ 32 else lo)"
      using 6 le cl assms(4) by (simp_all add: json_escape_close_def Let_def)
    have tk: "take 12 tl = tl" using lt by simp
    from close_from_8 [OF assms(1) 6 le assms(2) _ cl, of hi h] assms(3) 6 obtain e' where
      "jsonv_feed (str_state v sub e hi 0 h) tl = (True, str_state v 0 e' hi 0 (scalar_hash v h scalar))"
      unfolding t(3) by auto
    with t(1) show ?thesis unfolding t(2) tk by blast
  qed
qed

subsection \<open>The stages\<close>

text \<open>
  The closer's state \<open>v'\<close> beside the machine's state \<open>w\<close> after the text so far: the same place in
  the document, though the closer does not keep the guard up to date.
\<close>

definition matches :: "jsonv \<Rightarrow> jsonv \<Rightarrow> bool" where
  "matches w v' \<longleftrightarrow> live w \<and> v_st v' = v_st w \<and> ctrs v' = ctrs w \<and> v_depth v' = v_depth w \<and> v_done v' = v_done w"

lemma feed_underscores:
  assumes "in_string v" "v_st v = S_KEY"
  shows "jsonv_feed (str_state v 0 e hi 0 h) (replicate k 0x5F) = (True, str_state v 0 e hi 0 (hash_after k h))"
proof (induction k arbitrary: h)
  case 0
  then show ?case by (simp add: hash_after_def)
next
  case (Suc k)
  have "json_utf8_byte 0 0x5F = (True, 0)" by (simp add: json_utf8_byte_def)
  then have "feed_byte (str_state v 0 e hi 0 h) 0x5F = (Accept, str_state v 0 e hi 0 (json_key_hash_byte h 0x5F))"
    using assms feed_string_plain [of "str_state v 0 e hi 0 h" "0x5F" True 0]
    by (simp add: feed_in_string key_hash_after_def)
  then show ?case using Suc [of "json_key_hash_byte h 0x5F"] by (simp add: hash_after_def)
qed

lemma key_seen_str_state [simp]: "key_seen (str_state v sub e hi u h) x = key_seen v x"
  by (simp add: key_seen_def)

lemma in_str_wf: "in_str v \<Longrightarrow> jsonv_wf (str_state v sub e hi 0 h)"
proof -
  assume "in_str v"
  then have "base_ok (str_state v sub e hi 0 h)" by (simp add: in_str_from_def live_from_def)
  then show ?thesis by (rule base_wf) simp
qed

text \<open>The end of a key: underscores as needed, and the quote.\<close>

lemma feed_key_end:
  assumes "in_str v" "v_st v = S_KEY" "dodge 64 v h = (us, h')"
  shows "\<exists>w. jsonv_feed (str_state v 0 e hi 0 h) (us @ [0x22]) = (True, w) \<and> v_st w = S_COLON
    \<and> ctrs w = ctrs v \<and> v_depth w = v_depth v \<and> \<not> v_done w"
proof -
  have ins: "in_string v" using in_string_of assms(1) .
  let ?v = "str_state v 0 e hi 0 h"
  from dodge_fresh [OF in_str_wf [OF assms(1), of 0 e hi h], of h] obtain k where
    k: "dodge 64 ?v h = (replicate k 0x5F, hash_after k h)" "\<not> key_seen v (hash_after k h)" by auto
  have "dodge n ?v x = dodge n v x" for n x by (induction n arbitrary: x) simp_all
  with k(1) assms(3) have us: "us = replicate k 0x5F" by simp
  let ?w = "str_state v 0 e hi 0 (hash_after k h)"
  have "feed_byte ?w 0x22 = (Accept, (key_record ?w)\<lparr>v_st := S_COLON\<rparr>)"
    using ins assms(2) k(2) by (simp add: feed_in_string feed_string_def)
  then have "jsonv_feed ?w [0x22] = (True, (key_record ?w)\<lparr>v_st := S_COLON\<rparr>)" by simp
  from feed_then [OF feed_underscores [OF ins assms(2), of e hi h k] this]
  have f: "jsonv_feed ?v (us @ [0x22]) = (True, (key_record ?w)\<lparr>v_st := S_COLON\<rparr>)" unfolding us .
  have "v_kseen_n ?w < json_key_seen_max" "\<not> v_done ?w"
    using assms(1,2) live_done [of False v] by (auto simp: in_str_from_def live_from_def state_from_def)
  with key_record_view [OF in_str_wf [OF assms(1)] _ _] have "ctrs (key_record ?w) = ctrs v"
    "v_depth (key_record ?w) = v_depth v" "\<not> v_done (key_record ?w)" by auto
  with f show ?thesis by auto
qed

lemma close_string_feed:
  assumes "live v" "v_st v = S_KEY \<or> v_st v = S_STRING" "close_string v = (t, v')"
  shows "\<exists>w. jsonv_feed v t = (True, w) \<and> matches w v' \<and> v_st w \<in> {S_COLON, S_AFTER, S_DONE}"
proof -
  have ist: "in_str v" using assms(1,2) by (simp add: in_str_from_def)
  have ins: "in_string v" using in_string_of ist .
  have so: "v_utf8 v < 8" "v_utf8 v \<noteq> 0 \<longrightarrow> v_sub v = 0" "esc_ok (v_sub v) (v_esc v)"
    "v_st v = S_KEY \<and> 6 \<le> v_sub v \<longrightarrow> hi_surrogate (v_esc_hi v)" using in_str_ok [OF ist] by (simp_all add: str_ok_def)
  have dn: "\<not> v_done v" using ins by (simp add: in_string_def)
  have steps: "utf8_steps ! v_utf8 v \<le> 3" using less_8 [OF so(1)] by (auto simp: utf8_steps_def)
  from feed_utf8_close [OF ins so(1) steps, of "v_esc v" "v_esc_hi v" "v_khash v"] obtain t1 where
    t1: "json_utf8_close (v_utf8 v) = (t1, 0)" "jsonv_feed (str_state v 0 (v_esc v) (v_esc_hi v) (v_utf8 v) (v_khash v)) t1
      = (True, str_state v 0 (v_esc v) (v_esc_hi v) 0 (if v_st v = S_KEY then hash_bytes (v_khash v) t1 else v_khash v))"
    by (auto simp: json_utf8_close_def)
  let ?h1 = "if v_st v = S_KEY then hash_bytes (v_khash v) t1 else v_khash v"
  have f1: "jsonv_feed v t1 = (True, str_state v (v_sub v) (v_esc v) (v_esc_hi v) 0 ?h1)"
  proof (cases "v_utf8 v = 0")
    case True
    then have "t1 = []" using t1(1) by (simp add: json_utf8_close_def numeral_eq_Suc)
    then show ?thesis using str_state_self [of v] True by (simp cong: if_cong)
  next
    case False
    then have "v_sub v = 0" using so(2) by simp
    then have "str_state v 0 (v_esc v) (v_esc_hi v) (v_utf8 v) (v_khash v) = v" using str_state_self [of v] by metis
    with t1(2) \<open>v_sub v = 0\<close> show ?thesis by metis
  qed
  obtain s' t2 scalar where ec: "json_escape_close (v_sub v) (v_esc v) (v_esc_hi v) 12 = (s', t2, scalar)"
    by (metis prod_cases3)
  from feed_close_escape [OF ins so(3) _ ec, of ?h1] so(4) obtain e' hi' where
    f2: "s' = 0" "jsonv_feed (str_state v (v_sub v) (v_esc v) (v_esc_hi v) 0 ?h1) t2
      = (True, str_state v 0 e' hi' 0 (scalar_hash v ?h1 scalar))" by auto
  let ?h2 = "scalar_hash v ?h1 scalar"
  from feed_then [OF f1 f2(2)] have f12: "jsonv_feed v (t1 @ t2) = (True, str_state v 0 e' hi' 0 ?h2)" .
  show ?thesis
  proof (cases "v_st v = S_KEY")
    case True
    obtain us h' where us: "dodge 64 v ?h2 = (us, h')" by (cases "dodge 64 v ?h2")
    from feed_key_end [OF ist True us, of e' hi'] obtain w where w:
      "jsonv_feed (str_state v 0 e' hi' 0 ?h2) (us @ [0x22]) = (True, w)" "v_st w = S_COLON"
      "ctrs w = ctrs v" "v_depth w = v_depth v" "\<not> v_done w" by blast
    have t: "t = (t1 @ t2) @ us @ [0x22]"
      "v' = (v\<lparr>v_utf8 := 0, v_sub := s', v_khash := h'\<rparr>)\<lparr>v_st := S_COLON\<rparr>"
      using assms(3) True t1(1) ec us
      by (auto simp: close_string_def Let_def scalar_hash_def hash_bytes_def cong: if_cong)
    have "jsonv_feed v t = (True, w)" unfolding t(1) by (rule feed_then [OF f12 w(1)])
    moreover from this have "live w" using feed_live assms(1) by blast
    moreover have "ctrs v' = ctrs v" "v_depth v' = v_depth v" "v_st v' = S_COLON" "\<not> v_done v'"
      using dn unfolding t(2) by (simp_all add: ctrs_def)
    ultimately show ?thesis using w by (auto simp: matches_def)
  next
    case False
    then have st: "v_st v = S_STRING" using assms(2) by simp
    let ?w = "str_state v 0 e' hi' 0 ?h2"
    have "feed_byte ?w 0x22 = (Accept, value_done ?w)"
      using ins st by (simp add: feed_in_string feed_string_def)
    then have "jsonv_feed ?w [0x22] = (True, value_done ?w)" by simp
    from feed_then [OF f12 this] have f: "jsonv_feed v ((t1 @ t2) @ [0x22]) = (True, value_done ?w)" .
    have t: "t = (t1 @ t2) @ [0x22]" "v' = value_done (v\<lparr>v_utf8 := 0, v_sub := s', v_khash := v_khash v\<rparr>)"
      using assms(3) st t1(1) ec by (auto simp: close_string_def Let_def)
    then have "v_st v' = v_st (value_done ?w)" "v_done v' = v_done (value_done ?w)" "v_depth v' = v_depth (value_done ?w)"
      "ctrs v' = ctrs (value_done ?w)" by (auto simp: value_done_def ctrs_def str_state_def)
    moreover have "live (value_done ?w)" using feed_live [OF f assms(1)] .
    moreover have "v_st (value_done ?w) \<in> {S_COLON, S_AFTER, S_DONE}" by (simp add: value_done_def)
    ultimately show ?thesis using f unfolding t(1) by (auto simp: matches_def)
  qed
qed

lemma close_colon_feed:
  assumes "live w" "v_st w = S_COLON"
  shows "jsonv_feed w [0x3A] = (True, w\<lparr>v_st := S_VALUE\<rparr>)"
  using assms by (simp add: feed_byte_def feed_colon_def json_is_ws_def)

lemma close_key_expect_feed:
  assumes "live v" "v_st v = S_KEY_EXPECT"
  shows "\<exists>w. jsonv_feed v ([0x22, 0x5F] @ fst (dodge 64 v (json_key_hash_byte json_key_hash_init 0x5F)) @ [0x22, 0x3A])
      = (True, w) \<and> v_st w = S_VALUE \<and> ctrs w = ctrs v \<and> v_depth w = v_depth v \<and> \<not> v_done w"
proof -
  have p: "plain v" using live_plain [OF assms(1)] assms(2) by simp
  then have u: "v_utf8 v = 0" using plain_base by blast
  let ?k = "v\<lparr>v_st := S_KEY, v_sub := 0, v_khash := json_key_hash_init\<rparr>"
  have "under v True" "v_kseen_n v < json_key_seen_max" using assms by (simp_all add: live_from_def state_from_def)
  from enter_key [OF p this] have ist: "in_str ?k" by (simp add: in_str_from_def)
  have ins: "in_string ?k" using in_string_of ist .
  have f1: "feed_byte v 0x22 = (Accept, ?k)"
    using assms(2) by (simp add: feed_byte_def feed_key_expect_def json_is_ws_def)
  let ?h = "json_key_hash_byte json_key_hash_init 0x5F"
  have k: "?k = str_state ?k 0 (v_esc v) (v_esc_hi v) 0 json_key_hash_init" using u by (simp add: str_state_def)
  have h1: "hash_after 1 json_key_hash_init = ?h" by (simp add: hash_after_def)
  have "jsonv_feed ?k [0x5F] = (True, str_state ?k 0 (v_esc v) (v_esc_hi v) 0 ?h)"
    using feed_underscores [OF ins, of "v_esc v" "v_esc_hi v" json_key_hash_init 1] h1
    by (subst k) simp
  moreover obtain us h' where us: "dodge 64 ?k ?h = (us, h')" by (cases "dodge 64 ?k ?h")
  from feed_key_end [OF ist _ us, of "v_esc v" "v_esc_hi v"] obtain w where w:
    "jsonv_feed (str_state ?k 0 (v_esc v) (v_esc_hi v) 0 ?h) (us @ [0x22]) = (True, w)" "v_st w = S_COLON"
    "ctrs w = ctrs v" "v_depth w = v_depth v" "\<not> v_done w" by auto
  ultimately have f2: "jsonv_feed ?k ([0x5F] @ us @ [0x22]) = (True, w)" using feed_then by blast
  have "jsonv_feed w [0x3A] = (True, w\<lparr>v_st := S_VALUE\<rparr>)"
    using w(2) by (simp add: feed_byte_def feed_colon_def json_is_ws_def)
  from feed_then [OF f2 this] have "jsonv_feed ?k (([0x5F] @ us @ [0x22]) @ [0x3A]) = (True, w\<lparr>v_st := S_VALUE\<rparr>)" .
  then have f3: "jsonv_feed v ([0x22, 0x5F] @ us @ [0x22, 0x3A]) = (True, w\<lparr>v_st := S_VALUE\<rparr>)"
    using f1 by simp
  have "key_seen ?k x = key_seen v x" for x by (simp add: key_seen_def)
  then have "dodge n ?k x = dodge n v x" for n x by (induction n arbitrary: x) simp_all
  with us have "fst (dodge 64 v ?h) = us" by simp
  with f3 w show ?thesis by (intro exI [of _ "w\<lparr>v_st := S_VALUE\<rparr>"]) simp
qed

lemma close_lit_feed:
  assumes "v_st v = S_LIT" "v_sub v < length (LITS ! v_lit v)"
  shows "jsonv_feed v (drop (v_sub v) (LITS ! v_lit v))
    = (True, value_done (v\<lparr>v_sub := length (LITS ! v_lit v)\<rparr>))"
  using assms
proof (induction "length (LITS ! v_lit v) - v_sub v" arbitrary: v)
  case (Suc n)
  let ?l = "LITS ! v_lit v" and ?v = "v\<lparr>v_sub := v_sub v + 1\<rparr>"
  have dr: "drop (v_sub v) ?l = ?l ! v_sub v # drop (v_sub v + 1) ?l"
    using Suc.prems(2) by (simp add: Cons_nth_drop_Suc)
  have f: "feed_byte v (?l ! v_sub v) = (Accept, if v_sub v + 1 = length ?l then value_done ?v else ?v)"
    using Suc.prems by (simp add: feed_byte_def feed_lit_def Let_def)
  show ?case
  proof (cases "v_sub v + 1 = length ?l")
    case True
    with f dr show ?thesis by simp
  next
    case False
    have "jsonv_feed ?v (drop (v_sub ?v) (LITS ! v_lit ?v)) = (True, value_done (?v\<lparr>v_sub := length (LITS ! v_lit ?v)\<rparr>))"
      by (rule Suc.hyps(1)) (use Suc.hyps(2) Suc.prems False in simp_all)
    with f dr False show ?thesis by simp
  qed
qed simp

definition num_final :: "jst set" where
  "num_final = {S_NUM_ZERO, S_NUM_INT, S_NUM_FRAC, S_NUM_EXP}"

lemma close_num_feed:
  assumes "v_st v \<in> {S_NUM_MINUS, S_NUM_FRAC0, S_NUM_EXP0, S_NUM_EXP1}"
  shows "\<exists>x \<in> num_final. jsonv_feed v [0x30] = (True, v\<lparr>v_st := x\<rparr>)"
  using assms by (auto simp: num_final_def feed_byte_def feed_number_def is_digit_def)

lemma close_value_feed:
  assumes "live v" "v_st v = S_VALUE \<or> v_st v = S_ARR_FIRST"
  shows "\<exists>w. jsonv_feed v (ascii ''null'') = (True, w) \<and> v_st w = v_st (value_done v) \<and> ctrs w = ctrs v
    \<and> v_depth w = v_depth v \<and> v_done w = v_done (value_done v)"
proof -
  let ?v = "v\<lparr>v_st := S_LIT, v_lit := 2, v_sub := 1\<rparr>"
  have l: "LITS ! 2 = ascii ''null''" "ascii ''null'' = 0x6E # drop 1 (ascii ''null'')" "1 < length (ascii ''null'')"
    by (simp_all add: LITS_def ascii_def)
  have "feed_byte v 0x6E = (Accept, ?v)"
    using assms(2) by (auto simp: feed_byte_def feed_value_def json_is_ws_def)
  moreover have "jsonv_feed ?v (drop 1 (ascii ''null'')) = (True, value_done (?v\<lparr>v_sub := length (ascii ''null'')\<rparr>))"
    using close_lit_feed [of ?v] l by simp
  ultimately have "jsonv_feed v (ascii ''null'') = (True, value_done (?v\<lparr>v_sub := length (ascii ''null'')\<rparr>))"
    by (subst l(2)) simp
  then show ?thesis by (simp add: value_done_def ctrs_def)
qed

text \<open>The open containers, from a state that is between tokens.\<close>

lemma close_ctrs_feed:
  "matches w v' \<Longrightarrow> v_st w \<in> {S_AFTER, S_KEY_OR_END, S_DONE} \<Longrightarrow>
   \<exists>w'. jsonv_feed w (fst (close_ctrs v')) = (True, w') \<and> v_done w'"
proof (induction v' arbitrary: w rule: close_ctrs.induct)
  case (1 v')
  have lw: "live w" and eq: "v_st v' = v_st w" "ctrs v' = ctrs w" "v_depth v' = v_depth w" "v_done v' = v_done w"
    using "1.prems"(1) by (simp_all add: matches_def)
  show ?case
  proof (cases "v_st w = S_DONE")
    case True
    then have "v_done w" using live_done [OF lw] by simp
    with eq show ?thesis by (subst close_ctrs.simps) auto
  next
    case False
    then have st: "v_st w = S_AFTER \<or> v_st w = S_KEY_OR_END" using "1.prems"(2) by simp
    then have p: "plain w" using live_plain [OF lw] by auto
    have dn: "\<not> v_done w" using p by (simp add: plain_def)
    have dp: "0 < v_depth w" using live_depth [OF lw] st by auto
    have wf: "jsonv_wf w" using p by (simp add: plain_def)
    have len: "length (ctrs w) = v_depth w" using length_ctrs [OF wf] .
    have "v_stack v' ! (v_depth v' - 1) = ctrs v' ! (v_depth v' - 1)"
    proof -
      have "0 < v_depth v'" using dp eq by simp
      then show ?thesis unfolding ctrs_def by simp
    qed
    also have "\<dots> = last (ctrs w)" using eq len dp by (metis diff_less last_conv_nth length_greater_0_conv)
    finally have top: "v_stack v' ! (v_depth v' - 1) = last (ctrs w)" .
    let ?v1 = "value_done (v'\<lparr>v_depth := v_depth v' - 1\<rparr>)"
    have rec: "fst (close_ctrs v') = (if last (ctrs w) = obj_tag then 0x7D else 0x5D) # fst (close_ctrs ?v1)"
      using eq dn dp st top by (subst close_ctrs.simps) (simp add: Let_def split: prod.split)
    define obj where "obj = (last (ctrs w) = obj_tag)"
    have "last (ctrs w) \<in> {obj_tag, arr_tag}"
      using p len dp by (metis (no_types, lifting) last_in_set length_greater_0_conv plain_def subsetD tags_ok_def)
    then have un: "under w obj" using dp by (auto simp: under_def tag_of_def obj_def)
    let ?w1 = "value_done ((if obj then drop_keys w (v_depth w) else w)\<lparr>v_depth := v_depth w - 1\<rparr>)"
    have dk: "v_depth (drop_keys w (v_depth w)) = v_depth w" using drop_keys_view(3) [OF wf] .
    have f: "feed_byte w (close_of obj) = (Accept, ?w1)"
    proof (cases "v_st w = S_AFTER")
      case True
      have "v_stack w ! (v_depth w - 1) = tag_of obj" using top_last [OF wf dp] un by (simp add: under_def)
      with True dp dk show ?thesis
        by (cases obj) (simp_all add: feed_byte_def feed_after_def close_of_def tag_of_def json_is_ws_def Let_def)
    next
      case False
      then have k: "v_st w = S_KEY_OR_END" using st by simp
      then have "under w True" using lw by (simp add: live_from_def state_from_def)
      then have obj using un by (cases obj) (auto simp: under_def tag_of_def)
      with k dk show ?thesis by (simp add: feed_byte_def feed_key_or_end_def close_of_def json_is_ws_def Let_def)
    qed
    have cl: "closed w ?w1"
      using close_object [OF wf dn dp] close_array [OF wf dn dp] array_seen [OF p] un by (cases obj) simp_all
    have l1: "live ?w1" using closed_live [OF cl p] .
    have s1: "v_st ?w1 \<in> {S_AFTER, S_KEY_OR_END, S_DONE}" by (simp add: value_done_def)
    have m1: "matches ?w1 ?v1"
    proof -
      have cd: "ctrs ?w1 = butlast (ctrs w)" "v_depth ?w1 = v_depth w - 1" using cl by (simp_all add: closed_def)
      have "ctrs ?v1 = take (v_depth v' - 1) (ctrs v')" by (simp add: ctrs_def value_done_def)
      also have "\<dots> = butlast (ctrs w)" using eq len by (simp add: butlast_conv_take)
      finally have "ctrs ?v1 = ctrs ?w1" using cd by simp
      moreover have "v_st ?v1 = v_st ?w1" "v_done ?v1 = v_done ?w1" "v_depth ?v1 = v_depth ?w1"
        using eq dn cd drop_keys_view(4) [OF wf, of "v_depth w"] by (auto simp: value_done_def)
      ultimately show ?thesis using l1 by (simp add: matches_def)
    qed
    have c: "\<not> v_done v' \<and> v_depth v' > 0 \<and> (v_st v' = S_AFTER \<or> v_st v' = S_KEY_OR_END)"
      using eq dn dp st by simp
    from "1.IH" [OF c refl m1 s1] obtain w' where "jsonv_feed ?w1 (fst (close_ctrs ?v1)) = (True, w')" "v_done w'"
      by blast
    with f show ?thesis unfolding rec by (auto simp: close_of_def obj_def split: if_splits)
  qed
qed

subsection \<open>The whole text\<close>

text \<open>
  A number that is complete is left as it is: the machine is still inside it when the first closing
  byte comes, and takes that byte as its end.
\<close>

lemma number_then_close:
  assumes "live w" "v_st w \<in> num_final" "c = 0x7D \<or> c = 0x5D"
  shows "jsonv_feed w (c # t) = jsonv_feed (value_done w) (c # t)"
proof -
  have "\<not> is_digit c" "c \<noteq> 0x2E" "c \<noteq> 0x65" "c \<noteq> 0x45" using assms(3) by (auto simp: is_digit_def)
  then have f: "feed_byte w c = (Reconsume, value_done w)"
    using assms(2) by (auto simp: num_final_def feed_byte_def feed_number_def)
  obtain r x where rx: "feed_byte (value_done w) c = (r, x)" by (cases "feed_byte (value_done w) c")
  with feed_settled_fst [of w c] have "r \<noteq> Reconsume" by auto
  with f rx show ?thesis by (cases r) auto
qed

definition closes :: "jsonv \<Rightarrow> bytes \<Rightarrow> bool" where
  "closes w t \<longleftrightarrow> (\<exists>w'. jsonv_feed w t = (True, w') \<and> v_done w')"

lemma closes_then: "jsonv_feed v s = (True, w) \<Longrightarrow> closes w t \<Longrightarrow> closes v (s @ t)"
  unfolding closes_def using feed_then by metis

lemma close_settled: "matches w v' \<Longrightarrow> v_st w \<in> {S_AFTER, S_KEY_OR_END, S_DONE} \<Longrightarrow> closes w (fst (close_ctrs v'))"
  unfolding closes_def by (rule close_ctrs_feed)

lemma value_done_matches:
  assumes "live w" "v_st w \<noteq> S_DONE" "v_utf8 w = 0" "v_depth v' = v_depth w" "ctrs v' = ctrs w" "v_done v' = v_done w"
  shows "matches (value_done w) (value_done v') \<and> v_st (value_done w) \<in> {S_AFTER, S_KEY_OR_END, S_DONE}"
proof -
  have "plain w" using base_wf [of w] assms(1-3) live_done [OF assms(1)]
    by (simp add: plain_def live_from_def) (simp add: base_ok_def)
  then have "live (value_done w)" by (rule value_done_live)
  with assms show ?thesis by (auto simp: matches_def value_done_def ctrs_def)
qed

lemma close_number_tail:
  assumes "live w" "v_st w \<in> num_final" "v_depth v' = v_depth w" "ctrs v' = ctrs w" "v_done v' = v_done w"
  shows "closes w (fst (close_ctrs (value_done v')))"
proof -
  have st: "v_st w \<notin> {S_KEY, S_STRING, S_DONE, S_START}" using assms(2) by (auto simp: num_final_def)
  have u: "v_utf8 w = 0" using assms(1) st by (simp add: live_from_def)
  from value_done_matches [OF assms(1) _ u assms(3-5)] st
  have m: "matches (value_done w) (value_done v')" "v_st (value_done w) \<in> {S_AFTER, S_KEY_OR_END, S_DONE}" by auto
  then have cl: "closes (value_done w) (fst (close_ctrs (value_done v')))" by (rule close_settled)
  have dp: "0 < v_depth w" using live_depth [OF assms(1)] st by auto
  have dn: "\<not> v_done w" using live_done [OF assms(1)] st by auto
  have "\<exists>c t. fst (close_ctrs (value_done v')) = c # t \<and> (c = 0x7D \<or> c = 0x5D)"
    using dp dn assms(3,5) by (subst close_ctrs.simps) (simp add: value_done_def Let_def split: prod.split)
  then obtain c t where "fst (close_ctrs (value_done v')) = c # t" "c = 0x7D \<or> c = 0x5D" by blast
  with cl number_then_close [OF assms(1,2)] show ?thesis by (simp add: closes_def)
qed

text \<open>From a value's place on.\<close>

lemma close_value_tail:
  assumes "live w" "v_st w = S_VALUE \<or> v_st w = S_ARR_FIRST" "v_depth v' = v_depth w" "ctrs v' = ctrs w" "v_done v' = v_done w"
  shows "closes w (ascii ''null'' @ fst (close_ctrs (value_done v')))"
proof -
  have u: "v_utf8 w = 0" and nd: "v_st w \<noteq> S_DONE" using assms(1,2) by (auto simp: live_from_def)
  from close_value_feed [OF assms(1,2)] obtain w1 where w1: "jsonv_feed w (ascii ''null'') = (True, w1)"
    "v_st w1 = v_st (value_done w)" "ctrs w1 = ctrs w" "v_depth w1 = v_depth w" "v_done w1 = v_done (value_done w)" by blast
  have "matches (value_done w) (value_done v') \<and> v_st (value_done w) \<in> {S_AFTER, S_KEY_OR_END, S_DONE}"
    by (rule value_done_matches [OF assms(1) nd u assms(3-5)])
  moreover have "ctrs (value_done w) = ctrs w" "v_depth (value_done w) = v_depth w" by (simp_all add: value_done_def ctrs_def)
  moreover have "live w1" using feed_live [OF w1(1) assms(1)] .
  ultimately have "matches w1 (value_done v')" "v_st w1 \<in> {S_AFTER, S_KEY_OR_END, S_DONE}"
    using w1(2-5) by (auto simp: matches_def)
  from closes_then [OF w1(1) close_settled [OF this]] show ?thesis .
qed

lemma then_close_skip: "f v = ([], v) \<Longrightarrow> then_close (t, v) f = (t, v)"
  by (simp add: then_close_def)

lemma then_close_step: "f v = (s, w) \<Longrightarrow> then_close (t, v) f = (t @ s, w)"
  by (simp add: then_close_def)

lemma then_close_last: "fst (then_close (t, v) f) = t @ fst (f v)"
  by (simp add: then_close_def split: prod.split)

lemmas close_stages = close_colon_def close_key_expect_def close_lit_def close_number_def close_value_def

lemma value_done_st_cases: "v_st (value_done v) = S_DONE \<or> v_st (value_done v) = S_AFTER"
  by (simp add: value_done_def)

text \<open>The stages after the string stage, by the state they start in.\<close>

definition close_rest :: "bytes \<times> jsonv \<Rightarrow> bytes \<times> jsonv" where
  "close_rest r = then_close (then_close (then_close (then_close (then_close (then_close r
      close_colon) close_key_expect) close_lit) close_number) close_value) close_ctrs"

lemma close_rest_by:
  assumes "close_colon v = (t1, v1)" "close_key_expect v1 = (t2, v2)" "close_lit v2 = (t3, v3)"
    "close_number v3 = (t4, v4)" "close_value v4 = (t5, v5)"
  shows "fst (close_rest (t, v)) = t @ t1 @ t2 @ t3 @ t4 @ t5 @ fst (close_ctrs v5)"
  using assms by (simp add: close_rest_def then_close_def split: prod.split)

text \<open>Stages that have nothing to do.\<close>

lemma close_skip:
  "v_st v \<noteq> S_COLON \<Longrightarrow> close_colon v = ([], v)"
  "v_st v \<noteq> S_KEY_EXPECT \<Longrightarrow> close_key_expect v = ([], v)"
  "v_st v \<noteq> S_LIT \<Longrightarrow> close_lit v = ([], v)"
  "v_st v \<notin> num_states \<Longrightarrow> close_number v = ([], v)"
  "v_st v \<noteq> S_VALUE \<Longrightarrow> v_st v \<noteq> S_ARR_FIRST \<Longrightarrow> close_value v = ([], v)"
  by (auto simp: close_stages num_states_def)

lemma close_skip_done:
  "close_number (value_done v) = ([], value_done v)" "close_value (value_done v) = ([], value_done v)"
  using value_done_st_cases [of v] by (auto intro!: close_skip simp: num_states_def)

lemma close_rest_settled:
  assumes "v_st v' \<in> {S_AFTER, S_KEY_OR_END, S_DONE}"
  shows "fst (close_rest (t, v')) = t @ fst (close_ctrs v')"
proof -
  have "close_colon v' = ([], v')" "close_key_expect v' = ([], v')" "close_lit v' = ([], v')"
    "close_number v' = ([], v')" "close_value v' = ([], v')"
    by (rule close_skip; use assms in \<open>auto simp: num_states_def\<close>)+
  from close_rest_by [OF this] show ?thesis by simp
qed

lemma close_rest_value:
  assumes "v_st v' = S_VALUE \<or> v_st v' = S_ARR_FIRST"
  shows "fst (close_rest (t, v')) = t @ ascii ''null'' @ fst (close_ctrs (value_done v'))"
proof -
  have "close_colon v' = ([], v')" "close_key_expect v' = ([], v')" "close_lit v' = ([], v')" "close_number v' = ([], v')"
    by (rule close_skip; use assms in \<open>auto simp: num_states_def\<close>)+
  moreover have "close_value v' = (ascii ''null'', value_done v')" using assms by (simp add: close_value_def)
  ultimately show ?thesis using close_rest_by [of v' "[]" v' "[]" v' "[]" v' "[]" v'] by simp
qed

lemma close_rest_colon:
  assumes "v_st v' = S_COLON"
  shows "fst (close_rest (t, v')) = t @ [0x3A] @ ascii ''null'' @ fst (close_ctrs (value_done v'))"
proof -
  let ?w = "v'\<lparr>v_st := S_VALUE\<rparr>"
  have "close_colon v' = ([0x3A], ?w)" using assms by (simp add: close_colon_def)
  moreover have "close_key_expect ?w = ([], ?w)" "close_lit ?w = ([], ?w)" "close_number ?w = ([], ?w)"
    by (rule close_skip; simp add: num_states_def)+
  moreover have "close_value ?w = (ascii ''null'', value_done v')" by (simp add: close_value_def)
  ultimately show ?thesis using close_rest_by [of v' "[0x3A]" ?w "[]" ?w "[]" ?w "[]" ?w] by simp
qed

lemma close_rest_key_expect:
  assumes "v_st v' = S_KEY_EXPECT"
  shows "fst (close_rest (t, v')) = t @ ([0x22, 0x5F] @ fst (dodge 64 v' (json_key_hash_byte json_key_hash_init 0x5F)) @ [0x22, 0x3A])
     @ ascii ''null'' @ fst (close_ctrs (value_done v'))"
proof -
  let ?w = "v'\<lparr>v_st := S_VALUE\<rparr>"
  let ?t = "[0x22, 0x5F] @ fst (dodge 64 v' (json_key_hash_byte json_key_hash_init 0x5F)) @ [0x22, 0x3A]"
  have "close_colon v' = ([], v')" by (rule close_skip) (simp add: assms)
  moreover have "close_key_expect v' = (?t, ?w)" using assms by (simp add: close_key_expect_def Let_def)
  moreover have "close_lit ?w = ([], ?w)" "close_number ?w = ([], ?w)"
    by (rule close_skip; simp add: num_states_def)+
  moreover have "close_value ?w = (ascii ''null'', value_done v')" by (simp add: close_value_def)
  ultimately show ?thesis using close_rest_by [of v' "[]" v' ?t ?w "[]" ?w "[]" ?w] by simp
qed

lemma close_rest_lit:
  assumes "v_st v' = S_LIT" "v_sub v' \<le> length (LITS ! v_lit v')"
  shows "fst (close_rest (t, v')) = t @ drop (v_sub v') (LITS ! v_lit v')
     @ fst (close_ctrs (value_done (v'\<lparr>v_sub := length (LITS ! v_lit v')\<rparr>)))"
proof -
  let ?w = "value_done (v'\<lparr>v_sub := length (LITS ! v_lit v')\<rparr>)"
  let ?t = "drop (v_sub v') (LITS ! v_lit v')"
  have "close_colon v' = ([], v')" "close_key_expect v' = ([], v')" by (rule close_skip; simp add: assms)+
  moreover have "close_lit v' = (?t, ?w)" using assms by (simp add: close_lit_def Let_def max_def)
  ultimately show ?thesis using close_rest_by [of v' "[]" v' "[]" v' ?t ?w "[]" ?w "[]" ?w] by (simp add: close_skip_done)
qed

lemma close_rest_num:
  "v_st v' \<in> {S_NUM_MINUS, S_NUM_FRAC0, S_NUM_EXP0, S_NUM_EXP1} \<Longrightarrow>
   fst (close_rest (t, v')) = t @ [0x30] @ fst (close_ctrs (value_done v'))"
  "v_st v' \<in> num_final \<Longrightarrow> fst (close_rest (t, v')) = t @ fst (close_ctrs (value_done v'))"
proof -
  have sk: "close_colon v' = ([], v')" "close_key_expect v' = ([], v')" "close_lit v' = ([], v')"
    if "v_st v' \<in> num_states" by (rule close_skip; use that in \<open>auto simp: num_states_def\<close>)+
  { assume a: "v_st v' \<in> {S_NUM_MINUS, S_NUM_FRAC0, S_NUM_EXP0, S_NUM_EXP1}"
    then have "v_st v' \<in> num_states" by (auto simp: num_states_def)
    moreover have "close_number v' = ([0x30], value_done v')" using a by (simp add: close_number_def)
    ultimately show "fst (close_rest (t, v')) = t @ [0x30] @ fst (close_ctrs (value_done v'))"
      using sk close_rest_by [of v' "[]" v' "[]" v' "[]" v' "[0x30]" "value_done v'" "[]" "value_done v'"]
      by (simp add: close_skip_done) }
  { assume a: "v_st v' \<in> num_final"
    then have "v_st v' \<in> num_states" by (auto simp: num_states_def num_final_def)
    moreover have "close_number v' = ([], value_done v')" using a by (auto simp: close_number_def num_final_def)
    ultimately show "fst (close_rest (t, v')) = t @ fst (close_ctrs (value_done v'))"
      using sk close_rest_by [of v' "[]" v' "[]" v' "[]" v' "[]" "value_done v'" "[]" "value_done v'"]
      by (simp add: close_skip_done) }
qed

lemma close_all_rest: "close_all v = close_rest (close_string v)"
  by (simp add: close_all_def close_rest_def)

lemma close_num_closes:
  assumes "live v" "v_st v \<in> num_states"
  shows "closes v (fst (close_rest ([], v)))"
proof (cases "v_st v \<in> num_final")
  case True
  then show ?thesis using close_number_tail [OF assms(1) True refl refl refl] by (simp add: close_rest_num(2))
next
  case False
  then have st: "v_st v \<in> {S_NUM_MINUS, S_NUM_FRAC0, S_NUM_EXP0, S_NUM_EXP1}"
    using assms(2) by (auto simp: num_states_def num_final_def)
  from close_num_feed [OF this] obtain x where x: "x \<in> num_final" "jsonv_feed v [0x30] = (True, v\<lparr>v_st := x\<rparr>)" by blast
  have "closes (v\<lparr>v_st := x\<rparr>) (fst (close_ctrs (value_done v)))"
    by (rule close_number_tail [OF feed_live [OF x(2) assms(1)]]) (use x(1) in simp_all)
  from closes_then [OF x(2) this] show ?thesis by (simp add: close_rest_num(1) [OF st])
qed

lemma close_all_closes:
  assumes "live v" "v_st v \<noteq> S_START" "v_st v \<noteq> S_DONE"
  shows "closes v (fst (close_all v))"
proof -
  have dn: "\<not> v_done v" using live_done [OF assms(1)] assms(3) by simp
  have mv: "matches v v" using assms(1) by (simp add: matches_def)
  have val: "closes w (ascii ''null'' @ fst (close_ctrs (value_done v')))"
    if "jsonv_feed v s = (True, w)" "v_st w = S_VALUE" "v_depth v' = v_depth w" "ctrs v' = ctrs w" "v_done v' = v_done w" for s w v'
    using close_value_tail [OF feed_live [OF that(1) assms(1)] disjI1 [OF that(2)] that(3-5)] .
  show ?thesis
  proof (cases "v_st v = S_KEY \<or> v_st v = S_STRING")
    case True
    obtain t v' where cs: "close_string v = (t, v')" by (cases "close_string v")
    from close_string_feed [OF assms(1) True cs] obtain w where
      w: "jsonv_feed v t = (True, w)" "matches w v'" "v_st w \<in> {S_COLON, S_AFTER, S_DONE}" by blast
    show ?thesis
    proof (cases "v_st w = S_COLON")
      case False
      with w have "v_st v' \<in> {S_AFTER, S_KEY_OR_END, S_DONE}" by (auto simp: matches_def)
      with closes_then [OF w(1) close_settled [OF w(2)]] False w(3) show ?thesis
        by (auto simp: close_all_rest cs close_rest_settled)
    next
      case True
      let ?w = "w\<lparr>v_st := S_VALUE\<rparr>"
      have lw: "live w" using w(2) by (simp add: matches_def)
      have f: "jsonv_feed v (t @ [0x3A]) = (True, ?w)" using feed_then [OF w(1) close_colon_feed [OF lw True]] .
      have v': "v_st v' = S_COLON" "ctrs v' = ctrs ?w" "v_depth v' = v_depth ?w" "v_done v' = v_done ?w"
        using w(2) True by (simp_all add: matches_def)
      have "closes ?w (ascii ''null'' @ fst (close_ctrs (value_done v')))" by (rule val [OF f]) (use v' in simp_all)
      from closes_then [OF f this] show ?thesis by (simp add: close_all_rest cs close_rest_colon v'(1))
    qed
  next
    case False
    then have cs: "close_string v = ([], v)" by (simp add: close_string_def)
    note all = close_all_rest cs
    show ?thesis
    proof (cases "v_st v")
      case S_AFTER
      with close_settled [OF mv] show ?thesis by (simp add: all close_rest_settled)
    next
      case S_KEY_OR_END
      with close_settled [OF mv] show ?thesis by (simp add: all close_rest_settled)
    next
      case S_VALUE
      with close_value_tail [OF assms(1), of v] show ?thesis by (simp add: all close_rest_value)
    next
      case S_ARR_FIRST
      with close_value_tail [OF assms(1), of v] show ?thesis by (simp add: all close_rest_value)
    next
      case S_COLON
      let ?w = "v\<lparr>v_st := S_VALUE\<rparr>"
      have f: "jsonv_feed v [0x3A] = (True, ?w)" using close_colon_feed [OF assms(1) S_COLON] .
      have "closes ?w (ascii ''null'' @ fst (close_ctrs (value_done v)))" by (rule val [OF f]) simp_all
      from closes_then [OF f this] show ?thesis by (simp add: all close_rest_colon S_COLON)
    next
      case S_KEY_EXPECT
      from close_key_expect_feed [OF assms(1) S_KEY_EXPECT] obtain w where w:
        "jsonv_feed v ([0x22, 0x5F] @ fst (dodge 64 v (json_key_hash_byte json_key_hash_init 0x5F)) @ [0x22, 0x3A]) = (True, w)"
        "v_st w = S_VALUE" "ctrs w = ctrs v" "v_depth w = v_depth v" "\<not> v_done w" by blast
      have "closes w (ascii ''null'' @ fst (close_ctrs (value_done v)))" by (rule val [OF w(1)]) (use w dn in simp_all)
      from closes_then [OF w(1) this] show ?thesis by (simp add: all close_rest_key_expect S_KEY_EXPECT)
    next
      case S_LIT
      let ?n = "length (LITS ! v_lit v)"
      let ?w = "value_done (v\<lparr>v_sub := ?n\<rparr>)"
      have l: "v_sub v < ?n" using assms(1) S_LIT by (simp add: live_from_def state_from_def)
      note f = close_lit_feed [OF S_LIT l]
      have "live ?w" using feed_live [OF f assms(1)] .
      then have "matches ?w ?w" by (simp add: matches_def)
      moreover have "v_st ?w \<in> {S_AFTER, S_KEY_OR_END, S_DONE}" by (simp add: value_done_def)
      ultimately have "closes ?w (fst (close_ctrs ?w))" by (rule close_settled)
      from closes_then [OF f this] l S_LIT show ?thesis by (simp add: all close_rest_lit)
    next
      case S_START
      with assms(2) show ?thesis by simp
    next
      case S_DONE
      with assms(3) show ?thesis by simp
    next
      case S_KEY
      with False show ?thesis by simp
    next
      case S_STRING
      with False show ?thesis by simp
    qed (use close_num_closes [OF assms(1)] in \<open>simp_all add: all num_states_def\<close>)
  qed
qed

text \<open>The text fits the callers' buffers of 512 and 600 bytes.\<close>

lemma length_then_close: "length (fst (then_close r f)) = length (fst r) + length (fst (f (snd r)))"
  by (simp add: then_close_def split: prod.split)

lemma snd_then_close: "snd (then_close r f) = snd (f (snd r))"
  by (simp add: then_close_def split: prod.split)

lemma utf8_close_len: "length (fst (utf8_close_loop n u)) \<le> n"
  by (induction n u rule: utf8_close_loop.induct) (auto split: prod.split)

lemma dodge_len: "length (fst (dodge n v h)) \<le> n"
  by (induction n v h rule: dodge.induct) (auto split: prod.split)

lemma escape_close_len: "length (fst (snd (json_escape_close sub e hi 12))) \<le> 12"
  by (auto simp: json_escape_close_def Let_def min_def split: prod.split)

lemma value_done_depth: "v_depth (value_done v) = v_depth v"
  by (simp add: value_done_def)

definition lit_ok :: "jsonv \<Rightarrow> bool" where
  "lit_ok v \<longleftrightarrow> (v_st v = S_LIT \<longrightarrow> v_lit v < 3)"

lemma close_string_len:
  "length (fst (close_string v)) \<le> 80 \<and> v_depth (snd (close_string v)) = v_depth v \<and> (lit_ok v \<longrightarrow> lit_ok (snd (close_string v)))"
proof (cases "v_st v = S_KEY \<or> v_st v = S_STRING")
  case True
  obtain u8 u where u: "json_utf8_close (v_utf8 v) = (u8, u)" by (cases "json_utf8_close (v_utf8 v)")
  obtain s' e sc where e: "json_escape_close (v_sub v) (v_esc v) (v_esc_hi v) 12 = (s', e, sc)" by (metis prod_cases3)
  have l: "length u8 \<le> 3" "length e \<le> 12"
    using utf8_close_len [of 3 "v_utf8 v"] escape_close_len [of "v_sub v" "v_esc v" "v_esc_hi v"] u e
    by (simp_all add: json_utf8_close_def)
  have d: "length us \<le> 64" if "dodge 64 v h = (us, h')" for us h h' using dodge_len [of 64 v h] that by simp
  from True show ?thesis
  proof
    assume "v_st v = S_KEY"
    with l d u e show ?thesis
      by (auto simp: close_string_def Let_def lit_ok_def cong: if_cong split: prod.split) fastforce+
  next
    assume "v_st v = S_STRING"
    with l u e show ?thesis
      by (auto simp: close_string_def Let_def lit_ok_def value_done_def cong: if_cong split: prod.split)
  qed
qed (simp add: close_string_def)

lemma close_colon_len:
  "length (fst (close_colon v)) \<le> 1 \<and> v_depth (snd (close_colon v)) = v_depth v \<and> (lit_ok v \<longrightarrow> lit_ok (snd (close_colon v)))"
  by (simp add: close_colon_def lit_ok_def)

lemma close_key_expect_len:
  "length (fst (close_key_expect v)) \<le> 68 \<and> v_depth (snd (close_key_expect v)) = v_depth v
    \<and> (lit_ok v \<longrightarrow> lit_ok (snd (close_key_expect v)))"
  using dodge_len [of 64 v "json_key_hash_byte json_key_hash_init 0x5F"]
  by (simp add: close_key_expect_def lit_ok_def Let_def)

lemma LITS_len: "k < 3 \<Longrightarrow> length (LITS ! k) \<le> 5"
  by (auto simp: LITS_def less_Suc_eq numeral_eq_Suc ascii_def)

lemma close_lit_len:
  "lit_ok v \<Longrightarrow> length (fst (close_lit v)) \<le> 5 \<and> v_depth (snd (close_lit v)) = v_depth v"
  using LITS_len [of "v_lit v"] by (auto simp: close_lit_def lit_ok_def Let_def value_done_depth)

lemma close_number_len: "length (fst (close_number v)) \<le> 1 \<and> v_depth (snd (close_number v)) = v_depth v"
  by (simp add: close_number_def value_done_depth)

lemma close_value_len: "length (fst (close_value v)) \<le> 4 \<and> v_depth (snd (close_value v)) = v_depth v"
  by (simp add: close_value_def value_done_depth ascii_def)

lemma close_ctrs_len: "length (fst (close_ctrs v)) \<le> v_depth v"
proof (induction v rule: close_ctrs.induct)
  case (1 v)
  let ?w = "value_done (v\<lparr>v_depth := v_depth v - 1\<rparr>)"
  show ?case
  proof (cases "\<not> v_done v \<and> v_depth v > 0 \<and> (v_st v = S_AFTER \<or> v_st v = S_KEY_OR_END)")
    case True
    from "1.IH" [OF True refl] have "length (fst (close_ctrs ?w)) \<le> v_depth v - 1" by (simp add: value_done_depth)
    with True show ?thesis by (subst close_ctrs.simps) (auto simp: Let_def case_prod_beta)
  next
    case False
    then show ?thesis by (subst close_ctrs.simps) (simp only: if_False fst_conv list.size zero_le)
  qed
qed

lemma close_all_len:
  assumes "live v"
  shows "length (fst (close_all v)) < 300"
proof -
  have "lit_ok v" using assms by (auto simp: lit_ok_def live_from_def state_from_def)
  moreover have "v_depth v \<le> 127"
    using assms by (simp add: live_from_def base_ok_def json_max_container_depth_def json_max_depth_def)
  define v1 where "v1 = snd (close_string v)"
  define v2 where "v2 = snd (close_colon v1)"
  define v3 where "v3 = snd (close_key_expect v2)"
  define v4 where "v4 = snd (close_lit v3)"
  define v5 where "v5 = snd (close_number v4)"
  define v6 where "v6 = snd (close_value v5)"
  have len: "length (fst (close_all v)) = length (fst (close_string v)) + length (fst (close_colon v1))
      + length (fst (close_key_expect v2)) + length (fst (close_lit v3)) + length (fst (close_number v4))
      + length (fst (close_value v5)) + length (fst (close_ctrs v6))"
    by (simp add: close_all_def length_then_close snd_then_close v1_def v2_def v3_def v4_def v5_def v6_def)
  have l3: "lit_ok v3" using \<open>lit_ok v\<close> close_string_len [of v] close_colon_len [of v1] close_key_expect_len [of v2]
    by (simp add: v1_def v2_def v3_def)
  have d: "v_depth v6 = v_depth v"
    using close_string_len [of v] close_colon_len [of v1] close_key_expect_len [of v2] close_lit_len [OF l3]
      close_number_len [of v4] close_value_len [of v5]
    by (simp add: v1_def v2_def v3_def v4_def v5_def v6_def)
  show ?thesis
    using close_string_len [of v] close_colon_len [of v1] close_key_expect_len [of v2] close_lit_len [OF l3]
      close_number_len [of v4] close_value_len [of v5] close_ctrs_len [of v6] d \<open>v_depth v \<le> 127\<close>
    unfolding len by linarith
qed

text \<open>
  Property C5. Wherever generation stops inside a document, the bytes \<open>jsonv_close\<close> writes (always
  fewer than 300, so a buffer of 512 holds them) complete it: the validator accepts them from its
  state and ends done, and \<open>json_parse\<close> reads the completed text as an object, given that its
  numbers are in range.
\<close>

theorem close_completes:
  assumes "jsonv_memory m" "jsonv_feed (jsonv_init m) s = (True, v)" "\<not> v_done v" "v_st v \<noteq> S_START" "300 \<le> cap"
  shows "\<exists>w. jsonv_feed v (fst (jsonv_close v cap)) = (True, w) \<and> v_done w
    \<and> (numbers_ok strtod (s @ fst (jsonv_close v cap))
       \<longrightarrow> (\<exists>ms. json_parse strtod (s @ fst (jsonv_close v cap)) = Some (J_OBJ ms)))"
proof -
  have lv: "live v" using feed_live [OF assms(2) init_live [OF assms(1)]] .
  have "v_st v \<noteq> S_DONE" using live_done [OF lv] assms(3) by simp
  from close_all_closes [OF lv assms(4) this] obtain w where
    w: "jsonv_feed v (fst (close_all v)) = (True, w)" "v_done w" unfolding closes_def by blast
  have t: "fst (jsonv_close v cap) = fst (close_all v)"
    using close_all_len [OF lv] assms(3-5) by (simp add: jsonv_close_def case_prod_beta)
  have "jsonv_feed (jsonv_init m) (s @ fst (close_all v)) = (True, w)" using feed_then [OF assms(2) w(1)] .
  with w accepted_reads [OF assms(1)] show ?thesis unfolding t by blast
qed

text \<open>The witness: generation stopped after {"a":[tr.\<close>

definition cut0 :: bytes where
  "cut0 = [0x7B, 0x22, 0x61, 0x22, 0x3A, 0x5B, 0x74, 0x72]"

definition state0 :: jsonv where
  "state0 = snd (jsonv_feed (jsonv_init memory0) cut0)"

lemma cut0_accepted:
  "jsonv_feed (jsonv_init memory0) cut0 = (True, state0)" "\<not> v_done state0" "v_st state0 \<noteq> S_START"
proof -
  have "fst (jsonv_feed (jsonv_init memory0) cut0) \<and> \<not> v_done state0 \<and> v_st state0 = S_LIT" by code_simp
  then show "jsonv_feed (jsonv_init memory0) cut0 = (True, state0)" "\<not> v_done state0" "v_st state0 \<noteq> S_START"
    by (simp_all add: state0_def prod_eq_iff)
qed

theorem close_completes_witness:
  "\<exists>ms. json_parse (\<lambda>s. (0, length s, False)) (cut0 @ fst (jsonv_close state0 512)) = Some (J_OBJ ms)"
proof -
  have "(300 :: nat) \<le> 512" by simp
  from close_completes [OF memory0_ok cut0_accepted this] numbers_ok_any show ?thesis by blast
qed

text \<open>
  The guard loop of the closer always finds a key the object does not have: on every
  state the validator keeps, at most 64 underscores (in fact at most 24) take the hash of the key off
  the list of hashes recorded for the open object.
\<close>

lemma dodge_escapes:
  assumes "jsonv_wf v"
  shows "\<not> key_seen v (snd (dodge 64 v h)) \<and> set (fst (dodge 64 v h)) \<subseteq> {0x5F}"
  using dodge_fresh [OF assms, of h] by auto

end
