(* ===== verification/Json_Escape.thy ===== *)
theory Json_Escape
  imports Json_View
begin

section \<open>Writing JSON strings (src/src/json.c)\<close>

text \<open>
  \<open>json_escape\<close> and the growable buffer \<^verbatim>\<open>sbuf\<close>. A C string is the bytes before
  its terminator (\<open>cstr\<close>). Whether an allocation of a given size succeeds is a
  parameter \<open>alloc\<close> of the operations that allocate.

  Lemmas: what \<open>json_escape\<close> writes is always the body of a JSON string, which the parser
  decodes to the input with every ill-formed byte replaced by U+FFFD; the buffer of
  \<open>sb_esc\<close> is always large enough; a buffer either holds everything that was put or
  has failed.
\<close>

definition cstr :: "bytes \<Rightarrow> bytes" where
  "cstr s = takeWhile (\<lambda>c. c \<noteq> 0) s"

subsection \<open>Escaping\<close>

definition hex_digit :: "nat \<Rightarrow> u8" where
  "hex_digit d = (if d < 10 then of_nat (0x30 + d) else of_nat (0x61 + (d - 10)))"

text \<open>\<^verbatim>\<open>snprintf(..., "\u%04x", c)\<close> for a byte.\<close>

definition u_escape :: "u8 \<Rightarrow> bytes" where
  "u_escape c = [0x5C, 0x75, 0x30, 0x30, hex_digit (unat c div 16), hex_digit (unat c mod 16)]"

text \<open>The \<^verbatim>\<open>switch\<close> of one-character escapes.\<close>

definition short_escape :: "u8 \<Rightarrow> u8 option" where
  "short_escape c =
    (if c = 0x22 then Some 0x22
     else if c = 0x5C then Some 0x5C
     else if c = 0x0A then Some 0x6E
     else if c = 0x0D then Some 0x72
     else if c = 0x09 then Some 0x74
     else if c = 0x08 then Some 0x62
     else if c = 0x0C then Some 0x66
     else None)"

text \<open>
  One turn of the loop: what is appended when \<open>m\<close> bytes are already there, and how many
  input bytes it used.
\<close>

definition escape_item :: "nat \<Rightarrow> nat \<Rightarrow> bytes \<Rightarrow> bytes \<times> nat" where
  "escape_item cap m s =
    (let c = hd s in
     case short_escape c of Some e \<Rightarrow> ([0x5C, e], 1)
     | None \<Rightarrow>
       if c < 0x20 then (u_escape c, 1)
       else if c < 0x80 then ([c], 1)
       else let len = utf8_seq s in
         if len = 0 then ([0xEF, 0xBF, 0xBD], 1)
         else (take (min len (cap - 1 - m)) s, len))"

lemma utf8_seq_le: "utf8_seq s \<le> length s"
  by (cases "utf8_seq s = 0") (use utf8_seq_sound in auto)

lemma escape_item_used: "escape_item cap m s = (b, k) \<Longrightarrow> s \<noteq> [] \<Longrightarrow> 0 < k \<and> k \<le> length s"
  using utf8_seq_le [of s]
  by (cases s) (auto simp: escape_item_def Let_def split: option.splits if_splits)

function escape_loop :: "nat \<Rightarrow> bytes \<Rightarrow> bytes \<Rightarrow> bytes" where
  "escape_loop cap out s =
    (if s \<noteq> [] \<and> length out + 8 < cap then
       (case escape_item cap (length out) s of (b, k) \<Rightarrow> escape_loop cap (out @ b) (drop k s))
     else out)"
  by pat_completeness auto
termination
proof (relation "measure (\<lambda>(cap, out, s). length s)")
  fix cap :: nat and out s :: bytes and b k
  assume "s \<noteq> [] \<and> length out + 8 < cap" "(b, k) = escape_item cap (length out) s"
  then have "0 < k" "s \<noteq> []" using escape_item_used [of cap "length out" s b k] by auto
  then show "((cap, out @ b, drop k s), cap, out, s) \<in> measure (\<lambda>(cap, out, s). length s)" by simp
qed simp

declare escape_loop.simps [simp del]

definition json_escape :: "bytes \<Rightarrow> nat \<Rightarrow> bytes" where
  "json_escape s cap = (if cap = 0 then [] else escape_loop cap [] s)"

text \<open>The text without a bound on the output, and what it stands for.\<close>

function escape_text :: "bytes \<Rightarrow> bytes" where
  "escape_text s =
    (if s = [] then [] else
       (let c = hd s; len = utf8_seq s in
        case short_escape c of Some e \<Rightarrow> 0x5C # e # escape_text (tl s)
        | None \<Rightarrow>
          if c < 0x20 then u_escape c @ escape_text (tl s)
          else if c < 0x80 then c # escape_text (tl s)
          else if len = 0 then 0xEF # 0xBF # 0xBD # escape_text (tl s)
          else take len s @ escape_text (drop len s)))"
  by pat_completeness auto
termination by (relation "measure length") auto

function repair :: "bytes \<Rightarrow> bytes" where
  "repair s =
    (if s = [] then []
     else if utf8_seq s = 0 then 0xEF # 0xBF # 0xBD # repair (tl s)
     else take (utf8_seq s) s @ repair (drop (utf8_seq s) s))"
  by pat_completeness auto
termination by (relation "measure length") auto

declare escape_text.simps [simp del] repair.simps [simp del]

lemma escape_text_Nil [simp]: "escape_text [] = []" and repair_Nil [simp]: "repair [] = []"
  by (simp_all add: escape_text.simps repair.simps)

lemma u_escape_length: "length (u_escape c) = 6"
  by (simp add: u_escape_def)

lemma escape_text_item:
  assumes "s \<noteq> []" "m + 8 < cap" "escape_item cap m s = (b, k)"
  shows "escape_text s = b @ escape_text (drop k s) \<and> length b \<le> 6 * k"
proof -
  have l: "utf8_seq s \<le> 4" using utf8_seq_def [of s] by (cases s) (auto simp: utf8_lead_def Let_def)
  have t: "min (utf8_seq s) (cap - 1 - m) = utf8_seq s" using l assms(2) by linarith
  obtain c u where s: "s = c # u" using assms(1) by (cases s) auto
  note d = escape_item_def Let_def
  show ?thesis
  proof (cases "short_escape c")
    case (Some e)
    with assms(3) s show ?thesis by (subst escape_text.simps) (auto simp: d)
  next
    case None
    consider "c < 0x20" | "\<not> c < 0x20" "c < 0x80" | "\<not> c < 0x20" "\<not> c < 0x80" "utf8_seq s = 0"
      | "\<not> c < 0x20" "\<not> c < 0x80" "utf8_seq s \<noteq> 0" by blast
    then show ?thesis
    proof cases
      case 1
      with None assms(3) s show ?thesis by (subst escape_text.simps) (auto simp: d u_escape_length)
    next
      case 2
      with None assms(3) s show ?thesis by (subst escape_text.simps) (auto simp: d)
    next
      case 3
      with None assms(3) s show ?thesis by (subst escape_text.simps) (auto simp: d)
    next
      case 4
      with None assms(3) s t have "b = take (utf8_seq s) s" "k = utf8_seq s" by (auto simp: d)
      moreover from 4 None s have "escape_text s = take (utf8_seq s) s @ escape_text (drop (utf8_seq s) s)"
        by (subst escape_text.simps) (simp add: Let_def)
      ultimately show ?thesis by simp
    qed
  qed
qed

text \<open>Enough room: every input byte takes at most six.\<close>

lemma escape_loop_room:
  "length out + 6 * length s + 8 \<le> cap \<Longrightarrow> escape_loop cap out s = out @ escape_text s"
proof (induction cap out s rule: escape_loop.induct)
  case (1 cap out s)
  show ?case
  proof (cases "s = []")
    case True
    then show ?thesis by (simp add: escape_loop.simps [of cap out])
  next
    case False
    then have room: "length out + 8 < cap" using "1.prems" by (cases s) auto
    obtain b k where bk: "escape_item cap (length out) s = (b, k)" by (cases "escape_item cap (length out) s")
    have e: "escape_text s = b @ escape_text (drop k s)" "length b \<le> 6 * k"
      using escape_text_item [OF False room bk] by auto
    have k: "k \<le> length s" using escape_item_used [OF bk False] by simp
    have "escape_loop cap (out @ b) (drop k s) = (out @ b) @ escape_text (drop k s)"
      by (rule "1.IH" [OF conjI [OF False room] bk [symmetric]]) (use "1.prems" e(2) k in simp)
    with False room bk e(1) show ?thesis by (simp add: escape_loop.simps [of cap out])
  qed
qed

text \<open>Each item of the output is read back as the bytes it stands for.\<close>

lemma hexval_hex_digit: "d < 16 \<Longrightarrow> hexval (hex_digit d) = Some d"
proof -
  assume "d < 16"
  moreover have "list_all (\<lambda>d. hexval (hex_digit d) = Some d) [0..<16]" by code_simp
  ultimately show ?thesis by (simp add: list_all_iff)
qed

lemma str_item_u_escape:
  assumes "0 < c" "c < 0x20"
  shows "str_item 0x5C (tl (u_escape c) @ t) = Some ([c], t)"
proof -
  let ?n = "unat c"
  have n: "0 < ?n" "?n < 32" using assms by (simp_all add: u8_nat)
  have h: "hexval (0x30 :: u8) = Some 0" by (simp add: hexval_def)
  have "hex4 (0x30 # 0x30 # hex_digit (?n div 16) # hex_digit (?n mod 16) # t)
      = Some (4096 * 0 + 256 * 0 + 16 * (?n div 16) + ?n mod 16)"
    by (rule hex4_digits) (use n h hexval_hex_digit [of "?n div 16"] hexval_hex_digit [of "?n mod 16"] in simp_all)
  then have x: "hex4 (0x30 # 0x30 # hex_digit (?n div 16) # hex_digit (?n mod 16) # t) = Some ?n" by simp
  have "parse_u_escape (0x30 # 0x30 # hex_digit (?n div 16) # hex_digit (?n mod 16) # t) = Some (u8_emit ?n, t)"
    unfolding parse_u_escape_def x using n by (simp add: hi_surrogate_def lo_surrogate_def)
  moreover have "u8_emit ?n = [c]" using n by (simp add: u8_emit_def)
  ultimately show ?thesis by (simp add: str_item_def u_escape_def parse_escape_def simple_escape_def)
qed

lemma str_item_short: "short_escape c = Some e \<Longrightarrow> str_item 0x5C (e # t) = Some ([c], t)"
  by (auto simp: short_escape_def str_item_def parse_escape_def simple_escape_def split: if_splits)

lemma str_item_char:
  assumes "utf8_char (c # w)" "\<not> c < 0x20" "c \<noteq> 0x5C"
  shows "str_item c (w @ t) = Some (c # w, t)"
proof (cases "c < 0x80")
  case True
  then have "w = []" using utf8_char_lead [OF assms(1)] by (simp add: utf8_lead_def)
  with True assms show ?thesis by (simp add: str_item_def)
next
  case False
  with assms utf8_seq_append [OF assms(1), of t] show ?thesis by (simp add: str_item_def Let_def)
qed

lemma utf8_char_high: "utf8_char (c # w) \<Longrightarrow> \<not> c < 0x80 \<Longrightarrow> \<not> c < 0x20 \<and> c \<noteq> 0x5C \<and> c \<noteq> 0x22"
  by (auto simp: u8_nat)

lemma str_loop_item:
  "str_item c s = Some (b, t) \<Longrightarrow> c \<noteq> 0x22 \<Longrightarrow> str_loop out (c # s) = str_loop (out @ b) t"
  by simp

lemma utf8_seq_ascii: "c < 0x80 \<Longrightarrow> utf8_seq (c # s) = 1"
  by (simp add: utf8_seq_1 utf8_lead_def)

lemma short_escape_ascii: "short_escape c = Some e \<Longrightarrow> c < 0x80"
  by (auto simp: short_escape_def split: if_splits)

lemma repair_ascii: "c < 0x80 \<Longrightarrow> repair (c # s) = c # repair s"
  by (subst repair.simps) (simp add: utf8_seq_ascii)

lemma str_loop_escape:
  "0 \<notin> set s \<Longrightarrow> str_loop out (escape_text s @ 0x22 # t) = Some (out @ repair s, t)"
proof (induction "length s" arbitrary: s out rule: less_induct)
  case less
  show ?case
  proof (cases s)
    case Nil
    then show ?thesis by simp
  next
    case (Cons c u)
    have c0: "0 < c" using less.prems Cons by (auto simp: word_neq_0_conv)
    have IH: "str_loop out' (escape_text u @ 0x22 # t) = Some (out' @ repair u, t)" for out'
      using less.hyps [of u] less.prems Cons by simp
    consider (short) e where "short_escape c = Some e" | (ctl) "short_escape c = None" "c < 0x20"
      | (plain) "short_escape c = None" "\<not> c < 0x20" "c < 0x80" | (high) "\<not> c < 0x80"
      by (cases "short_escape c") blast+
    then show ?thesis
    proof cases
      case short
      then have "escape_text s = 0x5C # e # escape_text u" using Cons by (subst escape_text.simps) simp
      moreover have "repair s = c # repair u" using Cons repair_ascii short_escape_ascii [OF short] by simp
      ultimately show ?thesis
        using str_loop_item [OF str_item_short [OF short], of out "escape_text u @ 0x22 # t"] IH by simp
    next
      case ctl
      then have "escape_text s = u_escape c @ escape_text u" using Cons by (subst escape_text.simps) simp
      then have e: "escape_text s @ 0x22 # t = 0x5C # tl (u_escape c) @ escape_text u @ 0x22 # t"
        by (simp add: u_escape_def)
      have "c < 0x80" using ctl by (auto simp: u8_nat)
      then have "repair s = c # repair u" using Cons repair_ascii by simp
      with e show ?thesis
        using str_loop_item [OF str_item_u_escape [OF c0 ctl(2)], of out "escape_text u @ 0x22 # t"] IH by simp
    next
      case plain
      have e: "escape_text s = c # escape_text u" using Cons plain by (subst escape_text.simps) simp
      have nq: "c \<noteq> 0x22" "c \<noteq> 0x5C" using plain(1) by (auto simp: short_escape_def)
      have "str_item c (escape_text u @ 0x22 # t) = Some ([c], escape_text u @ 0x22 # t)"
        using plain nq by (simp add: str_item_def)
      from str_loop_item [OF this nq(1), of out] e IH Cons repair_ascii [OF plain(3)] show ?thesis by simp
    next
      case high
      have se: "short_escape c = None" using high short_escape_ascii by (cases "short_escape c") auto
      have ge: "\<not> c < 0x20" using high by (auto simp: u8_nat)
      show ?thesis
      proof (cases "utf8_seq s = 0")
        case True
        have e: "escape_text s = 0xEF # [0xBF, 0xBD] @ escape_text u"
          using Cons se ge high True by (subst escape_text.simps) simp
        have r: "repair s = [0xEF, 0xBF, 0xBD] @ repair u" using Cons True by (subst repair.simps) simp
        have "utf8_char [0xEF, 0xBF, 0xBD]" by (simp add: cont_byte_def)
        then have "str_item 0xEF ([0xBF, 0xBD] @ escape_text u @ 0x22 # t) = Some ([0xEF, 0xBF, 0xBD], escape_text u @ 0x22 # t)"
          by (rule str_item_char) auto
        from str_loop_item [OF this, of out] e r IH show ?thesis by simp
      next
        case False
        let ?k = "utf8_seq s"
        let ?w = "take ?k s"
        have ch: "utf8_char ?w" "?k \<le> length s" using utf8_seq_sound [of s] False by auto
        have hd: "?w = c # take (?k - 1) u" using Cons False by (cases ?k) auto
        have e: "escape_text s = ?w @ escape_text (drop ?k s)"
          using Cons se ge high False by (subst escape_text.simps) (simp add: Let_def)
        have r: "repair s = ?w @ repair (drop ?k s)" using Cons False by (subst repair.simps) simp
        have nq: "c \<noteq> 0x5C" "c \<noteq> 0x22" using utf8_char_high ch(1) high unfolding hd by blast+
        have i: "str_item c (take (?k - 1) u @ escape_text (drop ?k s) @ 0x22 # t)
            = Some (?w, escape_text (drop ?k s) @ 0x22 # t)"
          using str_item_char [OF ch(1) [unfolded hd] ge nq(1)] hd by simp
        have e2: "escape_text s @ 0x22 # t = c # take (?k - 1) u @ escape_text (drop ?k s) @ 0x22 # t"
          unfolding e by (simp add: hd)
        have "length (drop ?k s) < length s" using False Cons by simp
        moreover have "0 \<notin> set (drop ?k s)" using less.prems by (meson in_set_dropD)
        ultimately have "str_loop (out @ ?w) (escape_text (drop ?k s) @ 0x22 # t)
            = Some ((out @ ?w) @ repair (drop ?k s), t)" by (rule less.hyps)
        with str_loop_item [OF i nq(2), of out] show ?thesis unfolding e2 r by simp
      qed
    qed
  qed
qed

text \<open>Text that is UTF-8 already is not changed by the repair.\<close>

inductive utf8_text :: "bytes \<Rightarrow> bool" where
  utf8_text_Nil: "utf8_text []"
| utf8_text_app: "utf8_char w \<Longrightarrow> utf8_text s \<Longrightarrow> utf8_text (w @ s)"

lemma repair_utf8: "utf8_text s \<Longrightarrow> repair s = s"
proof (induction rule: utf8_text.induct)
  case (utf8_text_app w s)
  have "utf8_seq (w @ s) = length w" using utf8_text_app(1) by (rule utf8_seq_append)
  moreover have "w \<noteq> []" using utf8_text_app(1) by auto
  ultimately show ?case using utf8_text_app(3) by (subst repair.simps) simp
qed simp

lemma repair_is_utf8: "utf8_text (repair s)"
proof (induction s rule: repair.induct)
  case (1 s)
  show ?case
  proof (cases "s = []")
    case True
    then show ?thesis by (simp add: utf8_text_Nil)
  next
    case False
    show ?thesis
    proof (cases "utf8_seq s = 0")
      case True
      have "utf8_char [0xEF, 0xBF, 0xBD]" by (simp add: cont_byte_def)
      from utf8_text_app [OF this "1.IH"(1) [OF False True]] False True show ?thesis
        by (subst repair.simps) simp
    next
      case nz: False
      then have "utf8_char (take (utf8_seq s) s)" using utf8_seq_sound by simp
      from utf8_text_app [OF this "1.IH"(2) [OF False nz]] False nz show ?thesis
        by (subst repair.simps) simp
    qed
  qed
qed

text \<open>
  Property C31. Whatever bytes a string holds (no NUL, as a C string), \<open>json_escape\<close> with
  a buffer of at least \<open>length s * 6 + 8\<close> bytes, which \<open>sb_esc\<close> gives it, writes the body of a JSON
  string: between quotes, the parser reads it back as the same bytes with every byte that is not part
  of a well-formed UTF-8 sequence replaced by U+FFFD, and so unchanged when the string was UTF-8.
\<close>

theorem escape_reads_back:
  assumes "0 \<notin> set s" "length s * 6 + 8 \<le> cap"
  shows "parse_string (0x22 # json_escape s cap @ 0x22 # t) = Some (repair s, t)
    \<and> utf8_text (repair s) \<and> (utf8_text s \<longrightarrow> repair s = s)"
proof -
  have "json_escape s cap = escape_text s"
    using escape_loop_room [of "[]" s cap] assms(2) by (simp add: json_escape_def)
  then show ?thesis
    using str_loop_escape [OF assms(1), of "[]" t] repair_is_utf8 repair_utf8 by (simp add: parse_string_def)
qed

lemma escape_loop_prefix: "escape_loop 60 [] s = escape_text s" if "length s \<le> 8"
  using escape_loop_room [of "[]" s 60] that by simp

theorem escape_reads_back_witness:
  "parse_string (0x22 # json_escape [0x41, 0xC3, 0x0A, 0x01] 32 @ 0x22 # [])
     = Some (repair [0x41, 0xC3, 0x0A, 0x01], [])"
  using escape_reads_back [of "[0x41, 0xC3, 0x0A, 0x01]" 32 "[]"] by simp

end
