(* ===== verification/Json_Dump.thy ===== *)
theory Json_Dump
  imports Json_Escape Json_Agree
begin

section \<open>Building text and writing JSON values (src/src/json.c)\<close>

text \<open>
  The string buffer \<^verbatim>\<open>sbuf\<close>, the member access of \<^verbatim>\<open>jv\<close> and
  \<open>jv_dump\<close>. Whether an allocation of a given size succeeds is the parameter \<open>alloc\<close>;
  \<open>strtod\<close> and the conversion \<^verbatim>\<open>%.*g\<close> of \<^verbatim>\<open>snprintf\<close> are
  parameters too. \<open>dump_text\<close> is the text a value should have; a buffer that has not failed
  holds all of it, and the parser reads it back as the value.
\<close>

subsection \<open>The buffer\<close>

record sbuf =
  b_s :: bytes
  b_cap :: nat
  b_failed :: bool

definition size_max :: nat where
  "size_max = 2 ^ 64 - 1"

text \<open>\<^verbatim>\<open>size_t\<close> arithmetic.\<close>

definition sz :: "nat \<Rightarrow> nat" where
  "sz x = x mod 2 ^ 64"

type_synonym alloc = "nat \<Rightarrow> bool"

definition sb_full :: "sbuf \<Rightarrow> nat \<Rightarrow> bool" where
  "sb_full b n \<longleftrightarrow> sz (length (b_s b) + n + 1) > b_cap b"

definition sb_too_big :: "sbuf \<Rightarrow> nat \<Rightarrow> bool" where
  "sb_too_big b n \<longleftrightarrow> n > sz (size_max div 2 + 2 ^ 64 - length (b_s b) - 256)"

definition sb_new_cap :: "sbuf \<Rightarrow> nat \<Rightarrow> nat" where
  "sb_new_cap b n = sz (sz (length (b_s b) + n + 1) * 2 + 256)"

definition sb_put :: "alloc \<Rightarrow> sbuf \<Rightarrow> bytes \<Rightarrow> sbuf" where
  "sb_put alloc b s =
    (let n = length s in
     if b_failed b then b
     else if sb_full b n then
       (if sb_too_big b n then b\<lparr>b_failed := True\<rparr>
        else if \<not> alloc (sb_new_cap b n) then b\<lparr>b_failed := True\<rparr>
        else b\<lparr>b_cap := sb_new_cap b n, b_s := b_s b @ s\<rparr>)
     else b\<lparr>b_s := b_s b @ s\<rparr>)"

text \<open>
  \<open>sb_fmt\<close>, given the text \<^verbatim>\<open>vsnprintf\<close> produces (\<open>None\<close> when it returns a
  negative length): 4095 bytes fit the buffer on the stack, more takes one allocation.
\<close>

definition sb_fmt :: "alloc \<Rightarrow> sbuf \<Rightarrow> bytes option \<Rightarrow> sbuf" where
  "sb_fmt alloc b formatted =
    (if b_failed b then b
     else case formatted of None \<Rightarrow> b\<lparr>b_failed := True\<rparr>
     | Some t \<Rightarrow>
       if length t < 4096 then sb_put alloc b t
       else if \<not> alloc (length t + 1) then b\<lparr>b_failed := True\<rparr>
       else sb_put alloc b t)"

definition sb_esc :: "alloc \<Rightarrow> sbuf \<Rightarrow> bytes \<Rightarrow> sbuf" where
  "sb_esc alloc b s =
    (let n = length s in
     if b_failed b then b
     else if n > (size_max - 8) div 6 then b\<lparr>b_failed := True\<rparr>
     else let cap = n * 6 + 8 in
       if \<not> alloc cap then b\<lparr>b_failed := True\<rparr>
       else sb_put alloc b (json_escape s cap))"

definition sb_str :: "alloc \<Rightarrow> sbuf \<Rightarrow> bytes option \<Rightarrow> sbuf" where
  "sb_str alloc b s =
    (case s of None \<Rightarrow> sb_put alloc b (ascii ''null'')
     | Some s \<Rightarrow>
       sb_put alloc (sb_esc alloc (sb_put alloc b [0x22]) (cstr s)) [0x22])"

text \<open>
  What every operation promises: once failed, failed; and a buffer that has not failed holds
  what it held, followed by everything that was put.
\<close>

definition puts :: "sbuf \<Rightarrow> sbuf \<Rightarrow> bytes \<Rightarrow> bool" where
  "puts b b' t \<longleftrightarrow> (b_failed b \<longrightarrow> b' = b) \<and> (\<not> b_failed b' \<longrightarrow> \<not> b_failed b \<and> b_s b' = b_s b @ t)"

lemma puts_trans: "puts b b1 s \<Longrightarrow> puts b1 b2 t \<Longrightarrow> puts b b2 (s @ t)"
  unfolding puts_def by (metis append_assoc)

lemma puts_put: "puts b (sb_put alloc b s) s"
proof -
  have "sb_put alloc b s \<in> {b\<lparr>b_failed := True\<rparr>, b\<lparr>b_s := b_s b @ s\<rparr>,
      b\<lparr>b_cap := sb_new_cap b (length s), b_s := b_s b @ s\<rparr>}" if "\<not> b_failed b"
    using that by (simp only: sb_put_def Let_def if_False split: if_split) blast
  then show ?thesis by (cases "b_failed b") (auto simp: puts_def sb_put_def)
qed

lemma puts_fmt: "puts b (sb_fmt alloc b (Some t)) t"
  using puts_put [of b alloc t] by (auto simp: puts_def sb_fmt_def)

lemma puts_esc: "puts b (sb_esc alloc b s) (escape_text s)"
proof -
  have "json_escape s (length s * 6 + 8) = escape_text s"
    using escape_loop_room [of "[]" s "length s * 6 + 8"] by (simp add: json_escape_def)
  then show ?thesis using puts_put [of b alloc "escape_text s"] by (auto simp: puts_def sb_esc_def Let_def)
qed

definition quoted :: "bytes \<Rightarrow> bytes" where
  "quoted s = 0x22 # escape_text (cstr s) @ [0x22]"

lemma puts_str: "puts b (sb_str alloc b (Some s)) (quoted s)"
proof -
  have "puts b (sb_put alloc (sb_esc alloc (sb_put alloc b [0x22]) (cstr s)) [0x22])
      (([0x22] @ escape_text (cstr s)) @ [0x22])"
    by (intro puts_trans [OF puts_trans [OF puts_put puts_esc] puts_put])
  then show ?thesis by (simp add: sb_str_def quoted_def)
qed

lemma put_fits:
  assumes "\<not> b_failed b" "\<And>n. alloc n" "length (b_s b) + length s < 2 ^ 62"
  shows "\<not> b_failed (sb_put alloc b s) \<and> b_s (sb_put alloc b s) = b_s b @ s"
proof -
  have "\<not> sb_too_big b (length s)"
  proof -
    let ?bn = "length (b_s b)"
    have e: "size_max div 2 + 2 ^ 64 - ?bn - 256 = (2 ^ 63 - 1 - ?bn - 256) + 2 ^ 64"
      using assms(3) by (simp add: size_max_def)
    have "sz (size_max div 2 + 2 ^ 64 - ?bn - 256) = 2 ^ 63 - 1 - ?bn - 256"
      unfolding sz_def e mod_add_self2 by (rule mod_less) (simp add: less_imp_diff_less)
    then show ?thesis using assms(3) unfolding sb_too_big_def by simp
  qed
  with assms(1,2) show ?thesis by (simp add: sb_put_def Let_def)
qed

subsection \<open>Members\<close>

text \<open>A null pointer is \<open>None\<close>; keys are C strings, so \<^verbatim>\<open>strcmp\<close> is equality.\<close>

definition jv_get :: "jv option \<Rightarrow> bytes \<Rightarrow> jv option" where
  "jv_get obj key = (case obj of Some (J_OBJ ms) \<Rightarrow> map_of ms key | _ \<Rightarrow> None)"

fun set_member :: "(bytes \<times> jv) list \<Rightarrow> bytes \<Rightarrow> jv \<Rightarrow> (bytes \<times> jv) list option" where
  "set_member [] key val = None"
| "set_member ((k, x) # ms) key val =
    (if k = key then Some ((k, val) # ms) else map_option (\<lambda>ms'. (k, x) # ms') (set_member ms key val))"

text \<open>\<open>room\<close>: whether the three allocations for a new member succeed.\<close>

definition jv_set :: "bool \<Rightarrow> jv option \<Rightarrow> bytes \<Rightarrow> jv option \<Rightarrow> bool \<times> jv option" where
  "jv_set room obj key val =
    (case (obj, val) of
       (Some (J_OBJ ms), Some x) \<Rightarrow>
         (case set_member ms key x of
            Some ms' \<Rightarrow> (True, Some (J_OBJ ms'))
          | None \<Rightarrow> if room then (True, Some (J_OBJ (ms @ [(key, x)]))) else (False, obj))
     | _ \<Rightarrow> (False, obj))"

definition jv_str :: "jv option \<Rightarrow> bytes option \<Rightarrow> bytes option" where
  "jv_str v dflt = (case v of Some (J_STR s) \<Rightarrow> Some s | _ \<Rightarrow> dflt)"

definition jv_str_ok :: "jv option \<Rightarrow> bool" where
  "jv_str_ok v = (case v of None \<Rightarrow> True | Some J_NULL \<Rightarrow> True | Some (J_STR _) \<Rightarrow> True | _ \<Rightarrow> False)"

definition jv_num :: "jv option \<Rightarrow> rat \<Rightarrow> rat" where
  "jv_num v dflt = (case v of Some (J_NUM d _ _) \<Rightarrow> d | _ \<Rightarrow> dflt)"

definition jv_bool :: "jv option \<Rightarrow> bool \<Rightarrow> bool" where
  "jv_bool v dflt = (case v of Some (J_BOOL b) \<Rightarrow> b | _ \<Rightarrow> dflt)"

text \<open>The contract of a dictionary, which an object satisfies.\<close>

locale dict =
  fixes get :: "'o \<Rightarrow> 'k \<Rightarrow> 'v option"
    and put :: "'o \<Rightarrow> 'k \<Rightarrow> 'v \<Rightarrow> 'o option"
    and ok :: "'o \<Rightarrow> bool"
  assumes get_put: "ok o1 \<Longrightarrow> put o1 k v = Some o2 \<Longrightarrow> get o2 k' = (if k' = k then Some v else get o1 k')"
    and put_ok: "ok o1 \<Longrightarrow> put o1 k v = Some o2 \<Longrightarrow> ok o2"
begin

lemma put_put:
  assumes "ok a" "put a k v = Some b" "put b k w = Some c"
  shows "get c k' = (if k' = k then Some w else get a k')"
  using assms get_put put_ok by fastforce

lemma put_comm:
  assumes "ok a" "put a k v = Some b" "put b l w = Some c" "put a l w = Some b'" "put b' k v = Some c'" "k \<noteq> l"
  shows "get c = get c'"
proof
  fix x
  have "ok b" "ok b'" using assms put_ok by blast+
  then show "get c x = get c' x" using assms get_put by simp
qed

end

definition is_obj :: "jv option \<Rightarrow> bool" where
  "is_obj v = (case v of Some (J_OBJ _) \<Rightarrow> True | _ \<Rightarrow> False)"

lemma set_member_map_of:
  "set_member ms key x = Some ms' \<Longrightarrow> map_of ms' k = (if k = key then Some x else map_of ms k)"
  by (induction ms key x arbitrary: ms' rule: set_member.induct) (auto split: if_splits)

lemma set_member_None: "set_member ms key x = None \<longleftrightarrow> map_of ms key = None"
  by (induction ms key x rule: set_member.induct) auto

interpretation obj: dict jv_get
  "\<lambda>obj key val. (case jv_set True obj key (Some val) of (ok, obj') \<Rightarrow> if ok then Some obj' else None)" is_obj
proof unfold_locales
  fix o1 o2 :: "jv option" and k k' :: bytes and v :: jv
  assume o: "is_obj o1"
    and p: "(case jv_set True o1 k (Some v) of (ok, obj') \<Rightarrow> if ok then Some obj' else None) = Some o2"
  from o obtain ms where ms: "o1 = Some (J_OBJ ms)" by (auto simp: is_obj_def split: option.splits jv.splits)
  with p have "o2 = Some (J_OBJ (case set_member ms k v of Some ms' \<Rightarrow> ms' | None \<Rightarrow> ms @ [(k, v)]))"
    by (auto simp: jv_set_def split: option.splits)
  with ms show "jv_get o2 k' = (if k' = k then Some v else jv_get o1 k')" "is_obj o2"
    using set_member_map_of [of ms k v] set_member_None [of ms k v]
    by (auto simp: jv_get_def is_obj_def map_add_def split: option.splits)
qed

subsection \<open>Numbers\<close>

text \<open>\<^verbatim>\<open>snprintf("%.*g", p, d)\<close>.\<close>

type_synonym fmt_g = "nat \<Rightarrow> rat \<Rightarrow> bytes"

fun shortest_g :: "strtod \<Rightarrow> fmt_g \<Rightarrow> rat \<Rightarrow> nat list \<Rightarrow> bytes" where
  "shortest_g strtod fmt_g d [] = fmt_g 17 d"
| "shortest_g strtod fmt_g d (p # ps) =
    (if fst (strtod (fmt_g p d)) = d then fmt_g p d else shortest_g strtod fmt_g d ps)"

definition json_format_number :: "strtod \<Rightarrow> fmt_g \<Rightarrow> rat \<Rightarrow> bytes" where
  "json_format_number strtod fmt_g d =
    (if - (2 ^ 63) \<le> d \<and> d < 2 ^ 63 \<and> d = of_int \<lfloor>d\<rfloor> then dec_int \<lfloor>d\<rfloor>
     else shortest_g strtod fmt_g d [1..<18])"

subsection \<open>Values\<close>

text \<open>
  \<open>jv_dump_sep\<close> with the number format as an argument; \<open>dump_items\<close> and \<open>dump_members\<close> are
  its two loops, \<open>first\<close> being \<^verbatim>\<open>i == 0\<close>.
\<close>

fun jv_dump_sep :: "alloc \<Rightarrow> (rat \<Rightarrow> bytes) \<Rightarrow> bytes \<Rightarrow> bytes \<Rightarrow> jv \<Rightarrow> sbuf \<Rightarrow> sbuf"
and dump_items :: "alloc \<Rightarrow> (rat \<Rightarrow> bytes) \<Rightarrow> bytes \<Rightarrow> bytes \<Rightarrow> bool \<Rightarrow> jv list \<Rightarrow> sbuf \<Rightarrow> sbuf"
and dump_members :: "alloc \<Rightarrow> (rat \<Rightarrow> bytes) \<Rightarrow> bytes \<Rightarrow> bytes \<Rightarrow> bool \<Rightarrow> (bytes \<times> jv) list \<Rightarrow> sbuf \<Rightarrow> sbuf"
where
  "jv_dump_sep alloc fmt comma colon J_NULL b = sb_put alloc b (ascii ''null'')"
| "jv_dump_sep alloc fmt comma colon (J_BOOL x) b =
     sb_put alloc b (if x then ascii ''true'' else ascii ''false'')"
| "jv_dump_sep alloc fmt comma colon (J_NUM d i text) b =
     sb_put alloc b (case text of Some t \<Rightarrow> cstr t | None \<Rightarrow> fmt d)"
| "jv_dump_sep alloc fmt comma colon (J_STR s) b = sb_str alloc b (Some s)"
| "jv_dump_sep alloc fmt comma colon (J_ARR xs) b =
     sb_put alloc (dump_items alloc fmt comma colon True xs (sb_put alloc b [0x5B])) [0x5D]"
| "jv_dump_sep alloc fmt comma colon (J_OBJ ms) b =
     sb_put alloc (dump_members alloc fmt comma colon True ms (sb_put alloc b [0x7B])) [0x7D]"
| "dump_items alloc fmt comma colon first [] b = b"
| "dump_items alloc fmt comma colon first (x # xs) b =
     dump_items alloc fmt comma colon False xs
       (jv_dump_sep alloc fmt comma colon x (if first then b else sb_put alloc b comma))"
| "dump_members alloc fmt comma colon first [] b = b"
| "dump_members alloc fmt comma colon first ((k, x) # ms) b =
     dump_members alloc fmt comma colon False ms
       (jv_dump_sep alloc fmt comma colon x
         (sb_put alloc (sb_str alloc (if first then b else sb_put alloc b comma) (Some k)) colon))"

definition jv_dump_opt :: "alloc \<Rightarrow> (rat \<Rightarrow> bytes) \<Rightarrow> bytes \<Rightarrow> bytes \<Rightarrow> jv option \<Rightarrow> sbuf \<Rightarrow> sbuf" where
  "jv_dump_opt alloc fmt comma colon v b =
    (case v of None \<Rightarrow> sb_put alloc b (ascii ''null'') | Some x \<Rightarrow> jv_dump_sep alloc fmt comma colon x b)"

definition jv_dump :: "alloc \<Rightarrow> strtod \<Rightarrow> fmt_g \<Rightarrow> jv option \<Rightarrow> sbuf \<Rightarrow> sbuf" where
  "jv_dump alloc strtod fmt_g = jv_dump_opt alloc (json_format_number strtod fmt_g) [0x2C] [0x3A]"

definition jv_dump_tojson :: "alloc \<Rightarrow> strtod \<Rightarrow> fmt_g \<Rightarrow> jv option \<Rightarrow> sbuf \<Rightarrow> sbuf" where
  "jv_dump_tojson alloc strtod fmt_g =
     jv_dump_opt alloc (json_format_number strtod fmt_g) [0x2C, 0x20] [0x3A, 0x20]"

text \<open>The text a value has.\<close>

fun dump_text :: "(rat \<Rightarrow> bytes) \<Rightarrow> bytes \<Rightarrow> bytes \<Rightarrow> jv \<Rightarrow> bytes"
and items_text :: "(rat \<Rightarrow> bytes) \<Rightarrow> bytes \<Rightarrow> bytes \<Rightarrow> bool \<Rightarrow> jv list \<Rightarrow> bytes"
and members_text :: "(rat \<Rightarrow> bytes) \<Rightarrow> bytes \<Rightarrow> bytes \<Rightarrow> bool \<Rightarrow> (bytes \<times> jv) list \<Rightarrow> bytes"
where
  "dump_text fmt comma colon J_NULL = ascii ''null''"
| "dump_text fmt comma colon (J_BOOL x) = (if x then ascii ''true'' else ascii ''false'')"
| "dump_text fmt comma colon (J_NUM d i text) = (case text of Some t \<Rightarrow> cstr t | None \<Rightarrow> fmt d)"
| "dump_text fmt comma colon (J_STR s) = quoted s"
| "dump_text fmt comma colon (J_ARR xs) = 0x5B # items_text fmt comma colon True xs @ [0x5D]"
| "dump_text fmt comma colon (J_OBJ ms) = 0x7B # members_text fmt comma colon True ms @ [0x7D]"
| "items_text fmt comma colon first [] = []"
| "items_text fmt comma colon first (x # xs) =
     (if first then [] else comma) @ dump_text fmt comma colon x @ items_text fmt comma colon False xs"
| "members_text fmt comma colon first [] = []"
| "members_text fmt comma colon first ((k, x) # ms) =
     (if first then [] else comma) @ quoted k @ colon @ dump_text fmt comma colon x
       @ members_text fmt comma colon False ms"

lemma puts_comma: "puts b (if first then b else sb_put alloc b t) (if first then [] else t)"
  using puts_put [of b alloc t] by (auto simp: puts_def)

lemma puts_dump:
  "puts b (jv_dump_sep alloc fmt comma colon v b) (dump_text fmt comma colon v)"
  "puts b (dump_items alloc fmt comma colon first xs b) (items_text fmt comma colon first xs)"
  "puts b (dump_members alloc fmt comma colon first ms b) (members_text fmt comma colon first ms)"
proof (induction alloc fmt comma colon v b and alloc fmt comma colon first xs b and alloc fmt comma colon first ms b
    rule: jv_dump_sep_dump_items_dump_members.induct)
  case (5 alloc fmt comma colon xs b)
  from puts_trans [OF puts_trans [OF puts_put 5] puts_put] show ?case by simp
next
  case (6 alloc fmt comma colon ms b)
  from puts_trans [OF puts_trans [OF puts_put 6] puts_put] show ?case by simp
next
  case (8 alloc fmt comma colon first x xs b)
  from puts_trans [OF puts_trans [OF puts_comma 8(1)] 8(2)] show ?case by (simp split: if_splits)
next
  case (10 alloc fmt comma colon first k x ms b)
  from puts_trans [OF puts_trans [OF puts_trans [OF puts_trans [OF puts_comma puts_str] puts_put] 10(1)] 10(2)]
  show ?case by (simp split: if_splits)
qed (simp_all add: puts_put puts_str, simp_all add: puts_def)

subsection \<open>Reading the text back\<close>

text \<open>
  Values whose text means them: strings are UTF-8 without NUL, keys are distinct, and the text of
  a number is a literal that reads back as it. \<open>levels\<close> counts as \<open>json_parse\<close> does.
\<close>

definition num_text :: "(rat \<Rightarrow> bytes) \<Rightarrow> rat \<Rightarrow> bytes option \<Rightarrow> bytes" where
  "num_text fmt d lit = (case lit of Some t \<Rightarrow> cstr t | None \<Rightarrow> fmt d)"

definition num_reads_back :: "strtod \<Rightarrow> (rat \<Rightarrow> bytes) \<Rightarrow> rat \<Rightarrow> bool \<Rightarrow> bytes option \<Rightarrow> bool" where
  "num_reads_back strtod fmt d i lit \<longleftrightarrow>
     (let t = num_text fmt d lit in
      case scan_number t of None \<Rightarrow> False
      | Some (p, i', k) \<Rightarrow> p = [] \<and> i' = i \<and> json_number_text_ok strtod t = Some d
          \<and> lit = (if i \<and> k > 15 then Some t else None))"

definition clean_str :: "bytes \<Rightarrow> bool" where
  "clean_str s \<longleftrightarrow> utf8_text s \<and> 0 \<notin> set s"

fun printable :: "strtod \<Rightarrow> (rat \<Rightarrow> bytes) \<Rightarrow> jv \<Rightarrow> bool" where
  "printable strtod fmt J_NULL \<longleftrightarrow> True"
| "printable strtod fmt (J_BOOL x) \<longleftrightarrow> True"
| "printable strtod fmt (J_NUM d i lit) \<longleftrightarrow> num_reads_back strtod fmt d i lit"
| "printable strtod fmt (J_STR s) \<longleftrightarrow> clean_str s"
| "printable strtod fmt (J_ARR xs) \<longleftrightarrow> (\<forall>x \<in> set xs. printable strtod fmt x)"
| "printable strtod fmt (J_OBJ ms) \<longleftrightarrow> distinct (map fst ms) \<and> length ms \<le> 2 ^ 59
     \<and> (\<forall>m \<in> set ms. clean_str (fst m) \<and> printable strtod fmt (snd m))"

fun levels :: "jv \<Rightarrow> nat" where
  "levels (J_ARR xs) = Suc (Max (insert 0 (levels ` set xs)))"
| "levels (J_OBJ ms) = Suc (Max (insert 0 ((levels \<circ> snd) ` set ms)))"
| "levels _ = 1"

text \<open>The separators of the two dumps.\<close>

definition seps_ok :: "bytes \<Rightarrow> bytes \<Rightarrow> bool" where
  "seps_ok comma colon \<longleftrightarrow> comma \<noteq> [] \<and> hd comma = 0x2C \<and> (\<forall>c \<in> set (tl comma). json_is_ws c)
     \<and> colon \<noteq> [] \<and> hd colon = 0x3A \<and> (\<forall>c \<in> set (tl colon). json_is_ws c)"

definition text_end :: "bytes \<Rightarrow> bool" where
  "text_end r \<longleftrightarrow> r = [] \<or> hd r = 0x2C \<or> hd r = 0x5D \<or> hd r = 0x7D \<or> json_is_ws (hd r)"

lemma text_end_number: "text_end r \<Longrightarrow> number_end r"
  by (auto simp: text_end_def number_end_def is_digit_def json_is_ws_def)

lemma skip_ws_app: "\<forall>c \<in> set w. json_is_ws c \<Longrightarrow> skip_ws (w @ s) = skip_ws s"
  by (simp add: skip_ws_def dropWhile_append)

lemma skip_ws_id: "s \<noteq> [] \<Longrightarrow> \<not> json_is_ws (hd s) \<Longrightarrow> skip_ws s = s"
  by (cases s) (auto simp: skip_ws_def)

lemma cstr_clean: "0 \<notin> set s \<Longrightarrow> cstr s = s"
  by (auto simp: cstr_def takeWhile_eq_all_conv)

lemma parse_quoted: "clean_str s \<Longrightarrow> parse_string (quoted s @ r) = Some (s, r)"
  using str_loop_escape [of s "[]" r] repair_utf8 [of s]
  by (simp add: clean_str_def quoted_def cstr_clean parse_string_def)

lemma quoted_hd: "quoted s = 0x22 # tl (quoted s)"
  by (simp add: quoted_def)

lemma skip_ws_quoted: "skip_ws (quoted s @ r) = quoted s @ r"
  by (simp add: quoted_def skip_ws_def json_is_ws_def)

text \<open>The first byte of a value's text.\<close>

lemma num_text_hd:
  assumes "num_reads_back strtod fmt d i lit"
  shows "\<exists>c t. num_text fmt d lit = c # t \<and> (c = 0x2D \<or> is_digit c)"
proof -
  from assms obtain k where k: "scan_number (num_text fmt d lit) = Some ([], i, k)"
    by (auto simp: num_reads_back_def Let_def split: option.splits)
  then obtain c t where c: "num_text fmt d lit = c # t" using scan_number_nonempty by (cases "num_text fmt d lit") auto
  have "is_digit c" if "c \<noteq> 0x2D"
  proof -
    have "num_int_part (c # t) \<noteq> None"
      using k c that by (auto simp: scan_number_def Let_def split: option.splits)
    then show ?thesis by (auto simp: num_int_part_def is_digit_def u8_nat split: if_splits)
  qed
  with c show ?thesis by blast
qed

lemma dump_text_hd:
  assumes "printable strtod fmt v"
  shows "\<exists>c t. dump_text fmt comma colon v = c # t \<and> \<not> json_is_ws c \<and> c \<noteq> 0x5D \<and> c \<noteq> 0x7D"
proof (cases v)
  case (J_NUM d i lit)
  with assms num_text_hd [of strtod fmt d i lit] obtain c t where
    c: "num_text fmt d lit = c # t" "c = 0x2D \<or> is_digit c" by auto
  from c(2) have "\<not> json_is_ws c \<and> c \<noteq> 0x5D \<and> c \<noteq> 0x7D" by (auto simp: json_is_ws_def is_digit_def u8_nat)
  with c(1) J_NUM show ?thesis by (simp add: num_text_def)
qed (simp_all add: ascii_def json_is_ws_def quoted_def)

text \<open>Scalars.\<close>

lemma parse_scalar_text:
  assumes "printable strtod fmt v" "text_end r" "\<nexists>xs. v = J_ARR xs" "\<nexists>ms. v = J_OBJ ms"
  shows "\<exists>c t. dump_text fmt comma colon v @ r = c # t \<and> parse_scalar strtod c t = Some (v, r)
    \<and> c \<noteq> 0x7B \<and> c \<noteq> 0x5B"
proof (cases v)
  case (J_NUM d i lit)
  let ?t = "num_text fmt d lit"
  from assms J_NUM have nr: "num_reads_back strtod fmt d i lit" by simp
  from num_text_hd [OF nr] obtain c t where c: "?t = c # t" "c = 0x2D \<or> is_digit c" by blast
  from nr obtain k where k: "scan_number ?t = Some ([], i, k)" "json_number_text_ok strtod ?t = Some d"
    "lit = (if i \<and> k > 15 then Some ?t else None)"
    by (auto simp: num_reads_back_def Let_def split: option.splits)
  have s: "scan_number (?t @ r) = Some (r, i, k)"
    using scan_number_append [OF k(1)] text_end_number assms(2) by blast
  have tk: "take (length (?t @ r) - length r) (?t @ r) = ?t" by simp
  have "parse_number strtod (?t @ r) = Some (J_NUM d i lit, r)"
    unfolding parse_number_def s option.case prod.case tk Let_def k(2) using k(3) by simp
  moreover have "c \<noteq> 0x22" "c \<noteq> 0x74" "c \<noteq> 0x66" "c \<noteq> 0x6E" "c \<noteq> 0x7B" "c \<noteq> 0x5B"
    using c(2) by (auto simp: is_digit_def u8_nat)
  ultimately show ?thesis using c J_NUM by (simp add: parse_scalar_def num_text_def)
next
  case (J_STR s)
  with assms(1) have "parse_string (0x22 # tl (quoted s) @ r) = Some (s, r)"
    using parse_quoted [of s r] quoted_hd [of s] by (metis append_Cons printable.simps(4))
  with J_STR show ?thesis
    using quoted_hd [of s] by (intro exI [of _ "0x22"] exI [of _ "tl (quoted s) @ r"]) (simp add: parse_scalar_def)
qed (use assms in \<open>auto simp: ascii_def parse_scalar_def\<close>)

lemma pv_scalar_text:
  assumes "printable strtod fmt v" "text_end r" "\<nexists>xs. v = J_ARR xs" "\<nexists>ms. v = J_OBJ ms"
    "d + 1 \<le> json_max_depth" "skip_ws s = dump_text fmt comma colon v @ r"
  shows "pv strtod d s = Some (v, r)"
proof -
  from parse_scalar_text [OF assms(1-4), of comma colon] obtain c t where
    c: "dump_text fmt comma colon v @ r = c # t" "parse_scalar strtod c t = Some (v, r)" "c \<noteq> 0x7B" "c \<noteq> 0x5B"
    by blast
  have "\<not> json_max_depth < d + 1" using assms(5) by simp
  from pv_scalar [OF assms(6) [unfolded c(1)] _ this] c show ?thesis by simp
qed

text \<open>Containers, by computation of the text.\<close>

definition items_tail :: "(rat \<Rightarrow> bytes) \<Rightarrow> bytes \<Rightarrow> bytes \<Rightarrow> jv list \<Rightarrow> bytes" where
  "items_tail fmt comma colon xs = (if xs = [] then [] else comma @ items_text fmt comma colon True xs)"

definition members_tail :: "(rat \<Rightarrow> bytes) \<Rightarrow> bytes \<Rightarrow> bytes \<Rightarrow> (bytes \<times> jv) list \<Rightarrow> bytes" where
  "members_tail fmt comma colon ms = (if ms = [] then [] else comma @ members_text fmt comma colon True ms)"

lemma items_text_False: "items_text fmt comma colon False xs = items_tail fmt comma colon xs"
  by (cases xs) (simp_all add: items_tail_def)

lemma members_text_False: "members_text fmt comma colon False ms = members_tail fmt comma colon ms"
proof (cases ms)
  case (Cons m l)
  then show ?thesis by (cases m) (simp add: members_tail_def)
qed (simp add: members_tail_def)

definition reads_value :: "strtod \<Rightarrow> (rat \<Rightarrow> bytes) \<Rightarrow> bytes \<Rightarrow> bytes \<Rightarrow> jv \<Rightarrow> bool" where
  "reads_value strtod fmt comma colon v \<longleftrightarrow> (\<forall>d s r. d + levels v \<le> json_max_depth \<longrightarrow> text_end r
     \<longrightarrow> skip_ws s = dump_text fmt comma colon v @ r \<longrightarrow> pv strtod d s = Some (v, r))"

lemma tail_step:
  assumes "seps_ok comma colon" "skip_ws s = s2" "s2 = comma @ t"
  shows "\<exists>s3. s2 = 0x2C # s3 \<and> skip_ws s3 = skip_ws t"
proof -
  from assms(1,3) have "s2 = 0x2C # tl comma @ t" by (cases comma) (auto simp: seps_ok_def)
  moreover have "skip_ws (tl comma @ t) = skip_ws t" using assms(1) by (intro skip_ws_app) (simp add: seps_ok_def)
  ultimately show ?thesis by blast
qed

lemma skip_ws_start:
  "s = c # t \<Longrightarrow> \<not> json_is_ws c \<Longrightarrow> skip_ws s = s"
  by (simp add: skip_ws_def)

lemma pm_items:
  assumes "seps_ok comma colon" "\<forall>x \<in> set xs. printable strtod fmt x \<and> reads_value strtod fmt comma colon x
      \<and> d + levels x \<le> json_max_depth" "xs \<noteq> []"
    "skip_ws s = items_text fmt comma colon True xs @ 0x5D # r"
  shows "pm strtod d False ks ms s = Some (J_ARR (map snd ms @ xs), r)"
  using assms(2-)
proof (induction xs arbitrary: ms s)
  case (Cons x xs)
  let ?r = "items_tail fmt comma colon xs @ 0x5D # r"
  have te: "text_end ?r" using assms(1) by (cases comma) (auto simp: text_end_def items_tail_def seps_ok_def)
  have "skip_ws s = dump_text fmt comma colon x @ ?r"
    using Cons.prems(3) by (simp add: items_text_False)
  then have v: "pv strtod d s = Some (x, ?r)"
    using Cons.prems(1) te by (simp add: reads_value_def)
  have key: "parse_key False ks s = Some ([], ks, s)" by (simp add: parse_key_def)
  show ?case
  proof (cases "xs = []")
    case True
    then have "skip_ws ?r = 0x5D # r" by (simp add: items_tail_def skip_ws_def json_is_ws_def)
    with True key v show ?thesis by (subst pm_eq) (simp add: close_of_def container_def)
  next
    case False
    then have r: "?r = comma @ items_text fmt comma colon True xs @ 0x5D # r" by (simp add: items_tail_def)
    have hd: "skip_ws ?r = ?r" using assms(1) unfolding r
      by (cases comma) (auto simp: seps_ok_def json_is_ws_def intro: skip_ws_start)
    from tail_step [OF assms(1) hd r] obtain s3 where s3: "?r = 0x2C # s3"
      "skip_ws s3 = skip_ws (items_text fmt comma colon True xs @ 0x5D # r)" by blast
    obtain y ys where y: "xs = y # ys" using False by (cases xs) auto
    from dump_text_hd [of strtod fmt y comma colon] Cons.prems(1) y obtain c t where
      "dump_text fmt comma colon y = c # t" "\<not> json_is_ws c" by auto
    then have "skip_ws s3 = items_text fmt comma colon True xs @ 0x5D # r"
      unfolding s3(2) y by (simp add: skip_ws_def)
    from Cons.IH [OF _ False this] Cons.prems(1) have "pm strtod d False ks (ms @ [([], x)]) s3
        = Some (J_ARR (map snd (ms @ [([], x)]) @ xs), r)" by auto
    with key v hd s3(1) show ?thesis by (subst pm_eq) simp
  qed
qed simp

lemma parse_key_member:
  assumes "seps_ok comma colon" "clean_str k" "keyset_ok ks" "k \<notin> keyset_elems ks" "skip_ws s = quoted k @ colon @ t"
    "used ks < 2 ^ 59"
  shows "\<exists>ks' u. parse_key True ks s = Some (k, ks', u) \<and> skip_ws u = skip_ws t \<and> keyset_ok ks'
    \<and> keyset_elems ks' = insert k (keyset_elems ks) \<and> used ks' = used ks + 1"
proof -
  from ks.insert_fresh [OF assms(3,4,6)] obtain ks' where ks': "keyset_insert (\<lambda>_. True) ks k = Some (1, ks')"
    "keyset_ok ks'" "keyset_elems ks' = insert k (keyset_elems ks)" "used ks' = used ks + 1" by blast
  have ps: "parse_string (skip_ws s) = Some (k, colon @ t)" unfolding assms(5) by (rule parse_quoted [OF assms(2)])
  have c: "skip_ws (colon @ t) = 0x3A # tl colon @ t"
    using assms(1) by (cases colon) (auto simp: seps_ok_def skip_ws_def json_is_ws_def)
  have "skip_ws (tl colon @ t) = skip_ws t" using assms(1) by (intro skip_ws_app) (simp add: seps_ok_def)
  with ps ks' c show ?thesis by (simp add: parse_key_def)
qed

lemma pm_members:
  assumes "seps_ok comma colon" "\<forall>m \<in> set xs. clean_str (fst m) \<and> printable strtod fmt (snd m)
      \<and> reads_value strtod fmt comma colon (snd m) \<and> d + levels (snd m) \<le> json_max_depth" "xs \<noteq> []"
    "distinct (map fst xs)" "keyset_ok ks" "set (map fst xs) \<inter> keyset_elems ks = {}"
    "skip_ws s = members_text fmt comma colon True xs @ 0x7D # r" "used ks + length xs \<le> 2 ^ 59"
  shows "pm strtod d True ks ms s = Some (J_OBJ (ms @ xs), r)"
  using assms(2-)
proof (induction xs arbitrary: ms s ks)
  case (Cons m xs)
  obtain k x where m: "m = (k, x)" by (cases m)
  let ?r = "members_tail fmt comma colon xs @ 0x7D # r"
  have te: "text_end ?r" using assms(1) by (cases comma) (auto simp: text_end_def members_tail_def seps_ok_def)
  have sk: "skip_ws s = quoted k @ colon @ dump_text fmt comma colon x @ ?r"
    using Cons.prems(6) m by (simp add: members_text_False)
  have "clean_str k" "k \<notin> keyset_elems ks" using Cons.prems m by auto
  moreover have "used ks < 2 ^ 59" using Cons.prems(7) by simp
  ultimately obtain ks' u where
    key: "parse_key True ks s = Some (k, ks', u)" "skip_ws u = skip_ws (dump_text fmt comma colon x @ ?r)"
    "keyset_ok ks'" "keyset_elems ks' = insert k (keyset_elems ks)" "used ks' = used ks + 1"
    using parse_key_member [OF assms(1) _ Cons.prems(4) _ sk] by blast
  have "skip_ws u = dump_text fmt comma colon x @ ?r"
    using dump_text_hd [of strtod fmt x comma colon] Cons.prems(1) m key(2) by (auto simp: skip_ws_def)
  then have v: "pv strtod d u = Some (x, ?r)"
    using Cons.prems(1) te m by (simp add: reads_value_def)
  show ?case
  proof (cases "xs = []")
    case True
    then have "skip_ws ?r = 0x7D # r" by (simp add: members_tail_def skip_ws_def json_is_ws_def)
    with True key(1) v m show ?thesis by (subst pm_eq) (simp add: close_of_def container_def)
  next
    case False
    then have r: "?r = comma @ members_text fmt comma colon True xs @ 0x7D # r" by (simp add: members_tail_def)
    have hd: "skip_ws ?r = ?r" using assms(1) unfolding r
      by (cases comma) (auto simp: seps_ok_def json_is_ws_def intro: skip_ws_start)
    from tail_step [OF assms(1) hd r] obtain s3 where s3: "?r = 0x2C # s3"
      "skip_ws s3 = skip_ws (members_text fmt comma colon True xs @ 0x7D # r)" by blast
    obtain k2 y ys where y: "xs = (k2, y) # ys" using False by (cases xs) auto
    have "skip_ws s3 = members_text fmt comma colon True xs @ 0x7D # r"
      unfolding s3(2) y by (simp add: skip_ws_quoted)
    from Cons.IH [OF _ False _ key(3) _ this] Cons.prems(1,3,5,7) m key(4,5)
    have "pm strtod d True ks' (ms @ [(k, x)]) s3 = Some (J_OBJ ((ms @ [(k, x)]) @ xs), r)" by auto
    with key(1) v hd s3(1) m show ?thesis by (subst pm_eq) simp
  qed
qed simp

lemma levels_item: "x \<in> set xs \<Longrightarrow> d + levels (J_ARR xs) \<le> n \<Longrightarrow> d + 1 + levels x \<le> n"
proof -
  assume "x \<in> set xs" "d + levels (J_ARR xs) \<le> n"
  moreover from this have "levels x \<le> Max (insert 0 (levels ` set xs))" by (intro Max_ge) simp_all
  ultimately show ?thesis unfolding levels.simps by linarith
qed

lemma levels_member: "m \<in> set ms \<Longrightarrow> d + levels (J_OBJ ms) \<le> n \<Longrightarrow> d + 1 + levels (snd m) \<le> n"
proof -
  assume "m \<in> set ms" "d + levels (J_OBJ ms) \<le> n"
  moreover from this have "levels (snd m) \<le> Max (insert 0 ((levels \<circ> snd) ` set ms))"
    by (intro Max_ge) (simp_all add: image_iff, blast)
  ultimately show ?thesis unfolding levels.simps by linarith
qed

lemma levels_pos: "1 \<le> levels v"
  by (cases v) simp_all

lemma reads_dump:
  assumes "seps_ok comma colon"
  shows "printable strtod fmt v \<Longrightarrow> reads_value strtod fmt comma colon v"
proof (induction v)
  case (J_ARR xs)
  show ?case unfolding reads_value_def
  proof (intro allI impI)
    fix d s r assume a: "d + levels (J_ARR xs) \<le> json_max_depth" "text_end r"
      "skip_ws s = dump_text fmt comma colon (J_ARR xs) @ r"
    let ?t = "items_text fmt comma colon True xs @ 0x5D # r"
    have dep: "\<not> json_max_depth < d + 1" using a(1) by simp
    have sk: "skip_ws s = 0x5B # ?t" using a(3) by simp
    note pvc = pv_container [OF sk disjI2 [OF refl] dep]
    show "pv strtod d s = Some (J_ARR xs, r)"
    proof (cases xs)
      case Nil
      then have "skip_ws ?t = 0x5D # r" by (simp add: skip_ws_def json_is_ws_def)
      then show ?thesis using Nil unfolding pvc by (simp add: close_of_def container_def)
    next
      case (Cons y ys)
      with J_ARR.prems dump_text_hd [of strtod fmt y comma colon] obtain c u where
        c: "dump_text fmt comma colon y = c # u" "\<not> json_is_ws c" "c \<noteq> 0x5D" by auto
      then have tt: "skip_ws ?t = ?t" "?t \<noteq> []" "hd ?t \<noteq> 0x5D" using Cons by (auto intro: skip_ws_start)
      have "\<forall>x \<in> set xs. printable strtod fmt x \<and> reads_value strtod fmt comma colon x
          \<and> d + 1 + levels x \<le> json_max_depth"
        using J_ARR levels_item [OF _ a(1)] by simp
      moreover have "skip_ws (skip_ws ?t) = items_text fmt comma colon True xs @ 0x5D # r" using tt(1) by simp
      ultimately have "pm strtod (d + 1) False keyset_empty [] (skip_ws ?t) = Some (J_ARR (map snd [] @ xs), r)"
        using Cons pm_items [OF assms, of xs strtod fmt "d + 1" "skip_ws ?t" r keyset_empty "[]"] by simp
      then show ?thesis unfolding pvc using tt by (simp add: close_of_def)
    qed
  qed
next
  case (J_OBJ ms)
  show ?case unfolding reads_value_def
  proof (intro allI impI)
    fix d s r assume a: "d + levels (J_OBJ ms) \<le> json_max_depth" "text_end r"
      "skip_ws s = dump_text fmt comma colon (J_OBJ ms) @ r"
    let ?t = "members_text fmt comma colon True ms @ 0x7D # r"
    have dep: "\<not> json_max_depth < d + 1" using a(1) by simp
    have sk: "skip_ws s = 0x7B # ?t" using a(3) by simp
    note pvc = pv_container [OF sk disjI1 [OF refl] dep]
    show "pv strtod d s = Some (J_OBJ ms, r)"
    proof (cases ms)
      case Nil
      then have "skip_ws ?t = 0x7D # r" by (simp add: skip_ws_def json_is_ws_def)
      then show ?thesis using Nil unfolding pvc by (simp add: close_of_def container_def)
    next
      case (Cons y ys)
      obtain k x where y: "y = (k, x)" by (cases y)
      have tt: "skip_ws ?t = ?t" "?t \<noteq> []" "hd ?t \<noteq> 0x7D"
        unfolding Cons y by (simp_all add: skip_ws_quoted) (simp add: quoted_def)
      have "\<forall>m \<in> set ms. clean_str (fst m) \<and> printable strtod fmt (snd m)
          \<and> reads_value strtod fmt comma colon (snd m) \<and> d + 1 + levels (snd m) \<le> json_max_depth"
        using J_OBJ levels_member [OF _ a(1)] by (auto intro: J_OBJ.IH simp: snds.simps)
      moreover have "skip_ws (skip_ws ?t) = members_text fmt comma colon True ms @ 0x7D # r" using tt(1) by simp
      ultimately have "pm strtod (d + 1) True keyset_empty [] (skip_ws ?t) = Some (J_OBJ ([] @ ms), r)"
        using Cons J_OBJ.prems pm_members [OF assms, of ms strtod fmt "d + 1" keyset_empty "skip_ws ?t" r "[]"]
        by (simp add: ks.ok_empty ks.elems_empty ks.held_empty)
      then show ?thesis unfolding pvc using tt by (simp add: close_of_def)
    qed
  qed
qed (auto simp: reads_value_def intro: pv_scalar_text)

lemma dump_reads_back:
  assumes "seps_ok comma colon" "printable strtod fmt v" "levels v \<le> json_max_depth"
    "\<not> b_failed (jv_dump_sep alloc fmt comma colon v b)" "b_s b = []"
  shows "json_parse strtod (b_s (jv_dump_sep alloc fmt comma colon v b)) = Some v"
proof -
  have t: "b_s (jv_dump_sep alloc fmt comma colon v b) = dump_text fmt comma colon v"
    using puts_dump(1) [of b alloc fmt comma colon v] assms(4,5) by (simp add: puts_def)
  from dump_text_hd [OF assms(2), of comma colon] have "skip_ws (dump_text fmt comma colon v) = dump_text fmt comma colon v @ []"
    by (auto intro: skip_ws_start)
  with reads_dump [OF assms(1,2)] assms(3) have "pv strtod 0 (dump_text fmt comma colon v) = Some (v, [])"
    by (simp add: reads_value_def text_end_def)
  then show ?thesis unfolding t json_parse_pv by (simp add: skip_ws_def)
qed

subsection \<open>With memory to spare nothing fails\<close>

lemma escape_text_length: "length s \<le> length (escape_text s)"
proof (induction "length s" arbitrary: s rule: less_induct)
  case less
  show ?case
  proof (cases "s = []")
    case False
    let ?n = "length s * 6 + 9"
    obtain b k where bk: "escape_item ?n 0 s = (b, k)" by (cases "escape_item ?n 0 s")
    have e: "escape_text s = b @ escape_text (drop k s)" using escape_text_item [OF False _ bk] by simp
    have "k \<le> length b"
      using bk utf8_seq_le [of s] by (auto simp: escape_item_def Let_def u_escape_length split: option.splits if_splits)
    moreover have "length (drop k s) < length s" using escape_item_used [OF bk False] False by simp
    from less [OF this] have "length (drop k s) \<le> length (escape_text (drop k s))" .
    ultimately show ?thesis unfolding e by simp
  qed simp
qed

lemma cstr_le: "length (cstr s) \<le> length s"
  by (simp add: cstr_def length_takeWhile_le)

lemma esc_fits:
  assumes "\<not> b_failed b" "\<And>n. alloc n" "length (b_s b) + length (escape_text s) < 2 ^ 60"
  shows "\<not> b_failed (sb_esc alloc b s)"
proof -
  have "length s < 2 ^ 60" using escape_text_length [of s] assms(3) by linarith
  then have "\<not> length s > (size_max - 8) div 6" by (simp add: size_max_def)
  moreover have "json_escape s (length s * 6 + 8) = escape_text s"
    using escape_loop_room [of "[]" s "length s * 6 + 8"] by (simp add: json_escape_def)
  ultimately have "sb_esc alloc b s = sb_put alloc b (escape_text s)"
    using assms(1,2) by (simp only: sb_esc_def Let_def if_False simp_thms)
  with put_fits [of b alloc "escape_text s"] assms show ?thesis by simp
qed

text \<open>An operation that puts a text succeeds when the result is small.\<close>

definition fits :: "sbuf \<Rightarrow> sbuf \<Rightarrow> bytes \<Rightarrow> bool" where
  "fits b b' t \<longleftrightarrow> puts b b' t \<and> (\<not> b_failed b \<longrightarrow> length (b_s b) + length t < 2 ^ 60 \<longrightarrow> \<not> b_failed b')"

lemma fits_trans: "fits b b1 s \<Longrightarrow> fits b1 b2 t \<Longrightarrow> fits b b2 (s @ t)"
proof -
  assume a: "fits b b1 s" "fits b1 b2 t"
  then have "puts b b2 (s @ t)" unfolding fits_def by (blast intro: puts_trans)
  moreover have "\<not> b_failed b2" if "\<not> b_failed b" "length (b_s b) + length (s @ t) < 2 ^ 60"
  proof -
    have f1: "\<not> b_failed b1" using a(1) that by (simp add: fits_def)
    then have "b_s b1 = b_s b @ s" using a(1) by (simp add: fits_def puts_def)
    then show ?thesis using a(2) f1 that by (simp add: fits_def)
  qed
  ultimately show ?thesis by (simp add: fits_def)
qed

definition alloc_ok :: "alloc \<Rightarrow> bool" where
  "alloc_ok alloc \<longleftrightarrow> (\<forall>n. alloc n)"

lemma fits_put: "alloc_ok alloc \<Longrightarrow> fits b (sb_put alloc b s) s"
  using puts_put [of b alloc s] put_fits [of b alloc s] by (simp add: fits_def alloc_ok_def)

lemma fits_esc: "alloc_ok alloc \<Longrightarrow> fits b (sb_esc alloc b s) (escape_text s)"
  using puts_esc [of b alloc s] esc_fits [of b alloc s] by (simp add: fits_def alloc_ok_def)

lemma fits_str:
  assumes "alloc_ok alloc"
  shows "fits b (sb_str alloc b (Some s)) (quoted s)"
proof -
  have "fits b (sb_put alloc (sb_esc alloc (sb_put alloc b [0x22]) (cstr s)) [0x22])
      (([0x22] @ escape_text (cstr s)) @ [0x22])"
    by (rule fits_trans [OF fits_trans [OF fits_put fits_esc] fits_put]) (rule assms)+
  then show ?thesis by (simp add: sb_str_def quoted_def)
qed

lemma fits_refl: "fits b b []"
  by (simp add: fits_def puts_def)

lemma fits_comma: "alloc_ok alloc \<Longrightarrow> fits b (if first then b else sb_put alloc b t) (if first then [] else t)"
  by (cases first) (simp_all only: if_True if_False fits_refl fits_put)

lemma fits_dump:
  "alloc_ok alloc \<Longrightarrow> fits b (jv_dump_sep alloc fmt comma colon v b) (dump_text fmt comma colon v)"
  "alloc_ok alloc \<Longrightarrow> fits b (dump_items alloc fmt comma colon first xs b) (items_text fmt comma colon first xs)"
  "alloc_ok alloc \<Longrightarrow> fits b (dump_members alloc fmt comma colon first ms b) (members_text fmt comma colon first ms)"
proof (induction alloc fmt comma colon v b and alloc fmt comma colon first xs b and alloc fmt comma colon first ms b
    rule: jv_dump_sep_dump_items_dump_members.induct)
  case (5 alloc fmt comma colon xs b)
  from fits_trans [OF fits_trans [OF fits_put 5(1)] fits_put] 5(2) show ?case by simp
next
  case (6 alloc fmt comma colon ms b)
  from fits_trans [OF fits_trans [OF fits_put 6(1)] fits_put] 6(2) show ?case by simp
next
  case (8 alloc fmt comma colon first x xs b)
  from fits_trans [OF fits_trans [OF fits_comma 8(1)] 8(2)] 8(3) show ?case by (simp split: if_splits)
next
  case (10 alloc fmt comma colon first k x ms b)
  from fits_trans [OF fits_trans [OF fits_trans [OF fits_trans [OF fits_comma fits_str] fits_put] 10(1)] 10(2)] 10(3)
  show ?case by (simp split: if_splits)
qed (simp_all add: fits_put fits_str fits_refl)

text \<open>Text that needs no escape, and a value's text followed by white space.\<close>

definition plain_bytes :: "bytes \<Rightarrow> bool" where
  "plain_bytes s \<longleftrightarrow> list_all (\<lambda>c. short_escape c = None \<and> \<not> c < 0x20 \<and> c < 0x80) s"

lemma plain_escape: "short_escape c = None \<Longrightarrow> \<not> c < 0x20 \<Longrightarrow> c < 0x80 \<Longrightarrow> escape_text (c # s) = c # escape_text s"
  by (subst escape_text.simps) simp

lemma plain_text:
  assumes "plain_bytes s"
  shows "quoted s = 0x22 # s @ [0x22]" "clean_str s"
proof -
  have "escape_text w = w \<and> utf8_text w \<and> 0 \<notin> set w" if "plain_bytes w" for w
    using that
  proof (induction w)
    case (Cons c w)
    then have "utf8_char [c]" by (simp add: plain_bytes_def)
    from utf8_text_app [OF this, of w] Cons show ?case by (auto simp: plain_escape plain_bytes_def)
  qed (simp add: utf8_text_Nil)
  from this [OF assms] show "quoted s = 0x22 # s @ [0x22]" "clean_str s" by (simp_all add: quoted_def clean_str_def cstr_clean)
qed

lemma reads_text_ws:
  assumes "printable strtod fmt v" "levels v \<le> json_max_depth" "\<forall>c \<in> set w. json_is_ws c"
  shows "json_parse strtod (dump_text fmt [0x2C] [0x3A] v @ w) = Some v"
proof -
  have s: "seps_ok [0x2C] [0x3A]" by (simp add: seps_ok_def)
  have e: "text_end w" using assms(3) by (cases w) (auto simp: text_end_def)
  from dump_text_hd [OF assms(1), of "[0x2C]" "[0x3A]"]
  have "skip_ws (dump_text fmt [0x2C] [0x3A] v @ w) = dump_text fmt [0x2C] [0x3A] v @ w"
    by (intro skip_ws_id) auto
  with reads_dump [OF s assms(1)] assms(2) e have "pv strtod 0 (dump_text fmt [0x2C] [0x3A] v @ w) = Some (v, w)"
    by (simp add: reads_value_def)
  moreover have "skip_ws w = []" using assms(3) skip_ws_app [of w "[]"] by (simp add: skip_ws_def)
  ultimately show ?thesis by (simp add: json_parse_pv)
qed

lemma reads_text:
  assumes "printable strtod fmt v" "levels v \<le> json_max_depth"
  shows "json_parse strtod (dump_text fmt [0x2C] [0x3A] v) = Some v"
  using reads_text_ws [OF assms, of "[]"] by simp

subsection \<open>What the library's conversions promise\<close>

text \<open>The decimal text of an integer is a number literal.\<close>

lemma dec_nat_head:
  "0 < n \<Longrightarrow> \<exists>c t. dec_nat n = c # t \<and> 0x31 \<le> c \<and> c \<le> 0x39 \<and> list_all is_digit t"
proof (induction n rule: dec_nat.induct)
  case (1 n)
  have d: "0x31 \<le> (of_nat (0x30 + k) :: u8) \<and> (of_nat (0x30 + k) :: u8) \<le> 0x39" if "0 < k" "k < 10" for k :: nat
    unfolding word_le_nat_alt digit_byte [OF that(2)] using that by simp
  show ?case
  proof (cases "n < 10")
    case True
    then show ?thesis using d [of n] 1(2) by (subst dec_nat.simps) simp
  next
    case False
    then have "0 < n div 10" by simp
    from "1.IH" [OF False this] obtain c t where c: "dec_nat (n div 10) = c # t" "0x31 \<le> c \<and> c \<le> 0x39"
      "list_all is_digit t" by blast
    have "dec_nat n = c # t @ [of_nat (0x30 + n mod 10)]" using False c by (subst dec_nat.simps) simp
    moreover have "list_all is_digit (dec_nat n)" by (rule dec_nat_digits)
    ultimately show ?thesis using c(2) by auto
  qed
qed

lemma digits_dropped: "list_all is_digit t \<Longrightarrow> dropWhile is_digit t = []"
  by (simp add: dropWhile_eq_Nil_conv list_all_iff)

lemma scan_dec_nat: "num_int_part (dec_nat n) = Some []"
proof (cases "n = 0")
  case True
  then show ?thesis by (subst dec_nat.simps) (simp add: num_int_part_def)
next
  case False
  with dec_nat_head obtain c t where "dec_nat n = c # t" "0x31 \<le> c" "c \<le> 0x39" "list_all is_digit t" by blast
  moreover have "c \<noteq> 0x30" using calculation(2) by auto
  ultimately show ?thesis by (simp add: num_int_part_def digits_dropped)
qed

lemma scan_dec_int: "\<exists>k. scan_number (dec_int n) = Some ([], True, k)"
proof -
  have "dec_nat m \<noteq> [] \<and> hd (dec_nat m) \<noteq> 0x2D" for m
    using dec_nat_digits [of m] dec_nat_ne [of m] by (cases "dec_nat m") (auto simp: is_digit_def)
  then show ?thesis
    by (auto simp: dec_int_def scan_number_def Let_def scan_dec_nat num_frac_part_def num_exp_part_def)
qed

text \<open>
  What the standard documents of \<^verbatim>\<open>strtod\<close> and \<^verbatim>\<open>%.*g\<close> for one double. An
  integer within \<^verbatim>\<open>long long\<close> is written in decimal, and \<^verbatim>\<open>strtod\<close> reads it exactly.
  Of any other number \<^verbatim>\<open>%.{p}g\<close> writes a decimal literal; where \<^verbatim>\<open>strtod\<close> reads that
  literal as the number, it uses all of it and sets no ERANGE; and seventeen digits do read back.
  ERANGE is what excludes subnormal numbers, for which \<^verbatim>\<open>strtod\<close> sets it.
\<close>

definition long_integer :: "rat \<Rightarrow> bool" where
  "long_integer d \<longleftrightarrow> - (2 ^ 63) \<le> d \<and> d < 2 ^ 63 \<and> d = of_int \<lfloor>d\<rfloor>"

definition libc_double :: "strtod \<Rightarrow> fmt_g \<Rightarrow> rat \<Rightarrow> bool" where
  "libc_double strtod fmt_g d \<longleftrightarrow>
     (if long_integer d then strtod (dec_int \<lfloor>d\<rfloor>) = (d, length (dec_int \<lfloor>d\<rfloor>), False)
      else (\<forall>p \<in> {1..17}. (\<exists>i k. scan_number (fmt_g p d) = Some ([], i, k))
          \<and> (fst (strtod (fmt_g p d)) = d \<longrightarrow> strtod (fmt_g p d) = (d, length (fmt_g p d), False)))
        \<and> fst (strtod (fmt_g 17 d)) = d)"

lemma shortest_reads:
  assumes "\<forall>p \<in> set ps. 1 \<le> p \<and> p \<le> 17" "17 \<in> set ps" "fst (strtod (fmt_g 17 d)) = d"
  shows "\<exists>p. 1 \<le> p \<and> p \<le> 17 \<and> shortest_g strtod fmt_g d ps = fmt_g p d \<and> fst (strtod (fmt_g p d)) = d"
  using assms by (induction ps) auto

text \<open>So the number written is a literal that reads back, whichever precision the search stops at.\<close>

lemma format_reads:
  assumes "libc_double strtod fmt_g d"
  shows "(\<exists>i k. scan_number (json_format_number strtod fmt_g d) = Some ([], i, k))
    \<and> strtod (json_format_number strtod fmt_g d) = (d, length (json_format_number strtod fmt_g d), False)"
proof (cases "long_integer d")
  case True
  then have "json_format_number strtod fmt_g d = dec_int \<lfloor>d\<rfloor>"
    unfolding json_format_number_def long_integer_def by (rule if_P)
  with assms True scan_dec_int [of "\<lfloor>d\<rfloor>"] show ?thesis by (auto simp: libc_double_def)
next
  case False
  have f: "json_format_number strtod fmt_g d = shortest_g strtod fmt_g d [1..<18]"
    using False unfolding json_format_number_def long_integer_def by (rule if_not_P)
  have r: "fst (strtod (fmt_g 17 d)) = d" using assms False by (simp add: libc_double_def)
  obtain p where p: "1 \<le> p" "p \<le> 17" "shortest_g strtod fmt_g d [1..<18] = fmt_g p d" "fst (strtod (fmt_g p d)) = d"
    using shortest_reads [of "[1..<18]" strtod fmt_g d] r by auto
  have "p \<in> {1..17}" using p(1,2) by simp
  with assms False p(4) show ?thesis unfolding f p(3) libc_double_def by simp
qed

text \<open>
  The values a writer may hand over: strings are UTF-8 without NUL, keys are distinct, and a number is
  in the parser's range and, where it carries its own digits, those are the literal it was read from.
\<close>

definition kept_literal :: "strtod \<Rightarrow> rat \<Rightarrow> bool \<Rightarrow> bytes \<Rightarrow> bool" where
  "kept_literal strtod d i t \<longleftrightarrow> i \<and> json_number_text_ok strtod t = Some d
     \<and> (\<exists>k > 15. scan_number t = Some ([], True, k))"

fun writable :: "strtod \<Rightarrow> fmt_g \<Rightarrow> jv \<Rightarrow> bool" where
  "writable strtod fmt_g J_NULL \<longleftrightarrow> True"
| "writable strtod fmt_g (J_BOOL x) \<longleftrightarrow> True"
| "writable strtod fmt_g (J_NUM d i lit) \<longleftrightarrow>
     (case lit of Some t \<Rightarrow> kept_literal strtod d i t
      | None \<Rightarrow> libc_double strtod fmt_g d \<and> - json_number_max < d \<and> d < json_number_max)"
| "writable strtod fmt_g (J_STR s) \<longleftrightarrow> clean_str s"
| "writable strtod fmt_g (J_ARR xs) \<longleftrightarrow> (\<forall>x \<in> set xs. writable strtod fmt_g x)"
| "writable strtod fmt_g (J_OBJ ms) \<longleftrightarrow> distinct (map fst ms) \<and> length ms \<le> 2 ^ 59
     \<and> (\<forall>m \<in> set ms. clean_str (fst m) \<and> writable strtod fmt_g (snd m))"

text \<open>The parser gives such numbers.\<close>

lemma parsed_number:
  "parse_number strtod s = Some (J_NUM d i (Some t), r) \<Longrightarrow> kept_literal strtod d i t"
proof -
  assume a: "parse_number strtod s = Some (J_NUM d i (Some t), r)"
  then obtain k where k: "scan_number s = Some (r, i, k)" "i" "15 < k" "t = take (length s - length r) s"
    "json_number_text_ok strtod t = Some d"
    by (auto simp: parse_number_def Let_def split: option.splits if_splits)
  from scan_number_self [OF k(1)] obtain q where q: "s = q @ r" "scan_number q = Some ([], i, k)" by blast
  then have "t = q" using k(4) by simp
  with k q show ?thesis by (auto simp: kept_literal_def)
qed

text \<open>
  What is read back: the value, where a number that was printed has the flag and the digits the parser
  gives its text. Nothing else changes.
\<close>

fun reread :: "(rat \<Rightarrow> bytes) \<Rightarrow> jv \<Rightarrow> jv" where
  "reread fmt (J_NUM d i None) =
     (case scan_number (fmt d) of
        Some (_, i', k) \<Rightarrow> J_NUM d i' (if i' \<and> k > 15 then Some (fmt d) else None)
      | None \<Rightarrow> J_NUM d i None)"
| "reread fmt (J_ARR xs) = J_ARR (map (reread fmt) xs)"
| "reread fmt (J_OBJ ms) = J_OBJ (map (\<lambda>m. (fst m, reread fmt (snd m))) ms)"
| "reread fmt v = v"

lemma literal_no_nul: "scan_number t = Some ([], i, k) \<Longrightarrow> cstr t = t"
proof -
  assume "scan_number t = Some ([], i, k)"
  from scan_number_chars [OF this] have "list_all num_char t" by auto
  then have "0 \<notin> set t" by (auto simp: list_all_iff num_char_def is_digit_def)
  then show "cstr t = t" by (rule cstr_clean)
qed

lemma reread_number:
  assumes "writable strtod fmt_g (J_NUM d i lit)"
  shows "\<exists>i' lit'. reread (json_format_number strtod fmt_g) (J_NUM d i lit) = J_NUM d i' lit'
    \<and> num_reads_back strtod (json_format_number strtod fmt_g) d i' lit'
    \<and> num_text (json_format_number strtod fmt_g) d lit' = num_text (json_format_number strtod fmt_g) d lit"
proof (cases lit)
  case (Some t)
  with assms obtain k where "i" "json_number_text_ok strtod t = Some d" "15 < k" "scan_number t = Some ([], True, k)"
    by (auto simp: kept_literal_def)
  with Some literal_no_nul [of t True k] have "num_reads_back strtod (json_format_number strtod fmt_g) d i lit"
    by (simp add: num_reads_back_def num_text_def)
  with Some show ?thesis by auto
next
  case None
  let ?t = "json_format_number strtod fmt_g d"
  have w: "libc_double strtod fmt_g d" "- json_number_max < d" "d < json_number_max" using assms None by auto
  from format_reads [OF w(1)] obtain i' k where t: "scan_number ?t = Some ([], i', k)" "strtod ?t = (d, length ?t, False)"
    by blast
  have "?t \<noteq> []" using scan_number_nonempty [OF t(1)] .
  then have ok: "json_number_text_ok strtod ?t = Some d"
    using t(2) w(2,3) by (simp add: json_number_text_ok_def)
  note c = literal_no_nul [OF t(1)]
  show ?thesis using None t(1) ok c by (simp add: num_reads_back_def num_text_def)
qed

lemma reread_facts:
  "writable strtod fmt_g v \<Longrightarrow>
     printable strtod (json_format_number strtod fmt_g) (reread (json_format_number strtod fmt_g) v)"
  "levels (reread fmt v) = levels v"
proof -
  show "writable strtod fmt_g v \<Longrightarrow>
      printable strtod (json_format_number strtod fmt_g) (reread (json_format_number strtod fmt_g) v)"
  proof (induction v)
    case (J_NUM d i lit)
    from reread_number [OF this] show ?case by auto
  next
    case (J_OBJ ms)
    let ?f = "json_format_number strtod fmt_g"
    have "map fst (map (\<lambda>m. (fst m, reread ?f (snd m))) ms) = map fst ms" by simp
    moreover have "\<forall>m \<in> set ms. clean_str (fst m) \<and> printable strtod ?f (reread ?f (snd m))"
      using J_OBJ by (auto simp: snds.simps)
    ultimately show ?case using J_OBJ.prems by (simp del: map_map)
  qed auto
  show "levels (reread fmt v) = levels v"
  proof (induction v)
    case (J_NUM d i lit)
    then show ?case by (cases lit) (auto split: option.splits)
  next
    case (J_ARR xs)
    then have "levels ` reread fmt ` set xs = levels ` set xs" by (force simp: image_iff)
    then show ?case by (simp add: image_comp)
  next
    case (J_OBJ ms)
    then have "(\<lambda>m. levels (reread fmt (snd m))) ` set ms = (levels \<circ> snd) ` set ms"
      by (intro image_cong) (auto simp: snds.simps)
    then show ?case by (simp add: image_comp comp_def)
  qed simp_all
qed

lemma reread_text:
  "writable strtod fmt_g v \<Longrightarrow> dump_text (json_format_number strtod fmt_g) comma colon
     (reread (json_format_number strtod fmt_g) v) = dump_text (json_format_number strtod fmt_g) comma colon v"
proof (induction v)
  case (J_NUM d i lit)
  from reread_number [OF this] show ?case by (auto simp: num_text_def)
next
  case (J_ARR xs)
  have "items_text (json_format_number strtod fmt_g) comma colon first (map (reread (json_format_number strtod fmt_g)) xs)
      = items_text (json_format_number strtod fmt_g) comma colon first xs" for first
    using J_ARR by (induction xs arbitrary: first) auto
  then show ?case by simp
next
  case (J_OBJ ms)
  have ih: "\<forall>m \<in> set ms. dump_text (json_format_number strtod fmt_g) comma colon
      (reread (json_format_number strtod fmt_g) (snd m)) = dump_text (json_format_number strtod fmt_g) comma colon (snd m)"
    using J_OBJ by (auto simp: snds.simps)
  have "members_text (json_format_number strtod fmt_g) comma colon first
      (map (\<lambda>m. (fst m, reread (json_format_number strtod fmt_g) (snd m))) ms)
      = members_text (json_format_number strtod fmt_g) comma colon first ms" for first
    using ih by (induction ms arbitrary: first) auto
  then show ?case by simp
qed simp_all

lemma dump_rereads:
  assumes "seps_ok comma colon" "writable strtod fmt_g v" "levels v \<le> json_max_depth"
    "\<not> b_failed (jv_dump_sep alloc (json_format_number strtod fmt_g) comma colon v b)" "b_s b = []"
  shows "json_parse strtod (b_s (jv_dump_sep alloc (json_format_number strtod fmt_g) comma colon v b))
    = Some (reread (json_format_number strtod fmt_g) v)"
proof -
  let ?f = "json_format_number strtod fmt_g" and ?v = "reread (json_format_number strtod fmt_g) v"
  have t: "b_s (jv_dump_sep alloc ?f comma colon v b) = dump_text ?f comma colon v"
    using puts_dump(1) [of b alloc ?f comma colon v] assms(4,5) by (simp add: puts_def)
  note p = reread_facts(1) [OF assms(2)] and l = reread_facts(2) [of ?f v]
  from dump_text_hd [OF p, of comma colon] have "skip_ws (dump_text ?f comma colon ?v) = dump_text ?f comma colon ?v @ []"
    by (auto intro: skip_ws_start)
  with reads_dump [OF assms(1) p] assms(3) l have "pv strtod 0 (dump_text ?f comma colon ?v) = Some (?v, [])"
    by (simp add: reads_value_def text_end_def)
  then show ?thesis unfolding t json_parse_pv reread_text [OF assms(2)] by (simp add: skip_ws_def)
qed

text \<open>
  Property C6. Writing a value and parsing the text gives the value back, for both separators
  (\<open>jv_dump\<close> and \<open>jv_dump_tojson\<close>), whenever the buffer has not failed; and it does not fail
  when allocations succeed and the text is shorter than 2^60 bytes. Of a printed number the parser sets
  its flag and digits anew (\<open>reread\<close>); its value, and everything else, is the same. The value's
  strings are UTF-8 without NUL, its keys distinct and at most 2^59 per object, its nesting within the
  parser's bound, and its numbers in the parser's range, with conversions as the C library documents
  them for a number that is no subnormal.
\<close>

theorem dump_parse_roundtrip:
  assumes "writable strtod fmt_g v" "levels v \<le> json_max_depth" "\<not> b_failed b" "b_s b = []"
  shows "(\<not> b_failed (jv_dump alloc strtod fmt_g (Some v) b)
      \<longrightarrow> json_parse strtod (b_s (jv_dump alloc strtod fmt_g (Some v) b))
          = Some (reread (json_format_number strtod fmt_g) v))
    \<and> (\<not> b_failed (jv_dump_tojson alloc strtod fmt_g (Some v) b)
      \<longrightarrow> json_parse strtod (b_s (jv_dump_tojson alloc strtod fmt_g (Some v) b))
          = Some (reread (json_format_number strtod fmt_g) v))
    \<and> (alloc_ok alloc \<and> length (dump_text (json_format_number strtod fmt_g) [0x2C] [0x3A] v) < 2 ^ 60
      \<longrightarrow> \<not> b_failed (jv_dump alloc strtod fmt_g (Some v) b))
    \<and> (alloc_ok alloc \<and> length (dump_text (json_format_number strtod fmt_g) [0x2C, 0x20] [0x3A, 0x20] v) < 2 ^ 60
      \<longrightarrow> \<not> b_failed (jv_dump_tojson alloc strtod fmt_g (Some v) b))"
proof -
  have s: "seps_ok [0x2C] [0x3A]" "seps_ok [0x2C, 0x20] [0x3A, 0x20]"
    by (simp_all add: seps_ok_def json_is_ws_def)
  show ?thesis
    using dump_rereads [OF s(1) assms(1,2)] dump_rereads [OF s(2) assms(1,2)] assms(3,4)
      fits_dump(1) [of alloc b "json_format_number strtod fmt_g" "[0x2C]" "[0x3A]" v]
      fits_dump(1) [of alloc b "json_format_number strtod fmt_g" "[0x2C, 0x20]" "[0x3A, 0x20]" v]
    by (simp add: jv_dump_def jv_dump_tojson_def jv_dump_opt_def fits_def)
qed

text \<open>
  The value [{"k": 7}, 0.25, "a"] with a \<^verbatim>\<open>strtod\<close> that knows three literals, and a
  \<^verbatim>\<open>%.*g\<close> whose one digit 0.2 does not read back, so that the search goes on to 0.25.
\<close>

definition value0 :: jv where
  "value0 = J_ARR [J_OBJ [([0x6B], J_NUM 7 False None)], J_NUM (1 / 4) False None, J_STR [0x61]]"

definition strtod0 :: strtod where
  "strtod0 s = (if s = [0x37] then (7, 1, False)
     else if s = [0x30, 0x2E, 0x32] then (1 / 5, 3, False)
     else if s = [0x30, 0x2E, 0x32, 0x35] then (1 / 4, 4, False) else (0, 0, False))"

definition fmt_g0 :: fmt_g where
  "fmt_g0 p d = (if p = 1 then [0x30, 0x2E, 0x32] else [0x30, 0x2E, 0x32, 0x35])"

definition empty_buf :: sbuf where
  "empty_buf = \<lparr>b_s = [], b_cap = 0, b_failed = False\<rparr>"

lemma floor_quarter: "\<lfloor>1 / 4 :: rat\<rfloor> = 0"
  by (rule floor_unique) simp_all

lemma fmt0: "json_format_number strtod0 fmt_g0 7 = [0x37]"
  "json_format_number strtod0 fmt_g0 (1 / 4) = [0x30, 0x2E, 0x32, 0x35]"
proof -
  have u: "[Suc 0..<18] = 1 # 2 # [3..<18]" by (simp add: upt_rec)
  show "json_format_number strtod0 fmt_g0 7 = [0x37]"
    by (simp add: json_format_number_def dec_int_def dec_nat.simps)
  show "json_format_number strtod0 fmt_g0 (1 / 4) = [0x30, 0x2E, 0x32, 0x35]"
    by (simp add: json_format_number_def floor_quarter u strtod0_def fmt_g0_def)
qed

lemma clean_ascii: "c < 0x80 \<Longrightarrow> c \<noteq> 0 \<Longrightarrow> clean_str [c]"
  using utf8_text_app [OF _ utf8_text_Nil, of "[c]"] by (simp add: clean_str_def)

lemma libc0: "libc_double strtod0 fmt_g0 7" "libc_double strtod0 fmt_g0 (1 / 4)"
proof -
  show "libc_double strtod0 fmt_g0 7"
    by (simp add: libc_double_def long_integer_def strtod0_def dec_int_def dec_nat.simps)
  have "scan_number [0x30, 0x2E, 0x32] = Some ([], False, 1)" "scan_number [0x30, 0x2E, 0x32, 0x35] = Some ([], False, 1)"
    by (simp_all add: scan_number_def num_int_part_def num_frac_part_def num_exp_part_def digits1_def is_digit_def)
  then show "libc_double strtod0 fmt_g0 (1 / 4)"
    by (simp add: libc_double_def long_integer_def floor_quarter strtod0_def fmt_g0_def some_bool)
qed

lemma value0_writable: "writable strtod0 fmt_g0 value0"
  using libc0 by (simp add: value0_def clean_ascii json_number_max_def)

lemma value0_text: "dump_text (json_format_number strtod0 fmt_g0) [0x2C] [0x3A] value0
    = [0x5B, 0x7B, 0x22, 0x6B, 0x22, 0x3A, 0x37, 0x7D, 0x2C, 0x30, 0x2E, 0x32, 0x35, 0x2C, 0x22, 0x61, 0x22, 0x5D]"
  by (simp add: value0_def fmt0 quoted_def cstr_def escape_text.simps [of "[x]" for x] short_escape_def)

theorem dump_parse_roundtrip_witness:
  "json_parse strtod0 (b_s (jv_dump (\<lambda>_. True) strtod0 fmt_g0 (Some value0) empty_buf))
    = Some (J_ARR [J_OBJ [([0x6B], J_NUM 7 True None)], J_NUM (1 / 4) False None, J_STR [0x61]])"
proof -
  have "levels value0 \<le> json_max_depth" by (simp add: value0_def json_max_depth_def)
  moreover have "reread (json_format_number strtod0 fmt_g0) value0
      = J_ARR [J_OBJ [([0x6B], J_NUM 7 True None)], J_NUM (1 / 4) False None, J_STR [0x61]]"
    by (simp add: value0_def fmt0 scan_number_def num_int_part_def num_frac_part_def num_exp_part_def
        digits1_def is_digit_def)
  ultimately show ?thesis
    using dump_parse_roundtrip [OF value0_writable, of empty_buf "\<lambda>_. True"]
    by (simp add: empty_buf_def value0_text alloc_ok_def)
qed

end
