(* ===== verification/Sorts.thy ===== *)
theory Sorts
  imports "HOL-Library.Multiset"
begin

section \<open>Counting sort and insertion sort\<close>

text \<open>
  What the sorting loops of several files share: inserting at the place found from the right keeps a
  list the stable sort of what it holds, and writing each element at the next free place of its class,
  where the classes lie one after the other, lays the classes out in order.
\<close>

lemma sort_key_insert:
  assumes "sort_key f xs = P @ Q" "\<forall>q \<in> set Q. f i < f q" "P = [] \<or> f (last P) \<le> f i"
  shows "sort_key f (xs @ [i]) = P @ i # Q"
proof (rule properties_for_sort_key)
  have "mset (P @ Q) = mset xs" using assms(1) by (metis mset_sort)
  then show "mset (P @ i # Q) = mset (xs @ [i])" by simp
next
  fix k assume "k \<in> set (P @ i # Q)"
  have st: "filter (\<lambda>x. f k = f x) (P @ Q) = filter (\<lambda>x. f k = f x) xs"
    unfolding assms(1) [symmetric] using sort_key_stable [of f "f k" xs] by (simp add: eq_commute)
  have "filter (\<lambda>x. f k = f x) Q = []" if "f k = f i" using that assms(2) by (auto simp: filter_empty_conv)
  with st show "filter (\<lambda>x. f k = f x) (P @ i # Q) = filter (\<lambda>x. f k = f x) (xs @ [i])" by auto
next
  have "sorted (map f (P @ Q))" unfolding assms(1) [symmetric] by (rule sorted_sort_key)
  then have s: "sorted (map f P)" "sorted (map f Q)" "\<forall>p \<in> set P. \<forall>q \<in> set Q. f p \<le> f q"
    by (auto simp: sorted_append)
  have "\<forall>p \<in> set P. f p \<le> f i"
  proof (cases "P = []")
    case False
    then have "P = butlast P @ [last P]" by simp
    with s(1) have "sorted (map f (butlast P) @ [f (last P)])" by (metis list.simps(8) list.simps(9) map_append)
    then have "\<forall>p \<in> set (butlast P). f p \<le> f (last P)" by (simp add: sorted_append)
    with \<open>P = butlast P @ [last P]\<close> have "\<forall>p \<in> set P. f p \<le> f (last P)"
      by (metis Un_iff empty_iff list.set(1) order_refl set_ConsD set_append)
    with False assms(3) show ?thesis by (meson order.trans)
  qed simp
  with s assms(2) show "sorted (map f (P @ i # Q))" by (fastforce simp: sorted_append)
qed

subsection \<open>Counting\<close>

definition class_of :: "('a \<Rightarrow> nat) \<Rightarrow> nat \<Rightarrow> 'a list \<Rightarrow> 'a list" where
  "class_of key k xs = filter (\<lambda>x. key x = k) xs"

lemma class_of_simps [simp]:
  "class_of key k [] = []" "class_of key k (xs @ ys) = class_of key k xs @ class_of key k ys"
  "class_of key k [x] = (if key x = k then [x] else [])"
  by (simp_all add: class_of_def)

text \<open>Where the class \<open>k\<close> begins.\<close>

definition class_start :: "('a \<Rightarrow> nat) \<Rightarrow> 'a list \<Rightarrow> nat \<Rightarrow> nat" where
  "class_start key xs k = (\<Sum>j<k. length (class_of key j xs))"

lemma class_start_simps [simp]: "class_start key xs 0 = 0" "class_start key xs (Suc k) = class_start key xs k + length (class_of key k xs)"
  by (simp_all add: class_start_def)

lemma class_start_mono: "k < k' \<Longrightarrow> class_start key xs k + length (class_of key k xs) \<le> class_start key xs k'"
proof (induction k')
  case (Suc k')
  then show ?case by (cases "k = k'") auto
qed simp

definition classes :: "('a \<Rightarrow> nat) \<Rightarrow> nat \<Rightarrow> 'a list \<Rightarrow> 'a list" where
  "classes key K xs = concat (map (\<lambda>k. class_of key k xs) [0..<K])"

lemma classes_Suc: "classes key (Suc K) xs = classes key K xs @ class_of key K xs"
  by (simp add: classes_def)

lemma length_classes: "length (classes key K xs) = class_start key xs K"
  by (induction K) (simp_all add: classes_Suc classes_def)

lemma classes_nth: "k < K \<Longrightarrow> j < length (class_of key k xs) \<Longrightarrow> classes key K xs ! (class_start key xs k + j) = class_of key k xs ! j"
proof (induction K)
  case (Suc K)
  show ?case
  proof (cases "k = K")
    case True
    then show ?thesis using Suc.prems by (simp add: classes_Suc nth_append length_classes)
  next
    case False
    then have "class_start key xs k + j < class_start key xs K" using class_start_mono [of k K key xs] Suc.prems by simp
    then show ?thesis using Suc False by (simp add: classes_Suc nth_append length_classes)
  qed
qed simp

lemma in_some_class: "i < class_start key xs K \<Longrightarrow> \<exists>k j. k < K \<and> j < length (class_of key k xs) \<and> i = class_start key xs k + j"
proof (induction K)
  case (Suc K)
  show ?case
  proof (cases "i < class_start key xs K")
    case True
    then show ?thesis using Suc.IH less_SucI by blast
  next
    case False
    then show ?thesis using Suc.prems by (intro exI [of _ K] exI [of _ "i - class_start key xs K"]) simp
  qed
qed simp

lemma classes_all: "(\<And>x. x \<in> set xs \<Longrightarrow> key x < K) \<Longrightarrow> class_start key xs K = length xs"
proof (induction xs)
  case (Cons x xs)
  have "class_start key (x # xs) k = class_start key xs k + (if key x < k then 1 else 0)" for k
    by (induction k) (auto simp: class_of_def)
  then show ?case using Cons by simp
qed (simp add: class_start_def)

text \<open>The places of different elements are different.\<close>

lemma places_apart:
  assumes "j < length (class_of key k xs)" "j' < length (class_of key k' xs)" "class_start key xs k + j = class_start key xs k' + j'"
  shows "k = k' \<and> j = j'"
  using assms class_start_mono [of k k' key xs] class_start_mono [of k' k key xs] by (cases k k' rule: linorder_cases) auto

text \<open>The loop \<^verbatim>\<open>out[at[key(x)]++] = g(x)\<close>.\<close>

definition place_step :: "('a \<Rightarrow> nat) \<Rightarrow> ('a \<Rightarrow> 'b) \<Rightarrow> 'a \<Rightarrow> 'b list \<times> nat list \<Rightarrow> 'b list \<times> nat list" where
  "place_step key g x s = (case s of (out, at) \<Rightarrow> (out[at ! key x := g x], at[key x := at ! key x + 1]))"

lemma place_loop:
  assumes "\<And>x. x \<in> set xs \<Longrightarrow> key x < K" "length at0 = K" "\<And>k. k < K \<Longrightarrow> at0 ! k = a + class_start key xs k"
    and "a + length xs \<le> length out0" "ps @ qs = xs"
  shows "\<exists>out at. fold (place_step key g) ps (out0, at0) = (out, at) \<and> length out = length out0 \<and> length at = K
    \<and> (\<forall>k < K. at ! k = a + class_start key xs k + length (class_of key k ps))
    \<and> (\<forall>k < K. \<forall>j < length (class_of key k ps). out ! (a + class_start key xs k + j) = g (class_of key k ps ! j))
    \<and> (\<forall>i < length out0. i < a \<or> a + length xs \<le> i \<longrightarrow> out ! i = out0 ! i)"
  using assms(5)
proof (induction ps arbitrary: qs rule: rev_induct)
  case Nil
  then show ?case using assms(2,3) by simp
next
  case (snoc x ps)
  then obtain out at where s: "fold (place_step key g) ps (out0, at0) = (out, at)" "length out = length out0" "length at = K"
    and at: "\<forall>k < K. at ! k = a + class_start key xs k + length (class_of key k ps)"
    and out: "\<forall>k < K. \<forall>j < length (class_of key k ps). out ! (a + class_start key xs k + j) = g (class_of key k ps ! j)"
    and rest: "\<forall>i < length out0. i < a \<or> a + length xs \<le> i \<longrightarrow> out ! i = out0 ! i"
    using snoc.IH [of "x # qs"] by auto
  have xs: "xs = ps @ x # qs" using snoc.prems by simp
  let ?k = "key x" and ?p = "a + class_start key xs (key x) + length (class_of key (key x) ps)"
  have k: "?k < K" using assms(1) xs by simp
  have cx: "class_of key ?k xs = class_of key ?k ps @ x # class_of key ?k qs" unfolding xs by (simp add: class_of_def)
  have sub: "length (class_of key k' ps) \<le> length (class_of key k' xs)" for k' unfolding xs by (simp add: class_of_def)
  have "class_start key xs ?k + length (class_of key ?k xs) \<le> class_start key xs K" by (rule class_start_mono [OF k])
  then have p: "a \<le> ?p" "?p < a + length xs" using classes_all [of xs key K] assms(1) cx by auto
  have step: "fold (place_step key g) (ps @ [x]) (out0, at0) = (out[?p := g x], at[?k := ?p + 1])"
    using s(1) at k by (simp add: place_step_def)
  have "out[?p := g x] ! (a + class_start key xs k' + j) = g (class_of key k' (ps @ [x]) ! j)"
    if "k' < K" "j < length (class_of key k' (ps @ [x]))" for k' j
  proof (cases "k' = ?k \<and> j = length (class_of key ?k ps)")
    case True
    then show ?thesis using p assms(4) s(2) by simp
  next
    case False
    then have j: "j < length (class_of key k' ps)" using that(2) by (auto split: if_splits)
    then have "class_start key xs k' + j \<noteq> class_start key xs ?k + length (class_of key ?k ps)"
      using places_apart [of j key k' xs "length (class_of key ?k ps)" ?k] sub [of k'] cx False by auto
    then have "out[?p := g x] ! (a + class_start key xs k' + j) = out ! (a + class_start key xs k' + j)" by simp
    then show ?thesis using out that(1) j by (simp add: nth_append)
  qed
  moreover have "at[?k := ?p + 1] ! k' = a + class_start key xs k' + length (class_of key k' (ps @ [x]))" if "k' < K" for k'
    using at that s(3) by (cases "k' = ?k") auto
  ultimately show ?case using step s(2,3) rest p by (auto simp: nth_list_update)
qed

lemma counting_sort:
  assumes "\<And>x. x \<in> set xs \<Longrightarrow> key x < K" "length at0 = K" "\<And>k. k < K \<Longrightarrow> at0 ! k = a + class_start key xs k"
    and "a + length xs \<le> length out0"
  shows "fst (fold (place_step key g) xs (out0, at0)) = take a out0 @ map g (classes key K xs) @ drop (a + length xs) out0"
proof -
  obtain out at where s: "fold (place_step key g) xs (out0, at0) = (out, at)" "length out = length out0"
    and out: "\<forall>k < K. \<forall>j < length (class_of key k xs). out ! (a + class_start key xs k + j) = g (class_of key k xs ! j)"
    and rest: "\<forall>i < length out0. i < a \<or> a + length xs \<le> i \<longrightarrow> out ! i = out0 ! i"
    using place_loop [OF assms(1-4), where g = g and ps = xs and qs = "[]"] by auto
  have l: "length (classes key K xs) = length xs" using classes_all [of xs key K] assms(1) by (simp add: length_classes)
  have "out = take a out0 @ map g (classes key K xs) @ drop (a + length xs) out0"
  proof (rule nth_equalityI)
    show "length out = length (take a out0 @ map g (classes key K xs) @ drop (a + length xs) out0)" using s(2) assms(4) l by simp
    fix i assume i: "i < length out"
    consider "i < a" | "a \<le> i" "i < a + length xs" | "a + length xs \<le> i" by linarith
    then show "out ! i = (take a out0 @ map g (classes key K xs) @ drop (a + length xs) out0) ! i"
    proof cases
      case 2
      then have "i - a < class_start key xs K" using l length_classes [of key K xs] by simp
      then obtain k j where kj: "k < K" "j < length (class_of key k xs)" "i - a = class_start key xs k + j" using in_some_class by blast
      then have e: "i = a + class_start key xs k + j" using 2(1) by simp
      have "classes key K xs ! (i - a) = class_of key k xs ! j" unfolding kj(3) by (rule classes_nth [OF kj(1,2)])
      moreover have "out ! i = g (class_of key k xs ! j)" unfolding e using out kj(1,2) by blast
      moreover have "i - a < length xs" using 2 by linarith
      ultimately show ?thesis using 2 l assms(4) by (simp add: nth_append min_def)
    next
      case 3
      then have "\<not> i - a < length xs" by linarith
      then show ?thesis using 3 rest s(2) i assms(4) l by (simp add: nth_append min_def)
    qed (use rest s(2) i assms(4) l in \<open>simp add: nth_append min_def\<close>)
  qed
  then show ?thesis using s(1) by simp
qed

text \<open>Classes in order are the stable sort.\<close>

lemma classes_filter: "filter (\<lambda>x. key x = k) (classes key n xs) = (if k < n then class_of key k xs else [])"
proof (induction n)
  case (Suc n)
  have "filter (\<lambda>x. key x = k) (class_of key n xs) = (if k = n then class_of key n xs else [])"
    by (auto simp: class_of_def filter_empty_conv)
  then show ?case using Suc by (auto simp: classes_Suc less_Suc_eq)
qed (simp add: classes_def)

lemma classes_sorted: "sorted (map key (classes key n xs)) \<and> (\<forall>x \<in> set (classes key n xs). key x < n)"
proof (induction n)
  case (Suc n)
  have "map key (class_of key n xs) = replicate (length (class_of key n xs)) n"
    by (induction xs) (simp_all add: class_of_def)
  then have c: "sorted (map key (class_of key n xs))" "\<And>x. x \<in> set (class_of key n xs) \<Longrightarrow> key x = n"
    by (simp_all add: class_of_def)
  have "key x \<le> key y" if "x \<in> set (classes key n xs)" "y \<in> set (class_of key n xs)" for x y
    using Suc c(2) [OF that(2)] that(1) by (simp add: less_imp_le)
  moreover have "key x < Suc n" if "x \<in> set (classes key (Suc n) xs)" for x
    using Suc c(2) [of x] that unfolding classes_Suc by (metis Un_iff less_SucI lessI set_append)
  moreover have "sorted (map key (classes key n xs))" using Suc by blast
  ultimately show ?case unfolding classes_Suc map_append sorted_append using c(1) by auto
qed (simp add: classes_def)

lemma classes_sort:
  assumes "\<And>x. x \<in> set xs \<Longrightarrow> key x < K"
  shows "classes key K xs = sort_key key xs"
proof (rule properties_for_sort_key [symmetric])
  have f: "filter (\<lambda>y. key y = k) (classes key K xs) = filter (\<lambda>y. key y = k) xs" for k
  proof (cases "k < K")
    case False
    then have "filter (\<lambda>y. key y = k) xs = []" using assms by (auto simp: filter_empty_conv)
    then show ?thesis using False by (simp add: classes_filter)
  qed (simp add: classes_filter class_of_def)
  then show "filter (\<lambda>y. key x = key y) (classes key K xs) = filter (\<lambda>y. key x = key y) xs" for x
    by (simp add: eq_commute [of "key x"])
  show "mset (classes key K xs) = mset xs"
  proof (rule multiset_eqI)
    fix x
    have "count (mset ys) x = count (mset (filter (\<lambda>y. key y = key x) ys)) x" for ys by (induction ys) auto
    then show "count (mset (classes key K xs)) x = count (mset xs) x" using f [of "key x"] by metis
  qed
  show "sorted (map key (classes key K xs))" using classes_sorted by blast
qed

definition count_step :: "('a \<Rightarrow> nat) \<Rightarrow> 'a \<Rightarrow> nat list \<Rightarrow> nat list" where
  "count_step key x ct = ct[key x := ct ! key x + 1]"

lemma count_loop:
  "(\<And>x. x \<in> set xs \<Longrightarrow> key x < K) \<Longrightarrow> length (fold (count_step key) xs (replicate K 0)) = K
    \<and> (\<forall>k < K. fold (count_step key) xs (replicate K 0) ! k = length (class_of key k xs))"
proof (induction xs rule: rev_induct)
  case (snoc x xs)
  let ?ct = "fold (count_step key) xs (replicate K 0)"
  have ih: "length ?ct = K" "\<And>k. k < K \<Longrightarrow> ?ct ! k = length (class_of key k xs)" using snoc by auto
  have "fold (count_step key) (xs @ [x]) (replicate K 0) = ?ct[key x := ?ct ! key x + 1]" by (simp add: count_step_def)
  moreover have "key x < K" using snoc.prems by simp
  ultimately show ?case using ih by (simp add: nth_list_update)
qed simp

lemma start_loop:
  assumes "\<And>k. k < K \<Longrightarrow> ct ! k = length (class_of key k xs)" "n \<le> K"
  shows "\<exists>st. fold (\<lambda>k (st, s). (st[k := s], s + ct ! k)) [0..<n] (replicate K 0, a) = (st, a + class_start key xs n)
    \<and> length st = K \<and> (\<forall>k < n. st ! k = a + class_start key xs k)"
  using assms(2)
proof (induction n)
  case (Suc n)
  then obtain st where "fold (\<lambda>k (st, s). (st[k := s], s + ct ! k)) [0..<n] (replicate K 0, a) = (st, a + class_start key xs n)"
    "length st = K" "\<forall>k < n. st ! k = a + class_start key xs k" by auto
  then show ?case using Suc.prems assms(1) [of n] by (auto simp: nth_list_update less_Suc_eq)
qed simp

lemma map_insort: "map h (insort_key (\<lambda>x. f (h x)) x xs) = insort_key f (h x) (map h xs)"
  by (induction xs) auto

lemma map_sort_key: "map h (sort_key (\<lambda>x. f (h x)) xs) = sort_key f (map h xs)"
  by (induction xs) (simp_all add: map_insort)

subsection \<open>Insertion\<close>

text \<open>The element \<open>x\<close> goes back from \<open>j\<close> past the greater ones, down to \<open>a\<close>.\<close>

fun shift_in :: "('a \<Rightarrow> 'k::linorder) \<Rightarrow> nat \<Rightarrow> 'a \<Rightarrow> nat \<Rightarrow> 'a list \<Rightarrow> 'a list" where
  "shift_in f a x j xs =
    (if j > a \<and> f (xs ! (j - 1)) > f x then shift_in f a x (j - 1) (xs[j := xs ! (j - 1)]) else xs[j := x])"

declare shift_in.simps [simp del]

lemma shift_in_split:
  "a + m < length xs \<Longrightarrow> \<exists>P Q. take m (drop a xs) = P @ Q \<and> shift_in f a x (a + m) xs = take a xs @ P @ x # Q @ drop (Suc (a + m)) xs
    \<and> (\<forall>q \<in> set Q. f x < f q) \<and> (P = [] \<or> f (last P) \<le> f x)"
proof (induction m arbitrary: xs)
  case 0
  then have "shift_in f a x a xs = take a xs @ x # drop (Suc a) xs" by (subst shift_in.simps) (simp add: upd_conv_take_nth_drop)
  then show ?case by simp
next
  case (Suc m)
  let ?y = "xs ! (a + m)"
  have t: "take (Suc m) (drop a xs) = take m (drop a xs) @ [?y]" using Suc.prems by (simp add: take_Suc_conv_app_nth)
  show ?case
  proof (cases "f ?y > f x")
    case True
    let ?xs = "xs[Suc (a + m) := ?y]"
    have e: "shift_in f a x (a + Suc m) xs = shift_in f a x (a + m) ?xs" using True by (subst shift_in.simps) simp
    obtain P Q where pq: "take m (drop a ?xs) = P @ Q" "shift_in f a x (a + m) ?xs = take a ?xs @ P @ x # Q @ drop (Suc (a + m)) ?xs"
      "\<forall>q \<in> set Q. f x < f q" "P = [] \<or> f (last P) \<le> f x" using Suc.IH [of ?xs] Suc.prems by auto
    have "drop (Suc (a + m)) ?xs = ?y # drop (Suc (Suc (a + m))) xs"
      using Suc.prems by (simp add: upd_conv_take_nth_drop)
    moreover have "take m (drop a ?xs) = take m (drop a xs)" by (simp add: drop_update_swap)
    ultimately show ?thesis
      using pq e t True Suc.prems by (intro exI [of _ P] exI [of _ "Q @ [?y]"]) simp
  next
    case False
    then have "shift_in f a x (a + Suc m) xs = xs[a + Suc m := x]" by (subst shift_in.simps) simp
    also have "\<dots> = take (a + Suc m) xs @ x # drop (Suc (a + Suc m)) xs" using Suc.prems by (simp add: upd_conv_take_nth_drop)
    also have "take (a + Suc m) xs = take a xs @ take (Suc m) (drop a xs)" by (rule take_add)
    finally show ?thesis using t False by (intro exI [of _ "take (Suc m) (drop a xs)"] exI [of _ "[]"]) auto
  qed
qed

lemma insertion_sort:
  "a < b \<Longrightarrow> b \<le> length xs \<Longrightarrow> fold (\<lambda>i xs. shift_in f a (xs ! i) i xs) [a + 1..<b] xs
    = take a xs @ sort_key f (take (b - a) (drop a xs)) @ drop b xs"
proof (induction b)
  case (Suc b)
  show ?case
  proof (cases "b = a")
    case True
    then have "take (Suc 0) (drop a xs) = [xs ! a]" "drop a xs = xs ! a # drop (Suc a) xs"
      using Suc.prems by (simp_all add: take_Suc_conv_app_nth Cons_nth_drop_Suc)
    then show ?thesis using True by simp (metis append_take_drop_id)
  next
    case False
    define m where "m = b - a"
    have b: "b = a + m" "a < b" "b < length xs" using Suc.prems False by (simp_all add: m_def)
    let ?ys = "take a xs @ sort_key f (take m (drop a xs)) @ drop b xs"
    have l: "length (sort_key f (take m (drop a xs))) = m" using b by simp
    have ih: "fold (\<lambda>i xs. shift_in f a (xs ! i) i xs) [a + 1..<b] xs = ?ys" unfolding m_def by (rule Suc.IH) (use b(2,3) in simp_all)
    have y: "?ys ! b = xs ! b" "length ?ys = length xs" "take m (drop a ?ys) = sort_key f (take m (drop a xs))"
      "take a ?ys = take a xs" "drop (Suc b) ?ys = drop (Suc b) xs"
      using b l by (simp_all add: nth_append)
    have lt: "a + m < length ?ys" using b y(2) by simp
    obtain P Q where pq: "sort_key f (take m (drop a xs)) = P @ Q"
      "shift_in f a (xs ! b) b ?ys = take a xs @ P @ xs ! b # Q @ drop (Suc b) xs" "\<forall>q \<in> set Q. f (xs ! b) < f q" "P = [] \<or> f (last P) \<le> f (xs ! b)"
      using shift_in_split [OF lt, of f "xs ! b", unfolded b(1) [symmetric] y(3-5)] by blast
    have "take (Suc b - a) (drop a xs) = take m (drop a xs) @ [xs ! b]" using b by (simp add: take_Suc_conv_app_nth Suc_diff_le)
    then have "sort_key f (take (Suc b - a) (drop a xs)) = P @ xs ! b # Q" using sort_key_insert [OF pq(1,3,4)] by simp
    moreover have "[a + 1..<Suc b] = [a + 1..<b] @ [b]" using b by simp
    ultimately show ?thesis using ih pq(2) y(1) by simp
  qed
qed simp

end
