(* ===== verification/Json_Sort.thy ===== *)
theory Json_Sort
  imports Json_Escape Sorts "HOL-Library.List_Lexorder"
begin

section \<open>The order of an object's members (src/src/json.c)\<close>

text \<open>
  \<open>jv_dictsort\<close> fills an array with the member indices in the order of their lower-cased keys.
  Keys are C strings: a list of non-zero bytes, the terminator being the end of the list.
  \<open>jv_dictsort_sorts\<close> says the insertion sort is the library's stable sort.
\<close>

definition lower :: "u8 \<Rightarrow> u8" where
  "lower x = (if 0x41 \<le> x \<and> x \<le> 0x5A then x - 0x41 + 0x61 else x)"

text \<open>The byte at a cursor: the terminator at the end.\<close>

definition byte_at :: "bytes \<Rightarrow> u8" where
  "byte_at s = (case s of [] \<Rightarrow> 0 | c # _ \<Rightarrow> c)"

fun jv_key_cmp :: "bytes \<Rightarrow> bytes \<Rightarrow> int" where
  "jv_key_cmp [] b = (if lower 0 \<noteq> lower (byte_at b) then (if lower 0 < lower (byte_at b) then -1 else 1) else 0)"
| "jv_key_cmp (x # a) b =
    (let x' = lower x; y' = lower (byte_at b) in
     if x' \<noteq> y' then (if x' < y' then -1 else 1)
     else if x' = 0 then 0
     else jv_key_cmp a (tl b))"

text \<open>
  The inner loop moves the larger keys up by one; \<open>j\<close> is where it stands. The outer loop places
  the members in turn.
\<close>

fun shift_loop :: "bytes list \<Rightarrow> nat \<Rightarrow> nat \<Rightarrow> nat list \<Rightarrow> nat list" where
  "shift_loop keys i 0 order = order[0 := i]"
| "shift_loop keys i (Suc j) order =
    (if jv_key_cmp (keys ! (order ! j)) (keys ! i) > 0
     then shift_loop keys i j (order[Suc j := order ! j])
     else order[Suc j := i])"

text \<open>A null pointer and a value that is no object leave the array alone.\<close>

definition jv_dictsort :: "jv option \<Rightarrow> nat list \<Rightarrow> nat list" where
  "jv_dictsort obj order =
    (case obj of
       Some (J_OBJ ms) \<Rightarrow> fold (\<lambda>i. shift_loop (map fst ms) i i) [0..<length ms] order
     | _ \<Rightarrow> order)"

subsection \<open>The comparison is the order of the lower-cased keys\<close>

definition c_string :: "bytes \<Rightarrow> bool" where
  "c_string s \<longleftrightarrow> 0 \<notin> set s"

lemma lower_0: "lower 0 = 0"
  by (simp add: lower_def)

lemma lower_nonzero: "x \<noteq> 0 \<Longrightarrow> lower x \<noteq> 0"
proof -
  assume x: "x \<noteq> 0"
  show "lower x \<noteq> 0"
  proof
    assume l: "lower x = 0"
    have r: "0x41 \<le> x" "x \<le> 0x5A" "lower x = x - 0x41 + 0x61"
      using l x by (auto simp: lower_def split: if_splits)
    have "lower x = x + 0x20" using r(3) by simp
    moreover have "unat (x + 0x20) = unat x + 32" using r by (simp add: unat_word_ariths word_le_nat_alt)
    ultimately have "unat (lower x) \<noteq> 0" by simp
    with l show False by simp
  qed
qed

lemma jv_key_cmp_lex:
  assumes "c_string a" "c_string b"
  shows "jv_key_cmp a b = (if map lower a < map lower b then -1 else if map lower a = map lower b then 0 else 1)"
  using assms
proof (induction a b rule: jv_key_cmp.induct)
  case (1 b)
  then show ?case
    by (cases b) (auto simp: byte_at_def lower_0 c_string_def lower_nonzero word_gt_0)
next
  case (2 x a b)
  have x: "lower x \<noteq> 0" using 2(2) lower_nonzero [of x] by (auto simp: c_string_def)
  show ?case
  proof (cases b)
    case Nil
    with x show ?thesis by (simp add: byte_at_def lower_0)
  next
    case (Cons y b')
    have "jv_key_cmp a b' = (if map lower a < map lower b' then -1 else if map lower a = map lower b' then 0 else 1)"
      if e: "lower x = lower y"
    proof -
      have "jv_key_cmp a (tl b) = (if map lower a < map lower (tl b) then -1
          else if map lower a = map lower (tl b) then 0 else 1)"
        by (rule 2(1) [OF refl refl]) (use 2(2,3) e x Cons in \<open>simp_all add: byte_at_def c_string_def\<close>)
      with Cons show ?thesis by simp
    qed
    note IH = this
    show ?thesis
    proof (cases "lower x = lower y")
      case True
      with IH Cons x show ?thesis by (simp add: byte_at_def)
    next
      case False
      then have "jv_key_cmp (x # a) b = (if lower x < lower y then -1 else 1)"
        using Cons by (simp add: byte_at_def)
      with False Cons show ?thesis by simp
    qed
  qed
qed

corollary jv_key_cmp_pos:
  "c_string a \<Longrightarrow> c_string b \<Longrightarrow> jv_key_cmp a b > 0 \<longleftrightarrow> map lower b < map lower a"
  by (auto simp: jv_key_cmp_lex)

subsection \<open>The sort\<close>

text \<open>
  The inner loop, with the hole at \<open>j\<close>: the sorted part splits into the keys that stay and the
  larger ones, which move up.
\<close>

lemma shift_loop_split:
  "j < length order \<Longrightarrow> \<exists>P Q. take j order = P @ Q \<and> shift_loop keys i j order = P @ i # Q @ drop (Suc j) order
    \<and> (\<forall>q \<in> set Q. jv_key_cmp (keys ! q) (keys ! i) > 0)
    \<and> (P = [] \<or> \<not> jv_key_cmp (keys ! last P) (keys ! i) > 0)"
proof (induction j arbitrary: order)
  case 0
  then show ?case by (cases order) auto
next
  case (Suc j)
  have tk: "take (Suc j) order = take j order @ [order ! j]" using Suc.prems by (simp add: take_Suc_conv_app_nth)
  show ?case
  proof (cases "jv_key_cmp (keys ! (order ! j)) (keys ! i) > 0")
    case True
    let ?o = "order[Suc j := order ! j]"
    have "j < length ?o" using Suc.prems by simp
    from Suc.IH [OF this] obtain P Q where pq: "take j ?o = P @ Q"
      "shift_loop keys i j ?o = P @ i # Q @ drop (Suc j) ?o"
      "\<forall>q \<in> set Q. jv_key_cmp (keys ! q) (keys ! i) > 0" "P = [] \<or> \<not> jv_key_cmp (keys ! last P) (keys ! i) > 0" by blast
    have "drop (Suc j) ?o = order ! j # drop (Suc (Suc j)) order"
      using Suc.prems by (subst Cons_nth_drop_Suc [symmetric]) (simp_all add: drop_update_cancel)
    moreover have "take j ?o = take j order" by simp
    ultimately show ?thesis using pq True tk by (intro exI [of _ P] exI [of _ "Q @ [order ! j]"]) simp
  next
    case False
    have "order[Suc j := i] = take (Suc j) order @ i # drop (Suc (Suc j)) order"
      using Suc.prems by (simp add: upd_conv_take_nth_drop)
    with False tk show ?thesis by (intro exI [of _ "take (Suc j) order"] exI [of _ "[]"]) simp
  qed
qed

lemma dictsort_prefix:
  assumes "\<forall>k \<in> set keys. c_string k" "length order = length keys" "n \<le> length keys"
  shows "take n (fold (\<lambda>i. shift_loop keys i i) [0..<n] order) = sort_key (\<lambda>i. map lower (keys ! i)) [0..<n]
    \<and> length (fold (\<lambda>i. shift_loop keys i i) [0..<n] order) = length keys"
  using assms(3)
proof (induction n)
  case 0
  then show ?case using assms(2) by simp
next
  case (Suc n)
  let ?f = "\<lambda>i. map lower (keys ! i)"
  let ?o = "fold (\<lambda>i. shift_loop keys i i) [0..<n] order"
  from Suc have IH: "take n ?o = sort_key ?f [0..<n]" "length ?o = length keys" by auto
  then have "n < length ?o" using Suc.prems by simp
  from shift_loop_split [OF this, of keys n] obtain P Q where pq: "take n ?o = P @ Q"
    "shift_loop keys n n ?o = P @ n # Q @ drop (Suc n) ?o"
    "\<forall>q \<in> set Q. jv_key_cmp (keys ! q) (keys ! n) > 0" "P = [] \<or> \<not> jv_key_cmp (keys ! last P) (keys ! n) > 0" by blast
  have lpq: "length P + length Q = n" using arg_cong [OF pq(1), of length] IH(2) Suc.prems by simp
  have below: "\<forall>i \<in> set (P @ Q). i < n" using IH(1) pq(1) by (metis set_sort set_upt atLeastLessThan_iff)
  have c: "\<forall>i \<in> set (n # P @ Q). c_string (keys ! i)" 
  proof -
    have "\<forall>i \<in> set (n # P @ Q). i < length keys" using below Suc.prems by fastforce
    with assms(1) show ?thesis by auto
  qed
  have "\<forall>q \<in> set Q. ?f n < ?f q" using pq(3) c jv_key_cmp_pos by auto
  moreover have "P = [] \<or> ?f (last P) \<le> ?f n" 
  proof (cases "P = []")
    case False
    then have "c_string (keys ! last P)" "c_string (keys ! n)" using c by simp_all
    with False pq(4) jv_key_cmp_pos show ?thesis by (metis linorder_not_less)
  qed simp
  ultimately have "sort_key ?f ([0..<n] @ [n]) = P @ n # Q"
    using sort_key_insert [of ?f "[0..<n]" P Q n] IH(1) pq(1) by simp
  moreover have "take (Suc n) ((P @ n # Q) @ drop (Suc n) ?o) = P @ n # Q"
    using lpq by (subst take_append) simp
  moreover have "length (P @ n # Q @ drop (Suc n) ?o) = length keys" using lpq IH(2) Suc.prems by simp
  ultimately show ?case using pq(2) unfolding upt_Suc_append [OF le0] fold_append by simp
qed

text \<open>
  Property C32. \<open>jv_dictsort\<close> computes the stable sort of the member indices by lower-cased key:
  whatever was in the array, it ends as the library's \<open>sort_key\<close> of the indices. For anything but
  an object it changes nothing.
\<close>

theorem jv_dictsort_sorts:
  assumes "\<forall>k \<in> set (map fst ms). c_string k" "length order = length ms"
  shows "jv_dictsort (Some (J_OBJ ms)) order = sort_key (\<lambda>i. map lower (map fst ms ! i)) [0..<length ms]
    \<and> (\<forall>v. (\<nexists>l. v = Some (J_OBJ l)) \<longrightarrow> jv_dictsort v order = order)"
proof -
  let ?o = "fold (\<lambda>i. shift_loop (map fst ms) i i) [0..<length ms] order"
  have "take (length ms) ?o = ?o" if "length ?o = length ms" using that by (metis order_refl take_all)
  with dictsort_prefix [OF assms(1), of order "length ms"] assms(2)
  have "jv_dictsort (Some (J_OBJ ms)) order = sort_key (\<lambda>i. map lower (map fst ms ! i)) [0..<length ms]"
    by (auto simp: jv_dictsort_def)
  then show ?thesis by (auto simp: jv_dictsort_def split: option.split jv.split)
qed

definition members0 :: "(bytes \<times> jv) list" where
  "members0 = [([0x62], J_NULL), ([0x41], J_NULL), ([0x61, 0x31], J_NULL), ([0x42], J_NULL)]"

theorem jv_dictsort_sorts_witness:
  "jv_dictsort (Some (J_OBJ members0)) [9, 9, 9, 9]
    = sort_key (\<lambda>i. map lower (map fst members0 ! i)) [0..<length members0]"
  using jv_dictsort_sorts [of members0 "[9, 9, 9, 9]"] by (simp add: members0_def c_string_def)

end
