(* ===== verification/Resp_Store.thy ===== *)
theory Resp_Store
  imports Prelude Complex_Main
begin

section \<open>The Responses store (respstore.c)\<close>

text \<open>
  The in-memory store behind \<^verbatim>\<open>previous_response_id\<close>: a linked list of entries, bounded by
  bytes and by age, least recently used entry out first. The list is a HOL list in the order of the
  links, \<^verbatim>\<open>size_t\<close> is a 64-bit word whose subtraction wraps as in C, and the clock
  (\<^verbatim>\<open>now_s\<close>) is an argument of the operations. Times are rational; the
  rounding of doubles is not modelled. The mutex makes each operation one step.
\<close>

record rs_entry =
  re_id :: bytes
  re_input :: bytes
  re_body :: bytes
  re_created :: rat
  re_used :: rat

record resp_store =
  rs_list :: "rs_entry list"
  rs_bytes :: u64
  rs_budget :: u64
  rs_ttl :: rat
  rs_configured :: bool

text \<open>\<^verbatim>\<open>sizeof(rs_entry)\<close>: a link, three pointers, two sizes and two doubles of eight bytes.\<close>

definition rs_entry_size :: nat where
  "rs_entry_size = 64"

definition rs_cost :: "rs_entry \<Rightarrow> u64" where
  "rs_cost e = of_nat (length (re_input e) + length (re_body e) + length (re_id e) + rs_entry_size)"

text \<open>Unlinking the i-th entry.\<close>

definition rs_drop :: "nat \<Rightarrow> resp_store \<Rightarrow> resp_store" where
  "rs_drop i s = s\<lparr>rs_list := take i (rs_list s) @ drop (Suc i) (rs_list s),
     rs_bytes := rs_bytes s - rs_cost (rs_list s ! i)\<rparr>"

text \<open>
  \<open>env\<close> stands for the two environment variables: the megabytes, which \<^verbatim>\<open>env_u64\<close> keeps in
  0 .. 2^20, and the seconds.
\<close>

definition rs_defaults :: "nat \<times> rat \<Rightarrow> resp_store \<Rightarrow> resp_store" where
  "rs_defaults env s =
    (if rs_configured s then s
     else s\<lparr>rs_configured := True, rs_budget := of_nat (fst env) * 1024 * 1024, rs_ttl := snd env\<rparr>)"

text \<open>The walk of \<open>rs_expire\<close>: \<open>kept\<close> are the entries already passed.\<close>

fun expire_walk :: "rat \<Rightarrow> rat \<Rightarrow> u64 \<Rightarrow> rs_entry list \<Rightarrow> rs_entry list \<times> u64" where
  "expire_walk now ttl b [] = ([], b)"
| "expire_walk now ttl b (e # es) =
    (if now - re_created e > ttl then expire_walk now ttl (b - rs_cost e) es
     else case expire_walk now ttl b es of (r, b') \<Rightarrow> (e # r, b'))"

definition rs_expire :: "rat \<Rightarrow> resp_store \<Rightarrow> resp_store" where
  "rs_expire now s =
    (if rs_ttl s \<le> 0 then s
     else case expire_walk now (rs_ttl s) (rs_bytes s) (rs_list s) of
       (es, b) \<Rightarrow> s\<lparr>rs_list := es, rs_bytes := b\<rparr>)"

fun index_of :: "bytes \<Rightarrow> rs_entry list \<Rightarrow> nat option" where
  "index_of k [] = None"
| "index_of k (e # es) = (if re_id e = k then Some 0 else map_option Suc (index_of k es))"

definition rs_find :: "bytes \<Rightarrow> resp_store \<Rightarrow> nat option" where
  "rs_find k s = index_of k (rs_list s)"

definition respstore_reset_from_env :: "nat \<times> rat \<Rightarrow> resp_store \<Rightarrow> resp_store" where
  "respstore_reset_from_env env s = rs_defaults env (s\<lparr>rs_list := [], rs_bytes := 0, rs_configured := False\<rparr>)"

text \<open>The first entry with the smallest time of use.\<close>

definition victim :: "rs_entry list \<Rightarrow> nat" where
  "victim es = fold (\<lambda>i v. if re_used (es ! i) < re_used (es ! v) then i else v) [0..<length es] 0"

lemma victim_less: "es \<noteq> [] \<Longrightarrow> victim es < length es"
proof -
  assume "es \<noteq> []"
  then have "0 < length es" by simp
  then have "fold (\<lambda>i v. if re_used (es ! i) < re_used (es ! v) then i else v) xs v < length es"
    if "v < length es" "set xs \<subseteq> {..<length es}" for xs v
    using that by (induction xs arbitrary: v) auto
  from this [of 0 "[0..<length es]"] \<open>0 < length es\<close> show ?thesis
    by (simp add: victim_def atLeast0LessThan)
qed

function rs_evict :: "u64 \<Rightarrow> resp_store \<Rightarrow> resp_store" where
  "rs_evict need s =
    (if rs_list s \<noteq> [] \<and> rs_bytes s + need > rs_budget s then rs_evict need (rs_drop (victim (rs_list s)) s)
     else s)"
  by pat_completeness auto
termination
  by (relation "measure (\<lambda>(_, s). length (rs_list s))") (auto simp: rs_drop_def dest: victim_less)

declare rs_evict.simps [simp del]

text \<open>
  \<open>respstore_put\<close>, with the outcome of its allocations as the argument \<open>alloc\<close>. The allocations
  come before the lock, so their failure leaves the store untouched.
\<close>

definition rs_drop_old :: "bytes \<Rightarrow> resp_store \<Rightarrow> resp_store" where
  "rs_drop_old k s = (case rs_find k s of None \<Rightarrow> s | Some i \<Rightarrow> rs_drop i s)"

definition respstore_put ::
  "nat \<times> rat \<Rightarrow> bool \<Rightarrow> rat \<Rightarrow> bytes \<Rightarrow> bytes \<Rightarrow> bytes \<Rightarrow> resp_store \<Rightarrow> bool \<times> resp_store" where
  "respstore_put env alloc now k inp body s =
    (if \<not> alloc then (False, s)
     else
       (let e = \<lparr>re_id = k, re_input = inp, re_body = body, re_created = now, re_used = now\<rparr>;
            need = rs_cost e;
            s1 = rs_expire now (rs_defaults env s)
        in if need > rs_budget s1 then (False, s1)
           else
             (let s2 = rs_evict need (rs_drop_old k s1);
                  ok = (rs_bytes s2 + need \<le> rs_budget s2)
              in (ok, if ok then s2\<lparr>rs_list := e # rs_list s2, rs_bytes := rs_bytes s2 + need\<rparr> else s2))))"

definition rs_copy :: "nat \<times> rat \<Rightarrow> bool \<Rightarrow> rat \<Rightarrow> bool \<Rightarrow> bytes \<Rightarrow> resp_store \<Rightarrow> bytes option \<times> resp_store" where
  "rs_copy env alloc now body k s =
    (let s1 = rs_expire now (rs_defaults env s) in
     case rs_find k s1 of None \<Rightarrow> (None, s1)
     | Some i \<Rightarrow>
       (let e = (rs_list s1 ! i)\<lparr>re_used := now\<rparr>
        in (if alloc then Some (if body then re_body e else re_input e) else None,
            s1\<lparr>rs_list := (rs_list s1)[i := e]\<rparr>)))"

definition respstore_body :: "nat \<times> rat \<Rightarrow> bool \<Rightarrow> rat \<Rightarrow> bytes \<Rightarrow> resp_store \<Rightarrow> bytes option \<times> resp_store" where
  "respstore_body env alloc now k s = rs_copy env alloc now True k s"

definition respstore_input :: "nat \<times> rat \<Rightarrow> bool \<Rightarrow> rat \<Rightarrow> bytes \<Rightarrow> resp_store \<Rightarrow> bytes option \<times> resp_store" where
  "respstore_input env alloc now k s = rs_copy env alloc now False k s"

definition respstore_delete :: "bytes \<Rightarrow> resp_store \<Rightarrow> bool \<times> resp_store" where
  "respstore_delete k s = (rs_find k s \<noteq> None, rs_drop_old k s)"

text \<open>The store before its first use.\<close>

definition rs_initial :: resp_store where
  "rs_initial = \<lparr>rs_list = [], rs_bytes = 0, rs_budget = 0, rs_ttl = 0, rs_configured = False\<rparr>"


subsection \<open>Accounting\<close>

definition cost :: "rs_entry \<Rightarrow> nat" where
  "cost e = length (re_input e) + length (re_body e) + length (re_id e) + rs_entry_size"

definition total :: "rs_entry list \<Rightarrow> nat" where
  "total es = sum_list (map cost es)"

definition ids :: "rs_entry list \<Rightarrow> bytes list" where
  "ids es = map re_id es"

lemma rs_cost_cost: "rs_cost e = of_nat (cost e)"
  by (simp add: rs_cost_def cost_def)

lemma total_Cons [simp]: "total (e # es) = cost e + total es"
  by (simp add: total_def)

lemma total_append [simp]: "total (xs @ ys) = total xs + total ys"
  by (simp add: total_def)

lemma total_Nil [simp]: "total [] = 0"
  by (simp add: total_def)

lemma total_drop_at:
  assumes "i < length es"
  shows "total es = cost (es ! i) + total (take i es @ drop (Suc i) es)"
proof -
  have "total es = total (take i es @ es ! i # drop (Suc i) es)" using id_take_nth_drop [OF assms] by simp
  then show ?thesis by simp
qed

text \<open>\<open>counted\<close>: the byte counter is the sum of the costs; an entry that goes is paid back exactly.\<close>

definition counted :: "resp_store \<Rightarrow> bool" where
  "counted s \<longleftrightarrow> rs_bytes s = of_nat (total (rs_list s))"

lemma of_nat_pay: "of_nat (a + b) - of_nat a = (of_nat b :: u64)"
  by simp

lemma counted_drop:
  assumes "counted s" and "i < length (rs_list s)"
  shows "counted (rs_drop i s)"
  using assms of_nat_pay [of "cost (rs_list s ! i)"] total_drop_at [OF assms(2)]
  by (simp add: counted_def rs_drop_def rs_cost_cost)

lemma expire_walk_spec:
  "expire_walk now ttl (of_nat (total es)) es =
    (filter (\<lambda>e. \<not> now - re_created e > ttl) es, of_nat (total (filter (\<lambda>e. \<not> now - re_created e > ttl) es)))"
proof -
  have "expire_walk now ttl (of_nat (x + total es)) es =
    (filter (\<lambda>e. \<not> now - re_created e > ttl) es, of_nat (x + total (filter (\<lambda>e. \<not> now - re_created e > ttl) es)))" for x
  proof (induction es arbitrary: x)
    case (Cons e es)
    have "of_nat (x + total (e # es)) - rs_cost e = (of_nat (x + total es) :: u64)"
      by (simp add: rs_cost_cost)
    moreover have "x + total (e # es) = (x + cost e) + total es" by simp
    ultimately show ?case using Cons.IH [of x] Cons.IH [of "x + cost e"] by (simp add: add.assoc)
  qed simp
  from this [of 0] show ?thesis by simp
qed

text \<open>What expiry keeps.\<close>

definition fresh :: "rat \<Rightarrow> rat \<Rightarrow> rs_entry \<Rightarrow> bool" where
  "fresh now ttl e \<longleftrightarrow> ttl \<le> 0 \<or> now - re_created e \<le> ttl"

lemma rs_expire_eq:
  assumes "counted s"
  shows "rs_expire now s = s\<lparr>rs_list := filter (fresh now (rs_ttl s)) (rs_list s),
    rs_bytes := of_nat (total (filter (fresh now (rs_ttl s)) (rs_list s)))\<rparr>"
proof (cases "rs_ttl s \<le> 0")
  case True
  then have "fresh now (rs_ttl s) = (\<lambda>_. True)" by (auto simp: fresh_def)
  with True assms show ?thesis by (simp add: rs_expire_def counted_def)
next
  case False
  then have "fresh now (rs_ttl s) = (\<lambda>e. \<not> now - re_created e > rs_ttl s)" by (auto simp: fresh_def)
  with False assms show ?thesis using expire_walk_spec [of now "rs_ttl s" "rs_list s"]
    by (simp add: rs_expire_def counted_def)
qed

lemma total_filter_le: "total (filter P es) \<le> total es"
  by (induction es) auto

lemma distinct_ids_filter: "distinct (ids es) \<Longrightarrow> distinct (ids (filter P es))"
  by (simp add: ids_def distinct_map_filter)

lemma index_of_Some:
  "index_of k es = Some i \<Longrightarrow> i < length es \<and> re_id (es ! i) = k"
  by (induction es arbitrary: i) (auto split: if_splits)

lemma index_of_None: "index_of k es = None \<longleftrightarrow> k \<notin> set (ids es)"
  by (induction es) (auto simp: ids_def)

text \<open>
  The invariant: held the budget, the budget far below the width of \<^verbatim>\<open>size_t\<close>, one entry
  for each id. An unconfigured store is empty.
\<close>

definition rs_ok :: "resp_store \<Rightarrow> bool" where
  "rs_ok s \<longleftrightarrow> counted s \<and> distinct (ids (rs_list s)) \<and> unat (rs_budget s) \<le> 2 ^ 40
     \<and> total (rs_list s) \<le> unat (rs_budget s) \<and> (\<not> rs_configured s \<longrightarrow> rs_list s = [])"

definition env_ok :: "nat \<times> rat \<Rightarrow> bool" where
  "env_ok env \<longleftrightarrow> fst env \<le> 2 ^ 20"

lemma budget_env: "env_ok env \<Longrightarrow> unat (of_nat (fst env) * 1024 * 1024 :: u64) = fst env * 2 ^ 20"
proof -
  assume "env_ok env"
  then have "fst env * 2 ^ 20 < 2 ^ 64" by (simp add: env_ok_def)
  moreover have "(of_nat (fst env) * 1024 * 1024 :: u64) = of_nat (fst env * 2 ^ 20)" by simp
  ultimately show ?thesis using unat_of_nat64 by metis
qed


subsection \<open>Eviction\<close>

lemma ids_drop_at:
  assumes "i < length es" and "distinct (ids es)"
  shows "distinct (ids (take i es @ drop (Suc i) es))" "set (take i es @ drop (Suc i) es) = set es - {es ! i}"
proof -
  have e: "es = take i es @ es ! i # drop (Suc i) es" using id_take_nth_drop [OF assms(1)] .
  then have d: "distinct (ids (take i es @ es ! i # drop (Suc i) es))" using assms(2) by metis
  then show "distinct (ids (take i es @ drop (Suc i) es))" by (simp add: ids_def)
  have "es ! i \<notin> set (take i es @ drop (Suc i) es)" using d by (auto simp: ids_def)
  moreover have "set es = insert (es ! i) (set (take i es @ drop (Suc i) es))"
    by (subst e) (simp only: set_append list.set, blast)
  ultimately show "set (take i es @ drop (Suc i) es) = set es - {es ! i}" by blast
qed

lemma victim_min:
  assumes "es \<noteq> []" and "f \<in> set es"
  shows "re_used (es ! victim es) \<le> re_used f"
proof -
  let ?step = "\<lambda>i v. if re_used (es ! i) < re_used (es ! v) then i else v"
  have "re_used (es ! fold ?step xs v) \<le> re_used (es ! v) \<and> (\<forall>i \<in> set xs. re_used (es ! fold ?step xs v) \<le> re_used (es ! i))" for xs v
  proof (induction xs arbitrary: v)
    case (Cons x xs)
    from Cons [of "?step x v"] show ?case by (auto split: if_splits intro: order_trans)
  qed simp
  then have "\<forall>i < length es. re_used (es ! victim es) \<le> re_used (es ! i)"
    unfolding victim_def by simp
  with assms(2) show ?thesis by (auto simp: in_set_conv_nth)
qed

text \<open>What a store keeps when entries leave it.\<close>

definition shrinks :: "resp_store \<Rightarrow> resp_store \<Rightarrow> bool" where
  "shrinks s s' \<longleftrightarrow> counted s' \<and> distinct (ids (rs_list s')) \<and> set (rs_list s') \<subseteq> set (rs_list s)
     \<and> total (rs_list s') \<le> total (rs_list s) \<and> rs_budget s' = rs_budget s \<and> rs_ttl s' = rs_ttl s
     \<and> rs_configured s' = rs_configured s"

lemma shrinks_trans: "shrinks a b \<Longrightarrow> shrinks b c \<Longrightarrow> shrinks a c"
  by (auto simp: shrinks_def)

lemma shrinks_refl: "counted s \<Longrightarrow> distinct (ids (rs_list s)) \<Longrightarrow> shrinks s s"
  by (simp add: shrinks_def)

lemma shrinks_drop:
  assumes "counted s" "distinct (ids (rs_list s))" "i < length (rs_list s)"
  shows "shrinks s (rs_drop i s)" "set (rs_list (rs_drop i s)) = set (rs_list s) - {rs_list s ! i}"
  using assms counted_drop [OF assms(1,3)] ids_drop_at [OF assms(3,2)] total_drop_at [OF assms(3)]
  by (auto simp: shrinks_def rs_drop_def simp del: set_append)

text \<open>
  The loop stops with room for the new entry, and what it drops was used no later than anything it
  keeps.
\<close>

lemma evict_fits:
  assumes "counted s" "total (rs_list s) \<le> unat (rs_budget s)" "c \<le> unat (rs_budget s)" "unat (rs_budget s) \<le> 2 ^ 40"
  shows "rs_bytes s + of_nat c > rs_budget s \<longleftrightarrow> total (rs_list s) + c > unat (rs_budget s)"
proof -
  have "total (rs_list s) + c < 2 ^ 64" using assms by simp
  then have "unat (rs_bytes s + of_nat c) = total (rs_list s) + c"
    using unat_of_nat64 [of "total (rs_list s) + c"] assms(1) by (simp add: counted_def)
  then show ?thesis by (simp add: word_less_nat_alt)
qed

lemma evict_spec:
  assumes "counted s" "distinct (ids (rs_list s))" "total (rs_list s) \<le> unat (rs_budget s)"
    "c \<le> unat (rs_budget s)" "unat (rs_budget s) \<le> 2 ^ 40"
  shows "shrinks s (rs_evict (of_nat c) s) \<and> total (rs_list (rs_evict (of_nat c) s)) + c \<le> unat (rs_budget s)
    \<and> (\<forall>e \<in> set (rs_list s) - set (rs_list (rs_evict (of_nat c) s)). \<forall>f \<in> set (rs_list (rs_evict (of_nat c) s)).
          re_used e \<le> re_used f)"
  using assms
proof (induction "length (rs_list s)" arbitrary: s rule: less_induct)
  case less
  show ?case
  proof (cases "rs_list s \<noteq> [] \<and> rs_bytes s + of_nat c > rs_budget s")
    case False
    then have "total (rs_list s) + c \<le> unat (rs_budget s)"
      using evict_fits [OF less.prems(1,3,4,5)] less.prems(4) by (cases "rs_list s = []") auto
    moreover have "rs_evict (of_nat c) s = s" using False by (auto simp: rs_evict.simps [of _ s])
    ultimately show ?thesis using less.prems by (simp add: shrinks_refl)
  next
    case True
    let ?v = "victim (rs_list s)"
    let ?s = "rs_drop ?v s"
    have v: "?v < length (rs_list s)" using True victim_less by blast
    have sh: "shrinks s ?s" and st: "set (rs_list ?s) = set (rs_list s) - {rs_list s ! ?v}"
      using shrinks_drop [OF less.prems(1,2) v] by auto
    have l: "length (rs_list ?s) < length (rs_list s)" using v by (simp add: rs_drop_def)
    have IH: "shrinks ?s (rs_evict (of_nat c) ?s) \<and> total (rs_list (rs_evict (of_nat c) ?s)) + c \<le> unat (rs_budget ?s)
      \<and> (\<forall>e \<in> set (rs_list ?s) - set (rs_list (rs_evict (of_nat c) ?s)). \<forall>f \<in> set (rs_list (rs_evict (of_nat c) ?s)).
          re_used e \<le> re_used f)"
      by (rule less.hyps [OF l]) (use sh less.prems in \<open>auto simp: shrinks_def\<close>)
    have ev: "rs_evict (of_nat c) s = rs_evict (of_nat c) ?s" using True by (simp add: rs_evict.simps [of _ s])
    have kept: "set (rs_list (rs_evict (of_nat c) ?s)) \<subseteq> set (rs_list s)" using IH sh by (auto simp: shrinks_def)
    have "re_used e \<le> re_used f"
      if "e \<in> set (rs_list s) - set (rs_list (rs_evict (of_nat c) ?s))" "f \<in> set (rs_list (rs_evict (of_nat c) ?s))" for e f
    proof (cases "e = rs_list s ! ?v")
      case True
      then show ?thesis using victim_min that kept \<open>rs_list s \<noteq> [] \<and> _\<close> by blast
    next
      case False
      with st that IH show ?thesis by blast
    qed
    moreover have "rs_budget ?s = rs_budget s" by (simp add: rs_drop_def)
    ultimately show ?thesis using IH shrinks_trans [OF sh] unfolding ev by simp
  qed
qed


subsection \<open>The operations keep the invariant\<close>

lemma rs_ok_shrinks: "rs_ok s \<Longrightarrow> shrinks s s' \<Longrightarrow> rs_ok s'"
  by (auto simp: rs_ok_def shrinks_def)

lemma rs_ok_defaults:
  assumes "rs_ok s" "env_ok env"
  shows "rs_ok (rs_defaults env s)"
proof (cases "rs_configured s")
  case False
  moreover have "fst env * 2 ^ 20 \<le> 2 ^ 40" using assms(2) by (simp add: env_ok_def)
  ultimately show ?thesis using assms budget_env [OF assms(2)]
    by (auto simp: rs_ok_def rs_defaults_def counted_def)
qed (use assms in \<open>simp add: rs_defaults_def\<close>)

lemma defaults_list [simp]: "rs_list (rs_defaults env s) = rs_list s"
  by (simp add: rs_defaults_def)

lemma defaults_configured [simp]: "rs_configured (rs_defaults env s)"
  by (simp add: rs_defaults_def)

lemma shrinks_expire:
  assumes "rs_ok s"
  shows "shrinks s (rs_expire now s)" "rs_list (rs_expire now s) = filter (fresh now (rs_ttl s)) (rs_list s)"
  using assms rs_expire_eq [of s now] distinct_ids_filter [of "rs_list s"] total_filter_le [of _ "rs_list s"]
  by (auto simp: rs_ok_def shrinks_def counted_def)

lemma shrinks_drop_old:
  assumes "rs_ok s"
  shows "shrinks s (rs_drop_old k s)" "set (rs_list (rs_drop_old k s)) = {e \<in> set (rs_list s). re_id e \<noteq> k}"
proof -
  have c: "counted s" and d: "distinct (ids (rs_list s))" using assms by (simp_all add: rs_ok_def)
  have "shrinks s (rs_drop_old k s) \<and> set (rs_list (rs_drop_old k s)) = {e \<in> set (rs_list s). re_id e \<noteq> k}"
  proof (cases "rs_find k s")
    case None
    then have "k \<notin> set (ids (rs_list s))" by (simp add: rs_find_def index_of_None)
    with None c d show ?thesis by (auto simp: rs_drop_old_def shrinks_refl ids_def)
  next
    case (Some i)
    then have i: "i < length (rs_list s)" "re_id (rs_list s ! i) = k"
      using index_of_Some by (auto simp: rs_find_def)
    have "e = rs_list s ! i" if "e \<in> set (rs_list s)" "re_id e = k" for e
      using d i that by (auto simp: ids_def distinct_map inj_on_def)
    with Some i shrinks_drop [OF c d i(1)] show ?thesis by (auto simp: rs_drop_old_def)
  qed
  then show "shrinks s (rs_drop_old k s)" "set (rs_list (rs_drop_old k s)) = {e \<in> set (rs_list s). re_id e \<noteq> k}"
    by auto
qed

definition new_entry :: "rat \<Rightarrow> bytes \<Rightarrow> bytes \<Rightarrow> bytes \<Rightarrow> rs_entry" where
  "new_entry now k inp body = \<lparr>re_id = k, re_input = inp, re_body = body, re_created = now, re_used = now\<rparr>"

text \<open>Sizes that fit in memory, as lengths of C buffers do.\<close>

definition fits_memory :: "bytes \<Rightarrow> bytes \<Rightarrow> bytes \<Rightarrow> bool" where
  "fits_memory k inp body \<longleftrightarrow> length inp + length body + length k + rs_entry_size < 2 ^ 64"

text \<open>The state an accepted \<open>respstore_put\<close> makes room in, and its result.\<close>

definition room_for :: "nat \<times> rat \<Rightarrow> rat \<Rightarrow> rs_entry \<Rightarrow> resp_store \<Rightarrow> resp_store" where
  "room_for env now e s = rs_evict (rs_cost e) (rs_drop_old (re_id e) (rs_expire now (rs_defaults env s)))"

definition too_big :: "nat \<times> rat \<Rightarrow> rs_entry \<Rightarrow> resp_store \<Rightarrow> bool" where
  "too_big env e s \<longleftrightarrow> cost e > unat (rs_budget (rs_defaults env s))"

lemma unat_cost: "cost e < 2 ^ 64 \<Longrightarrow> unat (rs_cost e) = cost e"
  using unat_of_nat64 by (simp add: rs_cost_cost)

lemma expired_ok:
  assumes "rs_ok s" "env_ok env"
  shows "rs_ok (rs_expire now (rs_defaults env s))"
    "rs_budget (rs_expire now (rs_defaults env s)) = rs_budget (rs_defaults env s)"
  using rs_ok_defaults [OF assms] rs_ok_shrinks shrinks_expire(1) by (blast, simp add: shrinks_def)

lemma room_for_spec:
  assumes "rs_ok s" "env_ok env" "cost e < 2 ^ 64" "\<not> too_big env e s"
  shows "shrinks (rs_drop_old (re_id e) (rs_expire now (rs_defaults env s))) (room_for env now e s)"
    "total (rs_list (room_for env now e s)) + cost e \<le> unat (rs_budget (room_for env now e s))"
    "rs_bytes (room_for env now e s) + rs_cost e \<le> rs_budget (room_for env now e s)"
    "\<forall>x \<in> set (rs_list (rs_drop_old (re_id e) (rs_expire now (rs_defaults env s)))) - set (rs_list (room_for env now e s)).
       \<forall>f \<in> set (rs_list (room_for env now e s)). re_used x \<le> re_used f"
    "rs_ok (room_for env now e s)"
proof -
  let ?s1 = "rs_expire now (rs_defaults env s)"
  let ?s2 = "rs_drop_old (re_id e) ?s1"
  note ok1 = expired_ok [OF assms(1,2), of now]
  have ok2: "rs_ok ?s2" using ok1(1) rs_ok_shrinks shrinks_drop_old(1) by blast
  have b: "rs_budget ?s2 = rs_budget (rs_defaults env s)"
    using shrinks_drop_old(1) [OF ok1(1), of "re_id e"] ok1(2) by (simp add: shrinks_def)
  have c: "cost e \<le> unat (rs_budget ?s2)" using assms(4) b by (simp add: too_big_def)
  have ev: "shrinks ?s2 (room_for env now e s)"
    "total (rs_list (room_for env now e s)) + cost e \<le> unat (rs_budget ?s2)"
    "\<forall>x \<in> set (rs_list ?s2) - set (rs_list (room_for env now e s)).
       \<forall>f \<in> set (rs_list (room_for env now e s)). re_used x \<le> re_used f"
    using evict_spec [of ?s2 "cost e"] ok2 c unfolding room_for_def rs_cost_cost rs_ok_def by auto
  then show "shrinks ?s2 (room_for env now e s)"
    "\<forall>x \<in> set (rs_list ?s2) - set (rs_list (room_for env now e s)).
       \<forall>f \<in> set (rs_list (room_for env now e s)). re_used x \<le> re_used f" by blast+
  have b2: "rs_budget (room_for env now e s) = rs_budget ?s2" using ev(1) by (simp add: shrinks_def)
  then show "total (rs_list (room_for env now e s)) + cost e \<le> unat (rs_budget (room_for env now e s))"
    using ev(2) by simp
  show ok3: "rs_ok (room_for env now e s)" using rs_ok_shrinks [OF ok2 ev(1)] .
  show "rs_bytes (room_for env now e s) + rs_cost e \<le> rs_budget (room_for env now e s)"
    using evict_fits [of "room_for env now e s" "cost e"] ok3 ev(2) c b2
    unfolding rs_ok_def rs_cost_cost by (auto simp: not_less)
qed

lemma put_eq:
  assumes "rs_ok s" "env_ok env" "fits_memory k inp body"
  shows "respstore_put env alloc now k inp body s =
    (let e = new_entry now k inp body; r = room_for env now e s
     in if \<not> alloc then (False, s)
        else if too_big env e s then (False, rs_expire now (rs_defaults env s))
        else (True, r\<lparr>rs_list := e # rs_list r, rs_bytes := rs_bytes r + rs_cost e\<rparr>))"
proof -
  let ?e = "new_entry now k inp body"
  have c: "cost ?e < 2 ^ 64" using assms(3) by (simp add: fits_memory_def cost_def new_entry_def)
  have e: "\<lparr>re_id = k, re_input = inp, re_body = body, re_created = now, re_used = now\<rparr> = ?e" "re_id ?e = k"
    by (simp_all add: new_entry_def)
  have big: "rs_cost ?e > rs_budget (rs_expire now (rs_defaults env s)) \<longleftrightarrow> too_big env ?e s"
    using expired_ok(2) [OF assms(1,2)] unat_cost [OF c] by (simp add: too_big_def word_less_nat_alt)
  show ?thesis
    using room_for_spec(3) [OF assms(1,2) c, of now] e big
    by (simp add: respstore_put_def Let_def room_for_def)
qed

lemma rs_ok_put:
  assumes "rs_ok s" "env_ok env" "fits_memory k inp body"
  shows "rs_ok (snd (respstore_put env alloc now k inp body s))"
proof -
  let ?e = "new_entry now k inp body"
  let ?r = "room_for env now ?e s"
  have c: "cost ?e < 2 ^ 64" using assms(3) by (simp add: fits_memory_def cost_def new_entry_def)
  have "rs_ok (?r\<lparr>rs_list := ?e # rs_list ?r, rs_bytes := rs_bytes ?r + rs_cost ?e\<rparr>)" if "\<not> too_big env ?e s"
  proof -
    note r = room_for_spec [OF assms(1,2) c that, of now]
    have "set (rs_list ?r) \<subseteq> set (rs_list (rs_drop_old (re_id ?e) (rs_expire now (rs_defaults env s))))"
      using r(1) by (simp add: shrinks_def)
    then have "re_id ?e \<notin> set (ids (rs_list ?r))"
      using shrinks_drop_old(2) [OF expired_ok(1) [OF assms(1,2)]] by (auto simp: ids_def)
    moreover have "rs_configured ?r"
      using r(1) shrinks_drop_old(1) [OF expired_ok(1) [OF assms(1,2)]] shrinks_expire(1) [OF rs_ok_defaults [OF assms(1,2)]]
      by (simp add: shrinks_def)
    ultimately show ?thesis using r(2,5)
      by (simp add: rs_ok_def counted_def ids_def rs_cost_cost add.commute)
  qed
  then show ?thesis using assms(1) expired_ok(1) [OF assms(1,2)]
    by (simp add: put_eq [OF assms] Let_def)
qed

lemma ids_touch: "i < length es \<Longrightarrow> ids (es[i := (es ! i)\<lparr>re_used := u\<rparr>]) = ids es"
  by (simp add: ids_def map_update list_update_same_conv)

lemma total_touch: "i < length es \<Longrightarrow> total (es[i := (es ! i)\<lparr>re_used := u\<rparr>]) = total es"
proof -
  assume "i < length es"
  then have "map cost (es[i := (es ! i)\<lparr>re_used := u\<rparr>]) = map cost es"
    by (simp add: map_update list_update_same_conv cost_def)
  then show ?thesis by (simp add: total_def)
qed

lemma rs_ok_copy:
  assumes "rs_ok s" "env_ok env"
  shows "rs_ok (snd (rs_copy env alloc now b k s))"
proof (cases "rs_find k (rs_expire now (rs_defaults env s))")
  case (Some i)
  then have "i < length (rs_list (rs_expire now (rs_defaults env s)))"
    using index_of_Some by (simp add: rs_find_def)
  with Some expired_ok(1) [OF assms, of now] show ?thesis
    by (auto simp: rs_copy_def Let_def rs_ok_def counted_def ids_touch total_touch)
qed (use expired_ok(1) [OF assms] in \<open>simp add: rs_copy_def Let_def\<close>)

lemma rs_ok_delete: "rs_ok s \<Longrightarrow> rs_ok (snd (respstore_delete k s))"
  using rs_ok_shrinks shrinks_drop_old(1) by (auto simp: respstore_delete_def)

lemma rs_ok_initial: "rs_ok rs_initial"
  by (simp add: rs_ok_def rs_initial_def counted_def ids_def)

lemma rs_ok_reset:
  assumes "rs_ok s" "env_ok env"
  shows "rs_ok (respstore_reset_from_env env s)"
proof -
  have "rs_ok (s\<lparr>rs_list := [], rs_bytes := 0, rs_configured := False\<rparr>)"
    using assms(1) by (simp add: rs_ok_def counted_def ids_def)
  from rs_ok_defaults [OF this assms(2)] show ?thesis by (simp add: respstore_reset_from_env_def)
qed

subsection \<open>What the API layer relies on\<close>

text \<open>
  A lossy store: what it holds for a key is what was put there last, or nothing. \<open>look\<close> is what a
  read at a given time would find.
\<close>

locale lossy_store =
  fixes ok :: "'s \<Rightarrow> bool"
    and look :: "'t::linorder \<Rightarrow> 's \<Rightarrow> 'k \<Rightarrow> 'v option"
    and put :: "'t \<Rightarrow> 'k \<Rightarrow> 'v \<Rightarrow> 's \<Rightarrow> bool \<times> 's"
    and view :: "'v \<Rightarrow> 'r"
    and get :: "'t \<Rightarrow> 'k \<Rightarrow> 's \<Rightarrow> 'r option \<times> 's"
    and delete :: "'k \<Rightarrow> 's \<Rightarrow> 's"
    and storable :: "'k \<Rightarrow> 'v \<Rightarrow> bool"
  assumes put_ok: "ok s \<Longrightarrow> storable k v \<Longrightarrow> ok (snd (put t k v s))"
    and put_same: "ok s \<Longrightarrow> storable k v \<Longrightarrow> fst (put t k v s) \<Longrightarrow> look t (snd (put t k v s)) k = Some v"
    and put_other: "ok s \<Longrightarrow> storable k v \<Longrightarrow> t0 \<le> t \<Longrightarrow> k' \<noteq> k \<or> \<not> fst (put t k v s) \<Longrightarrow>
      look t (snd (put t k v s)) k' = Some w \<Longrightarrow> look t0 s k' = Some w"
    and get_ok: "ok s \<Longrightarrow> ok (snd (get t k s))"
    and get_look: "ok s \<Longrightarrow> fst (get t k s) = map_option view (look t s k)"
    and get_keeps: "ok s \<Longrightarrow> t0 \<le> t \<Longrightarrow> look t (snd (get t k s)) k' = Some w \<Longrightarrow> look t0 s k' = Some w"
    and later: "ok s \<Longrightarrow> t0 \<le> t \<Longrightarrow> look t s k = Some w \<Longrightarrow> look t0 s k = Some w"
    and delete_ok: "ok s \<Longrightarrow> ok (delete k s)"
    and delete_same: "ok s \<Longrightarrow> look t (delete k s) k = None"
    and delete_other: "ok s \<Longrightarrow> look t (delete k s) k' = Some w \<Longrightarrow> look t s k' = Some w"
begin

definition held :: "'t \<Rightarrow> 's \<Rightarrow> ('k \<Rightarrow> 'v option) \<Rightarrow> bool" where
  "held t s M \<longleftrightarrow> ok s \<and> (\<forall>k w. look t s k = Some w \<longrightarrow> M k = Some w)"

lemma held_put:
  assumes "held t0 s M" "t0 \<le> t" "storable k v" "put t k v s = (b, s')"
  shows "held t s' (if b then M(k \<mapsto> v) else M)"
proof -
  have s': "s' = snd (put t k v s)" "b = fst (put t k v s)" using assms(4) by simp_all
  have ok: "ok s" using assms(1) by (simp add: held_def)
  have "(if b then M(k \<mapsto> v) else M) k' = Some w" if "look t s' k' = Some w" for k' w
  proof (cases "k' = k \<and> b")
    case True
    with that put_same [OF ok assms(3), of t] s' show ?thesis by simp
  next
    case False
    then have "look t0 s k' = Some w" using put_other [OF ok assms(3,2), of k' w] that s' by auto
    then show ?thesis using False assms(1) by (auto simp: held_def)
  qed
  with put_ok [OF ok assms(3), of t] s' show ?thesis by (simp add: held_def)
qed

lemma held_get:
  assumes "held t0 s M" "t0 \<le> t" "get t k s = (r, s')"
  shows "held t s' M \<and> (r = None \<or> r = map_option view (M k))"
proof -
  have ok: "ok s" using assms(1) by (simp add: held_def)
  have s': "s' = snd (get t k s)" "r = fst (get t k s)" using assms(3) by simp_all
  have w: "M k' = Some w" if "look t s' k' = Some w" for k' w
    using get_keeps [OF ok assms(2), of k k' w] that s' assms(1) by (auto simp: held_def)
  have "M k = Some w" if "look t s k = Some w" for w
  proof -
    have "look t0 s k = Some w" using that later [OF ok assms(2)] by blast
    then show ?thesis using assms(1) by (simp add: held_def)
  qed
  with w get_ok [OF ok, of t k] get_look [OF ok, of t k] s' show ?thesis
    by (cases "look t s k") (auto simp: held_def)
qed

lemma held_delete:
  assumes "held t s M"
  shows "held t (delete k s) (M(k := None))"
proof -
  have "(M(k := None)) k' = Some w" if "look t (delete k s) k' = Some w" for k' w
    using that assms delete_same [of s t k] delete_other [of s t k k' w]
    by (cases "k' = k") (auto simp: held_def)
  then show ?thesis using assms delete_ok by (simp add: held_def)
qed

end

definition rs_look :: "rat \<Rightarrow> resp_store \<Rightarrow> bytes \<Rightarrow> (bytes \<times> bytes) option" where
  "rs_look now s k = map_option (\<lambda>e. (re_input e, re_body e))
     (find (\<lambda>e. re_id e = k \<and> fresh now (rs_ttl s) e) (rs_list s))"

lemma unique_id: "distinct (ids es) \<Longrightarrow> e \<in> set es \<Longrightarrow> f \<in> set es \<Longrightarrow> re_id e = re_id f \<Longrightarrow> e = f"
  by (auto simp: ids_def distinct_map inj_on_def)

lemma rs_look_iff:
  assumes "distinct (ids (rs_list s))"
  shows "rs_look now s k = Some (i, b) \<longleftrightarrow>
    (\<exists>e \<in> set (rs_list s). re_id e = k \<and> fresh now (rs_ttl s) e \<and> re_input e = i \<and> re_body e = b)"
proof (cases "find (\<lambda>e. re_id e = k \<and> fresh now (rs_ttl s) e) (rs_list s)")
  case None
  then have "rs_look now s k = None" by (simp add: rs_look_def)
  moreover have "\<not> (\<exists>e \<in> set (rs_list s). re_id e = k \<and> fresh now (rs_ttl s) e)"
    using None by (auto simp: find_None_iff)
  ultimately show ?thesis by auto
next
  case (Some e)
  then have e: "e \<in> set (rs_list s)" "re_id e = k" "fresh now (rs_ttl s) e"
    by (auto simp: find_Some_iff)
  have "f = e" if "f \<in> set (rs_list s)" "re_id f = k" for f
    using unique_id [OF assms that(1) e(1)] that(2) e(2) by simp
  moreover have l: "rs_look now s k = Some (re_input e, re_body e)" using Some by (simp add: rs_look_def)
  ultimately show ?thesis unfolding l option.inject prod.inject using e by blast
qed

lemma fresh_later: "fresh t' ttl e \<Longrightarrow> t \<le> t' \<Longrightarrow> fresh t ttl e"
  by (auto simp: fresh_def)

lemma expired_set:
  assumes "rs_ok s" "env_ok env"
  shows "set (rs_list (rs_expire now (rs_defaults env s))) = {e \<in> set (rs_list s). fresh now (rs_ttl s) e}"
    "rs_list s \<noteq> [] \<Longrightarrow> rs_ttl (rs_expire now (rs_defaults env s)) = rs_ttl s"
proof -
  have "rs_list s \<noteq> [] \<Longrightarrow> rs_defaults env s = s" using assms(1) by (auto simp: rs_ok_def rs_defaults_def)
  then show "set (rs_list (rs_expire now (rs_defaults env s))) = {e \<in> set (rs_list s). fresh now (rs_ttl s) e}"
    "rs_list s \<noteq> [] \<Longrightarrow> rs_ttl (rs_expire now (rs_defaults env s)) = rs_ttl s"
    using shrinks_expire [OF rs_ok_defaults [OF assms], of now] by (cases "rs_list s = []", auto simp: shrinks_def)
qed

lemma look_put:
  fixes now :: rat and alloc :: bool
  assumes "rs_ok s" "env_ok env" "fits_memory k i b"
  defines "p \<equiv> respstore_put env alloc now k i b s"
  shows "fst p \<Longrightarrow> rs_look now (snd p) k = Some (i, b)"
    and "t0 \<le> now \<Longrightarrow> k' \<noteq> k \<or> \<not> fst p \<Longrightarrow> rs_look now (snd p) k' = Some w \<Longrightarrow> rs_look t0 s k' = Some w"
proof -
  let ?e = "new_entry now k i b"
  let ?r = "room_for env now ?e s"
  let ?s1 = "rs_expire now (rs_defaults env s)"
  have c: "cost ?e < 2 ^ 64" using assms(3) by (simp add: fits_memory_def cost_def new_entry_def)
  have p: "p = (if \<not> alloc then (False, s) else if too_big env ?e s then (False, ?s1)
      else (True, ?r\<lparr>rs_list := ?e # rs_list ?r, rs_bytes := rs_bytes ?r + rs_cost ?e\<rparr>))"
    unfolding p_def put_eq [OF assms(1-3)] by (simp add: Let_def)
  have okp: "rs_ok (snd p)" unfolding p_def by (rule rs_ok_put [OF assms(1-3)])
  then have d: "distinct (ids (rs_list (snd p)))" "distinct (ids (rs_list s))"
    using assms(1) by (simp_all add: rs_ok_def)
  note sets = expired_set [OF assms(1,2), of now] and ok1 = expired_ok [OF assms(1,2), of now]
  have old: "set (rs_list ?r) \<subseteq> {e \<in> set (rs_list s). fresh now (rs_ttl s) e}"
    "rs_list s \<noteq> [] \<Longrightarrow> rs_ttl ?r = rs_ttl s" if "\<not> too_big env ?e s"
    using room_for_spec(1) [OF assms(1,2) c that, of now] shrinks_drop_old [OF ok1(1), of "re_id ?e"] sets
    by (auto simp: shrinks_def)
  have e: "re_id ?e = k" "re_input ?e = i" "re_body ?e = b" by (simp_all add: new_entry_def)
  { assume "fst p"
    then have q: "\<not> too_big env ?e s" "snd p = ?r\<lparr>rs_list := ?e # rs_list ?r, rs_bytes := rs_bytes ?r + rs_cost ?e\<rparr>"
      using p by (auto split: if_splits)
    have "fresh now (rs_ttl (snd p)) ?e"
      by (cases "rs_ttl (snd p) \<le> 0") (simp_all add: fresh_def new_entry_def)
    moreover have "?e \<in> set (rs_list (snd p))" using q by simp
    ultimately show "rs_look now (snd p) k = Some (i, b)"
      using e unfolding rs_look_iff [OF d(1)] by blast }
  { assume t: "t0 \<le> now" and k: "k' \<noteq> k \<or> \<not> fst p" and l: "rs_look now (snd p) k' = Some w"
    obtain wi wb where w: "w = (wi, wb)" by (cases w)
    from l obtain f where f: "f \<in> set (rs_list (snd p))" "re_id f = k'" "fresh now (rs_ttl (snd p)) f" "re_input f = wi" "re_body f = wb"
      unfolding w rs_look_iff [OF d(1)] by blast
    have ne: "f \<noteq> ?e \<or> \<not> fst p" using k f(2) by (auto simp: new_entry_def)
    have "f \<in> set (rs_list s) \<and> fresh now (rs_ttl s) f"
    proof (cases "fst p")
      case True
      then have q: "\<not> too_big env ?e s" "snd p = ?r\<lparr>rs_list := ?e # rs_list ?r, rs_bytes := rs_bytes ?r + rs_cost ?e\<rparr>"
        using p by (auto split: if_splits)
      with f(1) ne True have "f \<in> set (rs_list ?r)" by auto
      with old(1) [OF q(1)] show ?thesis by auto
    next
      case False
      then consider "snd p = s" | "snd p = ?s1" using p by (auto split: if_splits)
      then show ?thesis
      proof cases
        case 1
        show ?thesis using f(1,3) unfolding 1 by blast
      next
        case 2
        show ?thesis using f(1) unfolding 2 sets(1) by blast
      qed
    qed
    then have fs: "f \<in> set (rs_list s)" "fresh t0 (rs_ttl s) f"
      using fresh_later [of now "rs_ttl s" f t0] t by simp_all
    show "rs_look t0 s k' = Some w"
      unfolding w rs_look_iff [OF d(2)] by (rule bexI [OF _ fs(1)]) (simp add: fs(2) f(2,4,5)) }
qed

lemma look_copy:
  assumes "rs_ok s" "env_ok env"
  shows "fst (rs_copy env True now b k s) = map_option (if b then snd else fst) (rs_look now s k)"
    and "t0 \<le> now \<Longrightarrow> rs_look now (snd (rs_copy env True now b k s)) k' = Some w \<Longrightarrow> rs_look t0 s k' = Some w"
proof -
  let ?s1 = "rs_expire now (rs_defaults env s)"
  note ok1 = expired_ok(1) [OF assms, of now] and sets = expired_set [OF assms, of now]
  have d1: "distinct (ids (rs_list ?s1))" and d: "distinct (ids (rs_list s))"
    using ok1 assms(1) by (simp_all add: rs_ok_def)
  have dp: "distinct (ids (rs_list (snd (rs_copy env True now b k s))))"
    using rs_ok_copy [OF assms, of True now b k] by (simp add: rs_ok_def)
  show "fst (rs_copy env True now b k s) = map_option (if b then snd else fst) (rs_look now s k)"
  proof (cases "rs_find k ?s1")
    case None
    then have "\<forall>e \<in> set (rs_list ?s1). re_id e \<noteq> k" by (auto simp: rs_find_def index_of_None ids_def)
    with sets(1) have "rs_look now s k = None" by (auto simp: rs_look_def find_None_iff)
    with None show ?thesis by (simp add: rs_copy_def Let_def)
  next
    case (Some i)
    then have i: "i < length (rs_list ?s1)" "re_id (rs_list ?s1 ! i) = k"
      using index_of_Some by (auto simp: rs_find_def)
    then have "rs_list ?s1 ! i \<in> set (rs_list s)" "fresh now (rs_ttl s) (rs_list ?s1 ! i)"
      using sets(1) nth_mem [OF i(1)] by auto
    with i(2) have "rs_look now s k = Some (re_input (rs_list ?s1 ! i), re_body (rs_list ?s1 ! i))"
      unfolding rs_look_iff [OF d] by blast
    with Some show ?thesis by (simp add: rs_copy_def Let_def)
  qed
  assume t: "t0 \<le> now" and l: "rs_look now (snd (rs_copy env True now b k s)) k' = Some w"
  obtain wi wb where w: "w = (wi, wb)" by (cases w)
  from l obtain f where f: "f \<in> set (rs_list (snd (rs_copy env True now b k s)))" "re_id f = k'"
      "re_input f = wi" "re_body f = wb"
    unfolding w rs_look_iff [OF dp] by blast
  have "\<exists>g \<in> set (rs_list ?s1). re_id g = k' \<and> re_input g = wi \<and> re_body g = wb"
  proof (cases "rs_find k ?s1")
    case None
    with f show ?thesis by (auto simp: rs_copy_def Let_def)
  next
    case (Some i)
    then have i: "i < length (rs_list ?s1)" using index_of_Some by (auto simp: rs_find_def)
    have "f \<in> insert ((rs_list ?s1 ! i)\<lparr>re_used := now\<rparr>) (set (rs_list ?s1))"
      using f(1) Some set_update_subset_insert [of "rs_list ?s1" i] by (auto simp: rs_copy_def Let_def)
    then show ?thesis using f nth_mem [OF i] by auto
  qed
  then obtain g where "g \<in> set (rs_list s)" "fresh now (rs_ttl s) g" "re_id g = k'" "re_input g = wi" "re_body g = wb"
    using sets(1) by auto
  with fresh_later [OF _ t] show "rs_look t0 s k' = Some w" unfolding w rs_look_iff [OF d] by blast
qed

lemma look_delete:
  assumes "rs_ok s"
  shows "rs_look now (snd (respstore_delete k s)) k = None"
    and "rs_look now (snd (respstore_delete k s)) k' = Some w \<Longrightarrow> rs_look now s k' = Some w"
proof -
  note dr = shrinks_drop_old [OF assms, of k]
  have d: "distinct (ids (rs_list s))" "distinct (ids (rs_list (rs_drop_old k s)))" "rs_ttl (rs_drop_old k s) = rs_ttl s"
    using assms dr(1) by (simp_all add: rs_ok_def shrinks_def)
  show "rs_look now (snd (respstore_delete k s)) k = None"
    using dr(2) by (auto simp: respstore_delete_def rs_look_def find_None_iff)
  show "rs_look now (snd (respstore_delete k s)) k' = Some w \<Longrightarrow> rs_look now s k' = Some w"
    using dr(2) d(3) by (cases w) (auto simp: respstore_delete_def rs_look_iff [OF d(1)] rs_look_iff [OF d(2)])
qed

lemma look_later: "rs_ok s \<Longrightarrow> t0 \<le> t \<Longrightarrow> rs_look t s k = Some w \<Longrightarrow> rs_look t0 s k = Some w"
  by (cases w) (auto simp: rs_ok_def rs_look_iff dest: fresh_later)

lemma respstore_laws:
  "lossy_store (\<lambda>s. rs_ok s \<and> env_ok env) rs_look
    (\<lambda>t k v. respstore_put env alloc t k (fst v) (snd v)) (if b then snd else fst)
    (\<lambda>t k. rs_copy env True t b k) (\<lambda>k s. snd (respstore_delete k s)) (\<lambda>k v. fits_memory k (fst v) (snd v))"
  by unfold_locales
    (auto simp: rs_ok_put rs_ok_copy rs_ok_delete look_put(1) look_copy(1) look_delete(1)
      intro: look_put(2) look_copy(2) look_delete(2) look_later)

interpretation bodies: lossy_store "\<lambda>s. rs_ok s \<and> env_ok env" rs_look
    "\<lambda>t k v. respstore_put env alloc t k (fst v) (snd v)" snd
    "\<lambda>t k. respstore_body env True t k" "\<lambda>k s. snd (respstore_delete k s)" "\<lambda>k v. fits_memory k (fst v) (snd v)"
  for env alloc
  using respstore_laws [of env alloc True] by (simp add: respstore_body_def [abs_def])

interpretation inputs: lossy_store "\<lambda>s. rs_ok s \<and> env_ok env" rs_look
    "\<lambda>t k v. respstore_put env alloc t k (fst v) (snd v)" fst
    "\<lambda>t k. respstore_input env True t k" "\<lambda>k s. snd (respstore_delete k s)" "\<lambda>k v. fits_memory k (fst v) (snd v)"
  for env alloc
  using respstore_laws [of env alloc False] by (simp add: respstore_input_def [abs_def])

subsection \<open>Runs of the store\<close>

text \<open>
  A run at non-decreasing times, beside the map \<open>M\<close> of what was stored last: the specification
  without bounds.
\<close>

inductive rs_run :: "nat \<times> rat \<Rightarrow> rat \<Rightarrow> resp_store \<Rightarrow> (bytes \<Rightarrow> (bytes \<times> bytes) option) \<Rightarrow> bool"
  for env :: "nat \<times> rat" where
  start: "rs_run env t rs_initial Map.empty"
| reset: "rs_run env t0 s M \<Longrightarrow> t0 \<le> t \<Longrightarrow> rs_run env t (respstore_reset_from_env env s) Map.empty"
| put: "rs_run env t0 s M \<Longrightarrow> t0 \<le> t \<Longrightarrow> fits_memory k i b \<Longrightarrow> respstore_put env alloc t k i b s = (r, s') \<Longrightarrow>
    rs_run env t s' (if r then M(k \<mapsto> (i, b)) else M)"
| body: "rs_run env t0 s M \<Longrightarrow> t0 \<le> t \<Longrightarrow> respstore_body env True t k s = (x, s') \<Longrightarrow> rs_run env t s' M"
| input: "rs_run env t0 s M \<Longrightarrow> t0 \<le> t \<Longrightarrow> respstore_input env True t k s = (x, s') \<Longrightarrow> rs_run env t s' M"
| delete: "rs_run env t s M \<Longrightarrow> rs_run env t (snd (respstore_delete k s)) (M(k := None))"

lemma run_held: "rs_run env t s M \<Longrightarrow> env_ok env \<Longrightarrow> bodies.held env t s M"
proof (induction rule: rs_run.induct)
  case (put t0 s M t k i b alloc r s')
  then show ?case using bodies.held_put [of env t0 s M t k "(i, b)"] by simp
next
  case (reset t0 s M t)
  then have "rs_ok s" unfolding bodies.held_def by blast
  moreover have "rs_look t (respstore_reset_from_env env s) k = None" for k
    by (simp add: respstore_reset_from_env_def rs_look_def)
  ultimately show ?case using reset.prems rs_ok_reset unfolding bodies.held_def by simp
next
  case (body t0 s M t k x s')
  then show ?case using bodies.held_get [of env t0 s M t k x s'] by blast
next
  case (input t0 s M t k x s')
  then have "inputs.held env t0 s M" by (simp add: bodies.held_def inputs.held_def)
  with input.hyps inputs.held_get [of env t0 s M t k x s'] show ?case
    by (simp add: bodies.held_def inputs.held_def)
next
  case (delete t s M k)
  then show ?case using bodies.held_delete by blast
next
  case (start t)
  have "rs_look t rs_initial k = None" for k by (simp add: rs_initial_def rs_look_def)
  with start rs_ok_initial show ?case unfolding bodies.held_def by simp
qed

text \<open>
  Property C9. In every run of the store the byte counter is exactly the sum of the entries' costs and
  never exceeds the budget, each id is stored once, and a read gives back what was stored last
  under the id, or nothing (after expiry, eviction, deletion or a reset): never a stale or
  foreign body.
\<close>

theorem respstore_refines:
  assumes "rs_run env t s M" "env_ok env" "t \<le> t'"
  shows "rs_bytes s = of_nat (total (rs_list s)) \<and> total (rs_list s) \<le> unat (rs_budget s)
    \<and> distinct (map re_id (rs_list s))
    \<and> fst (respstore_body env True t' k s) \<in> {None, map_option snd (M k)}
    \<and> fst (respstore_input env True t' k s) \<in> {None, map_option fst (M k)}"
proof -
  have h: "bodies.held env t s M" using run_held [OF assms(1,2)] .
  then have g: "inputs.held env t s M" unfolding bodies.held_def inputs.held_def .
  have ok: "rs_ok s" using h unfolding bodies.held_def by blast
  have "fst (respstore_body env True t' k s) \<in> {None, map_option snd (M k)}"
    using bodies.held_get [OF h assms(3) prod.collapse [symmetric], of k] by simp
  moreover have "fst (respstore_input env True t' k s) \<in> {None, map_option fst (M k)}"
    using inputs.held_get [OF g assms(3) prod.collapse [symmetric], of k] by simp
  ultimately show ?thesis using ok by (simp add: rs_ok_def counted_def ids_def)
qed

definition one_put :: resp_store where
  "one_put = snd (respstore_put (64, 3600) True 0 [0x61] [0x62] [0x63] rs_initial)"

lemma one_put_run: "\<exists>M. rs_run (64, 3600) 0 one_put M"
  using rs_run.put [OF rs_run.start [of "(64, 3600)"] order_refl, where k = "[0x61]" and i = "[0x62]" and b = "[0x63]" and alloc = True]
  by (cases "respstore_put (64, 3600) True 0 [0x61] [0x62] [0x63] rs_initial")
    (auto simp: one_put_def fits_memory_def rs_entry_size_def)

theorem respstore_refines_witness:
  "total (rs_list one_put) \<le> unat (rs_budget one_put) \<and> distinct (map re_id (rs_list one_put))"
proof -
  obtain M where "rs_run (64, 3600) 0 one_put M" using one_put_run by blast
  from respstore_refines [OF this _ order_refl] show ?thesis by (simp add: env_ok_def)
qed

text \<open>
  \<open>respstore_put\<close> refuses an entry only when an allocation fails or the entry alone is
  beyond the budget, and then drops nothing but what has expired. Otherwise the entry is stored
  and readable, the total stays within the budget, and of the other unexpired entries those dropped
  to make room were used no later than any that stay.
\<close>

theorem respstore_put_lru:
  assumes "rs_ok s" "env_ok env" "fits_memory k i b"
  shows "case respstore_put env alloc now k i b s of (ok, s') \<Rightarrow>
    (ok \<longleftrightarrow> alloc \<and> cost (new_entry now k i b) \<le> unat (rs_budget (rs_defaults env s)))
    \<and> (if ok then
         new_entry now k i b \<in> set (rs_list s')
         \<and> fst (respstore_body env True now k s') = Some b \<and> fst (respstore_input env True now k s') = Some i
         \<and> total (rs_list s') \<le> unat (rs_budget s')
         \<and> (\<forall>x \<in> set (rs_list s) - set (rs_list s'). fresh now (rs_ttl s) x \<and> re_id x \<noteq> k \<longrightarrow>
             (\<forall>f \<in> set (rs_list s') - {new_entry now k i b}. f \<in> set (rs_list s) \<and> re_used x \<le> re_used f))
       else \<forall>x \<in> set (rs_list s). fresh now (rs_ttl s) x \<longrightarrow> x \<in> set (rs_list s'))"
proof -
  let ?e = "new_entry now k i b"
  let ?r = "room_for env now ?e s"
  let ?p = "respstore_put env alloc now k i b s"
  have c: "cost ?e < 2 ^ 64" using assms(3) by (simp add: fits_memory_def cost_def new_entry_def)
  note eq = put_eq [OF assms, of alloc now]
  note sets = expired_set(1) [OF assms(1,2), of now]
  have ok': "rs_ok (snd ?p)" using rs_ok_put [OF assms] .
  show ?thesis
  proof (cases "alloc \<and> \<not> too_big env ?e s")
    case False
    then show ?thesis using eq sets by (auto simp: Let_def too_big_def)
  next
    case True
    let ?s' = "?r\<lparr>rs_list := ?e # rs_list ?r, rs_bytes := rs_bytes ?r + rs_cost ?e\<rparr>"
    have p: "?p = (True, ?s')" using True eq by (simp add: Let_def)
    note r = room_for_spec [OF assms(1,2) c conjunct2 [OF True], of now]
    have old: "set (rs_list (rs_drop_old (re_id ?e) (rs_expire now (rs_defaults env s))))
        = {x \<in> set (rs_list s). fresh now (rs_ttl s) x \<and> re_id x \<noteq> k}"
      using shrinks_drop_old(2) [OF expired_ok(1) [OF assms(1,2)]] sets by (auto simp: new_entry_def)
    have sub: "set (rs_list ?r) \<subseteq> set (rs_list s)" using r(1) old by (auto simp: shrinks_def)
    have look: "rs_look now ?s' k = Some (i, b)" using look_put(1) [OF assms, of alloc now] p by simp
    have "rs_ok ?s'" using ok' p by simp
    then have reads: "fst (respstore_body env True now k ?s') = Some b" "fst (respstore_input env True now k ?s') = Some i"
      using bodies.get_look [of ?s' env now k] inputs.get_look [of ?s' env now k] assms(2) look by simp_all
    have lru: "\<forall>x \<in> set (rs_list s) - set (rs_list ?s'). fresh now (rs_ttl s) x \<and> re_id x \<noteq> k \<longrightarrow>
        (\<forall>f \<in> set (rs_list ?s') - {?e}. f \<in> set (rs_list s) \<and> re_used x \<le> re_used f)"
      using r(4) sub unfolding old by auto
    have tot: "total (rs_list ?s') \<le> unat (rs_budget ?s')" using r(2) by simp
    have small: "cost ?e \<le> unat (rs_budget (rs_defaults env s))" using True by (simp add: too_big_def)
    have mem: "?e \<in> set (rs_list ?s')" by simp
    show ?thesis unfolding p prod.case if_True
      by (intro conjI mem reads lru tot) (simp add: True small)
  qed
qed

end
