(* ===== verification/Http_Request.thy ===== *)
theory Http_Request
  imports Prelude
begin

section \<open>Reading an HTTP request (http.c)\<close>

text \<open>
  The request line, the two headers that decide framing, and the local-authority check of the Host
  and Origin headers. The buffer is the list of its bytes up to the terminating NUL; a pointer into
  it is the list from there on, and the end of the header a distance.
\<close>

definition fold_case :: "u8 \<Rightarrow> int" where
  "fold_case c = (if 0x41 \<le> c \<and> c \<le> 0x5A then uint c + 32 else uint c)"

text \<open>\<open>ci_ncmp a b n\<close>; the bytes after the end of a list stand for the NUL.\<close>

definition c_at :: "bytes \<Rightarrow> u8" where
  "c_at s = (case s of [] \<Rightarrow> 0 | c # _ \<Rightarrow> c)"

fun ci_ncmp :: "bytes \<Rightarrow> bytes \<Rightarrow> nat \<Rightarrow> int" where
  "ci_ncmp a b 0 = 0"
| "ci_ncmp a b (Suc n) =
    (let ca = fold_case (c_at a); cb = fold_case (c_at b) in
     if ca \<noteq> cb then ca - cb
     else if ca = 0 then 0
     else ci_ncmp (tl a) (tl b) n)"

definition is_ows :: "u8 \<Rightarrow> bool" where
  "is_ows c \<longleftrightarrow> c = 0x20 \<or> c = 0x09"

definition trim_left :: "bytes \<Rightarrow> bytes" where
  "trim_left s = dropWhile is_ows s"

definition trim_right :: "bytes \<Rightarrow> bytes" where
  "trim_right s = rev (dropWhile is_ows (rev s))"

text \<open>\<^verbatim>\<open>memchr\<close>: what is before the byte and what is after it.\<close>

definition split_at :: "u8 \<Rightarrow> bytes \<Rightarrow> (bytes \<times> bytes) option" where
  "split_at c s = (if c \<in> set s then Some (takeWhile (\<lambda>x. x \<noteq> c) s, tl (dropWhile (\<lambda>x. x \<noteq> c) s)) else None)"

subsection \<open>The authority\<close>

text \<open>The port: one to five digits, read into an \<^verbatim>\<open>unsigned\<close>.\<close>

definition port_value :: "bytes \<Rightarrow> u32" where
  "port_value p = fold (\<lambda>c v. v * 10 + ucast (c - 0x30)) p 0"

definition port_ok :: "bytes \<Rightarrow> bool" where
  "port_ok p \<longleftrightarrow> p \<noteq> [] \<and> \<not> length p > 5 \<and> list_all is_digit p
     \<and> port_value p \<ge> 1 \<and> port_value p \<le> 65535"

text \<open>The host part and the port, \<open>None\<close> when a bracketed host is malformed.\<close>

definition split_authority :: "bytes \<Rightarrow> (bytes \<times> bytes option) option" where
  "split_authority s =
    (if s \<noteq> [] \<and> hd s = 0x5B then
       (case split_at 0x5D s of None \<Rightarrow> None
        | Some (h, r) \<Rightarrow>
          if r \<noteq> [] then (if hd r \<noteq> 0x3A then None else Some (h @ [0x5D], Some (tl r)))
          else Some (h @ [0x5D], None))
     else (case split_at 0x3A s of None \<Rightarrow> Some (s, None) | Some (h, p) \<Rightarrow> Some (h, Some p)))"

definition local_host :: "bytes \<Rightarrow> bool" where
  "local_host h \<longleftrightarrow> (length h = 9 \<and> ci_ncmp h (ascii ''localhost'') 9 = 0)
     \<or> (length h = 9 \<and> h = ascii ''127.0.0.1'')
     \<or> (length h = 5 \<and> h = ascii ''[::1]'')"

definition local_authority :: "bytes \<Rightarrow> bool" where
  "local_authority s =
    (case split_authority (trim_right (trim_left s)) of None \<Rightarrow> False
     | Some (h, port) \<Rightarrow>
       if \<not> local_host h then False
       else (case port of None \<Rightarrow> True | Some p \<Rightarrow> port_ok p))"

subsection \<open>The lines of the header\<close>

text \<open>\<^verbatim>\<open>strstr(line, "\r\n")\<close>: the length of the line, if a terminator comes before the NUL.\<close>

fun crlf_at :: "bytes \<Rightarrow> nat option" where
  "crlf_at [] = None"
| "crlf_at (c # s) =
    (if c = 0 then None
     else if c = 0x0D \<and> c_at s = 0x0A then Some 0
     else map_option Suc (crlf_at s))"

text \<open>
  The loop both header functions share: \<open>he\<close> is the distance to \<^verbatim>\<open>header_end\<close>, \<open>f\<close> the
  body, which returns \<open>None\<close> to refuse.
\<close>

function each_line :: "('a \<Rightarrow> bytes \<Rightarrow> 'a option) \<Rightarrow> nat \<Rightarrow> bytes \<Rightarrow> 'a \<Rightarrow> 'a option" where
  "each_line f he buf st =
    (if he = 0 then Some st
     else (case crlf_at buf of None \<Rightarrow> None
       | Some e \<Rightarrow>
         if e > he then None
         else (case f st (take e buf) of None \<Rightarrow> None
           | Some st' \<Rightarrow> each_line f (he - (e + 2)) (drop (e + 2) buf) st')))"
  by pat_completeness auto
termination by (relation "measure (\<lambda>(f, he, buf, st). he)") auto

declare each_line.simps [simp del]

definition named :: "string \<Rightarrow> bytes \<Rightarrow> bool" where
  "named nm n \<longleftrightarrow> length n = length nm \<and> ci_ncmp n (ascii nm) (length nm) = 0"

text \<open>\<open>validate_request_authority\<close>: the counts of Host and Origin fields are the loop's state.\<close>

definition origin_scheme :: "bytes \<Rightarrow> nat" where
  "origin_scheme v =
    (if length v \<ge> 7 \<and> ci_ncmp v (ascii ''http://'') 7 = 0 then 7
     else if length v \<ge> 8 \<and> ci_ncmp v (ascii ''https://'') 8 = 0 then 8 else 0)"

definition origin_ok :: "bytes \<Rightarrow> bool" where
  "origin_ok value =
    (let v = trim_right (trim_left value); n = origin_scheme v
     in if n = 0 then False else local_authority (drop n v))"

definition authority_line :: "nat \<times> nat \<Rightarrow> bytes \<Rightarrow> (nat \<times> nat) option" where
  "authority_line st line =
    (case st of (hosts, origins) \<Rightarrow>
     case split_at 0x3A line of None \<Rightarrow> Some st
     | Some (name, value) \<Rightarrow>
       if named ''Host'' name then
         (if hosts + 1 \<noteq> 1 \<or> \<not> local_authority value then None else Some (hosts + 1, origins))
       else if named ''Origin'' name then
         (if origins + 1 \<noteq> 1 then None
          else if \<not> origin_ok value then None
          else Some (hosts, origins + 1))
       else Some st)"

definition validate_request_authority :: "bytes \<Rightarrow> nat \<Rightarrow> bool" where
  "validate_request_authority first_header he =
    (case each_line authority_line he first_header (0, 0) of None \<Rightarrow> False | Some (hosts, _) \<Rightarrow> hosts = 1)"

text \<open>
  The digits of a Content-Length value, in a \<^verbatim>\<open>size_t\<close>, with the code's overflow check;
  \<open>None\<close> for an overflow, else the value and what follows the digits.
\<close>

fun length_digits :: "u64 \<Rightarrow> bytes \<Rightarrow> (u64 \<times> bytes) option" where
  "length_digits v [] = Some (v, [])"
| "length_digits v (c # p) =
    (if is_digit c then
       (let digit = ucast (c - 0x30) :: u64 in
        if v > (- 1 - digit) div 10 then None else length_digits (v * 10 + digit) p)
     else Some (v, c # p))"

definition content_value :: "bytes \<Rightarrow> u64 option" where
  "content_value value =
    (let digits = trim_left value in
     case length_digits 0 digits of None \<Rightarrow> None
     | Some (v, p) \<Rightarrow>
       if p = digits then None
       else if trim_left p \<noteq> [] then None
       else Some v)"

definition framing_line :: "bool \<times> u64 \<Rightarrow> bytes \<Rightarrow> (bool \<times> u64) option" where
  "framing_line st line =
    (case st of (saw_length, content_length) \<Rightarrow>
     case split_at 0x3A line of None \<Rightarrow> Some st
     | Some (name, value) \<Rightarrow>
       if named ''Transfer-Encoding'' name then None
       else if named ''Content-Length'' name then
         (if saw_length then None
          else map_option (\<lambda>v. (True, v)) (content_value value))
       else Some st)"

definition parse_request_framing :: "bytes \<Rightarrow> nat \<Rightarrow> u64 option" where
  "parse_request_framing first_header he = map_option snd (each_line framing_line he first_header (False, 0))"

subsection \<open>The request line\<close>

text \<open>
  The result: method and path when the line is valid, and the text from the first header on; \<open>None\<close>
  when there is no line end at all.
\<close>

definition line_parts :: "bytes \<Rightarrow> (bytes \<times> bytes \<times> bytes) option" where
  "line_parts l =
    (case split_at 0x20 l of None \<Rightarrow> None
     | Some (m, r) \<Rightarrow>
       (case split_at 0x20 r of None \<Rightarrow> None
        | Some (p, v) \<Rightarrow>
          if m \<noteq> [] \<and> p \<noteq> [] \<and> v \<noteq> [] \<and> 0x20 \<notin> set v then Some (m, p, v) else None))"

definition parse_request_line :: "bytes \<Rightarrow> ((bytes \<times> bytes) option \<times> bytes) option" where
  "parse_request_line hdr =
    (case crlf_at hdr of None \<Rightarrow> None
     | Some e \<Rightarrow>
       Some (case line_parts (take e hdr) of None \<Rightarrow> None
             | Some (m, p, v) \<Rightarrow>
               if length m < 8 \<and> length p < 256 \<and> (v = ascii ''HTTP/1.1'' \<or> v = ascii ''HTTP/1.0'')
               then Some (m, p) else None,
             drop (e + 2) hdr))"

subsection \<open>Comparing names\<close>

lemma c_at_Cons [simp]: "c_at (c # s) = c"
  by (simp add: c_at_def)

lemma fold_case_0: "fold_case c = 0 \<longleftrightarrow> c = 0"
proof -
  have "uint c + 32 \<noteq> 0" using uint_ge_0 [of c] by linarith
  moreover have "uint c = 0 \<longleftrightarrow> c = 0" by (simp add: uint_0_iff)
  ultimately show ?thesis by (auto simp: fold_case_def)
qed

lemma ci_ncmp_0:
  "length a = n \<Longrightarrow> length b = n \<Longrightarrow> 0 \<notin> set b \<Longrightarrow> ci_ncmp a b n = 0 \<longleftrightarrow> map fold_case a = map fold_case b"
proof (induction n arbitrary: a b)
  case (Suc n)
  then obtain x a' y b' where "a = x # a'" "b = y # b'" by (metis length_Suc_conv)
  with Suc show ?case by (auto simp: Let_def fold_case_0)
qed simp

definition same_text :: "bytes \<Rightarrow> string \<Rightarrow> bool" where
  "same_text n nm \<longleftrightarrow> map fold_case n = map fold_case (ascii nm)"

lemma named_iff: "0 \<notin> set (ascii nm) \<Longrightarrow> named nm n \<longleftrightarrow> same_text n nm"
proof -
  assume "0 \<notin> set (ascii nm)"
  moreover have "map fold_case n = map fold_case (ascii nm) \<Longrightarrow> length n = length nm"
    using map_eq_imp_length_eq by fastforce
  ultimately show ?thesis using ci_ncmp_0 [of n "length nm" "ascii nm"]
    by (auto simp: named_def same_text_def)
qed

subsection \<open>The lines\<close>

definition line_ok :: "bytes \<Rightarrow> bool" where
  "line_ok l \<longleftrightarrow> l \<noteq> [] \<and> 0 \<notin> set l \<and> crlf_at l = None"

definition lines_text :: "bytes list \<Rightarrow> bytes" where
  "lines_text ls = concat (map (\<lambda>l. l @ [0x0D, 0x0A]) ls)"

lemma crlf_at_line: "0 \<notin> set l \<Longrightarrow> crlf_at l = None \<Longrightarrow> crlf_at (l @ 0x0D # 0x0A # r) = Some (length l)"
proof (induction l)
  case (Cons c l)
  then show ?case by (cases l) (auto split: if_splits)
qed simp

fun run_lines :: "('a \<Rightarrow> bytes \<Rightarrow> 'a option) \<Rightarrow> 'a \<Rightarrow> bytes list \<Rightarrow> 'a option" where
  "run_lines f st [] = Some st"
| "run_lines f st (l # ls) = (case f st l of None \<Rightarrow> None | Some st' \<Rightarrow> run_lines f st' ls)"

lemma each_line_lines:
  "list_all line_ok ls \<Longrightarrow> each_line f (length (lines_text ls) - 2) (lines_text ls @ r) st = run_lines f st ls"
proof (induction ls arbitrary: st)
  case Nil
  then show ?case by (simp add: lines_text_def each_line.simps)
next
  case (Cons l ls)
  let ?he = "length (lines_text (l # ls)) - 2"
  have l: "crlf_at (lines_text (l # ls) @ r) = Some (length l)"
    using Cons.prems crlf_at_line [of l "lines_text ls @ r"] by (simp add: line_ok_def lines_text_def)
  have he: "?he = length l + length (lines_text ls)" by (simp add: lines_text_def)
  have "?he \<noteq> 0" using Cons.prems by (simp add: he line_ok_def)
  moreover have "\<not> length l > ?he" by (simp add: he)
  moreover have "?he - (length l + 2) = length (lines_text ls) - 2" by (simp add: he)
  moreover have "take (length l) (lines_text (l # ls) @ r) = l"
    "drop (length l + 2) (lines_text (l # ls) @ r) = lines_text ls @ r" by (simp_all add: lines_text_def)
  ultimately show ?case using l Cons
    by (simp add: each_line.simps [of f ?he] del: One_nat_def split: option.split)
qed

definition fields :: "bytes list \<Rightarrow> (bytes \<times> bytes) list" where
  "fields ls = List.map_filter (split_at 0x3A) ls"

lemma fields_simps [simp]:
  "fields [] = []"
  "fields (l # ls) = (case split_at 0x3A l of None \<Rightarrow> fields ls | Some f \<Rightarrow> f # fields ls)"
  by (simp_all add: fields_def map_filter_simps split: option.split)

definition values_of :: "string \<Rightarrow> bytes list \<Rightarrow> bytes list" where
  "values_of nm ls = map snd (filter (\<lambda>(n, _). same_text n nm) (fields ls))"

lemma values_of_simps:
  "values_of nm [] = []"
  "values_of nm (l # ls) = (case split_at 0x3A l of None \<Rightarrow> values_of nm ls
     | Some (n, v) \<Rightarrow> if same_text n nm then v # values_of nm ls else values_of nm ls)"
  by (auto simp: values_of_def split: option.split)

lemma name_clash: "same_text n a \<Longrightarrow> length a \<noteq> length b \<Longrightarrow> \<not> same_text n b"
  by (auto simp: same_text_def dest!: map_eq_imp_length_eq)

lemma names_ascii: "0 \<notin> set (ascii ''Host'')" "0 \<notin> set (ascii ''Origin'')"
  "0 \<notin> set (ascii ''Content-Length'')" "0 \<notin> set (ascii ''Transfer-Encoding'')"
  "0 \<notin> set (ascii ''localhost'')" "0 \<notin> set (ascii ''http://'')" "0 \<notin> set (ascii ''https://'')"
  by (simp_all add: ascii_def)

lemmas named_text = names_ascii [THEN named_iff]

subsection \<open>Framing\<close>

lemma framing_run:
  "run_lines framing_line (b, n) ls =
    (if values_of ''Transfer-Encoding'' ls \<noteq> [] then None
     else case values_of ''Content-Length'' ls of [] \<Rightarrow> Some (b, n)
       | [v] \<Rightarrow> if b then None else map_option (\<lambda>x. (True, x)) (content_value v)
       | _ \<Rightarrow> None)"
proof (induction ls arbitrary: b n)
  case (Cons l ls)
  show ?case
  proof (cases "split_at 0x3A l")
    case (Some f)
    obtain nm v where f: "f = (nm, v)" by (cases f)
    have c: "same_text nm ''Transfer-Encoding'' \<Longrightarrow> \<not> same_text nm ''Content-Length''"
      by (rule name_clash, assumption) simp
    show ?thesis using Some f c Cons.IH [of b n] Cons.IH [of True] Cons.IH
      by (cases "content_value v")
        (auto simp: framing_line_def values_of_simps named_text split: list.split option.split)
  qed (use Cons in \<open>simp add: framing_line_def values_of_simps\<close>)
qed (simp add: values_of_simps)

lemma unat_ucast64: "unat (ucast (c :: u8) :: u64) = unat c"
proof -
  have "unat c < 2 ^ 64" using u8_less [of c] by simp
  then show ?thesis by (simp add: unsigned_ucast_eq take_bit_nat_eq_self)
qed

text \<open>A digit, and a step of the accumulation in a word wide enough.\<close>

lemma dec_step64:
  assumes "is_digit c" "unat v * 10 + (unat c - 0x30) < 2 ^ 64"
  shows "unat (v * 10 + (ucast (c - 0x30) :: u64)) = unat v * 10 + (unat c - 0x30)"
proof -
  have "of_nat (unat c - 0x30) = (ucast (c - 0x30) :: u64)"
  proof -
    have "of_nat (unat (ucast (c - 0x30) :: u64)) = (ucast (c - 0x30) :: u64)" by simp
    then show ?thesis unfolding unat_ucast64 conjunct2 [OF digit_value [OF assms(1)]] .
  qed
  then have "v * 10 + (ucast (c - 0x30) :: u64) = of_nat (unat v * 10 + (unat c - 0x30))" by simp
  with unat_of_nat64 [OF assms(2)] show ?thesis by simp
qed

lemma dec_guard64:
  assumes "is_digit c"
  shows "v > (- 1 - (ucast (c - 0x30) :: u64)) div 10 \<longleftrightarrow> \<not> unat v * 10 + (unat c - 0x30) < 2 ^ 64"
proof -
  let ?d = "unat c - 0x30"
  have d: "unat (ucast (c - 0x30) :: u64) = ?d"
    using digit_value [OF assms] by (simp add: unat_ucast64)
  have "unat (- 1 - (ucast (c - 0x30) :: u64)) = 2 ^ 64 - 1 - ?d"
    using d digit_value [OF assms] by (subst unat_sub) (simp_all add: word_le_nat_alt unsigned_minus_1_eq_mask mask_eq_exp_minus_1)
  then have "v > (- 1 - (ucast (c - 0x30) :: u64)) div 10 \<longleftrightarrow> unat v > (2 ^ 64 - 1 - ?d) div 10"
    by (simp add: word_less_nat_alt unat_div)
  also have "\<dots> \<longleftrightarrow> \<not> unat v * 10 + ?d < 2 ^ 64"
  proof -
    have "(2 ^ 64 - 1 - d) div 10 < x \<longleftrightarrow> \<not> x * 10 + d < (2 :: nat) ^ 64" if "d < 10" for d x :: nat
      using that div_less_iff_less_mult [of 10 "2 ^ 64 - 1 - d" x] by auto
    then show ?thesis using digit_value [OF assms] by blast
  qed
  finally show ?thesis .
qed

lemma length_digits_spec:
  "length_digits v p =
    (let ds = takeWhile is_digit p
     in if dec_val (unat v) ds < 2 ^ 64 then Some (of_nat (dec_val (unat v) ds), dropWhile is_digit p) else None)"
proof (induction v p rule: length_digits.induct)
  case (1 v)
  have "unat v < 2 ^ 64" using unsigned_less [of v] by simp
  then show ?case by (simp add: Let_def)
next
  case (2 v c p)
  have v: "unat v < 2 ^ 64" using unsigned_less [of v] by simp
  show ?case
  proof (cases "is_digit c")
    case True
    let ?w = "unat v * 10 + (unat c - 0x30)"
    show ?thesis
    proof (cases "?w < 2 ^ 64")
      case lt: True
      then have "\<not> v > (- 1 - (ucast (c - 0x30) :: u64)) div 10" using dec_guard64 [OF True] by blast
      with "2.IH" [OF True refl this] True dec_step64 [OF True lt] show ?thesis by (simp add: Let_def)
    next
      case False
      then have "\<not> dec_val ?w (takeWhile is_digit p) < 2 ^ 64"
        using dec_val_mono [of ?w "takeWhile is_digit p"] by linarith
      with False True dec_guard64 [OF True, of v] show ?thesis by (simp add: Let_def)
    qed
  qed (use v in \<open>simp add: Let_def\<close>)
qed

text \<open>What a Content-Length value may be: decimal digits below 2^64 between blanks.\<close>

definition length_value :: "bytes \<Rightarrow> u64 option" where
  "length_value v =
    (let t = trim_left v; ds = takeWhile is_digit t
     in if ds \<noteq> [] \<and> list_all is_ows (dropWhile is_digit t) \<and> dec_val 0 ds < 2 ^ 64
        then Some (of_nat (dec_val 0 ds)) else None)"

lemma trim_left_Nil: "trim_left p = [] \<longleftrightarrow> list_all is_ows p"
  by (simp add: trim_left_def dropWhile_eq_Nil_conv list_all_iff)

lemma content_value_spec: "content_value v = length_value v"
proof -
  let ?t = "trim_left v"
  have "dropWhile is_digit ?t = ?t \<longleftrightarrow> takeWhile is_digit ?t = []"
    by (metis append_Nil append_self_conv2 takeWhile_dropWhile_id)
  then show ?thesis
    by (simp add: content_value_def length_value_def length_digits_spec trim_left_Nil Let_def)
qed


text \<open>
  Property C11. For any header lines, \<open>parse_request_framing\<close> accepts exactly when there is no
  Transfer-Encoding field and at most one Content-Length field (names compared as whole fields,
  in any case), whose value is a decimal number below 2^64 between blanks; the result is that
  number, or 0 without the field. So every accepted request has one length, read without overflow.
\<close>

theorem framing_unambiguous:
  assumes "list_all line_ok ls"
  shows "parse_request_framing (lines_text ls @ rest) (length (lines_text ls) - 2) =
    (if values_of ''Transfer-Encoding'' ls \<noteq> [] then None
     else case values_of ''Content-Length'' ls of [] \<Rightarrow> Some 0 | [v] \<Rightarrow> length_value v | _ \<Rightarrow> None)"
  by (simp add: parse_request_framing_def each_line_lines [OF assms] framing_run content_value_spec
      option.map_comp comp_def option.map_ident split: list.split)

text \<open>The field line \<^verbatim>\<open>content-length: 42\<close>.\<close>

definition length_line :: bytes where
  "length_line = ascii ''content-length: 42''"

lemma length_line_ok: "line_ok length_line"
  by (simp add: length_line_def line_ok_def ascii_def)

theorem framing_unambiguous_witness:
  "parse_request_framing (lines_text [length_line] @ [0x0D, 0x0A]) (length (lines_text [length_line]) - 2) = Some 42"
proof -
  have v: "values_of ''Transfer-Encoding'' [length_line] = []" "values_of ''Content-Length'' [length_line] = [ascii '' 42'']"
    by (simp_all add: values_of_simps split_at_def length_line_def ascii_def same_text_def fold_case_def)
  have "length_value (ascii '' 42'') = Some 42"
    by (simp add: length_value_def trim_left_def is_ows_def is_digit_def ascii_def Let_def)
  with framing_unambiguous [of "[length_line]" "[0x0D, 0x0A]"] length_line_ok v show ?thesis by simp
qed

subsection \<open>The authority\<close>

lemma dec_step32:
  assumes "is_digit c" "unat v * 10 + (unat c - 0x30) < 2 ^ 32"
  shows "unat (v * 10 + (ucast (c - 0x30) :: u32)) = unat v * 10 + (unat c - 0x30)"
proof -
  have u: "unat (ucast (c - 0x30) :: u32) = unat c - 0x30"
  proof -
    have "unat (c - 0x30) < 2 ^ 32" using u8_less [of "c - 0x30"] by simp
    then show ?thesis using digit_value [OF assms(1)] by (simp add: unsigned_ucast_eq take_bit_nat_eq_self)
  qed
  have "v * 10 + (ucast (c - 0x30) :: u32) = of_nat (unat v * 10 + unat (ucast (c - 0x30) :: u32))"
    by simp
  moreover have "unat (of_nat n :: u32) = n" if "n < 2 ^ 32" for n
    using that by (simp add: unsigned_of_nat take_bit_nat_eq_self)
  ultimately show ?thesis unfolding u using assms(2) by metis
qed

lemma port_fold:
  "list_all is_digit p \<Longrightarrow> (unat v + 1) * 10 ^ length p \<le> 2 ^ 32 \<Longrightarrow>
   unat (fold (\<lambda>c v. v * 10 + ucast (c - 0x30)) p (v :: u32)) = dec_val (unat v) p"
proof (induction p arbitrary: v)
  case (Cons c p)
  have d: "unat c - 0x30 < 10" using Cons.prems(1) digit_value by simp
  have le: "(unat v * 10 + 10) * 10 ^ length p \<le> 2 ^ 32" using Cons.prems(2) by (simp add: algebra_simps)
  have "unat v * 10 + 10 \<le> (unat v * 10 + 10) * 10 ^ length p" by simp
  then have "unat v * 10 + 10 \<le> 2 ^ 32" using le by linarith
  with d have lt: "unat v * 10 + (unat c - 0x30) < 2 ^ 32" by linarith
  have s: "unat (v * 10 + (ucast (c - 0x30) :: u32)) = unat v * 10 + (unat c - 0x30)"
    using Cons.prems(1) lt by (intro dec_step32) simp_all
  have "(unat v * 10 + (unat c - 0x30) + 1) * 10 ^ length p \<le> (unat v * 10 + 10) * 10 ^ length p"
    using d by (intro mult_right_mono) auto
  with le have "(unat (v * 10 + (ucast (c - 0x30) :: u32)) + 1) * 10 ^ length p \<le> 2 ^ 32"
    unfolding s by linarith
  from Cons.IH [OF _ this] Cons.prems(1) s show ?case by simp
qed simp

definition port_text :: "bytes \<Rightarrow> bool" where
  "port_text p \<longleftrightarrow> p \<noteq> [] \<and> length p \<le> 5 \<and> list_all is_digit p \<and> 1 \<le> dec_val 0 p \<and> dec_val 0 p \<le> 65535"

lemma port_ok_spec: "port_ok p = port_text p"
proof (cases "length p \<le> 5 \<and> list_all is_digit p")
  case True
  then have "(10 :: nat) ^ length p \<le> 10 ^ 5" by (intro power_increasing) auto
  then have "unat (port_value p) = dec_val 0 p"
    using port_fold [of p 0] True by (simp add: port_value_def)
  with True show ?thesis by (auto simp: port_ok_def port_text_def word_le_nat_alt)
qed (auto simp: port_ok_def port_text_def)

text \<open>The hosts the server answers for, and the texts of their authorities.\<close>

definition loopback :: "bytes \<Rightarrow> bool" where
  "loopback h \<longleftrightarrow> same_text h ''localhost'' \<or> h = ascii ''127.0.0.1'' \<or> h = ascii ''[::1]''"

definition loopback_text :: "bytes \<Rightarrow> bool" where
  "loopback_text s \<longleftrightarrow> (\<exists>h p. trim_right (trim_left s) = h @ p \<and> loopback h
     \<and> (p = [] \<or> (\<exists>ds. p = 0x3A # ds \<and> port_text ds)))"

lemma local_host_spec: "local_host h = loopback h"
proof -
  have n: "length ''localhost'' = 9" by simp
  have "named ''localhost'' h \<longleftrightarrow> length h = 9 \<and> ci_ncmp h (ascii ''localhost'') 9 = 0"
    unfolding named_def n ..
  moreover have "named ''localhost'' h \<longleftrightarrow> same_text h ''localhost''" using named_iff names_ascii(5) .
  moreover have "length (ascii ''127.0.0.1'') = 9" "length (ascii ''[::1]'') = 5" by simp_all
  ultimately show ?thesis unfolding local_host_def loopback_def by metis
qed

lemma split_at_Some: "split_at c s = Some (a, b) \<longleftrightarrow> s = a @ c # b \<and> c \<notin> set a"
proof
  assume "split_at c s = Some (a, b)"
  then have c: "c \<in> set s" and ab: "a = takeWhile (\<lambda>x. x \<noteq> c) s" "b = tl (dropWhile (\<lambda>x. x \<noteq> c) s)"
    by (auto simp: split_at_def split: if_splits)
  obtain d ds where d: "dropWhile (\<lambda>x. x \<noteq> c) s = d # ds"
    using c by (cases "dropWhile (\<lambda>x. x \<noteq> c) s") (auto simp: dropWhile_eq_Nil_conv)
  then have "d = c" using hd_dropWhile [of "\<lambda>x. x \<noteq> c" s] by simp
  with d have "dropWhile (\<lambda>x. x \<noteq> c) s = c # b" by (simp add: ab(2))
  then have "s = a @ c # b" unfolding ab(1) by (metis takeWhile_dropWhile_id)
  moreover have "c \<notin> set a" using ab(1) by (auto dest: set_takeWhileD)
  ultimately show "s = a @ c # b \<and> c \<notin> set a" by blast
next
  assume s: "s = a @ c # b \<and> c \<notin> set a"
  have "c \<notin> set a \<Longrightarrow> takeWhile (\<lambda>x. x \<noteq> c) (a @ c # b) = a \<and> dropWhile (\<lambda>x. x \<noteq> c) (a @ c # b) = c # b"
    by (induction a) auto
  with s show "split_at c s = Some (a, b)" by (simp add: split_at_def)
qed

lemma split_at_None: "split_at c s = None \<longleftrightarrow> c \<notin> set s"
  by (simp add: split_at_def)

lemma split_authority_sound:
  "split_authority s = Some (h, port) \<Longrightarrow> s = h @ (case port of None \<Rightarrow> [] | Some p \<Rightarrow> 0x3A # p)"
proof -
  assume a: "split_authority s = Some (h, port)"
  show ?thesis
  proof (cases "s \<noteq> [] \<and> hd s = 0x5B")
    case True
    with a obtain x r where "s = x @ 0x5D # r" "r \<noteq> [] \<longrightarrow> hd r = 0x3A"
      "h = x @ [0x5D]" "port = (if r = [] then None else Some (tl r))"
      by (auto simp: split_authority_def split_at_Some split: option.splits if_splits)
    then show ?thesis by (cases r) auto
  next
    case False
    then have "split_authority s = (case split_at 0x3A s of None \<Rightarrow> Some (s, None) | Some (h, p) \<Rightarrow> Some (h, Some p))"
      unfolding split_authority_def by (rule if_not_P)
    with a show ?thesis by (auto simp: split_at_Some split: option.splits)
  qed
qed

lemma fold_case_text: "same_text h ''localhost'' \<Longrightarrow> 0x3A \<notin> set h \<and> h \<noteq> [] \<and> hd h \<noteq> 0x5B"
proof -
  assume s: "same_text h ''localhost''"
  then have "fold_case ` set h = fold_case ` set (ascii ''localhost'')"
    unfolding same_text_def by (metis list.set_map)
  moreover have "fold_case 0x3A \<notin> fold_case ` set (ascii ''localhost'')"
    by (simp add: ascii_def fold_case_def)
  ultimately have "0x3A \<notin> set h" by force
  moreover have "h \<noteq> []" using s by (auto simp: same_text_def ascii_def)
  moreover have "fold_case (hd h) = fold_case 0x6C"
    using s \<open>h \<noteq> []\<close> by (cases h) (auto simp: same_text_def ascii_def)
  then have "hd h \<noteq> 0x5B" by (auto simp: fold_case_def)
  ultimately show ?thesis by blast
qed

lemma split_authority_complete:
  assumes "loopback h"
  shows "split_authority h = Some (h, None)" "split_authority (h @ 0x3A # ds) = Some (h, Some ds)"
proof -
  have b: "ascii ''[::1]'' = [0x5B, 0x3A, 0x3A, 0x31] @ [0x5D]" by (simp add: ascii_def)
  consider "h = ascii ''[::1]''" | "0x3A \<notin> set h" "h \<noteq> []" "hd h \<noteq> 0x5B"
    using assms fold_case_text [of h] by (auto simp: loopback_def ascii_def)
  then have "split_authority h = Some (h, None) \<and> split_authority (h @ 0x3A # ds) = Some (h, Some ds)"
  proof cases
    case 1
    then show ?thesis by (simp add: split_authority_def split_at_def ascii_def)
  next
    case 2
    then have "split_at 0x3A h = None" "split_at 0x3A (h @ 0x3A # ds) = Some (h, ds)"
      by (simp_all add: split_at_None split_at_Some)
    with 2 show ?thesis by (simp add: split_authority_def)
  qed
  then show "split_authority h = Some (h, None)" "split_authority (h @ 0x3A # ds) = Some (h, Some ds)" by simp_all
qed

lemma local_authority_spec: "local_authority s = loopback_text s"
proof
  assume "local_authority s"
  then obtain h port where p: "split_authority (trim_right (trim_left s)) = Some (h, port)" "loopback h"
    "case port of None \<Rightarrow> True | Some q \<Rightarrow> port_text q"
    by (auto simp: local_authority_def local_host_spec port_ok_spec split: option.splits if_splits)
  from split_authority_sound [OF p(1)] p(2,3) show "loopback_text s"
    unfolding loopback_text_def by (cases port) (metis option.case)+
next
  assume "loopback_text s"
  then show "local_authority s"
    using split_authority_complete
    by (auto simp: local_authority_def loopback_text_def local_host_spec port_ok_spec)
qed

definition origin_text :: "bytes \<Rightarrow> bool" where
  "origin_text value \<longleftrightarrow>
    (\<exists>sch a. trim_right (trim_left value) = sch @ a \<and> (same_text sch ''http://'' \<or> same_text sch ''https://'')
      \<and> loopback_text a)"

lemma ci_prefix:
  assumes "0 \<notin> set (ascii nm)" "length nm \<le> length v"
  shows "ci_ncmp v (ascii nm) (length nm) = 0 \<longleftrightarrow> same_text (take (length nm) v) nm"
proof -
  have "ci_ncmp v b n = ci_ncmp (take n v) b n" if "n \<le> length v" for v b n
    using that
  proof (induction n arbitrary: v b)
    case (Suc n)
    then obtain x v' where "v = x # v'" by (metis Suc_le_D length_Suc_conv)
    with Suc.IH [of v' "tl b"] Suc.prems show ?case by (simp add: Let_def)
  qed simp
  from this [OF assms(2)] show ?thesis
    using assms ci_ncmp_0 [of "take (length nm) v" "length nm" "ascii nm"] by (simp add: same_text_def)
qed

lemma same_text_length: "same_text n nm \<Longrightarrow> length n = length nm"
  unfolding same_text_def using map_eq_imp_length_eq by fastforce

lemma origin_schemes:
  assumes "v = sch @ a" "same_text sch nm"
  shows "length nm \<le> length v" "take (length nm) v = sch" "drop (length nm) v = a"
  using same_text_length [OF assms(2)] assms(1) by simp_all

lemma http_https: "same_text (take 7 v) ''http://'' \<Longrightarrow> same_text (take 8 v) ''https://'' \<Longrightarrow> False"
proof -
  assume a: "same_text (take 7 v) ''http://''" "same_text (take 8 v) ''https://''"
  have l: "length (take 8 v) = 8" using same_text_length [OF a(2)] by simp
  then have v: "length v \<ge> 8" by simp
  have "map fold_case (take 7 v) ! 4 = map fold_case (ascii ''http://'') ! 4"
    using a(1) unfolding same_text_def by (rule arg_cong)
  moreover have "map fold_case (take 8 v) ! 4 = map fold_case (ascii ''https://'') ! 4"
    using a(2) unfolding same_text_def by (rule arg_cong)
  moreover have "map fold_case (take 7 v) ! 4 = fold_case (v ! 4)" "map fold_case (take 8 v) ! 4 = fold_case (v ! 4)"
    using v by simp_all
  moreover have "map fold_case (ascii ''http://'') ! 4 \<noteq> map fold_case (ascii ''https://'') ! 4"
    by (simp add: ascii_def fold_case_def)
  ultimately show False by metis
qed

lemma origin_scheme_spec:
  "origin_scheme v = 7 \<longleftrightarrow> same_text (take 7 v) ''http://''"
  "origin_scheme v = 8 \<longleftrightarrow> same_text (take 8 v) ''https://''"
  "origin_scheme v \<in> {0, 7, 8}"
proof -
  have n: "length ''http://'' = 7" "length ''https://'' = 8" by simp_all
  have h: "7 \<le> length v \<Longrightarrow> ci_ncmp v (ascii ''http://'') 7 = 0 \<longleftrightarrow> same_text (take 7 v) ''http://''"
    using ci_prefix [OF names_ascii(6), of v] unfolding n by blast
  have hs: "8 \<le> length v \<Longrightarrow> ci_ncmp v (ascii ''https://'') 8 = 0 \<longleftrightarrow> same_text (take 8 v) ''https://''"
    using ci_prefix [OF names_ascii(7), of v] unfolding n by blast
  have l: "same_text (take 7 v) ''http://'' \<Longrightarrow> 7 \<le> length v" "same_text (take 8 v) ''https://'' \<Longrightarrow> 8 \<le> length v"
    using same_text_length [of "take 7 v" "''http://''"] same_text_length [of "take 8 v" "''https://''"] by auto
  show "origin_scheme v = 7 \<longleftrightarrow> same_text (take 7 v) ''http://''"
    unfolding origin_scheme_def using h l by auto
  show "origin_scheme v = 8 \<longleftrightarrow> same_text (take 8 v) ''https://''"
    unfolding origin_scheme_def using h hs l http_https [of v] by auto
  show "origin_scheme v \<in> {0, 7, 8}" by (simp add: origin_scheme_def)
qed

lemma origin_ok_spec: "origin_ok value = origin_text value"
proof -
  let ?v = "trim_right (trim_left value)"
  have n: "length ''http://'' = 7" "length ''https://'' = 8" by simp_all
  have "origin_text value \<longleftrightarrow> same_text (take 7 ?v) ''http://'' \<and> loopback_text (drop 7 ?v)
      \<or> same_text (take 8 ?v) ''https://'' \<and> loopback_text (drop 8 ?v)" (is "_ = ?R")
  proof
    assume "origin_text value"
    then obtain sch a where v: "?v = sch @ a" "loopback_text a" and s: "same_text sch ''http://'' \<or> same_text sch ''https://''"
      unfolding origin_text_def by blast
    from s show ?R
    proof
      assume "same_text sch ''http://''"
      with origin_schemes [OF v(1) this] v(2) show ?R unfolding n by simp
    next
      assume "same_text sch ''https://''"
      with origin_schemes [OF v(1) this] v(2) show ?R unfolding n by simp
    qed
  next
    assume ?R
    then show "origin_text value" unfolding origin_text_def by (metis append_take_drop_id)
  qed
  also have "\<dots> \<longleftrightarrow> origin_ok value"
    using origin_scheme_spec [of ?v] http_https [of ?v]
    by (auto simp: origin_ok_def local_authority_spec Let_def)
  finally show ?thesis ..
qed

lemma authority_run:
  "run_lines authority_line (h, k) ls =
    (let hs = values_of ''Host'' ls; os = values_of ''Origin'' ls
     in if (hs = [] \<or> h = 0 \<and> length hs = 1) \<and> (os = [] \<or> k = 0 \<and> length os = 1)
           \<and> list_all loopback_text hs \<and> list_all origin_text os
        then Some (h + length hs, k + length os) else None)"
proof (induction ls arbitrary: h k)
  case (Cons l ls)
  show ?case
  proof (cases "split_at 0x3A l")
    case None
    with Cons show ?thesis by (simp add: authority_line_def values_of_simps)
  next
    case (Some f)
    obtain nm v where f: "f = (nm, v)" by (cases f)
    have c: "same_text nm ''Host'' \<Longrightarrow> \<not> same_text nm ''Origin''" by (rule name_clash, assumption) simp
    note defs = authority_line_def values_of_simps named_text local_authority_spec origin_ok_spec Let_def
    consider "same_text nm ''Host''" | "same_text nm ''Origin''" "\<not> same_text nm ''Host''"
      | "\<not> same_text nm ''Host''" "\<not> same_text nm ''Origin''" by blast
    then show ?thesis
    proof cases
      case 1
      then show ?thesis using Some f c Cons.IH [of "h + 1" k]
        by (cases "loopback_text v"; cases "h = 0") (simp_all add: defs)
    next
      case 2
      then show ?thesis using Some f Cons.IH [of h "k + 1"]
        by (cases "origin_text v"; cases "k = 0") (simp_all add: defs)
    next
      case 3
      then show ?thesis using Some f Cons.IH [of h k] by (simp add: defs)
    qed
  qed
qed (simp add: values_of_simps)

text \<open>
  Property C36. A request passes \<open>validate_request_authority\<close> exactly when it has one Host field,
  naming localhost (in any case), 127.0.0.1 or [::1], with at most a port between 1 and 65535, and
  no Origin field or one that is such an authority after http:// or https://. So a page of
  another site cannot reach the server through a name it controls.
\<close>

theorem only_local_authorities:
  assumes "list_all line_ok ls"
  shows "validate_request_authority (lines_text ls @ rest) (length (lines_text ls) - 2) \<longleftrightarrow>
    (\<exists>v. values_of ''Host'' ls = [v] \<and> loopback_text v)
    \<and> (values_of ''Origin'' ls = [] \<or> (\<exists>v. values_of ''Origin'' ls = [v] \<and> origin_text v))"
proof -
  have one: "length xs = 1 \<longleftrightarrow> (\<exists>v. xs = [v])" for xs :: "bytes list" by (cases xs) auto
  show ?thesis
    unfolding validate_request_authority_def each_line_lines [OF assms] authority_run Let_def one
    by (auto split: if_splits)
qed

definition host_line :: bytes where
  "host_line = ascii ''Host: LocalHost:8080''"

theorem only_local_authorities_witness:
  "\<not> validate_request_authority (lines_text [host_line, host_line]) (length (lines_text [host_line, host_line]) - 2)"
proof -
  have "list_all line_ok [host_line, host_line]"
    by (simp add: host_line_def line_ok_def ascii_def)
  moreover have "length (values_of ''Host'' [host_line, host_line]) = 2"
    by (simp add: values_of_simps split_at_def host_line_def ascii_def same_text_def fold_case_def)
  ultimately show ?thesis using only_local_authorities [of "[host_line, host_line]" "[]"] by auto
qed

text \<open>
  \<open>parse_request_line\<close> accepts exactly the lines "METHOD path HTTP/1.1" and
  "METHOD path HTTP/1.0" with a method of 1 to 7 bytes and a path of 1 to 255 bytes, neither holding a blank, so
  what it copies fits the caller's two buffers; and it hands back the text after the line in any case.
\<close>

theorem request_line_shape:
  assumes "0 \<notin> set l" "crlf_at l = None"
  shows "parse_request_line (l @ 0x0D # 0x0A # r) = Some (mp, r') \<longleftrightarrow> r' = r \<and>
    (case mp of
       Some (m, p) \<Rightarrow> (\<exists>v \<in> {ascii ''HTTP/1.1'', ascii ''HTTP/1.0''}. l = m @ 0x20 # p @ 0x20 # v)
         \<and> 0x20 \<notin> set m \<and> 0x20 \<notin> set p \<and> 0 < length m \<and> length m < 8 \<and> 0 < length p \<and> length p < 256
     | None \<Rightarrow> \<nexists>m p v. v \<in> {ascii ''HTTP/1.1'', ascii ''HTTP/1.0''} \<and> l = m @ 0x20 # p @ 0x20 # v
         \<and> 0x20 \<notin> set m \<and> 0x20 \<notin> set p \<and> 0 < length m \<and> length m < 8 \<and> 0 < length p \<and> length p < 256)"
proof -
  let ?V = "{ascii ''HTTP/1.1'', ascii ''HTTP/1.0''}"
  let ?good = "\<lambda>m p. (\<exists>v \<in> ?V. l = m @ 0x20 # p @ 0x20 # v)
         \<and> 0x20 \<notin> set m \<and> 0x20 \<notin> set p \<and> 0 < length m \<and> length m < 8 \<and> 0 < length p \<and> length p < 256"
  let ?res = "case line_parts l of None \<Rightarrow> None
             | Some (m, p, v) \<Rightarrow>
               if length m < 8 \<and> length p < 256 \<and> (v = ascii ''HTTP/1.1'' \<or> v = ascii ''HTTP/1.0'')
               then Some (m, p) else None"
  have V: "v \<in> ?V \<Longrightarrow> v \<noteq> [] \<and> 0x20 \<notin> set v" for v by (auto simp: ascii_def)
  have parts: "line_parts l = Some (m, p, v) \<longleftrightarrow> l = m @ 0x20 # p @ 0x20 # v \<and> 0x20 \<notin> set m \<and> 0x20 \<notin> set p
      \<and> m \<noteq> [] \<and> p \<noteq> [] \<and> v \<noteq> [] \<and> 0x20 \<notin> set v" for m p v
  proof
    assume "line_parts l = Some (m, p, v)"
    then show "l = m @ 0x20 # p @ 0x20 # v \<and> 0x20 \<notin> set m \<and> 0x20 \<notin> set p
      \<and> m \<noteq> [] \<and> p \<noteq> [] \<and> v \<noteq> [] \<and> 0x20 \<notin> set v"
      by (auto simp: line_parts_def split_at_Some split: option.splits if_splits)
  next
    assume l: "l = m @ 0x20 # p @ 0x20 # v \<and> 0x20 \<notin> set m \<and> 0x20 \<notin> set p
      \<and> m \<noteq> [] \<and> p \<noteq> [] \<and> v \<noteq> [] \<and> 0x20 \<notin> set v"
    then have "split_at 0x20 l = Some (m, p @ 0x20 # v)" "split_at 0x20 (p @ 0x20 # v) = Some (p, v)"
      by (simp_all add: split_at_Some)
    with l show "line_parts l = Some (m, p, v)" by (simp add: line_parts_def)
  qed
  have "?res = Some (m, p) \<longleftrightarrow> ?good m p" for m p
  proof -
    have "?res = Some (m, p) \<longleftrightarrow> (\<exists>v \<in> ?V. line_parts l = Some (m, p, v)) \<and> length m < 8 \<and> length p < 256"
      by (auto split: option.splits)
    then show ?thesis using V unfolding parts by blast
  qed
  then have "?res = mp \<longleftrightarrow> (case mp of Some (m, p) \<Rightarrow> ?good m p | None \<Rightarrow> \<nexists>m p. ?good m p)"
    by (cases mp; cases ?res) auto
  moreover have "parse_request_line (l @ 0x0D # 0x0A # r) = Some (?res, r)"
    using crlf_at_line [OF assms, of r] by (simp add: parse_request_line_def)
  ultimately show ?thesis by (cases mp) auto
qed

end
