(* ===== verification/Http_Reply.thy ===== *)
theory Http_Reply
  imports Json_Dump
begin

section \<open>HTTP replies (http.c)\<close>

text \<open>
  The reply head, the status phrases, and the error bodies: what \<^verbatim>\<open>send_error_detail\<close>
  formats into its fixed buffers is always a complete JSON document that \<open>json_parse\<close> reads
  back.
\<close>

definition reason_phrase :: "int \<Rightarrow> string" where
  "reason_phrase code =
    (if code = 200 then ''OK''
     else if code = 400 then ''Bad Request''
     else if code = 403 then ''Forbidden''
     else if code = 404 then ''Not Found''
     else if code = 405 then ''Method Not Allowed''
     else if code = 408 then ''Request Timeout''
     else if code = 409 then ''Conflict''
     else if code = 500 then ''Internal Server Error''
     else if code = 503 then ''Service Unavailable''
     else if code = 507 then ''Insufficient Storage''
     else ''Internal Server Error'')"

definition crlf :: bytes where
  "crlf = [0x0D, 0x0A]"

text \<open>
  \<open>send_response\<close> formats the head into 256 bytes, and sends as many as \<^verbatim>\<open>snprintf\<close> reports.
\<close>

definition response_head :: "int \<Rightarrow> bytes \<Rightarrow> nat \<Rightarrow> bytes" where
  "response_head code ctype blen =
    ascii ''HTTP/1.1 '' @ dec_int code @ [0x20] @ ascii (reason_phrase code) @ crlf
      @ ascii ''Content-Type: '' @ ctype @ crlf
      @ ascii ''Content-Length: '' @ dec_nat blen @ crlf
      @ ascii ''Connection: close'' @ crlf @ crlf"

definition response_text :: "int \<Rightarrow> bytes \<Rightarrow> bytes \<Rightarrow> bytes" where
  "response_text code ctype body = response_head code ctype (length body) @ body"

text \<open>The body \<open>send_error_detail\<close> formats, with the escaping buffers of 384, 128 and 128 bytes.\<close>

definition error_type :: "int \<Rightarrow> string" where
  "error_type code = (if code \<ge> 500 then ''server_error'' else ''invalid_request_error'')"

definition error_field :: "bytes option \<Rightarrow> bytes" where
  "error_field f =
    (case f of None \<Rightarrow> ascii ''null'' | Some s \<Rightarrow> 0x22 # json_escape (cstr s) 128 @ [0x22])"

text \<open>The quoted names of the format string.\<close>

definition dq :: "string \<Rightarrow> bytes" where
  "dq s = 0x22 # ascii s @ [0x22]"

definition error_body :: "int \<Rightarrow> bytes \<Rightarrow> bytes option \<Rightarrow> bytes option \<Rightarrow> bytes" where
  "error_body code message param error_code =
    [0x7B] @ dq ''error'' @ [0x3A, 0x7B] @ dq ''message'' @ [0x3A, 0x22] @ json_escape (cstr message) 384 @ [0x22]
      @ [0x2C] @ dq ''type'' @ [0x3A] @ dq (error_type code)
      @ [0x2C] @ dq ''param'' @ [0x3A] @ error_field param
      @ [0x2C] @ dq ''code'' @ [0x3A] @ error_field error_code @ [0x7D, 0x7D]"

definition send_error_detail :: "int \<Rightarrow> bytes \<Rightarrow> bytes option \<Rightarrow> bytes option \<Rightarrow> bytes" where
  "send_error_detail code message param error_code =
    response_text code (ascii ''application/json'') (error_body code message param error_code)"

definition send_error :: "int \<Rightarrow> bytes \<Rightarrow> bytes" where
  "send_error code message = send_error_detail code message None None"

definition send_built :: "sbuf \<Rightarrow> bytes" where
  "send_built b =
    (if b_failed b then send_error 500 (ascii ''out of memory building response'')
     else response_text 200 (ascii ''application/json'') (b_s b))"

subsection \<open>Escaping into a bounded buffer\<close>

text \<open>Each item of \<open>json_escape\<close> is the escape of one character of the repaired text.\<close>

lemma escape_text_bad: "escape_text (0xEF # 0xBF # 0xBD # s) = 0xEF # 0xBF # 0xBD # escape_text s"
proof -
  have "utf8_char [0xEF, 0xBF, 0xBD]" by (simp add: cont_byte_def)
  then have "utf8_seq ([0xEF, 0xBF, 0xBD] @ s) = length ([0xEF, 0xBF, 0xBD] :: bytes)" by (rule utf8_seq_append)
  then have "utf8_seq (0xEF # 0xBF # 0xBD # s) = 3" by simp
  then show ?thesis by (subst escape_text.simps) (simp add: short_escape_def Let_def)
qed

lemma escape_item_char:
  assumes "s \<noteq> []" "m + 8 < cap" "escape_item cap m s = (b, k)" "0 \<notin> set s"
  shows "\<exists>w. utf8_char w \<and> 0 \<notin> set w \<and> repair s = w @ repair (drop k s)
    \<and> (\<forall>x. escape_text (w @ x) = b @ escape_text x) \<and> length b \<le> 6"
proof -
  have l: "utf8_seq s \<le> 4" using utf8_seq_def [of s] by (cases s) (auto simp: utf8_lead_def Let_def)
  have t: "min (utf8_seq s) (cap - 1 - m) = utf8_seq s" using l assms(2) by linarith
  obtain c u where s: "s = c # u" using assms(1) by (cases s) auto
  have c0: "c \<noteq> 0" using assms(4) s by auto
  note d = escape_item_def Let_def
  show ?thesis
  proof (cases "c < 0x80")
    case True
    have "repair s = [c] @ repair u" using repair_ascii [OF True] s by simp
    moreover have k: "k = 1" using assms(3) True s by (auto simp: d split: option.splits if_splits)
    moreover have "escape_text ([c] @ x) = b @ escape_text x" for x
    proof -
      have "escape_item cap m (c # x) = (b, 1)"
        using assms(3) True s k by (auto simp: d split: option.splits if_splits)
      from escape_text_item [OF _ assms(2) this] show ?thesis by simp
    qed
    moreover have "length b \<le> 6" using assms(3) True s by (auto simp: d u_escape_length split: option.splits if_splits)
    ultimately show ?thesis using True c0 s by (intro exI [of _ "[c]"]) simp
  next
    case False
    have se: "short_escape c = None" using False short_escape_ascii by (cases "short_escape c") auto
    have ge: "\<not> c < 0x20" using False by (auto simp: u8_nat)
    show ?thesis
    proof (cases "utf8_seq s = 0")
      case True
      then have bk: "b = [0xEF, 0xBF, 0xBD]" "k = 1" using assms(3) se ge False s by (auto simp: d)
      have "repair s = [0xEF, 0xBF, 0xBD] @ repair u" using s True by (subst repair.simps) simp
      with bk s show ?thesis
        by (intro exI [of _ "[0xEF, 0xBF, 0xBD]"]) (simp add: cont_byte_def escape_text_bad)
    next
      case nz: False
      then have bk: "b = take (utf8_seq s) s" "k = utf8_seq s" using assms(3) se ge False s t by (auto simp: d)
      have w: "utf8_char b" using nz utf8_seq_sound [of s] bk by simp
      have r: "repair s = b @ repair (drop k s)" using s nz bk by (subst repair.simps) simp
      have "escape_text (b @ x) = b @ escape_text x" for x
      proof -
        have "utf8_seq (b @ x) = length b" using w by (rule utf8_seq_append)
        moreover have "b \<noteq> []" "hd (b @ x) = c" using bk nz s by (cases "utf8_seq s"; simp)+
        ultimately show ?thesis using se ge False by (subst escape_text.simps) (simp add: Let_def)
      qed
      moreover have "0 \<notin> set b" using assms(4) bk by (auto dest: in_set_takeD)
      ultimately show ?thesis using w r l bk by (intro exI [of _ b]) auto
    qed
  qed
qed

lemma escape_loop_bounded:
  "0 \<notin> set s \<Longrightarrow> length out < cap \<Longrightarrow>
   \<exists>t u. escape_loop cap out s = out @ escape_text t \<and> utf8_text t \<and> 0 \<notin> set t \<and> repair s = t @ u
     \<and> length (escape_loop cap out s) < cap"
proof (induction cap out s rule: escape_loop.induct)
  case (1 cap out s)
  show ?case
  proof (cases "s \<noteq> [] \<and> length out + 8 < cap")
    case False
    then have "escape_loop cap out s = out" by (subst escape_loop.simps) auto
    with "1.prems" show ?thesis by (intro exI [of _ "[]"] exI [of _ "repair s"]) (simp add: utf8_text_Nil)
  next
    case True
    obtain b k where bk: "escape_item cap (length out) s = (b, k)" by (cases "escape_item cap (length out) s")
    from escape_item_char [OF conjunct1 [OF True] conjunct2 [OF True] bk "1.prems"(1)] obtain w where
      w: "utf8_char w" "0 \<notin> set w" "repair s = w @ repair (drop k s)" "\<And>x. escape_text (w @ x) = b @ escape_text x" "length b \<le> 6"
      by blast
    have "0 \<notin> set (drop k s)" using "1.prems"(1) by (meson in_set_dropD)
    moreover have "length (out @ b) < cap" using True w(5) by simp
    ultimately obtain t u where
      tu: "escape_loop cap (out @ b) (drop k s) = (out @ b) @ escape_text t" "utf8_text t" "0 \<notin> set t"
        "repair (drop k s) = t @ u" "length (escape_loop cap (out @ b) (drop k s)) < cap"
      using "1.IH" [OF True bk [symmetric]] by blast
    have e: "escape_loop cap out s = escape_loop cap (out @ b) (drop k s)"
      using True bk by (subst escape_loop.simps) simp
    have "escape_loop cap out s = out @ escape_text (w @ t)" using e tu(1) w(4) by simp
    moreover have "utf8_text (w @ t)" using w(1) tu(2) by (rule utf8_text_app)
    ultimately show ?thesis using e tu w(2,3) by (intro exI [of _ "w @ t"] exI [of _ u]) simp
  qed
qed

subsection \<open>The error body as a value\<close>

definition clipped :: "nat \<Rightarrow> bytes \<Rightarrow> bytes \<Rightarrow> bool" where
  "clipped cap s t \<longleftrightarrow> json_escape s cap = escape_text t \<and> clean_str t \<and> (\<exists>u. repair s = t @ u)
     \<and> length (json_escape s cap) < cap"

lemma json_escape_clipped: "0 < cap \<Longrightarrow> 0 \<notin> set s \<Longrightarrow> \<exists>t. clipped cap s t"
  using escape_loop_bounded [of s "[]" cap] by (auto simp: clipped_def json_escape_def clean_str_def)

lemma cstr_no_nul: "0 \<notin> set (cstr s)"
  by (auto simp: cstr_def dest: set_takeWhileD)

lemma cstr_id: "0 \<notin> set s \<Longrightarrow> cstr s = s"
  by (auto simp: cstr_def takeWhile_eq_all_conv)

lemma clipped_length: "clipped cap s t \<Longrightarrow> length (json_escape s cap) < cap"
  unfolding clipped_def by blast

lemma clipped_quoted: "clipped cap s t \<Longrightarrow> 0x22 # json_escape s cap @ [0x22] = quoted t"
  by (auto simp: clipped_def quoted_def clean_str_def cstr_id)

text \<open>What an optional field of the error becomes.\<close>

definition field_value :: "bytes option \<Rightarrow> jv \<Rightarrow> bool" where
  "field_value f v = (case f of None \<Rightarrow> v = J_NULL | Some s \<Rightarrow> \<exists>t. clipped 128 (cstr s) t \<and> v = J_STR t)"

lemma field_value_ex: "\<exists>v. field_value f v"
  using json_escape_clipped [of 128 "cstr s" for s] cstr_no_nul
  by (cases f) (fastforce simp: field_value_def)+

lemma error_field_text:
  assumes "field_value f v"
  shows "error_field f = dump_text fmt [0x2C] [0x3A] v" "printable strtod fmt v" "levels v = 1"
    "length (error_field f) \<le> 129"
proof -
  have "error_field f = dump_text fmt [0x2C] [0x3A] v \<and> printable strtod fmt v \<and> levels v = 1 \<and> length (error_field f) \<le> 129"
  proof (cases f)
    case None
    with assms show ?thesis by (simp add: field_value_def error_field_def)
  next
    case (Some s)
    then obtain t where t: "clipped 128 (cstr s) t" "v = J_STR t" using assms by (auto simp: field_value_def)
    have e: "error_field f = 0x22 # json_escape (cstr s) 128 @ [0x22]" using Some by (simp add: error_field_def)
    then have "length (error_field f) \<le> 129" using clipped_length [OF t(1)] by simp
    with e t clipped_quoted [OF t(1)] show ?thesis by (simp add: clipped_def)
  qed
  then show "error_field f = dump_text fmt [0x2C] [0x3A] v" "printable strtod fmt v" "levels v = 1"
    "length (error_field f) \<le> 129" by auto
qed

definition plain_name :: "string \<Rightarrow> bool" where
  "plain_name s \<longleftrightarrow> plain_bytes (ascii s)"

lemma dq_quoted:
  assumes "plain_name s"
  shows "dq s = quoted (ascii s)" "clean_str (ascii s)" "length (dq s) = length s + 2"
  using plain_text [OF assms [unfolded plain_name_def]] by (simp_all add: dq_def)

lemma error_names: "plain_name ''error''" "plain_name ''message''" "plain_name ''type''" "plain_name ''param''"
  "plain_name ''code''" "plain_name (error_type c)"
  by (simp_all add: plain_name_def plain_bytes_def error_type_def ascii_def short_escape_def)

lemmas error_quoted = error_names [THEN dq_quoted(1)]
lemmas error_clean = error_names [THEN dq_quoted(2)]
lemmas error_lengths = error_names [THEN dq_quoted(3)]

lemma ascii_inj: "ascii s = ascii t \<longleftrightarrow> map (of_char :: char \<Rightarrow> u8) s = map of_char t"
  by (simp add: ascii_def)

definition error_value :: "int \<Rightarrow> bytes \<Rightarrow> jv \<Rightarrow> jv \<Rightarrow> jv" where
  "error_value code t p c = J_OBJ [(ascii ''error'', J_OBJ [(ascii ''message'', J_STR t),
     (ascii ''type'', J_STR (ascii (error_type code))), (ascii ''param'', p), (ascii ''code'', c)])]"

lemma error_body_text:
  assumes "clipped 384 (cstr message) t" "field_value param p" "field_value error_code c"
  shows "error_body code message param error_code = dump_text fmt [0x2C] [0x3A] (error_value code t p c)"
    "printable strtod fmt (error_value code t p c)" "levels (error_value code t p c) \<le> json_max_depth"
    "length (error_body code message param error_code) < 768"
proof -
  note p = error_field_text [OF assms(2)] and c = error_field_text [OF assms(3)]
  have m: "0x22 # json_escape (cstr message) 384 @ [0x22] @ r = quoted t @ r" for r
    using clipped_quoted [OF assms(1)] by (metis append_Cons append_assoc)
  show "error_body code message param error_code = dump_text fmt [0x2C] [0x3A] (error_value code t p c)"
    unfolding error_body_def error_value_def error_quoted p(1) [of fmt] c(1) [of fmt]
    by (simp add: m [simplified])
  have "distinct [ascii ''message'', ascii ''type'', ascii ''param'', ascii ''code'']"
    by (simp add: ascii_def)
  then show "printable strtod fmt (error_value code t p c)"
    using p(2) c(2) error_clean assms(1) by (simp add: error_value_def clipped_def)
  show "levels (error_value code t p c) \<le> json_max_depth"
    using p(3) c(3) by (simp add: error_value_def json_max_depth_def)
  have "length (error_type code) \<le> 21" by (simp add: error_type_def)
  then show "length (error_body code message param error_code) < 768"
    using clipped_length [OF assms(1)] p(4) c(4) by (simp add: error_body_def error_lengths)
qed

text \<open>
  Property C37. Whatever bytes the message, parameter and code of an error hold, the body
  \<open>send_error_detail\<close> builds fits its buffer of 768 bytes and is a JSON object that
  \<open>json_parse\<close> reads: the type follows the status, the message is a prefix of the given text with
  ill-formed bytes replaced by U+FFFD, and absent fields are null.
\<close>

theorem error_body_is_json:
  "length (error_body code message param error_code) < 768
    \<and> (\<exists>t u p c. repair (cstr message) = t @ u \<and> field_value param p \<and> field_value error_code c
        \<and> json_parse strtod (error_body code message param error_code) = Some (error_value code t p c))"
proof -
  obtain t where t: "clipped 384 (cstr message) t" using json_escape_clipped [of 384] cstr_no_nul by auto
  obtain p c where p: "field_value param p" "field_value error_code c" using field_value_ex by blast
  note e = error_body_text [OF t p]
  have "json_parse strtod (error_body code message param error_code) = Some (error_value code t p c)"
    unfolding e(1) [of code "\<lambda>_. []"] by (rule reads_text [OF e(2,3)])
  then show ?thesis using t p e(4) unfolding clipped_def by blast
qed

subsection \<open>The head\<close>

text \<open>
  The head \<open>send_response\<close> formats never outgrows its 256 bytes, for any three-digit
  status, body length and content type of up to 144 bytes: the length \<^verbatim>\<open>snprintf\<close> reports, which
  is what is sent, is the length of what is in the buffer.
\<close>

lemma response_head_fits:
  assumes "0 \<le> code" "code < 1000" "blen < 2 ^ 64" "length ctype \<le> 144"
  shows "length (response_head code ctype blen) < 256"
proof -
  have "length (dec_int code) \<le> 3" using dec_nat_length [of "nat code" 2] assms(1,2) by (simp add: dec_int_def)
  moreover have "length (dec_nat blen) \<le> 20" using dec_nat_length [of blen 19] assms(3) by simp
  moreover have "length (reason_phrase code) \<le> 21" by (simp add: reason_phrase_def)
  ultimately show ?thesis using assms(4) by (simp add: response_head_def crlf_def)
qed

end
