(* ===== verification/Http_Stream.thy ===== *)
theory Http_Stream
  imports Prelude
begin

section \<open>Writing to a client that may not read (http.c)\<close>

text \<open>
  \<^verbatim>\<open>send_all\<close> and the bounded queue \<^verbatim>\<open>stream_out\<close>. The socket is a parameter: the bytes it
  has taken, and the answers it will give, one for each call of \<^verbatim>\<open>sock_send\<close> or
  \<^verbatim>\<open>sock_send_nb\<close>: a negative number for a connection that is gone, 0 when it would block (also
  when the script is over), else how many bytes it takes at most.
\<close>

record sock =
  sk_sent :: bytes
  sk_answers :: "int list"

definition sk_send :: "bytes \<Rightarrow> sock \<Rightarrow> int \<times> sock" where
  "sk_send b k =
    (case sk_answers k of [] \<Rightarrow> (0, k)
     | a # as \<Rightarrow>
       if a < 0 then (- 1, k\<lparr>sk_answers := as\<rparr>)
       else (int (min (nat a) (length b)), k\<lparr>sk_sent := sk_sent k @ take (nat a) b, sk_answers := as\<rparr>))"

text \<open>\<open>send_all\<close>: the loop ends because every round sends something.\<close>

function send_all :: "bytes \<Rightarrow> sock \<Rightarrow> bool \<times> sock" where
  "send_all s k =
    (if s = [] then (True, k)
     else (case sk_send s k of (w, k') \<Rightarrow>
       if w \<le> 0 then (False, k') else send_all (drop (nat w) s) k'))"
  by pat_completeness auto
termination by (relation "measure (\<lambda>(s, k). length s)") auto

declare send_all.simps [simp del]

subsection \<open>The queue\<close>

text \<open>
  \<open>so_buf\<close> is the allocated block, so its length is \<^verbatim>\<open>alloc\<close>; bytes that \<^verbatim>\<open>realloc\<close> adds are
  written as 0.
\<close>

record stream_out =
  so_buf :: bytes
  so_head :: nat
  so_tail :: nat
  so_cap :: nat
  so_blocked :: bool

datatype so_result = STREAM_OUT_OK | STREAM_OUT_GONE | STREAM_OUT_FULL

definition stream_out_cap :: nat where
  "stream_out_cap = 4 * 2 ^ 20"

definition stream_out_init :: "nat \<Rightarrow> stream_out" where
  "stream_out_init cap = \<lparr>so_buf = [], so_head = 0, so_tail = 0, so_cap = cap, so_blocked = False\<rparr>"

definition stream_out_pending :: "stream_out \<Rightarrow> nat" where
  "stream_out_pending o' = so_tail o' - so_head o'"

definition stream_out_block_for_test :: "stream_out \<Rightarrow> bool \<Rightarrow> stream_out" where
  "stream_out_block_for_test o' b = o'\<lparr>so_blocked := b\<rparr>"

definition stream_out_free :: "stream_out \<Rightarrow> stream_out" where
  "stream_out_free o' = o'\<lparr>so_buf := [], so_head := 0, so_tail := 0\<rparr>"

text \<open>The two sending loops of \<open>stream_out_write\<close>; the flag says the connection is gone.\<close>

definition queued :: "stream_out \<Rightarrow> bytes" where
  "queued o' = take (so_tail o' - so_head o') (drop (so_head o') (so_buf o'))"

lemma sk_send_le: "sk_send b k = (w, k') \<Longrightarrow> w \<le> int (length b)"
  by (auto simp: sk_send_def split: list.splits if_splits)

function flush_queue :: "stream_out \<Rightarrow> sock \<Rightarrow> bool \<times> stream_out \<times> sock" where
  "flush_queue o' k =
    (if \<not> so_blocked o' \<and> so_tail o' > so_head o' then
       (case sk_send (queued o') k of (w, k') \<Rightarrow>
          if w < 0 then (True, o', k')
          else if w = 0 then (False, o', k')
          else flush_queue (o'\<lparr>so_head := so_head o' + nat w\<rparr>) k')
     else (False, o', k))"
  by pat_completeness auto
termination
  by (relation "measure (\<lambda>(o', k). so_tail o' - so_head o')") auto

function send_direct :: "bytes \<Rightarrow> sock \<Rightarrow> bool \<times> bytes \<times> sock" where
  "send_direct s k =
    (if s \<noteq> [] then
       (case sk_send s k of (w, k') \<Rightarrow>
          if w < 0 then (True, s, k')
          else if w = 0 then (False, s, k')
          else send_direct (drop (nat w) s) k')
     else (False, s, k))"
  by pat_completeness auto
termination by (relation "measure (\<lambda>(s, k). length s)") auto

declare flush_queue.simps [simp del] send_direct.simps [simp del]

text \<open>Putting the rest on the queue: compaction, growth (which \<open>alloc\<close> may refuse), the copy.\<close>

definition so_compact :: "nat \<Rightarrow> stream_out \<Rightarrow> stream_out" where
  "so_compact n o' =
    (if so_tail o' + n > length (so_buf o') \<and> so_head o' > 0 then
       (let q = so_tail o' - so_head o'
        in o'\<lparr>so_buf := take q (drop (so_head o') (so_buf o')) @ drop q (so_buf o'), so_head := 0, so_tail := q\<rparr>)
     else o')"

definition so_want :: "nat \<Rightarrow> nat \<Rightarrow> stream_out \<Rightarrow> nat" where
  "so_want q n o' =
    (let alloc = length (so_buf o');
         want = (if alloc \<noteq> 0 then alloc * 2 else 64 * 1024);
         want = (if want < q + n then q + n else want)
     in if want > so_cap o' then so_cap o' else want)"

definition so_grow :: "bool \<Rightarrow> nat \<Rightarrow> nat \<Rightarrow> stream_out \<Rightarrow> stream_out option" where
  "so_grow alloc q n o' =
    (if so_tail o' + n > length (so_buf o') then
       (if alloc then Some (o'\<lparr>so_buf := so_buf o' @ replicate (so_want q n o' - length (so_buf o')) 0\<rparr>) else None)
     else Some o')"

definition so_enqueue :: "bool \<Rightarrow> bytes \<Rightarrow> stream_out \<Rightarrow> so_result \<times> stream_out" where
  "so_enqueue alloc s o' =
    (let q = so_tail o' - so_head o' in
     if length s > so_cap o' - q then (STREAM_OUT_FULL, o')
     else
       (let o1 = so_compact (length s) o' in
        case so_grow alloc q (length s) o1 of None \<Rightarrow> (STREAM_OUT_FULL, o1)
        | Some o2 \<Rightarrow>
          (STREAM_OUT_OK,
           o2\<lparr>so_buf := take (so_tail o2) (so_buf o2) @ s @ drop (so_tail o2 + length s) (so_buf o2),
              so_tail := so_tail o2 + length s\<rparr>)))"

definition so_rewind :: "stream_out \<Rightarrow> stream_out" where
  "so_rewind o' = (if so_head o' = so_tail o' then o'\<lparr>so_head := 0, so_tail := 0\<rparr> else o')"

definition stream_out_write :: "bool \<Rightarrow> stream_out \<Rightarrow> sock \<Rightarrow> bytes \<Rightarrow> so_result \<times> stream_out \<times> sock" where
  "stream_out_write alloc o' k s =
    (case flush_queue o' k of (gone, o1, k1) \<Rightarrow>
     if gone then (STREAM_OUT_GONE, o1, k1)
     else
       (let o2 = so_rewind o1 in
        case (if \<not> so_blocked o2 \<and> so_tail o2 = 0 then send_direct s k1 else (False, s, k1)) of (gone2, s2, k2) \<Rightarrow>
        if gone2 then (STREAM_OUT_GONE, o2, k2)
        else if s2 = [] then (STREAM_OUT_OK, o2, k2)
        else (case so_enqueue alloc s2 o2 of (r, o3) \<Rightarrow> (r, o3, k2))))"

definition stream_out_drain :: "stream_out \<Rightarrow> sock \<Rightarrow> bool \<times> stream_out \<times> sock" where
  "stream_out_drain o' k =
    (let n = so_tail o' - so_head o';
         r = (if n = 0 then (True, k) else send_all (queued o') k)
     in (fst r, o'\<lparr>so_head := 0, so_tail := 0\<rparr>, snd r))"

subsection \<open>Nothing is lost or reordered\<close>

definition so_ok :: "stream_out \<Rightarrow> bool" where
  "so_ok o' \<longleftrightarrow> so_head o' \<le> so_tail o' \<and> so_tail o' \<le> length (so_buf o') \<and> length (so_buf o') \<le> so_cap o'"

lemma length_queued: "so_ok o' \<Longrightarrow> length (queued o') = so_tail o' - so_head o'"
  unfolding so_ok_def queued_def length_take length_drop by linarith

lemma queued_append:
  assumes "h \<le> t" "t \<le> length b"
  shows "take (t + length s - h) (drop h (take t b @ s @ r)) = take (t - h) (drop h b) @ s"
proof -
  have "drop h (take t b @ s @ r) = (take (t - h) (drop h b) @ s) @ r" using assms by (simp add: drop_take)
  moreover have "length (take (t - h) (drop h b) @ s) = t + length s - h" using assms by simp
  ultimately show ?thesis by (metis append_eq_conv_conj)
qed

lemma sk_send_spec:
  assumes "sk_send b k = (w, k')"
  shows "0 < w \<Longrightarrow> nat w \<le> length b \<and> sk_sent k' = sk_sent k @ take (nat w) b"
    "w \<le> 0 \<Longrightarrow> sk_sent k' = sk_sent k"
  using assms by (auto simp: sk_send_def min_def split: list.splits if_splits)

lemma send_all_spec:
  "send_all s k = (ok, k') \<Longrightarrow> \<exists>t u. s = t @ u \<and> sk_sent k' = sk_sent k @ t \<and> (ok \<longrightarrow> u = [])"
proof (induction s k rule: send_all.induct)
  case (1 s k)
  show ?case
  proof (cases "s = []")
    case False
    obtain w k1 where w: "sk_send s k = (w, k1)" by (cases "sk_send s k")
    show ?thesis
    proof (cases "w \<le> 0")
      case True
      with 1(2) False w sk_send_spec(2) [OF w] show ?thesis by (auto simp: send_all.simps [of s])
    next
      case pos: False
      then have "send_all (drop (nat w) s) k1 = (ok, k')" using 1(2) False w by (simp add: send_all.simps [of s])
      from "1.IH" [OF False w [symmetric] pos this] obtain t u where
        tu: "drop (nat w) s = t @ u" "sk_sent k' = sk_sent k1 @ t" "ok \<longrightarrow> u = []" by blast
      have "s = (take (nat w) s @ t) @ u" using tu(1) by (metis append_assoc append_take_drop_id)
      moreover have "sk_sent k' = sk_sent k @ (take (nat w) s @ t)" using sk_send_spec(1) [OF w] pos tu(2) by simp
      ultimately show ?thesis using tu(3) by blast
    qed
  qed (use 1 in \<open>auto simp: send_all.simps\<close>)
qed

lemma send_direct_spec:
  "send_direct s k = (g, s', k') \<Longrightarrow> \<exists>t. s = t @ s' \<and> sk_sent k' = sk_sent k @ t"
proof (induction s k rule: send_direct.induct)
  case (1 s k)
  show ?case
  proof (cases "s = []")
    case False
    obtain w k1 where w: "sk_send s k = (w, k1)" by (cases "sk_send s k")
    show ?thesis
    proof (cases "w \<le> 0")
      case True
      with 1(2) False w sk_send_spec(2) [OF w] show ?thesis
        by (auto simp: send_direct.simps [of s] split: if_splits)
    next
      case pos: False
      then have "send_direct (drop (nat w) s) k1 = (g, s', k')" using 1(2) False w by (simp add: send_direct.simps [of s])
      from "1.IH" [OF False w [symmetric] _ _ this] pos obtain t where
        t: "drop (nat w) s = t @ s'" "sk_sent k' = sk_sent k1 @ t" by auto
      have "s = (take (nat w) s @ t) @ s'" using t(1) by (metis append_assoc append_take_drop_id)
      moreover have "sk_sent k' = sk_sent k @ (take (nat w) s @ t)" using sk_send_spec(1) [OF w] pos t(2) by simp
      ultimately show ?thesis by blast
    qed
  qed (use 1 in \<open>auto simp: send_direct.simps\<close>)
qed

lemma queued_advance:
  assumes "so_ok o'" "n \<le> length (queued o')"
  shows "so_ok (o'\<lparr>so_head := so_head o' + n\<rparr>)" "queued (o'\<lparr>so_head := so_head o' + n\<rparr>) = drop n (queued o')"
  using assms length_queued [OF assms(1)] by (auto simp: so_ok_def queued_def drop_take add.commute)

lemma flush_spec:
  "so_ok o' \<Longrightarrow> flush_queue o' k = (g, o1, k1) \<Longrightarrow>
   so_ok o1 \<and> sk_sent k1 @ queued o1 = sk_sent k @ queued o' \<and> so_cap o1 = so_cap o' \<and> so_blocked o1 = so_blocked o'
   \<and> so_buf o1 = so_buf o'"
proof (induction o' k rule: flush_queue.induct)
  case (1 o' k)
  show ?case
  proof (cases "\<not> so_blocked o' \<and> so_tail o' > so_head o'")
    case True
    obtain w k' where w: "sk_send (queued o') k = (w, k')" by (cases "sk_send (queued o') k")
    show ?thesis
    proof (cases "w \<le> 0")
      case neg: True
      with 1(2,3) True w sk_send_spec(2) [OF w] show ?thesis
        by (auto simp: flush_queue.simps [of o'] split: if_splits)
    next
      case pos: False
      let ?o = "o'\<lparr>so_head := so_head o' + nat w\<rparr>"
      have n: "nat w \<le> length (queued o')" "sk_sent k' = sk_sent k @ take (nat w) (queued o')"
        using sk_send_spec(1) [OF w] pos by auto
      have "flush_queue ?o k' = (g, o1, k1)" using 1(3) True w pos by (simp add: flush_queue.simps [of o'])
      from "1.IH" [OF True w [symmetric] _ _ queued_advance(1) [OF 1(2) n(1)] this] pos
      show ?thesis using queued_advance(2) [OF 1(2) n(1)] n(2) by simp
    qed
  qed (use 1 in \<open>auto simp: flush_queue.simps [of o']\<close>)
qed

lemma rewind_spec: "so_ok o' \<Longrightarrow> so_ok (so_rewind o') \<and> queued (so_rewind o') = queued o' \<and> so_cap (so_rewind o') = so_cap o'"
  by (auto simp: so_rewind_def so_ok_def queued_def)

lemma rewind_tail: "so_ok o' \<Longrightarrow> so_tail (so_rewind o') = 0 \<Longrightarrow> queued o' = []"
  by (auto simp: so_rewind_def so_ok_def queued_def split: if_splits)

lemma compact_spec:
  assumes "so_ok o'"
  shows "so_ok (so_compact n o') \<and> queued (so_compact n o') = queued o' \<and> so_cap (so_compact n o') = so_cap o'
    \<and> (so_tail (so_compact n o') + n \<le> length (so_buf (so_compact n o')) \<or> so_head (so_compact n o') = 0)"
  using assms by (auto simp: so_compact_def so_ok_def queued_def Let_def)

lemma enqueue_spec:
  assumes "so_ok o'" "so_enqueue alloc s o' = (r, o1)"
  shows "so_ok o1 \<and> (r = STREAM_OUT_OK \<and> queued o1 = queued o' @ s
    \<or> r = STREAM_OUT_FULL \<and> queued o1 = queued o' \<and> (\<not> alloc \<or> length s + length (queued o') > so_cap o'))"
proof (cases "length s > so_cap o' - (so_tail o' - so_head o')")
  case True
  with assms length_queued [OF assms(1)] show ?thesis by (auto simp: so_enqueue_def)
next
  case False
  let ?c = "so_compact (length s) o'"
  let ?q = "so_tail o' - so_head o'"
  note c = compact_spec [OF assms(1), of "length s"]
  have q: "so_tail ?c - so_head ?c = ?q" using c length_queued assms(1) by metis
  have cap: "?q + length s \<le> so_cap o'" using False assms(1) by (auto simp: so_ok_def)
  show ?thesis
  proof (cases "so_grow alloc ?q (length s) ?c")
    case None
    with assms False c show ?thesis by (auto simp: so_enqueue_def so_grow_def Let_def split: if_splits)
  next
    case (Some o2)
    have g: "so_tail o2 = so_tail ?c" "so_head o2 = so_head ?c" "so_cap o2 = so_cap ?c"
      "take (so_tail ?c) (so_buf o2) = take (so_tail ?c) (so_buf ?c)"
      "so_tail ?c + length s \<le> length (so_buf o2)" "length (so_buf o2) \<le> so_cap ?c"
      using Some c cap q by (auto simp: so_grow_def so_ok_def so_want_def Let_def split: if_splits)
    have o1: "o1 = o2\<lparr>so_buf := take (so_tail o2) (so_buf o2) @ s @ drop (so_tail o2 + length s) (so_buf o2),
        so_tail := so_tail o2 + length s\<rparr>" "r = STREAM_OUT_OK"
      using assms(2) False Some by (simp_all add: so_enqueue_def Let_def)
    have t: "take (so_tail ?c) (so_buf o2) @ s @ drop (so_tail ?c + length s) (so_buf o2) = take (so_tail ?c) (so_buf ?c) @ s @ drop (so_tail ?c + length s) (so_buf o2)"
      using g(4) by simp
    have ok: "so_ok o1" using o1 g c by (auto simp: so_ok_def)
    have "so_head ?c \<le> so_tail ?c" "so_tail ?c \<le> length (so_buf ?c)" using c by (auto simp: so_ok_def)
    from queued_append [OF this, of s "drop (so_tail ?c + length s) (so_buf o2)"]
    moreover have "so_tail o1 = so_tail ?c + length s" "so_head o1 = so_head ?c" using o1(1) g(1,2) by simp_all
    moreover have "so_buf o1 = take (so_tail ?c) (so_buf o2) @ s @ drop (so_tail ?c + length s) (so_buf o2)"
      using o1(1) g(1) by simp
    ultimately have "queued o1 = queued ?c @ s" unfolding queued_def g(4) by (simp only:)
    with ok o1(2) c show ?thesis by simp
  qed
qed

lemma enqueue_cap:
  assumes "so_enqueue alloc s o' = (r, o1)"
  shows "so_cap o1 = so_cap o'"
proof -
  have c: "so_cap (so_compact n o') = so_cap o'" for n by (simp add: so_compact_def Let_def)
  have g: "so_grow alloc q n x = Some y \<Longrightarrow> so_cap y = so_cap x" for q n x y
    by (auto simp: so_grow_def split: if_splits)
  show ?thesis
    using assms c g unfolding so_enqueue_def Let_def
    by (cases "so_grow alloc (so_tail o' - so_head o') (length s) (so_compact (length s) o')") (auto split: if_splits)
qed

lemma direct_part:
  assumes "(if \<not> so_blocked o' \<and> so_tail o' = 0 then send_direct s k else (False, s, k)) = (g, s2, k2)"
    "so_tail o' = 0 \<Longrightarrow> queued o' = []"
  shows "\<exists>t. s = t @ s2 \<and> sk_sent k2 @ queued o' = sk_sent k @ queued o' @ t"
proof (cases "\<not> so_blocked o' \<and> so_tail o' = 0")
  case True
  then have "send_direct s k = (g, s2, k2)" using assms(1) by simp
  from send_direct_spec [OF this] True assms(2) show ?thesis by auto
next
  case False
  then show ?thesis using assms(1) by (intro exI [of _ "[]"]) (auto split: if_splits)
qed

text \<open>
  Property C12. Whatever the socket does, \<open>stream_out_write\<close> keeps its block and indices consistent
  (the queue never exceeds its cap), and what the client has been sent followed by what waits is
  what it was before followed by a prefix of the new bytes: all of them when the write succeeds.
  The write is refused as full only when the allocation fails or the rest does not fit the cap.
\<close>

theorem stream_out_in_order:
  assumes "so_ok o'" "stream_out_write alloc o' k s = (r, o1, k1)"
  shows "so_ok o1 \<and> (\<exists>t u. s = t @ u \<and> sk_sent k1 @ queued o1 = sk_sent k @ queued o' @ t
    \<and> (r = STREAM_OUT_OK \<longrightarrow> u = [])
    \<and> (r = STREAM_OUT_FULL \<longrightarrow> \<not> alloc \<or> length u + length (queued o1) > so_cap o1))"
proof -
  obtain g o2 k2 where f: "flush_queue o' k = (g, o2, k2)" by (metis prod_cases3)
  note fs = flush_spec [OF assms(1) f]
  show ?thesis
  proof (cases g)
    case True
    with assms(2) f fs show ?thesis by (auto simp: stream_out_write_def intro!: exI [of _ "[]"])
  next
    case False
    let ?o = "so_rewind o2"
    note rw = rewind_spec [OF conjunct1 [OF fs]]
    obtain g2 s2 k3 where d: "(if \<not> so_blocked ?o \<and> so_tail ?o = 0 then send_direct s k2 else (False, s, k2)) = (g2, s2, k3)"
      by (metis prod_cases3)
    have "queued ?o = []" if "so_tail ?o = 0" using rewind_tail [OF conjunct1 [OF fs] that] rw by simp
    from direct_part [OF d this] obtain t where t: "s = t @ s2" "sk_sent k3 @ queued ?o = sk_sent k @ queued o' @ t"
      using fs rw by auto
    show ?thesis
    proof (cases "g2 \<or> s2 = []")
      case True
      then have "o1 = ?o" "k1 = k3" "r = STREAM_OUT_GONE \<or> r = STREAM_OUT_OK \<and> s2 = []"
        using assms(2) False True by (simp_all add: stream_out_write_def f Let_def d split: if_splits)
      with t rw show ?thesis by auto
    next
      case nd: False
      obtain r' o3 where q: "so_enqueue alloc s2 ?o = (r', o3)" by (cases "so_enqueue alloc s2 ?o")
      have e: "r = r'" "o1 = o3" "k1 = k3"
        using assms(2) False nd by (simp_all add: stream_out_write_def f Let_def d q)
      note qs = enqueue_spec [OF conjunct1 [OF rw] q]
      have cap: "so_cap o3 = so_cap ?o"
        using enqueue_cap [OF q] .
      have ok: "so_ok o3" using qs by blast
      show ?thesis unfolding e
      proof (cases "r' = STREAM_OUT_OK")
        case True
        with ok qs t show "so_ok o3 \<and> (\<exists>t u. s = t @ u \<and> sk_sent k3 @ queued o3 = sk_sent k @ queued o' @ t
          \<and> (r' = STREAM_OUT_OK \<longrightarrow> u = []) \<and> (r' = STREAM_OUT_FULL \<longrightarrow> \<not> alloc \<or> length u + length (queued o3) > so_cap o3))"
          by (intro conjI exI [of _ s] exI [of _ "[]"]) auto
      next
        case False
        with ok qs t cap show "so_ok o3 \<and> (\<exists>t u. s = t @ u \<and> sk_sent k3 @ queued o3 = sk_sent k @ queued o' @ t
          \<and> (r' = STREAM_OUT_OK \<longrightarrow> u = []) \<and> (r' = STREAM_OUT_FULL \<longrightarrow> \<not> alloc \<or> length u + length (queued o3) > so_cap o3))"
          by (intro conjI exI [of _ t] exI [of _ s2]) auto
      qed
    qed
  qed
qed

text \<open>A socket that takes three bytes and then blocks: the rest waits in the queue.\<close>

definition slow_sock :: sock where
  "slow_sock = \<lparr>sk_sent = [], sk_answers = [3, 0]\<rparr>"

theorem stream_out_in_order_witness:
  "\<exists>o1 k1. stream_out_write True (stream_out_init 100) slow_sock [1, 2, 3, 4, 5] = (STREAM_OUT_OK, o1, k1)
    \<and> sk_sent k1 @ queued o1 = [1, 2, 3, 4, 5]"
proof -
  have ok: "so_ok (stream_out_init 100)" by (simp add: so_ok_def stream_out_init_def)
  have q: "queued (stream_out_init 100) = []" by (simp add: queued_def stream_out_init_def)
  obtain r o1 k1 where w: "stream_out_write True (stream_out_init 100) slow_sock [1, 2, 3, 4, 5] = (r, o1, k1)"
    by (metis prod_cases3)
  have "r = STREAM_OUT_OK"
    using w by (simp add: stream_out_write_def flush_queue.simps stream_out_init_def so_rewind_def slow_sock_def
        send_direct.simps sk_send_def so_enqueue_def so_compact_def so_grow_def Let_def)
  with stream_out_in_order [OF ok w] w q show ?thesis by (auto simp: slow_sock_def)
qed

text \<open>
  A refused write may already have sent a part of its bytes: the direct sends come before the check
  of the cap.
\<close>

lemma refused_after_partial_send:
  "\<exists>o1 k1. stream_out_write True (stream_out_init 4) slow_sock [1, 2, 3, 4, 5, 6, 7, 8] = (STREAM_OUT_FULL, o1, k1)
    \<and> sk_sent k1 = [1, 2, 3]"
  by (simp add: stream_out_write_def flush_queue.simps stream_out_init_def so_rewind_def slow_sock_def
      send_direct.simps sk_send_def so_enqueue_def so_compact_def so_grow_def Let_def)

end
