(* ===== verification/Scheduler.thy ===== *)
theory Scheduler
  imports Prelude Complex_Main
begin

section \<open>Continuous batching (scheduler.c)\<close>

text \<open>
  Slot threads hand one forward at a time to the decode worker, which cuts a microbatch of every
  sequence that waits, runs it, copies each row of logits to its slot and publishes them. Each
  stretch of code under \<^verbatim>\<open>SCH.mu\<close> is one atomic step here, and so is the run of the batch; a
  schedule is a list of steps, so every interleaving is one. The waits on condition variables are
  the steps' guards; a timed wait may end at any time.

  \<^verbatim>\<open>model_batch_decode\<close> is the parameter \<open>decode\<close>: the rows for a batch, or \<open>None\<close> when it
  fails. A row holds the bit patterns of its floats.
\<close>

type_synonym row = "u32 list"
type_synonym batch = "(nat \<times> int \<times> int) list"
type_synonym decode = "batch \<Rightarrow> row list option"

datatype seq_state = SEQ_OFF | SEQ_WAIT | SEQ_INFLIGHT | SEQ_READY

record seq_t =
  sq_state :: seq_state
  sq_tok :: int
  sq_pos :: int
  sq_logits :: row
  sq_ok :: bool

text \<open>Where the decode worker is.\<close>

datatype worker = Top | Gathering | Running batch | Publishing bool batch | Ended

text \<open>
  \<open>sc_fwd\<close> holds, for each slot, the token and position of the \<^verbatim>\<open>sched_forward\<close> it is in, and \<open>sc_got\<close> the
  results those calls returned.
\<close>

record sched =
  sc_seq :: "seq_t list"
  n_wait :: int
  n_active :: int
  sc_stop :: bool
  sc_worker :: worker
  sc_steps :: nat
  sc_batched :: nat
  sc_fwd :: "(int \<times> int) option list"
  sc_got :: "(nat \<times> (int \<times> int) \<times> row option) list"

definition seq_off :: seq_t where
  "seq_off = \<lparr>sq_state = SEQ_OFF, sq_tok = 0, sq_pos = 0, sq_logits = [], sq_ok = False\<rparr>"

definition sched_init :: "nat \<Rightarrow> sched" where
  "sched_init n = \<lparr>sc_seq = replicate n seq_off, n_wait = 0, n_active = 0, sc_stop = False, sc_worker = Top,
     sc_steps = 0, sc_batched = 0, sc_fwd = replicate n None, sc_got = []\<rparr>"

subsection \<open>The slot threads: \<open>sched_forward\<close>\<close>

text \<open>Queueing the token.\<close>

definition sched_submit :: "nat \<Rightarrow> int \<Rightarrow> int \<Rightarrow> sched \<Rightarrow> sched" where
  "sched_submit i tok pos s = s\<lparr>sc_seq := (sc_seq s)[i := (sc_seq s ! i)\<lparr>sq_tok := tok, sq_pos := pos, sq_state := SEQ_WAIT\<rparr>],
     n_wait := n_wait s + 1, sc_fwd := (sc_fwd s)[i := Some (tok, pos)]\<rparr>"

text \<open>The return of a call: \<open>got\<close> is the row, or \<open>None\<close> for \<^verbatim>\<open>NULL\<close>.\<close>

definition sched_return :: "nat \<Rightarrow> row option \<Rightarrow> sched \<Rightarrow> sched" where
  "sched_return i got s =
    (case sc_fwd s ! i of None \<Rightarrow> s
     | Some tp \<Rightarrow> s\<lparr>sc_fwd := (sc_fwd s)[i := None], sc_got := (i, tp, got) # sc_got s\<rparr>)"

text \<open>The deadline, while still only queued.\<close>

definition sched_expire :: "nat \<Rightarrow> sched \<Rightarrow> sched option" where
  "sched_expire i s =
    (if sc_fwd s ! i \<noteq> None \<and> sq_state (sc_seq s ! i) = SEQ_WAIT \<and> \<not> sc_stop s then
       Some (sched_return i None (s\<lparr>sc_seq := (sc_seq s)[i := (sc_seq s ! i)\<lparr>sq_state := SEQ_OFF\<rparr>], n_wait := n_wait s - 1\<rparr>))
     else None)"

text \<open>The end of the wait.\<close>

definition sched_collect :: "nat \<Rightarrow> sched \<Rightarrow> sched option" where
  "sched_collect i s =
    (let q = sc_seq s ! i in
     if sc_fwd s ! i \<noteq> None \<and> (sq_state q = SEQ_READY \<or> sc_stop s) then
       (let ok = (sq_state q = SEQ_READY \<and> sq_ok q);
            nw = (if sq_state q = SEQ_WAIT then n_wait s - 1 else n_wait s)
        in Some (sched_return i (if ok then Some (sq_logits q) else None)
             (s\<lparr>sc_seq := (sc_seq s)[i := q\<lparr>sq_state := SEQ_OFF\<rparr>], n_wait := nw\<rparr>)))
     else None)"

subsection \<open>The decode worker\<close>

text \<open>
  Cutting the batch: every waiting sequence becomes in flight, in slot order; what the three scratch
  arrays hold is the list of slot, token and position.
\<close>

fun cut_batch :: "nat \<Rightarrow> seq_t list \<Rightarrow> seq_t list \<times> batch" where
  "cut_batch i [] = ([], [])"
| "cut_batch i (q # qs) =
    (case cut_batch (Suc i) qs of (qs', b) \<Rightarrow>
       if sq_state q \<noteq> SEQ_WAIT then (q # qs', b)
       else (q\<lparr>sq_state := SEQ_INFLIGHT\<rparr> # qs', (i, sq_tok q, sq_pos q) # b))"

definition worker_wake :: "sched \<Rightarrow> sched option" where
  "worker_wake s =
    (if sc_worker s = Top \<and> \<not> sc_stop s \<and> n_wait s \<noteq> 0 then Some (s\<lparr>sc_worker := Gathering\<rparr>)
     else if sc_worker s = Top \<and> sc_stop s then Some (s\<lparr>sc_worker := Ended\<rparr>)
     else None)"

definition worker_cut :: "sched \<Rightarrow> sched option" where
  "worker_cut s =
    (if sc_worker s = Gathering then
       (case cut_batch 0 (sc_seq s) of (qs, b) \<Rightarrow>
          Some (s\<lparr>sc_seq := qs, n_wait := n_wait s - int (length b),
                  sc_worker := (if b = [] then Top else Running b)\<rparr>))
     else None)"

text \<open>Writing a list of values into the slots it names.\<close>

fun update_all :: "('v \<Rightarrow> 'a \<Rightarrow> 'a) \<Rightarrow> 'a list \<Rightarrow> (nat \<times> 'v) list \<Rightarrow> 'a list" where
  "update_all f xs [] = xs"
| "update_all f xs ((i, v) # kvs) = update_all f (xs[i := f v (xs ! i)]) kvs"

definition worker_run :: "decode \<Rightarrow> sched \<Rightarrow> sched option" where
  "worker_run decode s =
    (case sc_worker s of Running b \<Rightarrow>
       (let r = decode b;
            rows = (case r of None \<Rightarrow> [] | Some rs \<Rightarrow> zip (map fst b) rs)
        in Some (s\<lparr>sc_seq := update_all (\<lambda>r q. q\<lparr>sq_logits := r\<rparr>) (sc_seq s) rows,
                   sc_steps := sc_steps s + 1, sc_batched := sc_batched s + length b,
                   sc_worker := Publishing (r \<noteq> None) b\<rparr>))
     | _ \<Rightarrow> None)"

definition worker_publish :: "sched \<Rightarrow> sched option" where
  "worker_publish s =
    (case sc_worker s of Publishing ok b \<Rightarrow>
       Some (s\<lparr>sc_seq := update_all (\<lambda>_ q. q\<lparr>sq_ok := ok, sq_state := SEQ_READY\<rparr>) (sc_seq s) b, sc_worker := Top\<rparr>)
     | _ \<Rightarrow> None)"

definition sched_shutdown_stop :: "sched \<Rightarrow> sched" where
  "sched_shutdown_stop s = s\<lparr>sc_stop := True\<rparr>"

text \<open>The counter of generating slots, which only bounds how long the worker waits.\<close>

definition sched_enter :: "sched \<Rightarrow> sched" where
  "sched_enter s = s\<lparr>n_active := n_active s + 1\<rparr>"

definition sched_leave :: "sched \<Rightarrow> sched" where
  "sched_leave s = s\<lparr>n_active := n_active s - 1\<rparr>"

text \<open>How many sequences the worker waits for before it cuts.\<close>

definition gather_want :: "int \<Rightarrow> sched \<Rightarrow> int" where
  "gather_want cap s = (if n_active s < cap then n_active s else cap)"

definition gather_done :: "int \<Rightarrow> sched \<Rightarrow> bool" where
  "gather_done cap s \<longleftrightarrow> sc_stop s \<or> n_wait s \<ge> gather_want cap s"

datatype act = Enter | Submit nat int int | Expire nat | Collect nat | Leave | Wake | Cut | Run | Publish | Stop

definition sched_step :: "decode \<Rightarrow> act \<Rightarrow> sched \<Rightarrow> sched option" where
  "sched_step decode a s =
    (case a of
       Enter \<Rightarrow> Some (sched_enter s)
     | Submit i tok pos \<Rightarrow>
         if i < length (sc_seq s) \<and> sc_fwd s ! i = None then Some (sched_submit i tok pos s) else None
     | Expire i \<Rightarrow> if i < length (sc_seq s) then sched_expire i s else None
     | Collect i \<Rightarrow> if i < length (sc_seq s) then sched_collect i s else None
     | Leave \<Rightarrow> Some (sched_leave s)
     | Wake \<Rightarrow> worker_wake s
     | Cut \<Rightarrow> worker_cut s
     | Run \<Rightarrow> worker_run decode s
     | Publish \<Rightarrow> worker_publish s
     | Stop \<Rightarrow> Some (sched_shutdown_stop s))"

fun sched_run :: "decode \<Rightarrow> act list \<Rightarrow> sched \<Rightarrow> sched option" where
  "sched_run decode [] s = Some s"
| "sched_run decode (a # as) s = (case sched_step decode a s of None \<Rightarrow> None | Some s' \<Rightarrow> sched_run decode as s')"

text \<open>
  The server stops its slot threads before it shuts the scheduler down, so no forward is queued
  after the stop.
\<close>

fun orderly :: "act list \<Rightarrow> bool" where
  "orderly [] = True"
| "orderly (Stop # as) \<longleftrightarrow> (\<forall>a \<in> set as. case a of Submit _ _ _ \<Rightarrow> False | _ \<Rightarrow> True)"
| "orderly (a # as) = orderly as"

subsection \<open>The invariant\<close>

definition waiting :: "seq_t list \<Rightarrow> nat" where
  "waiting qs = length (filter (\<lambda>q. sq_state q = SEQ_WAIT) qs)"

text \<open>A row that a batch computed for this slot, token and position.\<close>

definition computed :: "decode \<Rightarrow> nat \<Rightarrow> int \<times> int \<Rightarrow> row \<Rightarrow> bool" where
  "computed decode i tp r \<longleftrightarrow>
     (\<exists>b rs j. decode b = Some rs \<and> j < length b \<and> j < length rs \<and> b ! j = (i, tp) \<and> rs ! j = r)"

definition slot_ok :: "decode \<Rightarrow> bool \<Rightarrow> nat \<Rightarrow> seq_t \<Rightarrow> (int \<times> int) option \<Rightarrow> bool" where
  "slot_ok decode stop i q f \<longleftrightarrow>
    (case f of None \<Rightarrow> sq_state q = SEQ_OFF \<or> stop \<and> sq_state q = SEQ_READY
     | Some tp \<Rightarrow> tp = (sq_tok q, sq_pos q) \<and> sq_state q \<noteq> SEQ_OFF
         \<and> (sq_state q = SEQ_READY \<and> sq_ok q \<longrightarrow> computed decode i tp (sq_logits q)))"

definition batch_of :: "worker \<Rightarrow> batch" where
  "batch_of w = (case w of Running b \<Rightarrow> b | Publishing _ b \<Rightarrow> b | _ \<Rightarrow> [])"

definition entry_ok :: "decode \<Rightarrow> sched \<Rightarrow> nat \<times> int \<times> int \<Rightarrow> bool" where
  "entry_ok decode s e \<longleftrightarrow> fst e < length (sc_seq s)
     \<and> (sq_state (sc_seq s ! fst e) = SEQ_INFLIGHT \<and> sc_fwd s ! fst e = Some (snd e)
        \<or> sc_stop s \<and> sc_fwd s ! fst e = None)
     \<and> (\<forall>b. sc_worker s = Publishing True b \<longrightarrow> computed decode (fst e) (snd e) (sq_logits (sc_seq s ! fst e)))"

definition sched_inv :: "decode \<Rightarrow> sched \<Rightarrow> bool" where
  "sched_inv decode s \<longleftrightarrow> length (sc_fwd s) = length (sc_seq s)
     \<and> n_wait s = int (waiting (sc_seq s))
     \<and> (\<forall>i < length (sc_seq s). slot_ok decode (sc_stop s) i (sc_seq s ! i) (sc_fwd s ! i))
     \<and> distinct (map fst (batch_of (sc_worker s)))
     \<and> (\<forall>e \<in> set (batch_of (sc_worker s)). entry_ok decode s e)
     \<and> (\<forall>i < length (sc_seq s). sq_state (sc_seq s ! i) = SEQ_INFLIGHT \<longrightarrow> i \<in> fst ` set (batch_of (sc_worker s)))
     \<and> (\<forall>(i, tp, got) \<in> set (sc_got s). \<forall>r. got = Some r \<longrightarrow> computed decode i tp r)"

lemma waiting_update:
  assumes "i < length qs"
  shows "waiting (qs[i := q]) + of_bool (sq_state (qs ! i) = SEQ_WAIT) = waiting qs + of_bool (sq_state q = SEQ_WAIT)"
proof -
  have u: "qs[i := q] = take i qs @ q # drop (Suc i) qs" using assms by (rule upd_conv_take_nth_drop)
  have "waiting qs = waiting (take i qs @ qs ! i # drop (Suc i) qs)" using id_take_nth_drop [OF assms] by simp
  then show ?thesis unfolding u by (simp add: waiting_def)
qed

lemma sched_inv_init: "sched_inv decode (sched_init n)"
  by (simp add: sched_inv_def sched_init_def waiting_def seq_off_def slot_ok_def batch_of_def)

text \<open>A slot that queues is in no batch: it was off.\<close>

lemma submit_inv:
  assumes "sched_inv decode s" "i < length (sc_seq s)" "sc_fwd s ! i = None" "\<not> sc_stop s"
  shows "sched_inv decode (sched_submit i tok pos s)"
proof -
  have off: "sq_state (sc_seq s ! i) = SEQ_OFF" using assms by (auto simp: sched_inv_def slot_ok_def)
  have out: "fst e \<noteq> i" if "e \<in> set (batch_of (sc_worker s))" for e
    using assms that off by (auto simp: sched_inv_def entry_ok_def)
  have w: "waiting ((sc_seq s)[i := (sc_seq s ! i)\<lparr>sq_tok := tok, sq_pos := pos, sq_state := SEQ_WAIT\<rparr>])
      = Suc (waiting (sc_seq s))"
    using waiting_update [OF assms(2), of "(sc_seq s ! i)\<lparr>sq_tok := tok, sq_pos := pos, sq_state := SEQ_WAIT\<rparr>"] off by simp
  have e: "entry_ok decode (sched_submit i tok pos s) e" if "e \<in> set (batch_of (sc_worker s))" for e
    using assms(1) that out [OF that] by (auto simp: sched_inv_def entry_ok_def sched_submit_def)
  show ?thesis
    using assms out w e by (auto simp: sched_inv_def sched_submit_def slot_ok_def nth_list_update)
qed

text \<open>A call returns: the slot goes off, and what it returns was computed for it.\<close>

lemma return_inv:
  assumes "sched_inv decode s" "i < length (sc_seq s)" "sc_fwd s ! i = Some tp"
    "sq_state (sc_seq s ! i) = SEQ_INFLIGHT \<longrightarrow> sc_stop s"
    "\<forall>r. got = Some r \<longrightarrow> computed decode i tp r"
    "nw = (if sq_state (sc_seq s ! i) = SEQ_WAIT then n_wait s - 1 else n_wait s)"
  shows "sched_inv decode (sched_return i got
    (s\<lparr>sc_seq := (sc_seq s)[i := (sc_seq s ! i)\<lparr>sq_state := SEQ_OFF\<rparr>], n_wait := nw\<rparr>))" (is "sched_inv decode ?s")
proof -
  let ?q = "(sc_seq s ! i)\<lparr>sq_state := SEQ_OFF\<rparr>"
  have s: "?s = s\<lparr>sc_seq := (sc_seq s)[i := ?q], n_wait := nw, sc_fwd := (sc_fwd s)[i := None], sc_got := (i, tp, got) # sc_got s\<rparr>"
    using assms(3) by (simp add: sched_return_def)
  have w: "nw = int (waiting ((sc_seq s)[i := ?q]))"
    using waiting_update [OF assms(2), of ?q] assms(1,6) by (auto simp: sched_inv_def split: if_splits)
  have l: "i < length (sc_fwd s)" using assms(1,2) by (simp add: sched_inv_def)
  have e: "entry_ok decode ?s e" if "e \<in> set (batch_of (sc_worker s))" for e
  proof -
    have "entry_ok decode s e" using assms(1) that by (simp add: sched_inv_def)
    then show ?thesis unfolding s using assms(3,4) l by (auto simp: entry_ok_def nth_list_update)
  qed
  show ?thesis
    using assms(1,2,5) e w l unfolding s by (auto simp: sched_inv_def slot_ok_def nth_list_update)
qed

lemma expire_inv:
  assumes "sched_inv decode s" "i < length (sc_seq s)" "sched_expire i s = Some s'"
  shows "sched_inv decode s'"
proof -
  from assms(3) obtain tp where h: "sc_fwd s ! i = Some tp" "sq_state (sc_seq s ! i) = SEQ_WAIT"
    "s' = sched_return i None (s\<lparr>sc_seq := (sc_seq s)[i := (sc_seq s ! i)\<lparr>sq_state := SEQ_OFF\<rparr>], n_wait := n_wait s - 1\<rparr>)"
    by (auto simp: sched_expire_def split: if_splits)
  show ?thesis unfolding h(3) by (rule return_inv [OF assms(1,2) h(1)]) (simp_all add: h(2))
qed

lemma collect_inv:
  assumes "sched_inv decode s" "i < length (sc_seq s)" "sched_collect i s = Some s'"
  shows "sched_inv decode s'"
proof -
  let ?q = "sc_seq s ! i"
  from assms(3) obtain tp where h: "sc_fwd s ! i = Some tp" "sq_state ?q = SEQ_READY \<or> sc_stop s"
    "s' = sched_return i (if sq_state ?q = SEQ_READY \<and> sq_ok ?q then Some (sq_logits ?q) else None)
      (s\<lparr>sc_seq := (sc_seq s)[i := ?q\<lparr>sq_state := SEQ_OFF\<rparr>],
         n_wait := (if sq_state ?q = SEQ_WAIT then n_wait s - 1 else n_wait s)\<rparr>)"
    by (auto simp: sched_collect_def Let_def split: if_splits)
  have "slot_ok decode (sc_stop s) i ?q (sc_fwd s ! i)" using assms(1,2) by (simp add: sched_inv_def)
  then show ?thesis unfolding h(3) using h(1,2)
    by (intro return_inv [OF assms(1,2) h(1)]) (auto simp: slot_ok_def)
qed

text \<open>The cut takes exactly the waiting sequences, each once.\<close>

lemma cut_batch_spec:
  assumes "cut_batch k qs = (qs', b)"
  shows "length qs' = length qs" "waiting qs' = 0" "length b = waiting qs" "distinct (map fst b)"
    "set b = {(k + i, sq_tok (qs ! i), sq_pos (qs ! i)) |i. i < length qs \<and> sq_state (qs ! i) = SEQ_WAIT}"
    "\<forall>i < length qs. qs' ! i = (if sq_state (qs ! i) = SEQ_WAIT then (qs ! i)\<lparr>sq_state := SEQ_INFLIGHT\<rparr> else qs ! i)"
proof -
  have "length qs' = length qs \<and> waiting qs' = 0 \<and> length b = waiting qs \<and> distinct (map fst b) \<and>
    set b = {(k + i, sq_tok (qs ! i), sq_pos (qs ! i)) |i. i < length qs \<and> sq_state (qs ! i) = SEQ_WAIT} \<and>
    (\<forall>i < length qs. qs' ! i = (if sq_state (qs ! i) = SEQ_WAIT then (qs ! i)\<lparr>sq_state := SEQ_INFLIGHT\<rparr> else qs ! i))"
    using assms
  proof (induction qs arbitrary: k qs' b)
    case Nil
    then show ?case by (simp add: waiting_def)
  next
    case (Cons q qs)
    obtain r c where c: "cut_batch (Suc k) qs = (r, c)" by (cases "cut_batch (Suc k) qs")
    note IH = Cons.IH [OF c]
    have st: "{(k + i, sq_tok ((q # qs) ! i), sq_pos ((q # qs) ! i)) |i. i < length (q # qs) \<and> sq_state ((q # qs) ! i) = SEQ_WAIT}
      = (if sq_state q = SEQ_WAIT then {(k, sq_tok q, sq_pos q)} else {}) \<union>
        {(Suc k + i, sq_tok (qs ! i), sq_pos (qs ! i)) |i. i < length qs \<and> sq_state (qs ! i) = SEQ_WAIT}" (is "?L = ?R")
    proof
      show "?L \<subseteq> ?R"
      proof
        fix x assume "x \<in> ?L"
        then obtain i where i: "i < length (q # qs)" "sq_state ((q # qs) ! i) = SEQ_WAIT"
          "x = (k + i, sq_tok ((q # qs) ! i), sq_pos ((q # qs) ! i))" by blast
        then show "x \<in> ?R" by (cases i) auto
      qed
      show "?R \<subseteq> ?L" by (auto intro: exI [of _ 0] exI [of _ "Suc i" for i] split: if_splits)
    qed
    have k: "k \<notin> fst ` set c" using IH by auto
    show ?case using Cons.prems c IH k unfolding st
      by (auto simp: waiting_def nth_Cons split: if_splits nat.splits)
  qed
  then show "length qs' = length qs" "waiting qs' = 0" "length b = waiting qs" "distinct (map fst b)"
    "set b = {(k + i, sq_tok (qs ! i), sq_pos (qs ! i)) |i. i < length qs \<and> sq_state (qs ! i) = SEQ_WAIT}"
    "\<forall>i < length qs. qs' ! i = (if sq_state (qs ! i) = SEQ_WAIT then (qs ! i)\<lparr>sq_state := SEQ_INFLIGHT\<rparr> else qs ! i)"
    by auto
qed

lemma cut_inv:
  assumes "sched_inv decode s" "worker_cut s = Some s'"
  shows "sched_inv decode s'"
proof -
  obtain qs b where c: "cut_batch 0 (sc_seq s) = (qs, b)" by (cases "cut_batch 0 (sc_seq s)")
  note cs = cut_batch_spec [OF c]
  have g: "sc_worker s = Gathering" and s': "s' = s\<lparr>sc_seq := qs, n_wait := n_wait s - int (length b),
      sc_worker := (if b = [] then Top else Running b)\<rparr>"
    using assms(2) c by (auto simp: worker_cut_def split: if_splits)
  have bo: "batch_of (sc_worker s') = b" by (simp add: s' batch_of_def)
  have no: "sq_state (sc_seq s ! i) \<noteq> SEQ_INFLIGHT" if "i < length (sc_seq s)" for i
    using assms(1) that g by (auto simp: sched_inv_def batch_of_def)
  have slot: "slot_ok decode (sc_stop s) i (sc_seq s ! i) (sc_fwd s ! i)" if "i < length (sc_seq s)" for i
    using assms(1) that by (simp add: sched_inv_def)
  have "slot_ok decode (sc_stop s') i (sc_seq s' ! i) (sc_fwd s' ! i)" if "i < length (sc_seq s')" for i
    using slot [of i] that cs(1,6) by (auto simp: s' slot_ok_def split: option.splits)
  moreover have "entry_ok decode s' e" if e: "e \<in> set b" for e
  proof -
    obtain i where i: "i < length (sc_seq s)" "sq_state (sc_seq s ! i) = SEQ_WAIT"
      "e = (i, sq_tok (sc_seq s ! i), sq_pos (sc_seq s ! i))" using e cs(5) by auto
    with slot [of i] cs(1,6) show ?thesis by (auto simp: entry_ok_def s' slot_ok_def split: option.splits)
  qed
  moreover have "i \<in> fst ` set b" if "i < length qs" "sq_state (qs ! i) = SEQ_INFLIGHT" for i
  proof -
    have "sq_state (sc_seq s ! i) = SEQ_WAIT" using that no [of i] cs(1,6) by (auto split: if_splits)
    then have "(i, sq_tok (sc_seq s ! i), sq_pos (sc_seq s ! i)) \<in> set b" using that cs(1,5) by auto
    then show ?thesis by force
  qed
  ultimately show ?thesis using assms(1) cs(1-4) bo unfolding sched_inv_def by (simp add: s')
qed

lemma length_update_all [simp]: "length (update_all f xs kvs) = length xs"
  by (induction f xs kvs rule: update_all.induct) auto

lemma update_all_nth:
  "distinct (map fst kvs) \<Longrightarrow> i < length xs \<Longrightarrow>
   update_all f xs kvs ! i = (case map_of kvs i of None \<Rightarrow> xs ! i | Some v \<Rightarrow> f v (xs ! i))"
proof (induction f xs kvs rule: update_all.induct)
  case (2 f xs k v kvs)
  have "map_of kvs k = None" using 2(2) by (auto simp: map_of_eq_None_iff)
  with 2 show ?case by (auto simp: nth_list_update split: option.splits)
qed simp

text \<open>The worker's copy only changes logits of sequences in flight, or abandoned at the stop.\<close>

lemma run_inv:
  assumes "sched_inv decode s" "worker_run decode s = Some s'" "\<forall>b rs. decode b = Some rs \<longrightarrow> length rs = length b"
  shows "sched_inv decode s'"
proof -
  obtain b where b: "sc_worker s = Running b" using assms(2) by (auto simp: worker_run_def split: worker.splits)
  define rows where "rows = (case decode b of None \<Rightarrow> [] | Some rs \<Rightarrow> zip (map fst b) rs)"
  define qs where "qs = update_all (\<lambda>r q. q\<lparr>sq_logits := r\<rparr>) (sc_seq s) rows"
  have s': "s' = s\<lparr>sc_seq := qs, sc_steps := sc_steps s + 1, sc_batched := sc_batched s + length b,
      sc_worker := Publishing (decode b \<noteq> None) b\<rparr>"
    using assms(2) b by (simp add: worker_run_def rows_def qs_def Let_def)
  have d: "distinct (map fst b)" using assms(1) b by (simp add: sched_inv_def batch_of_def)
  have dr: "distinct (map fst rows)" using d assms(3) by (auto simp: rows_def split: option.splits)
  have q: "qs ! i = (case map_of rows i of None \<Rightarrow> sc_seq s ! i | Some r \<Rightarrow> (sc_seq s ! i)\<lparr>sq_logits := r\<rparr>)"
    if "i < length (sc_seq s)" for i
    unfolding qs_def using update_all_nth [OF dr that] .
  have same: "sq_state (qs ! i) = sq_state (sc_seq s ! i)" "sq_tok (qs ! i) = sq_tok (sc_seq s ! i)"
    "sq_pos (qs ! i) = sq_pos (sc_seq s ! i)" "sq_ok (qs ! i) = sq_ok (sc_seq s ! i)" if "i < length (sc_seq s)" for i
    using q [OF that] by (auto split: option.splits)
  have len: "length qs = length (sc_seq s)" by (simp add: qs_def)
  have ent: "entry_ok decode s e" if "e \<in> set b" for e using assms(1) that b by (simp add: sched_inv_def batch_of_def)
  have kept: "qs ! i = sc_seq s ! i" if "i < length (sc_seq s)" "i \<notin> fst ` set b" for i
  proof -
    have "map_of rows i = None" using that(2) assms(3)
      by (auto simp: rows_def map_of_eq_None_iff split: option.splits dest: set_zip_leftD)
    with q [OF that(1)] show ?thesis by simp
  qed
  have w: "waiting qs = waiting (sc_seq s)"
  proof -
    have "map sq_state qs = map sq_state (sc_seq s)" using same(1) len by (auto intro: nth_equalityI)
    then have "length (filter (\<lambda>x. x = SEQ_WAIT) (map sq_state qs)) = length (filter (\<lambda>x. x = SEQ_WAIT) (map sq_state (sc_seq s)))"
      by simp
    then show ?thesis by (simp add: waiting_def filter_map comp_def)
  qed
  have slot: "slot_ok decode (sc_stop s) i (qs ! i) (sc_fwd s ! i)" if i: "i < length (sc_seq s)" for i
  proof (cases "i \<in> fst ` set b")
    case False
    then show ?thesis using assms(1) kept i by (simp add: sched_inv_def)
  next
    case True
    then obtain e where e: "e \<in> set b" "fst e = i" by auto
    have "slot_ok decode (sc_stop s) i (sc_seq s ! i) (sc_fwd s ! i)" using assms(1) i by (simp add: sched_inv_def)
    with ent [OF e(1)] e(2) same [OF i] show ?thesis by (auto simp: entry_ok_def slot_ok_def split: option.splits)
  qed
  have fresh: "computed decode (fst e) (snd e) (sq_logits (qs ! fst e))" if e: "e \<in> set b" "decode b = Some rs" for e rs
  proof -
    obtain j where j: "j < length b" "b ! j = e" using e(1) by (auto simp: in_set_conv_nth)
    have l: "length rs = length b" using assms(3) e(2) by simp
    have "rows = zip (map fst b) rs" using e(2) by (simp add: rows_def)
    moreover have "zip (map fst b) rs ! j = (fst e, rs ! j)" "j < length (zip (map fst b) rs)" using j l by simp_all
    then have "(fst e, rs ! j) \<in> set (zip (map fst b) rs)" using nth_mem by metis
    ultimately have "map_of rows (fst e) = Some (rs ! j)" using dr by (metis map_of_eq_Some_iff)
    moreover have "fst e < length (sc_seq s)" using ent [OF e(1)] by (simp add: entry_ok_def)
    ultimately have "sq_logits (qs ! fst e) = rs ! j" using q by simp
    with j l e(2) show ?thesis unfolding computed_def by (intro exI [of _ b] exI [of _ rs] exI [of _ j]) simp
  qed
  have "entry_ok decode s' e" if e: "e \<in> set b" for e
    using ent [OF e] fresh [OF e] len same(1) [of "fst e"] by (auto simp: entry_ok_def s')
  then show ?thesis using assms(1) slot w len same(1) b unfolding sched_inv_def
    by (simp add: s' batch_of_def)
qed

lemma publish_inv:
  assumes "sched_inv decode s" "worker_publish s = Some s'"
  shows "sched_inv decode s'"
proof -
  obtain ok b where b: "sc_worker s = Publishing ok b" using assms(2) by (auto simp: worker_publish_def split: worker.splits)
  define qs where "qs = update_all (\<lambda>_ q. q\<lparr>sq_ok := ok, sq_state := SEQ_READY\<rparr>) (sc_seq s) b"
  have s': "s' = s\<lparr>sc_seq := qs, sc_worker := Top\<rparr>" using assms(2) b by (simp add: worker_publish_def qs_def)
  have d: "distinct (map fst b)" using assms(1) b by (simp add: sched_inv_def batch_of_def)
  have ent: "entry_ok decode s e" if "e \<in> set b" for e using assms(1) that b by (simp add: sched_inv_def batch_of_def)
  have len: "length qs = length (sc_seq s)" by (simp add: qs_def)
  have q: "qs ! i = (if i \<in> fst ` set b then (sc_seq s ! i)\<lparr>sq_ok := ok, sq_state := SEQ_READY\<rparr> else sc_seq s ! i)"
    if "i < length (sc_seq s)" for i
  proof -
    have "i \<in> fst ` set b \<longleftrightarrow> map_of b i \<noteq> None" by (metis map_of_eq_None_iff)
    then show ?thesis unfolding qs_def update_all_nth [OF d that] by (simp split: option.split)
  qed
  have slot: "slot_ok decode (sc_stop s) i (sc_seq s ! i) (sc_fwd s ! i)" if "i < length (sc_seq s)" for i
    using assms(1) that by (simp add: sched_inv_def)
  have "slot_ok decode (sc_stop s) i (qs ! i) (sc_fwd s ! i)" if i: "i < length (sc_seq s)" for i
  proof (cases "i \<in> fst ` set b")
    case True
    then obtain e where e: "e \<in> set b" "fst e = i" by auto
    show ?thesis using ent [OF e(1)] slot [OF i] q [OF i] True e(2) b
      by (cases ok) (auto simp: entry_ok_def slot_ok_def split: option.splits)
  qed (use slot [OF i] q [OF i] in simp)
  moreover have "waiting qs = waiting (sc_seq s)"
  proof -
    have "(sq_state (qs ! i) = SEQ_WAIT) = (sq_state (sc_seq s ! i) = SEQ_WAIT)" if i: "i < length (sc_seq s)" for i
    proof (cases "i \<in> fst ` set b")
      case True
      then obtain e where "e \<in> set b" "fst e = i" by auto
      with ent slot [OF i] q [OF i] True show ?thesis
        by (fastforce simp: entry_ok_def slot_ok_def split: option.splits)
    qed (use q [OF i] in simp)
    then have "map (\<lambda>q. sq_state q = SEQ_WAIT) qs = map (\<lambda>q. sq_state q = SEQ_WAIT) (sc_seq s)"
      using len by (auto intro: nth_equalityI)
    then have "length (filter id (map (\<lambda>q. sq_state q = SEQ_WAIT) qs)) = length (filter id (map (\<lambda>q. sq_state q = SEQ_WAIT) (sc_seq s)))"
      by simp
    then show ?thesis by (simp add: waiting_def filter_map comp_def)
  qed
  moreover have "sq_state (qs ! i) \<noteq> SEQ_INFLIGHT" if i: "i < length (sc_seq s)" for i
    using assms(1) i q [OF i] b by (auto simp: sched_inv_def batch_of_def)
  ultimately show ?thesis using assms(1) len unfolding sched_inv_def by (simp add: s' batch_of_def)
qed

subsection \<open>Every schedule\<close>

lemma inv_active: "sched_inv decode (s\<lparr>n_active := x\<rparr>) = sched_inv decode s"
  by (simp add: sched_inv_def entry_ok_def)

lemma inv_worker: "batch_of (sc_worker s) = [] \<Longrightarrow> batch_of w = [] \<Longrightarrow> sched_inv decode (s\<lparr>sc_worker := w\<rparr>) = sched_inv decode s"
  by (simp add: sched_inv_def)

lemma inv_stop:
  assumes "sched_inv decode s"
  shows "sched_inv decode (s\<lparr>sc_stop := True\<rparr>)"
proof -
  have "slot_ok decode True i q f" if "slot_ok decode (sc_stop s) i q f" for i q f
    using that by (auto simp: slot_ok_def split: option.splits)
  moreover have "entry_ok decode (s\<lparr>sc_stop := True\<rparr>) e" if "entry_ok decode s e" for e
    using that by (auto simp: entry_ok_def)
  ultimately show ?thesis using assms by (simp add: sched_inv_def)
qed

lemma step_inv:
  assumes "sched_inv decode s" "sched_step decode a s = Some s'" "\<forall>b rs. decode b = Some rs \<longrightarrow> length rs = length b"
    "\<forall>i t p. a = Submit i t p \<longrightarrow> \<not> sc_stop s"
  shows "sched_inv decode s'"
proof (cases a)
  case Enter
  with assms(1,2) show ?thesis using inv_active by (auto simp: sched_step_def sched_enter_def)
next
  case (Submit i t p)
  with assms submit_inv [of decode s i t p] show ?thesis by (auto simp: sched_step_def split: if_splits)
next
  case (Expire i)
  with assms expire_inv show ?thesis by (auto simp: sched_step_def split: if_splits)
next
  case (Collect i)
  with assms collect_inv show ?thesis by (auto simp: sched_step_def split: if_splits)
next
  case Leave
  with assms(1,2) show ?thesis using inv_active by (auto simp: sched_step_def sched_leave_def)
next
  case Wake
  with assms(1,2) show ?thesis
    using inv_worker [of s Gathering] inv_worker [of s Ended]
    by (auto simp: sched_step_def worker_wake_def batch_of_def split: if_splits)
next
  case Cut
  with assms cut_inv show ?thesis by (simp add: sched_step_def)
next
  case Run
  with assms run_inv show ?thesis by (simp add: sched_step_def)
next
  case Publish
  with assms publish_inv show ?thesis by (simp add: sched_step_def)
next
  case Stop
  with assms(1,2) show ?thesis
    using inv_stop by (auto simp: sched_step_def sched_shutdown_stop_def)
qed

lemma length_cut: "length (fst (cut_batch k qs)) = length qs"
  using cut_batch_spec(1) [of k qs] by (cases "cut_batch k qs") simp

lemma step_stop:
  assumes "sched_step decode a s = Some s'"
  shows "sc_stop s' = (sc_stop s \<or> a = Stop)" "length (sc_seq s') = length (sc_seq s)"
  using assms length_cut [of 0 "sc_seq s"]
  by (auto simp: sched_step_def sched_enter_def sched_leave_def sched_submit_def sched_expire_def sched_collect_def
      sched_return_def worker_wake_def worker_cut_def worker_run_def worker_publish_def sched_shutdown_stop_def Let_def
      split: act.splits option.splits worker.splits if_splits prod.splits)

definition no_submit :: "act list \<Rightarrow> bool" where
  "no_submit as \<longleftrightarrow> (\<forall>a \<in> set as. case a of Submit _ _ _ \<Rightarrow> False | _ \<Rightarrow> True)"

lemma orderly_Cons: "orderly (a # as) \<Longrightarrow> (a = Stop \<and> no_submit as) \<or> (a \<noteq> Stop \<and> orderly as)"
  by (cases a) (auto simp: no_submit_def)

lemma run_all_inv:
  "sched_inv decode s \<Longrightarrow> sched_run decode as s = Some s' \<Longrightarrow>
   \<forall>b rs. decode b = Some rs \<longrightarrow> length rs = length b \<Longrightarrow>
   (if sc_stop s then no_submit as else orderly as) \<Longrightarrow> sched_inv decode s' \<and> length (sc_seq s') = length (sc_seq s)"
proof (induction as arbitrary: s)
  case (Cons a as)
  then obtain s1 where s1: "sched_step decode a s = Some s1" "sched_run decode as s1 = Some s'"
    by (auto split: option.splits)
  have "\<forall>i t p. a = Submit i t p \<longrightarrow> \<not> sc_stop s" using Cons.prems(4) by (auto simp: no_submit_def)
  then have i1: "sched_inv decode s1" using step_inv [OF Cons.prems(1) s1(1) Cons.prems(3)] by blast
  have "if sc_stop s1 then no_submit as else orderly as"
    using Cons.prems(4) orderly_Cons [of a as] step_stop(1) [OF s1(1)] by (auto simp: no_submit_def split: if_splits)
  with Cons.IH [OF i1 s1(2) Cons.prems(3)] step_stop(2) [OF s1(1)] show ?case by simp
qed simp


lemma case_option_True: "(case x of None \<Rightarrow> False | Some s \<Rightarrow> P s) \<Longrightarrow> \<exists>s. x = Some s \<and> P s"
  by (cases x) simp_all

text \<open>A model whose row for a token is the token, and a schedule with a joint batch of two slots.\<close>

definition echo :: decode where
  "echo b = Some (map (\<lambda>(i, t, p). [of_int t]) b)"

definition joint :: "act list" where
  "joint = [Enter, Enter, Submit 0 10 0, Wake, Submit 1 11 5, Cut, Run, Publish, Collect 1, Submit 1 12 6, Collect 0]"

definition joint_end :: "sched option" where
  "joint_end = sched_run echo joint (sched_init 2)"


text \<open>
  What the order of the shutdown prevents: a slot that gives up at the stop while in flight, and
  queues again before the worker publishes, is handed the row of its previous token, and the count of
  waiting sequences stays one too high.
\<close>

definition late_end :: "sched option" where
  "late_end = sched_run echo [Submit 0 10 0, Wake, Cut, Stop, Collect 0, Run, Submit 0 20 1, Publish, Collect 0] (sched_init 2)"

lemma late_submit_is_stale:
  "\<exists>s. late_end = Some s \<and> hd (sc_got s) = (0, (20, 1), Some [10]) \<and> n_wait s = 1 \<and> waiting (sc_seq s) = 0"
proof -
  have "(case late_end of None \<Rightarrow> False
    | Some s \<Rightarrow> hd (sc_got s) = (0, (20, 1), Some [10]) \<and> n_wait s = 1 \<and> waiting (sc_seq s) = 0)"
    by code_simp
  then show ?thesis by (rule case_option_True)
qed

text \<open>
  The deadline of a timed wait: seconds and nanoseconds, normalised. \<open>secs\<close> is truncated to whole
  nanoseconds, and the sum is a \<^verbatim>\<open>long long\<close>.
\<close>

definition ts_in :: "int \<times> int \<Rightarrow> rat \<Rightarrow> int \<times> int" where
  "ts_in now secs =
    (let ns = snd now + \<lfloor>secs * 1000000000\<rfloor>
     in (fst now + ns div 1000000000, ns mod 1000000000))"

lemma ts_in_normalised:
  "fst (ts_in now secs) * 1000000000 + snd (ts_in now secs) = fst now * 1000000000 + snd now + \<lfloor>secs * 1000000000\<rfloor>
   \<and> 0 \<le> snd (ts_in now secs) \<and> snd (ts_in now secs) < 1000000000"
proof -
  let ?ns = "snd now + \<lfloor>secs * 1000000000\<rfloor>"
  have "?ns div 1000000000 * 1000000000 + ?ns mod 1000000000 = ?ns" by simp
  then show ?thesis by (simp add: ts_in_def Let_def algebra_simps)
qed

end
