(* ===== verification/Device_Turn.thy ===== *)
theory Device_Turn
  imports Prelude
begin

section \<open>The device turn (scheduler.c)\<close>

text \<open>
  The FIFO turnstile that decode and prefill take turns through: a ticket counter and a serving
  counter, both 32-bit and wrapping, under one mutex. A thread draws its ticket and waits in
  \<^verbatim>\<open>dev_take\<close> until it is served; \<^verbatim>\<open>dev_give\<close> serves the next ticket. The state also keeps
  the threads that wait, with their tickets, the threads that hold the turn, and the two histories.
\<close>

record turn =
  dev_next :: u32
  dev_serving :: u32
  dt_wait :: "(nat \<times> u32) list"
  dt_hold :: "nat list"
  dt_drawn :: "nat list"
  dt_entered :: "nat list"

definition turn_start :: turn where
  "turn_start = \<lparr>dev_next = 0, dev_serving = 0, dt_wait = [], dt_hold = [], dt_drawn = [], dt_entered = []\<rparr>"

text \<open>\<open>dev_take\<close> is two steps: drawing the ticket, and leaving the wait when it is served.\<close>

definition dev_draw :: "nat \<Rightarrow> turn \<Rightarrow> turn" where
  "dev_draw t s = s\<lparr>dt_wait := dt_wait s @ [(t, dev_next s)], dev_next := dev_next s + 1, dt_drawn := dt_drawn s @ [t]\<rparr>"

definition dev_enter :: "nat \<Rightarrow> turn \<Rightarrow> turn option" where
  "dev_enter t s =
    (case map_of (dt_wait s) t of None \<Rightarrow> None
     | Some mine \<Rightarrow>
       if mine \<noteq> dev_serving s then None
       else Some (s\<lparr>dt_wait := filter (\<lambda>p. fst p \<noteq> t) (dt_wait s), dt_hold := t # dt_hold s,
              dt_entered := dt_entered s @ [t]\<rparr>))"

definition dev_give :: "nat \<Rightarrow> turn \<Rightarrow> turn" where
  "dev_give t s = s\<lparr>dev_serving := dev_serving s + 1, dt_hold := remove1 t (dt_hold s)\<rparr>"

text \<open>
  The interleavings: a thread draws when it neither waits nor holds, and gives when it holds. There
  are fewer than 2^32 threads.
\<close>

inductive turns :: "turn \<Rightarrow> bool" where
  turns_start: "turns turn_start"
| turns_draw: "turns s \<Longrightarrow> t \<notin> set (dt_hold s) \<Longrightarrow> t \<notin> set (map fst (dt_wait s)) \<Longrightarrow>
    length (dt_wait s) + length (dt_hold s) < 2 ^ 32 - 1 \<Longrightarrow> turns (dev_draw t s)"
| turns_enter: "turns s \<Longrightarrow> dev_enter t s = Some s' \<Longrightarrow> turns s'"
| turns_give: "turns s \<Longrightarrow> t \<in> set (dt_hold s) \<Longrightarrow> turns (dev_give t s)"

text \<open>
  The invariant: the tickets waiting are the ones after those served and held, in order.
\<close>

definition tickets :: "u32 \<Rightarrow> nat \<Rightarrow> u32 list" where
  "tickets a n = map (\<lambda>i. a + of_nat i) [0..<n]"

definition turn_ok :: "turn \<Rightarrow> bool" where
  "turn_ok s \<longleftrightarrow> length (dt_hold s) \<le> 1
     \<and> map snd (dt_wait s) = tickets (dev_serving s + of_nat (length (dt_hold s))) (length (dt_wait s))
     \<and> dev_next s = dev_serving s + of_nat (length (dt_hold s) + length (dt_wait s))
     \<and> length (dt_wait s) + length (dt_hold s) < 2 ^ 32
     \<and> distinct (map fst (dt_wait s))
     \<and> dt_drawn s = dt_entered s @ map fst (dt_wait s)"

lemma tickets_Suc: "tickets a (Suc n) = tickets a n @ [a + of_nat n]"
  by (simp add: tickets_def)

lemma tickets_Cons: "tickets a (Suc n) = a # tickets (a + 1) n"
  by (simp add: tickets_def upt_rec [of 0] map_Suc_upt [symmetric] comp_def del: upt_Suc map_Suc_upt)

lemma of_nat_eq_0: "n < 2 ^ 32 \<Longrightarrow> (of_nat n :: u32) = 0 \<longleftrightarrow> n = 0"
  by (simp add: word_unat_eq_iff unsigned_of_nat take_bit_nat_eq_self)

text \<open>The only ticket that can be served is the first one waiting, and only when nobody holds.\<close>

lemma enter_first:
  assumes "turn_ok s" "map_of (dt_wait s) t = Some m" "m = dev_serving s"
  shows "dt_hold s = [] \<and> (\<exists>w. dt_wait s = (t, m) # w)"
proof -
  let ?h = "length (dt_hold s)" and ?n = "length (dt_wait s)"
  from assms(2) obtain i where i: "i < ?n" "dt_wait s ! i = (t, m)"
    by (meson in_set_conv_nth map_of_SomeD)
  then have "m = map snd (dt_wait s) ! i" by simp
  also have "\<dots> = dev_serving s + of_nat (?h + i)"
    using assms(1) i(1) by (simp add: turn_ok_def tickets_def)
  finally have "(of_nat (?h + i) :: u32) = 0" using assms(3) by simp
  moreover have "?h + i < 2 ^ 32" using assms(1) i(1) by (simp add: turn_ok_def)
  ultimately have "?h = 0" "i = 0" using of_nat_eq_0 by blast+
  with i show ?thesis by (cases "dt_wait s") auto
qed

lemma turn_ok_enter:
  assumes "turn_ok s" "dev_enter t s = Some s'"
  shows "turn_ok s'"
proof -
  from assms(2) obtain m where m: "map_of (dt_wait s) t = Some m" "m = dev_serving s"
    and s': "s' = s\<lparr>dt_wait := filter (\<lambda>p. fst p \<noteq> t) (dt_wait s), dt_hold := t # dt_hold s, dt_entered := dt_entered s @ [t]\<rparr>"
    by (auto simp: dev_enter_def split: option.splits if_splits)
  from enter_first [OF assms(1) m] obtain w where w: "dt_hold s = []" "dt_wait s = (t, m) # w" by blast
  have d: "t \<notin> set (map fst w)" using assms(1) w by (simp add: turn_ok_def)
  then have "filter (\<lambda>p. fst p \<noteq> t) (dt_wait s) = w" using w(2) by (auto simp: filter_id_conv)
  with s' w assms(1) show ?thesis by (simp add: turn_ok_def tickets_Cons)
qed

lemma turns_ok: "turns s \<Longrightarrow> turn_ok s"
proof (induction rule: turns.induct)
  case turns_start
  then show ?case by (simp add: turn_ok_def turn_start_def tickets_def)
next
  case (turns_draw s t)
  then show ?case by (auto simp: turn_ok_def dev_draw_def tickets_Suc)
next
  case (turns_enter s t s')
  then show ?case using turn_ok_enter by blast
next
  case (turns_give s t)
  then have "dt_hold s = [t]" by (cases "dt_hold s") (auto simp: turn_ok_def)
  with turns_give.IH show ?case by (simp add: turn_ok_def dev_give_def)
qed

text \<open>
  Property C23. In every interleaving at most one thread holds the device turn, the threads get it in
  the order they drew their tickets, also when the 32-bit counters wrap, and a waiting thread is
  never shut out: while nobody holds the turn the first one waiting can enter.
\<close>

theorem device_turn_fifo:
  assumes "turns s"
  shows "length (dt_hold s) \<le> 1 \<and> dt_drawn s = dt_entered s @ map fst (dt_wait s)
    \<and> (dt_hold s = [] \<and> dt_wait s \<noteq> [] \<longrightarrow> dev_enter (fst (hd (dt_wait s))) s \<noteq> None)"
proof -
  have ok: "turn_ok s" using turns_ok [OF assms] .
  have "dev_enter (fst (hd (dt_wait s))) s \<noteq> None" if h: "dt_hold s = []" and w: "dt_wait s \<noteq> []"
  proof -
    obtain t m r where w': "dt_wait s = (t, m) # r" using w by (cases "dt_wait s") auto
    then have "m = dev_serving s" using ok h by (simp add: turn_ok_def tickets_Cons)
    with w' show ?thesis by (simp add: dev_enter_def)
  qed
  with ok show ?thesis by (simp add: turn_ok_def)
qed

definition two_waiting :: turn where
  "two_waiting = dev_draw 7 (dev_draw 3 turn_start)"

lemma two_waiting_turns: "turns two_waiting"
  unfolding two_waiting_def by (intro turns.intros) (simp_all add: dev_draw_def turn_start_def)

theorem device_turn_fifo_witness: "dev_enter 3 two_waiting \<noteq> None \<and> dt_drawn two_waiting = [3, 7]"
  using device_turn_fifo [OF two_waiting_turns] by (simp add: two_waiting_def dev_draw_def turn_start_def)

end
