(* ===== verification/Sched_Start.thy ===== *)
theory Sched_Start
  imports Prelude
begin

section \<open>Starting the scheduler (scheduler.c)\<close>

text \<open>
  What \<open>sched_start\<close> acquires and gives back, on every path. \<open>can\<close> says which acquisitions
  succeed; the result is whether the scheduler runs, and the acquisitions and releases in order. A
  \<^verbatim>\<open>free\<close> of a pointer that was never set is no release.
\<close>

datatype res = Ms | Seq | WIdx | WTk | WPs | WOut | Logits nat | Batch
  | Mu | DevCv | DevMu | DecCv | SlotCv | Thread

datatype op = Acquire res | Release res

text \<open>\<open>sched_free_buffers\<close>, given what is held.\<close>

fun buffer :: "res \<Rightarrow> bool" where
  "buffer Seq = True" | "buffer WIdx = True" | "buffer WTk = True" | "buffer WPs = True" | "buffer WOut = True"
| "buffer (Logits _) = True" | "buffer Batch = True" | "buffer _ = False"

definition sched_free_buffers :: "res list \<Rightarrow> op list" where
  "sched_free_buffers held = map Release (filter buffer held)"

definition sync_order :: "res list" where
  "sync_order = [Mu, DevCv, DevMu, DecCv, SlotCv, Thread]"

text \<open>The destructions in the failure branch after \<open>n\<close> of these succeeded.\<close>

fun sync_undo :: "nat \<Rightarrow> res list" where
  "sync_undo 0 = []"
| "sync_undo (Suc 0) = [Mu]"
| "sync_undo (Suc (Suc 0)) = [DevCv, Mu]"
| "sync_undo (Suc (Suc (Suc 0))) = [DevCv, DevMu, Mu]"
| "sync_undo (Suc (Suc (Suc (Suc 0)))) = [DecCv, DevCv, DevMu, Mu]"
| "sync_undo (Suc (Suc (Suc (Suc (Suc n))))) = [SlotCv, DecCv, DevCv, DevMu, Mu]"

definition start_sync :: "(res \<Rightarrow> bool) \<Rightarrow> res list \<Rightarrow> bool \<times> op list" where
  "start_sync can held =
    (let sy = takeWhile can sync_order in
     if length sy = 6 then (True, map Acquire sy)
     else (False, map Acquire sy @ map Release (sync_undo (length sy)) @ sched_free_buffers held))"

definition start_batch :: "(res \<Rightarrow> bool) \<Rightarrow> res list \<Rightarrow> bool \<times> op list" where
  "start_batch can held =
    (if can Batch then
       (case start_sync can (held @ [Batch]) of (ok, t) \<Rightarrow> (ok, [Acquire Batch, Release Ms] @ t))
     else (False, [Release Ms] @ sched_free_buffers held))"

definition sched_start :: "(res \<Rightarrow> bool) \<Rightarrow> nat \<Rightarrow> nat \<Rightarrow> bool \<times> op list" where
  "sched_start can n_slots n_reg =
    (if n_slots < 2 \<or> n_reg > 0 then (False, [])
     else
       (let got = filter can [Ms, Seq, WIdx, WTk, WPs, WOut] in
        if length got < 6 then
          (False, map Acquire got @ (if can Ms then [Release Ms] else []) @ sched_free_buffers got)
        else
          (let lg = takeWhile can (map Logits [0..<n_slots]) in
           if length lg < n_slots then
             (False, map Acquire (got @ lg) @ [Release Ms] @ sched_free_buffers (got @ lg))
           else (case start_batch can (got @ lg) of (ok, t) \<Rightarrow> (ok, map Acquire (got @ lg) @ t)))))"

text \<open>\<open>sched_shutdown\<close> of a running scheduler: the worker is joined, then everything is given back.\<close>

definition sched_shutdown :: "nat \<Rightarrow> op list" where
  "sched_shutdown n_slots = map Release [Thread, SlotCv, DecCv, DevCv, DevMu, Mu]
     @ sched_free_buffers ([Seq, WIdx, WTk, WPs, WOut] @ map Logits [0..<n_slots] @ [Batch])"

subsection \<open>What is held\<close>

text \<open>\<open>None\<close> for an acquisition of what is held or a release of what is not.\<close>

fun held_after :: "op list \<Rightarrow> res set \<Rightarrow> res set option" where
  "held_after [] H = Some H"
| "held_after (Acquire r # t) H = (if r \<in> H then None else held_after t (insert r H))"
| "held_after (Release r # t) H = (if r \<in> H then held_after t (H - {r}) else None)"

lemma held_append: "held_after (s @ t) H = (case held_after s H of None \<Rightarrow> None | Some H' \<Rightarrow> held_after t H')"
  by (induction s H rule: held_after.induct) auto

lemma held_acquire: "distinct rs \<Longrightarrow> set rs \<inter> H = {} \<Longrightarrow> held_after (map Acquire rs) H = Some (H \<union> set rs)"
  by (induction rs arbitrary: H) auto

lemma held_release: "distinct rs \<Longrightarrow> set rs \<subseteq> H \<Longrightarrow> held_after (map Release rs) H = Some (H - set rs)"
proof (induction rs arbitrary: H)
  case (Cons r rs)
  have "distinct rs" "set rs \<subseteq> H - {r}" using Cons.prems by auto
  then have "held_after (map Release rs) (H - {r}) = Some (H - {r} - set rs)" by (rule Cons.IH)
  also have "H - {r} - set rs = H - set (r # rs)" by auto
  finally have "held_after (map Release rs) (H - {r}) = Some (H - set (r # rs))" .
  moreover have "r \<in> H" using Cons.prems(2) by simp
  ultimately show ?case by (simp only: list.map held_after.simps if_True)
qed simp

lemma held_free:
  assumes "distinct held" "set held \<subseteq> H"
  shows "held_after (sched_free_buffers held) H = Some (H - {r \<in> set held. buffer r})"
proof -
  have "distinct (filter buffer held)" "set (filter buffer held) \<subseteq> H" using assms by auto
  from held_release [OF this] show ?thesis by (simp add: sched_free_buffers_def)
qed

text \<open>Each stage of the failure branch undoes exactly what the stage acquired.\<close>

lemma sync_undo_prefix:
  "takeWhile can sync_order = sync_order \<or>
   (distinct (sync_undo (length (takeWhile can sync_order)))
    \<and> set (sync_undo (length (takeWhile can sync_order))) = set (takeWhile can sync_order)
    \<and> length (takeWhile can sync_order) < 6)"
proof -
  consider "\<not> can Mu" | "can Mu" "\<not> can DevCv" | "can Mu" "can DevCv" "\<not> can DevMu" | "can Mu" "can DevCv" "can DevMu" "\<not> can DecCv"
    | "can Mu" "can DevCv" "can DevMu" "can DecCv" "\<not> can SlotCv"
    | "can Mu" "can DevCv" "can DevMu" "can DecCv" "can SlotCv" "\<not> can Thread"
    | "can Mu" "can DevCv" "can DevMu" "can DecCv" "can SlotCv" "can Thread" by blast
  then show ?thesis by cases (auto simp: sync_order_def)
qed

lemma sync_held:
  assumes "distinct held" "\<forall>r \<in> set held. buffer r" "start_sync can held = (ok, t)"
  shows "held_after t (set held) = Some (if ok then set held \<union> set sync_order else {})"
proof -
  let ?sy = "takeWhile can sync_order"
  have d: "distinct sync_order" by (simp add: sync_order_def)
  have dj: "set sync_order \<inter> set held = {}" using assms(2) by (auto simp: sync_order_def)
  have sub: "set ?sy \<subseteq> set sync_order" by (auto dest: set_takeWhileD)
  have a: "held_after (map Acquire ?sy) (set held) = Some (set held \<union> set ?sy)"
    using held_acquire [of ?sy "set held"] d dj sub by (auto intro: distinct_takeWhile)
  have u: "?sy = sync_order \<or> (distinct (sync_undo (length ?sy)) \<and> set (sync_undo (length ?sy)) = set ?sy \<and> length ?sy < 6)"
    by (rule sync_undo_prefix)
  show ?thesis
  proof (cases "length ?sy = 6")
    case True
    then have "?sy = sync_order" using u by auto
    with True assms(3) a show ?thesis by (auto simp: start_sync_def)
  next
    case False
    have "length sync_order = 6" by (simp add: sync_order_def)
    with False have "?sy \<noteq> sync_order" by metis
    with u have u: "distinct (sync_undo (length ?sy))" "set (sync_undo (length ?sy)) = set ?sy" by blast+
    have "set held \<union> set ?sy - set ?sy = set held" using dj sub by auto
    then have r: "held_after (map Release (sync_undo (length ?sy))) (set held \<union> set ?sy) = Some (set held)"
      using held_release [OF u(1), of "set held \<union> set ?sy"] u(2) by simp
    have "held_after (sched_free_buffers held) (set held) = Some {}"
      using held_free [OF assms(1), of "set held"] assms(2) by auto
    with a r False assms(3) show ?thesis by (auto simp: start_sync_def Let_def held_append)
  qed
qed

text \<open>The stages of \<open>sched_start\<close>: the first six allocations, the logit rows, the batch.\<close>

lemma first_undone:
  assumes "got = filter can [Ms, Seq, WIdx, WTk, WPs, WOut]"
  shows "held_after (map Acquire got @ (if can Ms then [Release Ms] else []) @ sched_free_buffers got) {} = Some {}"
proof -
  have "held_after (map Acquire got) {} = Some (set got)" using held_acquire [of got "{}"] by (simp add: assms)
  moreover have "held_after (if can Ms then [Release Ms] else []) (set got) = Some (set got - {Ms})" by (auto simp: assms)
  moreover have "held_after (map Release (filter buffer got)) (set got - {Ms}) = Some (set got - {Ms} - set (filter buffer got))"
    by (rule held_release) (auto simp: assms)
  moreover have "set got - {Ms} - set (filter buffer got) = {}" by (auto simp: assms)
  ultimately show ?thesis by (simp add: held_append sched_free_buffers_def del: set_filter)
qed

lemma buffers_undone:
  assumes "distinct b" "\<forall>r \<in> set b. buffer r"
  shows "held_after ([Release Ms] @ sched_free_buffers (Ms # b)) (set (Ms # b)) = Some {}"
proof -
  have "held_after [Release Ms] (set (Ms # b)) = Some (set b)" using assms(2) by auto
  moreover have "held_after (sched_free_buffers b) (set b) = Some {}" using held_free [OF assms(1), of "set b"] assms(2) by auto
  moreover have "sched_free_buffers (Ms # b) = sched_free_buffers b" by (simp add: sched_free_buffers_def)
  ultimately show ?thesis by (simp only: held_append option.case)
qed

lemma batch_held:
  assumes "distinct b" "\<forall>r \<in> set b. buffer r" "Batch \<notin> set b" "start_batch can (Ms # b) = (ok, t)"
  shows "held_after t (set (Ms # b)) = Some (if ok then set (b @ [Batch]) \<union> set sync_order else {})"
proof (cases "can Batch")
  case False
  then have "ok = False" "t = [Release Ms] @ sched_free_buffers (Ms # b)" using assms(4) by (simp_all add: start_batch_def)
  then show ?thesis using buffers_undone [OF assms(1,2)] by (simp only: if_False)
next
  case True
  obtain t' where t': "start_sync can ((Ms # b) @ [Batch]) = (ok, t')" "t = [Acquire Batch, Release Ms] @ t'"
    using assms(4) True by (auto simp: start_batch_def split: prod.splits)
  have "start_sync can ((Ms # b) @ [Batch]) = start_sync can (b @ [Batch])"
    by (simp add: start_sync_def sched_free_buffers_def Let_def)
  with t'(1) have "held_after t' (set (b @ [Batch])) = Some (if ok then set (b @ [Batch]) \<union> set sync_order else {})"
    using sync_held [of "b @ [Batch]" can ok t'] assms(1-3) by auto
  moreover have "held_after [Acquire Batch, Release Ms] (set (Ms # b)) = Some (set (b @ [Batch]))" using assms(2,3) by auto
  ultimately show ?thesis unfolding t'(2) by (simp only: held_append option.case)
qed

abbreviation running :: "nat \<Rightarrow> res list" where
  "running n \<equiv> [Seq, WIdx, WTk, WPs, WOut] @ map Logits [0..<n] @ [Batch]"

lemma shutdown_held: "held_after (sched_shutdown n) (set (running n) \<union> set sync_order) = Some {}"
proof -
  have d: "distinct (running n)" "\<forall>r \<in> set (running n). buffer r" by (auto simp: distinct_map inj_on_def)
  have "held_after (map Release [Thread, SlotCv, DecCv, DevCv, DevMu, Mu]) (set (running n) \<union> set sync_order)
      = Some (set (running n) \<union> set sync_order - set [Thread, SlotCv, DecCv, DevCv, DevMu, Mu])"
    by (rule held_release) (auto simp: sync_order_def)
  moreover have "set (running n) \<union> set sync_order - set [Thread, SlotCv, DecCv, DevCv, DevMu, Mu] = set (running n)"
    by (auto simp: sync_order_def)
  moreover have "held_after (sched_free_buffers (running n)) (set (running n)) = Some {}"
    using held_free [OF d(1), of "set (running n)"] d(2) by auto
  ultimately show ?thesis unfolding sched_shutdown_def by (simp only: held_append option.case)
qed

lemma start_held:
  assumes "sched_start can n n_reg = (ok, t)"
  shows "held_after t {} = Some (if ok then set (running n) \<union> set sync_order else {})"
proof (cases "n < 2 \<or> n_reg > 0 \<or> length (filter can [Ms, Seq, WIdx, WTk, WPs, WOut]) < 6")
  case True
  then show ?thesis using assms first_undone [OF refl, of can]
    by (cases "n < 2 \<or> n_reg > 0") (auto simp: sched_start_def Let_def simp del: filter.simps)
next
  case False
  let ?first = "[Ms, Seq, WIdx, WTk, WPs, WOut]" and ?lg = "takeWhile can (map Logits [0..<n])"
  let ?b = "tl ?first @ ?lg"
  have got: "filter can ?first = ?first" using False by (auto split: if_splits)
  have lg: "\<forall>r \<in> set ?lg. \<exists>i. r = Logits i" by (fastforce dest: set_takeWhileD)
  have "distinct ?lg" by (intro distinct_takeWhile) (simp add: distinct_map inj_on_def)
  then have b: "distinct ?b" "\<forall>r \<in> set ?b. buffer r" "Batch \<notin> set ?b" using lg by auto
  have "distinct (Ms # ?b)" using b by auto
  from held_acquire [OF this, of "{}"] have a: "held_after (map Acquire (Ms # ?b)) {} = Some (set (Ms # ?b))"
    by (simp only: Int_empty_right simp_thms Un_empty_left)
  show ?thesis
  proof (cases "length ?lg < n")
    case True
    then have "ok = False" "t = map Acquire (Ms # ?b) @ [Release Ms] @ sched_free_buffers (Ms # ?b)"
      using assms False unfolding sched_start_def Let_def got by simp_all
    then show ?thesis using a buffers_undone [OF b(1,2)] by (simp only: held_append option.case if_False)
  next
    case lgs: False
    then have L: "?lg = map Logits [0..<n]"
      by (metis diff_zero length_map length_upt not_less takeWhile_eq_take take_all)
    obtain t' where t': "start_batch can (Ms # ?b) = (ok, t')" "t = map Acquire (Ms # ?b) @ t'"
      using assms False lgs unfolding sched_start_def Let_def got by (simp split: prod.splits)
    have "?b @ [Batch] = running n" by (simp add: L)
    then show ?thesis using a batch_held [OF b t'(1)] unfolding t'(2) by (simp only: held_append option.case)
  qed
qed


end
