(* ===== verification/Gguf_Read.thy ===== *)
theory Gguf_Read
  imports Prelude Complex_Main "HOL-Library.List_Lexorder"
begin

section \<open>GGUF metadata: reading and typed access (gguf.c)\<close>

text \<open>
  The bounded cursor the file is read through, the metadata values, and the getters that give the
  rest of the program a number, a string or the caller's default. Integers are read with
  \<^verbatim>\<open>memcpy\<close> on a little-endian machine. An allocation is answered by the next entry of \<open>cu_heap\<close>,
  and succeeds when none is left, so every pattern of failures is a list.
\<close>

subsection \<open>Overflow checks (compat.h)\<close>

definition checked_u64_add :: "u64 \<Rightarrow> u64 \<Rightarrow> u64 option" where
  "checked_u64_add a b = (if b > - 1 - a then None else Some (a + b))"

definition checked_u64_mul :: "u64 \<Rightarrow> u64 \<Rightarrow> u64 option" where
  "checked_u64_mul a b = (if a \<noteq> 0 \<and> b > - 1 div a then None else Some (a * b))"

subsection \<open>The cursor\<close>

record cursor =
  cu_rest :: bytes
  cu_ok :: bool
  cu_want :: u64
  cu_heap :: "bool list"

definition need :: "u64 \<Rightarrow> cursor \<Rightarrow> bool \<times> cursor" where
  "need n c =
    (if \<not> cu_ok c then (False, c)
     else if length (cu_rest c) < unat n then (False, c\<lparr>cu_ok := False, cu_want := n\<rparr>)
     else (True, c))"

text \<open>The value of little-endian bytes.\<close>

fun le_nat :: "bytes \<Rightarrow> nat" where
  "le_nat [] = 0"
| "le_nat (b # bs) = unat b + 256 * le_nat bs"

text \<open>\<^verbatim>\<open>rd_u8\<close>, \<^verbatim>\<open>rd_u16\<close>, \<^verbatim>\<open>rd_u32\<close> and \<^verbatim>\<open>rd_u64\<close> are \<open>rd_le\<close> at 1, 2, 4 and 8 bytes.\<close>

definition rd_le :: "nat \<Rightarrow> cursor \<Rightarrow> nat \<times> cursor" where
  "rd_le k c =
    (case need (of_nat k) c of (ok, c) \<Rightarrow>
       if ok then (le_nat (take k (cu_rest c)), c\<lparr>cu_rest := drop k (cu_rest c)\<rparr>) else (0, c))"

definition alloc :: "cursor \<Rightarrow> bool \<times> cursor" where
  "alloc c = (case cu_heap c of [] \<Rightarrow> (True, c) | b # bs \<Rightarrow> (b, c\<lparr>cu_heap := bs\<rparr>))"

definition rd_str :: "cursor \<Rightarrow> bytes option \<times> cursor" where
  "rd_str c =
    (case rd_le 8 c of (v, c) \<Rightarrow>
       let n = of_nat v :: u64 in
       if n > (- 1) - 1 then (None, c)
       else case need n c of (ok, c) \<Rightarrow>
         if \<not> ok then (None, c)
         else case alloc c of (got, c) \<Rightarrow>
           if \<not> got then (None, c)
           else (Some (take (unat n) (cu_rest c)), c\<lparr>cu_rest := drop (unat n) (cu_rest c)\<rparr>))"

definition str_has_nul :: "bytes \<Rightarrow> bool" where
  "str_has_nul s \<longleftrightarrow> 0 \<in> set s"

subsection \<open>Metadata values\<close>

abbreviation (input) GGUF_T_U8 :: u32 where "GGUF_T_U8 \<equiv> 0"
abbreviation (input) GGUF_T_I8 :: u32 where "GGUF_T_I8 \<equiv> 1"
abbreviation (input) GGUF_T_U16 :: u32 where "GGUF_T_U16 \<equiv> 2"
abbreviation (input) GGUF_T_I16 :: u32 where "GGUF_T_I16 \<equiv> 3"
abbreviation (input) GGUF_T_U32 :: u32 where "GGUF_T_U32 \<equiv> 4"
abbreviation (input) GGUF_T_I32 :: u32 where "GGUF_T_I32 \<equiv> 5"
abbreviation (input) GGUF_T_F32 :: u32 where "GGUF_T_F32 \<equiv> 6"
abbreviation (input) GGUF_T_BOOL :: u32 where "GGUF_T_BOOL \<equiv> 7"
abbreviation (input) GGUF_T_STR :: u32 where "GGUF_T_STR \<equiv> 8"
abbreviation (input) GGUF_T_ARR :: u32 where "GGUF_T_ARR \<equiv> 9"
abbreviation (input) GGUF_T_U64 :: u32 where "GGUF_T_U64 \<equiv> 10"
abbreviation (input) GGUF_T_I64 :: u32 where "GGUF_T_I64 \<equiv> 11"
abbreviation (input) GGUF_T_F64 :: u32 where "GGUF_T_F64 \<equiv> 12"

text \<open>The value an IEEE bit pattern stands for: the union member \<^verbatim>\<open>f64\<close>.\<close>

datatype fp = Finite rat | Special

definition fp_value :: "bool \<Rightarrow> nat \<Rightarrow> nat \<Rightarrow> nat \<Rightarrow> nat \<Rightarrow> fp" where
  "fp_value neg e m ebits mbits =
    (if e = 2 ^ ebits - 1 then Special
     else let bias = 2 ^ (ebits - 1) - 1;
              sig = (if e = 0 then m else 2 ^ mbits + m);
              ex = (if e = 0 then 1 else e);
              v = (if ex \<ge> bias + mbits then of_nat (sig * 2 ^ (ex - (bias + mbits)))
                   else of_nat sig / of_nat (2 ^ (bias + mbits - ex)))
          in Finite (if neg then - v else v))"

definition f32_from_bits :: "u32 \<Rightarrow> fp" where
  "f32_from_bits u = fp_value (bit u 31) (unat (drop_bit 23 u AND 0xff)) (unat (u AND 0x7fffff)) 8 23"

definition f64_from_bits :: "u64 \<Rightarrow> fp" where
  "f64_from_bits u = fp_value (bit u 63) (unat (drop_bit 52 u AND 0x7ff)) (unat (u AND 0xfffffffffffff)) 11 52"

text \<open>
  The union's members are fields of their own: each is written and read under the same types only.
  A string array is its strings, and a scalar array the bytes \<^verbatim>\<open>arr_raw\<close> points to.
\<close>

record gguf_kv =
  kv_key :: bytes
  kv_type :: u32
  kv_u64 :: u64
  kv_i64 :: int
  kv_f64 :: fp
  kv_b :: bool
  kv_raw :: u64
  kv_str :: bytes
  kv_arr_type :: u32
  kv_arr_n :: u64
  kv_arr_raw :: "bytes option"
  kv_arr_str :: "bytes list"

definition kv_new :: "bytes \<Rightarrow> u32 \<Rightarrow> gguf_kv" where
  "kv_new key ty = \<lparr>kv_key = key, kv_type = ty, kv_u64 = 0, kv_i64 = 0, kv_f64 = Finite 0, kv_b = False,
     kv_raw = 0, kv_str = [], kv_arr_type = 0, kv_arr_n = 0, kv_arr_raw = None, kv_arr_str = []\<rparr>"

definition gguf_scalar_size :: "u32 \<Rightarrow> nat" where
  "gguf_scalar_size ty =
    (if ty = GGUF_T_U8 \<or> ty = GGUF_T_I8 \<or> ty = GGUF_T_BOOL then 1
     else if ty = GGUF_T_U16 \<or> ty = GGUF_T_I16 then 2
     else if ty = GGUF_T_U32 \<or> ty = GGUF_T_I32 \<or> ty = GGUF_T_F32 then 4
     else if ty = GGUF_T_U64 \<or> ty = GGUF_T_I64 \<or> ty = GGUF_T_F64 then 8 else 0)"

text \<open>The scalar cases of \<open>rd_kv_value\<close>, given what was read.\<close>

definition kv_scalar :: "u32 \<Rightarrow> nat \<Rightarrow> gguf_kv \<Rightarrow> gguf_kv" where
  "kv_scalar ty v kv =
    (if ty = GGUF_T_U8 \<or> ty = GGUF_T_U16 \<or> ty = GGUF_T_U32 \<or> ty = GGUF_T_U64 then kv\<lparr>kv_u64 := of_nat v\<rparr>
     else if ty = GGUF_T_I8 then kv\<lparr>kv_i64 := sint (of_nat v :: 8 word)\<rparr>
     else if ty = GGUF_T_I16 then kv\<lparr>kv_i64 := sint (of_nat v :: 16 word)\<rparr>
     else if ty = GGUF_T_I32 then kv\<lparr>kv_i64 := sint (of_nat v :: 32 word)\<rparr>
     else if ty = GGUF_T_I64 then kv\<lparr>kv_i64 := sint (of_nat v :: 64 word)\<rparr>
     else if ty = GGUF_T_F32 then kv\<lparr>kv_raw := of_nat v, kv_f64 := f32_from_bits (of_nat v)\<rparr>
     else if ty = GGUF_T_F64 then kv\<lparr>kv_raw := of_nat v, kv_f64 := f64_from_bits (of_nat v)\<rparr>
     else kv\<lparr>kv_b := (v \<noteq> 0)\<rparr>)"

text \<open>Reading \<open>n\<close> strings, each without a NUL byte.\<close>

fun rd_strs :: "nat \<Rightarrow> cursor \<Rightarrow> bytes list option \<times> cursor" where
  "rd_strs 0 c = (Some [], c)"
| "rd_strs (Suc n) c =
    (case rd_str c of
       (None, c) \<Rightarrow> (None, c)
     | (Some s, c) \<Rightarrow>
        if str_has_nul s then (None, c)
        else case rd_strs n c of (r, c) \<Rightarrow> (map_option ((#) s) r, c))"

definition rd_arr_strs :: "u64 \<Rightarrow> cursor \<Rightarrow> bytes list option \<times> cursor" where
  "rd_arr_strs n c =
    (if n > of_nat (length (cu_rest c)) div 8 then
       (None, c\<lparr>cu_ok := False, cu_want := (if n > - 1 div 8 then - 1 else n * 8)\<rparr>)
     else if n > - 1 div 16 then (None, c)
     else case alloc c of (got, c) \<Rightarrow>
       if n > 0 \<and> \<not> got then (None, c) else rd_strs (unat n) c)"

definition rd_arr_raw :: "u32 \<Rightarrow> u64 \<Rightarrow> cursor \<Rightarrow> bytes option \<times> cursor" where
  "rd_arr_raw ty n c =
    (let es = of_nat (gguf_scalar_size ty) :: u64 in
     if es = 0 \<or> n > - 1 div es then (None, c)
     else case need (es * n) c of (ok, c) \<Rightarrow>
       if \<not> ok then (None, c)
       else (Some (take (unat (es * n)) (cu_rest c)), c\<lparr>cu_rest := drop (unat (es * n)) (cu_rest c)\<rparr>))"

definition rd_array :: "gguf_kv \<Rightarrow> cursor \<Rightarrow> gguf_kv option \<times> cursor" where
  "rd_array kv c =
    (case rd_le 4 c of (aty, c) \<Rightarrow> case rd_le 8 c of (an, c) \<Rightarrow>
       let ty = of_nat aty; n = of_nat an; kv = kv\<lparr>kv_arr_type := ty, kv_arr_n := n\<rparr> in
       if ty = GGUF_T_STR then
         (case rd_arr_strs n c of (None, c) \<Rightarrow> (None, c) | (Some ss, c) \<Rightarrow> (Some (kv\<lparr>kv_arr_str := ss\<rparr>), c))
       else if ty < GGUF_T_F64 + 1 \<and> ty \<noteq> GGUF_T_ARR then
         (case rd_arr_raw ty n c of (None, c) \<Rightarrow> (None, c) | (Some r, c) \<Rightarrow> (Some (kv\<lparr>kv_arr_raw := Some r\<rparr>), c))
       else (None, c))"

definition rd_kv_value :: "gguf_kv \<Rightarrow> u32 \<Rightarrow> cursor \<Rightarrow> gguf_kv option \<times> cursor" where
  "rd_kv_value kv ty c =
    (if ty = GGUF_T_STR then
       (case rd_str c of (None, c) \<Rightarrow> (None, c)
        | (Some s, c) \<Rightarrow> (if str_has_nul s then None else Some (kv\<lparr>kv_str := s\<rparr>), c))
     else if ty = GGUF_T_ARR then
       (case rd_array kv c of (r, c) \<Rightarrow> (if cu_ok c then r else None, c))
     else if ty \<le> GGUF_T_F64 then
       (case rd_le (gguf_scalar_size ty) c of (v, c) \<Rightarrow>
          (if cu_ok c then Some (kv_scalar ty v kv) else None, c))
     else (None, c))"

subsection \<open>Typed access\<close>

definition gguf_get :: "gguf_kv list \<Rightarrow> bytes \<Rightarrow> gguf_kv option" where
  "gguf_get kvs key = find (\<lambda>kv. kv_key kv = key) kvs"

definition kv_is_unsigned :: "u32 \<Rightarrow> bool" where
  "kv_is_unsigned t \<longleftrightarrow> t = GGUF_T_U8 \<or> t = GGUF_T_U16 \<or> t = GGUF_T_U32 \<or> t = GGUF_T_U64"

definition kv_is_signed :: "u32 \<Rightarrow> bool" where
  "kv_is_signed t \<longleftrightarrow> t = GGUF_T_I8 \<or> t = GGUF_T_I16 \<or> t = GGUF_T_I32 \<or> t = GGUF_T_I64"

definition raw_f32_finite :: "u32 \<Rightarrow> bool" where
  "raw_f32_finite u \<longleftrightarrow> u AND 0x7f800000 \<noteq> 0x7f800000"

definition raw_f32_negative :: "u32 \<Rightarrow> bool" where
  "raw_f32_negative u \<longleftrightarrow> drop_bit 31 u \<noteq> 0"

definition raw_f64_finite :: "u64 \<Rightarrow> bool" where
  "raw_f64_finite u \<longleftrightarrow> u AND 0x7ff0000000000000 \<noteq> 0x7ff0000000000000"

definition raw_f64_negative :: "u64 \<Rightarrow> bool" where
  "raw_f64_negative u \<longleftrightarrow> drop_bit 63 u \<noteq> 0"

text \<open>
  The float branch of \<^verbatim>\<open>gguf_get_u32\<close>: \<open>d\<close> is compared as the number it stands for, and its
  conversion to \<^verbatim>\<open>uint32_t\<close>, reached within the range only, truncates.
\<close>

definition u32_of_float :: "gguf_kv \<Rightarrow> u32 \<Rightarrow> u32" where
  "u32_of_float kv dflt =
    (let finite = (if kv_type kv = GGUF_T_F32 then raw_f32_finite (ucast (kv_raw kv)) else raw_f64_finite (kv_raw kv));
         negative = (if kv_type kv = GGUF_T_F32 then raw_f32_negative (ucast (kv_raw kv)) else raw_f64_negative (kv_raw kv))
     in case kv_f64 kv of
          Special \<Rightarrow> dflt
        | Finite d \<Rightarrow>
          if \<not> finite \<or> negative \<or> d > of_nat (2 ^ 32 - 1) \<or> d \<noteq> of_int \<lfloor>d\<rfloor> then dflt
          else of_int \<lfloor>d\<rfloor>)"

definition kv_get_u32 :: "gguf_kv \<Rightarrow> u32 \<Rightarrow> u32" where
  "kv_get_u32 kv dflt =
    (if kv_is_unsigned (kv_type kv) then (if kv_u64 kv \<le> 0xffffffff then ucast (kv_u64 kv) else dflt)
     else if kv_is_signed (kv_type kv) then
       (if 0 \<le> kv_i64 kv \<and> kv_i64 kv \<le> 0xffffffff then of_int (kv_i64 kv) else dflt)
     else if kv_type kv = GGUF_T_F32 \<or> kv_type kv = GGUF_T_F64 then u32_of_float kv dflt
     else dflt)"

definition gguf_get_u32 :: "gguf_kv list \<Rightarrow> bytes \<Rightarrow> u32 \<Rightarrow> u32" where
  "gguf_get_u32 kvs key dflt = (case gguf_get kvs key of None \<Rightarrow> dflt | Some kv \<Rightarrow> kv_get_u32 kv dflt)"

text \<open>The element of an array at an index: its bytes, from \<^verbatim>\<open>p + idx * k\<close>.\<close>

definition elem_at :: "nat \<Rightarrow> bytes \<Rightarrow> nat \<Rightarrow> nat" where
  "elem_at k p i = le_nat (take k (drop (i * k) p))"

definition signed_elem :: "nat \<Rightarrow> bytes \<Rightarrow> nat \<Rightarrow> int" where
  "signed_elem k p i = signed_take_bit (8 * k - 1) (int (elem_at k p i))"

definition idx_get_u32 :: "u32 \<Rightarrow> bytes \<Rightarrow> nat \<Rightarrow> u32 \<Rightarrow> u32" where
  "idx_get_u32 ty p i dflt =
    (if ty = GGUF_T_U8 then of_nat (elem_at 1 p i)
     else if ty = GGUF_T_I8 then (if signed_elem 1 p i \<ge> 0 then of_int (signed_elem 1 p i) else dflt)
     else if ty = GGUF_T_U16 then of_nat (elem_at 2 p i)
     else if ty = GGUF_T_I16 then (if signed_elem 2 p i \<ge> 0 then of_int (signed_elem 2 p i) else dflt)
     else if ty = GGUF_T_U32 then of_nat (elem_at 4 p i)
     else if ty = GGUF_T_I32 then (if signed_elem 4 p i \<ge> 0 then of_int (signed_elem 4 p i) else dflt)
     else if ty = GGUF_T_U64 then (if elem_at 8 p i \<le> 0xffffffff then of_nat (elem_at 8 p i) else dflt)
     else if ty = GGUF_T_I64 then
       (if signed_elem 8 p i \<ge> 0 \<and> signed_elem 8 p i \<le> 0xffffffff then of_int (signed_elem 8 p i) else dflt)
     else dflt)"

definition gguf_get_u32_idx :: "gguf_kv list \<Rightarrow> bytes \<Rightarrow> u64 \<Rightarrow> u32 \<Rightarrow> u32" where
  "gguf_get_u32_idx kvs key idx dflt =
    (case gguf_get kvs key of None \<Rightarrow> dflt
     | Some kv \<Rightarrow>
       if kv_type kv \<noteq> GGUF_T_ARR then gguf_get_u32 kvs key dflt
       else case kv_arr_raw kv of None \<Rightarrow> dflt
            | Some p \<Rightarrow> if idx \<ge> kv_arr_n kv then dflt else idx_get_u32 (kv_arr_type kv) p (unat idx) dflt)"

definition idx_get_u64 :: "u32 \<Rightarrow> bytes \<Rightarrow> nat \<Rightarrow> u64 \<Rightarrow> u64" where
  "idx_get_u64 ty p i dflt =
    (if ty = GGUF_T_U8 then of_nat (elem_at 1 p i)
     else if ty = GGUF_T_U16 then of_nat (elem_at 2 p i)
     else if ty = GGUF_T_U32 then of_nat (elem_at 4 p i)
     else if ty = GGUF_T_I32 then (if signed_elem 4 p i \<ge> 0 then of_int (signed_elem 4 p i) else dflt)
     else if ty = GGUF_T_U64 then of_nat (elem_at 8 p i)
     else if ty = GGUF_T_I64 then (if signed_elem 8 p i \<ge> 0 then of_int (signed_elem 8 p i) else dflt)
     else dflt)"

definition gguf_get_u64_idx :: "gguf_kv list \<Rightarrow> bytes \<Rightarrow> u64 \<Rightarrow> u64 \<Rightarrow> u64" where
  "gguf_get_u64_idx kvs key idx dflt =
    (case gguf_get kvs key of None \<Rightarrow> dflt
     | Some kv \<Rightarrow>
       if kv_type kv \<noteq> GGUF_T_ARR \<or> idx \<ge> kv_arr_n kv then dflt
       else case kv_arr_raw kv of None \<Rightarrow> dflt | Some p \<Rightarrow> idx_get_u64 (kv_arr_type kv) p (unat idx) dflt)"

definition gguf_get_bool :: "gguf_kv list \<Rightarrow> bytes \<Rightarrow> bool \<Rightarrow> bool" where
  "gguf_get_bool kvs key dflt =
    (case gguf_get kvs key of Some kv \<Rightarrow> if kv_type kv = GGUF_T_BOOL then kv_b kv else dflt | None \<Rightarrow> dflt)"

text \<open>\<open>None\<close> as the default of \<^verbatim>\<open>gguf_get_str\<close> is \<^verbatim>\<open>NULL\<close>.\<close>

definition gguf_get_str :: "gguf_kv list \<Rightarrow> bytes \<Rightarrow> bytes option \<Rightarrow> bytes option" where
  "gguf_get_str kvs key dflt =
    (case gguf_get kvs key of Some kv \<Rightarrow> if kv_type kv = GGUF_T_STR then Some (kv_str kv) else dflt | None \<Rightarrow> dflt)"

end
