(* ===== verification/Gguf_Open.thy ===== *)
theory Gguf_Open
  imports Gguf_Read
begin

section \<open>Opening a GGUF file (gguf.c, quants.c)\<close>

text \<open>
  The tensor table, its validation against the mapping, split files and attached files. A mapping
  is its address and its bytes; \<^verbatim>\<open>plat_mmap_ro\<close> is a parameter, and the messages on \<^verbatim>\<open>stderr\<close> are
  kept as the kind of error.
\<close>

datatype gg_error = Cannot_Map | Not_Gguf | Bad_Version | Too_Many | No_Memory | Truncated
  | Bad_Metadata | Bad_Tensor | Duplicate bytes | Bad_Layout | Fp16_Scales bytes
  | Bad_Split | Bad_Name | Missing_Part

text \<open>Sequencing a step that can fail.\<close>

fun then_do :: "'e + 'a \<Rightarrow> ('a \<Rightarrow> 'e + 'b) \<Rightarrow> 'e + 'b" where
  "then_do (Inl e) f = Inl e"
| "then_do (Inr a) f = f a"

subsection \<open>Tensor types (quants.c)\<close>

definition T_F32 :: u32 where "T_F32 = 0"
definition T_NVFP4 :: u32 where "T_NVFP4 = 40"

definition QK_types :: "u32 set" where "QK_types = {2, 3, 6, 7, 8, 20, 39}"
definition QK_K_types :: "u32 set" where "QK_K_types = {12, 13, 14, 10, 11, 23, 16, 17, 22, 18, 21, 19, 29}"

definition ggml_block_size :: "u32 \<Rightarrow> u64" where
  "ggml_block_size ty =
    (if ty \<in> QK_types then 32 else if ty = 40 \<or> ty = 42 then 64 else if ty \<in> QK_K_types then 256 else 1)"

text \<open>The sizes of the packed block structures, as computed from their fields.\<close>

definition type_sizes :: "(u32 \<times> u64) list" where
  "type_sizes = [(0, 4), (1, 2), (30, 2), (2, 2 + 16), (3, 4 + 16), (6, 2 + 4 + 16), (7, 4 + 4 + 16), (8, 2 + 32),
     (12, 4 + 12 + 128), (13, 4 + 12 + 32 + 128), (14, 128 + 64 + 16 + 2), (10, 16 + 64 + 4), (11, 32 + 64 + 12 + 2),
     (20, 2 + 16), (23, 2 + 2 + 4 + 128), (16, 2 + 64), (17, 2 + 64 + 8), (22, 2 + 64 + 8 + 8), (18, 2 + 96),
     (21, 2 + 64 + 8 + 32 + 4), (19, 2 + 32 + 16), (29, 32 + 16 + 8), (39, 1 + 16), (40, 4 + 32), (42, 2 + 16)]"

definition ggml_type_size :: "u32 \<Rightarrow> u64" where
  "ggml_type_size ty = (case map_of type_sizes ty of None \<Rightarrow> 1 | Some n \<Rightarrow> n)"

definition ggml_type_supported :: "u32 \<Rightarrow> bool" where
  "ggml_type_supported ty \<longleftrightarrow>
    ty \<in> {0, 1, 30} \<or> ty \<in> {2, 3, 6, 7, 8} \<or> ty \<in> {10, 11, 12, 13, 14} \<or> ty \<in> {20, 23, 39, 40}
    \<or> ty \<in> {16, 17, 22} \<or> ty \<in> {18, 21, 19, 29} \<or> ty = 42"

subsection \<open>The tensor table\<close>

text \<open>\<open>t_data\<close> holds the stored offset until the tensor is placed, and a pointer from then on.\<close>

record gguf_tensor =
  t_name :: bytes
  t_type :: u32
  t_dims :: u32
  t_ne :: "u64 list"
  t_data :: u64
  t_nbytes :: u64
  t_scale :: u32

type_synonym mapping = "u64 \<times> bytes"

record gguf_file =
  g_map :: mapping
  g_maps :: "mapping list"
  g_mapped_size :: u64
  g_version :: u32
  g_kv :: "gguf_kv list"
  g_tensors :: "gguf_tensor list"
  g_header_only :: bool
  g_data_bytes :: u64

text \<open>One metadata entry, and all of them.\<close>

definition rd_kv :: "cursor \<Rightarrow> gg_error + gguf_kv \<times> cursor" where
  "rd_kv c =
    (case rd_str c of
       (None, c) \<Rightarrow> Inl (if cu_ok c then Bad_Metadata else Truncated)
     | (Some key, c) \<Rightarrow>
        if str_has_nul key then Inl Bad_Metadata
        else case rd_le 4 c of (v, c) \<Rightarrow>
          case rd_kv_value (kv_new key (of_nat v)) (of_nat v) c of
            (None, c) \<Rightarrow> Inl (if cu_ok c then Bad_Metadata else Truncated)
          | (Some kv, c) \<Rightarrow> Inr (kv, c))"

fun rd_all :: "(cursor \<Rightarrow> gg_error + 'a \<times> cursor) \<Rightarrow> nat \<Rightarrow> cursor \<Rightarrow> gg_error + 'a list \<times> cursor" where
  "rd_all f 0 c = Inr ([], c)"
| "rd_all f (Suc n) c =
    then_do (f c) (\<lambda>(x, c). then_do (rd_all f n c) (\<lambda>(xs, c). Inr (x # xs, c)))"

fun rd_dims :: "nat \<Rightarrow> cursor \<Rightarrow> u64 list \<times> cursor" where
  "rd_dims 0 c = ([], c)"
| "rd_dims (Suc n) c = (case rd_le 8 c of (v, c) \<Rightarrow> case rd_dims n c of (ds, c) \<Rightarrow> (of_nat v # ds, c))"

definition F32_ONE :: u32 where "F32_ONE = 0x3f800000"

definition rd_tensor :: "cursor \<Rightarrow> gg_error + gguf_tensor \<times> cursor" where
  "rd_tensor c =
    (case rd_str c of
       (None, c) \<Rightarrow> Inl (if cu_ok c then No_Memory else Truncated)
     | (Some name, c) \<Rightarrow>
        if length name \<ge> 128 \<or> str_has_nul name then Inl Bad_Tensor
        else case rd_le 4 c of (nd, c) \<Rightarrow>
          if nd = 0 \<or> nd > 4 then Inl Bad_Tensor
          else case rd_dims nd c of (ds, c) \<Rightarrow> case rd_le 4 c of (ty, c) \<Rightarrow> case rd_le 8 c of (off, c) \<Rightarrow>
            Inr (\<lparr>t_name = name, t_type = of_nat ty, t_dims = of_nat nd, t_ne = ds @ replicate (4 - nd) 1,
                  t_data = of_nat off, t_nbytes = 0, t_scale = F32_ONE\<rparr>, c))"

subsection \<open>Duplicates\<close>

text \<open>The strings hold no NUL byte, so \<^verbatim>\<open>strcmp\<close> orders them as lists of unsigned bytes.\<close>

fun adjacent_dup :: "bytes list \<Rightarrow> bytes option" where
  "adjacent_dup (a # b # s) = (if a = b then Some b else adjacent_dup (b # s))"
| "adjacent_dup _ = None"

definition first_duplicate_inplace :: "bytes list \<Rightarrow> bytes option" where
  "first_duplicate_inplace s = (if length s < 2 then None else adjacent_dup (sort s))"

definition reject_duplicates :: "bytes list \<Rightarrow> cursor \<Rightarrow> gg_error + cursor" where
  "reject_duplicates s c =
    (if length s > 1 then
       (case alloc c of (got, c) \<Rightarrow>
          if \<not> got then Inl No_Memory
          else case first_duplicate_inplace s of Some d \<Rightarrow> Inl (Duplicate d) | None \<Rightarrow> Inr c)
     else Inr c)"

subsection \<open>Placing the tensors\<close>

definition data_align :: "gguf_kv list \<Rightarrow> u64" where
  "data_align kvs =
    (let a = ucast (gguf_get_u32 kvs (ascii ''general.alignment'') 32) :: u64
     in if a = 0 \<or> a AND (a - 1) \<noteq> 0 then 32 else a)"

definition data_start :: "u64 \<Rightarrow> u64 \<Rightarrow> u64 option" where
  "data_start header_end align =
    map_option (\<lambda>e. e AND NOT (align - 1)) (checked_u64_add header_end (align - 1))"

text \<open>The size of a tensor's data, when its shape is valid and the product fits.\<close>

definition tensor_nbytes :: "gguf_tensor \<Rightarrow> u64 option" where
  "tensor_nbytes t =
    (let ne = (\<lambda>i. t_ne t ! i); bs = ggml_block_size (t_type t); INT_MAX = 0x7fffffff in
     if ne 0 = 0 \<or> ne 0 > INT_MAX \<or> ne 0 mod bs \<noteq> 0 \<or> ne 1 = 0 \<or> ne 1 > INT_MAX
       \<or> ne 2 = 0 \<or> ne 2 > INT_MAX \<or> ne 3 = 0 \<or> ne 3 > INT_MAX then None
     else Option.bind (checked_u64_mul (ne 1) (ne 2)) (\<lambda>rows.
          Option.bind (checked_u64_mul rows (ne 3)) (\<lambda>rows.
          Option.bind (checked_u64_mul (ne 0 div bs) (ggml_type_size (t_type t))) (\<lambda>row_bytes.
          checked_u64_mul row_bytes rows))))"

text \<open>
  One tensor: \<open>data_bytes\<close> is the span the header-only mode records. The two subtractions do not wrap,
  since \<^verbatim>\<open>data_start\<close> is within the file.
\<close>

definition place_tensor :: "bool \<Rightarrow> mapping \<Rightarrow> u64 \<Rightarrow> gguf_tensor \<Rightarrow> u64 \<Rightarrow> gg_error + gguf_tensor \<times> u64" where
  "place_tensor header_only m dstart t data_bytes =
    (let map_size = of_nat (length (snd m)) in
     if \<not> ggml_type_supported (t_type t) then Inr (t\<lparr>t_data := 0, t_nbytes := 0\<rparr>, data_bytes)
     else case tensor_nbytes t of None \<Rightarrow> Inl Bad_Tensor
       | Some nbytes \<Rightarrow>
         let off = t_data t in
         if header_only then
           (case checked_u64_add off nbytes of None \<Rightarrow> Inl Bad_Tensor
            | Some e \<Rightarrow> Inr (t\<lparr>t_data := 0, t_nbytes := nbytes\<rparr>, if e > data_bytes then e else data_bytes))
         else if off > map_size - dstart \<or> nbytes > map_size - dstart - off then Inl Bad_Tensor
         else Inr (t\<lparr>t_data := fst m + dstart + off, t_nbytes := nbytes\<rparr>, data_bytes))"

fun place_all :: "bool \<Rightarrow> mapping \<Rightarrow> u64 \<Rightarrow> gguf_tensor list \<Rightarrow> u64 \<Rightarrow> gg_error + gguf_tensor list \<times> u64" where
  "place_all ho m ds [] db = Inr ([], db)"
| "place_all ho m ds (t # ts) db =
    then_do (place_tensor ho m ds t db) (\<lambda>(t, db). then_do (place_all ho m ds ts db) (\<lambda>(ts, db). Inr (t # ts, db)))"

subsection \<open>The NVFP4 layout check\<close>

text \<open>
  The tensors in the order of their addresses; the span of each runs to the next one, and the last
  one's to the value the code takes for the end.
\<close>

definition variant_layout :: "u64 \<Rightarrow> gguf_tensor \<Rightarrow> u64 \<Rightarrow> bool" where
  "variant_layout align t next_off =
    (t_type t = T_NVFP4 \<and> t_nbytes t \<noteq> 0 \<and>
     (let off = t_data t;
          span = (if next_off > off then next_off - off else 0);
          variant = t_nbytes t div 36 * 40
      in span \<ge> variant \<and> variant > t_nbytes t + align))"

fun check_layout :: "u64 \<Rightarrow> u64 \<Rightarrow> gguf_tensor list \<Rightarrow> gg_error option" where
  "check_layout align end_off [] = None"
| "check_layout align end_off [t] = (if variant_layout align t end_off then Some (Fp16_Scales (t_name t)) else None)"
| "check_layout align end_off (t # u # ts) =
    (if variant_layout align t (t_data u) then Some (Fp16_Scales (t_name t)) else check_layout align end_off (u # ts))"

definition nvfp4_check :: "bool \<Rightarrow> u64 \<Rightarrow> u64 \<Rightarrow> u64 \<Rightarrow> gguf_tensor list \<Rightarrow> cursor \<Rightarrow> gg_error + cursor" where
  "nvfp4_check header_only align map_size dstart ts c =
    (if \<not> header_only \<and> ts \<noteq> [] then
       (case alloc c of (got, c) \<Rightarrow>
          if got then
            (case check_layout align (map_size - dstart) (sort_key t_data ts) of Some e \<Rightarrow> Inl e | None \<Rightarrow> Inr c)
          else Inr c)
     else Inr c)"

subsection \<open>\<open>gguf_open_one_x\<close>\<close>

text \<open>The header: what is read up to the end of the tensor table, with the duplicate checks.\<close>

definition read_counts :: "cursor \<Rightarrow> gg_error + (u32 \<times> nat \<times> nat) \<times> cursor" where
  "read_counts c =
    (case rd_le 4 c of (magic, c) \<Rightarrow>
       if magic \<noteq> 0x46554747 then Inl Not_Gguf
       else case rd_le 4 c of (v, c) \<Rightarrow>
         if v < 2 \<or> v > 3 then Inl Bad_Version
         else case rd_le 8 c of (nt, c) \<Rightarrow> case rd_le 8 c of (nk, c) \<Rightarrow>
           if nt > 100000 \<or> nk > 100000 then Inl Too_Many else Inr ((of_nat v, nt, nk), c))"

definition alloc_n :: "nat \<Rightarrow> cursor \<Rightarrow> gg_error + cursor" where
  "alloc_n n c = (case alloc c of (got, c) \<Rightarrow> if n > 0 \<and> \<not> got then Inl No_Memory else Inr c)"

definition read_header :: "cursor \<Rightarrow> gg_error + (u32 \<times> gguf_kv list \<times> gguf_tensor list) \<times> cursor" where
  "read_header c =
    then_do (read_counts c) (\<lambda>((v, nt, nk), c).
    then_do (alloc_n nk c) (\<lambda>c.
    then_do (rd_all rd_kv nk c) (\<lambda>(kvs, c).
    then_do (alloc_n nt c) (\<lambda>c.
    then_do (rd_all rd_tensor nt c) (\<lambda>(ts, c).
    if \<not> cu_ok c then Inl Truncated
    else then_do (reject_duplicates (map kv_key kvs) c) (\<lambda>c.
         then_do (reject_duplicates (map t_name ts) c) (\<lambda>c.
         Inr ((v, kvs, ts), c))))))))"

definition cursor_at :: "bytes \<Rightarrow> bool list \<Rightarrow> cursor" where
  "cursor_at bs heap = \<lparr>cu_rest = bs, cu_ok = True, cu_want = 0, cu_heap = heap\<rparr>"

definition gguf_open_one_x :: "bool list \<Rightarrow> mapping option \<Rightarrow> bool \<Rightarrow> gg_error + gguf_file" where
  "gguf_open_one_x heap file header_only =
    (case file of None \<Rightarrow> Inl Cannot_Map
     | Some m \<Rightarrow>
       if length (snd m) < 24 then Inl Cannot_Map
       else then_do (read_header (cursor_at (snd m) heap)) (\<lambda>((v, kvs, ts), c).
         let map_size = of_nat (length (snd m)) :: u64;
             align = data_align kvs
         in case data_start (of_nat (length (snd m) - length (cu_rest c))) align of None \<Rightarrow> Inl Bad_Layout
            | Some ds \<Rightarrow>
              if ds > map_size then Inl Bad_Layout
              else then_do (place_all header_only m ds ts 0) (\<lambda>(ts, data_bytes).
                   then_do (nvfp4_check header_only align map_size ds ts c) (\<lambda>_.
                     let g = \<lparr>g_map = m, g_maps = [], g_mapped_size = map_size, g_version = v, g_kv = kvs,
                              g_tensors = ts, g_header_only = header_only, g_data_bytes = data_bytes\<rparr> in
                     if header_only then
                       (case checked_u64_add ds data_bytes of None \<Rightarrow> Inl Bad_Layout
                        | Some whole \<Rightarrow> Inr (g\<lparr>g_mapped_size := whole\<rparr>))
                     else Inr g))))"

end
