(* ===== verification/Gguf_Format.thy ===== *)
theory Gguf_Format
  imports Gguf_Open
begin

section \<open>The GGUF format and what is accepted (gguf.c)\<close>

text \<open>
  The format as a writer of it: the bytes of each value, and the reader's two directions. What is
  written is read back, and what is read had been written so.
\<close>

subsection \<open>Little-endian numbers\<close>

fun le_bytes :: "nat \<Rightarrow> nat \<Rightarrow> bytes" where
  "le_bytes 0 n = []"
| "le_bytes (Suc k) n = of_nat n # le_bytes k (n div 256)"

lemma length_le_bytes [simp]: "length (le_bytes k n) = k"
  by (induction k arbitrary: n) auto

lemma le_nat_less: "le_nat bs < 256 ^ length bs"
proof (induction bs)
  case (Cons b bs)
  have "unat b + 256 * le_nat bs < 256 + 256 * le_nat bs" using u8_less [of b] by simp
  also have "\<dots> \<le> 256 * 256 ^ length bs" using Cons.IH by simp
  finally show ?case by simp
qed simp

lemma le_nat_bytes: "n < 256 ^ k \<Longrightarrow> le_nat (le_bytes k n) = n"
proof (induction k arbitrary: n)
  case (Suc k)
  have "n div 256 < 256 ^ k" using Suc.prems by (simp add: less_mult_imp_div_less mult.commute)
  then have "le_nat (le_bytes k (n div 256)) = n div 256" by (rule Suc.IH)
  moreover have "unat (of_nat n :: u8) = n mod 256" by (simp add: unsigned_of_nat take_bit_eq_mod)
  ultimately show ?case by simp
qed simp

lemma le_bytes_nat: "length bs = k \<Longrightarrow> le_bytes k (le_nat bs) = bs"
proof (induction bs arbitrary: k)
  case (Cons b bs)
  have "(of_nat 256 :: u8) = 0" by (simp add: word_unat_eq_iff unsigned_of_nat)
  then have "of_nat (unat b + 256 * le_nat bs) = b" by (simp only: of_nat_add of_nat_mult) simp
  moreover have "(unat b + 256 * le_nat bs) div 256 = le_nat bs" using u8_less [of b] by simp
  ultimately show ?case using Cons by auto
qed simp

lemma le_nat_eq_iff: "length bs = k \<Longrightarrow> le_nat bs = n \<longleftrightarrow> n < 256 ^ k \<and> bs = le_bytes k n"
  using le_nat_less [of bs] le_nat_bytes [of n k] le_bytes_nat [of bs k] by auto

subsection \<open>The cursor\<close>

lemma unat64_less: "unat (a :: u64) < 2 ^ 64"
  using unsigned_less [of a, where ?'a = nat] by simp

lemma unat_max: "unat (- 1 :: u64) = 2 ^ 64 - 1"
  by (simp add: unsigned_minus_1_eq_mask mask_eq_exp_minus_1)

lemma checked_add: "checked_u64_add a b = Some c \<longleftrightarrow> unat a + unat b < 2 ^ 64 \<and> unat c = unat a + unat b"
proof -
  have m: "unat (- 1 - a) = 2 ^ 64 - 1 - unat a" by (simp add: unat_sub word_order.extremum unat_max)
  have "b > - 1 - a \<longleftrightarrow> \<not> (unat a + unat b < 2 ^ 64)"
    using unat64_less [of a] unat64_less [of b] by (auto simp: word_less_nat_alt m)
  moreover have "unat a + unat b < 2 ^ 64 \<Longrightarrow> unat (a + b) = unat a + unat b"
    by (simp add: unat_word_ariths)
  ultimately show ?thesis by (auto simp: checked_u64_add_def word_unat_eq_iff)
qed

lemma checked_mul: "checked_u64_mul a b = Some c \<longleftrightarrow> unat a * unat b < 2 ^ 64 \<and> unat c = unat a * unat b"
proof -
  have m: "unat (- 1 div a) = (2 ^ 64 - 1) div unat a" by (simp add: unat_div unat_max)
  have "a \<noteq> 0 \<and> b > - 1 div a \<longleftrightarrow> \<not> (unat a * unat b < 2 ^ 64)"
  proof (cases "a = 0")
    case False
    then have p: "0 < unat a" by (simp add: unat_gt_0)
    have "unat b \<le> (2 ^ 64 - 1) div unat a \<longleftrightarrow> unat b * unat a \<le> 2 ^ 64 - 1"
      using less_eq_div_iff_mult_less_eq [OF p] by blast
    then show ?thesis using False by (auto simp: word_less_nat_alt m mult.commute not_le not_less)
  qed simp
  moreover have "unat a * unat b < 2 ^ 64 \<Longrightarrow> unat (a * b) = unat a * unat b"
    by (simp add: unat_word_ariths)
  ultimately show ?thesis by (auto simp: checked_u64_mul_def word_unat_eq_iff)
qed

text \<open>What reading leaves: the same cursor, further on.\<close>

lemma need_ok: "need n c = (True, c') \<longleftrightarrow> cu_ok c \<and> unat n \<le> length (cu_rest c) \<and> c' = c"
  by (auto simp: need_def)

lemma rd_le_read:
  assumes "cu_ok c" "cu_rest c = s @ r" "length s = k" "k < 2 ^ 64"
  shows "rd_le k c = (le_nat s, c\<lparr>cu_rest := r\<rparr>)"
proof -
  have "need (of_nat k) c = (True, c)" using assms by (simp add: need_ok unat_of_nat64)
  then show ?thesis using assms by (simp add: rd_le_def)
qed

lemma rd_le_inv:
  assumes "rd_le k c = (v, c')" "cu_ok c'" "k < 2 ^ 64"
  obtains s where "cu_ok c" "cu_rest c = s @ cu_rest c'" "length s = k" "v = le_nat s" "c' = c\<lparr>cu_rest := cu_rest c'\<rparr>"
proof -
  obtain ok c1 where n: "need (of_nat k) c = (ok, c1)" by (cases "need (of_nat k) c")
  show ?thesis
  proof (cases ok)
    case True
    with n have o: "cu_ok c" "k \<le> length (cu_rest c)" "c1 = c" using assms(3) by (auto simp: need_ok unat_of_nat64)
    then have "v = le_nat (take k (cu_rest c))" "c' = c\<lparr>cu_rest := drop k (cu_rest c)\<rparr>"
      using assms(1) n True by (auto simp: rd_le_def)
    with o show ?thesis by (intro that [of "take k (cu_rest c)"]) auto
  next
    case False
    then have "\<not> cu_ok c1" using n by (auto simp: need_def split: if_splits)
    then show ?thesis using assms n False by (auto simp: rd_le_def)
  qed
qed

lemma alloc_granted: "cu_heap c = [] \<Longrightarrow> alloc c = (True, c)"
  by (simp add: alloc_def)

lemma alloc_same: "alloc c = (got, c') \<Longrightarrow> cu_rest c' = cu_rest c \<and> cu_ok c' = cu_ok c \<and> cu_want c' = cu_want c"
  by (auto simp: alloc_def split: list.splits)

text \<open>
  Where a reader that does not fail leaves the cursor: \<open>moved s c c'\<close> says it took the bytes \<open>s\<close>.
\<close>

definition moved :: "bytes \<Rightarrow> cursor \<Rightarrow> cursor \<Rightarrow> bool" where
  "moved s c c' \<longleftrightarrow> cu_ok c \<and> cu_ok c' \<and> cu_rest c = s @ cu_rest c'"

lemma moved_trans: "moved s c c1 \<Longrightarrow> moved t c1 c2 \<Longrightarrow> moved (s @ t) c c2"
  by (simp add: moved_def)

lemma moved_refl: "cu_ok c \<Longrightarrow> moved [] c c"
  by (simp add: moved_def)

lemma rd_le_moved: "rd_le k c = (v, c') \<Longrightarrow> cu_ok c' \<Longrightarrow> k < 2 ^ 64 \<Longrightarrow> v < 256 ^ k \<and> moved (le_bytes k v) c c'"
  by (erule rd_le_inv, assumption, assumption) (auto simp: moved_def le_bytes_nat le_nat_less)

subsection \<open>Strings\<close>

definition enc_str :: "bytes \<Rightarrow> bytes" where
  "enc_str s = le_bytes 8 (length s) @ s"

lemma rd_str_read:
  assumes "cu_ok c" "cu_heap c = []" "cu_rest c = enc_str s @ r" "length s < 2 ^ 64 - 1"
  shows "rd_str c = (Some s, c\<lparr>cu_rest := r\<rparr>)"
proof -
  have l: "le_nat (le_bytes 8 (length s)) = length s" using assms(4) by (intro le_nat_bytes) simp
  have a: "rd_le 8 c = (length s, c\<lparr>cu_rest := s @ r\<rparr>)"
    using rd_le_read [of c "le_bytes 8 (length s)" "s @ r" 8] assms(1,3) l by (simp add: enc_str_def)
  have u: "unat (of_nat (length s) :: u64) = length s" using assms(4) by (intro unat_of_nat64) simp
  have m: "unat ((- 1) - 1 :: u64) = 2 ^ 64 - 2" by simp
  have "\<not> (of_nat (length s) :: u64) > (- 1) - 1" using u m assms(4) by (simp add: word_less_nat_alt del: unsigned_of_nat)
  then show ?thesis using assms(1,2) a u
    by (simp add: rd_str_def Let_def need_def alloc_def del: unsigned_of_nat)
qed

lemma rd_str_inv:
  assumes "rd_str c = (Some s, c')"
  shows "length s < 2 ^ 64 - 1 \<and> moved (enc_str s) c c'"
proof -
  obtain v c1 where a: "rd_le 8 c = (v, c1)" by (cases "rd_le 8 c")
  let ?n = "of_nat v :: u64"
  obtain ok c2 where n: "need ?n c1 = (ok, c2)" by (cases "need ?n c1")
  obtain got c3 where g: "alloc c2 = (got, c3)" by (cases "alloc c2")
  have big: "\<not> ?n > (- 1) - 1" and ok: "ok" and got: "got"
    and s: "s = take (unat ?n) (cu_rest c3)" "c' = c3\<lparr>cu_rest := drop (unat ?n) (cu_rest c3)\<rparr>"
    using assms a n g by (auto simp: rd_str_def Let_def split: if_splits)
  have n': "cu_ok c1" "unat ?n \<le> length (cu_rest c1)" "c2 = c1" using n ok by (simp_all add: need_ok)
  have m: "v < 256 ^ 8" "moved (le_bytes 8 v) c c1" using rd_le_moved [OF a n'(1)] by simp_all
  have v: "unat ?n = v" using m(1) by (intro unat_of_nat64) simp
  have same: "cu_rest c3 = cu_rest c1" "cu_ok c3" using alloc_same [OF g] n' by auto
  have "unat ((- 1) - 1 :: u64) = 2 ^ 64 - 2" by simp
  with big v have "v < 2 ^ 64 - 1" by (simp add: word_less_nat_alt del: unsigned_of_nat)
  moreover have "length s = v" using s(1) same n' v by simp
  moreover have "moved s c1 c'" using s same n' by (simp add: moved_def)
  ultimately show ?thesis using moved_trans [OF m(2)] by (simp add: enc_str_def)
qed

text \<open>A failing reader with the cursor intact ran out of memory, or met a length that no buffer holds.\<close>

fun enc_strs :: "bytes list \<Rightarrow> bytes" where
  "enc_strs [] = []"
| "enc_strs (s # ss) = enc_str s @ enc_strs ss"

lemma rd_strs_read:
  "cu_ok c \<Longrightarrow> cu_heap c = [] \<Longrightarrow> cu_rest c = enc_strs ss @ r \<Longrightarrow> \<forall>s \<in> set ss. length s < 2 ^ 64 - 1 \<and> 0 \<notin> set s \<Longrightarrow>
   rd_strs (length ss) c = (Some ss, c\<lparr>cu_rest := r\<rparr>)"
proof (induction ss arbitrary: c)
  case (Cons s ss)
  have "rd_str c = (Some s, c\<lparr>cu_rest := enc_strs ss @ r\<rparr>)" using Cons.prems by (intro rd_str_read) auto
  moreover have "rd_strs (length ss) (c\<lparr>cu_rest := enc_strs ss @ r\<rparr>) = (Some ss, c\<lparr>cu_rest := enc_strs ss @ r\<rparr>\<lparr>cu_rest := r\<rparr>)"
    using Cons.prems by (intro Cons.IH) auto
  ultimately show ?case using Cons.prems by (simp add: str_has_nul_def)
qed simp

lemma rd_strs_inv:
  "rd_strs n c = (Some ss, c') \<Longrightarrow> cu_ok c \<Longrightarrow>
   length ss = n \<and> (\<forall>s \<in> set ss. length s < 2 ^ 64 - 1 \<and> 0 \<notin> set s) \<and> moved (enc_strs ss) c c'"
proof (induction n arbitrary: c ss)
  case 0
  then show ?case by (simp add: moved_refl)
next
  case (Suc n)
  obtain s c1 where s: "rd_str c = (Some s, c1)" "\<not> str_has_nul s"
    using Suc.prems(1) by (auto split: prod.splits option.splits if_splits)
  then obtain ss' where ss: "rd_strs n c1 = (Some ss', c')" "ss = s # ss'"
    using Suc.prems(1) by (auto split: prod.splits)
  have "cu_ok c1" using rd_str_inv [OF s(1)] by (simp add: moved_def)
  from Suc.IH [OF ss(1) this] rd_str_inv [OF s(1)] s(2) ss(2) show ?case
    by (auto simp: str_has_nul_def intro: moved_trans)
qed

subsection \<open>Metadata values\<close>

text \<open>
  A value as the format has it: a scalar of a type with its bytes, a string, an array of strings, or
  an array of scalars, packed.
\<close>

datatype gval = Scalar u32 bytes | Str bytes | Strs "bytes list" | Packed u32 nat bytes

definition scalar_type :: "u32 \<Rightarrow> bool" where
  "scalar_type ty \<longleftrightarrow> ty \<le> GGUF_T_F64 \<and> ty \<noteq> GGUF_T_STR \<and> ty \<noteq> GGUF_T_ARR"

fun val_type :: "gval \<Rightarrow> u32" where
  "val_type (Scalar ty _) = ty" | "val_type (Str _) = GGUF_T_STR" | "val_type (Strs _) = GGUF_T_ARR" | "val_type (Packed _ _ _) = GGUF_T_ARR"

definition text_ok :: "bytes \<Rightarrow> bool" where
  "text_ok s \<longleftrightarrow> length s < 2 ^ 64 - 1 \<and> 0 \<notin> set s"

fun val_ok :: "gval \<Rightarrow> bool" where
  "val_ok (Scalar ty s) \<longleftrightarrow> scalar_type ty \<and> length s = gguf_scalar_size ty"
| "val_ok (Str s) \<longleftrightarrow> text_ok s"
| "val_ok (Strs ss) \<longleftrightarrow> (\<forall>s \<in> set ss. text_ok s)"
| "val_ok (Packed ty n s) \<longleftrightarrow> scalar_type ty \<and> length s = gguf_scalar_size ty * n \<and> n < 2 ^ 64"

fun enc_val :: "gval \<Rightarrow> bytes" where
  "enc_val (Scalar ty s) = s"
| "enc_val (Str s) = enc_str s"
| "enc_val (Strs ss) = le_bytes 4 8 @ le_bytes 8 (length ss) @ enc_strs ss"
| "enc_val (Packed ty n s) = le_bytes 4 (unat ty) @ le_bytes 8 n @ s"

fun loaded :: "bytes \<Rightarrow> gval \<Rightarrow> gguf_kv" where
  "loaded key (Scalar ty s) = kv_scalar ty (le_nat s) (kv_new key ty)"
| "loaded key (Str s) = (kv_new key GGUF_T_STR)\<lparr>kv_str := s\<rparr>"
| "loaded key (Strs ss) = (kv_new key GGUF_T_ARR)\<lparr>kv_arr_type := GGUF_T_STR, kv_arr_n := of_nat (length ss), kv_arr_str := ss\<rparr>"
| "loaded key (Packed ty n s) = (kv_new key GGUF_T_ARR)\<lparr>kv_arr_type := ty, kv_arr_n := of_nat n, kv_arr_raw := Some s\<rparr>"

lemma scalar_size: "scalar_type ty \<Longrightarrow> gguf_scalar_size ty \<in> {1, 2, 4, 8}"
proof -
  assume "scalar_type ty"
  then have "unat ty \<le> 12" "unat ty \<noteq> 8" "unat ty \<noteq> 9" by (auto simp: scalar_type_def u8_nat)
  then have "unat ty = 0 \<or> unat ty = 1 \<or> unat ty = 2 \<or> unat ty = 3 \<or> unat ty = 4 \<or> unat ty = 5
    \<or> unat ty = 6 \<or> unat ty = 7 \<or> unat ty = 10 \<or> unat ty = 11 \<or> unat ty = 12" by presburger
  then show ?thesis by (auto simp: gguf_scalar_size_def word_unat_eq_iff)
qed

lemma enc_strs_length: "8 * length ss \<le> length (enc_strs ss)"
  by (induction ss) (auto simp: enc_str_def)

lemma word32_bytes [simp]: "of_nat (le_nat (le_bytes 4 (unat ty))) = (ty :: u32)"
proof -
  have "unat ty < 256 ^ 4" using unsigned_less [of ty, where ?'a = nat] by simp
  then show ?thesis by (simp add: le_nat_bytes)
qed

lemma rd_le4: "cu_ok c \<Longrightarrow> cu_rest c = le_bytes 4 n @ r \<Longrightarrow> n < 2 ^ 32 \<Longrightarrow> rd_le 4 c = (n, c\<lparr>cu_rest := r\<rparr>)"
  using rd_le_read [of c "le_bytes 4 n" r 4] by (simp add: le_nat_bytes)

lemma rd_le8: "cu_ok c \<Longrightarrow> cu_rest c = le_bytes 8 n @ r \<Longrightarrow> n < 2 ^ 64 \<Longrightarrow> rd_le 8 c = (n, c\<lparr>cu_rest := r\<rparr>)"
  using rd_le_read [of c "le_bytes 8 n" r 8] by (simp add: le_nat_bytes)

lemma unat32_less: "unat (a :: u32) < 2 ^ 32"
  using unsigned_less [of a, where ?'a = nat] by simp

lemma rd_arr_strs_read:
  assumes "cu_ok c" "cu_heap c = []" "cu_rest c = enc_strs ss @ r" "\<forall>s \<in> set ss. text_ok s" "length (cu_rest c) < 2 ^ 62"
  shows "rd_arr_strs (of_nat (length ss)) c = (Some ss, c\<lparr>cu_rest := r\<rparr>)"
proof -
  have n: "8 * length ss \<le> length (cu_rest c)" using enc_strs_length [of ss] assms(3) by simp
  then have u: "unat (of_nat (length ss) :: u64) = length ss" "unat (of_nat (length (cu_rest c)) :: u64) = length (cu_rest c)"
    using assms(5) by (auto intro!: unat_of_nat64)
  have "\<not> (of_nat (length ss) :: u64) > of_nat (length (cu_rest c)) div 8"
    using n by (simp add: word_less_nat_alt unat_div u del: unsigned_of_nat)
  moreover have "\<not> (of_nat (length ss) :: u64) > - 1 div 16"
  proof -
    have "unat (- 1 div 16 :: u64) = (2 ^ 64 - 1) div 16" by (simp add: unat_div)
    then show ?thesis using n assms(5) by (simp add: word_less_nat_alt u del: unsigned_of_nat)
  qed
  moreover have "rd_strs (length ss) c = (Some ss, c\<lparr>cu_rest := r\<rparr>)"
    using assms by (intro rd_strs_read) (auto simp: text_ok_def)
  ultimately show ?thesis using assms(2) u(1) by (simp add: rd_arr_strs_def alloc_granted del: unsigned_of_nat)
qed

lemma rd_arr_strs_inv:
  assumes "rd_arr_strs n c = (Some ss, c')" "cu_ok c"
  shows "n = of_nat (length ss) \<and> (\<forall>s \<in> set ss. text_ok s) \<and> moved (enc_strs ss) c c'"
proof -
  obtain got c1 where g: "alloc c = (got, c1)" by (cases "alloc c")
  have r: "rd_strs (unat n) c1 = (Some ss, c')" using assms g by (auto simp: rd_arr_strs_def split: if_splits)
  have same: "cu_rest c1 = cu_rest c" "cu_ok c1 = cu_ok c" using alloc_same [OF g] by auto
  then show ?thesis using rd_strs_inv [OF r] assms(2) by (auto simp: text_ok_def moved_def)
qed

lemma raw_size:
  assumes "scalar_type ty" "gguf_scalar_size ty * n < 2 ^ 64"
  shows "unat (of_nat (gguf_scalar_size ty) * of_nat n :: u64) = gguf_scalar_size ty * n
    \<and> \<not> ((of_nat (gguf_scalar_size ty) :: u64) = 0 \<or> (of_nat n :: u64) > - 1 div of_nat (gguf_scalar_size ty))"
proof -
  let ?k = "gguf_scalar_size ty"
  have k: "?k \<in> {1, 2, 4, 8}" by (rule scalar_size [OF assms(1)])
  have n: "n < 2 ^ 64" using k assms(2) by auto
  have u: "unat (of_nat ?k :: u64) = ?k" "unat (of_nat n :: u64) = n" using k n by (auto intro!: unat_of_nat64)
  have "unat (of_nat (?k * n) :: u64) = ?k * n" using assms(2) by (rule unat_of_nat64)
  moreover have "n \<le> (2 ^ 64 - 1) div ?k" using k assms(2) by (auto simp: less_eq_div_iff_mult_less_eq mult.commute)
  moreover have "(of_nat ?k :: u64) \<noteq> 0" using u(1) k by (metis empty_iff insert_iff unat_0 zero_neq_numeral zero_neq_one)
  ultimately show ?thesis
    using unat_max by (simp add: word_less_nat_alt unat_div u del: unsigned_of_nat)
qed

lemma rd_arr_raw_read:
  assumes "cu_ok c" "cu_rest c = s @ r" "scalar_type ty" "length s = gguf_scalar_size ty * n" "length (cu_rest c) < 2 ^ 62"
  shows "rd_arr_raw ty (of_nat n) c = (Some s, c\<lparr>cu_rest := r\<rparr>)"
proof -
  have "gguf_scalar_size ty * n < 2 ^ 64" using assms(2,4,5) by simp
  note z = raw_size [OF assms(3) this]
  have "need (of_nat (gguf_scalar_size ty) * of_nat n) c = (True, c)"
    using assms(1,2,4) z by (simp add: need_ok del: unsigned_of_nat)
  then show ?thesis using z assms(2,4) by (simp add: rd_arr_raw_def Let_def del: unsigned_of_nat)
qed

lemma rd_arr_raw_inv:
  assumes "rd_arr_raw ty n c = (Some s, c')" "scalar_type ty"
  shows "length s = gguf_scalar_size ty * unat n \<and> moved s c c'"
proof -
  let ?es = "of_nat (gguf_scalar_size ty) :: u64"
  have es: "unat ?es = gguf_scalar_size ty" using scalar_size [OF assms(2)] by (auto intro!: unat_of_nat64)
  obtain ok c1 where k: "need (?es * n) c = (ok, c1)" by (cases "need (?es * n) c")
  have fit: "?es \<noteq> 0" "\<not> n > - 1 div ?es" and ok: ok
    and s: "s = take (unat (?es * n)) (cu_rest c1)" "c' = c1\<lparr>cu_rest := drop (unat (?es * n)) (cu_rest c1)\<rparr>"
    using assms(1) k by (auto simp: rd_arr_raw_def Let_def split: if_splits)
  have "checked_u64_mul ?es n = Some (?es * n)" using fit by (simp add: checked_u64_mul_def)
  then have "unat (?es * n) = gguf_scalar_size ty * unat n" using checked_mul [of ?es n "?es * n"] es by simp
  then show ?thesis using k ok s by (auto simp: need_ok moved_def)
qed

lemma GGUF_types:
  "scalar_type ty \<Longrightarrow> ty \<le> 12 \<and> ty \<noteq> 8 \<and> ty \<noteq> 9" "\<not> scalar_type 8" "\<not> scalar_type 9"
  by (simp_all add: scalar_type_def)

lemma array_type_iff: "ty < GGUF_T_F64 + 1 \<and> ty \<noteq> GGUF_T_ARR \<and> ty \<noteq> GGUF_T_STR \<longleftrightarrow> scalar_type ty"
proof -
  have "unat ty < 13 \<longleftrightarrow> unat ty \<le> 12" by linarith
  then show ?thesis by (auto simp: scalar_type_def word_less_nat_alt word_le_nat_alt)
qed

lemma rd_kv_value_read:
  assumes c: "cu_ok c" "cu_heap c = []" "length (cu_rest c) < 2 ^ 62" and r: "cu_rest c = enc_val v @ r" "val_ok v"
  shows "rd_kv_value (kv_new key (val_type v)) (val_type v) c = (Some (loaded key v), c\<lparr>cu_rest := r\<rparr>)"
proof (cases v)
  case (Scalar ty s)
  have "length s < 2 ^ 64" using r Scalar c(3) by simp
  then have "rd_le (gguf_scalar_size ty) c = (le_nat s, c\<lparr>cu_rest := r\<rparr>)"
    using rd_le_read [of c s r "gguf_scalar_size ty"] c r Scalar by simp
  then show ?thesis using r Scalar c GGUF_types(1) [of ty] by (simp add: rd_kv_value_def)
next
  case (Str s)
  then have "rd_str c = (Some s, c\<lparr>cu_rest := r\<rparr>)" using c r by (intro rd_str_read) (auto simp: text_ok_def)
  then show ?thesis using r Str by (simp add: rd_kv_value_def str_has_nul_def text_ok_def)
next
  case (Strs ss)
  let ?c1 = "c\<lparr>cu_rest := le_bytes 8 (length ss) @ enc_strs ss @ r\<rparr>" and ?c2 = "c\<lparr>cu_rest := enc_strs ss @ r\<rparr>"
  have l: "length ss < 2 ^ 62" using enc_strs_length [of ss] c(3) r Strs by simp
  have "rd_le 4 c = (8, ?c1)" using rd_le4 [of c 8 "le_bytes 8 (length ss) @ enc_strs ss @ r"] c r Strs by simp
  moreover have "rd_le 8 ?c1 = (length ss, ?c2)" using rd_le8 [of ?c1 "length ss" "enc_strs ss @ r"] c l by simp
  moreover have "rd_arr_strs (of_nat (length ss)) ?c2 = (Some ss, c\<lparr>cu_rest := r\<rparr>)"
    using rd_arr_strs_read [of ?c2 ss r] c r Strs by simp
  ultimately show ?thesis using c Strs by (simp add: rd_kv_value_def rd_array_def Let_def)
next
  case (Packed ty n s)
  let ?c1 = "c\<lparr>cu_rest := le_bytes 8 n @ s @ r\<rparr>" and ?c2 = "c\<lparr>cu_rest := s @ r\<rparr>"
  have ty: "scalar_type ty" and ls: "length s = gguf_scalar_size ty * n" using r Packed by auto
  have l: "n < 2 ^ 62" using c(3) r Packed ls scalar_size [OF ty] by auto
  have "rd_le 4 c = (unat ty, ?c1)"
    using rd_le4 [of c "unat ty" "le_bytes 8 n @ s @ r"] c r Packed unat32_less [of ty] by simp
  moreover have "rd_le 8 ?c1 = (n, ?c2)" using rd_le8 [of ?c1 n "s @ r"] c l by simp
  moreover have "rd_arr_raw ty (of_nat n) ?c2 = (Some s, c\<lparr>cu_rest := r\<rparr>)"
    using rd_arr_raw_read [of ?c2 s r ty n] c r Packed ty ls by simp
  moreover have "ty < GGUF_T_F64 + 1" "ty \<noteq> GGUF_T_ARR" "ty \<noteq> GGUF_T_STR" using array_type_iff [of ty] ty by blast+
  ultimately show ?thesis using c Packed by (simp add: rd_kv_value_def rd_array_def Let_def)
qed

text \<open>A failed read is never undone.\<close>

lemma sticky_le: "rd_le k c = (v, c') \<Longrightarrow> cu_ok c' \<Longrightarrow> cu_ok c"
  by (auto simp: rd_le_def need_def split: prod.splits if_splits)

lemma sticky_str: "rd_str c = (r, c') \<Longrightarrow> cu_ok c' \<Longrightarrow> cu_ok c"
  by (auto simp: rd_str_def Let_def need_def dest: alloc_same sticky_le split: prod.splits if_splits)

lemma sticky_strs: "rd_strs n c = (r, c') \<Longrightarrow> cu_ok c' \<Longrightarrow> cu_ok c"
  by (induction n arbitrary: c r) (auto dest: sticky_str split: prod.splits option.splits if_splits)

lemma sticky_arr_strs: "rd_arr_strs n c = (Some ss, c') \<Longrightarrow> cu_ok c' \<Longrightarrow> cu_ok c"
  by (auto simp: rd_arr_strs_def dest: alloc_same sticky_strs split: prod.splits if_splits)

lemma rd_arr_strs_length: "rd_arr_strs n c = (Some ss, c') \<Longrightarrow> cu_ok c \<Longrightarrow> length ss < 2 ^ 64"
proof -
  assume r: "rd_arr_strs n c = (Some ss, c')" and ok: "cu_ok c"
  obtain got c1 where g: "alloc c = (got, c1)" by (cases "alloc c")
  have "rd_strs (unat n) c1 = (Some ss, c')" using r g by (auto simp: rd_arr_strs_def split: if_splits)
  moreover have "cu_ok c1" using alloc_same [OF g] ok by simp
  ultimately have "length ss = unat n" using rd_strs_inv by blast
  then show ?thesis using unat64_less [of n] by simp
qed

lemma rd_kv_value_inv:
  assumes "rd_kv_value (kv_new key ty) ty c = (Some kv, c')" "cu_ok c"
  obtains v where "val_ok v" "val_type v = ty" "kv = loaded key v" "moved (enc_val v) c c'"
proof -
  consider (str) "ty = 8" | (arr) "ty = 9" | (scalar) "scalar_type ty"
    using assms(1) by (auto simp: rd_kv_value_def scalar_type_def split: if_splits)
  then show ?thesis
  proof cases
    case str
    then obtain s where s: "rd_str c = (Some s, c')" "\<not> str_has_nul s" "kv = (kv_new key ty)\<lparr>kv_str := s\<rparr>"
      using assms(1) by (auto simp: rd_kv_value_def split: option.splits prod.splits if_splits)
    with rd_str_inv [OF s(1)] str show ?thesis by (intro that [of "Str s"]) (auto simp: text_ok_def str_has_nul_def)
  next
    case arr
    then have "rd_array (kv_new key ty) c = (Some kv, c')" "cu_ok c'"
      using assms(1) by (auto simp: rd_kv_value_def split: prod.splits if_splits)
    then obtain aty c1 an c2 where a: "rd_le 4 c = (aty, c1)" "rd_le 8 c1 = (an, c2)" and ok': "cu_ok c'"
      and rest: "rd_array (kv_new key ty) c = (Some kv, c')"
      by (cases "rd_le 4 c", cases "rd_le 8 (snd (rd_le 4 c))") auto
    let ?ty = "of_nat aty :: u32" and ?n = "of_nat an :: u64"
    have earlier: "aty < 256 ^ 4 \<and> an < 256 ^ 8 \<and> moved (le_bytes 4 aty @ le_bytes 8 an) c c2" if "cu_ok c2"
    proof -
      have x: "an < 256 ^ 8 \<and> moved (le_bytes 8 an) c1 c2" using rd_le_moved [OF a(2) that] by simp
      then have "cu_ok c1" by (simp add: moved_def)
      then have "aty < 256 ^ 4 \<and> moved (le_bytes 4 aty) c c1" using rd_le_moved [OF a(1)] by simp
      with x show ?thesis using moved_trans by blast
    qed
    have ty: "unat ?ty = aty" if "aty < 256 ^ 4" using that by (simp add: unsigned_of_nat take_bit_nat_eq_self)
    have n: "unat ?n = an" if "an < 256 ^ 8" using that by (intro unat_of_nat64) simp
    show ?thesis
    proof (cases "?ty = 8")
      case True
      then obtain ss where r: "rd_arr_strs ?n c2 = (Some ss, c')"
        and kv: "kv = (kv_new key ty)\<lparr>kv_arr_type := ?ty, kv_arr_n := ?n, kv_arr_str := ss\<rparr>"
        using rest a by (auto simp: rd_array_def Let_def split: option.splits prod.splits)
      have c2: "cu_ok c2" using sticky_arr_strs [OF r] ok' by blast
      with earlier have b: "aty < 256 ^ 4" "an < 256 ^ 8" "moved (le_bytes 4 aty @ le_bytes 8 an) c c2" by blast+
      have i: "?n = of_nat (length ss)" "\<forall>s \<in> set ss. text_ok s" "moved (enc_strs ss) c2 c'"
        using rd_arr_strs_inv [OF r c2] by blast+
      have "length ss < 2 ^ 64" using rd_arr_strs_length [OF r c2] .
      then have "an = length ss" using n [OF b(2)] i(1) unat_of_nat64 [of "length ss"] by simp
      moreover have "aty = 8" using ty [OF b(1)] True by simp
      ultimately have "moved (enc_val (Strs ss)) c c'" using moved_trans [OF b(3) i(3)] by simp
      then show ?thesis using arr kv True i by (intro that [of "Strs ss"]) simp_all
    next
      case False
      then have st: "scalar_type ?ty" using rest a array_type_iff [of ?ty]
        by (auto simp: rd_array_def Let_def split: if_splits)
      then obtain s where r: "rd_arr_raw ?ty ?n c2 = (Some s, c')"
        and kv: "kv = (kv_new key ty)\<lparr>kv_arr_type := ?ty, kv_arr_n := ?n, kv_arr_raw := Some s\<rparr>"
        using rest a False by (auto simp: rd_array_def Let_def split: option.splits prod.splits if_splits)
      have i: "length s = gguf_scalar_size ?ty * unat ?n" "moved s c2 c'" using rd_arr_raw_inv [OF r st] by blast+
      then have "cu_ok c2" by (simp add: moved_def)
      with earlier have b: "aty < 256 ^ 4" "an < 256 ^ 8" "moved (le_bytes 4 aty @ le_bytes 8 an) c c2" by blast+
      have "moved (enc_val (Packed ?ty an s)) c c'" using moved_trans [OF b(3) i(2)] ty [OF b(1)] by simp
      then show ?thesis using arr kv st i n [OF b(2)] b(2) by (intro that [of "Packed ?ty an s"]) simp_all
    qed
  next
    case scalar
    then obtain w where w: "rd_le (gguf_scalar_size ty) c = (w, c')" "cu_ok c'" "kv = kv_scalar ty w (kv_new key ty)"
      using assms(1) by (auto simp: rd_kv_value_def GGUF_types split: prod.splits if_splits)
    have k: "gguf_scalar_size ty < 2 ^ 64" using scalar_size [OF scalar] by auto
    obtain s where s: "cu_ok c" "cu_rest c = s @ cu_rest c'" "length s = gguf_scalar_size ty" "w = le_nat s"
      using rd_le_inv [OF w(1,2) k] by blast
    with scalar w show ?thesis by (intro that [of "Scalar ty s"]) (auto simp: moved_def)
  qed
qed

lemma sticky_kv_value: "rd_kv_value kv ty c = (Some kv', c') \<Longrightarrow> cu_ok c' \<Longrightarrow> cu_ok c"
proof -
  assume r: "rd_kv_value kv ty c = (Some kv', c')" and ok: "cu_ok c'"
  have "cu_ok c1" if "rd_array kv1 c1 = (Some kv', c')" for kv1 c1
  proof -
    obtain a c2 b c3 where a: "rd_le 4 c1 = (a, c2)" "rd_le 8 c2 = (b, c3)" by (cases "rd_le 4 c1", cases "rd_le 8 (snd (rd_le 4 c1))") auto
    have "cu_ok c3" using that a ok
      by (auto simp: rd_array_def rd_arr_raw_def need_def Let_def dest: sticky_arr_strs split: prod.splits option.splits if_splits)
    then show ?thesis using a sticky_le by blast
  qed
  then show ?thesis using r ok
    by (auto simp: rd_kv_value_def dest: sticky_str sticky_le split: prod.splits option.splits if_splits)
qed

end
