(* ===== verification/Gguf_Header.thy ===== *)
theory Gguf_Header
  imports Gguf_Format
begin

section \<open>The GGUF header (gguf.c)\<close>

text \<open>
  What a well-formed header is, how it is written, and that \<open>read_header\<close> accepts exactly the written
  headers and loads what they say.
\<close>

subsection \<open>The format\<close>

type_synonym meta = "bytes \<times> gval"

record tensor_desc =
  td_name :: bytes
  td_ne :: "u64 list"
  td_type :: u32
  td_off :: u64

definition enc_kv :: "meta \<Rightarrow> bytes" where
  "enc_kv m = enc_str (fst m) @ le_bytes 4 (unat (val_type (snd m))) @ enc_val (snd m)"

fun enc_dims :: "u64 list \<Rightarrow> bytes" where
  "enc_dims [] = []"
| "enc_dims (d # ds) = le_bytes 8 (unat d) @ enc_dims ds"

definition enc_tensor :: "tensor_desc \<Rightarrow> bytes" where
  "enc_tensor t = enc_str (td_name t) @ le_bytes 4 (length (td_ne t)) @ enc_dims (td_ne t)
     @ le_bytes 4 (unat (td_type t)) @ le_bytes 8 (unat (td_off t))"

definition enc_header :: "nat \<Rightarrow> meta list \<Rightarrow> tensor_desc list \<Rightarrow> bytes" where
  "enc_header v ms ts = le_bytes 4 0x46554747 @ le_bytes 4 v @ le_bytes 8 (length ts) @ le_bytes 8 (length ms)
     @ concat (map enc_kv ms) @ concat (map enc_tensor ts)"

definition meta_ok :: "meta \<Rightarrow> bool" where
  "meta_ok m \<longleftrightarrow> text_ok (fst m) \<and> val_ok (snd m)"

definition desc_ok :: "tensor_desc \<Rightarrow> bool" where
  "desc_ok t \<longleftrightarrow> 0 \<notin> set (td_name t) \<and> length (td_name t) < 128 \<and> td_ne t \<noteq> [] \<and> length (td_ne t) \<le> 4"

definition header_ok :: "nat \<Rightarrow> meta list \<Rightarrow> tensor_desc list \<Rightarrow> bool" where
  "header_ok v ms ts \<longleftrightarrow> v \<in> {2, 3} \<and> length ms \<le> 100000 \<and> length ts \<le> 100000
     \<and> (\<forall>m \<in> set ms. meta_ok m) \<and> (\<forall>t \<in> set ts. desc_ok t)
     \<and> distinct (map fst ms) \<and> distinct (map td_name ts)"

definition load_kv :: "meta \<Rightarrow> gguf_kv" where
  "load_kv m = loaded (fst m) (snd m)"

definition load_tensor :: "tensor_desc \<Rightarrow> gguf_tensor" where
  "load_tensor t = \<lparr>t_name = td_name t, t_type = td_type t, t_dims = of_nat (length (td_ne t)),
     t_ne = td_ne t @ replicate (4 - length (td_ne t)) 1, t_data = td_off t, t_nbytes = 0, t_scale = F32_ONE\<rparr>"

lemma kv_key_loaded [simp]: "kv_key (load_kv m) = fst m"
proof -
  have "kv_key (kv_scalar ty v kv) = kv_key kv" for ty v kv by (simp add: kv_scalar_def)
  then show ?thesis by (cases "snd m") (simp_all add: load_kv_def kv_new_def)
qed

lemma t_name_loaded [simp]: "t_name (load_tensor t) = td_name t"
  by (simp add: load_tensor_def)

subsection \<open>Sequences\<close>

lemma then_do_Inr: "then_do m f = Inr y \<longleftrightarrow> (\<exists>x. m = Inr x \<and> f x = Inr y)"
  by (cases m) auto

definition reads :: "(cursor \<Rightarrow> gg_error + 'b \<times> cursor) \<Rightarrow> ('a \<Rightarrow> bytes) \<Rightarrow> ('a \<Rightarrow> 'b) \<Rightarrow> 'a \<Rightarrow> bool" where
  "reads f enc ld x \<longleftrightarrow> (\<forall>c r. cu_ok c \<longrightarrow> cu_heap c = [] \<longrightarrow> cu_rest c = enc x @ r \<longrightarrow> length (cu_rest c) < 2 ^ 62 \<longrightarrow>
     f c = Inr (ld x, c\<lparr>cu_rest := r\<rparr>))"

lemma readsD:
  "reads f enc ld x \<Longrightarrow> cu_ok c \<Longrightarrow> cu_heap c = [] \<Longrightarrow> cu_rest c = enc x @ r \<Longrightarrow> length (cu_rest c) < 2 ^ 62 \<Longrightarrow>
   f c = Inr (ld x, c\<lparr>cu_rest := r\<rparr>)"
  by (simp add: reads_def)

definition only_reads :: "(cursor \<Rightarrow> gg_error + 'b \<times> cursor) \<Rightarrow> ('a \<Rightarrow> bytes) \<Rightarrow> ('a \<Rightarrow> 'b) \<Rightarrow> ('a \<Rightarrow> bool) \<Rightarrow> bool" where
  "only_reads f enc ld P \<longleftrightarrow> (\<forall>c y c'. f c = Inr (y, c') \<longrightarrow> cu_ok c' \<longrightarrow> (\<exists>x. P x \<and> y = ld x \<and> moved (enc x) c c'))"

lemma only_readsD:
  "only_reads f enc ld P \<Longrightarrow> f c = Inr (y, c') \<Longrightarrow> cu_ok c' \<Longrightarrow> \<exists>x. P x \<and> y = ld x \<and> moved (enc x) c c'"
  by (simp add: only_reads_def)

lemma rd_all_reads:
  assumes "\<forall>x \<in> set xs. reads f enc ld x" "cu_ok c" "cu_heap c = []"
    "cu_rest c = concat (map enc xs) @ r" "length (cu_rest c) < 2 ^ 62"
  shows "rd_all f (length xs) c = Inr (map ld xs, c\<lparr>cu_rest := r\<rparr>)"
  using assms
proof (induction xs arbitrary: c)
  case (Cons x xs)
  let ?c1 = "c\<lparr>cu_rest := concat (map enc xs) @ r\<rparr>"
  have "f c = Inr (ld x, ?c1)" using Cons.prems by (intro readsD [of f enc ld x]) simp_all
  moreover have "rd_all f (length xs) ?c1 = Inr (map ld xs, ?c1\<lparr>cu_rest := r\<rparr>)"
    using Cons.prems by (intro Cons.IH) simp_all
  ultimately show ?case by simp
qed simp

lemma rd_all_only:
  assumes o: "only_reads f enc ld P"
  shows "rd_all f n c = Inr (ys, c') \<Longrightarrow> cu_ok c' \<Longrightarrow>
    \<exists>xs. length xs = n \<and> (\<forall>x \<in> set xs. P x) \<and> ys = map ld xs \<and> moved (concat (map enc xs)) c c'"
proof (induction n arbitrary: c ys)
  case 0
  then show ?case by (simp add: moved_refl)
next
  case (Suc n)
  from Suc.prems(1) obtain y c1 ys' where y: "f c = Inr (y, c1)" "rd_all f n c1 = Inr (ys', c')" "ys = y # ys'"
    by (auto simp: then_do_Inr)
  obtain xs where xs: "length xs = n" "\<forall>x \<in> set xs. P x" "ys' = map ld xs" "moved (concat (map enc xs)) c1 c'"
    using Suc.IH [OF y(2) Suc.prems(2)] by blast
  then have "cu_ok c1" by (simp add: moved_def)
  then obtain x where x: "P x" "y = ld x" "moved (enc x) c c1" using only_readsD [OF o y(1)] by blast
  show ?case using x xs y moved_trans [OF x(3) xs(4)] by (intro exI [of _ "x # xs"]) auto
qed

subsection \<open>Entries\<close>

lemma reads_kv: "meta_ok m \<Longrightarrow> reads rd_kv enc_kv load_kv m"
  unfolding reads_def
proof (intro allI impI)
  fix c :: cursor and r
  assume m: "meta_ok m" and c: "cu_ok c" "cu_heap c = []" "cu_rest c = enc_kv m @ r" "length (cu_rest c) < 2 ^ 62"
  obtain key v where kv: "m = (key, v)" by (cases m)
  let ?c1 = "c\<lparr>cu_rest := le_bytes 4 (unat (val_type v)) @ enc_val v @ r\<rparr>" and ?c2 = "c\<lparr>cu_rest := enc_val v @ r\<rparr>"
  have "rd_str c = (Some key, ?c1)" using m c kv by (intro rd_str_read) (auto simp: meta_ok_def text_ok_def enc_kv_def)
  moreover have "rd_le 4 ?c1 = (unat (val_type v), ?c2)"
    using rd_le4 [of ?c1 "unat (val_type v)" "enc_val v @ r"] c unat32_less by simp
  moreover have "rd_kv_value (kv_new key (val_type v)) (val_type v) ?c2 = (Some (loaded key v), ?c2\<lparr>cu_rest := r\<rparr>)"
    using m c kv by (intro rd_kv_value_read) (auto simp: meta_ok_def enc_kv_def)
  ultimately show "rd_kv c = Inr (load_kv m, c\<lparr>cu_rest := r\<rparr>)"
    using m kv by (simp add: rd_kv_def load_kv_def meta_ok_def text_ok_def str_has_nul_def)
qed

lemma only_reads_kv: "only_reads rd_kv enc_kv load_kv meta_ok"
  unfolding only_reads_def
proof (intro allI impI)
  fix c y c' assume r: "rd_kv c = Inr (y, c')" and ok: "cu_ok c'"
  obtain key c1 w c2 where k: "rd_str c = (Some key, c1)" "\<not> str_has_nul key" "rd_le 4 c1 = (w, c2)"
    and v: "rd_kv_value (kv_new key (of_nat w)) (of_nat w) c2 = (Some y, c')"
    using r by (auto simp: rd_kv_def split: prod.splits option.splits if_splits)
  have key: "length key < 2 ^ 64 - 1" "moved (enc_str key) c c1" using rd_str_inv [OF k(1)] by blast+
  have "cu_ok c2" using v ok sticky_kv_value by blast
  then have w: "w < 256 ^ 4" "moved (le_bytes 4 w) c1 c2" using rd_le_moved [OF k(3)] by simp_all
  obtain u where u: "val_ok u" "val_type u = of_nat w" "y = loaded key u" "moved (enc_val u) c2 c'"
    using rd_kv_value_inv [OF v \<open>cu_ok c2\<close>] by blast
  have "unat (of_nat w :: u32) = w" using w(1) by (simp add: unsigned_of_nat take_bit_nat_eq_self)
  then have "moved (enc_kv (key, u)) c c'" using moved_trans [OF key(2) moved_trans [OF w(2) u(4)]] u(2)
    by (simp add: enc_kv_def)
  then show "\<exists>m. meta_ok m \<and> y = load_kv m \<and> moved (enc_kv m) c c'"
    using key(1) k(2) u by (intro exI [of _ "(key, u)"]) (auto simp: meta_ok_def text_ok_def str_has_nul_def load_kv_def)
qed

lemma rd_dims_reads:
  "cu_ok c \<Longrightarrow> cu_rest c = enc_dims ds @ r \<Longrightarrow> rd_dims (length ds) c = (ds, c\<lparr>cu_rest := r\<rparr>)"
proof (induction ds arbitrary: c)
  case (Cons d ds)
  have "rd_le 8 c = (unat d, c\<lparr>cu_rest := enc_dims ds @ r\<rparr>)"
    using rd_le8 [of c "unat d" "enc_dims ds @ r"] Cons.prems unat64_less by simp
  moreover have "rd_dims (length ds) (c\<lparr>cu_rest := enc_dims ds @ r\<rparr>) = (ds, c\<lparr>cu_rest := enc_dims ds @ r\<rparr>\<lparr>cu_rest := r\<rparr>)"
    using Cons.prems by (intro Cons.IH) simp_all
  ultimately show ?case by simp
qed simp

lemma rd_dims_only: "rd_dims n c = (ds, c') \<Longrightarrow> cu_ok c' \<Longrightarrow> length ds = n \<and> moved (enc_dims ds) c c'"
proof (induction n arbitrary: c ds)
  case 0
  then show ?case by (simp add: moved_refl)
next
  case (Suc n)
  from Suc.prems(1) obtain v c1 ds' where v: "rd_le 8 c = (v, c1)" "rd_dims n c1 = (ds', c')" "ds = of_nat v # ds'"
    by (auto split: prod.splits)
  have i: "length ds' = n" "moved (enc_dims ds') c1 c'" using Suc.IH [OF v(2) Suc.prems(2)] by blast+
  then have "cu_ok c1" by (simp add: moved_def)
  then have m: "v < 256 ^ 8" "moved (le_bytes 8 v) c c1" using rd_le_moved [OF v(1)] by simp_all
  have "unat (of_nat v :: u64) = v" using m(1) by (intro unat_of_nat64) simp
  then show ?case using i v(3) moved_trans [OF m(2) i(2)] by simp
qed

lemma reads_tensor: "desc_ok t \<Longrightarrow> reads rd_tensor enc_tensor load_tensor t"
  unfolding reads_def
proof (intro allI impI)
  fix c :: cursor and r
  assume t: "desc_ok t" and c: "cu_ok c" "cu_heap c = []" "cu_rest c = enc_tensor t @ r" "length (cu_rest c) < 2 ^ 62"
  let ?tail = "le_bytes 4 (unat (td_type t)) @ le_bytes 8 (unat (td_off t)) @ r"
  let ?c1 = "c\<lparr>cu_rest := le_bytes 4 (length (td_ne t)) @ enc_dims (td_ne t) @ ?tail\<rparr>"
    and ?c2 = "c\<lparr>cu_rest := enc_dims (td_ne t) @ ?tail\<rparr>" and ?c3 = "c\<lparr>cu_rest := ?tail\<rparr>"
    and ?c4 = "c\<lparr>cu_rest := le_bytes 8 (unat (td_off t)) @ r\<rparr>"
  have n: "0 < length (td_ne t)" "length (td_ne t) \<le> 4" using t by (auto simp: desc_ok_def)
  have "rd_str c = (Some (td_name t), ?c1)" using t c by (intro rd_str_read) (auto simp: desc_ok_def enc_tensor_def)
  moreover have "rd_le 4 ?c1 = (length (td_ne t), ?c2)"
    using rd_le4 [of ?c1 "length (td_ne t)" "enc_dims (td_ne t) @ ?tail"] c n by simp
  moreover have "rd_dims (length (td_ne t)) ?c2 = (td_ne t, ?c3)"
    using rd_dims_reads [of ?c2 "td_ne t" ?tail] c by simp
  moreover have "rd_le 4 ?c3 = (unat (td_type t), ?c4)"
    using rd_le4 [of ?c3 "unat (td_type t)" "le_bytes 8 (unat (td_off t)) @ r"] c unat32_less by simp
  moreover have "rd_le 8 ?c4 = (unat (td_off t), c\<lparr>cu_rest := r\<rparr>)"
    using rd_le8 [of ?c4 "unat (td_off t)" r] c unat64_less by simp
  ultimately show "rd_tensor c = Inr (load_tensor t, c\<lparr>cu_rest := r\<rparr>)"
    using t n by (simp add: rd_tensor_def load_tensor_def desc_ok_def str_has_nul_def)
qed

lemma only_reads_tensor: "only_reads rd_tensor enc_tensor load_tensor desc_ok"
  unfolding only_reads_def
proof (intro allI impI)
  fix c y c' assume r: "rd_tensor c = Inr (y, c')" and ok: "cu_ok c'"
  obtain name c1 nd c2 ds c3 ty c4 off where s: "rd_str c = (Some name, c1)" "length name < 128" "\<not> str_has_nul name"
    and d: "rd_le 4 c1 = (nd, c2)" "nd \<noteq> 0" "nd \<le> 4" "rd_dims nd c2 = (ds, c3)"
    and e: "rd_le 4 c3 = (ty, c4)" "rd_le 8 c4 = (off, c')"
    and y: "y = \<lparr>t_name = name, t_type = of_nat ty, t_dims = of_nat nd, t_ne = ds @ replicate (4 - nd) 1,
                  t_data = of_nat off, t_nbytes = 0, t_scale = F32_ONE\<rparr>"
    using r by (auto simp: rd_tensor_def not_le split: prod.splits option.splits if_splits)
  have o: "off < 256 ^ 8" "moved (le_bytes 8 off) c4 c'" using rd_le_moved [OF e(2) ok] by simp_all
  then have t: "ty < 256 ^ 4" "moved (le_bytes 4 ty) c3 c4" using rd_le_moved [OF e(1)] by (simp_all add: moved_def)
  then have m: "length ds = nd" "moved (enc_dims ds) c2 c3" using rd_dims_only [OF d(4)] by (simp_all add: moved_def)
  then have n: "moved (le_bytes 4 nd) c1 c2" using rd_le_moved [OF d(1)] by (simp add: moved_def)
  have "moved (enc_str name) c c1" using rd_str_inv [OF s(1)] by blast
  then have all: "moved (enc_str name @ le_bytes 4 nd @ enc_dims ds @ le_bytes 4 ty @ le_bytes 8 off) c c'"
    by (intro moved_trans [OF _ moved_trans [OF n moved_trans [OF m(2) moved_trans [OF t(2) o(2)]]]])
  let ?t = "\<lparr>td_name = name, td_ne = ds, td_type = of_nat ty, td_off = of_nat off\<rparr>"
  have u: "unat (of_nat off :: u64) = off" using o(1) by (intro unat_of_nat64) simp
  have v: "unat (of_nat ty :: u32) = ty" using t(1) by (simp add: unsigned_of_nat take_bit_nat_eq_self)
  have "moved (enc_tensor ?t) c c'" using all u v m(1) by (simp add: enc_tensor_def)
  moreover have "y = load_tensor ?t" using y m(1) by (simp add: load_tensor_def)
  moreover have "desc_ok ?t" using s d m(1) by (auto simp: desc_ok_def str_has_nul_def)
  ultimately show "\<exists>t. desc_ok t \<and> y = load_tensor t \<and> moved (enc_tensor t) c c'" by blast
qed

subsection \<open>Duplicates\<close>

lemma adjacent_dup_sorted: "sorted s \<Longrightarrow> adjacent_dup s = None \<longleftrightarrow> distinct s"
  by (induction s rule: adjacent_dup.induct) auto

lemma first_duplicate: "first_duplicate_inplace s = None \<longleftrightarrow> distinct s"
proof (cases "length s < 2")
  case True
  then show ?thesis by (cases s rule: adjacent_dup.cases) (auto simp: first_duplicate_inplace_def)
next
  case False
  then show ?thesis using adjacent_dup_sorted [of "sort s"] by (simp add: first_duplicate_inplace_def)
qed

lemma reject_duplicates_Inr: "reject_duplicates s c = Inr c' \<Longrightarrow> distinct s \<and> cu_rest c' = cu_rest c \<and> cu_ok c' = cu_ok c"
  using first_duplicate [of s]
  by (cases s rule: adjacent_dup.cases)
    (auto simp: reject_duplicates_def dest: alloc_same split: prod.splits if_splits option.splits)

lemma reject_duplicates_distinct: "distinct s \<Longrightarrow> cu_heap c = [] \<Longrightarrow> reject_duplicates s c = Inr c"
  using first_duplicate [of s] by (simp add: reject_duplicates_def alloc_granted)

subsection \<open>The header\<close>

lemma alloc_n_Inr: "alloc_n n c = Inr c' \<Longrightarrow> cu_rest c' = cu_rest c \<and> cu_ok c' = cu_ok c"
  by (auto simp: alloc_n_def dest: alloc_same split: prod.splits if_splits)

lemma read_header_reads:
  assumes h: "header_ok v ms ts" and l: "length bs < 2 ^ 62" and bs: "bs = enc_header v ms ts @ r"
  shows "read_header (cursor_at bs []) = Inr ((of_nat v, map load_kv ms, map load_tensor ts), cursor_at r [])"
proof -
  let ?c = "cursor_at bs []"
  let ?kvs = "concat (map enc_kv ms)" and ?tns = "concat (map enc_tensor ts)"
  have cu [simp]: "cu_rest (cursor_at x h) = x" "cu_ok (cursor_at x h)" "cu_heap (cursor_at x h) = h"
    "cursor_at x h\<lparr>cu_rest := y\<rparr> = cursor_at y h" for x y h by (simp_all add: cursor_at_def)
  have v: "v = 2 \<or> v = 3" and n: "length ms \<le> 100000" "length ts \<le> 100000" using h by (auto simp: header_ok_def)
  have "rd_le 4 ?c = (0x46554747, cursor_at (le_bytes 4 v @ le_bytes 8 (length ts) @ le_bytes 8 (length ms) @ ?kvs @ ?tns @ r) [])"
    using rd_le4 [of ?c] by (simp add: bs enc_header_def)
  moreover have "rd_le 4 (cursor_at (le_bytes 4 v @ x) []) = (v, cursor_at x [])" for x
    using rd_le4 [of "cursor_at (le_bytes 4 v @ x) []" v x] v by auto
  moreover have "rd_le 8 (cursor_at (le_bytes 8 (length ts) @ x) []) = (length ts, cursor_at x [])" for x
    using rd_le8 [of "cursor_at (le_bytes 8 (length ts) @ x) []" "length ts" x] n by simp
  moreover have "rd_le 8 (cursor_at (le_bytes 8 (length ms) @ x) []) = (length ms, cursor_at x [])" for x
    using rd_le8 [of "cursor_at (le_bytes 8 (length ms) @ x) []" "length ms" x] n by simp
  ultimately have counts: "read_counts ?c = Inr ((of_nat v, length ts, length ms), cursor_at (?kvs @ ?tns @ r) [])"
    using v n by (auto simp: read_counts_def)
  have "rd_all rd_kv (length ms) (cursor_at (?kvs @ ?tns @ r) []) = Inr (map load_kv ms, cursor_at (?tns @ r) [])"
    using rd_all_reads [of ms rd_kv enc_kv load_kv "cursor_at (?kvs @ ?tns @ r) []" "?tns @ r"] h l reads_kv
    by (auto simp: header_ok_def bs enc_header_def)
  moreover have "rd_all rd_tensor (length ts) (cursor_at (?tns @ r) []) = Inr (map load_tensor ts, cursor_at r [])"
    using rd_all_reads [of ts rd_tensor enc_tensor load_tensor "cursor_at (?tns @ r) []" r] h l reads_tensor
    by (auto simp: header_ok_def bs enc_header_def)
  moreover have "map kv_key (map load_kv ms) = map fst ms" "map t_name (map load_tensor ts) = map td_name ts"
    by (simp_all add: comp_def)
  moreover have "alloc_n k (cursor_at x []) = Inr (cursor_at x [])" for k x by (simp add: alloc_n_def alloc_granted)
  ultimately show ?thesis using counts h reject_duplicates_distinct
    by (simp add: read_header_def header_ok_def del: map_map)
qed

lemma read_counts_only:
  assumes "read_counts c = Inr ((v, nt, nk), c')" "cu_ok c'"
  shows "\<exists>n. v = of_nat n \<and> n \<in> {2, 3} \<and> nt \<le> 100000 \<and> nk \<le> 100000
    \<and> moved (le_bytes 4 0x46554747 @ le_bytes 4 n @ le_bytes 8 nt @ le_bytes 8 nk) c c'"
proof -
  obtain magic c1 n c2 c3 where r: "rd_le 4 c = (magic, c1)" "rd_le 4 c1 = (n, c2)" "rd_le 8 c2 = (nt, c3)" "rd_le 8 c3 = (nk, c')"
    and ok: "magic = 0x46554747" "\<not> (n < 2 \<or> n > 3)" "\<not> (nt > 100000 \<or> nk > 100000)" "v = of_nat n"
    using assms(1) by (auto simp: read_counts_def split: prod.splits if_splits)
  have "moved (le_bytes 8 nk) c3 c'" using rd_le_moved [OF r(4) assms(2)] by simp
  moreover from this have "moved (le_bytes 8 nt) c2 c3" using rd_le_moved [OF r(3)] by (simp add: moved_def)
  moreover from this have "moved (le_bytes 4 n) c1 c2" using rd_le_moved [OF r(2)] by (simp add: moved_def)
  moreover from this have "moved (le_bytes 4 0x46554747) c c1" using rd_le_moved [OF r(1)] ok(1) by (simp add: moved_def)
  ultimately have "moved (le_bytes 4 0x46554747 @ le_bytes 4 n @ le_bytes 8 nt @ le_bytes 8 nk) c c'"
    by (blast intro: moved_trans)
  then show ?thesis using ok by (intro exI [of _ n]) auto
qed

lemma read_header_only:
  assumes r: "read_header c = Inr ((v, kvs, tns), c')"
  shows "\<exists>n ms ts. header_ok n ms ts \<and> v = of_nat n \<and> kvs = map load_kv ms \<and> tns = map load_tensor ts
    \<and> cu_rest c = enc_header n ms ts @ cu_rest c'"
proof -
  obtain nt nk c1 c2 c3 c4 c5 c6 where a: "read_counts c = Inr ((v, nt, nk), c1)" "alloc_n nk c1 = Inr c2"
    "rd_all rd_kv nk c2 = Inr (kvs, c3)" "alloc_n nt c3 = Inr c4" "rd_all rd_tensor nt c4 = Inr (tns, c5)" "cu_ok c5"
    "reject_duplicates (map kv_key kvs) c5 = Inr c6" "reject_duplicates (map t_name tns) c6 = Inr c'"
    using r by (auto simp: read_header_def then_do_Inr split: if_splits)
  obtain ts where ts: "length ts = nt" "\<forall>t \<in> set ts. desc_ok t" "tns = map load_tensor ts" "moved (concat (map enc_tensor ts)) c4 c5"
    using rd_all_only [OF only_reads_tensor a(5,6)] by blast
  have c3: "cu_ok c3" "cu_rest c3 = cu_rest c4" using ts(4) alloc_n_Inr [OF a(4)] by (auto simp: moved_def)
  obtain ms where ms: "length ms = nk" "\<forall>m \<in> set ms. meta_ok m" "kvs = map load_kv ms" "moved (concat (map enc_kv ms)) c2 c3"
    using rd_all_only [OF only_reads_kv a(3) c3(1)] by blast
  have c1: "cu_ok c1" "cu_rest c1 = cu_rest c2" using ms(4) alloc_n_Inr [OF a(2)] by (auto simp: moved_def)
  obtain n where n: "v = of_nat n" "n \<in> {2, 3}" "nt \<le> 100000" "nk \<le> 100000"
    "moved (le_bytes 4 0x46554747 @ le_bytes 4 n @ le_bytes 8 nt @ le_bytes 8 nk) c c1"
    using read_counts_only [OF a(1) c1(1)] by blast
  have d: "distinct (map fst ms)" "distinct (map td_name ts)" "cu_rest c' = cu_rest c5"
    using reject_duplicates_Inr [OF a(7)] reject_duplicates_Inr [OF a(8)] ms(3) ts(3) by (auto simp: comp_def)
  have "cu_rest c = enc_header n ms ts @ cu_rest c'"
    using n(5) ms(1,4) ts(1,4) c1 c3 d(3) by (simp add: moved_def enc_header_def)
  then show ?thesis using n ms ts d by (intro exI [of _ n] exI [of _ ms] exI [of _ ts]) (simp add: header_ok_def)
qed

text \<open>
  Property C7. With memory available, the header reader accepts exactly the files that begin with the
  encoding of a version, metadata entries and tensor descriptors within the limits (versions 2 and 3,
  at most 100,000 of each, no repeated key or name, no NUL byte in a string, names below 128 bytes, 1
  to 4 dimensions), and loads exactly the entries encoded: nothing is misread, invented or lost, and
  a file that ends inside its header is refused.
\<close>

theorem gguf_header_roundtrip:
  assumes "length bs < 2 ^ 62"
  shows "read_header (cursor_at bs []) = Inr ((v, kvs, tns), cursor_at r []) \<longleftrightarrow>
    (\<exists>n ms ts. header_ok n ms ts \<and> v = of_nat n \<and> kvs = map load_kv ms \<and> tns = map load_tensor ts
       \<and> bs = enc_header n ms ts @ r)"
proof
  assume "read_header (cursor_at bs []) = Inr ((v, kvs, tns), cursor_at r [])"
  from read_header_only [OF this] show "\<exists>n ms ts. header_ok n ms ts \<and> v = of_nat n \<and> kvs = map load_kv ms
    \<and> tns = map load_tensor ts \<and> bs = enc_header n ms ts @ r" by (simp add: cursor_at_def)
qed (use read_header_reads assms in blast)

text \<open>A file with one entry and one tensor.\<close>

definition meta0 :: "meta list" where
  "meta0 = [(ascii ''general.alignment'', Scalar GGUF_T_U32 (le_bytes 4 64)), (ascii ''a'', Strs [ascii ''x'', ascii ''yz''])]"

definition desc0 :: "tensor_desc list" where
  "desc0 = [\<lparr>td_name = ascii ''w'', td_ne = [64, 2], td_type = 0, td_off = 0\<rparr>]"

lemma header0_ok: "header_ok 3 meta0 desc0"
  by (simp add: header_ok_def meta0_def desc0_def meta_ok_def text_ok_def desc_ok_def scalar_type_def
      gguf_scalar_size_def ascii_def of_char_of)

theorem gguf_header_roundtrip_witness:
  "read_header (cursor_at (enc_header 3 meta0 desc0 @ [1, 2]) [])
     = Inr ((3, map load_kv meta0, map load_tensor desc0), cursor_at [1, 2] [])
   \<and> length (enc_header 3 meta0 desc0) = 142"
proof -
  have l: "length (enc_header 3 meta0 desc0) = 142"
    by (simp add: enc_header_def meta0_def desc0_def enc_kv_def enc_str_def enc_tensor_def)
  then have "length (enc_header 3 meta0 desc0 @ [1, 2]) < 2 ^ 62" by simp
  note iff = gguf_header_roundtrip [OF this, of "of_nat 3" "map load_kv meta0" "map load_tensor desc0" "[1, 2]"]
  have "read_header (cursor_at (enc_header 3 meta0 desc0 @ [1, 2]) [])
      = Inr ((of_nat 3, map load_kv meta0, map load_tensor desc0), cursor_at [1, 2] [])"
    by (rule iffD2 [OF iff]) (use header0_ok in blast)
  with l show ?thesis by simp
qed

end
