(* ===== verification/Gguf_Place.thy ===== *)
theory Gguf_Place
  imports Gguf_Header
begin

section \<open>Tensors stay inside the mapping (gguf.c)\<close>

text \<open>The number of bytes a tensor's shape and type describe, without any wrap.\<close>

definition described_bytes :: "gguf_tensor \<Rightarrow> nat" where
  "described_bytes t = unat (t_ne t ! 0) div unat (ggml_block_size (t_type t)) * unat (ggml_type_size (t_type t))
     * (unat (t_ne t ! 1) * unat (t_ne t ! 2) * unat (t_ne t ! 3))"

lemma tensor_nbytes_exact:
  "tensor_nbytes t = Some n \<Longrightarrow> unat n = described_bytes t \<and> unat (t_ne t ! 0) mod unat (ggml_block_size (t_type t)) = 0"
  by (auto simp: tensor_nbytes_def described_bytes_def Let_def checked_mul unat_div bind_eq_Some_conv
      word_unat_eq_iff unat_mod split: if_splits)

definition inside :: "mapping \<Rightarrow> nat \<Rightarrow> gguf_tensor \<Rightarrow> bool" where
  "inside m lo t \<longleftrightarrow>
    (if ggml_type_supported (t_type t) then
       unat (fst m) + lo \<le> unat (t_data t) \<and> unat (t_data t) + unat (t_nbytes t) \<le> unat (fst m) + length (snd m)
       \<and> unat (t_nbytes t) = described_bytes t
     else t_data t = 0 \<and> t_nbytes t = 0)"

lemma place_tensor_inside:
  assumes "place_tensor False m ds t db = Inr (t', db')" "unat (fst m) + length (snd m) < 2 ^ 64"
    "ds \<le> of_nat (length (snd m))"
  shows "inside m (unat ds) t' \<and> t_name t' = t_name t \<and> t_type t' = t_type t \<and> t_ne t' = t_ne t"
proof (cases "ggml_type_supported (t_type t)")
  case True
  let ?size = "of_nat (length (snd m)) :: u64"
  obtain n where n: "tensor_nbytes t = Some n" "\<not> (t_data t > ?size - ds \<or> n > ?size - ds - t_data t)"
    and t': "t' = t\<lparr>t_data := fst m + ds + t_data t, t_nbytes := n\<rparr>"
    using assms(1) True by (auto simp: place_tensor_def Let_def split: option.splits if_splits)
  have size: "unat ?size = length (snd m)" using assms(2) by (intro unat_of_nat64) simp
  have ds: "unat ds \<le> length (snd m)" using assms(3) size by (simp add: word_le_nat_alt)
  have a: "unat (?size - ds) = length (snd m) - unat ds" using assms(3) size by (simp add: unat_sub)
  then have o: "unat (t_data t) \<le> length (snd m) - unat ds" using n(2) by (simp add: word_less_nat_alt not_less)
  then have "unat (?size - ds - t_data t) = length (snd m) - unat ds - unat (t_data t)"
    using a by (subst unat_sub) (simp_all add: word_le_nat_alt)
  then have b: "unat n \<le> length (snd m) - unat ds - unat (t_data t)" using n(2) by (simp add: word_less_nat_alt not_less)
  have "unat (fst m + ds) = unat (fst m) + unat ds" using ds assms(2) by (simp add: unat_word_ariths)
  moreover from this have "unat (fst m + ds + t_data t) = unat (fst m) + unat ds + unat (t_data t)"
    using ds o assms(2) by (simp add: unat_word_ariths)
  ultimately show ?thesis using True t' o b ds tensor_nbytes_exact [OF n(1)]
    by (auto simp: inside_def described_bytes_def)
next
  case False
  then show ?thesis using assms(1) by (auto simp: place_tensor_def inside_def Let_def)
qed

lemma place_all_inside:
  "place_all False m ds ts db = Inr (ts', db') \<Longrightarrow> unat (fst m) + length (snd m) < 2 ^ 64 \<Longrightarrow>
   ds \<le> of_nat (length (snd m)) \<Longrightarrow>
   (\<forall>t \<in> set ts'. inside m (unat ds) t) \<and> map t_name ts' = map t_name ts \<and> map t_ne ts' = map t_ne ts \<and> map t_type ts' = map t_type ts"
proof (induction ts arbitrary: db ts')
  case (Cons t ts)
  from Cons.prems(1) obtain t1 db1 ts1 where p: "place_tensor False m ds t db = Inr (t1, db1)"
    "place_all False m ds ts db1 = Inr (ts1, db')" "ts' = t1 # ts1"
    by (auto simp: then_do_Inr)
  with place_tensor_inside [OF p(1) Cons.prems(2,3)] Cons.IH [OF p(2) Cons.prems(2,3)] show ?case by simp
qed simp

text \<open>In the header-only mode no tensor keeps a pointer.\<close>

lemma place_all_header:
  "place_all True m ds ts db = Inr (ts', db') \<Longrightarrow>
   (\<forall>t \<in> set ts'. t_data t = 0) \<and> map t_name ts' = map t_name ts"
proof (induction ts arbitrary: db ts')
  case (Cons t ts)
  from Cons.prems(1) obtain t1 db1 ts1 where p: "place_tensor True m ds t db = Inr (t1, db1)"
    "place_all True m ds ts db1 = Inr (ts1, db')" "ts' = t1 # ts1"
    by (auto simp: then_do_Inr)
  have "t_data t1 = 0 \<and> t_name t1 = t_name t"
    using p(1) by (auto simp: place_tensor_def Let_def split: option.splits if_splits)
  with p Cons.IH [OF p(2)] show ?case by simp
qed simp

text \<open>The data section starts at or after the end of the header.\<close>

lemma data_start_after: "data_start h align = Some ds \<Longrightarrow> h \<le> ds"
proof -
  assume "data_start h align = Some ds"
  then obtain e where e: "checked_u64_add h (align - 1) = Some e" "ds = e AND NOT (align - 1)"
    by (auto simp: data_start_def)
  have sum: "unat e = unat h + unat (align - 1)" using e(1) by (simp add: checked_add)
  have "e AND (align - 1) \<le> align - 1" by (rule word_and_le1)
  then have low: "unat (e AND (align - 1)) \<le> unat (align - 1)" by (simp add: word_le_nat_alt)
  have "(e AND NOT (align - 1)) OR (e AND (align - 1)) = e" by (rule bit_word_eqI) (auto simp: bit_simps)
  moreover have "(e AND NOT (align - 1)) + (e AND (align - 1)) = (e AND NOT (align - 1)) OR (e AND (align - 1))"
    by (rule disjunctive_add) (auto simp: bit_simps)
  ultimately have "e = ds + (e AND (align - 1))" unfolding e(2) by simp
  then have "unat e \<le> unat ds + unat (e AND (align - 1))" by (metis unat_word_ariths(1) mod_less_eq_dividend)
  then show ?thesis using sum low by (simp add: word_le_nat_alt)
qed

definition opened_ok :: "mapping \<Rightarrow> gguf_file \<Rightarrow> bool" where
  "opened_ok m g \<longleftrightarrow> (\<exists>n ms ts lo. header_ok n ms ts \<and> (\<exists>r. snd m = enc_header n ms ts @ r)
     \<and> g_kv g = map load_kv ms \<and> map t_name (g_tensors g) = map td_name ts
     \<and> map t_type (g_tensors g) = map td_type ts \<and> map t_ne (g_tensors g) = map (t_ne \<circ> load_tensor) ts
     \<and> length (enc_header n ms ts) \<le> lo \<and> (\<forall>t \<in> set (g_tensors g). inside m lo t))"

lemma open_parts:
  assumes "gguf_open_one_x heap (Some m) ho = Inr g"
  obtains v kvs tns c ds ts db c' where "read_header (cursor_at (snd m) heap) = Inr ((v, kvs, tns), c)"
    "data_start (of_nat (length (snd m) - length (cu_rest c))) (data_align kvs) = Some ds" "ds \<le> of_nat (length (snd m))"
    "place_all ho m ds tns 0 = Inr (ts, db)" "nvfp4_check ho (data_align kvs) (of_nat (length (snd m))) ds ts c = Inr c'"
    "g_kv g = kvs" "g_tensors g = ts" "g_map g = m" "g_maps g = []" "g_version g = v" "g_header_only g = ho"
    "ho \<or> g_mapped_size g = of_nat (length (snd m))"
proof -
  let ?size = "of_nat (length (snd m)) :: u64"
  obtain v kvs tns c where h: "read_header (cursor_at (snd m) heap) = Inr ((v, kvs, tns), c)"
    using assms by (auto simp: gguf_open_one_x_def then_do_Inr split: if_splits)
  then obtain ds where ds: "data_start (of_nat (length (snd m) - length (cu_rest c))) (data_align kvs) = Some ds"
    using assms by (cases "data_start (of_nat (length (snd m) - length (cu_rest c))) (data_align kvs)")
      (auto simp: gguf_open_one_x_def Let_def split: if_splits)
  with h obtain ts db c' where p: "ds \<le> ?size" "place_all ho m ds tns 0 = Inr (ts, db)"
    "nvfp4_check ho (data_align kvs) ?size ds ts c = Inr c'"
    and fin: "(let g = \<lparr>g_map = m, g_maps = [], g_mapped_size = ?size, g_version = v, g_kv = kvs,
                 g_tensors = ts, g_header_only = ho, g_data_bytes = db\<rparr> in
               if ho then (case checked_u64_add ds db of None \<Rightarrow> Inl Bad_Layout
                           | Some whole \<Rightarrow> Inr (g\<lparr>g_mapped_size := whole\<rparr>))
               else Inr g) = Inr g"
    using assms by (force simp: gguf_open_one_x_def Let_def then_do_Inr not_less split: if_split_asm)
  show ?thesis using fin by (intro that [OF h ds p]) (auto simp: Let_def split: if_splits option.splits)
qed


text \<open>A file of one tensor of two rows of four numbers, mapped at 0x10000.\<close>

definition desc1 :: "tensor_desc list" where
  "desc1 = [\<lparr>td_name = ascii ''w'', td_ne = [4, 2], td_type = 0, td_off = 0\<rparr>]"

definition file1 :: bytes where
  "file1 = enc_header 3 [] desc1 @ replicate 31 0 @ replicate 32 1"

definition placed1 :: gguf_tensor where
  "placed1 = (load_tensor (hd desc1))\<lparr>t_data := 0x10060, t_nbytes := 32\<rparr>"

lemma file1_length: "length file1 = 128" "length (enc_header 3 [] desc1) = 65"
  by (simp_all add: file1_def enc_header_def desc1_def enc_str_def enc_tensor_def)

lemma file1_header: "read_header (cursor_at file1 []) = Inr ((3, [], map load_tensor desc1), cursor_at (replicate 31 0 @ replicate 32 1) [])"
proof -
  have "header_ok 3 [] desc1" by (simp add: header_ok_def desc1_def desc_ok_def ascii_def of_char_of)
  then have "read_header (cursor_at file1 [])
      = Inr ((of_nat 3, map load_kv [], map load_tensor desc1), cursor_at (replicate 31 0 @ replicate 32 1) [])"
    by (rule read_header_reads) (use file1_length in \<open>simp_all add: file1_def\<close>)
  then show ?thesis by simp
qed

lemma place1: "place_all False (0x10000, file1) 96 (map load_tensor desc1) 0 = Inr ([placed1], 0)"
proof -
  have "tensor_nbytes (load_tensor (hd desc1)) = Some 32"
    by (simp add: tensor_nbytes_def load_tensor_def desc1_def Let_def ggml_block_size_def ggml_type_size_def
        type_sizes_def QK_types_def QK_K_types_def checked_u64_mul_def)
  then show ?thesis
    by (simp add: desc1_def place_tensor_def load_tensor_def ggml_type_supported_def placed1_def file1_length Let_def)
qed

lemma file1_opens: "\<exists>g. gguf_open_one_x [] (Some (0x10000, file1)) False = Inr g \<and> g_tensors g = [placed1]"
proof -
  have "data_align [] = 32" by (simp add: data_align_def gguf_get_u32_def gguf_get_def Let_def)
  moreover have "data_start 65 32 = Some 96" by (simp add: data_start_def checked_u64_add_def)
  moreover have "sort_key t_data [placed1] = [placed1]" by simp
  moreover have "\<not> variant_layout 32 placed1 x" for x
    by (simp add: variant_layout_def placed1_def load_tensor_def desc1_def T_NVFP4_def)
  ultimately show ?thesis using file1_header place1
    by (simp add: gguf_open_one_x_def file1_length Let_def cursor_at_def nvfp4_check_def alloc_def)
qed


subsection \<open>The NVFP4 layout check and the last tensor\<close>

text \<open>
  By the time the check runs, \<^verbatim>\<open>data\<close> is an address, but the end taken for the last tensor is
  the size of the data section. At any address at or above the file's size, which every real mapping
  has, the last tensor's span is therefore 0 and its layout is never questioned.
\<close>

lemma last_tensor_unchecked:
  assumes "length (snd m) \<le> unat (fst m)" "unat (fst m) + length (snd m) < 2 ^ 64" "ds \<le> of_nat (length (snd m))"
    "inside m (unat ds) t" "ggml_type_supported (t_type t)"
  shows "\<not> variant_layout align t (of_nat (length (snd m)) - ds)"
proof -
  have "unat (of_nat (length (snd m)) :: u64) = length (snd m)" using assms(2) by (intro unat_of_nat64) simp
  then have "unat (of_nat (length (snd m)) - ds :: u64) \<le> length (snd m)"
    using assms(3) by (simp add: unat_sub del: unsigned_of_nat)
  then have "\<not> (of_nat (length (snd m)) - ds > t_data t)"
    using assms(1,4,5) by (simp add: inside_def word_less_nat_alt del: unsigned_of_nat split: if_splits)
  then show ?thesis by (auto simp: variant_layout_def Let_def)
qed

lemma sole_tensor_unchecked:
  assumes "length (snd m) \<le> unat (fst m)" "unat (fst m) + length (snd m) < 2 ^ 64" "ds \<le> of_nat (length (snd m))"
    "place_all False m ds [t] 0 = Inr (ts, db)"
  shows "\<exists>c'. nvfp4_check False align (of_nat (length (snd m))) ds ts c = Inr c'"
proof -
  obtain t' where t': "ts = [t']" using assms(4) by (auto simp: then_do_Inr)
  have i: "inside m (unat ds) t'" using place_all_inside [OF assms(4,2,3)] t' by simp
  have "\<not> variant_layout align t' (of_nat (length (snd m)) - ds)"
  proof (cases "ggml_type_supported (t_type t')")
    case True
    show ?thesis by (rule last_tensor_unchecked [OF assms(1,2,3) i True])
  next
    case False
    then show ?thesis using i by (simp add: inside_def variant_layout_def)
  qed
  then show ?thesis by (simp add: nvfp4_check_def t' split: prod.splits)
qed

end
