(* ===== verification/Gguf_Access.thy ===== *)
theory Gguf_Access
  imports Gguf_Place
begin

section \<open>Typed access to metadata (gguf.c)\<close>

text \<open>
  The number a metadata entry stands for, from the format alone: what its bytes say under its type.
\<close>

definition float_number :: "fp \<Rightarrow> rat option" where
  "float_number f = (case f of Special \<Rightarrow> None | Finite d \<Rightarrow> Some d)"

fun number_of :: "gval \<Rightarrow> rat option" where
  "number_of (Scalar ty s) =
    (if kv_is_unsigned ty then Some (of_nat (le_nat s))
     else if kv_is_signed ty then Some (of_int (signed_take_bit (8 * length s - 1) (int (le_nat s))))
     else if ty = GGUF_T_F32 then float_number (f32_from_bits (of_nat (le_nat s)))
     else if ty = GGUF_T_F64 then float_number (f64_from_bits (of_nat (le_nat s)))
     else None)"
| "number_of _ = None"

text \<open>A number that a \<^verbatim>\<open>uint32_t\<close> holds, and the float -0.0, which the getter refuses.\<close>

definition as_u32 :: "rat \<Rightarrow> u32 option" where
  "as_u32 q = (if 0 \<le> q \<and> q < 2 ^ 32 \<and> q = of_int \<lfloor>q\<rfloor> then Some (of_int \<lfloor>q\<rfloor>) else None)"

fun minus_zero :: "gval \<Rightarrow> bool" where
  "minus_zero (Scalar ty s) \<longleftrightarrow> (ty = GGUF_T_F32 \<and> le_nat s = 2 ^ 31) \<or> (ty = GGUF_T_F64 \<and> le_nat s = 2 ^ 63)"
| "minus_zero _ = False"

lemma as_u32_int: "as_u32 (of_int i) = (if 0 \<le> i \<and> i \<le> 0xffffffff then Some (of_int i) else None)"
proof -
  have "(of_int i :: rat) < 2 ^ 32 \<longleftrightarrow> of_int i < (of_int (2 ^ 32) :: rat)" by simp
  then have "(of_int i :: rat) < 2 ^ 32 \<longleftrightarrow> i < 2 ^ 32" by (simp only: of_int_less_iff)
  moreover have "i < 2 ^ 32 \<longleftrightarrow> i \<le> 0xffffffff" by auto
  ultimately have "(of_int i :: rat) < 2 ^ 32 \<longleftrightarrow> i \<le> 0xffffffff" by blast
  then show ?thesis by (simp add: as_u32_def)
qed

lemma as_u32_nat: "as_u32 (of_nat n) = (if n \<le> 0xffffffff then Some (of_nat n) else None)"
  using as_u32_int [of "int n"] by simp

lemma as_u32_floor:
  assumes "0 \<le> q"
  shows "as_u32 q = (if q > of_nat (2 ^ 32 - 1) \<or> q \<noteq> of_int \<lfloor>q\<rfloor> then None else Some (of_int \<lfloor>q\<rfloor>))"
proof (cases "q = of_int \<lfloor>q\<rfloor>")
  case True
  define i where "i = \<lfloor>q\<rfloor>"
  have q: "q = of_int i" using True i_def by simp
  have "of_int i > (of_nat (2 ^ 32 - 1) :: rat) \<longleftrightarrow> of_int i > (of_int 0xffffffff :: rat)" by simp
  then have "q > of_nat (2 ^ 32 - 1) \<longleftrightarrow> \<not> i \<le> 0xffffffff" unfolding q by (simp only: of_int_less_iff not_le)
  moreover have "0 \<le> i" using assms q by simp
  ultimately show ?thesis using as_u32_int [of i] q by simp
qed (simp add: as_u32_def)

subsection \<open>Bit patterns\<close>

lemma field_ones:
  assumes "k + n \<le> LENGTH('a)"
  shows "(u :: 'a::len word) AND push_bit k (mask n) = push_bit k (mask n) \<longleftrightarrow> drop_bit k u AND mask n = mask n"
proof -
  have "u AND push_bit k (mask n) = push_bit k (mask n) \<longleftrightarrow> (\<forall>i < n. bit u (k + i))"
  proof
    assume e: "u AND push_bit k (mask n) = push_bit k (mask n)"
    show "\<forall>i < n. bit u (k + i)"
    proof (intro allI impI)
      fix i assume "i < n"
      then have "bit (push_bit k (mask n) :: 'a word) (k + i)" using assms by (simp add: bit_simps)
      then show "bit u (k + i)" using e by (metis bit_and_iff)
    qed
  next
    assume a: "\<forall>i < n. bit u (k + i)"
    show "u AND push_bit k (mask n) = push_bit k (mask n)"
    proof (rule bit_word_eqI)
      fix m assume "m < LENGTH('a)"
      show "bit (u AND push_bit k (mask n)) m = bit (push_bit k (mask n) :: 'a word) m"
        using a [rule_format, of "m - k"] by (auto simp: bit_simps)
    qed
  qed
  moreover have "drop_bit k u AND mask n = mask n \<longleftrightarrow> (\<forall>i < n. bit u (k + i))"
  proof
    assume e: "drop_bit k u AND mask n = mask n"
    show "\<forall>i < n. bit u (k + i)"
    proof (intro allI impI)
      fix i assume "i < n"
      then have "bit (mask n :: 'a word) i" using assms by (simp add: bit_simps)
      then have "bit (drop_bit k u) i" using e by (metis bit_and_iff)
      then show "bit u (k + i)" by (simp add: bit_simps)
    qed
  qed (auto simp: bit_eq_iff bit_simps)
  ultimately show ?thesis by simp
qed

lemma finite_f32: "raw_f32_finite u \<longleftrightarrow> unat (drop_bit 23 u AND 0xff) \<noteq> 255"
proof -
  have m: "push_bit 23 (mask 8) = (0x7f800000 :: u32)" "mask 8 = (0xff :: u32)" by (simp_all add: mask_eq_exp_minus_1)
  have "u AND 0x7f800000 = 0x7f800000 \<longleftrightarrow> drop_bit 23 u AND 0xff = 0xff"
    using field_ones [of 23 8 u] by (simp only: m) simp
  then show ?thesis by (simp add: raw_f32_finite_def word_unat_eq_iff)
qed

lemma finite_f64: "raw_f64_finite u \<longleftrightarrow> unat (drop_bit 52 u AND 0x7ff) \<noteq> 2047"
proof -
  have m: "push_bit 52 (mask 11) = (0x7ff0000000000000 :: u64)" "mask 11 = (0x7ff :: u64)" by (simp_all add: mask_eq_exp_minus_1)
  have "u AND 0x7ff0000000000000 = 0x7ff0000000000000 \<longleftrightarrow> drop_bit 52 u AND 0x7ff = 0x7ff"
    using field_ones [of 52 11 u] by (simp only: m) simp
  then show ?thesis by (simp add: raw_f64_finite_def word_unat_eq_iff)
qed

lemma sign_bit: "drop_bit (LENGTH('a) - 1) (u :: 'a::len word) \<noteq> 0 \<longleftrightarrow> bit u (LENGTH('a) - 1)"
proof
  assume "bit u (LENGTH('a) - 1)"
  then have "bit (drop_bit (LENGTH('a) - 1) u) 0" by (simp add: bit_simps)
  then show "drop_bit (LENGTH('a) - 1) u \<noteq> 0" by fastforce
next
  assume "drop_bit (LENGTH('a) - 1) u \<noteq> 0"
  then obtain i where "bit (drop_bit (LENGTH('a) - 1) u) i" by (metis bit_eqI bit_0_eq bot_apply bot_bool_def)
  then have i: "bit u (LENGTH('a) - 1 + i)" by (simp add: bit_simps)
  then have "LENGTH('a) - 1 + i < LENGTH('a)" by (rule bit_imp_le_length)
  then have "i = 0" by linarith
  with i show "bit u (LENGTH('a) - 1)" by simp
qed

lemma negative_f32: "raw_f32_negative u \<longleftrightarrow> bit u 31"
  using sign_bit [of u] by (simp add: raw_f32_negative_def)

lemma negative_f64: "raw_f64_negative u \<longleftrightarrow> bit u 63"
  using sign_bit [of u] by (simp add: raw_f64_negative_def)

text \<open>The magnitude of a finite pattern; it is zero only for the two zero patterns.\<close>

lemma fp_value_cases:
  assumes "e \<noteq> 2 ^ ebits - 1"
  obtains v where "fp_value neg e m ebits mbits = Finite (if neg then - v else v)" "0 \<le> v" "v = 0 \<longleftrightarrow> e = 0 \<and> m = 0"
proof -
  define sig where "sig = (if e = 0 then m else 2 ^ mbits + m)"
  define ex where "ex = (if e = 0 then 1 else e)"
  define bm where "bm = (2 ^ (ebits - 1) - 1 :: nat) + mbits"
  let ?v = "if ex \<ge> bm then of_nat (sig * 2 ^ (ex - bm)) else of_nat sig / of_nat (2 ^ (bm - ex)) :: rat"
  have "sig = 0 \<longleftrightarrow> e = 0 \<and> m = 0" by (simp add: sig_def)
  moreover have "?v = 0 \<longleftrightarrow> sig = 0" by simp
  ultimately have z: "?v = 0 \<longleftrightarrow> e = 0 \<and> m = 0" by blast
  have f: "fp_value neg e m ebits mbits = Finite (if neg then - ?v else ?v)"
    unfolding fp_value_def Let_def sig_def [symmetric] ex_def [symmetric] bm_def [symmetric] using assms by simp
  have "0 \<le> ?v" by simp
  with f z show ?thesis using that by blast
qed

subsection \<open>The getters\<close>

lemma kv_get_float:
  assumes "kv_f64 kv = fp_value neg e m ebits mbits" "kv_type kv = ty" "ty = GGUF_T_F32 \<or> ty = GGUF_T_F64"
    "(if ty = GGUF_T_F32 then raw_f32_finite (ucast (kv_raw kv)) else raw_f64_finite (kv_raw kv)) \<longleftrightarrow> e \<noteq> 2 ^ ebits - 1"
    "(if ty = GGUF_T_F32 then raw_f32_negative (ucast (kv_raw kv)) else raw_f64_negative (kv_raw kv)) \<longleftrightarrow> neg"
  shows "u32_of_float kv dflt = (if neg \<and> e = 0 \<and> m = 0 then dflt
    else case Option.bind (float_number (fp_value neg e m ebits mbits)) as_u32 of None \<Rightarrow> dflt | Some n \<Rightarrow> n)"
proof (cases "e = 2 ^ ebits - 1")
  case True
  then have "fp_value neg e m ebits mbits = Special" by (simp add: fp_value_def)
  then show ?thesis using assms(1) by (simp add: u32_of_float_def float_number_def Let_def)
next
  case False
  then obtain v where v: "fp_value neg e m ebits mbits = Finite (if neg then - v else v)" "0 \<le> v" "v = 0 \<longleftrightarrow> e = 0 \<and> m = 0"
    by (rule fp_value_cases)
  show ?thesis
  proof (cases neg)
    case True
    then have "u32_of_float kv dflt = dflt" using assms v(1) by (simp add: u32_of_float_def Let_def)
    moreover have "as_u32 (- v) = None" if "v \<noteq> 0" using that v(2) by (simp add: as_u32_def)
    ultimately show ?thesis using v True by (auto simp: float_number_def)
  next
    case pos: False
    then have "u32_of_float kv dflt = (if v > of_nat (2 ^ 32 - 1) \<or> v \<noteq> of_int \<lfloor>v\<rfloor> then dflt else of_int \<lfloor>v\<rfloor>)"
      using assms v(1) False by (simp add: u32_of_float_def Let_def)
    then show ?thesis using as_u32_floor [OF v(2)] v(1) pos by (simp add: float_number_def)
  qed
qed

lemma ucast_of_nat: "n < 2 ^ 64 \<Longrightarrow> (ucast (of_nat n :: u64) :: u32) = of_nat n"
  by (simp add: unsigned_of_nat take_bit_nat_eq_self)

lemma scalar_cases:
  assumes "scalar_type ty"
  obtains "kv_is_unsigned ty" | "kv_is_signed ty" | "ty = GGUF_T_F32" | "ty = GGUF_T_F64" | "ty = GGUF_T_BOOL"
proof -
  have "unat ty \<le> 12" "unat ty \<noteq> 8" "unat ty \<noteq> 9" using assms by (auto simp: scalar_type_def u8_nat)
  then have "unat ty = 0 \<or> unat ty = 1 \<or> unat ty = 2 \<or> unat ty = 3 \<or> unat ty = 4 \<or> unat ty = 5
    \<or> unat ty = 6 \<or> unat ty = 7 \<or> unat ty = 10 \<or> unat ty = 11 \<or> unat ty = 12" by presburger
  then show ?thesis
    using that unfolding kv_is_unsigned_def kv_is_signed_def by (elim disjE) (simp_all add: word_unat_eq_iff)
qed

lemma kv_type_scalar [simp]: "kv_type (kv_scalar ty n kv) = kv_type kv" "kv_type (kv_new key ty) = ty"
  by (simp_all add: kv_scalar_def kv_new_def)

lemma kv_type_loaded [simp]: "kv_type (loaded key v) = val_type v"
  by (cases v) simp_all

lemma unsigned_loaded:
  "kv_is_unsigned ty \<Longrightarrow> kv_u64 (kv_scalar ty n kv) = of_nat n"
  by (auto simp: kv_is_unsigned_def kv_scalar_def)

lemma signed_loaded:
  assumes "kv_is_signed ty" "length s = gguf_scalar_size ty"
  shows "kv_i64 (kv_scalar ty (le_nat s) kv) = signed_take_bit (8 * length s - 1) (int (le_nat s))"
  using assms by (auto simp: kv_is_signed_def kv_scalar_def gguf_scalar_size_def signed_of_nat)

definition pick :: "u32 \<Rightarrow> u32 option \<Rightarrow> u32" where
  "pick dflt r = (case r of None \<Rightarrow> dflt | Some n \<Rightarrow> n)"

lemma only_sign:
  assumes "k + n + 1 = LENGTH('a)"
  shows "bit (u :: 'a::len word) (k + n) \<and> drop_bit k u AND mask n = 0 \<and> u AND mask k = 0 \<longleftrightarrow> u = push_bit (k + n) 1"
proof
  assume a: "bit u (k + n) \<and> drop_bit k u AND mask n = 0 \<and> u AND mask k = 0"
  show "u = push_bit (k + n) 1"
  proof (rule bit_word_eqI)
    fix m assume m: "m < LENGTH('a)"
    have "\<not> bit (u AND mask k) m" "\<not> bit (drop_bit k u AND mask n) (m - k)" using a by simp_all
    then have "m < k \<Longrightarrow> \<not> bit u m" "k \<le> m \<Longrightarrow> m < k + n \<Longrightarrow> \<not> bit u m"
      using m by (auto simp: bit_simps)
    then have "\<not> bit u m" if "m \<noteq> k + n" using that m assms by (cases "m < k") (simp, linarith)
    then show "bit u m = bit (push_bit (k + n) 1 :: 'a word) m"
      using a m by (cases "m = k + n") (simp_all add: bit_simps bit_1_iff)
  qed
next
  assume u: "u = push_bit (k + n) 1"
  have i: "bit u i \<longleftrightarrow> i = k + n" for i using u assms by (auto simp: bit_simps bit_1_iff)
  have "drop_bit k u AND mask n = 0" by (rule bit_word_eqI) (auto simp: bit_simps i)
  moreover have "u AND mask k = 0" by (rule bit_word_eqI) (auto simp: bit_simps i)
  ultimately show "bit u (k + n) \<and> drop_bit k u AND mask n = 0 \<and> u AND mask k = 0" using i by simp
qed

lemma f32_zero:
  assumes "n < 2 ^ 32"
  shows "bit (of_nat n :: u32) 31 \<and> unat (drop_bit 23 (of_nat n :: u32) AND 0xff) = 0 \<and> unat ((of_nat n :: u32) AND 0x7fffff) = 0 \<longleftrightarrow> n = 2 ^ 31"
proof -
  let ?u = "of_nat n :: u32"
  have m: "mask 8 = (0xff :: u32)" "mask 23 = (0x7fffff :: u32)" "push_bit 31 1 = (0x80000000 :: u32)"
    by (simp_all add: mask_eq_exp_minus_1 push_bit_eq_mult)
  have "bit ?u 31 \<and> drop_bit 23 ?u AND 0xff = 0 \<and> ?u AND 0x7fffff = 0 \<longleftrightarrow> ?u = 0x80000000"
    using only_sign [of 23 8 ?u] by (simp add: m)
  moreover have "unat ?u = n" using assms by (simp add: unsigned_of_nat take_bit_nat_eq_self)
  ultimately show ?thesis by (simp add: word_unat_eq_iff del: unsigned_of_nat)
qed

lemma f64_zero:
  assumes "n < 2 ^ 64"
  shows "bit (of_nat n :: u64) 63 \<and> unat (drop_bit 52 (of_nat n :: u64) AND 0x7ff) = 0
    \<and> unat ((of_nat n :: u64) AND 0xfffffffffffff) = 0 \<longleftrightarrow> n = 2 ^ 63"
proof -
  let ?u = "of_nat n :: u64"
  have m: "mask 11 = (0x7ff :: u64)" "mask 52 = (0xfffffffffffff :: u64)" "push_bit 63 1 = (0x8000000000000000 :: u64)"
    by (simp_all add: mask_eq_exp_minus_1 push_bit_eq_mult)
  have "bit ?u 63 \<and> drop_bit 52 ?u AND 0x7ff = 0 \<and> ?u AND 0xfffffffffffff = 0 \<longleftrightarrow> ?u = 0x8000000000000000"
    using only_sign [of 52 11 ?u] by (simp add: m)
  moreover have "unat ?u = n" using assms by (rule unat_of_nat64)
  ultimately show ?thesis by (simp add: word_unat_eq_iff del: unsigned_of_nat)
qed

lemma float_loaded:
  assumes "ty = GGUF_T_F32 \<and> n < 2 ^ 32 \<or> ty = GGUF_T_F64 \<and> n < 2 ^ 64"
  shows "kv_get_u32 (kv_scalar ty n (kv_new key ty)) dflt =
    (if ty = GGUF_T_F32 \<and> n = 2 ^ 31 \<or> ty = GGUF_T_F64 \<and> n = 2 ^ 63 then dflt
     else pick dflt (Option.bind (float_number (if ty = GGUF_T_F32 then f32_from_bits (of_nat n) else f64_from_bits (of_nat n))) as_u32))"
proof (cases "ty = GGUF_T_F32")
  case True
  then have n: "n < 2 ^ 32" using assms by simp
  let ?u = "of_nat n :: u32" and ?kv = "kv_scalar ty n (kv_new key ty)"
  have kv: "kv_f64 ?kv = f32_from_bits ?u" "kv_type ?kv = ty" "ucast (kv_raw ?kv) = ?u"
    using True n by (simp_all add: kv_scalar_def kv_new_def ucast_of_nat)
  have "kv_get_u32 ?kv dflt = u32_of_float ?kv dflt"
    using True kv(2) by (simp add: kv_get_u32_def kv_is_unsigned_def kv_is_signed_def)
  also have "\<dots> = (if bit ?u 31 \<and> unat (drop_bit 23 ?u AND 0xff) = 0 \<and> unat (?u AND 0x7fffff) = 0 then dflt
      else pick dflt (Option.bind (float_number (f32_from_bits ?u)) as_u32))"
    unfolding f32_from_bits_def pick_def
    by (rule kv_get_float [where ty = ty]) (use True kv in \<open>simp_all add: f32_from_bits_def finite_f32 negative_f32\<close>)
  finally show ?thesis using f32_zero [OF n] True by simp
next
  case False
  then have n: "n < 2 ^ 64" and ty: "ty = GGUF_T_F64" using assms by auto
  let ?u = "of_nat n :: u64" and ?kv = "kv_scalar ty n (kv_new key ty)"
  have kv: "kv_f64 ?kv = f64_from_bits ?u" "kv_type ?kv = ty" "kv_raw ?kv = ?u"
    using ty by (simp_all add: kv_scalar_def kv_new_def)
  have "kv_get_u32 ?kv dflt = u32_of_float ?kv dflt"
    using ty kv(2) by (simp add: kv_get_u32_def kv_is_unsigned_def kv_is_signed_def)
  also have "\<dots> = (if bit ?u 63 \<and> unat (drop_bit 52 ?u AND 0x7ff) = 0 \<and> unat (?u AND 0xfffffffffffff) = 0 then dflt
      else pick dflt (Option.bind (float_number (f64_from_bits ?u)) as_u32))"
    unfolding f64_from_bits_def pick_def
    by (rule kv_get_float [where ty = ty]) (use ty kv in \<open>simp_all add: f64_from_bits_def finite_f64 negative_f64\<close>)
  finally show ?thesis using f64_zero [OF n] ty by simp
qed

lemma kv_get_u32_loaded:
  assumes "val_ok v"
  shows "kv_get_u32 (loaded key v) dflt = (if minus_zero v then dflt else pick dflt (Option.bind (number_of v) as_u32))"
proof (cases v)
  case (Scalar ty s)
  then have st: "scalar_type ty" and ls: "length s = gguf_scalar_size ty" using assms by auto
  have "length s \<le> 8" using scalar_size [OF st] ls by auto
  then have "(256::nat) ^ length s \<le> 256 ^ 8" by (intro power_increasing) simp_all
  then have n: "le_nat s < 2 ^ 64" using le_nat_less [of s] by simp
  from st show ?thesis
  proof (cases rule: scalar_cases)
    case 1
    have "(of_nat (le_nat s) :: u64) \<le> 0xffffffff \<longleftrightarrow> le_nat s \<le> 0xffffffff"
      using n by (simp add: word_le_nat_alt unat_of_nat64 del: unsigned_of_nat)
    then have "kv_get_u32 (loaded key v) dflt = (if le_nat s \<le> 0xffffffff then of_nat (le_nat s) else dflt)"
      unfolding kv_get_u32_def Scalar kv_type_scalar val_type.simps loaded.simps unsigned_loaded [OF 1] ucast_of_nat [OF n]
      using 1 by (simp only: if_True)
    moreover have "\<not> minus_zero v" using 1 Scalar by (auto simp: kv_is_unsigned_def)
    moreover have "number_of v = Some (of_nat (le_nat s))" using 1 Scalar by simp
    ultimately show ?thesis by (simp add: pick_def as_u32_nat)
  next
    case 2
    define i where "i = signed_take_bit (8 * length s - 1) (int (le_nat s))"
    have u: "\<not> kv_is_unsigned ty" using 2 by (auto simp: kv_is_signed_def kv_is_unsigned_def)
    then have "kv_get_u32 (loaded key v) dflt = (if 0 \<le> i \<and> i \<le> 0xffffffff then of_int i else dflt)"
      unfolding kv_get_u32_def Scalar kv_type_scalar val_type.simps loaded.simps signed_loaded [OF 2 ls] i_def
      using 2 by (simp only: if_True if_False)
    moreover have "\<not> minus_zero v" using 2 Scalar by (auto simp: kv_is_signed_def)
    moreover have "number_of v = Some (of_int i)" using 2 u Scalar by (simp add: i_def)
    ultimately show ?thesis by (simp add: pick_def as_u32_int)
  next
    case 3
    then have "le_nat s < 2 ^ 32" using le_nat_less [of s] ls by (simp add: gguf_scalar_size_def)
    then show ?thesis using float_loaded [of ty "le_nat s" key dflt] 3 Scalar
      by (simp add: kv_is_unsigned_def kv_is_signed_def)
  next
    case 4
    then show ?thesis using float_loaded [of ty "le_nat s" key dflt] n Scalar
      by (simp add: kv_is_unsigned_def kv_is_signed_def)
  next
    case 5
    then show ?thesis using Scalar by (simp add: kv_get_u32_def pick_def kv_is_unsigned_def kv_is_signed_def)
  qed
qed (simp_all add: kv_get_u32_def pick_def kv_is_unsigned_def kv_is_signed_def)

lemma gguf_get_loaded: "gguf_get (map load_kv ms) key = map_option (loaded key) (map_of ms key)"
proof (induction ms)
  case (Cons m ms)
  obtain k v where m: "m = (k, v)" by (cases m)
  have "load_kv (k, v) = loaded k v" "kv_key (loaded k v) = k"
    using kv_key_loaded [of "(k, v)"] by (simp_all add: load_kv_def)
  with Cons m show ?case by (simp add: gguf_get_def)
qed (simp add: gguf_get_def)

text \<open>What the number getters give for a value: its number when a \<^verbatim>\<open>uint32_t\<close> holds it.\<close>

definition value_u32 :: "gval \<Rightarrow> u32 \<Rightarrow> u32" where
  "value_u32 v dflt = (if minus_zero v then dflt else pick dflt (Option.bind (number_of v) as_u32))"

definition value_at :: "gval \<Rightarrow> nat \<Rightarrow> gval option" where
  "value_at v i =
    (case v of
       Packed ty n s \<Rightarrow>
         if i < n \<and> (kv_is_unsigned ty \<or> kv_is_signed ty)
         then Some (Scalar ty (take (gguf_scalar_size ty) (drop (i * gguf_scalar_size ty) s))) else None
     | Strs _ \<Rightarrow> None
     | _ \<Rightarrow> Some v)"

lemma chunk_length:
  assumes "i < n" "length s = k * n"
  shows "length (take k (drop (i * k) s)) = k"
proof -
  have "Suc i * k \<le> n * k" using assms(1) by (intro mult_le_mono1) simp
  then show ?thesis using assms(2) by (simp add: mult.commute)
qed

lemma idx_get_number:
  assumes "kv_is_unsigned ty \<or> kv_is_signed ty" "length s = gguf_scalar_size ty * n" "i < n"
  shows "idx_get_u32 ty s i dflt
    = value_u32 (Scalar ty (take (gguf_scalar_size ty) (drop (i * gguf_scalar_size ty) s))) dflt"
proof -
  let ?k = "gguf_scalar_size ty"
  let ?c = "take ?k (drop (i * ?k) s)"
  have l: "length ?c = ?k" by (rule chunk_length [OF assms(3,2)])
  have v: "value_u32 (Scalar ty ?c) dflt = pick dflt (if kv_is_unsigned ty then as_u32 (of_nat (elem_at ?k s i))
      else as_u32 (of_int (signed_elem ?k s i)))"
    using assms(1) l by (auto simp: value_u32_def elem_at_def signed_elem_def kv_is_unsigned_def kv_is_signed_def)
  have b: "elem_at ?k s i < 256 ^ ?k" using le_nat_less [of ?c] l by (simp add: elem_at_def)
  show ?thesis
  proof (cases "kv_is_unsigned ty")
    case True
    define w where "w = elem_at ?k s i"
    from True have t: "ty = GGUF_T_U8 \<or> ty = GGUF_T_U16 \<or> ty = GGUF_T_U32 \<or> ty = GGUF_T_U64" by (simp add: kv_is_unsigned_def)
    have le: "w \<le> 0xffffffff" if "ty \<noteq> GGUF_T_U64"
    proof -
      have "?k = 1 \<or> ?k = 2 \<or> ?k = 4" using t that by (elim disjE) (simp_all add: gguf_scalar_size_def)
      then show ?thesis using b unfolding w_def by (elim disjE) simp_all
    qed
    have "idx_get_u32 ty s i dflt = (if w \<le> 0xffffffff then of_nat w else dflt)"
      using t le by (elim disjE) (simp_all add: idx_get_u32_def w_def gguf_scalar_size_def)
    then show ?thesis unfolding v as_u32_nat using True by (simp add: pick_def w_def)
  next
    case False
    then have t: "ty = GGUF_T_I8 \<or> ty = GGUF_T_I16 \<or> ty = GGUF_T_I32 \<or> ty = GGUF_T_I64" using assms(1) by (simp add: kv_is_signed_def)
    have small: "signed_elem ?k s i < 2 ^ (8 * ?k - 1)" using t by (auto simp: signed_elem_def gguf_scalar_size_def signed_take_bit_int_less_exp)
    define w where "w = signed_elem ?k s i"
    have "w < 2 ^ 31" if "ty \<noteq> GGUF_T_I64"
    proof -
      have "?k = 1 \<or> ?k = 2 \<or> ?k = 4" using t that by (elim disjE) (simp_all add: gguf_scalar_size_def)
      then show ?thesis using small unfolding w_def by (elim disjE) simp_all
    qed
    then have le: "ty \<noteq> GGUF_T_I64 \<Longrightarrow> w \<le> 0xffffffff" by fastforce
    have "idx_get_u32 ty s i dflt = (if 0 \<le> w \<and> w \<le> 0xffffffff then of_int w else dflt)"
      using t le by (elim disjE) (simp_all add: idx_get_u32_def w_def gguf_scalar_size_def)
    then show ?thesis unfolding v as_u32_int using False by (simp add: pick_def w_def)
  qed
qed

text \<open>
  For every metadata table read from a file, \<^verbatim>\<open>gguf_get_u32\<close> answers with the number the
  entry's bytes say under its own type, integer or IEEE float, exactly when it is an integer that a \<^verbatim>\<open>uint32_t\<close> holds,
  and with the default in every other case (another type, a negative, a fraction, an infinity, a NaN,
  -0.0, a value too large, no such key); \<^verbatim>\<open>gguf_get_u32_idx\<close> does the same for the element of an integer
  array, whose bytes lie inside the array, and gives the default beyond its end.
\<close>

theorem gguf_get_u32_exact:
  assumes "\<forall>m \<in> set ms. meta_ok m"
  shows "gguf_get_u32 (map load_kv ms) key dflt
      = (case map_of ms key of None \<Rightarrow> dflt | Some v \<Rightarrow> value_u32 v dflt)
    \<and> gguf_get_u32_idx (map load_kv ms) key idx dflt
      = (case Option.bind (map_of ms key) (\<lambda>v. value_at v (unat idx)) of None \<Rightarrow> dflt | Some v \<Rightarrow> value_u32 v dflt)"
proof (cases "map_of ms key")
  case None
  then show ?thesis by (simp add: gguf_get_u32_def gguf_get_u32_idx_def gguf_get_loaded)
next
  case (Some v)
  then have v: "val_ok v" using assms map_of_SomeD [OF Some] by (auto simp: meta_ok_def)
  have g: "gguf_get_u32 (map load_kv ms) key dflt = value_u32 v dflt"
    using Some kv_get_u32_loaded [OF v] by (simp add: gguf_get_u32_def gguf_get_loaded value_u32_def)
  moreover have "gguf_get_u32_idx (map load_kv ms) key idx dflt
      = (case value_at v (unat idx) of None \<Rightarrow> dflt | Some w \<Rightarrow> value_u32 w dflt)"
  proof (cases v)
    case (Packed ty n s)
    then have p: "scalar_type ty" "length s = gguf_scalar_size ty * n" "n < 2 ^ 64" using v by auto
    have i: "idx \<ge> of_nat n \<longleftrightarrow> \<not> unat idx < n" using p(3) by (simp add: word_le_nat_alt unat_of_nat64 not_less del: unsigned_of_nat)
    have d: "idx_get_u32 ty s (unat idx) dflt = dflt" if "\<not> (kv_is_unsigned ty \<or> kv_is_signed ty)"
      using that by (simp add: idx_get_u32_def kv_is_unsigned_def kv_is_signed_def)
    show ?thesis using Some Packed i d idx_get_number [OF _ p(2)]
      by (auto simp: gguf_get_u32_idx_def gguf_get_loaded value_at_def)
  next
    case (Scalar ty s)
    then have "ty \<noteq> GGUF_T_ARR" using v GGUF_types by auto
    then show ?thesis using Some Scalar g by (simp add: gguf_get_u32_idx_def gguf_get_loaded value_at_def del: loaded.simps)
  next
    case (Str s)
    then show ?thesis using Some g by (simp add: gguf_get_u32_idx_def gguf_get_loaded value_at_def del: loaded.simps)
  next
    case (Strs ss)
    then show ?thesis using Some g by (simp add: gguf_get_u32_idx_def gguf_get_loaded value_at_def kv_new_def)
  qed
  ultimately show ?thesis using Some by simp
qed

end
