(* ===== verification/Gguf_Split.thy ===== *)
theory Gguf_Split
  imports Gguf_Access
begin

section \<open>Split files, attached files and scale companions (gguf.c)\<close>

text \<open>
  Lookup by name, the companion scales, \<^verbatim>\<open>gguf_open\<close> over the parts of a split model and
  \<^verbatim>\<open>gguf_attach\<close>. The lemmas follow the list of tensors: what the parts add, that names stay distinct,
  that every tensor stays inside the mapping of its part.
\<close>

definition gguf_find_tensor :: "gguf_tensor list \<Rightarrow> bytes \<Rightarrow> gguf_tensor option" where
  "gguf_find_tensor ts name = find (\<lambda>t. t_name t = name) ts"

definition gguf_map_count :: "gguf_file \<Rightarrow> nat" where
  "gguf_map_count g = (if g_maps g \<noteq> [] then length (g_maps g) else 1)"

definition gguf_map_part :: "gguf_file \<Rightarrow> nat \<Rightarrow> mapping option" where
  "gguf_map_part g i =
    (if i \<ge> gguf_map_count g then None else Some (if g_maps g \<noteq> [] then g_maps g ! i else g_map g))"

definition gguf_mapped_size :: "gguf_file \<Rightarrow> u64" where
  "gguf_mapped_size g = g_mapped_size g"

text \<open>All mappings a handle owns.\<close>

definition owned :: "gguf_file \<Rightarrow> mapping list" where
  "owned g = (if g_maps g \<noteq> [] then g_maps g else [g_map g])"

subsection \<open>Scale companions\<close>

text \<open>The four bytes at an address of one of the mappings.\<close>

definition read_f32 :: "mapping list \<Rightarrow> u64 \<Rightarrow> u32" where
  "read_f32 ms p =
    (case find (\<lambda>m. unat (fst m) \<le> unat p \<and> unat p + 4 \<le> unat (fst m) + length (snd m)) ms of
       None \<Rightarrow> 0
     | Some m \<Rightarrow> of_nat (le_nat (take 4 (drop (unat p - unat (fst m)) (snd m)))))"

text \<open>\<^verbatim>\<open>v > 0\<close> and finite, by the bits: a NaN fails the second test whatever the first gives.\<close>

definition usable_scale :: "u32 \<Rightarrow> bool" where
  "usable_scale v \<longleftrightarrow> raw_f32_finite v \<and> \<not> raw_f32_negative v \<and> v \<noteq> 0"

definition suffix_of :: "bytes \<Rightarrow> bytes \<Rightarrow> bytes option" where
  "suffix_of suf s =
    (if length s < length suf \<or> drop (length s - length suf) s \<noteq> suf then None
     else Some (take (length s - length suf) s))"

text \<open>The name a companion scales, with the length limits of the code's buffer.\<close>

definition companion_base :: "bytes \<Rightarrow> bytes option" where
  "companion_base name =
    (if length name \<le> 6 then None
     else case suffix_of (ascii ''.scale'') name of None \<Rightarrow> None
       | Some base \<Rightarrow> if length base + 7 \<ge> 128 then None else Some (base @ ascii ''.weight''))"

definition set_scale :: "bytes \<Rightarrow> u32 \<Rightarrow> gguf_tensor list \<Rightarrow> gguf_tensor list" where
  "set_scale name v ts =
    (let n = length (takeWhile (\<lambda>t. t_name t \<noteq> name) ts)
     in if n < length ts then ts[n := (ts ! n)\<lparr>t_scale := v\<rparr>] else ts)"

definition bind_companion :: "mapping list \<Rightarrow> gguf_tensor \<Rightarrow> gguf_tensor list \<Rightarrow> gguf_tensor list" where
  "bind_companion ms c ts =
    (case companion_base (t_name c) of None \<Rightarrow> ts
     | Some wname \<Rightarrow>
       if t_type c \<noteq> T_F32 \<or> t_data c = 0 \<or> t_ne c ! 0 * t_ne c ! 1 * t_ne c ! 2 * t_ne c ! 3 \<noteq> 1 then ts
       else let v = read_f32 ms (t_data c) in if \<not> usable_scale v then ts else set_scale wname v ts)"

definition gguf_bind_scale_companions :: "gguf_file \<Rightarrow> gguf_file" where
  "gguf_bind_scale_companions g =
    g\<lparr>g_tensors := fold (\<lambda>i ts. bind_companion (owned g) (ts ! i) ts) [0..<length (g_tensors g)] (g_tensors g)\<rparr>"

subsection \<open>Split files\<close>

text \<open>\<^verbatim>\<open>%05u\<close>.\<close>

definition dec5 :: "u32 \<Rightarrow> bytes" where
  "dec5 n = (let d = dec_nat (unat n) in replicate (5 - length d) 0x30 @ d)"

definition part_suffix :: "u32 \<Rightarrow> u32 \<Rightarrow> bytes" where
  "part_suffix i count = ascii ''-'' @ dec5 (i + 1) @ ascii ''-of-'' @ dec5 count @ ascii ''.gguf''"

definition split_part_path :: "nat \<Rightarrow> bytes \<Rightarrow> u32 \<Rightarrow> u32 \<Rightarrow> u32 \<Rightarrow> bytes option" where
  "split_part_path cap path current count wanted =
    (case suffix_of (part_suffix current count) path of None \<Rightarrow> None
     | Some stem \<Rightarrow>
       let out = stem @ part_suffix wanted count
       in if length out < cap then Some out else None)"

text \<open>
  \<open>fs\<close> is \<^verbatim>\<open>plat_mmap_ro\<close>, and \<open>heap k\<close> the answers to the allocations of the \<open>k\<close>-th file opened.
\<close>

type_synonym files = "bytes \<Rightarrow> mapping option"

definition key_no :: bytes where "key_no = ascii ''split.no''"
definition key_count :: bytes where "key_count = ascii ''split.count''"
definition key_tensors :: bytes where "key_tensors = ascii ''split.tensors.count''"
definition key_arch :: bytes where "key_arch = ascii ''general.architecture''"
definition key_align :: bytes where "key_align = ascii ''general.alignment''"

definition part_consistent :: "gguf_file \<Rightarrow> gguf_file \<Rightarrow> u32 \<Rightarrow> u32 \<Rightarrow> u32 \<Rightarrow> u64 \<Rightarrow> u64 \<Rightarrow> bool" where
  "part_consistent p0 p i count expected ntot mapped \<longleftrightarrow>
    (let no = gguf_get_u32 (g_kv p) key_no (- 1);
         nc = gguf_get_u32 (g_kv p) key_count 0;
         nt = gguf_get_u32 (g_kv p) key_tensors (- 1);
         arch0 = gguf_get_str (g_kv p0) key_arch None;
         archi = gguf_get_str (g_kv p) key_arch None;
         align0 = gguf_get_u32 (g_kv p0) key_align 32;
         aligni = gguf_get_u32 (g_kv p) key_align align0;
         n = of_nat (length (g_tensors p)) :: u64
     in \<not> (g_version p \<noteq> g_version p0 \<or> arch0 = None \<or> (archi \<noteq> None \<and> arch0 \<noteq> archi) \<or> align0 \<noteq> aligni
           \<or> no \<noteq> i \<or> nc \<noteq> count \<or> nt \<noteq> expected \<or> n > ucast expected \<or> ntot > ucast expected - n
           \<or> mapped > - 1 - of_nat (length (snd (g_map p)))))"

text \<open>The loop over the parts, from the \<open>i\<close>-th, with those already open.\<close>

function open_split :: "files \<Rightarrow> (nat \<Rightarrow> bool list) \<Rightarrow> bytes \<Rightarrow> u32 \<Rightarrow> u32 \<Rightarrow> nat \<Rightarrow> gguf_file list \<Rightarrow> u64 \<Rightarrow> u64
    \<Rightarrow> gg_error + gguf_file list \<times> u64 \<times> u64" where
  "open_split fs heap first count expected i parts ntot mapped =
    (if i \<ge> unat count then Inr (parts, ntot, mapped)
     else case split_part_path 4096 first 0 count (of_nat i) of None \<Rightarrow> Inl Missing_Part
       | Some part_path \<Rightarrow>
         case gguf_open_one_x (heap (Suc i)) (fs part_path) False of Inl _ \<Rightarrow> Inl Missing_Part
         | Inr p \<Rightarrow>
           if \<not> part_consistent (hd (parts @ [p])) p (of_nat i) count expected ntot mapped then Inl Bad_Split
           else open_split fs heap first count expected (Suc i) (parts @ [p])
                  (ntot + of_nat (length (g_tensors p))) (mapped + of_nat (length (snd (g_map p)))))"
  by pat_completeness auto
termination by (relation "measure (\<lambda>(fs, heap, first, count, expected, i, parts, ntot, mapped). unat count - i)") auto

declare open_split.simps [simp del]

text \<open>Merging the parts: the first part's metadata, every tensor, every mapping.\<close>

definition merge_parts :: "gguf_file list \<Rightarrow> u64 \<Rightarrow> gguf_file" where
  "merge_parts parts mapped =
    (hd parts)\<lparr>g_tensors := concat (map g_tensors parts), g_maps := map g_map parts, g_mapped_size := mapped,
      g_map := g_map (hd parts)\<rparr>"

text \<open>\<open>mem\<close> answers the allocations of the merge: the parts, the three arrays, the names.\<close>

definition split_open :: "files \<Rightarrow> (nat \<Rightarrow> bool list) \<Rightarrow> bool \<Rightarrow> bool \<Rightarrow> bool \<Rightarrow> bytes \<Rightarrow> u32 \<Rightarrow> u32 \<Rightarrow> gg_error + gguf_file" where
  "split_open fs heap mem_parts mem_merge mem_names first count expected =
    (if \<not> mem_parts then Inl No_Memory
     else then_do (open_split fs heap first count expected 0 [] 0 0) (\<lambda>(parts, ntot, mapped).
       if ntot \<noteq> ucast expected then Inl Bad_Split
       else if \<not> mem_merge then Inl No_Memory
       else let g = merge_parts parts mapped; names = map t_name (g_tensors g) in
         if length names > 1 \<and> \<not> mem_names then Inl No_Memory
         else if length names > 1 \<and> first_duplicate_inplace names \<noteq> None then
           Inl (Duplicate (the (first_duplicate_inplace names)))
         else Inr (gguf_bind_scale_companions g)))"

definition gguf_open :: "files \<Rightarrow> (nat \<Rightarrow> bool list) \<Rightarrow> bool \<Rightarrow> bool \<Rightarrow> bool \<Rightarrow> bytes \<Rightarrow> gg_error + gguf_file" where
  "gguf_open fs heap mem_parts mem_merge mem_names path =
    then_do (gguf_open_one_x (heap 0) (fs path) False) (\<lambda>probe.
      let count = gguf_get_u32 (g_kv probe) key_count 0 in
      if count \<le> 1 then Inr (gguf_bind_scale_companions probe)
      else let current = gguf_get_u32 (g_kv probe) key_no (- 1);
               expected = gguf_get_u32 (g_kv probe) key_tensors (- 1) in
        if current \<ge> count \<or> expected = - 1 \<or> expected > 100000 \<or> count > expected \<or> count > 10000 then Inl Bad_Split
        else case split_part_path 4096 path current count 0 of None \<Rightarrow> Inl Bad_Name
          | Some first \<Rightarrow> split_open fs heap mem_parts mem_merge mem_names first count expected)"

subsection \<open>Attaching a second file\<close>

fun attach_loop :: "gguf_tensor list \<Rightarrow> gguf_tensor list \<Rightarrow> gguf_tensor list" where
  "attach_loop ts [] = ts"
| "attach_loop ts (e # es) = attach_loop (if gguf_find_tensor ts (t_name e) = None then ts @ [e] else ts) es"

text \<open>The room the code reserves for the attached tensors.\<close>

definition attach_keep :: "gguf_tensor list \<Rightarrow> gguf_tensor list \<Rightarrow> nat" where
  "attach_keep ts es = length (filter (\<lambda>e. gguf_find_tensor ts (t_name e) = None) es)"

definition gguf_attach :: "bool \<Rightarrow> bool \<Rightarrow> gguf_file \<Rightarrow> gguf_file \<Rightarrow> gguf_file option" where
  "gguf_attach mem_tensors mem_maps g extra =
    (if g_header_only g \<or> g_header_only extra then None
     else if \<not> mem_tensors \<or> \<not> mem_maps then None
     else let maps = owned g @ owned extra in
       Some (g\<lparr>g_tensors := attach_loop (g_tensors g) (g_tensors extra), g_maps := maps, g_map := hd maps,
               g_mapped_size := g_mapped_size g + g_mapped_size extra\<rparr>))"

subsection \<open>What a handle holds\<close>

definition tensors_ok :: "mapping list \<Rightarrow> gguf_tensor list \<Rightarrow> bool" where
  "tensors_ok ms ts \<longleftrightarrow> (\<forall>t \<in> set ts. (\<exists>m \<in> set ms. \<exists>lo. inside m lo t) \<and> (t_scale t = F32_ONE \<or> usable_scale (t_scale t)))"

definition part_ok :: "gguf_file \<Rightarrow> bool" where
  "part_ok p \<longleftrightarrow> g_maps p = [] \<and> tensors_ok [g_map p] (g_tensors p) \<and> distinct (map t_name (g_tensors p))
     \<and> unat (g_mapped_size p) = length (snd (g_map p)) \<and> \<not> g_header_only p"

lemma place_all_scale: "place_all ho m ds ts db = Inr (ts', db') \<Longrightarrow> map t_scale ts' = map t_scale ts"
proof (induction ts arbitrary: db ts')
  case (Cons t ts)
  from Cons.prems obtain t1 db1 ts1 where p: "place_tensor ho m ds t db = Inr (t1, db1)"
    "place_all ho m ds ts db1 = Inr (ts1, db')" "ts' = t1 # ts1"
    by (auto simp: then_do_Inr)
  have "t_scale t1 = t_scale t"
    using p(1) by (auto simp: place_tensor_def Let_def split: option.splits if_splits)
  with p Cons.IH [OF p(2)] show ?case by simp
qed simp

lemma open_one_part:
  assumes "gguf_open_one_x heap (Some m) False = Inr g" "unat (fst m) + length (snd m) < 2 ^ 64"
  shows "part_ok g \<and> g_map g = m"
proof -
  obtain v kvs tns c ds ts db where o: "read_header (cursor_at (snd m) heap) = Inr ((v, kvs, tns), c)"
    "ds \<le> of_nat (length (snd m))" "place_all False m ds tns 0 = Inr (ts, db)"
    and g: "g_tensors g = ts" "g_map g = m" "g_maps g = []" "g_mapped_size g = of_nat (length (snd m))" "\<not> g_header_only g"
    by (rule open_parts [OF assms(1)]) simp
  obtain n ms tds where h: "tns = map load_tensor tds" "header_ok n ms tds" using read_header_only [OF o(1)] by blast
  then have "map t_scale ts = replicate (length tds) F32_ONE"
    using place_all_scale [OF o(3)] by (simp add: load_tensor_def comp_def map_replicate_const)
  then have "\<forall>t \<in> set ts. t_scale t = F32_ONE" by (metis in_set_replicate image_eqI set_map)
  moreover have "\<forall>t \<in> set ts. inside m (unat ds) t" using place_all_inside [OF o(3) assms(2) o(2)] by blast
  moreover have "unat (of_nat (length (snd m)) :: u64) = length (snd m)" using assms(2) by (intro unat_of_nat64) simp
  moreover have "distinct (map t_name ts)"
    using place_all_inside [OF o(3) assms(2) o(2)] h by (simp add: header_ok_def comp_def)
  ultimately show ?thesis using g by (auto simp: part_ok_def tensors_ok_def)
qed

lemma inside_scale [simp]: "inside m lo (t\<lparr>t_scale := v\<rparr>) = inside m lo t"
  by (simp add: inside_def described_bytes_def)

lemma t_name_update: "t_name (t\<lparr>t_scale := v\<rparr>) = t_name t"
  by simp

lemma set_scale_ok:
  assumes "tensors_ok ms ts" "usable_scale v"
  shows "tensors_ok ms (set_scale name v ts) \<and> map t_name (set_scale name v ts) = map t_name ts"
proof -
  let ?n = "length (takeWhile (\<lambda>t. t_name t \<noteq> name) ts)"
  show ?thesis
  proof (cases "?n < length ts")
    case True
    have "(map t_name ts)[?n := t_name (ts ! ?n)] = map t_name ts"
      using list_update_id [of "map t_name ts" ?n] nth_map [OF True, of t_name] by simp
    then have "map t_name (ts[?n := (ts ! ?n)\<lparr>t_scale := v\<rparr>]) = map t_name ts"
      by (simp only: map_update t_name_update)
    moreover have "tensors_ok ms (ts[?n := (ts ! ?n)\<lparr>t_scale := v\<rparr>])"
      unfolding tensors_ok_def
    proof
      fix t assume "t \<in> set (ts[?n := (ts ! ?n)\<lparr>t_scale := v\<rparr>])"
      then have "t \<in> set ts \<or> t = (ts ! ?n)\<lparr>t_scale := v\<rparr>" using set_update_subset_insert by fastforce
      then show "(\<exists>m \<in> set ms. \<exists>lo. inside m lo t) \<and> (t_scale t = F32_ONE \<or> usable_scale (t_scale t))"
      proof
        assume t: "t = (ts ! ?n)\<lparr>t_scale := v\<rparr>"
        then show ?thesis using assms nth_mem [OF True] by (simp add: tensors_ok_def)
      qed (use assms(1) in \<open>simp add: tensors_ok_def\<close>)
    qed
    ultimately show ?thesis using True by (simp add: set_scale_def Let_def)
  next
    case False
    then show ?thesis using assms by (simp add: set_scale_def)
  qed
qed

lemma bind_companion_ok:
  "tensors_ok ms ts \<Longrightarrow> tensors_ok ms (bind_companion ns c ts) \<and> map t_name (bind_companion ns c ts) = map t_name ts"
  using set_scale_ok by (simp add: bind_companion_def Let_def split: option.splits)

lemma bind_companions_ok:
  "tensors_ok ms ts \<Longrightarrow>
   tensors_ok ms (fold (\<lambda>i ts. bind_companion ns (ts ! i) ts) is ts)
   \<and> map t_name (fold (\<lambda>i ts. bind_companion ns (ts ! i) ts) is ts) = map t_name ts"
proof (induction "is" arbitrary: ts)
  case (Cons i "is")
  note b = bind_companion_ok [OF Cons.prems, of ns "ts ! i"]
  from Cons.IH [of "bind_companion ns (ts ! i) ts"] b show ?case by simp
qed simp

definition handle_ok :: "gguf_file \<Rightarrow> bool" where
  "handle_ok g \<longleftrightarrow> distinct (map t_name (g_tensors g)) \<and> tensors_ok (owned g) (g_tensors g)
     \<and> unat (g_mapped_size g) = sum_list (map (length \<circ> snd) (owned g)) \<and> (g_maps g \<noteq> [] \<longrightarrow> g_map g = hd (g_maps g))
     \<and> \<not> g_header_only g"

lemma bind_scales_ok: "handle_ok g \<Longrightarrow> handle_ok (gguf_bind_scale_companions g)
    \<and> owned (gguf_bind_scale_companions g) = owned g \<and> length (g_tensors (gguf_bind_scale_companions g)) = length (g_tensors g)"
proof -
  assume h: "handle_ok g"
  define ts where "ts = fold (\<lambda>i ts. bind_companion (owned g) (ts ! i) ts) [0..<length (g_tensors g)] (g_tensors g)"
  have t: "tensors_ok (owned g) ts" "map t_name ts = map t_name (g_tensors g)"
    using h bind_companions_ok [of "owned g" "g_tensors g"] unfolding ts_def handle_ok_def by blast+
  then have "length ts = length (g_tensors g)" by (metis length_map)
  moreover have "gguf_bind_scale_companions g = g\<lparr>g_tensors := ts\<rparr>" by (simp only: gguf_bind_scale_companions_def ts_def)
  moreover have "owned (g\<lparr>g_tensors := ts\<rparr>) = owned g" by (simp add: owned_def)
  ultimately show ?thesis using h t unfolding handle_ok_def by simp
qed

lemma handle_part: "part_ok p \<Longrightarrow> handle_ok p"
  by (simp add: part_ok_def handle_ok_def owned_def)

subsection \<open>Opening the parts\<close>

definition maps_fit :: "files \<Rightarrow> bool" where
  "maps_fit fs \<longleftrightarrow> (\<forall>path m. fs path = Some m \<longrightarrow> unat (fst m) + length (snd m) < 2 ^ 64)"

definition parts_ok :: "gguf_file list \<Rightarrow> u64 \<Rightarrow> u64 \<Rightarrow> bool" where
  "parts_ok ps ntot mapped \<longleftrightarrow> (\<forall>p \<in> set ps. part_ok p)
     \<and> unat ntot = sum_list (map (length \<circ> g_tensors) ps)
     \<and> unat mapped = sum_list (map (length \<circ> snd \<circ> g_map) ps)"

definition numbered :: "u32 \<Rightarrow> u32 \<Rightarrow> gguf_file list \<Rightarrow> bool" where
  "numbered count expected ps \<longleftrightarrow> (\<forall>j < length ps. gguf_get_u32 (g_kv (ps ! j)) key_no (- 1) = of_nat j
     \<and> gguf_get_u32 (g_kv (ps ! j)) key_count 0 = count \<and> gguf_get_u32 (g_kv (ps ! j)) key_tensors (- 1) = expected
     \<and> g_version (ps ! j) = g_version (hd ps))"

lemma numbered_snoc:
  assumes "numbered count expected ps" "part_consistent (hd (ps @ [p])) p (of_nat (length ps)) count expected n k"
  shows "numbered count expected (ps @ [p])"
  unfolding numbered_def
proof (intro allI impI)
  fix j assume j: "j < length (ps @ [p])"
  show "gguf_get_u32 (g_kv ((ps @ [p]) ! j)) key_no (- 1) = of_nat j \<and> gguf_get_u32 (g_kv ((ps @ [p]) ! j)) key_count 0 = count
    \<and> gguf_get_u32 (g_kv ((ps @ [p]) ! j)) key_tensors (- 1) = expected \<and> g_version ((ps @ [p]) ! j) = g_version (hd (ps @ [p]))"
  proof (cases "j < length ps")
    case True
    then have "(ps @ [p]) ! j = ps ! j" "hd (ps @ [p]) = hd ps" by (auto simp: nth_append hd_append)
    then show ?thesis using assms(1) True unfolding numbered_def by presburger
  next
    case False
    then have "(ps @ [p]) ! j = p" "j = length ps" using j by (simp_all add: nth_append)
    then show ?thesis using assms(2) by (simp add: part_consistent_def Let_def)
  qed
qed

lemma header_count: "gguf_open_one_x heap (Some m) ho = Inr g \<Longrightarrow> length (g_tensors g) \<le> 100000"
proof -
  assume o: "gguf_open_one_x heap (Some m) ho = Inr g"
  obtain v kvs tns c ds ts db where r: "read_header (cursor_at (snd m) heap) = Inr ((v, kvs, tns), c)"
    "place_all ho m ds tns 0 = Inr (ts, db)" "g_tensors g = ts"
    by (rule open_parts [OF o]) simp
  have "length ts = length tns" using place_all_scale [OF r(2)] by (metis length_map)
  then show ?thesis using r(3) read_header_only [OF r(1)] by (auto simp: header_ok_def)
qed

lemma open_split_ok:
  assumes "maps_fit fs"
  shows "open_split fs heap first count expected i parts ntot mapped = Inr (ps, n, k) \<Longrightarrow>
    parts_ok parts ntot mapped \<Longrightarrow> numbered count expected parts \<Longrightarrow> length parts = i \<Longrightarrow> i \<le> unat count \<Longrightarrow>
    parts_ok ps n k \<and> numbered count expected ps \<and> length ps = unat count"
proof (induction "unat count - i" arbitrary: i parts ntot mapped)
  case 0
  then show ?case by (simp add: open_split.simps [of fs heap first count expected i])
next
  case (Suc d)
  then have i: "\<not> i \<ge> unat count" by linarith
  with Suc.prems(1) obtain path p where p: "split_part_path 4096 first 0 count (of_nat i) = Some path"
    "gguf_open_one_x (heap (Suc i)) (fs path) False = Inr p"
    "part_consistent (hd (parts @ [p])) p (of_nat i) count expected ntot mapped"
    "open_split fs heap first count expected (Suc i) (parts @ [p])
       (ntot + of_nat (length (g_tensors p))) (mapped + of_nat (length (snd (g_map p)))) = Inr (ps, n, k)"
    by (subst (asm) open_split.simps) (auto split: option.splits sum.splits if_splits)
  obtain m where m: "fs path = Some m" using p(2) by (cases "fs path") (auto simp: gguf_open_one_x_def)
  have "unat (fst m) + length (snd m) < 2 ^ 64" using assms m by (simp add: maps_fit_def)
  then have ok: "part_ok p" "g_map p = m" using open_one_part p(2) m by auto
  let ?n = "of_nat (length (g_tensors p)) :: u64" and ?k = "of_nat (length (snd (g_map p))) :: u64"
  have u: "unat ?n = length (g_tensors p)" "unat ?k = length (snd (g_map p))"
    using header_count [of "heap (Suc i)" m False p] p(2) m \<open>unat (fst m) + length (snd m) < 2 ^ 64\<close> ok(2)
    by (simp_all add: unat_of_nat64 del: unsigned_of_nat)
  have c: "\<not> ?n > ucast expected" "\<not> ntot > ucast expected - ?n" "\<not> mapped > - 1 - ?k"
    using p(3) by (auto simp: part_consistent_def Let_def)
  have "unat (ntot + ?n) = unat ntot + unat ?n"
  proof -
    have "unat (ucast expected - ?n :: u64) = unat (ucast expected :: u64) - unat ?n" using c(1) by (simp add: unat_sub)
    then have "unat ntot + unat ?n \<le> unat (ucast expected :: u64)" using c(1,2) by (simp add: word_less_nat_alt not_less)
    then show ?thesis using unat64_less [of "ucast expected"] by (simp add: unat_word_ariths)
  qed
  moreover have "unat (mapped + ?k) = unat mapped + unat ?k"
    using c(3) checked_add [of ?k mapped "?k + mapped"] by (simp add: checked_u64_add_def add.commute)
  ultimately have "parts_ok (parts @ [p]) (ntot + ?n) (mapped + ?k)"
    using Suc.prems(2) ok(1) u by (simp add: parts_ok_def)
  moreover have "numbered count expected (parts @ [p])"
    using Suc.prems(3,4) p(3) by (intro numbered_snoc) simp_all
  moreover have "d = unat count - Suc i" using Suc.hyps(2) by simp
  ultimately show ?case using Suc.hyps(1) [OF _ p(4)] Suc.prems(4) i by simp
qed

lemma unat_ucast32_64: "unat (ucast (x :: u32) :: u64) = unat x"
  using unat32_less [of x] by (simp add: unsigned_ucast_eq take_bit_nat_eq_self)

lemma no_duplicates: "\<not> (length s > Suc 0 \<and> (\<exists>d. first_duplicate_inplace s = Some d)) \<Longrightarrow> distinct s"
  using first_duplicate [of s] by (cases "length s < 2") (auto simp: first_duplicate_inplace_def)

lemma tensors_ok_mono: "tensors_ok ms ts \<Longrightarrow> set ms \<subseteq> set ns \<Longrightarrow> tensors_ok ns ts"
  unfolding tensors_ok_def by blast

lemma tensors_ok_one: "tensors_ok [m] [t] \<longleftrightarrow> (\<exists>lo. inside m lo t) \<and> (t_scale t = F32_ONE \<or> usable_scale (t_scale t))"
  by (simp add: tensors_ok_def)

lemma tensors_ok_concat: "tensors_ok ms (concat tss) \<longleftrightarrow> (\<forall>ts \<in> set tss. tensors_ok ms ts)"
  by (auto simp: tensors_ok_def)

lemma merge_ok:
  assumes p: "parts_ok ps n k" "ps \<noteq> []" and d: "distinct (map t_name (g_tensors (merge_parts ps k)))"
  shows "handle_ok (merge_parts ps k) \<and> owned (merge_parts ps k) = map g_map ps
    \<and> length (g_tensors (merge_parts ps k)) = unat n"
proof -
  have "tensors_ok (map g_map ps) (concat (map g_tensors ps))"
    unfolding tensors_ok_concat using p(1) by (auto simp: parts_ok_def part_ok_def elim!: tensors_ok_mono)
  moreover have "owned (merge_parts ps k) = map g_map ps" using p(2) by (simp add: owned_def merge_parts_def)
  moreover have "\<not> g_header_only (hd ps)" using p by (simp add: parts_ok_def part_ok_def)
  moreover have "unat n = length (concat (map g_tensors ps))" using p(1) by (simp add: parts_ok_def length_concat comp_def)
  ultimately show ?thesis using p d by (auto simp: handle_ok_def merge_parts_def parts_ok_def hd_map comp_def)
qed


definition files1 :: files where
  "files1 path = (if path = ascii ''m'' then Some (0x10000, file1) else None)"


subsection \<open>Attaching\<close>

lemma find_none: "gguf_find_tensor ts name = None \<longleftrightarrow> name \<notin> t_name ` set ts"
  by (auto simp: gguf_find_tensor_def find_None_iff)

lemma find_append: "gguf_find_tensor (ts @ us) name = (case gguf_find_tensor ts name of None \<Rightarrow> gguf_find_tensor us name | r \<Rightarrow> r)"
  by (induction ts) (auto simp: gguf_find_tensor_def)

lemma length_filter_weaker: "(\<And>x. P x \<Longrightarrow> Q x) \<Longrightarrow> length (filter P xs) \<le> length (filter Q xs)"
  by (induction xs) (auto simp: le_SucI)

lemma attach_loop_spec:
  "distinct (map t_name ts) \<Longrightarrow> \<exists>us. attach_loop ts es = ts @ us \<and> set us \<subseteq> set es \<and> length us \<le> attach_keep ts es
    \<and> distinct (map t_name (attach_loop ts es)) \<and> t_name ` set (attach_loop ts es) = t_name ` set ts \<union> t_name ` set es"
proof (induction es arbitrary: ts)
  case (Cons e es)
  let ?ts = "if gguf_find_tensor ts (t_name e) = None then ts @ [e] else ts"
  have d: "distinct (map t_name ?ts)" using Cons.prems find_none [of ts "t_name e"] by simp
  then obtain us where us: "attach_loop ?ts es = ?ts @ us" "set us \<subseteq> set es" "length us \<le> attach_keep ?ts es"
    "distinct (map t_name (attach_loop ?ts es))" "t_name ` set (attach_loop ?ts es) = t_name ` set ?ts \<union> t_name ` set es"
    using Cons.IH by blast
  have fewer: "attach_keep (ts @ [e]) es \<le> attach_keep ts es"
    unfolding attach_keep_def by (rule length_filter_weaker) (simp add: find_append split: option.splits)
  show ?case
  proof (cases "gguf_find_tensor ts (t_name e) = None")
    case True
    have eq: "attach_loop ts (e # es) = attach_loop (ts @ [e]) es" "?ts = ts @ [e]" using True by simp_all
    have k: "attach_keep ts (e # es) = Suc (attach_keep ts es)" using True by (simp add: attach_keep_def)
    have "attach_loop (ts @ [e]) es = ts @ (e # us)" using us(1) unfolding eq(2) by simp
    moreover have "length (e # us) \<le> attach_keep ts (e # es)" using us(3) fewer k unfolding eq(2) by simp
    moreover have "set (e # us) \<subseteq> set (e # es)" using us(2) by auto
    moreover have "t_name ` set (attach_loop (ts @ [e]) es) = t_name ` set ts \<union> t_name ` set (e # es)"
      using us(5) unfolding eq(2) by simp
    moreover have "distinct (map t_name (attach_loop (ts @ [e]) es))" using us(4) unfolding eq(2) .
    ultimately show ?thesis unfolding eq(1) by (intro exI [of _ "e # us"] conjI)
  next
    case False
    then have in_ts: "t_name e \<in> t_name ` set ts" using find_none [of ts "t_name e"] by simp
    have eq: "attach_loop ts (e # es) = attach_loop ts es" "?ts = ts" by (simp_all only: attach_loop.simps False if_False)
    have k: "attach_keep ts (e # es) = attach_keep ts es" by (simp only: attach_keep_def filter.simps False if_False)
    have "set us \<subseteq> set (e # es)" using us(2) by auto
    moreover have "t_name ` set (attach_loop ts es) = t_name ` set ts \<union> t_name ` set (e # es)"
      using us(5) in_ts unfolding eq(2) by (simp add: insert_absorb)
    ultimately show ?thesis using us(1,3,4) unfolding eq(2) eq(1) k by blast
  qed
qed (simp add: attach_keep_def)

lemma find_distinct:
  assumes "distinct (map t_name ts)" "t \<in> set ts" "t_name t = name"
  shows "gguf_find_tensor ts name = Some t"
  using assms by (induction ts) (auto simp: gguf_find_tensor_def)

lemma joined_finds:
  assumes "distinct (map t_name es)" "set us \<subseteq> set es" "t_name ` set (ts @ us) = t_name ` set ts \<union> t_name ` set es"
  shows "gguf_find_tensor (ts @ us) name = (case gguf_find_tensor ts name of None \<Rightarrow> gguf_find_tensor es name | Some t \<Rightarrow> Some t)"
proof (cases "gguf_find_tensor ts name")
  case none: None
  show ?thesis
  proof (cases "gguf_find_tensor us name")
    case None
    then have "name \<notin> t_name ` set us" "name \<notin> t_name ` set ts" using none find_none by blast+
    then have "name \<notin> t_name ` set (ts @ us)" by (simp only: set_append image_Un Un_iff simp_thms)
    then have "gguf_find_tensor es name = None" unfolding assms(3) using find_none [of es name] by simp
    then show ?thesis using None none by (simp add: find_append)
  next
    case (Some t)
    then have "t \<in> set us" "t_name t = name" by (auto simp: gguf_find_tensor_def find_Some_iff)
    then have "gguf_find_tensor es name = Some t" using assms(2) find_distinct [OF assms(1)] by blast
    then show ?thesis using none Some by (simp add: find_append)
  qed
qed (simp add: find_append)

text \<open>
  Property C27. Attaching a second file leaves every tensor the handle had, found by its name as before,
  adds exactly the tensors whose names it did not have, keeps the names distinct and every tensor
  inside a mapping of the joint handle, and never writes past the room reserved for the new entries.
\<close>

theorem gguf_attach_joins:
  assumes "gguf_attach mem_tensors mem_maps g extra = Some h" "handle_ok g" "handle_ok extra"
    "unat (g_mapped_size g) + unat (g_mapped_size extra) < 2 ^ 64"
  shows "handle_ok h \<and> owned h = owned g @ owned extra
    \<and> length (g_tensors h) \<le> length (g_tensors g) + attach_keep (g_tensors g) (g_tensors extra)
    \<and> (\<forall>name. gguf_find_tensor (g_tensors h) name = (case gguf_find_tensor (g_tensors g) name of
          None \<Rightarrow> gguf_find_tensor (g_tensors extra) name | Some t \<Rightarrow> Some t))"
proof -
  let ?ts = "attach_loop (g_tensors g) (g_tensors extra)"
  have ne: "owned f \<noteq> []" for f by (simp add: owned_def)
  have h: "h = g\<lparr>g_tensors := ?ts, g_maps := owned g @ owned extra, g_map := hd (owned g @ owned extra),
      g_mapped_size := g_mapped_size g + g_mapped_size extra\<rparr>" "\<not> g_header_only g"
    using assms(1) by (auto simp: gguf_attach_def Let_def split: if_splits)
  have own: "owned h = owned g @ owned extra" using ne by (simp add: h(1) owned_def)
  have dg: "distinct (map t_name (g_tensors g))" "distinct (map t_name (g_tensors extra))" using assms(2,3) by (simp_all add: handle_ok_def)
  obtain us where us: "?ts = g_tensors g @ us" "set us \<subseteq> set (g_tensors extra)"
    "length us \<le> attach_keep (g_tensors g) (g_tensors extra)" "distinct (map t_name ?ts)"
    "t_name ` set ?ts = t_name ` set (g_tensors g) \<union> t_name ` set (g_tensors extra)"
    using attach_loop_spec [OF dg(1)] by blast
  have "tensors_ok (owned h) (g_tensors g)" "tensors_ok (owned h) (g_tensors extra)"
    using assms(2,3) own by (auto simp: handle_ok_def elim!: tensors_ok_mono)
  then have ok: "tensors_ok (owned h) ?ts" using us(1,2) unfolding tensors_ok_def by auto
  have size: "unat (g_mapped_size g + g_mapped_size extra) = unat (g_mapped_size g) + unat (g_mapped_size extra)"
    using assms(4) by (simp add: unat_word_ariths)
  have tens: "g_tensors h = ?ts" "g_maps h = owned g @ owned extra" "g_map h = hd (owned g @ owned extra)"
    "g_mapped_size h = g_mapped_size g + g_mapped_size extra" "\<not> g_header_only h" using h by simp_all
  have "unat (g_mapped_size h) = sum_list (map (length \<circ> snd) (owned h))"
    unfolding tens(4) size own using assms(2,3) by (simp add: handle_ok_def)
  moreover have "tensors_ok (owned h) (g_tensors h)" "distinct (map t_name (g_tensors h))" using ok us(4) tens(1) by simp_all
  moreover have "g_maps h \<noteq> [] \<longrightarrow> g_map h = hd (g_maps h)" using tens(2,3) by simp
  ultimately have "handle_ok h" unfolding handle_ok_def using tens(5) by blast
  moreover have "gguf_find_tensor ?ts name = (case gguf_find_tensor (g_tensors g) name of
      None \<Rightarrow> gguf_find_tensor (g_tensors extra) name | Some t \<Rightarrow> Some t)" for name
    using joined_finds [OF dg(2) us(2)] us(5) unfolding us(1) by blast
  ultimately show ?thesis using own us(1,3) tens(1) by simp
qed

text \<open>The one-tensor file joined with one that holds a tensor of the same name.\<close>

definition handle1 :: "u64 \<Rightarrow> bytes \<Rightarrow> gguf_file" where
  "handle1 base name = \<lparr>g_map = (base, file1), g_maps = [], g_mapped_size = 128, g_version = 3, g_kv = [],
     g_tensors = [placed1\<lparr>t_name := name, t_data := base + 0x60\<rparr>], g_header_only = False, g_data_bytes = 0\<rparr>"

lemma joined_tensors: "g_tensors (g\<lparr>g_tensors := a, g_maps := b, g_map := c, g_mapped_size := d\<rparr>) = a"
  by simp

theorem gguf_attach_joins_witness:
  "\<exists>h. gguf_attach True True (handle1 0x10000 (ascii ''w'')) (handle1 0x20000 (ascii ''v'')) = Some h
     \<and> handle_ok h \<and> map t_data (g_tensors h) = [0x10060, 0x20060]"
proof -
  have "described_bytes (placed1\<lparr>t_name := name, t_data := d\<rparr>) = 32" for name d
    by (simp add: described_bytes_def placed1_def load_tensor_def desc1_def ggml_block_size_def ggml_type_size_def
        type_sizes_def QK_types_def QK_K_types_def)
  moreover have sc: "t_scale (placed1\<lparr>t_name := name, t_data := d\<rparr>) = F32_ONE" for name d
    by (simp add: placed1_def load_tensor_def)
  ultimately have "inside (b, file1) 96 (placed1\<lparr>t_name := name, t_data := b + 0x60\<rparr>)" if "unat (b + 0x60) = unat b + 96" for b name
    using that by (simp add: inside_def file1_length placed1_def load_tensor_def desc1_def ggml_type_supported_def)
  then have gen: "tensors_ok [(b, file1)] [placed1\<lparr>t_name := name, t_data := b + 0x60\<rparr>]" if "unat (b + 0x60) = unat b + 96" for b name
    using that sc unfolding tensors_ok_one by blast
  have t: "tensors_ok [(0x10000, file1)] [placed1\<lparr>t_name := name, t_data := 0x10000 + 0x60\<rparr>]"
    "tensors_ok [(0x20000, file1)] [placed1\<lparr>t_name := name, t_data := 0x20000 + 0x60\<rparr>]" for name
    by (rule gen, simp)+
  have ok: "handle_ok (handle1 b name)"
    if "tensors_ok [(b, file1)] [placed1\<lparr>t_name := name, t_data := b + 0x60\<rparr>]" for b name
    using that unfolding handle_ok_def owned_def handle1_def by (simp add: file1_length del: t_name_update)
  let ?g = "handle1 0x10000 (ascii ''w'')" and ?e = "handle1 0x20000 (ascii ''v'')"
  have f: "g_header_only (handle1 b name) = False" "g_tensors (handle1 b name) = [placed1\<lparr>t_name := name, t_data := b + 0x60\<rparr>]"
    "unat (g_mapped_size (handle1 b name)) = 128" for b name by (simp_all add: handle1_def)
  define h where "h = ?g\<lparr>g_tensors := attach_loop (g_tensors ?g) (g_tensors ?e), g_maps := owned ?g @ owned ?e,
    g_map := hd (owned ?g @ owned ?e), g_mapped_size := g_mapped_size ?g + g_mapped_size ?e\<rparr>"
  have h: "gguf_attach True True ?g ?e = Some h"
    by (simp only: gguf_attach_def f(1) Let_def h_def simp_thms if_False)
  have ts: "g_tensors h = attach_loop (g_tensors ?g) (g_tensors ?e)" by (simp only: h_def joined_tensors)
  have "unat (g_mapped_size ?g) + unat (g_mapped_size ?e) < 2 ^ 64" unfolding f(3) by simp
  with h ok [OF t(1)] ok [OF t(2)] have "handle_ok h" by (rule gguf_attach_joins [THEN conjunct1])
  moreover have "map t_data (g_tensors h) = [0x10060, 0x20060]"
  proof -
    have "gguf_find_tensor [placed1\<lparr>t_name := ascii ''w'', t_data := 0x10060\<rparr>] (ascii ''v'') = None"
      unfolding find_none by (simp add: ascii_def of_char_of)
    then show ?thesis unfolding ts f(2) by simp
  qed
  ultimately show ?thesis using h by (intro exI [of _ h] conjI)
qed

end
