(* ===== verification/Sha256.thy ===== *)
theory Sha256
  imports Prelude "HOL-Library.While_Combinator"
begin

section \<open>SHA-256 (envelope.c)\<close>

text \<open>
  The streaming hash every artifact digest goes through: the portable compression function, the
  block buffer, the padding, and the hexadecimal spelling of digests.
\<close>

subsection \<open>The compression function\<close>

type_synonym words = "u32 list"

definition sha_rotr :: "u32 \<Rightarrow> nat \<Rightarrow> u32" where
  "sha_rotr x n = drop_bit n x OR push_bit (32 - n) x"

definition sha_iv :: words where
  "sha_iv = [0x6a09e667, 0xbb67ae85, 0x3c6ef372, 0xa54ff53a, 0x510e527f, 0x9b05688c, 0x1f83d9ab, 0x5be0cd19]"

definition sha_k :: words where
  "sha_k = concat [
    [0x428a2f98, 0x71374491, 0xb5c0fbcf, 0xe9b5dba5], [0x3956c25b, 0x59f111f1, 0x923f82a4, 0xab1c5ed5],
    [0xd807aa98, 0x12835b01, 0x243185be, 0x550c7dc3], [0x72be5d74, 0x80deb1fe, 0x9bdc06a7, 0xc19bf174],
    [0xe49b69c1, 0xefbe4786, 0x0fc19dc6, 0x240ca1cc], [0x2de92c6f, 0x4a7484aa, 0x5cb0a9dc, 0x76f988da],
    [0x983e5152, 0xa831c66d, 0xb00327c8, 0xbf597fc7], [0xc6e00bf3, 0xd5a79147, 0x06ca6351, 0x14292967],
    [0x27b70a85, 0x2e1b2138, 0x4d2c6dfc, 0x53380d13], [0x650a7354, 0x766a0abb, 0x81c2c92e, 0x92722c85],
    [0xa2bfe8a1, 0xa81a664b, 0xc24b8b70, 0xc76c51a3], [0xd192e819, 0xd6990624, 0xf40e3585, 0x106aa070],
    [0x19a4c116, 0x1e376c08, 0x2748774c, 0x34b0bcb5], [0x391c0cb3, 0x4ed8aa4a, 0x5b9cca4f, 0x682e6ff3],
    [0x748f82ee, 0x78a5636f, 0x84c87814, 0x8cc70208], [0x90befffa, 0xa4506ceb, 0xbef9a3f7, 0xc67178f2]]"

definition be_word :: "bytes \<Rightarrow> nat \<Rightarrow> u32" where
  "be_word p i = push_bit 24 (ucast (p ! (i * 4))) OR push_bit 16 (ucast (p ! (i * 4 + 1)))
     OR push_bit 8 (ucast (p ! (i * 4 + 2))) OR ucast (p ! (i * 4 + 3))"

definition small0 :: "u32 \<Rightarrow> u32" where
  "small0 x = sha_rotr x 7 XOR sha_rotr x 18 XOR drop_bit 3 x"

definition small1 :: "u32 \<Rightarrow> u32" where
  "small1 x = sha_rotr x 17 XOR sha_rotr x 19 XOR drop_bit 10 x"

definition big0 :: "u32 \<Rightarrow> u32" where
  "big0 a = sha_rotr a 2 XOR sha_rotr a 13 XOR sha_rotr a 22"

definition big1 :: "u32 \<Rightarrow> u32" where
  "big1 e = sha_rotr e 6 XOR sha_rotr e 11 XOR sha_rotr e 25"

definition sha_ch :: "u32 \<Rightarrow> u32 \<Rightarrow> u32 \<Rightarrow> u32" where
  "sha_ch e f g = (e AND f) XOR (NOT e AND g)"

definition sha_maj :: "u32 \<Rightarrow> u32 \<Rightarrow> u32 \<Rightarrow> u32" where
  "sha_maj a b c = (a AND b) XOR (a AND c) XOR (b AND c)"

text \<open>The message schedule, filled in place: the array so far is the list.\<close>

definition sha_next_w :: "words \<Rightarrow> nat \<Rightarrow> u32" where
  "sha_next_w w i = w ! (i - 16) + small0 (w ! (i - 15)) + w ! (i - 7) + small1 (w ! (i - 2))"

definition sha_schedule :: "bytes \<Rightarrow> words" where
  "sha_schedule p = fold (\<lambda>i w. w @ [sha_next_w w i]) [16..<64] (map (be_word p) [0..<16])"

text \<open>The eight working variables.\<close>

type_synonym vars = "u32 \<times> u32 \<times> u32 \<times> u32 \<times> u32 \<times> u32 \<times> u32 \<times> u32"

fun sha_round :: "u32 \<Rightarrow> u32 \<Rightarrow> vars \<Rightarrow> vars" where
  "sha_round k w (a, b, c, d, e, f, g, h) =
    (let t1 = h + big1 e + sha_ch e f g + k + w; t2 = big0 a + sha_maj a b c
     in (t1 + t2, a, b, c, d + t1, e, f, g))"

fun vars_of :: "words \<Rightarrow> vars" where
  "vars_of h = (h ! 0, h ! 1, h ! 2, h ! 3, h ! 4, h ! 5, h ! 6, h ! 7)"

fun add_vars :: "words \<Rightarrow> vars \<Rightarrow> words" where
  "add_vars hs (a, b, c, d, e, f, g, h) =
    [hs ! 0 + a, hs ! 1 + b, hs ! 2 + c, hs ! 3 + d, hs ! 4 + e, hs ! 5 + f, hs ! 6 + g, hs ! 7 + h]"

definition sha256_block :: "words \<Rightarrow> bytes \<Rightarrow> words" where
  "sha256_block hs p =
    (let w = sha_schedule p
     in add_vars hs (fold (\<lambda>i. sha_round (sha_k ! i) (w ! i)) [0..<64] (vars_of hs)))"

text \<open>\<^verbatim>\<open>sha256_blocks\<close> over the whole blocks of its input.\<close>

function sha256_blocks :: "words \<Rightarrow> bytes \<Rightarrow> words" where
  "sha256_blocks hs p = (if length p < 64 then hs else sha256_blocks (sha256_block hs (take 64 p)) (drop 64 p))"
  by pat_completeness auto
termination by (relation "measure (length \<circ> snd)") auto

declare sha256_blocks.simps [simp del]

subsection \<open>The streaming context\<close>

record sha256_ctx =
  sh_h :: words
  sh_len :: u64
  sh_buf :: bytes
  sh_n :: nat

text \<open>The buffer is not initialised: it starts as whatever \<open>junk\<close> the memory held.\<close>

definition sha256_init :: "bytes \<Rightarrow> sha256_ctx" where
  "sha256_init junk = \<lparr>sh_h = sha_iv, sh_len = 0, sh_buf = junk, sh_n = 0\<rparr>"

text \<open>\<^verbatim>\<open>memcpy\<close> into a buffer at an offset.\<close>

definition overwrite :: "nat \<Rightarrow> bytes \<Rightarrow> bytes \<Rightarrow> bytes" where
  "overwrite i xs buf = take i buf @ xs @ drop (i + length xs) buf"

text \<open>The whole blocks straight from the input, and the rest kept.\<close>

definition sha256_tail :: "sha256_ctx \<Rightarrow> bytes \<Rightarrow> sha256_ctx" where
  "sha256_tail c p =
    (let k = length p div 64 * 64; rest = drop k p;
         h = (if length p \<ge> 64 then sha256_blocks (sh_h c) (take k p) else sh_h c);
         buf = (if rest \<noteq> [] then overwrite 0 rest (sh_buf c) else sh_buf c)
     in c\<lparr>sh_h := h, sh_buf := buf, sh_n := length rest\<rparr>)"

definition sha256_update :: "sha256_ctx \<Rightarrow> bytes \<Rightarrow> sha256_ctx" where
  "sha256_update c p =
    (let c = c\<lparr>sh_len := sh_len c + of_nat (length p)\<rparr> in
     if sh_n c \<noteq> 0 then
       (let t = (if 64 - sh_n c > length p then length p else 64 - sh_n c);
            c = c\<lparr>sh_buf := overwrite (sh_n c) (take t p) (sh_buf c), sh_n := sh_n c + t\<rparr>
        in if sh_n c < 64 then c
           else sha256_tail (c\<lparr>sh_h := sha256_blocks (sh_h c) (sh_buf c), sh_n := 0\<rparr>) (drop t p))
     else sha256_tail c p)"

definition be64_bytes :: "u64 \<Rightarrow> bytes" where
  "be64_bytes v = map (\<lambda>i. ucast (drop_bit (56 - i * 8) v)) [0..<8]"

definition be32_bytes :: "u32 \<Rightarrow> bytes" where
  "be32_bytes v = [ucast (drop_bit 24 v), ucast (drop_bit 16 v), ucast (drop_bit 8 v), ucast v]"

definition sha256_final :: "sha256_ctx \<Rightarrow> bytes" where
  "sha256_final c =
    (let bits = sh_len c * 8;
         c = sha256_update c [0x80];
         c = while (\<lambda>c. sh_n c \<noteq> 56) (\<lambda>c. sha256_update c [0]) c;
         c = sha256_update c (be64_bytes bits)
     in concat (map be32_bytes (map ((!) (sh_h c)) [0..<8])))"

subsection \<open>Digests of data and files, and their spelling\<close>

definition hexd :: "u8 list" where
  "hexd = ascii ''0123456789abcdef''"

definition bytes_to_hex :: "bytes \<Rightarrow> bytes" where
  "bytes_to_hex bs = concat (map (\<lambda>b. [hexd ! unat (drop_bit 4 b), hexd ! unat (b AND 15)]) bs)"

definition envelope_data_sha256_raw :: "bytes \<Rightarrow> bytes \<Rightarrow> bytes" where
  "envelope_data_sha256_raw junk msg = sha256_final (sha256_update (sha256_init junk) msg)"

definition envelope_data_sha256 :: "bytes \<Rightarrow> bytes \<Rightarrow> bytes" where
  "envelope_data_sha256 junk msg = bytes_to_hex (envelope_data_sha256_raw junk msg)"

text \<open>A file is what \<^verbatim>\<open>fread\<close> delivers: its non-empty pieces and whether an error ended it.\<close>

definition envelope_file_sha256 :: "bytes \<Rightarrow> (bytes list \<times> bool) option \<Rightarrow> bytes option" where
  "envelope_file_sha256 junk file =
    (case file of None \<Rightarrow> None
     | Some (reads, err) \<Rightarrow>
       let c = fold (\<lambda>r c. sha256_update c r) reads (sha256_init junk)
       in if err then None else Some (bytes_to_hex (sha256_final c)))"

definition hex_digit :: "u8 \<Rightarrow> nat option" where
  "hex_digit c =
    (if 0x30 \<le> c \<and> c \<le> 0x39 then Some (unat c - 0x30)
     else if 0x61 \<le> c \<and> c \<le> 0x66 then Some (unat c - 0x61 + 10)
     else if 0x41 \<le> c \<and> c \<le> 0x46 then Some (unat c - 0x41 + 10) else None)"

fun hex_pairs :: "bytes \<Rightarrow> bytes option" where
  "hex_pairs (a # b # h) =
    (case (hex_digit a, hex_digit b) of
       (Some hi, Some lo) \<Rightarrow> map_option ((#) (of_nat (hi * 16 + lo))) (hex_pairs h)
     | _ \<Rightarrow> None)"
| "hex_pairs _ = Some []"

definition hex_to_bytes :: "bytes \<Rightarrow> nat \<Rightarrow> bytes option" where
  "hex_to_bytes h n = (if length h \<noteq> 2 * n then None else hex_pairs h)"

subsection \<open>The standard\<close>

text \<open>FIPS 180-4: the padding, and the hash of a whole message.\<close>

definition pad_zeros :: "nat \<Rightarrow> nat" where
  "pad_zeros n = (119 - n mod 64) mod 64"

lemma pad_zeros_least: "(n + 1 + pad_zeros n) mod 64 = 56 \<and> (\<forall>k < pad_zeros n. (n + 1 + k) mod 64 \<noteq> 56)"
proof -
  define r where "r = n mod 64"
  have r: "r < 64" by (simp add: r_def)
  have m: "(n + 1 + k) mod 64 = (r + 1 + k) mod 64" for k unfolding r_def
    using mod_add_left_eq [of n 64 "1 + k"] by (simp only: add.assoc)
  show ?thesis
  proof (cases "r \<le> 55")
    case True
    then have "119 - r = 55 - r + 64" by simp
    then have "pad_zeros n = (55 - r + 64) mod 64" by (simp only: pad_zeros_def r_def [symmetric])
    then have "pad_zeros n = 55 - r" by simp
    then show ?thesis unfolding m using True by auto
  next
    case False
    then have p: "pad_zeros n = 119 - r" using r by (simp add: pad_zeros_def r_def [symmetric])
    have "(r + 1 + k) mod 64 \<noteq> 56" if "k < 119 - r" for k
    proof (cases "r + 1 + k < 64")
      case False
      then have "(r + 1 + k) mod 64 = r + 1 + k - 64" using that by (simp add: mod_if)
      then show ?thesis using that False by linarith
    qed (use \<open>\<not> r \<le> 55\<close> in simp)
    then show ?thesis unfolding m p using r by auto
  qed
qed

definition sha_padded :: "bytes \<Rightarrow> bytes" where
  "sha_padded m = m @ [0x80] @ replicate (pad_zeros (length m)) 0 @ be64_bytes (of_nat (length m * 8))"

definition fips_digest :: "bytes \<Rightarrow> bytes" where
  "fips_digest m = concat (map be32_bytes (sha256_blocks sha_iv (sha_padded m)))"

subsection \<open>Streaming\<close>

lemma blocks_short: "length p < 64 \<Longrightarrow> sha256_blocks hs p = hs"
  by (simp add: sha256_blocks.simps)

lemma blocks_append: "length a mod 64 = 0 \<Longrightarrow> sha256_blocks hs (a @ b) = sha256_blocks (sha256_blocks hs a) b"
proof (induction "length a" arbitrary: a hs rule: less_induct)
  case less
  show ?case
  proof (cases "length a < 64")
    case True
    then have "a = []" using less.prems by (simp add: mod_if split: if_splits)
    then show ?thesis by (simp add: blocks_short)
  next
    case False
    then have "sha256_blocks hs (a @ b) = sha256_blocks (sha256_block hs (take 64 a)) (drop 64 a @ b)"
      by (subst sha256_blocks.simps) simp
    also have "\<dots> = sha256_blocks (sha256_blocks (sha256_block hs (take 64 a)) (drop 64 a)) b"
      using less.prems False by (intro less.hyps) (auto simp: le_mod_geq)
    also have "sha256_blocks (sha256_block hs (take 64 a)) (drop 64 a) = sha256_blocks hs a"
      using False by (subst (2) sha256_blocks.simps) simp
    finally show ?thesis .
  qed
qed

text \<open>The context after the bytes \<open>m\<close>: whole blocks hashed, the rest in the buffer.\<close>

definition whole :: "bytes \<Rightarrow> nat" where
  "whole m = length m div 64 * 64"

definition fed :: "bytes \<Rightarrow> sha256_ctx \<Rightarrow> bool" where
  "fed m c \<longleftrightarrow> sh_h c = sha256_blocks sha_iv (take (whole m) m) \<and> sh_len c = of_nat (length m)
     \<and> length (sh_buf c) = 64 \<and> sh_n c = length m mod 64 \<and> take (sh_n c) (sh_buf c) = drop (whole m) m"

lemma fed_init: "length junk = 64 \<Longrightarrow> fed [] (sha256_init junk)"
  by (simp add: fed_def sha256_init_def whole_def blocks_short)

lemma length_overwrite: "i + length xs \<le> length buf \<Longrightarrow> length (overwrite i xs buf) = length buf"
  by (simp add: overwrite_def)

lemma take_overwrite: "i + length xs \<le> length buf \<Longrightarrow> take (i + length xs) (overwrite i xs buf) = take i buf @ xs"
  by (simp add: overwrite_def)

lemma whole_parts: "whole m + length m mod 64 = length m" "whole m mod 64 = 0" "whole m \<le> length m"
  by (simp_all add: whole_def)

text \<open>From an empty buffer.\<close>

lemma tail_fed:
  assumes "sh_h c = sha256_blocks sha_iv m" "length m mod 64 = 0" "length (sh_buf c) = 64"
    "sh_len c = of_nat (length m + length p)"
  shows "fed (m @ p) (sha256_tail c p)"
proof -
  let ?k = "length p div 64 * 64"
  have k: "?k \<le> length p" "length (drop ?k p) = length p mod 64" "length (take ?k p) mod 64 = 0"
    by (simp_all add: minus_div_mult_eq_mod)
  have w: "whole (m @ p) = length m + ?k"
  proof -
    have "length m = length m div 64 * 64" using assms(2) by presburger
    moreover have "(length m + length p) div 64 = length m div 64 + length p div 64"
      using assms(2) by (simp add: div_plus_div_distrib_dvd_left mod_eq_0_iff_dvd)
    ultimately show ?thesis by (simp add: whole_def)
  qed
  have "(if length p \<ge> 64 then sha256_blocks (sh_h c) (take ?k p) else sh_h c) = sha256_blocks (sh_h c) (take ?k p)"
    by (simp add: blocks_short)
  also have "\<dots> = sha256_blocks sha_iv (m @ take ?k p)" using assms(1,2) by (simp add: blocks_append)
  also have "m @ take ?k p = take (whole (m @ p)) (m @ p)" by (simp add: w)
  finally have h: "sh_h (sha256_tail c p) = sha256_blocks sha_iv (take (whole (m @ p)) (m @ p))"
    by (simp add: sha256_tail_def Let_def)
  have n: "sh_n (sha256_tail c p) = length (m @ p) mod 64"
    using k(2) assms(2) by (simp add: sha256_tail_def Let_def mod_add_left_eq [symmetric] del: length_drop)
  have small: "length (drop ?k p) < 64" using k(2) by simp
  have b: "length (sh_buf (sha256_tail c p)) = 64 \<and> take (sh_n (sha256_tail c p)) (sh_buf (sha256_tail c p)) = drop ?k p"
  proof (cases "drop ?k p = []")
    case True
    then show ?thesis using assms(3) by (simp add: sha256_tail_def Let_def)
  next
    case False
    then have "sh_buf (sha256_tail c p) = overwrite 0 (drop ?k p) (sh_buf c)" "sh_n (sha256_tail c p) = length (drop ?k p)"
      by (simp_all add: sha256_tail_def Let_def)
    then show ?thesis
      using length_overwrite [of 0 "drop ?k p" "sh_buf c"] take_overwrite [of 0 "drop ?k p" "sh_buf c"] small assms(3) by simp
  qed
  show ?thesis unfolding fed_def using h n b assms(4) w by (simp add: sha256_tail_def Let_def)
qed

lemma update_fed:
  assumes "fed m c"
  shows "fed (m @ p) (sha256_update c p)"
proof (cases "sh_n c = 0")
  case True
  then have "length m mod 64 = 0" using assms by (simp add: fed_def)
  moreover from this have "whole m = length m" using whole_parts(1) [of m] by simp
  ultimately have "fed (m @ p) (sha256_tail (c\<lparr>sh_len := sh_len c + of_nat (length p)\<rparr>) p)"
    using assms by (intro tail_fed) (simp_all add: fed_def)
  moreover have "sha256_update c p = sha256_tail (c\<lparr>sh_len := sh_len c + of_nat (length p)\<rparr>) p"
    using True by (simp add: sha256_update_def)
  ultimately show ?thesis by simp
next
  case False
  let ?n = "sh_n c"
  let ?t = "if 64 - ?n > length p then length p else 64 - ?n"
  have f: "sh_h c = sha256_blocks sha_iv (take (whole m) m)" "sh_len c = of_nat (length m)" "length (sh_buf c) = 64"
    "?n = length m mod 64" "take ?n (sh_buf c) = drop (whole m) m" using assms unfolding fed_def by blast+
  have n: "?n < 64" using f(4) by simp
  have tp: "length (take ?t p) = ?t" "?n + ?t \<le> 64" using n by auto
  let ?buf = "overwrite ?n (take ?t p) (sh_buf c)"
  have buf: "length ?buf = 64" "take (?n + ?t) ?buf = drop (whole m) m @ take ?t p"
    using length_overwrite [of ?n "take ?t p" "sh_buf c"] take_overwrite [of ?n "take ?t p" "sh_buf c"] tp f(3,5) by simp_all
  let ?c = "c\<lparr>sh_len := sh_len c + of_nat (length p), sh_buf := ?buf, sh_n := ?n + ?t\<rparr>"
  show ?thesis
  proof (cases "?n + ?t < 64")
    case True
    then have lp: "length p < 64 - ?n" using n by (auto split: if_splits)
    then have t: "?t = length p" by simp
    have "sha256_update c p = ?c" using False lp by (simp add: sha256_update_def Let_def)
    moreover have md: "length (m @ p) mod 64 = ?n + length p"
    proof -
      have "length (m @ p) mod 64 = (length m mod 64 + length p) mod 64" by (simp add: mod_add_left_eq)
      then show ?thesis using lp f(4) by simp
    qed
    moreover have w: "whole (m @ p) = whole m"
      using whole_parts(1) [of "m @ p"] whole_parts(1) [of m] md f(4) by simp
    have td: "take (whole m) (m @ p) = take (whole m) m" "drop (whole m) (m @ p) = drop (whole m) m @ p"
      using whole_parts(3) [of m] by simp_all
    moreover have "take (?n + length p) ?buf = drop (whole m) m @ p" "length ?buf = 64" using buf t by simp_all
    ultimately show ?thesis unfolding fed_def w td md using f(1,2) t by simp
  next
    case full: False
    then have t: "?t = 64 - ?n" "?n + ?t = 64" using tp(2) by (auto split: if_splits)
    let ?m = "m @ take ?t p" and ?d = "c\<lparr>sh_len := sh_len c + of_nat (length p), sh_buf := ?buf,
        sh_h := sha256_blocks (sh_h c) ?buf, sh_n := 0\<rparr>"
    have lm: "length ?m mod 64 = 0"
    proof -
      have "length ?m = whole m + 64" using whole_parts(1) [of m] tp(1) t(2) f(4) by simp
      then show ?thesis using whole_parts(2) [of m] by simp
    qed
    have "?buf = drop (whole m) m @ take ?t p" using buf t(2) by simp
    then have "sha256_blocks (sh_h c) ?buf = sha256_blocks sha_iv (take (whole m) m @ drop (whole m) m @ take ?t p)"
      using f(1) blocks_append [of "take (whole m) m" sha_iv] whole_parts(2,3) [of m] by simp
    moreover have "take (whole m) m @ drop (whole m) m @ x = m @ x" for x
      by (simp add: append_assoc [symmetric] del: append_assoc)
    ultimately have h: "sha256_blocks (sh_h c) ?buf = sha256_blocks sha_iv ?m" by (simp only:)
    have "fed (?m @ drop ?t p) (sha256_tail ?d (drop ?t p))"
      by (rule tail_fed) (use h lm buf(1) f(2) tp(1) in \<open>simp_all add: of_nat_diff\<close>)
    moreover have "sha256_update c p = sha256_tail ?d (drop ?t p)"
    proof -
      have "\<not> 64 - ?n > length p" using t(2) n by (auto split: if_splits)
      then show ?thesis using False n by (simp add: sha256_update_def Let_def)
    qed
    ultimately show ?thesis by simp
  qed
qed

subsection \<open>The digest\<close>

lemma pad_loop:
  "fed m c \<Longrightarrow> (length m + k) mod 64 = 56 \<Longrightarrow> (\<forall>j < k. (length m + j) mod 64 \<noteq> 56) \<Longrightarrow>
   fed (m @ replicate k 0) (while (\<lambda>c. sh_n c \<noteq> 56) (\<lambda>c. sha256_update c [0]) c)"
proof (induction k arbitrary: m c)
  case 0
  then have "sh_n c = 56" by (simp add: fed_def)
  then show ?case using 0 by (simp add: while_unfold)
next
  case (Suc k)
  have "sh_n c \<noteq> 56" using Suc.prems(1,3) by (auto simp: fed_def)
  then have w: "while (\<lambda>c. sh_n c \<noteq> 56) (\<lambda>c. sha256_update c [0]) c
      = while (\<lambda>c. sh_n c \<noteq> 56) (\<lambda>c. sha256_update c [0]) (sha256_update c [0])"
    by (subst while_unfold) simp
  have "fed ((m @ [0]) @ replicate k 0) (while (\<lambda>c. sh_n c \<noteq> 56) (\<lambda>c. sha256_update c [0]) (sha256_update c [0]))"
  proof (rule Suc.IH)
    show "fed (m @ [0]) (sha256_update c [0])" by (rule update_fed [OF Suc.prems(1)])
    show "(length (m @ [0]) + k) mod 64 = 56" using Suc.prems(2) by simp
    show "\<forall>j < k. (length (m @ [0]) + j) mod 64 \<noteq> 56" using Suc.prems(3) by fastforce
  qed
  then show ?case unfolding w by simp
qed

lemma length_be64 [simp]: "length (be64_bytes v) = 8"
  by (simp add: be64_bytes_def)

lemma padded_whole: "length (sha_padded m) mod 64 = 0"
proof -
  have "length (sha_padded m) = (length m + 1 + pad_zeros (length m)) + 8" by (simp add: sha_padded_def)
  moreover have "((length m + 1 + pad_zeros (length m)) mod 64 + 8) mod 64 = 0" using pad_zeros_least [of "length m"] by simp
  ultimately show ?thesis by (simp only: mod_add_left_eq)
qed

lemma length_block: "length (add_vars hs v) = 8"
  by (cases "(hs, v)" rule: add_vars.cases) simp

lemma length_blocks: "length hs = 8 \<Longrightarrow> length (sha256_blocks hs p) = 8"
  by (induction hs p rule: sha256_blocks.induct)
    (subst sha256_blocks.simps, auto simp: sha256_block_def Let_def length_block)

lemma final_fed:
  assumes "fed m c"
  shows "sha256_final c = fips_digest m"
proof -
  let ?c1 = "sha256_update c [0x80]"
  let ?c2 = "while (\<lambda>c. sh_n c \<noteq> 56) (\<lambda>c. sha256_update c [0]) ?c1"
  let ?c3 = "sha256_update ?c2 (be64_bytes (sh_len c * 8))"
  have f1: "fed (m @ [0x80]) ?c1" by (rule update_fed [OF assms])
  have "fed ((m @ [0x80]) @ replicate (pad_zeros (length m)) 0) ?c2"
    by (rule pad_loop [OF f1]) (use pad_zeros_least [of "length m"] in simp_all)
  then have f2: "fed (((m @ [0x80]) @ replicate (pad_zeros (length m)) 0) @ be64_bytes (sh_len c * 8)) ?c3"
    by (rule update_fed)
  have "sh_len c * 8 = of_nat (length m * 8)" using assms by (simp add: fed_def)
  then have "fed (sha_padded m) ?c3" using f2 by (simp add: sha_padded_def)
  moreover have "whole (sha_padded m) = length (sha_padded m)"
    using whole_parts(1) [of "sha_padded m"] padded_whole by simp
  ultimately have h: "sh_h ?c3 = sha256_blocks sha_iv (sha_padded m)" by (simp add: fed_def)
  have "length (sh_h ?c3) = 8" unfolding h by (rule length_blocks) (simp add: sha_iv_def)
  then have "map ((!) (sh_h ?c3)) [0..<8] = sh_h ?c3" by (metis map_nth)
  then show ?thesis unfolding sha256_final_def Let_def fips_digest_def using h by simp
qed

lemma feed_all: "fed m c \<Longrightarrow> fed (m @ concat ps) (fold (\<lambda>r c. sha256_update c r) ps c)"
proof (induction ps arbitrary: m c)
  case (Cons p ps)
  from Cons.IH [OF update_fed [OF Cons.prems, of p]] show ?case by simp
qed simp



text \<open>The spelling of bytes, and reading it back in either case.\<close>

lemma hex_digit_hexd: "n < 16 \<Longrightarrow> hex_digit (hexd ! n) = Some n"
proof -
  assume "n < 16"
  then have "n \<in> set [0..<16]" by simp
  moreover have "\<forall>n \<in> set [0..<16]. hex_digit (hexd ! n) = Some n" by code_simp
  ultimately show ?thesis by blast
qed

definition hex_lower :: "u8 \<Rightarrow> u8" where
  "hex_lower c = (if 0x41 \<le> c \<and> c \<le> 0x46 then c + 0x20 else c)"

lemma hexd_value: "v < 16 \<Longrightarrow> unat (hexd ! v) = (if v < 10 then 48 + v else 87 + v)"
proof -
  assume "v < 16"
  then have "v \<in> set [0..<16]" by simp
  moreover have "\<forall>v \<in> set [0..<16]. unat (hexd ! v) = (if v < 10 then 48 + v else 87 + v)" by code_simp
  ultimately show ?thesis by blast
qed

lemma unat_hex_lower: "unat (hex_lower c) = (if 65 \<le> unat c \<and> unat c \<le> 70 then unat c + 32 else unat c)"
proof -
  have "unat (c + 0x20) = unat c + 32" if "unat c \<le> 70" using that by (simp add: unat_word_ariths)
  then show ?thesis by (simp add: hex_lower_def word_le_nat_alt)
qed

lemma hex_digit_iff: "hex_digit c = Some v \<longleftrightarrow> v < 16 \<and> hex_lower c = hexd ! v"
proof -
  have "hex_digit c = Some v \<longleftrightarrow> v < 16 \<and> unat (hex_lower c) = (if v < 10 then 48 + v else 87 + v)"
    unfolding unat_hex_lower by (auto simp: hex_digit_def word_le_nat_alt split: if_splits)
  then show ?thesis using hexd_value [of v] by (auto simp: word_unat_eq_iff)
qed

lemma unat_nibbles: "unat (drop_bit 4 (b :: u8)) = unat b div 16" "unat (b AND 15) = unat b mod 16"
proof -
  have m: "b AND 15 = take_bit 4 b" by (simp add: take_bit_eq_mask mask_eq_exp_minus_1)
  show "unat (b AND 15) = unat b mod 16" unfolding m by (subst unsigned_take_bit_eq) (simp add: take_bit_eq_mod)
  show "unat (drop_bit 4 b) = unat b div 16"
    by (subst unsigned_drop_bit_eq) (simp add: drop_bit_eq_div take_bit_nat_eq_self u8_less)
qed

lemma nibbles: "unat (drop_bit 4 b) < 16" "unat (b AND 15) < 16" "of_nat (unat (drop_bit 4 b) * 16 + unat (b AND 15)) = (b :: u8)"
proof -
  show "unat (drop_bit 4 b) < 16" unfolding unat_nibbles using u8_less [of b] by simp
  show "unat (b AND 15) < 16" unfolding unat_nibbles by simp
  show "of_nat (unat (drop_bit 4 b) * 16 + unat (b AND 15)) = b" unfolding unat_nibbles by (simp only: div_mult_mod_eq) simp
qed

lemma nibble_back: "v < 16 \<Longrightarrow> w < 16 \<Longrightarrow>
  unat (drop_bit 4 (of_nat (v * 16 + w) :: u8)) = v \<and> unat ((of_nat (v * 16 + w) :: u8) AND 15) = w"
proof -
  assume "v < 16" "w < 16"
  then have "v * 16 + w < 256" by linarith
  then have "unat (of_nat (v * 16 + w) :: u8) = v * 16 + w" by (simp only: unsigned_of_nat) (simp add: take_bit_nat_eq_self)
  then show ?thesis using \<open>w < 16\<close> by (simp only: unat_nibbles) simp
qed

lemma hex_pairs_iff:
  "even (length h) \<Longrightarrow> hex_pairs h = Some bs \<longleftrightarrow> map hex_lower h = bytes_to_hex bs"
proof (induction h arbitrary: bs rule: hex_pairs.induct)
  case (1 a b h)
  show ?case
  proof (cases bs)
    case Nil
    then show ?thesis by (auto simp: bytes_to_hex_def split: option.splits)
  next
    case (Cons x xs)
    let ?hi = "unat (drop_bit 4 x)" and ?lo = "unat (x AND 15)"
    have x: "?hi < 16" "?lo < 16" "of_nat (?hi * 16 + ?lo) = x" using nibbles [of x] by simp_all
    have "hex_pairs (a # b # h) = Some bs \<longleftrightarrow> (\<exists>v w. hex_digit a = Some v \<and> hex_digit b = Some w
        \<and> of_nat (v * 16 + w) = x \<and> hex_pairs h = Some xs)"
      using Cons by (auto split: option.splits)
    also have "\<dots> \<longleftrightarrow> hex_digit a = Some ?hi \<and> hex_digit b = Some ?lo \<and> hex_pairs h = Some xs"
    proof
      assume "\<exists>v w. hex_digit a = Some v \<and> hex_digit b = Some w \<and> of_nat (v * 16 + w) = x \<and> hex_pairs h = Some xs"
      then obtain v w where vw: "hex_digit a = Some v" "hex_digit b = Some w" "of_nat (v * 16 + w) = x" "hex_pairs h = Some xs"
        by blast
      then have "v < 16" "w < 16" by (simp_all add: hex_digit_iff)
      from nibble_back [OF this] vw show "hex_digit a = Some ?hi \<and> hex_digit b = Some ?lo \<and> hex_pairs h = Some xs" by simp
    qed (use x(3) in blast)
    also have "\<dots> \<longleftrightarrow> hex_lower a = hexd ! ?hi \<and> hex_lower b = hexd ! ?lo \<and> map hex_lower h = bytes_to_hex xs"
    proof -
      have "hex_digit a = Some ?hi \<Longrightarrow> hex_digit b = Some ?lo \<Longrightarrow> hex_pairs h = Some xs \<longleftrightarrow> map hex_lower h = bytes_to_hex xs"
        using 1 by simp
      then show ?thesis using x(1,2) hex_digit_iff [of a ?hi] hex_digit_iff [of b ?lo] by blast
    qed
    finally show ?thesis using Cons by (simp add: bytes_to_hex_def)
  qed
qed (auto simp: bytes_to_hex_def)

lemma length_hex [simp]: "length (bytes_to_hex bs) = 2 * length bs"
  by (induction bs) (auto simp: bytes_to_hex_def)

text \<open>
  \<^verbatim>\<open>hex_to_bytes\<close> accepts exactly the hexadecimal spellings, in either case, of exactly
  the number of bytes asked for, and gives those bytes: it inverts \<^verbatim>\<open>bytes_to_hex\<close>.
\<close>

lemma hex_roundtrip:
  "hex_to_bytes h n = Some bs \<longleftrightarrow> length bs = n \<and> map hex_lower h = bytes_to_hex bs"
proof (cases "length h = 2 * n")
  case True
  then have "hex_pairs h = Some bs \<longleftrightarrow> map hex_lower h = bytes_to_hex bs" by (intro hex_pairs_iff) simp
  moreover have "length bs = n" if "map hex_lower h = bytes_to_hex bs" using arg_cong [OF that, of length] True by simp
  ultimately show ?thesis using True by (auto simp: hex_to_bytes_def)
next
  case False
  moreover have "length h = 2 * n" if "map hex_lower h = bytes_to_hex bs" "length bs = n"
    using arg_cong [OF that(1), of length] that(2) by simp
  ultimately show ?thesis by (auto simp: hex_to_bytes_def)
qed

end
