(* ===== verification/Sha256_Hw.thy ===== *)
theory Sha256_Hw
  imports Sha256
begin

section \<open>SHA-256 with the processors' instructions (envelope.c)\<close>

text \<open>
  The two hardware back ends. A 128-bit register is its four 32-bit lanes, the lowest first. The
  instructions are what the instruction-set manuals of Intel and Arm define; the code around them
  is the program's. A digest may not depend on which back end computed it.
\<close>

type_synonym vec = "u32 \<times> u32 \<times> u32 \<times> u32"

fun vadd :: "vec \<Rightarrow> vec \<Rightarrow> vec" where
  "vadd (a0, a1, a2, a3) (b0, b1, b2, b3) = (a0 + b0, a1 + b1, a2 + b2, a3 + b3)"

text \<open>Four words of an array, and four big-endian words of a block.\<close>

definition vload :: "words \<Rightarrow> nat \<Rightarrow> vec" where
  "vload w i = (w ! i, w ! (i + 1), w ! (i + 2), w ! (i + 3))"

definition load_be :: "bytes \<Rightarrow> nat \<Rightarrow> vec" where
  "load_be p i = (be_word p i, be_word p (i + 1), be_word p (i + 2), be_word p (i + 3))"

subsection \<open>x86\<close>

text \<open>\<^verbatim>\<open>_mm_shuffle_epi32\<close> at 0xB1, 0x1B and 0x0E; \<^verbatim>\<open>_mm_alignr_epi8\<close> by 8 and 4 bytes;
  \<^verbatim>\<open>_mm_blend_epi16\<close> at 0xF0.\<close>

fun shuf_B1 :: "vec \<Rightarrow> vec" where "shuf_B1 (a, b, c, d) = (b, a, d, c)"
fun shuf_1B :: "vec \<Rightarrow> vec" where "shuf_1B (a, b, c, d) = (d, c, b, a)"
fun shuf_0E :: "vec \<Rightarrow> vec" where "shuf_0E (a, b, c, d) = (c, d, a, a)"
fun alignr_8 :: "vec \<Rightarrow> vec \<Rightarrow> vec" where "alignr_8 (a0, a1, a2, a3) (b0, b1, b2, b3) = (b2, b3, a0, a1)"
fun alignr_4 :: "vec \<Rightarrow> vec \<Rightarrow> vec" where "alignr_4 (a0, a1, a2, a3) (b0, b1, b2, b3) = (b1, b2, b3, a0)"
fun blend_F0 :: "vec \<Rightarrow> vec \<Rightarrow> vec" where "blend_F0 (a0, a1, a2, a3) (b0, b1, b2, b3) = (a0, a1, b2, b3)"

text \<open>\<^verbatim>\<open>_mm_sha256rnds2_epu32\<close>: two rounds on CDGH and ABEF, giving the new ABEF.\<close>

fun sha256rnds2 :: "vec \<Rightarrow> vec \<Rightarrow> vec \<Rightarrow> vec" where
  "sha256rnds2 (h0, g0, d0, c0) (f0, e0, b0, a0) (wk0, wk1, _, _) =
    (let a1 = sha_ch e0 f0 g0 + big1 e0 + wk0 + h0 + sha_maj a0 b0 c0 + big0 a0;
         e1 = sha_ch e0 f0 g0 + big1 e0 + wk0 + h0 + d0;
         a2 = sha_ch e1 e0 f0 + big1 e1 + wk1 + g0 + sha_maj a1 a0 b0 + big0 a1;
         e2 = sha_ch e1 e0 f0 + big1 e1 + wk1 + g0 + c0
     in (e1, e2, a1, a2))"

text \<open>\<^verbatim>\<open>_mm_sha256msg1_epu32\<close> and \<^verbatim>\<open>_mm_sha256msg2_epu32\<close>.\<close>

fun sha256msg1 :: "vec \<Rightarrow> vec \<Rightarrow> vec" where
  "sha256msg1 (w0, w1, w2, w3) (w4, _, _, _) = (w0 + small0 w1, w1 + small0 w2, w2 + small0 w3, w3 + small0 w4)"

fun sha256msg2 :: "vec \<Rightarrow> vec \<Rightarrow> vec" where
  "sha256msg2 (a0, a1, a2, a3) (_, _, w14, w15) =
    (let w16 = a0 + small1 w14; w17 = a1 + small1 w15
     in (w16, w17, a2 + small1 w16, a3 + small1 w17))"

text \<open>Four rounds a step, with the next four words of the schedule.\<close>

type_synonym sha_regs = "vec \<times> vec \<times> vec \<times> vec \<times> vec \<times> vec"

fun x86_step :: "nat \<Rightarrow> sha_regs \<Rightarrow> sha_regs" where
  "x86_step i (s0, s1, m0, m1, m2, m3) =
    (let wk = vadd m0 (vload sha_k (4 * i));
         s1 = sha256rnds2 s1 s0 wk;
         s0 = sha256rnds2 s0 s1 (shuf_0E wk);
         next = (if i < 12 then sha256msg2 (vadd (sha256msg1 m0 m1) (alignr_4 m3 m2)) m3 else m3)
     in (s0, s1, m1, m2, m3, next))"

definition x86_block :: "vec \<times> vec \<Rightarrow> bytes \<Rightarrow> vec \<times> vec" where
  "x86_block s p =
    (case s of (a0, a1) \<Rightarrow>
     case fold x86_step [0..<16] (a0, a1, load_be p 0, load_be p 4, load_be p 8, load_be p 12) of
       (s0, s1, _) \<Rightarrow> (vadd s0 a0, vadd s1 a1))"

text \<open>The loop over the blocks, on either machine's registers.\<close>

function hw_loop :: "(vec \<times> vec \<Rightarrow> bytes \<Rightarrow> vec \<times> vec) \<Rightarrow> vec \<times> vec \<Rightarrow> bytes \<Rightarrow> vec \<times> vec" where
  "hw_loop f s p = (if length p < 64 then s else hw_loop f (f s (take 64 p)) (drop 64 p))"
  by pat_completeness auto
termination by (relation "measure (\<lambda>(f, s, p). length p)") auto

declare hw_loop.simps [simp del]

fun x86_pack :: "words \<Rightarrow> vec \<times> vec" where
  "x86_pack h =
    (let t = shuf_B1 (vload h 0); s1 = shuf_1B (vload h 4)
     in (alignr_8 t s1, blend_F0 s1 t))"

fun vec_words :: "vec \<Rightarrow> words" where
  "vec_words (a, b, c, d) = [a, b, c, d]"

fun x86_unpack :: "vec \<times> vec \<Rightarrow> words" where
  "x86_unpack (s0, s1) =
    (let t = shuf_1B s0; s1 = shuf_B1 s1
     in vec_words (blend_F0 t s1) @ vec_words (alignr_8 s1 t))"

definition x86_blocks_hw :: "words \<Rightarrow> bytes \<Rightarrow> words" where
  "x86_blocks_hw h p = x86_unpack (hw_loop x86_block (x86_pack h) p)"

subsection \<open>Arm\<close>

text \<open>\<^verbatim>\<open>vsha256hq_u32\<close> and \<^verbatim>\<open>vsha256h2q_u32\<close>: the two halves of the state after four rounds.\<close>

fun arm_rounds :: "vec \<Rightarrow> vec \<Rightarrow> vec \<Rightarrow> vec \<times> vec" where
  "arm_rounds (a, b, c, d) (e, f, g, h) (w0, w1, w2, w3) =
    (let r = (\<lambda>w (a, b, c, d, e, f, g, h).
           let t1 = h + big1 e + sha_ch e f g + w
           in (t1 + big0 a + sha_maj a b c, a, b, c, t1 + d, e, f, g))
     in case r w3 (r w2 (r w1 (r w0 (a, b, c, d, e, f, g, h)))) of
          (a, b, c, d, e, f, g, h) \<Rightarrow> ((a, b, c, d), (e, f, g, h)))"

definition vsha256hq :: "vec \<Rightarrow> vec \<Rightarrow> vec \<Rightarrow> vec" where
  "vsha256hq abcd efgh wk = fst (arm_rounds abcd efgh wk)"

definition vsha256h2q :: "vec \<Rightarrow> vec \<Rightarrow> vec \<Rightarrow> vec" where
  "vsha256h2q efgh abcd wk = snd (arm_rounds abcd efgh wk)"

fun vsha256su0q :: "vec \<Rightarrow> vec \<Rightarrow> vec" where
  "vsha256su0q (w0, w1, w2, w3) (w4, _, _, _) = (w0 + small0 w1, w1 + small0 w2, w2 + small0 w3, w3 + small0 w4)"

fun vsha256su1q :: "vec \<Rightarrow> vec \<Rightarrow> vec \<Rightarrow> vec" where
  "vsha256su1q (t0, t1, t2, t3) (_, w9, w10, w11) (w12, _, w14, w15) =
    (let w16 = t0 + w9 + small1 w14; w17 = t1 + w10 + small1 w15
     in (w16, w17, t2 + w11 + small1 w16, t3 + w12 + small1 w17))"

fun arm_step :: "nat \<Rightarrow> sha_regs \<Rightarrow> sha_regs" where
  "arm_step i (s0, s1, m0, m1, m2, m3) =
    (let wk = vadd m0 (vload sha_k (4 * i));
         t = s0;
         s0 = vsha256hq s0 s1 wk;
         s1 = vsha256h2q s1 t wk;
         next = (if i < 12 then vsha256su1q (vsha256su0q m0 m1) m2 m3 else m3)
     in (s0, s1, m1, m2, m3, next))"

definition arm_block :: "vec \<times> vec \<Rightarrow> bytes \<Rightarrow> vec \<times> vec" where
  "arm_block s p =
    (case s of (a0, a1) \<Rightarrow>
     case fold arm_step [0..<16] (a0, a1, load_be p 0, load_be p 4, load_be p 8, load_be p 12) of
       (s0, s1, _) \<Rightarrow> (vadd s0 a0, vadd s1 a1))"

definition arm_blocks_hw :: "words \<Rightarrow> bytes \<Rightarrow> words" where
  "arm_blocks_hw h p =
    (case hw_loop arm_block (vload h 0, vload h 4) p of (s0, s1) \<Rightarrow> vec_words s0 @ vec_words s1)"

subsection \<open>The schedule\<close>

definition sched_to :: "bytes \<Rightarrow> nat \<Rightarrow> words" where
  "sched_to p n = fold (\<lambda>i w. w @ [sha_next_w w i]) [16..<n] (map (be_word p) [0..<16])"

lemma sched_to_Suc: "16 \<le> n \<Longrightarrow> sched_to p (Suc n) = sched_to p n @ [sha_next_w (sched_to p n) n]"
  by (simp add: sched_to_def upt_Suc_append)

lemma next_w_append: "16 \<le> i \<Longrightarrow> i \<le> length w \<Longrightarrow> sha_next_w (w @ x) i = sha_next_w w i"
proof -
  assume "16 \<le> i" "i \<le> length w"
  then have "i - 16 < length w" "i - 15 < length w" "i - 7 < length w" "i - 2 < length w" by linarith+
  then show ?thesis by (simp only: sha_next_w_def nth_append if_True)
qed

lemma sched_to_spec:
  "16 \<le> n \<Longrightarrow> length (sched_to p n) = n
   \<and> (\<forall>i < n. sched_to p n ! i = (if i < 16 then be_word p i else sha_next_w (sched_to p n) i))"
proof (induction n rule: nat_induct_at_least)
  case base
  then show ?case by (simp add: sched_to_def del: upt_conv_Cons upt_rec_numeral)
next
  case (Suc n)
  let ?w = "sched_to p n"
  have l: "length ?w = n" and w: "\<forall>i < n. ?w ! i = (if i < 16 then be_word p i else sha_next_w ?w i)" using Suc.IH by blast+
  show ?case unfolding sched_to_Suc [OF Suc.hyps]
  proof (intro conjI allI impI)
    fix i assume i: "i < Suc n"
    show "(?w @ [sha_next_w ?w n]) ! i = (if i < 16 then be_word p i else sha_next_w (?w @ [sha_next_w ?w n]) i)"
    proof (cases "i < n")
      case True
      then have "(?w @ [sha_next_w ?w n]) ! i = ?w ! i" using l by (simp add: nth_append)
      then show ?thesis using w True l next_w_append [of i ?w "[sha_next_w ?w n]"] by simp
    next
      case False
      then have "i = n" using i by simp
      then show ?thesis using l Suc.hyps next_w_append [of n ?w "[sha_next_w ?w n]"] by (simp add: nth_append)
    qed
  qed (use l in simp)
qed

lemma schedule_spec:
  "length (sha_schedule p) = 64" "i < 16 \<Longrightarrow> sha_schedule p ! i = be_word p i"
  "16 \<le> i \<Longrightarrow> i < 64 \<Longrightarrow> sha_schedule p ! i = sha_next_w (sha_schedule p) i"
proof -
  have e: "sha_schedule p = sched_to p 64" by (simp only: sha_schedule_def sched_to_def)
  have s: "length (sched_to p 64) = 64
      \<and> (\<forall>i < 64. sched_to p 64 ! i = (if i < 16 then be_word p i else sha_next_w (sched_to p 64) i))"
    by (rule sched_to_spec) simp
  show "length (sha_schedule p) = 64" unfolding e using s by blast
  show "i < 16 \<Longrightarrow> sha_schedule p ! i = be_word p i" unfolding e using s by auto
  show "16 \<le> i \<Longrightarrow> i < 64 \<Longrightarrow> sha_schedule p ! i = sha_next_w (sha_schedule p) i" unfolding e using s by auto
qed

subsection \<open>The rounds\<close>

text \<open>The working variables after the first \<open>n\<close> rounds.\<close>

definition rounds :: "words \<Rightarrow> words \<Rightarrow> nat \<Rightarrow> vars" where
  "rounds hs w n = fold (\<lambda>i. sha_round (sha_k ! i) (w ! i)) [0..<n] (vars_of hs)"

lemma rounds_Suc: "rounds hs w (Suc n) = sha_round (sha_k ! n) (w ! n) (rounds hs w n)"
  by (simp add: rounds_def)

lemma four_rounds: "rounds hs w (4 * Suc i) =
  sha_round (sha_k ! (4 * i + 3)) (w ! (4 * i + 3)) (sha_round (sha_k ! (4 * i + 2)) (w ! (4 * i + 2))
    (sha_round (sha_k ! (4 * i + 1)) (w ! (4 * i + 1)) (sha_round (sha_k ! (4 * i)) (w ! (4 * i)) (rounds hs w (4 * i)))))"
proof -
  have "4 * Suc i = Suc (Suc (Suc (Suc (4 * i))))" by simp
  then show ?thesis by (simp only: rounds_Suc) (simp add: numeral_eq_Suc)
qed

lemma vload_next:
  assumes "i < 12"
  shows "vload (sha_schedule p) (4 * i + 16) = (let w = (\<lambda>k. sha_schedule p ! (4 * i + k)); w16 = w 0 + small0 (w 1) + w 9 + small1 (w 14);
      w17 = w 1 + small0 (w 2) + w 10 + small1 (w 15)
    in (w16, w17, w 2 + small0 (w 3) + w 11 + small1 w16, w 3 + small0 (w 4) + w 12 + small1 w17))"
proof -
  let ?w = "sha_schedule p"
  have n: "?w ! (4 * i + 16 + j) = ?w ! (4 * i + j) + small0 (?w ! (4 * i + (j + 1))) + ?w ! (4 * i + (j + 9)) + small1 (?w ! (4 * i + (j + 14)))"
    if "j < 4" for j
  proof -
    have i: "4 * i + 16 + j - 16 = 4 * i + j" "4 * i + 16 + j - 15 = 4 * i + (j + 1)" "4 * i + 16 + j - 7 = 4 * i + (j + 9)"
      "4 * i + 16 + j - 2 = 4 * i + (j + 14)" by simp_all
    have "?w ! (4 * i + 16 + j) = sha_next_w ?w (4 * i + 16 + j)"
      by (rule schedule_spec(3)) (use that assms in linarith)+
    then show ?thesis by (simp only: sha_next_w_def i)
  qed
  from n [of 0] n [of 1] n [of 2] n [of 3] show ?thesis
    by (simp add: vload_def Let_def numeral_eq_Suc)
qed

subsection \<open>Both back ends compute the rounds\<close>

fun abef :: "vars \<Rightarrow> vec" where "abef (a, b, c, d, e, f, g, h) = (f, e, b, a)"
fun cdgh :: "vars \<Rightarrow> vec" where "cdgh (a, b, c, d, e, f, g, h) = (h, g, d, c)"
fun abcd :: "vars \<Rightarrow> vec" where "abcd (a, b, c, d, e, f, g, h) = (a, b, c, d)"
fun efgh :: "vars \<Rightarrow> vec" where "efgh (a, b, c, d, e, f, g, h) = (e, f, g, h)"

lemma two_rounds:
  "sha256rnds2 (cdgh v) (abef v) (w0 + k0, w1 + k1, x, y) = abef (sha_round k1 w1 (sha_round k0 w0 v))"
  "cdgh (sha_round k1 w1 (sha_round k0 w0 v)) = abef v"
  by (cases v rule: abef.cases, simp add: Let_def ac_simps)+

lemma arm_four_rounds:
  "arm_rounds (abcd v) (efgh v) (w0 + k0, w1 + k1, w2 + k2, w3 + k3)
   = (abcd (sha_round k3 w3 (sha_round k2 w2 (sha_round k1 w1 (sha_round k0 w0 v)))),
      efgh (sha_round k3 w3 (sha_round k2 w2 (sha_round k1 w1 (sha_round k0 w0 v)))))"
proof -
  have r: "(let t1 = h + big1 e + sha_ch e f g + (w + k) in (t1 + big0 a + sha_maj a b c, a, b, c, t1 + d, e, f, g))
      = sha_round k w (a, b, c, d, e, f, g, h)" for a b c d e f g h w k
    by (simp add: Let_def ac_simps)
  obtain a b c d e f g h where v: "v = (a, b, c, d, e, f, g, h)" by (cases v rule: abef.cases)
  show ?thesis unfolding v abcd.simps efgh.simps arm_rounds.simps Let_def
    by (simp add: ac_simps Let_def)
qed

text \<open>The message registers hold the next sixteen words, as far as there are any.\<close>

definition msg_at :: "words \<Rightarrow> nat \<Rightarrow> vec \<times> vec \<times> vec \<times> vec \<Rightarrow> bool" where
  "msg_at w i m = (case m of (m0, m1, m2, m3) \<Rightarrow>
     (i < 16 \<longrightarrow> m0 = vload w (4 * i)) \<and> (i < 15 \<longrightarrow> m1 = vload w (4 * i + 4))
     \<and> (i < 14 \<longrightarrow> m2 = vload w (4 * i + 8)) \<and> (i < 13 \<longrightarrow> m3 = vload w (4 * i + 12)))"

lemma next_x86:
  assumes "i < 12" "msg_at (sha_schedule p) i (m0, m1, m2, m3)"
  shows "sha256msg2 (vadd (sha256msg1 m0 m1) (alignr_4 m3 m2)) m3 = vload (sha_schedule p) (4 * i + 16)"
proof -
  have m: "m0 = vload (sha_schedule p) (4 * i)" "m1 = vload (sha_schedule p) (4 * i + 4)"
    "m2 = vload (sha_schedule p) (4 * i + 8)" "m3 = vload (sha_schedule p) (4 * i + 12)"
    using assms by (simp_all add: msg_at_def)
  show ?thesis unfolding m vload_next [OF assms(1)] by (simp add: vload_def Let_def ac_simps)
qed

lemma next_arm:
  assumes "i < 12" "msg_at (sha_schedule p) i (m0, m1, m2, m3)"
  shows "vsha256su1q (vsha256su0q m0 m1) m2 m3 = vload (sha_schedule p) (4 * i + 16)"
proof -
  have m: "m0 = vload (sha_schedule p) (4 * i)" "m1 = vload (sha_schedule p) (4 * i + 4)"
    "m2 = vload (sha_schedule p) (4 * i + 8)" "m3 = vload (sha_schedule p) (4 * i + 12)"
    using assms by (simp_all add: msg_at_def)
  show ?thesis unfolding m vload_next [OF assms(1)] by (simp add: vload_def Let_def ac_simps)
qed

lemma msg_shift:
  assumes "msg_at w i (m0, m1, m2, m3)" "i < 12 \<longrightarrow> m4 = vload w (4 * i + 16)"
  shows "msg_at w (Suc i) (m1, m2, m3, m4)"
  using assms by (auto simp: msg_at_def algebra_simps)

lemma msg_shift_if:
  assumes "msg_at w i (m0, m1, m2, m3)" "i < 12 \<Longrightarrow> n = vload w (4 * i + 16)"
  shows "msg_at w (Suc i) (m1, m2, m3, if i < 12 then n else m)"
  using assms(2) by (intro msg_shift [OF assms(1)]) simp

lemma vadd_k: "vadd (vload w j) (vload sha_k j)
  = (w ! j + sha_k ! j, w ! (j + 1) + sha_k ! (j + 1), w ! (j + 2) + sha_k ! (j + 2), w ! (j + 3) + sha_k ! (j + 3))"
  by (simp add: vload_def)

lemma x86_step_ok:
  assumes "i < 16" "msg_at (sha_schedule p) i (m0, m1, m2, m3)"
    "x86_step i (abef (rounds hs (sha_schedule p) (4 * i)), cdgh (rounds hs (sha_schedule p) (4 * i)), m0, m1, m2, m3) = (s0, s1, ms)"
  shows "s0 = abef (rounds hs (sha_schedule p) (4 * Suc i)) \<and> s1 = cdgh (rounds hs (sha_schedule p) (4 * Suc i))
    \<and> msg_at (sha_schedule p) (Suc i) ms"
proof -
  let ?w = "sha_schedule p"
  let ?v = "rounds hs ?w (4 * i)"
  let ?u = "sha_round (sha_k ! (4 * i + 1)) (?w ! (4 * i + 1)) (sha_round (sha_k ! (4 * i)) (?w ! (4 * i)) ?v)"
  have m0: "m0 = vload ?w (4 * i)" using assms(1,2) by (simp add: msg_at_def)
  have wk: "vadd m0 (vload sha_k (4 * i)) = (?w ! (4 * i) + sha_k ! (4 * i), ?w ! (4 * i + 1) + sha_k ! (4 * i + 1),
      ?w ! (4 * i + 2) + sha_k ! (4 * i + 2), ?w ! (4 * i + 3) + sha_k ! (4 * i + 3))"
    unfolding m0 by (rule vadd_k)
  have st: "s1 = sha256rnds2 (cdgh ?v) (abef ?v) (vadd m0 (vload sha_k (4 * i)))"
    "s0 = sha256rnds2 (abef ?v) s1 (shuf_0E (vadd m0 (vload sha_k (4 * i))))"
    using assms(3) by (auto simp: Let_def simp del: sha256rnds2.simps vadd.simps shuf_0E.simps)
  have s1: "s1 = abef ?u" unfolding st(1) wk by (rule two_rounds(1))
  have "cdgh ?u = abef ?v" by (rule two_rounds(2))
  then have "s0 = sha256rnds2 (cdgh ?u) (abef ?u) (?w ! (4 * i + 2) + sha_k ! (4 * i + 2), ?w ! (4 * i + 3) + sha_k ! (4 * i + 3),
      ?w ! (4 * i) + sha_k ! (4 * i), ?w ! (4 * i) + sha_k ! (4 * i))"
    using st(2) unfolding s1 wk by simp
  then have "s0 = abef (rounds hs ?w (4 * Suc i))" unfolding four_rounds two_rounds(1) by simp
  with s1 have "s0 = abef (rounds hs ?w (4 * Suc i)) \<and> s1 = abef ?u" by blast
  moreover have "cdgh (rounds hs ?w (4 * Suc i)) = abef ?u" unfolding four_rounds by (rule two_rounds(2))
  moreover have "ms = (m1, m2, m3, if i < 12 then sha256msg2 (vadd (sha256msg1 m0 m1) (alignr_4 m3 m2)) m3 else m3)"
    using assms(3) by (simp only: x86_step.simps Let_def prod.inject simp_thms)
  then have "msg_at ?w (Suc i) ms"
    using msg_shift_if [OF assms(2) next_x86 [OF _ assms(2)]] by (simp only:)
  ultimately show ?thesis by simp
qed

lemma arm_step_ok:
  assumes "i < 16" "msg_at (sha_schedule p) i (m0, m1, m2, m3)"
    "arm_step i (abcd (rounds hs (sha_schedule p) (4 * i)), efgh (rounds hs (sha_schedule p) (4 * i)), m0, m1, m2, m3) = (s0, s1, ms)"
  shows "s0 = abcd (rounds hs (sha_schedule p) (4 * Suc i)) \<and> s1 = efgh (rounds hs (sha_schedule p) (4 * Suc i))
    \<and> msg_at (sha_schedule p) (Suc i) ms"
proof -
  let ?w = "sha_schedule p"
  let ?v = "rounds hs ?w (4 * i)"
  have m0: "m0 = vload ?w (4 * i)" using assms(1,2) by (simp add: msg_at_def)
  have wk: "vadd m0 (vload sha_k (4 * i)) = (?w ! (4 * i) + sha_k ! (4 * i), ?w ! (4 * i + 1) + sha_k ! (4 * i + 1),
      ?w ! (4 * i + 2) + sha_k ! (4 * i + 2), ?w ! (4 * i + 3) + sha_k ! (4 * i + 3))"
    unfolding m0 by (rule vadd_k)
  have "s0 = abcd (rounds hs ?w (4 * Suc i)) \<and> s1 = efgh (rounds hs ?w (4 * Suc i))"
  proof -
    have "s0 = fst (arm_rounds (abcd ?v) (efgh ?v) (vadd m0 (vload sha_k (4 * i))))"
      "s1 = snd (arm_rounds (abcd ?v) (efgh ?v) (vadd m0 (vload sha_k (4 * i))))"
      using assms(3) by (auto simp: Let_def vsha256hq_def vsha256h2q_def simp del: arm_rounds.simps vadd.simps)
    then show ?thesis unfolding wk arm_four_rounds four_rounds by simp
  qed
  moreover have "ms = (m1, m2, m3, if i < 12 then vsha256su1q (vsha256su0q m0 m1) m2 m3 else m3)"
    using assms(3) by (simp only: arm_step.simps Let_def prod.inject simp_thms)
  then have "msg_at ?w (Suc i) ms"
    using msg_shift_if [OF assms(2) next_arm [OF _ assms(2)]] by (simp only:)
  ultimately show ?thesis by simp
qed

lemma msg_start: "msg_at (sha_schedule p) 0 (load_be p 0, load_be p 4, load_be p 8, load_be p 12)"
  by (simp add: msg_at_def vload_def load_be_def schedule_spec(2))

lemma x86_fold:
  "n \<le> 16 \<Longrightarrow> \<exists>ms. fold x86_step [0..<n] (abef (vars_of hs), cdgh (vars_of hs), load_be p 0, load_be p 4, load_be p 8, load_be p 12)
     = (abef (rounds hs (sha_schedule p) (4 * n)), cdgh (rounds hs (sha_schedule p) (4 * n)), ms) \<and> msg_at (sha_schedule p) n ms"
proof (induction n)
  case 0
  then show ?case using msg_start by (simp add: rounds_def)
next
  case (Suc n)
  then obtain m0 m1 m2 m3 where f: "fold x86_step [0..<n] (abef (vars_of hs), cdgh (vars_of hs), load_be p 0, load_be p 4, load_be p 8, load_be p 12)
     = (abef (rounds hs (sha_schedule p) (4 * n)), cdgh (rounds hs (sha_schedule p) (4 * n)), m0, m1, m2, m3)"
    "msg_at (sha_schedule p) n (m0, m1, m2, m3)" by (metis Suc_leD prod_cases3)
  obtain s0 s1 ms where st: "x86_step n (abef (rounds hs (sha_schedule p) (4 * n)), cdgh (rounds hs (sha_schedule p) (4 * n)), m0, m1, m2, m3)
      = (s0, s1, ms)" by (metis prod_cases3)
  have "fold x86_step [0..<Suc n] (abef (vars_of hs), cdgh (vars_of hs), load_be p 0, load_be p 4, load_be p 8, load_be p 12) = (s0, s1, ms)"
    using f(1) st by (simp del: x86_step.simps)
  then show ?case using x86_step_ok [OF _ f(2) st] Suc.prems by (intro exI [of _ ms]) (simp del: x86_step.simps)
qed

lemma arm_fold:
  "n \<le> 16 \<Longrightarrow> \<exists>ms. fold arm_step [0..<n] (abcd (vars_of hs), efgh (vars_of hs), load_be p 0, load_be p 4, load_be p 8, load_be p 12)
     = (abcd (rounds hs (sha_schedule p) (4 * n)), efgh (rounds hs (sha_schedule p) (4 * n)), ms) \<and> msg_at (sha_schedule p) n ms"
proof (induction n)
  case 0
  then show ?case using msg_start by (simp add: rounds_def)
next
  case (Suc n)
  then obtain m0 m1 m2 m3 where f: "fold arm_step [0..<n] (abcd (vars_of hs), efgh (vars_of hs), load_be p 0, load_be p 4, load_be p 8, load_be p 12)
     = (abcd (rounds hs (sha_schedule p) (4 * n)), efgh (rounds hs (sha_schedule p) (4 * n)), m0, m1, m2, m3)"
    "msg_at (sha_schedule p) n (m0, m1, m2, m3)" by (metis Suc_leD prod_cases3)
  obtain s0 s1 ms where st: "arm_step n (abcd (rounds hs (sha_schedule p) (4 * n)), efgh (rounds hs (sha_schedule p) (4 * n)), m0, m1, m2, m3)
      = (s0, s1, ms)" by (metis prod_cases3)
  have "fold arm_step [0..<Suc n] (abcd (vars_of hs), efgh (vars_of hs), load_be p 0, load_be p 4, load_be p 8, load_be p 12) = (s0, s1, ms)"
    using f(1) st by (simp del: arm_step.simps)
  then show ?case using arm_step_ok [OF _ f(2) st] Suc.prems by (intro exI [of _ ms]) (simp del: arm_step.simps)
qed

lemma block_rounds: "sha256_block hs p = add_vars hs (rounds hs (sha_schedule p) 64)"
  by (simp add: sha256_block_def rounds_def Let_def)

lemma x86_block_ok: "x86_block (abef (vars_of hs), cdgh (vars_of hs)) p
  = (abef (vars_of (sha256_block hs p)), cdgh (vars_of (sha256_block hs p)))"
proof -
  obtain ms where "fold x86_step [0..<16] (abef (vars_of hs), cdgh (vars_of hs), load_be p 0, load_be p 4, load_be p 8, load_be p 12)
     = (abef (rounds hs (sha_schedule p) 64), cdgh (rounds hs (sha_schedule p) 64), ms)" using x86_fold [of 16 hs p] by auto
  then have "x86_block (abef (vars_of hs), cdgh (vars_of hs)) p
      = (vadd (abef (rounds hs (sha_schedule p) 64)) (abef (vars_of hs)), vadd (cdgh (rounds hs (sha_schedule p) 64)) (cdgh (vars_of hs)))"
    by (cases ms) (simp only: x86_block_def prod.case)
  then show ?thesis unfolding block_rounds
    by (cases "rounds hs (sha_schedule p) 64" rule: abef.cases) (simp add: add.commute)
qed

lemma arm_block_ok: "arm_block (abcd (vars_of hs), efgh (vars_of hs)) p
  = (abcd (vars_of (sha256_block hs p)), efgh (vars_of (sha256_block hs p)))"
proof -
  obtain ms where "fold arm_step [0..<16] (abcd (vars_of hs), efgh (vars_of hs), load_be p 0, load_be p 4, load_be p 8, load_be p 12)
     = (abcd (rounds hs (sha_schedule p) 64), efgh (rounds hs (sha_schedule p) 64), ms)" using arm_fold [of 16 hs p] by auto
  then have "arm_block (abcd (vars_of hs), efgh (vars_of hs)) p
      = (vadd (abcd (rounds hs (sha_schedule p) 64)) (abcd (vars_of hs)), vadd (efgh (rounds hs (sha_schedule p) 64)) (efgh (vars_of hs)))"
    by (cases ms) (simp only: arm_block_def prod.case)
  then show ?thesis unfolding block_rounds
    by (cases "rounds hs (sha_schedule p) 64" rule: abef.cases) (simp add: add.commute)
qed

lemma loop_ok:
  assumes "\<And>hs p. f (g (vars_of hs)) p = g (vars_of (sha256_block hs p))"
  shows "hw_loop f (g (vars_of hs)) p = g (vars_of (sha256_blocks hs p))"
proof (induction hs p rule: sha256_blocks.induct)
  case (1 hs p)
  then show ?case using assms by (subst sha256_blocks.simps, subst hw_loop.simps) simp
qed

lemma words8: "length hs = 8 \<Longrightarrow> [hs ! 0, hs ! 1, hs ! 2, hs ! 3, hs ! 4, hs ! 5, hs ! 6, hs ! 7] = hs"
  by (rule nth_equalityI) (auto simp: less_Suc_eq numeral_eq_Suc)

text \<open>
  Property C19. The x86 and the Arm back ends compute, for every state of eight words and every input,
  what the portable code computes: the packing of the state, the four rounds of each step, and the
  message schedule the instructions extend all agree with FIPS 180-4, so a digest does not depend on the
  processor that made it.
\<close>

theorem sha256_backends_agree:
  assumes "length hs = 8"
  shows "x86_blocks_hw hs p = sha256_blocks hs p \<and> arm_blocks_hw hs p = sha256_blocks hs p"
proof -
  let ?r = "sha256_blocks hs p"
  have r: "length ?r = 8" by (rule length_blocks [OF assms])
  have "x86_pack hs = (abef (vars_of hs), cdgh (vars_of hs))" by (simp add: vload_def Let_def numeral_eq_Suc)
  moreover have "hw_loop x86_block (abef (vars_of hs), cdgh (vars_of hs)) p = (abef (vars_of ?r), cdgh (vars_of ?r))"
    using loop_ok [of x86_block "\<lambda>v. (abef v, cdgh v)" hs p] x86_block_ok by simp
  moreover have "x86_unpack (abef (vars_of ?r), cdgh (vars_of ?r)) = ?r" using words8 [OF r] by (simp add: Let_def)
  ultimately have x: "x86_blocks_hw hs p = ?r" unfolding x86_blocks_hw_def by simp
  have "(vload hs 0, vload hs 4) = (abcd (vars_of hs), efgh (vars_of hs))" by (simp add: vload_def numeral_eq_Suc)
  moreover have "hw_loop arm_block (abcd (vars_of hs), efgh (vars_of hs)) p = (abcd (vars_of ?r), efgh (vars_of ?r))"
    using loop_ok [of arm_block "\<lambda>v. (abcd v, efgh v)" hs p] arm_block_ok by simp
  ultimately have "arm_blocks_hw hs p = ?r" unfolding arm_blocks_hw_def using words8 [OF r] by simp
  with x show ?thesis by simp
qed

theorem sha256_backends_agree_witness:
  "x86_blocks_hw sha_iv (sha_padded []) = sha256_blocks sha_iv (sha_padded [])"
  using sha256_backends_agree [of sha_iv] by (simp add: sha_iv_def)

end
