(* ===== verification/Vram_Text.thy ===== *)
theory Vram_Text
  imports Prelude
begin

section \<open>The VRAM registry's file: parsing and writing (vramreg.c)\<close>

text \<open>
  One line per reservation, its fields separated by tabs. A C \<^verbatim>\<open>long\<close> has 64 bits (every platform
  of the program but Windows); \<^verbatim>\<open>strtol\<close> and \<^verbatim>\<open>strtoull\<close> are the C library's, in base 10.
\<close>

definition REG_MAX_ENTRIES :: nat where "REG_MAX_ENTRIES = 256"
definition REG_LINE_MAX :: nat where "REG_LINE_MAX = 1024"
definition MODEL_MAX :: nat where "MODEL_MAX = 256"

lemmas reg_consts = REG_MAX_ENTRIES_def REG_LINE_MAX_def MODEL_MAX_def

record reg_entry =
  e_pid :: int
  e_seq :: int
  e_procstart :: u64
  e_since :: u64
  e_state :: u8
  e_bytes :: u64
  e_model :: bytes
  e_priority :: int

abbreviation st_P :: u8 where "st_P \<equiv> 0x50"
abbreviation st_C :: u8 where "st_C \<equiv> 0x43"
abbreviation st_W :: u8 where "st_W \<equiv> 0x57"
abbreviation TAB :: u8 where "TAB \<equiv> 9"
abbreviation NL :: u8 where "NL \<equiv> 10"

subsection \<open>Numbers\<close>

definition is_space :: "u8 \<Rightarrow> bool" where
  "is_space c \<longleftrightarrow> c = 0x20 \<or> 9 \<le> c \<and> c \<le> 13"

text \<open>White space, a sign, digits: what both conversions read.\<close>

definition sign_digits :: "bytes \<Rightarrow> bool \<times> nat" where
  "sign_digits s =
    (let t = dropWhile is_space s;
         (neg, d) = (case t of [] \<Rightarrow> (False, [])
                     | c # r \<Rightarrow> if c = 0x2d then (True, r) else if c = 0x2b then (False, r) else (False, t))
     in (neg, dec_val 0 (takeWhile is_digit d)))"

definition strtol :: "bytes \<Rightarrow> int" where
  "strtol s = (case sign_digits s of (neg, n) \<Rightarrow>
     if neg then max (- (2 ^ 63)) (- int n) else min (2 ^ 63 - 1) (int n))"

definition strtoull :: "bytes \<Rightarrow> u64" where
  "strtoull s = (case sign_digits s of (neg, n) \<Rightarrow>
     if n \<ge> 2 ^ 64 then - 1 else if neg then - of_nat n else of_nat n)"

text \<open>The cast of a \<^verbatim>\<open>long\<close> to \<^verbatim>\<open>int\<close>.\<close>

definition to_int32 :: "int \<Rightarrow> int" where
  "to_int32 i = signed_take_bit 31 i"

subsection \<open>parse\<close>

text \<open>At most \<open>k\<close> fields: each ends at a tab, and what follows the last one read is dropped.\<close>

fun fields :: "nat \<Rightarrow> bytes \<Rightarrow> bytes list" where
  "fields 0 s = []"
| "fields (Suc k) s =
    takeWhile (\<lambda>c. c \<noteq> TAB) s # (case dropWhile (\<lambda>c. c \<noteq> TAB) s of [] \<Rightarrow> [] | _ # r \<Rightarrow> fields k r)"

definition state_of :: "bytes \<Rightarrow> u8" where
  "state_of f = (case f of [] \<Rightarrow> st_P | c # _ \<Rightarrow> if c = st_C then st_C else if c = st_W then st_W else st_P)"

definition parse_entry :: "bytes list \<Rightarrow> reg_entry" where
  "parse_entry f = \<lparr>e_pid = strtol (f ! 0), e_seq = strtol (f ! 1), e_procstart = strtoull (f ! 2),
     e_since = strtoull (f ! 3), e_state = state_of (f ! 4), e_bytes = strtoull (f ! 5),
     e_model = take (MODEL_MAX - 1) (f ! 6),
     e_priority = (if length f = 8 then to_int32 (strtol (f ! 7)) else 0)\<rparr>"

definition parse_line :: "bytes \<Rightarrow> reg_entry list" where
  "parse_line l =
    (if 0 < length l \<and> length l < REG_LINE_MAX \<and> hd l \<noteq> 0x23 then
       let f = fields 8 l
       in if length f = 7 \<or> length f = 8 then
            let e = parse_entry f in if e_pid e > 0 then [e] else []
          else []
     else [])"

function parse_lines :: "nat \<Rightarrow> bytes \<Rightarrow> reg_entry list" where
  "parse_lines room p =
    (if p = [] \<or> room = 0 then []
     else let es = parse_line (takeWhile (\<lambda>c. c \<noteq> NL) p)
          in case dropWhile (\<lambda>c. c \<noteq> NL) p of [] \<Rightarrow> es
             | _ # rest \<Rightarrow> es @ parse_lines (room - length es) rest)"
  by pat_completeness auto
termination
proof (relation "measure (\<lambda>(room, p). length p)", simp)
  fix room p es c rest
  assume "dropWhile (\<lambda>c. c \<noteq> NL) p = c # rest"
  then have "length (c # rest) \<le> length p" by (metis length_dropWhile_le)
  then show "((room - length es, rest), room, p) \<in> measure (\<lambda>(room, p). length p)" by simp
qed

declare parse_lines.simps [simp del]

text \<open>The file is read as a C string: a NUL byte ends it.\<close>

definition parse :: "bytes \<Rightarrow> reg_entry list" where
  "parse inp = parse_lines REG_MAX_ENTRIES (takeWhile (\<lambda>c. c \<noteq> 0) inp)"

subsection \<open>serialise\<close>

definition entry_line :: "reg_entry \<Rightarrow> bytes" where
  "entry_line e =
    dec_int (e_pid e) @ [TAB] @ dec_int (e_seq e) @ [TAB] @ dec_nat (unat (e_procstart e)) @ [TAB]
    @ dec_nat (unat (e_since e)) @ [TAB] @ [e_state e] @ [TAB] @ dec_nat (unat (e_bytes e)) @ [TAB]
    @ e_model e @ [TAB] @ dec_int (e_priority e) @ [NL]"

fun write_lines :: "nat \<Rightarrow> nat \<Rightarrow> reg_entry list \<Rightarrow> bytes" where
  "write_lines cap off [] = []"
| "write_lines cap off (e # es) =
    (if off + REG_LINE_MAX < cap
     then take (cap - off - 1) (entry_line e) @ write_lines cap (off + length (entry_line e)) es else [])"

text \<open>\<open>mem\<close> is the result of the allocation.\<close>

definition serialise :: "bool \<Rightarrow> reg_entry list \<Rightarrow> bytes option" where
  "serialise mem es = (if mem then Some (write_lines ((length es + 1) * REG_LINE_MAX) 0 es) else None)"

subsection \<open>Entries the program writes\<close>

definition model_char :: "u8 \<Rightarrow> bool" where
  "model_char c \<longleftrightarrow> c \<noteq> 0 \<and> c \<noteq> TAB \<and> c \<noteq> NL"

definition entry_ok :: "reg_entry \<Rightarrow> bool" where
  "entry_ok e \<longleftrightarrow> 0 < e_pid e \<and> e_pid e < 2 ^ 63 \<and> - (2 ^ 63) \<le> e_seq e \<and> e_seq e < 2 ^ 63
     \<and> e_state e \<in> {st_P, st_C, st_W} \<and> length (e_model e) < MODEL_MAX \<and> list_all model_char (e_model e)
     \<and> - (2 ^ 31) \<le> e_priority e \<and> e_priority e < 2 ^ 31"

text \<open>Digits are neither tabs, line ends nor NUL.\<close>

lemma digit_plain: "is_digit c \<Longrightarrow> c \<noteq> TAB \<and> c \<noteq> NL \<and> c \<noteq> 0 \<and> c \<noteq> 0x2d \<and> c \<noteq> 0x2b \<and> \<not> is_space c \<and> c \<noteq> 0x23"
  by (auto simp: is_digit_def is_space_def word_le_nat_alt)

lemma dec_nat_all: "(\<And>c. is_digit c \<Longrightarrow> P c) \<Longrightarrow> list_all P (dec_nat n)"
  using dec_nat_digits [of n] by (auto simp: list_all_iff)

lemma dec_int_all: "(\<And>c. is_digit c \<Longrightarrow> P c) \<Longrightarrow> P 0x2d \<Longrightarrow> list_all P (dec_int i)"
  by (simp add: dec_int_def dec_nat_all)

lemma takeWhile_digits: "takeWhile is_digit (dec_nat n) = dec_nat n"
  using dec_nat_digits [of n] by (simp add: list_all_iff)

lemma takeWhile_all: "list_all P xs \<Longrightarrow> takeWhile P xs = xs"
  by (simp add: list_all_iff)

lemma sign_digits_nat [simp]: "sign_digits (dec_nat n) = (False, n)"
proof -
  obtain c r where c: "dec_nat n = c # r" by (cases "dec_nat n") auto
  then have d: "is_digit c" using dec_nat_digits [of n] by simp
  have v: "dec_val 0 (takeWhile is_digit (c # r)) = n" unfolding c [symmetric] takeWhile_digits by simp
  show ?thesis unfolding sign_digits_def c using digit_plain [OF d] v by (simp add: Let_def)
qed

lemma sign_digits_neg [simp]: "sign_digits (0x2d # dec_nat n) = (True, n)"
  by (simp add: sign_digits_def is_space_def takeWhile_digits)

lemma strtol_dec [simp]: "- (2 ^ 63) \<le> i \<Longrightarrow> i < 2 ^ 63 \<Longrightarrow> strtol (dec_int i) = i"
  by (simp add: strtol_def dec_int_def)

lemma strtoull_dec [simp]: "strtoull (dec_nat (unat w)) = w"
  using unsigned_less [of w, where ?'a = nat] by (simp add: strtoull_def)

lemma to_int32_id [simp]: "- (2 ^ 31) \<le> i \<Longrightarrow> i < 2 ^ 31 \<Longrightarrow> to_int32 i = i"
  by (simp add: to_int32_def signed_take_bit_int_eq_self)

lemma state_of_self [simp]: "s \<in> {st_P, st_C, st_W} \<Longrightarrow> state_of [s] = s"
  by (auto simp: state_of_def)

lemma fields_join: "list_all (\<lambda>c. c \<noteq> TAB) f \<Longrightarrow> fields (Suc k) (f @ TAB # r) = f # fields k r"
  by (simp add: takeWhile_append2 dropWhile_append2 list_all_iff)

lemma fields_last: "list_all (\<lambda>c. c \<noteq> TAB) f \<Longrightarrow> fields (Suc k) f = [f]"
proof -
  assume "list_all (\<lambda>c. c \<noteq> TAB) f"
  then have f: "takeWhile (\<lambda>c. c \<noteq> TAB) f = f" "dropWhile (\<lambda>c. c \<noteq> TAB) f = []" by (simp_all add: list_all_iff)
  show ?thesis unfolding fields.simps f by simp
qed

text \<open>The line of an entry, without its line end.\<close>

definition line_body :: "reg_entry \<Rightarrow> bytes" where
  "line_body e = dec_int (e_pid e) @ TAB # dec_int (e_seq e) @ TAB # dec_nat (unat (e_procstart e)) @ TAB
    # dec_nat (unat (e_since e)) @ TAB # [e_state e] @ TAB # dec_nat (unat (e_bytes e)) @ TAB
    # e_model e @ TAB # dec_int (e_priority e)"

lemma entry_line_body: "entry_line e = line_body e @ [NL]"
  by (simp add: entry_line_def line_body_def)

lemma notab: "list_all (\<lambda>c. c \<noteq> TAB) (dec_int i)" "list_all (\<lambda>c. c \<noteq> TAB) (dec_nat n)"
  by (auto intro!: dec_int_all dec_nat_all dest: digit_plain)

lemma fields_line:
  assumes "entry_ok e"
  shows "fields 8 (line_body e) = [dec_int (e_pid e), dec_int (e_seq e), dec_nat (unat (e_procstart e)),
     dec_nat (unat (e_since e)), [e_state e], dec_nat (unat (e_bytes e)), e_model e, dec_int (e_priority e)]"
proof -
  have m: "list_all (\<lambda>c. c \<noteq> TAB) (e_model e)" using assms by (auto simp: entry_ok_def list_all_iff model_char_def)
  have s: "list_all (\<lambda>c. c \<noteq> TAB) [e_state e]" using assms by (auto simp: entry_ok_def)
  have n: "(8 :: nat) = Suc (Suc (Suc (Suc (Suc (Suc (Suc (Suc 0)))))))" by simp
  show ?thesis unfolding line_body_def n
    by (simp only: fields_join [OF notab(1)] fields_join [OF notab(2)] fields_join [OF m] fields_join [OF s] fields_last [OF notab(1)])
qed

lemma length_dec_nat_u64: "length (dec_nat (unat (w :: u64))) \<le> 20"
proof -
  have "unat w < 10 ^ Suc 19" using unsigned_less [of w, where ?'a = nat] by simp
  then show ?thesis using dec_nat_length [of "unat w" 19] by simp
qed

lemma length_dec_int_i64: "- (2 ^ 63) \<le> i \<Longrightarrow> i < 2 ^ 63 \<Longrightarrow> length (dec_int i) \<le> 20"
proof -
  assume "- (2 ^ 63) \<le> i" "i < 2 ^ 63"
  then have "nat i < 10 ^ Suc 18" "nat (- i) < 10 ^ Suc 18" by simp_all
  then have "length (dec_nat (nat i)) \<le> 19" "length (dec_nat (nat (- i))) \<le> 19" using dec_nat_length [of _ 18] by auto
  then show ?thesis by (simp add: dec_int_def)
qed

lemma line_fits: "entry_ok e \<Longrightarrow> length (line_body e) < 512"
  using length_dec_nat_u64 [of "e_procstart e"] length_dec_nat_u64 [of "e_since e"] length_dec_nat_u64 [of "e_bytes e"]
    length_dec_int_i64 [of "e_pid e"] length_dec_int_i64 [of "e_seq e"] length_dec_int_i64 [of "e_priority e"]
  by (simp add: line_body_def entry_ok_def MODEL_MAX_def)

lemma line_plain:
  assumes "entry_ok e"
  shows "list_all (\<lambda>c. c \<noteq> NL \<and> c \<noteq> 0) (line_body e)"
proof -
  have d: "c \<noteq> NL \<and> c \<noteq> 0" if "is_digit c" for c using digit_plain [OF that] by blast
  have "list_all (\<lambda>c. c \<noteq> NL \<and> c \<noteq> 0) (dec_nat n)" for n by (rule dec_nat_all) (rule d)
  moreover have "list_all (\<lambda>c. c \<noteq> NL \<and> c \<noteq> 0) (dec_int i)" for i by (rule dec_int_all) (erule d, simp)
  moreover have "e_state e \<in> {st_P, st_C, st_W}" and m: "list_all model_char (e_model e)"
    using assms unfolding entry_ok_def by blast+
  then have "e_state e \<noteq> NL" "e_state e \<noteq> 0" by auto
  moreover have "list_all (\<lambda>c. c \<noteq> NL \<and> c \<noteq> 0) (e_model e)"
    using m by (rule list.pred_mono_strong) (simp add: model_char_def)
  ultimately show ?thesis by (simp add: line_body_def)
qed

lemma line_head:
  assumes "entry_ok e"
  shows "line_body e \<noteq> [] \<and> hd (line_body e) \<noteq> 0x23"
proof -
  obtain c r where c: "dec_nat (nat (e_pid e)) = c # r" by (cases "dec_nat (nat (e_pid e))") auto
  then have "is_digit c" using dec_nat_digits [of "nat (e_pid e)"] by simp
  then show ?thesis using assms digit_plain c by (auto simp: line_body_def dec_int_def entry_ok_def)
qed

lemma parse_entry_line:
  assumes "entry_ok e"
  shows "parse_entry (fields 8 (line_body e)) = e"
  unfolding fields_line [OF assms] using assms
  by (cases e) (simp add: parse_entry_def entry_ok_def numeral_eq_Suc MODEL_MAX_def)

lemma parse_line_body:
  assumes "entry_ok e"
  shows "parse_line (line_body e) = [e]"
proof -
  have "length (fields 8 (line_body e)) = 8" unfolding fields_line [OF assms] by simp
  moreover have "0 < e_pid e" using assms by (simp add: entry_ok_def)
  ultimately show ?thesis using line_fits [OF assms] line_head [OF assms] parse_entry_line [OF assms]
    by (simp add: parse_line_def Let_def REG_LINE_MAX_def del: fields.simps)
qed

lemma write_lines_all:
  assumes "list_all entry_ok es" "off + (length es + 1) * REG_LINE_MAX \<le> cap + 512 * length es"
  shows "write_lines cap off es = concat (map entry_line es)"
  using assms
proof (induction es arbitrary: off)
  case (Cons e es)
  have l: "length (entry_line e) \<le> 512" using line_fits [of e] Cons.prems by (simp add: entry_line_body)
  have g: "off + REG_LINE_MAX < cap" using Cons.prems(2) by (simp add: REG_LINE_MAX_def)
  have "off + length (entry_line e) + (length es + 1) * REG_LINE_MAX \<le> cap + 512 * length es"
    using Cons.prems(2) l by (simp add: REG_LINE_MAX_def)
  then show ?case using Cons g l by (simp add: REG_LINE_MAX_def)
qed simp

lemma serialise_all:
  assumes "list_all entry_ok es"
  shows "serialise True es = Some (concat (map entry_line es))"
  using write_lines_all [OF assms, of 0] by (simp add: serialise_def)

lemma parse_lines_all:
  "list_all entry_ok es \<Longrightarrow> length es \<le> room \<Longrightarrow> parse_lines room (concat (map entry_line es)) = es"
proof (induction es arbitrary: room)
  case Nil
  then show ?case by (simp add: parse_lines.simps)
next
  case (Cons e es)
  have p: "list_all (\<lambda>c. c \<noteq> NL) (line_body e)" using line_plain [of e] Cons.prems by (simp add: list_all_iff)
  let ?r = "concat (map entry_line es)"
  have t: "takeWhile (\<lambda>c. c \<noteq> NL) (line_body e @ NL # ?r) = line_body e" "dropWhile (\<lambda>c. c \<noteq> NL) (line_body e @ NL # ?r) = NL # ?r"
    using p by (simp_all add: takeWhile_append2 dropWhile_append2 list_all_iff)
  have "parse_lines room (line_body e @ NL # ?r) = [e] @ parse_lines (room - 1) ?r"
    using Cons.prems parse_line_body [of e] by (subst parse_lines.simps) (simp add: t Let_def)
  moreover have "parse_lines (room - 1) ?r = es" using Cons by simp
  moreover have "concat (map entry_line (e # es)) = line_body e @ NL # ?r" by (simp add: entry_line_body)
  ultimately show ?case by (simp only: append_Cons append_Nil)
qed

lemma plain_file:
  assumes "list_all entry_ok es"
  shows "takeWhile (\<lambda>c. c \<noteq> 0) (concat (map entry_line es)) = concat (map entry_line es)"
proof (rule takeWhile_all)
  show "list_all (\<lambda>c. c \<noteq> 0) (concat (map entry_line es))"
    using assms line_plain by (induction es) (auto simp: entry_line_body list_all_iff)
qed

lemma parse_serialised:
  assumes "list_all entry_ok es" "length es \<le> REG_MAX_ENTRIES" "serialise True es = Some out"
  shows "parse out = es"
proof -
  have out: "out = concat (map entry_line es)" using serialise_all [OF assms(1)] assms(3) by simp
  show ?thesis unfolding parse_def out plain_file [OF assms(1)] by (rule parse_lines_all [OF assms(1,2)])
qed

text \<open>
  Property C38. What \<^verbatim>\<open>serialise\<close> writes, \<^verbatim>\<open>parse\<close> reads back entry for entry, for any registry of up to
  256 entries whose models hold no tab, line end or NUL: its buffer is large enough for every line, no
  line is cut, and no entry is lost between two processes.
\<close>

theorem registry_roundtrip:
  assumes "list_all entry_ok es" "length es \<le> REG_MAX_ENTRIES" "serialise True es = Some out"
  shows "parse out = es"
  using assms by (rule parse_serialised)

definition entry0 :: reg_entry where
  "entry0 = \<lparr>e_pid = 4021, e_seq = 1, e_procstart = 77, e_since = 1700000000, e_state = st_P, e_bytes = 5000000000,
     e_model = ascii ''a b.gguf'', e_priority = - 3\<rparr>"

lemma entry0_ok: "entry_ok entry0"
  by (simp add: entry_ok_def entry0_def MODEL_MAX_def model_char_def ascii_def of_char_of)

theorem registry_roundtrip_witness:
  "\<exists>out. serialise True [entry0, entry0] = Some out \<and> parse out = [entry0, entry0]"
proof -
  have ok: "list_all entry_ok [entry0, entry0]" using entry0_ok by simp
  from registry_roundtrip [OF ok _ serialise_all [OF ok]] serialise_all [OF ok] show ?thesis
    by (simp add: REG_MAX_ENTRIES_def)
qed

subsection \<open>Whatever the file holds\<close>

lemma fields_free: "list_all (\<lambda>c. c \<noteq> 0 \<and> c \<noteq> NL) s \<Longrightarrow> f \<in> set (fields k s) \<Longrightarrow> list_all model_char f"
proof (induction k s rule: fields.induct)
  case (2 k s)
  have t: "list_all model_char (takeWhile (\<lambda>c. c \<noteq> TAB) s)"
    using 2(2) by (auto simp: list_all_iff model_char_def dest: set_takeWhileD)
  show ?case
  proof (cases "dropWhile (\<lambda>c. c \<noteq> TAB) s")
    case Nil
    then have "f = takeWhile (\<lambda>c. c \<noteq> TAB) s" using 2(3) by (simp only: fields.simps list.case list.set) simp
    then show ?thesis using t by simp
  next
    case (Cons c r)
    have "set r \<subseteq> set s" using set_dropWhileD [of _ "\<lambda>c. c \<noteq> TAB" s] Cons by auto
    then have "list_all (\<lambda>c. c \<noteq> 0 \<and> c \<noteq> NL) r" using 2(2) by (auto simp: list_all_iff)
    then show ?thesis using 2(1) [OF Cons] t 2(3) Cons by auto
  qed
qed simp

lemma strtol_range: "- (2 ^ 63) \<le> strtol s \<and> strtol s < 2 ^ 63"
  by (auto simp: strtol_def split: prod.split)

lemma to_int32_range: "- (2 ^ 31) \<le> to_int32 i \<and> to_int32 i < 2 ^ 31"
  unfolding to_int32_def by (rule conjI [OF signed_take_bit_int_greater_eq_minus_exp signed_take_bit_int_less_exp])

lemma parse_line_ok:
  assumes "list_all (\<lambda>c. c \<noteq> 0 \<and> c \<noteq> NL) l" "e \<in> set (parse_line l)"
  shows "entry_ok e"
proof -
  have f: "e = parse_entry (fields 8 l)" "7 \<le> length (fields 8 l)" "0 < e_pid e"
    using assms(2) by (auto simp: parse_line_def Let_def split: if_splits)
  then have "fields 8 l ! 6 \<in> set (fields 8 l)" by simp
  then have m: "list_all model_char (take 255 (fields 8 l ! 6))" using fields_free [OF assms(1)] by (simp add: list_all_take)
  have "state_of b \<in> {st_P, st_C, st_W}" for b by (simp add: state_of_def split: list.split)
  then show ?thesis using f(3) m strtol_range to_int32_range unfolding f(1)
    by (simp add: entry_ok_def parse_entry_def MODEL_MAX_def)
qed

lemma parse_line_one: "length (parse_line l) \<le> 1"
  by (simp add: parse_line_def Let_def)

lemma parse_lines_ok:
  "list_all (\<lambda>c. c \<noteq> 0) p \<Longrightarrow> list_all entry_ok (parse_lines room p) \<and> length (parse_lines room p) \<le> room"
proof (induction room p rule: parse_lines.induct)
  case (1 room p)
  let ?l = "takeWhile (\<lambda>c. c \<noteq> NL) p"
  have "list_all (\<lambda>c. c \<noteq> 0 \<and> c \<noteq> NL) ?l" using 1(2) by (auto simp: list_all_iff dest: set_takeWhileD)
  then have l: "list_all entry_ok (parse_line ?l)" "length (parse_line ?l) \<le> 1"
    using parse_line_ok parse_line_one by (auto simp: list_all_iff)
  show ?case
  proof (cases "p = [] \<or> room = 0")
    case True
    then show ?thesis by (subst (1 2) parse_lines.simps) auto
  next
    case False
    show ?thesis
    proof (cases "dropWhile (\<lambda>c. c \<noteq> NL) p")
      case Nil
      then show ?thesis using False l by (subst (1 2) parse_lines.simps) (simp add: Let_def del: dropWhile_eq_Nil_conv)
    next
      case (Cons c rest)
      have "set rest \<subseteq> set p" using set_dropWhileD [of _ "\<lambda>c. c \<noteq> NL" p] Cons by auto
      then have "list_all (\<lambda>c. c \<noteq> 0) rest" using 1(2) by (auto simp: list_all_iff)
      from 1(1) [OF False refl Cons this] show ?thesis using False l Cons
        by (subst (1 2) parse_lines.simps) (simp add: Let_def, linarith)
    qed
  qed
qed

lemma parsed_ok: "list_all entry_ok (parse inp) \<and> length (parse inp) \<le> REG_MAX_ENTRIES"
proof -
  have "list_all (\<lambda>c. c \<noteq> 0) (takeWhile (\<lambda>c. c \<noteq> 0) inp)" by (auto simp: list_all_iff dest: set_takeWhileD)
  then show ?thesis unfolding parse_def by (rule parse_lines_ok)
qed

text \<open>
  Property C39. Whatever bytes the registry file holds (torn lines, foreign text, numbers out of range,
  binary data), every entry \<^verbatim>\<open>parse\<close> hands on is one its C type can hold and \<^verbatim>\<open>serialise\<close> can
  write: a positive pid, a known state, a model below 256 bytes without separators, numbers in range;
  and there are at most 256 of them.
\<close>

theorem parse_well_typed: "list_all entry_ok (parse inp) \<and> length (parse inp) \<le> REG_MAX_ENTRIES"
  by (rule parsed_ok)

text \<open>
  A line with a ninth field is taken too, and read as its first eight: only a line with fewer than seven is dropped.
\<close>

lemma nine_fields_taken:
  assumes "entry_ok e" "length r < 500"
  shows "parse_line (line_body e @ TAB # r) = [e]"
proof -
  have m: "list_all (\<lambda>c. c \<noteq> TAB) (e_model e)" using assms by (auto simp: entry_ok_def list_all_iff model_char_def)
  have s: "list_all (\<lambda>c. c \<noteq> TAB) [e_state e]" using assms by (auto simp: entry_ok_def)
  have n: "(8 :: nat) = Suc (Suc (Suc (Suc (Suc (Suc (Suc (Suc 0)))))))" by simp
  have l: "line_body e @ TAB # r = dec_int (e_pid e) @ TAB # dec_int (e_seq e) @ TAB # dec_nat (unat (e_procstart e)) @ TAB
    # dec_nat (unat (e_since e)) @ TAB # [e_state e] @ TAB # dec_nat (unat (e_bytes e)) @ TAB
    # e_model e @ TAB # dec_int (e_priority e) @ TAB # r" by (simp add: line_body_def)
  have f: "fields 8 (line_body e @ TAB # r) = fields 8 (line_body e)"
    unfolding fields_line [OF assms(1)] l unfolding n
    by (simp only: fields_join [OF notab(1)] fields_join [OF notab(2)] fields_join [OF m] fields_join [OF s] fields.simps(1))
  have "length (fields 8 (line_body e)) = 8" unfolding fields_line [OF assms(1)] by simp
  moreover have "0 < e_pid e" using assms by (simp add: entry_ok_def)
  ultimately show ?thesis using line_fits [OF assms(1)] line_head [OF assms(1)] parse_entry_line [OF assms(1)] assms(2)
    by (simp add: parse_line_def Let_def REG_LINE_MAX_def f del: fields.simps)
qed

end
