(* ===== verification/Vram_Claim.thy ===== *)
theory Vram_Claim
  imports Vram_Text
begin

section \<open>The VRAM registry: claims, commits and releases (vramreg.c)\<close>

text \<open>
  The operating system's answers are inputs: the clock, which processes live and since when, what the
  device reports free, what the file system does. \<open>pf n a b\<close> is \<^verbatim>\<open>printf\<close>'s text of the quotient
  \<open>a / b\<close> with \<open>n\<close> decimals. The clock is read once for each access to the file.
\<close>

record os =
  os_now :: u64
  os_alive :: "int \<Rightarrow> bool"
  os_start :: "int \<Rightarrow> u64 option"

subsection \<open>Text for people\<close>

definition fmt_bytes :: "(nat \<Rightarrow> nat \<Rightarrow> nat \<Rightarrow> bytes) \<Rightarrow> u64 \<Rightarrow> bytes" where
  "fmt_bytes pf b = take 31
    (if b \<ge> 1000000000 then pf 1 (unat b) (10 ^ 9) @ ascii ''GB''
     else if b \<ge> 1000000 then pf 0 (unat b) (10 ^ 6) @ ascii ''MB''
     else dec_nat (unat b) @ ascii ''B'')"

text \<open>The text so far and the offset; the text is cut to the room left, and an offset at the capacity stays there.\<close>

definition err_add :: "nat \<Rightarrow> bytes \<Rightarrow> bytes \<times> nat \<Rightarrow> bytes \<times> nat" where
  "err_add cap t so = (case so of (s, off) \<Rightarrow>
     if off \<ge> cap then (s, cap)
     else (take off s @ take (cap - off - 1) t, if off + length t > cap then cap else off + length t))"

definition dec2 :: "nat \<Rightarrow> bytes" where
  "dec2 n = (let d = dec_nat n in replicate (2 - length d) 0x30 @ d)"

definition fmt_uptime :: "u64 \<Rightarrow> bytes" where
  "fmt_uptime secs = take 31
    (if secs \<ge> 3600 then dec_nat (unat (secs div 3600)) @ ascii ''h'' @ dec2 (unat ((secs mod 3600) div 60)) @ ascii ''m''
     else if secs \<ge> 60 then dec_nat (unat (secs div 60)) @ ascii ''m''
     else dec_nat (unat secs) @ ascii ''s'')"

text \<open>What follows the last separator.\<close>

definition basename :: "bytes \<Rightarrow> bytes" where
  "basename p = (if list_ex (\<lambda>c. c = 0x2f \<or> c = 0x5c) p
     then rev (takeWhile (\<lambda>c. c \<noteq> 0x2f \<and> c \<noteq> 0x5c) (rev p)) else p)"

definition model_label :: "bytes \<Rightarrow> bytes" where
  "model_label path =
    (if path = [] then ascii ''(unnamed)''
     else let out = take 255 (basename path); n = length out
          in if n > 5 \<and> drop (n - 5) out = ascii ''.gguf'' then take (n - 5) out else out)"

subsection \<open>File names\<close>

definition id_char :: "u8 \<Rightarrow> u8" where
  "id_char c = (if (c \<ge> 0x41 \<and> c \<le> 0x5a) \<or> (c \<ge> 0x61 \<and> c \<le> 0x7a) \<or> is_digit c \<or> c = 0x2e \<or> c = 0x2d \<or> c = 0x5f
     then c else 0x5f)"

definition registry_path :: "bytes option \<Rightarrow> bytes \<Rightarrow> bytes option \<Rightarrow> nat \<Rightarrow> bytes" where
  "registry_path env_dir runtime_dir gpu cap =
    (let dir = (case env_dir of Some d \<Rightarrow> if d = [] then runtime_dir else d | None \<Rightarrow> runtime_dir);
         id = map id_char (take 127 (case gpu of Some g \<Rightarrow> if g = [] then ascii ''unknown'' else g | None \<Rightarrow> ascii ''unknown''))
     in take (cap - 1) (dir @ ascii ''/xyntetik-vram-'' @ id @ ascii ''.reg''))"

definition yield_sentinel_path :: "bytes \<Rightarrow> int \<Rightarrow> nat \<Rightarrow> bytes" where
  "yield_sentinel_path reg pid cap =
    (let base = take 511 reg; n = length base;
         stem = (if n > 4 \<and> drop (n - 4) base = ascii ''.reg'' then take (n - 4) base else base)
     in take (cap - 1) (stem @ ascii ''.yield.'' @ dec_int pid))"

subsection \<open>reap\<close>

definition stale :: "os \<Rightarrow> reg_entry \<Rightarrow> bool" where
  "stale os e \<longleftrightarrow> \<not> os_alive os (e_pid e)
     \<or> e_procstart e \<noteq> 0 \<and> (case os_start os (e_pid e) of None \<Rightarrow> False | Some start \<Rightarrow> start \<noteq> e_procstart e)
     \<or> e_procstart e = 0 \<and> (e_state e = st_P \<or> e_state e = st_W) \<and> os_now os > e_since e \<and> os_now os - e_since e > 3600"

definition reap :: "os \<Rightarrow> reg_entry list \<Rightarrow> reg_entry list" where
  "reap os es = filter (\<lambda>e. \<not> stale os e) es"

subsection \<open>claim_rmw\<close>

record vram_status =
  st_holders :: nat
  st_held_bytes :: u64
  st_available :: u64

text \<open>\<open>c_err\<close> is \<open>None\<close> where the code has no buffer or a capacity of 0.\<close>

record claim_ctx =
  c_gpu :: "bytes option"
  c_model :: "bytes option"
  c_need :: u64
  c_priority :: int
  c_waiting :: bool
  c_pid :: int
  c_seq :: int
  c_procstart :: u64
  c_admitted :: bool
  c_nobody :: bool
  c_status :: "vram_status option"
  c_err :: "bytes option"
  c_err_cap :: nat

definition clean_model :: "bytes option \<Rightarrow> bytes" where
  "clean_model m = map (\<lambda>c. if c = TAB \<or> c = NL then 0x20 else c)
     (take (MODEL_MAX - 1) (case m of None \<Rightarrow> [] | Some s \<Rightarrow> s))"

definition claim_entry :: "os \<Rightarrow> claim_ctx \<Rightarrow> u8 \<Rightarrow> reg_entry" where
  "claim_entry os c st = \<lparr>e_pid = c_pid c, e_seq = c_seq c, e_procstart = c_procstart c, e_since = os_now os,
     e_state = st, e_bytes = c_need c, e_model = clean_model (c_model c), e_priority = c_priority c\<rparr>"

definition pending_bytes :: "reg_entry list \<Rightarrow> u64" where
  "pending_bytes es = sum_list (map e_bytes (filter (\<lambda>e. e_state e = st_P) es))"

definition own_marker :: "claim_ctx \<Rightarrow> reg_entry \<Rightarrow> bool" where
  "own_marker c e \<longleftrightarrow> e_state e = st_W \<and> e_pid e = c_pid c \<and> e_seq e = c_seq c"

definition outranks :: "claim_ctx \<Rightarrow> u64 \<Rightarrow> reg_entry \<Rightarrow> bool" where
  "outranks c avail e \<longleftrightarrow> e_state e = st_W \<and> e_priority e > c_priority c \<and> e_bytes e \<le> avail"

definition ledger_status :: "claim_ctx \<Rightarrow> u64 \<Rightarrow> reg_entry list \<Rightarrow> vram_status" where
  "ledger_status c avail es =
    (let others = filter (\<lambda>e. e_state e \<noteq> st_W \<and> e_pid e \<noteq> c_pid c) es
     in \<lparr>st_holders = length others, st_held_bytes = sum_list (map e_bytes others), st_available = avail\<rparr>)"

definition holder_text :: "(nat \<Rightarrow> nat \<Rightarrow> nat \<Rightarrow> bytes) \<Rightarrow> os \<Rightarrow> reg_entry \<Rightarrow> bytes" where
  "holder_text pf os e =
    NL # ascii ''  pid '' @ dec_int (e_pid e) @ ascii '' holding '' @ fmt_bytes pf (e_bytes e) @ ascii '' for ''
      @ model_label (e_model e) @ ascii '', up '' @ fmt_uptime (if os_now os > e_since e then os_now os - e_since e else 0)
      @ ascii '', priority '' @ dec_int (e_priority e) @ (if e_state e = st_P then ascii '' (loading)'' else [])"

fun list_holders :: "(nat \<Rightarrow> nat \<Rightarrow> nat \<Rightarrow> bytes) \<Rightarrow> os \<Rightarrow> nat \<Rightarrow> reg_entry list \<Rightarrow> bytes \<times> nat \<Rightarrow> bytes \<times> nat" where
  "list_holders pf os cap [] so = so"
| "list_holders pf os cap (e # es) so =
    (if snd so + 128 < cap
     then list_holders pf os cap es (if e_state e = st_W then so else err_add cap (holder_text pf os e) so)
     else so)"

definition need_text :: "(nat \<Rightarrow> nat \<Rightarrow> nat \<Rightarrow> bytes) \<Rightarrow> claim_ctx \<Rightarrow> u64 \<Rightarrow> bytes" where
  "need_text pf c avail = fmt_bytes pf (c_need c) @ ascii '' of VRAM requested on ''
     @ (case c_gpu c of None \<Rightarrow> ascii ''the GPU'' | Some g \<Rightarrow> g) @ ascii '', but only '' @ fmt_bytes pf avail @ ascii '' is available''"

definition pending_text :: "(nat \<Rightarrow> nat \<Rightarrow> nat \<Rightarrow> bytes) \<Rightarrow> u64 \<Rightarrow> u64 \<Rightarrow> bytes" where
  "pending_text pf avail pending =
    ascii '' ('' @ fmt_bytes pf avail @ ascii '' free, '' @ fmt_bytes pf pending @ ascii '' claimed but not yet allocated)''"

definition nobody_text :: bytes where
  "nobody_text = ascii ''.'' @ NL # ascii ''  No other runner is registered on this GPU ''
     @ [0xe2, 0x80, 0x94] @ ascii '' the memory is held by something outside runner'' @ [0x27] @ ascii ''s accounting.''"

definition hint_text :: bytes where
  "hint_text = NL # ascii ''  pass --wait-for-vram [SECONDS] to queue instead of failing''"

definition refusal_text :: "(nat \<Rightarrow> nat \<Rightarrow> nat \<Rightarrow> bytes) \<Rightarrow> os \<Rightarrow> claim_ctx \<Rightarrow> reg_entry list \<Rightarrow> u64 \<Rightarrow> u64 \<Rightarrow> nat \<Rightarrow> bytes" where
  "refusal_text pf os c es avail pending listed =
    (let cap = c_err_cap c;
         so = err_add cap (need_text pf c avail) ([], 0);
         so = (if pending \<noteq> 0 then err_add cap (pending_text pf avail pending) so else so);
         so = (if listed = 0 then err_add cap nobody_text so else so);
         so = list_holders pf os cap es so
     in fst (if \<not> c_waiting c \<and> snd so + 96 < cap then err_add cap hint_text so else so))"

definition claim_rmw :: "(nat \<Rightarrow> nat \<Rightarrow> nat \<Rightarrow> bytes) \<Rightarrow> os \<Rightarrow> bool \<Rightarrow> u64 \<Rightarrow> bytes \<Rightarrow> claim_ctx \<Rightarrow> bytes option \<times> claim_ctx" where
  "claim_rmw pf os mem free inp c =
    (let es = reap os (parse inp);
         es = (if c_waiting c then filter (\<lambda>e. \<not> own_marker c e) es else es);
         pending = pending_bytes es;
         avail = (if free > pending then free - pending else 0);
         c = c\<lparr>c_status := map_option (\<lambda>_. ledger_status c avail es) (c_status c)\<rparr>;
         outranked = (c_waiting c \<and> c_need c \<le> avail \<and> list_ex (outranks c avail) es)
     in if c_need c \<le> avail \<and> \<not> outranked \<and> length es < REG_MAX_ENTRIES
        then (serialise mem (es @ [claim_entry os c st_P]), c\<lparr>c_admitted := True\<rparr>)
        else let listed = length (filter (\<lambda>e. e_state e \<noteq> st_W) es);
                 es' = (if c_waiting c \<and> length es < REG_MAX_ENTRIES then es @ [claim_entry os c st_W] else es)
             in (serialise mem es',
                 c\<lparr>c_nobody := (listed = 0 \<and> c_need c > avail),
                   c_err := map_option (\<lambda>_. refusal_text pf os c es' avail pending listed) (c_err c)\<rparr>))"

subsection \<open>edit_rmw\<close>

record edit_ctx =
  x_pid :: int
  x_seq :: int
  x_bytes :: u64
  x_remove :: bool

definition mine :: "int \<Rightarrow> int \<Rightarrow> reg_entry \<Rightarrow> bool" where
  "mine pid seq e \<longleftrightarrow> e_pid e = pid \<and> e_seq e = seq"

fun edit_entries :: "edit_ctx \<Rightarrow> reg_entry list \<Rightarrow> reg_entry list" where
  "edit_entries x [] = []"
| "edit_entries x (e # es) =
    (if mine (x_pid x) (x_seq x) e \<and> x_remove x then edit_entries x es
     else (if mine (x_pid x) (x_seq x) e then e\<lparr>e_state := st_C, e_bytes := x_bytes x\<rparr> else e) # edit_entries x es)"

definition edit_rmw :: "os \<Rightarrow> bool \<Rightarrow> bytes \<Rightarrow> edit_ctx \<Rightarrow> bytes option \<times> edit_ctx" where
  "edit_rmw os mem inp x = (serialise mem (edit_entries x (reap os (parse inp))), x)"

subsection \<open>The table behind the file\<close>

definition claim_ok :: "claim_ctx \<Rightarrow> bool" where
  "claim_ok c \<longleftrightarrow> 0 < c_pid c \<and> c_pid c < 2 ^ 63 \<and> - (2 ^ 63) \<le> c_seq c \<and> c_seq c < 2 ^ 63
     \<and> - (2 ^ 31) \<le> c_priority c \<and> c_priority c < 2 ^ 31 \<and> (\<forall>m. c_model c = Some m \<longrightarrow> 0 \<notin> set m)"

definition table :: "os \<Rightarrow> claim_ctx \<Rightarrow> bytes \<Rightarrow> reg_entry list" where
  "table os c inp = filter (\<lambda>e. \<not> (c_waiting c \<and> own_marker c e)) (reap os (parse inp))"

definition pend :: "reg_entry list \<Rightarrow> nat" where
  "pend es = sum_list (map (\<lambda>e. unat (e_bytes e)) (filter (\<lambda>e. e_state e = st_P) es))"

lemma pend_simps [simp]:
  "pend [] = 0" "pend (e # es) = (if e_state e = st_P then unat (e_bytes e) else 0) + pend es"
  "pend (es @ fs) = pend es + pend fs"
  by (simp_all add: pend_def)

lemma pend_filter: "pend (filter Q es) \<le> pend es"
  by (induction es) auto

lemma pending_bytes_nat: "pend es < 2 ^ 64 \<Longrightarrow> unat (pending_bytes es) = pend es"
proof (induction es)
  case (Cons e es)
  have s: "pend es < 2 ^ 64" using Cons.prems by simp
  show ?case
  proof (cases "e_state e = st_P")
    case True
    have "unat (e_bytes e) + unat (pending_bytes es) < 2 ^ 64" using Cons.prems Cons.IH [OF s] True by simp
    then have "unat (e_bytes e + pending_bytes es) = unat (e_bytes e) + unat (pending_bytes es)"
      by (simp add: unat_word_ariths(1))
    then show ?thesis using True Cons.IH [OF s] by (simp add: pending_bytes_def)
  next
    case False
    then show ?thesis using Cons.IH [OF s] by (simp add: pending_bytes_def)
  qed
qed (simp add: pending_bytes_def)

lemma reap_ok: "list_all entry_ok (reap os (parse inp)) \<and> length (reap os (parse inp)) \<le> REG_MAX_ENTRIES"
  using parsed_ok [of inp] order_trans [OF length_filter_le [of "\<lambda>e. \<not> stale os e" "parse inp"]]
  unfolding reap_def list_all_iff by auto

lemma table_ok: "list_all entry_ok (table os c inp)" "length (table os c inp) \<le> REG_MAX_ENTRIES"
proof -
  show "list_all entry_ok (table os c inp)" using reap_ok [of os inp] by (auto simp: table_def list_all_iff)
  have "length (table os c inp) \<le> length (reap os (parse inp))" unfolding table_def by (rule length_filter_le)
  then show "length (table os c inp) \<le> REG_MAX_ENTRIES" using reap_ok [of os inp] by simp
qed

lemma claim_entry_ok: "claim_ok c \<Longrightarrow> st \<in> {st_P, st_C, st_W} \<Longrightarrow> entry_ok (claim_entry os c st)"
proof -
  assume c: "claim_ok c" and s: "st \<in> {st_P, st_C, st_W}"
  have "length (clean_model (c_model c)) < MODEL_MAX" by (simp add: clean_model_def MODEL_MAX_def split: option.split)
  moreover have "list_all model_char (clean_model (c_model c))"
    using c by (auto simp: clean_model_def claim_ok_def list_all_iff model_char_def split: option.splits dest: in_set_takeD)
  ultimately show ?thesis using c s by (simp add: entry_ok_def claim_entry_def claim_ok_def)
qed

text \<open>The decision of a poll, in numbers that do not wrap.\<close>

definition fits :: "u64 \<Rightarrow> reg_entry list \<Rightarrow> u64 \<Rightarrow> bool" where
  "fits free es b \<longleftrightarrow> b = 0 \<or> unat b + pend es \<le> unat free"

definition admits :: "os \<Rightarrow> u64 \<Rightarrow> bytes \<Rightarrow> claim_ctx \<Rightarrow> bool" where
  "admits os free inp c \<longleftrightarrow> (let es = table os c inp in
    fits free es (c_need c) \<and> length es < REG_MAX_ENTRIES
    \<and> (c_waiting c \<longrightarrow> (\<forall>e \<in> set es. e_state e = st_W \<and> e_priority e > c_priority c \<longrightarrow> \<not> fits free es (e_bytes e))))"

definition after_claim :: "os \<Rightarrow> u64 \<Rightarrow> bytes \<Rightarrow> claim_ctx \<Rightarrow> reg_entry list" where
  "after_claim os free inp c = (let es = table os c inp in
    es @ (if admits os free inp c then [claim_entry os c st_P]
          else if c_waiting c \<and> length es < REG_MAX_ENTRIES then [claim_entry os c st_W] else []))"

lemma avail_nat:
  fixes free p :: u64
  shows "unat (if free > p then free - p else 0) = unat free - unat p"
  by (simp add: word_less_nat_alt unat_sub word_le_nat_alt)

lemma avail_fits:
  assumes "pend es < 2 ^ 64" "avail = (if free > pending_bytes es then free - pending_bytes es else 0)"
  shows "b \<le> avail \<longleftrightarrow> fits free es b"
proof -
  have p: "unat (pending_bytes es) = pend es" using pending_bytes_nat assms(1) by simp
  have "unat avail = unat free - pend es" unfolding assms(2) avail_nat p ..
  moreover have "b = 0 \<longleftrightarrow> unat b = 0" by (simp add: unat_eq_0)
  ultimately show ?thesis unfolding fits_def word_le_nat_alt by linarith
qed

text \<open>One poll: what goes to the file, and what the caller learns.\<close>

lemma claim_rmw_poll:
  assumes "pend (table os c inp) < 2 ^ 64" "claim_rmw pf os mem free inp c = (out, c')"
  shows "out = serialise mem (after_claim os free inp c)"
    "c_admitted c' \<longleftrightarrow> c_admitted c \<or> admits os free inp c"
    "c_pid c' = c_pid c" "c_seq c' = c_seq c" "c_waiting c' = c_waiting c" "c_model c' = c_model c"
    "c_need c' = c_need c" "c_priority c' = c_priority c" "c_procstart c' = c_procstart c"
    "\<not> admits os free inp c \<Longrightarrow> c_nobody c' \<longleftrightarrow> (\<forall>e \<in> set (table os c inp). e_state e = st_W)
          \<and> \<not> fits free (table os c inp) (c_need c)"
proof -
  define es where "es = table os c inp"
  define avail where "avail = (if free > pending_bytes es then free - pending_bytes es else 0)"
  have p: "pend es < 2 ^ 64" using assms(1) by (simp add: es_def)
  note fit = avail_fits [OF p avail_def]
  have es: "(if c_waiting c then filter (\<lambda>e. \<not> own_marker c e) (reap os (parse inp)) else reap os (parse inp)) = es"
    by (simp add: es_def table_def)
  have adm: "admits os free inp c \<longleftrightarrow> c_need c \<le> avail \<and> \<not> (c_waiting c \<and> c_need c \<le> avail \<and> list_ex (outranks c avail) es)
      \<and> length es < REG_MAX_ENTRIES"
    by (auto simp: admits_def es_def [symmetric] fit outranks_def list_ex_iff Let_def)
  have oc: "outranks (c\<lparr>c_status := s\<rparr>) = outranks c" for s by (simp add: fun_eq_iff outranks_def)
  have ce: "claim_entry os (c\<lparr>c_status := s\<rparr>) = claim_entry os c" for s by (simp add: fun_eq_iff claim_entry_def)
  define c1 where "c1 = c\<lparr>c_status := map_option (\<lambda>_. ledger_status c avail es) (c_status c)\<rparr>"
  have c1: "claim_entry os c1 = claim_entry os c" "outranks c1 = outranks c" "c_need c1 = c_need c" "c_waiting c1 = c_waiting c"
    by (simp_all add: fun_eq_iff claim_entry_def outranks_def c1_def)
  have r: "(if admits os free inp c then (serialise mem (es @ [claim_entry os c st_P]), c1\<lparr>c_admitted := True\<rparr>)
      else let listed = length (filter (\<lambda>e. e_state e \<noteq> st_W) es);
               es' = (if c_waiting c \<and> length es < REG_MAX_ENTRIES then es @ [claim_entry os c st_W] else es)
           in (serialise mem es', c1\<lparr>c_nobody := (listed = 0 \<and> c_need c > avail),
                c_err := map_option (\<lambda>_. refusal_text pf os c1 es' avail (pending_bytes es) listed) (c_err c1)\<rparr>)) = (out, c')"
    using assms(2) unfolding claim_rmw_def Let_def es avail_def [symmetric] c1_def [symmetric] c1 adm [symmetric] .
  show "out = serialise mem (after_claim os free inp c)"
    using r by (cases "admits os free inp c") (auto simp: after_claim_def es_def [symmetric] Let_def split: if_splits)
  show "c_admitted c' \<longleftrightarrow> c_admitted c \<or> admits os free inp c"
    "c_pid c' = c_pid c" "c_seq c' = c_seq c" "c_waiting c' = c_waiting c" "c_model c' = c_model c"
    "c_need c' = c_need c" "c_priority c' = c_priority c" "c_procstart c' = c_procstart c"
    using r by (cases "admits os free inp c"; auto simp: c1_def Let_def)+
  show "c_nobody c' \<longleftrightarrow> (\<forall>e \<in> set (table os c inp). e_state e = st_W) \<and> \<not> fits free (table os c inp) (c_need c)"
    if "\<not> admits os free inp c"
    using r that by (auto simp: fit [symmetric] es_def [symmetric] filter_empty_conv not_le Let_def)
qed

lemma claim_parsed:
  assumes "claim_ok c" "pend (table os c inp) < 2 ^ 64" "claim_rmw pf os True free inp c = (Some out, c')"
  shows "parse out = after_claim os free inp c"
proof (rule parse_serialised)
  show "list_all entry_ok (after_claim os free inp c)"
    using table_ok(1) [of os c inp] claim_entry_ok [OF assms(1)] by (simp add: after_claim_def Let_def)
  show "length (after_claim os free inp c) \<le> REG_MAX_ENTRIES"
    using table_ok(2) [of os c inp] by (simp add: after_claim_def Let_def admits_def)
  show "serialise True (after_claim os free inp c) = Some out" using claim_rmw_poll(1) [OF assms(2,3)] by simp
qed


definition os0 :: os where
  "os0 = \<lparr>os_now = 1700000100, os_alive = (\<lambda>p. p = 4021 \<or> p = 50), os_start = (\<lambda>p. if p = 4021 then Some 77 else Some 90)\<rparr>"

definition claim0 :: claim_ctx where
  "claim0 = \<lparr>c_gpu = None, c_model = Some (ascii ''m''), c_need = 3000000000, c_priority = 0, c_waiting = True, c_pid = 50, c_seq = 1,
     c_procstart = 90, c_admitted = False, c_nobody = False, c_status = None, c_err = None, c_err_cap = 0\<rparr>"


subsection \<open>The refusal\<close>

definition err_inv :: "nat \<Rightarrow> bytes \<times> nat \<Rightarrow> bool" where
  "err_inv cap so \<longleftrightarrow> snd so < cap \<and> length (fst so) = snd so \<or> snd so = cap \<and> length (fst so) = cap - 1"

lemma err_add_inv: "err_inv cap so \<Longrightarrow> 0 < cap \<Longrightarrow> err_inv cap (err_add cap t so)"
  by (cases so) (auto simp: err_inv_def err_add_def)

lemma err_add_room: "length s + length t < cap \<Longrightarrow> err_add cap t (s, length s) = (s @ t, length (s @ t))"
  by (simp add: err_add_def)

lemma list_holders_inv: "err_inv cap so \<Longrightarrow> 0 < cap \<Longrightarrow> err_inv cap (list_holders pf os cap es so)"
  by (induction es arbitrary: so) (simp_all add: err_add_inv)

abbreviation holders :: "reg_entry list \<Rightarrow> reg_entry list" where
  "holders es \<equiv> filter (\<lambda>e. e_state e \<noteq> st_W) es"

lemma list_holders_room:
  "length s + length (concat (map (holder_text pf os) (holders es))) + 128 < cap \<Longrightarrow>
   list_holders pf os cap es (s, length s) = (s @ concat (map (holder_text pf os) (holders es)),
      length (s @ concat (map (holder_text pf os) (holders es))))"
proof (induction es arbitrary: s)
  case (Cons e es)
  show ?case
  proof (cases "e_state e = st_W")
    case True
    then show ?thesis using Cons by simp
  next
    case False
    let ?t = "holder_text pf os e"
    have "err_add cap ?t (s, length s) = (s @ ?t, length (s @ ?t))" by (rule err_add_room) (use Cons.prems False in simp)
    moreover have "length (s @ ?t) + length (concat (map (holder_text pf os) (holders es))) + 128 < cap"
      using Cons.prems False by simp
    from Cons.IH [OF this] have "list_holders pf os cap es (s @ ?t, length (s @ ?t))
        = (s @ concat (map (holder_text pf os) (holders (e # es))), length (s @ concat (map (holder_text pf os) (holders (e # es)))))"
      using False by simp
    ultimately show ?thesis using Cons.prems False by simp
  qed
qed simp

text \<open>
  The refusal message never outgrows the caller's buffer, whatever the registry, the GPU id
  and the models hold; and in a buffer large enough for it, it is complete: it names every process that
  holds memory (this one's own claims included) and none that only waits, says so when nobody does, and
  tells a caller that did not queue that it could.
\<close>

theorem refusal_complete:
  assumes "0 < c_err_cap c"
  shows "length (refusal_text pf os c es avail pending listed) < c_err_cap c
    \<and> (let full = need_text pf c avail @ (if pending \<noteq> 0 then pending_text pf avail pending else [])
             @ (if listed = 0 then nobody_text else []) @ concat (map (holder_text pf os) (holders es))
             @ (if c_waiting c then [] else hint_text)
       in length full + 128 < c_err_cap c \<longrightarrow> refusal_text pf os c es avail pending listed = full)"
proof -
  define a where "a = need_text pf c avail"
  define b where "b = (if pending \<noteq> 0 then pending_text pf avail pending else [])"
  define n where "n = (if listed = 0 then nobody_text else [])"
  define h where "h = concat (map (holder_text pf os) (holders es))"
  define q where "q = (if c_waiting c then [] else hint_text)"
  have i0: "err_inv (c_err_cap c) ([], 0)" using assms by (simp add: err_inv_def)
  have l: "err_inv (c_err_cap c) so \<Longrightarrow> length (fst so) < c_err_cap c" for so using assms by (auto simp: err_inv_def)
  have "length (refusal_text pf os c es avail pending listed) < c_err_cap c"
    unfolding refusal_text_def Let_def using i0 assms by (intro l) (simp add: err_add_inv list_holders_inv)
  moreover have "refusal_text pf os c es avail pending listed = a @ b @ n @ h @ q"
    if f: "length (a @ b @ n @ h @ q) + 128 < c_err_cap c"
  proof -
    let ?c = "c_err_cap c"
    have s1: "err_add ?c (need_text pf c avail) ([], 0) = (a, length a)" using err_add_room [of "[]" a ?c] f by (simp add: a_def)
    have s2: "(if pending \<noteq> 0 then err_add ?c (pending_text pf avail pending) (a, length a) else (a, length a)) = (a @ b, length (a @ b))"
      using err_add_room [of a b ?c] f by (cases "pending = 0") (simp_all add: b_def)
    have s3: "(if listed = 0 then err_add ?c nobody_text (a @ b, length (a @ b)) else (a @ b, length (a @ b))) = (a @ b @ n, length (a @ b @ n))"
      using err_add_room [of "a @ b" n ?c] f by (cases "listed = 0") (simp_all add: n_def)
    have s4: "list_holders pf os ?c es (a @ b @ n, length (a @ b @ n)) = (a @ b @ n @ h, length (a @ b @ n @ h))"
      using list_holders_room [of "a @ b @ n" pf os es ?c] f by (simp add: h_def)
    have "length hint_text < 96" by (simp add: hint_text_def)
    then have "fst (if \<not> c_waiting c \<and> length (a @ b @ n @ h) + 96 < ?c then err_add ?c hint_text (a @ b @ n @ h, length (a @ b @ n @ h))
        else (a @ b @ n @ h, length (a @ b @ n @ h))) = a @ b @ n @ h @ q"
      using err_add_room [of "a @ b @ n @ h" q ?c] f by (cases "c_waiting c") (simp_all add: q_def)
    then show ?thesis unfolding refusal_text_def Let_def s1 s2 s3 s4 by (simp only: snd_conv)
  qed
  ultimately show ?thesis unfolding a_def b_def n_def h_def q_def Let_def by blast
qed

text \<open>
  Of 9 GB the device reports free, 5 GB are claimed by a load in flight: the message calls the
  remaining 4 GB \<open>free\<close>, beside the 5 GB it has already taken off.
\<close>

lemma free_figure_is_net:
  "refusal_text (\<lambda>_ a b. dec_nat (a div b)) os0 (claim0\<lparr>c_need := 6000000000, c_err_cap := 200\<rparr>)
      [entry0] (9000000000 - pending_bytes [entry0]) (pending_bytes [entry0]) 1
    = ascii ''6GB of VRAM requested on the GPU, but only 4GB is available (4GB free, 5GB claimed but not yet allocated)''"
proof -
  have p: "pending_bytes [entry0] = 5000000000" by (simp add: pending_bytes_def entry0_def)
  have n: "need_text (\<lambda>_ a b. dec_nat (a div b)) (claim0\<lparr>c_need := 6000000000, c_err_cap := 200\<rparr>) 4000000000
      = ascii ''6GB of VRAM requested on the GPU, but only 4GB is available''"
    by (simp add: need_text_def claim0_def fmt_bytes_def dec_nat.simps ascii_def of_char_of)
  have q: "pending_text (\<lambda>_ a b. dec_nat (a div b)) 4000000000 5000000000 = ascii '' (4GB free, 5GB claimed but not yet allocated)''"
    by (simp add: pending_text_def fmt_bytes_def dec_nat.simps ascii_def of_char_of)
  have w: "c_waiting claim0" by (simp add: claim0_def)
  show ?thesis unfolding refusal_text_def Let_def p
    by (simp add: n q w err_add_def) (simp add: ascii_def)
qed

end
