(* ===== verification/Vram_Lease.thy ===== *)
theory Vram_Lease
  imports Vram_Claim
begin

section \<open>The VRAM registry: waiting, leases and requests to yield (vramreg.c, compat.c)\<close>

text \<open>
  \<^verbatim>\<open>plat_file_rmw\<close> is the POSIX one of compat.c. What the file system does is an input: whether the
  file opens and reads, how many bytes of the update land before an error, whether the file can be cut.
\<close>

record file_io =
  io_open :: bool
  io_file :: bytes
  io_read :: bool
  io_buf :: bool
  io_inject :: bool
  io_landed :: "nat option"
  io_truncate :: bool

definition plat_file_rmw :: "file_io \<Rightarrow> (bytes \<Rightarrow> 'u \<Rightarrow> bytes option \<times> 'u) \<Rightarrow> 'u \<Rightarrow> bool \<times> 'u \<times> bytes" where
  "plat_file_rmw io fn ud =
    (let old = io_file io in
     if \<not> io_open io then (False, ud, old)
     else if \<not> io_read io \<or> \<not> length old < 2 ^ 20 \<or> (old \<noteq> [] \<and> \<not> io_buf io) then (False, ud, old)
     else case fn old ud of
       (None, ud) \<Rightarrow> (True, ud, old)
     | (Some out, ud) \<Rightarrow>
         let text = takeWhile (\<lambda>c. c \<noteq> 0) out; n = length text in
         if io_inject io then (False, ud, old)
         else let landed = (case io_landed io of Some k \<Rightarrow> min k n | None \<Rightarrow> n) in
         if landed < n then (False, ud, take landed text @ drop landed old)
         else if io_truncate io then (True, ud, text) else (False, ud, text @ drop n old))"

subsection \<open>vram_claim\<close>

record vram_lease =
  l_path :: bytes
  l_pid :: int
  l_seq :: int
  l_bytes :: u64

record poll =
  p_io :: file_io
  p_os :: os
  p_mem :: bool
  p_free :: u64
  p_late :: bool
  p_stop :: "bool list"

record undo =
  r_io :: file_io
  r_os :: os
  r_mem :: bool

definition set_err :: "bytes \<Rightarrow> claim_ctx \<Rightarrow> claim_ctx" where
  "set_err t c = c\<lparr>c_err := map_option (\<lambda>_. take (c_err_cap c - 1) t) (c_err c)\<rparr>"

definition one_poll :: "(nat \<Rightarrow> nat \<Rightarrow> nat \<Rightarrow> bytes) \<Rightarrow> poll \<Rightarrow> claim_ctx \<Rightarrow> claim_ctx \<times> bytes" where
  "one_poll pf p c =
    (case plat_file_rmw (p_io p) (claim_rmw pf (p_os p) (p_mem p) (p_free p)) (c\<lparr>c_admitted := False\<rparr>) of
       (ok, c, file) \<Rightarrow> (if ok then c else set_err [] (c\<lparr>c_admitted := True\<rparr>), file))"

datatype claim_end = Admitted | Refused | Cancelled | Still_Waiting

text \<open>The queue: one element of the list for each attempt; the files left behind are kept.\<close>

fun claim_loop :: "(nat \<Rightarrow> nat \<Rightarrow> nat \<Rightarrow> bytes) \<Rightarrow> poll list \<Rightarrow> claim_ctx \<Rightarrow> claim_end \<times> claim_ctx \<times> bytes list" where
  "claim_loop pf [] c = (Still_Waiting, c, [])"
| "claim_loop pf (p # ps) c =
    (case one_poll pf p c of (c, file) \<Rightarrow>
       if c_admitted c then (Admitted, c, [file])
       else if c_waiting c \<and> c_nobody c then (Refused, c, [file])
       else if p_late p then (Refused, c, [file])
       else if list_ex (\<lambda>b. b) (take 10 (p_stop p)) then (Cancelled, set_err (ascii ''vram wait cancelled'') c, [file])
       else case claim_loop pf ps c of (e, c, files) \<Rightarrow> (e, c, file # files))"

definition registry_rollback :: "undo \<Rightarrow> int \<Rightarrow> int \<Rightarrow> bytes" where
  "registry_rollback r pid seq =
    snd (snd (plat_file_rmw (r_io r) (edit_rmw (r_os r) (r_mem r))
      \<lparr>x_pid = pid, x_seq = seq, x_bytes = 0, x_remove = True\<rparr>))"

definition claim_init :: "bytes option \<Rightarrow> bytes option \<Rightarrow> u64 \<Rightarrow> int \<Rightarrow> int \<Rightarrow> int \<Rightarrow> int \<Rightarrow> u64 option \<Rightarrow> bool \<Rightarrow> bytes option \<Rightarrow> nat \<Rightarrow> claim_ctx" where
  "claim_init gpu model need priority wait_secs pid seq start has_status err err_cap =
    \<lparr>c_gpu = gpu, c_model = model, c_need = need, c_priority = priority, c_waiting = (wait_secs > 0),
     c_pid = pid, c_seq = seq, c_procstart = (case start of Some s \<Rightarrow> s | None \<Rightarrow> 0),
     c_admitted = False, c_nobody = False,
     c_status = (if has_status then Some \<lparr>st_holders = 0, st_held_bytes = 0, st_available = 0\<rparr> else None),
     c_err = (if err_cap = 0 then None else map_option (\<lambda>_. []) err), c_err_cap = err_cap\<rparr>"

text \<open>\<open>seq\<close> is the number the process's atomic counter gives this call; \<open>lease_mem\<close> the result of the
  lease's allocation.\<close>

definition vram_claim :: "(nat \<Rightarrow> nat \<Rightarrow> nat \<Rightarrow> bytes) \<Rightarrow> bytes \<Rightarrow> bool \<Rightarrow> undo \<Rightarrow> poll list \<Rightarrow> claim_ctx
    \<Rightarrow> vram_lease option \<times> claim_end \<times> claim_ctx \<times> bytes list" where
  "vram_claim pf path lease_mem r ps c =
    (case claim_loop pf ps c of
       (Admitted, c, files) \<Rightarrow>
         if lease_mem then (Some \<lparr>l_path = take 511 path, l_pid = c_pid c, l_seq = c_seq c, l_bytes = c_need c\<rparr>, Admitted, c, files)
         else (None, Admitted, set_err (ascii ''out of memory creating vram lease'') c, files @ [registry_rollback r (c_pid c) (c_seq c)])
     | (Still_Waiting, c, files) \<Rightarrow> (None, Still_Waiting, c, files)
     | (e, c, files) \<Rightarrow> (None, e, c, if c_waiting c then files @ [registry_rollback r (c_pid c) (c_seq c)] else files))"

subsection \<open>Commit and release\<close>

definition vram_commit :: "undo \<Rightarrow> vram_lease option \<Rightarrow> u64 \<Rightarrow> vram_lease option \<times> bytes" where
  "vram_commit r l actual =
    (case l of None \<Rightarrow> (None, io_file (r_io r))
     | Some l \<Rightarrow> (Some (l\<lparr>l_bytes := actual\<rparr>),
         snd (snd (plat_file_rmw (r_io r) (edit_rmw (r_os r) (r_mem r))
           \<lparr>x_pid = l_pid l, x_seq = l_seq l, x_bytes = actual, x_remove = False\<rparr>))))"

definition vram_release :: "undo \<Rightarrow> vram_lease option \<Rightarrow> bytes" where
  "vram_release r l =
    (case l of None \<Rightarrow> io_file (r_io r)
     | Some l \<Rightarrow> snd (snd (plat_file_rmw (r_io r) (edit_rmw (r_os r) (r_mem r))
         \<lparr>x_pid = l_pid l, x_seq = l_seq l, x_bytes = 0, x_remove = True\<rparr>)))"

subsection \<open>Requests to yield\<close>

text \<open>The files by their paths; the signal is that the file is there.\<close>

definition touch_rmw :: "bool \<Rightarrow> bytes \<Rightarrow> unit \<Rightarrow> bytes option \<times> unit" where
  "touch_rmw mem inp ud = (if mem then Some (ascii ''1'') else None, ud)"

definition vram_request_yield ::
    "file_io \<Rightarrow> bool \<Rightarrow> (bytes \<rightharpoonup> bytes) \<Rightarrow> bytes option \<Rightarrow> bytes \<Rightarrow> bytes option \<Rightarrow> int \<Rightarrow> bool \<times> (bytes \<rightharpoonup> bytes)" where
  "vram_request_yield io mem fs env_dir runtime_dir gpu pid =
    (let path = yield_sentinel_path (registry_path env_dir runtime_dir gpu 512) pid 560;
         io = io\<lparr>io_file := (case fs path of Some f \<Rightarrow> f | None \<Rightarrow> [])\<rparr>;
         (ok, _, file) = plat_file_rmw io (touch_rmw mem) ()
     in (ok, if io_open io then fs(path \<mapsto> file) else fs))"

definition vram_yield_requested :: "(bytes \<rightharpoonup> bytes) \<Rightarrow> vram_lease option \<Rightarrow> bool" where
  "vram_yield_requested fs l =
    (case l of None \<Rightarrow> False | Some l \<Rightarrow> fs (yield_sentinel_path (l_path l) (l_pid l) 560) \<noteq> None)"

definition vram_yield_clear :: "(bytes \<rightharpoonup> bytes) \<Rightarrow> vram_lease option \<Rightarrow> (bytes \<rightharpoonup> bytes)" where
  "vram_yield_clear fs l =
    (case l of None \<Rightarrow> fs | Some l \<Rightarrow> fs(yield_sentinel_path (l_path l) (l_pid l) 560 := None))"

subsection \<open>What an update does to the file\<close>

text \<open>
  An update that reports success leaves exactly what was computed from the file it read; one that
  fails leaves the file, or a prefix of the new text followed by the old file's rest.
\<close>

lemma rmw_outcome:
  assumes "plat_file_rmw io fn ud = (ok, ud', file)"
  shows "ok \<Longrightarrow> \<exists>out. fn (io_file io) ud = (out, ud')
      \<and> file = (case out of None \<Rightarrow> io_file io | Some t \<Rightarrow> takeWhile (\<lambda>c. c \<noteq> 0) t)"
    "\<not> ok \<Longrightarrow> \<exists>new. file = new @ drop (length new) (io_file io)"
proof -
  show "\<exists>out. fn (io_file io) ud = (out, ud') \<and> file = (case out of None \<Rightarrow> io_file io | Some t \<Rightarrow> takeWhile (\<lambda>c. c \<noteq> 0) t)" if "ok"
    using assms that by (auto simp: plat_file_rmw_def Let_def split: if_splits prod.splits option.splits)
  have t: "\<exists>new. take k t @ drop k f = new @ drop (length new) f" if "min k (length t) < length t" for k t and f :: bytes
    using that by (intro exI [of _ "take k t"]) simp
  show "\<exists>new. file = new @ drop (length new) (io_file io)" if "\<not> ok"
    using assms that by (auto simp: plat_file_rmw_def Let_def split: if_splits prod.splits option.splits intro: t exI [of _ "[]"])
qed

definition io_good :: "file_io \<Rightarrow> bool" where
  "io_good io \<longleftrightarrow> io_open io \<and> io_read io \<and> length (io_file io) < 2 ^ 20 \<and> io_buf io \<and> \<not> io_inject io
     \<and> io_landed io = None \<and> io_truncate io"

lemma rmw_good:
  assumes "io_good io" "fn (io_file io) ud = (Some out, ud')"
  shows "plat_file_rmw io fn ud = (True, ud', takeWhile (\<lambda>c. c \<noteq> 0) out)"
  using assms by (simp add: io_good_def plat_file_rmw_def)

lemma parse_c_string: "parse (takeWhile (\<lambda>c. c \<noteq> 0) out) = parse out"
  by (simp add: parse_def)

subsection \<open>No residue\<close>

definition same_claim :: "claim_ctx \<Rightarrow> claim_ctx \<Rightarrow> bool" where
  "same_claim c c' \<longleftrightarrow> c_pid c' = c_pid c \<and> c_seq c' = c_seq c \<and> c_waiting c' = c_waiting c \<and> c_model c' = c_model c
     \<and> c_need c' = c_need c \<and> c_priority c' = c_priority c \<and> c_procstart c' = c_procstart c"

lemma same_simps [simp]:
  "same_claim c c" "same_claim c (set_err t d) = same_claim c d" "same_claim c (d\<lparr>c_admitted := b\<rparr>) = same_claim c d"
  "same_claim (d\<lparr>c_admitted := b\<rparr>) c = same_claim d c" "c_admitted (set_err t d) = c_admitted d"
  by (simp_all add: same_claim_def set_err_def)

lemma same_trans: "same_claim a b \<Longrightarrow> same_claim b c \<Longrightarrow> same_claim a c"
  by (simp add: same_claim_def)

lemma same_table: "same_claim c d \<Longrightarrow> table os d inp = table os c inp"
  by (simp add: same_claim_def table_def own_marker_def [abs_def])

lemma same_entry: "same_claim c d \<Longrightarrow> claim_entry os d = claim_entry os c"
  by (simp add: same_claim_def claim_entry_def fun_eq_iff)

definition tail_of :: "os \<Rightarrow> claim_ctx \<Rightarrow> bool \<Rightarrow> reg_entry list \<Rightarrow> reg_entry list" where
  "tail_of os c adm es = (if adm then [claim_entry os c st_P]
     else if c_waiting c \<and> length es < REG_MAX_ENTRIES then [claim_entry os c st_W] else [])"

lemma claim_rmw_shape:
  assumes "claim_rmw pf os mem free inp c = (out, c')" "\<not> c_admitted c"
  shows "same_claim c c'" "out = serialise mem (table os c inp @ tail_of os c (c_admitted c') (table os c inp))"
    "c_admitted c' \<Longrightarrow> length (table os c inp) < REG_MAX_ENTRIES"
proof -
  define es where "es = table os c inp"
  have es: "(if c_waiting c then filter (\<lambda>e. \<not> own_marker c e) (reap os (parse inp)) else reap os (parse inp)) = es"
    by (simp add: es_def table_def)
  have ce: "claim_entry os (c\<lparr>c_status := s\<rparr>) = claim_entry os c" for s by (simp add: fun_eq_iff claim_entry_def)
  note r = assms(1) [unfolded claim_rmw_def Let_def es]
  show "same_claim c c'" using r by (auto simp: same_claim_def split: if_splits)
  show "out = serialise mem (table os c inp @ tail_of os c (c_admitted c') (table os c inp))"
    using r assms(2) unfolding es_def [symmetric] by (auto simp: tail_of_def ce split: if_splits)
  show "length (table os c inp) < REG_MAX_ENTRIES" if "c_admitted c'"
    using r assms(2) that unfolding es_def [symmetric] by (auto split: if_splits)
qed

definition clear_file :: "claim_ctx \<Rightarrow> bytes \<Rightarrow> bool" where
  "clear_file c f \<longleftrightarrow> (\<forall>e \<in> set (parse f). mine (c_pid c) (c_seq c) e \<longrightarrow> c_waiting c \<and> e_state e = st_W)"

lemma table_clear: "clear_file c inp \<Longrightarrow> e \<in> set (table os c inp) \<Longrightarrow> \<not> mine (c_pid c) (c_seq c) e"
  by (auto simp: table_def reap_def clear_file_def mine_def own_marker_def)

definition poll_ok :: "claim_ctx \<Rightarrow> poll \<Rightarrow> bool" where
  "poll_ok c p \<longleftrightarrow> io_good (p_io p) \<and> p_mem p \<and> clear_file c (io_file (p_io p))"

text \<open>One poll over a registry that works.\<close>

lemma one_poll_ok:
  assumes "one_poll pf p c = (c', file)" "poll_ok c p" "claim_ok c"
  shows "same_claim c c'"
    "parse file = table (p_os p) c (io_file (p_io p)) @ tail_of (p_os p) c (c_admitted c') (table (p_os p) c (io_file (p_io p)))"
proof -
  let ?c = "c\<lparr>c_admitted := False\<rparr>" and ?f = "io_file (p_io p)"
  obtain o' d where r: "claim_rmw pf (p_os p) (p_mem p) (p_free p) ?f ?c = (o', d)"
    by (cases "claim_rmw pf (p_os p) (p_mem p) (p_free p) ?f ?c")
  have sc: "same_claim c ?c" by simp
  note sh = claim_rmw_shape [OF r, simplified]
  let ?es = "table (p_os p) c ?f @ tail_of (p_os p) c (c_admitted d) (table (p_os p) c ?f)"
  have t: "tail_of (p_os p) ?c = tail_of (p_os p) c" by (simp add: fun_eq_iff tail_of_def claim_entry_def)
  have o: "o' = serialise True ?es" using sh(2) assms(2) by (simp add: same_table [OF sc] t poll_ok_def)
  then obtain out where out: "o' = Some out" by (simp add: serialise_def)
  have "list_all entry_ok ?es" using table_ok(1) claim_entry_ok [OF assms(3)] by (simp add: tail_of_def)
  moreover have "length ?es \<le> REG_MAX_ENTRIES"
    using table_ok(2) [of "p_os p" c ?f] sh(3) by (auto simp: tail_of_def same_table [OF sc] Suc_le_eq)
  ultimately have pa: "parse out = ?es" by (rule parse_serialised) (use o out in simp)
  have "one_poll pf p c = (d, takeWhile (\<lambda>c. c \<noteq> 0) out)"
    using rmw_good [of "p_io p" "claim_rmw pf (p_os p) (p_mem p) (p_free p)" ?c] r out assms(2) by (simp add: one_poll_def poll_ok_def)
  then show "same_claim c c'" "parse file = table (p_os p) c ?f @ tail_of (p_os p) c (c_admitted c') (table (p_os p) c ?f)"
    using assms(1) sh(1) pa by (simp_all add: parse_c_string)
qed

lemma claim_loop_leaves:
  assumes "claim_loop pf ps c = (e, c', files)" "\<forall>p \<in> set ps. poll_ok c p" "claim_ok c" "e \<noteq> Still_Waiting"
  shows "same_claim c c' \<and> (e = Admitted \<longrightarrow> (\<exists>os. filter (mine (c_pid c) (c_seq c)) (parse (last files)) = [claim_entry os c st_P]))
    \<and> (e \<noteq> Admitted \<and> \<not> c_waiting c \<longrightarrow> (\<forall>e \<in> set (parse (last files)). \<not> mine (c_pid c) (c_seq c) e)) \<and> files \<noteq> []"
  using assms
proof (induction ps arbitrary: c files)
  case (Cons p ps)
  let ?f = "io_file (p_io p)"
  obtain d fl where o: "one_poll pf p c = (d, fl)" by (cases "one_poll pf p c")
  have pk: "poll_ok c p" using Cons.prems(2) by simp
  note op = one_poll_ok [OF o pk Cons.prems(3)]
  have none: "filter (mine (c_pid c) (c_seq c)) (table (p_os p) c ?f) = []"
    using pk by (auto simp: filter_empty_conv poll_ok_def dest: table_clear)
  have own: "mine (c_pid c) (c_seq c) (claim_entry os c st)" for os st by (simp add: mine_def claim_entry_def)
  show ?case
  proof (cases "c_admitted d")
    case True
    then have "e = Admitted" "c' = d" "files = [fl]" using Cons.prems(1) o by simp_all
    then show ?thesis using op none own True by (auto simp: tail_of_def)
  next
    case False
    show ?thesis
    proof (cases "c_waiting d \<and> c_nobody d \<or> p_late p \<or> list_ex (\<lambda>b. b) (take 10 (p_stop p))")
      case True
      then have "e \<noteq> Admitted" "same_claim c c'" "files = [fl]" using Cons.prems(1) o False op(1) by (auto split: if_splits)
      then show ?thesis using op(2) none False by (auto simp: tail_of_def filter_empty_conv)
    next
      case go: False
      then obtain files' where l: "claim_loop pf ps d = (e, c', files')" "files = fl # files'"
        using Cons.prems(1) o False by (auto split: prod.splits)
      have s: "c_pid d = c_pid c" "c_seq d = c_seq c" "c_waiting d = c_waiting c" using op(1) by (simp_all add: same_claim_def)
      have ok: "claim_ok d" "\<forall>p \<in> set ps. poll_ok d p"
        using Cons.prems(2,3) op(1) by (auto simp: same_claim_def claim_ok_def poll_ok_def clear_file_def)
      from Cons.IH [OF l(1) ok(2,1) Cons.prems(4)] show ?thesis
        using same_trans [OF op(1)] same_entry [OF op(1)] l(2) s by (auto simp: fun_eq_iff)
    qed
  qed
qed simp

lemma claim_loop_ends: "claim_loop pf ps c = (e, c', files) \<Longrightarrow> p \<in> set ps \<Longrightarrow> p_late p \<Longrightarrow> e \<noteq> Still_Waiting"
  by (induction ps arbitrary: c files) (auto split: prod.splits if_splits)

lemma edit_removes: "e \<in> set (edit_entries x es) \<Longrightarrow> x_remove x \<Longrightarrow> \<not> mine (x_pid x) (x_seq x) e \<and> e \<in> set es"
  by (induction es) (auto split: if_splits)

lemma rollback_clear:
  assumes "io_good (r_io r)" "r_mem r"
  shows "\<forall>e \<in> set (parse (registry_rollback r pid seq)). \<not> mine pid seq e"
proof -
  let ?x = "\<lparr>x_pid = pid, x_seq = seq, x_bytes = 0, x_remove = True\<rparr>"
  let ?es = "edit_entries ?x (reap (r_os r) (parse (io_file (r_io r))))"
  have le: "length (edit_entries ?x es) \<le> length es" for es by (induction es) auto
  have "list_all entry_ok ?es" using reap_ok [of "r_os r"] edit_removes [of _ ?x] by (auto simp: list_all_iff)
  moreover have "length ?es \<le> REG_MAX_ENTRIES" using le reap_ok order_trans by blast
  moreover obtain out where o: "serialise True ?es = Some out" by (simp add: serialise_def)
  ultimately have "parse out = ?es" by (rule parse_serialised)
  moreover have "registry_rollback r pid seq = takeWhile (\<lambda>c. c \<noteq> 0) out"
    using rmw_good [OF assms(1), of "edit_rmw (r_os r) (r_mem r)" ?x] o assms(2) by (simp add: registry_rollback_def edit_rmw_def)
  ultimately show ?thesis using edit_removes [of _ ?x] by (auto simp: parse_c_string)
qed


definition io0 :: "bytes \<Rightarrow> file_io" where
  "io0 f = \<lparr>io_open = True, io_file = f, io_read = True, io_buf = True, io_inject = False, io_landed = None, io_truncate = True\<rparr>"

definition poll0 :: poll where
  "poll0 = \<lparr>p_io = io0 [], p_os = os0, p_mem = True, p_free = 9000000000, p_late = True, p_stop = []\<rparr>"


subsection \<open>A request reaches the holder\<close>

lemma yield_reaches_holder:
  assumes "vram_request_yield io mem fs env_dir runtime_dir gpu pid = (True, fs')"
    "l_path l = take 511 (registry_path env_dir runtime_dir gpu 512)" "l_pid l = pid"
  shows "vram_yield_requested fs' (Some l) \<and> \<not> vram_yield_requested (vram_yield_clear fs' (Some l)) (Some l)"
proof -
  have p: "take 511 (registry_path env_dir runtime_dir gpu 512) = registry_path env_dir runtime_dir gpu 512"
    unfolding registry_path_def Let_def take_take by (rule arg_cong [where f = "\<lambda>n. take n _"]) simp
  show ?thesis using assms
    by (auto simp: vram_request_yield_def vram_yield_requested_def vram_yield_clear_def p Let_def plat_file_rmw_def
        split: if_splits prod.splits)
qed

end
