(* ===== verification/Vram_World.thy ===== *)
theory Vram_World
  imports Vram_Lease
begin

section \<open>The VRAM registry: many processes on one device (vramreg.c)\<close>

text \<open>
  Any number of processes poll, allocate, commit, free, release, exit and start in any order on one
  device. Each access to the registry is one step: \<^verbatim>\<open>plat_file_rmw\<close> holds the file's lock across it.
  A claim is known by its process and its number. The operating system reports start times, and a pid is
  not reused with a start time the registry still knows for it.
\<close>

record world =
  w_file :: bytes
  w_free :: nat
  w_ext :: nat
  w_held :: "int \<times> int \<Rightarrow> nat"
  w_proc :: "int \<Rightarrow> u64 option"

abbreviation key :: "reg_entry \<Rightarrow> int \<times> int" where
  "key e \<equiv> (e_pid e, e_seq e)"

definition sees :: "os \<Rightarrow> world \<Rightarrow> bool" where
  "sees os w \<longleftrightarrow> (\<forall>p. os_alive os p \<longleftrightarrow> w_proc w p \<noteq> None) \<and> os_start os = w_proc w"

text \<open>
  A poll is one call of \<^verbatim>\<open>claim_rmw\<close>; an allocation may take any part of what a claim in flight was
  granted, and is not told whether the device has it; \<open>w_ext\<close> is what other software holds.
\<close>

inductive world_step :: "world \<Rightarrow> world \<Rightarrow> bool" where
  Poll: "claim_ok c \<Longrightarrow> \<not> c_admitted c \<Longrightarrow> w_proc w (c_pid c) = Some (c_procstart c) \<Longrightarrow> sees os w \<Longrightarrow> unat free = w_free w \<Longrightarrow>
    w_held w (c_pid c, c_seq c) = 0 \<Longrightarrow>
    (\<And>e. e \<in> set (reap os (parse (w_file w))) \<Longrightarrow> key e = (c_pid c, c_seq c) \<Longrightarrow> e_state e = st_W) \<Longrightarrow>
    claim_rmw pf os True free (w_file w) c = (Some out, c') \<Longrightarrow> world_step w (w\<lparr>w_file := out\<rparr>)"
| Alloc: "sees os w \<Longrightarrow> e \<in> set (reap os (parse (w_file w))) \<Longrightarrow> e_state e = st_P \<Longrightarrow>
    w_held w (key e) + a \<le> unat (e_bytes e) \<Longrightarrow>
    world_step w (w\<lparr>w_free := w_free w - a, w_held := (w_held w)(key e := w_held w (key e) + a)\<rparr>)"
| Free: "a \<le> w_held w k \<Longrightarrow> world_step w (w\<lparr>w_free := w_free w + a, w_held := (w_held w)(k := w_held w k - a)\<rparr>)"
| Edit: "sees os w \<Longrightarrow> edit_rmw os True (w_file w) x = (Some out, x') \<Longrightarrow> world_step w (w\<lparr>w_file := out\<rparr>)"
| Exit: "world_step w (w\<lparr>w_proc := (w_proc w)(p := None)\<rparr>)"
| Start: "w_proc w p = None \<Longrightarrow> s \<noteq> 0 \<Longrightarrow> (\<And>e. e \<in> set (parse (w_file w)) \<Longrightarrow> e_pid e = p \<Longrightarrow> e_procstart e \<noteq> s) \<Longrightarrow>
    world_step w (w\<lparr>w_proc := (w_proc w)(p := Some s)\<rparr>)"
| Other: "a \<le> w_ext w \<Longrightarrow> world_step w (w\<lparr>w_free := w_free w + a, w_ext := w_ext w - a\<rparr>)"

inductive world_reach :: "world \<Rightarrow> bool" where
  Begin: "parse (w_file w) = [] \<Longrightarrow> (\<And>k. w_held w k = 0) \<Longrightarrow> w_free w + w_ext w < 2 ^ 64 \<Longrightarrow>
    (\<And>p. w_proc w p \<noteq> Some 0) \<Longrightarrow> world_reach w"
| Step: "world_reach w \<Longrightarrow> world_step w w' \<Longrightarrow> world_reach w'"

subsection \<open>What the claims in flight may still take\<close>

definition in_flight :: "reg_entry list \<Rightarrow> reg_entry list" where
  "in_flight es = filter (\<lambda>e. e_state e = st_P) es"

definition demand :: "(int \<times> int \<Rightarrow> nat) \<Rightarrow> reg_entry list \<Rightarrow> nat" where
  "demand h es = sum_list (map (\<lambda>e. unat (e_bytes e) - h (key e)) (in_flight es))"

definition live :: "world \<Rightarrow> reg_entry list" where
  "live w = filter (\<lambda>e. w_proc w (e_pid e) = Some (e_procstart e)) (parse (w_file w))"

definition world_inv :: "world \<Rightarrow> bool" where
  "world_inv w \<longleftrightarrow> (\<forall>e \<in> set (parse (w_file w)). e_procstart e \<noteq> 0) \<and> (\<forall>p. w_proc w p \<noteq> Some 0)
     \<and> distinct (map key (in_flight (live w)))
     \<and> (\<forall>e \<in> set (in_flight (live w)). w_held w (key e) \<le> unat (e_bytes e))
     \<and> demand (w_held w) (live w) \<le> w_free w
     \<and> (\<forall>K. finite K \<longrightarrow> sum (w_held w) K + w_free w + w_ext w < 2 ^ 64)"

lemma in_flight_simps [simp]: "in_flight [] = []" "in_flight (es @ fs) = in_flight es @ in_flight fs"
  "in_flight (e # es) = (if e_state e = st_P then e # in_flight es else in_flight es)"
  by (simp_all add: in_flight_def)

lemma demand_simps [simp]: "demand h [] = 0" "demand h (es @ fs) = demand h es + demand h fs"
  "demand h (e # es) = (if e_state e = st_P then unat (e_bytes e) - h (key e) else 0) + demand h es"
  by (simp_all add: demand_def)

lemma reap_live:
  assumes "sees os w" "world_inv w"
  shows "reap os (parse (w_file w)) = live w"
  unfolding reap_def live_def using assms
  by (intro filter_cong) (auto simp: stale_def sees_def world_inv_def split: option.splits)

lemma demand_pend: "\<forall>e \<in> set (in_flight es). h (key e) \<le> unat (e_bytes e) \<Longrightarrow>
  pend es = demand h es + sum_list (map (\<lambda>e. h (key e)) (in_flight es))"
  by (induction es) auto

lemma demand_le_pend: "demand h es \<le> pend es"
  by (induction es) auto

lemma pend_small:
  assumes "world_inv w"
  shows "pend (live w) < 2 ^ 64"
proof -
  have d: "distinct (map key (in_flight (live w)))" using assms by (simp add: world_inv_def)
  have "sum_list (map (\<lambda>e. w_held w (key e)) (in_flight (live w))) = sum (w_held w) (set (map key (in_flight (live w))))"
    using sum_list_distinct_conv_sum_set [OF d, of "w_held w"] by (simp add: comp_def)
  then have "pend (live w) = demand (w_held w) (live w) + sum (w_held w) (set (map key (in_flight (live w))))"
    using demand_pend [of "live w" "w_held w"] assms by (simp add: world_inv_def)
  moreover have "sum (w_held w) (set (map key (in_flight (live w)))) + w_free w + w_ext w < 2 ^ 64"
    using assms by (simp add: world_inv_def)
  moreover have "demand (w_held w) (live w) \<le> w_free w" using assms by (simp add: world_inv_def)
  ultimately show ?thesis by linarith
qed

text \<open>The demand after one claim's share has changed.\<close>

lemma demand_cong: "\<forall>e \<in> set (in_flight es). h' (key e) = h (key e) \<Longrightarrow> demand h' es = demand h es"
  by (induction es) auto

lemma demand_update:
  "distinct (map key (in_flight es)) \<Longrightarrow> e \<in> set (in_flight es) \<Longrightarrow> \<forall>k. k \<noteq> key e \<longrightarrow> h' k = h k \<Longrightarrow>
   demand h' es + (unat (e_bytes e) - h (key e)) = demand h es + (unat (e_bytes e) - h' (key e))"
proof (induction es)
  case (Cons f es)
  show ?case
  proof (cases "e_state f = st_P \<and> e = f")
    case True
    have "\<forall>g \<in> set (in_flight es). h' (key g) = h (key g)"
    proof
      fix g assume "g \<in> set (in_flight es)"
      then have "key g \<in> set (map key (in_flight es))" by force
      moreover have "key e \<notin> set (map key (in_flight es))" using Cons.prems(1) True by simp
      ultimately have "key g \<noteq> key e" by metis
      then show "h' (key g) = h (key g)" using Cons.prems(3) by blast
    qed
    then have "demand h' es = demand h es" by (rule demand_cong)
    then show ?thesis using True by simp
  next
    case False
    then have e: "e \<in> set (in_flight es)" "distinct (map key (in_flight es))" using Cons.prems by (auto split: if_splits)
    have "h' (key f) = h (key f)" if "e_state f = st_P"
    proof -
      have "key f \<noteq> key e" using Cons.prems(1) e(1) that by auto
      then show ?thesis using Cons.prems(3) by blast
    qed
    then show ?thesis using Cons.IH [OF e(2,1) Cons.prems(3)] by simp
  qed
qed simp

lemma sum_update: "finite K \<Longrightarrow> sum (h(k := v)) K = (if k \<in> K then sum h K - h k + v else sum h (K :: 'a set))" for h :: "'a \<Rightarrow> nat"
  by (auto simp: sum.remove intro: sum.cong)

subsection \<open>Every step keeps the invariant\<close>

lemma in_flight_filter: "in_flight (filter Q es) = filter Q (in_flight es)"
  by (simp add: in_flight_def conj_commute)

lemma demand_filter: "demand h (filter Q es) \<le> demand h es"
  by (induction es) auto

lemma sum_list_filter: "sum_list (map f (filter Q xs)) \<le> sum_list (map (f :: 'a \<Rightarrow> nat) xs)"
  by (induction xs) auto

text \<open>A table whose claims in flight are some of those before.\<close>

lemma inv_fewer:
  assumes "world_inv w" "\<forall>e \<in> set (parse (w_file w')). e_procstart e \<noteq> 0" "\<forall>p. w_proc w' p \<noteq> Some 0"
    "in_flight (live w') = filter Q (in_flight (live w))" "w_held w' = w_held w" "w_free w' = w_free w" "w_ext w' = w_ext w"
  shows "world_inv w'"
proof -
  have "demand (w_held w) (live w') \<le> demand (w_held w) (live w)"
    unfolding demand_def assms(4) by (rule sum_list_filter)
  then have "demand (w_held w) (live w') \<le> w_free w" using assms(1) by (simp add: world_inv_def)
  moreover have "distinct (map key (in_flight (live w')))"
    using assms(1) by (simp add: assms(4) world_inv_def distinct_map_filter)
  moreover have "\<forall>e \<in> set (in_flight (live w')). w_held w (key e) \<le> unat (e_bytes e)"
    using assms(1) by (simp add: assms(4) world_inv_def)
  ultimately show ?thesis using assms by (simp add: world_inv_def)
qed

lemma edit_in_flight: "in_flight (edit_entries x es) = filter (\<lambda>e. \<not> mine (x_pid x) (x_seq x) e) (in_flight es)"
  by (induction es) auto

lemma edit_keeps: "e' \<in> set (edit_entries x es) \<Longrightarrow>
  \<exists>e \<in> set es. e_pid e' = e_pid e \<and> e_procstart e' = e_procstart e \<and> (entry_ok e \<longrightarrow> entry_ok e')"
  by (induction es) (auto simp: entry_ok_def split: if_splits)

lemma edit_parsed:
  assumes "edit_rmw os True inp x = (Some out, x')"
  shows "parse out = edit_entries x (reap os (parse inp))"
proof (rule parse_serialised)
  have le: "length (edit_entries x es) \<le> length es" for es by (induction es) auto
  show "list_all entry_ok (edit_entries x (reap os (parse inp)))"
    using reap_ok [of os inp] edit_keeps [of _ x "reap os (parse inp)"] by (auto simp: list_all_iff)
  show "length (edit_entries x (reap os (parse inp))) \<le> REG_MAX_ENTRIES"
    using le [of "reap os (parse inp)"] reap_ok [of os inp] by linarith
  show "serialise True (edit_entries x (reap os (parse inp))) = Some out" using assms by (auto simp: edit_rmw_def)
qed

lemma inv_starts: "world_inv w \<Longrightarrow> w_proc w p \<noteq> Some 0"
  by (simp add: world_inv_def)

lemma live_owner: "e \<in> set (live w) \<Longrightarrow> w_proc w (e_pid e) = Some (e_procstart e)"
  by (simp add: live_def)

lemma step_edit:
  assumes "world_inv w" "sees os w" "edit_rmw os True (w_file w) x = (Some out, x')"
  shows "world_inv (w\<lparr>w_file := out\<rparr>)"
proof (rule inv_fewer [OF assms(1)])
  have p: "parse out = edit_entries x (live w)" using edit_parsed [OF assms(3)] reap_live [OF assms(2,1)] by simp
  have own: "w_proc w (e_pid e) = Some (e_procstart e)" if "e \<in> set (parse out)" for e
    using edit_keeps [of e x "live w"] that live_owner [of _ w] unfolding p by metis
  then have "live (w\<lparr>w_file := out\<rparr>) = parse out" by (simp add: live_def filter_id_conv)
  then show "in_flight (live (w\<lparr>w_file := out\<rparr>)) = filter (\<lambda>e. \<not> mine (x_pid x) (x_seq x) e) (in_flight (live w))"
    by (simp add: p edit_in_flight)
  have "\<forall>e \<in> set (parse out). e_procstart e \<noteq> 0" using own inv_starts [OF assms(1)] by metis
  then show "\<forall>e \<in> set (parse (w_file (w\<lparr>w_file := out\<rparr>))). e_procstart e \<noteq> 0" by simp
qed (use assms(1) in \<open>simp_all add: world_inv_def\<close>)

lemma step_poll:
  assumes "world_inv w" "claim_ok c" "w_proc w (c_pid c) = Some (c_procstart c)" "sees os w" "unat free = w_free w"
    "w_held w (c_pid c, c_seq c) = 0"
    "\<And>e. e \<in> set (reap os (parse (w_file w))) \<Longrightarrow> key e = (c_pid c, c_seq c) \<Longrightarrow> e_state e = st_W"
    "claim_rmw pf os True free (w_file w) c = (Some out, c')"
  shows "world_inv (w\<lparr>w_file := out\<rparr>)"
proof -
  let ?t = "table os c (w_file w)" and ?w = "w\<lparr>w_file := out\<rparr>"
  have r: "reap os (parse (w_file w)) = live w" by (rule reap_live [OF assms(4,1)])
  have fl: "in_flight ?t = in_flight (live w)" unfolding table_def r in_flight_def filter_filter
    by (rule filter_cong) (auto simp: own_marker_def)
  have pt: "pend ?t \<le> pend (live w)" unfolding table_def r by (rule pend_filter)
  then have q: "pend ?t < 2 ^ 64" using pend_small [OF assms(1)] by simp
  have p: "parse out = after_claim os free (w_file w) c" by (rule claim_parsed [OF assms(2) q assms(8)])
  have own: "w_proc w (e_pid e) = Some (e_procstart e)" if "e \<in> set (parse out)" for e
    using that assms(3) live_owner [of e w]
    by (auto simp: p after_claim_def table_def r Let_def claim_entry_def split: if_splits)
  then have l: "live ?w = parse out" by (simp add: live_def filter_id_conv)
  have "\<forall>e \<in> set (parse out). e_procstart e \<noteq> 0" using own inv_starts [OF assms(1)] by metis
  then have ps: "\<forall>e \<in> set (parse (w_file ?w)). e_procstart e \<noteq> 0" "\<forall>p. w_proc ?w p \<noteq> Some 0"
    using inv_starts [OF assms(1)] by simp_all
  show ?thesis
  proof (cases "admits os free (w_file w) c")
    case False
    then have "in_flight (live ?w) = filter (\<lambda>_. True) (in_flight (live w))"
      by (simp add: l p after_claim_def Let_def fl claim_entry_def)
    from inv_fewer [OF assms(1) ps this] show ?thesis by simp
  next
    case True
    let ?e = "claim_entry os c st_P"
    have k: "key ?e = (c_pid c, c_seq c)" "e_bytes ?e = c_need c" "e_state ?e = st_P" by (simp_all add: claim_entry_def)
    have f: "in_flight (live ?w) = in_flight (live w) @ [?e]" using True by (simp add: l p after_claim_def Let_def fl k)
    have new: "key ?e \<notin> set (map key (in_flight (live w)))" using assms(7) unfolding k(1) r by (auto simp: in_flight_def)
    have "demand (w_held w) (live ?w) = demand (w_held w) (live w) + unat (c_need c)"
      unfolding demand_def f using assms(6) k by simp
    also have "\<dots> \<le> w_free w"
    proof (cases "c_need c = 0")
      case True
      then show ?thesis using assms(1) by (simp add: world_inv_def)
    next
      case False
      have "demand (w_held w) (live w) = demand (w_held w) ?t" by (simp add: demand_def fl)
      also have "\<dots> \<le> pend ?t" by (rule demand_le_pend)
      finally show ?thesis using True False assms(5) by (simp add: admits_def fits_def Let_def)
    qed
    finally have d: "demand (w_held w) (live ?w) \<le> w_free w" .
    have "distinct (map key (in_flight (live ?w)))" using assms(1) new unfolding f by (simp add: world_inv_def)
    moreover have "\<forall>e \<in> set (in_flight (live ?w)). w_held w (key e) \<le> unat (e_bytes e)"
      using assms(1,6) k unfolding f by (simp add: world_inv_def)
    ultimately show ?thesis using ps d assms(1) by (simp add: world_inv_def)
  qed
qed

lemma step_alloc:
  assumes "world_inv w" "e \<in> set (in_flight (live w))" "w_held w (key e) + a \<le> unat (e_bytes e)"
  shows "a \<le> w_free w" "world_inv (w\<lparr>w_free := w_free w - a, w_held := (w_held w)(key e := w_held w (key e) + a)\<rparr>)"
proof -
  define h' where "h' = (w_held w)(key e := w_held w (key e) + a)"
  have h': "\<forall>k. k \<noteq> key e \<longrightarrow> h' k = w_held w k" "h' (key e) = w_held w (key e) + a" by (simp_all add: h'_def)
  have inv: "distinct (map key (in_flight (live w)))" "demand (w_held w) (live w) \<le> w_free w"
    "\<forall>e \<in> set (in_flight (live w)). w_held w (key e) \<le> unat (e_bytes e)"
    "\<forall>K. finite K \<longrightarrow> sum (w_held w) K + w_free w + w_ext w < 2 ^ 64"
    using assms(1) by (simp_all add: world_inv_def)
  have d: "demand h' (live w) + (unat (e_bytes e) - w_held w (key e)) = demand (w_held w) (live w) + (unat (e_bytes e) - h' (key e))"
    by (rule demand_update [OF inv(1) assms(2) h'(1)])
  then have d': "demand h' (live w) + a = demand (w_held w) (live w)" using h'(2) assms(3) by linarith
  then show a: "a \<le> w_free w" using inv(2) by linarith
  have k: "h' (key f) \<le> unat (e_bytes f)" if f: "f \<in> set (in_flight (live w))" for f
  proof (cases "key f = key e")
    case True
    then have "f = e" using inv(1) f assms(2) by (metis (no_types, lifting) distinct_map inj_onD)
    then show ?thesis using h'(2) assms(3) by simp
  next
    case False
    then show ?thesis using h'(1) inv(3) f by metis
  qed
  have s: "sum h' K + (w_free w - a) + w_ext w < 2 ^ 64" if "finite K" for K
  proof -
    have "sum h' K \<le> sum (w_held w) K + a" unfolding h'_def using that sum_update [of K "w_held w"]
      by (auto simp: sum.remove)
    moreover have "sum (w_held w) K + w_free w + w_ext w < 2 ^ 64" using inv(4) that by blast
    ultimately show ?thesis using a by linarith
  qed
  have l: "live (w\<lparr>w_free := w_free w - a, w_held := h'\<rparr>) = live w" by (simp add: live_def)
  have "demand h' (live w) \<le> w_free w - a" using d' inv(2) by linarith
  with assms(1) inv(1) k s show "world_inv (w\<lparr>w_free := w_free w - a, w_held := h'\<rparr>)"
    unfolding world_inv_def l by simp
qed

lemma step_free:
  assumes "world_inv w" "a \<le> w_held w k"
  shows "world_inv (w\<lparr>w_free := w_free w + a, w_held := (w_held w)(k := w_held w k - a)\<rparr>)"
proof -
  define h' where "h' = (w_held w)(k := w_held w k - a)"
  have h': "h' j = (if j = k then w_held w k - a else w_held w j)" for j by (simp add: h'_def)
  have inv: "distinct (map key (in_flight (live w)))" "demand (w_held w) (live w) \<le> w_free w"
    "\<forall>e \<in> set (in_flight (live w)). w_held w (key e) \<le> unat (e_bytes e)"
    "\<forall>K. finite K \<longrightarrow> sum (w_held w) K + w_free w + w_ext w < 2 ^ 64"
    using assms(1) by (simp_all add: world_inv_def)
  have d: "demand h' (live w) \<le> demand (w_held w) (live w) + a"
  proof (cases "\<exists>e \<in> set (in_flight (live w)). key e = k")
    case True
    then obtain e where e: "e \<in> set (in_flight (live w))" "key e = k" by blast
    have "demand h' (live w) + (unat (e_bytes e) - w_held w (key e)) = demand (w_held w) (live w) + (unat (e_bytes e) - h' (key e))"
      by (rule demand_update [OF inv(1) e(1)]) (simp add: h' e(2))
    moreover have "unat (e_bytes e) - h' (key e) \<le> (unat (e_bytes e) - w_held w (key e)) + a"
      using assms(2) by (simp add: h' e(2))
    ultimately show ?thesis by linarith
  next
    case False
    then have "demand h' (live w) = demand (w_held w) (live w)" by (intro demand_cong) (auto simp: h')
    then show ?thesis by simp
  qed
  have "sum h' K + (w_free w + a) + w_ext w < 2 ^ 64" if "finite K" for K
  proof -
    have "sum h' (insert k K) + a = sum (w_held w) (insert k K)" unfolding h'_def
      using that assms(2) by (simp add: sum.insert_remove sum_update)
    moreover have "sum h' K \<le> sum h' (insert k K)" using that by (intro sum_mono2) auto
    moreover have "sum (w_held w) (insert k K) + w_free w + w_ext w < 2 ^ 64" using inv(4) that by blast
    ultimately show ?thesis by linarith
  qed
  moreover have "\<forall>e \<in> set (in_flight (live w)). h' (key e) \<le> unat (e_bytes e)" using inv(3) by (auto simp: h')
  moreover have "live (w\<lparr>w_free := w_free w + a, w_held := h'\<rparr>) = live w" by (simp add: live_def)
  moreover have "demand h' (live w) \<le> w_free w + a" using d inv(2) by linarith
  ultimately show "world_inv (w\<lparr>w_free := w_free w + a, w_held := h'\<rparr>)"
    using assms(1) inv(1) unfolding world_inv_def by simp
qed

lemma step_procs:
  assumes "world_inv w" "\<forall>p. w_proc w' p \<noteq> Some 0" "w' = w\<lparr>w_proc := f\<rparr>"
    "\<And>e. e \<in> set (parse (w_file w)) \<Longrightarrow> f (e_pid e) = Some (e_procstart e) \<Longrightarrow> w_proc w (e_pid e) = Some (e_procstart e)"
  shows "world_inv w'"
proof (rule inv_fewer [OF assms(1) _ assms(2)])
  have "live w' = filter (\<lambda>e. f (e_pid e) = Some (e_procstart e)) (live w)"
    unfolding live_def filter_filter assms(3) by (rule filter_cong) (use assms(4) in auto)
  then show "in_flight (live w') = filter (\<lambda>e. f (e_pid e) = Some (e_procstart e)) (in_flight (live w))"
    by (simp add: in_flight_filter)
qed (use assms(1,3) in \<open>simp_all add: world_inv_def\<close>)

lemma world_step_inv: "world_step w w' \<Longrightarrow> world_inv w \<Longrightarrow> world_inv w'"
proof (induction rule: world_step.induct)
  case (Alloc os w e a)
  then have "e \<in> set (in_flight (live w))" using reap_live [OF Alloc(1,5)] by (simp add: in_flight_def)
  then show ?case by (rule step_alloc(2) [OF Alloc(5) _ Alloc(4)])
next
  case (Exit w p)
  show ?case by (rule step_procs [OF Exit _ refl]) (use inv_starts [OF Exit] in \<open>auto split: if_splits\<close>)
next
  case (Start w p s)
  show ?case
    by (rule step_procs [OF Start(4) _ refl]) (use Start(2) inv_starts [OF Start(4)] Start(3) in \<open>auto split: if_splits\<close>)
next
  case (Other a w)
  then show ?case by (auto simp: world_inv_def live_def)
qed (blast intro: step_poll step_free step_edit)+

lemma reach_inv: "world_reach w \<Longrightarrow> world_inv w"
proof (induction rule: world_reach.induct)
  case (Begin w)
  then show ?case by (simp add: world_inv_def live_def)
qed (rule world_step_inv)


text \<open>One process with one claim.\<close>

definition world0 :: world where
  "world0 = \<lparr>w_file = [], w_free = 9000000000, w_ext = 0, w_held = (\<lambda>_. 0), w_proc = (\<lambda>p. if p = 50 then Some 90 else None)\<rparr>"

definition os1 :: os where
  "os1 = \<lparr>os_now = 1700000100, os_alive = (\<lambda>p. p = 50), os_start = (\<lambda>p. if p = 50 then Some 90 else None)\<rparr>"


end
