(* ===== verification/Watermark.thy ===== *)
theory Watermark
  imports Sha256 Json_Dump
begin

section \<open>The tournament-sampling watermark (watermark.c)\<close>

text \<open>
  The keyed hash, the key file, the seed of a position, the reweighting of the candidates, the engine's
  hook and the detector. Token ids are 32-bit words. Probabilities are elements of an ordered field: the
  code computes with \<^verbatim>\<open>double\<close>, whose rounding is not modelled. \<open>junk\<close> is what the
  digest's buffer holds before it is used.
\<close>

definition WM_LAYERS :: nat where "WM_LAYERS = 30"
definition WM_CONTEXT :: nat where "WM_CONTEXT = 4"
definition WM_MIN_SCORED :: nat where "WM_MIN_SCORED = 16"

subsection \<open>SipHash-2-4\<close>

type_synonym sip = "u64 \<times> u64 \<times> u64 \<times> u64"

definition rotl :: "nat \<Rightarrow> u64 \<Rightarrow> u64" where
  "rotl b x = push_bit b x OR drop_bit (64 - b) x"

fun sipround :: "sip \<Rightarrow> sip" where
  "sipround (v0, v1, v2, v3) =
    (let v0 = v0 + v1; v1 = rotl 13 v1; v1 = v1 XOR v0; v0 = rotl 32 v0;
         v2 = v2 + v3; v3 = rotl 16 v3; v3 = v3 XOR v2;
         v0 = v0 + v3; v3 = rotl 21 v3; v3 = v3 XOR v0;
         v2 = v2 + v1; v1 = rotl 17 v1; v1 = v1 XOR v2; v2 = rotl 32 v2
     in (v0, v1, v2, v3))"

text \<open>\<open>for (i = 7; i >= 0; i--) v = (v << 8) | p[i]\<close>\<close>

definition le64 :: "bytes \<Rightarrow> u64" where
  "le64 p = fold (\<lambda>b v. push_bit 8 v OR ucast b) (rev (take 8 p)) 0"

definition sip_absorb :: "u64 \<Rightarrow> sip \<Rightarrow> sip" where
  "sip_absorb mi v =
    (case v of (v0, v1, v2, v3) \<Rightarrow> case sipround (sipround (v0, v1, v2, v3 XOR mi)) of
       (v0, v1, v2, v3) \<Rightarrow> (v0 XOR mi, v1, v2, v3))"

text \<open>The whole words, then what is left with the length in the top byte.\<close>

function sip_words :: "bytes \<Rightarrow> sip \<Rightarrow> sip" where
  "sip_words m v = (if length m < 8 then v else sip_words (drop 8 m) (sip_absorb (le64 m) v))"
  by pat_completeness auto
termination by (relation "measure (\<lambda>(m, v). length m)") auto

declare sip_words.simps [simp del]

definition sip_last :: "bytes \<Rightarrow> u64" where
  "sip_last m =
    (let n = length m; rest = drop (n - n mod 8) m
     in fold (\<lambda>i b. b OR push_bit (8 * i) (ucast (rest ! i))) [0..<n mod 8] (push_bit 56 (of_nat n)))"

definition wm_siphash24 :: "u64 \<times> u64 \<Rightarrow> bytes \<Rightarrow> u64" where
  "wm_siphash24 k m =
    (case k of (k0, k1) \<Rightarrow>
       let v = (0x736f6d6570736575 XOR k0, 0x646f72616e646f6d XOR k1, 0x6c7967656e657261 XOR k0, 0x7465646279746573 XOR k1)
       in case sip_absorb (sip_last m) (sip_words m v) of
         (v0, v1, v2, v3) \<Rightarrow>
           case sipround (sipround (sipround (sipround (v0, v1, v2 XOR 0xff, v3)))) of
             (v0, v1, v2, v3) \<Rightarrow> v0 XOR v1 XOR v2 XOR v3)"

subsection \<open>Keys\<close>

definition KEY_SCHEMA :: bytes where "KEY_SCHEMA = ascii ''xyntetik.runner.watermark_key.v1''"
definition ID_DOMAIN :: bytes where "ID_DOMAIN = ascii ''xyntetik.runner.watermark.key_id.v1''"
definition CTX_DOMAIN :: bytes where "CTX_DOMAIN = ascii ''xyntetik.wm.ctx.v1''"

definition wm_key_id :: "bytes \<Rightarrow> bytes \<Rightarrow> bytes" where
  "wm_key_id junk key = bytes_to_hex (take 8 (envelope_data_sha256_raw junk (ID_DOMAIN @ key)))"

definition key_file_text :: "bytes \<Rightarrow> bytes \<Rightarrow> bytes" where
  "key_file_text key ident =
    ascii ''{'' @ [0x22] @ ascii ''schema_version'' @ [0x22] @ ascii '':'' @ [0x22] @ KEY_SCHEMA @ [0x22] @ ascii '',''
    @ [0x22] @ ascii ''key'' @ [0x22] @ ascii '':'' @ [0x22] @ bytes_to_hex key @ [0x22] @ ascii '',''
    @ [0x22] @ ascii ''key_id'' @ [0x22] @ ascii '':'' @ [0x22] @ ident @ [0x22] @ ascii ''}'' @ [0x0A]"

text \<open>
  \<open>created\<close>: the file did not exist and could be opened; \<open>stream\<close>: a stream could be
  made of it; \<open>printed\<close> and \<open>flushed\<close>: its text went out. The second part of the result is
  the file left behind.
\<close>

definition wm_key_write :: "bytes \<Rightarrow> bool \<Rightarrow> bool \<Rightarrow> bool \<Rightarrow> bool \<Rightarrow> bytes \<Rightarrow> bool \<times> bytes option \<times> bytes" where
  "wm_key_write junk created stream printed flushed key =
    (let ident = wm_key_id junk key; ok = created \<and> stream \<and> printed \<and> flushed
     in (ok, if ok then Some (key_file_text key ident) else if created \<and> \<not> stream then Some [] else None, ident))"

definition hex_digit_value :: "u8 \<Rightarrow> int" where
  "hex_digit_value c =
    (if 0x30 \<le> c \<and> c \<le> 0x39 then uint c - 0x30
     else if 0x61 \<le> c \<and> c \<le> 0x66 then uint c - 0x61 + 10
     else if 0x41 \<le> c \<and> c \<le> 0x46 then uint c - 0x41 + 10 else - 1)"

text \<open>The loop over the 32 bytes; it stops at the first pair that is not hexadecimal.\<close>

fun read_key :: "nat \<Rightarrow> bytes \<Rightarrow> bytes option" where
  "read_key 0 kh = Some []"
| "read_key (Suc n) kh =
    (let a = hex_digit_value (kh ! 0); b = hex_digit_value (kh ! 1)
     in if a < 0 \<or> b < 0 then None
        else map_option ((#) (of_int (a * 16 + b))) (read_key n (drop 2 kh)))"

definition str_of :: "jv option \<Rightarrow> bytes \<Rightarrow> bytes" where
  "str_of j key = cstr (the (jv_str (jv_get j key) (Some [])))"

record wm_key =
  wk_key :: bytes
  wk_id :: bytes

text \<open>\<open>file\<close> is \<open>None\<close> where the file cannot be opened; at most 1023 bytes are read.\<close>

definition wm_key_load :: "strtod \<Rightarrow> bytes \<Rightarrow> nat \<Rightarrow> bytes \<Rightarrow> bytes option \<Rightarrow> bytes + wm_key" where
  "wm_key_load strtod junk cap path file =
    (case file of
       None \<Rightarrow> Inl (take (cap - 1) (ascii ''cannot read '' @ path))
     | Some buf \<Rightarrow>
       let j = json_parse strtod (take 1023 buf);
           sv = str_of j (ascii ''schema_version''); kh = str_of j (ascii ''key''); ident = str_of j (ascii ''key_id'');
           key = (if j \<noteq> None \<and> sv = KEY_SCHEMA \<and> length kh = 64 then read_key 32 kh else None)
       in case key of
            None \<Rightarrow> Inl (take (cap - 1) (path @ ascii '' is not a '' @ KEY_SCHEMA @ ascii '' file''))
          | Some k \<Rightarrow>
              let kid = wm_key_id junk k
              in if ident \<noteq> kid
                 then Inl (take (cap - 1) (path @ ascii '': key_id '' @ ident @ ascii '' does not name its key (that key'' @ [0x27]
                        @ ascii ''s id is '' @ kid @ ascii '')''))
                 else Inr \<lparr>wk_key = k, wk_id = kid\<rparr>)"

subsection \<open>The g-values of a position\<close>

text \<open>The \<open>n\<close> tokens before position \<open>t\<close>.\<close>

definition tokens_before :: "u32 list \<Rightarrow> nat \<Rightarrow> nat \<Rightarrow> u32 list" where
  "tokens_before toks n t = take n (drop (t - n) toks)"

definition le_bytes32 :: "u32 \<Rightarrow> bytes" where
  "le_bytes32 v = map (\<lambda>j. ucast (drop_bit (8 * j) v)) [0..<4]"

definition wm_seed :: "bytes \<Rightarrow> wm_key \<Rightarrow> u32 list \<Rightarrow> nat \<Rightarrow> u64 \<times> u64" where
  "wm_seed junk k toks t =
    (let lo = (if t > WM_CONTEXT then t - WM_CONTEXT else 0); n = t - lo;
         d = envelope_data_sha256_raw junk (wk_key k @ CTX_DOMAIN @ [of_nat n] @ concat (map le_bytes32 (take n (drop lo toks))))
     in (le64 d, le64 (drop 8 d)))"

definition wm_gword :: "u64 \<times> u64 \<Rightarrow> u32 \<Rightarrow> u64" where
  "wm_gword sk tok = wm_siphash24 sk (le_bytes32 tok)"

definition wm_context_repeats :: "u32 list \<Rightarrow> nat \<Rightarrow> nat \<Rightarrow> bool" where
  "wm_context_repeats toks start t =
    (let n = (if t > WM_CONTEXT then WM_CONTEXT else t)
     in list_ex (\<lambda>u. let nu = (if u > WM_CONTEXT then WM_CONTEXT else u)
          in \<not> (nu \<noteq> n \<or> (n \<noteq> 0 \<and> toks ! (u - 1) \<noteq> toks ! (t - 1)))
             \<and> tokens_before toks n u = tokens_before toks n t) [start..<t])"

subsection \<open>Reweighting\<close>

definition wm_layer :: "u64 list \<Rightarrow> nat \<Rightarrow> 'a::linordered_field list \<Rightarrow> 'a list" where
  "wm_layer g l q =
    (let G = fold (\<lambda>i s. if bit (g ! i) l then s + q ! i else s) [0..<length q] 0
     in map (\<lambda>i. q ! i * (1 + of_bool (bit (g ! i) l) - G)) [0..<length q])"

text \<open>\<open>mem\<close>: the two arrays for more than 256 candidates could be had.\<close>

definition wm_reweight :: "bool \<Rightarrow> u64 \<times> u64 \<Rightarrow> u32 list \<Rightarrow> 'a::linordered_field list \<Rightarrow> nat \<Rightarrow> 'a list option" where
  "wm_reweight mem sk ids p layers =
    (if length ids \<le> 1 then Some p
     else if length ids > 256 \<and> \<not> mem then None
     else Some (fold (wm_layer (map (wm_gword sk) ids)) [0..<layers] p))"

subsection \<open>The hook of the engine\<close>

record wm_state =
  ws_key :: "wm_key option"
  ws_sk :: "u64 \<times> u64"
  ws_marked :: nat
  ws_repeats :: nat

definition wm_reweight_cb :: "bool \<Rightarrow> wm_state \<Rightarrow> u32 list \<Rightarrow> 'a::linordered_field list \<Rightarrow> ('a list \<times> wm_state) option" where
  "wm_reweight_cb mem w ids p =
    map_option (\<lambda>p'. (p', w\<lparr>ws_marked := ws_marked w + 1\<rparr>)) (wm_reweight mem (ws_sk w) ids p WM_LAYERS)"

text \<open>The first part of the result: the sampler's reweighting is installed.\<close>

definition wm_prepare :: "bytes \<Rightarrow> wm_state option \<Rightarrow> u32 list option \<Rightarrow> nat \<Rightarrow> nat \<Rightarrow> bool \<times> wm_state option" where
  "wm_prepare junk ud hist start t =
    (case (ud, hist) of
       (Some w, Some h) \<Rightarrow>
         (case ws_key w of
            None \<Rightarrow> (False, ud)
          | Some k \<Rightarrow>
              if t < 1 then (False, ud)
              else if wm_context_repeats h start t then (False, Some (w\<lparr>ws_repeats := ws_repeats w + 1\<rparr>))
              else (True, Some (w\<lparr>ws_sk := wm_seed junk k h t\<rparr>)))
     | _ \<Rightarrow> (False, ud))"

subsection \<open>Detection\<close>

record 'a wm_score =
  sc_tokens :: nat
  sc_scored :: nat
  sc_g_sum :: nat
  sc_g_n :: nat
  sc_mean :: 'a
  sc_z :: 'a
  sc_p_value :: 'a

text \<open>\<open>while (w) { ones += w & 1; w >>= 1; }\<close>\<close>

function count_ones :: "u64 \<Rightarrow> nat \<Rightarrow> nat" where
  "count_ones w ones = (if w = 0 then ones else count_ones (drop_bit 1 w) (ones + unat (w AND 1)))"
  by pat_completeness auto
termination
proof (relation "measure (\<lambda>(w, ones). unat w)", simp)
  fix w :: u64 and ones :: nat
  assume "w \<noteq> 0"
  then have "0 < unat w" by (simp add: unat_gt_0)
  then show "((drop_bit 1 w, ones + unat (w AND 1)), w, ones) \<in> measure (\<lambda>(w, ones). unat w)"
    by (simp add: drop_bit_eq_div unat_div)
qed

declare count_ones.simps [simp del]

definition score_token :: "bytes \<Rightarrow> wm_key \<Rightarrow> u32 list \<Rightarrow> nat \<Rightarrow> nat \<Rightarrow> 'a wm_score \<Rightarrow> 'a wm_score" where
  "score_token junk k toks start t out =
    (let out = out\<lparr>sc_tokens := sc_tokens out + 1\<rparr>
     in if wm_context_repeats toks start t then out
        else let w = wm_gword (wm_seed junk k toks t) (toks ! t) AND mask WM_LAYERS; ones = count_ones w 0
             in out\<lparr>sc_g_sum := sc_g_sum out + ones, sc_g_n := sc_g_n out + WM_LAYERS, sc_scored := sc_scored out + 1\<rparr>)"

text \<open>\<open>sq\<close> and \<open>erfc\<close> are the C library's \<^verbatim>\<open>sqrt\<close> and \<^verbatim>\<open>erfc\<close>.\<close>

definition wm_detect :: "('a \<Rightarrow> 'a) \<Rightarrow> ('a \<Rightarrow> 'a) \<Rightarrow> bytes \<Rightarrow> wm_key \<Rightarrow> u32 list \<Rightarrow> nat \<Rightarrow> int \<Rightarrow> 'a::linordered_field wm_score" where
  "wm_detect sq erfc junk k toks n start =
    (let start = nat start;
         out = fold (score_token junk k toks start) [start..<n]
           \<lparr>sc_tokens = 0, sc_scored = 0, sc_g_sum = 0, sc_g_n = 0, sc_mean = 0, sc_z = 0, sc_p_value = 0\<rparr>
     in if sc_g_n out > 0 then
          let z = (of_nat (sc_g_sum out) - of_nat (sc_g_n out) / 2) / sq (of_nat (sc_g_n out) / 4)
          in out\<lparr>sc_mean := of_nat (sc_g_sum out) / of_nat (sc_g_n out), sc_z := z, sc_p_value := erfc (z / sq 2) / 2\<rparr>
        else out\<lparr>sc_p_value := 1\<rparr>)"

datatype verdict = INSUFFICIENT | WATERMARKED | NOT_DETECTED

definition wm_verdict :: "'a::linordered_field wm_score \<Rightarrow> verdict" where
  "wm_verdict s = (if sc_scored s < WM_MIN_SCORED then INSUFFICIENT
     else if sc_z s \<ge> 4 then WATERMARKED else NOT_DETECTED)"

subsection \<open>The key file reads back\<close>

lemma hexd_all: "list_all (\<lambda>n. hex_digit_value (hexd ! n) = int n \<and> short_escape (hexd ! n) = None \<and> \<not> hexd ! n < 0x20
   \<and> hexd ! n < 0x80) [0..<16]"
  by code_simp

lemma hexd_facts: "n < 16 \<Longrightarrow> hex_digit_value (hexd ! n) = int n \<and> short_escape (hexd ! n) = None \<and> \<not> hexd ! n < 0x20
   \<and> hexd ! n < 0x80"
  using hexd_all unfolding list_all_iff by simp

lemma byte_nibbles: "unat (drop_bit 4 (b :: u8)) < 16" "unat (b AND 15) < 16"
  "of_int (int (unat (drop_bit 4 b)) * 16 + int (unat (b AND 15))) = b"
proof -
  have d: "unat (drop_bit 4 b) = unat b div 16" by (simp add: drop_bit_eq_div unat_div)
  have "b AND 15 = take_bit 4 b" by (simp add: take_bit_eq_mask mask_numeral)
  then have m: "unat (b AND 15) = unat b mod 16" by (simp add: take_bit_eq_mod unat_mod)
  show "unat (drop_bit 4 b) < 16" "unat (b AND 15) < 16" using u8_less [of b] by (simp_all add: d m)
  have "int (unat (drop_bit 4 b)) * 16 + int (unat (b AND 15)) = int (unat b)" unfolding d m by presburger
  then show "of_int (int (unat (drop_bit 4 b)) * 16 + int (unat (b AND 15))) = b" by simp
qed

lemma read_key_hex: "read_key (length key) (bytes_to_hex key @ r) = Some key"
proof (induction key)
  case (Cons b key)
  show ?case using Cons byte_nibbles [of b] hexd_facts by (simp add: bytes_to_hex_def Let_def)
qed simp

lemma plain_hex: "plain_bytes (bytes_to_hex bs)"
  unfolding plain_bytes_def bytes_to_hex_def by (induction bs) (simp_all add: hexd_facts byte_nibbles)

lemma plain_names: "plain_bytes (ascii ''schema_version'')" "plain_bytes (ascii ''key'')" "plain_bytes (ascii ''key_id'')" "plain_bytes KEY_SCHEMA"
  by (simp_all add: plain_bytes_def KEY_SCHEMA_def ascii_def of_char_of short_escape_def)

definition key_value :: "bytes \<Rightarrow> bytes \<Rightarrow> jv" where
  "key_value key ident = J_OBJ [(ascii ''schema_version'', J_STR KEY_SCHEMA), (ascii ''key'', J_STR (bytes_to_hex key)),
     (ascii ''key_id'', J_STR (bytes_to_hex ident))]"

lemma key_text: "key_file_text key (bytes_to_hex ident) = dump_text fmt [0x2C] [0x3A] (key_value key ident) @ [0x0A]"
  using plain_names [THEN plain_text(1)] plain_text(1) [OF plain_hex, of key] plain_text(1) [OF plain_hex, of ident]
  by (simp add: key_file_text_def key_value_def ascii_Cons)

lemma key_names: "ascii ''schema_version'' \<noteq> ascii ''key''" "ascii ''schema_version'' \<noteq> ascii ''key_id''"
  "ascii ''key'' \<noteq> ascii ''key_id''" "ascii ''key'' \<noteq> ascii ''schema_version''" "ascii ''key_id'' \<noteq> ascii ''schema_version''"
  "ascii ''key_id'' \<noteq> ascii ''key''"
  by (simp_all add: ascii_def)

lemma key_reads: "json_parse strtod (key_file_text key (bytes_to_hex ident)) = Some (key_value key ident)"
  unfolding key_text [of _ _ "\<lambda>_. []"]
proof (rule reads_text_ws)
  show "printable strtod (\<lambda>_. []) (key_value key ident)"
    using plain_names [THEN plain_text(2)] plain_text(2) [OF plain_hex, of key] plain_text(2) [OF plain_hex, of ident] key_names
    by (simp add: key_value_def)
qed (simp_all add: key_value_def json_max_depth_def json_is_ws_def)

lemma fips_any: "length junk = 64 \<Longrightarrow> envelope_data_sha256_raw junk m = fips_digest m"
  using final_fed [OF update_fed [OF fed_init, of junk m]] by (simp add: envelope_data_sha256_raw_def)

lemma length_fips: "length (fips_digest m) = 32"
  using length_blocks [of sha_iv "sha_padded m"] by (simp add: fips_digest_def length_concat comp_def be32_bytes_def sha_iv_def sum_list_triv)

text \<open>
  Property C26. A key file reads back: what \<^verbatim>\<open>wm_key_write\<close> leaves, \<^verbatim>\<open>wm_key_load\<close> (through the
  JSON parser, the hexadecimal reader and the key's digest) accepts, and gives the key and the id that
  were reported when it was written; and a file that names another id is refused.
\<close>

theorem wm_key_roundtrip:
  assumes "length key = 32" "length junk = 64" "length junk' = 64"
    "wm_key_write junk created stream printed flushed key = (True, f, ident)"
  shows "wm_key_load strtod junk' cap path f = Inr \<lparr>wk_key = key, wk_id = ident\<rparr>
    \<and> (\<forall>other. length other = 8 \<and> bytes_to_hex other \<noteq> ident \<longrightarrow>
         (\<exists>err. wm_key_load strtod junk' cap path (Some (key_file_text key (bytes_to_hex other))) = Inl err))"
proof -
  let ?d = "take 8 (fips_digest (ID_DOMAIN @ key))"
  have i: "wm_key_id junk key = bytes_to_hex ?d" "wm_key_id junk' key = bytes_to_hex ?d"
    by (simp_all add: wm_key_id_def fips_any assms)
  have f: "f = Some (key_file_text key (bytes_to_hex ?d))" "ident = bytes_to_hex ?d"
    using assms(4) by (auto simp: wm_key_write_def Let_def i split: if_splits)
  have len: "length (key_file_text key (bytes_to_hex o')) \<le> 1023" if "length o' = 8" for o'
    using that assms(1) by (simp add: key_file_text_def KEY_SCHEMA_def)
  have ld: "length ?d = 8" by (simp add: length_fips)
  have p: "json_parse strtod (take 1023 (key_file_text key (bytes_to_hex o'))) = Some (key_value key o')" if "length o' = 8" for o'
    using len [OF that] key_reads by simp
  have c: "cstr (bytes_to_hex b) = bytes_to_hex b" "cstr KEY_SCHEMA = KEY_SCHEMA" for b
    using plain_text(2) [OF plain_hex, of b] plain_text(2) [OF plain_names(4)] by (simp_all add: clean_str_def cstr_clean)
  have g: "str_of (Some (key_value key o')) (ascii ''schema_version'') = KEY_SCHEMA"
    "str_of (Some (key_value key o')) (ascii ''key'') = bytes_to_hex key"
    "str_of (Some (key_value key o')) (ascii ''key_id'') = bytes_to_hex o'" for o'
    using key_names by (simp_all add: str_of_def jv_str_def jv_get_def key_value_def c)
  have k: "read_key 32 (bytes_to_hex key) = Some key" using read_key_hex [of key "[]"] assms(1) by simp
  show ?thesis using p [OF ld] p assms(1)
    by (auto simp: wm_key_load_def Let_def f g k i)
qed

theorem wm_key_roundtrip_witness:
  "\<exists>f ident. wm_key_write (replicate 64 0) True True True True (replicate 32 9) = (True, f, ident)
     \<and> wm_key_load (\<lambda>_. (0, 0, True)) (replicate 64 1) 200 [] f = Inr \<lparr>wk_key = replicate 32 9, wk_id = ident\<rparr>"
proof -
  obtain f ident where w: "wm_key_write (replicate 64 0) True True True True (replicate 32 9) = (True, f, ident)"
    by (simp add: wm_key_write_def Let_def)
  from wm_key_roundtrip [OF _ _ _ w, of "replicate 64 1" "\<lambda>_. (0, 0, True)" 200 "[]"] w show ?thesis by auto
qed

subsection \<open>Contexts\<close>

text \<open>The at most four tokens before a position.\<close>

definition context_of :: "u32 list \<Rightarrow> nat \<Rightarrow> u32 list" where
  "context_of toks t = tokens_before toks (min t WM_CONTEXT) t"

definition repeated :: "u32 list \<Rightarrow> nat \<Rightarrow> nat \<Rightarrow> bool" where
  "repeated toks start t \<longleftrightarrow> (\<exists>u \<in> {start..<t}. context_of toks u = context_of toks t)"

lemma length_tokens_before: "n \<le> t \<Longrightarrow> t \<le> length toks \<Longrightarrow> length (tokens_before toks n t) = n"
  by (simp add: tokens_before_def)

lemma last_token: "0 < n \<Longrightarrow> n \<le> t \<Longrightarrow> t \<le> length toks \<Longrightarrow> tokens_before toks n t ! (n - 1) = toks ! (t - 1)"
  by (simp add: tokens_before_def)

lemma context_repeats:
  assumes "t \<le> length toks"
  shows "wm_context_repeats toks start t \<longleftrightarrow> repeated toks start t"
proof -
  let ?n = "min t WM_CONTEXT"
  have c: "(\<not> (min u WM_CONTEXT \<noteq> ?n \<or> (?n \<noteq> 0 \<and> toks ! (u - 1) \<noteq> toks ! (t - 1)))
      \<and> tokens_before toks ?n u = tokens_before toks ?n t) \<longleftrightarrow> context_of toks u = context_of toks t" if "u < t" for u
  proof (cases "min u WM_CONTEXT = ?n")
    case True
    then have le: "?n \<le> u" "?n \<le> t" by auto
    have "toks ! (u - 1) = toks ! (t - 1)" if "0 < ?n" "tokens_before toks ?n u = tokens_before toks ?n t"
      using last_token [OF that(1) le(1), of toks] last_token [OF that(1) le(2) assms] that(2) \<open>u < t\<close> assms by simp
    then show ?thesis using True by (auto simp: context_of_def WM_CONTEXT_def)
  next
    case False
    have "length (context_of toks u) = min u WM_CONTEXT" "length (context_of toks t) = ?n"
      using that assms by (simp_all add: context_of_def length_tokens_before)
    then show ?thesis using False by auto
  qed
  have m: "(if t > WM_CONTEXT then WM_CONTEXT else t) = min t WM_CONTEXT" for t by simp
  show ?thesis unfolding wm_context_repeats_def Let_def m list_ex_iff repeated_def using c by auto
qed

text \<open>Only what comes before a position matters to it.\<close>

lemma tokens_before_take: "n \<le> t \<Longrightarrow> t \<le> m \<Longrightarrow> tokens_before (take m toks) n t = tokens_before toks n t"
  by (simp add: tokens_before_def drop_take)

lemma seed_context: "wm_seed junk k toks t = (let d = envelope_data_sha256_raw junk (wk_key k @ CTX_DOMAIN @ [of_nat (min t WM_CONTEXT)]
    @ concat (map le_bytes32 (context_of toks t))) in (le64 d, le64 (drop 8 d)))"
proof -
  have "t - (if t > WM_CONTEXT then t - WM_CONTEXT else 0) = min t WM_CONTEXT" by simp
  moreover have "(if t > WM_CONTEXT then t - WM_CONTEXT else 0) = t - min t WM_CONTEXT" by simp
  ultimately show ?thesis unfolding wm_seed_def Let_def context_of_def tokens_before_def by simp
qed

lemma context_prefix: "u \<le> t \<Longrightarrow> take t h = take t toks \<Longrightarrow> context_of h u = context_of toks u"
  using tokens_before_take [of "min u WM_CONTEXT" u t h] tokens_before_take [of "min u WM_CONTEXT" u t toks]
  by (simp add: context_of_def)

subsection \<open>The detector scores what the engine marked\<close>

lemma count_ones_card: "count_ones w n = n + card {l. bit w l}"
proof (induction w n rule: count_ones.induct)
  case (1 w n)
  show ?case
  proof (cases "w = 0")
    case True
    then show ?thesis by (simp add: count_ones.simps)
  next
    case False
    have e: "{l. bit w l} = (if bit w 0 then {0} else {}) \<union> Suc ` {l. bit (drop_bit 1 w) l}"
    proof (rule set_eqI)
      fix l
      show "l \<in> {l. bit w l} \<longleftrightarrow> l \<in> (if bit w 0 then {0} else {}) \<union> Suc ` {l. bit (drop_bit 1 w) l}"
        by (cases l) (auto simp: bit_drop_bit_eq)
    qed
    have "finite {l. bit (drop_bit 1 w) l}" by (rule finite_subset [of _ "{..<64}"]) (auto dest: bit_imp_le_length)
    then have "card {l. bit w l} = of_bool (bit w 0) + card {l. bit (drop_bit 1 w) l}"
      unfolding e by (subst card_Un_disjoint) (auto simp: card_image)
    moreover have "unat (w AND 1) = of_bool (bit w 0)" by (simp add: and_one_eq bit_0 odd_iff_mod_2_eq_one)
    ultimately show ?thesis using 1 [OF False] False by (subst count_ones.simps) simp
  qed
qed

definition marks :: "bytes \<Rightarrow> wm_key \<Rightarrow> u32 list \<Rightarrow> nat \<Rightarrow> nat" where
  "marks junk k toks t = card {l. l < WM_LAYERS \<and> bit (wm_gword (wm_seed junk k toks t) (toks ! t)) l}"

lemma masked_ones: "count_ones (w AND mask WM_LAYERS) 0 = card {l. l < WM_LAYERS \<and> bit w l}"
proof -
  have "{l. bit (w AND mask WM_LAYERS) l} = {l. l < WM_LAYERS \<and> bit w l}" by (auto simp: bit_simps WM_LAYERS_def)
  then show ?thesis by (simp add: count_ones_card)
qed

lemma score_fold:
  assumes "a \<le> n" "n \<le> length toks"
  shows "fold (score_token junk k toks start) [a..<n] out = out\<lparr>sc_tokens := sc_tokens out + (n - a),
     sc_scored := sc_scored out + length (filter (\<lambda>t. \<not> repeated toks start t) [a..<n]),
     sc_g_sum := sc_g_sum out + sum_list (map (marks junk k toks) (filter (\<lambda>t. \<not> repeated toks start t) [a..<n])),
     sc_g_n := sc_g_n out + WM_LAYERS * length (filter (\<lambda>t. \<not> repeated toks start t) [a..<n])\<rparr>"
  using assms
proof (induction n rule: dec_induct)
  case base
  then show ?case by simp
next
  case (step n)
  have r: "wm_context_repeats toks start n \<longleftrightarrow> repeated toks start n" using step.prems by (intro context_repeats) simp
  show ?case using step
    by (simp add: score_token_def Let_def r masked_ones marks_def Suc_diff_le)
qed

abbreviation scored :: "u32 list \<Rightarrow> nat \<Rightarrow> nat \<Rightarrow> nat list" where
  "scored toks start n \<equiv> filter (\<lambda>t. \<not> repeated toks start t) [start..<n]"

lemma detect_scores:
  assumes "n \<le> length toks"
  shows "sc_tokens (wm_detect sq erfc junk k toks n start) = n - nat start
    \<and> sc_scored (wm_detect sq erfc junk k toks n start) = length (scored toks (nat start) n)
    \<and> sc_g_n (wm_detect sq erfc junk k toks n start) = WM_LAYERS * length (scored toks (nat start) n)
    \<and> sc_g_sum (wm_detect sq erfc junk k toks n start) = sum_list (map (marks junk k toks) (scored toks (nat start) n))"
proof (cases "nat start \<le> n")
  case True
  show ?thesis unfolding wm_detect_def Let_def score_fold [OF True assms] by simp
qed (simp add: wm_detect_def Let_def)

lemma prepare_marks:
  assumes "ws_key w = Some k" "take t h = take t toks" "t \<le> length h"
  shows "wm_prepare junk (Some w) (Some h) start t = (if t = 0 then (False, Some w)
    else if repeated toks start t then (False, Some (w\<lparr>ws_repeats := ws_repeats w + 1\<rparr>))
    else (True, Some (w\<lparr>ws_sk := wm_seed junk k toks t\<rparr>)))"
proof -
  have c: "context_of h u = context_of toks u" if "u \<le> t" for u by (rule context_prefix [OF that assms(2)])
  then have "repeated h start t \<longleftrightarrow> repeated toks start t" by (auto simp: repeated_def)
  moreover have "wm_seed junk k h t = wm_seed junk k toks t" by (simp add: seed_context c)
  ultimately show ?thesis using assms(1,3) by (simp add: wm_prepare_def context_repeats)
qed

text \<open>
  Property C30. The detector and the engine agree. A generation that starts at position \<open>start\<close> over
  a history that ends as the scored text does is marked, with the same seed, at exactly the positions the
  detector scores (position 0, which has no context and is never marked, apart): those whose context did
  not occur before in the generation. It counts every position from \<open>start\<close>, 30 g-values for each
  scored one, and among them exactly those that are 1.
\<close>

theorem detector_scores_marks:
  assumes "n \<le> length toks" "0 \<le> start" "ws_key w = Some k"
  shows "let S = scored toks (nat start) n; d = wm_detect sq erfc junk k toks n start
    in sc_tokens d = n - nat start \<and> sc_scored d = length S \<and> sc_g_n d = WM_LAYERS * length S
       \<and> sc_g_sum d = sum_list (map (marks junk k toks) S)
       \<and> (\<forall>t h. nat start \<le> t \<and> t < n \<and> take t h = take t toks \<and> t \<le> length h \<longrightarrow>
            (fst (wm_prepare junk (Some w) (Some h) (nat start) t) \<longleftrightarrow> t \<noteq> 0 \<and> t \<in> set S)
            \<and> (t \<noteq> 0 \<and> t \<in> set S \<longrightarrow> snd (wm_prepare junk (Some w) (Some h) (nat start) t) = Some (w\<lparr>ws_sk := wm_seed junk k toks t\<rparr>)))"
  unfolding Let_def using detect_scores [OF assms(1), of sq erfc junk k start] prepare_marks [OF assms(3)] by simp

definition key0 :: wm_key where
  "key0 = \<lparr>wk_key = replicate 32 7, wk_id = []\<rparr>"

text \<open>A text whose fourth context repeats its second.\<close>

theorem detector_scores_marks_witness:
  "sc_scored (wm_detect id id (replicate 64 0) key0 [9, 9, 9, 9, 9, 9, 9] 7 (1 :: int) :: rat wm_score) = 4
   \<and> sc_tokens (wm_detect id id (replicate 64 0) key0 [9, 9, 9, 9, 9, 9, 9] 7 (1 :: int) :: rat wm_score) = 6"
proof -
  have "scored [9, 9, 9, 9, 9, 9, 9] 1 7 = [1, 2, 3, 4]"
    by code_simp
  then show ?thesis
    using detector_scores_marks [of 7 "[9, 9, 9, 9, 9, 9, 9]" 1 "\<lparr>ws_key = Some key0, ws_sk = (0, 0), ws_marked = 0, ws_repeats = 0\<rparr>" key0,
        where sq = id and erfc = "id :: rat \<Rightarrow> rat" and junk = "replicate 64 0"]
    by (simp add: Let_def)
qed

subsection \<open>The reweighting is the tournament\<close>

text \<open>
  The published scheme: two candidates are drawn independently, the one with the larger bit wins, a tie
  is decided by a fair coin; the winners of two such matches meet in the next layer under its bit. The
  chance that \<open>x\<close> wins when \<open>i\<close> meets \<open>j\<close>:
\<close>

definition match_wins :: "(nat \<Rightarrow> bool) \<Rightarrow> nat \<Rightarrow> nat \<Rightarrow> nat \<Rightarrow> 'a::linordered_field" where
  "match_wins g i j x = (if g i = g j then (of_bool (i = x) + of_bool (j = x)) / 2 else of_bool ((if g i then i else j) = x))"

fun tournament :: "u64 list \<Rightarrow> nat \<Rightarrow> 'a::linordered_field list \<Rightarrow> nat \<Rightarrow> 'a" where
  "tournament g 0 p x = p ! x"
| "tournament g (Suc l) p x =
    (\<Sum>i<length p. \<Sum>j<length p. tournament g l p i * tournament g l p j * match_wins (\<lambda>i. bit (g ! i) l) i j x)"

lemma match_split: "match_wins g i j x =
  of_bool (i = x) * ((1 + of_bool (g x) - of_bool (g j)) / 2) + of_bool (j = x) * ((1 + of_bool (g x) - of_bool (g i)) / (2 :: 'a::linordered_field))"
  by (auto simp: match_wins_def)

lemma pick: "x < n \<Longrightarrow> (\<Sum>i<n. of_bool (i = x) * f i) = f x" for f :: "nat \<Rightarrow> 'a::linordered_field"
  by (simp add: of_bool_def if_distrib [where f = "\<lambda>c. c * _"] cong: if_cong)

lemma match_sum:
  fixes q :: "nat \<Rightarrow> 'a::linordered_field"
  assumes "x < n" "(\<Sum>i<n. q i) = 1"
  shows "(\<Sum>i<n. \<Sum>j<n. q i * q j * match_wins g i j x) = q x * (1 + of_bool (g x) - (\<Sum>i<n. q i * of_bool (g i)))"
proof -
  let ?a = "\<lambda>i. (1 + of_bool (g x) - of_bool (g i)) / (2 :: 'a)"
  have s: "(\<Sum>i<n. q i * ?a i) = (1 + of_bool (g x) - (\<Sum>i<n. q i * of_bool (g i))) / 2"
  proof -
    have "(\<Sum>i<n. q i * ?a i) = (\<Sum>i<n. q i * (1 + of_bool (g x)) / 2 - q i * of_bool (g i) / 2)"
      by (rule sum.cong) (simp_all add: algebra_simps diff_divide_distrib add_divide_distrib)
    also have "\<dots> = (\<Sum>i<n. q i) * (1 + of_bool (g x)) / 2 - (\<Sum>i<n. q i * of_bool (g i)) / 2"
      by (simp only: sum_subtractf sum_distrib_right sum_divide_distrib)
    finally show ?thesis unfolding assms(2) by (simp add: diff_divide_distrib)
  qed
  have "(\<Sum>i<n. \<Sum>j<n. q i * q j * match_wins g i j x)
      = (\<Sum>i<n. of_bool (i = x) * (\<Sum>j<n. q i * (q j * ?a j))) + (\<Sum>i<n. \<Sum>j<n. of_bool (j = x) * (q i * ?a i * q j))"
    unfolding sum.distrib [symmetric] sum_distrib_left
    by (intro sum.cong refl) (simp add: match_split algebra_simps)
  also have "(\<Sum>i<n. of_bool (i = x) * (\<Sum>j<n. q i * (q j * ?a j))) = q x * (\<Sum>j<n. q j * ?a j)"
    unfolding pick [OF assms(1)] by (simp only: sum_distrib_left)
  also have "(\<Sum>i<n. \<Sum>j<n. of_bool (j = x) * (q i * ?a i * q j)) = q x * (\<Sum>i<n. q i * ?a i)"
    unfolding pick [OF assms(1)] by (simp only: sum_distrib_left mult.commute)
  finally show ?thesis unfolding s by (simp add: algebra_simps)
qed

lemma layer_sum: "fold (\<lambda>i s. if bit (g ! i) l then s + q ! i else s) [0..<n] s0
   = s0 + (\<Sum>i<n. q ! i * of_bool (bit (g ! i) l))" for q :: "'a::linordered_field list"
  by (induction n) (simp_all add: algebra_simps)

lemma wm_layer_nth:
  "length (wm_layer g l q) = length q"
  "x < length q \<Longrightarrow> wm_layer g l q ! x = q ! x * (1 + of_bool (bit (g ! x) l) - (\<Sum>i<length q. q ! i * of_bool (bit (g ! i) l)))"
  by (simp_all add: wm_layer_def layer_sum)

lemma layer_total:
  fixes q :: "'a::linordered_field list"
  assumes "(\<Sum>i<length q. q ! i) = 1"
  shows "(\<Sum>i<length q. wm_layer g l q ! i) = 1"
proof -
  let ?G = "\<Sum>i<length q. q ! i * of_bool (bit (g ! i) l)"
  have "(\<Sum>i<length q. wm_layer g l q ! i) = (\<Sum>i<length q. q ! i * (1 - ?G) + q ! i * of_bool (bit (g ! i) l))"
    by (rule sum.cong) (simp_all add: wm_layer_nth algebra_simps)
  also have "\<dots> = (\<Sum>i<length q. q ! i) * (1 - ?G) + ?G" by (simp only: sum.distrib sum_distrib_right)
  finally show ?thesis using assms by simp
qed

lemma layers_tournament:
  fixes p :: "'a::linordered_field list" and g :: "u64 list"
  assumes "(\<Sum>i<length p. p ! i) = 1"
  defines "q \<equiv> \<lambda>l. fold (wm_layer g) [0..<l] p"
  shows "length (q l) = length p \<and> (\<Sum>i<length p. q l ! i) = 1 \<and> (\<forall>x < length p. q l ! x = tournament g l p x)"
proof (induction l)
  case 0
  then show ?case using assms(1) by (simp add: q_def)
next
  case (Suc l)
  have s: "q (Suc l) = wm_layer g l (q l)" by (simp add: q_def)
  have len: "length (q l) = length p" using Suc by blast
  have "q (Suc l) ! x = tournament g (Suc l) p x" if x: "x < length p" for x
  proof -
    have "tournament g (Suc l) p x = (\<Sum>i<length p. \<Sum>j<length p. q l ! i * q l ! j * match_wins (\<lambda>i. bit (g ! i) l) i j x)"
      using Suc by simp
    also have "\<dots> = q l ! x * (1 + of_bool (bit (g ! x) l) - (\<Sum>i<length p. q l ! i * of_bool (bit (g ! i) l)))"
      by (rule match_sum [OF x]) (use Suc in blast)
    finally show ?thesis using x len by (simp add: s wm_layer_nth)
  qed
  moreover have "(\<Sum>i<length (q l). q l ! i) = 1" unfolding len using Suc by blast
  from layer_total [OF this, of g l] have "(\<Sum>i<length p. q (Suc l) ! i) = 1" by (simp only: s len)
  ultimately show ?case using len by (simp add: s wm_layer_nth(1))
qed

lemma match_nonneg: "0 \<le> (match_wins g i j x :: 'a::linordered_field)"
  by (simp add: match_wins_def)

lemma tournament_nonneg: "\<forall>i < length p. 0 \<le> p ! i \<Longrightarrow> x < length p \<Longrightarrow> 0 \<le> tournament g l p x"
  by (induction l arbitrary: x) (auto intro!: sum_nonneg mult_nonneg_nonneg match_nonneg)

text \<open>
  Property C10. Reweighting computes the tournament. For candidates whose probabilities add up to 1, the
  closed form of the code gives each candidate exactly its chance of winning the knock-out tournament of
  2^layers independent draws that the scheme defines (layer \<open>l\<close> decided by bit \<open>l\<close> of the
  candidates' keyed g-words), so that the result is a probability distribution again; it fails only when
  more than 256 candidates need arrays that cannot be had.
\<close>

theorem reweight_is_tournament:
  fixes p :: "'a::linordered_field list"
  assumes "length ids = length p" "sum_list p = 1" "\<forall>x \<in> set p. 0 \<le> x"
  shows "(wm_reweight mem sk ids p layers = None \<longleftrightarrow> length p > 256 \<and> \<not> mem)
    \<and> (\<forall>p'. wm_reweight mem sk ids p layers = Some p' \<longrightarrow>
         p' = map (tournament (map (wm_gword sk) ids) layers p) [0..<length p] \<and> sum_list p' = 1 \<and> (\<forall>x \<in> set p'. 0 \<le> x))"
proof -
  let ?g = "map (wm_gword sk) ids"
  have tot: "(\<Sum>i<length p. p ! i) = 1" using assms(2) by (simp add: sum_list_sum_nth atLeast0LessThan)
  note t = layers_tournament [OF tot, of ?g layers]
  let ?q = "fold (wm_layer ?g) [0..<layers] p"
  have q: "?q = map (tournament ?g layers p) [0..<length p]" using t by (intro nth_equalityI) simp_all
  have "sum_list ?q = (\<Sum>i<length ?q. ?q ! i)" by (simp only: sum_list_sum_nth atLeast0LessThan)
  then have s: "sum_list ?q = 1" using t by (simp only:)
  have n: "\<forall>x \<in> set ?q. 0 \<le> x" unfolding q using tournament_nonneg [of p] assms(3) by auto
  have "?q = p" if "length p \<le> 1"
  proof -
    have "length p = 1" using that assms(2) by (cases p) auto
    then obtain a where a: "p = [a]" by (auto simp: length_Suc_conv)
    then have "length ?q = 1" using t by simp
    then obtain b where b: "?q = [b]" by (auto simp: length_Suc_conv)
    then show ?thesis using s assms(2) a by simp
  qed
  then show ?thesis using q s n assms unfolding wm_reweight_def by auto
qed

theorem reweight_is_tournament_witness:
  "\<exists>p'. wm_reweight True (0, 1) [5, 6] [1 / 4, 3 / 4 :: rat] 2 = Some p' \<and> sum_list p' = 1"
proof -
  have h: "length [5, 6 :: u32] = length [1 / 4, 3 / 4 :: rat]" "sum_list [1 / 4, 3 / 4 :: rat] = 1"
    "\<forall>x \<in> set [1 / 4, 3 / 4 :: rat]. 0 \<le> x" by simp_all
  note r = reweight_is_tournament [OF h, of True "(0, 1)" 2]
  have "wm_reweight True (0, 1) [5, 6] [1 / 4, 3 / 4 :: rat] 2 \<noteq> None" using conjunct1 [OF r] by blast
  then obtain p' where p: "wm_reweight True (0, 1) [5, 6] [1 / 4, 3 / 4 :: rat] 2 = Some p'" by blast
  show ?thesis by (rule exI [of _ p']) (use p conjunct2 [OF r] in blast)
qed

end
