(* ===== verification/Tok_Heap.thy ===== *)
theory Tok_Heap
  imports Prelude "HOL-Library.Multiset"
begin

section \<open>The queue of merge candidates (tokenizer.c)\<close>

text \<open>
  A binary heap in an array: the candidate with the smallest key first, the leftmost pair on a tie. The
  keys are the negated scores of the pieces or the ranks of the merges, elements of a linear order.
\<close>

record 'k mcand =
  mc_key :: 'k
  mc_l :: nat
  mc_r :: nat
  mc_len_l :: nat
  mc_len_r :: nat

definition mc_better :: "'k::linorder mcand \<Rightarrow> 'k mcand \<Rightarrow> bool" where
  "mc_better a b \<longleftrightarrow> (if mc_key a \<noteq> mc_key b then mc_key a < mc_key b else mc_l a < mc_l b)"

definition MH_FIXED :: nat where "MH_FIXED = 64"

record 'k mheap =
  h_e :: "'k mcand list"
  h_cap :: nat

definition mh_init :: "'k mheap" where
  "mh_init = \<lparr>h_e = [], h_cap = MH_FIXED\<rparr>"

function sift_up :: "'k::linorder mcand list \<Rightarrow> nat \<Rightarrow> 'k mcand list" where
  "sift_up e i =
    (if i > 0 then
       let p = (i - 1) div 2
       in if \<not> mc_better (e ! i) (e ! p) then e else sift_up (e[p := e ! i, i := e ! p]) p
     else e)"
  by pat_completeness auto
termination by (relation "measure (\<lambda>(e, i). i)") auto

declare sift_up.simps [simp del]

text \<open>\<open>alloc n\<close>: room for \<open>n\<close> candidates can be had.\<close>

definition mh_push :: "(nat \<Rightarrow> bool) \<Rightarrow> 'k::linorder mheap \<Rightarrow> 'k mcand \<Rightarrow> 'k mheap option" where
  "mh_push alloc h c =
    (if length (h_e h) = h_cap h \<and> \<not> alloc (h_cap h * 2) then None
     else Some \<lparr>h_e = sift_up (h_e h @ [c]) (length (h_e h)),
                h_cap = (if length (h_e h) = h_cap h then h_cap h * 2 else h_cap h)\<rparr>)"

definition better_child :: "'k::linorder mcand list \<Rightarrow> nat \<Rightarrow> nat" where
  "better_child e i =
    (let a = 2 * i + 1; b = a + 1;
         best = (if a < length e \<and> mc_better (e ! a) (e ! i) then a else i)
     in if b < length e \<and> mc_better (e ! b) (e ! best) then b else best)"

function sift_down :: "'k::linorder mcand list \<Rightarrow> nat \<Rightarrow> 'k mcand list" where
  "sift_down e i =
    (let best = better_child e i
     in if best = i then e else sift_down (e[best := e ! i, i := e ! best]) best)"
  by pat_completeness auto
termination
proof (relation "measure (\<lambda>(e, i). length e - i)", simp)
  fix e :: "'k::linorder mcand list" and i best
  assume "best = better_child e i" "best \<noteq> i"
  then have "i < best \<and> best < length e" by (auto simp: better_child_def Let_def split: if_splits)
  then show "((e[best := e ! i, i := e ! best], best), e, i) \<in> measure (\<lambda>(e, i). length e - i)" by auto
qed

declare sift_down.simps [simp del]

definition mh_pop :: "'k::linorder mheap \<Rightarrow> ('k mcand \<times> 'k mheap) option" where
  "mh_pop h =
    (if h_e h = [] then None
     else let n = length (h_e h) - 1
          in Some (h_e h ! 0, h\<lparr>h_e := sift_down (take n ((h_e h)[0 := h_e h ! n])) 0\<rparr>))"

subsection \<open>The order\<close>

definition mc_le :: "'k::linorder mcand \<Rightarrow> 'k mcand \<Rightarrow> bool" where
  "mc_le a b \<longleftrightarrow> \<not> mc_better b a"

lemma mc_le_refl [simp]: "mc_le a a"
  by (simp add: mc_le_def mc_better_def)

lemma mc_le_trans: "mc_le a b \<Longrightarrow> mc_le b c \<Longrightarrow> mc_le a c"
  by (auto simp: mc_le_def mc_better_def split: if_splits)

lemma better_le: "mc_better a b \<Longrightarrow> mc_le a b"
  by (auto simp: mc_le_def mc_better_def split: if_splits)

lemma better_irrefl [simp]: "\<not> mc_better a a"
  by (simp add: mc_better_def)

lemma better_asym: "mc_better a b \<Longrightarrow> \<not> mc_better b a"
  by (auto simp: mc_better_def split: if_splits)

lemma better_trans: "mc_better a b \<Longrightarrow> mc_better b c \<Longrightarrow> mc_better a c"
  by (auto simp: mc_better_def split: if_splits)

definition par :: "nat \<Rightarrow> nat" where
  "par k = (k - 1) div 2"

definition is_heap :: "'k::linorder mcand list \<Rightarrow> bool" where
  "is_heap e \<longleftrightarrow> (\<forall>k. 0 < k \<and> k < length e \<longrightarrow> mc_le (e ! par k) (e ! k))"

lemma heap_top: "is_heap e \<Longrightarrow> k < length e \<Longrightarrow> mc_le (e ! 0) (e ! k)"
proof (induction k rule: less_induct)
  case (less k)
  show ?case
  proof (cases "k = 0")
    case False
    then have "par k < k" by (simp add: par_def)
    then have "mc_le (e ! 0) (e ! par k)" using less by simp
    moreover have "mc_le (e ! par k) (e ! k)" using less.prems False by (simp add: is_heap_def)
    ultimately show ?thesis by (rule mc_le_trans)
  qed simp
qed

subsection \<open>Sifting\<close>

text \<open>A heap but for the place \<open>i\<close>, whose children are no better than its parent.\<close>

definition up_inv :: "'k::linorder mcand list \<Rightarrow> nat \<Rightarrow> bool" where
  "up_inv e i \<longleftrightarrow> i < length e \<and> (\<forall>k. 0 < k \<and> k < length e \<and> k \<noteq> i \<longrightarrow> mc_le (e ! par k) (e ! k))
     \<and> (\<forall>k. 0 < k \<and> k < length e \<and> par k = i \<and> 0 < i \<longrightarrow> mc_le (e ! par i) (e ! k))"

lemma par_less: "0 < k \<Longrightarrow> par k < k"
  by (simp add: par_def)

lemma sift_up_heap: "up_inv e i \<Longrightarrow> is_heap (sift_up e i) \<and> mset (sift_up e i) = mset e"
proof (induction e i rule: sift_up.induct)
  case (1 e i)
  show ?case
  proof (cases "i > 0 \<and> mc_better (e ! i) (e ! par i)")
    case False
    then have "sift_up e i = e" by (subst sift_up.simps) (auto simp: Let_def par_def)
    moreover have "is_heap e" using 1(2) False by (auto simp: up_inv_def is_heap_def mc_le_def)
    ultimately show ?thesis by simp
  next
    case True
    let ?e = "e[par i := e ! i, i := e ! par i]"
    have i: "i < length e" "par i < i" using 1(2) True par_less by (auto simp: up_inv_def)
    have b: "mc_le (e ! i) (e ! par i)" using True by (simp add: better_le)
    have at: "?e ! k = (if k = i then e ! par i else if k = par i then e ! i else e ! k)" if "k < length e" for k
      using that i by (simp add: nth_list_update)
    have "mc_le (?e ! par k) (?e ! k)" if k: "0 < k" "k < length e" "k \<noteq> par i" for k
    proof (cases "k = i")
      case True
      then show ?thesis using b i at [of i] at [of "par i"] by simp
    next
      case False
      have up: "mc_le (e ! par k) (e ! k)" using 1(2) k False by (simp add: up_inv_def)
      consider "par k = i" | "par k = par i" "par k \<noteq> i" | "par k \<noteq> i" "par k \<noteq> par i" by blast
      then show ?thesis
      proof cases
        case 1
        then have "mc_le (e ! par i) (e ! k)" using \<open>up_inv e i\<close> k True by (simp add: up_inv_def)
        then show ?thesis using at [OF k(2)] at [OF i(1)] 1 False k(3) by simp
      next
        case 2
        have "mc_le (e ! i) (e ! k)" using mc_le_trans [OF b] up 2 by simp
        then show ?thesis using at [OF k(2)] at [of "par i"] i 2 False k(3) by simp
      next
        case 3
        then show ?thesis using up at [OF k(2)] at [of "par k"] k False par_less [OF k(1)] by simp
      qed
    qed
    moreover have "mc_le (?e ! par (par i)) (?e ! k)" if k: "0 < k" "k < length e" "par k = par i" "0 < par i" for k
    proof -
      have pp: "par (par i) < par i" using k(4) by (rule par_less)
      have g: "mc_le (e ! par (par i)) (e ! par i)" using 1(2) k(4) i by (simp add: up_inv_def)
      show ?thesis
      proof (cases "k = i")
        case True
        then show ?thesis using g at [OF i(1)] at [of "par (par i)"] pp i by simp
      next
        case False
        then have "mc_le (e ! par k) (e ! k)" using 1(2) k(1,2) by (simp add: up_inv_def)
        then have "mc_le (e ! par i) (e ! k)" by (simp add: k(3))
        then show ?thesis using mc_le_trans [OF g] at [OF k(2)] at [of "par (par i)"] pp i False k(1,3) par_less [OF k(1)] by simp
      qed
    qed
    ultimately have "up_inv ?e (par i)" using i by (simp add: up_inv_def)
    moreover have "sift_up e i = sift_up ?e (par i)" using True by (subst sift_up.simps) (simp add: Let_def par_def)
    moreover have "mset ?e = mset e" using i by (intro mset_swap) simp_all
    ultimately show ?thesis using 1(1) [OF conjunct1 [OF True] refl] True unfolding par_def by simp
  qed
qed

text \<open>A heap but for the children of the place \<open>i\<close>, which are no better than its parent.\<close>

definition down_inv :: "'k::linorder mcand list \<Rightarrow> nat \<Rightarrow> bool" where
  "down_inv e i \<longleftrightarrow> i < length e \<and> (\<forall>k. 0 < k \<and> k < length e \<and> par k \<noteq> i \<longrightarrow> mc_le (e ! par k) (e ! k))
     \<and> (\<forall>k. 0 < k \<and> k < length e \<and> par k = i \<and> 0 < i \<longrightarrow> mc_le (e ! par i) (e ! k))"

lemma par_child: "0 < k \<Longrightarrow> par k = i \<longleftrightarrow> k = 2 * i + 1 \<or> k = 2 * i + 2"
  by (auto simp: par_def)

lemma le_linear: "mc_le a b \<or> mc_le b a"
  by (auto simp: mc_le_def mc_better_def split: if_splits)

lemma better_child_min:
  assumes "i < length e"
  shows "better_child e i < length e"
    and "better_child e i = i \<or> 0 < better_child e i \<and> par (better_child e i) = i"
    and "k < length e \<Longrightarrow> 0 < k \<Longrightarrow> par k = i \<Longrightarrow> mc_le (e ! better_child e i) (e ! k)"
    and "mc_le (e ! better_child e i) (e ! i)"
proof -
  show "better_child e i < length e"
    using assms by (simp add: better_child_def Let_def)
  show "better_child e i = i \<or> 0 < better_child e i \<and> par (better_child e i) = i"
    by (simp add: better_child_def Let_def par_def)
  show "mc_le (e ! better_child e i) (e ! i)"
    using better_le mc_le_trans [OF better_le better_le] by (auto simp: better_child_def Let_def)
  show "mc_le (e ! better_child e i) (e ! k)" if k: "k < length e" "0 < k" "par k = i"
  proof -
    have "k = 2 * i + 1 \<or> k = 2 * i + 2" using par_child k by blast
    then show ?thesis
    proof
      assume "k = 2 * i + 1"
      then show ?thesis using k(1)
        by (auto simp: better_child_def Let_def mc_le_def dest: better_asym better_trans split: if_splits)
    next
      assume "k = 2 * i + 2"
      then show ?thesis using k(1) by (auto simp: better_child_def Let_def mc_le_def split: if_splits)
    qed
  qed
qed

lemma sift_down_heap: "down_inv e i \<Longrightarrow> is_heap (sift_down e i) \<and> mset (sift_down e i) = mset e"
proof (induction e i rule: sift_down.induct)
  case (1 e i)
  let ?b = "better_child e i"
  have i: "i < length e" using 1(2) by (simp add: down_inv_def)
  note mn = better_child_min [OF i]
  show ?case
  proof (cases "?b = i")
    case True
    then have "sift_down e i = e" by (subst sift_down.simps) simp
    moreover have "mc_le (e ! par k) (e ! k)" if "0 < k" "k < length e" for k
      using 1(2) mn(3) [of k] that True by (cases "par k = i") (auto simp: down_inv_def)
    ultimately show ?thesis by (simp add: is_heap_def)
  next
    case False
    let ?e = "e[?b := e ! i, i := e ! ?b]"
    have b: "0 < ?b" "par ?b = i" "?b < length e" "i < ?b"
      using mn(1,2) False par_less [of ?b] by auto
    have at: "?e ! k = (if k = i then e ! ?b else if k = ?b then e ! i else e ! k)" if "k < length e" for k
      using that b i by (simp add: nth_list_update)
    have "mc_le (?e ! par k) (?e ! k)" if k: "0 < k" "k < length e" "par k \<noteq> ?b" for k
    proof (cases "par k = i")
      case True
      have "k \<noteq> i" using par_less [OF k(1)] True by simp
      moreover have "mc_le (e ! ?b) (e ! k)" using mn(3) k True by simp
      ultimately show ?thesis using at [OF k(2)] at [OF i] mn(4) True by simp
    next
      case f: False
      have up: "mc_le (e ! par k) (e ! k)" using 1(2) k f by (simp add: down_inv_def)
      have p: "par k < length e" using par_less [OF k(1)] k(2) by simp
      show ?thesis
      proof (cases "k = i")
        case True
        have "mc_le (e ! par i) (e ! ?b)" using 1(2) b k(1) True by (simp add: down_inv_def)
        then show ?thesis using at [OF i] at [OF p] True f k(3) by simp
      next
        case False
        then show ?thesis using up at [OF k(2)] at [OF p] f k(3) b(2) by auto
      qed
    qed
    moreover have "mc_le (?e ! par ?b) (?e ! k)" if k: "0 < k" "k < length e" "par k = ?b" for k
    proof -
      have n: "k \<noteq> i" "k \<noteq> ?b" using par_less [OF k(1)] k(3) b(4) by auto
      have "par k \<noteq> i" using k(3) b(4) by simp
      then have "mc_le (e ! par k) (e ! k)" using 1(2) k(1,2) by (simp add: down_inv_def)
      then show ?thesis using at [OF k(2)] at [OF i] b(2) k(3) n by simp
    qed
    ultimately have "down_inv ?e ?b" using b(3) by (simp add: down_inv_def)
    moreover have "sift_down e i = sift_down ?e ?b" using False by (subst sift_down.simps) (simp add: Let_def)
    moreover have "mset ?e = mset e" using i b(3) by (intro mset_swap) simp_all
    ultimately show ?thesis using 1(1) [OF refl False] by simp
  qed
qed

subsection \<open>The contract of the queue\<close>

text \<open>
  What the merge loops rely on: a push adds one candidate, or fails for want of memory; a pop takes out
  a candidate no other is better than, and fails only on the empty queue.
\<close>

locale best_first =
  fixes push :: "'h \<Rightarrow> 'c \<Rightarrow> 'h option"
    and pop :: "'h \<Rightarrow> ('c \<times> 'h) option"
    and cands :: "'h \<Rightarrow> 'c multiset"
    and le :: "'c \<Rightarrow> 'c \<Rightarrow> bool"
    and ok :: "'h \<Rightarrow> bool"
  assumes push_ok: "ok h \<Longrightarrow> push h c = Some h' \<Longrightarrow> ok h' \<and> cands h' = add_mset c (cands h)"
    and pop_ok: "ok h \<Longrightarrow> pop h = Some (c, h') \<Longrightarrow> ok h' \<and> cands h = add_mset c (cands h')"
    and pop_best: "ok h \<Longrightarrow> pop h = Some (c, h') \<Longrightarrow> d \<in># cands h \<Longrightarrow> le c d"
    and pop_None: "ok h \<Longrightarrow> pop h = None \<longleftrightarrow> cands h = {#}"
begin

text \<open>Pushing a list of candidates, as the loops do before the first pop.\<close>

fun push_all :: "'h \<Rightarrow> 'c list \<Rightarrow> 'h option" where
  "push_all h [] = Some h"
| "push_all h (c # cs) = (case push h c of None \<Rightarrow> None | Some h' \<Rightarrow> push_all h' cs)"

lemma push_all_ok: "ok h \<Longrightarrow> push_all h cs = Some h' \<Longrightarrow> ok h' \<and> cands h' = mset cs + cands h"
  by (induction cs arbitrary: h) (auto dest: push_ok split: option.splits)

lemma pop_size: "ok h \<Longrightarrow> pop h = Some (c, h') \<Longrightarrow> size (cands h) = Suc (size (cands h'))"
  using pop_ok by fastforce

end

definition mh_cands :: "'k mheap \<Rightarrow> 'k mcand multiset" where
  "mh_cands h = mset (h_e h)"

definition mh_ok :: "'k::linorder mheap \<Rightarrow> bool" where
  "mh_ok h \<longleftrightarrow> is_heap (h_e h) \<and> length (h_e h) \<le> h_cap h \<and> 0 < h_cap h"

lemma heap_append: "is_heap e \<Longrightarrow> up_inv (e @ [c]) (length e)"
  using par_less by (auto simp: up_inv_def is_heap_def nth_append par_def)

lemma heap_cut:
  assumes "is_heap e" "e \<noteq> []" "n = length e - 1" "0 < n"
  shows "down_inv (take n (e[0 := e ! n])) 0"
proof -
  have "mc_le (take n (e[0 := e ! n]) ! par k) (take n (e[0 := e ! n]) ! k)"
    if k: "0 < k" "k < n" "par k \<noteq> 0" for k
    using assms(1,3) k par_less [OF k(1)] by (auto simp: is_heap_def nth_list_update)
  then show ?thesis using assms(2-4) by (auto simp: down_inv_def)
qed

lemma mset_cut: "e \<noteq> [] \<Longrightarrow> n = length e - 1 \<Longrightarrow> mset e = add_mset (e ! 0) (mset (take n (e[0 := e ! n])))"
proof (cases e)
  case (Cons a t)
  assume n: "n = length e - 1"
  show ?thesis
  proof (cases t rule: rev_cases)
    case (snoc u b)
    then show ?thesis using n Cons by simp
  qed (use n Cons in simp)
qed simp

lemma mh_push_ok:
  assumes "mh_ok h" "mh_push alloc h c = Some h'"
  shows "mh_ok h' \<and> mh_cands h' = add_mset c (mh_cands h)"
proof -
  have s: "is_heap (sift_up (h_e h @ [c]) (length (h_e h)))"
    "mset (sift_up (h_e h @ [c]) (length (h_e h))) = add_mset c (mset (h_e h))"
    using sift_up_heap [OF heap_append] assms(1) by (auto simp: mh_ok_def)
  have "length (sift_up (h_e h @ [c]) (length (h_e h))) = Suc (length (h_e h))"
    using arg_cong [OF s(2), of size] by simp
  then show ?thesis using assms s by (auto simp: mh_push_def mh_ok_def mh_cands_def split: if_splits)
qed

lemma sift_down_Nil [simp]: "sift_down [] 0 = []"
  by (subst sift_down.simps) (simp add: better_child_def)

lemma mh_pop_ok:
  assumes "mh_ok h" "mh_pop h = Some (c, h')"
  shows "mh_ok h' \<and> mh_cands h = add_mset c (mh_cands h')"
proof -
  define n where "n = length (h_e h) - 1"
  let ?t = "take n ((h_e h)[0 := h_e h ! n])"
  have e: "h_e h \<noteq> []" "c = h_e h ! 0" "h' = h\<lparr>h_e := sift_down ?t 0\<rparr>"
    using assms(2) by (auto simp: mh_pop_def n_def Let_def split: if_splits)
  have s: "is_heap (sift_down ?t 0) \<and> mset (sift_down ?t 0) = mset ?t"
  proof (cases "n = 0")
    case False
    then show ?thesis using sift_down_heap [OF heap_cut [OF _ e(1) n_def]] assms(1) by (simp add: mh_ok_def)
  qed (simp add: is_heap_def)
  have "length (sift_down ?t 0) = length ?t" using arg_cong [OF conjunct2 [OF s], of size] by simp
  then show ?thesis using s e assms(1) mset_cut [OF e(1) n_def] by (auto simp: mh_ok_def mh_cands_def)
qed

lemma mh_pop_best:
  assumes "mh_ok h" "mh_pop h = Some (c, h')" "d \<in># mh_cands h"
  shows "mc_le c d"
proof -
  obtain k where "k < length (h_e h)" "d = h_e h ! k" using assms(3) by (auto simp: mh_cands_def in_set_conv_nth)
  then show ?thesis using heap_top assms(1,2) by (auto simp: mh_ok_def mh_pop_def Let_def split: if_splits)
qed

interpretation mh: best_first "mh_push alloc" mh_pop mh_cands mc_le mh_ok for alloc
  by unfold_locales (use mh_push_ok mh_pop_ok mh_pop_best in blast | simp add: mh_pop_def mh_cands_def Let_def)+

lemma mh_init_ok: "mh_ok mh_init \<and> mh_cands mh_init = {#}"
  by (simp add: mh_ok_def mh_init_def mh_cands_def is_heap_def MH_FIXED_def)

end
