(* ===== verification/Tok_Merge.thy ===== *)
theory Tok_Merge
  imports Tok_Heap
begin

unbundle bit_operations_syntax

section \<open>Merging the symbols of a segment (tokenizer.c)\<close>

text \<open>
  The two merge loops that \<^verbatim>\<open>spm_encode\<close> and \<^verbatim>\<open>bpe_word\<close> share but for the key of a pair: the rescan of
  every adjacent pair after every merge, and the queue of candidates. The symbols are an array of
  \<^verbatim>\<open>sym_t\<close> linked by indices (\<^verbatim>\<open>bpe_word\<close> keeps the fields in four arrays); the index -1 is \<open>None\<close>.
  Indices and lengths are natural numbers: a segment has less than \<open>2 ^ 31\<close> bytes.

  The key of a pair, read off the symbols' places in the text, is a parameter \<open>sk\<close> here; it comes with a
  flag that says whether an allocation failed on the way. What both loops should compute is
  \<open>merge_pieces\<close>: join the adjacent pair with the smallest key, the leftmost on a tie, until no
  pair has a key.
\<close>

subsection \<open>Symbols\<close>

record sym_t =
  s_start :: nat
  s_len :: nat
  s_prev :: "nat option"
  s_next :: "nat option"

definition u8_len :: "u8 \<Rightarrow> nat" where
  "u8_len c =
    (if c < 0x80 then 1
     else if c AND 0xE0 = 0xC0 then 2
     else if c AND 0xF0 = 0xE0 then 3
     else if c AND 0xF8 = 0xF0 then 4
     else 1)"

lemma u8_len_pos: "0 < u8_len c"
  by (simp add: u8_len_def)

text \<open>The length of the symbol at \<open>i\<close>: a character cut by the end counts byte by byte.\<close>

definition sym_len :: "bytes \<Rightarrow> nat \<Rightarrow> nat" where
  "sym_len s i = (let l = u8_len (s ! i) in if i + l > length s then 1 else l)"

lemma sym_len_pos: "0 < sym_len s i"
  by (simp add: sym_len_def Let_def u8_len_pos)

function char_syms :: "bytes \<Rightarrow> nat \<Rightarrow> nat \<Rightarrow> sym_t list" where
  "char_syms s i n =
    (if i < length s then
       \<lparr>s_start = i, s_len = sym_len s i, s_prev = (if n = 0 then None else Some (n - 1)), s_next = Some (n + 1)\<rparr>
         # char_syms s (i + sym_len s i) (n + 1)
     else [])"
  by pat_completeness auto
termination
  by (relation "measure (\<lambda>(s, i, n). length s - i)") (use sym_len_pos in \<open>auto intro: diff_less_mono2\<close>)

declare char_syms.simps [simp del]

definition init_syms :: "bytes \<Rightarrow> sym_t list" where
  "init_syms s =
    (let sy = char_syms s 0 0; n = length sy
     in if n > 0 then sy[n - 1 := (sy ! (n - 1))\<lparr>s_next := None\<rparr>] else sy)"

text \<open>The indices a walk over the list visits, and those that have a successor.\<close>

fun chain :: "sym_t list \<Rightarrow> nat \<Rightarrow> nat option \<Rightarrow> nat list" where
  "chain sy 0 i = []"
| "chain sy (Suc n) i = (case i of None \<Rightarrow> [] | Some i \<Rightarrow> i # chain sy n (s_next (sy ! i)))"

fun lefts :: "sym_t list \<Rightarrow> nat \<Rightarrow> nat \<Rightarrow> nat list" where
  "lefts sy 0 i = []"
| "lefts sy (Suc n) i = (case s_next (sy ! i) of None \<Rightarrow> [] | Some j \<Rightarrow> i # lefts sy n j)"

text \<open>The symbol at \<open>b\<close> takes in its successor, whose length the queue's loop zeroes.\<close>

definition absorb :: "bool \<Rightarrow> sym_t list \<Rightarrow> nat \<Rightarrow> sym_t list" where
  "absorb zero sy b =
    (case s_next (sy ! b) of None \<Rightarrow> sy
     | Some j \<Rightarrow>
       let s1 = sy[b := (sy ! b)\<lparr>s_len := s_len (sy ! b) + s_len (sy ! j), s_next := s_next (sy ! j)\<rparr>];
           s2 = (case s_next (sy ! j) of None \<Rightarrow> s1 | Some m \<Rightarrow> s1[m := (s1 ! m)\<lparr>s_prev := Some b\<rparr>])
       in if zero then s2[j := (s2 ! j)\<lparr>s_len := 0\<rparr>] else s2)"

subsection \<open>The two loops\<close>

type_synonym 'k pair_key = "nat \<Rightarrow> nat \<Rightarrow> nat \<Rightarrow> nat \<Rightarrow> 'k option \<times> bool"

definition sym_key :: "'k pair_key \<Rightarrow> sym_t \<Rightarrow> sym_t \<Rightarrow> 'k option \<times> bool" where
  "sym_key sk a b = sk (s_start a) (s_len a) (s_start b) (s_len b)"

text \<open>One round of the rescan: the smallest key, the first pair that has it, and the failure flag.\<close>

definition scan_step :: "'k::linorder pair_key \<Rightarrow> sym_t list \<Rightarrow> nat \<Rightarrow> ('k \<times> nat) option \<times> bool \<Rightarrow> ('k \<times> nat) option \<times> bool" where
  "scan_step sk sy i acc =
    (case s_next (sy ! i) of None \<Rightarrow> acc
     | Some j \<Rightarrow>
       (case sym_key sk (sy ! i) (sy ! j) of (r, failed) \<Rightarrow>
         ((case r of None \<Rightarrow> fst acc
           | Some k \<Rightarrow> (case fst acc of None \<Rightarrow> Some (k, i) | Some (k0, i0) \<Rightarrow> if k < k0 then Some (k, i) else fst acc)),
          snd acc \<or> failed)))"

definition scan :: "'k::linorder pair_key \<Rightarrow> sym_t list \<Rightarrow> ('k \<times> nat) option \<times> bool" where
  "scan sk sy = fold (scan_step sk sy) (lefts sy (length sy) 0) (None, False)"

fun rescan :: "'k::linorder pair_key \<Rightarrow> nat \<Rightarrow> sym_t list \<Rightarrow> bool \<Rightarrow> (sym_t list \<times> bool) option" where
  "rescan sk 0 sy f = None"
| "rescan sk (Suc n) sy f =
    (case scan sk sy of
       (None, f') \<Rightarrow> Some (sy, f \<or> f')
     | (Some (k, b), f') \<Rightarrow> rescan sk n (absorb False sy b) (f \<or> f'))"

definition push_pair :: "'k::linorder pair_key \<Rightarrow> (nat \<Rightarrow> bool) \<Rightarrow> sym_t list \<Rightarrow> nat option \<Rightarrow> 'k mheap \<times> bool \<Rightarrow> ('k mheap \<times> bool) option" where
  "push_pair sk alloc sy l hf =
    (case l of None \<Rightarrow> Some hf
     | Some l \<Rightarrow>
       (case s_next (sy ! l) of None \<Rightarrow> Some hf
        | Some r \<Rightarrow>
          (case sym_key sk (sy ! l) (sy ! r) of
             (None, failed) \<Rightarrow> Some (fst hf, snd hf \<or> failed)
           | (Some k, failed) \<Rightarrow>
             (case mh_push alloc (fst hf) \<lparr>mc_key = k, mc_l = l, mc_r = r, mc_len_l = s_len (sy ! l), mc_len_r = s_len (sy ! r)\<rparr> of
                None \<Rightarrow> None
              | Some h \<Rightarrow> Some (h, snd hf \<or> failed)))))"

fun push_list :: "'k::linorder pair_key \<Rightarrow> (nat \<Rightarrow> bool) \<Rightarrow> sym_t list \<Rightarrow> nat list \<Rightarrow> 'k mheap \<times> bool \<Rightarrow> ('k mheap \<times> bool) option" where
  "push_list sk alloc sy [] hf = Some hf"
| "push_list sk alloc sy (i # is) hf =
    (case push_pair sk alloc sy (Some i) hf of None \<Rightarrow> None | Some hf' \<Rightarrow> push_list sk alloc sy is hf')"

definition mc_live :: "'k mcand \<Rightarrow> sym_t list \<Rightarrow> bool" where
  "mc_live c sy \<longleftrightarrow> s_next (sy ! mc_l c) = Some (mc_r c) \<and> s_len (sy ! mc_l c) = mc_len_l c \<and> s_len (sy ! mc_r c) = mc_len_r c"

text \<open>The queue's loop: \<open>Some None\<close> when the queue could not grow.\<close>

fun merge_queue :: "'k::linorder pair_key \<Rightarrow> (nat \<Rightarrow> bool) \<Rightarrow> nat \<Rightarrow> sym_t list \<Rightarrow> 'k mheap \<times> bool \<Rightarrow> (sym_t list \<times> bool) option option" where
  "merge_queue sk alloc 0 sy hf = None"
| "merge_queue sk alloc (Suc n) sy hf =
    (case mh_pop (fst hf) of
       None \<Rightarrow> Some (Some (sy, snd hf))
     | Some (c, h) \<Rightarrow>
       if \<not> mc_live c sy then merge_queue sk alloc n sy (h, snd hf)
       else let sy = absorb True sy (mc_l c) in
         (case push_list sk alloc sy (case s_prev (sy ! mc_l c) of None \<Rightarrow> [mc_l c] | Some p \<Rightarrow> [p, mc_l c]) (h, snd hf) of
            None \<Rightarrow> Some None
          | Some hf' \<Rightarrow> merge_queue sk alloc n sy hf'))"

definition queue_merge :: "'k::linorder pair_key \<Rightarrow> (nat \<Rightarrow> bool) \<Rightarrow> sym_t list \<Rightarrow> (sym_t list \<times> bool) option option" where
  "queue_merge sk alloc sy =
    (case push_list sk alloc sy (lefts sy (length sy) 0) (mh_init, False) of
       None \<Rightarrow> Some None
     | Some hf \<Rightarrow> merge_queue sk alloc (3 * length sy) sy hf)"

subsection \<open>What they should compute\<close>

text \<open>The smallest key, and the first of the indices that have it.\<close>

definition keep_min :: "('i \<Rightarrow> 'k::linorder option) \<Rightarrow> 'i \<Rightarrow> ('k \<times> 'i) option \<Rightarrow> ('k \<times> 'i) option" where
  "keep_min f i acc =
    (case f i of None \<Rightarrow> acc
     | Some k \<Rightarrow> (case acc of None \<Rightarrow> Some (k, i) | Some (k0, i0) \<Rightarrow> if k < k0 then Some (k, i) else acc))"

definition best_pair :: "(bytes \<Rightarrow> bytes \<Rightarrow> 'k::linorder option) \<Rightarrow> bytes list \<Rightarrow> nat option" where
  "best_pair key ps = map_option snd (fold (keep_min (\<lambda>m. key (ps ! m) (ps ! Suc m))) [0..<length ps - 1] None)"

definition join_at :: "nat \<Rightarrow> bytes list \<Rightarrow> bytes list" where
  "join_at m ps = take m ps @ (ps ! m @ ps ! Suc m) # drop (Suc (Suc m)) ps"

lemma keep_min_first:
  "fold (keep_min f) xs acc = r \<Longrightarrow>
    (case r of
       None \<Rightarrow> acc = None \<and> (\<forall>x \<in> set xs. f x = None)
     | Some (k, i) \<Rightarrow> acc = r \<and> (\<forall>x \<in> set xs. \<forall>k'. f x = Some k' \<longrightarrow> k \<le> k')
         \<or> (\<exists>us vs. xs = us @ i # vs \<and> f i = Some k \<and> (\<forall>k0 i0. acc = Some (k0, i0) \<longrightarrow> k < k0)
             \<and> (\<forall>u \<in> set us. \<forall>k'. f u = Some k' \<longrightarrow> k < k') \<and> (\<forall>v \<in> set vs. \<forall>k'. f v = Some k' \<longrightarrow> k \<le> k')))"
proof (induction xs arbitrary: acc)
  case Nil
  then show ?case by (auto split: option.splits)
next
  case (Cons x xs)
  define acc' where "acc' = keep_min f x acc"
  have IH: "case r of
       None \<Rightarrow> acc' = None \<and> (\<forall>x \<in> set xs. f x = None)
     | Some (k, i) \<Rightarrow> acc' = r \<and> (\<forall>x \<in> set xs. \<forall>k'. f x = Some k' \<longrightarrow> k \<le> k')
         \<or> (\<exists>us vs. xs = us @ i # vs \<and> f i = Some k \<and> (\<forall>k0 i0. acc' = Some (k0, i0) \<longrightarrow> k < k0)
             \<and> (\<forall>u \<in> set us. \<forall>k'. f u = Some k' \<longrightarrow> k < k') \<and> (\<forall>v \<in> set vs. \<forall>k'. f v = Some k' \<longrightarrow> k \<le> k'))"
    using Cons.prems by (intro Cons.IH) (simp add: acc'_def)
  show ?case
  proof (cases r)
    case None
    then show ?thesis using IH by (auto simp: acc'_def keep_min_def split: option.splits if_splits)
  next
    case (Some ki)
    obtain k i where r: "r = Some (k, i)" using Some by (cases ki) auto
    from IH r consider (kept) "acc' = Some (k, i)" "\<forall>x \<in> set xs. \<forall>k'. f x = Some k' \<longrightarrow> k \<le> k'"
      | (late) us vs where "xs = us @ i # vs" "f i = Some k" "\<forall>k0 i0. acc' = Some (k0, i0) \<longrightarrow> k < k0"
        "\<forall>u \<in> set us. \<forall>k'. f u = Some k' \<longrightarrow> k < k'" "\<forall>v \<in> set vs. \<forall>k'. f v = Some k' \<longrightarrow> k \<le> k'" by auto
    then show ?thesis
    proof cases
      case kept
      then have "acc = Some (k, i) \<and> (\<forall>k'. f x = Some k' \<longrightarrow> k \<le> k')
          \<or> x = i \<and> f i = Some k \<and> (\<forall>k0 i0. acc = Some (k0, i0) \<longrightarrow> k < k0)"
        by (auto simp: acc'_def keep_min_def split: option.splits if_splits)
      then show ?thesis
      proof
        assume "acc = Some (k, i) \<and> (\<forall>k'. f x = Some k' \<longrightarrow> k \<le> k')"
        then show ?thesis using r kept by auto
      next
        assume "x = i \<and> f i = Some k \<and> (\<forall>k0 i0. acc = Some (k0, i0) \<longrightarrow> k < k0)"
        then have "x # xs = [] @ i # xs \<and> f i = Some k \<and> (\<forall>k0 i0. acc = Some (k0, i0) \<longrightarrow> k < k0)" by simp
        then show ?thesis unfolding r prod.case option.case using kept(2) by (intro disjI2 exI [of _ "[]"] exI [of _ xs]) auto
      qed
    next
      case late
      have "(\<forall>k0 i0. acc = Some (k0, i0) \<longrightarrow> k < k0) \<and> (\<forall>k'. f x = Some k' \<longrightarrow> k < k')"
        using late(3) by (auto simp: acc'_def keep_min_def split: option.splits if_splits)
      then show ?thesis unfolding r prod.case option.case using late by (intro disjI2 exI [of _ "x # us"] exI [of _ vs]) auto
    qed
  qed
qed

text \<open>On an increasing list of indices this is the smallest key, then the smallest index.\<close>

definition is_first :: "('i::linorder \<Rightarrow> 'k::linorder option) \<Rightarrow> 'i list \<Rightarrow> 'k \<Rightarrow> 'i \<Rightarrow> bool" where
  "is_first f xs k i \<longleftrightarrow> i \<in> set xs \<and> f i = Some k \<and> (\<forall>x \<in> set xs. \<forall>k'. f x = Some k' \<longrightarrow> k < k' \<or> k = k' \<and> i \<le> x)"

lemma is_first_unique: "is_first f xs k i \<Longrightarrow> is_first f xs k' i' \<Longrightarrow> k = k' \<and> i = i'"
  unfolding is_first_def by (metis less_asym order.asym order_antisym)

lemma keep_min_sorted:
  assumes "sorted_wrt (<) xs"
  shows "(fold (keep_min f) xs None = None \<longleftrightarrow> (\<forall>x \<in> set xs. f x = None))
    \<and> (fold (keep_min f) xs None = Some (k, i) \<longleftrightarrow> is_first f xs k i)"
proof (cases "fold (keep_min f) xs None")
  case None
  then show ?thesis using keep_min_first [OF None] by (auto simp: is_first_def)
next
  case (Some ki)
  obtain k0 i0 where r: "fold (keep_min f) xs None = Some (k0, i0)" using Some by (cases ki) auto
  obtain us vs where uv: "xs = us @ i0 # vs" "f i0 = Some k0"
    "\<forall>u \<in> set us. \<forall>k'. f u = Some k' \<longrightarrow> k0 < k'" "\<forall>v \<in> set vs. \<forall>k'. f v = Some k' \<longrightarrow> k0 \<le> k'"
    using keep_min_first [OF r] by auto
  have "\<forall>v \<in> set vs. i0 < v" using assms uv(1) by (simp add: sorted_wrt_append)
  then have f0: "is_first f xs k0 i0" using uv by (auto simp: is_first_def order_le_less)
  then have "is_first f xs k i \<longleftrightarrow> k = k0 \<and> i = i0" using is_first_unique [OF f0, of k i] by auto
  moreover have "\<not> (\<forall>x \<in> set xs. f x = None)" using uv(1,2) by auto
  ultimately show ?thesis using r by auto
qed

lemma best_pair_iff:
  "best_pair key ps = Some m \<longleftrightarrow> (\<exists>k. is_first (\<lambda>m. key (ps ! m) (ps ! Suc m)) [0..<length ps - 1] k m)"
  "best_pair key ps = None \<longleftrightarrow> (\<forall>m. Suc m < length ps \<longrightarrow> key (ps ! m) (ps ! Suc m) = None)"
proof -
  have s: "sorted_wrt (<) [0..<length ps - 1]" by (simp add: sorted_wrt_upt)
  show "best_pair key ps = Some m \<longleftrightarrow> (\<exists>k. is_first (\<lambda>m. key (ps ! m) (ps ! Suc m)) [0..<length ps - 1] k m)"
    using keep_min_sorted [OF s, of "\<lambda>m. key (ps ! m) (ps ! Suc m)"] by (auto simp: best_pair_def)
  show "best_pair key ps = None \<longleftrightarrow> (\<forall>m. Suc m < length ps \<longrightarrow> key (ps ! m) (ps ! Suc m) = None)"
    using keep_min_sorted [OF s, of "\<lambda>m. key (ps ! m) (ps ! Suc m)"] by (auto simp: best_pair_def)
qed

lemma best_pair_less: "best_pair key ps = Some m \<Longrightarrow> Suc m < length ps"
  by (auto simp: best_pair_iff is_first_def)

function merge_pieces :: "(bytes \<Rightarrow> bytes \<Rightarrow> 'k::linorder option) \<Rightarrow> bytes list \<Rightarrow> bytes list" where
  "merge_pieces key ps = (case best_pair key ps of None \<Rightarrow> ps | Some m \<Rightarrow> merge_pieces key (join_at m ps))"
  by pat_completeness auto
termination
  by (relation "measure (\<lambda>(key, ps). length ps)") (auto simp: join_at_def dest!: best_pair_less)

declare merge_pieces.simps [simp del]

lemma concat_join: "Suc m < length ps \<Longrightarrow> concat (join_at m ps) = concat ps"
proof -
  assume m: "Suc m < length ps"
  then have "ps = take m ps @ ps ! m # ps ! Suc m # drop (Suc (Suc m)) ps"
    by (metis Cons_nth_drop_Suc Suc_lessD append_take_drop_id)
  then have "concat ps = concat (take m ps) @ ps ! m @ ps ! Suc m @ concat (drop (Suc (Suc m)) ps)"
    by (metis concat.simps(2) concat_append)
  then show ?thesis by (simp add: join_at_def)
qed

lemma merge_pieces_concat: "concat (merge_pieces key ps) = concat ps"
proof (induction key ps rule: merge_pieces.induct)
  case (1 key ps)
  then show ?case by (subst merge_pieces.simps) (auto simp: concat_join dest: best_pair_less split: option.splits)
qed

lemma merge_pieces_final: "Suc m < length (merge_pieces key ps) \<Longrightarrow> key (merge_pieces key ps ! m) (merge_pieces key ps ! Suc m) = None"
proof (induction key ps rule: merge_pieces.induct)
  case (1 key ps)
  show ?case
  proof (cases "best_pair key ps")
    case None
    then have "merge_pieces key ps = ps" by (subst merge_pieces.simps) simp
    then show ?thesis using None 1(2) by (simp add: best_pair_iff)
  next
    case (Some n)
    then have "merge_pieces key ps = merge_pieces key (join_at n ps)" by (subst merge_pieces.simps) simp
    then show ?thesis using 1 Some by simp
  qed
qed

end
