(* ===== verification/Tok_Exact.thy ===== *)
theory Tok_Exact
  imports Tok_Merge
begin

section \<open>The queue merges exactly what the rescan merges (tokenizer.c)\<close>

text \<open>
  The list of symbols as a list of indices, what a merge does to it, and the two loops: each ends in
  the pieces \<open>merge_pieces\<close> gives. The rescan takes the first smallest pair by looking at all of them; the
  queue holds a candidate for each pair of the list, and those it holds besides are stale.
\<close>

subsection \<open>The linked list\<close>

definition first_or :: "nat list \<Rightarrow> nat option \<Rightarrow> nat option" where
  "first_or is q = (case is of [] \<Rightarrow> q | i # _ \<Rightarrow> Some i)"

definition last_or :: "nat option \<Rightarrow> nat list \<Rightarrow> nat option" where
  "last_or p is = (if is = [] then p else Some (last is))"

definition start_or :: "sym_t list \<Rightarrow> nat list \<Rightarrow> nat \<Rightarrow> nat" where
  "start_or sy is e = (case is of [] \<Rightarrow> e | i # _ \<Rightarrow> s_start (sy ! i))"

lemma ors [simp]:
  "first_or [] q = q" "first_or (i # is) q = Some i" "last_or p [] = p" "last_or p (i # is) = last_or (Some i) is"
  "start_or sy [] e = e" "start_or sy (i # is) e = s_start (sy ! i)"
  by (simp_all add: first_or_def last_or_def start_or_def)

text \<open>The symbols \<open>is\<close> hang together between \<open>p\<close> and \<open>q\<close> and cover the text up to \<open>e\<close>.\<close>

fun linked :: "sym_t list \<Rightarrow> nat option \<Rightarrow> nat list \<Rightarrow> nat option \<Rightarrow> nat \<Rightarrow> bool" where
  "linked sy p [] q e \<longleftrightarrow> True"
| "linked sy p (i # is) q e \<longleftrightarrow> i < length sy \<and> s_prev (sy ! i) = p \<and> s_next (sy ! i) = first_or is q \<and> 0 < s_len (sy ! i)
     \<and> s_start (sy ! i) + s_len (sy ! i) = start_or sy is e \<and> linked sy (Some i) is q e"

lemma first_or_append [simp]: "first_or (xs @ ys) q = first_or xs (first_or ys q)"
  by (cases xs) simp_all

lemma start_or_append [simp]: "start_or sy (xs @ ys) e = start_or sy xs (start_or sy ys e)"
  by (cases xs) simp_all

lemma linked_append:
  "linked sy p (xs @ ys) q e \<longleftrightarrow> linked sy p xs (first_or ys q) (start_or sy ys e) \<and> linked sy (last_or p xs) ys q e"
  by (induction xs arbitrary: p) auto

lemma linked_cong:
  assumes "length sy' = length sy" "\<forall>i \<in> set is. sy' ! i = sy ! i"
  shows "linked sy' p is q e = linked sy p is q e"
  using assms(2)
proof (induction "is" arbitrary: p)
  case (Cons i "is")
  have "start_or sy' is e = start_or sy is e" using Cons.prems by (cases "is") simp_all
  then show ?case using Cons assms(1) by simp
qed simp

lemma linked_bounds: "linked sy p is q e \<Longrightarrow> i \<in> set is \<Longrightarrow> i < length sy \<and> 0 < s_len (sy ! i)"
  by (induction "is" arbitrary: p) auto

lemma linked_end: "linked sy p is q e \<Longrightarrow> i \<in> set is \<Longrightarrow> s_start (sy ! i) + s_len (sy ! i) \<le> e"
proof (induction "is" arbitrary: p i)
  case (Cons a "is")
  have l: "linked sy (Some a) is q e" "s_start (sy ! a) + s_len (sy ! a) = start_or sy is e" using Cons.prems(1) by auto
  have "start_or sy is e \<le> e"
  proof (cases "is")
    case (Cons b js)
    then show ?thesis using Cons.IH [OF l(1), of b] by (simp only: start_or_def list.case) simp
  qed simp
  then show ?case using Cons.prems(2) Cons.IH [OF l(1)] l(2) by auto
qed simp

lemma chain_linked: "linked sy p is None e \<Longrightarrow> length is \<le> n \<Longrightarrow> chain sy n (first_or is None) = is"
proof (induction "is" arbitrary: p n)
  case Nil
  then show ?case by (cases n) simp_all
next
  case (Cons i "is")
  then obtain m where "n = Suc m" by (cases n) auto
  then show ?case using Cons by (cases "is") auto
qed

lemma lefts_linked: "linked sy p (i # is) None e \<Longrightarrow> length is < n \<Longrightarrow> lefts sy n i = butlast (i # is)"
proof (induction "is" arbitrary: p i n)
  case Nil
  then show ?case by (cases n) simp_all
next
  case (Cons j "is")
  then obtain m where "n = Suc m" by (cases n) auto
  then show ?case using Cons by auto
qed

lemma linked_pair:
  "linked sy p (xs @ i # j # ys) q e \<Longrightarrow> s_next (sy ! i) = Some j \<and> s_prev (sy ! j) = Some i \<and> s_start (sy ! j) = s_start (sy ! i) + s_len (sy ! i)"
  by (simp add: linked_append)

subsection \<open>A merge\<close>

lemma absorb_at:
  assumes l: "linked sy p (xs @ b # j # ys) None e" and d: "distinct (xs @ b # j # ys)"
  shows "length (absorb z sy b) = length sy"
    and "absorb z sy b ! i =
      (if i = b then (sy ! b)\<lparr>s_len := s_len (sy ! b) + s_len (sy ! j), s_next := first_or ys None\<rparr>
       else if i = j then (if z then (sy ! j)\<lparr>s_len := 0\<rparr> else sy ! j)
       else if ys \<noteq> [] \<and> i = hd ys then (sy ! i)\<lparr>s_prev := Some b\<rparr>
       else sy ! i)"
proof -
  have n: "s_next (sy ! b) = Some j" "s_next (sy ! j) = first_or ys None" "b < length sy" "j < length sy" "b \<noteq> j"
    using l d by (auto simp: linked_append)
  have y: "hd ys < length sy \<and> hd ys \<noteq> b \<and> hd ys \<noteq> j" if "ys \<noteq> []"
    using that l d by (cases ys) (auto simp: linked_append)
  show "length (absorb z sy b) = length sy"
    using n by (simp add: absorb_def Let_def split: option.split)
  show "absorb z sy b ! i =
      (if i = b then (sy ! b)\<lparr>s_len := s_len (sy ! b) + s_len (sy ! j), s_next := first_or ys None\<rparr>
       else if i = j then (if z then (sy ! j)\<lparr>s_len := 0\<rparr> else sy ! j)
       else if ys \<noteq> [] \<and> i = hd ys then (sy ! i)\<lparr>s_prev := Some b\<rparr>
       else sy ! i)"
    using n y by (cases ys) (simp_all add: absorb_def Let_def nth_list_update)
qed

lemma absorb_linked:
  assumes l: "linked sy None (xs @ b # j # ys) None e" and d: "distinct (xs @ b # j # ys)"
  shows "linked (absorb z sy b) None (xs @ b # ys) None e"
proof -
  note at = absorb_at [OF l d, of z]
  let ?s = "absorb z sy b"
  have lx: "linked sy None xs (Some b) (s_start (sy ! b))"
    and lb: "b < length sy" "s_prev (sy ! b) = last_or None xs" "0 < s_len (sy ! b)"
      "s_start (sy ! b) + s_len (sy ! b) = s_start (sy ! j)"
    and lj: "s_start (sy ! j) + s_len (sy ! j) = start_or sy ys e" "linked sy (Some j) ys None e"
    using l by (auto simp: linked_append)
  have "linked ?s None xs (Some b) (s_start (sy ! b)) = linked sy None xs (Some b) (s_start (sy ! b))"
  proof (rule linked_cong [OF at(1)], rule ballI)
    fix i assume "i \<in> set xs"
    then have "i \<noteq> b" "i \<noteq> j" "ys \<noteq> [] \<Longrightarrow> i \<noteq> hd ys" using d by (auto simp: neq_Nil_conv)
    then show "?s ! i = sy ! i" using at(2) [of i] by auto
  qed
  moreover have "linked ?s (Some b) ys None e"
  proof (cases ys)
    case (Cons y zs)
    have "linked ?s (Some y) zs None e = linked sy (Some y) zs None e"
    proof (rule linked_cong [OF at(1)], rule ballI)
      fix i assume "i \<in> set zs"
      then show "?s ! i = sy ! i" using at(2) [of i] d Cons by auto
    qed
    moreover have "start_or ?s zs e = start_or sy zs e" using at(2) d Cons by (cases zs) auto
    moreover have "?s ! y = (sy ! y)\<lparr>s_prev := Some b\<rparr>" using at(2) [of y] d Cons by auto
    ultimately show ?thesis using lj(2) Cons at(1) by simp
  qed simp
  moreover have "start_or ?s ys e = start_or sy ys e" using at(2) d by (cases ys) auto
  ultimately show ?thesis using lx lb lj(1) at(1) at(2) [of b] by (simp add: linked_append)
qed

definition piece :: "bytes \<Rightarrow> sym_t list \<Rightarrow> nat \<Rightarrow> bytes" where
  "piece tx sy i = take (s_len (sy ! i)) (drop (s_start (sy ! i)) tx)"

lemma absorb_pieces:
  assumes l: "linked sy None (xs @ b # j # ys) None e" and d: "distinct (xs @ b # j # ys)"
  shows "map (piece tx (absorb z sy b)) (xs @ b # ys) = join_at (length xs) (map (piece tx sy) (xs @ b # j # ys))"
proof -
  note at = absorb_at(2) [OF l d, of z]
  have same: "piece tx (absorb z sy b) i = piece tx sy i" if "i \<noteq> b" "i \<noteq> j" for i
    using that at [of i] by (simp add: piece_def)
  have "s_start (sy ! j) = s_start (sy ! b) + s_len (sy ! b)" using linked_pair [OF l] by simp
  then have "piece tx (absorb z sy b) b = piece tx sy b @ piece tx sy j"
    using at [of b] by (simp add: piece_def take_add add.commute)
  moreover have "map (piece tx (absorb z sy b)) xs = map (piece tx sy) xs"
    "map (piece tx (absorb z sy b)) ys = map (piece tx sy) ys"
    using d by (auto intro!: same)
  ultimately show ?thesis by (simp add: join_at_def nth_append)
qed

subsection \<open>What both loops rest on\<close>

definition good :: "nat \<Rightarrow> sym_t list \<Rightarrow> nat list \<Rightarrow> bool" where
  "good e sy cs \<longleftrightarrow> linked sy None cs None e \<and> sorted_wrt (<) cs \<and> cs \<noteq> [] \<and> hd cs = 0"

lemma good_distinct: "good e sy cs \<Longrightarrow> distinct cs"
  by (simp add: good_def strict_sorted_iff)

lemma good_length: "good e sy cs \<Longrightarrow> length cs \<le> length sy"
proof -
  assume g: "good e sy cs"
  then have "set cs \<subseteq> {..<length sy}" using linked_bounds by (auto simp: good_def)
  then have "card (set cs) \<le> length sy" using card_mono [of "{..<length sy}" "set cs"] by simp
  then show ?thesis using distinct_card [OF good_distinct [OF g]] by simp
qed

lemma good_walks:
  assumes "good e sy cs"
  shows "lefts sy (length sy) 0 = butlast cs" "chain sy (length sy) (Some 0) = cs"
proof -
  obtain i where c: "cs = 0 # i" using assms by (cases cs) (auto simp: good_def)
  then show "lefts sy (length sy) 0 = butlast cs"
    using lefts_linked [of sy None 0 i e "length sy"] good_length [OF assms] assms by (simp add: good_def)
  show "chain sy (length sy) (Some 0) = cs"
    using chain_linked [of sy None cs e "length sy"] good_length [OF assms] assms c by (simp add: good_def)
qed

lemma split_pair: "Suc n < length cs \<Longrightarrow> cs = take n cs @ cs ! n # cs ! Suc n # drop (Suc (Suc n)) cs"
  by (metis Cons_nth_drop_Suc Suc_lessD append_take_drop_id)

lemma good_next:
  assumes "good e sy cs" "Suc n < length cs"
  shows "s_next (sy ! (cs ! n)) = Some (cs ! Suc n)"
    and "s_start (sy ! (cs ! Suc n)) = s_start (sy ! (cs ! n)) + s_len (sy ! (cs ! n))"
  using linked_pair [of sy None "take n cs" "cs ! n" "cs ! Suc n" "drop (Suc (Suc n)) cs" None e]
    split_pair [OF assms(2)] assms(1) by (simp_all add: good_def)

lemma good_last:
  assumes "good e sy cs" "n < length cs" "\<not> Suc n < length cs"
  shows "s_next (sy ! (cs ! n)) = None"
proof -
  have "cs = take n cs @ [cs ! n]" using assms(2,3) by (simp add: take_Suc_conv_app_nth [symmetric])
  then have "linked sy None (take n cs @ [cs ! n]) None e" using assms(1) by (simp add: good_def)
  then show ?thesis by (simp add: linked_append)
qed

lemma good_index:
  assumes "good e sy cs" "i \<in> set cs" "s_next (sy ! i) = Some r"
  obtains n where "Suc n < length cs" "cs ! n = i" "cs ! Suc n = r"
proof -
  obtain n where n: "n < length cs" "cs ! n = i" using assms(2) by (auto simp: in_set_conv_nth)
  then have "Suc n < length cs" using good_last [OF assms(1) n(1)] assms(3) by auto
  moreover have "cs ! Suc n = r" using good_next(1) [OF assms(1) \<open>Suc n < length cs\<close>] n(2) assms(3) by simp
  ultimately show thesis using that n(2) by blast
qed

lemma good_split: "good e sy (xs @ b # j # ys) \<Longrightarrow> linked sy None (xs @ b # j # ys) None e \<and> distinct (xs @ b # j # ys)"
  using good_distinct by (simp only: good_def) blast

lemma good_absorb:
  assumes g: "good e sy cs" and c: "cs = xs @ b # j # ys"
  shows "good e (absorb z sy b) (xs @ b # ys)"
    and "map (piece tx (absorb z sy b)) (xs @ b # ys) = join_at (length xs) (map (piece tx sy) cs)"
    and "length (absorb z sy b) = length sy"
proof -
  have l: "linked sy None (xs @ b # j # ys) None e" "distinct (xs @ b # j # ys)"
    using good_split g c by blast+
  have "sorted_wrt (<) (xs @ b # ys)" using g c by (auto simp: good_def sorted_wrt_append)
  moreover have "hd (xs @ b # ys) = 0" using g c by (cases xs) (auto simp: good_def)
  ultimately show "good e (absorb z sy b) (xs @ b # ys)" using absorb_linked [OF l] by (simp add: good_def)
  show "map (piece tx (absorb z sy b)) (xs @ b # ys) = join_at (length xs) (map (piece tx sy) cs)"
    using absorb_pieces [OF l] c by simp
  show "length (absorb z sy b) = length sy" using absorb_at(1) [OF l] .
qed

lemma sorted_nth_le: "sorted_wrt (<) cs \<Longrightarrow> m < length cs \<Longrightarrow> n < length cs \<Longrightarrow> (cs ! m :: nat) \<le> cs ! n \<longleftrightarrow> m \<le> n"
  using sorted_wrt_nth_less [of "(<)" cs] by (metis le_antisym less_imp_le nat_le_linear nat_neq_iff not_le)

lemma set_butlast_nth: "i \<in> set (butlast cs) \<longleftrightarrow> (\<exists>n. Suc n < length cs \<and> cs ! n = i)"
proof -
  have "i \<in> set (butlast cs) \<longleftrightarrow> (\<exists>n < length cs - 1. butlast cs ! n = i)" by (auto simp: in_set_conv_nth)
  also have "\<dots> \<longleftrightarrow> (\<exists>n < length cs - 1. cs ! n = i)" using nth_butlast [of _ cs] by (metis length_butlast)
  finally show ?thesis by (simp add: less_diff_conv)
qed

text \<open>
  The contract of the two keys: what is read off the places of two adjacent symbols is the key of their
  pieces, unless memory ran out on the way.
\<close>

locale merger =
  fixes sk :: "'k::linorder pair_key"
    and tx :: bytes
    and key :: "bytes \<Rightarrow> bytes \<Rightarrow> 'k option"
  assumes sk_key: "0 < la \<Longrightarrow> 0 < lb \<Longrightarrow> a + la + lb \<le> length tx \<Longrightarrow> sk a la (a + la) lb = (r, failed) \<Longrightarrow>
    r = (if failed then None else key (take la (drop a tx)) (take lb (drop (a + la) tx)))"
begin

definition pkey :: "sym_t list \<Rightarrow> nat list \<Rightarrow> nat \<Rightarrow> 'k option" where
  "pkey sy cs n = key (piece tx sy (cs ! n)) (piece tx sy (cs ! Suc n))"

lemma pair_sk:
  assumes g: "good (length tx) sy cs" and n: "Suc n < length cs"
    and r: "sym_key sk (sy ! (cs ! n)) (sy ! (cs ! Suc n)) = (r, failed)"
  shows "r = (if failed then None else pkey sy cs n)"
proof -
  have l: "linked sy None cs None (length tx)" using g by (simp add: good_def)
  have "0 < s_len (sy ! (cs ! n))" "0 < s_len (sy ! (cs ! Suc n))"
    "s_start (sy ! (cs ! Suc n)) + s_len (sy ! (cs ! Suc n)) \<le> length tx"
    using linked_bounds [OF l] linked_end [OF l] n by (simp_all add: Suc_lessD)
  then show ?thesis
    using sk_key [of "s_len (sy ! (cs ! n))" "s_len (sy ! (cs ! Suc n))" "s_start (sy ! (cs ! n))" r failed]
      r good_next(2) [OF g n] by (simp add: sym_key_def pkey_def piece_def)
qed

lemma best_pair_pkey:
  assumes "m < length cs - 1" "pkey sy cs m = Some k"
    and "\<And>n k'. n < length cs - 1 \<Longrightarrow> pkey sy cs n = Some k' \<Longrightarrow> k < k' \<or> k = k' \<and> m \<le> n"
  shows "best_pair key (map (piece tx sy) cs) = Some m"
  unfolding best_pair_iff(1) is_first_def using assms by (intro exI [of _ k]) (auto simp: pkey_def)

lemma best_pair_no_pkey:
  assumes "\<And>n. Suc n < length cs \<Longrightarrow> pkey sy cs n = None"
  shows "best_pair key (map (piece tx sy) cs) = None"
  unfolding best_pair_iff(2) using assms by (auto simp: pkey_def)

lemma merge_step:
  assumes "best_pair key ps = Some m"
  shows "merge_pieces key ps = merge_pieces key (join_at m ps)"
  using assms by (subst merge_pieces.simps) simp

lemma merge_end: "best_pair key ps = None \<Longrightarrow> merge_pieces key ps = ps"
  by (subst merge_pieces.simps) simp

subsection \<open>The rescan\<close>

definition left_key :: "sym_t list \<Rightarrow> nat \<Rightarrow> 'k option \<times> bool" where
  "left_key sy i = (case s_next (sy ! i) of None \<Rightarrow> (None, False) | Some j \<Rightarrow> sym_key sk (sy ! i) (sy ! j))"

lemma scan_fold:
  "fold (scan_step sk sy) is (acc, f) = (fold (keep_min (\<lambda>i. fst (left_key sy i))) is acc, f \<or> (\<exists>i \<in> set is. snd (left_key sy i)))"
proof (induction "is" arbitrary: acc f)
  case (Cons i "is")
  have "scan_step sk sy i (acc, f) = (keep_min (\<lambda>i. fst (left_key sy i)) i acc, f \<or> snd (left_key sy i))"
    by (auto simp: scan_step_def keep_min_def left_key_def split: option.split prod.split)
  then show ?case using Cons by auto
qed simp

lemma scan_result:
  assumes g: "good (length tx) sy cs"
  shows "case scan sk sy of
      (None, f) \<Rightarrow> \<not> f \<longrightarrow> best_pair key (map (piece tx sy) cs) = None
    | (Some (k, b), f) \<Rightarrow> \<exists>xs j ys. cs = xs @ b # j # ys \<and> (\<not> f \<longrightarrow> best_pair key (map (piece tx sy) cs) = Some (length xs))"
proof -
  have srt: "sorted_wrt (<) cs" using g by (simp add: good_def)
  then have sb: "sorted_wrt (<) (butlast cs)" by (simp add: butlast_conv_take sorted_wrt_take)
  obtain r f where rf: "scan sk sy = (r, f)" by (cases "scan sk sy")
  then have r: "r = fold (keep_min (\<lambda>i. fst (left_key sy i))) (butlast cs) None"
    and f: "f \<longleftrightarrow> (\<exists>i \<in> set (butlast cs). snd (left_key sy i))"
    by (auto simp: scan_def good_walks [OF g] scan_fold)
  have lk: "left_key sy (cs ! n) = sym_key sk (sy ! (cs ! n)) (sy ! (cs ! Suc n))" if "Suc n < length cs" for n
    using good_next(1) [OF g that] by (simp add: left_key_def)
  have mem: "i \<in> set (butlast cs) \<longleftrightarrow> (\<exists>n. Suc n < length cs \<and> cs ! n = i)" for i
    by (rule set_butlast_nth)
  have pk: "fst (left_key sy (cs ! n)) = pkey sy cs n" if "Suc n < length cs" "\<not> f" for n
  proof -
    have "cs ! n \<in> set (butlast cs)" using that(1) mem by blast
    then have "\<not> snd (left_key sy (cs ! n))" using f that(2) by blast
    then show ?thesis using pair_sk [OF g that(1) surjective_pairing] lk [OF that(1)] by simp
  qed
  show ?thesis
  proof (cases r)
    case None
    then have "\<forall>x \<in> set (butlast cs). fst (left_key sy x) = None"
      using keep_min_sorted [OF sb, of "\<lambda>i. fst (left_key sy i)"] r by auto
    then have "fst (left_key sy (cs ! n)) = None" if "Suc n < length cs" for n using mem that by blast
    then have "\<not> f \<Longrightarrow> Suc n < length cs \<Longrightarrow> pkey sy cs n = None" for n using pk [of n] by simp
    then show ?thesis using best_pair_no_pkey rf None by simp
  next
    case (Some kb)
    obtain k b where kb: "r = Some (k, b)" using Some by (cases kb) auto
    then have first: "is_first (\<lambda>i. fst (left_key sy i)) (butlast cs) k b"
      using keep_min_sorted [OF sb, of "\<lambda>i. fst (left_key sy i)" k b] r by simp
    then obtain m where m: "Suc m < length cs" "cs ! m = b" using mem by (auto simp: is_first_def)
    have c: "cs = take m cs @ b # cs ! Suc m # drop (Suc (Suc m)) cs" using split_pair [OF m(1)] m(2) by simp
    have "best_pair key (map (piece tx sy) cs) = Some m" if nf: "\<not> f"
    proof (rule best_pair_pkey)
      show "m < length cs - 1" using m by simp
      show "pkey sy cs m = Some k" using pk [OF m(1) nf] first m(2) by (simp add: is_first_def)
      fix n k' assume n: "n < length cs - 1" "pkey sy cs n = Some k'"
      then have sn: "Suc n < length cs" by simp
      then have "cs ! n \<in> set (butlast cs)" using mem by blast
      moreover have "fst (left_key sy (cs ! n)) = Some k'" using pk [OF sn nf] n(2) by simp
      ultimately have "k < k' \<or> k = k' \<and> cs ! m \<le> cs ! n" using first m(2) by (auto simp: is_first_def)
      then show "k < k' \<or> k = k' \<and> m \<le> n" using sorted_nth_le [OF srt] m(1) n(1) by simp
    qed
    moreover have "length (take m cs) = m" using m by simp
    ultimately have "cs = take m cs @ b # cs ! Suc m # drop (Suc (Suc m)) cs
      \<and> (\<not> f \<longrightarrow> best_pair key (map (piece tx sy) cs) = Some (length (take m cs)))" using c by simp
    then show ?thesis unfolding rf kb prod.case option.case by blast
  qed
qed

lemma rescan_correct:
  "good (length tx) sy cs \<Longrightarrow> length cs \<le> n \<Longrightarrow>
    \<exists>sy' f' cs'. rescan sk n sy f = Some (sy', f') \<and> good (length tx) sy' cs' \<and> length sy' = length sy
      \<and> (\<not> f' \<longrightarrow> \<not> f \<and> map (piece tx sy') cs' = merge_pieces key (map (piece tx sy) cs))"
proof (induction n arbitrary: sy cs f)
  case 0
  then show ?case by (simp add: good_def)
next
  case (Suc n)
  obtain r g where rg: "scan sk sy = (r, g)" by (cases "scan sk sy")
  show ?case
  proof (cases r)
    case None
    then show ?thesis using rg scan_result [OF Suc.prems(1)] Suc.prems(1) merge_end by auto
  next
    case (Some kb)
    obtain k b where kb: "r = Some (k, b)" using Some by (cases kb) auto
    obtain xs j ys where c: "cs = xs @ b # j # ys"
      "\<not> g \<longrightarrow> best_pair key (map (piece tx sy) cs) = Some (length xs)"
      using scan_result [OF Suc.prems(1)] rg kb by auto
    note ab = good_absorb [OF Suc.prems(1) c(1), where z = False]
    have "length (xs @ b # ys) \<le> n" using Suc.prems(2) c(1) by simp
    from Suc.IH [OF ab(1) this, of "f \<or> g"] obtain sy' f' cs' where
      i: "rescan sk n (absorb False sy b) (f \<or> g) = Some (sy', f')" "good (length tx) sy' cs'" "length sy' = length sy"
      "\<not> f' \<longrightarrow> \<not> (f \<or> g) \<and> map (piece tx sy') cs' = merge_pieces key (join_at (length xs) (map (piece tx sy) cs))"
      using ab(2,3) by auto
    have "rescan sk (Suc n) sy f = Some (sy', f')" using rg kb i(1) by simp
    moreover have "\<not> f' \<longrightarrow> \<not> f \<and> map (piece tx sy') cs' = merge_pieces key (map (piece tx sy) cs)"
      using i(4) c(2) merge_step by auto
    ultimately show ?thesis using i(2,3) by blast
  qed
qed

subsection \<open>The queue\<close>

definition cand :: "sym_t list \<Rightarrow> 'k \<Rightarrow> nat \<Rightarrow> nat \<Rightarrow> 'k mcand" where
  "cand sy k l r = \<lparr>mc_key = k, mc_l = l, mc_r = r, mc_len_l = s_len (sy ! l), mc_len_r = s_len (sy ! r)\<rparr>"

text \<open>A candidate's key is that of the symbols it names, with the lengths they had.\<close>

definition sound :: "sym_t list \<Rightarrow> 'k mcand \<Rightarrow> bool" where
  "sound sy c \<longleftrightarrow> 0 < mc_len_l c \<and> 0 < mc_len_r c \<and> mc_l c < length sy
     \<and> fst (sk (s_start (sy ! mc_l c)) (mc_len_l c) (s_start (sy ! mc_r c)) (mc_len_r c)) = Some (mc_key c)"

text \<open>The pair to the right of \<open>i\<close> has its candidate in the queue, if it has a key.\<close>

definition covered :: "sym_t list \<Rightarrow> 'k mcand multiset \<Rightarrow> nat \<Rightarrow> bool" where
  "covered sy H i \<longleftrightarrow> (\<forall>r k. s_next (sy ! i) = Some r \<longrightarrow> key (piece tx sy i) (piece tx sy r) = Some k \<longrightarrow> cand sy k i r \<in># H)"

lemma covered_mono: "covered sy H i \<Longrightarrow> H \<subseteq># H' \<Longrightarrow> covered sy H' i"
  unfolding covered_def by (meson mset_subset_eqD)

lemma push_pair_ok:
  assumes g: "good (length tx) sy cs" and i: "i \<in> set cs" and h: "mh_ok h" "\<forall>c \<in># mh_cands h. sound sy c"
    and p: "push_pair sk alloc sy (Some i) (h, f) = Some (h', f')"
  shows "mh_ok h' \<and> (\<forall>c \<in># mh_cands h'. sound sy c) \<and> mh_cands h \<subseteq># mh_cands h'
    \<and> size (mh_cands h') \<le> Suc (size (mh_cands h)) \<and> (\<not> f' \<longrightarrow> \<not> f \<and> covered sy (mh_cands h') i)"
proof -
  obtain n where n: "n < length cs" "cs ! n = i" using i by (auto simp: in_set_conv_nth)
  show ?thesis
  proof (cases "Suc n < length cs")
    case False
    then have "s_next (sy ! i) = None" using good_last [OF g n(1)] n(2) by simp
    then show ?thesis using p h by (simp add: push_pair_def covered_def)
  next
    case True
    let ?r = "cs ! Suc n"
    have nx: "s_next (sy ! i) = Some ?r" using good_next(1) [OF g True] n(2) by simp
    obtain r fl where r: "sym_key sk (sy ! i) (sy ! ?r) = (r, fl)" by (cases "sym_key sk (sy ! i) (sy ! ?r)")
    have rk: "r = (if fl then None else key (piece tx sy i) (piece tx sy ?r))"
      using pair_sk [OF g True] r n(2) by (simp add: pkey_def)
    show ?thesis
    proof (cases r)
      case None
      then have "h' = h" "f' = (f \<or> fl)" using p nx r by (auto simp: push_pair_def)
      then show ?thesis using h rk None nx by (auto simp: covered_def)
    next
      case (Some k)
      then have f: "\<not> fl" "key (piece tx sy i) (piece tx sy ?r) = Some k" using rk by (auto split: if_splits)
      have m: "mh_push alloc h (cand sy k i ?r) = Some h'" "f' = f"
        using p nx r Some f(1) by (auto simp: push_pair_def cand_def split: option.splits)
      note pk = mh.push_ok [OF h(1) m(1)]
      have l: "linked sy None cs None (length tx)" using g by (simp add: good_def)
      have "sound sy (cand sy k i ?r)"
        using linked_bounds [OF l] i r Some True by (simp add: sound_def cand_def sym_key_def)
      then show ?thesis using pk h(2) m(2) nx f(2) by (auto simp: covered_def)
    qed
  qed
qed

lemma push_list_ok:
  "good (length tx) sy cs \<Longrightarrow> set is \<subseteq> set cs \<Longrightarrow> mh_ok h \<Longrightarrow> \<forall>c \<in># mh_cands h. sound sy c \<Longrightarrow>
    push_list sk alloc sy is (h, f) = Some (h', f') \<Longrightarrow>
    mh_ok h' \<and> (\<forall>c \<in># mh_cands h'. sound sy c) \<and> mh_cands h \<subseteq># mh_cands h'
    \<and> size (mh_cands h') \<le> size (mh_cands h) + length is
    \<and> (\<not> f' \<longrightarrow> \<not> f \<and> (\<forall>i \<in> set is. covered sy (mh_cands h') i))"
proof (induction "is" arbitrary: h f)
  case (Cons i "is")
  obtain h1 f1 where p: "push_pair sk alloc sy (Some i) (h, f) = Some (h1, f1)"
    "push_list sk alloc sy is (h1, f1) = Some (h', f')" using Cons.prems(5) by (auto split: option.splits)
  have "i \<in> set cs" "set is \<subseteq> set cs" using Cons.prems(2) by auto
  note one = push_pair_ok [OF Cons.prems(1) this(1) Cons.prems(3,4) p(1)]
  have rest: "mh_ok h' \<and> (\<forall>c \<in># mh_cands h'. sound sy c) \<and> mh_cands h1 \<subseteq># mh_cands h'
    \<and> size (mh_cands h') \<le> size (mh_cands h1) + length is
    \<and> (\<not> f' \<longrightarrow> \<not> f1 \<and> (\<forall>i \<in> set is. covered sy (mh_cands h') i))"
    using Cons.IH [OF Cons.prems(1) \<open>set is \<subseteq> set cs\<close> _ _ p(2)] one by blast
  then show ?case using one covered_mono [of sy "mh_cands h1" i "mh_cands h'"] subset_mset.trans by auto
qed simp

lemma push_list_None: "push_list sk alloc sy is hf = None \<Longrightarrow> \<exists>c. \<not> alloc c"
proof (induction "is" arbitrary: hf)
  case (Cons i "is")
  then show ?case by (auto simp: push_pair_def mh_push_def split: option.splits prod.splits if_splits)
qed simp

definition qinv :: "sym_t list \<Rightarrow> nat list \<Rightarrow> 'k mheap \<Rightarrow> bool \<Rightarrow> bool" where
  "qinv sy cs h f \<longleftrightarrow> good (length tx) sy cs \<and> (\<forall>i < length sy. i \<notin> set cs \<longrightarrow> s_len (sy ! i) = 0)
     \<and> mh_ok h \<and> (\<forall>c \<in># mh_cands h. sound sy c) \<and> (\<not> f \<longrightarrow> (\<forall>i \<in> set cs. covered sy (mh_cands h) i))"

text \<open>A live candidate names a pair of the list, with its key.\<close>

lemma live_pair:
  assumes q: "qinv sy cs h f" and c: "c \<in># mh_cands h" "mc_live c sy"
  obtains n where "Suc n < length cs" "mc_l c = cs ! n" "mc_r c = cs ! Suc n" "pkey sy cs n = Some (mc_key c)"
    "c = cand sy (mc_key c) (cs ! n) (cs ! Suc n)"
proof -
  have g: "good (length tx) sy cs" and s: "sound sy c" using q c(1) by (auto simp: qinv_def)
  have "mc_l c < length sy" "s_len (sy ! mc_l c) \<noteq> 0" using s c(2) by (auto simp: sound_def mc_live_def)
  then have "mc_l c \<in> set cs" using q by (auto simp: qinv_def)
  then obtain n where n: "n < length cs" "cs ! n = mc_l c" by (auto simp: in_set_conv_nth)
  have "Suc n < length cs"
  proof (rule ccontr)
    assume "\<not> Suc n < length cs"
    then show False using good_last [OF g n(1)] n(2) c(2) by (simp add: mc_live_def)
  qed
  moreover have r: "mc_r c = cs ! Suc n" using good_next(1) [OF g \<open>Suc n < length cs\<close>] n(2) c(2) by (simp add: mc_live_def)
  moreover have "pkey sy cs n = Some (mc_key c)"
  proof -
    have "fst (sym_key sk (sy ! (cs ! n)) (sy ! (cs ! Suc n))) = Some (mc_key c)"
      using s c(2) n(2) r by (simp add: sound_def sym_key_def mc_live_def)
    then show ?thesis using pair_sk [OF g \<open>Suc n < length cs\<close> surjective_pairing] by (auto split: if_splits)
  qed
  moreover have "c = cand sy (mc_key c) (cs ! n) (cs ! Suc n)"
    using c(2) n(2) r by (simp add: mc_live_def cand_def)
  ultimately show thesis using that n(2) by simp
qed

lemma best_live:
  assumes q: "qinv sy cs h False" and p: "mh_pop h = Some (c, h')" "mc_live c sy"
  obtains n where "Suc n < length cs" "mc_l c = cs ! n" "mc_r c = cs ! Suc n"
    "best_pair key (map (piece tx sy) cs) = Some n"
proof -
  have ok: "mh_ok h" and g: "good (length tx) sy cs" using q by (auto simp: qinv_def)
  have "c \<in># mh_cands h" using mh.pop_ok [OF ok p(1)] by simp
  then obtain n where n: "Suc n < length cs" "mc_l c = cs ! n" "mc_r c = cs ! Suc n" "pkey sy cs n = Some (mc_key c)"
    using live_pair [OF q _ p(2)] by metis
  have srt: "sorted_wrt (<) cs" using g by (simp add: good_def)
  have "best_pair key (map (piece tx sy) cs) = Some n"
  proof (rule best_pair_pkey)
    show "n < length cs - 1" using n(1) by simp
    show "pkey sy cs n = Some (mc_key c)" by fact
    fix m k' assume m: "m < length cs - 1" "pkey sy cs m = Some k'"
    then have sm: "Suc m < length cs" by simp
    have "covered sy (mh_cands h) (cs ! m)" using q sm by (simp add: qinv_def)
    then have "cand sy k' (cs ! m) (cs ! Suc m) \<in># mh_cands h"
      using good_next(1) [OF g sm] m(2) by (simp add: covered_def pkey_def)
    then have "mc_le c (cand sy k' (cs ! m) (cs ! Suc m))" using mh.pop_best [OF ok p(1)] by blast
    then have "mc_key c < k' \<or> mc_key c = k' \<and> cs ! n \<le> cs ! m"
      using n(2) by (auto simp: mc_le_def mc_better_def cand_def split: if_splits)
    then show "mc_key c < k' \<or> mc_key c = k' \<and> n \<le> m" using sorted_nth_le [OF srt] n(1) sm by simp
  qed
  then show thesis using that n by blast
qed

text \<open>Merging leaves the candidates sound, and covers every pair but the two that are new.\<close>

lemma merged_covered:
  assumes g: "good (length tx) sy cs" and c: "cs = xs @ b # j # ys"
    and cv: "covered sy (add_mset d H) i" and d: "mc_l d = b"
    and i: "i \<in> set (xs @ b # ys)" "i \<noteq> b" "last_or None xs \<noteq> Some i"
  shows "covered (absorb True sy b) H i"
proof -
  let ?s = "absorb True sy b"
  have l: "linked sy None (xs @ b # j # ys) None (length tx)" "distinct (xs @ b # j # ys)"
    using good_split g c by blast+
  note at = absorb_at(2) [OF l, where z = True]
  have ij: "i \<noteq> j" using i l(2) by auto
  have same: "r \<noteq> b \<and> r \<noteq> j" if n: "s_next (sy ! i) = Some r" for r
  proof -
    have "i \<in> set cs" using i(1) c by auto
    then obtain n where n: "Suc n < length cs" "cs ! n = i" "cs ! Suc n = r" using good_index [OF g _ n] by blast
    have b: "cs ! length xs = b" "cs ! Suc (length xs) = j" "Suc (length xs) < length cs"
      using c by (simp_all add: nth_append)
    have "n \<noteq> length xs" using n(2) b(1) i(2) by auto
    moreover have "Suc n \<noteq> length xs"
    proof
      assume "Suc n = length xs"
      then have x: "xs \<noteq> []" "length xs - 1 = n" by auto
      then have "last xs = i" using n(2) c \<open>Suc n = length xs\<close> by (simp add: last_conv_nth nth_append)
      then show False using i(3) x(1) by (simp add: last_or_def)
    qed
    ultimately show ?thesis
      using b n nth_eq_iff_index_eq [OF good_distinct [OF g], of "Suc n"] by (metis Suc_lessD nat.inject)
  qed
  have pc: "piece tx ?s r = piece tx sy r" "s_len (?s ! r) = s_len (sy ! r)" "s_next (?s ! r) = s_next (sy ! r)"
    if "r \<noteq> b" "r \<noteq> j" for r using at [of r] that by (auto simp: piece_def)
  show ?thesis unfolding covered_def
  proof (intro allI impI)
    fix r k
    assume a: "s_next (?s ! i) = Some r" "key (piece tx ?s i) (piece tx ?s r) = Some k"
    have n: "s_next (sy ! i) = Some r" using a(1) pc(3) [OF i(2) ij] by simp
    then have "key (piece tx sy i) (piece tx sy r) = Some k" using a(2) pc(1) i(2) ij same by simp
    then have "cand sy k i r \<in># add_mset d H" using cv n by (simp add: covered_def)
    moreover have "cand sy k i r = cand ?s k i r" using pc(2) i(2) ij same [OF n] by (simp add: cand_def)
    moreover have "cand sy k i r \<noteq> d" using d i(2) by (auto simp: cand_def)
    ultimately show "cand ?s k i r \<in># H" by simp
  qed
qed

lemma absorb_sound:
  assumes "good (length tx) sy cs" "cs = xs @ b # j # ys" "sound sy c"
  shows "sound (absorb z sy b) c"
proof -
  have l: "linked sy None (xs @ b # j # ys) None (length tx)" "distinct (xs @ b # j # ys)"
    using good_split assms(1,2) by blast+
  have "s_start (absorb z sy b ! i) = s_start (sy ! i)" for i using absorb_at(2) [OF l, of z i] by auto
  then show ?thesis using assms(3) absorb_at(1) [OF l] by (simp add: sound_def)
qed

text \<open>One pop of a live candidate.\<close>

lemma pop_live:
  assumes q: "qinv sy cs h f" and p: "mh_pop h = Some (c, h1)" "mc_live c sy"
    and ps: "push_list sk alloc (absorb True sy (mc_l c))
      (case s_prev (absorb True sy (mc_l c) ! mc_l c) of None \<Rightarrow> [mc_l c] | Some p \<Rightarrow> [p, mc_l c]) (h1, f) = Some (h', f')"
  obtains cs' where "qinv (absorb True sy (mc_l c)) cs' h' f'" "length cs = Suc (length cs')"
    "length (absorb True sy (mc_l c)) = length sy" "size (mh_cands h') \<le> Suc (size (mh_cands h))"
    "\<not> f' \<longrightarrow> \<not> f \<and> merge_pieces key (map (piece tx sy) cs) = merge_pieces key (map (piece tx (absorb True sy (mc_l c))) cs')"
proof -
  define b where "b = mc_l c"
  define s where "s = absorb True sy b"
  have ok: "mh_ok h" and g: "good (length tx) sy cs" and cs: "\<forall>c \<in># mh_cands h. sound sy c" using q by (auto simp: qinv_def)
  note pop = mh.pop_ok [OF ok p(1)]
  have "c \<in># mh_cands h" using pop by simp
  then obtain n where n: "Suc n < length cs" "b = cs ! n" using live_pair [OF q _ p(2)] b_def by metis
  define xs j ys where "xs = take n cs" and "j = cs ! Suc n" and "ys = drop (Suc (Suc n)) cs"
  have c: "cs = xs @ b # j # ys" using split_pair [OF n(1)] n(2) by (simp add: xs_def j_def ys_def)
  have lx: "length xs = n" using n(1) by (simp add: xs_def)
  have l: "linked sy None (xs @ b # j # ys) None (length tx)" "distinct (xs @ b # j # ys)" using good_split g c by blast+
  have gs: "good (length tx) s (xs @ b # ys)" and ms: "map (piece tx s) (xs @ b # ys) = join_at n (map (piece tx sy) cs)"
    and ls: "length s = length sy"
    using good_absorb [OF g c, where z = True] lx by (simp_all add: s_def)
  have pv: "s_prev (s ! b) = last_or None xs" using gs by (simp add: good_def linked_append)
  define new where "new = (case last_or None xs of None \<Rightarrow> [b] | Some p \<Rightarrow> [p, b])"
  have ps': "push_list sk alloc s new (h1, f) = Some (h', f')"
    using ps unfolding b_def [symmetric] s_def [symmetric] pv new_def .
  have ns: "set new \<subseteq> set (xs @ b # ys)" "length new \<le> 2" "b \<in> set new" "\<And>p. last_or None xs = Some p \<Longrightarrow> p \<in> set new"
    by (auto simp: new_def last_or_def)
  have snd: "\<forall>c \<in># mh_cands h1. sound s c" using cs pop absorb_sound [OF g c] by (auto simp: s_def)
  note pl = push_list_ok [OF gs ns(1) conjunct1 [OF pop] snd ps']
  have zero: "\<forall>i < length s. i \<notin> set (xs @ b # ys) \<longrightarrow> s_len (s ! i) = 0"
  proof (intro allI impI)
    fix i assume i: "i < length s" "i \<notin> set (xs @ b # ys)"
    have "i \<noteq> j \<Longrightarrow> s_len (sy ! i) = 0" using q i ls c by (auto simp: qinv_def)
    moreover have "ys \<noteq> [] \<Longrightarrow> i \<noteq> hd ys" using i(2) by auto
    ultimately show "s_len (s ! i) = 0" using absorb_at(2) [OF l, where z = True and i = i] i(2) by (auto simp: s_def)
  qed
  have cov: "\<forall>i \<in> set (xs @ b # ys). covered s (mh_cands h') i" if nf: "\<not> f'"
  proof
    fix i assume i: "i \<in> set (xs @ b # ys)"
    show "covered s (mh_cands h') i"
    proof (cases "i \<in> set new")
      case False
      then have "i \<noteq> b" "last_or None xs \<noteq> Some i" using ns(3,4) by auto
      moreover have "covered sy (add_mset c (mh_cands h1)) i" using q pl nf pop i c by (auto simp: qinv_def)
      ultimately have "covered s (mh_cands h1) i" using merged_covered [OF g c _ _ i] by (simp add: s_def b_def)
      then show ?thesis using covered_mono pl by blast
    qed (use pl nf in blast)
  qed
  have "qinv s (xs @ b # ys) h' f'" using gs zero pl cov by (simp add: qinv_def)
  moreover have "size (mh_cands h') \<le> Suc (size (mh_cands h))" using pl ns(2) pop by auto
  moreover have "\<not> f' \<longrightarrow> \<not> f \<and> merge_pieces key (map (piece tx sy) cs) = merge_pieces key (map (piece tx s) (xs @ b # ys))"
  proof
    assume "\<not> f'"
    then have nf: "\<not> f" using pl by blast
    then have "qinv sy cs h False" using q by simp
    then obtain m where m: "Suc m < length cs" "b = cs ! m" "best_pair key (map (piece tx sy) cs) = Some m"
      using best_live [OF _ p] b_def by metis
    then have "m = n" using n nth_eq_iff_index_eq [OF good_distinct [OF g], of m n] by simp
    then show "\<not> f \<and> merge_pieces key (map (piece tx sy) cs) = merge_pieces key (map (piece tx s) (xs @ b # ys))"
      using merge_step [OF m(3)] ms nf by simp
  qed
  moreover have "length cs = Suc (length (xs @ b # ys))" using c by simp
  ultimately show thesis using that [of "xs @ b # ys"] ls by (simp add: s_def b_def)
qed

lemma merge_queue_correct:
  "qinv sy cs h f \<Longrightarrow> size (mh_cands h) + 2 * length cs \<le> n + 1 \<Longrightarrow>
    (case merge_queue sk alloc n sy (h, f) of
       None \<Rightarrow> False
     | Some None \<Rightarrow> \<exists>c. \<not> alloc c
     | Some (Some (sy', f')) \<Rightarrow> \<exists>cs'. good (length tx) sy' cs' \<and> length sy' = length sy
         \<and> (\<not> f' \<longrightarrow> \<not> f \<and> map (piece tx sy') cs' = merge_pieces key (map (piece tx sy) cs)))"
proof (induction n arbitrary: sy cs h f)
  case 0
  then have "cs \<noteq> []" by (auto simp: qinv_def good_def)
  then show ?case using 0(2) by (cases cs) auto
next
  case (Suc n)
  have ok: "mh_ok h" and g: "good (length tx) sy cs" using Suc.prems by (auto simp: qinv_def)
  show ?case
  proof (cases "mh_pop h")
    case None
    then have "mh_cands h = {#}" using mh.pop_None [OF ok] by simp
    then have "\<not> f \<longrightarrow> (\<forall>n. Suc n < length cs \<longrightarrow> pkey sy cs n = None)"
      using Suc.prems(1) good_next(1) [OF g] by (auto simp: qinv_def covered_def pkey_def)
    then show ?thesis using None g merge_end best_pair_no_pkey by auto
  next
    case (Some ch)
    obtain c h1 where ch: "mh_pop h = Some (c, h1)" using Some by (cases ch) auto
    note pop = mh.pop_ok [OF ok ch]
    show ?thesis
    proof (cases "mc_live c sy")
      case False
      have "covered sy (mh_cands h1) i" if "i \<in> set cs" "\<not> f" for i
        unfolding covered_def
      proof (intro allI impI)
        fix r k assume a: "s_next (sy ! i) = Some r" "key (piece tx sy i) (piece tx sy r) = Some k"
        then have "cand sy k i r \<in># mh_cands h" using Suc.prems(1) that by (auto simp: qinv_def covered_def)
        moreover have "cand sy k i r \<noteq> c" using False a(1) by (auto simp: mc_live_def cand_def)
        ultimately show "cand sy k i r \<in># mh_cands h1" using pop by simp
      qed
      then have "qinv sy cs h1 f" using Suc.prems(1) pop by (simp add: qinv_def)
      moreover have "size (mh_cands h1) + 2 * length cs \<le> n + 1" using Suc.prems(2) pop by simp
      ultimately show ?thesis using Suc.IH [of sy cs h1 f] ch False by simp
    next
      case True
      let ?s = "absorb True sy (mc_l c)"
      let ?new = "case s_prev (?s ! mc_l c) of None \<Rightarrow> [mc_l c] | Some p \<Rightarrow> [p, mc_l c]"
      show ?thesis
      proof (cases "push_list sk alloc ?s ?new (h1, f)")
        case None
        have "\<exists>c. \<not> alloc c" using push_list_None [OF None] .
        then show ?thesis using ch True None by (simp add: Let_def)
      next
        case (Some hf)
        obtain h' f' where hf: "push_list sk alloc ?s ?new (h1, f) = Some (h', f')" using Some by (cases hf) auto
        obtain cs' where cs': "qinv ?s cs' h' f'" "length cs = Suc (length cs')" "length ?s = length sy"
          "size (mh_cands h') \<le> Suc (size (mh_cands h))"
          "\<not> f' \<longrightarrow> \<not> f \<and> merge_pieces key (map (piece tx sy) cs) = merge_pieces key (map (piece tx ?s) cs')"
          using pop_live [OF Suc.prems(1) ch True hf] by metis
        have "size (mh_cands h') + 2 * length cs' \<le> n + 1" using cs'(2,4) Suc.prems(2) by simp
        from Suc.IH [OF cs'(1) this] show ?thesis
          using ch True hf cs'(3,5) by (auto simp: Let_def split: option.splits)
      qed
    qed
  qed
qed

end

subsection \<open>Keys that never fail\<close>

definition quiet :: "'k pair_key \<Rightarrow> bool" where
  "quiet sk \<longleftrightarrow> (\<forall>a la b lb. \<not> snd (sk a la b lb))"

lemma fold_quiet: "quiet sk \<Longrightarrow> snd (fold (scan_step sk sy) is (acc, f)) = f"
proof (induction "is" arbitrary: acc f)
  case (Cons i "is")
  obtain a g where s: "scan_step sk sy i (acc, f) = (a, g)" by (cases "scan_step sk sy i (acc, f)")
  then have "g = f" using Cons.prems
    by (auto simp: scan_step_def quiet_def sym_key_def split: option.splits prod.splits) (metis snd_conv)+
  then show ?case using Cons s by simp
qed simp

lemma rescan_quiet: "quiet sk \<Longrightarrow> rescan sk n sy f = Some (sy', f') \<Longrightarrow> f' = f"
proof (induction n arbitrary: sy f)
  case (Suc n)
  obtain r g where rg: "scan sk sy = (r, g)" by (cases "scan sk sy")
  then have "\<not> g" using fold_quiet [OF Suc.prems(1)] by (metis scan_def snd_conv)
  then show ?case using Suc rg by (auto split: option.splits)
qed simp

lemma push_quiet: "quiet sk \<Longrightarrow> push_list sk alloc sy is (h, f) = Some (h', f') \<Longrightarrow> f' = f"
proof (induction "is" arbitrary: h f)
  case (Cons i "is")
  obtain h1 f1 where p: "push_pair sk alloc sy (Some i) (h, f) = Some (h1, f1)"
    "push_list sk alloc sy is (h1, f1) = Some (h', f')" using Cons.prems(2) by (auto split: option.splits)
  have "f1 = f"
    using p(1) Cons.prems(1)
    by (auto simp: push_pair_def sym_key_def quiet_def split: option.splits prod.splits) (metis snd_conv)+
  then show ?case using Cons.IH [OF Cons.prems(1) p(2)] by simp
qed simp

lemma merge_quiet: "quiet sk \<Longrightarrow> merge_queue sk alloc n sy (h, f) = Some (Some (sy', f')) \<Longrightarrow> f' = f"
proof (induction n arbitrary: sy h f)
  case (Suc n)
  show ?case
  proof (cases "mh_pop h")
    case (Some ch)
    obtain c h1 where ch: "mh_pop h = Some (c, h1)" using Some by (cases ch) auto
    show ?thesis
    proof (cases "mc_live c sy")
      case True
      then obtain h' g where p: "push_list sk alloc (absorb True sy (mc_l c))
          (case s_prev (absorb True sy (mc_l c) ! mc_l c) of None \<Rightarrow> [mc_l c] | Some p \<Rightarrow> [p, mc_l c]) (h1, f) = Some (h', g)"
        "merge_queue sk alloc n (absorb True sy (mc_l c)) (h', g) = Some (Some (sy', f'))"
        using Suc.prems(2) ch True by (auto simp: Let_def split: option.splits)
      then show ?thesis using Suc.IH [OF Suc.prems(1)] push_quiet [OF Suc.prems(1)] by blast
    qed (use Suc ch in simp)
  qed (use Suc.prems in simp)
qed simp

lemma queue_quiet: "quiet sk \<Longrightarrow> queue_merge sk alloc sy = Some (Some (sy', f')) \<Longrightarrow> \<not> f'"
  using push_quiet merge_quiet by (auto simp: queue_merge_def split: option.splits) blast+

subsection \<open>From a segment to its pieces\<close>

text \<open>The characters of a segment; a character that the end cuts off counts byte by byte.\<close>

function char_pieces :: "bytes \<Rightarrow> bytes list" where
  "char_pieces s =
    (if s = [] then []
     else let l = (if u8_len (hd s) > length s then 1 else u8_len (hd s)) in take l s # char_pieces (drop l s))"
  by pat_completeness auto
termination
  by (relation "measure length") (use u8_len_pos in \<open>auto intro: diff_less\<close>)

declare char_pieces.simps [simp del]

lemma char_pieces_Nil [simp]: "char_pieces [] = []"
  by (subst char_pieces.simps) simp

lemma char_syms_nth:
  "i \<le> length s \<Longrightarrow> k < length (char_syms s i n) \<Longrightarrow>
    s_prev (char_syms s i n ! k) = (if n + k = 0 then None else Some (n + k - 1))
    \<and> s_next (char_syms s i n ! k) = Some (n + k + 1) \<and> 0 < s_len (char_syms s i n ! k)
    \<and> s_start (char_syms s i n ! k) + s_len (char_syms s i n ! k)
      = (if Suc k < length (char_syms s i n) then s_start (char_syms s i n ! Suc k) else length s)"
proof (induction s i n arbitrary: k rule: char_syms.induct)
  case (1 s i n)
  show ?case
  proof (cases "i < length s")
    case False
    then show ?thesis using 1(3) by (subst (asm) char_syms.simps) simp
  next
    case True
    let ?l = "sym_len s i"
    let ?r = "char_syms s (i + ?l) (n + 1)"
    have c: "char_syms s i n = \<lparr>s_start = i, s_len = ?l, s_prev = (if n = 0 then None else Some (n - 1)), s_next = Some (n + 1)\<rparr> # ?r"
      using True by (subst char_syms.simps) simp
    have e: "i + ?l \<le> length s" using True by (simp add: sym_len_def Let_def)
    have first: "?r = [] \<Longrightarrow> i + ?l = length s" "?r \<noteq> [] \<Longrightarrow> s_start (?r ! 0) = i + ?l"
      using e by (subst (asm) char_syms.simps, simp split: if_splits)+ (subst char_syms.simps, simp)
    show ?thesis
    proof (cases k)
      case 0
      then show ?thesis using c first sym_len_pos [of s i] by simp
    next
      case (Suc m)
      then have "m < length ?r" using 1(3) c by simp
      then show ?thesis using 1(1) [OF True e, of m] Suc c by simp
    qed
  qed
qed

lemma char_syms_pieces:
  "map (\<lambda>x. take (s_len x) (drop (s_start x) s)) (char_syms s i n) = char_pieces (drop i s)"
proof (induction s i n rule: char_syms.induct)
  case (1 s i n)
  show ?case
  proof (cases "i < length s")
    case True
    let ?l = "sym_len s i"
    have "char_syms s i n = \<lparr>s_start = i, s_len = ?l, s_prev = (if n = 0 then None else Some (n - 1)), s_next = Some (n + 1)\<rparr>
        # char_syms s (i + ?l) (n + 1)" using True by (subst char_syms.simps) simp
    moreover have "char_pieces (drop i s) = take ?l (drop i s) # char_pieces (drop ?l (drop i s))"
      using True by (subst char_pieces.simps) (auto simp: sym_len_def Let_def hd_drop_conv_nth)
    ultimately show ?thesis using 1 True by (simp add: add.commute)
  next
    case False
    then have "char_syms s i n = []" "drop i s = []" by (subst char_syms.simps, simp_all)
    then show ?thesis by simp
  qed
qed

lemma linked_upt:
  assumes "\<And>k. k < n \<Longrightarrow> s_prev (sy ! k) = (if k = 0 then None else Some (k - 1))
    \<and> s_next (sy ! k) = (if Suc k < n then Some (Suc k) else None) \<and> 0 < s_len (sy ! k)
    \<and> s_start (sy ! k) + s_len (sy ! k) = (if Suc k < n then s_start (sy ! Suc k) else e)"
    and "n \<le> length sy" "m \<le> n"
  shows "linked sy (if m = 0 then None else Some (m - 1)) [m..<n] None e"
  using assms(3)
proof (induction "n - m" arbitrary: m)
  case (Suc d)
  then have m: "m < n" by simp
  have "linked sy (Some m) [Suc m..<n] None e" using Suc.hyps(1) [of "Suc m"] Suc.hyps(2) m by simp
  moreover have "first_or [Suc m..<n] None = (if Suc m < n then Some (Suc m) else None)"
    "start_or sy [Suc m..<n] e = (if Suc m < n then s_start (sy ! Suc m) else e)"
    by (simp_all add: upt_rec [of "Suc m"])
  ultimately show ?case using assms(1) [OF m] assms(2) m by (subst upt_conv_Cons) simp_all
qed simp

lemma init_good:
  assumes "s \<noteq> []"
  shows "good (length s) (init_syms s) [0..<length (init_syms s)]"
    and "map (piece s (init_syms s)) [0..<length (init_syms s)] = char_pieces s"
proof -
  let ?c = "char_syms s 0 0"
  let ?n = "length ?c"
  have n: "0 < ?n" using assms by (subst char_syms.simps) simp
  have i: "init_syms s = ?c[?n - 1 := (?c ! (?n - 1))\<lparr>s_next := None\<rparr>]" using n by (simp add: init_syms_def Let_def)
  have at: "init_syms s ! k = (if k = ?n - 1 then (?c ! k)\<lparr>s_next := None\<rparr> else ?c ! k)" if "k < ?n" for k
    using that i by (simp add: nth_list_update)
  have "linked (init_syms s) (if (0::nat) = 0 then None else Some (0 - 1)) [0..<?n] None (length s)"
  proof (rule linked_upt)
    fix k assume k: "k < ?n"
    then have "s_start (init_syms s ! Suc k) = s_start (?c ! Suc k)" if "Suc k < ?n" using at [OF that] by simp
    then show "s_prev (init_syms s ! k) = (if k = 0 then None else Some (k - 1))
      \<and> s_next (init_syms s ! k) = (if Suc k < ?n then Some (Suc k) else None) \<and> 0 < s_len (init_syms s ! k)
      \<and> s_start (init_syms s ! k) + s_len (init_syms s ! k) = (if Suc k < ?n then s_start (init_syms s ! Suc k) else length s)"
      using char_syms_nth [of 0 s k 0] k at [OF k] by auto
  qed (use i in simp_all)
  then show "good (length s) (init_syms s) [0..<length (init_syms s)]"
    using n i by (simp add: good_def sorted_wrt_upt)
  have "map (piece s (init_syms s)) [0..<length (init_syms s)] = map (\<lambda>x. take (s_len x) (drop (s_start x) s)) ?c"
  proof (rule nth_equalityI)
    show "length (map (piece s (init_syms s)) [0..<length (init_syms s)]) = length (map (\<lambda>x. take (s_len x) (drop (s_start x) s)) ?c)"
      using i by simp
    fix k assume "k < length (map (piece s (init_syms s)) [0..<length (init_syms s)])"
    then have k: "k < ?n" "k < length (init_syms s)" using i by simp_all
    have "piece s (init_syms s) k = take (s_len (?c ! k)) (drop (s_start (?c ! k)) s)"
      using at [OF k(1)] by (simp add: piece_def)
    then show "map (piece s (init_syms s)) [0..<length (init_syms s)] ! k = map (\<lambda>x. take (s_len x) (drop (s_start x) s)) ?c ! k"
      using k by simp
  qed
  then show "map (piece s (init_syms s)) [0..<length (init_syms s)] = char_pieces s"
    using char_syms_pieces [of s 0 0] by simp
qed

context merger
begin

text \<open>Both loops, started on the characters of the segment.\<close>

lemma rescan_init:
  assumes "tx \<noteq> []" "n \<ge> length (init_syms tx)"
  shows "\<exists>sy f. rescan sk n (init_syms tx) False = Some (sy, f)
    \<and> (\<not> f \<longrightarrow> map (piece tx sy) (chain sy (length sy) (Some 0)) = merge_pieces key (char_pieces tx))"
  using rescan_correct [OF init_good(1) [OF assms(1)], of n False] assms(2) init_good(2) [OF assms(1)] good_walks(2)
  by fastforce

lemma init_covered:
  assumes g: "good (length tx) sy cs" and c: "\<forall>i \<in> set (butlast cs). covered sy H i" and i: "i \<in> set cs"
  shows "covered sy H i"
proof (cases "i \<in> set (butlast cs)")
  case False
  then have "s_next (sy ! i) = None"
    using good_index [OF g i] set_butlast_nth [of i cs] by (cases "s_next (sy ! i)") auto
  then show ?thesis by (simp add: covered_def)
qed (use c in blast)

lemma queue_init:
  assumes "tx \<noteq> []"
  shows "case queue_merge sk alloc (init_syms tx) of
      None \<Rightarrow> False
    | Some None \<Rightarrow> \<exists>c. \<not> alloc c
    | Some (Some (sy, f)) \<Rightarrow>
        \<not> f \<longrightarrow> map (piece tx sy) (chain sy (length sy) (Some 0)) = merge_pieces key (char_pieces tx)"
proof -
  let ?s = "init_syms tx"
  let ?cs = "[0..<length ?s]"
  have g: "good (length tx) ?s ?cs" using init_good(1) [OF assms] .
  have lf: "lefts ?s (length ?s) 0 = butlast ?cs" using good_walks(1) [OF g] .
  show ?thesis
  proof (cases "push_list sk alloc ?s (butlast ?cs) (mh_init, False)")
    case None
    then show ?thesis using push_list_None [OF None] by (simp add: queue_merge_def lf)
  next
    case (Some hf)
    obtain h f where hf: "push_list sk alloc ?s (butlast ?cs) (mh_init, False) = Some (h, f)" using Some by (cases hf) auto
    have i: "mh_ok mh_init" "\<forall>c \<in># mh_cands mh_init. sound ?s c" "mh_cands (mh_init :: 'k mheap) = {#}" by (simp_all add: mh_init_ok)
    have sb: "set (butlast ?cs) \<subseteq> set ?cs" by (meson in_set_butlastD subsetI)
    note p = push_list_ok [OF g sb i(1,2) hf]
    have "qinv ?s ?cs h f" using g p init_covered [OF g] by (simp add: qinv_def)
    moreover have "size (mh_cands h) + 2 * length ?cs \<le> 3 * length ?s + 1"
    proof -
      have "size (mh_cands h) \<le> length (butlast ?cs)" using p i(3) by simp
      then show ?thesis by simp
    qed
    ultimately have "case merge_queue sk alloc (3 * length ?s) ?s (h, f) of
       None \<Rightarrow> False
     | Some None \<Rightarrow> \<exists>c. \<not> alloc c
     | Some (Some (sy', f')) \<Rightarrow> \<exists>cs'. good (length tx) sy' cs' \<and> length sy' = length ?s
         \<and> (\<not> f' \<longrightarrow> \<not> f \<and> map (piece tx sy') cs' = merge_pieces key (map (piece tx ?s) ?cs))"
      by (rule merge_queue_correct)
    then show ?thesis using hf lf init_good(2) [OF assms] good_walks(2)
      by (auto simp: queue_merge_def split: option.splits)
  qed
qed

end

end
