(* ===== verification/Tok_Map.thy ===== *)
theory Tok_Map
  imports Probe
begin

unbundle bit_operations_syntax

section \<open>The tokenizer's string table (tokenizer.c)\<close>

text \<open>
  \<^verbatim>\<open>hmap\<close>: the vocabulary (piece to id) and the merges (pair to rank) are looked up in a table by
  linear probing that never grows. \<^verbatim>\<open>NULL\<close> is the empty array. The result of a lookup is
  \<open>None\<close> for a loop that does not end, which the contract below excludes.
\<close>

definition fnv1a :: "bytes \<Rightarrow> u64" where
  "fnv1a s = fold (\<lambda>c h. (h XOR ucast c) * 0x100000001b3) s 0xcbf29ce484222325"

record hmap_ent =
  he_key :: bytes
  he_klen :: u32
  he_val :: int

type_synonym hmap = "hmap_ent option list"

text \<open>The capacity \<open>2 ^ k\<close>, from 16 on, doubled while it is too small.\<close>

function init_cap :: "nat \<Rightarrow> nat \<Rightarrow> nat" where
  "init_cap want k = (if 2 ^ k < want \<and> (2::nat) ^ k \<le> (2 ^ 64 - 1) div 2 then init_cap want (k + 1) else 2 ^ k)"
  by pat_completeness auto
termination
proof (relation "measure (\<lambda>(want, k). 64 - k)", simp)
  fix want k :: nat
  assume "2 ^ k < want \<and> (2::nat) ^ k \<le> (2 ^ 64 - 1) div 2"
  then have "(2::nat) ^ k < 2 ^ 64" by simp
  then have "k < 64" using power_less_imp_less_exp by (metis numeral_One numeral_less_iff semiring_norm(76))
  then show "((want, k + 1), want, k) \<in> measure (\<lambda>(want, k). 64 - k)" by simp
qed

declare init_cap.simps [simp del]

definition hmap_init :: "(nat \<Rightarrow> bool) \<Rightarrow> nat \<Rightarrow> bool \<times> hmap" where
  "hmap_init alloc expect =
    (let cap = init_cap (expect * 2 mod 2 ^ 64) 4
     in if alloc cap then (True, replicate cap None) else (False, []))"

definition he_is :: "bytes \<Rightarrow> hmap_ent \<Rightarrow> bool" where
  "he_is k e \<longleftrightarrow> unat (he_klen e) = length k \<and> take (length k) (he_key e) = k"

definition hmap_put :: "hmap \<Rightarrow> bytes \<Rightarrow> int \<Rightarrow> hmap option" where
  "hmap_put m k v =
    (case probe (length m) (he_is k) m (home (fnv1a k) (length m)) of
       None \<Rightarrow> None
     | Some i \<Rightarrow> Some (if m ! i \<noteq> None then m
         else m[i := Some \<lparr>he_key = k, he_klen = of_nat (length k), he_val = v\<rparr>]))"

definition hmap_get :: "hmap \<Rightarrow> bytes \<Rightarrow> int option" where
  "hmap_get m k =
    (if m = [] then Some (-1)
     else case probe (length m) (he_is k) m (home (fnv1a k) (length m)) of
       None \<Rightarrow> None
     | Some i \<Rightarrow> Some (case m ! i of None \<Rightarrow> -1 | Some e \<Rightarrow> he_val e))"

text \<open>The loops of \<^verbatim>\<open>tokenizer_init\<close> that load the pieces and the merges: item \<open>i\<close> gets the value \<open>i\<close>.\<close>

fun put_all :: "hmap \<Rightarrow> int \<Rightarrow> bytes list \<Rightarrow> hmap option" where
  "put_all m i [] = Some m"
| "put_all m i (k # ks) = (case hmap_put m k i of None \<Rightarrow> None | Some m' \<Rightarrow> put_all m' (i + 1) ks)"

definition load_table :: "(nat \<Rightarrow> bool) \<Rightarrow> bytes list \<Rightarrow> hmap option" where
  "load_table alloc ks =
    (case hmap_init alloc (length ks) of (ok, m) \<Rightarrow> if \<not> ok then None else put_all m 0 ks)"

subsection \<open>The contract of a table that keeps the first entry\<close>

locale first_wins =
  fixes put :: "'m \<Rightarrow> 'k \<Rightarrow> 'v \<Rightarrow> 'm option"
    and get :: "'m \<Rightarrow> 'k \<Rightarrow> 'v option"
    and absent :: 'v
    and view :: "'m \<Rightarrow> 'k \<Rightarrow> 'v option"
    and ok :: "nat \<Rightarrow> 'm \<Rightarrow> bool"
    and storable :: "'k \<Rightarrow> bool"
  assumes get_view: "ok n m \<Longrightarrow> get m k = Some (case view m k of None \<Rightarrow> absent | Some v \<Rightarrow> v)"
    and put_view: "ok (Suc n) m \<Longrightarrow> storable k \<Longrightarrow>
      \<exists>m'. put m k v = Some m' \<and> ok n m' \<and> view m' = (if view m k = None then (view m)(k \<mapsto> v) else view m)"
    and ok_less: "ok n m \<Longrightarrow> n' \<le> n \<Longrightarrow> ok n' m"
begin

fun put_each :: "'m \<Rightarrow> ('k \<times> 'v) list \<Rightarrow> 'm option" where
  "put_each m [] = Some m"
| "put_each m ((k, v) # xs) = (case put m k v of None \<Rightarrow> None | Some m' \<Rightarrow> put_each m' xs)"

lemma put_each_view:
  "ok (length xs) m \<Longrightarrow> \<forall>(k, v) \<in> set xs. storable k \<Longrightarrow>
    \<exists>m'. put_each m xs = Some m' \<and> ok 0 m' \<and>
      (\<forall>j. view m' j = (case view m j of None \<Rightarrow> map_of xs j | Some v \<Rightarrow> Some v))"
proof (induction xs arbitrary: m)
  case (Cons x xs)
  obtain k v where x: "x = (k, v)" by (cases x)
  obtain m1 where m1: "put m k v = Some m1" "ok (length xs) m1"
    "view m1 = (if view m k = None then (view m)(k \<mapsto> v) else view m)"
    using put_view [of "length xs" m k v] Cons.prems x by auto
  obtain m2 where m2: "put_each m1 xs = Some m2" "ok 0 m2"
    "\<forall>j. view m2 j = (case view m1 j of None \<Rightarrow> map_of xs j | Some v \<Rightarrow> Some v)"
    using Cons.IH [OF m1(2)] Cons.prems(2) by auto
  have "view m2 j = (case view m j of None \<Rightarrow> map_of (x # xs) j | Some v \<Rightarrow> Some v)" for j
    using m1(3) m2(3) x by (auto split: option.splits)
  then show ?case using m1(1) m2(1,2) x by auto
qed (auto split: option.splits)

end

subsection \<open>The hash table keeps the contract\<close>

definition hm_view :: "hmap \<Rightarrow> bytes \<Rightarrow> int option" where
  "hm_view m k = map_option he_val (find (\<lambda>e. he_key e = k) (map the (filter (\<lambda>x. x \<noteq> None) m)))"

definition hm_ok :: "nat \<Rightarrow> hmap \<Rightarrow> bool" where
  "hm_ok n m \<longleftrightarrow> (\<exists>k. length m = 2 ^ k) \<and> occupied m + n < length m
     \<and> placed he_key (\<lambda>k. home (fnv1a k) (length m)) m
     \<and> (\<forall>e \<in> entries m. length (he_key e) < 2 ^ 32 \<and> he_klen e = of_nat (length (he_key e)))"

lemma placed_unique:
  assumes "placed key hm sl" "e \<in> entries sl" "e' \<in> entries sl" "key e = key e'"
  shows "e = e'"
proof -
  have at: "\<exists>d. sl ! around sl (hm (key e)) d = Some x
      \<and> (\<forall>j < d. \<exists>y. sl ! around sl (hm (key e)) j = Some y \<and> key y \<noteq> key e)"
    if "x \<in> entries sl" "key x = key e" for x
  proof -
    have "Some x \<in> set sl" using that(1) by (simp add: entries_def)
    then obtain p where "p < length sl" "sl ! p = Some x" unfolding in_set_conv_nth by blast
    then obtain d where "p = around sl (hm (key x)) d"
      "\<forall>j < d. \<exists>y. sl ! around sl (hm (key x)) j = Some y \<and> key y \<noteq> key x"
      using assms(1) unfolding placed_def by blast
    then show ?thesis using \<open>sl ! p = Some x\<close> that(2) by auto
  qed
  obtain d where d: "sl ! around sl (hm (key e)) d = Some e"
    "\<forall>j < d. \<exists>y. sl ! around sl (hm (key e)) j = Some y \<and> key y \<noteq> key e" using at [OF assms(2) refl] by blast
  obtain d' where d': "sl ! around sl (hm (key e)) d' = Some e'"
    "\<forall>j < d'. \<exists>y. sl ! around sl (hm (key e)) j = Some y \<and> key y \<noteq> key e"
    using at [OF assms(3) assms(4) [symmetric]] by blast
  show ?thesis using d d' assms(4) by (cases d d' rule: linorder_cases) auto
qed

lemma hm_entries: "set (map the (filter (\<lambda>x. x \<noteq> None) m)) = entries m"
  by (force simp: entries_def)

lemma find_Some: "find p xs = Some x \<Longrightarrow> x \<in> set xs" "find p xs = Some x \<Longrightarrow> p x"
  by (induction xs) (auto split: if_splits)

lemma hm_view_iff:
  assumes "hm_ok n m"
  shows "hm_view m k = Some v \<longleftrightarrow> (\<exists>e \<in> entries m. he_key e = k \<and> he_val e = v)"
proof -
  let ?l = "map the (filter (\<lambda>x. x \<noteq> None) m)"
  have pl: "placed he_key (\<lambda>k. home (fnv1a k) (length m)) m" using assms by (simp add: hm_ok_def)
  show ?thesis
  proof (cases "find (\<lambda>e. he_key e = k) ?l")
    case None
    then have "\<forall>e \<in> entries m. he_key e \<noteq> k" unfolding find_None_iff hm_entries [symmetric] by blast
    then show ?thesis using None by (auto simp: hm_view_def)
  next
    case (Some e)
    have e: "e \<in> entries m" "he_key e = k"
      using find_Some [OF Some] by (simp_all only: hm_entries)
    have "e' = e" if "e' \<in> entries m" "he_key e' = k" for e'
      using placed_unique [OF pl that(1) e(1)] that e by simp
    then have "(\<exists>e \<in> entries m. he_key e = k \<and> he_val e = v) \<longleftrightarrow> he_val e = v" using e by blast
    then show ?thesis using Some by (simp add: hm_view_def)
  qed
qed

lemma hm_view_None: "hm_ok n m \<Longrightarrow> hm_view m k = None \<longleftrightarrow> k \<notin> he_key ` entries m"
proof -
  assume ok: "hm_ok n m"
  show ?thesis
  proof (cases "hm_view m k")
    case None
    then have "e \<in> entries m \<Longrightarrow> he_key e \<noteq> k" for e using hm_view_iff [OF ok, of k "he_val e"] by auto
    then show ?thesis using None by blast
  next
    case (Some v)
    then show ?thesis using hm_view_iff [OF ok, of k v] by auto
  qed
qed

lemma probe_cong:
  assumes "length sl = 2 ^ k" "at < length sl" "\<forall>e \<in> entries sl. mt e = mt' e"
  shows "probe n mt sl at = probe n mt' sl at"
  using assms(2)
proof (induction n arbitrary: at)
  case (Suc n)
  have "(at + 1) AND (length sl - 1) < length sl" using assms(1) and_pow2_mod [of "at + 1" k] by simp
  moreover have "mt e = mt' e" if "sl ! at = Some e" for e
  proof -
    have "e \<in> entries sl" using Suc.prems that by (auto simp: entries_def) (metis nth_mem)
    then show ?thesis using assms(3) by blast
  qed
  ultimately show ?case using Suc.IH by (auto split: option.splits)
qed simp

lemma he_is_key: "hm_ok n m \<Longrightarrow> e \<in> entries m \<Longrightarrow> he_is k e \<longleftrightarrow> he_key e = k"
  by (auto simp: hm_ok_def he_is_def unat_of_nat)

lemma hm_probe:
  assumes ok: "hm_ok n m"
  obtains q d where "probe (length m) (he_is k) m (home (fnv1a k) (length m)) = Some q" "q < length m"
    "d < length m" "q = around m (home (fnv1a k) (length m)) d"
    "\<forall>j < d. \<exists>y. m ! around m (home (fnv1a k) (length m)) j = Some y \<and> he_key y \<noteq> k"
    "case m ! q of None \<Rightarrow> k \<notin> he_key ` entries m | Some e \<Rightarrow> he_key e = k \<and> e \<in> entries m"
proof -
  obtain c where c: "length m = 2 ^ c" using ok by (auto simp: hm_ok_def)
  have pl: "placed he_key (\<lambda>k. home (fnv1a k) (length m)) m" using ok by (simp add: hm_ok_def)
  have hm: "home (fnv1a k) (length m) < length m" using c by (simp add: home_less)
  have "occupied m < length m" using ok by (simp add: hm_ok_def)
  then obtain p where p: "p < length m" "m ! p = None" using empty_slot by blast
  have "probe (length m) (he_is k) m (home (fnv1a k) (length m))
      = probe (length m) (\<lambda>e. he_key e = k) m (home (fnv1a k) (length m))"
    using he_is_key [OF ok] by (intro probe_cong [OF c hm]) blast
  then show thesis using probe_finds [of m c "\<lambda>k. home (fnv1a k) (length m)" k he_key p] c hm pl p that
    by (smt (verit, ccfv_SIG))
qed

lemma hm_get_view:
  assumes ok: "hm_ok n m"
  shows "hmap_get m k = Some (case hm_view m k of None \<Rightarrow> -1 | Some v \<Rightarrow> v)"
proof -
  have "m \<noteq> []" using ok by (auto simp: hm_ok_def)
  obtain q where q: "probe (length m) (he_is k) m (home (fnv1a k) (length m)) = Some q"
    "case m ! q of None \<Rightarrow> k \<notin> he_key ` entries m | Some e \<Rightarrow> he_key e = k \<and> e \<in> entries m"
    using hm_probe [OF ok, of k] by blast
  show ?thesis
  proof (cases "m ! q")
    case None
    then have "hm_view m k = None" using q(2) hm_view_None [OF ok] by simp
    then show ?thesis using q(1) None \<open>m \<noteq> []\<close> by (simp add: hmap_get_def)
  next
    case (Some e)
    then have "hm_view m k = Some (he_val e)" using q(2) hm_view_iff [OF ok] by auto
    then show ?thesis using q(1) Some \<open>m \<noteq> []\<close> by (simp add: hmap_get_def)
  qed
qed

lemma hm_put_view:
  assumes ok: "hm_ok (Suc n) m" and k: "length k < 2 ^ 32"
  shows "\<exists>m'. hmap_put m k v = Some m' \<and> hm_ok n m' \<and>
    hm_view m' = (if hm_view m k = None then (hm_view m)(k \<mapsto> v) else hm_view m)"
proof -
  obtain q d where q: "probe (length m) (he_is k) m (home (fnv1a k) (length m)) = Some q" "q < length m"
    "d < length m" "q = around m (home (fnv1a k) (length m)) d"
    "\<forall>j < d. \<exists>y. m ! around m (home (fnv1a k) (length m)) j = Some y \<and> he_key y \<noteq> k"
    "case m ! q of None \<Rightarrow> k \<notin> he_key ` entries m | Some e \<Rightarrow> he_key e = k \<and> e \<in> entries m"
    using hm_probe [OF ok, of k] by blast
  show ?thesis
  proof (cases "m ! q")
    case (Some e)
    then have "hm_view m k \<noteq> None" using q(6) hm_view_None [OF ok] by auto
    moreover have "hm_ok n m" using ok by (simp add: hm_ok_def)
    ultimately show ?thesis using q(1) Some by (auto simp: hmap_put_def)
  next
    case None
    let ?e = "\<lparr>he_key = k, he_klen = of_nat (length k), he_val = v\<rparr>"
    let ?m = "m[q := Some ?e]"
    have new: "k \<notin> he_key ` entries m" using q(6) None by simp
    have e: "entries ?m = insert ?e (entries m)" using q(2) None by (rule entries_update)
    have "placed he_key (\<lambda>k. home (fnv1a k) (length m)) ?m"
      using ok q None by (intro placed_store [where d = d]) (auto simp: hm_ok_def)
    then have ok': "hm_ok n ?m"
      using ok q(2) None k e by (auto simp: hm_ok_def occupied_update)
    have "hm_view ?m j = (if j = k then Some v else hm_view m j)" for j
    proof (cases "j = k")
      case True
      then show ?thesis using hm_view_iff [OF ok', of k v] e by auto
    next
      case False
      have "hm_view ?m j = Some w \<longleftrightarrow> hm_view m j = Some w" for w
        using hm_view_iff [OF ok', of j w] hm_view_iff [OF ok, of j w] e False by auto
      then show ?thesis using False by (metis option.exhaust)
    qed
    then have "hm_view ?m = (hm_view m)(k \<mapsto> v)" by (auto intro: ext)
    moreover have "hm_view m k = None" using hm_view_None [OF ok] new by simp
    ultimately show ?thesis using q(1) None ok' by (simp add: hmap_put_def)
  qed
qed

interpretation hm: first_wins hmap_put hmap_get "-1" hm_view hm_ok "\<lambda>k. length k < 2 ^ 32"
proof
  show "hm_ok n m \<Longrightarrow> n' \<le> n \<Longrightarrow> hm_ok n' m" for n m n' by (auto simp: hm_ok_def)
qed (fact hm_get_view hm_put_view)+

subsection \<open>Loading a vocabulary\<close>

lemma init_cap_big: "want \<le> 2 ^ 63 \<Longrightarrow> want \<le> init_cap want k \<and> (\<exists>j. init_cap want k = 2 ^ j) \<and> 2 ^ k \<le> init_cap want k"
proof (induction want k rule: init_cap.induct)
  case (1 want k)
  have "\<not> 2 ^ k < want" if "\<not> (2::nat) ^ k \<le> (2 ^ 64 - 1) div 2" using that 1(2) by simp
  then show ?case using 1 by (subst (1 2 3) init_cap.simps) (auto intro: order_trans)
qed

lemma hmap_init_ok:
  assumes "n < 2 ^ 62" "hmap_init alloc n = (True, m)"
  shows "hm_ok n m \<and> hm_view m = Map.empty"
proof -
  let ?c = "init_cap (n * 2) 4"
  have m: "m = replicate ?c None"
    using assms by (auto simp: hmap_init_def Let_def split: if_splits)
  have c: "n * 2 \<le> ?c" "\<exists>j. ?c = 2 ^ j" "16 \<le> ?c"
    using init_cap_big [of "n * 2" 4] assms(1) by auto
  then have "n < ?c" by linarith
  then show ?thesis using c m by (auto simp: hm_ok_def placed_empty hm_view_def)
qed

lemma put_all_each: "put_all m i ks = hm.put_each m (zip ks (map (\<lambda>j. i + int j) [0..<length ks]))"
proof (induction ks arbitrary: m i)
  case (Cons k ks)
  have "map (\<lambda>j. i + int j) [0..<length (k # ks)] = i # map (\<lambda>j. i + 1 + int j) [0..<length ks]"
    by (simp add: upt_rec [of 0] map_Suc_upt [symmetric] del: upt_Suc)
  then show ?case using Cons by (simp split: option.splits)
qed simp

text \<open>The index at which a piece first occurs.\<close>

fun first_index :: "'a list \<Rightarrow> 'a \<Rightarrow> int" where
  "first_index [] k = -1"
| "first_index (x # xs) k = (if x = k then 0 else let i = first_index xs k in if i < 0 then -1 else i + 1)"

lemma first_index_iff: "- 1 \<le> first_index ks k" "first_index ks k < int (length ks)" "0 \<le> first_index ks k \<longleftrightarrow> k \<in> set ks"
  by (induction ks) (auto simp: Let_def)

lemma first_index_nth: "k \<in> set ks \<Longrightarrow> ks ! nat (first_index ks k) = k"
proof (induction ks)
  case (Cons x xs)
  show ?case
  proof (cases "x = k")
    case False
    then have "k \<in> set xs" using Cons.prems by simp
    then show ?thesis using False Cons.IH first_index_iff(3) [of xs k] by (auto simp: Let_def nat_add_distrib)
  qed simp
qed simp

lemma first_index_before: "k \<notin> set (take (nat (first_index ks k)) ks)"
proof (induction ks)
  case (Cons x xs)
  show ?case
  proof (cases "x = k \<or> first_index xs k < 0")
    case False
    then have "nat (first_index (x # xs) k) = Suc (nat (first_index xs k))" by (simp add: Let_def nat_add_distrib)
    then show ?thesis using Cons False by auto
  qed (auto simp: Let_def)
qed simp

lemma map_of_index:
  "map_of (zip ks (map (\<lambda>j. i + int j) [0..<length ks])) k
    = (if k \<in> set ks then Some (i + first_index ks k) else None)"
proof (induction ks arbitrary: i)
  case (Cons x xs)
  have "map (\<lambda>j. i + int j) [0..<length (x # xs)] = i # map (\<lambda>j. i + 1 + int j) [0..<length xs]"
    by (simp add: upt_rec [of 0] map_Suc_upt [symmetric] del: upt_Suc)
  then have "map_of (zip (x # xs) (map (\<lambda>j. i + int j) [0..<length (x # xs)])) k
      = (if k = x then Some i else if k \<in> set xs then Some (i + 1 + first_index xs k) else None)"
    using Cons [of "i + 1"] by simp
  moreover have "k \<in> set xs \<longleftrightarrow> \<not> first_index xs k < 0" using first_index_iff(3) [of xs k] by linarith
  ultimately show ?case by (simp add: Let_def)
qed simp

lemma load_lookup:
  assumes "length ks < 2 ^ 31" "\<forall>k \<in> set ks. length k < 2 ^ 32" "load_table alloc ks = Some m"
  shows "hmap_get m k = Some (first_index ks k)"
proof -
  obtain m0 where m0: "hmap_init alloc (length ks) = (True, m0)" "put_all m0 0 ks = Some m"
    using assms(3) by (auto simp: load_table_def split: prod.splits if_splits)
  have ok0: "hm_ok (length ks) m0" "hm_view m0 = Map.empty" using hmap_init_ok [OF _ m0(1)] assms(1) by auto
  let ?xs = "zip ks (map (\<lambda>j. 0 + int j) [0..<length ks])"
  have "hm_ok (length ?xs) m0" "\<forall>(k, v) \<in> set ?xs. length k < 2 ^ 32"
    using ok0(1) assms(2) by (auto dest: set_zip_leftD)
  then obtain m' where m': "hm.put_each m0 ?xs = Some m'" "hm_ok 0 m'"
    "\<forall>j. hm_view m' j = (case hm_view m0 j of None \<Rightarrow> map_of ?xs j | Some v \<Rightarrow> Some v)"
    using hm.put_each_view by blast
  have "m' = m" using m0(2) m'(1) put_all_each [of m0 0 ks] by simp
  then have "hm_view m k = map_of ?xs k" using m'(3) ok0(2) by simp
  then have "hm_view m k = (if k \<in> set ks then Some (first_index ks k) else None)"
    using map_of_index [of ks 0 k] by simp
  moreover have "k \<notin> set ks \<Longrightarrow> first_index ks k = -1" using first_index_iff [where ks = ks and k = k] by linarith
  ultimately show ?thesis using hm_get_view [OF m'(2)] \<open>m' = m\<close> by auto
qed

lemma load_succeeds:
  assumes "length ks < 2 ^ 31" "\<forall>k \<in> set ks. length k < 2 ^ 32"
  shows "load_table alloc ks = None \<longleftrightarrow> \<not> fst (hmap_init alloc (length ks))"
proof (cases "hmap_init alloc (length ks)")
  case (Pair b m0)
  show ?thesis
  proof (cases b)
    case True
    then have "hm_ok (length ks) m0" using hmap_init_ok Pair assms(1) by simp
    then have "hm_ok (length (zip ks (map (\<lambda>j. 0 + int j) [0..<length ks]))) m0" by simp
    moreover have "\<forall>(k, v) \<in> set (zip ks (map (\<lambda>j. 0 + int j) [0..<length ks])). length k < 2 ^ 32"
      using assms(2) by (auto dest: set_zip_leftD)
    ultimately have "put_all m0 0 ks \<noteq> None"
      using hm.put_each_view put_all_each [of m0 0 ks] by fastforce
    then show ?thesis using Pair True by (simp add: load_table_def)
  qed (use Pair in \<open>simp add: load_table_def\<close>)
qed

text \<open>
  Property C40. The tables of \<^verbatim>\<open>tokenizer_init\<close> answer as they should. Loading a list of less than
  \<open>2 ^ 31\<close> strings (each shorter than \<open>2 ^ 32\<close> bytes) fails only when the table cannot be allocated, and
  a lookup in the loaded table always returns: the index of the first string that equals the key, and -1
  for a key that is not in the list, whatever collides with what.
\<close>

theorem table_first_index:
  assumes "length ks < 2 ^ 31" "\<forall>k \<in> set ks. length k < 2 ^ 32"
  shows "case load_table alloc ks of
      None \<Rightarrow> \<exists>n. \<not> alloc n
    | Some m \<Rightarrow> (\<forall>k. \<exists>i. hmap_get m k = Some i \<and>
        (if k \<in> set ks then 0 \<le> i \<and> nat i < length ks \<and> ks ! nat i = k \<and> k \<notin> set (take (nat i) ks) else i = -1))"
proof (cases "load_table alloc ks")
  case None
  then show ?thesis using load_succeeds [OF assms, of alloc] by (auto simp: hmap_init_def Let_def split: if_splits)
next
  case (Some m)
  have "if k \<in> set ks then 0 \<le> first_index ks k \<and> nat (first_index ks k) < length ks
      \<and> ks ! nat (first_index ks k) = k \<and> k \<notin> set (take (nat (first_index ks k)) ks) else first_index ks k = -1" for k
    using first_index_iff [of ks k] first_index_nth [of k ks] first_index_before [of k ks] by (auto simp: nat_less_iff)
  then show ?thesis using Some load_lookup [OF assms Some] by auto
qed

theorem table_first_index_witness:
  "\<exists>m. load_table (\<lambda>_. True) (map ascii [''b'', ''a'', ''b'']) = Some m
    \<and> hmap_get m (ascii ''b'') = Some 0 \<and> hmap_get m (ascii ''a'') = Some 1 \<and> hmap_get m (ascii ''c'') = Some (-1)"
proof -
  let ?ks = "map ascii [''b'', ''a'', ''b'']"
  have ks: "length ?ks < 2 ^ 31" "\<forall>k \<in> set ?ks. length k < 2 ^ 32" by (simp_all add: ascii_def)
  note t = table_first_index [OF ks, of "\<lambda>_. True"]
  then obtain m where m: "load_table (\<lambda>_. True) ?ks = Some m" by (auto split: option.splits)
  have "hmap_get m k = Some i \<longleftrightarrow> i = (if k = ascii ''b'' then 0 else if k = ascii ''a'' then 1 else -1)" for k i
  proof -
    obtain j where j: "hmap_get m k = Some j" "if k \<in> set ?ks then 0 \<le> j \<and> nat j < length ?ks \<and> ?ks ! nat j = k
        \<and> k \<notin> set (take (nat j) ?ks) else j = -1" using t m by fastforce
    have "nat j < 3 \<Longrightarrow> 0 \<le> j \<Longrightarrow> j = 0 \<or> j = 1 \<or> j = 2" by linarith
    then show ?thesis using j by (auto simp: ascii_def split: if_splits)
  qed
  then show ?thesis using m by (intro exI [of _ m]) (simp add: ascii_def)
qed

end
