(* ===== verification/Tok_Spm.thy ===== *)
theory Tok_Spm
  imports Complex_Main Tok_Exact Tok_Map
begin

section \<open>Encoding a segment with SentencePiece scores (tokenizer.c)\<close>

text \<open>
  \<^verbatim>\<open>spm_encode_text\<close> and \<^verbatim>\<open>spm_encode\<close>: the segment's characters are merged by score, with the rescan for a
  short segment and the queue for a long one, and the pieces are looked up, byte by byte where the
  vocabulary has no such piece. A score is the number its float stands for; a NaN, which no comparison
  of the code lets through, is like any score at the floor, and an infinity like one beyond all the others.
  The output array is the list of the ids written so far.
\<close>

datatype tok_model = TOK_SPM | TOK_BPE | TOK_BPE_SPM

datatype tok_pre = TOK_PRE_GPT2 | TOK_PRE_LLAMA3 | TOK_PRE_QWEN2 | TOK_PRE_SMOLLM | TOK_PRE_AFMOE | TOK_PRE_TEKKEN
  | TOK_PRE_LLAMA4 | TOK_PRE_QWEN35 | TOK_PRE_MINICPM5 | TOK_PRE_SPARK25 | TOK_PRE_K2H | TOK_PRE_FLINT | TOK_PRE_DEEPSEEK_LLM

text \<open>The number of tokens, \<^verbatim>\<open>n_vocab\<close>, is the length of \<open>t_tokens\<close>; \<^verbatim>\<open>u2b\<close> holds -1 where there is no byte.\<close>

record tokenizer =
  t_model :: tok_model
  t_pre :: tok_pre
  t_tokens :: "bytes list"
  t_vocab :: hmap
  t_scores :: "rat list option"
  t_ttype :: "int list option"
  t_merges :: hmap
  t_unk :: int
  t_ignore_merges :: bool
  t_add_space_prefix :: bool
  t_bos :: int
  t_add_bos :: bool
  t_eos :: int
  t_eog_ids :: "int list"
  t_nfc :: bool
  t_special_ids :: "nat list"
  t_sb_off :: "nat list"
  t_b2u :: "u32 list"
  t_u2b :: "int list"

definition vocab_id :: "tokenizer \<Rightarrow> bytes \<Rightarrow> int" where
  "vocab_id t k = the (hmap_get (t_vocab t) k)"

definition score :: "tokenizer \<Rightarrow> int \<Rightarrow> rat" where
  "score t i = the (t_scores t) ! nat i"

text \<open>The float nearest to \<open>-1e30\<close>.\<close>

definition SPM_SCORE_FLOOR :: rat where
  "SPM_SCORE_FLOOR = -1000000015047466219876688855040"

definition MERGE_QUEUE_MIN :: nat where "MERGE_QUEUE_MIN = 24"

definition use_merge_queue :: "int \<Rightarrow> nat \<Rightarrow> bool" where
  "use_merge_queue force n_sym = (if force \<ge> 0 then force \<noteq> 0 else n_sym \<ge> MERGE_QUEUE_MIN)"

subsection \<open>The merges\<close>

text \<open>The candidate of \<^verbatim>\<open>spm_push_pair\<close>.\<close>

definition spm_sk :: "tokenizer \<Rightarrow> bytes \<Rightarrow> rat pair_key" where
  "spm_sk t tx a la b lb =
    (let i = vocab_id t (take (la + lb) (drop a tx))
     in if i < 0 \<or> \<not> score t i > SPM_SCORE_FLOOR then (None, False) else (Some (- score t i), False))"

definition spm_push_pair :: "tokenizer \<Rightarrow> bytes \<Rightarrow> (nat \<Rightarrow> bool) \<Rightarrow> sym_t list \<Rightarrow> nat option \<Rightarrow> rat mheap \<times> bool \<Rightarrow> (rat mheap \<times> bool) option" where
  "spm_push_pair t tx alloc = push_pair (spm_sk t tx) alloc"

definition spm_scan_step :: "tokenizer \<Rightarrow> bytes \<Rightarrow> sym_t list \<Rightarrow> nat \<Rightarrow> rat \<times> nat option \<Rightarrow> rat \<times> nat option" where
  "spm_scan_step t tx sy i acc =
    (case s_next (sy ! i) of None \<Rightarrow> acc
     | Some j \<Rightarrow>
       let id = vocab_id t (take (s_len (sy ! i) + s_len (sy ! j)) (drop (s_start (sy ! i)) tx))
       in if id \<ge> 0 \<and> score t id > fst acc then (score t id, Some i) else acc)"

fun spm_rescan :: "tokenizer \<Rightarrow> bytes \<Rightarrow> nat \<Rightarrow> sym_t list \<Rightarrow> sym_t list option" where
  "spm_rescan t tx 0 sy = None"
| "spm_rescan t tx (Suc n) sy =
    (case snd (fold (spm_scan_step t tx sy) (lefts sy (length sy) 0) (SPM_SCORE_FLOOR, None)) of
       None \<Rightarrow> Some sy
     | Some best \<Rightarrow> spm_rescan t tx n (absorb False sy best))"

subsection \<open>The ids\<close>

definition put_id :: "nat \<Rightarrow> int \<Rightarrow> int list \<Rightarrow> int list" where
  "put_id cap i out = (if length out < cap then out @ [i] else out)"

definition hex_upper :: "nat \<Rightarrow> u8" where
  "hex_upper d = (if d < 10 then 0x30 + of_nat d else 0x41 + of_nat (d - 10))"

text \<open>\<^verbatim>\<open>snprintf(name, 8, "<0x%02X>", b)\<close>\<close>

definition byte_name :: "u8 \<Rightarrow> bytes" where
  "byte_name b = [0x3C, 0x30, 0x78, hex_upper (unat b div 16), hex_upper (unat b mod 16), 0x3E]"

definition emit_byte :: "tokenizer \<Rightarrow> nat \<Rightarrow> u8 \<Rightarrow> int list \<Rightarrow> int list" where
  "emit_byte t cap b out =
    (let bid = vocab_id t (byte_name b); bid = (if bid < 0 then t_unk t else bid)
     in if bid \<ge> 0 then put_id cap bid out else out)"

definition spm_emit :: "tokenizer \<Rightarrow> nat \<Rightarrow> bytes \<Rightarrow> sym_t list \<Rightarrow> nat \<Rightarrow> int list \<Rightarrow> int list" where
  "spm_emit t cap tx sy i out =
    (let p = piece tx sy i; id = vocab_id t p
     in if id \<ge> 0 then put_id cap id out else fold (emit_byte t cap) p out)"

text \<open>
  \<open>alloc n\<close>: \<^verbatim>\<open>malloc(n)\<close> gives memory. The result is the ids and \<^verbatim>\<open>tls_encode_oom\<close>; \<open>None\<close> would be a loop
  that does not end.
\<close>

definition spm_encode :: "tokenizer \<Rightarrow> int \<Rightarrow> (nat \<Rightarrow> bool) \<Rightarrow> bytes \<Rightarrow> nat \<Rightarrow> int list \<Rightarrow> (int list \<times> bool) option" where
  "spm_encode t force alloc tx cap out =
    (if tx = [] then Some (out, False)
     else if length tx > (2 ^ 64 - 1) div 16 - 1 then Some (out, True)
     else if \<not> alloc (16 * (length tx + 1)) then Some (out, True)
     else
       let sy = init_syms tx;
           merged = (case t_scores t of None \<Rightarrow> Some (Some sy)
             | Some _ \<Rightarrow>
               if \<not> use_merge_queue force (length sy) then map_option Some (spm_rescan t tx (length sy) sy)
               else map_option (map_option fst) (queue_merge (spm_sk t tx) (\<lambda>c. alloc (20 * c)) sy))
       in case merged of None \<Rightarrow> None
        | Some None \<Rightarrow> Some (out, True)
        | Some (Some sy) \<Rightarrow> Some (fold (spm_emit t cap tx sy) (chain sy (length sy) (Some 0)) out, False))"

definition SPACE_MARK :: bytes where "SPACE_MARK = [0xE2, 0x96, 0x81]"

definition mark_spaces :: "bytes \<Rightarrow> bytes" where
  "mark_spaces s = concat (map (\<lambda>c. if c = 0x20 then SPACE_MARK else [c]) s)"

definition spm_encode_text :: "tokenizer \<Rightarrow> int \<Rightarrow> (nat \<Rightarrow> bool) \<Rightarrow> bytes \<Rightarrow> nat \<Rightarrow> int list \<Rightarrow> bool \<Rightarrow> (int list \<times> bool) option" where
  "spm_encode_text t force alloc s cap out first_segment =
    (if length s > (2 ^ 64 - 1 - 4) div 3 then Some (out, True)
     else if \<not> alloc (length s * 3 + 4) then Some (out, True)
     else spm_encode t force alloc
       ((if t_add_space_prefix t \<and> first_segment \<and> length s > 0 then SPACE_MARK else []) @ mark_spaces s) cap out)"

subsection \<open>What it should give\<close>

definition spm_key :: "tokenizer \<Rightarrow> bytes \<Rightarrow> bytes \<Rightarrow> rat option" where
  "spm_key t x y =
    (let i = vocab_id t (x @ y) in if i < 0 \<or> \<not> score t i > SPM_SCORE_FLOOR then None else Some (- score t i))"

definition spm_pieces :: "tokenizer \<Rightarrow> bytes \<Rightarrow> bytes list" where
  "spm_pieces t s = (if t_scores t = None then char_pieces s else merge_pieces (spm_key t) (char_pieces s))"

definition byte_ids :: "tokenizer \<Rightarrow> u8 \<Rightarrow> int list" where
  "byte_ids t b = filter (\<lambda>i. i \<ge> 0) [if vocab_id t (byte_name b) < 0 then t_unk t else vocab_id t (byte_name b)]"

definition piece_ids :: "tokenizer \<Rightarrow> bytes \<Rightarrow> int list" where
  "piece_ids t p = (if vocab_id t p \<ge> 0 then [vocab_id t p] else concat (map (byte_ids t) p))"

definition fill :: "nat \<Rightarrow> int list \<Rightarrow> int list \<Rightarrow> int list" where
  "fill cap ids out = out @ take (cap - length out) ids"

lemma fill_simps [simp]: "fill cap [] out = out" "fill cap (xs @ ys) out = fill cap ys (fill cap xs out)"
  by (simp_all add: fill_def min_def diff_diff_left [symmetric] del: diff_diff_left)

lemma put_id_fill: "put_id cap i out = fill cap [i] out"
  by (auto simp: put_id_def fill_def)

lemma fold_fill: "(\<And>x out. x \<in> set xs \<Longrightarrow> f x out = fill cap (g x) out) \<Longrightarrow> fold f xs out = fill cap (concat (map g xs)) out"
  by (induction xs arbitrary: out) simp_all

lemma emit_byte_fill: "emit_byte t cap b out = fill cap (byte_ids t b) out"
  by (simp add: emit_byte_def byte_ids_def Let_def put_id_fill)

lemma spm_emit_fill: "spm_emit t cap tx sy i out = fill cap (piece_ids t (piece tx sy i)) out"
  using fold_fill [of "piece tx sy i" "emit_byte t cap" cap "byte_ids t"]
  by (simp add: spm_emit_def piece_ids_def Let_def put_id_fill emit_byte_fill)

interpretation spm: merger "spm_sk t tx" tx "spm_key t" for t tx
  by unfold_locales (auto simp: spm_sk_def spm_key_def Let_def take_add add.commute split: if_splits)

subsection \<open>The rescan by scores is the rescan by keys\<close>

lemma spm_scan_step:
  assumes "s = (case a of None \<Rightarrow> SPM_SCORE_FLOOR | Some (k, b) \<Rightarrow> - k)" "\<And>k b. a = Some (k, b) \<Longrightarrow> SPM_SCORE_FLOOR < - k"
    and r: "scan_step (spm_sk t tx) sy i (a, False) = (a', f)"
  shows "spm_scan_step t tx sy i (s, map_option snd a)
      = (case a' of None \<Rightarrow> SPM_SCORE_FLOOR | Some (k, b) \<Rightarrow> - k, map_option snd a')
    \<and> \<not> f \<and> (\<forall>k b. a' = Some (k, b) \<longrightarrow> SPM_SCORE_FLOOR < - k)"
  using assms
  by (auto simp: spm_scan_step_def scan_step_def sym_key_def spm_sk_def Let_def split: option.splits if_splits prod.splits)

lemma spm_scan:
  assumes "s = (case a of None \<Rightarrow> SPM_SCORE_FLOOR | Some (k, b) \<Rightarrow> - k)" "\<And>k b. a = Some (k, b) \<Longrightarrow> SPM_SCORE_FLOOR < - k"
  shows "snd (fold (spm_scan_step t tx sy) is (s, map_option snd a)) = map_option snd (fst (fold (scan_step (spm_sk t tx) sy) is (a, False)))
    \<and> \<not> snd (fold (scan_step (spm_sk t tx) sy) is (a, False))"
  using assms
proof (induction "is" arbitrary: s a)
  case (Cons i "is")
  obtain a' f where r: "scan_step (spm_sk t tx) sy i (a, False) = (a', f)" by (cases "scan_step (spm_sk t tx) sy i (a, False)")
  note st = spm_scan_step [OF Cons.prems r]
  then show ?case using r Cons.IH [OF refl, of a'] by simp
qed simp

lemma spm_rescan_keys: "map_option (\<lambda>sy. (sy, False)) (spm_rescan t tx n sy) = rescan (spm_sk t tx) n sy False"
proof (induction n arbitrary: sy)
  case (Suc n)
  let ?g = "fold (scan_step (spm_sk t tx) sy) (lefts sy (length sy) 0) (None, False)"
  have "snd (fold (spm_scan_step t tx sy) (lefts sy (length sy) 0) (SPM_SCORE_FLOOR, None)) = map_option snd (fst ?g) \<and> \<not> snd ?g"
    using spm_scan [of SPM_SCORE_FLOOR None t tx sy "lefts sy (length sy) 0"] by simp
  then show ?case using Suc by (cases ?g) (auto simp: scan_def split: option.splits)
qed simp

lemma spm_quiet: "quiet (spm_sk t tx)"
  by (simp add: quiet_def spm_sk_def Let_def)

text \<open>Whichever loop runs, the pieces are those of the specification.\<close>

lemma spm_merged:
  assumes "tx \<noteq> []" "t_scores t \<noteq> None"
  shows "case (if \<not> use_merge_queue force (length (init_syms tx)) then map_option Some (spm_rescan t tx (length (init_syms tx)) (init_syms tx))
        else map_option (map_option fst) (queue_merge (spm_sk t tx) alloc (init_syms tx))) of
      None \<Rightarrow> False
    | Some None \<Rightarrow> \<exists>c. \<not> alloc c
    | Some (Some sy) \<Rightarrow> map (piece tx sy) (chain sy (length sy) (Some 0)) = spm_pieces t tx"
proof (cases "use_merge_queue force (length (init_syms tx))")
  case False
  obtain sy f where r: "rescan (spm_sk t tx) (length (init_syms tx)) (init_syms tx) False = Some (sy, f)"
    "\<not> f \<longrightarrow> map (piece tx sy) (chain sy (length sy) (Some 0)) = merge_pieces (spm_key t) (char_pieces tx)"
    using spm.rescan_init [OF assms(1) order_refl, of t] by blast
  then have "spm_rescan t tx (length (init_syms tx)) (init_syms tx) = Some sy \<and> \<not> f"
    using spm_rescan_keys [of t tx "length (init_syms tx)" "init_syms tx"] by auto
  then show ?thesis using False r(2) assms(2) by (auto simp: spm_pieces_def)
next
  case True
  let ?r = "queue_merge (spm_sk t tx) alloc (init_syms tx)"
  have q: "case ?r of
      None \<Rightarrow> False
    | Some None \<Rightarrow> \<exists>c. \<not> alloc c
    | Some (Some (sy, f)) \<Rightarrow>
        \<not> f \<longrightarrow> map (piece tx sy) (chain sy (length sy) (Some 0)) = merge_pieces (spm_key t) (char_pieces tx)"
    by (rule spm.queue_init [OF assms(1)])
  have "\<not> f" if "?r = Some (Some (sy, f))" for sy f
    using queue_quiet [OF spm_quiet that] .
  then show ?thesis using True q assms(2) by (auto simp: spm_pieces_def split: option.splits)
qed

lemma init_merged:
  assumes "tx \<noteq> []"
  shows "map (piece tx (init_syms tx)) (chain (init_syms tx) (length (init_syms tx)) (Some 0)) = char_pieces tx"
  using good_walks(2) [OF init_good(1) [OF assms]] init_good(2) [OF assms] by simp

lemma spm_fold_emit:
  "map (piece tx sy) is = ps \<Longrightarrow> fold (spm_emit t cap tx sy) is out = fill cap (concat (map (piece_ids t) ps)) out"
  using fold_fill [of "is" "spm_emit t cap tx sy" cap "\<lambda>i. piece_ids t (piece tx sy i)"] by (auto simp: spm_emit_fill comp_def)

lemma spm_encode_result:
  "case spm_encode t force alloc tx cap out of
      None \<Rightarrow> False
    | Some (r, True) \<Rightarrow> r = out \<and> ((\<exists>n. \<not> alloc n) \<or> 2 ^ 59 \<le> length tx)
    | Some (r, False) \<Rightarrow> r = fill cap (concat (map (piece_ids t) (spm_pieces t tx))) out"
proof (cases "tx = [] \<or> length tx > (2 ^ 64 - 1) div 16 - 1 \<or> \<not> alloc (16 * (length tx + 1))")
  case True
  have "merge_pieces (spm_key t) [] = []" by (subst merge_pieces.simps) (simp add: best_pair_def)
  then show ?thesis using True by (auto simp: spm_encode_def spm_pieces_def)
next
  case False
  then have tx: "tx \<noteq> []" by simp
  show ?thesis
  proof (cases "t_scores t")
    case None
    then show ?thesis using False spm_fold_emit [OF init_merged [OF tx]] by (simp add: spm_encode_def Let_def spm_pieces_def)
  next
    case (Some sc)
    then have sc: "t_scores t \<noteq> None" by simp
    define m where "m = (if \<not> use_merge_queue force (length (init_syms tx)) then map_option Some (spm_rescan t tx (length (init_syms tx)) (init_syms tx))
        else map_option (map_option fst) (queue_merge (spm_sk t tx) (\<lambda>c. alloc (20 * c)) (init_syms tx)))"
    have e: "spm_encode t force alloc tx cap out =
       (case m of None \<Rightarrow> None | Some None \<Rightarrow> Some (out, True)
        | Some (Some sy) \<Rightarrow> Some (fold (spm_emit t cap tx sy) (chain sy (length sy) (Some 0)) out, False))"
      using False Some by (simp add: spm_encode_def Let_def m_def)
    have m: "case m of None \<Rightarrow> False | Some None \<Rightarrow> \<exists>c. \<not> alloc (20 * c)
      | Some (Some sy) \<Rightarrow> map (piece tx sy) (chain sy (length sy) (Some 0)) = spm_pieces t tx"
      unfolding m_def by (rule spm_merged [OF tx sc])
    show ?thesis
    proof (cases m)
      case (Some r)
      show ?thesis
      proof (cases r)
        case None
        then show ?thesis using e m Some by auto
      next
        case (Some sy)
        then have "map (piece tx sy) (chain sy (length sy) (Some 0)) = spm_pieces t tx" using m \<open>m = Some r\<close> by simp
        from spm_fold_emit [OF this] show ?thesis using e Some \<open>m = Some r\<close> by simp
      qed
    qed (use m in simp)
  qed
qed

lemma spm_pieces_concat: "concat (spm_pieces t s) = s"
proof -
  have "concat (char_pieces s) = s"
  proof (induction s rule: char_pieces.induct)
    case (1 s)
    then show ?case by (subst char_pieces.simps) (auto simp: Let_def)
  qed
  then show ?thesis by (simp add: spm_pieces_def merge_pieces_concat)
qed

text \<open>The text that is merged: the spaces marked, one in front of the first segment.\<close>

definition spm_text :: "tokenizer \<Rightarrow> bytes \<Rightarrow> bool \<Rightarrow> bytes" where
  "spm_text t s first = mark_spaces (if t_add_space_prefix t \<and> first \<and> s \<noteq> [] then 0x20 # s else s)"

text \<open>
  Property C17. Encoding with SentencePiece scores is exact. Whatever the vocabulary, the scores, the
  segment, the room left and the loop that is chosen (rescan, queue, or by length), the code returns;
  unless it says that memory ran out, and then the output is as it was, what it appends is, cut to the
  room there is, the ids of the pieces that merging the best pair, the leftmost on a tie, leaves of the
  characters of the marked text. Those pieces make up the whole text.
\<close>

theorem spm_encode_exact:
  "concat (spm_pieces t (spm_text t s first)) = spm_text t s first \<and>
   (case spm_encode_text t force alloc s cap out first of
      None \<Rightarrow> False
    | Some (r, oom) \<Rightarrow>
      if oom then r = out \<and> ((\<exists>n. \<not> alloc n) \<or> 2 ^ 57 \<le> length s)
      else r = out @ take (cap - length out) (concat (map (piece_ids t) (spm_pieces t (spm_text t s first)))))"
proof -
  have l: "length (mark_spaces s) \<le> 3 * length s"
    by (induction s) (auto simp: mark_spaces_def SPACE_MARK_def)
  have x: "(if t_add_space_prefix t \<and> first \<and> length s > 0 then SPACE_MARK else []) @ mark_spaces s = spm_text t s first"
    by (simp add: spm_text_def mark_spaces_def)
  then have "length (spm_text t s first) \<le> 3 * length s + 3"
    unfolding x [symmetric] using l by (auto simp: SPACE_MARK_def)
  then have "2 ^ 59 \<le> length (spm_text t s first) \<Longrightarrow> 2 ^ 57 \<le> length s" by simp
  then show ?thesis using spm_encode_result [where t = t and force = force and alloc = alloc and tx = "spm_text t s first" and cap = cap and out = out] x
    by (auto simp: spm_encode_text_def spm_pieces_concat fill_def split: option.splits prod.splits)
qed

definition demo_toks :: "bytes list" where
  "demo_toks = map ascii [''a'', ''b'', ''ab'', ''aba'', ''<0x63>'']"

definition demo_spm :: tokenizer where
  "demo_spm = \<lparr>t_model = TOK_SPM, t_pre = TOK_PRE_GPT2, t_tokens = demo_toks,
     t_vocab = the (load_table (\<lambda>_. True) demo_toks), t_scores = Some [0, 0, -1, -2, 0], t_ttype = None,
     t_merges = [], t_unk = 0, t_ignore_merges = False, t_add_space_prefix = False, t_bos = -1, t_add_bos = False, t_eos = -1, t_eog_ids = [], t_nfc = False,
     t_special_ids = [], t_sb_off = replicate 257 0, t_b2u = [], t_u2b = []\<rparr>"

lemma demo_vocab: "vocab_id demo_spm k = first_index demo_toks k"
proof -
  have toks: "length demo_toks < 2 ^ 31" "\<forall>k \<in> set demo_toks. length k < 2 ^ 32" by (simp_all add: demo_toks_def ascii_def)
  then obtain m where "load_table (\<lambda>_. True) demo_toks = Some m"
    using load_succeeds [OF toks, of "\<lambda>_. True"] by (auto simp: hmap_init_def Let_def)
  then show ?thesis using load_lookup [OF toks] by (simp add: vocab_id_def demo_spm_def)
qed

lemma demo_score: "score demo_spm i = [0, 0, -1, -2, 0] ! nat i"
  by (simp add: score_def demo_spm_def)

definition demo_key :: "bytes \<Rightarrow> bytes \<Rightarrow> rat option" where
  "demo_key x y =
    (let i = first_index demo_toks (x @ y) in if i < 0 \<or> \<not> [0, 0, -1, -2, 0] ! nat i > SPM_SCORE_FLOOR then None
     else Some (- ([0, 0, -1, -2, 0] ! nat i)))"

lemma demo_pieces: "spm_pieces demo_spm (ascii ''abac'') = map ascii [''aba'', ''c'']"
proof -
  have "spm_key demo_spm = demo_key"
    by (intro ext) (simp add: spm_key_def demo_key_def demo_vocab demo_score Let_def)
  moreover have "merge_pieces demo_key (char_pieces (ascii ''abac'')) = map ascii [''aba'', ''c'']" by code_simp
  ultimately show ?thesis by (simp add: spm_pieces_def demo_spm_def)
qed

text \<open>Two runs on the text "abac", one for each loop: room for one id, and for all.\<close>

theorem spm_encode_exact_witness:
  "spm_text demo_spm (ascii ''abac'') True = ascii ''abac'' \<and>
   spm_encode_text demo_spm 0 (\<lambda>_. True) (ascii ''abac'') 1 [] True = Some ([3], False) \<and>
   spm_encode_text demo_spm 1 (\<lambda>_. True) (ascii ''abac'') 9 [] True = Some ([3, 4], False)"
proof -
  have t: "spm_text demo_spm (ascii ''abac'') True = ascii ''abac''"
    by (simp add: spm_text_def mark_spaces_def demo_spm_def ascii_def)
  have i: "concat (map (piece_ids demo_spm) (spm_pieces demo_spm (ascii ''abac''))) = [3, 4]"
  proof -
    have "first_index demo_toks (ascii ''aba'') = 3" "first_index demo_toks (ascii ''c'') = -1"
      "first_index demo_toks (byte_name 0x63) = 4" by code_simp+
    then show ?thesis unfolding demo_pieces by (simp add: ascii_def piece_ids_def byte_ids_def demo_vocab)
  qed
  show ?thesis
    using spm_encode_exact [where t = demo_spm and s = "ascii ''abac''" and first = True and force = 0 and alloc = "\<lambda>_. True" and cap = 1 and out = "[]"]
      spm_encode_exact [where t = demo_spm and s = "ascii ''abac''" and first = True and force = 1 and alloc = "\<lambda>_. True" and cap = 9 and out = "[]"] unfolding t i
    by (auto simp: ascii_def split: option.splits prod.splits if_splits)
qed

end
