(* ===== verification/Tok_Bpe.thy ===== *)
theory Tok_Bpe
  imports Tok_Spm
begin

unbundle bit_operations_syntax

section \<open>Encoding a pre-token by merge ranks (tokenizer.c)\<close>

text \<open>
  \<^verbatim>\<open>bpe_word\<close>: a pre-token that is a piece by itself is taken whole where the publisher says so; else its
  characters are merged by rank, and what has no id falls back to its characters and then its bytes. The
  rank of a pair is looked up under "left right", in a key that is built on the heap when it is long; when
  that fails the pair counts as one without a rank and the flag is raised. The queue's keys are
  floats: \<open>f32_nat\<close> is the conversion, exact below \<open>2 ^ 24\<close>.
\<close>

subsection \<open>Ranks\<close>

definition bpe_merge_rank :: "tokenizer \<Rightarrow> (nat \<Rightarrow> bool) \<Rightarrow> bytes \<Rightarrow> nat \<Rightarrow> nat \<Rightarrow> nat \<Rightarrow> nat \<Rightarrow> int \<times> bool" where
  "bpe_merge_rank t alloc w a al b bl =
    (let kl = al + 1 + bl
     in if kl > 512 \<and> \<not> alloc kl then (-1, True)
        else (the (hmap_get (t_merges t) (take al (drop a w) @ [0x20] @ take bl (drop b w))), False))"

text \<open>An integer as a float: 24 significant bits, rounded to the nearest, the even one on a tie.\<close>

fun extra_bits :: "nat \<Rightarrow> nat" where
  "extra_bits n = (if n < 2 ^ 24 then 0 else Suc (extra_bits (n div 2)))"

declare extra_bits.simps [simp del]

definition f32_nat :: "nat \<Rightarrow> nat" where
  "f32_nat n =
    (let k = extra_bits n; q = n div 2 ^ k; r = n mod 2 ^ k
     in (if 2 * r > 2 ^ k \<or> 2 * r = 2 ^ k \<and> odd q then q + 1 else q) * 2 ^ k)"

lemma f32_nat_exact: "n < 2 ^ 24 \<Longrightarrow> f32_nat n = n"
proof -
  assume "n < 2 ^ 24"
  then have "extra_bits n = 0" by (subst extra_bits.simps) simp
  then show ?thesis by (simp add: f32_nat_def)
qed

text \<open>From \<open>2 ^ 24\<close> on two ranks may become one key, and the queue's order is no longer the scan's.\<close>

lemma f32_nat_collides: "f32_nat (2 ^ 24 + 1) = f32_nat (2 ^ 24)"
proof -
  have "extra_bits (2 ^ 24 + 1) = 1" "extra_bits (2 ^ 24) = 1"
    by (subst extra_bits.simps, subst extra_bits.simps, simp)+
  then show ?thesis by (simp add: f32_nat_def)
qed

definition bpe_sk :: "(nat \<Rightarrow> nat) \<Rightarrow> tokenizer \<Rightarrow> (nat \<Rightarrow> bool) \<Rightarrow> bytes \<Rightarrow> nat pair_key" where
  "bpe_sk conv t alloc w a al b bl =
    (case bpe_merge_rank t alloc w a al b bl of (rank, failed) \<Rightarrow>
      (if rank < 0 then None else Some (conv (nat rank)), failed))"

definition bpe_push_pair :: "tokenizer \<Rightarrow> (nat \<Rightarrow> bool) \<Rightarrow> bytes \<Rightarrow> sym_t list \<Rightarrow> nat option \<Rightarrow> nat mheap \<times> bool \<Rightarrow> (nat mheap \<times> bool) option" where
  "bpe_push_pair t alloc w = push_pair (bpe_sk f32_nat t alloc w) (\<lambda>c. alloc (20 * c))"

definition INT_MAX :: int where "INT_MAX = 2147483647"

definition bpe_scan_step :: "tokenizer \<Rightarrow> (nat \<Rightarrow> bool) \<Rightarrow> bytes \<Rightarrow> sym_t list \<Rightarrow> nat \<Rightarrow> (int \<times> nat option) \<times> bool \<Rightarrow> (int \<times> nat option) \<times> bool" where
  "bpe_scan_step t alloc w sy i acc =
    (case s_next (sy ! i) of None \<Rightarrow> acc
     | Some j \<Rightarrow>
       (case bpe_merge_rank t alloc w (s_start (sy ! i)) (s_len (sy ! i)) (s_start (sy ! j)) (s_len (sy ! j)) of (r, failed) \<Rightarrow>
         (if r \<ge> 0 \<and> r < fst (fst acc) then (r, Some i) else fst acc, snd acc \<or> failed)))"

text \<open>The loop counts the symbols down, and ends by itself when one is left.\<close>

fun bpe_rescan :: "tokenizer \<Rightarrow> (nat \<Rightarrow> bool) \<Rightarrow> bytes \<Rightarrow> nat \<Rightarrow> sym_t list \<Rightarrow> bool \<Rightarrow> sym_t list \<times> bool" where
  "bpe_rescan t alloc w ns sy f =
    (if ns > 1 then
       (case fold (bpe_scan_step t alloc w sy) (lefts sy (length sy) 0) ((INT_MAX, None), False) of
          ((r, None), f') \<Rightarrow> (sy, f \<or> f')
        | ((r, Some best), f') \<Rightarrow> bpe_rescan t alloc w (ns - 1) (absorb False sy best) (f \<or> f'))
     else (sy, f))"

declare bpe_rescan.simps [simp del]

subsection \<open>The ids\<close>

definition emit_char :: "tokenizer \<Rightarrow> nat \<Rightarrow> bytes \<Rightarrow> int list \<Rightarrow> int list" where
  "emit_char t cap c out =
    (let cid = vocab_id t c in if cid \<ge> 0 then put_id cap cid out else fold (emit_byte t cap) c out)"

function bpe_fallback :: "tokenizer \<Rightarrow> nat \<Rightarrow> bytes \<Rightarrow> int list \<Rightarrow> int list" where
  "bpe_fallback t cap p out =
    (if p = [] then out
     else let l = (if u8_len (hd p) > length p then length p else u8_len (hd p))
       in bpe_fallback t cap (drop l p) (emit_char t cap (take l p) out))"
  by pat_completeness auto
termination
  by (relation "measure (\<lambda>(t, cap, p, out). length p)") (use u8_len_pos in \<open>auto intro: diff_less\<close>)

declare bpe_fallback.simps [simp del]

definition bpe_emit :: "tokenizer \<Rightarrow> nat \<Rightarrow> bytes \<Rightarrow> sym_t list \<Rightarrow> nat \<Rightarrow> int list \<Rightarrow> int list" where
  "bpe_emit t cap w sy i out =
    (let p = piece w sy i; id = vocab_id t p
     in if id < 0 then bpe_fallback t cap p out else put_id cap id out)"

definition TT_NORMAL :: int where "TT_NORMAL = 1"

definition whole_word :: "tokenizer \<Rightarrow> bytes \<Rightarrow> bool" where
  "whole_word t w \<longleftrightarrow> t_ignore_merges t \<and> vocab_id t w \<ge> 0 \<and>
    (case t_ttype t of None \<Rightarrow> True | Some ty \<Rightarrow> ty ! nat (vocab_id t w) = TT_NORMAL)"

definition bpe_word :: "tokenizer \<Rightarrow> int \<Rightarrow> (nat \<Rightarrow> bool) \<Rightarrow> bytes \<Rightarrow> nat \<Rightarrow> int list \<Rightarrow> (int list \<times> bool) option" where
  "bpe_word t force alloc w cap out =
    (if w = [] then Some (out, False)
     else if whole_word t w then Some (put_id cap (vocab_id t w) out, False)
     else if \<not> alloc (16 * (length w + 1)) then Some (out, True)
     else
       let sy = init_syms w;
           merged = (if \<not> use_merge_queue force (length sy) then Some (Some (bpe_rescan t alloc w (length sy) sy False))
             else queue_merge (bpe_sk f32_nat t alloc w) (\<lambda>c. alloc (20 * c)) sy)
       in case merged of None \<Rightarrow> None
        | Some None \<Rightarrow> Some (out, True)
        | Some (Some (sy, f)) \<Rightarrow> Some (fold (bpe_emit t cap w sy) (chain sy (length sy) (Some 0)) out, f))"

subsection \<open>What it should give\<close>

definition bpe_key :: "tokenizer \<Rightarrow> bytes \<Rightarrow> bytes \<Rightarrow> nat option" where
  "bpe_key t x y = (let r = the (hmap_get (t_merges t) (x @ 0x20 # y)) in if r < 0 then None else Some (nat r))"

definition bpe_pieces :: "tokenizer \<Rightarrow> bytes \<Rightarrow> bytes list" where
  "bpe_pieces t w = (if w \<noteq> [] \<and> whole_word t w then [w] else merge_pieces (bpe_key t) (char_pieces w))"

function cut_chars :: "bytes \<Rightarrow> bytes list" where
  "cut_chars p =
    (if p = [] then []
     else let l = (if u8_len (hd p) > length p then length p else u8_len (hd p)) in take l p # cut_chars (drop l p))"
  by pat_completeness auto
termination
  by (relation "measure length") (use u8_len_pos in \<open>auto intro: diff_less\<close>)

declare cut_chars.simps [simp del]

definition bpe_piece_ids :: "tokenizer \<Rightarrow> bytes \<Rightarrow> int list" where
  "bpe_piece_ids t p = (if vocab_id t p < 0 then concat (map (piece_ids t) (cut_chars p)) else [vocab_id t p])"

lemma emit_char_fill: "emit_char t cap c out = fill cap (piece_ids t c) out"
  using fold_fill [of c "emit_byte t cap" cap "byte_ids t"]
  by (simp add: emit_char_def Let_def piece_ids_def put_id_fill emit_byte_fill)

lemma bpe_fallback_fill: "bpe_fallback t cap p out = fill cap (concat (map (piece_ids t) (cut_chars p))) out"
proof (induction t cap p out rule: bpe_fallback.induct)
  case (1 t cap p out)
  show ?case
  proof (cases "p = []")
    case True
    then show ?thesis by (subst bpe_fallback.simps, subst cut_chars.simps) simp
  next
    case False
    define l where "l = (if u8_len (hd p) > length p then length p else u8_len (hd p))"
    have "bpe_fallback t cap p out = bpe_fallback t cap (drop l p) (fill cap (piece_ids t (take l p)) out)"
      using False by (subst bpe_fallback.simps) (simp add: Let_def l_def emit_char_fill)
    also have "\<dots> = fill cap (concat (map (piece_ids t) (cut_chars (drop l p)))) (fill cap (piece_ids t (take l p)) out)"
      using 1 [OF False l_def] by (simp add: emit_char_fill)
    also have "\<dots> = fill cap (concat (map (piece_ids t) (cut_chars p))) out"
      using False by (subst (2) cut_chars.simps) (simp add: Let_def l_def)
    finally show ?thesis .
  qed
qed

lemma bpe_emit_fill: "bpe_emit t cap w sy i out = fill cap (bpe_piece_ids t (piece w sy i)) out"
  by (simp add: bpe_emit_def bpe_piece_ids_def Let_def put_id_fill bpe_fallback_fill)

interpretation bpe: merger "bpe_sk (\<lambda>n. n) t alloc w" w "bpe_key t" for t alloc w
  by unfold_locales (auto simp: bpe_sk_def bpe_key_def bpe_merge_rank_def Let_def split: if_splits)

subsection \<open>The rescan by ranks is the rescan by keys\<close>

definition small_ranks :: "tokenizer \<Rightarrow> bool" where
  "small_ranks t \<longleftrightarrow> (\<forall>k. the (hmap_get (t_merges t) k) < 2 ^ 24)"

lemma bpe_sk_float: "small_ranks t \<Longrightarrow> bpe_sk f32_nat t alloc w = bpe_sk (\<lambda>n. n) t alloc w"
  by (intro ext) (auto simp: bpe_sk_def bpe_merge_rank_def Let_def small_ranks_def f32_nat_exact nat_less_iff split: if_splits)

definition rank_acc :: "(nat \<times> nat) option \<Rightarrow> int \<times> nat option" where
  "rank_acc a = (case a of None \<Rightarrow> (INT_MAX, None) | Some (k, b) \<Rightarrow> (int k, Some b))"

lemma bpe_scan_step:
  assumes "small_ranks t"
  shows "bpe_scan_step t alloc w sy i (rank_acc a, f) = (rank_acc (fst (scan_step (bpe_sk (\<lambda>n. n) t alloc w) sy i (a, f))),
    snd (scan_step (bpe_sk (\<lambda>n. n) t alloc w) sy i (a, f)))"
proof (cases "s_next (sy ! i)")
  case (Some j)
  obtain r g where r: "bpe_merge_rank t alloc w (s_start (sy ! i)) (s_len (sy ! i)) (s_start (sy ! j)) (s_len (sy ! j)) = (r, g)"
    by (cases "bpe_merge_rank t alloc w (s_start (sy ! i)) (s_len (sy ! i)) (s_start (sy ! j)) (s_len (sy ! j))")
  then have "r < INT_MAX"
  proof -
    have "the (hmap_get (t_merges t) k) < INT_MAX" for k
      using assms by (auto simp: small_ranks_def INT_MAX_def intro: less_trans)
    then show ?thesis using r by (auto simp: bpe_merge_rank_def Let_def INT_MAX_def split: if_splits)
  qed
  then show ?thesis using Some r
    by (cases a) (auto simp: bpe_scan_step_def scan_step_def sym_key_def bpe_sk_def rank_acc_def split: prod.splits)
qed (simp add: bpe_scan_step_def scan_step_def)

lemma bpe_scan:
  "small_ranks t \<Longrightarrow> fold (bpe_scan_step t alloc w sy) is (rank_acc a, f)
    = (rank_acc (fst (fold (scan_step (bpe_sk (\<lambda>n. n) t alloc w) sy) is (a, f))), snd (fold (scan_step (bpe_sk (\<lambda>n. n) t alloc w) sy) is (a, f)))"
  by (induction "is" arbitrary: a f) (simp_all add: bpe_scan_step)

lemma bpe_rescan_keys:
  "small_ranks t \<Longrightarrow> good (length w) sy cs \<Longrightarrow> length cs = n \<Longrightarrow>
    rescan (bpe_sk (\<lambda>n. n) t alloc w) n sy f = Some (bpe_rescan t alloc w n sy f)"
proof (induction n arbitrary: sy f cs)
  case 0
  then show ?case by (simp add: good_def)
next
  case (Suc n)
  let ?sk = "bpe_sk (\<lambda>n. n) t alloc w"
  show ?case
  proof (cases "n = 0")
    case True
    then have "lefts sy (length sy) 0 = []" using good_walks(1) [OF Suc.prems(2)] Suc.prems(3) by (cases cs) auto
    then show ?thesis using True by (simp add: scan_def bpe_rescan.simps)
  next
    case False
    let ?g = "fold (scan_step ?sk sy) (lefts sy (length sy) 0) (None, False)"
    have s: "fold (bpe_scan_step t alloc w sy) (lefts sy (length sy) 0) ((INT_MAX, None), False) = (rank_acc (fst ?g), snd ?g)"
      using bpe_scan [OF Suc.prems(1), of alloc w sy "lefts sy (length sy) 0" None False] by (simp add: rank_acc_def)
    obtain r g where rg: "?g = (r, g)" by (cases ?g)
    show ?thesis
    proof (cases r)
      case None
      then show ?thesis using s rg False by (simp add: scan_def rank_acc_def bpe_rescan.simps)
    next
      case (Some kb)
      obtain k b where kb: "r = Some (k, b)" using Some by (cases kb) auto
      have sc: "scan ?sk sy = (Some (k, b), g)" using rg kb by (simp add: scan_def)
      then obtain xs j ys where c: "cs = xs @ b # j # ys" using bpe.scan_result [OF Suc.prems(2), of t alloc] by auto
      have "bpe_rescan t alloc w (Suc n) sy f = bpe_rescan t alloc w n (absorb False sy b) (f \<or> g)"
        using s rg kb False by (subst bpe_rescan.simps) (simp add: rank_acc_def)
      moreover have "good (length w) (absorb False sy b) (xs @ b # ys)" "length (xs @ b # ys) = n"
        using good_absorb(1) [OF Suc.prems(2) c] Suc.prems(3) c by auto
      ultimately show ?thesis using Suc.IH [OF Suc.prems(1)] sc by simp
    qed
  qed
qed

lemma bpe_quiet: "(\<And>n. alloc n) \<Longrightarrow> quiet (bpe_sk conv t alloc w)"
  by (simp add: quiet_def bpe_sk_def bpe_merge_rank_def Let_def)

text \<open>Whichever loop runs, the pieces are those of the specification, or the flag tells.\<close>

lemma bpe_merged:
  assumes "w \<noteq> []" "small_ranks t"
  shows "case (if \<not> use_merge_queue force (length (init_syms w)) then Some (Some (bpe_rescan t alloc w (length (init_syms w)) (init_syms w) False))
        else queue_merge (bpe_sk f32_nat t alloc w) (\<lambda>c. alloc (20 * c)) (init_syms w)) of
      None \<Rightarrow> False
    | Some None \<Rightarrow> \<exists>n. \<not> alloc n
    | Some (Some (sy, f)) \<Rightarrow>
        if f then \<exists>n. \<not> alloc n
        else map (piece w sy) (chain sy (length sy) (Some 0)) = merge_pieces (bpe_key t) (char_pieces w)"
proof (cases "use_merge_queue force (length (init_syms w))")
  case False
  let ?s = "init_syms w"
  obtain sy f where r: "rescan (bpe_sk (\<lambda>n. n) t alloc w) (length ?s) ?s False = Some (sy, f)"
    "\<not> f \<longrightarrow> map (piece w sy) (chain sy (length sy) (Some 0)) = merge_pieces (bpe_key t) (char_pieces w)"
    using bpe.rescan_init [OF assms(1) order_refl, of t alloc] by blast
  have "bpe_rescan t alloc w (length ?s) ?s False = (sy, f)"
    using bpe_rescan_keys [OF assms(2) init_good(1) [OF assms(1)], of "length ?s" alloc False] r(1) by simp
  moreover have "f \<Longrightarrow> \<exists>n. \<not> alloc n" using rescan_quiet [OF bpe_quiet r(1)] by blast
  ultimately show ?thesis using False r(2) by simp
next
  case True
  let ?r = "queue_merge (bpe_sk (\<lambda>n. n) t alloc w) (\<lambda>c. alloc (20 * c)) (init_syms w)"
  have q: "case ?r of
      None \<Rightarrow> False
    | Some None \<Rightarrow> \<exists>c. \<not> alloc (20 * c)
    | Some (Some (sy, f)) \<Rightarrow>
        \<not> f \<longrightarrow> map (piece w sy) (chain sy (length sy) (Some 0)) = merge_pieces (bpe_key t) (char_pieces w)"
    by (rule bpe.queue_init [OF assms(1)])
  have "f \<Longrightarrow> \<exists>n. \<not> alloc n" if "?r = Some (Some (sy, f))" for sy f
    using queue_quiet [OF bpe_quiet that] by blast
  then show ?thesis using True q bpe_sk_float [OF assms(2)] by (auto split: option.splits)
qed

lemma bpe_fold_emit:
  "map (piece w sy) is = ps \<Longrightarrow> fold (bpe_emit t cap w sy) is out = fill cap (concat (map (bpe_piece_ids t) ps)) out"
  using fold_fill [of "is" "bpe_emit t cap w sy" cap "\<lambda>i. bpe_piece_ids t (piece w sy i)"]
  by (auto simp: bpe_emit_fill comp_def)

lemma char_pieces_concat: "concat (char_pieces s) = s"
proof (induction s rule: char_pieces.induct)
  case (1 s)
  then show ?case by (subst char_pieces.simps) (auto simp: Let_def)
qed

lemma merge_no_pieces: "merge_pieces key [] = []"
  by (subst merge_pieces.simps) (simp add: best_pair_def)

text \<open>The ranks of a table of at most \<open>2 ^ 24\<close> merges are small.\<close>

lemma loaded_ranks:
  assumes "load_table alloc ms = Some (t_merges t)" "length ms \<le> 2 ^ 24" "\<forall>k \<in> set ms. length k < 2 ^ 32"
  shows "small_ranks t"
proof -
  have "length ms < 2 ^ 31" using assms(2) by simp
  then have "the (hmap_get (t_merges t) k) = first_index ms k" for k using load_lookup [OF _ assms(3,1)] by simp
  moreover have "first_index ms k < 2 ^ 24" for k
  proof -
    have "int (length ms) \<le> 16777216" using assms(2) by simp
    then have "first_index ms k < 16777216" using first_index_iff(2) [of ms k] by linarith
    then show ?thesis by simp
  qed
  ultimately show ?thesis by (simp add: small_ranks_def)
qed

lemma bpe_word_fills:
  assumes "small_ranks t"
  shows "concat (bpe_pieces t w) = w \<and>
   (case bpe_word t force alloc w cap out of
      None \<Rightarrow> False
    | Some (r, oom) \<Rightarrow>
      if oom then \<exists>n. \<not> alloc n
      else r = out @ take (cap - length out) (concat (map (bpe_piece_ids t) (bpe_pieces t w))))"
proof -
  have "concat (bpe_pieces t w) = w"
    by (simp add: bpe_pieces_def merge_pieces_concat char_pieces_concat)
  moreover consider "w = []" | "w \<noteq> []" "whole_word t w" | "w \<noteq> []" "\<not> whole_word t w" "\<not> alloc (16 * (length w + 1))"
    | "w \<noteq> []" "\<not> whole_word t w" "alloc (16 * (length w + 1))" by blast
  then have "case bpe_word t force alloc w cap out of None \<Rightarrow> False
    | Some (r, oom) \<Rightarrow> if oom then \<exists>n. \<not> alloc n else r = fill cap (concat (map (bpe_piece_ids t) (bpe_pieces t w))) out"
  proof cases
    case 4
    define m where "m = (if \<not> use_merge_queue force (length (init_syms w)) then Some (Some (bpe_rescan t alloc w (length (init_syms w)) (init_syms w) False))
        else queue_merge (bpe_sk f32_nat t alloc w) (\<lambda>c. alloc (20 * c)) (init_syms w))"
    have e: "bpe_word t force alloc w cap out = (case m of None \<Rightarrow> None | Some None \<Rightarrow> Some (out, True)
        | Some (Some (sy, f)) \<Rightarrow> Some (fold (bpe_emit t cap w sy) (chain sy (length sy) (Some 0)) out, f))"
      using 4 by (simp add: bpe_word_def Let_def m_def)
    have m: "case m of None \<Rightarrow> False | Some None \<Rightarrow> \<exists>n. \<not> alloc n
      | Some (Some (sy, f)) \<Rightarrow> if f then \<exists>n. \<not> alloc n
          else map (piece w sy) (chain sy (length sy) (Some 0)) = merge_pieces (bpe_key t) (char_pieces w)"
      unfolding m_def by (rule bpe_merged [OF 4(1) assms])
    have p: "bpe_pieces t w = merge_pieces (bpe_key t) (char_pieces w)" using 4 by (simp add: bpe_pieces_def)
    consider "m = Some None" | sy f where "m = Some (Some (sy, f))" using m by (cases m) (auto split: option.splits)
    then show ?thesis
    proof cases
      case (2 sy f)
      show ?thesis
      proof (cases f)
        case False
        then have "map (piece w sy) (chain sy (length sy) (Some 0)) = merge_pieces (bpe_key t) (char_pieces w)" using m 2 by simp
        from bpe_fold_emit [OF this] show ?thesis using e 2 False p by simp
      qed (use e m 2 in simp)
    qed (use e m in simp)
  qed (auto simp: bpe_word_def bpe_pieces_def merge_no_pieces bpe_piece_ids_def whole_word_def put_id_fill)
  ultimately show ?thesis by (auto simp: fill_def split: option.splits prod.splits)
qed

text \<open>
  Property C21. Encoding a pre-token by merge ranks is exact. When the ranks are below \<open>2 ^ 24\<close>, where a
  float holds them, the code returns for every pre-token, vocabulary, loop and pattern of failing
  allocations. Either the flag says that memory ran out, and some allocation did fail, or what is
  appended is, cut to the room there is, the ids of the pieces that merging the pair of the smallest
  rank, the leftmost on a tie, leaves of the characters (of the whole pre-token, where it is taken as
  it is), with the fallback to characters and bytes. Those pieces make up the pre-token.
\<close>

theorem bpe_word_exact:
  assumes "small_ranks t"
  shows "concat (bpe_pieces t w) = w \<and>
   (case bpe_word t force alloc w cap out of
      None \<Rightarrow> False
    | Some (r, oom) \<Rightarrow>
      if oom then \<exists>n. \<not> alloc n
      else r = out @ take (cap - length out) (concat (map (bpe_piece_ids t) (bpe_pieces t w))))"
  by (rule bpe_word_fills [OF assms])

definition demo_merges :: "bytes list" where
  "demo_merges = map ascii [''b c'', ''a b'', ''ab c'']"

definition demo_bpe :: tokenizer where
  "demo_bpe = \<lparr>t_model = TOK_BPE, t_pre = TOK_PRE_GPT2, t_tokens = demo_toks,
     t_vocab = the (load_table (\<lambda>_. True) demo_toks), t_scores = None, t_ttype = None,
     t_merges = the (load_table (\<lambda>_. True) demo_merges), t_unk = 0, t_ignore_merges = True, t_add_space_prefix = False,
     t_bos = -1, t_add_bos = False, t_eos = -1, t_eog_ids = [], t_nfc = False, t_special_ids = [], t_sb_off = replicate 257 0, t_b2u = [], t_u2b = []\<rparr>"

lemma demo_tables:
  "vocab_id demo_bpe k = first_index demo_toks k" "the (hmap_get (t_merges demo_bpe) k) = first_index demo_merges k"
  "small_ranks demo_bpe"
proof -
  have ms: "length demo_merges < 2 ^ 31" "\<forall>k \<in> set demo_merges. length k < 2 ^ 32" "length demo_merges \<le> 2 ^ 24"
    by (simp_all add: demo_merges_def ascii_def)
  then obtain m where m: "load_table (\<lambda>_. True) demo_merges = Some m"
    using load_succeeds [OF ms(1,2), of "\<lambda>_. True"] by (auto simp: hmap_init_def Let_def)
  then show "the (hmap_get (t_merges demo_bpe) k) = first_index demo_merges k"
    using load_lookup [OF ms(1,2) m] by (simp add: demo_bpe_def)
  show "small_ranks demo_bpe" using loaded_ranks [OF _ ms(3,2)] m by (simp add: demo_bpe_def)
  show "vocab_id demo_bpe k = first_index demo_toks k"
    using demo_vocab [of k] by (simp add: vocab_id_def demo_bpe_def demo_spm_def)
qed

text \<open>"abac" merges its first pair and falls back to the byte of the last; "ab" is taken whole.\<close>

theorem bpe_word_exact_witness:
  "small_ranks demo_bpe \<and> bpe_word demo_bpe 1 (\<lambda>_. True) (ascii ''abac'') 9 [] = Some ([2, 0, 4], False)"
proof -
  define k where "k = (\<lambda>x y. let r = first_index demo_merges (x @ 0x20 # y) in if r < 0 then None else Some (nat r))"
  have "bpe_key demo_bpe = k" by (intro ext) (simp add: bpe_key_def k_def demo_tables)
  moreover have "merge_pieces k (char_pieces (ascii ''abac'')) = map ascii [''ab'', ''a'', ''c'']"
    unfolding k_def by code_simp
  moreover have "first_index demo_toks (ascii ''abac'') = -1" by code_simp
  ultimately have p: "bpe_pieces demo_bpe (ascii ''abac'') = map ascii [''ab'', ''a'', ''c'']"
    by (simp add: bpe_pieces_def whole_word_def demo_tables)
  have "first_index demo_toks (ascii ''ab'') = 2" "first_index demo_toks (ascii ''a'') = 0" "first_index demo_toks (ascii ''c'') = -1"
    "first_index demo_toks (byte_name 0x63) = 4" "cut_chars (ascii ''c'') = [ascii ''c'']" by code_simp+
  then have "concat (map (bpe_piece_ids demo_bpe) (bpe_pieces demo_bpe (ascii ''abac''))) = [2, 0, 4]"
    unfolding p by (simp add: bpe_piece_ids_def demo_tables piece_ids_def) (simp add: ascii_def byte_ids_def demo_tables)
  then show ?thesis
    using bpe_word_exact [OF demo_tables(3), where w = "ascii ''abac''" and force = 1 and alloc = "\<lambda>_. True" and cap = 9 and out = "[]"]
      demo_tables(3) by (auto split: option.splits prod.splits if_splits)
qed

end
