(* ===== verification/Tok_Regex.thy ===== *)
theory Tok_Regex
  imports Prelude
begin

section \<open>Regular expressions as the publishers' tokenizers run them\<close>

text \<open>
  The split rules of the tokenizers are published as regular expressions for a backtracking engine:
  alternatives are tried in order, a repetition takes as much as it can and gives back one character
  at a time. \<open>lens r s\<close> is the lengths of the matches of \<open>r\<close> at the start of \<open>s\<close>, in the order the engine
  finds them; \<open>first_match\<close> is the one it takes. Repetitions are over character classes only, which
  is all the published rules use.
\<close>

datatype 'c re =
    Run "'c \<Rightarrow> bool" nat "nat option"
  | Sq "'c re" "'c re"
  | Or "'c re" "'c re"
  | Empty
  | Not_Ahead "'c \<Rightarrow> bool"

abbreviation one :: "('c \<Rightarrow> bool) \<Rightarrow> 'c re" where "one P \<equiv> Run P (Suc 0) (Some (Suc 0))"
abbreviation opt :: "('c \<Rightarrow> bool) \<Rightarrow> 'c re" where "opt P \<equiv> Run P 0 (Some (Suc 0))"
abbreviation some :: "('c \<Rightarrow> bool) \<Rightarrow> 'c re" where "some P \<equiv> Run P (Suc 0) None"
abbreviation many :: "('c \<Rightarrow> bool) \<Rightarrow> 'c re" where "many P \<equiv> Run P 0 None"

abbreviation up_to :: "nat \<Rightarrow> ('c \<Rightarrow> bool) \<Rightarrow> 'c re" where "up_to m P \<equiv> Run P (Suc 0) (Some m)"

definition run_length :: "('c \<Rightarrow> bool) \<Rightarrow> 'c list \<Rightarrow> nat" where
  "run_length P s = length (takeWhile P s)"

fun lens :: "'c re \<Rightarrow> 'c list \<Rightarrow> nat list" where
  "lens (Run P lo hi) s = (let n = run_length P s; m = (case hi of None \<Rightarrow> n | Some h \<Rightarrow> min n h) in rev [lo..<Suc m])"
| "lens (Sq a b) s = concat (map (\<lambda>n. map (\<lambda>k. n + k) (lens b (drop n s))) (lens a s))"
| "lens (Or a b) s = lens a s @ lens b s"
| "lens Empty s = [0]"
| "lens (Not_Ahead P) s = (case s of [] \<Rightarrow> [0] | c # _ \<Rightarrow> if P c then [] else [0])"

definition first_match :: "'c re \<Rightarrow> 'c list \<Rightarrow> nat option" where
  "first_match r s = (case lens r s of [] \<Rightarrow> None | n # _ \<Rightarrow> Some n)"

subsection \<open>First matches\<close>

lemma run_length_simps [simp]:
  "run_length P [] = 0" "run_length P (c # s) = (if P c then Suc (run_length P s) else 0)"
  by (simp_all add: run_length_def)

lemma run_length_le: "run_length P s \<le> length s"
  by (simp add: run_length_def length_takeWhile_le)

lemma run_length_holds: "k < run_length P s \<Longrightarrow> P (s ! k)"
  by (simp add: run_length_def) (metis nth_mem set_takeWhileD takeWhile_nth)

lemma run_length_stops: "run_length P s < length s \<Longrightarrow> \<not> P (s ! run_length P s)"
  by (simp add: run_length_def nth_length_takeWhile)

lemma first_Or: "first_match (Or a b) s = (case first_match a s of None \<Rightarrow> first_match b s | Some n \<Rightarrow> Some n)"
  by (simp add: first_match_def split: list.split)

lemma first_Run:
  "first_match (Run P lo hi) s = (let n = run_length P s; m = (case hi of None \<Rightarrow> n | Some h \<Rightarrow> min n h) in if lo \<le> m then Some m else None)"
  by (auto simp: first_match_def Let_def split: option.split)

lemma first_Empty [simp]: "first_match Empty s = Some 0"
  by (simp add: first_match_def)

text \<open>A sequence, over the lengths of its first part.\<close>

fun first_of :: "(nat \<Rightarrow> nat option) \<Rightarrow> nat list \<Rightarrow> nat option" where
  "first_of f [] = None"
| "first_of f (n # ns) = (case f n of None \<Rightarrow> first_of f ns | Some k \<Rightarrow> Some (n + k))"

lemma first_Sq: "first_match (Sq a b) s = first_of (\<lambda>n. first_match b (drop n s)) (lens a s)"
proof -
  have "(case concat (map (\<lambda>n. map (\<lambda>k. n + k) (lens b (drop n s))) ns) of [] \<Rightarrow> None | n # _ \<Rightarrow> Some n)
      = first_of (\<lambda>n. first_match b (drop n s)) ns" for ns
  proof (induction ns)
    case (Cons n ns)
    then show ?case by (cases "lens b (drop n s)") (simp_all add: first_match_def)
  qed simp
  then show ?thesis by (simp add: first_match_def)
qed

lemma first_Sq_total:
  assumes "\<And>u. first_match b u \<noteq> None"
  shows "first_match (Sq a b) s = (case first_match a s of None \<Rightarrow> None | Some n \<Rightarrow> Some (n + the (first_match b (drop n s))))"
proof (cases "lens a s")
  case (Cons n ns)
  obtain k where "first_match b (drop n s) = Some k" using assms by blast
  then show ?thesis using Cons by (simp add: first_Sq first_match_def [of a])
qed (simp add: first_Sq first_match_def [of a])

lemma first_assoc: "first_match (Sq (Sq a b) c) s = first_match (Sq a (Sq b c)) s"
proof -
  have "first_of f (concat (map (\<lambda>n. map (\<lambda>k. n + k) (g n)) ns)) = first_of (\<lambda>n. first_of (\<lambda>k. f (n + k)) (g n)) ns"
    for f g and ns :: "nat list"
  proof (induction ns)
    case (Cons n ns)
    have "first_of f (map (\<lambda>k. n + k) ks @ ms) = (case first_of (\<lambda>k. f (n + k)) ks of None \<Rightarrow> first_of f ms | Some k \<Rightarrow> Some (n + k))"
      for ks ms by (induction ks) (auto split: option.split)
    then show ?case using Cons by (simp split: option.split)
  qed simp
  then show ?thesis by (simp add: first_Sq add.commute)
qed

lemma first_opt:
  "first_match (Sq (opt P) r) (c # s) =
    (if P c then case first_match r s of None \<Rightarrow> first_match r (c # s) | Some n \<Rightarrow> Some (Suc n) else first_match r (c # s))"
  by (auto simp: first_Sq numeral_eq_Suc split: option.split)

subsection \<open>The parts the rules share\<close>

lemma first_some: "first_match (some P) s = (if run_length P s = 0 then None else Some (run_length P s))"
  by (simp add: first_Run)

lemma first_many: "first_match (many P) s = Some (run_length P s)"
  by (simp add: first_Run)

lemma first_one: "first_match (one P) s = (case s of [] \<Rightarrow> None | c # _ \<Rightarrow> if P c then Some 1 else None)"
  by (simp add: first_Run split: list.split)

text \<open>Giving back: of a run's lengths, the largest after which the rest matches.\<close>

lemma first_of_skip: "(\<And>n. n \<in> set ns \<Longrightarrow> f n = None) \<Longrightarrow> first_of f (ns @ ms) = first_of f ms"
  by (induction ns) simp_all

lemma first_of_last:
  assumes "lo \<le> k" "k < m" "f k = Some j" "\<And>i. k < i \<Longrightarrow> i < m \<Longrightarrow> f i = None"
  shows "first_of f (rev [lo..<m]) = Some (k + j)"
proof -
  have "[lo..<m] = [lo..<k] @ k # [Suc k..<m]"
    using upt_add_eq_append [OF assms(1), of "m - k"] upt_conv_Cons [OF assms(2)] assms(2) by simp
  then have "first_of f (rev [lo..<m]) = first_of f (rev [Suc k..<m] @ k # rev [lo..<k])" by simp
  also have "\<dots> = first_of f (k # rev [lo..<k])" by (rule first_of_skip) (simp add: assms(4))
  finally show ?thesis using assms(3) by simp
qed

lemma first_of_none: "(\<And>i. lo \<le> i \<Longrightarrow> i < m \<Longrightarrow> f i = None) \<Longrightarrow> first_of f (rev [lo..<m]) = None"
  using first_of_skip [of "rev [lo..<m]" f "[]"] by simp

end
