(* ===== verification/Tok_Split.thy ===== *)
theory Tok_Split
  imports Tok_Regex
begin

unbundle bit_operations_syntax

section \<open>Splitting a text into pre-tokens (tokenizer.c)\<close>

text \<open>
  The split rules of seven model families: from the code point at \<open>i\<close>, the end of the pre-token. The code
  points are a list, \<open>ncp\<close> is its length. The table of Unicode classes is generated, so it is a
  parameter \<open>tab\<close>: ranges with their class, in increasing order; what is proved holds for every table.
\<close>

datatype uc = UC_OTHER | UC_LU | UC_LL | UC_LT | UC_LM | UC_LO | UC_M | UC_ND | UC_N | UC_P | UC_S | UC_Z

type_synonym uc_table = "(u32 \<times> u32 \<times> uc) list"

subsection \<open>Classes of code points\<close>

text \<open>The binary search between \<open>lo\<close> and \<open>hi\<close>.\<close>

function uc_search :: "uc_table \<Rightarrow> u32 \<Rightarrow> nat \<Rightarrow> nat \<Rightarrow> uc" where
  "uc_search tab c lo hi =
    (if lo < hi then
       let mid = lo + (hi - lo) div 2
       in if c < fst (tab ! mid) then uc_search tab c lo mid
          else if c > fst (snd (tab ! mid)) then uc_search tab c (mid + 1) hi
          else snd (snd (tab ! mid))
     else UC_OTHER)"
  by pat_completeness auto
termination
  by (relation "measure (\<lambda>(tab, c, lo, hi). hi - lo)") auto

declare uc_search.simps [simp del]

definition uc_class :: "uc_table \<Rightarrow> u32 \<Rightarrow> uc" where
  "uc_class tab c = uc_search tab c 0 (length tab)"

definition uc_is_letter :: "uc \<Rightarrow> bool" where
  "uc_is_letter k \<longleftrightarrow> k \<in> {UC_LU, UC_LL, UC_LT, UC_LM, UC_LO}"

text \<open>0 a letter, 1 a number, 2 something else, 3 white space.\<close>

definition cp_class :: "uc_table \<Rightarrow> u32 \<Rightarrow> nat" where
  "cp_class tab c =
    (if c < 0x80 then
       (if c = 0x20 \<or> c = 0x09 \<or> c = 0x0A \<or> c = 0x0D \<or> c = 0x0B \<or> c = 0x0C then 3
        else if c \<ge> 0x30 \<and> c \<le> 0x39 then 1
        else if c \<ge> 0x61 \<and> c \<le> 0x7A \<or> c \<ge> 0x41 \<and> c \<le> 0x5A then 0
        else 2)
     else let k = uc_class tab c
       in if uc_is_letter k then 0 else if k = UC_ND \<or> k = UC_N then 1 else if k = UC_Z then 3 else 2)"

definition cp_mark :: "uc_table \<Rightarrow> u32 \<Rightarrow> bool" where
  "cp_mark tab c \<longleftrightarrow> c \<ge> 0x80 \<and> uc_class tab c = UC_M"

definition cp_letter :: "uc_table \<Rightarrow> u32 \<Rightarrow> bool" where "cp_letter tab c \<longleftrightarrow> cp_class tab c = 0"
definition cp_digit :: "uc_table \<Rightarrow> u32 \<Rightarrow> bool" where "cp_digit tab c \<longleftrightarrow> cp_class tab c = 1"
definition cp_space :: "uc_table \<Rightarrow> u32 \<Rightarrow> bool" where "cp_space tab c \<longleftrightarrow> cp_class tab c = 3"

definition cp_other :: "uc_table \<Rightarrow> u32 \<Rightarrow> bool" where
  "cp_other tab c \<longleftrightarrow> \<not> cp_space tab c \<and> \<not> cp_letter tab c \<and> \<not> cp_digit tab c"

definition cp_crlf :: "u32 \<Rightarrow> bool" where
  "cp_crlf c \<longleftrightarrow> c = 0x0D \<or> c = 0x0A"

definition cp_letter_upperish :: "uc_table \<Rightarrow> u32 \<Rightarrow> bool" where
  "cp_letter_upperish tab c \<longleftrightarrow>
    (if c < 0x80 then c \<ge> 0x41 \<and> c \<le> 0x5A
     else uc_class tab c \<in> {UC_LU, UC_LT, UC_LM, UC_LO, UC_M})"

definition cp_letter_lowerish :: "uc_table \<Rightarrow> u32 \<Rightarrow> bool" where
  "cp_letter_lowerish tab c \<longleftrightarrow>
    (if c < 0x80 then c \<ge> 0x61 \<and> c \<le> 0x7A
     else uc_class tab c \<in> {UC_LL, UC_LM, UC_LO, UC_M})"

definition k2h_letterish :: "uc_table \<Rightarrow> u32 \<Rightarrow> bool" where
  "k2h_letterish tab c \<longleftrightarrow> cp_letter tab c \<or> cp_mark tab c \<or> c = 0x200C \<or> c = 0x200D"

definition gpt2_class :: "uc_table \<Rightarrow> u32 \<Rightarrow> nat" where
  "gpt2_class tab c = (if cp_space tab c then 3 else if cp_digit tab c then 1 else if cp_letter tab c then 0 else 2)"

subsection \<open>The rules\<close>

text \<open>The loop \<^verbatim>\<open>while (j < n && P(cp[j])) j++\<close>.\<close>

function run_end :: "(u32 \<Rightarrow> bool) \<Rightarrow> u32 list \<Rightarrow> nat \<Rightarrow> nat \<Rightarrow> nat" where
  "run_end P cp n j = (if j < n \<and> P (cp ! j) then run_end P cp n (j + 1) else j)"
  by pat_completeness auto
termination
  by (relation "measure (\<lambda>(P, cp, n, j). n - j)") auto

declare run_end.simps [simp del]

text \<open>The last newline in \<open>[i, j)\<close>, or \<open>None\<close> for -1.\<close>

definition last_nl :: "u32 list \<Rightarrow> nat \<Rightarrow> nat \<Rightarrow> nat option" where
  "last_nl cp i j = fold (\<lambda>k last. if cp_crlf (cp ! k) then Some k else last) [i..<j] None"

definition contraction_len :: "u32 list \<Rightarrow> nat \<Rightarrow> nat \<Rightarrow> nat" where
  "contraction_len cp i ncp =
    (if i \<ge> ncp \<or> cp ! i \<noteq> 0x27 \<or> i + 1 \<ge> ncp then 0
     else let a = cp ! (i + 1) OR 32; b = (if i + 2 < ncp then cp ! (i + 2) OR 32 else 0)
       in if a = 0x73 \<or> a = 0x74 \<or> a = 0x6D \<or> a = 0x64 then 2
          else if a = 0x72 \<and> b = 0x65 \<or> a = 0x76 \<and> b = 0x65 \<or> a = 0x6C \<and> b = 0x6C then 3
          else 0)"

text \<open>
  The last part of every rule but GPT-2's, for white space. \<open>ends\<close> says of the character after the run
  whether it ends the piece, so that the run keeps its last space.
\<close>

definition space_split :: "uc_table \<Rightarrow> (u32 \<Rightarrow> bool) \<Rightarrow> u32 list \<Rightarrow> nat \<Rightarrow> nat \<Rightarrow> nat" where
  "space_split tab ends cp i ncp =
    (let j = run_end (cp_space tab) cp ncp i
     in case last_nl cp i j of Some k \<Rightarrow> k + 1
      | None \<Rightarrow> if j < ncp \<and> j - i > 1 \<and> \<not> ends (cp ! j) then j - 1 else j)"

text \<open>An optional space and a run of symbols, with what may follow them; \<open>None\<close> when there is no symbol.\<close>

definition symbol_split :: "(u32 \<Rightarrow> bool) \<Rightarrow> (u32 \<Rightarrow> bool) \<Rightarrow> u32 list \<Rightarrow> nat \<Rightarrow> nat \<Rightarrow> nat option" where
  "symbol_split sm follow cp i ncp =
    (let j = (if cp ! i = 0x20 \<and> i + 1 < ncp \<and> sm (cp ! (i + 1)) then i + 1 else i)
     in if j < ncp \<and> sm (cp ! j) then Some (run_end follow cp ncp (run_end sm cp ncp j)) else None)"

text \<open>The run of at most \<open>m\<close> digits.\<close>

function digit_end :: "uc_table \<Rightarrow> u32 list \<Rightarrow> nat \<Rightarrow> nat \<Rightarrow> nat \<Rightarrow> nat \<Rightarrow> nat" where
  "digit_end tab cp ncp m i j =
    (if j < ncp \<and> cp_digit tab (cp ! j) \<and> j - i < m then digit_end tab cp ncp m i (j + 1) else j)"
  by pat_completeness auto
termination
  by (relation "measure (\<lambda>(tab, cp, ncp, m, i, j). ncp - j)") auto

declare digit_end.simps [simp del]

definition pre_split_next :: "uc_table \<Rightarrow> u32 list \<Rightarrow> nat \<Rightarrow> nat \<Rightarrow> nat \<Rightarrow> bool \<Rightarrow> bool \<Rightarrow> nat" where
  "pre_split_next tab cp i ncp max_digits marks_join digit_ends =
    (let adv = contraction_len cp i ncp;
         run_letter = (\<lambda>c. cp_letter tab c \<or> marks_join \<and> cp_mark tab c);
         run_other = (\<lambda>c. \<not> cp_space tab c \<and> \<not> run_letter c \<and> \<not> cp_digit tab c)
     in if adv \<noteq> 0 then i + adv
        else if \<not> cp_letter tab (cp ! i) \<and> \<not> cp_digit tab (cp ! i) \<and> cp ! i \<noteq> 0x0D \<and> cp ! i \<noteq> 0x0A
            \<and> i + 1 < ncp \<and> run_letter (cp ! (i + 1)) then run_end run_letter cp ncp (i + 1)
        else if run_letter (cp ! i) then run_end run_letter cp ncp i
        else if cp_digit tab (cp ! i) then digit_end tab cp ncp max_digits i i
        else case symbol_split run_other cp_crlf cp i ncp of Some j \<Rightarrow> j
          | None \<Rightarrow> space_split tab (\<lambda>c. digit_ends \<and> cp_digit tab c) cp i ncp)"

definition k2h_split_next :: "uc_table \<Rightarrow> u32 list \<Rightarrow> nat \<Rightarrow> nat \<Rightarrow> nat" where
  "k2h_split_next tab cp i ncp =
    (let adv = contraction_len cp i ncp
     in if adv \<noteq> 0 then i + adv
        else if \<not> cp_letter tab (cp ! i) \<and> \<not> cp_digit tab (cp ! i) \<and> cp ! i \<noteq> 0x0D \<and> cp ! i \<noteq> 0x0A
            \<and> i + 1 < ncp \<and> k2h_letterish tab (cp ! (i + 1)) then run_end (k2h_letterish tab) cp ncp (i + 1)
        else if k2h_letterish tab (cp ! i) then run_end (k2h_letterish tab) cp ncp i
        else if cp_digit tab (cp ! i) then digit_end tab cp ncp 3 i i
        else case symbol_split (cp_other tab) cp_crlf cp i ncp of Some j \<Rightarrow> j
          | None \<Rightarrow> let j = space_split tab (\<lambda>_. False) cp i ncp in if j > i then j else i + 1)"

text \<open>The search of \<^verbatim>\<open>case_run_alt1\<close>, from \<open>p\<close> back to \<open>s\<close>.\<close>

fun alt1_from :: "uc_table \<Rightarrow> u32 list \<Rightarrow> nat \<Rightarrow> nat \<Rightarrow> nat \<Rightarrow> nat" where
  "alt1_from tab cp ncp s p =
    (if p < ncp \<and> cp_letter_lowerish tab (cp ! p) then run_end (cp_letter_lowerish tab) cp ncp p
     else if p > s then alt1_from tab cp ncp s (p - 1)
     else s)"

declare alt1_from.simps [simp del]

definition case_run_alt1 :: "uc_table \<Rightarrow> u32 list \<Rightarrow> nat \<Rightarrow> nat \<Rightarrow> nat" where
  "case_run_alt1 tab cp s ncp = alt1_from tab cp ncp s (run_end (cp_letter_upperish tab) cp ncp s)"

definition case_run_alt2 :: "uc_table \<Rightarrow> u32 list \<Rightarrow> nat \<Rightarrow> nat \<Rightarrow> nat" where
  "case_run_alt2 tab cp s ncp =
    (let u = run_end (cp_letter_upperish tab) cp ncp s
     in if u = s then s else run_end (cp_letter_lowerish tab) cp ncp u)"

definition tekken_letters :: "uc_table \<Rightarrow> u32 list \<Rightarrow> nat \<Rightarrow> nat \<Rightarrow> nat" where
  "tekken_letters tab cp i ncp =
    (let lead = (\<not> cp_letter tab (cp ! i) \<and> \<not> cp_digit tab (cp ! i) \<and> cp ! i \<noteq> 0x0D \<and> cp ! i \<noteq> 0x0A \<and> i + 1 < ncp)
     in if lead \<and> case_run_alt1 tab cp (i + 1) ncp > i + 1 then case_run_alt1 tab cp (i + 1) ncp
        else if case_run_alt1 tab cp i ncp > i then case_run_alt1 tab cp i ncp
        else if lead \<and> case_run_alt2 tab cp (i + 1) ncp > i + 1 then case_run_alt2 tab cp (i + 1) ncp
        else if case_run_alt2 tab cp i ncp > i then case_run_alt2 tab cp i ncp
        else i)"

definition crlf_slash :: "u32 \<Rightarrow> bool" where
  "crlf_slash c \<longleftrightarrow> c = 0x0D \<or> c = 0x0A \<or> c = 0x2F"

definition tekken_split_next :: "uc_table \<Rightarrow> u32 list \<Rightarrow> nat \<Rightarrow> nat \<Rightarrow> nat" where
  "tekken_split_next tab cp i ncp =
    (let adv = tekken_letters tab cp i ncp
     in if adv > i then adv
        else if cp_digit tab (cp ! i) then i + 1
        else case symbol_split (cp_other tab) crlf_slash cp i ncp of Some j \<Rightarrow> j
          | None \<Rightarrow> space_split tab (\<lambda>_. False) cp i ncp)"

definition llama4_split_next :: "uc_table \<Rightarrow> u32 list \<Rightarrow> nat \<Rightarrow> nat \<Rightarrow> nat" where
  "llama4_split_next tab cp i ncp =
    (let adv = tekken_letters tab cp i ncp
     in if adv > i then adv + contraction_len cp adv ncp
        else if cp_digit tab (cp ! i) then digit_end tab cp ncp 3 i i
        else case symbol_split (cp_other tab) crlf_slash cp i ncp of Some j \<Rightarrow> j
          | None \<Rightarrow> space_split tab (\<lambda>_. False) cp i ncp)"

definition gpt2_split_next :: "uc_table \<Rightarrow> u32 list \<Rightarrow> nat \<Rightarrow> nat \<Rightarrow> nat" where
  "gpt2_split_next tab cp i e =
    (let a = cp ! (i + 1); b = (if i + 2 < e then cp ! (i + 2) else 0);
         adv = (if cp ! i = 0x27 \<and> i + 1 < e then
            if a = 0x73 \<or> a = 0x74 \<or> a = 0x6D \<or> a = 0x64 then 2
            else if a = 0x72 \<and> b = 0x65 \<or> a = 0x76 \<and> b = 0x65 \<or> a = 0x6C \<and> b = 0x6C then 3 else 0 else 0);
         j = (if cp ! i = 0x20 \<and> i + 1 < e \<and> gpt2_class tab (cp ! (i + 1)) \<noteq> 3 then i + 1 else i)
     in if adv \<noteq> 0 then i + adv
        else if gpt2_class tab (cp ! j) \<noteq> 3 then run_end (\<lambda>c. gpt2_class tab c = gpt2_class tab (cp ! j)) cp e j
        else let k = run_end (\<lambda>c. gpt2_class tab c = 3) cp e i in if k < e \<and> k - i > 1 then k - 1 else k)"

definition smollm_split_next :: "uc_table \<Rightarrow> u32 list \<Rightarrow> nat \<Rightarrow> nat \<Rightarrow> nat" where
  "smollm_split_next tab cp i ncp =
    (if cp_digit tab (cp ! i) then i + 1
     else gpt2_split_next tab cp i (run_end (\<lambda>c. \<not> cp_digit tab c) cp ncp i))"

subsection \<open>The published rules\<close>

definition char :: "u32 \<Rightarrow> u32 re" where "char c = one (\<lambda>x. x = c)"

text \<open>A letter in either case.\<close>

definition caseless :: "u32 \<Rightarrow> u32 re" where "caseless c = one (\<lambda>x. x = c \<or> x = c - 0x20)"

definition r_contraction :: "(u32 \<Rightarrow> u32 re) \<Rightarrow> u32 re" where
  "r_contraction ch =
    Or (Sq (char 0x27) (ch 0x73)) (Or (Sq (char 0x27) (ch 0x74)) (Or (Sq (char 0x27) (Sq (ch 0x72) (ch 0x65)))
    (Or (Sq (char 0x27) (Sq (ch 0x76) (ch 0x65))) (Or (Sq (char 0x27) (ch 0x6D)) (Or (Sq (char 0x27) (Sq (ch 0x6C) (ch 0x6C)))
    (Sq (char 0x27) (ch 0x64)))))))"

definition lead_char :: "uc_table \<Rightarrow> u32 \<Rightarrow> bool" where
  "lead_char tab c \<longleftrightarrow> \<not> cp_crlf c \<and> \<not> cp_letter tab c \<and> \<not> cp_digit tab c"

definition r_symbols :: "(u32 \<Rightarrow> bool) \<Rightarrow> (u32 \<Rightarrow> bool) \<Rightarrow> u32 re" where
  "r_symbols sm follow = Sq (opt (\<lambda>c. c = 0x20)) (Sq (some sm) (many follow))"

definition r_gap :: "uc_table \<Rightarrow> u32 re" where
  "r_gap tab = Or (Sq (some (cp_space tab)) (Not_Ahead (\<lambda>c. \<not> cp_space tab c))) (some (cp_space tab))"

definition r_space :: "uc_table \<Rightarrow> u32 re" where
  "r_space tab = Or (Sq (many (cp_space tab)) (some cp_crlf)) (r_gap tab)"

text \<open>
  \<^verbatim>\<open>(?i:'s|'t|'re|'ve|'m|'ll|'d) | [^\r\n\p{L}\p{N}]?L+ | \p{N}{1,m} |  ?S+[\r\n]* | \s*[\r\n]+ | \s+(?!\S) | \s+\<close>
\<close>

definition r_llama3 :: "uc_table \<Rightarrow> (u32 \<Rightarrow> bool) \<Rightarrow> (u32 \<Rightarrow> bool) \<Rightarrow> nat \<Rightarrow> u32 re" where
  "r_llama3 tab letters sm m =
    Or (r_contraction caseless) (Or (Sq (opt (lead_char tab)) (some letters)) (Or (up_to m (cp_digit tab))
    (Or (r_symbols sm cp_crlf) (r_space tab))))"

text \<open>The letter alternatives of tekken, with the rest \<open>rest\<close> after each, and the two rules that have them.\<close>

definition r_cased :: "uc_table \<Rightarrow> u32 re \<Rightarrow> u32 re" where
  "r_cased tab rest =
    Or (Sq (opt (lead_char tab)) (Sq (many (cp_letter_upperish tab)) (Sq (some (cp_letter_lowerish tab)) rest)))
       (Sq (opt (lead_char tab)) (Sq (some (cp_letter_upperish tab)) (Sq (many (cp_letter_lowerish tab)) rest)))"

definition r_tekken :: "uc_table \<Rightarrow> u32 re" where
  "r_tekken tab = Or (r_cased tab Empty) (Or (one (cp_digit tab)) (Or (r_symbols (cp_other tab) crlf_slash) (r_space tab)))"

definition r_llama4 :: "uc_table \<Rightarrow> u32 re" where
  "r_llama4 tab = Or (r_cased tab (Or (r_contraction caseless) Empty))
    (Or (up_to 3 (cp_digit tab)) (Or (r_symbols (cp_other tab) crlf_slash) (r_space tab)))"

text \<open>\<^verbatim>\<open>'s|'t|'re|'ve|'m|'ll|'d| ?\p{L}+| ?\p{N}+| ?[^\s\p{L}\p{N}]+|\s+(?!\S)|\s+\<close>\<close>

definition r_gpt2 :: "uc_table \<Rightarrow> u32 re" where
  "r_gpt2 tab = Or (r_contraction char) (Or (Sq (opt (\<lambda>c. c = 0x20)) (some (cp_letter tab)))
    (Or (Sq (opt (\<lambda>c. c = 0x20)) (some (cp_digit tab))) (Or (Sq (opt (\<lambda>c. c = 0x20)) (some (cp_other tab))) (r_gap tab))))"

subsection \<open>What is left of the text\<close>

text \<open>\<open>s\<close> is what the rule sees at \<open>i\<close>: the code points up to \<open>n\<close>.\<close>

definition sees :: "u32 list \<Rightarrow> nat \<Rightarrow> nat \<Rightarrow> u32 list \<Rightarrow> bool" where
  "sees cp n i s \<longleftrightarrow> i \<le> n \<and> n \<le> length cp \<and> s = drop i (take n cp)"

lemma sees_Nil: "sees cp n i [] \<Longrightarrow> i = n"
  by (auto simp: sees_def min_def split: if_splits)

lemma sees_Cons: "sees cp n i (x # t) \<Longrightarrow> i < n \<and> cp ! i = x \<and> sees cp n (Suc i) t"
proof -
  assume a: "sees cp n i (x # t)"
  then have i: "i < length (take n cp)" by (auto simp: sees_def intro: ccontr)
  then have "drop i (take n cp) = take n cp ! i # drop (Suc i) (take n cp)" by (rule Cons_nth_drop_Suc [symmetric])
  then show ?thesis using a i by (auto simp: sees_def)
qed

lemma sees_length: "sees cp n i s \<Longrightarrow> length s = n - i"
  by (simp add: sees_def)

lemma sees_nth: "sees cp n i s \<Longrightarrow> k < length s \<Longrightarrow> cp ! (i + k) = s ! k"
  by (simp add: sees_def)

lemma sees_drop: "sees cp n i s \<Longrightarrow> k \<le> length s \<Longrightarrow> sees cp n (i + k) (drop k s)"
  by (auto simp: sees_def add.commute)

lemma run_end_run: "sees cp n i s \<Longrightarrow> run_end P cp n i = i + run_length P s"
proof (induction s arbitrary: i)
  case Nil
  then show ?case using sees_Nil [OF Nil] by (subst run_end.simps) simp
next
  case (Cons x t)
  then show ?case using sees_Cons [OF Cons.prems] by (subst run_end.simps) simp
qed

lemma digit_end_run: "sees cp n j s \<Longrightarrow> i \<le> j \<Longrightarrow> digit_end tab cp n m i j = j + min (run_length (cp_digit tab) s) (m - (j - i))"
proof (induction s arbitrary: j)
  case Nil
  then show ?case using sees_Nil [OF Nil(1)] by (subst digit_end.simps) simp
next
  case (Cons x t)
  note c = sees_Cons [OF Cons.prems(1)]
  show ?case
  proof (cases "cp_digit tab x \<and> j - i < m")
    case True
    then have "digit_end tab cp n m i j = digit_end tab cp n m i (Suc j)" using c by (subst digit_end.simps) simp
    also have "\<dots> = Suc j + min (run_length (cp_digit tab) t) (m - (Suc j - i))" using Cons c by simp
    finally have "digit_end tab cp n m i j = Suc j + min (run_length (cp_digit tab) t) (m - (Suc j - i))" .
    moreover have "m - (j - i) = Suc (m - (Suc j - i))" using True Cons.prems(2) by linarith
    ultimately show ?thesis using True by simp
  next
    case False
    then have "digit_end tab cp n m i j = j" using c by (subst digit_end.simps) auto
    then show ?thesis using False by auto
  qed
qed

subsection \<open>The shared parts of the rules\<close>

lemma some_then:
  "first_match (Sq (some P) (many Q)) s = (let n = run_length P s in if n = 0 then None else Some (n + run_length Q (drop n s)))"
  by (subst first_Sq_total) (simp_all add: first_many first_some Let_def)

lemma symbols_match:
  assumes "sees cp n i s" "s \<noteq> []" "\<not> sm 0x20"
  shows "symbol_split sm follow cp i n = map_option (\<lambda>k. i + k) (first_match (r_symbols sm follow) s)"
proof -
  obtain x t where s: "s = x # t" using assms(2) by (cases s) auto
  have c: "i < n" "cp ! i = x" "sees cp n (Suc i) t" using sees_Cons assms(1) s by auto
  have run: "run_end follow cp n (run_end sm cp n j) = j + run_length sm u + run_length follow (drop (run_length sm u) u)"
    if "sees cp n j u" for j u
    using run_end_run [OF that, of sm] run_end_run [OF sees_drop [OF that run_length_le [of sm]], of follow] by simp
  have pos: "run_length sm u = 0 \<longleftrightarrow> u = [] \<or> \<not> sm (hd u)" for u by (cases u) auto
  show ?thesis
  proof (cases "x = 0x20")
    case True
    then have "first_match (r_symbols sm follow) s = map_option Suc (first_match (Sq (some sm) (many follow)) t)"
      using assms(3) s by (auto simp: r_symbols_def first_opt some_then Let_def split: option.split)
    moreover have "t = [] \<Longrightarrow> n = Suc i" "t \<noteq> [] \<Longrightarrow> Suc i < n \<and> cp ! Suc i = hd t"
      using c(3) sees_Nil sees_Cons [of cp n "Suc i" "hd t" "tl t"] by auto
    ultimately show ?thesis using True c assms(3) run [OF c(3)] pos [of t]
      by (cases "t = []") (auto simp: symbol_split_def Let_def some_then)
  next
    case False
    then have "first_match (r_symbols sm follow) s = first_match (Sq (some sm) (many follow)) s"
      using s by (simp add: r_symbols_def first_opt)
    then show ?thesis using False c run [OF assms(1)] pos [of s] s by (auto simp: symbol_split_def Let_def some_then)
  qed
qed

text \<open>White space: the last newline, else the run without its last character when more text follows.\<close>

definition last_crlf :: "u32 list \<Rightarrow> nat \<Rightarrow> nat option" where
  "last_crlf s n = fold (\<lambda>k l. if cp_crlf (s ! k) then Some k else l) [0..<n] None"

lemma last_crlf_Suc: "last_crlf s (Suc n) = (if cp_crlf (s ! n) then Some n else last_crlf s n)"
  by (simp add: last_crlf_def)

lemma last_crlf_Some: "last_crlf s n = Some k \<Longrightarrow> k < n \<and> cp_crlf (s ! k) \<and> (\<forall>j. k < j \<and> j < n \<longrightarrow> \<not> cp_crlf (s ! j))"
  by (induction n) (auto simp: last_crlf_Suc less_Suc_eq last_crlf_def [of s 0] split: if_splits)

lemma last_crlf_None: "last_crlf s n = None \<Longrightarrow> j < n \<Longrightarrow> \<not> cp_crlf (s ! j)"
  by (induction n) (auto simp: last_crlf_Suc less_Suc_eq split: if_splits)

lemma last_nl_crlf:
  assumes "sees cp n i s" "m \<le> length s"
  shows "last_nl cp i (i + m) = map_option (\<lambda>k. i + k) (last_crlf s m)"
  using assms(2)
proof (induction m)
  case (Suc m)
  then show ?case using sees_nth [OF assms(1), of m] by (simp add: last_nl_def last_crlf_Suc)
qed (simp add: last_nl_def last_crlf_def)

lemma crlf_space: "cp_crlf c \<Longrightarrow> cp_space tab c"
  by (auto simp: cp_crlf_def cp_space_def cp_class_def)

lemma gap_match:
  "first_match (r_gap tab) s = (let n = run_length (cp_space tab) s in
    if n = 0 then None else Some (if n < length s \<and> n > 1 then n - 1 else n))"
proof -
  let ?n = "run_length (cp_space tab) s"
  let ?f = "\<lambda>k. first_match (Not_Ahead (\<lambda>c. \<not> cp_space tab c)) (drop k s)"
  have na: "?f k = (if k < length s \<and> \<not> cp_space tab (s ! k) then None else Some 0)" for k
    by (cases "k < length s") (simp_all add: first_match_def Cons_nth_drop_Suc [symmetric])
  have l: "lens (some (cp_space tab)) s = rev [1..<Suc ?n]" by (simp add: Let_def)
  have g: "first_match (r_gap tab) s = (case first_of ?f (rev [1..<Suc ?n]) of None \<Rightarrow> first_match (some (cp_space tab)) s | Some k \<Rightarrow> Some k)"
    by (simp only: r_gap_def first_Or first_Sq l)
  consider "?n = 0" | "?n = length s" "0 < ?n" | "?n < length s" "1 < ?n" | "?n < length s" "?n = 1"
    using run_length_le [of "cp_space tab" s] by linarith
  then show ?thesis
  proof cases
    case 1
    then show ?thesis using g by (simp add: first_some)
  next
    case 2
    then have "first_of ?f (rev [1..<Suc ?n]) = Some (?n + 0)" using na [of ?n] 2
      by (intro first_of_last) (simp_all add: Suc_le_eq)
    then show ?thesis using g 2 by (simp add: Let_def)
  next
    case 3
    then have stop: "\<not> cp_space tab (s ! ?n)" using run_length_stops by blast
    have "cp_space tab (s ! (?n - 1))" using run_length_holds [where k = "?n - 1" and P = "cp_space tab" and s = s] 3 by simp
    then have "first_of ?f (rev [1..<Suc ?n]) = Some (?n - 1 + 0)"
      using 3 stop by (intro first_of_last) (auto simp: na less_Suc_eq)
    then show ?thesis using g 3 by (simp add: Let_def)
  next
    case 4
    then have "\<not> cp_space tab (s ! ?n)" using run_length_stops by blast
    then have "first_of ?f (rev [1..<Suc ?n]) = None" using 4 by (intro first_of_none) (auto simp: na less_Suc_eq)
    then show ?thesis using g 4 by (simp add: Let_def first_some)
  qed
qed

lemma space_match:
  "first_match (r_space tab) s = (let n = run_length (cp_space tab) s in
    if n = 0 then None
    else case last_crlf s n of Some k \<Rightarrow> Some (k + 1)
      | None \<Rightarrow> Some (if n < length s \<and> n > 1 then n - 1 else n))"
proof -
  let ?n = "run_length (cp_space tab) s"
  let ?f = "\<lambda>k. first_match (some cp_crlf) (drop k s)"
  have f: "?f k = None" if "k \<ge> length s \<or> \<not> cp_crlf (s ! k)" for k
    using that by (cases "k < length s") (auto simp: first_some Cons_nth_drop_Suc [symmetric])
  have l: "first_match (Sq (many (cp_space tab)) (some cp_crlf)) s = first_of ?f (rev [0..<Suc ?n])"
    by (simp add: first_Sq Let_def)
  have stop: "?f ?n = None"
    using run_length_stops [of "cp_space tab" s] crlf_space f [of ?n] by fastforce
  show ?thesis
  proof (cases "last_crlf s ?n")
    case None
    have "first_of ?f (rev [0..<Suc ?n]) = None"
      using last_crlf_None [OF None] f stop by (intro first_of_none) (auto simp: less_Suc_eq)
    then show ?thesis using l None gap_match [of tab s] by (simp add: r_space_def first_Or Let_def)
  next
    case (Some k)
    note k = last_crlf_Some [OF Some]
    have kl: "k < length s" using k run_length_le [of "cp_space tab" s] by linarith
    have nx: "Suc k < length s \<Longrightarrow> \<not> cp_crlf (s ! Suc k)"
      using k run_length_stops [of "cp_space tab" s] crlf_space by (cases "Suc k = ?n") fastforce+
    have "run_length cp_crlf (drop k s) = 1"
      using k kl nx by (cases "Suc k < length s") (simp_all add: Cons_nth_drop_Suc [symmetric])
    then have "?f k = Some 1" by (simp add: first_some)
    moreover have "?f i = None" if "k < i" "i < Suc ?n" for i
      using that k stop f [of i] by (cases "i = ?n") auto
    ultimately have "first_of ?f (rev [0..<Suc ?n]) = Some (k + 1)"
      using k by (intro first_of_last) auto
    then show ?thesis using l k Some by (simp add: r_space_def first_Or Let_def)
  qed
qed

text \<open>The letters, with an optional character in front.\<close>

lemma letters_match:
  "first_match (Sq (opt ld) (some L)) (x # t) =
    (if ld x \<and> t \<noteq> [] \<and> L (hd t) then Some (Suc (run_length L t))
     else if L x then Some (run_length L (x # t)) else None)"
  by (cases t) (auto simp: first_opt first_some)

text \<open>The contractions.\<close>

lemma first_char:
  "first_match (Sq (one P) r) s = (case s of [] \<Rightarrow> None | x # t \<Rightarrow> if P x then map_option Suc (first_match r t) else None)"
  by (auto simp: first_Sq Let_def split: list.split option.split)

lemma or_bit:
  assumes b: "\<And>n. bit (d :: u32) n \<longleftrightarrow> n = 5"
  shows "a OR d = c \<longleftrightarrow> bit c 5 \<and> (a = c \<or> a = c AND NOT d)"
proof
  assume e: "a OR d = c"
  have c: "bit c n \<longleftrightarrow> bit a n \<or> n = 5" for n unfolding e [symmetric] by (auto simp: bit_or_iff b)
  show "bit c 5 \<and> (a = c \<or> a = c AND NOT d)"
    by (cases "bit a 5") (auto simp: bit_eq_iff [where ?'a = u32] bit_and_iff bit_not_iff b c)
next
  assume "bit c 5 \<and> (a = c \<or> a = c AND NOT d)"
  then show "a OR d = c" by (auto simp: bit_eq_iff [where ?'a = u32] bit_or_iff bit_and_iff bit_not_iff b)
qed

lemma or_32:
  "(a :: u32) OR 32 = 0x73 \<longleftrightarrow> a = 0x73 \<or> a = 0x53" "a OR 32 = 0x74 \<longleftrightarrow> a = 0x74 \<or> a = 0x54"
  "a OR 32 = 0x6D \<longleftrightarrow> a = 0x6D \<or> a = 0x4D" "a OR 32 = 0x64 \<longleftrightarrow> a = 0x64 \<or> a = 0x44"
  "a OR 32 = 0x72 \<longleftrightarrow> a = 0x72 \<or> a = 0x52" "a OR 32 = 0x65 \<longleftrightarrow> a = 0x65 \<or> a = 0x45"
  "a OR 32 = 0x76 \<longleftrightarrow> a = 0x76 \<or> a = 0x56" "a OR 32 = 0x6C \<longleftrightarrow> a = 0x6C \<or> a = 0x4C"
proof -
  have "bit (32 :: u32) n \<longleftrightarrow> n = 5" for n using bit_exp_iff [of 5 n, where ?'a = u32] by auto
  note o = or_bit [OF this]
  show "(a :: u32) OR 32 = 0x73 \<longleftrightarrow> a = 0x73 \<or> a = 0x53" "a OR 32 = 0x74 \<longleftrightarrow> a = 0x74 \<or> a = 0x54"
    "a OR 32 = 0x6D \<longleftrightarrow> a = 0x6D \<or> a = 0x4D" "a OR 32 = 0x64 \<longleftrightarrow> a = 0x64 \<or> a = 0x44"
    "a OR 32 = 0x72 \<longleftrightarrow> a = 0x72 \<or> a = 0x52" "a OR 32 = 0x65 \<longleftrightarrow> a = 0x65 \<or> a = 0x45"
    "a OR 32 = 0x76 \<longleftrightarrow> a = 0x76 \<or> a = 0x56" "a OR 32 = 0x6C \<longleftrightarrow> a = 0x6C \<or> a = 0x4C"
    by (simp_all add: o)
qed

text \<open>A contraction at the start of \<open>s\<close>, with \<open>P c\<close> for "is the letter \<open>c\<close>".\<close>

definition contraction :: "(u32 \<Rightarrow> u32 \<Rightarrow> bool) \<Rightarrow> u32 list \<Rightarrow> nat" where
  "contraction P s =
    (case s of x # a # t \<Rightarrow>
       if x \<noteq> 0x27 then 0
       else if P 0x73 a \<or> P 0x74 a \<or> P 0x6D a \<or> P 0x64 a then 2
       else if t \<noteq> [] \<and> (P 0x72 a \<and> P 0x65 (hd t) \<or> P 0x76 a \<and> P 0x65 (hd t) \<or> P 0x6C a \<and> P 0x6C (hd t)) then 3 else 0
     | _ \<Rightarrow> 0)"

lemma contraction_match:
  assumes "\<And>c. ch c = one (P c)"
    and "\<And>c d a. c \<in> {0x73, 0x74, 0x6D, 0x64, 0x72, 0x76, 0x6C} \<Longrightarrow> d \<in> {0x73, 0x74, 0x6D, 0x64, 0x72, 0x76, 0x6C} \<Longrightarrow> P c a \<Longrightarrow> P d a \<Longrightarrow> c = d"
  shows "first_match (r_contraction ch) s = (if contraction P s = 0 then None else Some (contraction P s))"
proof (cases s)
  case (Cons x u)
  show ?thesis
  proof (cases u)
    case (Cons a t)
    have two: "first_match (Sq (char 0x27) (ch c)) s = (if x = 0x27 \<and> P c a then Some 2 else None)" for c
      using \<open>s = x # u\<close> Cons by (simp add: char_def assms(1) first_char first_one)
    have three: "first_match (Sq (char 0x27) (Sq (ch c) (ch d))) s
        = (if x = 0x27 \<and> P c a \<and> t \<noteq> [] \<and> P d (hd t) then Some 3 else None)" for c d
      using \<open>s = x # u\<close> Cons by (cases t) (simp_all add: char_def assms(1) first_char first_one)
    show ?thesis
      unfolding r_contraction_def first_Or two three
      using \<open>s = x # u\<close> Cons assms(2) [of "0x72" "0x6D" a] assms(2) [of "0x76" "0x6D" a] assms(2) [of "0x6C" "0x6D" a]
        assms(2) [of "0x72" "0x64" a] assms(2) [of "0x76" "0x64" a] assms(2) [of "0x6C" "0x64" a]
      by (auto simp: contraction_def)
  qed (simp add: \<open>s = x # u\<close> contraction_def r_contraction_def first_Or char_def assms(1) first_char first_one)
qed (simp add: contraction_def r_contraction_def first_Or char_def assms(1) first_char first_one)

definition either_case :: "u32 \<Rightarrow> u32 \<Rightarrow> bool" where
  "either_case c x \<longleftrightarrow> x = c \<or> x = c - 0x20"

lemma sees_two:
  assumes "sees cp n i (x # a # t)"
  shows "i + 1 < n \<and> cp ! i = x \<and> cp ! (i + 1) = a \<and> (i + 2 < n \<longleftrightarrow> t \<noteq> []) \<and> (t \<noteq> [] \<longrightarrow> cp ! (i + 2) = hd t)"
proof -
  note c1 = sees_Cons [OF assms]
  note c2 = sees_Cons [OF conjunct2 [OF conjunct2 [OF c1]]]
  show ?thesis
  proof (cases t)
    case Nil
    then show ?thesis using c1 c2 sees_Nil by fastforce
  next
    case (Cons b u)
    then have "sees cp n (Suc (Suc i)) (b # u)" using c2 by simp
    from sees_Cons [OF this] show ?thesis using c1 c2 Cons by simp
  qed
qed

lemma sees_few: "sees cp n i s \<Longrightarrow> length s < 2 \<Longrightarrow> \<not> i + 1 < n"
  by (auto simp: sees_def)

lemma contraction_seen:
  assumes "sees cp n i s"
  shows "contraction_len cp i n = contraction either_case s"
proof (cases "length s < 2")
  case True
  then show ?thesis using sees_few [OF assms] by (auto simp: contraction_len_def contraction_def split: list.split)
next
  case False
  then obtain x a t where s: "s = x # a # t" by (cases s; cases "tl s") auto
  have o: "0 = (0x65 :: u32) \<longleftrightarrow> False" "0 = (0x6C :: u32) \<longleftrightarrow> False" by simp_all
  show ?thesis
    using sees_two [of cp n i x a t] assms s
    by (cases "t = []") (simp_all add: contraction_len_def contraction_def Let_def or_32 either_case_def)
qed

lemma caseless_match:
  "first_match (r_contraction caseless) s = (if contraction either_case s = 0 then None else Some (contraction either_case s))"
  by (rule contraction_match) (auto simp: caseless_def either_case_def)

lemma char_match:
  "first_match (r_contraction char) s = (if contraction (\<lambda>c x. x = c) s = 0 then None else Some (contraction (\<lambda>c x. x = c) s))"
  by (rule contraction_match) (auto simp: char_def)

subsection \<open>The rules with one letter class\<close>

lemma digits_match:
  "0 < m \<Longrightarrow> first_match (up_to m (cp_digit tab)) (x # t) = (if cp_digit tab x then Some (min (run_length (cp_digit tab) (x # t)) m) else None)"
  by (auto simp: first_Run Let_def)

lemma classes_apart:
  "cp_mark tab c \<Longrightarrow> \<not> cp_letter tab c \<and> \<not> cp_digit tab c \<and> \<not> cp_space tab c"
  "cp_letter tab c \<Longrightarrow> \<not> cp_digit tab c \<and> \<not> cp_space tab c"
  "cp_digit tab c \<Longrightarrow> \<not> cp_space tab c"
  by (auto simp: cp_mark_def cp_letter_def cp_digit_def cp_space_def cp_class_def Let_def uc_is_letter_def)

lemma quote_other: "\<not> cp_letter tab 0x27 \<and> \<not> cp_digit tab 0x27 \<and> \<not> cp_space tab 0x27" "cp_space tab 0x20"
  by (simp_all add: cp_letter_def cp_digit_def cp_space_def cp_class_def)

lemma space_seen:
  assumes v: "sees cp n i s" and x: "s = x # t" "cp_space tab x"
    and e: "\<And>c. ends c \<Longrightarrow> \<not> cp_space tab c"
    and c: "u = (if run_length (cp_space tab) s < length s \<and> ends (s ! run_length (cp_space tab) s) then take (run_length (cp_space tab) s) s else s)"
  shows "first_match (r_space tab) u = Some (space_split tab ends cp i n - i) \<and> i < space_split tab ends cp i n"
proof -
  let ?n = "run_length (cp_space tab) s"
  have n0: "?n \<noteq> 0" "?n \<le> length s" using x run_length_le by simp_all
  have ru: "run_length (cp_space tab) u = ?n"
    using c by (auto simp: run_length_def takeWhile_eq_take [symmetric] min_def)
  have lu: "last_crlf u ?n = last_crlf s ?n"
  proof -
    have "\<And>k. k < ?n \<Longrightarrow> u ! k = s ! k" using c by auto
    then show ?thesis unfolding last_crlf_def by (intro fold_cong) auto
  qed
  have len: "?n < length u \<longleftrightarrow> ?n < length s \<and> \<not> ends (s ! ?n)" using c n0 by auto
  have sp: "space_split tab ends cp i n = (case last_crlf s ?n of Some k \<Rightarrow> i + k + 1
      | None \<Rightarrow> if ?n < length s \<and> ?n > 1 \<and> \<not> ends (s ! ?n) then i + ?n - 1 else i + ?n)"
    using run_end_run [OF v, of "cp_space tab"] last_nl_crlf [OF v n0(2)] sees_length [OF v] sees_nth [OF v, of ?n] v
    by (auto simp: space_split_def Let_def sees_def split: option.split)
  show ?thesis
    using n0 unfolding space_match ru lu len sp Let_def by (auto split: option.split)
qed

lemma space_none: "\<not> cp_space tab x \<Longrightarrow> first_match (r_space tab) (x # t) = None"
  by (simp add: space_match)

lemma symbols_none: "first_match (r_symbols Y follow) (x # t) = None \<Longrightarrow> \<not> Y x"
  by (auto simp: r_symbols_def first_opt some_then Let_def split: option.splits if_splits)

lemma symbols_pos: "first_match (r_symbols Y follow) (x # t) = Some k \<Longrightarrow> 0 < k"
  by (auto simp: r_symbols_def first_opt some_then Let_def split: option.splits if_splits)

text \<open>The symbols and the white space, which end every rule but GPT-2's.\<close>

definition tail_end :: "uc_table \<Rightarrow> (u32 \<Rightarrow> bool) \<Rightarrow> (u32 \<Rightarrow> bool) \<Rightarrow> u32 list \<Rightarrow> nat \<Rightarrow> nat \<Rightarrow> nat" where
  "tail_end tab Y follow cp i n =
    (case symbol_split Y follow cp i n of Some j \<Rightarrow> j | None \<Rightarrow> space_split tab (\<lambda>_. False) cp i n)"

lemma tail_match:
  assumes v: "sees cp n i s" and s: "s = x # t" and Y: "\<not> Y 0x20" and x: "Y x \<or> cp_space tab x"
  shows "first_match (Or (r_symbols Y follow) (r_space tab)) s = Some (tail_end tab Y follow cp i n - i)
    \<and> i < tail_end tab Y follow cp i n"
proof -
  have sy: "symbol_split Y follow cp i n = map_option (\<lambda>k. i + k) (first_match (r_symbols Y follow) s)"
    using symbols_match [where sm = Y and follow = follow, OF v] Y s by simp
  show ?thesis
  proof (cases "first_match (r_symbols Y follow) s")
    case None
    then have "cp_space tab x" using x symbols_none s by blast
    then show ?thesis using space_seen [OF v s, of tab "\<lambda>_. False" s] sy None by (simp add: first_Or tail_end_def)
  next
    case (Some k)
    then show ?thesis using sy symbols_pos s by (simp add: first_Or tail_end_def)
  qed
qed

text \<open>The rules of Llama 3, Qwen and K2-Horizon, for any letter and symbol class of theirs.\<close>

definition llama3_end :: "uc_table \<Rightarrow> (u32 \<Rightarrow> bool) \<Rightarrow> (u32 \<Rightarrow> bool) \<Rightarrow> nat \<Rightarrow> u32 list \<Rightarrow> nat \<Rightarrow> nat \<Rightarrow> nat" where
  "llama3_end tab L Y m cp i n =
    (if contraction_len cp i n \<noteq> 0 then i + contraction_len cp i n
     else if \<not> cp_letter tab (cp ! i) \<and> \<not> cp_digit tab (cp ! i) \<and> cp ! i \<noteq> 0x0D \<and> cp ! i \<noteq> 0x0A
         \<and> i + 1 < n \<and> L (cp ! (i + 1)) then run_end L cp n (i + 1)
     else if L (cp ! i) then run_end L cp n i
     else if cp_digit tab (cp ! i) then digit_end tab cp n m i i
     else tail_end tab Y cp_crlf cp i n)"

lemma llama3_match:
  assumes v: "sees cp n i s" and s: "s = x # t" and m: "0 < m" and Y: "\<not> Y 0x20"
    and all: "\<And>c. L c \<or> cp_digit tab c \<or> Y c \<or> cp_space tab c"
  shows "first_match (r_llama3 tab L Y m) s = Some (llama3_end tab L Y m cp i n - i) \<and> i < llama3_end tab L Y m cp i n"
proof -
  have c: "i < n" "cp ! i = x" "sees cp n (Suc i) t" using sees_Cons v s by auto
  have nx: "i + 1 < n \<longleftrightarrow> t \<noteq> []" "t \<noteq> [] \<Longrightarrow> cp ! (i + 1) = hd t"
    using c(3) sees_Nil sees_Cons [of cp n "Suc i" "hd t" "tl t"] by (cases t; fastforce)+
  have re: "run_end L cp n (i + 1) = i + Suc (run_length L t)" "run_end L cp n i = i + run_length L s"
    using run_end_run [OF c(3)] run_end_run [OF v] by simp_all
  have de: "digit_end tab cp n m i i = i + min (run_length (cp_digit tab) s) m" using digit_end_run [OF v order_refl] by simp
  have ld: "lead_char tab x \<longleftrightarrow> \<not> cp_letter tab x \<and> \<not> cp_digit tab x \<and> x \<noteq> 0x0D \<and> x \<noteq> 0x0A"
    by (auto simp: lead_char_def cp_crlf_def)
  have dm: "first_match (up_to m (cp_digit tab)) s = (if cp_digit tab x then Some (min (run_length (cp_digit tab) s) m) else None)"
    using digits_match [OF m] s by simp
  consider "contraction either_case s \<noteq> 0" | "contraction either_case s = 0" "lead_char tab x" "t \<noteq> []" "L (hd t)"
    | "contraction either_case s = 0" "\<not> (lead_char tab x \<and> t \<noteq> [] \<and> L (hd t))" "L x"
    | "contraction either_case s = 0" "\<not> (lead_char tab x \<and> t \<noteq> [] \<and> L (hd t))" "\<not> L x" "cp_digit tab x"
    | "contraction either_case s = 0" "\<not> (lead_char tab x \<and> t \<noteq> [] \<and> L (hd t))" "\<not> L x" "\<not> cp_digit tab x" by blast
  then show ?thesis
  proof cases
    case 5
    have lm: "first_match (Sq (opt (lead_char tab)) (some L)) s = None" using 5 s letters_match [of "lead_char tab" L x t] by auto
    have code: "\<not> (\<not> cp_letter tab x \<and> \<not> cp_digit tab x \<and> x \<noteq> 0x0D \<and> x \<noteq> 0x0A \<and> i + 1 < n \<and> L (cp ! (i + 1)))"
      using 5(2) nx ld by auto
    have "Y x \<or> cp_space tab x" using all 5(3,4) by blast
    note tm = tail_match [where follow = cp_crlf and Y = Y, OF v s Y this]
    have "llama3_end tab L Y m cp i n = tail_end tab Y cp_crlf cp i n"
      unfolding llama3_end_def c(2) if_not_P [OF code] contraction_seen [OF v] using 5(1,3,4) by simp
    moreover have "first_match (r_llama3 tab L Y m) s = first_match (Or (r_symbols Y cp_crlf) (r_space tab)) s"
      unfolding r_llama3_def using 5(1,4) by (simp add: first_Or [of _ "Or _ _"] caseless_match lm dm)
    ultimately show ?thesis using tm by simp
  next
    case 1
    then show ?thesis by (simp add: r_llama3_def llama3_end_def first_Or caseless_match contraction_seen [OF v])
  next
    case 2
    then have "first_match (Sq (opt (lead_char tab)) (some L)) s = Some (Suc (run_length L t))"
      using s letters_match [of "lead_char tab" L x t] by simp
    moreover have "\<not> cp_letter tab x" "\<not> cp_digit tab x" "x \<noteq> 0x0D" "x \<noteq> 0x0A" using 2(2) ld by auto
    ultimately show ?thesis
      using 2(1,4) c(2) nx 2(3) re(1) by (simp add: r_llama3_def llama3_end_def first_Or caseless_match contraction_seen [OF v])
  next
    case 3
    then have "first_match (Sq (opt (lead_char tab)) (some L)) s = Some (run_length L s)"
      using s letters_match [of "lead_char tab" L x t] by auto
    moreover have code: "\<not> (\<not> cp_letter tab x \<and> \<not> cp_digit tab x \<and> x \<noteq> 0x0D \<and> x \<noteq> 0x0A \<and> i + 1 < n \<and> L (cp ! (i + 1)))"
      using 3(2) nx ld by auto
    have "llama3_end tab L Y m cp i n = i + run_length L s"
      unfolding llama3_end_def c(2) if_not_P [OF code] contraction_seen [OF v] using 3(1,3) re(2) by simp
    ultimately show ?thesis using 3(1,3) s by (simp add: r_llama3_def first_Or caseless_match)
  next
    case 4
    then have "first_match (Sq (opt (lead_char tab)) (some L)) s = None"
      using s letters_match [of "lead_char tab" L x t] by auto
    moreover have code: "\<not> (\<not> cp_letter tab x \<and> \<not> cp_digit tab x \<and> x \<noteq> 0x0D \<and> x \<noteq> 0x0A \<and> i + 1 < n \<and> L (cp ! (i + 1)))"
      using 4(2) nx ld by auto
    have "llama3_end tab L Y m cp i n = i + min (run_length (cp_digit tab) s) m"
      unfolding llama3_end_def c(2) if_not_P [OF code] contraction_seen [OF v] using 4(1,3,4) de by simp
    ultimately show ?thesis using 4(1,4) s m dm by (simp add: r_llama3_def first_Or caseless_match)
  qed
qed

lemma pre_split_match:
  assumes v: "sees cp n i s" and s: "s = x # t" and m: "0 < m"
    and L: "L = (\<lambda>c. cp_letter tab c \<or> marks \<and> cp_mark tab c)"
    and Y: "Y = (\<lambda>c. \<not> cp_space tab c \<and> \<not> L c \<and> \<not> cp_digit tab c)"
  shows "first_match (r_llama3 tab L Y m) s = Some (pre_split_next tab cp i n m marks False - i)
    \<and> i < pre_split_next tab cp i n m marks False"
proof -
  have "\<not> Y 0x20" using quote_other by (simp add: Y)
  moreover have "\<And>c. L c \<or> cp_digit tab c \<or> Y c \<or> cp_space tab c" by (auto simp: Y)
  moreover have "pre_split_next tab cp i n m marks False = llama3_end tab L Y m cp i n"
  proof -
    have "(\<lambda>c. False \<and> cp_digit tab c) = (\<lambda>_. False)" by simp
    then show ?thesis by (simp only: pre_split_next_def llama3_end_def tail_end_def Let_def L Y)
  qed
  ultimately show ?thesis using llama3_match [OF v s m, of Y L tab] by simp
qed

lemma k2h_match:
  assumes v: "sees cp n i s" and s: "s = x # t"
  shows "first_match (r_llama3 tab (k2h_letterish tab) (cp_other tab) 3) s = Some (k2h_split_next tab cp i n - i)
    \<and> i < k2h_split_next tab cp i n"
proof -
  have "\<not> cp_other tab 0x20" using quote_other by (simp add: cp_other_def)
  moreover have "\<And>c. k2h_letterish tab c \<or> cp_digit tab c \<or> cp_other tab c \<or> cp_space tab c"
    by (auto simp: k2h_letterish_def cp_other_def)
  ultimately have e: "first_match (r_llama3 tab (k2h_letterish tab) (cp_other tab) 3) s
      = Some (llama3_end tab (k2h_letterish tab) (cp_other tab) 3 cp i n - i)"
    "i < llama3_end tab (k2h_letterish tab) (cp_other tab) 3 cp i n"
    using llama3_match [OF v s, of 3 "cp_other tab" "k2h_letterish tab" tab] by simp_all
  have "k2h_split_next tab cp i n = llama3_end tab (k2h_letterish tab) (cp_other tab) 3 cp i n"
    using e(2) by (auto simp: k2h_split_next_def llama3_end_def tail_end_def Let_def split: option.splits if_splits)
  then show ?thesis using e by simp
qed

subsection \<open>A digit that ends the piece\<close>

lemma run_end_between: "j \<le> n \<Longrightarrow> j \<le> run_end P cp n j \<and> run_end P cp n j \<le> n
    \<and> (\<forall>k. j \<le> k \<and> k < run_end P cp n j \<longrightarrow> P (cp ! k)) \<and> (run_end P cp n j < n \<longrightarrow> \<not> P (cp ! run_end P cp n j))"
proof (induction P cp n j rule: run_end.induct)
  case (1 P cp n j)
  show ?case
  proof (cases "j < n \<and> P (cp ! j)")
    case True
    then have "run_end P cp n j = run_end P cp n (j + 1)" by (subst run_end.simps) simp
    moreover have ih: "j + 1 \<le> run_end P cp n (j + 1) \<and> run_end P cp n (j + 1) \<le> n
      \<and> (\<forall>k. j + 1 \<le> k \<and> k < run_end P cp n (j + 1) \<longrightarrow> P (cp ! k))
      \<and> (run_end P cp n (j + 1) < n \<longrightarrow> \<not> P (cp ! run_end P cp n (j + 1)))"
      using 1(1) [OF True] True by simp
    moreover have "P (cp ! k)" if "j \<le> k" "k < run_end P cp n (j + 1)" for k
      using ih that True by (cases "k = j") auto
    ultimately show ?thesis by simp
  next
    case False
    then have "run_end P cp n j = j" by (subst run_end.simps) (simp only: if_False)
    then show ?thesis using False 1(2) by auto
  qed
qed

lemma run_end_bound:
  "j \<le> n' \<Longrightarrow> n' \<le> n \<Longrightarrow> (n' < n \<Longrightarrow> \<not> P (cp ! n')) \<Longrightarrow> run_end P cp n' j = run_end P cp n j"
proof (induction P cp n' j rule: run_end.induct)
  case (1 P cp n' j)
  show ?case
  proof (cases "j < n' \<and> P (cp ! j)")
    case True
    then have "run_end P cp n' (j + 1) = run_end P cp n (j + 1)" using 1 by simp
    moreover have "run_end P cp n' j = run_end P cp n' (j + 1)" using True by (subst run_end.simps) simp
    moreover have "run_end P cp n j = run_end P cp n (j + 1)" using True 1(3) by (subst run_end.simps) simp
    ultimately show ?thesis by simp
  next
    case False
    then have "\<not> (j < n \<and> P (cp ! j))" using 1(2-4) by (cases "j = n'") auto
    then have "run_end P cp n j = j" by (subst run_end.simps) (simp only: if_False)
    moreover have "run_end P cp n' j = j" using False by (subst run_end.simps) (simp only: if_False)
    ultimately show ?thesis by simp
  qed
qed

text \<open>\<open>e\<close> is the first digit from \<open>i\<close> on, or the end: a rule that stops there reads the same as one that stops at \<open>n\<close>.\<close>

definition digit_stop :: "uc_table \<Rightarrow> u32 list \<Rightarrow> nat \<Rightarrow> nat \<Rightarrow> nat \<Rightarrow> bool" where
  "digit_stop tab cp i e n \<longleftrightarrow> i < e \<and> e \<le> n \<and> (\<forall>k. i \<le> k \<and> k < e \<longrightarrow> \<not> cp_digit tab (cp ! k)) \<and> (e < n \<longrightarrow> cp_digit tab (cp ! e))"

lemma stop_run:
  "digit_stop tab cp i e n \<Longrightarrow> (\<And>c. P c \<Longrightarrow> \<not> cp_digit tab c) \<Longrightarrow> j \<le> e \<Longrightarrow> run_end P cp e j = run_end P cp n j"
  by (rule run_end_bound) (auto simp: digit_stop_def)

lemma stop_one:
  "digit_stop tab cp i e n \<Longrightarrow> (\<And>c. P c \<Longrightarrow> \<not> cp_digit tab c) \<Longrightarrow> i + 1 < e \<and> P (cp ! (i + 1)) \<longleftrightarrow> i + 1 < n \<and> P (cp ! (i + 1))"
  by (cases "i + 1 = e") (auto simp: digit_stop_def)

lemma stop_contraction:
  assumes d: "digit_stop tab cp i e n"
  shows "contraction_len cp i e = contraction_len cp i n"
proof -
  have letters: "\<not> cp_digit tab c" if "c \<in> {0x73, 0x53, 0x74, 0x54, 0x6D, 0x4D, 0x64, 0x44, 0x72, 0x52, 0x65, 0x45, 0x76, 0x56, 0x6C, 0x4C}" for c
    using that by (auto simp: cp_digit_def cp_class_def)
  have ed: "e < n \<Longrightarrow> cp_digit tab (cp ! e)" and b: "i < e" "e \<le> n" using d by (simp_all add: digit_stop_def)
  consider "e = n" | "e = i + 1" "e < n" | "e = i + 2" "e < n" | "i + 2 < e" "e < n" using b by linarith
  then show ?thesis
  proof cases
    case 2
    then show ?thesis using ed letters [of "cp ! (i + 1)"] by (auto simp: contraction_len_def or_32 Let_def)
  next
    case 3
    then show ?thesis using ed letters [of "cp ! (i + 2)"] by (auto simp: contraction_len_def or_32 Let_def)
  qed (auto simp: contraction_len_def)
qed

lemma stop_symbols:
  assumes d: "digit_stop tab cp i e n" and Y: "\<And>c. Y c \<Longrightarrow> \<not> cp_digit tab c"
  shows "symbol_split Y cp_crlf cp i e = symbol_split Y cp_crlf cp i n"
proof -
  have j: "(if cp ! i = 0x20 \<and> i + 1 < e \<and> Y (cp ! (i + 1)) then i + 1 else i)
      = (if cp ! i = 0x20 \<and> i + 1 < n \<and> Y (cp ! (i + 1)) then i + 1 else i)" using stop_one [where P = Y, OF d Y] by auto
  define k where "k = (if cp ! i = 0x20 \<and> i + 1 < n \<and> Y (cp ! (i + 1)) then i + 1 else i)"
  have k: "k < e \<and> Y (cp ! k) \<longleftrightarrow> k < n \<and> Y (cp ! k)" "k \<le> e"
    using stop_one [where P = Y, OF d Y] d by (auto simp: k_def digit_stop_def)
  have "run_end Y cp e k \<le> e" using run_end_between [OF k(2)] by blast
  then have "run_end cp_crlf cp e (run_end Y cp e k) = run_end cp_crlf cp n (run_end Y cp e k)"
    using classes_apart(3) crlf_space by (intro stop_run [OF d]) blast+
  then show ?thesis
    using k(1) stop_run [where P = Y, OF d Y k(2)] unfolding symbol_split_def j Let_def k_def [symmetric] by auto
qed

lemma stop_space:
  assumes d: "digit_stop tab cp i e n"
  shows "space_split tab (\<lambda>_. False) cp i e = space_split tab (cp_digit tab) cp i n"
proof -
  have b: "i \<le> e" "e \<le> n" using d by (simp_all add: digit_stop_def)
  have r: "run_end (cp_space tab) cp e i = run_end (cp_space tab) cp n i"
    using stop_run [where P = "cp_space tab", OF d _ b(1)] classes_apart(3) by blast
  have "run_end (cp_space tab) cp e i \<le> e" "i \<le> run_end (cp_space tab) cp e i"
    using run_end_between [OF b(1), of "cp_space tab" cp] by auto
  then have "run_end (cp_space tab) cp n i < e
      \<longleftrightarrow> run_end (cp_space tab) cp n i < n \<and> \<not> cp_digit tab (cp ! run_end (cp_space tab) cp n i)"
    using d unfolding r by (cases "run_end (cp_space tab) cp n i = e") (auto simp: digit_stop_def)
  then show ?thesis unfolding space_split_def r Let_def by (auto split: option.split)
qed

text \<open>What is left up to the next digit.\<close>

definition to_digit :: "uc_table \<Rightarrow> u32 list \<Rightarrow> u32 list" where
  "to_digit tab s = takeWhile (\<lambda>c. \<not> cp_digit tab c) s"

lemma digit_stop_seen:
  assumes v: "sees cp n i (x # t)" and x: "\<not> cp_digit tab x"
  defines "e \<equiv> run_end (\<lambda>c. \<not> cp_digit tab c) cp n i"
  shows "digit_stop tab cp i e n" "sees cp e i (to_digit tab (x # t))"
proof -
  have c: "i < n" "cp ! i = x" using sees_Cons [OF v] by auto
  have "i \<le> n" using c by simp
  note eb = run_end_between [OF this, of "\<lambda>c. \<not> cp_digit tab c" cp, folded e_def]
  have ie: "i < e" using eb c x by (cases "e = i") auto
  then show "digit_stop tab cp i e n" using eb by (simp add: digit_stop_def)
  have "e = i + run_length (\<lambda>c. \<not> cp_digit tab c) (x # t)" using run_end_run [OF v] e_def by blast
  then have "to_digit tab (x # t) = take (e - i) (x # t)"
    unfolding to_digit_def using takeWhile_eq_take [of "\<lambda>c. \<not> cp_digit tab c" "x # t"] unfolding run_length_def by simp
  also have "\<dots> = drop i (take e cp)" using v eb ie by (simp add: sees_def take_drop)
  finally show "sees cp e i (to_digit tab (x # t))" using v eb by (simp add: sees_def)
qed

lemma digit_piece_match:
  assumes v: "sees cp n i s" and s: "s = x # t" and m: "0 < m" and x: "\<not> cp_digit tab x"
  shows "first_match (r_llama3 tab (cp_letter tab) (cp_other tab) m) (to_digit tab s)
      = Some (pre_split_next tab cp i n m False True - i) \<and> i < pre_split_next tab cp i n m False True"
proof -
  let ?L = "cp_letter tab" and ?Y = "cp_other tab"
  define e where "e = run_end (\<lambda>c. \<not> cp_digit tab c) cp n i"
  note ds = digit_stop_seen [OF v [unfolded s] x, folded e_def s]
  have us: "to_digit tab s = x # to_digit tab t" using s x by (simp add: to_digit_def)
  have Yx: "\<not> ?Y 0x20" using quote_other by (simp add: cp_other_def)
  have all: "\<And>c. ?L c \<or> cp_digit tab c \<or> ?Y c \<or> cp_space tab c" by (auto simp: cp_other_def)
  have M: "first_match (r_llama3 tab ?L ?Y m) (to_digit tab s) = Some (llama3_end tab ?L ?Y m cp i e - i)"
    "i < llama3_end tab ?L ?Y m cp i e"
    using llama3_match [OF ds(2) us m Yx all] by auto
  have nd: "?L c \<Longrightarrow> \<not> cp_digit tab c" "?Y c \<Longrightarrow> \<not> cp_digit tab c" for c
    using classes_apart(2) [of tab c] by (auto simp: cp_other_def)
  have l: "(\<lambda>c. cp_letter tab c \<or> False \<and> cp_mark tab c) = ?L" "(\<lambda>c. True \<and> cp_digit tab c) = cp_digit tab"
    "(\<lambda>c. \<not> cp_space tab c \<and> \<not> ?L c \<and> \<not> cp_digit tab c) = ?Y" by (auto simp: cp_other_def fun_eq_iff)
  have r: "run_end ?L cp e i = run_end ?L cp n i" "i + 1 < e \<Longrightarrow> run_end ?L cp e (i + 1) = run_end ?L cp n (i + 1)"
    using stop_run [where P = ?L, OF ds(1) nd(1)] ds(1) by (simp_all add: digit_stop_def)
  have o: "i + 1 < e \<and> ?L (cp ! (i + 1)) \<longleftrightarrow> i + 1 < n \<and> ?L (cp ! (i + 1))"
    using stop_one [where P = ?L, OF ds(1)] nd(1) by blast
  have sy: "symbol_split ?Y cp_crlf cp i e = symbol_split ?Y cp_crlf cp i n"
    using stop_symbols [where Y = ?Y, OF ds(1)] nd(2) by blast
  have "cp ! i = x" using sees_Cons v s by auto
  then have "pre_split_next tab cp i n m False True = llama3_end tab ?L ?Y m cp i e"
    unfolding pre_split_next_def llama3_end_def tail_end_def Let_def l stop_contraction [OF ds(1)]
      sy stop_space [OF ds(1)] o
    using r x o by auto
  then show ?thesis using M by simp
qed

end
