(* ===== verification/Tok_Rules.thy ===== *)
theory Tok_Rules
  imports Tok_Split
begin

section \<open>The split rules are the published ones\<close>

text \<open>
  The letter alternatives of tekken, the rules built on them, GPT-2's and SmolLM's, compared with their
  regular expressions; the properties of the split rules stand at the end.
\<close>

subsection \<open>Sequences of matches\<close>

lemma first_Sq_cong: "(\<And>u. first_match b u = first_match c u) \<Longrightarrow> first_match (Sq a b) s = first_match (Sq a c) s"
  by (simp add: first_Sq)

lemma first_of_pos: "first_of f ns = Some k \<Longrightarrow> (\<And>n j. f n = Some j \<Longrightarrow> 0 < j) \<Longrightarrow> 0 < k"
  by (induction ns arbitrary: k) (auto split: option.splits)

lemma first_some_pos: "first_match (some P) s = Some k \<Longrightarrow> 0 < k"
  by (auto simp: first_some split: if_splits)

abbreviation nn :: "nat option \<Rightarrow> nat" where
  "nn m \<equiv> (case m of None \<Rightarrow> 0 | Some k \<Rightarrow> k)"

subsection \<open>The letters of tekken\<close>

definition r_alt1 :: "uc_table \<Rightarrow> u32 re" where
  "r_alt1 tab = Sq (many (cp_letter_upperish tab)) (some (cp_letter_lowerish tab))"

definition r_alt2 :: "uc_table \<Rightarrow> u32 re" where
  "r_alt2 tab = Sq (some (cp_letter_upperish tab)) (many (cp_letter_lowerish tab))"

lemma alt1_pos: "first_match (r_alt1 tab) s = Some k \<Longrightarrow> 0 < k"
  unfolding r_alt1_def first_Sq by (erule first_of_pos) (rule first_some_pos)

lemma alt2_pos: "first_match (r_alt2 tab) s = Some k \<Longrightarrow> 0 < k"
  by (auto simp: r_alt2_def some_then Let_def split: if_splits)

lemma run_drop: "run_length P (drop k s) = 0 \<longleftrightarrow> \<not> (k < length s \<and> P (s ! k))"
  by (cases "k < length s") (simp_all add: Cons_nth_drop_Suc [symmetric])

text \<open>The search of \<^verbatim>\<open>case_run_alt1\<close> is the giving back of the engine.\<close>

lemma alt1_from_match:
  assumes v: "sees cp n i s"
  shows "k \<le> length s \<Longrightarrow> alt1_from tab cp n i (i + k)
    = i + nn (first_of (\<lambda>k. first_match (some (cp_letter_lowerish tab)) (drop k s)) (rev [0..<Suc k]))"
proof (induction k)
  case (Suc k)
  show ?case
  proof (cases "i + Suc k < n \<and> cp_letter_lowerish tab (cp ! (i + Suc k))")
    case True
    moreover have "run_end (cp_letter_lowerish tab) cp n (i + Suc k) = i + Suc k + run_length (cp_letter_lowerish tab) (drop (Suc k) s)"
      by (rule run_end_run [OF sees_drop [OF v Suc.prems]])
    moreover have "run_length (cp_letter_lowerish tab) (drop (Suc k) s) \<noteq> 0"
      using True sees_nth [OF v, of "Suc k"] sees_length [OF v] by (auto simp: run_drop)
    ultimately show ?thesis by (subst alt1_from.simps) (simp add: first_some)
  next
    case False
    then have "run_length (cp_letter_lowerish tab) (drop (Suc k) s) = 0"
      using sees_nth [OF v, of "Suc k"] sees_length [OF v] by (auto simp: run_drop)
    moreover have "alt1_from tab cp n i (i + Suc k) = alt1_from tab cp n i (i + k)"
      using False by (subst alt1_from.simps) auto
    ultimately show ?thesis using Suc by (simp add: first_some)
  qed
next
  case 0
  have "run_length (cp_letter_lowerish tab) s = 0 \<longleftrightarrow> \<not> (i < n \<and> cp_letter_lowerish tab (cp ! i))"
    using sees_nth [OF v, of 0] sees_length [OF v] by (cases s) auto
  then show ?case using run_end_run [OF v, of "cp_letter_lowerish tab"]
    by (subst alt1_from.simps) (simp add: first_some)
qed

lemma alt1_match: "sees cp n i s \<Longrightarrow> case_run_alt1 tab cp i n = i + nn (first_match (r_alt1 tab) s)"
  using run_end_run [of cp n i s] alt1_from_match [of cp n i s _ tab] run_length_le [of "cp_letter_upperish tab" s]
  by (simp add: case_run_alt1_def r_alt1_def first_Sq Let_def)

lemma alt2_match: "sees cp n i s \<Longrightarrow> case_run_alt2 tab cp i n = i + nn (first_match (r_alt2 tab) s)"
  using run_end_run [of cp n i s "cp_letter_upperish tab"] run_length_le [of "cp_letter_upperish tab" s]
    run_end_run [OF sees_drop [of cp n i s], of "run_length (cp_letter_upperish tab) s" "cp_letter_lowerish tab"]
  by (simp add: case_run_alt2_def r_alt2_def some_then Let_def)

definition r_letters :: "uc_table \<Rightarrow> u32 re" where
  "r_letters tab = Or (Sq (opt (lead_char tab)) (r_alt1 tab)) (Sq (opt (lead_char tab)) (r_alt2 tab))"

lemma letters_none: "first_match (r_alt1 tab) [] = None" "first_match (r_alt2 tab) [] = None"
  by (simp_all add: r_alt1_def r_alt2_def first_match_def Let_def)

lemma tekken_letters_match:
  assumes v: "sees cp n i s" and s: "s = x # t"
  shows "tekken_letters tab cp i n = i + nn (first_match (r_letters tab) s)" "first_match (r_letters tab) s \<noteq> Some 0"
proof -
  have c: "i < n" "cp ! i = x" "sees cp n (Suc i) t" using sees_Cons v s by auto
  have nx: "i + 1 < n \<longleftrightarrow> t \<noteq> []" using sees_length [OF c(3)] by (cases t) auto
  have ld: "lead_char tab x \<longleftrightarrow> \<not> cp_letter tab x \<and> \<not> cp_digit tab x \<and> x \<noteq> 0x0D \<and> x \<noteq> 0x0A"
    by (auto simp: lead_char_def cp_crlf_def)
  have lead: "(\<not> cp_letter tab (cp ! i) \<and> \<not> cp_digit tab (cp ! i) \<and> cp ! i \<noteq> 0x0D \<and> cp ! i \<noteq> 0x0A \<and> i + 1 < n)
      \<longleftrightarrow> lead_char tab x \<and> t \<noteq> []" using c(2) ld nx by blast
  note a = alt1_match [OF v, of tab] alt2_match [OF v, of tab] alt1_match [OF c(3), of tab] alt2_match [OF c(3), of tab]
  have p: "nn (first_match (r_alt1 tab) u) = 0 \<longleftrightarrow> first_match (r_alt1 tab) u = None"
    "nn (first_match (r_alt2 tab) u) = 0 \<longleftrightarrow> first_match (r_alt2 tab) u = None" for u
    using alt1_pos [of tab u] alt2_pos [of tab u] by (auto split: option.split)
  show "tekken_letters tab cp i n = i + nn (first_match (r_letters tab) s)"
    unfolding tekken_letters_def Let_def lead
    using a p [of s] p [of t] s letters_none [of tab]
    by (cases "t = []") (auto simp: r_letters_def first_Or first_opt split: option.splits if_splits)
  show "first_match (r_letters tab) s \<noteq> Some 0"
    using s by (auto simp: r_letters_def first_Or first_opt dest: alt1_pos alt2_pos split: option.splits)
qed

text \<open>With a rest that always matches, as the rules have it.\<close>

lemma cased_match:
  assumes "\<And>u. first_match rest u \<noteq> None"
  shows "first_match (r_cased tab rest) s
    = (case first_match (r_letters tab) s of None \<Rightarrow> None | Some k \<Rightarrow> Some (k + the (first_match rest (drop k s))))"
proof -
  have a: "first_match (Sq o' (Sq p (Sq q rest))) s
      = (case first_match (Sq o' (Sq p q)) s of None \<Rightarrow> None | Some k \<Rightarrow> Some (k + the (first_match rest (drop k s))))" for o' p q :: "u32 re"
  proof -
    have "first_match (Sq o' (Sq p (Sq q rest))) s = first_match (Sq o' (Sq (Sq p q) rest)) s"
      by (rule first_Sq_cong) (simp add: first_assoc)
    then show ?thesis by (simp add: first_assoc [symmetric] first_Sq_total [OF assms])
  qed
  show ?thesis unfolding r_cased_def r_letters_def r_alt1_def r_alt2_def first_Or a by (simp split: option.split)
qed

text \<open>Every letter is in one of tekken's two classes.\<close>

lemma letter_cased: "cp_letter tab c \<Longrightarrow> cp_letter_upperish tab c \<or> cp_letter_lowerish tab c"
  by (auto simp: cp_letter_def cp_class_def cp_letter_upperish_def cp_letter_lowerish_def Let_def uc_is_letter_def split: if_splits)

lemma no_letters: "first_match (r_letters tab) (x # t) = None \<Longrightarrow> \<not> cp_letter tab x"
proof
  assume n: "first_match (r_letters tab) (x # t) = None" and l: "cp_letter tab x"
  have "\<not> lead_char tab x" using l by (simp add: lead_char_def)
  then have a: "first_match (r_alt1 tab) (x # t) = None" "first_match (r_alt2 tab) (x # t) = None"
    using n by (auto simp: r_letters_def first_Or first_opt split: option.splits)
  have "\<not> cp_letter_upperish tab x" using a(2) by (auto simp: r_alt2_def some_then Let_def)
  moreover from this have "\<not> cp_letter_lowerish tab x" using a(1) by (auto simp: r_alt1_def first_Sq Let_def first_some)
  ultimately show False using letter_cased l by blast
qed

subsection \<open>The rules\<close>

text \<open>The piece from \<open>i\<close> ends at \<open>j\<close>, the first match of \<open>r\<close> on what is left, and is not empty.\<close>

definition cuts :: "u32 re \<Rightarrow> u32 list \<Rightarrow> nat \<Rightarrow> nat \<Rightarrow> bool" where
  "cuts r s i j \<longleftrightarrow> i < j \<and> j \<le> i + length s \<and> first_match r s = Some (j - i)"

lemma lens_le: "k \<in> set (lens r s) \<Longrightarrow> k \<le> length s"
proof (induction r s arbitrary: k rule: lens.induct)
  case (1 P lo hi s)
  then show ?case using run_length_le [of P s] by (auto simp: Let_def split: option.splits)
next
  case (2 a b s)
  then obtain n m where "n \<in> set (lens a s)" "m \<in> set (lens b (drop n s))" "k = n + m" by auto
  then show ?case using 2(1)[of n] 2(2)[of n m] by auto
next
  case (5 P s)
  then show ?case by (auto split: list.splits if_splits)
qed auto

lemma first_match_le: "first_match r s = Some k \<Longrightarrow> k \<le> length s"
  using lens_le [of k r s] by (auto simp: first_match_def split: list.splits)

lemma cutsI: "first_match r s = Some (j - i) \<and> i < j \<Longrightarrow> cuts r s i j"
  using first_match_le [of r s "j - i"] by (auto simp: cuts_def)

lemma other_not_space: "\<not> cp_other tab 0x20"
  using quote_other by (simp add: cp_other_def)

lemma tekken_match:
  assumes v: "sees cp n i s" and s: "s = x # t"
  shows "first_match (r_tekken tab) s = Some (tekken_split_next tab cp i n - i) \<and> i < tekken_split_next tab cp i n"
proof -
  have c: "cp ! i = x" using sees_Cons v s by auto
  note lm = tekken_letters_match [OF v s, of tab]
  have e: "first_match (r_cased tab Empty) s = first_match (r_letters tab) s"
    by (subst cased_match) (auto split: option.split)
  show ?thesis
  proof (cases "first_match (r_letters tab) s")
    case (Some k)
    then show ?thesis using lm e by (auto simp: r_tekken_def tekken_split_next_def first_Or Let_def)
  next
    case None
    have nl: "\<not> cp_letter tab x" using None no_letters s by blast
    show ?thesis
    proof (cases "cp_digit tab x")
      case True
      then show ?thesis using None lm(1) e c s by (simp add: r_tekken_def tekken_split_next_def first_Or first_one Let_def)
    next
      case False
      have "first_match (r_tekken tab) s = first_match (Or (r_symbols (cp_other tab) crlf_slash) (r_space tab)) s"
        unfolding r_tekken_def using None e False s by (simp add: first_Or [of _ "Or _ _"] first_one)
      moreover have "tekken_split_next tab cp i n = tail_end tab (cp_other tab) crlf_slash cp i n"
        using None lm(1) c False by (simp add: tekken_split_next_def tail_end_def)
      ultimately show ?thesis
        using tail_match [where Y = "cp_other tab" and follow = crlf_slash, OF v s other_not_space] nl False by (auto simp: cp_other_def)
    qed
  qed
qed

lemma llama4_match:
  assumes v: "sees cp n i s" and s: "s = x # t"
  shows "first_match (r_llama4 tab) s = Some (llama4_split_next tab cp i n - i) \<and> i < llama4_split_next tab cp i n"
proof -
  have c: "cp ! i = x" using sees_Cons v s by auto
  note lm = tekken_letters_match [OF v s, of tab]
  let ?R = "Or (r_contraction caseless) Empty"
  have R: "first_match ?R u = Some (contraction either_case u)" for u by (simp add: first_Or caseless_match)
  have e: "first_match (r_cased tab ?R) s
      = (case first_match (r_letters tab) s of None \<Rightarrow> None | Some k \<Rightarrow> Some (k + contraction either_case (drop k s)))"
    by (subst cased_match) (simp_all add: R split: option.split)
  show ?thesis
  proof (cases "first_match (r_letters tab) s")
    case (Some k)
    have "contraction_len cp (i + k) n = contraction either_case (drop k s)"
      by (rule contraction_seen [OF sees_drop [OF v first_match_le [OF Some]]])
    then show ?thesis using lm e Some by (auto simp: r_llama4_def llama4_split_next_def first_Or Let_def)
  next
    case None
    have nl: "\<not> cp_letter tab x" using None no_letters s by blast
    have dm: "first_match (up_to 3 (cp_digit tab)) s = (if cp_digit tab x then Some (min (run_length (cp_digit tab) s) 3) else None)"
      using digits_match [of 3] s by simp
    show ?thesis
    proof (cases "cp_digit tab x")
      case True
      have "digit_end tab cp n 3 i i = i + min (run_length (cp_digit tab) s) 3" using digit_end_run [OF v order_refl] by simp
      then show ?thesis using None lm(1) e c s True dm
        by (simp add: r_llama4_def llama4_split_next_def first_Or [of "r_cased _ _"] first_Or [of "Run _ _ _"])
    next
      case False
      have "first_match (r_llama4 tab) s = first_match (Or (r_symbols (cp_other tab) crlf_slash) (r_space tab)) s"
        unfolding r_llama4_def using None e False dm by (simp add: first_Or [of "r_cased _ _"] first_Or [of "Run _ _ _"])
      moreover have "llama4_split_next tab cp i n = tail_end tab (cp_other tab) crlf_slash cp i n"
        using None lm(1) c False by (simp add: llama4_split_next_def tail_end_def)
      ultimately show ?thesis
        using tail_match [where Y = "cp_other tab" and follow = crlf_slash, OF v s other_not_space] nl False by (auto simp: cp_other_def)
    qed
  qed
qed

text \<open>GPT-2: the class of the character after an optional space chooses the alternative.\<close>

lemma gpt2_class_is:
  "gpt2_class tab c = 3 \<longleftrightarrow> cp_space tab c" "gpt2_class tab c = 0 \<longleftrightarrow> cp_letter tab c"
  "gpt2_class tab c = Suc 0 \<longleftrightarrow> cp_digit tab c" "gpt2_class tab c = 2 \<longleftrightarrow> cp_other tab c"
  using classes_apart(2,3) [of tab c] by (auto simp: gpt2_class_def cp_other_def)

lemma gpt2_classes: "gpt2_class tab c = 3 \<or> gpt2_class tab c = 0 \<or> gpt2_class tab c = Suc 0 \<or> gpt2_class tab c = 2"
  by (simp add: gpt2_class_def)

text \<open>The three alternatives with an optional space, as one on the class \<open>k\<close>.\<close>

definition r_word :: "uc_table \<Rightarrow> nat \<Rightarrow> u32 re" where
  "r_word tab k = Sq (opt (\<lambda>c. c = 0x20)) (some (\<lambda>c. gpt2_class tab c = k))"

lemma r_gpt2_word: "r_gpt2 tab = Or (r_contraction char) (Or (r_word tab 0) (Or (r_word tab (Suc 0)) (Or (r_word tab 2) (r_gap tab))))"
  by (simp add: r_gpt2_def r_word_def gpt2_class_is)

lemma word_match:
  assumes k: "k \<noteq> 3"
  shows "first_match (r_word tab k) (x # t) =
    (if x = 0x20 \<and> t \<noteq> [] \<and> gpt2_class tab (hd t) = k then Some (Suc (run_length (\<lambda>c. gpt2_class tab c = k) t))
     else if gpt2_class tab x = k then Some (run_length (\<lambda>c. gpt2_class tab c = k) (x # t)) else None)"
  unfolding r_word_def by (rule letters_match)

text \<open>Of the three, the one of the class of the character the code looks at.\<close>

lemma words_match:
  assumes j: "u = (if x = 0x20 \<and> t \<noteq> [] \<and> gpt2_class tab (hd t) \<noteq> 3 then t else x # t)"
  shows "first_match (Or (r_word tab 0) (Or (r_word tab (Suc 0)) (Or (r_word tab 2) r))) (x # t)
    = (if gpt2_class tab (hd u) = 3 then first_match r (x # t)
       else Some (length (x # t) - length u + run_length (\<lambda>c. gpt2_class tab c = gpt2_class tab (hd u)) u))"
proof -
  have sp: "gpt2_class tab 0x20 = 3" using quote_other by (simp add: gpt2_class_is)
  show ?thesis
  proof (cases "x = 0x20 \<and> t \<noteq> [] \<and> gpt2_class tab (hd t) \<noteq> 3")
    case True
    then show ?thesis using j sp gpt2_classes [of tab "hd t"] by (auto simp: first_Or word_match)
  next
    case False
    then show ?thesis using j sp gpt2_classes [of tab x] by (auto simp: first_Or word_match)
  qed
qed

lemma gpt2_contraction_seen:
  assumes "sees cp n i (x # t)"
  shows "(if cp ! i = 0x27 \<and> i + 1 < n then
            if cp ! (i + 1) = 0x73 \<or> cp ! (i + 1) = 0x74 \<or> cp ! (i + 1) = 0x6D \<or> cp ! (i + 1) = 0x64 then 2
            else if cp ! (i + 1) = 0x72 \<and> (if i + 2 < n then cp ! (i + 2) else 0) = 0x65
              \<or> cp ! (i + 1) = 0x76 \<and> (if i + 2 < n then cp ! (i + 2) else 0) = 0x65
              \<or> cp ! (i + 1) = 0x6C \<and> (if i + 2 < n then cp ! (i + 2) else 0) = 0x6C then 3 else 0 else 0)
    = contraction (\<lambda>c x. x = c) (x # t)"
proof (cases t)
  case Nil
  then show ?thesis using sees_few [OF assms] by (simp add: contraction_def)
next
  case (Cons a u)
  show ?thesis
    using sees_two [of cp n i x a u] assms Cons
    by (cases "u = []") (simp_all add: contraction_def)
qed

lemma gpt2_match:
  assumes v: "sees cp n i s" and s: "s = x # t"
  shows "first_match (r_gpt2 tab) s = Some (gpt2_split_next tab cp i n - i) \<and> i < gpt2_split_next tab cp i n"
proof -
  have c: "i < n" "cp ! i = x" "sees cp n (Suc i) t" using sees_Cons v s by auto
  have nx: "i + 1 < n \<longleftrightarrow> t \<noteq> []" "t \<noteq> [] \<Longrightarrow> cp ! (i + 1) = hd t"
    using c(3) sees_Nil sees_Cons [of cp n "Suc i" "hd t" "tl t"] by (cases t; fastforce)+
  let ?lead = "x = 0x20 \<and> t \<noteq> [] \<and> gpt2_class tab (hd t) \<noteq> 3"
  define j where "j = (if ?lead then i + 1 else i)"
  define u where "u = (if ?lead then t else x # t)"
  have u: "sees cp n j u" "u \<noteq> []" "length s - length u = j - i" "cp ! j = hd u"
    using v c s nx by (auto simp: j_def u_def)
  have run: "run_end P cp n j = j + run_length P u" for P by (rule run_end_run [OF u(1)])
  have lead: "(if cp ! i = 0x20 \<and> i + 1 < n \<and> gpt2_class tab (cp ! (i + 1)) \<noteq> 3 then i + 1 else i) = j"
    using nx c(2) by (auto simp: j_def)
  let ?a = "contraction (\<lambda>c x. x = c) s"
  let ?k = "run_end (\<lambda>c. gpt2_class tab c = 3) cp n i"
  have k: "?k = i + run_length (cp_space tab) s" using run_end_run [OF v] by (simp add: gpt2_class_is)
  have code: "gpt2_split_next tab cp i n = (if ?a \<noteq> 0 then i + ?a
      else if gpt2_class tab (hd u) \<noteq> 3 then j + run_length (\<lambda>c. gpt2_class tab c = gpt2_class tab (hd u)) u
      else if ?k < n \<and> ?k - i > 1 then ?k - 1 else ?k)"
    unfolding gpt2_split_next_def Let_def gpt2_contraction_seen [OF v [unfolded s]] lead run u(4) s by simp
  consider "?a \<noteq> 0" | "?a = 0" "gpt2_class tab (hd u) \<noteq> 3" | "?a = 0" "gpt2_class tab (hd u) = 3" by blast
  then show ?thesis
  proof cases
    case 1
    then show ?thesis unfolding code r_gpt2_word first_Or char_match by simp
  next
    case 2
    have "0 < run_length (\<lambda>c. gpt2_class tab c = gpt2_class tab (hd u)) u" using u(2) by (cases u) auto
    moreover have "i \<le> j" by (simp add: j_def)
    ultimately show ?thesis
      unfolding code r_gpt2_word first_Or [of "r_contraction char"] char_match
      using 2 words_match [OF u_def, where r = "r_gap tab"] u(3) s by simp
  next
    case 3
    have "hd u = x" using 3(2) by (auto simp: u_def split: if_splits)
    then have "run_length (cp_space tab) s \<noteq> 0" using 3(2) s by (simp add: gpt2_class_is)
    then show ?thesis
      unfolding code k r_gpt2_word first_Or [of "r_contraction char"] char_match
      using 3 words_match [OF u_def, where r = "r_gap tab"] s gap_match [of tab s] sees_length [OF v] by (auto simp: Let_def)
  qed
qed

lemma smollm_match:
  assumes v: "sees cp n i s" and s: "s = x # t" and x: "\<not> cp_digit tab x"
  shows "first_match (r_gpt2 tab) (to_digit tab s) = Some (smollm_split_next tab cp i n - i) \<and> i < smollm_split_next tab cp i n"
proof -
  have c: "cp ! i = x" using sees_Cons v s by auto
  have us: "to_digit tab s = x # to_digit tab t" using s x by (simp add: to_digit_def)
  show ?thesis
    using gpt2_match [OF digit_stop_seen(2) [OF v [unfolded s] x, folded s] us] c x by (simp add: smollm_split_next_def)
qed

subsection \<open>The split rules\<close>

text \<open>The letter run of Llama 3, with the marks in it for Qwen 3.5, and the symbols beside it.\<close>

definition run_letter :: "uc_table \<Rightarrow> bool \<Rightarrow> u32 \<Rightarrow> bool" where
  "run_letter tab marks c \<longleftrightarrow> cp_letter tab c \<or> marks \<and> cp_mark tab c"

definition run_other :: "uc_table \<Rightarrow> bool \<Rightarrow> u32 \<Rightarrow> bool" where
  "run_other tab marks c \<longleftrightarrow> \<not> cp_space tab c \<and> \<not> run_letter tab marks c \<and> \<not> cp_digit tab c"

lemma sees_end: "i \<le> length cp \<Longrightarrow> sees cp (length cp) i (drop i cp)"
  by (simp add: sees_def)

lemma rest_Cons: "i < length cp \<Longrightarrow> drop i cp = cp ! i # drop (Suc i) cp"
  by (rule Cons_nth_drop_Suc [symmetric])



text \<open>
  Property C16. Where the tekken, Llama 4, GPT-2 and SmolLM rules cut a text is where their published
  regular expression does, for every table of character classes, text and place. The search for the case
  boundary in a run of letters, \<^verbatim>\<open>case_run_alt1\<close>, is the engine's giving back of characters; SmolLM's rule,
  which a pass that isolates every digit runs before, is GPT-2's on the text up to the next digit.
\<close>

theorem cased_splits_match:
  assumes "i < length cp"
  shows "cuts (r_tekken tab) (drop i cp) i (tekken_split_next tab cp i (length cp))
    \<and> cuts (r_llama4 tab) (drop i cp) i (llama4_split_next tab cp i (length cp))
    \<and> cuts (r_gpt2 tab) (drop i cp) i (gpt2_split_next tab cp i (length cp))
    \<and> (if cp_digit tab (cp ! i) then smollm_split_next tab cp i (length cp) = i + 1
       else cuts (r_gpt2 tab) (to_digit tab (drop i cp)) i (smollm_split_next tab cp i (length cp)))"
proof -
  note v = sees_end [OF less_imp_le [OF assms]] and s = rest_Cons [OF assms]
  show ?thesis
    using cutsI [OF tekken_match [OF v s, of tab]] cutsI [OF llama4_match [OF v s, of tab]] cutsI [OF gpt2_match [OF v s, of tab]]
      cutsI [OF smollm_match [OF v s, of tab]] by (simp add: smollm_split_next_def)
qed

text \<open>"XMLHttp's": tekken cuts before the apostrophe, Llama 4 after the contraction, both before a new capital.\<close>

theorem cased_splits_match_witness:
  "tekken_split_next [] [0x58, 0x4D, 0x4C, 0x48, 0x74, 0x27, 0x73, 0x41] 0 8 = 5
    \<and> cuts (r_tekken []) [0x58, 0x4D, 0x4C, 0x48, 0x74, 0x27, 0x73, 0x41] 0 5
    \<and> cuts (r_llama4 []) [0x58, 0x4D, 0x4C, 0x48, 0x74, 0x27, 0x73, 0x41] 0 7
    \<and> cuts (r_gpt2 []) [0x58, 0x4D, 0x4C, 0x48, 0x74, 0x27, 0x73, 0x41] 0 5"
proof -
  let ?cp = "[0x58, 0x4D, 0x4C, 0x48, 0x74, 0x27, 0x73, 0x41] :: u32 list"
  have e: "tekken_split_next [] ?cp 0 8 = 5" "llama4_split_next [] ?cp 0 8 = 7" "gpt2_split_next [] ?cp 0 8 = 5"
    by code_simp+
  show ?thesis using cased_splits_match [of 0 ?cp "[]"] e by (simp add: eval_nat_numeral)
qed

end
