(* ===== verification/Tok_Pieces.thy ===== *)
theory Tok_Pieces
  imports Tok_Rules
begin

section \<open>The composed split rules, and their bounds (tokenizer.c)\<close>

text \<open>
  The rules of Trinity (afmoe), Spark 2.5, Flint and DeepSeek fold several passes into one scanner. What is
  proved here is what the encoder relies on for every rule: a piece is not empty and ends inside the text.
\<close>

definition cp_decimal :: "uc_table \<Rightarrow> u32 \<Rightarrow> bool" where
  "cp_decimal tab c \<longleftrightarrow> (if c < 0x80 then c \<ge> 0x30 \<and> c \<le> 0x39 else uc_class tab c = UC_ND)"

definition cp_punct_sym :: "uc_table \<Rightarrow> u32 \<Rightarrow> bool" where
  "cp_punct_sym tab c \<longleftrightarrow>
    (if c < 0x80 then c > 0x20 \<and> c < 0x7F \<and> \<not> (c \<ge> 0x30 \<and> c \<le> 0x39 \<or> c \<ge> 0x61 \<and> c \<le> 0x7A \<or> c \<ge> 0x41 \<and> c \<le> 0x5A)
     else uc_class tab c = UC_P \<or> uc_class tab c = UC_S)"

definition afmoe_script :: "u32 \<Rightarrow> nat" where
  "afmoe_script c =
    (if c \<ge> 0x4E00 \<and> c \<le> 0x9FFF \<or> c \<ge> 0x3040 \<and> c \<le> 0x309F \<or> c \<ge> 0x30A0 \<and> c \<le> 0x30FF \<or> c \<ge> 0x3400 \<and> c \<le> 0x4DBF
       \<or> c \<ge> 0xF900 \<and> c \<le> 0xFAFF \<or> c \<ge> 0xFF65 \<and> c \<le> 0xFF9F \<or> c \<ge> 0x2F00 \<and> c \<le> 0x2FDF then 1
     else if c \<ge> 0x0E00 \<and> c \<le> 0x0E7F then 2
     else if c \<ge> 0x0E80 \<and> c \<le> 0x0EFF then 3
     else if c \<ge> 0x1780 \<and> c \<le> 0x17FF then 4
     else if c \<ge> 0x1000 \<and> c \<le> 0x109F \<or> c \<ge> 0xAA60 \<and> c \<le> 0xAA7F \<or> c \<ge> 0xA9E0 \<and> c \<le> 0xA9FF then 5
     else if c \<ge> 0xAC00 \<and> c \<le> 0xD7AF \<or> c \<ge> 0x1100 \<and> c \<le> 0x11FF then 6
     else 0)"

definition cp_afmoe_cjk :: "u32 \<Rightarrow> bool" where
  "cp_afmoe_cjk c \<longleftrightarrow> afmoe_script c \<noteq> 0"

definition cp_ascii_punct :: "u32 \<Rightarrow> bool" where
  "cp_ascii_punct c \<longleftrightarrow> c \<ge> 0x21 \<and> c \<le> 0x2F \<or> c \<ge> 0x3A \<and> c \<le> 0x40 \<or> c \<ge> 0x5B \<and> c \<le> 0x60 \<or> c \<ge> 0x7B \<and> c \<le> 0x7E"

definition ascii_letter :: "u32 \<Rightarrow> bool" where
  "ascii_letter c \<longleftrightarrow> c \<ge> 0x61 \<and> c \<le> 0x7A \<or> c \<ge> 0x41 \<and> c \<le> 0x5A"

definition cp_spark25_cjk :: "u32 \<Rightarrow> bool" where
  "cp_spark25_cjk c \<longleftrightarrow> c \<ge> 0x4E00 \<and> c \<le> 0x9FA5 \<or> c \<ge> 0x3040 \<and> c \<le> 0x309F \<or> c \<ge> 0x30A0 \<and> c \<le> 0x30FF"

definition cp_flint_cjk :: "u32 \<Rightarrow> bool" where
  "cp_flint_cjk c \<longleftrightarrow> c \<ge> 0x4E00 \<and> c \<le> 0x9FA5 \<or> c \<ge> 0x3040 \<and> c \<le> 0x309F \<or> c \<ge> 0x30A0 \<and> c \<le> 0x30FF"

subsection \<open>Trinity and Spark 2.5\<close>

text \<open>The letters and marks that \<open>stop\<close> does not hold, after a leading character or from \<open>i\<close>.\<close>

definition lead_run :: "uc_table \<Rightarrow> (u32 \<Rightarrow> bool) \<Rightarrow> u32 list \<Rightarrow> nat \<Rightarrow> nat \<Rightarrow> nat option" where
  "lead_run tab stop cp i ncp =
    (let c = cp ! i;
         lead = (c \<noteq> 0x0D \<and> c \<noteq> 0x0A \<and> \<not> cp_letter tab c \<and> \<not> cp_punct_sym tab c);
         j = (\<lambda>s. run_end (\<lambda>c. (cp_letter tab c \<or> cp_mark tab c) \<and> \<not> stop c) cp ncp s)
     in if lead \<and> j (i + 1) > i + 1 then Some (j (i + 1)) else if j i > i then Some (j i) else None)"

text \<open>An optional space and a run of punctuation and symbols.\<close>

definition punct_split :: "uc_table \<Rightarrow> (u32 \<Rightarrow> bool) \<Rightarrow> (u32 \<Rightarrow> bool) \<Rightarrow> u32 list \<Rightarrow> nat \<Rightarrow> nat \<Rightarrow> nat option" where
  "punct_split tab stop follow cp i ncp =
    (let j = (if cp ! i = 0x20 \<and> i + 1 < ncp \<and> cp_punct_sym tab (cp ! (i + 1)) then i + 1 else i)
     in if j < ncp \<and> cp_punct_sym tab (cp ! j)
        then Some (run_end follow cp ncp (run_end (\<lambda>c. cp_punct_sym tab c \<and> \<not> stop c) cp ncp j)) else None)"

definition afmoe_match :: "uc_table \<Rightarrow> u32 list \<Rightarrow> nat \<Rightarrow> nat \<Rightarrow> nat" where
  "afmoe_match tab cp ncp i =
    (let c = cp ! i; g = afmoe_script c
     in if cp_decimal tab c then let l = run_end (cp_decimal tab) cp ncp i - i; first = l mod 3 in i + (if first \<noteq> 0 then first else 3)
        else if cp_digit tab c then run_end (\<lambda>c. cp_digit tab c \<and> \<not> cp_decimal tab c) cp ncp i
        else if g \<noteq> 0 then run_end (\<lambda>c. afmoe_script c = g) cp ncp i
        else if cp_ascii_punct c \<and> i + 1 < ncp \<and> ascii_letter (cp ! (i + 1)) then run_end ascii_letter cp ncp (i + 1)
        else case lead_run tab cp_afmoe_cjk cp i ncp of Some j \<Rightarrow> j
          | None \<Rightarrow> (case punct_split tab cp_afmoe_cjk cp_crlf cp i ncp of Some j \<Rightarrow> j
             | None \<Rightarrow> space_split tab (\<lambda>c. cp_digit tab c \<or> cp_afmoe_cjk c) cp i ncp))"

text \<open>Where nothing matches, up to the next match.\<close>

function gap_end :: "(nat \<Rightarrow> nat) \<Rightarrow> nat \<Rightarrow> nat \<Rightarrow> nat" where
  "gap_end m n j = (if j < n \<and> m j = j then gap_end m n (j + 1) else j)"
  by pat_completeness auto
termination
  by (relation "measure (\<lambda>(m, n, j). n - j)") auto

declare gap_end.simps [simp del]

definition afmoe_split_next :: "uc_table \<Rightarrow> u32 list \<Rightarrow> nat \<Rightarrow> nat \<Rightarrow> nat" where
  "afmoe_split_next tab cp i ncp =
    (let e = afmoe_match tab cp ncp i in if e > i then e else gap_end (afmoe_match tab cp ncp) ncp (i + 1))"

definition spark25_match :: "uc_table \<Rightarrow> u32 list \<Rightarrow> nat \<Rightarrow> nat \<Rightarrow> nat" where
  "spark25_match tab cp ncp i =
    (let c = cp ! i
     in if cp_digit tab c then i + 1
        else if cp_spark25_cjk c then run_end cp_spark25_cjk cp ncp i
        else if cp_ascii_punct c \<and> i + 1 < ncp \<and> ascii_letter (cp ! (i + 1)) then run_end ascii_letter cp ncp (i + 1)
        else case lead_run tab cp_spark25_cjk cp i ncp of Some j \<Rightarrow> j
          | None \<Rightarrow> (case punct_split tab cp_spark25_cjk (\<lambda>_. False) cp i ncp of Some j \<Rightarrow> j
             | None \<Rightarrow> if c = 0x0D \<or> c = 0x0A then i + 1
               else let j = run_end (cp_space tab) cp ncp i
                 in if j < ncp \<and> j - i > 1 \<and> \<not> cp_digit tab (cp ! j) \<and> \<not> cp_spark25_cjk (cp ! j) then j - 1 else j))"

definition spark25_split_next :: "uc_table \<Rightarrow> u32 list \<Rightarrow> nat \<Rightarrow> nat \<Rightarrow> nat" where
  "spark25_split_next tab cp i ncp =
    (let e = spark25_match tab cp ncp i in if e > i then e else gap_end (spark25_match tab cp ncp) ncp (i + 1))"

subsection \<open>Flint\<close>

definition flint_pass3 :: "uc_table \<Rightarrow> u32 list \<Rightarrow> nat \<Rightarrow> nat \<Rightarrow> nat" where
  "flint_pass3 tab cp e i =
    (let adv = tekken_letters tab cp i e
     in if adv > i then adv + contraction_len cp adv e
        else case punct_split tab (\<lambda>_. False) cp_crlf cp i e of Some j \<Rightarrow> j
          | None \<Rightarrow> if cp_space tab (cp ! i) then space_split tab (\<lambda>_. False) cp i e else i)"

definition flint_split_next :: "uc_table \<Rightarrow> u32 list \<Rightarrow> nat \<Rightarrow> nat \<Rightarrow> nat" where
  "flint_split_next tab cp i ncp =
    (if cp_digit tab (cp ! i) then digit_end tab cp ncp 3 i i
     else if cp_flint_cjk (cp ! i) then run_end cp_flint_cjk cp ncp i
     else
       let e = run_end (\<lambda>c. \<not> cp_digit tab c \<and> \<not> cp_flint_cjk c) cp ncp i; m = flint_pass3 tab cp e i
       in if m > i then m else gap_end (flint_pass3 tab cp e) e (i + 1))"

subsection \<open>DeepSeek\<close>

definition ds_letters :: "(u32 \<times> u32) list" where
  "ds_letters = [
    (0x0041, 0x005A), (0x0061, 0x007A), (0x00B5, 0x00B5), (0x00C0, 0x00D6), (0x00D8, 0x00F6), (0x00F8, 0x01BA),
    (0x01BC, 0x01BF), (0x01C4, 0x0293), (0x0295, 0x02AF), (0x0370, 0x0373), (0x0376, 0x0376), (0x0377, 0x0377),
    (0x037B, 0x037D), (0x037F, 0x037F), (0x0386, 0x0386), (0x0388, 0x038A), (0x038C, 0x038C), (0x038E, 0x03A1),
    (0x03A3, 0x03F5), (0x03F7, 0x0481), (0x048A, 0x052F), (0x0531, 0x0556), (0x10A0, 0x10C5), (0x13A0, 0x13F5),
    (0x13F8, 0x13FD), (0x1C90, 0x1CBA), (0x1CBD, 0x1CBF), (0x1D00, 0x1D2B), (0x1D6B, 0x1D77), (0x1D79, 0x1D9A),
    (0x1E00, 0x1F15), (0x1F18, 0x1F1D), (0x1F20, 0x1F45), (0x1F48, 0x1F4D), (0x1F50, 0x1F57), (0x1F59, 0x1F59),
    (0x1F5B, 0x1F5B), (0x1F5D, 0x1F5D), (0x1F5F, 0x1F7D), (0x1F80, 0x1FB4), (0x1FB6, 0x1FBC), (0x1FBE, 0x1FBE),
    (0x1FC2, 0x1FC4), (0x1FC6, 0x1FCC), (0x1FD0, 0x1FD3), (0x1FD6, 0x1FDB), (0x1FE0, 0x1FEC), (0x1FF2, 0x1FF4),
    (0x1FF6, 0x1FFC), (0x2102, 0x2102), (0x2107, 0x2107), (0x210A, 0x2113), (0x2115, 0x2115), (0x2119, 0x211D),
    (0x2124, 0x2124), (0x2126, 0x2126), (0x2128, 0x2128), (0x212A, 0x212D), (0x212F, 0x2134), (0x2139, 0x2139),
    (0x213C, 0x213F), (0x2145, 0x2149), (0x214E, 0x214E), (0x2183, 0x2183), (0x2184, 0x2184), (0x2C00, 0x2C7B),
    (0x2C7E, 0x2CE4), (0x2CEB, 0x2CEE), (0x2CF2, 0x2CF2), (0x2CF3, 0x2CF3), (0xA640, 0xA66D), (0xA680, 0xA69B),
    (0xA722, 0xA76F), (0xA771, 0xA787), (0xA78B, 0xA78E), (0xAB70, 0xABBF), (0xFB00, 0xFB06), (0xFB13, 0xFB17),
    (0xFF21, 0xFF3A), (0xFF41, 0xFF5A), (0x10400, 0x1044F), (0x104B0, 0x104D3), (0x104D8, 0x104FB), (0x10C80, 0x10CB2),
    (0x10CC0, 0x10CF2), (0x118A0, 0x118DF), (0x1E900, 0x1E943)]"

function ds_search :: "u32 \<Rightarrow> int \<Rightarrow> int \<Rightarrow> bool" where
  "ds_search c lo hi =
    (if lo \<le> hi then
       let mid = (lo + hi) div 2
       in if c < fst (ds_letters ! nat mid) then ds_search c lo (mid - 1)
          else if c > snd (ds_letters ! nat mid) then ds_search c (mid + 1) hi
          else True
     else False)"
  by pat_completeness auto
termination
  by (relation "measure (\<lambda>(c, lo, hi). nat (hi + 1 - lo))") auto

declare ds_search.simps [simp del]

definition cp_ds_letter :: "u32 \<Rightarrow> bool" where
  "cp_ds_letter c = ds_search c 0 (int (length ds_letters) - 1)"

definition cp_ds_punct :: "u32 \<Rightarrow> bool" where
  "cp_ds_punct c \<longleftrightarrow> c \<ge> 0x21 \<and> c \<le> 0x2F \<or> c \<ge> 0x3A \<and> c \<le> 0x7E \<or> c \<ge> 0xFF01 \<and> c \<le> 0xFF0F
    \<or> c \<ge> 0xFF1A \<and> c \<le> 0xFF5E \<or> c \<ge> 0x2018 \<and> c \<le> 0x201F \<or> c \<ge> 0x3000 \<and> c \<le> 0x3002"

definition cp_ds_cjk :: "u32 \<Rightarrow> bool" where
  "cp_ds_cjk c \<longleftrightarrow> c \<ge> 0x4E00 \<and> c \<le> 0x9FA5 \<or> c \<ge> 0x0800 \<and> c \<le> 0x4E00 \<or> c \<ge> 0xAC00 \<and> c \<le> 0xD7FF"

definition ds_l2_at :: "uc_table \<Rightarrow> u32 list \<Rightarrow> nat \<Rightarrow> nat \<Rightarrow> bool" where
  "ds_l2_at tab cp e j \<longleftrightarrow>
    cp_ds_letter (cp ! j) \<or> cp_space tab (cp ! j) \<and> \<not> cp_crlf (cp ! j) \<and> j + 1 < e \<and> cp_ds_letter (cp ! (j + 1))"

text \<open>The loop \<^verbatim>\<open>while (j < n && P(j)) j++\<close>, over places.\<close>

function place_end :: "(nat \<Rightarrow> bool) \<Rightarrow> nat \<Rightarrow> nat \<Rightarrow> nat" where
  "place_end P n j = (if j < n \<and> P j then place_end P n (j + 1) else j)"
  by pat_completeness auto
termination
  by (relation "measure (\<lambda>(P, n, j). n - j)") auto

declare place_end.simps [simp del]

text \<open>Back over white space, \<^verbatim>\<open>while (t > i && cp_space(cp[t - 1])) t--\<close>.\<close>

fun space_back :: "uc_table \<Rightarrow> u32 list \<Rightarrow> nat \<Rightarrow> nat \<Rightarrow> nat" where
  "space_back tab cp i j = (if j > i \<and> cp_space tab (cp ! (j - 1)) then space_back tab cp i (j - 1) else j)"

declare space_back.simps [simp del]

definition deepseek_llm_split_next :: "uc_table \<Rightarrow> u32 list \<Rightarrow> nat \<Rightarrow> nat \<Rightarrow> nat" where
  "deepseek_llm_split_next tab cp i ncp =
    (if cp_crlf (cp ! i) then i + 1
     else
       let e2 = (if ds_l2_at tab cp ncp i then run_end cp_ds_letter cp ncp (if cp_ds_letter (cp ! i) then i + 1 else i + 2)
                 else place_end (\<lambda>e. \<not> cp_crlf (cp ! e) \<and> \<not> ds_l2_at tab cp ncp e) ncp (i + 1));
           sp_p = (cp_space tab (cp ! i) \<and> i + 1 < e2 \<and> cp_ds_punct (cp ! (i + 1)));
           e3 = (if sp_p \<or> cp_ds_punct (cp ! i) then run_end cp_ds_punct cp e2 (if sp_p then i + 2 else i + 1)
                 else place_end (\<lambda>e. \<not> cp_ds_punct (cp ! e) \<and> \<not> (cp_space tab (cp ! e) \<and> e + 1 < e2 \<and> cp_ds_punct (cp ! (e + 1)))) e2 (i + 1));
           p = space_back tab cp i e3;
           e4 = (if p = i \<or> p = e3 then e3 else p);
           e5 = (if cp_ds_cjk (cp ! i) then run_end cp_ds_cjk cp e4 (i + 1) else run_end (\<lambda>c. \<not> cp_ds_cjk c) cp e4 (i + 1))
       in if cp_digit tab (cp ! i) then i + 1 else run_end (\<lambda>c. \<not> cp_digit tab c) cp e5 (i + 1))"

subsection \<open>Every piece is inside the text\<close>

lemma place_end_between: "j \<le> n \<Longrightarrow> j \<le> place_end P n j \<and> place_end P n j \<le> n"
proof (induction P n j rule: place_end.induct)
  case (1 P n j)
  then show ?case by (subst (1 2) place_end.simps) auto
qed

lemma gap_end_between: "j \<le> n \<Longrightarrow> j \<le> gap_end m n j \<and> gap_end m n j \<le> n"
proof (induction m n j rule: gap_end.induct)
  case (1 m n j)
  then show ?case by (subst (1 2) gap_end.simps) auto
qed

lemma space_back_between: "i \<le> j \<Longrightarrow> i \<le> space_back tab cp i j \<and> space_back tab cp i j \<le> j"
proof (induction tab cp i j rule: space_back.induct)
  case (1 tab cp i j)
  then show ?case by (cases "j > i \<and> cp_space tab (cp ! (j - 1))") (subst (1 2) space_back.simps; force)+
qed

lemma run_end_grows: "i < n \<Longrightarrow> P (cp ! i) \<Longrightarrow> i < run_end P cp n i"
  using run_end_between [of "i + 1" n P cp] by (subst run_end.simps) auto

lemma run_end_in: "j \<le> n \<Longrightarrow> j \<le> run_end P cp n j \<and> run_end P cp n j \<le> n"
  using run_end_between by blast

lemma lead_run_between: "i < n \<Longrightarrow> lead_run tab stop cp i n = Some j \<Longrightarrow> i < j \<and> j \<le> n"
  using run_end_in [of "i + 1" n] run_end_in [of i n] by (auto simp: lead_run_def Let_def split: if_splits)

lemma punct_split_between: "i < n \<Longrightarrow> punct_split tab stop follow cp i n = Some j \<Longrightarrow> i \<le> j \<and> j \<le> n"
proof -
  assume i: "i < n" and j: "punct_split tab stop follow cp i n = Some j"
  define k where "k = (if cp ! i = 0x20 \<and> i + 1 < n \<and> cp_punct_sym tab (cp ! (i + 1)) then i + 1 else i)"
  have "i \<le> k" "k \<le> n" using i by (auto simp: k_def)
  moreover from this have "k \<le> run_end (\<lambda>c. cp_punct_sym tab c \<and> \<not> stop c) cp n k"
    "run_end (\<lambda>c. cp_punct_sym tab c \<and> \<not> stop c) cp n k \<le> n" using run_end_in by blast+
  moreover have "punct_split tab stop follow cp i n = (if k < n \<and> cp_punct_sym tab (cp ! k)
      then Some (run_end follow cp n (run_end (\<lambda>c. cp_punct_sym tab c \<and> \<not> stop c) cp n k)) else None)"
    by (simp only: punct_split_def Let_def k_def)
  then have "j = run_end follow cp n (run_end (\<lambda>c. cp_punct_sym tab c \<and> \<not> stop c) cp n k)" using j by (simp split: if_splits)
  ultimately show ?thesis using run_end_in [of "run_end (\<lambda>c. cp_punct_sym tab c \<and> \<not> stop c) cp n k" n follow cp] by linarith
qed

lemma last_nl_between: "last_nl cp i j = Some k \<Longrightarrow> i \<le> k \<and> k < j"
proof -
  have "fold (\<lambda>k last. if cp_crlf (cp ! k) then Some k else last) ks a = Some k \<Longrightarrow> a = Some k \<or> k \<in> set ks" for ks a
    by (induction ks arbitrary: a) (auto split: if_splits)
  from this [of "[i..<j]" None] show "last_nl cp i j = Some k \<Longrightarrow> i \<le> k \<and> k < j" by (auto simp: last_nl_def)
qed

lemma space_split_between: "i \<le> n \<Longrightarrow> i \<le> space_split tab ends cp i n \<and> space_split tab ends cp i n \<le> n"
  using run_end_in [of i n "cp_space tab" cp] last_nl_between [of cp i "run_end (cp_space tab) cp n i"]
  by (fastforce simp: space_split_def Let_def split: option.split)

lemma afmoe_match_between: "i < n \<Longrightarrow> i \<le> afmoe_match tab cp n i \<and> afmoe_match tab cp n i \<le> n"
proof -
  assume i: "i < n"
  let ?c = "cp ! i"
  have r: "i \<le> run_end P cp n i \<and> run_end P cp n i \<le> n" "i \<le> run_end P cp n (i + 1) \<and> run_end P cp n (i + 1) \<le> n" for P
    using run_end_in [of i n P cp] run_end_in [of "i + 1" n P cp] i by auto
  consider "cp_decimal tab ?c" | "\<not> cp_decimal tab ?c" "cp_digit tab ?c"
    | "\<not> cp_decimal tab ?c" "\<not> cp_digit tab ?c" by blast
  then show ?thesis
  proof cases
    case 1
    define l where "l = run_end (cp_decimal tab) cp n i - i"
    have l: "0 < l" "i + l \<le> n" using run_end_grows [of i n "cp_decimal tab" cp] i 1 r(1) [of "cp_decimal tab"] by (auto simp: l_def)
    have "(if l mod 3 \<noteq> 0 then l mod 3 else 3) \<le> l" using l(1) by presburger
    then show ?thesis using 1 l by (simp add: afmoe_match_def Let_def l_def [symmetric])
  next
    case 2
    then show ?thesis using r by (simp add: afmoe_match_def Let_def)
  next
    case 3
    then show ?thesis
      using r lead_run_between [OF i, of tab cp_afmoe_cjk cp] punct_split_between [OF i, of tab cp_afmoe_cjk cp_crlf cp]
        space_split_between [of i n tab "\<lambda>c. cp_digit tab c \<or> cp_afmoe_cjk c" cp] i
      by (fastforce simp: afmoe_match_def Let_def split: option.split)
  qed
qed

lemma spark25_match_between: "i < n \<Longrightarrow> i \<le> spark25_match tab cp n i \<and> spark25_match tab cp n i \<le> n"
proof -
  assume i: "i < n"
  have r: "i \<le> run_end P cp n i \<and> run_end P cp n i \<le> n" "i \<le> run_end P cp n (i + 1) \<and> run_end P cp n (i + 1) \<le> n" for P
    using run_end_in [of i n P cp] run_end_in [of "i + 1" n P cp] i by auto
  then show ?thesis
    using lead_run_between [OF i, of tab cp_spark25_cjk cp] punct_split_between [OF i, of tab cp_spark25_cjk "\<lambda>_. False" cp] i
      r(1) [of "cp_space tab"]
    by (fastforce simp: spark25_match_def Let_def split: option.split)
qed

lemma tekken_letters_le: "i < n \<Longrightarrow> n \<le> length cp \<Longrightarrow> tekken_letters tab cp i n \<le> n"
proof -
  assume a: "i < n" "n \<le> length cp"
  then have v: "sees cp n i (drop i (take n cp))" by (simp add: sees_def)
  have "drop i (take n cp) = cp ! i # drop (Suc i) (take n cp)" using a Cons_nth_drop_Suc [of i "take n cp"] by simp
  from tekken_letters_match(1) [OF v this, of tab] first_match_le [of "r_letters tab" "drop i (take n cp)"]
  show ?thesis using a by (auto split: option.splits)
qed

lemma contraction_in: "i \<le> n \<Longrightarrow> n \<le> length cp \<Longrightarrow> i + contraction_len cp i n \<le> n"
  by (auto simp: contraction_len_def Let_def)

lemma flint_pass3_between: "i < n \<Longrightarrow> n \<le> length cp \<Longrightarrow> i \<le> flint_pass3 tab cp n i \<and> flint_pass3 tab cp n i \<le> n"
  using tekken_letters_le [of i n cp tab] contraction_in [of "tekken_letters tab cp i n" n cp]
    punct_split_between [of i n tab "\<lambda>_. False" cp_crlf cp] space_split_between [of i n tab "\<lambda>_. False" cp]
  by (fastforce simp: flint_pass3_def Let_def split: option.split)

lemma with_gap:
  "i < n \<Longrightarrow> m i \<le> n \<Longrightarrow> i < (if m i > i then m i else gap_end m n (i + 1)) \<and> (if m i > i then m i else gap_end m n (i + 1)) \<le> n"
  using gap_end_between [of "i + 1" n m] by auto

lemma afmoe_inside: "i < n \<Longrightarrow> i < afmoe_split_next tab cp i n \<and> afmoe_split_next tab cp i n \<le> n"
  unfolding afmoe_split_next_def Let_def by (rule with_gap) (use afmoe_match_between in blast)+

lemma spark25_inside: "i < n \<Longrightarrow> i < spark25_split_next tab cp i n \<and> spark25_split_next tab cp i n \<le> n"
  unfolding spark25_split_next_def Let_def by (rule with_gap) (use spark25_match_between in blast)+

lemma digit_end_in: "i < n \<Longrightarrow> n \<le> length cp \<Longrightarrow> cp_digit tab (cp ! i) \<Longrightarrow> 0 < m \<Longrightarrow> i < digit_end tab cp n m i i \<and> digit_end tab cp n m i i \<le> n"
proof -
  assume a: "i < n" "n \<le> length cp" "cp_digit tab (cp ! i)" "0 < m"
  then have v: "sees cp n i (drop i (take n cp))" by (simp add: sees_def)
  have "drop i (take n cp) = cp ! i # drop (Suc i) (take n cp)" using a Cons_nth_drop_Suc [of i "take n cp"] by simp
  then have "0 < run_length (cp_digit tab) (drop i (take n cp))" using a(3) by simp
  then show ?thesis using digit_end_run [OF v order_refl, of tab m] run_length_le [of "cp_digit tab" "drop i (take n cp)"] a by auto
qed

lemma flint_inside: "i < n \<Longrightarrow> n \<le> length cp \<Longrightarrow> i < flint_split_next tab cp i n \<and> flint_split_next tab cp i n \<le> n"
proof -
  assume i: "i < n" "n \<le> length cp"
  let ?P = "\<lambda>c. \<not> cp_digit tab c \<and> \<not> cp_flint_cjk c"
  consider "cp_digit tab (cp ! i)" | "\<not> cp_digit tab (cp ! i)" "cp_flint_cjk (cp ! i)" | "?P (cp ! i)" by blast
  then show ?thesis
  proof cases
    case 3
    define e where "e = run_end ?P cp n i"
    have e: "i < e" "e \<le> n" using run_end_grows [of i n ?P cp] run_end_in [of i n ?P cp] i(1) 3 by (auto simp: e_def)
    then have "flint_pass3 tab cp e i \<le> e" using flint_pass3_between [of i e cp tab] i(2) by auto
    have "flint_split_next tab cp i n = (if flint_pass3 tab cp e i > i then flint_pass3 tab cp e i else gap_end (flint_pass3 tab cp e) e (i + 1))"
      unfolding flint_split_next_def Let_def e_def [symmetric] using 3 by simp
    then have "i < flint_split_next tab cp i n \<and> flint_split_next tab cp i n \<le> e"
      using with_gap [where m = "flint_pass3 tab cp e", OF e(1) \<open>flint_pass3 tab cp e i \<le> e\<close>] by presburger
    then show ?thesis using e by linarith
  qed (use i digit_end_in run_end_grows [of i n cp_flint_cjk cp] run_end_in [of i n cp_flint_cjk cp] in \<open>auto simp: flint_split_next_def\<close>)
qed

lemma deepseek_inside: "i < n \<Longrightarrow> i < deepseek_llm_split_next tab cp i n \<and> deepseek_llm_split_next tab cp i n \<le> n"
proof (cases "cp_crlf (cp ! i)")
  case False
  assume i: "i < n"
  define e2 where "e2 = (if ds_l2_at tab cp n i then run_end cp_ds_letter cp n (if cp_ds_letter (cp ! i) then i + 1 else i + 2)
    else place_end (\<lambda>e. \<not> cp_crlf (cp ! e) \<and> \<not> ds_l2_at tab cp n e) n (i + 1))"
  have e2: "i < e2" "e2 \<le> n"
    using i run_end_in [of "i + 1" n cp_ds_letter cp] run_end_in [of "i + 2" n cp_ds_letter cp]
      place_end_between [of "i + 1" n "\<lambda>e. \<not> cp_crlf (cp ! e) \<and> \<not> ds_l2_at tab cp n e"] by (auto simp: e2_def ds_l2_at_def)
  define sp where "sp \<longleftrightarrow> cp_space tab (cp ! i) \<and> i + 1 < e2 \<and> cp_ds_punct (cp ! (i + 1))"
  define e3 where "e3 = (if sp \<or> cp_ds_punct (cp ! i) then run_end cp_ds_punct cp e2 (if sp then i + 2 else i + 1)
    else place_end (\<lambda>e. \<not> cp_ds_punct (cp ! e) \<and> \<not> (cp_space tab (cp ! e) \<and> e + 1 < e2 \<and> cp_ds_punct (cp ! (e + 1)))) e2 (i + 1))"
  have e3: "i < e3" "e3 \<le> e2"
    using e2(1) run_end_in [of "i + 1" e2 cp_ds_punct cp] run_end_in [of "i + 2" e2 cp_ds_punct cp]
      place_end_between [of "i + 1" e2 "\<lambda>e. \<not> cp_ds_punct (cp ! e) \<and> \<not> (cp_space tab (cp ! e) \<and> e + 1 < e2 \<and> cp_ds_punct (cp ! (e + 1)))"]
    by (auto simp: e3_def sp_def)
  define p where "p = space_back tab cp i e3"
  define e4 where "e4 = (if p = i \<or> p = e3 then e3 else p)"
  have e4: "i < e4" "e4 \<le> e3" using e3(1) space_back_between [of i e3 tab cp] by (auto simp: e4_def p_def)
  define e5 where "e5 = (if cp_ds_cjk (cp ! i) then run_end cp_ds_cjk cp e4 (i + 1) else run_end (\<lambda>c. \<not> cp_ds_cjk c) cp e4 (i + 1))"
  have e5: "i < e5" "e5 \<le> e4"
    using e4(1) run_end_in [of "i + 1" e4 cp_ds_cjk cp] run_end_in [of "i + 1" e4 "\<lambda>c. \<not> cp_ds_cjk c" cp] by (auto simp: e5_def)
  have "deepseek_llm_split_next tab cp i n = (if cp_digit tab (cp ! i) then i + 1 else run_end (\<lambda>c. \<not> cp_digit tab c) cp e5 (i + 1))"
    unfolding deepseek_llm_split_next_def Let_def e2_def [symmetric] sp_def [symmetric] e3_def [symmetric] p_def [symmetric]
      e4_def [symmetric] e5_def [symmetric] using False by simp
  then show ?thesis
    using i e2(2) e3(2) e4(2) e5 run_end_in [of "i + 1" e5 "\<lambda>c. \<not> cp_digit tab c" cp] by auto
qed (simp add: deepseek_llm_split_next_def)

end
