(* ===== verification/Tok_Encode.thy ===== *)
theory Tok_Encode
  imports Tok_Bpe Tok_Pieces
begin

unbundle bit_operations_syntax

section \<open>Encoding a text and decoding a token (tokenizer.c)\<close>

text \<open>
  \<^verbatim>\<open>bpe_encode_split\<close> cuts a text into pre-tokens with the split rule of the tokenizer, writes the bytes of
  each as the characters of the byte alphabet and merges them; \<^verbatim>\<open>tok_decode\<close> reads the alphabet back.
  \<open>tab\<close> is the generated table of character classes, \<open>alloc n\<close> whether \<^verbatim>\<open>malloc(n)\<close> gives memory. The
  result of an encoder is the ids written so far and \<^verbatim>\<open>tls_encode_oom\<close>.
\<close>

subsection \<open>The byte alphabet\<close>

definition u8_decode :: "bytes \<Rightarrow> nat \<Rightarrow> u32" where
  "u8_decode p len =
    (if len = 2 then push_bit 6 (ucast (p ! 0) AND 0x1F) OR (ucast (p ! 1) AND 0x3F)
     else if len = 3 then push_bit 12 (ucast (p ! 0) AND 0x0F) OR push_bit 6 (ucast (p ! 1) AND 0x3F) OR (ucast (p ! 2) AND 0x3F)
     else if len = 4 then push_bit 18 (ucast (p ! 0) AND 0x07) OR push_bit 12 (ucast (p ! 1) AND 0x3F)
       OR push_bit 6 (ucast (p ! 2) AND 0x3F) OR (ucast (p ! 3) AND 0x3F)
     else ucast (p ! 0))"

definition u8_encode :: "u32 \<Rightarrow> bytes" where
  "u8_encode cp =
    (if cp < 0x80 then [ucast cp]
     else if cp < 0x800 then [ucast (0xC0 OR drop_bit 6 cp), ucast (0x80 OR (cp AND 0x3F))]
     else if cp < 0x10000 then
       [ucast (0xE0 OR drop_bit 12 cp), ucast (0x80 OR (drop_bit 6 cp AND 0x3F)), ucast (0x80 OR (cp AND 0x3F))]
     else
       [ucast (0xF0 OR drop_bit 18 cp), ucast (0x80 OR (drop_bit 12 cp AND 0x3F)),
        ucast (0x80 OR (drop_bit 6 cp AND 0x3F)), ucast (0x80 OR (cp AND 0x3F))])"

text \<open>The loop of \<^verbatim>\<open>tokenizer_init\<close> that sets \<^verbatim>\<open>b2u\<close> and \<^verbatim>\<open>u2b\<close>; the first part is its counter \<^verbatim>\<open>n\<close>.\<close>

definition byte_tables_step :: "nat \<Rightarrow> nat \<times> u32 list \<times> int list \<Rightarrow> nat \<times> u32 list \<times> int list" where
  "byte_tables_step b acc =
    (case acc of (n, b2u, u2b) \<Rightarrow>
      let keep = (b \<ge> 0x21 \<and> b \<le> 0x7E \<or> b \<ge> 0xA1 \<and> b \<le> 0xAC \<or> b \<ge> 0xAE \<and> b \<le> 0xFF);
          cp = (if keep then b else 256 + n)
      in (if keep then n else n + 1, b2u[b := of_nat cp], u2b[cp := int b]))"

definition byte_tables :: "u32 list \<times> int list" where
  "byte_tables = snd (fold byte_tables_step [0..<256] (0, replicate 256 0, replicate 512 (-1)))"

definition byte_char :: "tokenizer \<Rightarrow> u8 \<Rightarrow> bytes" where
  "byte_char t b = u8_encode (t_b2u t ! unat b)"

subsection \<open>The encoders\<close>

text \<open>The code points of the text from \<open>i\<close> on, each with its offset.\<close>

function code_points :: "bytes \<Rightarrow> nat \<Rightarrow> (nat \<times> u32) list" where
  "code_points s i =
    (if i < length s then let l = sym_len s i in (i, u8_decode (take l (drop i s)) l) # code_points s (i + l) else [])"
  by pat_completeness auto
termination
  by (relation "measure (\<lambda>(s, i). length s - i)") (auto simp: sym_len_pos intro: diff_less_mono2)

declare code_points.simps [simp del]

definition split_next :: "uc_table \<Rightarrow> tok_pre \<Rightarrow> u32 list \<Rightarrow> nat \<Rightarrow> nat \<Rightarrow> nat" where
  "split_next tab pre cp ncp i =
    (let max_digits = (if pre = TOK_PRE_LLAMA3 \<or> pre = TOK_PRE_MINICPM5 then 3
           else if pre = TOK_PRE_QWEN2 \<or> pre = TOK_PRE_QWEN35 then 1 else 0);
         marks_join = (pre = TOK_PRE_QWEN35);
         digit_ends = (pre = TOK_PRE_MINICPM5)
     in if pre = TOK_PRE_TEKKEN then tekken_split_next tab cp i ncp
        else if pre = TOK_PRE_LLAMA4 then llama4_split_next tab cp i ncp
        else if max_digits \<noteq> 0 then pre_split_next tab cp i ncp max_digits marks_join digit_ends
        else if pre = TOK_PRE_SMOLLM then smollm_split_next tab cp i ncp
        else if pre = TOK_PRE_AFMOE then afmoe_split_next tab cp i ncp
        else if pre = TOK_PRE_SPARK25 then spark25_split_next tab cp i ncp
        else if pre = TOK_PRE_K2H then k2h_split_next tab cp i ncp
        else if pre = TOK_PRE_FLINT then flint_split_next tab cp i ncp
        else if pre = TOK_PRE_DEEPSEEK_LLM then deepseek_llm_split_next tab cp i ncp
        else gpt2_split_next tab cp i ncp)"

text \<open>The loop over the pre-tokens: \<open>offs\<close> are the offsets of the code points and the length of the text.\<close>

function split_loop :: "(nat \<Rightarrow> nat) \<Rightarrow> (bytes \<Rightarrow> int list \<Rightarrow> (int list \<times> bool) option) \<Rightarrow> (u8 \<Rightarrow> bytes) \<Rightarrow> bytes \<Rightarrow> nat list \<Rightarrow> nat
    \<Rightarrow> nat \<Rightarrow> int list \<Rightarrow> bool \<Rightarrow> (int list \<times> bool) option" where
  "split_loop nextp word bc s offs ncp i out f =
    (if i < ncp then
       let e0 = nextp i; e = (if e0 \<le> i then i + 1 else e0);
           w = concat (map bc (take (offs ! e - offs ! i) (drop (offs ! i) s)))
       in case word w out of None \<Rightarrow> None
        | Some (out', f') \<Rightarrow> split_loop nextp word bc s offs ncp e out' (f \<or> f')
     else Some (out, f))"
  by pat_completeness auto
termination
  by (relation "measure (\<lambda>(nextp, word, bc, s, offs, ncp, i, out, f). ncp - i)") auto

declare split_loop.simps [simp del]

definition bpe_encode_split :: "tokenizer \<Rightarrow> uc_table \<Rightarrow> int \<Rightarrow> (nat \<Rightarrow> bool) \<Rightarrow> bytes \<Rightarrow> nat \<Rightarrow> int list \<Rightarrow> (int list \<times> bool) option" where
  "bpe_encode_split t tab force alloc s cap out =
    (let n = length s
     in if n = 0 then Some (out, False)
        else if n > (2 ^ 64 - 1) div 8 - 2 \<or> n > (2 ^ 64 - 1 - 8) div 2 then Some (out, False)
        else if \<not> alloc (4 * (n + 1)) \<or> \<not> alloc (8 * (n + 2)) \<or> \<not> alloc (n * 2 + 8) then Some (out, True)
        else
          let ps = code_points s 0; cp = map snd ps; offs = map fst ps @ [n]
          in split_loop (split_next tab (t_pre t) cp (length cp)) (\<lambda>w out. bpe_word t force alloc w cap out) (byte_char t) s offs
               (length cp) 0 out False)"

text \<open>Gemma 4: spaces to U+2581, and only runs of newlines apart.\<close>

function newline_runs :: "(bytes \<Rightarrow> int list \<Rightarrow> (int list \<times> bool) option) \<Rightarrow> bytes \<Rightarrow> int list \<Rightarrow> bool \<Rightarrow> (int list \<times> bool) option" where
  "newline_runs word s out f =
    (if s = [] then Some (out, f)
     else
       let nl = (hd s = 0x0A); run = takeWhile (\<lambda>c. (c = 0x0A) = nl) s
       in case word run out of None \<Rightarrow> None
        | Some (out', f') \<Rightarrow> newline_runs word (drop (length run) s) out' (f \<or> f'))"
  by pat_completeness auto
termination
  by (relation "measure (\<lambda>(word, s, out, f). length s)") (auto simp: neq_Nil_conv)

declare newline_runs.simps [simp del]

definition bpe_spm_encode_text :: "tokenizer \<Rightarrow> int \<Rightarrow> (nat \<Rightarrow> bool) \<Rightarrow> bytes \<Rightarrow> nat \<Rightarrow> int list \<Rightarrow> (int list \<times> bool) option" where
  "bpe_spm_encode_text t force alloc s cap out =
    (let n = length s
     in if n = 0 then Some (out, False)
        else if n > (2 ^ 64 - 1 - 4) div 3 then Some (out, True)
        else if \<not> alloc (n * 3 + 4) then Some (out, True)
        else newline_runs (\<lambda>w out. bpe_word t force alloc w cap out) (mark_spaces s) out False)"

text \<open>
  \<^verbatim>\<open>tok_encode_raw\<close>: the outer \<open>None\<close> would be a loop that does not end, the inner one is -1.
\<close>

definition tok_encode_raw :: "tokenizer \<Rightarrow> uc_table \<Rightarrow> int \<Rightarrow> (nat \<Rightarrow> bool) \<Rightarrow> bytes \<Rightarrow> nat \<Rightarrow> int list option option" where
  "tok_encode_raw t tab force alloc s cap =
    (if s = [] then Some (Some [])
     else map_option (\<lambda>(ids, oom). if oom then None else Some ids)
       (case t_model t of
          TOK_SPM \<Rightarrow> spm_encode_text t force alloc s cap [] False
        | TOK_BPE_SPM \<Rightarrow> bpe_spm_encode_text t force alloc s cap []
        | TOK_BPE \<Rightarrow> bpe_encode_split t tab force alloc s cap []))"

subsection \<open>Decoding\<close>

definition TT_CONTROL :: int where "TT_CONTROL = 3"
definition TT_UNUSED :: int where "TT_UNUSED = 5"
definition TT_BYTE :: int where "TT_BYTE = 6"

definition token_type :: "tokenizer \<Rightarrow> nat \<Rightarrow> int" where
  "token_type t i = (case t_ttype t of None \<Rightarrow> TT_NORMAL | Some ty \<Rightarrow> ty ! i)"

definition decode_char :: "tokenizer \<Rightarrow> nat \<Rightarrow> bytes \<Rightarrow> bytes" where
  "decode_char t room p =
    (let c = u8_decode p (length p)
     in if c < 512 \<and> t_u2b t ! unat c \<ge> 0 then [of_int (t_u2b t ! unat c)] else take room p)"

function decode_chars :: "tokenizer \<Rightarrow> nat \<Rightarrow> bytes \<Rightarrow> bytes \<Rightarrow> bytes" where
  "decode_chars t cap s buf =
    (if s \<noteq> [] \<and> length buf < cap then
       let l = sym_len s 0 in decode_chars t cap (drop l s) (buf @ decode_char t (cap - length buf) (take l s))
     else buf)"
  by pat_completeness auto
termination
  by (relation "measure (\<lambda>(t, cap, s, buf). length s)") (use sym_len_pos in \<open>auto intro: diff_less\<close>)

declare decode_chars.simps [simp del]

text \<open>The marks of spaces back to spaces; three bytes of the buffer stay free.\<close>

fun decode_marks :: "nat \<Rightarrow> bytes \<Rightarrow> bytes \<Rightarrow> bytes" where
  "decode_marks cap s buf =
    (if s \<noteq> [] \<and> length buf + 3 < cap then
       if take 3 s = SPACE_MARK then decode_marks cap (drop 3 s) (buf @ [0x20]) else decode_marks cap (tl s) (buf @ [hd s])
     else buf)"

declare decode_marks.simps [simp del]

text \<open>\<^verbatim>\<open>(char)strtol(s, NULL, 16)\<close> of the C library, on the bytes up to the end of the token.\<close>

definition hex_value :: "u8 \<Rightarrow> nat option" where
  "hex_value c =
    (if c \<ge> 0x30 \<and> c \<le> 0x39 then Some (unat c - 0x30)
     else if c \<ge> 0x41 \<and> c \<le> 0x46 then Some (unat c - 0x41 + 10)
     else if c \<ge> 0x61 \<and> c \<le> 0x66 then Some (unat c - 0x61 + 10) else None)"

fun hex_prefix :: "nat \<Rightarrow> bytes \<Rightarrow> nat" where
  "hex_prefix acc [] = acc"
| "hex_prefix acc (c # s) = (case hex_value c of None \<Rightarrow> acc | Some d \<Rightarrow> hex_prefix (16 * acc + d) s)"

definition strtol16 :: "bytes \<Rightarrow> u8" where
  "strtol16 s =
    (let s = dropWhile (\<lambda>c. c = 0x20 \<or> c \<ge> 0x09 \<and> c \<le> 0x0D) s;
         neg = (s \<noteq> [] \<and> hd s = 0x2D);
         s = (if s \<noteq> [] \<and> (hd s = 0x2D \<or> hd s = 0x2B) then tl s else s);
         s = (if length s > 2 \<and> hd s = 0x30 \<and> (s ! 1 = 0x78 \<or> s ! 1 = 0x58) \<and> hex_value (s ! 2) \<noteq> None then drop 2 s else s)
     in if neg then - of_nat (hex_prefix 0 s) else of_nat (hex_prefix 0 s))"

definition tok_decode :: "tokenizer \<Rightarrow> int \<Rightarrow> nat \<Rightarrow> bytes" where
  "tok_decode t i cap =
    (if i < 0 \<or> i \<ge> int (length (t_tokens t)) then []
     else
       let tt = token_type t (nat i); tok = t_tokens t ! nat i
       in if tt = TT_CONTROL \<or> tt = TT_UNUSED then []
          else if t_model t = TOK_SPM \<or> t_model t = TOK_BPE_SPM then
            if tt = TT_BYTE then if length tok = 6 \<and> cap \<ge> 1 then [strtol16 (drop 3 tok)] else []
            else decode_marks cap tok []
          else decode_chars t cap tok [])"

subsection \<open>The pre-tokens make up the text\<close>

lemma cuts_inside: "cuts r u i j \<Longrightarrow> length u \<le> n - i \<Longrightarrow> i < n \<Longrightarrow> i < j \<and> j \<le> n"
  by (auto simp: cuts_def)

lemma split_next_inside:
  assumes i: "i < length cp"
  shows "i < split_next tab pre cp (length cp) i \<and> split_next tab pre cp (length cp) i \<le> length cp"
proof -
  note v = sees_end [OF less_imp_le [OF i]] and s = rest_Cons [OF i]
  have c: "i < j \<and> j \<le> length cp" if "first_match r (drop i cp) = Some (j - i) \<and> i < j" for r j
    using cuts_inside [OF cutsI [OF that] _ i] by simp
  have d: "i < j \<and> j \<le> length cp" if "first_match r (to_digit tab (drop i cp)) = Some (j - i) \<and> i < j" for r j
    using cuts_inside [OF cutsI [OF that] _ i] length_takeWhile_le [of _ "drop i cp"] by (simp add: to_digit_def)
  have ll: "i < pre_split_next tab cp i (length cp) m marks False \<and> pre_split_next tab cp i (length cp) m marks False \<le> length cp" if "0 < m" for m marks
    by (rule c, rule pre_split_match [OF v s that refl refl])
  have mini: "i < pre_split_next tab cp i (length cp) 3 False True \<and> pre_split_next tab cp i (length cp) 3 False True \<le> length cp"
  proof (cases "cp_digit tab (cp ! i)")
    case True
    then have "pre_split_next tab cp i (length cp) 3 False True = pre_split_next tab cp i (length cp) 3 False False"
      by (simp add: pre_split_next_def Let_def)
    then show ?thesis using ll [of 3 False] by simp
  next
    case False
    have "0 < (3 :: nat)" by simp
    from digit_piece_match [OF v s this False] show ?thesis by (rule d)
  qed
  have gpt: "i < gpt2_split_next tab cp i (length cp) \<and> gpt2_split_next tab cp i (length cp) \<le> length cp"
    by (rule c, rule gpt2_match [OF v s])
  have smol: "i < smollm_split_next tab cp i (length cp) \<and> smollm_split_next tab cp i (length cp) \<le> length cp"
  proof (cases "cp_digit tab (cp ! i)")
    case True
    then show ?thesis using i by (simp add: smollm_split_next_def)
  next
    case False
    from smollm_match [OF v s this] show ?thesis by (rule d)
  qed
  show ?thesis
    using c [OF tekken_match [OF v s]] c [OF llama4_match [OF v s]] c [OF k2h_match [OF v s]] ll mini gpt smol
      afmoe_inside [OF i] spark25_inside [OF i] flint_inside [OF i order_refl] deepseek_inside [OF i]
    by (cases pre) (simp_all add: split_next_def)
qed

text \<open>The pieces the loop cuts.\<close>

function pre_tokens :: "(nat \<Rightarrow> nat) \<Rightarrow> bytes \<Rightarrow> nat list \<Rightarrow> nat \<Rightarrow> nat \<Rightarrow> bytes list" where
  "pre_tokens nextp s offs ncp i =
    (if i < ncp then
       let e0 = nextp i; e = (if e0 \<le> i then i + 1 else e0)
       in take (offs ! e - offs ! i) (drop (offs ! i) s) # pre_tokens nextp s offs ncp e
     else [])"
  by pat_completeness auto
termination
  by (relation "measure (\<lambda>(nextp, s, offs, ncp, i). ncp - i)") auto

declare pre_tokens.simps [simp del]

lemma code_points_offsets:
  "i < length s \<Longrightarrow> sorted (map fst (code_points s i)) \<and> (\<forall>k \<in> set (map fst (code_points s i)). i \<le> k \<and> k \<le> length s)
    \<and> code_points s i \<noteq> [] \<and> fst (hd (code_points s i)) = i"
proof (induction s i rule: code_points.induct)
  case (1 s i)
  let ?l = "sym_len s i"
  have l: "0 < ?l" "i + ?l \<le> length s" using sym_len_pos 1(2) by (auto simp: sym_len_def Let_def)
  have c: "code_points s i = (i, u8_decode (take ?l (drop i s)) ?l) # code_points s (i + ?l)"
    using 1(2) by (subst code_points.simps) (simp add: Let_def)
  show ?case
  proof (cases "i + ?l < length s")
    case True
    then show ?thesis using 1(1) [OF 1(2) refl True] 1(2) l unfolding c by fastforce
  next
    case False
    then have "code_points s (i + ?l) = []" by (subst code_points.simps) simp
    then show ?thesis using 1(2) unfolding c by simp
  qed
qed

lemma pre_tokens_concat:
  assumes s: "sorted offs" "length offs = Suc ncp" "offs ! ncp = length s" and n: "\<And>i. i < ncp \<Longrightarrow> i < nextp i \<and> nextp i \<le> ncp"
  shows "i \<le> ncp \<Longrightarrow> concat (pre_tokens nextp s offs ncp i) = drop (offs ! i) s"
proof (induction "ncp - i" arbitrary: i rule: less_induct)
  case less
  show ?case
  proof (cases "i < ncp")
    case True
    note e = n [OF True]
    have o: "offs ! i \<le> offs ! nextp i" using s(1,2) e by (intro sorted_nth_mono) auto
    have "pre_tokens nextp s offs ncp i = take (offs ! nextp i - offs ! i) (drop (offs ! i) s) # pre_tokens nextp s offs ncp (nextp i)"
      using True e by (subst pre_tokens.simps) (simp add: Let_def)
    moreover have "concat (pre_tokens nextp s offs ncp (nextp i)) = drop (offs ! nextp i) s"
      using e True by (intro less) (simp_all add: diff_less_mono2)
    moreover have "drop (offs ! nextp i) s = drop (offs ! nextp i - offs ! i) (drop (offs ! i) s)" using o by simp
    ultimately show ?thesis by (metis append_take_drop_id concat.simps(2))
  next
    case False
    then show ?thesis using less s(3) by (subst pre_tokens.simps) simp
  qed
qed

definition text_pre_tokens :: "tokenizer \<Rightarrow> uc_table \<Rightarrow> bytes \<Rightarrow> bytes list" where
  "text_pre_tokens t tab s =
    (let ps = code_points s 0 in pre_tokens (split_next tab (t_pre t) (map snd ps) (length ps)) s (map fst ps @ [length s]) (length ps) 0)"

lemma text_pre_tokens_concat: "s \<noteq> [] \<Longrightarrow> concat (text_pre_tokens t tab s) = s"
proof -
  assume "s \<noteq> []"
  then have c: "sorted (map fst (code_points s 0))" "\<forall>k \<in> set (map fst (code_points s 0)). k \<le> length s"
    "code_points s 0 \<noteq> []" "fst (hd (code_points s 0)) = 0" using code_points_offsets [of 0 s] by auto
  let ?ps = "code_points s 0"
  have "concat (pre_tokens (split_next tab (t_pre t) (map snd ?ps) (length ?ps)) s (map fst ?ps @ [length s]) (length ?ps) 0)
      = drop ((map fst ?ps @ [length s]) ! 0) s"
  proof (rule pre_tokens_concat)
    show "sorted (map fst ?ps @ [length s])" using c(1,2) by (auto simp: sorted_append)
    show "(map fst ?ps @ [length s]) ! length ?ps = length s" by (simp add: nth_append)
    show "i < split_next tab (t_pre t) (map snd ?ps) (length ?ps) i \<and> split_next tab (t_pre t) (map snd ?ps) (length ?ps) i \<le> length ?ps"
      if "i < length ?ps" for i using split_next_inside [of i "map snd ?ps" tab "t_pre t"] that by simp
  qed simp_all
  moreover have "(map fst ?ps @ [length s]) ! 0 = 0" using c(3,4) by (simp add: nth_append hd_conv_nth)
  ultimately show ?thesis by (simp add: text_pre_tokens_def Let_def)
qed

subsection \<open>The ids\<close>

definition word_ids :: "tokenizer \<Rightarrow> bytes \<Rightarrow> int list" where
  "word_ids t w = concat (map (bpe_piece_ids t) (bpe_pieces t w))"

lemma word_fill:
  "small_ranks t \<Longrightarrow> case bpe_word t force alloc w cap out of None \<Rightarrow> False
    | Some (r, oom) \<Rightarrow> if oom then \<exists>n. \<not> alloc n else r = fill cap (word_ids t w) out"
  using bpe_word_fills [where t = t and w = w and force = force and alloc = alloc and cap = cap and out = out] by (auto simp: word_ids_def fill_def split: option.splits prod.splits)

text \<open>What a run over words gives, and the two loops that run over words.\<close>

definition run_gives :: "nat \<Rightarrow> (bytes \<Rightarrow> int list) \<Rightarrow> bool \<Rightarrow> bytes list \<Rightarrow> int list \<Rightarrow> bool \<Rightarrow> (int list \<times> bool) option \<Rightarrow> bool" where
  "run_gives cap g bad ws out f res \<longleftrightarrow>
    (case res of None \<Rightarrow> False
     | Some (r, oom) \<Rightarrow> if oom then f \<or> bad else \<not> f \<and> r = fill cap (concat (map g ws)) out)"

lemma run_gives_Nil: "run_gives cap g bad [] out f (Some (out, f))"
  by (simp add: run_gives_def)

lemma run_gives_Cons:
  assumes "case wd of None \<Rightarrow> False | Some (r, oom) \<Rightarrow> if oom then bad else r = fill cap (g w) out"
    and "\<And>r f'. wd = Some (r, f') \<Longrightarrow> run_gives cap g bad ws r (f \<or> f') (k r (f \<or> f'))"
  shows "run_gives cap g bad (w # ws) out f (case wd of None \<Rightarrow> None | Some (r, f') \<Rightarrow> k r (f \<or> f'))"
proof -
  obtain r f' where w: "wd = Some (r, f')" using assms(1) by (cases wd) auto
  from assms(2) [OF w] obtain r' f'' where k: "k r (f \<or> f') = Some (r', f'')"
    "if f'' then (f \<or> f') \<or> bad else \<not> (f \<or> f') \<and> r' = fill cap (concat (map g ws)) r"
    by (auto simp: run_gives_def split: option.splits)
  have "f' \<Longrightarrow> bad" "\<not> f' \<Longrightarrow> r = fill cap (g w) out" using assms(1) w by auto
  then show ?thesis using w k by (cases f''; cases f') (simp_all add: run_gives_def)
qed

lemma split_loop_gives:
  assumes "\<And>w out. case word w out of None \<Rightarrow> False | Some (r, oom) \<Rightarrow> if oom then bad else r = fill cap (g w) out"
  shows "run_gives cap g bad (map (\<lambda>p. concat (map bc p)) (pre_tokens nextp s offs ncp i)) out f (split_loop nextp word bc s offs ncp i out f)"
  using assms
proof (induction nextp word bc s offs ncp i out f rule: split_loop.induct)
  case (1 nextp word bc s offs ncp i out f)
  show ?case
  proof (cases "i < ncp")
    case True
    define e where "e = (if nextp i \<le> i then i + 1 else nextp i)"
    define w where "w = concat (map bc (take (offs ! e - offs ! i) (drop (offs ! i) s)))"
    have p: "map (\<lambda>p. concat (map bc p)) (pre_tokens nextp s offs ncp i) = w # map (\<lambda>p. concat (map bc p)) (pre_tokens nextp s offs ncp e)"
      using True by (subst pre_tokens.simps) (simp add: Let_def e_def w_def)
    have l: "split_loop nextp word bc s offs ncp i out f
        = (case word w out of None \<Rightarrow> None | Some (r, f') \<Rightarrow> split_loop nextp word bc s offs ncp e r (f \<or> f'))"
      unfolding e_def w_def by (subst split_loop.simps) (simp only: Let_def if_P [OF True])
    show ?thesis
      unfolding p l using 1(1) [OF True refl e_def w_def _ refl 1(2)] 1(2) by (intro run_gives_Cons) auto
  next
    case False
    then show ?thesis by (subst split_loop.simps, subst pre_tokens.simps) (simp add: run_gives_Nil)
  qed
qed

text \<open>The runs of newlines and of other characters.\<close>

function line_runs :: "bytes \<Rightarrow> bytes list" where
  "line_runs s = (if s = [] then [] else let run = takeWhile (\<lambda>c. (c = 0x0A) = (hd s = 0x0A)) s in run # line_runs (drop (length run) s))"
  by pat_completeness auto
termination
  by (relation "measure length") (auto simp: neq_Nil_conv)

declare line_runs.simps [simp del]

lemma newline_runs_gives:
  assumes "\<And>w out. case word w out of None \<Rightarrow> False | Some (r, oom) \<Rightarrow> if oom then bad else r = fill cap (g w) out"
  shows "run_gives cap g bad (line_runs s) out f (newline_runs word s out f)"
  using assms
proof (induction word s out f rule: newline_runs.induct)
  case (1 word s out f)
  show ?case
  proof (cases "s = []")
    case False
    define run where "run = takeWhile (\<lambda>c. (c = 0x0A) = (hd s = 0x0A)) s"
    have p: "line_runs s = run # line_runs (drop (length run) s)" using False by (subst line_runs.simps) (simp add: Let_def run_def)
    have l: "newline_runs word s out f = (case word run out of None \<Rightarrow> None | Some (r, f') \<Rightarrow> newline_runs word (drop (length run) s) r (f \<or> f'))"
      unfolding run_def by (subst newline_runs.simps) (simp only: Let_def if_not_P [OF False])
    show ?thesis
      unfolding p l using 1(1) [OF False refl run_def _ refl 1(2)] 1(2) by (intro run_gives_Cons) auto
  next
    case True
    then show ?thesis by (subst newline_runs.simps, subst line_runs.simps) (simp add: run_gives_Nil)
  qed
qed

lemma line_runs_concat: "concat (line_runs s) = s"
proof (induction s rule: line_runs.induct)
  case (1 s)
  show ?case
  proof (cases "s = []")
    case True
    then show ?thesis by (subst line_runs.simps) simp
  next
    case False
    define run where "run = takeWhile (\<lambda>c. (c = 0x0A) = (hd s = 0x0A)) s"
    have "concat (line_runs (drop (length run) s)) = drop (length run) s" by (rule 1 [OF False run_def])
    moreover have "line_runs s = run # line_runs (drop (length run) s)"
      unfolding run_def by (subst line_runs.simps) (simp only: Let_def if_not_P [OF False])
    moreover have "run @ drop (length run) s = s" by (simp add: run_def flip: dropWhile_eq_drop)
    ultimately show ?thesis by (metis concat.simps(2))
  qed
qed

lemma bpe_encode_gives:
  assumes "small_ranks t" "length s < 2 ^ 60"
  shows "concat (text_pre_tokens t tab s) = s \<and>
   (case bpe_encode_split t tab force alloc s cap out of
      None \<Rightarrow> False
    | Some (r, oom) \<Rightarrow>
      if oom then \<exists>n. \<not> alloc n
      else r = out @ take (cap - length out) (concat (map (\<lambda>p. word_ids t (concat (map (byte_char t) p))) (text_pre_tokens t tab s))))"
proof (cases "s = []")
  case True
  then have "text_pre_tokens t tab s = []" by (simp add: text_pre_tokens_def Let_def code_points.simps pre_tokens.simps)
  then show ?thesis using True by (simp add: bpe_encode_split_def Let_def)
next
  case False
  let ?n = "length s" and ?ps = "code_points s 0"
  have n: "\<not> ?n > (2 ^ 64 - 1) div 8 - 2" "\<not> ?n > (2 ^ 64 - 1 - 8) div 2" using assms(2) by simp_all
  have c: "concat (text_pre_tokens t tab s) = s" by (rule text_pre_tokens_concat [OF False])
  show ?thesis
  proof (cases "alloc (4 * (?n + 1)) \<and> alloc (8 * (?n + 2)) \<and> alloc (?n * 2 + 8)")
    case True
    have e: "bpe_encode_split t tab force alloc s cap out = split_loop (split_next tab (t_pre t) (map snd ?ps) (length ?ps))
        (\<lambda>w out. bpe_word t force alloc w cap out) (byte_char t) s (map fst ?ps @ [?n]) (length ?ps) 0 out False"
      using True False n by (simp add: bpe_encode_split_def Let_def)
    have "run_gives cap (word_ids t) (\<exists>n. \<not> alloc n) (map (\<lambda>p. concat (map (byte_char t) p)) (text_pre_tokens t tab s)) out False
        (bpe_encode_split t tab force alloc s cap out)"
      unfolding e text_pre_tokens_def Let_def by (rule split_loop_gives) (rule word_fill [OF assms(1)])
    then show ?thesis using c by (simp add: run_gives_def fill_def comp_def split: option.splits prod.splits if_splits)
  next
    case fails: False
    then have "bpe_encode_split t tab force alloc s cap out = Some (out, True)"
      using False n by (auto simp: bpe_encode_split_def Let_def)
    then show ?thesis using c fails by auto
  qed
qed

text \<open>
  Property C18. Encoding a text is exact, for every split rule, table of character classes, merge loop and
  pattern of failing allocations. The pre-tokens the loop over the text cuts make up the text, and the loop
  returns: either the flag says that memory ran out, and some allocation did fail, or what is appended is,
  cut to the room there is, the ids of the pre-tokens in their order, each written in the byte alphabet
  and merged by rank. The ranks are below \<open>2 ^ 24\<close>, where a float holds them.
\<close>

theorem bpe_encode_exact:
  assumes "small_ranks t" "length s < 2 ^ 60"
  shows "concat (text_pre_tokens t tab s) = s \<and>
   (case bpe_encode_split t tab force alloc s cap out of
      None \<Rightarrow> False
    | Some (r, oom) \<Rightarrow>
      if oom then \<exists>n. \<not> alloc n
      else r = out @ take (cap - length out) (concat (map (\<lambda>p. word_ids t (concat (map (byte_char t) p))) (text_pre_tokens t tab s))))"
  by (rule bpe_encode_gives [OF assms])

subsection \<open>Reading the alphabet back\<close>

definition alphabet :: "tokenizer \<Rightarrow> bool" where
  "alphabet t \<longleftrightarrow> t_b2u t = fst byte_tables \<and> t_u2b t = snd byte_tables"

definition kept :: "nat \<Rightarrow> bool" where
  "kept b \<longleftrightarrow> b \<ge> 0x21 \<and> b \<le> 0x7E \<or> b \<ge> 0xA1 \<and> b \<le> 0xAC \<or> b \<ge> 0xAE \<and> b \<le> 0xFF"

text \<open>The code point of a byte: its own, or the next free one from 256 on.\<close>

definition byte_code :: "nat \<Rightarrow> nat" where
  "byte_code b = (if kept b then b else 256 + card {x. x < b \<and> \<not> kept x})"

lemma moved_mono: "x < y \<Longrightarrow> \<not> kept x \<Longrightarrow> card {z. z < x \<and> \<not> kept z} < card {z. z < y \<and> \<not> kept z}"
  by (rule psubset_card_mono) auto

lemma byte_code_inj: "x \<noteq> y \<Longrightarrow> x < 256 \<Longrightarrow> y < 256 \<Longrightarrow> byte_code x \<noteq> byte_code y"
  using moved_mono [of x y] moved_mono [of y x] by (cases x y rule: linorder_cases) (auto simp: byte_code_def)

lemma byte_code_less: "b < 256 \<Longrightarrow> byte_code b < 512"
proof -
  have "card {x. x < b \<and> \<not> kept x} \<le> card {..<b}" by (rule card_mono) auto
  then show "b < 256 \<Longrightarrow> byte_code b < 512" by (simp add: byte_code_def)
qed

lemma byte_tables_upto:
  "m \<le> 256 \<Longrightarrow> \<exists>b2u u2b. fold byte_tables_step [0..<m] (0, replicate 256 0, replicate 512 (-1))
      = (card {x. x < m \<and> \<not> kept x}, b2u, u2b)
    \<and> length b2u = 256 \<and> length u2b = 512 \<and> (\<forall>b < m. b2u ! b = of_nat (byte_code b) \<and> u2b ! byte_code b = int b)"
proof (induction m)
  case 0
  then show ?case by simp
next
  case (Suc m)
  then obtain b2u u2b where f: "fold byte_tables_step [0..<m] (0, replicate 256 0, replicate 512 (-1)) = (card {x. x < m \<and> \<not> kept x}, b2u, u2b)"
    and l: "length b2u = 256" "length u2b = 512" and v: "\<forall>b < m. b2u ! b = of_nat (byte_code b) \<and> u2b ! byte_code b = int b" by auto
  have "{x. x < Suc m \<and> \<not> kept x} = (if kept m then {x. x < m \<and> \<not> kept x} else insert m {x. x < m \<and> \<not> kept x})"
    by (auto simp: less_Suc_eq)
  then have n: "card {x. x < Suc m \<and> \<not> kept x} = (if kept m then card {x. x < m \<and> \<not> kept x} else Suc (card {x. x < m \<and> \<not> kept x}))"
    by simp
  have "fold byte_tables_step [0..<Suc m] (0, replicate 256 0, replicate 512 (-1))
      = (card {x. x < Suc m \<and> \<not> kept x}, b2u[m := of_nat (byte_code m)], u2b[byte_code m := int m])"
    unfolding n by (simp add: f byte_tables_step_def kept_def [symmetric] byte_code_def)
  moreover have "byte_code b \<noteq> byte_code m \<and> byte_code m \<noteq> byte_code b" if "b < m" for b
    using byte_code_inj [of b m] that Suc.prems by simp
  moreover have "byte_code m < 512" using byte_code_less Suc.prems by simp
  ultimately show ?case using l v Suc.prems by (auto simp: less_Suc_eq nth_list_update)
qed

lemma byte_tables_nth: "b < 256 \<Longrightarrow> fst byte_tables ! b = of_nat (byte_code b) \<and> snd byte_tables ! byte_code b = int b"
  using byte_tables_upto [of 256] by (auto simp: byte_tables_def)

definition code_ok :: "nat \<Rightarrow> bool" where
  "code_ok k \<longleftrightarrow> (let p = u8_encode (of_nat k) in p \<noteq> [] \<and> u8_len (hd p) = length p \<and> u8_decode p (length p) = of_nat k)"

lemma byte_masks: "(0x1F :: u32) = mask 5" "(0x3F :: u32) = mask 6" "(0xE0 :: u8) = push_bit 5 (mask 3)" "(0xC0 :: u8) = push_bit 6 (mask 2)" "(0xC0 :: u32) = push_bit 6 (mask 2)"
  by (simp_all add: mask_eq_exp_minus_1)

lemma bit_80: "bit (0x80 :: int) n \<longleftrightarrow> n = 7"
  using bit_exp_iff [of 7 n, where ?'a = int] by auto

lemma unat_bits: "unat (w :: 'a::len word) < 2 ^ k \<Longrightarrow> bit w n \<Longrightarrow> n < k"
proof -
  assume "unat w < 2 ^ k" and b: "bit w n"
  then have "take_bit k (unat w) = unat w" by (simp add: take_bit_nat_eq_self)
  moreover have "bit (unat w) n" using b by (simp add: bit_unsigned_iff)
  ultimately show ?thesis by (metis bit_take_bit_iff)
qed

lemma decode_two: "unat (c::u32) < 2 ^ 11 \<Longrightarrow> u8_decode [ucast (0xC0 OR drop_bit 6 c), ucast (0x80 OR (c AND 0x3F))] 2 = c"
proof -
  assume "unat c < 2 ^ 11"
  then have h: "bit c n \<Longrightarrow> n < 11" for n by (rule unat_bits)
  show ?thesis
  proof (rule bit_word_eqI)
    fix n assume "n < LENGTH(32)"
    show "bit (u8_decode [ucast (0xC0 OR drop_bit 6 c), ucast (0x80 OR (c AND 0x3F))] 2) n = bit c n"
    proof (cases "n < 6")
      case True
      then show ?thesis unfolding u8_decode_def byte_masks by (simp add: bit_simps bit_mask_iff bit_80)
    next
      case False
      then obtain m where "n = 6 + m" using le_Suc_ex [of 6 n] by auto
      then show ?thesis unfolding u8_decode_def byte_masks using h [of "6 + m"] by (auto simp: bit_simps bit_mask_iff bit_80)
    qed
  qed
qed

lemma lead_two: "unat (c::u32) < 2 ^ 11 \<Longrightarrow> (ucast (0xC0 OR drop_bit 6 c) :: u8) AND 0xE0 = 0xC0"
proof -
  assume "unat c < 2 ^ 11"
  then have h: "bit c n \<Longrightarrow> n < 11" for n by (rule unat_bits)
  show ?thesis unfolding byte_masks by (rule bit_word_eqI) (auto simp: bit_simps bit_mask_iff dest!: h)
qed

lemma lead_high: "\<not> (ucast (0xC0 OR drop_bit 6 (c::u32)) :: u8) < 0x80"
proof
  assume a: "(ucast (0xC0 OR drop_bit 6 c) :: u8) < 0x80"
  then have "unat (ucast (0xC0 OR drop_bit 6 c) :: u8) < 2 ^ 7" by (simp add: word_less_nat_alt)
  moreover have "bit (ucast (0xC0 OR drop_bit 6 c) :: u8) 7" unfolding byte_masks by (simp add: bit_simps bit_mask_iff)
  ultimately show False using unat_bits by blast
qed

lemma decode_one: "unat (c::u32) < 2 ^ 7 \<Longrightarrow> ucast (ucast c :: u8) = c \<and> (ucast c :: u8) < 0x80"
proof
  assume a: "unat c < 2 ^ 7"
  then have h: "bit c n \<Longrightarrow> n < 7" for n by (rule unat_bits)
  show "ucast (ucast c :: u8) = c" by (intro bit_word_eqI) (auto simp: bit_simps dest: h)
  have "take_bit 8 (unat c) = unat c" using a by (simp add: take_bit_nat_eq_self)
  then show "(ucast c :: u8) < 0x80" using a by (simp add: word_less_nat_alt unsigned_ucast_eq)
qed

lemma codes_ok: "k < 0x800 \<Longrightarrow> code_ok k"
proof -
  assume k: "k < 0x800"
  let ?c = "of_nat k :: u32"
  have u: "unat ?c = k" using k by (simp add: unat_of_nat)
  show ?thesis
  proof (cases "k < 0x80")
    case True
    then have "unat ?c < 2 ^ 7" "?c < 0x80" using u by (simp_all add: word_less_nat_alt)
    then show ?thesis using decode_one [of ?c] by (simp add: code_ok_def u8_encode_def u8_len_def u8_decode_def)
  next
    case False
    then have "unat ?c < 2 ^ 11" "\<not> ?c < 0x80" "?c < 0x800" using k u by (simp_all add: word_less_nat_alt)
    then show ?thesis using decode_two [of ?c] lead_two [of ?c] lead_high [of ?c] by (simp add: code_ok_def u8_encode_def u8_len_def numeral_2_eq_2)
  qed
qed

lemma byte_char_ok:
  assumes "alphabet t"
  shows "byte_char t b \<noteq> []" "u8_len (hd (byte_char t b)) = length (byte_char t b)" "0 < room \<Longrightarrow> decode_char t room (byte_char t b) = [b]"
proof -
  have b: "unat b < 256" using unsigned_less [of b, where ?'a = nat] by simp
  have k: "byte_code (unat b) < 512" by (rule byte_code_less [OF b])
  then have "code_ok (byte_code (unat b))" by (intro codes_ok) simp
  moreover have "unat (of_nat (byte_code (unat b)) :: u32) = byte_code (unat b)" using k by (simp add: unat_of_nat)
  moreover from this k have "(of_nat (byte_code (unat b)) :: u32) < 512" by (simp add: word_less_nat_alt)
  ultimately show "byte_char t b \<noteq> []" "u8_len (hd (byte_char t b)) = length (byte_char t b)"
    "0 < room \<Longrightarrow> decode_char t room (byte_char t b) = [b]"
    using byte_tables_nth [OF b] assms by (simp_all add: code_ok_def byte_char_def decode_char_def alphabet_def Let_def)
qed

definition spelled :: "tokenizer \<Rightarrow> bytes \<Rightarrow> bytes" where
  "spelled t bs = concat (map (byte_char t) bs)"

lemma spelled_simps [simp]:
  "spelled t [] = []" "spelled t (b # bs) = byte_char t b @ spelled t bs" "spelled t (xs @ ys) = spelled t xs @ spelled t ys"
  by (simp_all add: spelled_def)

lemma spelled_concat: "spelled t (concat bss) = concat (map (spelled t) bss)"
  by (induction bss) simp_all

lemma char_pieces_spelled: "alphabet t \<Longrightarrow> char_pieces (spelled t bs) = map (byte_char t) bs"
proof (induction bs)
  case (Cons b bs)
  then show ?case using byte_char_ok(1,2) [of t b] by (subst char_pieces.simps) (simp add: Let_def)
qed simp

lemma cut_chars_spelled: "alphabet t \<Longrightarrow> cut_chars (spelled t bs) = map (byte_char t) bs"
proof (induction bs)
  case Nil
  then show ?case by (subst cut_chars.simps) simp
next
  case (Cons b bs)
  then show ?case using byte_char_ok(1,2) [of t b] by (subst cut_chars.simps) (simp add: Let_def)
qed

lemma decode_spelled: "alphabet t \<Longrightarrow> length buf + length bs \<le> cap \<Longrightarrow> decode_chars t cap (spelled t bs) buf = buf @ bs"
proof (induction bs arbitrary: buf)
  case Nil
  then show ?case by (subst decode_chars.simps) simp
next
  case (Cons b bs)
  have l: "sym_len (spelled t (b # bs)) 0 = length (byte_char t b)"
    using byte_char_ok(1,2) [OF Cons.prems(1), of b] by (simp add: sym_len_def nth_append hd_conv_nth)
  have "decode_chars t cap (spelled t (b # bs)) buf = decode_chars t cap (spelled t bs) (buf @ [b])"
    using Cons.prems byte_char_ok(1,3) [OF Cons.prems(1), where b = b] l by (subst decode_chars.simps) (simp add: Let_def)
  then show ?case using Cons by simp
qed

lemma spelled_inj: "alphabet t \<Longrightarrow> spelled t xs = spelled t ys \<Longrightarrow> xs = ys"
  by (metis append_Nil decode_spelled le_add1 le_add2 list.size(3) plus_nat.add_0)

text \<open>What joining pieces keeps.\<close>

lemma merge_keeps:
  assumes "\<And>x y. Q x \<Longrightarrow> Q y \<Longrightarrow> Q (x @ y)"
  shows "\<forall>p \<in> set ps. Q p \<Longrightarrow> \<forall>p \<in> set (merge_pieces key ps). Q p"
proof (induction key ps rule: merge_pieces.induct)
  case (1 key ps)
  show ?case
  proof (cases "best_pair key ps")
    case (Some m)
    have m: "Suc m < length ps" using best_pair_less [OF Some] by simp
    have "\<forall>p \<in> set (join_at m ps). Q p"
      using 1(2) assms m by (auto simp: join_at_def dest: in_set_takeD in_set_dropD)
    then show ?thesis using 1(1) [OF Some] Some by (subst merge_pieces.simps) simp
  qed (use 1(2) in \<open>subst merge_pieces.simps, simp\<close>)
qed

lemma pieces_spelled:
  assumes "alphabet t" "p \<in> set (bpe_pieces t (spelled t bs))"
  shows "\<exists>xs. p = spelled t xs"
proof (cases "spelled t bs \<noteq> [] \<and> whole_word t (spelled t bs)")
  case True
  then show ?thesis using assms(2) by (auto simp: bpe_pieces_def)
next
  case False
  have "\<forall>p \<in> set (merge_pieces (bpe_key t) (char_pieces (spelled t bs))). \<exists>xs. p = spelled t xs"
  proof (rule merge_keeps)
    show "\<exists>zs. x @ y = spelled t zs" if "\<exists>xs. x = spelled t xs" "\<exists>ys. y = spelled t ys" for x y
      using that spelled_simps(3) by metis
    have "\<exists>xs. byte_char t b = spelled t xs" for b by (rule exI [of _ "[b]"]) simp
    then show "\<forall>p \<in> set (char_pieces (spelled t bs)). \<exists>xs. p = spelled t xs"
      unfolding char_pieces_spelled [OF assms(1)] by auto
  qed
  then show ?thesis using assms(2) False by (auto simp: bpe_pieces_def)
qed

subsection \<open>The round trip\<close>

definition shown :: "tokenizer \<Rightarrow> int \<Rightarrow> bool" where
  "shown t i \<longleftrightarrow> token_type t (nat i) \<noteq> TT_CONTROL \<and> token_type t (nat i) \<noteq> TT_UNUSED"

text \<open>The vocabulary is the table of the tokens, and has every byte.\<close>

definition byte_vocab :: "tokenizer \<Rightarrow> bool" where
  "byte_vocab t \<longleftrightarrow> t_model t = TOK_BPE \<and> alphabet t \<and> (\<forall>k. vocab_id t k = first_index (t_tokens t) k)
    \<and> (\<forall>b. byte_char t b \<in> set (t_tokens t))"

lemma decode_id:
  assumes "byte_vocab t" "spelled t bs \<in> set (t_tokens t)" "shown t (vocab_id t (spelled t bs))" "length bs \<le> room"
  shows "tok_decode t (vocab_id t (spelled t bs)) room = bs"
proof -
  let ?i = "first_index (t_tokens t) (spelled t bs)"
  have v: "vocab_id t (spelled t bs) = ?i" using assms(1) by (simp add: byte_vocab_def)
  have i: "0 \<le> ?i" "?i < int (length (t_tokens t))" "t_tokens t ! nat ?i = spelled t bs"
    using first_index_iff(2,3) [of "t_tokens t"] first_index_nth assms(2) by auto
  have "decode_chars t room (spelled t bs) [] = bs"
    using decode_spelled [of t "[]" bs room] assms(1,4) by (simp add: byte_vocab_def)
  then show ?thesis using i assms(1,3) unfolding v by (simp add: tok_decode_def Let_def byte_vocab_def shown_def)
qed

definition decode_all :: "tokenizer \<Rightarrow> nat \<Rightarrow> int list \<Rightarrow> bytes" where
  "decode_all t room ids = concat (map (\<lambda>i. tok_decode t i room) ids)"

lemma decode_all_simps [simp]:
  "decode_all t room [] = []" "decode_all t room (xs @ ys) = decode_all t room xs @ decode_all t room ys"
  "decode_all t room (i # xs) = tok_decode t i room @ decode_all t room xs"
  by (simp_all add: decode_all_def)

lemma decode_concat: "decode_all t room (concat xss) = concat (map (decode_all t room) xss)"
  by (induction xss) simp_all

lemma decode_piece:
  assumes t: "byte_vocab t" and s: "\<forall>i \<in> set (bpe_piece_ids t (spelled t bs)). shown t i" and l: "length bs \<le> room"
  shows "decode_all t room (bpe_piece_ids t (spelled t bs)) = bs"
proof (cases "spelled t bs \<in> set (t_tokens t)")
  case True
  have "\<not> vocab_id t (spelled t bs) < 0" using t True first_index_iff(3) [of "t_tokens t" "spelled t bs"] by (simp add: byte_vocab_def)
  then show ?thesis using decode_id [OF t True _ l] s by (simp add: bpe_piece_ids_def)
next
  case False
  have "vocab_id t (spelled t bs) < 0" using t False first_index_iff(3) [of "t_tokens t" "spelled t bs"] by (simp add: byte_vocab_def)
  moreover have "piece_ids t (byte_char t b) = [vocab_id t (byte_char t b)]" for b
    using t first_index_iff(3) [of "t_tokens t" "byte_char t b"] by (simp add: piece_ids_def byte_vocab_def)
  ultimately have ids: "bpe_piece_ids t (spelled t bs) = map (\<lambda>b. vocab_id t (byte_char t b)) bs"
    using t cut_chars_spelled [of t bs] by (simp add: bpe_piece_ids_def byte_vocab_def comp_def)
  have "tok_decode t (vocab_id t (byte_char t b)) room = [b]" if "b \<in> set bs" for b
    using decode_id [OF t, of "[b]" room] t s that l unfolding ids by (cases bs) (auto simp: byte_vocab_def)
  then have m: "map (\<lambda>b. tok_decode t (vocab_id t (byte_char t b)) room) bs = map (\<lambda>b. [b]) bs" by simp
  have "decode_all t room (bpe_piece_ids t (spelled t bs)) = concat (map (\<lambda>b. tok_decode t (vocab_id t (byte_char t b)) room) bs)"
    unfolding ids decode_all_def by (simp add: comp_def)
  then show ?thesis unfolding m by simp
qed

lemma part_length: "p \<in> set ps \<Longrightarrow> length p \<le> length (concat ps)"
  by (induction ps) auto

lemma decode_word:
  assumes t: "byte_vocab t" and s: "\<forall>i \<in> set (word_ids t (spelled t bs)). shown t i" and l: "length bs \<le> room"
  shows "decode_all t room (word_ids t (spelled t bs)) = bs"
proof -
  have al: "alphabet t" using t by (simp add: byte_vocab_def)
  have "\<exists>xss. ps = map (spelled t) xss" if "\<forall>p \<in> set ps. \<exists>xs. p = spelled t xs" for ps
    using that
  proof (induction ps)
    case (Cons p ps)
    then obtain xs xss where "p = spelled t xs" "ps = map (spelled t) xss" by auto
    then show ?case by (intro exI [of _ "xs # xss"]) simp
  qed simp
  then obtain xss where x: "bpe_pieces t (spelled t bs) = map (spelled t) xss" using pieces_spelled [OF al] by metis
  have "concat (bpe_pieces t (spelled t bs)) = spelled t bs" by (simp add: bpe_pieces_def merge_pieces_concat char_pieces_concat)
  then have c: "concat xss = bs" unfolding x spelled_concat [symmetric] by (rule spelled_inj [OF al])
  have "decode_all t room (bpe_piece_ids t (spelled t xs)) = xs" if "xs \<in> set xss" for xs
  proof (rule decode_piece [OF t])
    show "\<forall>i \<in> set (bpe_piece_ids t (spelled t xs)). shown t i" using s that by (auto simp: word_ids_def x)
    have "length xs \<le> length (concat xss)" by (rule part_length [OF that])
    then show "length xs \<le> room" using l c by simp
  qed
  then show ?thesis unfolding word_ids_def x decode_concat using c by (simp add: comp_def map_idI)
qed

lemma raw_reads_back:
  assumes t: "byte_vocab t" and r: "small_ranks t" and s: "length s < 2 ^ 60" "length s \<le> room"
    and e: "tok_encode_raw t tab force alloc s cap = Some (Some ids)" "length ids < cap" and sh: "\<forall>i \<in> set ids. shown t i"
  shows "concat (map (\<lambda>i. tok_decode t i room) ids) = s"
proof (cases "s = []")
  case True
  then show ?thesis using e by (simp add: tok_encode_raw_def)
next
  case False
  let ?ps = "text_pre_tokens t tab s"
  let ?ids = "concat (map (\<lambda>p. word_ids t (concat (map (byte_char t) p))) ?ps)"
  note g = bpe_encode_gives [OF r s(1), where tab = tab and force = force and alloc = alloc and cap = cap and out = "[]"]
  have "bpe_encode_split t tab force alloc s cap [] = Some (ids, False)"
    using e(1) t False by (auto simp: tok_encode_raw_def byte_vocab_def split: prod.splits if_splits)
  then have "ids = take cap ?ids" using g by simp
  then have ids: "ids = ?ids" using e(2) by (simp add: min_def split: if_splits)
  have "decode_all t room (word_ids t (spelled t p)) = p" if "p \<in> set ?ps" for p
  proof (rule decode_word [OF t])
    show "\<forall>i \<in> set (word_ids t (spelled t p)). shown t i" using sh that unfolding ids by (auto simp: spelled_def)
    have "length p \<le> length (concat ?ps)" by (rule part_length [OF that])
    then show "length p \<le> room" using g s(2) by simp
  qed
  then have "decode_all t room ids = concat ?ps" unfolding ids decode_concat by (simp add: spelled_def [symmetric] comp_def map_idI)
  then show ?thesis using g by (simp add: decode_all_def)
qed

text \<open>
  Property C14. Encoding and decoding are inverse. A tokenizer of the byte-level family has its tokens in
  its table, the byte alphabet of \<^verbatim>\<open>tokenizer_init\<close>, and the character of every byte among its tokens.
  Whatever the text, the split rule, the classes of characters and the merges are, when \<^verbatim>\<open>tok_encode_raw\<close>
  gives ids with room to spare, and none of them is a control or an unused token, decoding them one after the
  other gives the bytes of the text. A piece the merges built that is no token comes back through its characters.
\<close>

theorem raw_roundtrip:
  assumes "t_model t = TOK_BPE" "t_b2u t = fst byte_tables" "t_u2b t = snd byte_tables"
    and "load_table alloc' (t_tokens t) = Some (t_vocab t)" "length (t_tokens t) < 2 ^ 31" "\<forall>k \<in> set (t_tokens t). length k < 2 ^ 32"
    and "\<forall>b. byte_char t b \<in> set (t_tokens t)" "small_ranks t"
    and "length s < 2 ^ 60" "length s \<le> room"
    and "tok_encode_raw t tab force alloc s cap = Some (Some ids)" "length ids < cap"
    and "\<forall>i \<in> set ids. token_type t (nat i) \<noteq> TT_CONTROL \<and> token_type t (nat i) \<noteq> TT_UNUSED"
  shows "concat (map (\<lambda>i. tok_decode t i room) ids) = s"
proof -
  have "byte_vocab t"
    using assms(1-3,7) load_lookup [OF assms(5,6,4)] by (simp add: byte_vocab_def alphabet_def vocab_id_def)
  moreover have "\<forall>i \<in> set ids. shown t i" using assms(13) by (simp add: shown_def)
  ultimately show ?thesis using raw_reads_back [OF _ assms(8-12)] by blast
qed

text \<open>A vocabulary of the bytes and "ab", and "abac c" in it.\<close>

definition byte_toks :: "bytes list" where
  "byte_toks = map (\<lambda>k. u8_encode (fst byte_tables ! k)) [0..<256] @ [ascii ''ab'']"

definition demo_bytes :: tokenizer where
  "demo_bytes = demo_bpe\<lparr>t_tokens := byte_toks, t_vocab := the (load_table (\<lambda>_. True) byte_toks),
     t_b2u := fst byte_tables, t_u2b := snd byte_tables\<rparr>"

lemma demo_bytes_ok:
  "length byte_toks < 2 ^ 31" "\<forall>k \<in> set byte_toks. length k < 2 ^ 32"
  "load_table (\<lambda>_. True) byte_toks = Some (t_vocab demo_bytes)" "\<forall>b. byte_char demo_bytes b \<in> set byte_toks" "small_ranks demo_bytes"
proof -
  have l: "length (u8_encode c) < 2 ^ 32" for c by (simp add: u8_encode_def)
  show t: "length byte_toks < 2 ^ 31" "\<forall>k \<in> set byte_toks. length k < 2 ^ 32"
    using l by (auto simp: byte_toks_def ascii_def)
  show "load_table (\<lambda>_. True) byte_toks = Some (t_vocab demo_bytes)"
    using load_succeeds [OF t, of "\<lambda>_. True"] by (auto simp: hmap_init_def Let_def demo_bytes_def)
  show "\<forall>b. byte_char demo_bytes b \<in> set byte_toks"
  proof
    fix b :: u8
    have "unat b < 256" using unsigned_less [of b, where ?'a = nat] by simp
    then have "u8_encode (fst byte_tables ! unat b) \<in> set (map (\<lambda>k. u8_encode (fst byte_tables ! k)) [0..<256])" by simp
    then show "byte_char demo_bytes b \<in> set byte_toks" by (simp add: byte_char_def demo_bytes_def byte_toks_def)
  qed
  show "small_ranks demo_bytes" using demo_tables(3) by (simp add: small_ranks_def demo_bytes_def)
qed

theorem bpe_encode_exact_witness:
  "small_ranks demo_bytes \<and> length (ascii ''abac c'') < 2 ^ 60
    \<and> concat (text_pre_tokens demo_bytes [] (ascii ''abac c'')) = ascii ''abac c''
    \<and> (\<exists>ids. bpe_encode_split demo_bytes [] 1 (\<lambda>_. True) (ascii ''abac c'') 9 [] = Some (ids, False))"
proof -
  have l: "length (ascii ''abac c'') < 2 ^ 60" by (simp add: ascii_def)
  show ?thesis
    using bpe_encode_exact [OF demo_bytes_ok(5) l, where tab = "[]" and force = 1 and alloc = "\<lambda>_. True" and cap = 9 and out = "[]"]
      demo_bytes_ok(5) l by (auto split: option.splits)
qed

theorem raw_roundtrip_witness:
  "\<exists>cap ids. tok_encode_raw demo_bytes [] 1 (\<lambda>_. True) (ascii ''abac c'') cap = Some (Some ids) \<and> length ids < cap
    \<and> concat (map (\<lambda>i. tok_decode demo_bytes i 6) ids) = ascii ''abac c''"
proof -
  let ?s = "ascii ''abac c''" and ?t = demo_bytes
  have l: "length ?s < 2 ^ 60" "length ?s \<le> 6" by (simp_all add: ascii_def)
  define ids where "ids = concat (map (\<lambda>p. word_ids ?t (concat (map (byte_char ?t) p))) (text_pre_tokens ?t [] ?s))"
  have "bpe_encode_split ?t [] 1 (\<lambda>_. True) ?s (Suc (length ids)) [] = Some (ids, False)"
    using bpe_encode_gives [OF demo_bytes_ok(5) l(1), where tab = "[]" and force = 1 and alloc = "\<lambda>_. True" and cap = "Suc (length ids)" and out = "[]"]
    by (auto simp: ids_def [symmetric] split: option.splits if_splits)
  moreover have m: "t_model ?t = TOK_BPE" "t_tokens ?t = byte_toks" "t_b2u ?t = fst byte_tables" "t_u2b ?t = snd byte_tables" "t_ttype ?t = None"
    by (simp_all add: demo_bytes_def demo_bpe_def)
  ultimately have e: "tok_encode_raw ?t [] 1 (\<lambda>_. True) ?s (Suc (length ids)) = Some (Some ids)"
    by (simp add: tok_encode_raw_def ascii_def)
  have "concat (map (\<lambda>i. tok_decode ?t i 6) ids) = ?s"
    using raw_roundtrip [OF m(1,3,4) _ _ _ _ demo_bytes_ok(5) l e] m demo_bytes_ok
    by (simp add: token_type_def TT_NORMAL_def TT_CONTROL_def TT_UNUSED_def)
  then show ?thesis using e by blast
qed

text \<open>The family that writes spaces as U+2581 is not injective: that character reads back as a space.\<close>

lemma mark_is_space: "mark_spaces SPACE_MARK = mark_spaces [0x20]"
  by (simp add: mark_spaces_def SPACE_MARK_def)

lemma raw_mark_lost:
  assumes "t_model t = TOK_SPM" "\<And>n. alloc n"
  shows "tok_encode_raw t tab force alloc SPACE_MARK cap = tok_encode_raw t tab force alloc [0x20] cap"
  using assms by (simp add: tok_encode_raw_def spm_encode_text_def mark_is_space) (simp add: SPACE_MARK_def)

end
