(* ===== verification/Spec2Isabelle.thy ===== *)
theory Spec2Isabelle
  imports Json_Trial Json_Close Json_Dump Json_Sort Resp_Store
    Http_Request Http_Reply Http_Stream Scheduler Device_Turn Sched_Start
    Gguf_Access Gguf_Split Sha256_Hw Vram_World Watermark Tok_Encode
begin

text \<open>
  A verification library for xyntetik-runner, a C program that serves language models over HTTP. All
  paths below are under \<^verbatim>\<open>src/src/\<close>. The definitions follow the C code function by function and branch
  by branch and keep its names; they are executable.

  \<^bold>\<open>The parts of the program that are modelled, and how they meet.\<close> A request arrives as bytes: the
  request checks of http.c frame it, \<^verbatim>\<open>json_parse\<close> (json.c) reads its body, and the Responses store
  (respstore.c) supplies an earlier turn. A slot thread then generates: it hands one forward pass at a time
  to the scheduler (scheduler.c), whose worker batches the slots over one device. When the reply must
  be JSON, every byte of a candidate token is tried on the streaming validator (jsonmode.c), and a reply
  cut off by its budget is completed by \<^verbatim>\<open>jsonv_close\<close>. The watermark (watermark.c) reweights the
  candidates. What is generated goes out through the bounded stream queue of http.c. The model itself
  comes from GGUF files (gguf.c), whose digests are SHA-256 (envelope.c), and is placed on a device that
  other processes share, which the VRAM registry (vramreg.c) arbitrates through one locked file.

  \<^bold>\<open>Theories, bottom up.\<close>
  \<^item> \<open>Prelude\<close>: the machine types (\<^verbatim>\<open>uint8_t\<close> to \<^verbatim>\<open>uint64_t\<close> are words, so arithmetic wraps as in C),
    byte classes, decimal text, and facts on lists. \<open>Probe\<close>: the linear-probing loop of hash tables.
  \<^item> \<open>Json_Text\<close>, \<open>Json_String\<close> (json.c: \<^verbatim>\<open>u8_emit\<close>, \<^verbatim>\<open>utf8_seq\<close>, \<^verbatim>\<open>parse_string\<close>, \<^verbatim>\<open>json_unescape\<close>): the
    recogniser of UTF-8 accepts exactly what the encoder writes; the two string decoders agree.
    \<open>Json_Keyset\<close> (\<^verbatim>\<open>keyset_insert\<close>): the duplicate-key set meets the contract \<open>fresh_set\<close>.
    \<open>Json_Parse\<close> (\<^verbatim>\<open>json_parse\<close>): the parser, and that it returns.
    \<open>Json_Escape\<close>, \<open>Json_Dump\<close>, \<open>Json_Sort\<close> (\<^verbatim>\<open>json_escape\<close>, \<^verbatim>\<open>sbuf\<close>, \<^verbatim>\<open>jv_get\<close>, \<^verbatim>\<open>jv_set\<close>, \<^verbatim>\<open>jv_dump\<close>,
    \<^verbatim>\<open>jv_dictsort\<close>): what is written reads back as the value; the order of members. Objects meet \<open>dict\<close>.
  \<^item> \<open>Json_Stream\<close> (jsonmode.c: \<^verbatim>\<open>jsonv_feed\<close>, \<^verbatim>\<open>jsonv_snapshot\<close>, \<^verbatim>\<open>jsonv_trial\<close>, \<^verbatim>\<open>jsonv_close\<close>): the validator
    \<^verbatim>\<open>jsonv\<close> as a record with the fields of the C struct, one definition for each state of its \<^verbatim>\<open>switch\<close>.
    \<open>Json_View\<close> and \<open>Json_Live\<close>: the live part of its arrays, the invariant of the states it reaches.
    \<open>Json_Stream_String\<close> and \<open>Json_Agree\<close>: a simulation of the recursive-descent parser by the machine; what
    the validator accepts, the parser reads. \<open>Json_Trial\<close>: a trial answers as a feed would. \<open>Json_Close\<close>: the
    closer completes every document.
  \<^item> \<open>Resp_Store\<close> (respstore.c): the linked list of entries refines \<open>lossy_store\<close>, a map that may forget but
    never answers with anything else than what was stored last.
  \<^item> \<open>Http_Request\<close>, \<open>Http_Reply\<close>, \<open>Http_Stream\<close> (http.c): the request line, the framing headers and the
    Host and Origin checks against plain descriptions of what they should accept; reply heads and error
    bodies within their buffers; the queue \<^verbatim>\<open>stream_out\<close> delivers bytes in order whatever the socket does.
  \<^item> \<open>Scheduler\<close>, \<open>Device_Turn\<close>, \<open>Sched_Start\<close> (scheduler.c): the slots, the worker and the shutdown as
    atomic steps, one for each stretch under the mutex, in any interleaving; the ticket lock of the device;
    what each failure path of the start gives back.
  \<^item> \<open>Gguf_Read\<close>, \<open>Gguf_Open\<close>, \<open>Gguf_Split\<close>, \<open>Gguf_Access\<close> (gguf.c, the size table of quants.c, the overflow
    checks of compat.h): the cursor, metadata, tensor table, validation, split files, companion scales,
    attachment and getters. \<open>Gguf_Format\<close> and \<open>Gguf_Header\<close> say what the format is, from the side of a writer,
    and that the reader accepts exactly that; \<open>Gguf_Place\<close> that tensors stay inside the mapping.
  \<^item> \<open>Sha256\<close>, \<open>Sha256_Hw\<close> (envelope.c): the digest against FIPS 180-4 written as a function of the whole
    message; the x86 and Arm instruction sequences against the portable code; hexadecimal text.
  \<^item> \<open>Vram_Text\<close>, \<open>Vram_Claim\<close>, \<open>Vram_Lease\<close>, \<open>Vram_World\<close> (vramreg.c, \<^verbatim>\<open>plat_file_rmw\<close> of compat.c): the
    registry's text format, one poll of a claim, the life of a claim from queue to release, and any number
    of processes over one file.
  \<^item> \<open>Watermark\<close> (watermark.c): SipHash, key files, the reweighting as the tournament it stands for, and
    the detector against the engine's hook.
  \<^item> \<open>Tok_Map\<close>, \<open>Tok_Heap\<close>, \<open>Tok_Merge\<close>, \<open>Tok_Exact\<close>, \<open>Tok_Spm\<close>, \<open>Tok_Bpe\<close> (tokenizer.c: \<^verbatim>\<open>hmap\<close>, \<^verbatim>\<open>mheap\<close>,
    \<^verbatim>\<open>spm_encode_text\<close>, \<^verbatim>\<open>bpe_word\<close>): the string table meets \<open>first_wins\<close>, the heap meets \<open>best_first\<close>, and the two
    loops that merge symbols, the rescan and the queue with its stale candidates, compute the same pieces:
    the proof is done once in \<open>merger\<close>, for any key of a pair, and interpreted for scores and for ranks.
  \<^item> \<open>Tok_Regex\<close>, \<open>Tok_Split\<close>, \<open>Tok_Rules\<close>, \<open>Tok_Pieces\<close>, \<open>Tok_Encode\<close> (tokenizer.c: the \<^verbatim>\<open>*_split_next\<close> functions,
    \<^verbatim>\<open>bpe_encode_split\<close>, \<^verbatim>\<open>tok_encode_raw\<close>, \<^verbatim>\<open>tok_decode\<close>): a backtracking matcher for the regular expressions the
    publishers give; nine hand-written rules return its first match; under every rule the pieces make up the text;
    and encoding and decoding are inverse. The generated table of character classes is a parameter.
  \<^bold>\<open>How state and operations correspond.\<close> A C struct is a record with its fields; an operation takes and
  returns the records it may change. A linked list is a list in the order of its links; a buffer is the
  list of its bytes, a cursor the list of the bytes that remain, an array updated by index a list of fixed
  length. \<^verbatim>\<open>NULL\<close>, -1 and error returns are \<open>None\<close> or a value of an error type. A lock makes the code it
  guards one step. What the code asks of its surroundings (allocation, clock, environment, socket,
  processes, files, \<^verbatim>\<open>strtod\<close>, \<^verbatim>\<open>printf\<close> of a floating-point number, \<^verbatim>\<open>mmap\<close>, the batched forward pass) is an
  argument: a function, or a list with one answer for each question, so that a theorem covers every
  answer. A C \<^verbatim>\<open>long\<close> has 64 bits, \<^verbatim>\<open>int\<close> 32; the machine is little-endian, as the code requires.

  \<^bold>\<open>Loops and their bounds.\<close> Recursion is structural or has a measure where the code's loop has one. Fuel is
  used where the loop's bound is itself a property: \<open>json_parse\<close> gives its descent \<open>2 * n + 1\<close> for a text
  of \<open>n\<close> bytes, and \<open>parser_terminates\<close> shows that any larger fuel gives the same answer; a probing loop
  gets the size of its table, and ends because a slot is always empty; the closer's guard loop has the
  code's own 64 rounds, and \<open>dodge_escapes\<close> shows they are enough. \<open>vram_claim\<close> runs over the list of its
  polls and is shown to have ended at the first poll past the deadline.
  The queue's loop of the tokenizer gets \<open>3 * n\<close> for \<open>n\<close> symbols, since \<open>n - 1\<close> candidates are pushed at the
  start and two after each of at most \<open>n - 1\<close> merges; \<open>merge_queue_correct\<close> shows it never runs out.

  \<^bold>\<open>Arithmetic.\<close> Integers have their width. A finite \<^verbatim>\<open>double\<close> or \<^verbatim>\<open>float\<close> read from a file is the rational it
  denotes. Where the code computes in floating point (times of the response store, the watermark's
  probabilities and scores) the model computes exactly, in an ordered field; rounding is not
  modelled. \<^verbatim>\<open>sqrt\<close> and \<^verbatim>\<open>erfc\<close> are parameters.

  \<^bold>\<open>What modelling showed.\<close> \<open>Gguf_Place.sole_tensor_unchecked\<close>: the NVFP4 layout check never sees the last
  tensor. \<open>Vram_Claim.free_figure_is_net\<close>: a refusal subtracts the claims in flight and then names them next to
  the figure. \<open>Vram_Text.nine_fields_taken\<close>, \<open>Http_Stream.refused_after_partial_send\<close> and
  \<open>Scheduler.late_submit_is_stale\<close>: three comments that promise more than the code does, and
  \<open>Tok_Encode.raw_mark_lost\<close> a fourth: a U+2581 in a text reads back as a space. The validator accepts
  numbers out of the range of \<^verbatim>\<open>double\<close> that the parser refuses, so \<open>accepted_parses\<close> has a hypothesis on
  them. The detector scores position 0 when a text starts there, which the engine never marks.

  \<^bold>\<open>Not modelled.\<close> The forward pass (model.c), the quantised kernels (quants.c) and the GPU code (cuda.c,
  kernels.cu, metal.m and the generated images kernels_ptx.h, kernels_ptx80.h, kernels_metal.h, which are
  three quarters of all lines): float arithmetic whose result no exact model describes, or compiler output.
  Sampling (sample.c), heads and losses (decide.c, clef.c, dpo.c), for the same reason. The schema
  compiler (schema.c, schema_tools.c) and the template interpreter (template.c), for their size. The
  handlers that join the parts (server.c, completion.c, api_anthropic.c, api_responses.c, registry.c,
  engine.c, main.c). Signatures (ecdsa.c, ed25519.c, mldsa.c), mostly third-party code. Files, processes
  and sub-processes (receipts.c, bundle.c, lineage.c, provenance.c, oms.c, session.c, kvsnap.c, instances.c, hfhub.c,
  npy.c, quantize.c, derive.c, tray.c), NFC, special tokens and the metadata of tokenizer.c, and the rest of the platform layer (compat.c). Within the modelled
  parts: memory that is freed, messages printed on \<^verbatim>\<open>stderr\<close>, the socket calls of http.c, and
  \<^verbatim>\<open>gguf_get_f32\<close>.
\<close>

end
